(* ===== verification/Prelude.thy ===== *)
theory Prelude
  imports Main "HOL-Library.Word"
begin

text \<open>
  Shared vocabulary of the development: the machine types of the C++ sources, the
  outcome of a call (value, exception, endless loop, undefined behaviour), state-passing
  programs over them, and the byte-list operations behind every memory access.
  Nothing here models a particular component.
\<close>

unbundle bit_operations_syntax

named_theorems prog_simps \<open>evaluation of state-passing programs\<close>
named_theorems mem_simps \<open>reading and writing byte lists\<close>

section \<open>Machine types\<close>

text \<open>
  A C++ \<open>int\<close> (\<open>long\<close>) is an \<^typ>\<open>int\<close> whose arithmetic results are reduced to 32
  (64) bits in two's complement, which is what the supported compiler does on overflow.
  Bytes and the fixed-width values stored in buffers are words; a signed and an unsigned
  value of the same width have the same bits, and \<open>float\<close> and \<open>double\<close> values, which the
  code only copies, are their 32 and 64 bits.
\<close>

type_synonym byte = "8 word"
type_synonym i16bits = "16 word"
type_synonym i32bits = "32 word"
type_synonym i64bits = "64 word"

abbreviation INT_MAX :: int where "INT_MAX \<equiv> 2147483647"
abbreviation INT_MIN :: int where "INT_MIN \<equiv> - 2147483648"

definition i32 :: "int \<Rightarrow> int" where
  "i32 x = (x + 2147483648) mod 4294967296 - 2147483648"

definition i64 :: "int \<Rightarrow> int" where
  "i64 x = (x + 9223372036854775808) mod 18446744073709551616 - 9223372036854775808"

lemma i32_id [simp]: "INT_MIN \<le> x \<Longrightarrow> x \<le> INT_MAX \<Longrightarrow> i32 x = x"
  by (simp add: i32_def)

lemma i64_id [simp]:
  "- 9223372036854775808 \<le> x \<Longrightarrow> x \<le> 9223372036854775807 \<Longrightarrow> i64 x = x"
  by (simp add: i64_def)

lemma i32_range: "INT_MIN \<le> i32 x" "i32 x \<le> INT_MAX"
proof -
  have "0 \<le> (x + 2147483648) mod 4294967296" "(x + 2147483648) mod 4294967296 < 4294967296"
    by simp_all
  then show "INT_MIN \<le> i32 x" "i32 x \<le> INT_MAX" by (simp_all add: i32_def)
qed

text \<open>One addition too far wraps to a negative number.\<close>

lemma i32_wrap_neg:
  assumes "INT_MAX < x" "x \<le> 4294967295"
  shows "i32 x = x - 4294967296"
proof -
  have "(x + 2147483648) mod 4294967296 = (x + 2147483648 - 4294967296) mod 4294967296"
    by (metis minus_mod_self2)
  also have "\<dots> = x + 2147483648 - 4294967296"
    using assms by (intro mod_pos_pos_trivial) auto
  finally show ?thesis by (simp add: i32_def)
qed

section \<open>Outcomes and programs\<close>

text \<open>
  \<open>Throw\<close> is a C++ exception with its class and the fixed part of its message; \<open>Hang\<close> is
  a loop that never ends; \<open>Undef\<close> is undefined behaviour: an access outside an array, a
  null pointer dereferenced, an overlapping \<open>memcpy\<close>, a failed \<open>BOOST_ASSERT\<close>.
\<close>

datatype exn =
    RuntimeError string
  | IllegalArgumentException string
  | DecoderException string
  | BadAlloc

datatype 'a outcome = Ok 'a | Throw exn | Hang | Undef

fun map_ok :: "('a \<Rightarrow> 'b) \<Rightarrow> 'a outcome \<Rightarrow> 'b outcome" where
  "map_ok f (Ok a) = Ok (f a)"
| "map_ok f (Throw e) = Throw e"
| "map_ok f Hang = Hang"
| "map_ok f Undef = Undef"

text \<open>
  A program takes the state and returns its outcome and the state it leaves, also when it
  throws: what was written before an exception stays written.
\<close>

type_synonym ('s, 'a) prog = "'s \<Rightarrow> 'a outcome \<times> 's"

definition ret :: "'a \<Rightarrow> ('s, 'a) prog" where
  "ret a s = (Ok a, s)"

definition raise :: "exn \<Rightarrow> ('s, 'a) prog" where
  "raise e s = (Throw e, s)"

definition bindp :: "('s, 'a) prog \<Rightarrow> ('a \<Rightarrow> ('s, 'b) prog) \<Rightarrow> ('s, 'b) prog" where
  "bindp m f s =
     (case m s of
        (Ok a, s') \<Rightarrow> f a s'
      | (Throw e, s') \<Rightarrow> (Throw e, s')
      | (Hang, s') \<Rightarrow> (Hang, s')
      | (Undef, s') \<Rightarrow> (Undef, s'))"

definition seqp :: "('s, 'a) prog \<Rightarrow> ('s, 'b) prog \<Rightarrow> ('s, 'b) prog" where
  "seqp m k = bindp m (\<lambda>_. k)"

fun doM :: "('s, unit) prog list \<Rightarrow> ('s, unit) prog" where
  "doM [] = ret ()"
| "doM [m] = m"
| "doM (m # ms) = seqp m (doM ms)"

definition asks :: "('s \<Rightarrow> 'a) \<Rightarrow> ('s, 'a) prog" where
  "asks f s = (Ok (f s), s)"

definition modify :: "('s \<Rightarrow> 's) \<Rightarrow> ('s, unit) prog" where
  "modify f s = (Ok (), f s)"

definition lift_outcome :: "('s \<Rightarrow> 'a outcome) \<Rightarrow> ('s, 'a) prog" where
  "lift_outcome f s = (f s, s)"

definition assertp :: "('s \<Rightarrow> bool) \<Rightarrow> ('s, unit) prog" where
  "assertp P s = (if P s then Ok () else Undef, s)"

definition throw_if :: "('s \<Rightarrow> bool) \<Rightarrow> exn \<Rightarrow> ('s, unit) prog" where
  "throw_if P e s = (if P s then Throw e else Ok (), s)"

definition ifp :: "('s \<Rightarrow> bool) \<Rightarrow> ('s, 'a) prog \<Rightarrow> ('s, 'a) prog \<Rightarrow> ('s, 'a) prog" where
  "ifp P m k s = (if P s then m s else k s)"

text \<open>Run a program on one part of a larger state.\<close>

definition zoom :: "('t \<Rightarrow> 's) \<Rightarrow> ('s \<Rightarrow> 't \<Rightarrow> 't) \<Rightarrow> ('s, 'a) prog \<Rightarrow> ('t, 'a) prog" where
  "zoom get put m t = (case m (get t) of (r, s') \<Rightarrow> (r, put s' t))"

lemma ret_run [prog_simps]: "ret a s = (Ok a, s)"
  and raise_run [prog_simps]: "raise e s = (Throw e, s)"
  and asks_run [prog_simps]: "asks f s = (Ok (f s), s)"
  and modify_run [prog_simps]: "modify g s = (Ok (), g s)"
  and lift_outcome_run [prog_simps]: "lift_outcome h s = (h s, s)"
  and assertp_run [prog_simps]: "assertp P s = (if P s then Ok () else Undef, s)"
  and throw_if_run [prog_simps]: "throw_if P e s = (if P s then Throw e else Ok (), s)"
  and ifp_run [prog_simps]: "ifp P m k s = (if P s then m s else k s)"
  by (simp_all add: ret_def raise_def asks_def modify_def lift_outcome_def assertp_def
      throw_if_def ifp_def)

lemma bindp_Ok [prog_simps]: "m s = (Ok a, s') \<Longrightarrow> bindp m f s = f a s'"
  and bindp_Throw [prog_simps]: "m s = (Throw e, s') \<Longrightarrow> bindp m f s = (Throw e, s')"
  and bindp_Hang [prog_simps]: "m s = (Hang, s') \<Longrightarrow> bindp m f s = (Hang, s')"
  and bindp_Undef [prog_simps]: "m s = (Undef, s') \<Longrightarrow> bindp m f s = (Undef, s')"
  by (simp_all add: bindp_def)

lemma seqp_Ok [prog_simps]: "m s = (Ok a, s') \<Longrightarrow> seqp m k s = k s'"
  and seqp_Throw [prog_simps]: "m s = (Throw e, s') \<Longrightarrow> seqp m k s = (Throw e, s')"
  and seqp_Hang [prog_simps]: "m s = (Hang, s') \<Longrightarrow> seqp m k s = (Hang, s')"
  and seqp_Undef [prog_simps]: "m s = (Undef, s') \<Longrightarrow> seqp m k s = (Undef, s')"
  by (simp_all add: seqp_def bindp_def)

lemma zoom_run [prog_simps]: "m (get t) = (r, s') \<Longrightarrow> zoom get put m t = (r, put s' t)"
  by (simp add: zoom_def)

lemma bindp_OkE:
  assumes "bindp m f s = (Ok b, t)"
  obtains a s' where "m s = (Ok a, s')" "f a s' = (Ok b, t)"
  using assms by (auto simp: bindp_def split: prod.splits outcome.splits)

lemma seqp_OkE:
  assumes "seqp m k s = (Ok b, t)"
  obtains a s' where "m s = (Ok a, s')" "k s' = (Ok b, t)"
  using assms by (auto simp: seqp_def elim: bindp_OkE)

lemma doM_Ok [prog_simps]: "m s = (Ok (), s') \<Longrightarrow> doM (m # ms) s = doM ms s'"
  by (cases ms) (simp_all add: prog_simps)

lemma doM_Throw [prog_simps]: "m s = (Throw e, s') \<Longrightarrow> doM (m # ms) s = (Throw e, s')"
  and doM_Hang [prog_simps]: "m s = (Hang, s') \<Longrightarrow> doM (m # ms) s = (Hang, s')"
  and doM_Undef [prog_simps]: "m s = (Undef, s') \<Longrightarrow> doM (m # ms) s = (Undef, s')"
  by (cases ms; simp add: prog_simps)+

section \<open>Byte lists as memory\<close>

text \<open>
  \<open>poke\<close> is a store of consecutive bytes (a \<open>memcpy\<close> into an array, or the single
  assignments of the codecs), \<open>peek\<close> a load. Both are undefined outside the array.
\<close>

definition patch :: "nat \<Rightarrow> 'b list \<Rightarrow> 'b list \<Rightarrow> 'b list" where
  "patch i bs mem = take i mem @ bs @ drop (i + length bs) mem"

definition in_bounds :: "int \<Rightarrow> int \<Rightarrow> 'b list \<Rightarrow> bool" where
  "in_bounds i n mem \<longleftrightarrow> 0 \<le> i \<and> 0 \<le> n \<and> i + n \<le> int (length mem)"

definition poke :: "'b list \<Rightarrow> int \<Rightarrow> 'b list \<Rightarrow> 'b list outcome" where
  "poke mem i bs =
     (if in_bounds i (int (length bs)) mem then Ok (patch (nat i) bs mem) else Undef)"

definition peek :: "'b list \<Rightarrow> int \<Rightarrow> int \<Rightarrow> 'b list outcome" where
  "peek mem i n =
     (if in_bounds i n mem then Ok (take (nat n) (drop (nat i) mem)) else Undef)"

lemma length_patch [simp]: "i + length bs \<le> length mem \<Longrightarrow> length (patch i bs mem) = length mem"
  by (simp add: patch_def)

lemma patch_Nil [simp]: "patch i [] mem = mem"
  by (simp add: patch_def)

lemma patch_self [mem_simps]:
  "i + n \<le> length mem \<Longrightarrow> patch i (take n (drop i mem)) mem = mem"
  by (simp add: patch_def) (metis add.commute append_take_drop_id drop_drop)

lemma take_drop_patch_same [mem_simps]:
  "i + length bs \<le> length mem \<Longrightarrow> take (length bs) (drop i (patch i bs mem)) = bs"
  by (simp add: patch_def)

lemma take_patch [mem_simps]: "j \<le> i \<Longrightarrow> i \<le> length mem \<Longrightarrow> take j (patch i bs mem) = take j mem"
  by (simp add: patch_def min_absorb1)

lemma take_patch_end:
  "i + length bs \<le> length mem \<Longrightarrow> take (i + length bs) (patch i bs mem) = take i mem @ bs"
  by (simp add: patch_def)

lemma nth_patch:
  "i + length bs \<le> length mem \<Longrightarrow> j < length mem \<Longrightarrow>
   patch i bs mem ! j = (if i \<le> j \<and> j < i + length bs then bs ! (j - i) else mem ! j)"
  by (auto simp: patch_def nth_append min_def)

lemma patch_append:
  "i + length bs \<le> length mem \<Longrightarrow> patch i bs (mem @ ext) = patch i bs mem @ ext"
  by (simp add: patch_def)

lemma poke_Ok [mem_simps]:
  "0 \<le> i \<Longrightarrow> i + int (length bs) \<le> int (length mem) \<Longrightarrow> poke mem i bs = Ok (patch (nat i) bs mem)"
  by (simp add: poke_def in_bounds_def)

lemma poke_OkD: "poke mem i bs = Ok mem' \<Longrightarrow> mem' = patch (nat i) bs mem \<and> length mem' = length mem"
  by (auto simp: poke_def in_bounds_def split: if_splits)

lemma peek_Ok [mem_simps]:
  "0 \<le> i \<Longrightarrow> 0 \<le> n \<Longrightarrow> i + n \<le> int (length mem) \<Longrightarrow>
   peek mem i n = Ok (take (nat n) (drop (nat i) mem))"
  by (simp add: peek_def in_bounds_def)

lemma peek_Undef [mem_simps]: "int (length mem) < i + n \<Longrightarrow> peek mem i n = Undef"
  by (simp add: peek_def in_bounds_def)

end
