(* ===== verification/Links.thy ===== *)
theory Links
  imports Prelude
begin

text \<open>
  Doubly linked lists, as the pools of subpages, the chunk lists and the channel pipeline use
  them. \<open>linked nxt prv L\<close> says that the fields link the addresses of \<open>L\<close> one after the
  other, in both directions; a circular list repeats its head at the end of \<open>L\<close>.
\<close>

fun linked :: "('a \<Rightarrow> 'a) \<Rightarrow> ('a \<Rightarrow> 'a) \<Rightarrow> 'a list \<Rightarrow> bool" where
  "linked nxt prv [] = True"
| "linked nxt prv [a] = True"
| "linked nxt prv (a # b # L) = (nxt a = b \<and> prv b = a \<and> linked nxt prv (b # L))"

lemma linked_ConsD: "linked nxt prv (a # L) \<Longrightarrow> linked nxt prv L"
  by (cases L) auto

lemma linked_Cons_iff:
  "linked nxt prv (a # L) \<longleftrightarrow> L = [] \<or> (nxt a = hd L \<and> prv (hd L) = a \<and> linked nxt prv L)"
  by (cases L) auto

lemma linked_append:
  "linked nxt prv (L @ a # b # M) \<longleftrightarrow> linked nxt prv (L @ [a]) \<and> linked nxt prv (a # b # M)"
proof (induction L)
  case (Cons c L)
  then show ?case by (cases L) (auto simp: linked_Cons_iff)
qed simp

lemma linked_cong:
  assumes "\<And>x. x \<in> set (butlast L) \<Longrightarrow> nxt x = nxt' x" "\<And>x. x \<in> set (tl L) \<Longrightarrow> prv x = prv' x"
  shows "linked nxt prv L \<longleftrightarrow> linked nxt' prv' L"
  using assms
proof (induction L)
  case (Cons a L)
  show ?case
  proof (cases L)
    case (Cons b M)
    then have "linked nxt prv L \<longleftrightarrow> linked nxt' prv' L"
      using Cons.prems by (intro Cons.IH) (auto dest: list.set_sel(2) split: if_splits)
    then show ?thesis using Cons.prems Cons by simp
  qed simp
qed simp

lemma linked_neighbours:
  "linked nxt prv (L @ a # b # M) \<Longrightarrow> nxt a = b \<and> prv b = a"
  by (simp add: linked_append)

lemma in_tl: "y \<in> set (tl L) \<Longrightarrow> y \<in> set L"
  by (cases L) auto

text \<open>Insert \<open>x\<close> between the neighbours \<open>a\<close> and \<open>b\<close>.\<close>

lemma linked_insert:
  assumes "linked nxt prv (L @ a # b # M)" "x \<notin> set (L @ a # b # M)"
    and "a \<notin> set L" "a \<notin> set (butlast (b # M))" "b \<notin> set M" "b \<notin> set (tl (L @ [a]))"
  shows "linked (nxt(x := b, a := x)) (prv(x := a, b := x)) (L @ a # x # b # M)"
proof -
  have l: "linked nxt prv (L @ [a])" "linked nxt prv (b # M)"
    using assms(1) by (simp_all add: linked_append)
  have "linked (nxt(x := b, a := x)) (prv(x := a, b := x)) (L @ [a])"
    using l(1) by (subst linked_cong [where nxt' = nxt and prv' = prv])
      (use assms(2,3,6) in \<open>auto dest: in_tl simp: butlast_append\<close>)
  moreover have "linked (nxt(x := b, a := x)) (prv(x := a, b := x)) (b # M)"
    using l(2) by (subst linked_cong [where nxt' = nxt and prv' = prv])
      (use assms(2,4,5) in \<open>auto dest: in_set_butlastD simp del: butlast.simps\<close>)
  moreover have "x \<noteq> a" "x \<noteq> b" using assms(2) by auto
  ultimately show ?thesis by (simp add: linked_append)
qed

text \<open>Take out \<open>x\<close> between its neighbours.\<close>

lemma linked_remove:
  assumes "linked nxt prv (L @ a # x # b # M)"
    and "a \<notin> set L" "a \<notin> set (butlast (b # M))" "b \<notin> set M" "b \<notin> set (tl (L @ [a]))"
  shows "linked (nxt(a := b)) (prv(b := a)) (L @ a # b # M)"
proof -
  have l: "linked nxt prv (L @ [a])" "linked nxt prv (b # M)"
    using assms(1) by (simp_all add: linked_append)
  have "linked (nxt(a := b)) (prv(b := a)) (L @ [a])"
    using l(1) by (subst linked_cong [where nxt' = nxt and prv' = prv])
      (use assms(2,5) in \<open>auto dest: in_tl simp: butlast_append\<close>)
  moreover have "linked (nxt(a := b)) (prv(b := a)) (b # M)"
    using l(2) by (subst linked_cong [where nxt' = nxt and prv' = prv])
      (use assms(3,4) in \<open>auto dest: in_set_butlastD simp del: butlast.simps\<close>)
  ultimately show ?thesis by (simp add: linked_append)
qed

text \<open>A list from \<open>h\<close> to \<open>t\<close>, which may be the same: the neighbours of \<open>x\<close> and the list without it.\<close>

lemma line_remove:
  assumes "linked nxt prv (h # (ys @ x # zs) @ [t])"
    and "distinct (ys @ x # zs)" "h \<notin> set (ys @ x # zs)" "t \<notin> set (ys @ x # zs)"
  shows "prv x = last (h # ys)" "nxt x = hd (zs @ [t])"
    "linked (nxt(prv x := nxt x)) (prv(nxt x := prv x)) (h # (ys @ zs) @ [t])"
proof -
  let ?a = "last (h # ys)" and ?b = "hd (zs @ [t])"
  let ?L = "butlast (h # ys)" and ?M = "tl (zs @ [t])"
  have hy: "?L @ [?a] = h # ys" by (rule append_butlast_last_id) simp
  have tl: "?b # ?M = zs @ [t]" by (cases zs) auto
  have e: "h # (ys @ x # zs) @ [t] = ?L @ ?a # x # ?b # ?M"
  proof -
    have "?L @ ?a # x # ?b # ?M = (?L @ [?a]) @ x # ?b # ?M" by (simp del: append_butlast_last_id)
    then show ?thesis unfolding hy tl by simp
  qed
  have lk: "linked nxt prv (?L @ ?a # x # ?b # ?M)" using assms(1) unfolding e by simp
  show ab: "prv x = ?a" "nxt x = ?b"
    using lk by (auto simp only: linked_append linked.simps)
  have dy: "distinct (?L @ [?a])" unfolding hy using assms(2,3) by simp
  have "linked (nxt(?a := ?b)) (prv(?b := ?a)) (?L @ ?a # ?b # ?M)"
  proof (rule linked_remove [OF lk])
    show "?a \<notin> set ?L" using dy by (simp del: append_butlast_last_id)
    have "?a \<in> set (h # ys)" by (rule last_in_set) simp
    moreover have "butlast (?b # ?M) = zs" unfolding tl by simp
    ultimately show "?a \<notin> set (butlast (?b # ?M))" using assms(2,3) by (auto simp del: butlast.simps)
    show "?b \<notin> set ?M" using assms(2-4) by (cases zs) auto
    show "?b \<notin> set (tl (?L @ [?a]))" unfolding hy using assms(2-4) by (cases zs) auto
  qed
  moreover have "?L @ ?a # ?b # ?M = h # (ys @ zs) @ [t]"
  proof -
    have "?L @ ?a # ?b # ?M = (?L @ [?a]) @ ?b # ?M" by (simp del: append_butlast_last_id)
    then show ?thesis unfolding hy tl by simp
  qed
  ultimately show "linked (nxt(prv x := nxt x)) (prv(nxt x := prv x)) (h # (ys @ zs) @ [t])"
    by (simp only: ab)
qed

section \<open>Circular lists\<close>

definition ring :: "('a \<Rightarrow> 'a) \<Rightarrow> ('a \<Rightarrow> 'a) \<Rightarrow> 'a \<Rightarrow> 'a list \<Rightarrow> bool" where
  "ring nxt prv h xs \<longleftrightarrow> distinct (h # xs) \<and> linked nxt prv (h # xs @ [h])"

lemma ring_insert_front:
  assumes "ring nxt prv h xs" "x \<notin> set (h # xs)"
  shows "ring (nxt(x := nxt h, h := x)) (prv(x := h, nxt h := x)) h (x # xs)"
proof (cases xs)
  case Nil
  then show ?thesis using assms by (auto simp: ring_def)
next
  case (Cons b M)
  then have n: "nxt h = b" using assms(1) by (simp add: ring_def)
  have "linked (nxt(x := b, h := x)) (prv(x := h, b := x)) ([] @ h # x # b # M @ [h])"
    by (rule linked_insert) (use assms Cons in \<open>auto simp: ring_def\<close>)
  then show ?thesis using assms Cons n by (auto simp: ring_def)
qed

lemma ring_remove:
  assumes "ring nxt prv h (ys @ x # zs)"
  shows "ring (nxt(prv x := nxt x)) (prv(nxt x := prv x)) h (ys @ zs)"
  using assms line_remove(3) [of nxt prv h ys x zs h] by (auto simp: ring_def)

end
