(* ===== verification/SizeMath.thy ===== *)
theory SizeMath
  imports Prelude
begin

text \<open>
  The integer routines of the buffer component: \<open>CommUtil\<close> (src/include/CommUtil.hpp), the
  logarithms of \<open>PoolChunk\<close> and \<open>PoolThreadCache\<close>, the size classes of \<open>PoolArena\<close> and the
  parameter checks of \<open>PooledCharBufAllocator\<close>.
\<close>

section \<open>CommUtil\<close>

definition ALIGN_SIZE :: i64bits where
  "ALIGN_SIZE = 16"

text \<open>
  \<open>MAXIMUM_CAPACITY\<close> is the macro \<open>1 << 31\<close>, an \<open>int\<close> shift into the sign bit. Compared
  with a \<open>size_t\<close> it is the sign-extended 64-bit value.
\<close>

definition MAXIMUM_CAPACITY :: i64bits where
  "MAXIMUM_CAPACITY = word_of_int (i32 (push_bit 31 1))"

definition roundUpSize :: "i64bits \<Rightarrow> i64bits" where
  "roundUpSize sz = (sz + ALIGN_SIZE - 1) AND NOT (ALIGN_SIZE - 1)"

text \<open>The five shift-and-or lines shared by \<open>roundUpPower2\<close> and \<open>normalizeCapacity\<close>.\<close>

definition smear :: "'a::semiring_bit_operations \<Rightarrow> 'a" where
  "smear n =
     (let n = n OR drop_bit 1 n;
          n = n OR drop_bit 2 n;
          n = n OR drop_bit 4 n;
          n = n OR drop_bit 8 n
      in n OR drop_bit 16 n)"

definition roundUpPower2 :: "i64bits \<Rightarrow> i64bits" where
  "roundUpPower2 cap =
     (let n = smear (cap - 1)
      in if n \<le> 0 then 1 else if n \<ge> MAXIMUM_CAPACITY then MAXIMUM_CAPACITY else n + 1)"

lemma bit_smear_step:
  fixes m :: "'a::semiring_bit_operations"
  assumes "\<And>i. bit m i \<longleftrightarrow> (\<exists>j<k. bit n (i + j))"
  shows "bit (m OR drop_bit k m) i \<longleftrightarrow> (\<exists>j<k + k. bit n (i + j))"
proof -
  have "(\<exists>j<k + k. bit n (i + j)) \<longleftrightarrow> (\<exists>j<k. bit n (i + j)) \<or> (\<exists>j<k. bit n (k + i + j))"
  proof (intro iffI; elim exE disjE conjE)
    fix j assume j: "j < k + k" "bit n (i + j)"
    show "(\<exists>j<k. bit n (i + j)) \<or> (\<exists>j<k. bit n (k + i + j))"
    proof (cases "j < k")
      case False
      with j have "j - k < k" "k + i + (j - k) = i + j" by auto
      with j show ?thesis by metis
    qed (use j in blast)
  next
    fix j assume "j < k" "bit n (i + j)"
    then show "\<exists>j<k + k. bit n (i + j)" by (auto intro!: exI [of _ j])
  next
    fix j assume "j < k" "bit n (k + i + j)"
    then show "\<exists>j<k + k. bit n (i + j)" by (auto intro!: exI [of _ "k + j"] simp: ac_simps)
  qed
  then show ?thesis by (simp add: bit_or_iff bit_drop_bit_eq assms)
qed

lemma bit_smear:
  fixes n :: "'a::semiring_bit_operations"
  shows "bit (smear n) i \<longleftrightarrow> (\<exists>j<32. bit n (i + j))"
proof -
  define a where "a = n OR drop_bit 1 n"
  define b where "b = a OR drop_bit 2 a"
  define c where "c = b OR drop_bit 4 b"
  define d where "d = c OR drop_bit 8 c"
  have "bit n i \<longleftrightarrow> (\<exists>j<1. bit n (i + j))" for i by simp
  from bit_smear_step [OF this] have "bit a i \<longleftrightarrow> (\<exists>j<2. bit n (i + j))" for i
    by (simp add: a_def numeral_2_eq_2)
  from bit_smear_step [OF this] have "bit b i \<longleftrightarrow> (\<exists>j<4. bit n (i + j))" for i
    by (simp add: b_def)
  from bit_smear_step [OF this] have "bit c i \<longleftrightarrow> (\<exists>j<8. bit n (i + j))" for i
    by (simp add: c_def)
  from bit_smear_step [OF this] have "bit d i \<longleftrightarrow> (\<exists>j<16. bit n (i + j))" for i
    by (simp add: d_def)
  from bit_smear_step [OF this] show ?thesis
    by (simp add: smear_def Let_def a_def b_def c_def d_def)
qed

lemma smear_int:
  fixes n :: int
  assumes "2 ^ k \<le> n" "n < 2 ^ Suc k" "k < 32"
  shows "smear n = 2 ^ Suc k - 1"
proof -
  have n0: "0 \<le> n" using assms(1) by (meson order_trans zero_le_numeral zero_le_power)
  have top: "bit n k"
  proof -
    have "n div 2 ^ k = 1" using assms(1,2) n0
      by (intro int_div_pos_eq [of _ _ _ "n - 2 ^ k"]) auto
    then show ?thesis by (simp add: bit_iff_odd)
  qed
  have high: "\<not> bit n i" if "k < i" for i
  proof -
    have "(2::int) ^ Suc k \<le> 2 ^ i" using that by (intro power_increasing) auto
    then have "n div 2 ^ i = 0" using assms(2) n0 by (intro div_pos_pos_trivial) auto
    then show ?thesis by (simp add: bit_iff_odd)
  qed
  have "bit (smear n) i \<longleftrightarrow> i < Suc k" for i
  proof -
    have "(\<exists>j<32. bit n (i + j)) \<longleftrightarrow> i < Suc k"
    proof
      assume "\<exists>j<32. bit n (i + j)"
      then obtain j where "bit n (i + j)" by blast
      then have "i + j \<le> k" using high not_le by blast
      then show "i < Suc k" by simp
    next
      assume "i < Suc k"
      then have "k - i < 32 \<and> bit n (i + (k - i))" using top assms(3) by auto
      then show "\<exists>j<32. bit n (i + j)" by blast
    qed
    then show ?thesis by (simp add: bit_smear)
  qed
  then have "smear n = mask (Suc k)" by (intro bit_eqI) (simp add: bit_mask_iff)
  then show ?thesis by (simp add: mask_eq_exp_minus_1)
qed

lemma smear_word:
  fixes n :: i64bits
  shows "uint (smear n) = smear (uint n)"
proof (rule bit_eqI)
  fix i
  have len: "m < 64" if "bit n m" for m
    using bit_imp_le_length [OF that] by simp
  have "bit (smear (uint n)) i \<longleftrightarrow> (\<exists>j<32. bit n (i + j))"
    using len by (auto simp: bit_smear bit_uint_iff)
  then show "bit (uint (smear n)) i \<longleftrightarrow> bit (smear (uint n)) i"
    using len by (force simp: bit_uint_iff bit_smear)
qed

lemma smear_0 [simp]: "smear 0 = (0 :: 'a::semiring_bit_operations)"
  by (simp add: smear_def)

text \<open>Every positive number lies between two consecutive powers of two.\<close>

lemma pow2_bracket:
  fixes n :: int
  assumes "1 \<le> n" "n < 2 ^ m"
  obtains k where "2 ^ k \<le> n" "n < 2 ^ Suc k" "k < m"
proof -
  define k where "k = (LEAST k. n < 2 ^ Suc k)"
  have m: "m \<noteq> 0" using assms by (cases m) auto
  have ex: "n < 2 ^ Suc (m - 1)" using assms m by simp
  have k1: "n < 2 ^ Suc k" unfolding k_def by (rule LeastI [where P = "\<lambda>k. n < 2 ^ Suc k", OF ex])
  have "k \<le> m - 1" unfolding k_def by (rule Least_le) (rule ex)
  moreover have "2 ^ k \<le> n"
  proof (cases k)
    case (Suc j)
    then have "\<not> n < 2 ^ Suc j" using not_less_Least [of j "\<lambda>k. n < 2 ^ Suc k"] k_def by auto
    with Suc show ?thesis by simp
  qed (use assms in simp)
  ultimately show ?thesis using that [of k] k1 m by auto
qed


text \<open>For a capacity of at most 2^32, the result is the least power of two not below it.\<close>

lemma roundUpPower2_least:
  assumes "1 \<le> uint cap" "uint cap \<le> 2 ^ 32"
  shows "\<exists>k. uint (roundUpPower2 cap) = 2 ^ k \<and> uint cap \<le> 2 ^ k \<and>
             (\<forall>j. uint cap \<le> 2 ^ j \<longrightarrow> k \<le> j)"
proof -
  define n where "n = uint cap - 1"
  have c1: "uint (cap - 1) = n"
    using assms(1) by (simp add: n_def uint_sub_if_size word_le_def uint_word_arith_bintrs)
  show ?thesis
  proof (cases "n = 0")
    case True
    then have "cap - 1 = 0" using c1 by (simp add: word_uint_eq_iff)
    then have "roundUpPower2 cap = 1" by (simp add: roundUpPower2_def)
    moreover have "uint cap = 1" using True by (simp add: n_def)
    ultimately show ?thesis by (intro exI [of _ 0]) simp
  next
    case False
    then obtain k where k: "2 ^ k \<le> n" "n < 2 ^ Suc k" "k < 32"
      using assms pow2_bracket [of n 32] by (auto simp: n_def)
    have u: "uint (smear (cap - 1)) = 2 ^ Suc k - 1"
      using k by (simp add: smear_word c1 smear_int)
    have le: "(2::int) ^ Suc k \<le> 2 ^ 32" using k(3) by (intro power_increasing) auto
    have "(1::int) \<le> 2 ^ k" by simp
    then have "(0::int) < 2 ^ Suc k - 1" by (simp del: one_le_power)
    then have "0 < uint (smear (cap - 1))" by (simp only: u)
    then have "\<not> smear (cap - 1) \<le> 0" by (simp add: word_le_def)
    moreover have "\<not> MAXIMUM_CAPACITY \<le> smear (cap - 1)"
      using u le by (simp add: word_le_def MAXIMUM_CAPACITY_def i32_def)
    ultimately have "roundUpPower2 cap = smear (cap - 1) + 1"
      by (simp add: roundUpPower2_def Let_def)
    moreover have "uint (smear (cap - 1) + 1) = 2 ^ Suc k"
      using u le by (simp add: uint_word_ariths)
    ultimately have "uint (roundUpPower2 cap) = 2 ^ Suc k" by simp
    moreover have "uint cap \<le> 2 ^ Suc k" using k(2) by (simp add: n_def)
    moreover have "Suc k \<le> j" if "uint cap \<le> 2 ^ j" for j
    proof (rule ccontr)
      assume "\<not> Suc k \<le> j"
      then have "(2::int) ^ j \<le> 2 ^ k" by (intro power_increasing) auto
      then show False using that k(1) unfolding n_def by linarith
    qed
    ultimately show ?thesis by blast
  qed
qed


section \<open>Logarithms\<close>

text \<open>
  \<open>PoolChunk::numberOfLeadingZeros\<close>: \<open>n\<close> and \<open>i\<close> are \<open>unsigned int\<close>, \<open>i\<close> shifts left in 32
  bits; \<open>n\<close> stays between 0 and 32.
\<close>

definition nlz_step :: "nat \<Rightarrow> int \<times> i32bits \<Rightarrow> int \<times> i32bits" where
  "nlz_step sh p =
     (case p of (n, i) \<Rightarrow>
        if drop_bit (32 - sh) i = 0 then (n + int sh, push_bit sh i) else (n, i))"

definition numberOfLeadingZeros :: "i32bits \<Rightarrow> int" where
  "numberOfLeadingZeros i =
     (if i = 0 then 32
      else (case nlz_step 2 (nlz_step 4 (nlz_step 8 (nlz_step 16 (1, i)))) of
              (n, i) \<Rightarrow> n - uint (drop_bit 31 i)))"

definition chunk_log2 :: "int \<Rightarrow> int" where
  "chunk_log2 val = 31 - numberOfLeadingZeros (word_of_int val)"

text \<open>\<open>detail::log2\<close> of PoolThreadCache.cpp: a loop on a signed \<open>int\<close>.\<close>

function cache_log2_loop :: "int \<Rightarrow> int \<Rightarrow> int" where
  "cache_log2_loop val res =
     (if val > 1 then cache_log2_loop (drop_bit 1 val) (res + 1) else res)"
  by pat_completeness auto
termination
  by (relation "measure (\<lambda>(val, res). nat val)") (auto simp: drop_bit_eq_div)

declare cache_log2_loop.simps [simp del]

definition cache_log2 :: "int \<Rightarrow> int" where
  "cache_log2 val = cache_log2_loop val 0"

definition nlz_inv :: "int \<Rightarrow> nat \<Rightarrow> int \<times> i32bits \<Rightarrow> bool" where
  "nlz_inv v b p \<longleftrightarrow>
     (case p of (n, i) \<Rightarrow> 1 \<le> n \<and> uint i = v * 2 ^ nat (n - 1) \<and> 2 ^ b \<le> uint i)"

lemma drop_bit_zero_iff:
  fixes i :: i32bits
  assumes "sh \<le> 32"
  shows "drop_bit (32 - sh) i = 0 \<longleftrightarrow> uint i < 2 ^ (32 - sh)"
proof -
  have "uint (drop_bit (32 - sh) i) = drop_bit (32 - sh) (uint i)"
    using uint_bounded [of i]
    by (simp only: unsigned_drop_bit_eq) (simp add: take_bit_int_eq_self)
  then have "drop_bit (32 - sh) i = 0 \<longleftrightarrow> uint i div 2 ^ (32 - sh) = 0"
    by (simp only: word_uint_eq_iff drop_bit_eq_div [of _ "uint i"] unsigned_0)
  moreover have "uint i div 2 ^ (32 - sh) = 0 \<longleftrightarrow> uint i < 2 ^ (32 - sh)"
    by (auto simp: zdiv_eq_0_iff)
  ultimately show ?thesis by simp
qed

lemma nlz_step_inv:
  assumes "nlz_inv v b p" "b + sh \<le> 32 - sh" "b = 32 - 2 * sh" "sh \<le> 16"
  shows "nlz_inv v (b + sh) (nlz_step sh p)"
proof -
  obtain n i where p: "p = (n, i)" by (cases p)
  have inv: "1 \<le> n" "uint i = v * 2 ^ nat (n - 1)" "2 ^ b \<le> uint i"
    using assms(1) by (auto simp: nlz_inv_def p)
  have b: "b + sh = 32 - sh" using assms by simp
  show ?thesis
  proof (cases "uint i < 2 ^ (32 - sh)")
    case True
    have "uint i * 2 ^ sh < 2 ^ (32 - sh) * 2 ^ sh" using True by simp
    also have "(2::int) ^ (32 - sh) * 2 ^ sh = 2 ^ 32"
      using assms(4) by (simp flip: power_add)
    finally have "uint (push_bit sh i) = uint i * 2 ^ sh"
      by (simp only: unsigned_push_bit_eq) (simp add: push_bit_eq_mult take_bit_eq_mod)
    moreover have "nat (n + int sh - 1) = nat (n - 1) + sh" using inv(1) by simp
    ultimately show ?thesis
      using True inv assms(4)
      by (auto simp: nlz_step_def nlz_inv_def p drop_bit_zero_iff power_add mult.assoc)
  next
    case False
    then show ?thesis using inv b assms(4)
      by (auto simp: nlz_step_def nlz_inv_def p drop_bit_zero_iff)
  qed
qed


lemma nlz_bounds:
  assumes "i \<noteq> 0"
  shows "0 \<le> numberOfLeadingZeros i \<and> numberOfLeadingZeros i \<le> 31 \<and>
    2 ^ 31 \<le> uint i * 2 ^ nat (numberOfLeadingZeros i) \<and>
    uint i * 2 ^ nat (numberOfLeadingZeros i) < 2 ^ 32"
proof -
  have v: "0 < uint i" using assms by (simp add: word_neq_0_conv word_less_def)
  have "nlz_inv (uint i) 0 (1, i)" using v by (simp add: nlz_inv_def)
  then have "nlz_inv (uint i) (0 + 16) (nlz_step 16 (1, i))"
    by (rule nlz_step_inv) simp_all
  then have "nlz_inv (uint i) (0 + 16 + 8) (nlz_step 8 (nlz_step 16 (1, i)))"
    by (rule nlz_step_inv) simp_all
  then have "nlz_inv (uint i) (0 + 16 + 8 + 4) (nlz_step 4 (nlz_step 8 (nlz_step 16 (1, i))))"
    by (rule nlz_step_inv) simp_all
  then have fin: "nlz_inv (uint i) (0 + 16 + 8 + 4 + 2)
      (nlz_step 2 (nlz_step 4 (nlz_step 8 (nlz_step 16 (1, i)))))"
    by (rule nlz_step_inv) simp_all
  obtain n x where nx: "nlz_step 2 (nlz_step 4 (nlz_step 8 (nlz_step 16 (1, i)))) = (n, x)"
    by (cases "nlz_step 2 (nlz_step 4 (nlz_step 8 (nlz_step 16 (1, i))))")
  then have inv: "1 \<le> n" "uint x = uint i * 2 ^ nat (n - 1)" "2 ^ 30 \<le> uint x"
    using fin by (auto simp: nlz_inv_def)
  have x: "uint x < 2 ^ 32" using uint_bounded [of x] by simp
  have val: "numberOfLeadingZeros i = n - uint (drop_bit 31 x)"
    using assms nx by (simp add: numberOfLeadingZeros_def)
  have d: "uint (drop_bit 31 x) = uint x div 2 ^ 31"
    using x by (simp only: unsigned_drop_bit_eq) (simp add: take_bit_int_eq_self drop_bit_eq_div)
  show ?thesis
  proof (cases "2 ^ 31 \<le> uint x")
    case True
    then have "uint (drop_bit 31 x) = 1" using x unfolding d by simp
    moreover have "n \<le> 32"
    proof (rule ccontr)
      assume "\<not> n \<le> 32"
      then have "(2::int) ^ 32 \<le> 2 ^ nat (n - 1)" by (intro power_increasing) auto
      also have "\<dots> \<le> uint i * 2 ^ nat (n - 1)" using v by simp
      finally show False using x inv(2) by simp
    qed
    ultimately show ?thesis using True x inv val by simp
  next
    case False
    then have z: "uint (drop_bit 31 x) = 0" unfolding d by (simp add: zdiv_eq_0_iff)
    have "nat n = Suc (nat (n - 1))" using inv(1) by simp
    then have e: "uint i * 2 ^ nat n = 2 * uint x" using inv(2) by simp
    have n31: "n \<le> 31"
    proof (rule ccontr)
      assume "\<not> n \<le> 31"
      then have "(2::int) ^ 31 \<le> 2 ^ nat (n - 1)" by (intro power_increasing) auto
      also have "\<dots> \<le> uint i * 2 ^ nat (n - 1)" using v by simp
      finally show False using False inv(2) by simp
    qed
    have "numberOfLeadingZeros i = n" using val z by simp
    then show ?thesis using n31 inv(1,3) False by (simp only: e) simp
  qed
qed

text \<open>
  for \<open>i\<close> not 0, \<open>numberOfLeadingZeros\<close> is the number of zero bits above the highest
  set bit: shifting by it brings that bit to the top.
\<close>

theorem numberOfLeadingZeros_correct:
  assumes "i \<noteq> 0"
  shows "0 \<le> numberOfLeadingZeros i \<and> numberOfLeadingZeros i \<le> 31 \<and>
    2 ^ 31 \<le> uint i * 2 ^ nat (numberOfLeadingZeros i) \<and>
    uint i * 2 ^ nat (numberOfLeadingZeros i) < 2 ^ 32"
  using nlz_bounds [OF assms] .

theorem numberOfLeadingZeros_correct_witness:
  "0 \<le> numberOfLeadingZeros 5 \<and> uint (5 :: i32bits) * 2 ^ nat (numberOfLeadingZeros 5) < 2 ^ 32"
  using numberOfLeadingZeros_correct [of 5] by simp

lemma chunk_log2_eq:
  assumes "2 ^ k \<le> val" "val < 2 ^ Suc k" "k < 31"
  shows "chunk_log2 val = int k"
proof -
  have pos: "0 < val" using assms(1) by (meson less_le_trans zero_less_numeral zero_less_power)
  have "val < 2 ^ 32"
  proof -
    have "(2::int) ^ Suc k \<le> 2 ^ 31" using assms(3) by (intro power_increasing) auto
    with assms(2) show ?thesis by simp
  qed
  with pos have u: "uint (word_of_int val :: i32bits) = val" by (simp add: uint_word_of_int)
  define n where "n = numberOfLeadingZeros (word_of_int val)"
  have "word_of_int val \<noteq> (0 :: i32bits)" using u pos by (metis less_irrefl unsigned_0)
  from nlz_bounds [OF this] u
  have n: "0 \<le> n" "n \<le> 31" "2 ^ 31 \<le> val * 2 ^ nat n" "val * 2 ^ nat n < 2 ^ 32"
    by (simp_all add: n_def)
  have "nat n + k = 31"
  proof (rule ccontr)
    assume "nat n + k \<noteq> 31"
    then consider "Suc (nat n + k) \<le> 31" | "32 \<le> nat n + k" by linarith
    then show False
    proof cases
      case 1
      have "val * 2 ^ nat n < 2 ^ Suc k * 2 ^ nat n" using assms(2) by simp
      also have "(2::int) ^ Suc k * 2 ^ nat n = 2 ^ Suc (nat n + k)" by (simp add: power_add)
      also have "\<dots> \<le> 2 ^ 31" using 1 by (intro power_increasing) auto
      finally show False using n(3) by simp
    next
      case 2
      have "(2::int) ^ 32 \<le> 2 ^ (nat n + k)" using 2 by (intro power_increasing) auto
      also have "\<dots> = 2 ^ k * 2 ^ nat n" by (simp add: power_add)
      also have "\<dots> \<le> val * 2 ^ nat n" using assms(1) by simp
      finally show False using n(4) by simp
    qed
  qed
  then show ?thesis using n(1) by (simp add: chunk_log2_def n_def)
qed

lemma cache_log2_loop_eq:
  "2 ^ k \<le> val \<Longrightarrow> val < 2 ^ Suc k \<Longrightarrow> cache_log2_loop val res = res + int k"
proof (induction k arbitrary: val res)
  case 0
  then show ?case by (subst cache_log2_loop.simps) simp
next
  case (Suc k)
  have "(1::int) \<le> 2 ^ k" by simp
  then have "1 < val" using Suc.prems(1) unfolding power_Suc by linarith
  moreover have "cache_log2_loop (val div 2) (res + 1) = res + 1 + int k"
    using Suc.prems by (intro Suc.IH) auto
  ultimately show ?case by (subst cache_log2_loop.simps) (simp add: drop_bit_eq_div)
qed

text \<open>
  the two logarithms of the buffer component, the bit trick of \<open>PoolChunk\<close> and the loop
  of \<open>PoolThreadCache\<close>, agree on every positive \<open>int\<close> below 2^31.
\<close>

theorem log2_agree:
  assumes "0 < val" "val < 2 ^ 31"
  shows "chunk_log2 val = cache_log2 val"
proof -
  obtain k where "2 ^ k \<le> val" "val < 2 ^ Suc k" "k < 31"
    using assms pow2_bracket [of val 31] by auto
  then show ?thesis by (simp add: chunk_log2_eq cache_log2_def cache_log2_loop_eq)
qed

theorem log2_agree_witness: "chunk_log2 8192 = cache_log2 8192"
  using log2_agree [of 8192] by simp


section \<open>Size classes of \<open>PoolArena\<close>\<close>

definition numTinySubpagePools :: int where
  "numTinySubpagePools = 32"

definition numSmallSubpagePools :: "int \<Rightarrow> int" where
  "numSmallSubpagePools pageShifts = pageShifts - 9"

definition isTiny :: "int \<Rightarrow> bool" where
  "isTiny normCapacity \<longleftrightarrow> normCapacity AND 0xFFFFFE00 = 0"

definition isTinyOrSmall :: "int \<Rightarrow> int \<Rightarrow> bool" where
  "isTinyOrSmall pageSize normCapacity \<longleftrightarrow> normCapacity AND NOT (pageSize - 1) = 0"

definition tinyIdx :: "int \<Rightarrow> int" where
  "tinyIdx normCapacity = drop_bit 4 normCapacity"

text \<open>
  The loop of \<open>smallIdx\<close> and \<open>findSubpagePoolHead\<close>: \<open>while (i != 0) { i >>= 1; tableIdx++; }\<close>.
  A negative \<open>i\<close> stays at -1 under the arithmetic shift and the loop never ends: \<open>None\<close>.
\<close>

partial_function (option) shift_count :: "int \<Rightarrow> int \<Rightarrow> int option" where
  "shift_count i tableIdx =
     (if i \<noteq> 0 then shift_count (drop_bit 1 i) (tableIdx + 1) else Some tableIdx)"

definition smallIdx :: "int \<Rightarrow> int option" where
  "smallIdx normCapacity = shift_count (drop_bit 10 normCapacity) 0"

datatype SizeClass = Tiny | Small | Normal

definition sizeClass :: "int \<Rightarrow> int \<Rightarrow> SizeClass" where
  "sizeClass pageSize normCapacity =
     (if \<not> isTinyOrSmall pageSize normCapacity then Normal
      else if isTiny normCapacity then Tiny else Small)"

text \<open>The slot of a subpage pool: which table, and the index into it.\<close>

datatype pool_slot = TinySlot int | SmallSlot int

definition findSubpagePoolHead :: "int \<Rightarrow> pool_slot option" where
  "findSubpagePoolHead elemSize =
     (if isTiny elemSize then Some (TinySlot (drop_bit 4 elemSize))
      else map_option SmallSlot (shift_count (drop_bit 10 elemSize) 0))"

definition normalizeCapacity :: "int \<Rightarrow> int \<Rightarrow> int" where
  "normalizeCapacity chunkSize reqCapacity =
     (if reqCapacity \<ge> chunkSize then reqCapacity
      else if \<not> isTiny reqCapacity then
        (let n = i32 (smear (reqCapacity - 1) + 1)
         in if n < 0 then drop_bit 1 n else n)
      else if reqCapacity AND 15 = 0 then reqCapacity
      else (reqCapacity AND NOT 15) + 16)"

lemma and_low_mask: "(n::int) AND (2 ^ k - 1) = n mod 2 ^ k"
  by (simp flip: mask_eq_exp_minus_1 take_bit_eq_mask add: take_bit_eq_mod)

lemma and_15: "(n::int) AND 15 = n mod 16"
  using and_low_mask [of n 4] by simp

lemma and_not_low_mask: "(n::int) AND NOT (2 ^ k - 1) = n - n mod 2 ^ k"
proof -
  have "n = (n AND (2 ^ k - 1)) + (n AND NOT (2 ^ k - 1))"
    by (rule bit_eqI, subst disjunctive_add) (auto simp: bit_simps)
  then show ?thesis by (simp add: and_low_mask)
qed

lemma and_not_15: "(n::int) AND - 16 = n - n mod 16"
  using and_not_low_mask [of n 4] by simp

lemma sub_mod_zero_iff:
  fixes n :: int
  assumes "0 \<le> n" "0 < m"
  shows "n - n mod m = 0 \<longleftrightarrow> n < m"
proof (cases "n < m")
  case False
  then show ?thesis using pos_mod_bound [of m n] assms by linarith
qed (use assms in simp)

lemma isTiny_iff:
  assumes "0 \<le> n" "n \<le> INT_MAX"
  shows "isTiny n \<longleftrightarrow> n < 512"
proof -
  have "n AND 0xFFFFFE00 = n AND NOT 511"
  proof -
    have "n = take_bit 32 n" using assms by (simp add: take_bit_int_eq_self)
    then have "n AND NOT 511 = n AND (mask 32 AND NOT 511)"
      by (metis and.assoc take_bit_eq_mask)
    also have "mask 32 AND NOT 511 = (0xFFFFFE00 :: int)" by (simp add: mask_numeral)
    finally show ?thesis by simp
  qed
  also have "\<dots> = n - n mod 512" using and_not_low_mask [of n 9] by simp
  finally show ?thesis unfolding isTiny_def using assms(1) sub_mod_zero_iff [of n 512] by simp
qed

lemma isTinyOrSmall_iff:
  assumes "0 \<le> n" "pageSize = 2 ^ k"
  shows "isTinyOrSmall pageSize n \<longleftrightarrow> n < pageSize"
  using assms(1) sub_mod_zero_iff [of n "2 ^ k"]
  by (simp add: isTinyOrSmall_def assms(2) and_not_low_mask)

lemma shift_count_pow2:
  "2 ^ k \<le> i \<Longrightarrow> i < 2 ^ Suc k \<Longrightarrow> shift_count i t = Some (t + int k + 1)"
proof (induction k arbitrary: i t)
  case 0
  then have "i = 1" by simp
  then show ?case by (simp add: shift_count.simps)
next
  case (Suc k)
  have "(1::int) \<le> 2 ^ k" by simp
  then have "i \<noteq> 0" using Suc.prems(1) unfolding power_Suc by linarith
  moreover have "shift_count (i div 2) (t + 1) = Some (t + 1 + int k + 1)"
    using Suc.prems by (intro Suc.IH) auto
  ultimately show ?case by (subst shift_count.simps) (simp add: drop_bit_eq_div)
qed


text \<open>The sizes \<open>normalizeCapacity\<close> produces: multiples of 16 below 512, powers of two above.\<close>

definition normalised :: "int \<Rightarrow> bool" where
  "normalised n \<longleftrightarrow> 0 < n \<and> (if n < 512 then n mod 16 = 0 else \<exists>k. 9 \<le> k \<and> n = 2 ^ k)"

lemma normalised_pow2: "9 \<le> k \<Longrightarrow> normalised (2 ^ k)"
  using power_increasing [of 9 k "2::int"] by (auto simp: normalised_def)

lemma normalizeCapacity_big:
  assumes "512 \<le> req" "req < chunkSize" "chunkSize \<le> 2 ^ 30"
  shows "\<exists>k. 9 \<le> k \<and> normalizeCapacity chunkSize req = 2 ^ k \<and> req \<le> 2 ^ k \<and> 2 ^ k < 2 * req"
proof -
  have "\<not> isTiny req" using assms by (subst isTiny_iff) auto
  obtain k where k: "2 ^ k \<le> req - 1" "req - 1 < 2 ^ Suc k" "k < 30"
    using assms pow2_bracket [of "req - 1" 30] by auto
  have "(2::int) ^ Suc k \<le> 2 ^ 30" using k(3) by (intro power_increasing) auto
  then have "normalizeCapacity chunkSize req = 2 ^ Suc k"
    using \<open>\<not> isTiny req\<close> assms k by (simp add: normalizeCapacity_def smear_int Let_def)
  moreover have "8 \<le> k"
  proof (rule ccontr)
    assume "\<not> 8 \<le> k"
    then have "(2::int) ^ Suc k \<le> 2 ^ 8" by (intro power_increasing) auto
    then show False using k(2) assms(1) by simp
  qed
  ultimately show ?thesis using k by (intro exI [of _ "Suc k"]) auto
qed

lemma normalizeCapacity_tiny:
  assumes "0 < req" "req < 512" "req < chunkSize"
  shows "normalizeCapacity chunkSize req mod 16 = 0" "req \<le> normalizeCapacity chunkSize req"
    "normalizeCapacity chunkSize req < req + 16" "normalizeCapacity chunkSize req \<le> 512"
proof -
  have "isTiny req" using assms by (subst isTiny_iff) auto
  then have n: "normalizeCapacity chunkSize req =
      (if req mod 16 = 0 then req else req - req mod 16 + 16)"
    using assms(3) by (simp add: normalizeCapacity_def and_15 and_not_15)
  show "normalizeCapacity chunkSize req mod 16 = 0"
    unfolding n by (simp add: mod_diff_left_eq [symmetric])
  show "req \<le> normalizeCapacity chunkSize req" "normalizeCapacity chunkSize req < req + 16"
    "normalizeCapacity chunkSize req \<le> 512"
    unfolding n using assms(1,2) by (auto; presburger)+
qed

text \<open>
  a request between 1 byte and the chunk size is rounded up to a size class: never
  below the request, a multiple of 16 with less than 16 bytes lost below 512, a power of two
  less than twice the request from there on, and never above the chunk size.
\<close>

theorem normalizeCapacity_class:
  assumes "0 < req" "req < chunkSize" "chunkSize = 2 ^ c" "9 \<le> c" "c \<le> 30"
  shows "normalised (normalizeCapacity chunkSize req) \<and> req \<le> normalizeCapacity chunkSize req \<and>
    normalizeCapacity chunkSize req \<le> chunkSize \<and>
    (if req < 512 then normalizeCapacity chunkSize req < req + 16
     else normalizeCapacity chunkSize req < 2 * req)"
proof (cases "req < 512")
  case True
  note t = normalizeCapacity_tiny [OF assms(1) True assms(2)]
  have "512 \<le> chunkSize"
    unfolding assms(3) using power_increasing [OF assms(4), of "2::int"] by simp
  moreover have "normalised (normalizeCapacity chunkSize req)"
  proof (cases "normalizeCapacity chunkSize req < 512")
    case False
    then have "normalizeCapacity chunkSize req = 2 ^ 9" using t(4) by simp
    then show ?thesis by (simp only: normalised_pow2)
  next
    case True
    then show ?thesis using t(1,2) assms(1) unfolding normalised_def by presburger
  qed
  ultimately show ?thesis using t True by simp
next
  case False
  have "chunkSize \<le> 2 ^ 30"
    unfolding assms(3) by (intro power_increasing) (use assms(5) in auto)
  then obtain k where k: "9 \<le> k" "normalizeCapacity chunkSize req = 2 ^ k" "req \<le> 2 ^ k" "2 ^ k < 2 * req"
    using normalizeCapacity_big [of req chunkSize] False assms(2) by auto
  have "k \<le> c"
  proof (rule ccontr)
    assume "\<not> k \<le> c"
    then have "(2::int) ^ Suc c \<le> 2 ^ k" by (intro power_increasing) auto
    then show False using k(4) assms(2,3) by simp
  qed
  then have "(2::int) ^ k \<le> 2 ^ c" by (intro power_increasing) auto
  moreover have "(2::int) ^ 9 \<le> 2 ^ k" using k(1) by (intro power_increasing) auto
  ultimately show ?thesis using False k assms(3) by (auto simp: normalised_def)
qed

theorem normalizeCapacity_class_witness:
  "normalised (normalizeCapacity 16777216 1000) \<and> 1000 \<le> normalizeCapacity 16777216 1000"
proof -
  have "(16777216::int) = 2 ^ 24" by simp
  from normalizeCapacity_class [OF _ _ this, of 1000] show ?thesis by (elim meta_impE) simp_all
qed

lemma pow2_ge_512: "9 \<le> k \<Longrightarrow> \<not> (2::int) ^ k < 512"
  using power_increasing [of 9 k "2::int"] by simp

lemma slot_of_normalised:
  assumes "normalised n" "n < 2 ^ p" "p \<le> 30"
  shows "n < 512 \<and> findSubpagePoolHead n = Some (TinySlot (n div 16)) \<or>
    (\<exists>k. 9 \<le> k \<and> k < p \<and> n = 2 ^ k \<and> findSubpagePoolHead n = Some (SmallSlot (int k - 9)))"
proof -
  have "(2::int) ^ p \<le> 2 ^ 30" using assms(3) by (intro power_increasing) auto
  then have t: "isTiny n \<longleftrightarrow> n < 512"
    using assms(1,2) by (intro isTiny_iff) (auto simp: normalised_def)
  show ?thesis
  proof (cases "n < 512")
    case True
    then show ?thesis using t by (simp add: findSubpagePoolHead_def drop_bit_eq_div)
  next
    case False
    then obtain k where k: "9 \<le> k" "n = 2 ^ k" using assms(1) by (auto simp: normalised_def)
    have kp: "k < p" using assms(2) k(2) by simp
    have "shift_count (drop_bit 10 n) 0 = Some (int k - 9)"
    proof (cases "k = 9")
      case True
      then show ?thesis by (simp add: k drop_bit_eq_div shift_count.simps)
    next
      case False
      define j where "j = k - 10"
      have kj: "k = 10 + j" using False k(1) by (simp add: j_def)
      then have "drop_bit 10 n = 2 ^ j" by (simp add: k drop_bit_eq_div power_add)
      then show ?thesis using shift_count_pow2 [of j "2 ^ j" 0] kj by simp
    qed
    then show ?thesis using t False k kp by (auto simp: findSubpagePoolHead_def)
  qed
qed

text \<open>
  the subpage pools are indexed safely and by size: every size class below the page
  size has a slot inside its table, and two size classes with the same slot are equal, so
  that all subpages of one pool have one element size.
\<close>

theorem subpage_pool_slot:
  assumes "normalised n" "n < 2 ^ p" "9 \<le> p" "p \<le> 30"
  shows "(case findSubpagePoolHead n of
            Some (TinySlot i) \<Rightarrow> 0 \<le> i \<and> i < numTinySubpagePools
          | Some (SmallSlot i) \<Rightarrow> 0 \<le> i \<and> i < numSmallSubpagePools (int p)
          | None \<Rightarrow> False) \<and>
    (normalised m \<longrightarrow> m < 2 ^ p \<longrightarrow> findSubpagePoolHead m = findSubpagePoolHead n \<longrightarrow> m = n)"
proof -
  have pos: "0 < n" using assms(1) by (simp add: normalised_def)
  have eq: "m = n"
    if m: "normalised m" "m < 2 ^ p" "findSubpagePoolHead m = findSubpagePoolHead n"
  proof -
    note sn = slot_of_normalised [OF assms(1,2,4)]
    note sm = slot_of_normalised [OF m(1,2) assms(4)]
    show ?thesis
    proof (cases "n < 512 \<and> m < 512")
      case True
      then have "findSubpagePoolHead n = Some (TinySlot (n div 16))"
        "findSubpagePoolHead m = Some (TinySlot (m div 16))" "n mod 16 = 0" "m mod 16 = 0"
        using sn sm assms(1) m(1) pow2_ge_512 by (auto simp: normalised_def)
      then have "m div 16 = n div 16" "m mod 16 = n mod 16" using m(3) by simp_all
      then show ?thesis by (metis div_mult_mod_eq)
    next
      case False
      then show ?thesis using sn sm m(3) by auto
    qed
  qed
  with slot_of_normalised [OF assms(1,2,4)] pos show ?thesis
    by (auto simp: numTinySubpagePools_def numSmallSubpagePools_def)
qed

theorem subpage_pool_slot_witness:
  "case findSubpagePoolHead 1024 of
      Some (TinySlot i) \<Rightarrow> 0 \<le> i \<and> i < numTinySubpagePools
    | Some (SmallSlot i) \<Rightarrow> 0 \<le> i \<and> i < numSmallSubpagePools (int 13)
    | None \<Rightarrow> False"
proof -
  have "normalised 1024" by (auto simp: normalised_def intro!: exI [of _ 10])
  from subpage_pool_slot [OF this, of 13 1024] show ?thesis by (simp del: of_nat_numeral)
qed

section \<open>The allocator's geometry\<close>

text \<open>\<open>PooledCharBufAllocator\<close> validates the page size and the tree depth it builds arenas with.\<close>

definition MIN_PAGE_SIZE :: int where "MIN_PAGE_SIZE = 4096"
definition MAX_CHUNK_SIZE :: int where "MAX_CHUNK_SIZE = INT_MAX div 2"

fun chunk_size_loop :: "nat \<Rightarrow> int \<Rightarrow> int outcome" where
  "chunk_size_loop 0 chunkSize = Ok chunkSize"
| "chunk_size_loop (Suc i) chunkSize =
     (if chunkSize > MAX_CHUNK_SIZE div 2
      then Throw (RuntimeError ''pageSize << maxOrder must not exceed MAX_CHUNK_SIZE'')
      else chunk_size_loop i (i32 (push_bit 1 chunkSize)))"

definition validateAndCalculateChunkSize :: "int \<Rightarrow> int \<Rightarrow> int outcome" where
  "validateAndCalculateChunkSize pageSize maxOrder =
     (if maxOrder > 14 then Throw (RuntimeError ''maxOrder expected: 0-14'')
      else chunk_size_loop (nat maxOrder) pageSize)"

definition validateAndCalculatePageShifts :: "int \<Rightarrow> int outcome" where
  "validateAndCalculatePageShifts pageSize =
     (if pageSize < MIN_PAGE_SIZE then Throw (RuntimeError ''pageSize expected:4096'')
      else if pageSize AND pageSize - 1 \<noteq> 0 then Throw (RuntimeError ''pageSize expected:power of 2'')
      else Ok (32 - 1 - numberOfLeadingZeros (word_of_int pageSize)))"

lemma n_less_pow2: "0 < n \<Longrightarrow> n < 2 ^ nat n" for n :: int
proof -
  have "int (nat n) < int (2 ^ nat n)" by (subst of_nat_less_iff) (rule less_exp)
  moreover assume "0 < n"
  ultimately show ?thesis by simp
qed

lemma and_pred_zero_iff:
  assumes "0 < (n::int)"
  shows "n AND n - 1 = 0 \<longleftrightarrow> (\<exists>k. n = 2 ^ k)"
proof
  assume z: "n AND n - 1 = 0"
  obtain k where k: "2 ^ k \<le> n" "n < 2 ^ Suc k" using pow2_bracket [of n "nat n + 1"] assms
    n_less_pow2 [OF assms] by (metis int_one_le_iff_zero_less pow2_bracket)
  have "n = 2 ^ k"
  proof (rule ccontr)
    assume "n \<noteq> 2 ^ k"
    then have "n div 2 ^ k = 1" "(n - 1) div 2 ^ k = 1"
      using k by (intro int_div_pos_eq [where r = "n - 2 ^ k"] int_div_pos_eq [where r = "n - 1 - 2 ^ k"];
          simp)+
    then have "bit n k" "bit (n - 1) k" by (simp_all add: bit_iff_odd)
    then have "bit (n AND n - 1) k" by (simp add: bit_and_iff)
    then show False using z by simp
  qed
  then show "\<exists>k. n = 2 ^ k" ..
next
  assume "\<exists>k. n = 2 ^ k"
  then show "n AND n - 1 = 0" using and_low_mask by auto
qed

lemma chunk_size_loop_pow2:
  assumes "0 < c" "c \<le> INT_MAX"
  shows "chunk_size_loop i c = Ok r \<longleftrightarrow> r = c * 2 ^ i \<and> (i = 0 \<or> r \<le> 1073741822)"
  using assms
proof (induction i arbitrary: c)
  case 0
  then show ?case by auto
next
  case (Suc i)
  show ?case
  proof (cases "c \<le> 536870911")
    case True
    then have "i32 (push_bit 1 c) = 2 * c" using Suc.prems by (simp add: push_bit_eq_mult)
    then show ?thesis using True Suc by (auto simp: MAX_CHUNK_SIZE_def)
  next
    case False
    have "c * 1 \<le> c * 2 ^ i" using Suc.prems by (intro mult_left_mono) auto
    then have "c \<le> c * 2 ^ i" by simp
    then have "1073741822 < 2 * (c * 2 ^ i)" using False by linarith
    then have "1073741822 < c * 2 ^ Suc i" by simp
    then show ?thesis using False by (auto simp: MAX_CHUNK_SIZE_def)
  qed
qed

text \<open>
  the validators of the allocator accept exactly the geometries the buddy tree needs: a
  page size of at least 4096 bytes that is a power of two, whose exponent is the page shift,
  and a chunk of \<open>pageSize * 2 ^ maxOrder\<close> bytes with at most fourteen levels, which stays
  below a quarter of the \<open>int\<close> range, so that no size computed inside a chunk wraps around.
\<close>

theorem allocator_geometry:
  assumes "0 < pageSize" "pageSize \<le> INT_MAX" "0 \<le> maxOrder"
  shows "validateAndCalculatePageShifts pageSize = Ok shifts \<and>
      validateAndCalculateChunkSize pageSize maxOrder = Ok chunkSize \<longleftrightarrow>
    (\<exists>p. pageSize = 2 ^ p \<and> shifts = int p \<and> 12 \<le> p \<and> maxOrder \<le> 14 \<and>
       chunkSize = 2 ^ (p + nat maxOrder) \<and> (maxOrder = 0 \<or> p + nat maxOrder \<le> 29))"
proof -
  have nlz: "32 - 1 - numberOfLeadingZeros (word_of_int (2 ^ p)) = int p" if "p \<le> 30" for p
    using chunk_log2_eq [of p "2 ^ p"] that by (simp add: chunk_log2_def)
  have le29: "(2::int) ^ e \<le> 1073741822 \<longleftrightarrow> e \<le> 29" for e
  proof
    assume a: "(2::int) ^ e \<le> 1073741822"
    show "e \<le> 29"
    proof (rule ccontr)
      assume "\<not> e \<le> 29"
      then have "(2::int) ^ 30 \<le> 2 ^ e" by (intro power_increasing) auto
      then show False using a by simp
    qed
  next
    assume "e \<le> 29"
    then have "(2::int) ^ e \<le> 2 ^ 29" by (intro power_increasing) auto
    then show "(2::int) ^ e \<le> 1073741822" by simp
  qed
  have p30: "p \<le> 30" if "(2::int) ^ p \<le> INT_MAX" for p
  proof (rule ccontr)
    assume "\<not> p \<le> 30"
    then have "(2::int) ^ 31 \<le> 2 ^ p" by (intro power_increasing) auto
    then show False using that by simp
  qed
  have p12: "MIN_PAGE_SIZE \<le> 2 ^ p \<longleftrightarrow> 12 \<le> p" for p
    using power_increasing_iff [of "2::int" 12 p] by (simp add: MIN_PAGE_SIZE_def)
  have shifts: "validateAndCalculatePageShifts pageSize = Ok shifts \<longleftrightarrow>
      (\<exists>p. pageSize = 2 ^ p \<and> shifts = int p \<and> 12 \<le> p)"
    using and_pred_zero_iff [OF assms(1)] p12 p30 assms(2) nlz
    unfolding validateAndCalculatePageShifts_def by (metis not_less outcome.inject(1) outcome.distinct(1))
  have size: "validateAndCalculateChunkSize pageSize maxOrder = Ok chunkSize \<longleftrightarrow>
      maxOrder \<le> 14 \<and> chunkSize = pageSize * 2 ^ nat maxOrder \<and>
      (maxOrder = 0 \<or> chunkSize \<le> 1073741822)"
    using chunk_size_loop_pow2 [OF assms(1,2)] assms(3)
    by (auto simp: validateAndCalculateChunkSize_def)
  show ?thesis unfolding shifts size by (auto simp: le29 simp flip: power_add)
qed

theorem allocator_geometry_witness:
  "validateAndCalculatePageShifts 8192 = Ok 13 \<and> validateAndCalculateChunkSize 8192 11 = Ok 16777216"
proof -
  have "\<exists>p. (8192::int) = 2 ^ p \<and> 13 = int p \<and> 12 \<le> p \<and> (11::int) \<le> 14 \<and>
      16777216 = (2::int) ^ (p + nat 11) \<and> ((11::int) = 0 \<or> p + nat 11 \<le> 29)"
    by (rule exI [of _ 13]) simp
  then show ?thesis by (subst allocator_geometry) simp_all
qed

end
