(* ===== verification/BuddyTree.thy ===== *)
theory BuddyTree
  imports SizeMath
begin

text \<open>
  The buddy tree of \<open>PoolChunk\<close> (src/common/buffer/PoolChunk.cpp): \<open>memoryMap\<close>, the search
  for a free node, and the two walks that repair the ancestors. The map is related to the set
  of nodes handed out: \<open>tree_ok\<close> says that the map is the summary of that set.
\<close>

section \<open>Nodes\<close>

text \<open>
  Node 1 is the root, the children of \<open>n\<close> are \<open>2 n\<close> and \<open>2 n + 1\<close>; \<open>under x y\<close> says that \<open>x\<close>
  lies in the subtree of \<open>y\<close>.
\<close>

fun dep :: "nat \<Rightarrow> nat" where
  "dep n = (if n \<le> 1 then 0 else Suc (dep (n div 2)))"

declare dep.simps [simp del]

definition under :: "nat \<Rightarrow> nat \<Rightarrow> bool" where
  "under x y \<longleftrightarrow> (\<exists>k. x div 2 ^ k = y)"

lemma dep_1 [simp]: "dep (Suc 0) = 0" "dep 1 = 0"
  by (simp_all add: dep.simps)

lemma dep_child [simp]: "0 < n \<Longrightarrow> dep (2 * n) = Suc (dep n)" "0 < n \<Longrightarrow> dep (Suc (2 * n)) = Suc (dep n)"
  by (subst dep.simps, simp)+

lemma dep_bounds: "0 < n \<Longrightarrow> 2 ^ dep n \<le> n \<and> n < 2 ^ Suc (dep n)"
proof (induction n rule: dep.induct)
  case (1 n)
  show ?case
  proof (cases "n \<le> 1")
    case False
    then have "2 ^ dep (n div 2) \<le> n div 2 \<and> n div 2 < 2 ^ Suc (dep (n div 2))" using 1 by simp
    moreover have "dep n = Suc (dep (n div 2))" using False by (simp add: dep.simps)
    ultimately show ?thesis by (simp add: less_mult_imp_div_less) linarith
  qed (use 1 in \<open>simp add: dep.simps\<close>)
qed

lemma dep_unique: "2 ^ k \<le> n \<Longrightarrow> n < 2 ^ Suc k \<Longrightarrow> dep n = k"
proof (induction k arbitrary: n)
  case 0
  then show ?case by (simp add: dep.simps)
next
  case (Suc k)
  then have "dep (n div 2) = k" by (intro Suc.IH) auto
  moreover have "(1::nat) \<le> 2 ^ k" by simp
  then have "\<not> n \<le> 1" using Suc.prems(1) unfolding power_Suc by linarith
  ultimately show ?case by (simp add: dep.simps)
qed

lemma dep_less: "0 < n \<Longrightarrow> dep n < k \<longleftrightarrow> n < 2 ^ k"
proof
  assume n: "0 < n" "dep n < k"
  then have "(2::nat) ^ Suc (dep n) \<le> 2 ^ k" by (intro power_increasing) auto
  then show "n < 2 ^ k" using dep_bounds [OF n(1)] by linarith
next
  assume n: "0 < n" "n < 2 ^ k"
  show "dep n < k"
  proof (rule ccontr)
    assume "\<not> dep n < k"
    then have "(2::nat) ^ k \<le> 2 ^ dep n" by (intro power_increasing) auto
    then show False using n dep_bounds [OF n(1)] by linarith
  qed
qed

lemma dep_le: "0 < n \<Longrightarrow> dep n \<le> k \<longleftrightarrow> n < 2 ^ Suc k"
  using dep_less [of n "Suc k"] by (simp add: less_Suc_eq_le)

lemma div_2_power_Suc: "x div 2 ^ Suc k = x div 2 ^ k div (2::nat)"
  unfolding power_Suc2 by (rule div_mult2_eq)

lemma dep_div: "0 < x div 2 ^ k \<Longrightarrow> dep (x div 2 ^ k) = dep x - k \<and> k \<le> dep x"
proof (induction k)
  case (Suc k)
  have e: "x div 2 ^ Suc k = x div 2 ^ k div 2" by (rule div_2_power_Suc)
  then have p: "1 < x div 2 ^ k" using Suc.prems by (cases "x div 2 ^ k \<le> 1") auto
  then have IH: "dep (x div 2 ^ k) = dep x - k \<and> k \<le> dep x" using Suc.IH by simp
  have "dep (x div 2 ^ k) = Suc (dep (x div 2 ^ Suc k))" unfolding e using p by (subst dep.simps) simp
  then show ?case using IH by linarith
qed simp

lemma under_refl [simp]: "under x x"
  unfolding under_def by (rule exI [of _ 0]) simp

lemma under_trans: "under x y \<Longrightarrow> under y z \<Longrightarrow> under x z"
  unfolding under_def by (auto simp: div_mult2_eq simp flip: power_add) (metis div_mult2_eq power_add)

lemma under_dep: "0 < y \<Longrightarrow> under x y \<Longrightarrow> dep y \<le> dep x \<and> x div 2 ^ (dep x - dep y) = y"
  unfolding under_def using dep_div by (auto simp: diff_le_self)

lemma under_pos: "under x y \<Longrightarrow> 0 < y \<Longrightarrow> 0 < x"
  unfolding under_def by (auto intro: gr0I)

lemma under_antisym: "0 < x \<Longrightarrow> 0 < y \<Longrightarrow> under x y \<Longrightarrow> under y x \<Longrightarrow> x = y"
  using under_dep [of y x] under_dep [of x y] by auto

lemma under_linear:
  assumes "under x y" "under x z" "0 < y" "0 < z" "dep y \<le> dep z"
  shows "under z y"
proof -
  have "x div 2 ^ (dep x - dep y) = y" "x div 2 ^ (dep x - dep z) = z" "dep z \<le> dep x"
    using under_dep [OF assms(3,1)] under_dep [OF assms(4,2)] by auto
  moreover from this(3) assms(5) have "dep x - dep y = (dep x - dep z) + (dep z - dep y)" by simp
  ultimately have "z div 2 ^ (dep z - dep y) = y" by (metis div_mult2_eq power_add)
  then show ?thesis unfolding under_def by blast
qed

lemma under_parent: "under x (x div 2)"
  unfolding under_def by (rule exI [of _ 1]) simp

lemma under_cases:
  assumes "under x y"
  shows "x = y \<or> under x (2 * y) \<or> under x (Suc (2 * y))"
proof -
  obtain k where k: "x div 2 ^ k = y" using assms unfolding under_def by blast
  show ?thesis
  proof (cases k)
    case (Suc j)
    then have "x div 2 ^ j div 2 = y" using k div_2_power_Suc [of x j] by simp
    then have "x div 2 ^ j = 2 * y \<or> x div 2 ^ j = Suc (2 * y)" by linarith
    then show ?thesis unfolding under_def by blast
  qed (use k in simp)
qed

lemma under_up: "under x (2 * y) \<Longrightarrow> under x y" "under x (Suc (2 * y)) \<Longrightarrow> under x y"
  using under_trans [OF _ under_parent [of "2 * y"], of x]
    under_trans [OF _ under_parent [of "Suc (2 * y)"], of x] by simp_all

lemma under_same_dep: "under x y \<Longrightarrow> dep x = dep y \<Longrightarrow> 0 < y \<Longrightarrow> x = y"
  using under_dep [of y x] by simp

section \<open>The map\<close>

lemma push_1: "push_bit 1 n = 2 * (n::nat)"
  by (simp add: push_bit_eq_mult)

lemma even_xor_1: "(2 * n) XOR 1 = Suc (2 * (n::nat))" "n * 2 XOR Suc 0 = Suc (2 * n)"
    "2 * n XOR Suc 0 = Suc (2 * n)"
  by (simp_all add: xor_Suc_0_eq)

text \<open>
  \<open>memoryMap\<close> as the list of its bytes. The search walks down while the node is not yet at
  depth \<open>d\<close> or has free room only further down; an access outside the array is undefined.
\<close>

function descend :: "nat list \<Rightarrow> nat \<Rightarrow> int \<Rightarrow> nat \<Rightarrow> nat outcome" where
  "descend mm d initial n =
     (if n = 0 \<or> length mm \<le> n then Undef
      else if mm ! n < d \<or> int n AND initial = 0 then
        (let c = push_bit 1 n in
         if length mm \<le> c then Undef
         else if mm ! c > d then descend mm d initial (c XOR 1)
         else descend mm d initial c)
      else Ok n)"
  by pat_completeness auto
termination
  by (relation "measure (\<lambda>(mm, d, initial, n). length mm - n)")
    (auto simp: push_1 even_xor_1 diff_less_mono2)

declare descend.simps [simp del]

function updateParentsAlloc :: "nat list \<Rightarrow> nat \<Rightarrow> nat list" where
  "updateParentsAlloc mm n =
     (if n > 1 then
        (let parentId = drop_bit 1 n;
             val1 = mm ! n;
             val2 = mm ! (n XOR 1);
             v = (if val1 < val2 then val1 else val2)
         in updateParentsAlloc (mm[parentId := v]) parentId)
      else mm)"
  by pat_completeness auto
termination
  by (relation "measure snd") (auto simp: drop_bit_eq_div)

declare updateParentsAlloc.simps [simp del]

function updateParentsFree_loop :: "nat list \<Rightarrow> nat \<Rightarrow> int \<Rightarrow> nat list" where
  "updateParentsFree_loop mm n logChild =
     (if n > 1 then
        (let parentId = drop_bit 1 n;
             val1 = mm ! n;
             val2 = mm ! (n XOR 1);
             logChild = logChild - 1;
             v = (if int val1 = logChild \<and> int val2 = logChild then nat (logChild - 1)
                  else if val1 < val2 then val1 else val2)
         in updateParentsFree_loop (mm[parentId := v]) parentId logChild)
      else mm)"
  by pat_completeness auto
termination
  by (relation "measure (\<lambda>(mm, n, l). n)") (auto simp: drop_bit_eq_div)

declare updateParentsFree_loop.simps [simp del]

section \<open>The map summarises the allocated nodes\<close>

text \<open>
  \<open>A\<close> is the set of nodes handed out. A node that was handed out holds \<open>M + 1\<close>, a node with
  nothing handed out below it its depth, any other node the smaller value of its children:
  the depth of the largest free subtree below it.
\<close>

definition clear :: "nat set \<Rightarrow> nat \<Rightarrow> bool" where
  "clear A n \<longleftrightarrow> (\<forall>x\<in>A. \<not> under x n)"

definition free_node :: "nat set \<Rightarrow> nat \<Rightarrow> bool" where
  "free_node A n \<longleftrightarrow> clear A n \<and> (\<forall>x\<in>A. \<not> under n x)"

definition node_ok :: "nat \<Rightarrow> nat set \<Rightarrow> nat list \<Rightarrow> nat \<Rightarrow> bool" where
  "node_ok M A mm n \<longleftrightarrow>
     mm ! n = (if n \<in> A then Suc M else if clear A n then dep n
               else min (mm ! (2 * n)) (mm ! Suc (2 * n)))"

definition tree_ok :: "nat \<Rightarrow> nat set \<Rightarrow> nat list \<Rightarrow> bool" where
  "tree_ok M A mm \<longleftrightarrow> length mm = 2 ^ Suc M \<and> A \<subseteq> {1..<2 ^ Suc M} \<and>
     (\<forall>x\<in>A. \<forall>y\<in>A. under x y \<longrightarrow> x = y) \<and>
     (\<forall>n. 0 < n \<and> n < 2 ^ Suc M \<longrightarrow> node_ok M A mm n)"

lemma in_range: "0 < n \<Longrightarrow> n < 2 ^ Suc M \<longleftrightarrow> dep n \<le> M"
  using dep_le by simp

lemma not_clear_inner:
  assumes "A \<subseteq> {1..<2 ^ Suc M}" "0 < n" "n \<notin> A" "\<not> clear A n"
  shows "dep n < M"
proof -
  obtain x where x: "x \<in> A" "under x n" using assms(4) unfolding clear_def by blast
  have "0 < x" "x < 2 ^ Suc M" using x(1) assms(1) by auto
  then have "dep x \<le> M" using in_range by blast
  moreover have "dep n \<le> dep x" using under_dep [OF assms(2) x(2)] by blast
  moreover have "dep n \<noteq> dep x" using under_same_dep [OF x(2) _ assms(2)] x(1) assms(3) by metis
  ultimately show ?thesis by simp
qed

lemma clear_children:
  assumes "n \<notin> A"
  shows "clear A n \<longleftrightarrow> clear A (2 * n) \<and> clear A (Suc (2 * n))"
  unfolding clear_def using assms under_cases under_up by blast

lemma value_range:
  assumes "A \<subseteq> {1..<2 ^ Suc M}" "0 < n" "dep n \<le> M"
    and "\<And>m. 0 < m \<Longrightarrow> dep m \<le> M \<Longrightarrow> under m n \<Longrightarrow> node_ok M A mm m"
  shows "dep n \<le> mm ! n \<and> mm ! n \<le> Suc M \<and> (mm ! n = dep n \<longleftrightarrow> n \<notin> A \<and> clear A n)"
  using assms(2-4)
proof (induction "M - dep n" arbitrary: n rule: less_induct)
  case less
  have ok: "node_ok M A mm n" using less.prems by simp
  show ?case
  proof (cases "n \<in> A \<or> clear A n")
    case True
    then show ?thesis using ok less.prems(2) by (auto simp: node_ok_def)
  next
    case False
    then have d: "dep n < M" using not_clear_inner [OF assms(1) less.prems(1)] by simp
    have c: "Suc (dep n) \<le> mm ! k \<and> mm ! k \<le> Suc M" if "k = 2 * n \<or> k = Suc (2 * n)" for k
    proof -
      have k: "0 < k" "dep k = Suc (dep n)" using that less.prems(1) by auto
      have up: "under m n" if "under m k" for m using \<open>k = 2 * n \<or> k = Suc (2 * n)\<close> that under_up by metis
      have "M - dep k < M - dep n" "dep k \<le> M" using k(2) d by auto
      moreover have "\<And>m. 0 < m \<Longrightarrow> dep m \<le> M \<Longrightarrow> under m k \<Longrightarrow> node_ok M A mm m"
        using less.prems(3) up by blast
      ultimately show ?thesis using less.hyps [of k] k(1,2) by metis
    qed
    from c [of "2 * n"] c [of "Suc (2 * n)"] show ?thesis using ok False
      by (simp add: node_ok_def min_def)
  qed
qed

lemma tree_value:
  assumes "tree_ok M A mm" "0 < n" "dep n \<le> M"
  shows "dep n \<le> mm ! n" "mm ! n \<le> Suc M" "mm ! n = dep n \<longleftrightarrow> n \<notin> A \<and> clear A n"
    "n < length mm" "node_ok M A mm n"
proof -
  have "node_ok M A mm m" if "0 < m" "dep m \<le> M" for m
    using that assms(1) in_range by (simp add: tree_ok_def)
  then show "dep n \<le> mm ! n" "mm ! n \<le> Suc M" "mm ! n = dep n \<longleftrightarrow> n \<notin> A \<and> clear A n"
    "node_ok M A mm n"
    using value_range [of A M n mm] assms by (auto simp: tree_ok_def)
  show "n < length mm" using assms in_range by (simp add: tree_ok_def)
qed

section \<open>Searching\<close>

lemma and_initial: "int n AND - (2 ^ d) = int n - int n mod 2 ^ d"
proof -
  have "- (2 ^ d) = NOT (2 ^ d - 1 :: int)" by (simp add: not_int_def)
  then show ?thesis by (simp only: and_not_low_mask)
qed

lemma and_initial_zero: "int n AND - (2 ^ d) = 0 \<longleftrightarrow> n < 2 ^ d"
proof -
  have "int n AND - (2 ^ d) = 0 \<longleftrightarrow> int n < 2 ^ d"
    unfolding and_initial by (rule sub_mod_zero_iff) auto
  also have "\<dots> \<longleftrightarrow> n < 2 ^ d" by (metis of_nat_less_iff of_nat_numeral of_nat_power)
  finally show ?thesis .
qed

lemma descend_finds:
  assumes "tree_ok M A mm" "d \<le> M" "0 < n" "dep n \<le> d" "mm ! n \<le> d"
    and "\<And>x. x \<in> A \<Longrightarrow> \<not> under n x"
  shows "\<exists>y. descend mm d (- (2 ^ d)) n = Ok y \<and> 0 < y \<and> dep y = d \<and> free_node A y \<and> mm ! y = d"
  using assms(3-6)
proof (induction "d - dep n" arbitrary: n)
  case 0
  then have d: "dep n = d" by simp
  note v = tree_value [OF assms(1) 0(2), unfolded d, OF assms(2)]
  have "\<not> n < 2 ^ d" using d 0(2) dep_less [of n d] by simp
  then have "descend mm d (- (2 ^ d)) n = Ok n"
    using v(1,4) 0(2) by (subst descend.simps) (simp add: and_initial_zero)
  moreover have "mm ! n = d" using v(1) 0(4) by simp
  moreover from this have "clear A n" using v(3) by simp
  ultimately show ?case using 0(2,5) d by (auto simp: free_node_def)
next
  case (Suc k)
  have dn: "dep n < d" using Suc.hyps(2) by simp
  then have less: "n < 2 ^ d" using dep_less Suc.prems(1) by simp
  have len: "n < length mm" using tree_value(4) [OF assms(1) Suc.prems(1)] dn assms(2) by simp
  have kids: "0 < c \<and> dep c = Suc (dep n) \<and> dep c \<le> M \<and> c < length mm \<and> d - dep c = k \<and> c div 2 = n"
    if "c = 2 * n \<or> c = Suc (2 * n)" for c
    using that Suc.prems(1) dn assms(2) Suc.hyps(2) tree_value(4) [OF assms(1), of c] by auto
  have nA: "n \<notin> A" using Suc.prems(4) [of n] by auto
  have some: "mm ! (2 * n) \<le> d \<or> mm ! Suc (2 * n) \<le> d"
  proof (cases "clear A n")
    case True
    then have "clear A (2 * n)" using clear_children [OF nA] by simp
    moreover have "2 * n \<notin> A"
      using True under_up(1) [of "2 * n" n] by (auto simp: clear_def)
    ultimately have "mm ! (2 * n) = dep (2 * n)"
      using tree_value(3) [OF assms(1), of "2 * n"] kids [of "2 * n"] by metis
    then show ?thesis using dn Suc.prems(1) by simp
  next
    case False
    then show ?thesis
      using tree_value(5) [OF assms(1) Suc.prems(1)] nA Suc.prems(3) dn assms(2)
      by (auto simp: node_ok_def min_def split: if_splits)
  qed
  have go: "\<exists>y. descend mm d (- (2 ^ d)) c = Ok y \<and> 0 < y \<and> dep y = d \<and> free_node A y \<and> mm ! y = d"
    if c: "c = 2 * n \<or> c = Suc (2 * n)" "mm ! c \<le> d" for c
  proof (rule Suc.hyps(1))
    show "k = d - dep c" "0 < c" "dep c \<le> d" "mm ! c \<le> d" using kids [OF c(1)] c(2) dn by auto
    show "\<not> under c x" if "x \<in> A" for x
    proof
      assume u: "under c x"
      have "c \<notin> A"
      proof
        assume "c \<in> A"
        then have "mm ! c = Suc M"
          using tree_value(5) [OF assms(1)] kids [OF c(1)] by (simp add: node_ok_def)
        then show False using c(2) assms(2) by simp
      qed
      then have "x \<noteq> c" using that by auto
      from u obtain j where j: "c div 2 ^ j = x" unfolding under_def by blast
      with \<open>x \<noteq> c\<close> obtain i where "j = Suc i" by (cases j) auto
      then have "n div 2 ^ i = x" using j kids [OF c(1)] by (simp add: div_mult2_eq)
      then show False using Suc.prems(4) [OF that] unfolding under_def by blast
    qed
  qed
  show ?case
  proof (cases "mm ! (2 * n) \<le> d")
    case True
    then have "descend mm d (- (2 ^ d)) n = descend mm d (- (2 ^ d)) (2 * n)"
      using Suc.prems(1) len less kids [of "2 * n"]
      by (subst descend.simps) (simp add: and_initial_zero mult.commute [of n 2] Let_def)
    then show ?thesis using go [of "2 * n"] True by simp
  next
    case False
    then have "descend mm d (- (2 ^ d)) n = descend mm d (- (2 ^ d)) (Suc (2 * n))"
      using Suc.prems(1) len less kids [of "2 * n"]
      by (subst descend.simps) (simp add: and_initial_zero mult.commute [of n 2] even_xor_1 Let_def)
    then show ?thesis using go [of "Suc (2 * n)"] False some by simp
  qed
qed

lemma free_node_le:
  assumes "tree_ok M A mm" "d \<le> M" "0 < y" "dep y = d" "free_node A y" "0 < n" "under y n"
  shows "mm ! n \<le> d"
  using assms(6,7)
proof (induction "dep y - dep n" arbitrary: n rule: less_induct)
  case less
  have dn: "dep n \<le> dep y" using under_dep [OF less.prems] by simp
  then have dM: "dep n \<le> M" using assms(2,4) by simp
  note v = tree_value [OF assms(1) less.prems(1) dM]
  have nA: "n \<notin> A" using assms(5) less.prems(2) by (auto simp: free_node_def)
  show ?case
  proof (cases "clear A n")
    case True
    then show ?thesis using v(3) nA dn assms(4) by simp
  next
    case False
    then have "y \<noteq> n" using assms(5) by (auto simp: free_node_def)
    then obtain c where c: "c = 2 * n \<or> c = Suc (2 * n)" "under y c"
      using under_cases [OF less.prems(2)] by blast
    have dc: "0 < c" "dep c = Suc (dep n)" using c(1) less.prems(1) by auto
    then have "dep y - dep c < dep y - dep n" using under_dep [OF dc(1) c(2)] dc(2) by linarith
    then have "mm ! c \<le> d" using less.hyps dc(1) c(2) by blast
    then show ?thesis using v(5) nA False c(1) by (auto simp: node_ok_def)
  qed
qed

text \<open>The root tells whether a node of depth \<open>d\<close> is free.\<close>

lemma root_tells:
  assumes "tree_ok M A mm" "d \<le> M"
  shows "mm ! 1 \<le> d \<longleftrightarrow> (\<exists>y. 0 < y \<and> dep y = d \<and> free_node A y)"
proof
  assume le: "mm ! 1 \<le> d"
  have "1 \<notin> A" using tree_value(5) [OF assms(1), of 1] le assms(2) by (auto simp: node_ok_def)
  moreover have "x = 1" if "under 1 x" "x \<in> A" for x
  proof -
    have "0 < x" using that(2) assms(1) by (auto simp: tree_ok_def)
    then show ?thesis using under_dep [OF _ that(1)] under_same_dep [OF that(1)] by simp
  qed
  ultimately have "\<not> under 1 x" if "x \<in> A" for x using that by blast
  then show "\<exists>y. 0 < y \<and> dep y = d \<and> free_node A y"
    using descend_finds [OF assms, of 1] le by auto
next
  assume "\<exists>y. 0 < y \<and> dep y = d \<and> free_node A y"
  then obtain y where y: "0 < y" "dep y = d" "free_node A y" by blast
  have "under y 1"
  proof -
    have "y div 2 ^ dep y = 1" using dep_bounds [OF y(1)] by (intro div_nat_eqI) auto
    then show ?thesis unfolding under_def by blast
  qed
  then show "mm ! 1 \<le> d" using free_node_le [OF assms y] by simp
qed

section \<open>Repairing the ancestors\<close>

lemma pair_min:
  "min (mm ! n) (mm ! (n XOR 1)) = min (mm ! (2 * (n div 2))) ((mm :: nat list) ! Suc (2 * (n div 2)))"
proof (cases "even n")
  case True
  then obtain q where "n = 2 * q" by (rule evenE)
  then show ?thesis by (simp add: even_xor_1)
next
  case False
  then obtain q where q: "n = 2 * q + 1" by (rule oddE)
  then have "n XOR 1 = 2 * q" by (simp add: xor_Suc_0_eq)
  moreover have "n = Suc (2 * q)" "n div 2 = q" using q by simp_all
  ultimately show ?thesis by (simp add: min.commute)
qed

lemma if_min: "(if a < b then a else b) = min a (b::nat)"
  by (simp add: min_def)

text \<open>One step of either walk: a new value for the parent leaves every other equation alone.\<close>

lemma node_ok_step:
  assumes "node_ok M A mm m" "m \<noteq> p" "p div 2 \<noteq> m"
  shows "node_ok M A (mm[p := v]) m"
proof -
  have "p \<noteq> 2 * m" "p \<noteq> Suc (2 * m)" using assms(3) by auto
  then show ?thesis using assms(1,2) by (simp add: node_ok_def)
qed

definition above :: "nat \<Rightarrow> nat \<Rightarrow> bool" where
  "above m n \<longleftrightarrow> under n m \<and> m \<noteq> n"

lemma above_parent:
  assumes "1 < n" "above m n"
  shows "m = n div 2 \<or> above m (n div 2)"
proof -
  obtain k where k: "n div 2 ^ k = m" "m \<noteq> n" using assms(2) by (auto simp: above_def under_def)
  then obtain j where "k = Suc j" by (cases k) auto
  then have "n div 2 div 2 ^ j = m" using k(1) by (simp add: div_mult2_eq)
  then show ?thesis unfolding above_def under_def by blast
qed

lemma parent_above: "1 < n \<Longrightarrow> above (n div 2) n"
  unfolding above_def using under_parent by auto

lemma above_trans: "above m (n div 2) \<Longrightarrow> 1 < n \<Longrightarrow> 0 < m \<Longrightarrow> above m n"
  using under_trans [OF under_parent [of n]] under_antisym [of n "n div 2"] under_parent [of n]
  unfolding above_def by (metis div_less_dividend less_imp_le_nat less_not_refl2 less_trans
      nat_neq_iff one_less_numeral_iff semiring_norm(76) under_antisym under_pos zero_less_one)

lemma updateParentsAlloc_ok:
  assumes "length mm = 2 ^ Suc M" "0 < n" "n < 2 ^ Suc M"
    and "\<And>m. 0 < m \<Longrightarrow> m < 2 ^ Suc M \<Longrightarrow> \<not> above m n \<Longrightarrow> node_ok M A mm m"
    and "\<And>m. 0 < m \<Longrightarrow> above m n \<Longrightarrow> m \<notin> A \<and> \<not> clear A m"
  shows "length (updateParentsAlloc mm n) = 2 ^ Suc M \<and>
    (\<forall>m. 0 < m \<and> m < 2 ^ Suc M \<longrightarrow> node_ok M A (updateParentsAlloc mm n) m)"
  using assms
proof (induction mm n rule: updateParentsAlloc.induct)
  case (1 mm n)
  show ?case
  proof (cases "n > 1")
    case False
    then have "n = 1" using 1 by simp
    moreover have "\<not> above m 1" if "0 < m" for m
      using that under_dep [of m 1] under_same_dep [of 1 m] by (auto simp: above_def)
    moreover from \<open>n = 1\<close> have "updateParentsAlloc mm n = mm" by (simp add: updateParentsAlloc.simps)
    ultimately show ?thesis using 1 by simp
  next
    case True
    define p where "p = n div 2"
    define v where "v = min (mm ! n) (mm ! (n XOR 1))"
    have p: "0 < p" "p < 2 ^ Suc M" "drop_bit 1 n = p" "p < n"
      using True 1(4) by (auto simp: p_def drop_bit_eq_div)
    have rec: "updateParentsAlloc mm n = updateParentsAlloc (mm[p := v]) p"
      using True p(3) by (subst updateParentsAlloc.simps) (simp add: Let_def v_def if_min)
    have "length (updateParentsAlloc (mm[p := v]) p) = 2 ^ Suc M \<and>
      (\<forall>m. 0 < m \<and> m < 2 ^ Suc M \<longrightarrow> node_ok M A (updateParentsAlloc (mm[p := v]) p) m)"
    proof (rule "1.IH" [OF True p(3) [symmetric] refl refl, folded v_def if_min])
      show "length (mm[p := v]) = 2 ^ Suc M" "0 < p" "p < 2 ^ Suc M" using 1(2) p by simp_all
      show "v = (if mm ! n < mm ! (n XOR 1) then mm ! n else mm ! (n XOR 1))"
        by (simp add: v_def if_min)
      show "m \<notin> A \<and> \<not> clear A m" if "0 < m" "above m p" for m
        using that above_trans [of m n] True 1(6) by (simp add: p_def)
      show "node_ok M A (mm[p := v]) m" if m: "0 < m" "m < 2 ^ Suc M" "\<not> above m p" for m
      proof (cases "m = p")
        case eq: True
        have "p \<notin> A \<and> \<not> clear A p"
          using 1(6) [of p] parent_above [OF True] p(1) by (simp add: p_def)
        moreover have "v = min (mm ! (2 * p)) (mm ! Suc (2 * p))"
          unfolding v_def p_def by (rule pair_min)
        ultimately show ?thesis using eq p(1,2) 1(2) by (simp add: node_ok_def)
      next
        case False
        have "\<not> above m n" using above_parent [OF True] m(3) False unfolding p_def by blast
        moreover have "p div 2 \<noteq> m"
        proof
          assume "p div 2 = m"
          then have "above m p" using under_parent [of p] m(1) False by (auto simp: above_def)
          then show False using m(3) by simp
        qed
        ultimately show ?thesis using 1(5) [OF m(1,2)] False by (intro node_ok_step) auto
      qed
    qed
    then show ?thesis unfolding rec .
  qed
qed

lemma updateParentsFree_ok:
  assumes "length mm = 2 ^ Suc M" "A \<subseteq> {1..<2 ^ Suc M}" "0 < n" "n < 2 ^ Suc M"
    and "\<And>m. 0 < m \<Longrightarrow> m < 2 ^ Suc M \<Longrightarrow> \<not> above m n \<Longrightarrow> node_ok M A mm m"
    and "\<And>m. 0 < m \<Longrightarrow> above m n \<Longrightarrow> m \<notin> A"
    and "l = int (dep n) + 1"
  shows "length (updateParentsFree_loop mm n l) = 2 ^ Suc M \<and>
    (\<forall>m. 0 < m \<and> m < 2 ^ Suc M \<longrightarrow> node_ok M A (updateParentsFree_loop mm n l) m)"
  using assms(1,3-)
proof (induction mm n l rule: updateParentsFree_loop.induct)
  case (1 mm n l)
  show ?case
  proof (cases "n > 1")
    case False
    then have "n = 1" using 1 by simp
    moreover have "\<not> above m 1" if "0 < m" for m
      using that under_dep [of m 1] under_same_dep [of 1 m] by (auto simp: above_def)
    moreover from \<open>n = 1\<close> have "updateParentsFree_loop mm n l = mm"
      by (simp add: updateParentsFree_loop.simps)
    ultimately show ?thesis using 1 by simp
  next
    case True
    define p where "p = n div 2"
    define v where "v = (if int (mm ! n) = l - 1 \<and> int (mm ! (n XOR 1)) = l - 1 then nat (l - 1 - 1)
                         else min (mm ! n) (mm ! (n XOR 1)))"
    have p: "0 < p" "p < 2 ^ Suc M" "drop_bit 1 n = p" "p < n" "dep n = Suc (dep p)"
      using True 1(4) by (auto simp: p_def drop_bit_eq_div) (subst dep.simps, simp)
    have rec: "updateParentsFree_loop mm n l = updateParentsFree_loop (mm[p := v]) p (l - 1)"
      using True p(3) by (subst updateParentsFree_loop.simps) (simp add: Let_def v_def if_min)
    have dn: "dep n \<le> M" using in_range [of n M] 1(3,4) by simp
    have kid: "mm ! c = Suc (dep p) \<longleftrightarrow> c \<notin> A \<and> clear A c"
      if "c = 2 * p \<or> c = Suc (2 * p)" for c
    proof -
      have c: "0 < c" "dep c = Suc (dep p)" using that p(1) by auto
      have "\<not> above m n" if u: "under m c" "0 < m" for m
      proof
        assume "above m n"
        then have m: "under n m" "m \<noteq> n" by (simp_all add: above_def)
        have "dep m \<noteq> dep n" using under_same_dep [OF m(1) _ u(2)] m(2) by metis
        then have "dep m < dep c" using under_dep [OF u(2) m(1)] c(2) p(5) by linarith
        moreover have "dep c \<le> dep m" using under_dep [OF c(1) u(1)] by blast
        ultimately show False by simp
      qed
      then have "node_ok M A mm m" if "0 < m" "dep m \<le> M" "under m c" for m
        using 1(5) that in_range by blast
      moreover have "dep c \<le> M" using c(2) p(5) dn by simp
      ultimately show ?thesis using value_range [OF assms(2) c(1)] c(2) by metis
    qed
    have "length (updateParentsFree_loop (mm[p := v]) p (l - 1)) = 2 ^ Suc M \<and>
      (\<forall>m. 0 < m \<and> m < 2 ^ Suc M \<longrightarrow> node_ok M A (updateParentsFree_loop (mm[p := v]) p (l - 1)) m)"
    proof (rule "1.IH" [OF True p(3) [symmetric] refl refl refl])
      show "v = (if int (mm ! n) = l - 1 \<and> int (mm ! (n XOR 1)) = l - 1 then nat (l - 1 - 1)
                 else if mm ! n < mm ! (n XOR 1) then mm ! n else mm ! (n XOR 1))"
        by (simp add: v_def if_min)
      show "length (mm[p := v]) = 2 ^ Suc M" "0 < p" "p < 2 ^ Suc M" using 1(2) p by simp_all
      show "l - 1 = int (dep p) + 1" using 1(7) p(5) by simp
      show "m \<notin> A" if "0 < m" "above m p" for m
        using that above_trans [of m n] True 1(6) by (simp add: p_def)
      show "node_ok M A (mm[p := v]) m" if m: "0 < m" "m < 2 ^ Suc M" "\<not> above m p" for m
      proof (cases "m = p")
        case eq: True
        have pA: "p \<notin> A" using 1(6) [of p] parent_above [OF True] p(1) by (simp add: p_def)
        have both: "int (mm ! n) = l - 1 \<and> int (mm ! (n XOR 1)) = l - 1 \<longleftrightarrow>
            mm ! (2 * p) = Suc (dep p) \<and> mm ! Suc (2 * p) = Suc (dep p)"
        proof (cases "even n")
          case True
          then obtain q where "n = 2 * q" by (rule evenE)
          then show ?thesis using 1(7) p(5) by (auto simp: p_def even_xor_1)
        next
          case False
          then obtain q where "n = 2 * q + 1" by (rule oddE)
          then show ?thesis using 1(7) p(5) by (auto simp: p_def xor_Suc_0_eq)
        qed
        have "v = (if clear A p then dep p else min (mm ! (2 * p)) (mm ! Suc (2 * p)))"
        proof (cases "clear A p")
          case True
          then have "clear A (2 * p)" "clear A (Suc (2 * p))" using clear_children [OF pA] by auto
          moreover have "2 * p \<notin> A" "Suc (2 * p) \<notin> A"
            using calculation under_refl unfolding clear_def by blast+
          ultimately have "int (mm ! n) = l - 1 \<and> int (mm ! (n XOR 1)) = l - 1"
            using kid both by blast
          then show ?thesis using True 1(7) p(5) by (simp add: v_def)
        next
          case False
          then have "\<not> (int (mm ! n) = l - 1 \<and> int (mm ! (n XOR 1)) = l - 1)"
            using kid both clear_children [OF pA] by blast
          then show ?thesis using False pair_min [of mm n] by (simp only: v_def p_def if_False)
        qed
        then show ?thesis using eq pA p(1,2) 1(2) by (simp add: node_ok_def)
      next
        case False
        have "\<not> above m n" using above_parent [OF True] m(3) False unfolding p_def by blast
        moreover have "p div 2 \<noteq> m"
        proof
          assume "p div 2 = m"
          then have "above m p" using under_parent [of p] m(1) False by (auto simp: above_def)
          then show False using m(3) by simp
        qed
        ultimately show ?thesis using 1(5) [OF m(1,2)] False by (intro node_ok_step) auto
      qed
    qed
    then show ?thesis unfolding rec .
  qed
qed

text \<open>Handing out a free node, and taking back a node, re-establish the summary.\<close>

lemma tree_alloc:
  assumes "tree_ok M A mm" "0 < y" "dep y \<le> M" "free_node A y"
  shows "tree_ok M (insert y A) (updateParentsAlloc (mm[y := Suc M]) y)"
proof -
  let ?A = "insert y A" and ?mm = "mm[y := Suc M]"
  have len: "length ?mm = 2 ^ Suc M" and AR: "A \<subseteq> {1..<2 ^ Suc M}"
    and anti: "\<forall>x\<in>A. \<forall>z\<in>A. under x z \<longrightarrow> x = z"
    and ok: "\<And>n. 0 < n \<Longrightarrow> n < 2 ^ Suc M \<Longrightarrow> node_ok M A mm n"
    using assms(1) by (simp_all add: tree_ok_def)
  have yr: "y < 2 ^ Suc M" using assms(2,3) in_range by blast
  have step: "node_ok M ?A ?mm m" if m: "0 < m" "m < 2 ^ Suc M" "\<not> above m y" for m
  proof (cases "m = y")
    case True
    then show ?thesis using len yr by (simp add: node_ok_def)
  next
    case False
    have "clear ?A m \<longleftrightarrow> clear A m" using m(3) False by (auto simp: clear_def above_def)
    moreover have "y \<noteq> 2 * m" "y \<noteq> Suc (2 * m)"
      using m(3) under_parent [of y] False by (auto simp: above_def)
    ultimately show ?thesis using ok [OF m(1,2)] False by (simp add: node_ok_def)
  qed
  have up: "m \<notin> ?A \<and> \<not> clear ?A m" if "0 < m" "above m y" for m
    using that assms(4) by (auto simp: clear_def above_def free_node_def)
  from updateParentsAlloc_ok [OF len assms(2) yr step up]
  have "length (updateParentsAlloc ?mm y) = 2 ^ Suc M"
    "\<forall>m. 0 < m \<and> m < 2 ^ Suc M \<longrightarrow> node_ok M ?A (updateParentsAlloc ?mm y) m" by blast+
  moreover have "?A \<subseteq> {1..<2 ^ Suc M}" using AR yr assms(2) by auto
  moreover have "\<forall>x\<in>?A. \<forall>z\<in>?A. under x z \<longrightarrow> x = z"
    using anti assms(4) by (auto simp: free_node_def clear_def)
  ultimately show ?thesis by (simp only: tree_ok_def)
qed

lemma tree_free:
  assumes "tree_ok M A mm" "y \<in> A"
  shows "tree_ok M (A - {y}) (updateParentsFree_loop (mm[y := dep y]) y (int (dep y) + 1))"
proof -
  let ?A = "A - {y}" and ?mm = "mm[y := dep y]"
  have len: "length ?mm = 2 ^ Suc M" and AR: "A \<subseteq> {1..<2 ^ Suc M}"
    and anti: "\<forall>x\<in>A. \<forall>z\<in>A. under x z \<longrightarrow> x = z"
    and ok: "\<And>n. 0 < n \<Longrightarrow> n < 2 ^ Suc M \<Longrightarrow> node_ok M A mm n"
    using assms(1) by (simp_all add: tree_ok_def)
  have AR': "?A \<subseteq> {1..<2 ^ Suc M}" using AR by auto
  have y: "0 < y" "y < 2 ^ Suc M" using AR assms(2) by auto
  have step: "node_ok M ?A ?mm m" if m: "0 < m" "m < 2 ^ Suc M" "\<not> above m y" for m
  proof (cases "m = y")
    case True
    have "clear ?A y" using anti assms(2) by (auto simp: clear_def)
    then show ?thesis using True len y by (simp add: node_ok_def)
  next
    case False
    have "clear ?A m \<longleftrightarrow> clear A m" using m(3) False by (auto simp: clear_def above_def)
    moreover have "y \<noteq> 2 * m" "y \<noteq> Suc (2 * m)"
      using m(3) under_parent [of y] False by (auto simp: above_def)
    ultimately show ?thesis using ok [OF m(1,2)] False by (simp add: node_ok_def)
  qed
  have up: "m \<notin> ?A" if "0 < m" "above m y" for m
    using that anti assms(2) by (auto simp: above_def)
  from updateParentsFree_ok [OF len AR' y step up refl]
  have "length (updateParentsFree_loop ?mm y (int (dep y) + 1)) = 2 ^ Suc M"
    "\<forall>m. 0 < m \<and> m < 2 ^ Suc M \<longrightarrow>
       node_ok M ?A (updateParentsFree_loop ?mm y (int (dep y) + 1)) m" by blast+
  then show ?thesis using AR' anti by (simp only: tree_ok_def) blast
qed

end
