(* ===== verification/Chunk.thy ===== *)
theory Chunk
  imports BuddyTree "HOL-Library.Signed_Division"
begin

text \<open>
  \<open>PoolChunk\<close> (src/common/buffer/PoolChunk.hpp and .cpp): the state of a chunk, allocation and
  release of runs of pages, the byte range of a node, and the handle encoding. The invariant
  \<open>chunk_inv A c\<close> ties a chunk to the set \<open>A\<close> of nodes it has handed out. Subpages are in
  theory Subpage.
\<close>

section \<open>State\<close>

text \<open>
  \<open>memoryMap\<close> and \<open>depthMap\<close> are the two \<open>uint8_t\<close> arrays; \<open>subpages\<close> holds the addresses of the
  subpage objects, 0 for none; \<open>parent\<close>, \<open>prev\<close> and \<open>next\<close> are addresses too. The bytes of the chunk belong to the buffers.
\<close>

record chunk =
  unpooled :: bool
  chunkSize :: int
  pageSize :: int
  pageShifts :: int
  maxOrder :: int
  offset :: int
  unusable :: nat
  freeBytes :: int
  memoryMap :: "nat list"
  depthMap :: "nat list"
  subpages :: "nat list"
  log2ChunkSize :: int
  maxSubpageAllocs :: int
  ck_parent :: nat
  ck_prev :: nat
  ck_next :: nat

text \<open>
  The nested loops of the constructor write the levels one after the other, starting at index
  1; index 0 is never initialised and never read.
\<close>

definition level_map :: "nat \<Rightarrow> nat list" where
  "level_map m = 0 # concat (map (\<lambda>d. replicate (2 ^ d) (d mod 256)) [0..<Suc m])"

definition PoolChunk_new :: "int \<Rightarrow> int \<Rightarrow> int \<Rightarrow> int \<Rightarrow> int \<Rightarrow> chunk" where
  "PoolChunk_new chunkSz pageSz shifts maxOrd off =
     (let allocs = i32 (push_bit (nat maxOrd) 1) in
      \<lparr>unpooled = False, chunkSize = chunkSz, pageSize = pageSz, pageShifts = shifts,
       maxOrder = maxOrd, offset = off, unusable = nat (maxOrd + 1) mod 256, freeBytes = chunkSz,
       memoryMap = level_map (nat maxOrd), depthMap = level_map (nat maxOrd),
       subpages = replicate (nat allocs) 0, log2ChunkSize = chunk_log2 chunkSz,
       maxSubpageAllocs = allocs, ck_parent = 0, ck_prev = 0, ck_next = 0\<rparr>)"

definition PoolChunk_new_unpooled :: "int \<Rightarrow> int \<Rightarrow> chunk" where
  "PoolChunk_new_unpooled sz off =
     \<lparr>unpooled = True, chunkSize = sz, pageSize = 0, pageShifts = 0, maxOrder = 0, offset = off,
      unusable = 1, freeBytes = 0, memoryMap = [], depthMap = [], subpages = [],
      log2ChunkSize = chunk_log2 sz, maxSubpageAllocs = 0, ck_parent = 0,
      ck_prev = 0, ck_next = 0\<rparr>"

definition val :: "chunk \<Rightarrow> nat \<Rightarrow> nat" where "val c n = memoryMap c ! n"
definition setValue :: "nat \<Rightarrow> nat \<Rightarrow> chunk \<Rightarrow> chunk" where
  "setValue n v c = c\<lparr>memoryMap := (memoryMap c)[n := v]\<rparr>"
definition depth :: "chunk \<Rightarrow> nat \<Rightarrow> nat" where "depth c n = depthMap c ! n"

definition runLength :: "chunk \<Rightarrow> nat \<Rightarrow> int" where
  "runLength c n = i32 (push_bit (nat (log2ChunkSize c - int (depth c n))) 1)"

definition runOffset :: "chunk \<Rightarrow> nat \<Rightarrow> int" where
  "runOffset c n =
     (let shift = int n XOR i32 (push_bit (depth c n) 1) in i32 (shift * runLength c n))"

definition subpageIdx :: "chunk \<Rightarrow> nat \<Rightarrow> int" where
  "subpageIdx c n = int n XOR maxSubpageAllocs c"

section \<open>Handles\<close>

definition memoryMapIdx :: "int \<Rightarrow> int" where "memoryMapIdx handle = i32 handle"
definition bitmapIdx :: "int \<Rightarrow> int" where "bitmapIdx handle = i32 (drop_bit 32 handle)"

section \<open>Operations\<close>

definition usage :: "chunk \<Rightarrow> int" where
  "usage c =
     (if freeBytes c = 0 then 100
      else let freePercentage = i32 ((freeBytes c * 100) sdiv chunkSize c)
           in if freePercentage = 0 then 99 else i32 (100 - freePercentage))"

definition allocateNode :: "int \<Rightarrow> (chunk, int) prog" where
  "allocateNode d c =
     (if d < 0 then (Undef, c)
      else if int (val c 1) > d then (Ok (- 1), c)
      else
        (let initial = i32 (- push_bit (nat d) 1) in
         case descend (memoryMap c) (nat d) initial 1 of
           Ok n \<Rightarrow>
             (if int (val c n) \<noteq> d \<or> int n AND initial \<noteq> push_bit (nat d) 1
              then (Throw (RuntimeError ''allocateNode''), c)
              else let c' = setValue n (unusable c) c
                   in (Ok (int n), c'\<lparr>memoryMap := updateParentsAlloc (memoryMap c') n\<rparr>))
         | Throw e \<Rightarrow> (Throw e, c) | Hang \<Rightarrow> (Hang, c) | Undef \<Rightarrow> (Undef, c)))"

definition allocateRun :: "int \<Rightarrow> (chunk, int) prog" where
  "allocateRun normCapacity =
     bindp (asks (\<lambda>c. maxOrder c - (chunk_log2 normCapacity - pageShifts c))) (\<lambda>d.
     bindp (allocateNode d) (\<lambda>n.
       if n < 0 then ret n
       else seqp (modify (\<lambda>c. c\<lparr>freeBytes := i32 (freeBytes c - runLength c (nat n))\<rparr>)) (ret n)))"

text \<open>The part of \<open>free\<close> that gives a node back to the tree.\<close>

definition free_run :: "int \<Rightarrow> chunk \<Rightarrow> chunk" where
  "free_run handle c =
     (let n = nat (memoryMapIdx handle);
          c1 = c\<lparr>freeBytes := i32 (freeBytes c + runLength c n)\<rparr>;
          c2 = setValue n (depth c1 n) c1
      in c2\<lparr>memoryMap := updateParentsFree_loop (memoryMap c2) n (int (depth c2 n) + 1)\<rparr>)"

section \<open>The invariant\<close>

definition pages :: "nat \<Rightarrow> nat \<Rightarrow> nat set" where
  "pages M n = {l. l < 2 ^ M \<and> under (2 ^ M + l) n}"

definition run_bytes :: "nat \<Rightarrow> nat \<Rightarrow> nat \<Rightarrow> int" where
  "run_bytes p M n = 2 ^ (p + M - dep n)"

definition chunk_geo :: "nat \<Rightarrow> nat \<Rightarrow> chunk \<Rightarrow> bool" where
  "chunk_geo p M c \<longleftrightarrow> M \<le> 14 \<and> p + M \<le> 30 \<and> \<not> unpooled c \<and> maxOrder c = int M \<and>
     unusable c = Suc M \<and> pageSize c = 2 ^ p \<and> pageShifts c = int p \<and> chunkSize c = 2 ^ (p + M) \<and>
     log2ChunkSize c = int (p + M) \<and> maxSubpageAllocs c = 2 ^ M \<and>
     length (depthMap c) = 2 ^ Suc M \<and> (\<forall>n. 0 < n \<and> dep n \<le> M \<longrightarrow> depthMap c ! n = dep n)"

definition chunk_inv :: "nat \<Rightarrow> nat \<Rightarrow> nat set \<Rightarrow> chunk \<Rightarrow> bool" where
  "chunk_inv p M A c \<longleftrightarrow> chunk_geo p M c \<and> tree_ok M A (memoryMap c) \<and>
     freeBytes c = 2 ^ (p + M) - (\<Sum>n\<in>A. run_bytes p M n)"

lemma length_level: "length (concat (map (\<lambda>d. replicate (2 ^ d) (d mod 256)) [0..<n])) = 2 ^ n - 1"
  by (induction n) auto

lemma level_map_length: "length (level_map m) = 2 ^ Suc m"
  unfolding level_map_def by (subst length_Cons, subst length_level) simp

lemma level_map_nth:
  assumes "0 < n" "dep n \<le> m" "m < 256"
  shows "level_map m ! n = dep n"
proof -
  let ?L = "\<lambda>k. concat (map (\<lambda>d. replicate (2 ^ d) (d mod 256)) [0..<k])"
  have len: "length (?L k) = 2 ^ k - 1" for k by (rule length_level)
  have b: "2 ^ dep n \<le> n" "n < 2 ^ Suc (dep n)" using dep_bounds [OF assms(1)] by auto
  have split: "?L (Suc m) = ?L (dep n) @ replicate (2 ^ dep n) (dep n mod 256) @
      concat (map (\<lambda>d. replicate (2 ^ d) (d mod 256)) [Suc (dep n)..<Suc m])"
  proof -
    have "[0..<Suc m] = [0..<dep n] @ dep n # [Suc (dep n)..<Suc m]"
      using assms(2) upt_add_eq_append [of 0 "dep n" "Suc m - dep n"] upt_conv_Cons [of "dep n" "Suc m"]
      by simp
    then show ?thesis by (simp only: map_append list.map concat_append concat.simps)
  qed
  have i: "n - 1 - (2 ^ dep n - 1) = n - 2 ^ dep n" "\<not> n - 1 < 2 ^ dep n - 1" "n - 2 ^ dep n < 2 ^ dep n"
    using b assms(1) by auto
  have "level_map m ! n = ?L (Suc m) ! (n - 1)"
    using assms(1) by (simp add: level_map_def nth_Cons')
  also have "\<dots> = dep n mod 256"
    unfolding split using i by (simp add: nth_append len del: upt_Suc)
  finally show ?thesis using assms(2,3) by simp
qed

lemma tree_ok_empty: "m < 256 \<Longrightarrow> tree_ok m {} (level_map m)"
  using dep_le by (auto simp: tree_ok_def node_ok_def level_map_length clear_def level_map_nth)

lemma pow2_i32: "k \<le> 30 \<Longrightarrow> i32 (2 ^ k) = 2 ^ k"
proof -
  assume "k \<le> 30"
  then have "(2::int) ^ k \<le> 2 ^ 30" by (intro power_increasing) auto
  moreover have "(0::int) \<le> 2 ^ k" by simp
  moreover have "(2::int) ^ 30 \<le> INT_MAX" by simp
  ultimately show "i32 (2 ^ k) = 2 ^ k" by (intro i32_id) linarith+
qed

lemma new_chunk_inv:
  assumes "M \<le> 14" "p + M \<le> 30"
  shows "chunk_inv p M {} (PoolChunk_new (2 ^ (p + M)) (2 ^ p) (int p) (int M) off)"
proof -
  have "nat (int M + 1) mod 256 = Suc M" using assms(1) by (simp add: nat_add_distrib)
  moreover have "chunk_log2 (2 ^ (p + M)) = int (p + M)"
    using assms(2) by (intro chunk_log2_eq) auto
  moreover have "i32 (push_bit M 1) = 2 ^ M" using pow2_i32 [of M] assms(1) by (simp add: push_bit_eq_mult)
  ultimately show ?thesis using assms tree_ok_empty [of M]
    by (simp add: chunk_inv_def chunk_geo_def PoolChunk_new_def Let_def level_map_length level_map_nth)
qed

section \<open>Geometry of a node\<close>

lemma geo_depth: "chunk_geo p M c \<Longrightarrow> 0 < n \<Longrightarrow> dep n \<le> M \<Longrightarrow> depth c n = dep n"
  by (simp add: chunk_geo_def depth_def)

lemma geo_runLength:
  assumes "chunk_geo p M c" "0 < n" "dep n \<le> M"
  shows "runLength c n = run_bytes p M n"
proof -
  have "nat (log2ChunkSize c - int (depth c n)) = p + M - dep n"
  proof -
    have "log2ChunkSize c = int (p + M)" using assms(1) by (simp add: chunk_geo_def)
    moreover have "int (p + M) - int (dep n) = int (p + M - dep n)" using assms(3) by linarith
    ultimately have "log2ChunkSize c - int (depth c n) = int (p + M - dep n)"
      by (simp only: geo_depth [OF assms])
    then show ?thesis by (simp only: nat_int)
  qed
  moreover have "p + M \<le> 30" using assms(1) by (simp add: chunk_geo_def)
  then have "p + M - dep n \<le> 30" by linarith
  ultimately show ?thesis using pow2_i32 [of "p + M - dep n"]
    by (simp add: runLength_def run_bytes_def push_bit_eq_mult)
qed

lemma xor_top: "2 ^ k \<le> n \<Longrightarrow> n < 2 ^ Suc k \<Longrightarrow> int n XOR 2 ^ k = int n - 2 ^ k"
proof -
  assume n: "2 ^ k \<le> n" "n < 2 ^ Suc k"
  define r where "r = n - 2 ^ k"
  have r: "n = 2 ^ k + r" "r < 2 ^ k" using n by (auto simp: r_def)
  have nb: "\<not> bit r j" if "k \<le> j" for j
  proof -
    have "(2::nat) ^ k \<le> 2 ^ j" using that by (intro power_increasing) auto
    then have "r < 2 ^ j" using r(2) by linarith
    then have "r div 2 ^ j = 0" by simp
    then show ?thesis by (simp add: bit_iff_odd)
  qed
  have "int n = 2 ^ k OR int r"
    unfolding r(1) of_nat_add of_nat_power of_nat_numeral
    by (rule disjunctive_add) (use nb in \<open>auto simp: bit_simps\<close>)
  then have "int n XOR 2 ^ k = int r"
    by (simp, intro bit_eqI) (use nb in \<open>auto simp: bit_simps\<close>)
  then show ?thesis using r(1) by simp
qed

lemma geo_runOffset:
  assumes "chunk_geo p M c" "0 < n" "dep n \<le> M"
  shows "runOffset c n = (int n - 2 ^ dep n) * run_bytes p M n"
proof -
  have b: "2 ^ dep n \<le> n" "n < 2 ^ Suc (dep n)" using dep_bounds [OF assms(2)] by auto
  have "M \<le> 14" "p + M \<le> 30" using assms(1) by (simp_all add: chunk_geo_def)
  then have "i32 (2 ^ dep n) = 2 ^ dep n" using assms(3) by (intro pow2_i32) simp
  moreover have "int n XOR 2 ^ dep n = int n - 2 ^ dep n" using b by (rule xor_top)
  moreover have "i32 ((int n - 2 ^ dep n) * run_bytes p M n) = (int n - 2 ^ dep n) * run_bytes p M n"
  proof -
    have "int n < 2 ^ Suc (dep n)" "2 ^ dep n \<le> int n"
      using b by (metis of_nat_less_iff of_nat_numeral of_nat_power,
          metis of_nat_le_iff of_nat_numeral of_nat_power)
    then have le: "0 \<le> int n - 2 ^ dep n" "int n - 2 ^ dep n \<le> 2 ^ dep n" by simp_all
    then have "(int n - 2 ^ dep n) * run_bytes p M n \<le> 2 ^ dep n * run_bytes p M n"
      by (intro mult_right_mono) (simp_all add: run_bytes_def)
    also have "\<dots> = 2 ^ (p + M)" using assms(3) by (simp add: run_bytes_def flip: power_add)
    also have "\<dots> \<le> (2::int) ^ 30" using \<open>p + M \<le> 30\<close> by (intro power_increasing) auto
    finally have "(int n - 2 ^ dep n) * run_bytes p M n \<le> 2 ^ 30" .
    moreover have "0 \<le> (int n - 2 ^ dep n) * run_bytes p M n"
      using le by (intro mult_nonneg_nonneg) (simp_all add: run_bytes_def)
    ultimately show ?thesis by (intro i32_id) simp_all
  qed
  ultimately show ?thesis using assms
    by (simp add: runOffset_def Let_def geo_depth geo_runLength push_bit_eq_mult)
qed

text \<open>The pages of a node are consecutive; nodes that are not nested have disjoint pages.\<close>

lemma div_interval: "0 < q \<Longrightarrow> l div q = i \<longleftrightarrow> i * q \<le> l \<and> l < (i + 1) * (q::nat)"
proof
  assume "0 < q" "l div q = i"
  moreover have "l = l div q * q + l mod q" by simp
  ultimately have "l = i * q + l mod q" "l mod q < q" by simp_all
  moreover have "(i + 1) * q = i * q + q" by simp
  ultimately show "i * q \<le> l \<and> l < (i + 1) * q" by linarith
next
  assume "i * q \<le> l \<and> l < (i + 1) * q"
  then show "l div q = i" by (intro div_nat_eqI) (simp_all add: mult.commute)
qed

lemma pages_interval:
  assumes "0 < n" "dep n \<le> M"
  shows "pages M n = {(n - 2 ^ dep n) * 2 ^ (M - dep n)..<(n - 2 ^ dep n + 1) * 2 ^ (M - dep n)}"
proof -
  let ?k = "M - dep n" and ?i = "n - 2 ^ dep n"
  have b: "2 ^ dep n \<le> n" "n < 2 ^ Suc (dep n)" using dep_bounds [OF assms(1)] by auto
  have M: "(2::nat) ^ M = 2 ^ dep n * 2 ^ ?k" using assms(2) by (simp flip: power_add)
  have "l \<in> pages M n \<longleftrightarrow> ?i * 2 ^ ?k \<le> l \<and> l < (?i + 1) * 2 ^ ?k" for l
  proof -
    have up: "under (2 ^ M + l) n \<longleftrightarrow> (2 ^ M + l) div 2 ^ ?k = n" if "l < 2 ^ M"
    proof
      have d: "dep (2 ^ M + l) = M" using that by (intro dep_unique) auto
      assume "under (2 ^ M + l) n"
      then show "(2 ^ M + l) div 2 ^ ?k = n" using under_dep [OF assms(1)] d by metis
    qed (auto simp: under_def)
    have "(2 ^ M + l) div 2 ^ ?k = 2 ^ dep n + l div 2 ^ ?k" unfolding M by simp
    then have eq: "(2 ^ M + l) div 2 ^ ?k = n \<longleftrightarrow> l div 2 ^ ?k = ?i" using b by auto
    have "l div 2 ^ ?k = ?i \<longleftrightarrow> ?i * 2 ^ ?k \<le> l \<and> l < (?i + 1) * 2 ^ ?k"
      by (rule div_interval) simp
    moreover have "l < 2 ^ M" if "l < (?i + 1) * 2 ^ ?k"
    proof -
      have "(?i + 1) * 2 ^ ?k \<le> 2 ^ dep n * 2 ^ ?k" using b by (intro mult_le_mono1) simp
      then show ?thesis using that M by linarith
    qed
    moreover have "l \<in> pages M n \<longleftrightarrow> l < 2 ^ M \<and> l div 2 ^ ?k = ?i"
      unfolding pages_def mem_Collect_eq using up eq by metis
    ultimately show ?thesis by metis
  qed
  then show ?thesis unfolding set_eq_iff atLeastLessThan_iff by blast
qed

lemma card_pages: "0 < n \<Longrightarrow> dep n \<le> M \<Longrightarrow> card (pages M n) = 2 ^ (M - dep n)"
  by (simp add: pages_interval diff_mult_distrib)

lemma pages_disjoint:
  assumes "0 < n" "0 < m" "\<not> under n m" "\<not> under m n"
  shows "pages M n \<inter> pages M m = {}"
proof -
  have "\<not> (under x n \<and> under x m)" for x
    using under_linear [of x n m] under_linear [of x m n] assms nat_le_linear by blast
  then show ?thesis by (auto simp: pages_def)
qed

lemma tree_ok_mem:
  assumes "tree_ok M A mm" "n \<in> A"
  shows "0 < n \<and> dep n \<le> M"
proof -
  have "0 < n" "n < 2 ^ Suc M" using assms unfolding tree_ok_def by auto
  then show ?thesis using in_range by blast
qed

lemma sum_run_bytes:
  assumes "tree_ok M A mm"
  shows "(\<Sum>n\<in>A. run_bytes p M n) = 2 ^ p * int (card (\<Union>n\<in>A. pages M n))"
    and "finite A" and "(\<Union>n\<in>A. pages M n) \<subseteq> {..<2 ^ M}"
proof -
  have A: "A \<subseteq> {1..<2 ^ Suc M}" "\<forall>x\<in>A. \<forall>y\<in>A. under x y \<longrightarrow> x = y"
    using assms by (simp_all add: tree_ok_def)
  then show fin: "finite A" using finite_subset by blast
  have mem: "0 < n \<and> dep n \<le> M" if "n \<in> A" for n by (rule tree_ok_mem [OF assms that])
  show "(\<Union>n\<in>A. pages M n) \<subseteq> {..<2 ^ M}" by (auto simp: pages_def)
  have "card (\<Union>n\<in>A. pages M n) = (\<Sum>n\<in>A. card (pages M n))"
  proof (rule card_UN_disjoint [OF fin])
    show "\<forall>i\<in>A. finite (pages M i)" by (simp add: pages_def)
    show "\<forall>i\<in>A. \<forall>j\<in>A. i \<noteq> j \<longrightarrow> pages M i \<inter> pages M j = {}"
    proof (intro ballI impI)
      fix i j assume ij: "i \<in> A" "j \<in> A" "i \<noteq> j"
      then have "\<not> under i j" "\<not> under j i" using A(2) by blast+
      then show "pages M i \<inter> pages M j = {}" using mem ij by (intro pages_disjoint) auto
    qed
  qed
  also have "\<dots> = (\<Sum>n\<in>A. 2 ^ (M - dep n))" using mem card_pages by (intro sum.cong) auto
  finally have "int (card (\<Union>n\<in>A. pages M n)) = (\<Sum>n\<in>A. 2 ^ (M - dep n))" by simp
  then have "2 ^ p * int (card (\<Union>n\<in>A. pages M n)) = (\<Sum>n\<in>A. 2 ^ p * 2 ^ (M - dep n))"
    by (simp add: sum_distrib_left)
  also have "\<dots> = (\<Sum>n\<in>A. run_bytes p M n)"
    using mem by (intro sum.cong) (auto simp: run_bytes_def simp flip: power_add)
  finally show "(\<Sum>n\<in>A. run_bytes p M n) = 2 ^ p * int (card (\<Union>n\<in>A. pages M n))" ..
qed

section \<open>Allocation and release\<close>

lemma chunk_inv_tree: "chunk_inv p M A c \<Longrightarrow> tree_ok M A (memoryMap c)"
  by (simp add: chunk_inv_def)

lemma chunk_inv_geo: "chunk_inv p M A c \<Longrightarrow> chunk_geo p M c"
  by (simp add: chunk_inv_def)

lemma free_bytes_bounds:
  assumes "chunk_inv p M A c"
  shows "0 \<le> freeBytes c" "freeBytes c \<le> 2 ^ (p + M)" "freeBytes c \<le> 2 ^ 30"
proof -
  note t = sum_run_bytes(1) [OF chunk_inv_tree [OF assms], of p]
    sum_run_bytes(2,3) [OF chunk_inv_tree [OF assms]]
  let ?U = "\<Union>n\<in>A. pages M n"
  have "card ?U \<le> card {..<2 ^ M :: nat}" using t(3) by (intro card_mono) auto
  then have "int (card ?U) \<le> 2 ^ M" by simp
  then have "2 ^ p * int (card ?U) \<le> 2 ^ p * 2 ^ M" by simp
  then have le: "2 ^ p * int (card ?U) \<le> 2 ^ (p + M)" by (simp add: power_add)
  have fb: "freeBytes c = 2 ^ (p + M) - 2 ^ p * int (card ?U)"
    using assms t(1) by (simp add: chunk_inv_def)
  then show "0 \<le> freeBytes c" using le by simp
  show "freeBytes c \<le> 2 ^ (p + M)" using fb by simp
  moreover have "(2::int) ^ (p + M) \<le> 2 ^ 30"
    using chunk_inv_geo [OF assms] by (intro power_increasing) (auto simp: chunk_geo_def)
  ultimately show "freeBytes c \<le> 2 ^ 30" by linarith
qed

lemma node_lt:
  assumes "M \<le> 14" "0 < n" "dep n \<le> M"
  shows "int n < 2 ^ 15"
proof -
  have "n < 2 ^ Suc M" using assms in_range by blast
  also have "(2::nat) ^ Suc M \<le> 2 ^ 15" using assms(1) by (intro power_increasing) auto
  finally show ?thesis by simp
qed

lemma allocateNode_spec:
  assumes "chunk_inv p M A c" "d \<le> M"
  shows "(\<nexists>y. 0 < y \<and> dep y = d \<and> free_node A y) \<and> allocateNode (int d) c = (Ok (- 1), c) \<or>
    (\<exists>y. 0 < y \<and> dep y = d \<and> free_node A y \<and> allocateNode (int d) c =
       (Ok (int y), c\<lparr>memoryMap := updateParentsAlloc ((memoryMap c)[y := Suc M]) y\<rparr>))"
proof (cases "memoryMap c ! 1 \<le> d")
  case False
  then show ?thesis
    using root_tells [OF chunk_inv_tree [OF assms(1)] assms(2)] by (simp add: allocateNode_def val_def)
next
  case True
  have M: "M \<le> 14" "unusable c = Suc M" using assms(1) by (simp_all add: chunk_inv_def chunk_geo_def)
  have init: "i32 (- push_bit d 1) = - (2 ^ d)"
  proof -
    have "(2::int) ^ d \<le> 2 ^ 14" using assms(2) M by (intro power_increasing) auto
    moreover have "(0::int) \<le> 2 ^ d" by simp
    moreover have "(2::int) ^ 14 \<le> INT_MAX" by simp
    ultimately have "i32 (- (2 ^ d)) = - (2 ^ d)" by (intro i32_id) linarith+
    then show ?thesis by (simp add: push_bit_eq_mult)
  qed
  have "1 \<notin> A" using tree_value(5) [OF chunk_inv_tree [OF assms(1)], of 1] True assms(2)
    by (auto simp: node_ok_def)
  moreover have "x = 1" if "under 1 x" "x \<in> A" for x
    using tree_ok_mem [OF chunk_inv_tree [OF assms(1)] that(2)] that(1)
      under_dep [of x 1] under_same_dep [of 1 x] by auto
  ultimately have "\<not> under 1 x" if "x \<in> A" for x using that by blast
  from descend_finds [OF chunk_inv_tree [OF assms(1)] assms(2), of 1] this True
  obtain y where y: "descend (memoryMap c) d (- (2 ^ d)) 1 = Ok y" "0 < y" "dep y = d"
    "free_node A y" "memoryMap c ! y = d" by auto
  have "int y AND - (2 ^ d) = 2 ^ d"
  proof -
    have b: "2 ^ d \<le> y" "y < 2 ^ Suc d" using dep_bounds [OF y(2)] y(3) by auto
    then have "int y mod 2 ^ d = int y - 2 ^ d"
    proof -
      have "y mod 2 ^ d = y - 2 ^ d" using b by (simp add: mod_if)
      then have "int (y mod 2 ^ d) = int y - int (2 ^ d)" using b(1) by (simp only: of_nat_diff)
      then show ?thesis by (simp add: of_nat_mod)
    qed
    then show ?thesis by (simp add: and_initial)
  qed
  then have "allocateNode (int d) c =
       (Ok (int y), c\<lparr>memoryMap := updateParentsAlloc ((memoryMap c)[y := Suc M]) y\<rparr>)"
    using True y M(2) init by (simp add: allocateNode_def val_def setValue_def Let_def push_bit_eq_mult)
  then show ?thesis using y by blast
qed

text \<open>A run of \<open>2 ^ k\<close> bytes comes from depth \<open>p + M - k\<close>.\<close>

lemma allocateRun_spec:
  assumes "chunk_inv p M A c" "p \<le> k" "k \<le> p + M"
  shows "(\<nexists>y. 0 < y \<and> dep y = p + M - k \<and> free_node A y) \<and> allocateRun (2 ^ k) c = (Ok (- 1), c) \<or>
    (\<exists>y c'. 0 < y \<and> dep y = p + M - k \<and> free_node A y \<and> allocateRun (2 ^ k) c = (Ok (int y), c') \<and>
       chunk_inv p M (insert y A) c' \<and> runLength c' y = 2 ^ k \<and>
       c' = c\<lparr>memoryMap := updateParentsAlloc ((memoryMap c)[y := Suc M]) y,
              freeBytes := freeBytes c - 2 ^ k\<rparr>)"
proof -
  let ?d = "p + M - k"
  have geo: "chunk_geo p M c" by (rule chunk_inv_geo [OF assms(1)])
  have d: "maxOrder c - (chunk_log2 (2 ^ k) - pageShifts c) = int ?d"
  proof -
    have "chunk_log2 (2 ^ k) = int k"
      using geo assms(3) by (intro chunk_log2_eq) (auto simp: chunk_geo_def)
    then show ?thesis using geo assms(2,3) by (simp add: chunk_geo_def)
  qed
  have dM: "?d \<le> M" using assms(2) by simp
  show ?thesis
  proof (cases "\<exists>y. 0 < y \<and> dep y = ?d \<and> free_node A y")
    case False
    then have "allocateNode (int ?d) c = (Ok (- 1), c)"
      using allocateNode_spec [OF assms(1) dM] by blast
    then show ?thesis using False d by (simp add: allocateRun_def prog_simps)
  next
    case True
    then have "\<not> (\<nexists>y. 0 < y \<and> dep y = ?d \<and> free_node A y)" by blast
    then obtain y where y: "0 < y" "dep y = ?d" "free_node A y" "allocateNode (int ?d) c =
       (Ok (int y), c\<lparr>memoryMap := updateParentsAlloc ((memoryMap c)[y := Suc M]) y\<rparr>)"
      using allocateNode_spec [OF assms(1) dM] by blast
    let ?mm = "updateParentsAlloc ((memoryMap c)[y := Suc M]) y"
    define c1 where "c1 = c\<lparr>memoryMap := ?mm\<rparr>"
    define c' where "c' = c\<lparr>memoryMap := ?mm, freeBytes := freeBytes c - 2 ^ k\<rparr>"
    have geo1: "chunk_geo p M c1" "chunk_geo p M c'"
      using geo by (simp_all add: c1_def c'_def chunk_geo_def)
    have rb: "run_bytes p M y = 2 ^ k" using y(2) assms(3) by (simp add: run_bytes_def)
    have rl: "runLength c1 y = 2 ^ k" "runLength c' y = 2 ^ k"
      using geo_runLength geo1 y(1,2) dM rb by simp_all
    have yA: "y \<notin> A" using y(3) under_refl by (auto simp: free_node_def clear_def)
    have tree: "tree_ok M (insert y A) ?mm"
      using tree_alloc [OF chunk_inv_tree [OF assms(1)] y(1) _ y(3)] y(2) dM by simp
    have "finite A" using sum_run_bytes(2) [OF chunk_inv_tree [OF assms(1)]] .
    then have "chunk_inv p M (insert y A) c'"
      using geo1(2) tree yA rb assms(1) by (simp add: chunk_inv_def c'_def)
    moreover have "i32 (freeBytes c1 - runLength c1 y) = freeBytes c - 2 ^ k"
    proof -
      have "freeBytes c' = freeBytes c - 2 ^ k" by (simp add: c'_def)
      then have "0 \<le> freeBytes c - 2 ^ k" "freeBytes c - 2 ^ k \<le> 2 ^ 30"
        using free_bytes_bounds [OF calculation] by simp_all
      then show ?thesis using rl(1) by (simp add: c1_def)
    qed
    then have "allocateRun (2 ^ k) c = (Ok (int y), c')"
      using y(4) d by (simp add: allocateRun_def prog_simps flip: c1_def) (simp add: c1_def c'_def)
    ultimately show ?thesis using y rl(2) by (intro disjI2 exI [of _ y] exI [of _ c']) (simp add: c'_def)
  qed
qed

lemma free_run_spec:
  assumes "chunk_inv p M A c" "n \<in> A" "memoryMapIdx h = int n"
  shows "chunk_inv p M (A - {n}) (free_run h c)"
    and "free_run h c = c\<lparr>memoryMap := updateParentsFree_loop ((memoryMap c)[n := dep n]) n (int (dep n) + 1),
                          freeBytes := freeBytes c + run_bytes p M n\<rparr>"
proof -
  note mem = tree_ok_mem [OF chunk_inv_tree [OF assms(1)] assms(2)]
  have geo: "chunk_geo p M c" by (rule chunk_inv_geo [OF assms(1)])
  let ?mm = "updateParentsFree_loop ((memoryMap c)[n := dep n]) n (int (dep n) + 1)"
  define c' where "c' = c\<lparr>memoryMap := ?mm, freeBytes := freeBytes c + run_bytes p M n\<rparr>"
  have "finite A" using sum_run_bytes(2) [OF chunk_inv_tree [OF assms(1)]] .
  then have "(\<Sum>m\<in>A. run_bytes p M m) = run_bytes p M n + (\<Sum>m\<in>A - {n}. run_bytes p M m)"
    using assms(2) by (simp add: sum.remove)
  then have inv: "chunk_inv p M (A - {n}) c'"
    using tree_free [OF chunk_inv_tree [OF assms(1)] assms(2)] assms(1) geo
    by (simp add: chunk_inv_def c'_def chunk_geo_def)
  have "freeBytes c' = freeBytes c + run_bytes p M n" by (simp add: c'_def)
  then have "i32 (freeBytes c + run_bytes p M n) = freeBytes c + run_bytes p M n"
    using free_bytes_bounds [OF inv] by simp
  moreover have "depth x n = dep n" if "depthMap x = depthMap c" for x
    using that geo_depth [OF geo] mem by (simp add: depth_def)
  ultimately have "free_run h c = c'"
    using assms(3) geo_runLength [OF geo] mem
    by (simp add: free_run_def Let_def setValue_def c'_def)
  then show "free_run h c = c\<lparr>memoryMap := ?mm, freeBytes := freeBytes c + run_bytes p M n\<rparr>"
    "chunk_inv p M (A - {n}) (free_run h c)" using inv by (simp_all add: c'_def)
qed

text \<open>The map is determined by the allocated nodes.\<close>

lemma tree_unique:
  assumes "tree_ok M A mm" "tree_ok M A mm'" "0 < n" "dep n \<le> M"
  shows "mm ! n = mm' ! n"
  using assms(3,4)
proof (induction "M - dep n" arbitrary: n rule: less_induct)
  case less
  note ok = tree_value(5) [OF assms(1) less.prems] tree_value(5) [OF assms(2) less.prems]
  show ?case
  proof (cases "n \<in> A \<or> clear A n")
    case False
    have "dep n < M"
      using not_clear_inner [OF _ less.prems(1)] False assms(1) by (auto simp: tree_ok_def)
    then have "mm ! (2 * n) = mm' ! (2 * n)" "mm ! Suc (2 * n) = mm' ! Suc (2 * n)"
      using less.prems(1) by (auto intro!: less.hyps)
    then show ?thesis using ok False by (simp add: node_ok_def)
  qed (use ok in \<open>auto simp: node_ok_def\<close>)
qed

lemma updateParentsAlloc_0: "0 < n \<Longrightarrow> updateParentsAlloc mm n ! 0 = mm ! 0"
proof (induction mm n rule: updateParentsAlloc.induct)
  case (1 mm n)
  show ?case
  proof (cases "n > 1")
    case True
    then have "0 < drop_bit 1 n" by (simp add: drop_bit_eq_div)
    then show ?thesis using 1 True by (subst updateParentsAlloc.simps) (simp add: Let_def)
  qed (simp add: updateParentsAlloc.simps)
qed

lemma updateParentsFree_0: "0 < n \<Longrightarrow> updateParentsFree_loop mm n l ! 0 = mm ! 0"
proof (induction mm n l rule: updateParentsFree_loop.induct)
  case (1 mm n l)
  show ?case
  proof (cases "n > 1")
    case True
    then have "0 < drop_bit 1 n" by (simp add: drop_bit_eq_div)
    then show ?thesis using 1 True by (subst updateParentsFree_loop.simps) (simp add: Let_def)
  qed (simp add: updateParentsFree_loop.simps)
qed

section \<open>Runs of a chunk over time\<close>

text \<open>
  A history of a chunk: it starts fresh, hands out runs of any size between a page and the
  chunk, and takes back runs that are out. \<open>A\<close> collects the runs that are out.
\<close>

inductive history :: "nat \<Rightarrow> nat \<Rightarrow> int \<Rightarrow> chunk \<Rightarrow> nat set \<Rightarrow> bool" for p M off where
  start: "history p M off (PoolChunk_new (2 ^ (p + M)) (2 ^ p) (int p) (int M) off) {}"
| alloc: "history p M off c A \<Longrightarrow> p \<le> k \<Longrightarrow> k \<le> p + M \<Longrightarrow>
    allocateRun (2 ^ k) c = (Ok h, c') \<Longrightarrow> 0 \<le> h \<Longrightarrow> history p M off c' (insert (nat h) A)"
| refuse: "history p M off c A \<Longrightarrow> p \<le> k \<Longrightarrow> k \<le> p + M \<Longrightarrow>
    allocateRun (2 ^ k) c = (Ok h, c') \<Longrightarrow> h < 0 \<Longrightarrow> history p M off c' A"
| free: "history p M off c A \<Longrightarrow> n \<in> A \<Longrightarrow> history p M off (free_run (int n) c) (A - {n})"

lemma memoryMapIdx_node: "chunk_inv p M A c \<Longrightarrow> n \<in> A \<Longrightarrow> memoryMapIdx (int n) = int n"
  using node_lt [of M n] tree_ok_mem [OF chunk_inv_tree, of p M A c n]
  by (simp add: memoryMapIdx_def chunk_inv_def chunk_geo_def)

lemma history_inv:
  assumes "history p M off c A" "M \<le> 14" "p + M \<le> 30"
  shows "chunk_inv p M A c"
  using assms(1)
proof induction
  case start
  then show ?case by (rule new_chunk_inv [OF assms(2,3)])
next
  case (alloc c A k h c')
  then show ?case using allocateRun_spec [OF alloc.IH alloc.hyps(2,3)] by auto
next
  case (refuse c A k h c')
  then show ?case using allocateRun_spec [OF refuse.IH refuse.hyps(2,3)] by auto
next
  case (free c A n)
  then show ?case using free_run_spec(1) [OF free.IH free.hyps(2)] memoryMapIdx_node by blast
qed

text \<open>The byte ranges of nodes: inside the chunk, and apart when neither node is below the other.\<close>

definition node_off :: "nat \<Rightarrow> nat \<Rightarrow> nat \<Rightarrow> int" where
  "node_off p M n = (int n - 2 ^ dep n) * run_bytes p M n"

lemma node_span:
  assumes "0 < n" "dep n \<le> M"
  obtains lo hi where "pages M n = {lo..<hi}" "lo < hi" "hi \<le> 2 ^ M"
    "node_off p M n = 2 ^ p * int lo" "node_off p M n + run_bytes p M n = 2 ^ p * int hi"
proof -
  define i q where "i = n - 2 ^ dep n" and "q = (2::nat) ^ (M - dep n)"
  have "2 ^ dep n \<le> n" using dep_bounds assms(1) by blast
  then have i: "int n - 2 ^ dep n = int i" by (simp add: i_def of_nat_diff)
  have pg: "pages M n = {i * q..<(i + 1) * q}" using pages_interval [OF assms] by (simp add: i_def q_def)
  have "0 < q" by (simp add: q_def)
  then have "(i + 1) * q - 1 \<in> pages M n" unfolding pg by simp
  then have top: "(i + 1) * q \<le> 2 ^ M" by (auto simp: pages_def)
  have "run_bytes p M n = 2 ^ p * int q" using assms(2) by (simp add: run_bytes_def q_def flip: power_add)
  then have "node_off p M n = 2 ^ p * int (i * q)" "node_off p M n + run_bytes p M n = 2 ^ p * int ((i + 1) * q)"
    by (simp_all add: node_off_def i algebra_simps)
  then show thesis using that [of "i * q" "(i + 1) * q"] pg top \<open>0 < q\<close> by simp
qed

lemma node_inside:
  assumes "0 < n" "dep n \<le> M"
  shows "0 \<le> node_off p M n" "node_off p M n + run_bytes p M n \<le> 2 ^ (p + M)"
proof -
  obtain lo hi where n: "hi \<le> (2::nat) ^ M" "node_off p M n = 2 ^ p * int lo" "node_off p M n + run_bytes p M n = 2 ^ p * int hi"
    using node_span [OF assms] by metis
  have "int hi \<le> 2 ^ M" using n(1) by (metis of_nat_le_iff of_nat_numeral of_nat_power)
  then show "0 \<le> node_off p M n" "node_off p M n + run_bytes p M n \<le> 2 ^ (p + M)" using n by (simp_all add: power_add)
qed

lemma nodes_apart:
  assumes "0 < n" "dep n \<le> M" "0 < m" "dep m \<le> M" "\<not> under n m" "\<not> under m n"
  shows "node_off p M n + run_bytes p M n \<le> node_off p M m \<or> node_off p M m + run_bytes p M m \<le> node_off p M n"
proof -
  obtain lo hi where n: "pages M n = {lo..<hi}" "lo < hi" "node_off p M n = 2 ^ p * int lo" "node_off p M n + run_bytes p M n = 2 ^ p * int hi"
    using node_span [OF assms(1,2)] by metis
  obtain lo' hi' where m: "pages M m = {lo'..<hi'}" "lo' < hi'" "node_off p M m = 2 ^ p * int lo'" "node_off p M m + run_bytes p M m = 2 ^ p * int hi'"
    using node_span [OF assms(3,4)] by metis
  have "{lo..<hi} \<inter> {lo'..<hi'} = {}" using pages_disjoint [OF assms(1,3,5,6), of M] unfolding n(1) m(1) .
  then have "lo \<notin> {lo'..<hi'}" "lo' \<notin> {lo..<hi}" using n(2) m(2) by auto
  then have "hi \<le> lo' \<or> hi' \<le> lo" using n(2) m(2) by auto
  then have "(2::int) ^ p * int hi \<le> 2 ^ p * int lo' \<or> (2::int) ^ p * int hi' \<le> 2 ^ p * int lo" by auto
  then show ?thesis by (simp only: n(4) m(4) flip: n(3) m(3))
qed

lemma tree_apart:
  assumes "tree_ok M A mm" "n \<in> A" "m \<in> A" "n \<noteq> m"
  shows "node_off p M n + run_bytes p M n \<le> node_off p M m \<or> node_off p M m + run_bytes p M m \<le> node_off p M n"
proof -
  have "\<not> under n m" "\<not> under m n" using assms unfolding tree_ok_def by blast+
  then show ?thesis using nodes_apart tree_ok_mem [OF assms(1)] assms(2,3) by blast
qed

text \<open>
  over every history of allocations and releases of a chunk, the byte ranges of the runs
  that are out lie inside the chunk and are pairwise disjoint: no byte is ever handed out twice.
\<close>

theorem runs_disjoint:
  assumes "history p M off c A" "M \<le> 14" "p + M \<le> 30"
  shows "(\<forall>n\<in>A. 0 \<le> runOffset c n \<and> runOffset c n + runLength c n \<le> chunkSize c) \<and>
    (\<forall>n\<in>A. \<forall>m\<in>A. n \<noteq> m \<longrightarrow>
       {runOffset c n..<runOffset c n + runLength c n} \<inter> {runOffset c m..<runOffset c m + runLength c m} = {})"
proof -
  have inv: "chunk_inv p M A c" by (rule history_inv [OF assms])
  note geo = chunk_inv_geo [OF inv] and tree = chunk_inv_tree [OF inv]
  have run: "runOffset c n = node_off p M n" "runLength c n = run_bytes p M n" if "n \<in> A" for n
    using geo_runOffset [OF geo] geo_runLength [OF geo] tree_ok_mem [OF tree that] by (simp_all add: node_off_def)
  have size: "chunkSize c = 2 ^ (p + M)" using geo by (simp add: chunk_geo_def)
  show ?thesis
  proof (intro conjI ballI impI)
    fix n m assume "n \<in> A" "m \<in> A" "n \<noteq> m"
    then show "{runOffset c n..<runOffset c n + runLength c n} \<inter> {runOffset c m..<runOffset c m + runLength c m} = {}"
      using tree_apart [OF tree, of n m p] run by auto
  qed (use node_inside tree_ok_mem [OF tree] run size in auto)
qed

text \<open>A chunk of two pages, both handed out.\<close>

lemma two_pages:
  "\<exists>c. history 12 1 0 c {2, 3} \<and> chunkSize c = 8192 \<and> allocateRun 4096 c = (Ok (- 1), c)"
proof -
  let ?c0 = "PoolChunk_new 8192 4096 12 1 0"
  have s: "history 12 1 0 ?c0 {}" using history.start [of 12 1 0] by simp
  have eval: "map_prod (map_ok (\<lambda>h. h = 2)) (\<lambda>c1. let r2 = allocateRun 4096 c1 in
      (fst r2, chunkSize (snd r2), map_prod (map_ok (\<lambda>h. h = - 1)) (\<lambda>c3. c3 = snd r2) (allocateRun 4096 (snd r2))))
      (allocateRun 4096 ?c0) = (Ok True, Ok 3, 8192, Ok True, True)"
    by code_simp
  obtain h1 c1 where 1: "allocateRun 4096 ?c0 = (h1, c1)" by fastforce
  obtain h2 c2 where 2: "allocateRun 4096 c1 = (h2, c2)" by fastforce
  obtain h3 c3 where 3: "allocateRun 4096 c2 = (h3, c3)" by fastforce
  have ok: "map_ok f x = Ok True \<Longrightarrow> \<exists>h. x = Ok h \<and> f h" for f :: "int \<Rightarrow> bool" and x by (cases x) auto
  have "h1 = Ok 2" "h2 = Ok 3" "chunkSize c2 = 8192" "h3 = Ok (- 1)" "c3 = c2"
    using eval ok [of "\<lambda>h. h = 2" h1] ok [of "\<lambda>h. h = - 1" h3] by (auto simp: 1 2 3 Let_def)
  moreover from this have "history 12 1 0 c1 (insert (nat 2) {})"
    using history.alloc [OF s, of 12 2 c1] 1 by simp
  from history.alloc [OF this, of 12 3 c2] 2 have "history 12 1 0 c2 (insert (nat 3) (insert (nat 2) {}))"
    using calculation by simp
  ultimately show ?thesis using 3 by (intro exI [of _ c2]) (simp add: insert_commute)
qed

theorem runs_disjoint_witness:
  "\<exists>c. history 12 1 0 c {2, 3} \<and>
     {runOffset c 2..<runOffset c 2 + runLength c 2} \<inter> {runOffset c 3..<runOffset c 3 + runLength c 3} = {}"
proof -
  obtain c where c: "history 12 1 0 c {2, 3}" using two_pages by blast
  from runs_disjoint [OF c] c show ?thesis by auto
qed

text \<open>
  C10: a request for a run of a power-of-two number of bytes is refused, changing nothing,
  exactly when no node of its size is free; otherwise a free node of exactly that size is
  handed out and its bytes leave the free count.
\<close>

theorem allocateRun_complete:
  assumes "history p M off c A" "M \<le> 14" "p + M \<le> 30" "p \<le> k" "k \<le> p + M"
  shows "if \<exists>y. 0 < y \<and> dep y = p + M - k \<and> free_node A y
     then \<exists>y c'. allocateRun (2 ^ k) c = (Ok (int y), c') \<and> free_node A y \<and> runLength c' y = 2 ^ k \<and>
            freeBytes c' = freeBytes c - 2 ^ k \<and> history p M off c' (insert y A)
     else allocateRun (2 ^ k) c = (Ok (- 1), c)"
proof -
  note spec = allocateRun_spec [OF history_inv [OF assms(1-3)] assms(4,5)]
  show ?thesis
  proof (cases "\<exists>y. 0 < y \<and> dep y = p + M - k \<and> free_node A y")
    case True
    then obtain y c' where y: "allocateRun (2 ^ k) c = (Ok (int y), c')" "free_node A y"
      "runLength c' y = 2 ^ k" "freeBytes c' = freeBytes c - 2 ^ k"
      using spec by auto
    from history.alloc [OF assms(1,4,5) y(1)] have "history p M off c' (insert y A)" by simp
    then show ?thesis using y True by auto
  qed (use spec in auto)
qed

theorem allocateRun_complete_witness:
  "allocateRun (2 ^ 13) (PoolChunk_new (2 ^ (12 + 1)) (2 ^ 12) (int 12) (int 1) 0) \<noteq>
     (Ok (- 1), PoolChunk_new (2 ^ (12 + 1)) (2 ^ 12) (int 12) (int 1) 0)"
proof -
  have "\<exists>y. 0 < y \<and> dep y = 12 + 1 - 13 \<and> free_node {} y"
    by (rule exI [of _ 1]) (simp add: free_node_def clear_def)
  with allocateRun_complete [OF history.start [of 12 1 0], of 13] show ?thesis by auto
qed

text \<open>
  giving a run back directly after taking it restores the chunk completely: the map, the
  free count and every other field.
\<close>

theorem allocate_free_roundtrip:
  assumes "history p M off c A" "M \<le> 14" "p + M \<le> 30" "p \<le> k" "k \<le> p + M"
    and "allocateRun (2 ^ k) c = (Ok h, c')" "0 \<le> h"
  shows "free_run h c' = c"
proof -
  have inv: "chunk_inv p M A c" by (rule history_inv [OF assms(1-3)])
  obtain y where y: "0 < y" "dep y = p + M - k" "free_node A y" "h = int y" "chunk_inv p M (insert y A) c'"
    "c' = c\<lparr>memoryMap := updateParentsAlloc ((memoryMap c)[y := Suc M]) y, freeBytes := freeBytes c - 2 ^ k\<rparr>"
    using allocateRun_spec [OF inv assms(4,5)] assms(6,7) by auto
  have idx: "memoryMapIdx h = int y" using memoryMapIdx_node [OF y(5), of y] y(4) by simp
  note fr = free_run_spec [OF y(5) insertI1 idx]
  have yA: "insert y A - {y} = A" using y(3) under_refl by (auto simp: free_node_def clear_def)
  let ?mm = "memoryMap (free_run h c')"
  have t: "tree_ok M A ?mm" "tree_ok M A (memoryMap c)"
    using chunk_inv_tree [OF fr(1)] chunk_inv_tree [OF inv] yA by simp_all
  have "?mm = memoryMap c"
  proof (rule nth_equalityI)
    show "length ?mm = length (memoryMap c)" using t by (simp add: tree_ok_def)
    show "?mm ! i = memoryMap c ! i" if "i < length ?mm" for i
    proof (cases "i = 0")
      case True
      have "?mm ! 0 = memoryMap c' ! 0" unfolding fr(2) using y(1) by (simp add: updateParentsFree_0)
      also have "\<dots> = memoryMap c ! 0" unfolding y(6) using y(1) by (simp add: updateParentsAlloc_0)
      finally show ?thesis using True by simp
    next
      case False
      then have "0 < i" "i < 2 ^ Suc M" using that t(1) by (auto simp: tree_ok_def)
      then show ?thesis using tree_unique [OF t] in_range by blast
    qed
  qed
  moreover have "run_bytes p M y = 2 ^ k" using y(2) assms(5) by (simp add: run_bytes_def)
  moreover have "free_run h c' = c'\<lparr>memoryMap := ?mm, freeBytes := freeBytes c' + run_bytes p M y\<rparr>"
    by (subst fr(2), subst fr(2)) simp
  ultimately show ?thesis by (simp add: y(6))
qed

theorem allocate_free_roundtrip_witness:
  "\<exists>h c'. allocateRun (2 ^ 12) (PoolChunk_new (2 ^ (12 + 1)) (2 ^ 12) (int 12) (int 1) 0) = (Ok h, c') \<and>
     free_run h c' = PoolChunk_new (2 ^ (12 + 1)) (2 ^ 12) (int 12) (int 1) 0"
proof -
  let ?c = "PoolChunk_new (2 ^ (12 + 1)) (2 ^ 12) (int 12) (int 1) 0"
  have "\<exists>y. 0 < y \<and> dep y = 12 + 1 - 12 \<and> free_node {} y"
    by (rule exI [of _ 2]) (simp add: free_node_def clear_def dep.simps)
  then obtain y c' where y: "allocateRun (2 ^ 12) ?c = (Ok (int y), c')"
    using allocateRun_spec [OF new_chunk_inv [of 1 12 0], of 12] by auto
  from allocate_free_roundtrip [OF history.start [of 12 1 0] _ _ _ _ y] show ?thesis
    using y by auto
qed

section \<open>Usage\<close>

lemma percent_free:
  assumes "0 \<le> f" "f \<le> s" "0 < (s :: int)"
  shows "0 \<le> f * 100 div s" "f * 100 div s \<le> 100" "f * 100 div s = 100 \<longleftrightarrow> f = s" "(f * 100) sdiv s = f * 100 div s"
proof -
  show "0 \<le> f * 100 div s" using assms by (simp add: pos_imp_zdiv_nonneg_iff)
  have "f * 100 div s \<le> 100 * s div s" using assms by (intro zdiv_mono1) simp_all
  then show "f * 100 div s \<le> 100" using assms(3) by simp
  show "f * 100 div s = 100 \<longleftrightarrow> f = s"
  proof
    assume "f * 100 div s = 100"
    then have "100 * s \<le> f * 100"
      using assms(3) by (metis div_mult_mod_eq le_add_same_cancel1 mod_int_pos_iff mult.commute pos_mod_sign)
    then show "f = s" using assms(2) by simp
  qed (use assms in simp)
  show "(f * 100) sdiv s = f * 100 div s"
    using assms by (cases "f = 0") (simp_all add: signed_divide_int_def sgn_if)
qed

lemma usage_eq:
  assumes "chunk_inv p M A c"
  shows "usage c = (let f = freeBytes c; q = f * 100 div 2 ^ (p + M) in if f = 0 then 100 else if q = 0 then 99 else 100 - q)"
proof -
  have size: "chunkSize c = 2 ^ (p + M)" using chunk_inv_geo [OF assms] by (simp add: chunk_geo_def)
  note q = percent_free [of "freeBytes c" "2 ^ (p + M)", OF free_bytes_bounds(1,2) [OF assms]]
  then show ?thesis by (simp add: usage_def size Let_def)
qed

lemma all_free_iff:
  assumes "chunk_inv p M A c"
  shows "freeBytes c = 2 ^ (p + M) \<longleftrightarrow> A = {}"
proof
  assume "freeBytes c = 2 ^ (p + M)"
  then have "(\<Sum>n\<in>A. run_bytes p M n) = 0" using assms by (simp add: chunk_inv_def)
  moreover have "0 < run_bytes p M n" for n by (simp add: run_bytes_def)
  ultimately show "A = {}"
    using sum_pos [OF sum_run_bytes(2) [OF chunk_inv_tree [OF assms]], of "run_bytes p M"] by fastforce
qed (use assms in \<open>simp add: chunk_inv_def\<close>)

lemma usage_bounds:
  assumes "chunk_inv p M A c"
  shows "0 \<le> usage c" "usage c \<le> 100" "usage c = 0 \<longleftrightarrow> A = {}" "usage c = 100 \<longleftrightarrow> freeBytes c = 0"
proof -
  define q where "q = freeBytes c * 100 div 2 ^ (p + M)"
  have q: "0 \<le> q" "q \<le> 100" "q = 100 \<longleftrightarrow> A = {}"
    using percent_free [of "freeBytes c" "2 ^ (p + M)", OF free_bytes_bounds(1,2) [OF assms]] all_free_iff [OF assms]
    by (simp_all add: q_def)
  have u: "usage c = (if freeBytes c = 0 then 100 else if q = 0 then 99 else 100 - q)"
    using usage_eq [OF assms] by (simp add: q_def Let_def)
  then show "0 \<le> usage c" "usage c \<le> 100" using q by simp_all
  have "freeBytes c = 0 \<Longrightarrow> q = 0" by (simp add: q_def)
  then show "usage c = 0 \<longleftrightarrow> A = {}" "usage c = 100 \<longleftrightarrow> freeBytes c = 0" using u q by (auto split: if_splits)
qed

lemma usage_mono:
  assumes "chunk_inv p M A c" "chunk_inv p M B d" "freeBytes c \<le> freeBytes d"
  shows "usage d \<le> usage c"
proof -
  have "freeBytes c * 100 div 2 ^ (p + M) \<le> freeBytes d * 100 div 2 ^ (p + M)"
    using assms(3) by (intro zdiv_mono1) simp_all
  moreover have "0 \<le> freeBytes c * 100 div 2 ^ (p + M)"
    using free_bytes_bounds(1) [OF assms(1)] by (simp add: pos_imp_zdiv_nonneg_iff)
  moreover have "0 \<le> freeBytes c" "0 \<le> freeBytes d" using free_bytes_bounds(1) assms(1,2) by blast+
  ultimately show ?thesis
    using usage_bounds(2) [OF assms(2)] assms(3) unfolding usage_eq [OF assms(1)] usage_eq [OF assms(2)]
    by (auto simp: Let_def split: if_splits)
qed

text \<open>
  the accounting of a chunk is exact over every history: the free count is the chunk size
  minus the runs that are out and never negative, and \<open>usage\<close>, by which the arena sorts its
  chunks, lies between 0 and 100 and is 0 exactly when nothing is out, 100 exactly when no byte is left.
\<close>

theorem chunk_accounting:
  assumes "history p M off c A" "M \<le> 14" "p + M \<le> 30"
  shows "freeBytes c = chunkSize c - (\<Sum>n\<in>A. runLength c n) \<and> 0 \<le> freeBytes c \<and>
    0 \<le> usage c \<and> usage c \<le> 100 \<and> (usage c = 0 \<longleftrightarrow> A = {}) \<and> (usage c = 100 \<longleftrightarrow> freeBytes c = 0)"
proof -
  have inv: "chunk_inv p M A c" by (rule history_inv [OF assms])
  have geo: "chunk_geo p M c" by (rule chunk_inv_geo [OF inv])
  have "(\<Sum>n\<in>A. runLength c n) = (\<Sum>n\<in>A. run_bytes p M n)"
    using geo_runLength [OF geo] tree_ok_mem [OF chunk_inv_tree [OF inv]] by (intro sum.cong) auto
  then show ?thesis
    using inv geo usage_bounds [OF inv] free_bytes_bounds(1) [OF inv] by (simp add: chunk_inv_def chunk_geo_def)
qed

theorem chunk_accounting_witness:
  "\<exists>c. history 12 1 0 c {2, 3} \<and> freeBytes c = chunkSize c - (\<Sum>n\<in>{2, 3}. runLength c n) \<and> 0 \<le> usage c"
proof -
  obtain c where c: "history 12 1 0 c {2, 3}" using two_pages by blast
  from chunk_accounting [OF c] c show ?thesis by auto
qed

end
