(* ===== verification/Subpage.thy ===== *)
theory Subpage
  imports Links Chunk
begin

text \<open>
  \<open>PoolSubpage\<close> (src/common/buffer/PoolSubpage.hpp and PoolSubpag.cpp): a page cut into
  elements of one size, with a bitmap of the elements in use, and the circular lists (pools)
  that link the subpages of one element size that still have room. Objects live in a heap
  \<open>nat \<Rightarrow> subpage\<close>; address 0 is the null pointer.
\<close>

section \<open>State\<close>

record subpage =
  sp_chunk :: nat
  sp_prev :: nat
  sp_next :: nat
  sp_memoryMapIdx :: int
  sp_runOffset :: int
  sp_pageSize :: int
  bitmap :: "i64bits list"
  bitmapLength :: int
  doNotDestroy :: bool
  elemSize :: int
  maxNumElems :: int
  nextAvail :: int
  numAvail :: int

type_synonym sp_heap = "nat \<Rightarrow> subpage"

definition sp_blank :: subpage where
  "sp_blank = \<lparr>sp_chunk = 0, sp_prev = 0, sp_next = 0, sp_memoryMapIdx = - 1, sp_runOffset = - 1,
     sp_pageSize = 0, bitmap = [], bitmapLength = 0, doNotDestroy = True, elemSize = - 1,
     maxNumElems = 0, nextAvail = 0, numAvail = 0\<rparr>"

text \<open>The head of a pool is a subpage object without a chunk, linked to itself by the arena.\<close>

definition PoolSubpage_head :: "int \<Rightarrow> nat \<Rightarrow> sp_heap \<Rightarrow> sp_heap" where
  "PoolSubpage_head pageSz a h = h(a := sp_blank\<lparr>sp_pageSize := pageSz, sp_prev := a, sp_next := a\<rparr>)"

definition elementSize :: "subpage \<Rightarrow> int" where
  "elementSize s = (if sp_chunk s = 0 then 0 else elemSize s)"

definition maxNumElements :: "subpage \<Rightarrow> int" where
  "maxNumElements s = (if sp_chunk s = 0 then 0 else maxNumElems s)"

definition numAvailable :: "subpage \<Rightarrow> int" where
  "numAvailable s = (if sp_chunk s = 0 then 0 else numAvail s)"

definition toHandle :: "subpage \<Rightarrow> int \<Rightarrow> int" where
  "toHandle s bitmapIndex = 0x4000000000000000 OR push_bit 32 bitmapIndex OR sp_memoryMapIdx s"

section \<open>The pool\<close>

definition addToPool :: "nat \<Rightarrow> nat \<Rightarrow> (sp_heap, unit) prog" where
  "addToPool head a = doM
     [assertp (\<lambda>h. sp_prev (h a) = 0 \<and> sp_next (h a) = 0),
      modify (\<lambda>h. h(a := (h a)\<lparr>sp_prev := head\<rparr>)),
      modify (\<lambda>h. h(a := (h a)\<lparr>sp_next := sp_next (h head)\<rparr>)),
      modify (\<lambda>h. let n = sp_next (h a) in h(n := (h n)\<lparr>sp_prev := a\<rparr>)),
      modify (\<lambda>h. let p = sp_prev (h a) in h(p := (h p)\<lparr>sp_next := a\<rparr>))]"

definition removeFromPool :: "nat \<Rightarrow> (sp_heap, unit) prog" where
  "removeFromPool a = doM
     [assertp (\<lambda>h. sp_prev (h a) \<noteq> 0 \<and> sp_next (h a) \<noteq> 0),
      modify (\<lambda>h. let p = sp_prev (h a) in h(p := (h p)\<lparr>sp_next := sp_next (h a)\<rparr>)),
      modify (\<lambda>h. let n = sp_next (h a) in h(n := (h n)\<lparr>sp_prev := sp_prev (h a)\<rparr>)),
      modify (\<lambda>h. h(a := (h a)\<lparr>sp_next := 0\<rparr>)),
      modify (\<lambda>h. h(a := (h a)\<lparr>sp_prev := 0\<rparr>))]"

section \<open>The bitmap\<close>

text \<open>A \<open>long\<close> is shifted arithmetically.\<close>

function findNextAvail0 :: "int \<Rightarrow> int \<Rightarrow> nat \<Rightarrow> i64bits \<Rightarrow> int" where
  "findNextAvail0 maxN baseVal j bits =
     (if j < 64 then
        if bits AND 1 = 0 then
          (let v = baseVal OR int j in if v < maxN then v else - 1)
        else findNextAvail0 maxN baseVal (Suc j) (signed_drop_bit 1 bits)
      else - 1)"
  by pat_completeness auto
termination by (relation "measure (\<lambda>(m, b, j, bits). 64 - j)") auto

declare findNextAvail0.simps [simp del]

fun findNextAvail_loop :: "int \<Rightarrow> nat \<Rightarrow> i64bits list \<Rightarrow> int" where
  "findNextAvail_loop maxN i [] = - 1"
| "findNextAvail_loop maxN i (bits # bs) =
     (if NOT bits \<noteq> 0 then findNextAvail0 maxN (push_bit 6 (int i)) 0 bits
      else findNextAvail_loop maxN (Suc i) bs)"

definition findNextAvail :: "subpage \<Rightarrow> int" where
  "findNextAvail s = findNextAvail_loop (maxNumElems s) 0 (take (nat (bitmapLength s)) (bitmap s))"

definition getNextAvail :: "subpage \<Rightarrow> int \<times> subpage" where
  "getNextAvail s =
     (if nextAvail s \<ge> 0 then (nextAvail s, s\<lparr>nextAvail := - 1\<rparr>) else (findNextAvail s, s))"

section \<open>Operations\<close>

text \<open>\<open>init(head, elemSize)\<close>: the part that concerns the object alone, then the pool.\<close>

definition sp_init :: "int \<Rightarrow> subpage \<Rightarrow> subpage outcome" where
  "sp_init sz s =
     (let s = s\<lparr>doNotDestroy := True, elemSize := sz\<rparr>
      in if sz = 0 then Ok s
         else let n = sp_pageSize s sdiv sz;
                  len = drop_bit 6 n + (if n AND 63 \<noteq> 0 then 1 else 0)
              in if len > int (length (bitmap s)) then Undef
                 else Ok (s\<lparr>maxNumElems := n, numAvail := n, nextAvail := 0, bitmapLength := len,
                            bitmap := replicate (nat len) 0 @ drop (nat len) (bitmap s)\<rparr>))"

definition init_subpage :: "nat \<Rightarrow> int \<Rightarrow> nat \<Rightarrow> (sp_heap, unit) prog" where
  "init_subpage head sz a =
     seqp (bindp (lift_outcome (\<lambda>h. sp_init sz (h a))) (\<lambda>s. modify (\<lambda>h. h(a := s))))
       (addToPool head a)"

text \<open>The constructor: \<open>junk\<close> is what the new bitmap array holds before it is cleared.\<close>

definition PoolSubpage_new ::
  "(nat \<Rightarrow> i64bits) \<Rightarrow> nat \<Rightarrow> nat \<Rightarrow> int \<Rightarrow> int \<Rightarrow> int \<Rightarrow> int \<Rightarrow> nat \<Rightarrow> (sp_heap, unit) prog"
where
  "PoolSubpage_new junk head chunk mapIdx runOff pageSz sz a =
     seqp (modify (\<lambda>h. h(a := sp_blank\<lparr>sp_chunk := chunk, sp_memoryMapIdx := mapIdx,
                   sp_runOffset := runOff, sp_pageSize := pageSz,
                   bitmap := map junk [0..<nat (drop_bit 10 pageSz)]\<rparr>)))
       (init_subpage head sz a)"

definition sp_allocate :: "nat \<Rightarrow> (sp_heap, int) prog" where
  "sp_allocate a h =
     (let s = h a in
      if elemSize s = 0 then (Ok (toHandle s 0), h)
      else if numAvail s = 0 \<or> \<not> doNotDestroy s then (Ok (- 1), h)
      else
        (let (bitmapIndex, s) = getNextAvail s;
             q = drop_bit 6 bitmapIndex;
             r = nat (bitmapIndex AND 63)
         in if q < 0 \<or> q \<ge> int (length (bitmap s)) \<or> drop_bit r (bitmap s ! nat q) AND 1 \<noteq> 0
            then (Undef, h)
            else
              (let s = s\<lparr>bitmap := (bitmap s)[nat q := bitmap s ! nat q OR push_bit r 1],
                         numAvail := numAvail s - 1\<rparr>;
                   h = h(a := s)
               in seqp (if numAvail s = 0 then removeFromPool a else ret ())
                    (ret (toHandle s bitmapIndex)) h)))"

definition sp_free :: "nat \<Rightarrow> int \<Rightarrow> nat \<Rightarrow> (sp_heap, bool) prog" where
  "sp_free head bitmapIndex a h =
     (let s = h a in
      if elemSize s = 0 then (Ok True, h)
      else
        (let q = drop_bit 6 bitmapIndex;
             r = nat (bitmapIndex AND 63)
         in if q < 0 \<or> q \<ge> int (length (bitmap s)) \<or> drop_bit r (bitmap s ! nat q) AND 1 = 0
            then (Undef, h)
            else
              (let s = s\<lparr>bitmap := (bitmap s)[nat q := bitmap s ! nat q XOR push_bit r 1],
                         nextAvail := bitmapIndex\<rparr>;
                   was = numAvail s;
                   s = s\<lparr>numAvail := numAvail s + 1\<rparr>;
                   h = h(a := s)
               in if was = 0 then seqp (addToPool head a) (ret True) h
                  else if numAvail s \<noteq> maxNumElems s then (Ok True, h)
                  else if sp_prev s = sp_next s then (Ok True, h)
                  else seqp (modify (\<lambda>h. h(a := (h a)\<lparr>doNotDestroy := False\<rparr>)))
                         (seqp (removeFromPool a) (ret False)) h)))"

section \<open>The bitmap and the set of elements in use\<close>

definition used :: "subpage \<Rightarrow> nat \<Rightarrow> bool" where
  "used s i \<longleftrightarrow> bit (bitmap s ! (i div 64)) (i mod 64)"

definition sub_static :: "subpage \<Rightarrow> bool" where
  "sub_static s \<longleftrightarrow>
     0 < elemSize s \<and> 0 < maxNumElems s \<and> maxNumElems s = sp_pageSize s div elemSize s \<and>
     maxNumElems s < 2 ^ 30 \<and>
     bitmapLength s = (maxNumElems s + 63) div 64 \<and> bitmapLength s \<le> int (length (bitmap s))"

definition sub_ok :: "subpage \<Rightarrow> nat set \<Rightarrow> bool" where
  "sub_ok s E \<longleftrightarrow> sub_static s \<and>
     E \<subseteq> {..<nat (maxNumElems s)} \<and> (\<forall>i < 64 * nat (bitmapLength s). used s i \<longleftrightarrow> i \<in> E) \<and>
     numAvail s = maxNumElems s - int (card E) \<and>
     (nextAvail s = - 1 \<or> 0 \<le> nextAvail s \<and> nextAvail s < maxNumElems s \<and> nat (nextAvail s) \<notin> E)"

lemma or_base: "j < 64 \<Longrightarrow> push_bit 6 (int i) OR int j = 64 * int i + int j"
proof -
  assume j: "j < 64"
  have "take_bit 6 (int j) = int j" using j by (intro take_bit_int_eq_self) simp_all
  then have "push_bit 6 (int i) OR int j = push_bit 6 (int i) + int j"
    by (intro disjunctive_add [symmetric]) (metis bit_push_bit_iff_int bit_take_bit_iff not_le)
  then show ?thesis by (simp add: push_bit_eq_mult)
qed

lemma and_1: "(w :: i64bits) AND 1 = 0 \<longleftrightarrow> \<not> bit w 0"
  by (simp only: and_one_eq bit_0) (simp add: mod2_eq_if)

lemma drop_and_1: "drop_bit r (w :: i64bits) AND 1 = 0 \<longleftrightarrow> \<not> bit w r"
  by (simp add: and_1 bit_drop_bit_eq)

lemma sdrop_and_1: "r < 64 \<Longrightarrow> signed_drop_bit r (w :: i64bits) AND 1 = 0 \<longleftrightarrow> \<not> bit w r"
  unfolding and_1 bit_signed_drop_bit_iff by simp

text \<open>The inner search finds the first clear bit of a word.\<close>

lemma findNextAvail0_first:
  assumes "j \<le> k" "k < 64" "\<not> bit w k" "\<And>l. j \<le> l \<Longrightarrow> l < k \<Longrightarrow> bit w l"
  shows "findNextAvail0 maxN (push_bit 6 (int i)) j (signed_drop_bit j w) =
     (if 64 * int i + int k < maxN then 64 * int i + int k else - 1)"
  using assms
proof (induction "k - j" arbitrary: j)
  case 0
  then have jk: "j = k" by simp
  have "findNextAvail0 maxN (push_bit 6 (int i)) k (signed_drop_bit k w) =
      (let v = push_bit 6 (int i) OR int k in if v < maxN then v else - 1)"
    by (subst findNextAvail0.simps) (simp only: sdrop_and_1 [OF 0(3)] 0(3,4) if_True not_False_eq_True)
  then show ?case by (simp only: jk or_base [OF 0(3)] Let_def)
next
  case (Suc n)
  then have jk: "j < k" by simp
  have w: "bit w j" using Suc.prems(4) jk by blast
  have j: "j < 64" using jk Suc.prems(2) by simp
  have "findNextAvail0 maxN (push_bit 6 (int i)) j (signed_drop_bit j w) =
      findNextAvail0 maxN (push_bit 6 (int i)) (Suc j) (signed_drop_bit (Suc j) w)"
    by (subst findNextAvail0.simps) (simp add: sdrop_and_1 [OF j] w j signed_drop_bit_signed_drop_bit)
  also have "\<dots> = (if 64 * int i + int k < maxN then 64 * int i + int k else - 1)"
    using Suc.hyps(2) Suc.prems jk by (intro Suc.hyps(1)) auto
  finally show ?case .
qed

lemma not_full: "NOT (w :: i64bits) \<noteq> 0 \<longleftrightarrow> (\<exists>k<64. \<not> bit w k)"
proof -
  have "NOT w = 0 \<longleftrightarrow> (\<forall>k<64. bit w k)"
    by (auto simp: bit_eq_iff bit_simps)
  then show ?thesis by blast
qed

text \<open>The outer search finds the first clear bit of the whole bitmap.\<close>

lemma findNextAvail_loop_first:
  assumes "k < 64 * length ws" "\<not> bit (ws ! (k div 64)) (k mod 64)"
    and "\<And>l. l < k \<Longrightarrow> bit (ws ! (l div 64)) (l mod 64)"
  shows "findNextAvail_loop maxN i ws =
     (if 64 * int i + int k < maxN then 64 * int i + int k else - 1)"
  using assms
proof (induction ws arbitrary: i k)
  case (Cons w ws)
  show ?case
  proof (cases "k < 64")
    case True
    have "NOT w \<noteq> 0" using True Cons.prems(2) by (auto simp: not_full)
    moreover have "bit w l" if "l < k" for l using Cons.prems(3) [OF that] that True by simp
    then have "findNextAvail0 maxN (push_bit 6 (int i)) 0 (signed_drop_bit 0 w) =
       (if 64 * int i + int k < maxN then 64 * int i + int k else - 1)"
      using True Cons.prems(2) by (intro findNextAvail0_first) auto
    moreover have "signed_drop_bit 0 w = w" by (rule bit_word_eqI) (auto simp: bit_simps)
    ultimately show ?thesis by simp
  next
    case False
    have "bit w l" if "l < 64" for l using Cons.prems(3) [of l] that False by simp
    then have "NOT w = 0" using not_full [of w] by blast
    moreover have "findNextAvail_loop maxN (Suc i) ws =
       (if 64 * int (Suc i) + int (k - 64) < maxN then 64 * int (Suc i) + int (k - 64) else - 1)"
    proof (rule Cons.IH)
      have k: "k div 64 = Suc ((k - 64) div 64)" "k mod 64 = (k - 64) mod 64"
        using False by (simp_all add: div_if mod_if)
      show "k - 64 < 64 * length ws" using Cons.prems(1) False by simp
      show "\<not> bit (ws ! ((k - 64) div 64)) ((k - 64) mod 64)" using Cons.prems(2) k by simp
      show "bit (ws ! (l div 64)) (l mod 64)" if "l < k - 64" for l
        using Cons.prems(3) [of "l + 64"] that by (simp add: div_add_self2)
    qed
    ultimately show ?thesis using False by (simp add: of_nat_diff)
  qed
qed simp

lemma sub_ok_len:
  assumes "sub_ok s E" "i < nat (maxNumElems s)"
  shows "i < 64 * nat (bitmapLength s)" "i div 64 < length (bitmap s)"
proof -
  have "int i < maxNumElems s" "bitmapLength s = (maxNumElems s + 63) div 64"
    "bitmapLength s \<le> int (length (bitmap s))" using assms by (auto simp: sub_ok_def sub_static_def)
  then show "i < 64 * nat (bitmapLength s)" "i div 64 < length (bitmap s)" by linarith+
qed

lemma getNextAvail_free:
  assumes "sub_ok s E" "0 < numAvail s"
  shows "\<exists>i. i < nat (maxNumElems s) \<and> i \<notin> E \<and> getNextAvail s = (int i, s\<lparr>nextAvail := - 1\<rparr>)"
proof (cases "nextAvail s = - 1")
  case False
  then have "0 \<le> nextAvail s" "nextAvail s < maxNumElems s" "nat (nextAvail s) \<notin> E"
    using assms(1) by (auto simp: sub_ok_def sub_static_def)
  then show ?thesis by (intro exI [of _ "nat (nextAvail s)"]) (simp add: getNextAvail_def)
next
  case True
  let ?N = "nat (maxNumElems s)" and ?L = "nat (bitmapLength s)"
  let ?ws = "take ?L (bitmap s)"
  have N: "0 < maxNumElems s" and E: "E \<subseteq> {..<?N}"
    and bits: "\<And>i. i < 64 * ?L \<Longrightarrow> used s i \<longleftrightarrow> i \<in> E"
    and len: "length ?ws = ?L"
    using assms(1) by (auto simp: sub_ok_def sub_static_def min_def)
  have "card E \<noteq> ?N" using assms N by (simp add: sub_ok_def sub_static_def)
  then have "E \<noteq> {..<?N}" by auto
  then obtain f where f: "f < ?N" "f \<notin> E" using E by auto
  define k where "k = (LEAST k. k \<notin> E)"
  have k: "k \<notin> E" "\<And>l. l < k \<Longrightarrow> l \<in> E" "k \<le> f"
    unfolding k_def by (rule LeastI [of "\<lambda>k. k \<notin> E", OF f(2)], use not_less_Least in blast,
        rule Least_le [of "\<lambda>k. k \<notin> E", OF f(2)])
  have kN: "k < ?N" using k(3) f(1) by simp
  have in_ws: "bit (?ws ! (l div 64)) (l mod 64) \<longleftrightarrow> l \<in> E" if "l < ?N" for l
  proof -
    have "l < 64 * ?L" by (rule sub_ok_len(1) [OF assms(1) that])
    then show ?thesis using bits [of l] by (simp add: used_def less_mult_imp_div_less mult.commute)
  qed
  have "findNextAvail_loop (maxNumElems s) 0 ?ws =
      (if 64 * int 0 + int k < maxNumElems s then 64 * int 0 + int k else - 1)"
  proof (rule findNextAvail_loop_first)
    show "k < 64 * length ?ws" using sub_ok_len(1) [OF assms(1) kN] len by simp
    show "\<not> bit (?ws ! (k div 64)) (k mod 64)" using in_ws [OF kN] k(1) by simp
    show "bit (?ws ! (l div 64)) (l mod 64)" if "l < k" for l using in_ws [of l] k(2) kN that by simp
  qed
  then have "getNextAvail s = (int k, s)"
    using True kN by (simp add: getNextAvail_def findNextAvail_def)
  then show ?thesis using kN k(1) True by (intro exI [of _ k]) simp
qed

section \<open>Handles and byte ranges\<close>

lemma or_shift:
  assumes "0 \<le> (m :: int)" "m < 2 ^ k"
  shows "push_bit k x OR m = x * 2 ^ k + m"
proof -
  have "take_bit k m = m" using assms by (intro take_bit_int_eq_self)
  then have "push_bit k x OR m = push_bit k x + m"
    by (intro disjunctive_add [symmetric]) (metis bit_push_bit_iff_int bit_take_bit_iff not_le)
  then show ?thesis by (simp add: push_bit_eq_mult)
qed

lemma toHandle_eq:
  assumes "0 \<le> i" "i < 2 ^ 30" "0 \<le> sp_memoryMapIdx s" "sp_memoryMapIdx s \<le> INT_MAX"
  shows "toHandle s i = (2 ^ 30 + i) * 2 ^ 32 + sp_memoryMapIdx s"
proof -
  have "(0x4000000000000000 :: int) = push_bit 32 (push_bit 30 1)" by (simp add: push_bit_eq_mult)
  then have "toHandle s i = push_bit 32 (push_bit 30 1 OR i) OR sp_memoryMapIdx s"
    by (simp only: toHandle_def push_bit_or or.assoc)
  also have "push_bit 30 1 OR i = 2 ^ 30 + i"
    using or_shift [OF assms(1,2), of 1] by simp
  finally show ?thesis using or_shift [OF assms(3), of 32] assms(4) by simp
qed

lemma handle_roundtrip:
  assumes "0 \<le> i" "i < 2 ^ 30" "0 \<le> sp_memoryMapIdx s" "sp_memoryMapIdx s \<le> INT_MAX"
  shows "memoryMapIdx (toHandle s i) = sp_memoryMapIdx s"
    and "bitmapIdx (toHandle s i) = 2 ^ 30 + i"
    and "(2 ^ 30 + i) AND 0x3FFFFFFF = i" and "0 < toHandle s i"
proof -
  let ?m = "sp_memoryMapIdx s"
  note eq = toHandle_eq [OF assms]
  have "((2 ^ 30 + i) * 2 ^ 32 + ?m + 2147483648) mod 4294967296 = (?m + 2147483648) mod 4294967296"
  proof -
    have "(2 ^ 30 + i) * 2 ^ 32 + ?m + 2147483648 = (?m + 2147483648) + (2 ^ 30 + i) * 4294967296" by simp
    then show ?thesis by (metis mod_mult_self1)
  qed
  then have "i32 (toHandle s i) = i32 ?m" unfolding eq i32_def by (simp only:)
  then show "memoryMapIdx (toHandle s i) = ?m" using assms(3,4) by (simp add: memoryMapIdx_def)
  have "drop_bit 32 (toHandle s i) = 2 ^ 30 + i"
    unfolding eq drop_bit_eq_div using assms(3,4) by simp
  then show "bitmapIdx (toHandle s i) = 2 ^ 30 + i" using assms(1,2) by (simp add: bitmapIdx_def)
  have "(2 ^ 30 + i) AND 0x3FFFFFFF = take_bit 30 (2 ^ 30 + i)" by (simp add: take_bit_eq_mask mask_eq_exp_minus_1)
  also have "\<dots> = i" using assms(1,2) by (simp add: take_bit_eq_mod)
  finally show "(2 ^ 30 + i) AND 0x3FFFFFFF = i" .
  show "0 < toHandle s i" unfolding eq using assms by (intro add_pos_nonneg) auto
qed

section \<open>The pool as a circular list\<close>

definition pool :: "sp_heap \<Rightarrow> nat \<Rightarrow> nat list \<Rightarrow> bool" where
  "pool h head xs \<longleftrightarrow> ring (\<lambda>a. sp_next (h a)) (\<lambda>a. sp_prev (h a)) head xs \<and> 0 \<notin> set (head # xs)"

text \<open>Everything of a subpage but its links.\<close>

definition core :: "subpage \<Rightarrow> subpage" where
  "core s = s\<lparr>sp_prev := 0, sp_next := 0\<rparr>"

lemma core_links [simp]: "core (s\<lparr>sp_prev := p\<rparr>) = core s" "core (s\<lparr>sp_next := p\<rparr>) = core s"
  by (simp_all add: core_def)

lemma core_fields:
  assumes "core s = core t"
  shows "sp_chunk s = sp_chunk t" "sp_memoryMapIdx s = sp_memoryMapIdx t" "sp_runOffset s = sp_runOffset t"
    "sp_pageSize s = sp_pageSize t" "bitmap s = bitmap t" "bitmapLength s = bitmapLength t"
    "doNotDestroy s = doNotDestroy t" "elemSize s = elemSize t" "maxNumElems s = maxNumElems t"
    "nextAvail s = nextAvail t" "numAvail s = numAvail t"
  using assms by (cases s; cases t; simp add: core_def)+

lemma sub_ok_core: "core s = core t \<Longrightarrow> sub_ok s E = sub_ok t E"
  using core_fields [of s t] by (simp add: sub_ok_def sub_static_def used_def)

lemma ring_links:
  assumes "ring nxt prv head (ys @ a # zs)"
  shows "prv a = last (head # ys)" "nxt a = hd (zs @ [head])"
proof -
  obtain L p where L: "head # ys = L @ [p]" using rev_exhaust by blast
  obtain n M where M: "zs @ [head] = n # M" by (cases "zs @ [head]") auto
  have "linked nxt prv (L @ p # a # n # M)"
  proof -
    have "head # (ys @ a # zs) @ [head] = (head # ys) @ a # (zs @ [head])" by simp
    then show ?thesis using assms unfolding ring_def L M by simp
  qed
  then have "nxt p = a" "prv a = p" "nxt a = n" by (simp_all add: linked_append)
  then show "prv a = last (head # ys)" "nxt a = hd (zs @ [head])" unfolding L M by simp_all
qed

lemma ring_alone:
  assumes "ring nxt prv head (ys @ a # zs)"
  shows "prv a = nxt a \<longleftrightarrow> ys = [] \<and> zs = []"
proof -
  have d: "distinct (head # ys @ a # zs)" using assms by (simp add: ring_def)
  note l = ring_links [OF assms]
  show ?thesis
  proof
    assume eq: "prv a = nxt a"
    have p: "prv a \<in> set (head # ys)" unfolding l(1) by (rule last_in_set) simp
    have n: "nxt a \<in> set (zs @ [head])" unfolding l(2) by (rule hd_in_set) simp
    have "prv a = head" using p n eq d by auto
    moreover have "ys = []" if "last (head # ys) = head" using that d by (cases ys) (auto split: if_splits)
    moreover have "zs = []" if "hd (zs @ [head]) = head" using that d by (cases zs) auto
    moreover have "last (head # ys) = head" "hd (zs @ [head]) = head"
      using l eq calculation(1) by metis+
    ultimately show "ys = [] \<and> zs = []" by blast
  qed (use l in simp)
qed

lemma removeFromPool_ok:
  assumes "pool h head (ys @ a # zs)"
  shows "\<exists>h'. removeFromPool a h = (Ok (), h') \<and> pool h' head (ys @ zs) \<and>
    sp_prev (h' a) = 0 \<and> sp_next (h' a) = 0 \<and> (\<forall>x. core (h' x) = core (h x)) \<and>
    (\<forall>x. x \<notin> set (head # ys @ a # zs) \<longrightarrow> h' x = h x)"
proof -
  let ?p = "sp_prev (h a)" and ?n = "sp_next (h a)"
  have ring: "ring (\<lambda>x. sp_next (h x)) (\<lambda>x. sp_prev (h x)) head (ys @ a # zs)"
    and nz: "0 \<notin> set (head # ys @ a # zs)" using assms by (auto simp: pool_def)
  have d: "distinct (head # ys @ a # zs)" using ring by (simp add: ring_def)
  have pm: "?p \<in> set (head # ys)"
    using ring_links(1) [OF ring] last_in_set [of "head # ys"] by simp
  have nm: "?n \<in> set (zs @ [head])"
    using ring_links(2) [OF ring] hd_in_set [of "zs @ [head]"] by simp
  have ne: "?p \<noteq> a" "?n \<noteq> a" "?p \<noteq> 0" "?n \<noteq> 0" using pm nm d nz by auto
  define h1 where "h1 = h(?p := (h ?p)\<lparr>sp_next := ?n\<rparr>)"
  define h2 where "h2 = h1(?n := (h1 ?n)\<lparr>sp_prev := ?p\<rparr>)"
  define h3 where "h3 = h2(a := (h2 a)\<lparr>sp_next := 0\<rparr>)"
  define h4 where "h4 = h3(a := (h3 a)\<lparr>sp_prev := 0\<rparr>)"
  have a1: "h1 a = h a" "h2 a = h a" using ne by (simp_all add: h1_def h2_def)
  have "removeFromPool a h = (Ok (), h4)"
    unfolding removeFromPool_def doM.simps seqp_def bindp_def assertp_def modify_def Let_def
    by (simp add: ne ne [symmetric] h4_def h3_def h2_def h1_def)
  moreover have next4: "sp_next (h4 x) = (if x = a then 0 else if x = ?p then ?n else sp_next (h x))"
    and prev4: "sp_prev (h4 x) = (if x = a then 0 else if x = ?n then ?p else sp_prev (h x))" for x
    using ne by (auto simp: h4_def h3_def h2_def h1_def)
  have "ring (\<lambda>x. sp_next (h4 x)) (\<lambda>x. sp_prev (h4 x)) head (ys @ zs)"
  proof -
    have "ring ((\<lambda>x. sp_next (h x))(?p := ?n)) ((\<lambda>x. sp_prev (h x))(?n := ?p)) head (ys @ zs)"
      by (rule ring_remove [OF ring])
    moreover have "a \<notin> set (head # (ys @ zs) @ [head])" using d by auto
    ultimately show ?thesis unfolding ring_def
      by (subst linked_cong [where nxt' = "(\<lambda>x. sp_next (h x))(?p := ?n)" and prv' = "(\<lambda>x. sp_prev (h x))(?n := ?p)"])
        (auto simp: next4 prev4 dest: in_set_butlastD)
  qed
  moreover have "core (h4 x) = core (h x)" for x by (simp add: h4_def h3_def h2_def h1_def)
  moreover have "h4 x = h x" if "x \<notin> set (head # ys @ a # zs)" for x
    using that pm nm by (auto simp: h4_def h3_def h2_def h1_def)
  ultimately show ?thesis using nz next4 [of a] prev4 [of a] by (auto simp: pool_def)
qed

lemma addToPool_ok:
  assumes "pool h head xs" "a \<notin> set (head # xs)" "a \<noteq> 0" "sp_prev (h a) = 0" "sp_next (h a) = 0"
  shows "\<exists>h'. addToPool head a h = (Ok (), h') \<and> pool h' head (a # xs) \<and> (\<forall>x. core (h' x) = core (h x)) \<and>
    (\<forall>x. x \<notin> set (head # a # xs) \<longrightarrow> h' x = h x)"
proof -
  have ring: "ring (\<lambda>x. sp_next (h x)) (\<lambda>x. sp_prev (h x)) head xs"
    and nz: "0 \<notin> set (head # xs)" using assms by (auto simp: pool_def)
  let ?n = "sp_next (h head)"
  have nm: "?n \<in> set (xs @ [head])"
    using ring by (cases xs) (auto simp: ring_def)
  have ne: "?n \<noteq> a" "head \<noteq> a" using nm assms(2) by auto
  define h2 where "h2 = h(a := (h a)\<lparr>sp_prev := head, sp_next := ?n\<rparr>)"
  define h3 where "h3 = h2(?n := (h2 ?n)\<lparr>sp_prev := a\<rparr>)"
  define h4 where "h4 = h3(head := (h3 head)\<lparr>sp_next := a\<rparr>)"
  have a3: "sp_next (h2 a) = ?n" "sp_prev (h3 a) = head" using ne by (simp_all add: h2_def h3_def)
  have "addToPool head a h = (Ok (), h4)"
    unfolding addToPool_def doM.simps seqp_def bindp_def assertp_def modify_def Let_def
    using ne assms(4,5) a3 by (simp add: h4_def h3_def h2_def)
  moreover have next4: "sp_next (h4 x) = (if x = head then a else if x = a then ?n else sp_next (h x))"
    and prev4: "sp_prev (h4 x) = (if x = ?n then a else if x = a then head else sp_prev (h x))" for x
    using ne by (auto simp: h4_def h3_def h2_def)
  have "ring (\<lambda>x. sp_next (h4 x)) (\<lambda>x. sp_prev (h4 x)) head (a # xs)"
  proof -
    have "(\<lambda>x. sp_next (h4 x)) = (\<lambda>x. sp_next (h x))(a := ?n, head := a)"
      "(\<lambda>x. sp_prev (h4 x)) = (\<lambda>x. sp_prev (h x))(a := head, ?n := a)"
      using ne by (auto simp: next4 prev4)
    then show ?thesis using ring_insert_front [OF ring assms(2)] by simp
  qed
  moreover have "core (h4 x) = core (h x)" for x by (simp add: h4_def h3_def h2_def core_def)
  moreover have "h4 x = h x" if "x \<notin> set (head # a # xs)" for x
    using that nm by (auto simp: h4_def h3_def h2_def)
  ultimately show ?thesis using nz assms(3) by (auto simp: pool_def)
qed

section \<open>One element in, one element out\<close>

lemma index_split: "drop_bit 6 (int i) = int (i div 64)" "nat (int i AND 63) = i mod 64"
proof -
  show "drop_bit 6 (int i) = int (i div 64)" by (simp add: drop_bit_eq_div of_nat_div)
  have "int i AND 63 = take_bit 6 (int i)" by (simp add: take_bit_eq_mask mask_eq_exp_minus_1)
  then have "int i AND 63 = int (i mod 64)" by (simp add: take_bit_eq_mod of_nat_mod)
  then show "nat (int i AND 63) = i mod 64" by simp
qed

lemma split_eq: "j div 64 = i div 64 \<and> j mod 64 = i mod 64 \<longleftrightarrow> j = (i :: nat)"
  by (metis div_mult_mod_eq)

lemma used_set:
  assumes "i div 64 < length (bitmap s)"
  shows "used (s\<lparr>bitmap := (bitmap s)[i div 64 := bitmap s ! (i div 64) OR push_bit (i mod 64) 1]\<rparr>) j
    \<longleftrightarrow> used s j \<or> j = i"
proof -
  have "bit (push_bit (i mod 64) (1 :: i64bits)) (j mod 64) \<longleftrightarrow> j mod 64 = i mod 64"
    by (auto simp: bit_exp_iff)
  then show ?thesis using assms split_eq [of j i]
    by (cases "j div 64 = i div 64") (auto simp: used_def bit_or_iff nth_list_update)
qed

lemma used_clear:
  assumes "i div 64 < length (bitmap s)" "used s i"
  shows "used (s\<lparr>bitmap := (bitmap s)[i div 64 := bitmap s ! (i div 64) XOR push_bit (i mod 64) 1]\<rparr>) j
    \<longleftrightarrow> used s j \<and> j \<noteq> i"
proof -
  have "bit (push_bit (i mod 64) (1 :: i64bits)) (j mod 64) \<longleftrightarrow> j mod 64 = i mod 64"
    by (auto simp: bit_exp_iff)
  then show ?thesis using assms split_eq [of j i]
    by (cases "j div 64 = i div 64") (auto simp: used_def bit_xor_iff nth_list_update)
qed

definition take_elem :: "nat \<Rightarrow> subpage \<Rightarrow> subpage" where
  "take_elem i s = s\<lparr>nextAvail := - 1,
     bitmap := (bitmap s)[i div 64 := bitmap s ! (i div 64) OR push_bit (i mod 64) 1], numAvail := numAvail s - 1\<rparr>"

definition give_elem :: "nat \<Rightarrow> subpage \<Rightarrow> subpage" where
  "give_elem i s = s\<lparr>bitmap := (bitmap s)[i div 64 := bitmap s ! (i div 64) XOR push_bit (i mod 64) 1],
     nextAvail := int i, numAvail := numAvail s + 1\<rparr>"

lemma sub_ok_take:
  assumes "sub_ok s E" "i < nat (maxNumElems s)" "i \<notin> E"
  shows "sub_ok (take_elem i s) (insert i E)"
proof -
  have fin: "finite E" using assms(1) finite_subset by (auto simp: sub_ok_def)
  have st: "sub_static (take_elem i s) = sub_static s" by (simp add: sub_static_def take_elem_def)
  have "used (take_elem i s) j \<longleftrightarrow> used s j \<or> j = i" for j
    using used_set [OF sub_ok_len(2) [OF assms(1,2)], of j] by (simp add: used_def take_elem_def)
  moreover have "\<forall>j<64 * nat (bitmapLength s). used s j \<longleftrightarrow> j \<in> E" using assms(1) by (simp add: sub_ok_def)
  ultimately have "\<forall>j<64 * nat (bitmapLength s). used (take_elem i s) j \<longleftrightarrow> j \<in> insert i E" by auto
  moreover have "int (card (insert i E)) = int (card E) + 1" using fin assms(3) by simp
  moreover have "maxNumElems (take_elem i s) = maxNumElems s" "bitmapLength (take_elem i s) = bitmapLength s"
    "numAvail (take_elem i s) = numAvail s - 1" "nextAvail (take_elem i s) = - 1"
    by (simp_all add: take_elem_def)
  ultimately show ?thesis using assms unfolding sub_ok_def st by simp
qed

lemma sub_ok_give:
  assumes "sub_ok s E" "i \<in> E"
  shows "sub_ok (give_elem i s) (E - {i})" "i < nat (maxNumElems s)" "used s i" "0 < card E"
proof -
  have fin: "finite E" using assms(1) finite_subset by (auto simp: sub_ok_def)
  have st: "sub_static (give_elem i s) = sub_static s" by (simp add: sub_static_def give_elem_def)
  show i: "i < nat (maxNumElems s)" using assms by (auto simp: sub_ok_def)
  have us: "\<forall>j<64 * nat (bitmapLength s). used s j \<longleftrightarrow> j \<in> E" using assms(1) by (simp add: sub_ok_def)
  then show u: "used s i" using sub_ok_len(1) [OF assms(1) i] assms(2) by simp
  have "used (give_elem i s) j \<longleftrightarrow> used s j \<and> j \<noteq> i" for j
    using used_clear [OF sub_ok_len(2) [OF assms(1) i] u, of j] by (simp add: used_def give_elem_def)
  then have "\<forall>j<64 * nat (bitmapLength s). used (give_elem i s) j \<longleftrightarrow> j \<in> E - {i}" using us by auto
  moreover show "0 < card E" using fin assms(2) card_gt_0_iff by blast
  then have "int (card (E - {i})) = int (card E) - 1" using fin assms(2) by (simp add: of_nat_diff)
  moreover have "int i < maxNumElems s" using i by linarith
  moreover have "maxNumElems (give_elem i s) = maxNumElems s" "bitmapLength (give_elem i s) = bitmapLength s"
    "numAvail (give_elem i s) = numAvail s + 1" "nextAvail (give_elem i s) = int i"
    by (simp_all add: give_elem_def)
  ultimately show "sub_ok (give_elem i s) (E - {i})"
    using assms(1) unfolding sub_ok_def st by auto
qed

lemma sp_allocate_run:
  assumes "sub_ok (h a) E" "doNotDestroy (h a)" "0 < numAvail (h a)"
  obtains i where "i < nat (maxNumElems (h a))" "i \<notin> E"
    "sp_allocate a h = (let h1 = h(a := take_elem i (h a)) in
       seqp (if numAvail (h a) = 1 then removeFromPool a else ret ()) (ret (toHandle (h a) (int i))) h1)"
proof -
  obtain i where i: "i < nat (maxNumElems (h a))" "i \<notin> E"
    "getNextAvail (h a) = (int i, (h a)\<lparr>nextAvail := - 1\<rparr>)"
    using getNextAvail_free [OF assms(1,3)] by blast
  have "\<not> bit (bitmap (h a) ! (i div 64)) (i mod 64)"
    using sub_ok_len(1) [OF assms(1) i(1)] i(2) assms(1) by (simp add: sub_ok_def used_def)
  then have "drop_bit (i mod 64) (bitmap (h a) ! (i div 64)) AND 1 = 0" by (simp add: drop_and_1)
  moreover have "elemSize (h a) \<noteq> 0" using assms(1) by (simp add: sub_ok_def sub_static_def)
  moreover have "toHandle (t\<lparr>nextAvail := m, bitmap := b, numAvail := n\<rparr>) x = toHandle t x" for t b m n x
    by (simp add: toHandle_def)
  ultimately have "sp_allocate a h = (let h1 = h(a := take_elem i (h a)) in
       seqp (if numAvail (h a) = 1 then removeFromPool a else ret ()) (ret (toHandle (h a) (int i))) h1)"
    using sub_ok_len(2) [OF assms(1) i(1)] assms(2,3)
    by (simp add: sp_allocate_def i(3) index_split take_elem_def Let_def toHandle_def)
  then show thesis using that i by blast
qed

lemma sp_free_run:
  assumes "sub_ok (h a) E" "i \<in> E"
  shows "sp_free head (int i) a h =
    (let h1 = h(a := give_elem i (h a)) in
     if numAvail (h a) = 0 then seqp (addToPool head a) (ret True) h1
     else if numAvail (h a) + 1 \<noteq> maxNumElems (h a) then (Ok True, h1)
     else if sp_prev (h a) = sp_next (h a) then (Ok True, h1)
     else seqp (modify (\<lambda>h. h(a := (h a)\<lparr>doNotDestroy := False\<rparr>)))
            (seqp (removeFromPool a) (ret False)) h1)"
proof -
  note g = sub_ok_give [OF assms]
  have "drop_bit (i mod 64) (bitmap (h a) ! (i div 64)) AND 1 \<noteq> 0"
    using g(3) by (simp add: drop_and_1 used_def)
  moreover have "elemSize (h a) \<noteq> 0" using assms(1) by (simp add: sub_ok_def sub_static_def)
  ultimately show ?thesis using sub_ok_len(2) [OF assms(1) g(2)]
    by (simp add: sp_free_def index_split Let_def give_elem_def)
qed

lemma pool_cong:
  assumes "\<And>x. x \<in> set (head # xs) \<Longrightarrow> sp_next (h x) = sp_next (h' x) \<and> sp_prev (h x) = sp_prev (h' x)"
  shows "pool h head xs \<longleftrightarrow> pool h' head xs"
proof -
  have "linked (\<lambda>a. sp_next (h a)) (\<lambda>a. sp_prev (h a)) (head # xs @ [head]) \<longleftrightarrow>
      linked (\<lambda>a. sp_next (h' a)) (\<lambda>a. sp_prev (h' a)) (head # xs @ [head])"
    by (rule linked_cong) (use assms in \<open>auto dest: in_set_butlastD\<close>)
  then show ?thesis by (simp add: pool_def ring_def)
qed

lemma pool_upd:
  "sp_next s = sp_next (h a) \<Longrightarrow> sp_prev s = sp_prev (h a) \<Longrightarrow> pool (h(a := s)) head xs \<longleftrightarrow> pool h head xs"
  by (rule pool_cong) auto

lemma take_elem_same [simp]:
  "sp_next (take_elem i s) = sp_next s" "sp_prev (take_elem i s) = sp_prev s"
  "maxNumElems (take_elem i s) = maxNumElems s" "doNotDestroy (take_elem i s) = doNotDestroy s"
  "elemSize (take_elem i s) = elemSize s" "sp_runOffset (take_elem i s) = sp_runOffset s"
  "sp_memoryMapIdx (take_elem i s) = sp_memoryMapIdx s" "sp_chunk (take_elem i s) = sp_chunk s"
  by (simp_all add: take_elem_def)

lemma give_elem_same [simp]:
  "sp_next (give_elem i s) = sp_next s" "sp_prev (give_elem i s) = sp_prev s"
  "maxNumElems (give_elem i s) = maxNumElems s" "doNotDestroy (give_elem i s) = doNotDestroy s"
  "elemSize (give_elem i s) = elemSize s" "sp_runOffset (give_elem i s) = sp_runOffset s"
  "sp_memoryMapIdx (give_elem i s) = sp_memoryMapIdx s" "sp_chunk (give_elem i s) = sp_chunk s"
  by (simp_all add: give_elem_def)

lemma sub_ok_destroy [simp]: "sub_ok (s\<lparr>doNotDestroy := b\<rparr>) E = sub_ok s E"
  by (simp add: sub_ok_def sub_static_def used_def)

text \<open>Allocation: a free element leaves, and a page that is now full leaves its pool.\<close>

lemma sp_allocate_ok:
  assumes "sub_ok (h a) E" "doNotDestroy (h a)" "pool h head xs" "a \<in> set xs"
    and "card E < nat (maxNumElems (h a))"
  shows "\<exists>i h'. i < nat (maxNumElems (h a)) \<and> i \<notin> E \<and> sp_allocate a h = (Ok (toHandle (h a) (int i)), h') \<and>
    core (h' a) = core (take_elem i (h a)) \<and> sub_ok (h' a) (insert i E) \<and>
    (\<forall>x. x \<noteq> a \<longrightarrow> core (h' x) = core (h x)) \<and> (\<forall>x. x \<notin> set (head # xs) \<longrightarrow> h' x = h x) \<and>
    (if Suc (card E) = nat (maxNumElems (h a))
     then pool h' head (remove1 a xs) \<and> sp_prev (h' a) = 0 \<and> sp_next (h' a) = 0
     else pool h' head xs)"
proof -
  have n: "numAvail (h a) = maxNumElems (h a) - int (card E)" using assms(1) by (simp add: sub_ok_def)
  then have "0 < numAvail (h a)" using assms(5) by simp
  then obtain i where
    i: "i < nat (maxNumElems (h a))" "i \<notin> E" and
    run: "sp_allocate a h = (let h1 = h(a := take_elem i (h a)) in
       seqp (if numAvail (h a) = 1 then removeFromPool a else ret ()) (ret (toHandle (h a) (int i))) h1)"
    using sp_allocate_run [of h a E, OF assms(1,2)] by blast
  define h1 where "h1 = h(a := take_elem i (h a))"
  have p1: "pool h1 head xs" unfolding h1_def using assms(3) by (subst pool_upd) auto
  have c1: "core (h1 x) = core (h x)" "h1 x = h x" if "x \<noteq> a" for x using that by (simp_all add: h1_def)
  have ok: "sub_ok (h1 a) (insert i E)" using sub_ok_take [OF assms(1) i] by (simp add: h1_def)
  show ?thesis
  proof (cases "numAvail (h a) = 1")
    case True
    obtain ys zs where xs: "xs = ys @ a # zs" using assms(4) split_list by metis
    have "distinct xs" using p1 by (simp add: pool_def ring_def)
    then have rem: "remove1 a xs = ys @ zs" by (simp add: xs remove1_append)
    have p1': "pool h1 head (ys @ a # zs)" using p1 xs by simp
    obtain h' where h': "removeFromPool a h1 = (Ok (), h')" "pool h' head (ys @ zs)"
      "sp_prev (h' a) = 0" "sp_next (h' a) = 0" "\<forall>x. core (h' x) = core (h1 x)"
      "\<forall>x. x \<notin> set (head # ys @ a # zs) \<longrightarrow> h' x = h1 x"
      using removeFromPool_ok [OF p1'] by blast
    have "sp_allocate a h = (Ok (toHandle (h a) (int i)), h')"
      using True h'(1) by (simp add: run prog_simps flip: h1_def)
    moreover have "sub_ok (h' a) (insert i E)" using ok sub_ok_core h'(5) by blast
    moreover have "core (h' a) = core (take_elem i (h a))" using h'(5) by (simp add: h1_def)
    moreover have "Suc (card E) = nat (maxNumElems (h a))" using True n by linarith
    moreover have "\<forall>x. x \<noteq> a \<longrightarrow> core (h' x) = core (h x)" using h'(5) c1(1) by simp
    moreover have "\<forall>x. x \<notin> set (head # xs) \<longrightarrow> h' x = h x" using h'(6) c1(2) assms(4) xs by auto
    ultimately show ?thesis using i h'(2-4) rem by (intro exI [of _ i] exI [of _ h']) simp
  next
    case False
    then have "Suc (card E) \<noteq> nat (maxNumElems (h a))" using n assms(5) by linarith
    moreover have "sp_allocate a h = (Ok (toHandle (h a) (int i)), h1)"
      using False by (simp add: run prog_simps flip: h1_def)
    moreover have "core (h1 a) = core (take_elem i (h a))" by (simp add: h1_def)
    moreover have "\<forall>x. x \<notin> set (head # xs) \<longrightarrow> h1 x = h x"
      using c1(2) assms(4) list.set_intros(2) by metis
    ultimately show ?thesis using i ok p1 c1(1) by (intro exI [of _ i] exI [of _ h1]) simp
  qed
qed

text \<open>
  Release: a page that was full comes back to the front of its pool; a page whose last element
  comes back leaves the pool, and is given up, unless it is the only one there.
\<close>

lemma sp_free_ok:
  assumes "sub_ok (h a) E" "i \<in> E" "pool h head xs" "a \<notin> {0, head}"
    and "if card E = nat (maxNumElems (h a)) then a \<notin> set xs \<and> sp_prev (h a) = 0 \<and> sp_next (h a) = 0
         else a \<in> set xs"
  shows "\<exists>h'. sub_ok (h' a) (E - {i}) \<and> (\<forall>x. x \<noteq> a \<longrightarrow> core (h' x) = core (h x)) \<and>
    (\<forall>x. x \<notin> set (head # a # xs) \<longrightarrow> h' x = h x) \<and>
    (if card E < nat (maxNumElems (h a)) \<and> E = {i} \<and> xs \<noteq> [a]
     then sp_free head (int i) a h = (Ok False, h') \<and> pool h' head (remove1 a xs) \<and>
       sp_prev (h' a) = 0 \<and> sp_next (h' a) = 0 \<and>
       core (h' a) = core (give_elem i (h a)\<lparr>doNotDestroy := False\<rparr>)
     else sp_free head (int i) a h = (Ok True, h') \<and> core (h' a) = core (give_elem i (h a)) \<and>
       pool h' head (if card E = nat (maxNumElems (h a)) then a # xs else xs))"
proof -
  note g = sub_ok_give [OF assms(1,2)]
  note run = sp_free_run [of h a E, OF assms(1,2), of head]
  have fin: "finite E" using assms(1) finite_subset by (auto simp: sub_ok_def)
  have n: "numAvail (h a) = maxNumElems (h a) - int (card E)" "0 < maxNumElems (h a)"
    using assms(1) by (simp_all add: sub_ok_def sub_static_def)
  have "card E \<le> card {..<nat (maxNumElems (h a))}"
    using assms(1) by (intro card_mono) (auto simp: sub_ok_def)
  then have le: "card E \<le> nat (maxNumElems (h a))" by simp
  define h1 where "h1 = h(a := give_elem i (h a))"
  have p1: "pool h1 head xs" unfolding h1_def using assms(3) by (subst pool_upd) auto
  have c1: "core (h1 x) = core (h x)" "h1 x = h x" if "x \<noteq> a" for x using that by (simp_all add: h1_def)
  have h1a: "h1 a = give_elem i (h a)" by (simp add: h1_def)
  have ok: "sub_ok (h1 a) (E - {i})" using g(1) by (simp add: h1_def)
  have single: "E = {i} \<longleftrightarrow> card E = 1" using assms(2) fin card_1_singletonE by (metis singletonD is_singletonI is_singleton_altdef)
  consider (full) "card E = nat (maxNumElems (h a))"
    | (part) "card E < nat (maxNumElems (h a))" "E \<noteq> {i}"
    | (last) "card E < nat (maxNumElems (h a))" "E = {i}"
    using le by linarith
  then show ?thesis
  proof cases
    case full
    have "a \<notin> set (head # xs)" "a \<noteq> 0" "sp_prev (h1 a) = 0" "sp_next (h1 a) = 0"
      using assms(4,5) full by (simp_all add: h1a)
    from addToPool_ok [OF p1 this] obtain h' where h': "addToPool head a h1 = (Ok (), h')"
      "pool h' head (a # xs)" "\<forall>x. core (h' x) = core (h1 x)" "\<forall>x. x \<notin> set (head # a # xs) \<longrightarrow> h' x = h1 x"
      by blast
    have "numAvail (h a) = 0" using full n by simp
    then have "sp_free head (int i) a h = (Ok True, h')" using h'(1) by (simp add: run prog_simps flip: h1_def)
    moreover have "sub_ok (h' a) (E - {i})" using ok sub_ok_core h'(3) by blast
    moreover have "core (h' a) = core (give_elem i (h a))" using h'(3) by (simp add: h1a)
    moreover have "\<forall>x. x \<notin> set (head # a # xs) \<longrightarrow> h' x = h x" using h'(4) c1(2) by simp
    ultimately show ?thesis using h'(2,3) full c1(1) by (intro exI [of _ h']) simp
  next
    case part
    then have "numAvail (h a) \<noteq> 0" "numAvail (h a) + 1 \<noteq> maxNumElems (h a)"
      using n single by linarith+
    then have "sp_free head (int i) a h = (Ok True, h1)" by (simp add: run flip: h1_def)
    then show ?thesis using ok p1 part c1 by (intro exI [of _ h1]) (simp add: h1a)
  next
    case last
    then have na: "numAvail (h a) \<noteq> 0" "numAvail (h a) + 1 = maxNumElems (h a)"
      using n single by linarith+
    have mx: "nat (maxNumElems (h a)) \<noteq> Suc 0" using last single by simp
    have "a \<in> set xs" using assms(5) last(1) by simp
    then obtain ys zs where xs: "xs = ys @ a # zs" using split_list by metis
    have "ring (\<lambda>a. sp_next (h a)) (\<lambda>a. sp_prev (h a)) head (ys @ a # zs)"
      using assms(3) xs by (simp add: pool_def)
    from ring_alone [OF this] have alone: "sp_prev (h a) = sp_next (h a) \<longleftrightarrow> xs = [a]"
      using xs by (cases ys) auto
    show ?thesis
    proof (cases "xs = [a]")
      case True
      then have "sp_free head (int i) a h = (Ok True, h1)" using na alone by (simp add: run flip: h1_def)
      then show ?thesis using ok p1 last c1 True mx by (intro exI [of _ h1]) (simp add: h1a)
    next
      case False
      define h2 where "h2 = h1(a := (h1 a)\<lparr>doNotDestroy := False\<rparr>)"
      have p2: "pool h2 head (ys @ a # zs)" unfolding h2_def using p1 xs by (subst pool_upd) auto
      have "distinct xs" using p1 by (simp add: pool_def ring_def)
      then have rem: "remove1 a xs = ys @ zs" by (simp add: xs remove1_append)
      obtain h' where h': "removeFromPool a h2 = (Ok (), h')" "pool h' head (ys @ zs)"
        "sp_prev (h' a) = 0" "sp_next (h' a) = 0" "\<forall>x. core (h' x) = core (h2 x)"
        "\<forall>x. x \<notin> set (head # ys @ a # zs) \<longrightarrow> h' x = h2 x"
        using removeFromPool_ok [OF p2] by blast
      have "sp_free head (int i) a h = (Ok False, h')"
        using False na alone h'(1) by (simp add: run prog_simps flip: h1_def h2_def)
      moreover have "sub_ok (h2 a) (E - {i})" using ok by (simp add: h2_def)
      then have "sub_ok (h' a) (E - {i})" using sub_ok_core h'(5) by blast
      moreover have "core (h' a) = core (give_elem i (h a)\<lparr>doNotDestroy := False\<rparr>)"
        using h'(5) by (simp add: h2_def h1a)
      moreover have "\<forall>x. x \<noteq> a \<longrightarrow> core (h' x) = core (h x)" using h'(5) c1(1) by (simp add: h2_def)
      moreover have "\<forall>x. x \<notin> set (head # a # xs) \<longrightarrow> h' x = h x"
        using h'(6) c1(2) xs by (auto simp: h2_def)
      ultimately show ?thesis using last False h'(2-4) rem by (intro exI [of _ h']) simp
    qed
  qed
qed

section \<open>A fresh subpage\<close>

lemma div64_less: "x < 64 * y \<Longrightarrow> x div 64 < (y :: int)"
  by linarith

lemma sp_init_ok:
  assumes "16 \<le> sz" "sz \<le> sp_pageSize s" "sp_pageSize s \<le> 2 ^ 30" "sp_pageSize s mod 1024 = 0"
    and "int (length (bitmap s)) = sp_pageSize s div 1024"
  shows "\<exists>s'. sp_init sz s = Ok s' \<and> sub_ok s' {} \<and> doNotDestroy s' \<and> elemSize s' = sz \<and>
    length (bitmap s') = length (bitmap s) \<and>
    sp_chunk s' = sp_chunk s \<and> sp_prev s' = sp_prev s \<and> sp_next s' = sp_next s \<and>
    sp_memoryMapIdx s' = sp_memoryMapIdx s \<and> sp_runOffset s' = sp_runOffset s \<and> sp_pageSize s' = sp_pageSize s"
proof -
  let ?P = "sp_pageSize s"
  define n where "n = ?P div sz"
  have n: "0 < n" "n < 2 ^ 30" "n \<le> ?P div 16"
  proof -
    show "0 < n" using assms(1,2) by (simp add: n_def pos_imp_zdiv_pos_iff)
    show "n \<le> ?P div 16" unfolding n_def using assms(1,2) by (intro zdiv_mono2) auto
    then show "n < 2 ^ 30" using assms(3) by simp
  qed
  have q: "?P sdiv sz = n"
    using assms(1,2) by (simp add: n_def signed_divide_int_def sgn_if)
  define len where "len = drop_bit 6 n + (if n AND 63 \<noteq> 0 then 1 else 0)"
  have "n AND 63 = n mod 64"
  proof -
    have "n AND 63 = take_bit 6 n" by (simp add: take_bit_eq_mask mask_eq_exp_minus_1)
    then show ?thesis by (simp add: take_bit_eq_mod)
  qed
  moreover have nd: "n = 64 * (n div 64) + n mod 64" "0 \<le> n mod 64" "n mod 64 < 64" by simp_all
  moreover have "(n + 63) div 64 = n div 64" if "n mod 64 = 0"
    by (rule int_div_pos_eq [of _ _ _ 63]) (use nd that in simp_all)
  moreover have "(n + 63) div 64 = n div 64 + 1" if "n mod 64 \<noteq> 0"
    by (rule int_div_pos_eq [of _ _ _ "n mod 64 - 1"]) (use nd that in simp_all)
  ultimately have len: "len = (n + 63) div 64" unfolding len_def by (simp add: drop_bit_eq_div)
  have fits: "len \<le> int (length (bitmap s))"
    
  proof -
    have P: "sp_pageSize s = 1024 * (sp_pageSize s div 1024)"
      using mult_div_mod_eq [of 1024 "sp_pageSize s"] unfolding assms(4) by simp
    define k where "k = sp_pageSize s div 1024"
    have "sp_pageSize s div 16 = 64 * k"
      by (rule int_div_pos_eq [of _ _ _ 0]) (use P in \<open>simp_all add: k_def\<close>)
    then have "n + 63 < 64 * (k + 1)" using n(3) by simp
    then have "(n + 63) div 64 < k + 1" by (rule div64_less)
    then show ?thesis using assms(5) by (simp add: len k_def)
  qed
  define t where "t = s\<lparr>doNotDestroy := True, elemSize := sz, maxNumElems := n, numAvail := n, nextAvail := 0,
     bitmapLength := len, bitmap := replicate (nat len) 0 @ drop (nat len) (bitmap s)\<rparr>"
  have run: "sp_init sz s = Ok t" using assms(1) fits by (simp add: sp_init_def q Let_def t_def flip: len_def)
  have lenb: "length (bitmap t) = length (bitmap s)" using fits by (simp add: t_def)
  have f: "elemSize t = sz" "maxNumElems t = n" "numAvail t = n" "nextAvail t = 0" "bitmapLength t = len"
    "doNotDestroy t" "sp_chunk t = sp_chunk s" "sp_prev t = sp_prev s" "sp_next t = sp_next s"
    "sp_memoryMapIdx t = sp_memoryMapIdx s" "sp_runOffset t = sp_runOffset s" "sp_pageSize t = ?P"
    by (simp_all add: t_def)
  have "\<not> used t i" if "i < 64 * nat len" for i
  proof -
    have "i div 64 < nat len" using that by (simp add: less_mult_imp_div_less mult.commute)
    then show ?thesis by (simp add: used_def nth_append t_def)
  qed
  moreover have "sub_static t"
    unfolding sub_static_def f lenb using assms(1) n(1,2) fits by (simp add: n_def len)
  ultimately have "sub_ok t {}" unfolding sub_ok_def f using n(1) by simp
  then show ?thesis using run lenb f by blast
qed

lemma init_subpage_ok:
  assumes "16 \<le> sz" "sz \<le> sp_pageSize (h a)" "sp_pageSize (h a) \<le> 2 ^ 30" "sp_pageSize (h a) mod 1024 = 0"
    and "int (length (bitmap (h a))) = sp_pageSize (h a) div 1024"
    and "pool h head xs" "a \<notin> set (head # xs)" "a \<noteq> 0" "sp_prev (h a) = 0" "sp_next (h a) = 0"
  shows "\<exists>h'. init_subpage head sz a h = (Ok (), h') \<and> pool h' head (a # xs) \<and> sub_ok (h' a) {} \<and>
    doNotDestroy (h' a) \<and> elemSize (h' a) = sz \<and> length (bitmap (h' a)) = length (bitmap (h a)) \<and>
    sp_chunk (h' a) = sp_chunk (h a) \<and>
    sp_memoryMapIdx (h' a) = sp_memoryMapIdx (h a) \<and> sp_runOffset (h' a) = sp_runOffset (h a) \<and>
    sp_pageSize (h' a) = sp_pageSize (h a) \<and>
    (\<forall>x. x \<noteq> a \<longrightarrow> core (h' x) = core (h x)) \<and> (\<forall>x. x \<notin> set (head # a # xs) \<longrightarrow> h' x = h x)"
proof -
  obtain s where s: "sp_init sz (h a) = Ok s" "sub_ok s {}" "doNotDestroy s" "elemSize s = sz"
    "length (bitmap s) = length (bitmap (h a))" "sp_chunk s = sp_chunk (h a)"
    "sp_prev s = sp_prev (h a)" "sp_next s = sp_next (h a)"
    "sp_memoryMapIdx s = sp_memoryMapIdx (h a)" "sp_runOffset s = sp_runOffset (h a)"
    "sp_pageSize s = sp_pageSize (h a)"
    using sp_init_ok [OF assms(1-5)] by blast
  define h1 where "h1 = h(a := s)"
  have p1: "pool h1 head xs" unfolding h1_def using assms(6) s by (subst pool_upd) auto
  have "sp_prev (h1 a) = 0" "sp_next (h1 a) = 0" using assms(9,10) s by (simp_all add: h1_def)
  from addToPool_ok [OF p1 assms(7,8) this] obtain h' where h': "addToPool head a h1 = (Ok (), h')"
    "pool h' head (a # xs)" "\<forall>x. core (h' x) = core (h1 x)" "\<forall>x. x \<notin> set (head # a # xs) \<longrightarrow> h' x = h1 x"
    by blast
  have "init_subpage head sz a h = (Ok (), h')"
    using s(1) h'(1) by (simp add: init_subpage_def prog_simps seqp_def bindp_def flip: h1_def)
  moreover have "core (h' a) = core s" using h'(3) by (simp add: h1_def)
  note f = core_fields [OF this] sub_ok_core [OF this]
  moreover have "\<forall>x. x \<noteq> a \<longrightarrow> core (h' x) = core (h x)" using h'(3) by (simp add: h1_def)
  moreover have "\<forall>x. x \<notin> set (head # a # xs) \<longrightarrow> h' x = h x" using h'(4) by (simp add: h1_def)
  ultimately show ?thesis using h'(2) s by (intro exI [of _ h']) simp
qed

lemma PoolSubpage_new_ok:
  assumes "16 \<le> sz" "sz \<le> pageSz" "pageSz \<le> 2 ^ 30" "pageSz mod 1024 = 0"
    and "pool h head xs" "a \<notin> set (head # xs)" "a \<noteq> 0"
  shows "\<exists>h'. PoolSubpage_new junk head ck idx off pageSz sz a h = (Ok (), h') \<and> pool h' head (a # xs) \<and>
    sub_ok (h' a) {} \<and> doNotDestroy (h' a) \<and> elemSize (h' a) = sz \<and>
    int (length (bitmap (h' a))) = pageSz div 1024 \<and>
    sp_chunk (h' a) = ck \<and> sp_memoryMapIdx (h' a) = idx \<and> sp_runOffset (h' a) = off \<and> sp_pageSize (h' a) = pageSz \<and>
    (\<forall>x. x \<noteq> a \<longrightarrow> core (h' x) = core (h x)) \<and> (\<forall>x. x \<notin> set (head # a # xs) \<longrightarrow> h' x = h x)"
proof -
  let ?s = "sp_blank\<lparr>sp_chunk := ck, sp_memoryMapIdx := idx,
      sp_runOffset := off, sp_pageSize := pageSz, bitmap := map junk [0..<nat (drop_bit 10 pageSz)]\<rparr>"
  define h1 where "h1 = h(a := ?s)"
  have s: "sp_pageSize (h1 a) = pageSz" "sp_prev (h1 a) = 0" "sp_next (h1 a) = 0"
    "int (length (bitmap (h1 a))) = pageSz div 1024" "sp_chunk (h1 a) = ck"
    "sp_memoryMapIdx (h1 a) = idx" "sp_runOffset (h1 a) = off"
    using assms(1,2) by (simp_all add: h1_def sp_blank_def drop_bit_eq_div)
  have "pool h1 head xs"
    using assms(5,6) unfolding h1_def by (subst pool_cong [where h' = h]) auto
  then obtain h' where h': "init_subpage head sz a h1 = (Ok (), h')" "pool h' head (a # xs)" "sub_ok (h' a) {}"
    "doNotDestroy (h' a)" "elemSize (h' a) = sz" "length (bitmap (h' a)) = length (bitmap (h1 a))"
    "sp_chunk (h' a) = sp_chunk (h1 a)"
    "sp_memoryMapIdx (h' a) = sp_memoryMapIdx (h1 a)" "sp_runOffset (h' a) = sp_runOffset (h1 a)"
    "sp_pageSize (h' a) = sp_pageSize (h1 a)" "\<forall>x. x \<noteq> a \<longrightarrow> core (h' x) = core (h1 x)"
    "\<forall>x. x \<notin> set (head # a # xs) \<longrightarrow> h' x = h1 x"
    using init_subpage_ok [of sz h1 a head xs] assms s by auto
  have "PoolSubpage_new junk head ck idx off pageSz sz a h = (Ok (), h')"
    using h'(1) by (simp add: PoolSubpage_new_def prog_simps flip: h1_def)
  moreover have "\<forall>x. x \<noteq> a \<longrightarrow> core (h' x) = core (h x)" using h'(11) by (simp add: h1_def)
  moreover have "\<forall>x. x \<notin> set (head # a # xs) \<longrightarrow> h' x = h x" using h'(12) by (simp add: h1_def)
  ultimately show ?thesis using h' s by (intro exI [of _ h']) simp
qed

section \<open>Properties\<close>

text \<open>The bytes of element \<open>i\<close> of a subpage, within its chunk.\<close>

definition elem_bytes :: "subpage \<Rightarrow> nat \<Rightarrow> int set" where
  "elem_bytes s i = {sp_runOffset s + int i * elemSize s ..< sp_runOffset s + (int i + 1) * elemSize s}"

lemma elem_bytes_disjoint: "0 < elemSize s \<Longrightarrow> i \<noteq> j \<Longrightarrow> elem_bytes s i \<inter> elem_bytes s j = {}"
proof -
  assume e: "0 < elemSize s" "i \<noteq> j"
  have "(int i + 1) * elemSize s \<le> int j * elemSize s \<or> (int j + 1) * elemSize s \<le> int i * elemSize s"
    using e by (cases "i < j") (auto intro!: mult_right_mono)
  then show ?thesis by (auto simp: elem_bytes_def)
qed

lemma elem_bytes_inside:
  assumes "sub_ok s E" "i < nat (maxNumElems s)"
  shows "elem_bytes s i \<subseteq> {sp_runOffset s..<sp_runOffset s + sp_pageSize s}"
proof -
  have e: "0 < elemSize s" "maxNumElems s = sp_pageSize s div elemSize s"
    using assms(1) by (simp_all add: sub_ok_def sub_static_def)
  have "(int i + 1) * elemSize s \<le> maxNumElems s * elemSize s"
    using e(1) assms(2) by (intro mult_right_mono) auto
  also have "\<dots> \<le> sp_pageSize s" using e(1) by (simp add: e(2) minus_mod_eq_div_mult [symmetric])
  finally have "(int i + 1) * elemSize s \<le> sp_pageSize s" .
  moreover have "0 \<le> int i * elemSize s" using e by simp
  ultimately show ?thesis by (auto simp: elem_bytes_def)
qed

text \<open>
  an allocation from a page with room returns a handle that decodes to the page and to an
  element that was free; the bytes of that element lie inside the page and meet those of no element
  in use. The bitmap then records exactly one element more, and the page leaves the circular list
  of its pool when, and only when, that was its last element.
\<close>

theorem subpage_allocates:
  assumes "sub_ok (h a) E" "doNotDestroy (h a)" "pool h head xs" "a \<in> set xs"
    and "card E < nat (maxNumElems (h a))"
    and "0 \<le> sp_memoryMapIdx (h a)" "sp_memoryMapIdx (h a) \<le> INT_MAX"
  shows "\<exists>i h' hd. sp_allocate a h = (Ok hd, h') \<and> 0 < hd \<and> memoryMapIdx hd = sp_memoryMapIdx (h a) \<and>
    bitmapIdx hd \<noteq> 0 \<and> bitmapIdx hd AND 0x3FFFFFFF = int i \<and> i \<notin> E \<and>
    elem_bytes (h a) i \<subseteq> {sp_runOffset (h a)..<sp_runOffset (h a) + sp_pageSize (h a)} \<and>
    (\<forall>j\<in>E. elem_bytes (h a) i \<inter> elem_bytes (h a) j = {}) \<and>
    sub_ok (h' a) (insert i E) \<and>
    pool h' head (if Suc (card E) = nat (maxNumElems (h a)) then remove1 a xs else xs)"
proof -
  obtain i h' where i: "i < nat (maxNumElems (h a))" "i \<notin> E" and
    h': "sp_allocate a h = (Ok (toHandle (h a) (int i)), h')" "sub_ok (h' a) (insert i E)"
    "pool h' head (if Suc (card E) = nat (maxNumElems (h a)) then remove1 a xs else xs)"
    using sp_allocate_ok [OF assms(1-5)] by (auto split: if_splits)
  have m: "maxNumElems (h a) < 2 ^ 30" "0 < elemSize (h a)"
    using assms(1) unfolding sub_ok_def sub_static_def by blast+
  have b: "int i < 2 ^ 30" "0 < elemSize (h a)" using i(1) m by linarith+
  note hd = handle_roundtrip [of "int i" "h a", OF _ b(1) assms(6,7)]
  have "elem_bytes (h a) i \<inter> elem_bytes (h a) j = {}" if "j \<in> E" for j
    using i(2) that by (intro elem_bytes_disjoint [OF b(2)]) auto
  then show ?thesis using h' i hd elem_bytes_inside [OF assms(1) i(1)]
    by (intro exI [of _ i] exI [of _ h'] exI [of _ "toHandle (h a) (int i)"]) simp
qed

text \<open>
  giving an element back clears exactly its bit. A page that was full returns to the front of
  its pool; a page whose last element came back is given up, leaving the pool, exactly when the
  pool holds another page, and is kept otherwise.
\<close>

theorem subpage_frees:
  assumes "sub_ok (h a) E" "i \<in> E" "pool h head xs" "a \<notin> {0, head}"
    and "if card E = nat (maxNumElems (h a)) then a \<notin> set xs \<and> sp_prev (h a) = 0 \<and> sp_next (h a) = 0
         else a \<in> set xs"
  shows "\<exists>r h'. sp_free head (int i) a h = (Ok r, h') \<and> sub_ok (h' a) (E - {i}) \<and>
    (r \<longleftrightarrow> \<not> (card E < nat (maxNumElems (h a)) \<and> E = {i} \<and> xs \<noteq> [a])) \<and>
    pool h' head (if card E = nat (maxNumElems (h a)) then a # xs else if r then xs else remove1 a xs)"
proof -
  obtain h' where h': "sub_ok (h' a) (E - {i})"
    "if card E < nat (maxNumElems (h a)) \<and> E = {i} \<and> xs \<noteq> [a]
     then sp_free head (int i) a h = (Ok False, h') \<and> pool h' head (remove1 a xs) \<and>
       sp_prev (h' a) = 0 \<and> sp_next (h' a) = 0 \<and>
       core (h' a) = core (give_elem i (h a)\<lparr>doNotDestroy := False\<rparr>)
     else sp_free head (int i) a h = (Ok True, h') \<and> core (h' a) = core (give_elem i (h a)) \<and>
       pool h' head (if card E = nat (maxNumElems (h a)) then a # xs else xs)"
    using sp_free_ok [OF assms] by blast
  show ?thesis
  proof (cases "card E < nat (maxNumElems (h a)) \<and> E = {i} \<and> xs \<noteq> [a]")
    case True
    have "card E \<noteq> nat (maxNumElems (h a))" using True by linarith
    moreover have "sp_free head (int i) a h = (Ok False, h') \<and> pool h' head (remove1 a xs)"
      using h'(2) unfolding if_P [OF True] by blast
    ultimately show ?thesis using h'(1) True by (intro exI [of _ False] exI [of _ h']) auto
  next
    case False
    have "sp_free head (int i) a h = (Ok True, h') \<and>
      pool h' head (if card E = nat (maxNumElems (h a)) then a # xs else xs)"
      using h'(2) unfolding if_not_P [OF False] by blast
    then show ?thesis using h'(1) False by (intro exI [of _ True] exI [of _ h']) auto
  qed
qed

text \<open>A page of 4096 bytes cut into elements of 2048, at address 2, in the pool at address 1.\<close>

lemma two_elements:
  "\<exists>h. sub_ok (h 2) {} \<and> doNotDestroy (h 2) \<and> pool h 1 [2] \<and> sp_memoryMapIdx (h 2) = 2048 \<and>
     maxNumElems (h 2) = 2"
proof -
  define h0 where "h0 = PoolSubpage_head 4096 1 (\<lambda>_. sp_blank)"
  have "pool h0 1 []" by (simp add: h0_def PoolSubpage_head_def pool_def ring_def)
  from PoolSubpage_new_ok [OF _ _ _ _ this, of 2048 4096 2 "\<lambda>_. 0" 1 2048 0] obtain h where
    h: "pool h 1 [2]" "sub_ok (h 2) {}" "doNotDestroy (h 2)" "elemSize (h 2) = 2048"
    "sp_memoryMapIdx (h 2) = 2048" "sp_pageSize (h 2) = 4096" by auto
  moreover from h have "maxNumElems (h 2) = 2" by (simp add: sub_ok_def sub_static_def)
  ultimately show ?thesis by blast
qed

theorem subpage_allocates_witness:
  "\<exists>h i h' hd. sub_ok (h 2) {} \<and> sp_allocate 2 h = (Ok hd, h') \<and> memoryMapIdx hd = 2048 \<and> sub_ok (h' 2) {i}"
proof -
  obtain h where h: "sub_ok (h 2) {}" "doNotDestroy (h 2)" "pool h 1 [2]" "sp_memoryMapIdx (h 2) = 2048"
    "maxNumElems (h 2) = 2" using two_elements by blast
  with subpage_allocates [OF h(1-3)] show ?thesis by fastforce
qed

theorem subpage_frees_witness:
  "\<exists>h E i r h'. i \<in> E \<and> sub_ok (h 2) E \<and> sp_free 1 (int i) 2 h = (Ok r, h') \<and> sub_ok (h' 2) (E - {i}) \<and> r"
proof -
  obtain h where h: "sub_ok (h 2) {}" "doNotDestroy (h 2)" "pool h 1 [2]" "sp_memoryMapIdx (h 2) = 2048"
    "maxNumElems (h 2) = 2" using two_elements by blast
  obtain i h' where h': "core (h' 2) = core (take_elem i (h 2))" "sub_ok (h' 2) {i}" "pool h' 1 [2]"
    using sp_allocate_ok [OF h(1-3)] h(5) by fastforce
  have "maxNumElems (h' 2) = 2" using core_fields(9) [OF h'(1)] h(5) by simp
  with subpage_frees [OF h'(2) _ h'(3), of i] h'(2) show ?thesis by fastforce
qed

end
