(* ===== verification/Pool.thy ===== *)
theory Pool
  imports Subpage
begin

text \<open>
  The state of one \<open>PoolArena\<close> (src/common/buffer/PoolArena.hpp): its chunks, subpages and chunk
  lists by address, and the operations of \<open>PoolChunk\<close> (PoolChunk.cpp) that reach through the chunk
  into the arena's subpage pools: allocation and release of elements, and the initialisation of a
  buffer from a handle. The operations run under the arena's recursive mutex, one at a time.
\<close>

section \<open>State\<close>

record chunk_list =
  nextList :: nat
  prevList :: nat
  minUsage :: int
  maxUsage :: int
  listCapacity :: int
  list_head :: nat

text \<open>
  \<open>chunks\<close> has no entry for a deleted chunk; \<open>new_chunk\<close> and \<open>new_subpage\<close> are the addresses the
  next \<open>new\<close> returns, and \<open>bitmap_junk\<close> what a new bitmap array contains.
\<close>

record arena =
  ar_maxOrder :: int
  ar_pageSize :: int
  ar_pageShifts :: int
  ar_chunkSize :: int
  tinySubpagePools :: "nat list"
  smallSubpagePools :: "nat list"
  lists :: "nat \<Rightarrow> chunk_list"
  chunks :: "nat \<Rightarrow> chunk option"
  subs :: sp_heap
  new_chunk :: nat
  new_subpage :: nat
  bitmap_junk :: "nat \<Rightarrow> i64bits"

text \<open>The arguments \<open>PoolChunk\<close> passes to \<open>PooledCharBuf::init\<close>: the memory of a buffer.\<close>

record region =
  rg_chunk :: nat
  rg_handle :: int
  rg_offset :: int
  rg_length :: int
  rg_maxLength :: int

section \<open>Access\<close>

abbreviation undef :: "('s, 'a) prog" where "undef \<equiv> lift_outcome (\<lambda>_. Undef)"
abbreviation hang :: "('s, 'a) prog" where "hang \<equiv> lift_outcome (\<lambda>_. Hang)"

definition nth_addr :: "nat list \<Rightarrow> int \<Rightarrow> nat outcome" where
  "nth_addr xs i = (if 0 \<le> i \<and> i < int (length xs) then Ok (xs ! nat i) else Undef)"

definition deref :: "nat \<Rightarrow> (arena, chunk) prog" where
  "deref a = lift_outcome (\<lambda>s. case chunks s a of Some c \<Rightarrow> Ok c | None \<Rightarrow> Undef)"

definition on_chunk :: "nat \<Rightarrow> (chunk, 'a) prog \<Rightarrow> (arena, 'a) prog" where
  "on_chunk a m s =
     (case chunks s a of
        None \<Rightarrow> (Undef, s)
      | Some c \<Rightarrow> (case m c of (r, c') \<Rightarrow> (r, s\<lparr>chunks := (chunks s)(a \<mapsto> c')\<rparr>)))"

definition on_subs :: "(sp_heap, 'a) prog \<Rightarrow> (arena, 'a) prog" where
  "on_subs m = zoom subs (\<lambda>h. subs_update (\<lambda>_. h)) m"

text \<open>\<open>PoolArena::findSubpagePoolHead\<close>: the slot, then the table.\<close>

definition findHead :: "int \<Rightarrow> (arena, nat) prog" where
  "findHead sz = lift_outcome (\<lambda>s.
     case findSubpagePoolHead sz of
       Some (TinySlot i) \<Rightarrow> nth_addr (tinySubpagePools s) i
     | Some (SmallSlot i) \<Rightarrow> nth_addr (smallSubpagePools s) i
     | None \<Rightarrow> Hang)"

definition subpage_at :: "chunk \<Rightarrow> int \<Rightarrow> (arena, nat) prog" where
  "subpage_at c n = lift_outcome (\<lambda>_. nth_addr (subpages c) (subpageIdx c (nat n)))"

section \<open>Initialising a buffer\<close>

definition init0 :: "region \<Rightarrow> (arena, region) prog" where
  "init0 rg = seqp (assertp (\<lambda>_. rg_handle rg \<ge> 0 \<and> rg_chunk rg \<noteq> 0)) (ret rg)"

definition initBufWithSubpage :: "nat \<Rightarrow> int \<Rightarrow> int \<Rightarrow> int \<Rightarrow> (arena, region) prog" where
  "initBufWithSubpage a handle bIdx reqCapacity =
     seqp (assertp (\<lambda>_. bIdx \<noteq> 0)) (bindp (deref a) (\<lambda>c.
     bindp (subpage_at c (memoryMapIdx handle)) (\<lambda>sp.
     if sp = 0 then undef else bindp (asks (\<lambda>s. subs s sp)) (\<lambda>s.
     seqp (assertp (\<lambda>_. doNotDestroy s)) (seqp (assertp (\<lambda>_. reqCapacity \<le> elementSize s))
       (init0 \<lparr>rg_chunk = a, rg_handle = handle,
          rg_offset = i32 (runOffset c (nat (memoryMapIdx handle))
                           + i32 ((bIdx AND 0x3FFFFFFF) * elementSize s) + offset c),
          rg_length = reqCapacity, rg_maxLength = elementSize s\<rparr>))))))"

definition initBuf :: "nat \<Rightarrow> int \<Rightarrow> int \<Rightarrow> (arena, region) prog" where
  "initBuf a handle reqCapacity =
     (if bitmapIdx handle = 0
      then bindp (deref a) (\<lambda>c. let n = nat (memoryMapIdx handle) in
        seqp (assertp (\<lambda>_. val c n = unusable c))
          (init0 \<lparr>rg_chunk = a, rg_handle = handle, rg_offset = i32 (runOffset c n + offset c),
                  rg_length = reqCapacity, rg_maxLength = runLength c n\<rparr>))
      else initBufWithSubpage a handle (bitmapIdx handle) reqCapacity)"

section \<open>Allocation in a chunk\<close>

definition allocateSubpage :: "nat \<Rightarrow> int \<Rightarrow> (arena, int) prog" where
  "allocateSubpage a normCapacity =
     bindp (findHead normCapacity) (\<lambda>head.
     bindp (deref a) (\<lambda>c0.
     bindp (on_chunk a (allocateNode (maxOrder c0))) (\<lambda>n.
     if n < 0 then ret n
     else seqp (on_chunk a (modify (\<lambda>c. c\<lparr>freeBytes := i32 (freeBytes c - pageSize c)\<rparr>)))
       (bindp (deref a) (\<lambda>c.
        bindp (subpage_at c n) (\<lambda>sp.
        if sp = 0
        then bindp (asks new_subpage) (\<lambda>sp.
               seqp (modify (new_subpage_update Suc))
               (seqp (bindp (asks bitmap_junk) (\<lambda>junk. on_subs
                   (PoolSubpage_new junk head a n (runOffset c (nat n)) (pageSize c) normCapacity sp)))
               (seqp (on_chunk a (modify (\<lambda>c. c\<lparr>subpages := (subpages c)[nat (subpageIdx c (nat n)) := sp]\<rparr>)))
                 (on_subs (sp_allocate sp)))))
        else seqp (on_subs (init_subpage head normCapacity sp)) (on_subs (sp_allocate sp))))))))"

definition chunk_allocate :: "nat \<Rightarrow> int \<Rightarrow> int \<Rightarrow> (arena, region option) prog" where
  "chunk_allocate a reqCapacity normCapacity =
     bindp (deref a) (\<lambda>c.
     bindp (if normCapacity \<ge> pageSize c then on_chunk a (allocateRun normCapacity)
            else allocateSubpage a normCapacity) (\<lambda>handle.
     if handle < 0 then ret None
     else bindp (initBuf a handle reqCapacity) (\<lambda>rg. ret (Some rg))))"

section \<open>Release in a chunk\<close>

text \<open>The part of \<open>free\<close> for an element; the result tells whether the page stays allocated.\<close>

definition free_element :: "nat \<Rightarrow> int \<Rightarrow> (arena, bool) prog" where
  "free_element a handle =
     bindp (deref a) (\<lambda>c.
     bindp (subpage_at c (memoryMapIdx handle)) (\<lambda>sp.
     bindp (asks (\<lambda>s. subs s sp)) (\<lambda>s.
     seqp (assertp (\<lambda>_. sp \<noteq> 0 \<and> doNotDestroy s))
       (bindp (findHead (elementSize s)) (\<lambda>head.
        on_subs (sp_free head (bitmapIdx handle AND 0x3FFFFFFF) sp))))))"

definition chunk_free :: "nat \<Rightarrow> int \<Rightarrow> (arena, unit) prog" where
  "chunk_free a handle =
     bindp (if bitmapIdx handle \<noteq> 0 then free_element a handle else ret False) (\<lambda>kept.
       if kept then ret () else on_chunk a (modify (free_run handle)))"

text \<open>\<open>delete chunk\<close> deletes the chunk's subpages too.\<close>

definition destroyChunk :: "nat \<Rightarrow> (arena, unit) prog" where
  "destroyChunk a = bindp (deref a) (\<lambda>c. modify (\<lambda>s. s\<lparr>
     chunks := (chunks s)(a := None),
     subs := (\<lambda>x. if x \<noteq> 0 \<and> x \<in> set (subpages c) then sp_blank else subs s x)\<rparr>))"

lemma nth_addr_Ok: "i < length xs \<Longrightarrow> nth_addr xs (int i) = Ok (xs ! i)"
  by (simp add: nth_addr_def)

lemma deref_run [prog_simps]: "chunks s a = Some c \<Longrightarrow> deref a s = (Ok c, s)"
  by (simp add: deref_def prog_simps)

lemma on_chunk_run [prog_simps]:
  "chunks s a = Some c \<Longrightarrow> m c = (r, c') \<Longrightarrow>
   on_chunk a m s = (r, s\<lparr>chunks := (chunks s)(a \<mapsto> c')\<rparr>)"
  by (simp add: on_chunk_def)

lemma on_subs_run [prog_simps]: "m (subs s) = (r, h) \<Longrightarrow> on_subs m s = (r, s\<lparr>subs := h\<rparr>)"
  by (simp add: on_subs_def zoom_run)

end
