(* ===== verification/ChunkList.thy ===== *)
theory ChunkList
  imports Pool
begin

text \<open>
  \<open>PoolChunkList\<close> (src/common/buffer/PoolChunkList.hpp and .cpp): a doubly linked list of the
  chunks whose usage lies in one band. Allocation walks the list; a chunk that leaves its band
  moves along the neighbouring lists.
\<close>

section \<open>Construction\<close>

definition calculateMaxCapacity :: "int \<Rightarrow> int \<Rightarrow> int" where
  "calculateMaxCapacity minU chunkSz =
     (let m = max 1 minU in if m = 100 then 0 else i32 ((chunkSz * (100 - m)) sdiv 100))"

definition PoolChunkList_new :: "nat \<Rightarrow> int \<Rightarrow> int \<Rightarrow> int \<Rightarrow> chunk_list" where
  "PoolChunkList_new next minU maxU chunkSz =
     \<lparr>nextList = next, prevList = 0, minUsage = minU, maxUsage = maxU,
      listCapacity = calculateMaxCapacity minU chunkSz, list_head = 0\<rparr>"

definition list_minUsage :: "chunk_list \<Rightarrow> int" where "list_minUsage L = max 1 (minUsage L)"
definition list_maxUsage :: "chunk_list \<Rightarrow> int" where "list_maxUsage L = min (maxUsage L) 100"

section \<open>Linking\<close>

abbreviation upd_chunk :: "nat \<Rightarrow> (chunk \<Rightarrow> chunk) \<Rightarrow> (arena, unit) prog" where
  "upd_chunk a f \<equiv> on_chunk a (modify f)"

definition set_head :: "nat \<Rightarrow> nat \<Rightarrow> (arena, unit) prog" where
  "set_head l a = modify (\<lambda>s. s\<lparr>lists := (lists s)(l := (lists s l)\<lparr>list_head := a\<rparr>)\<rparr>)"

definition list_remove :: "nat \<Rightarrow> nat \<Rightarrow> (arena, unit) prog" where
  "list_remove l a =
     bindp (deref a) (\<lambda>cur.
     bindp (asks (\<lambda>s. list_head (lists s l))) (\<lambda>hd.
     if a = hd
     then seqp (set_head l (ck_next cur))
            (if ck_next cur \<noteq> 0 then upd_chunk (ck_next cur) (ck_prev_update (\<lambda>_. 0)) else ret ())
     else seqp (upd_chunk (ck_prev cur) (ck_next_update (\<lambda>_. ck_next cur)))
            (if ck_next cur \<noteq> 0
             then upd_chunk (ck_next cur) (ck_prev_update (\<lambda>_. ck_prev cur)) else ret ())))"

definition add0 :: "nat \<Rightarrow> nat \<Rightarrow> (arena, unit) prog" where
  "add0 l a = seqp (upd_chunk a (ck_parent_update (\<lambda>_. l)))
     (bindp (asks (\<lambda>s. list_head (lists s l))) (\<lambda>hd.
      if hd = 0
      then doM [set_head l a, upd_chunk a (\<lambda>c. c\<lparr>ck_prev := 0, ck_next := 0\<rparr>)]
      else doM [upd_chunk a (\<lambda>c. c\<lparr>ck_prev := 0, ck_next := hd\<rparr>),
                upd_chunk hd (ck_prev_update (\<lambda>_. a)), set_head l a]))"

section \<open>Moving between lists\<close>

text \<open>
  \<open>add\<close> calls itself on the next list and \<open>move\<close> (with \<open>move0\<close>) on the previous one; the first
  argument bounds the depth of these calls, and running out of it stands for calls that never end.
\<close>

fun list_add :: "nat \<Rightarrow> nat \<Rightarrow> nat \<Rightarrow> (arena, unit) prog" where
  "list_add 0 l a = hang"
| "list_add (Suc k) l a =
     bindp (deref a) (\<lambda>c. bindp (asks (\<lambda>s. lists s l)) (\<lambda>L.
       if usage c \<ge> maxUsage L then (if nextList L = 0 then undef else list_add k (nextList L) a)
       else add0 l a))"

fun move0 :: "nat \<Rightarrow> nat \<Rightarrow> nat \<Rightarrow> (arena, bool) prog" where
  "move0 0 l a = hang"
| "move0 (Suc k) l a =
     bindp (asks (\<lambda>s. lists s l)) (\<lambda>L.
       if prevList L = 0
       then bindp (deref a) (\<lambda>c. seqp (assertp (\<lambda>_. usage c = 0)) (ret False))
       else bindp (deref a) (\<lambda>c. bindp (asks (\<lambda>s. lists s (prevList L))) (\<lambda>P.
         seqp (assertp (\<lambda>_. usage c < maxUsage P))
           (if usage c < minUsage P then move0 k (prevList L) a
            else seqp (add0 (prevList L) a) (ret True)))))"

definition numLists :: nat where "numLists = 6"

definition list_free :: "nat \<Rightarrow> nat \<Rightarrow> int \<Rightarrow> (arena, bool) prog" where
  "list_free l a handle = seqp (chunk_free a handle)
     (bindp (deref a) (\<lambda>c. bindp (asks (\<lambda>s. lists s l)) (\<lambda>L.
        if usage c < minUsage L then seqp (list_remove l a) (move0 (Suc numLists) l a) else ret True)))"

section \<open>Allocation\<close>

text \<open>
  The walk from \<open>cur\<close>: its bound is the number of chunks ever created, which no walk along
  distinct chunks exceeds.
\<close>

fun allocate_walk :: "nat \<Rightarrow> nat \<Rightarrow> nat \<Rightarrow> int \<Rightarrow> int \<Rightarrow> (arena, region option) prog" where
  "allocate_walk 0 l cur req norm = (if cur = 0 then ret None else hang)"
| "allocate_walk (Suc k) l cur req norm =
     (if cur = 0 then ret None
      else bindp (chunk_allocate cur req norm) (\<lambda>r.
        case r of
          Some rg \<Rightarrow> bindp (deref cur) (\<lambda>c. bindp (asks (\<lambda>s. lists s l)) (\<lambda>L.
            seqp (if usage c \<ge> maxUsage L
                  then seqp (list_remove l cur)
                         (if nextList L = 0 then undef else list_add (Suc numLists) (nextList L) cur)
                  else ret ())
              (ret (Some rg))))
        | None \<Rightarrow> bindp (deref cur) (\<lambda>c. allocate_walk k l (ck_next c) req norm)))"

definition list_allocate :: "nat \<Rightarrow> int \<Rightarrow> int \<Rightarrow> (arena, region option) prog" where
  "list_allocate l req norm =
     bindp (asks (\<lambda>s. lists s l)) (\<lambda>L.
       if norm > listCapacity L then ret None
       else bindp (asks new_chunk) (\<lambda>n. allocate_walk n l (list_head L) req norm))"

end
