(* ===== verification/Arena.thy ===== *)
theory Arena
  imports ChunkList
begin

text \<open>
  \<open>PoolArena\<close> (src/common/buffer/PoolArena.hpp and .cpp): size classes are served from the
  subpage pools, runs from the chunk lists, larger requests from chunks of their own. The
  calls of the thread cache are compiled out (\<open>#if 0\<close>) and not part of the operations.
\<close>

section \<open>Construction\<close>

text \<open>The lists, by their addresses.\<close>

definition q100 :: nat where "q100 = 1"
definition q075 :: nat where "q075 = 2"
definition q050 :: nat where "q050 = 3"
definition q025 :: nat where "q025 = 4"
definition q000 :: nat where "q000 = 5"
definition qInit :: nat where "qInit = 6"

definition arena_lists :: "int \<Rightarrow> nat \<Rightarrow> chunk_list" where
  "arena_lists chunkSz = (\<lambda>_. PoolChunkList_new 0 0 0 chunkSz)
     (q100 := (PoolChunkList_new 0 100 INT_MAX chunkSz)\<lparr>prevList := q075\<rparr>,
      q075 := (PoolChunkList_new q100 75 100 chunkSz)\<lparr>prevList := q050\<rparr>,
      q050 := (PoolChunkList_new q075 50 100 chunkSz)\<lparr>prevList := q025\<rparr>,
      q025 := (PoolChunkList_new q050 25 75 chunkSz)\<lparr>prevList := q000\<rparr>,
      q000 := (PoolChunkList_new q025 1 50 chunkSz)\<lparr>prevList := 0\<rparr>,
      qInit := (PoolChunkList_new q000 INT_MIN 25 chunkSz)\<lparr>prevList := qInit\<rparr>)"

text \<open>The heads of the pools are the first subpage objects the arena creates.\<close>

definition PoolArena_new ::
  "(nat \<Rightarrow> i64bits) \<Rightarrow> int \<Rightarrow> int \<Rightarrow> int \<Rightarrow> int \<Rightarrow> arena" where
  "PoolArena_new junk pageSz maxOrd shifts chunkSz =
     (let tiny = [1..<Suc (nat numTinySubpagePools)];
          first = Suc (nat numTinySubpagePools);
          last = first + nat (numSmallSubpagePools shifts);
          small = [first..<last]
      in \<lparr>ar_maxOrder = maxOrd, ar_pageSize = pageSz, ar_pageShifts = shifts, ar_chunkSize = chunkSz,
          tinySubpagePools = tiny, smallSubpagePools = small, lists = arena_lists chunkSz,
          chunks = Map.empty,
          subs = foldr (\<lambda>a. PoolSubpage_head pageSz a) (tiny @ small) (\<lambda>_. sp_blank),
          new_chunk = 1, new_subpage = last, bitmap_junk = junk\<rparr>)"

section \<open>Allocation\<close>

definition newChunk :: "(arena, nat) prog" where
  "newChunk = bindp (asks new_chunk) (\<lambda>a.
     seqp (modify (\<lambda>s. s\<lparr>new_chunk := Suc a,
             chunks := (chunks s)(a \<mapsto> PoolChunk_new (ar_chunkSize s) (ar_pageSize s)
                                          (ar_pageShifts s) (ar_maxOrder s) 0)\<rparr>))
       (ret a))"

definition newUnpooledChunk :: "int \<Rightarrow> (arena, nat) prog" where
  "newUnpooledChunk capacity =
     (if capacity < 0 then raise BadAlloc
      else bindp (asks new_chunk) (\<lambda>a.
        seqp (modify (\<lambda>s. s\<lparr>new_chunk := Suc a,
                chunks := (chunks s)(a \<mapsto> PoolChunk_new_unpooled capacity 0)\<rparr>)) (ret a)))"

definition allocateHuge :: "int \<Rightarrow> (arena, region) prog" where
  "allocateHuge req = bindp (newUnpooledChunk req) (\<lambda>a. bindp (deref a) (\<lambda>c.
     init0 \<lparr>rg_chunk = a, rg_handle = 0, rg_offset = offset c, rg_length = req, rg_maxLength = req\<rparr>))"

text \<open>The lists are tried in this order; \<open>||\<close> stops at the first that serves.\<close>

fun try_lists :: "nat list \<Rightarrow> int \<Rightarrow> int \<Rightarrow> (arena, region option) prog" where
  "try_lists [] req norm = ret None"
| "try_lists (l # ls) req norm = bindp (list_allocate l req norm) (\<lambda>r.
     case r of Some rg \<Rightarrow> ret (Some rg) | None \<Rightarrow> try_lists ls req norm)"

definition allocateNormal :: "int \<Rightarrow> int \<Rightarrow> (arena, region) prog" where
  "allocateNormal req norm =
     bindp (try_lists [q050, q025, q000, qInit, q075] req norm) (\<lambda>r.
     case r of
       Some rg \<Rightarrow> ret rg
     | None \<Rightarrow> bindp newChunk (\<lambda>a. bindp (chunk_allocate a req norm) (\<lambda>r.
         case r of
           None \<Rightarrow> undef
         | Some rg \<Rightarrow> seqp (list_add (Suc numLists) qInit a) (ret rg))))"

text \<open>The table entry of a tiny or small size class.\<close>

definition pool_entry :: "int \<Rightarrow> (arena, nat) prog" where
  "pool_entry norm = lift_outcome (\<lambda>s.
     if isTiny norm then nth_addr (tinySubpagePools s) (tinyIdx norm)
     else (case smallIdx norm of Some i \<Rightarrow> nth_addr (smallSubpagePools s) i | None \<Rightarrow> Hang))"

definition arena_allocate :: "int \<Rightarrow> (arena, region) prog" where
  "arena_allocate req =
     bindp (asks (\<lambda>s. normalizeCapacity (ar_chunkSize s) req)) (\<lambda>norm.
     ifp (\<lambda>s. isTinyOrSmall (ar_pageSize s) norm)
       (bindp (pool_entry norm) (\<lambda>head.
        bindp (asks (\<lambda>s. sp_next (subs s head))) (\<lambda>sp.
        if sp \<noteq> head
        then bindp (asks (\<lambda>s. subs s sp)) (\<lambda>s.
          seqp (assertp (\<lambda>_. doNotDestroy s \<and> elementSize s = norm))
            (bindp (on_subs (sp_allocate sp)) (\<lambda>handle.
             seqp (assertp (\<lambda>_. handle \<ge> 0))
               (initBufWithSubpage (sp_chunk s) handle (bitmapIdx handle) req))))
        else allocateNormal req norm)))
       (ifp (\<lambda>s. norm \<le> ar_chunkSize s) (allocateNormal req norm) (allocateHuge req)))"

section \<open>Release\<close>

definition freeChunk :: "nat \<Rightarrow> int \<Rightarrow> (arena, unit) prog" where
  "freeChunk a handle = bindp (deref a) (\<lambda>c.
     if ck_parent c = 0 then undef
     else bindp (list_free (ck_parent c) a handle) (\<lambda>kept. if kept then ret () else destroyChunk a))"

definition arena_free :: "nat \<Rightarrow> int \<Rightarrow> (arena, unit) prog" where
  "arena_free a handle = bindp (deref a) (\<lambda>c. if unpooled c then destroyChunk a else freeChunk a handle)"

end
