(* ===== verification/HeapUtil.thy ===== *)
theory HeapUtil
  imports Prelude
begin

text \<open>
  \<open>HeapCharBufUtil\<close> (src/common/buffer/HeapCharBufUtil.hpp): the big-endian codecs that every
  buffer class uses to store integers into a \<open>char\<close> array and to load them back. An index
  outside the array is undefined behaviour. The signed and the unsigned overload of a width
  have the same bits and share one definition.
\<close>

section \<open>Byte encodings\<close>

definition enc16 :: "i16bits \<Rightarrow> byte list" where
  "enc16 v = [ucast (drop_bit 8 v AND 0xff), ucast (v AND 0xff)]"

definition enc32 :: "i32bits \<Rightarrow> byte list" where
  "enc32 v = [ucast (drop_bit 24 v AND 0xff), ucast (drop_bit 16 v AND 0xff),
              ucast (drop_bit 8 v AND 0xff), ucast (v AND 0xff)]"

definition enc64 :: "i64bits \<Rightarrow> byte list" where
  "enc64 v = [ucast (drop_bit 56 v AND 0xff), ucast (drop_bit 48 v AND 0xff),
              ucast (drop_bit 40 v AND 0xff), ucast (drop_bit 32 v AND 0xff),
              ucast (drop_bit 24 v AND 0xff), ucast (drop_bit 16 v AND 0xff),
              ucast (drop_bit 8 v AND 0xff), ucast (v AND 0xff)]"

text \<open>
  A \<open>char\<close> is signed: it is sign-extended to \<open>int\<close> (\<open>int64_t\<close>) and masked. The loads index the
  bytes one by one.
\<close>

definition dec16 :: "byte list \<Rightarrow> i16bits" where
  "dec16 m = ucast (push_bit 8 ((scast (m ! 0) :: i32bits) AND 0xff) OR
                    ((scast (m ! 1) :: i32bits) AND 0xff))"

definition dec32 :: "byte list \<Rightarrow> i32bits" where
  "dec32 m = push_bit 24 (scast (m ! 0) AND 0xff) OR push_bit 16 (scast (m ! 1) AND 0xff) OR
             push_bit 8 (scast (m ! 2) AND 0xff) OR (scast (m ! 3) AND 0xff)"

definition dec64 :: "byte list \<Rightarrow> i64bits" where
  "dec64 m = push_bit 56 (scast (m ! 0) AND 0xff) OR push_bit 48 (scast (m ! 1) AND 0xff) OR
             push_bit 40 (scast (m ! 2) AND 0xff) OR push_bit 32 (scast (m ! 3) AND 0xff) OR
             push_bit 24 (scast (m ! 4) AND 0xff) OR push_bit 16 (scast (m ! 5) AND 0xff) OR
             push_bit 8 (scast (m ! 6) AND 0xff) OR (scast (m ! 7) AND 0xff)"

section \<open>Stores and loads\<close>

definition setChar :: "byte list \<Rightarrow> int \<Rightarrow> byte \<Rightarrow> byte list outcome" where
  "setChar memory index value = poke memory index [value]"

definition setChars :: "byte list \<Rightarrow> int \<Rightarrow> byte list \<Rightarrow> byte list outcome" where
  "setChars memory index src = poke memory index src"

definition setShort :: "byte list \<Rightarrow> int \<Rightarrow> i16bits \<Rightarrow> byte list outcome" where
  "setShort memory index value = poke memory index (enc16 value)"

definition setInt :: "byte list \<Rightarrow> int \<Rightarrow> i32bits \<Rightarrow> byte list outcome" where
  "setInt memory index value = poke memory index (enc32 value)"

definition setLong :: "byte list \<Rightarrow> int \<Rightarrow> i64bits \<Rightarrow> byte list outcome" where
  "setLong memory index value = poke memory index (enc64 value)"

definition getChar :: "byte list \<Rightarrow> int \<Rightarrow> byte outcome" where
  "getChar memory index = map_ok (\<lambda>m. m ! 0) (peek memory index 1)"

definition getShort :: "byte list \<Rightarrow> int \<Rightarrow> i16bits outcome" where
  "getShort memory index = map_ok dec16 (peek memory index 2)"

definition getInt :: "byte list \<Rightarrow> int \<Rightarrow> i32bits outcome" where
  "getInt memory index = map_ok dec32 (peek memory index 4)"

definition getLong :: "byte list \<Rightarrow> int \<Rightarrow> i64bits outcome" where
  "getLong memory index = map_ok dec64 (peek memory index 8)"

definition getString :: "byte list \<Rightarrow> int \<Rightarrow> int \<Rightarrow> byte list outcome" where
  "getString memory index len = peek memory index len"

text \<open>\<open>getChars\<close> copies out of one array into another; the result is the destination.\<close>

fun getChars :: "byte list \<Rightarrow> int \<Rightarrow> byte list \<Rightarrow> int \<Rightarrow> int \<Rightarrow> byte list outcome" where
  "getChars memory index dst dstIndex len =
     (case peek memory index len of
        Ok bs \<Rightarrow> poke dst dstIndex bs
      | Throw e \<Rightarrow> Throw e | Hang \<Rightarrow> Hang | Undef \<Rightarrow> Undef)"

text \<open>
  The same call when source and destination are one array: \<open>memcpy\<close> is undefined when the two
  ranges overlap.
\<close>

definition copy_within :: "byte list \<Rightarrow> int \<Rightarrow> int \<Rightarrow> int \<Rightarrow> byte list outcome" where
  "copy_within memory index dstIndex len =
     (if 0 < len \<and> index < dstIndex + len \<and> dstIndex < index + len then Undef
      else getChars memory index memory dstIndex len)"

section \<open>Round trips\<close>

lemma length_enc [simp]: "length (enc16 a) = 2" "length (enc32 b) = 4" "length (enc64 c) = 8"
  by (simp_all add: enc16_def enc32_def enc64_def)

lemma byte_mask: "(0xff :: 'a::len word) = mask 8"
  by (simp add: mask_numeral)

lemma low_byte: "(ucast (v AND 0xff) :: byte) = ucast v"
  by (rule bit_word_eqI) (auto simp: byte_mask bit_simps bit_unsigned_iff dest: bit_imp_le_length)

lemma min7: "min 7 n = (if n < 8 then n else 7)" for n :: nat
  by auto

lemma char_byte:
  assumes "8 \<le> LENGTH('a::len)"
  shows "((scast (c :: byte) :: 'a word) AND 0xff) = ucast c"
  by (rule bit_word_eqI)
    (use assms in \<open>auto simp: byte_mask bit_simps bit_signed_iff bit_unsigned_iff min7
       dest: bit_imp_le_length\<close>)

text \<open>One byte of a word, put back at its place, has the bits of the word there.\<close>

lemma byte_slot:
  fixes v :: "'a::len word"
  shows "bit (push_bit k (ucast (ucast (drop_bit k v) :: byte) :: 'a word)) n \<longleftrightarrow>
    k \<le> n \<and> n < k + 8 \<and> bit v n"
  by (auto simp: bit_simps bit_unsigned_iff dest: bit_imp_le_length)

lemma byte_slot_0:
  fixes v :: "'a::len word"
  shows "bit (ucast (ucast v :: byte) :: 'a word) n \<longleftrightarrow> n < 8 \<and> bit v n"
  using byte_slot [of 0 v n] by simp

lemma dec32_enc32 [simp]: "dec32 (enc32 v) = v"
  by (rule bit_word_eqI)
    (auto simp: dec32_def enc32_def low_byte char_byte bit_or_iff byte_slot byte_slot_0)

lemma dec64_enc64 [simp]: "dec64 (enc64 v) = v"
  by (rule bit_word_eqI)
    (auto simp: dec64_def enc64_def low_byte char_byte bit_or_iff byte_slot byte_slot_0)

lemma dec16_ucast:
  "dec16 m = push_bit 8 (ucast (m ! 0)) OR ucast (m ! 1)"
  by (rule bit_word_eqI) (auto simp: dec16_def char_byte bit_simps bit_unsigned_iff)

lemma dec16_enc16 [simp]: "dec16 (enc16 v) = v"
  by (rule bit_word_eqI)
    (auto simp: dec16_ucast enc16_def low_byte bit_or_iff byte_slot byte_slot_0)

text \<open>Decoding is injective as well: the bytes are the encoding of what they decode to.\<close>

lemma byte_at:
  "bit (push_bit k (ucast (c :: byte)) :: 'a::len word) n \<longleftrightarrow>
   n < LENGTH('a) \<and> k \<le> n \<and> n < k + 8 \<and> bit c (n - k)"
  by (auto simp: bit_simps bit_unsigned_iff dest: bit_imp_le_length)

lemma byte_at_0: "bit (ucast (c :: byte) :: 'a::len word) n \<longleftrightarrow> n < LENGTH('a) \<and> n < 8 \<and> bit c n"
  using byte_at [of 0 c n] by simp

lemma high_bit: "8 \<le> k \<Longrightarrow> \<not> bit (c :: byte) k"
  by (auto dest: bit_imp_le_length)

lemma enc16_dec16: "length m = 2 \<Longrightarrow> enc16 (dec16 m) = m"
proof -
  assume "length m = 2"
  then obtain a b where m: "m = [a, b]" by (auto simp: numeral_2_eq_2 length_Suc_conv)
  show ?thesis
    by (auto simp: m enc16_def dec16_ucast low_byte bit_or_iff bit_drop_bit_eq bit_unsigned_iff
        byte_at byte_at_0 high_bit intro!: bit_word_eqI)
qed

lemma enc32_dec32: "length m = 4 \<Longrightarrow> enc32 (dec32 m) = m"
proof -
  assume "length m = 4"
  then obtain a b c d where m: "m = [a, b, c, d]" by (auto simp: eval_nat_numeral length_Suc_conv)
  show ?thesis
    by (auto simp: m enc32_def dec32_def low_byte char_byte bit_or_iff bit_drop_bit_eq bit_unsigned_iff
        byte_at byte_at_0 high_bit intro!: bit_word_eqI)
qed

end
