(* ===== verification/CharBuf.thy ===== *)
theory CharBuf
  imports SizeMath HeapUtil "HOL-Library.While_Combinator"
begin

text \<open>
  \<open>AbstractCharBuf\<close> (src/common/buffer/AbstractCharBuf.hpp and .cpp): the reader and writer
  index, the bounds checks, growth, and every relative and absolute access of the
  \<open>CharBuf\<close> interface, written over a record of the virtual methods that the concrete
  classes implement. The locale \<open>char_buf\<close> states what those methods promise; inside it the
  buffer is shown to be a queue of bytes.
\<close>

section \<open>State and virtual methods\<close>

record indices =
  readerIdx :: int
  writerIdx :: int
  markedReaderIdx :: int
  markedWriterIdx :: int
  maxCap :: int

definition AbstractCharBuf_init :: "int \<Rightarrow> indices" where
  "AbstractCharBuf_init n =
     \<lparr>readerIdx = 0, writerIdx = 0, markedReaderIdx = 0, markedWriterIdx = 0,
      maxCap = n\<rparr>"

text \<open>
  The virtual methods of a buffer class with object state \<open>'s\<close>. The fields \<open>p_\<dots>\<close> are the
  protected \<open>_setX\<close> and \<open>_getX\<close>, the fields \<open>v_\<dots>\<close> the public ones. \<open>getChars\<close> is a \<open>const\<close>
  method: it takes the destination array and returns it updated. \<open>setChars\<close> from another
  buffer gets that buffer's \<open>getChars\<close>; \<open>v_setCharsSelf\<close> is the same method called with the
  buffer itself as the source, where both ranges lie in one array.
\<close>

type_synonym getter = "int \<Rightarrow> byte list \<Rightarrow> int \<Rightarrow> int \<Rightarrow> byte list outcome"

record 's vtable =
  base :: "'s \<Rightarrow> indices"
  set_base :: "indices \<Rightarrow> 's \<Rightarrow> 's"
  v_capacity :: "'s \<Rightarrow> int"
  v_set_capacity :: "int \<Rightarrow> ('s, unit) prog"
  v_setChars :: "int \<Rightarrow> byte list \<Rightarrow> int \<Rightarrow> int \<Rightarrow> ('s, unit) prog"
  v_setCharsBuf :: "int \<Rightarrow> getter \<Rightarrow> int \<Rightarrow> int \<Rightarrow> ('s, unit) prog"
  v_setCharsSelf :: "int \<Rightarrow> int \<Rightarrow> int \<Rightarrow> ('s, unit) prog"
  v_getChars :: "'s \<Rightarrow> getter"
  p_setChar :: "int \<Rightarrow> byte \<Rightarrow> ('s, unit) prog"
  p_setShort :: "int \<Rightarrow> i16bits \<Rightarrow> ('s, unit) prog"
  p_setInt :: "int \<Rightarrow> i32bits \<Rightarrow> ('s, unit) prog"
  p_setLong :: "int \<Rightarrow> i64bits \<Rightarrow> ('s, unit) prog"
  p_setChars :: "int \<Rightarrow> byte list \<Rightarrow> ('s, unit) prog"
  p_getChar :: "int \<Rightarrow> ('s, byte) prog"
  p_getShort :: "int \<Rightarrow> ('s, i16bits) prog"
  p_getInt :: "int \<Rightarrow> ('s, i32bits) prog"
  p_getLong :: "int \<Rightarrow> ('s, i64bits) prog"
  p_getString :: "int \<Rightarrow> int \<Rightarrow> ('s, byte list) prog"

definition upd_base :: "'s vtable \<Rightarrow> (indices \<Rightarrow> indices) \<Rightarrow> 's \<Rightarrow> 's" where
  "upd_base B f s = set_base B (f (base B s)) s"

section \<open>Checks\<close>

definition checkIndexBounds :: "int \<Rightarrow> int \<Rightarrow> int \<Rightarrow> unit outcome" where
  "checkIndexBounds readerIndex writerIndex capacity =
     (if readerIndex < 0 \<or> readerIndex > writerIndex \<or> writerIndex > capacity
      then Throw (RuntimeError ''checkIndexBounds failed'') else Ok ())"

definition checkRangeBounds :: "int \<Rightarrow> int \<Rightarrow> int \<Rightarrow> unit outcome" where
  "checkRangeBounds index fieldLength capacity =
     (if (index OR fieldLength OR i32 (index + fieldLength) OR
          i32 (capacity - i32 (index + fieldLength))) < 0
      then Throw (RuntimeError ''checkRangeBounds failed'') else Ok ())"

definition checkIndex :: "'s vtable \<Rightarrow> int \<Rightarrow> int \<Rightarrow> ('s, unit) prog" where
  "checkIndex B index fieldLength =
     lift_outcome (\<lambda>s. checkRangeBounds index fieldLength (v_capacity B s))"

definition checkReadable :: "'s vtable \<Rightarrow> int \<Rightarrow> ('s, unit) prog" where
  "checkReadable B minimumReadableBytes =
     throw_if (\<lambda>s. i32 (readerIdx (base B s) + minimumReadableBytes) > writerIdx (base B s))
       (RuntimeError ''readerIndex + length exceeds writerIndex'')"

section \<open>Indices\<close>

definition maxCapacity :: "'s vtable \<Rightarrow> 's \<Rightarrow> int" where
  "maxCapacity B s = maxCap (base B s)"

definition set_maxCapacity :: "'s vtable \<Rightarrow> int \<Rightarrow> ('s, unit) prog" where
  "set_maxCapacity B n = modify (upd_base B (maxCap_update (\<lambda>_. n)))"

definition readerIndex :: "'s vtable \<Rightarrow> 's \<Rightarrow> int" where
  "readerIndex B s = readerIdx (base B s)"

definition writerIndex :: "'s vtable \<Rightarrow> 's \<Rightarrow> int" where
  "writerIndex B s = writerIdx (base B s)"

definition isReadable :: "'s vtable \<Rightarrow> 's \<Rightarrow> bool" where
  "isReadable B s \<longleftrightarrow> writerIdx (base B s) > readerIdx (base B s)"

definition isWritable :: "'s vtable \<Rightarrow> 's \<Rightarrow> bool" where
  "isWritable B s \<longleftrightarrow> v_capacity B s > writerIdx (base B s)"

definition readableBytes :: "'s vtable \<Rightarrow> 's \<Rightarrow> int" where
  "readableBytes B s = i32 (writerIndex B s - readerIndex B s)"

definition writableBytes :: "'s vtable \<Rightarrow> 's \<Rightarrow> int" where
  "writableBytes B s = i32 (v_capacity B s - writerIndex B s)"

definition set_readerIndex :: "'s vtable \<Rightarrow> int \<Rightarrow> ('s, unit) prog" where
  "set_readerIndex B index = doM
     [lift_outcome (\<lambda>s. checkIndexBounds index (writerIdx (base B s)) (maxCapacity B s)),
      modify (upd_base B (readerIdx_update (\<lambda>_. index)))]"

definition set_writerIndex :: "'s vtable \<Rightarrow> int \<Rightarrow> ('s, unit) prog" where
  "set_writerIndex B index = doM
     [lift_outcome (\<lambda>s. checkIndexBounds (readerIdx (base B s)) index (maxCapacity B s)),
      modify (upd_base B (writerIdx_update (\<lambda>_. index)))]"

definition setIndex0 :: "'s vtable \<Rightarrow> int \<Rightarrow> int \<Rightarrow> ('s, unit) prog" where
  "setIndex0 B r w = modify (upd_base B (\<lambda>i. i\<lparr>readerIdx := r, writerIdx := w\<rparr>))"

definition markReaderIndex :: "'s vtable \<Rightarrow> ('s, unit) prog" where
  "markReaderIndex B = modify (upd_base B (\<lambda>i. i\<lparr>markedReaderIdx := readerIdx i\<rparr>))"

definition resetReaderIndex :: "'s vtable \<Rightarrow> ('s, unit) prog" where
  "resetReaderIndex B = bindp (asks (\<lambda>s. markedReaderIdx (base B s))) (set_readerIndex B)"

definition markWriterIndex :: "'s vtable \<Rightarrow> ('s, unit) prog" where
  "markWriterIndex B = modify (upd_base B (\<lambda>i. i\<lparr>markedWriterIdx := writerIdx i\<rparr>))"

definition resetWriterIndex :: "'s vtable \<Rightarrow> ('s, unit) prog" where
  "resetWriterIndex B = bindp (asks (\<lambda>s. markedWriterIdx (base B s))) (set_writerIndex B)"

definition advance_reader :: "'s vtable \<Rightarrow> int \<Rightarrow> ('s, unit) prog" where
  "advance_reader B n =
     modify (upd_base B (\<lambda>i. i\<lparr>readerIdx := i32 (readerIdx i + n)\<rparr>))"

definition advance_writer :: "'s vtable \<Rightarrow> int \<Rightarrow> ('s, unit) prog" where
  "advance_writer B n =
     modify (upd_base B (\<lambda>i. i\<lparr>writerIdx := i32 (writerIdx i + n)\<rparr>))"

section \<open>Growth\<close>

text \<open>
  \<open>calculateNewCapacity\<close> doubles an \<open>int\<close> until it is large enough; the first argument is
  \<open>capacity()\<close>. The loop ends, or it does not and the call hangs.
\<close>

definition grow_loop :: "int \<Rightarrow> int \<Rightarrow> int option" where
  "grow_loop minNewCapacity newCapacity =
     while_option (\<lambda>c. c < minNewCapacity) (\<lambda>c. i32 (push_bit 1 c)) newCapacity"

definition calculateNewCapacity :: "int \<Rightarrow> int \<Rightarrow> int \<Rightarrow> int outcome" where
  "calculateNewCapacity capacity minNewCapacity maxC =
     (if minNewCapacity > maxC
      then Throw (RuntimeError ''minNewCapacity expected: not greater than maxCapacity'')
      else (case grow_loop minNewCapacity (i32 (uint (roundUpPower2 (word_of_int capacity)))) of
              None \<Rightarrow> Hang
            | Some newCapacity \<Rightarrow> Ok (min newCapacity maxC)))"

definition ensureWritable :: "'s vtable \<Rightarrow> int \<Rightarrow> ('s, unit) prog" where
  "ensureWritable B minWritableBytes =
     ifp (\<lambda>s. minWritableBytes > writableBytes B s)
       (ifp (\<lambda>s. minWritableBytes > i32 (maxCapacity B s - writerIndex B s))
          (raise (RuntimeError ''writerIndex exceeds maxCapacity''))
          (bindp (lift_outcome (\<lambda>s. calculateNewCapacity (v_capacity B s)
                    (i32 (writerIndex B s + minWritableBytes)) (maxCapacity B s)))
             (v_set_capacity B)))
       (ret ())"

section \<open>Relative writes\<close>

definition writeChar :: "'s vtable \<Rightarrow> byte \<Rightarrow> ('s, unit) prog" where
  "writeChar B v = seqp (ensureWritable B 1)
     (bindp (asks (writerIndex B)) (\<lambda>w. seqp (advance_writer B 1) (p_setChar B w v)))"

definition writeBool :: "'s vtable \<Rightarrow> bool \<Rightarrow> ('s, unit) prog" where
  "writeBool B v = writeChar B (if v then 1 else 0)"

text \<open>\<open>src\<close> is the array the pointer addresses; \<open>length\<close> bytes of it are read.\<close>

definition writeChars :: "'s vtable \<Rightarrow> byte list \<Rightarrow> int \<Rightarrow> ('s, unit) prog" where
  "writeChars B src len = doM
     [ensureWritable B len,
      bindp (asks (writerIndex B)) (\<lambda>w.
        bindp (lift_outcome (\<lambda>_. peek src 0 len)) (p_setChars B w)),
      advance_writer B len]"

definition writeShort :: "'s vtable \<Rightarrow> i16bits \<Rightarrow> ('s, unit) prog" where
  "writeShort B v = doM
     [ensureWritable B 2, bindp (asks (writerIndex B)) (\<lambda>w. p_setShort B w v), advance_writer B 2]"

definition writeInt :: "'s vtable \<Rightarrow> i32bits \<Rightarrow> ('s, unit) prog" where
  "writeInt B v = doM
     [ensureWritable B 4, bindp (asks (writerIndex B)) (\<lambda>w. p_setInt B w v), advance_writer B 4]"

definition writeLong :: "'s vtable \<Rightarrow> i64bits \<Rightarrow> ('s, unit) prog" where
  "writeLong B v = doM
     [ensureWritable B 8, bindp (asks (writerIndex B)) (\<lambda>w. p_setLong B w v), advance_writer B 8]"

definition writeFloat :: "'s vtable \<Rightarrow> i32bits \<Rightarrow> ('s, unit) prog" where
  "writeFloat B bits = writeInt B bits"

definition writeDouble :: "'s vtable \<Rightarrow> i64bits \<Rightarrow> ('s, unit) prog" where
  "writeDouble B bits = writeLong B bits"

definition writeString :: "'s vtable \<Rightarrow> byte list \<Rightarrow> ('s, unit) prog" where
  "writeString B value = writeChars B value (i32 (int (length value)))"

text \<open>Writing from another buffer: the state is the pair of this buffer and the source.\<close>

definition fst_prog :: "('s, 'a) prog \<Rightarrow> ('s \<times> 't, 'a) prog" where
  "fst_prog = zoom fst (\<lambda>s p. (s, snd p))"

definition snd_prog :: "('t, 'a) prog \<Rightarrow> ('s \<times> 't, 'a) prog" where
  "snd_prog = zoom snd (\<lambda>t p. (fst p, t))"

definition checkReadableBounds :: "'t vtable \<Rightarrow> int \<Rightarrow> ('t, unit) prog" where
  "checkReadableBounds C len =
     throw_if (\<lambda>t. len > readableBytes C t) (RuntimeError ''length exceeds src.readableBytes'')"

definition writeCharsBuf3 :: "'s vtable \<Rightarrow> 't vtable \<Rightarrow> int \<Rightarrow> int \<Rightarrow> ('s \<times> 't, unit) prog" where
  "writeCharsBuf3 B C srcIndex len = doM
     [fst_prog (ensureWritable B len),
      bindp (asks (\<lambda>(s, t). (writerIndex B s, v_getChars C t))) (\<lambda>(w, getter).
        fst_prog (v_setCharsBuf B w getter srcIndex len)),
      fst_prog (advance_writer B len)]"

definition writeCharsBuf2 :: "'s vtable \<Rightarrow> 't vtable \<Rightarrow> int \<Rightarrow> ('s \<times> 't, unit) prog" where
  "writeCharsBuf2 B C len = doM
     [snd_prog (checkReadableBounds C len),
      bindp (asks (\<lambda>(s, t). readerIndex C t)) (\<lambda>r. writeCharsBuf3 B C r len),
      bindp (asks (\<lambda>(s, t). readerIndex C t)) (\<lambda>r. snd_prog (set_readerIndex C (i32 (r + len))))]"

definition writeCharsBuf :: "'s vtable \<Rightarrow> 't vtable \<Rightarrow> ('s \<times> 't, unit) prog" where
  "writeCharsBuf B C = bindp (asks (\<lambda>(s, t). readableBytes C t)) (writeCharsBuf2 B C)"

section \<open>Relative reads\<close>

definition readChar :: "'s vtable \<Rightarrow> ('s, byte) prog" where
  "readChar B = seqp (checkReadable B 1)
     (bindp (asks (readerIndex B)) (\<lambda>r.
        bindp (p_getChar B r) (\<lambda>c. seqp (advance_reader B 1) (ret c))))"

definition readBool :: "'s vtable \<Rightarrow> ('s, bool) prog" where
  "readBool B = bindp (readChar B) (\<lambda>c. ret (c \<noteq> 0))"

definition readChars :: "'s vtable \<Rightarrow> byte list \<Rightarrow> int \<Rightarrow> int \<Rightarrow> ('s, byte list) prog" where
  "readChars B dst dstIndex len = seqp (checkReadable B len)
     (bindp (lift_outcome (\<lambda>s. v_getChars B s (readerIndex B s) dst dstIndex len)) (\<lambda>dst'.
        seqp (advance_reader B len) (ret dst')))"

definition readShort :: "'s vtable \<Rightarrow> ('s, i16bits) prog" where
  "readShort B = seqp (checkReadable B 2)
     (bindp (asks (readerIndex B)) (\<lambda>r.
        bindp (p_getShort B r) (\<lambda>v. seqp (advance_reader B 2) (ret v))))"

definition readInt :: "'s vtable \<Rightarrow> ('s, i32bits) prog" where
  "readInt B = seqp (checkReadable B 4)
     (bindp (asks (readerIndex B)) (\<lambda>r.
        bindp (p_getInt B r) (\<lambda>v. seqp (advance_reader B 4) (ret v))))"

definition readLong :: "'s vtable \<Rightarrow> ('s, i64bits) prog" where
  "readLong B = seqp (checkReadable B 8)
     (bindp (asks (readerIndex B)) (\<lambda>r.
        bindp (p_getLong B r) (\<lambda>v. seqp (advance_reader B 8) (ret v))))"

definition readFloat :: "'s vtable \<Rightarrow> ('s, i32bits) prog" where
  "readFloat B = readInt B"

definition readDouble :: "'s vtable \<Rightarrow> ('s, i64bits) prog" where
  "readDouble B = readLong B"

definition readString :: "'s vtable \<Rightarrow> int \<Rightarrow> ('s, byte list) prog" where
  "readString B len = seqp (checkReadable B len)
     (bindp (asks (readerIndex B)) (\<lambda>r.
        bindp (p_getString B r len) (\<lambda>v. seqp (advance_reader B len) (ret v))))"

section \<open>Absolute accesses\<close>

definition set_Char :: "'s vtable \<Rightarrow> int \<Rightarrow> byte \<Rightarrow> ('s, unit) prog" where
  "set_Char B index v = seqp (checkIndex B index 1) (p_setChar B index v)"

definition set_Bool :: "'s vtable \<Rightarrow> int \<Rightarrow> bool \<Rightarrow> ('s, unit) prog" where
  "set_Bool B index v = set_Char B index (if v then 1 else 0)"

definition set_Short :: "'s vtable \<Rightarrow> int \<Rightarrow> i16bits \<Rightarrow> ('s, unit) prog" where
  "set_Short B index v = seqp (checkIndex B index 2) (p_setShort B index v)"

definition set_Int :: "'s vtable \<Rightarrow> int \<Rightarrow> i32bits \<Rightarrow> ('s, unit) prog" where
  "set_Int B index v = seqp (checkIndex B index 4) (p_setInt B index v)"

definition set_Long :: "'s vtable \<Rightarrow> int \<Rightarrow> i64bits \<Rightarrow> ('s, unit) prog" where
  "set_Long B index v = seqp (checkIndex B index 8) (p_setLong B index v)"

definition set_Float :: "'s vtable \<Rightarrow> int \<Rightarrow> i32bits \<Rightarrow> ('s, unit) prog" where
  "set_Float B index bits = set_Int B index bits"

definition set_Double :: "'s vtable \<Rightarrow> int \<Rightarrow> i64bits \<Rightarrow> ('s, unit) prog" where
  "set_Double B index bits = set_Long B index bits"

definition set_String :: "'s vtable \<Rightarrow> int \<Rightarrow> byte list \<Rightarrow> ('s, unit) prog" where
  "set_String B index v = v_setChars B index v 0 (i32 (int (length v)))"

definition get_Char :: "'s vtable \<Rightarrow> int \<Rightarrow> ('s, byte) prog" where
  "get_Char B index = seqp (checkIndex B index 1) (p_getChar B index)"

definition get_Bool :: "'s vtable \<Rightarrow> int \<Rightarrow> ('s, bool) prog" where
  "get_Bool B index = bindp (get_Char B index) (\<lambda>c. ret (c \<noteq> 0))"

definition get_Short :: "'s vtable \<Rightarrow> int \<Rightarrow> ('s, i16bits) prog" where
  "get_Short B index = seqp (checkIndex B index 2) (p_getShort B index)"

definition get_Int :: "'s vtable \<Rightarrow> int \<Rightarrow> ('s, i32bits) prog" where
  "get_Int B index = seqp (checkIndex B index 4) (p_getInt B index)"

definition get_Long :: "'s vtable \<Rightarrow> int \<Rightarrow> ('s, i64bits) prog" where
  "get_Long B index = seqp (checkIndex B index 8) (p_getLong B index)"

text \<open>The two floating-point getters call \<open>_getInt\<close> and \<open>_getLong\<close> without \<open>checkIndex\<close>.\<close>

definition get_Float :: "'s vtable \<Rightarrow> int \<Rightarrow> ('s, i32bits) prog" where
  "get_Float B index = p_getInt B index"

definition get_Double :: "'s vtable \<Rightarrow> int \<Rightarrow> ('s, i64bits) prog" where
  "get_Double B index = p_getLong B index"

definition get_String :: "'s vtable \<Rightarrow> int \<Rightarrow> int \<Rightarrow> ('s, byte list) prog" where
  "get_String B index len = seqp (checkIndex B index len) (p_getString B index len)"

section \<open>Skipping and discarding\<close>

definition skipBytes :: "'s vtable \<Rightarrow> int \<Rightarrow> ('s, unit) prog" where
  "skipBytes B n = seqp (checkReadable B n) (advance_reader B n)"

definition adjust_markers :: "int \<Rightarrow> indices \<Rightarrow> indices" where
  "adjust_markers decrement i =
     (if markedReaderIdx i \<le> decrement then
        (if markedWriterIdx i \<le> decrement
         then i\<lparr>markedReaderIdx := 0, markedWriterIdx := 0\<rparr>
         else i\<lparr>markedReaderIdx := 0, markedWriterIdx := i32 (markedWriterIdx i - decrement)\<rparr>)
      else i\<lparr>markedReaderIdx := i32 (markedReaderIdx i - decrement),
              markedWriterIdx := i32 (markedWriterIdx i - decrement)\<rparr>)"

definition adjustMarkers :: "'s vtable \<Rightarrow> ('s, unit) prog" where
  "adjustMarkers B = modify (upd_base B (\<lambda>i. adjust_markers (readerIdx i) i))"

text \<open>The statements the two discard operations share: move the content to the front.\<close>

definition compact :: "'s vtable \<Rightarrow> ('s, unit) prog" where
  "compact B = doM
     [bindp (asks (base B)) (\<lambda>i.
        v_setCharsSelf B 0 (readerIdx i) (i32 (writerIdx i - readerIdx i))),
      modify (upd_base B (\<lambda>i. i\<lparr>writerIdx := i32 (writerIdx i - readerIdx i)\<rparr>)),
      adjustMarkers B,
      modify (upd_base B (\<lambda>i. i\<lparr>readerIdx := 0\<rparr>))]"

definition reset_empty :: "'s vtable \<Rightarrow> ('s, unit) prog" where
  "reset_empty B = doM
     [adjustMarkers B, modify (upd_base B (\<lambda>i. i\<lparr>readerIdx := 0, writerIdx := 0\<rparr>))]"

definition discardReadBytes :: "'s vtable \<Rightarrow> ('s, unit) prog" where
  "discardReadBytes B =
     ifp (\<lambda>s. readerIdx (base B s) = 0) (ret ())
       (ifp (\<lambda>s. readerIdx (base B s) \<noteq> writerIdx (base B s)) (compact B) (reset_empty B))"

definition discardSomeReadBytes :: "'s vtable \<Rightarrow> ('s, unit) prog" where
  "discardSomeReadBytes B =
     ifp (\<lambda>s. readerIdx (base B s) = 0) (ret ())
       (ifp (\<lambda>s. readerIdx (base B s) = writerIdx (base B s)) (reset_empty B)
         (ifp (\<lambda>s. readerIdx (base B s) \<ge> drop_bit 1 (v_capacity B s)) (compact B) (ret ())))"

section \<open>The checks and the growth loop\<close>

lemma checkRangeBounds_eq:
  assumes "INT_MIN \<le> index" "index \<le> INT_MAX" "INT_MIN \<le> len" "len \<le> INT_MAX"
    "0 \<le> cap" "cap \<le> INT_MAX"
  shows "checkRangeBounds index len cap =
    (if 0 \<le> index \<and> 0 \<le> len \<and> index + len \<le> cap then Ok ()
     else Throw (RuntimeError ''checkRangeBounds failed''))"
proof (cases "0 \<le> index \<and> 0 \<le> len")
  case True
  show ?thesis
  proof (cases "index + len \<le> INT_MAX")
    case le: True
    then have "i32 (index + len) = index + len" "i32 (cap - (index + len)) = cap - (index + len)"
      using True assms by simp_all
    then show ?thesis using True by (simp add: checkRangeBounds_def)
  next
    case False
    then have "i32 (index + len) < 0" using True assms by (subst i32_wrap_neg) auto
    then show ?thesis using True False assms by (simp add: checkRangeBounds_def)
  qed
qed (auto simp: checkRangeBounds_def)

lemma pow2_le_2_30: "(2::int) ^ k \<le> 2 ^ 30 \<longleftrightarrow> k \<le> 30"
  by (rule power_increasing_iff) simp

lemma i32_pow2: "k \<le> 30 \<Longrightarrow> i32 (2 ^ k) = 2 ^ k"
  using pow2_le_2_30 [of k] by (intro i32_id) (auto intro: order_trans [of _ 0])

lemma double_pow2: "k < 30 \<Longrightarrow> i32 (push_bit 1 (2 ^ k)) = 2 ^ Suc k"
  using i32_pow2 [of "Suc k"] by (simp add: push_bit_eq_mult mult.commute)

lemma grow_loop_stop: "minN \<le> c \<Longrightarrow> grow_loop minN c = Some c"
  by (simp add: grow_loop_def while_option_unfold)

lemma grow_loop_step: "c < minN \<Longrightarrow> grow_loop minN c = grow_loop minN (i32 (push_bit 1 c))"
  unfolding grow_loop_def by (subst while_option_unfold) simp

lemma grow_loop_pow2:
  "minN \<le> 2 ^ (k + n) \<Longrightarrow> k + n \<le> 30 \<Longrightarrow>
   \<exists>j. grow_loop minN (2 ^ k) = Some (2 ^ j) \<and> k \<le> j \<and> minN \<le> 2 ^ j \<and> (j = k \<or> 2 ^ j < 2 * minN)"
proof (induction n arbitrary: k)
  case 0
  then show ?case by (auto simp: grow_loop_stop)
next
  case (Suc n)
  show ?case
  proof (cases "minN \<le> 2 ^ k")
    case True
    then show ?thesis by (auto simp: grow_loop_stop)
  next
    case False
    have eq: "grow_loop minN (2 ^ k) = grow_loop minN (2 ^ Suc k)"
      using False Suc.prems double_pow2 [of k] grow_loop_step [of "2 ^ k" minN] by simp
    obtain j where "grow_loop minN (2 ^ Suc k) = Some (2 ^ j)" "Suc k \<le> j" "minN \<le> 2 ^ j"
      "j = Suc k \<or> 2 ^ j < 2 * minN" using Suc.IH [of "Suc k"] Suc.prems by auto
    then show ?thesis using False eq by (intro exI [of _ j]) auto
  qed
qed

text \<open>
  Beyond 2^30 the shift turns the value into the sign bit, then into 0, where it stays: the
  loop never reaches the requested size.
\<close>

lemma grow_loop_hangs:
  assumes "2 ^ 30 < minN" "c = INT_MIN \<or> c = 0 \<or> (\<exists>k \<le> 30. c = 2 ^ k)"
  shows "grow_loop minN c = None"
proof -
  define I where "I c \<longleftrightarrow> c = INT_MIN \<or> c = 0 \<or> (\<exists>k \<le> 30. c = (2::int) ^ k)" for c
  have step: "I (i32 (push_bit 1 c))" if "I c" for c
    using that unfolding I_def
  proof (elim disjE exE conjE)
    fix k assume k: "k \<le> 30" "c = 2 ^ k"
    show "i32 (push_bit 1 c) = INT_MIN \<or> i32 (push_bit 1 c) = 0 \<or> (\<exists>k\<le>30. i32 (push_bit 1 c) = 2 ^ k)"
    proof (cases "k = 30")
      case True
      then show ?thesis using k by (simp add: push_bit_eq_mult i32_def)
    next
      case False
      then have "i32 (push_bit 1 c) = 2 ^ Suc k" using double_pow2 [of k] k by simp
      then show ?thesis using False k by (intro disjI2 exI [of _ "Suc k"]) simp
    qed
  qed (simp_all add: push_bit_eq_mult i32_def)
  have "I (((\<lambda>c. i32 (push_bit 1 c)) ^^ k) c)" for k
    by (induction k) (use assms(2) step in \<open>auto simp: I_def\<close>)
  moreover have "c < minN" if "I c" for c
    using that assms(1) pow2_le_2_30 unfolding I_def by force
  ultimately show ?thesis unfolding grow_loop_def while_option_def by auto
qed

lemma start_capacity:
  assumes "0 \<le> cap" "cap \<le> INT_MAX"
  shows "i32 (uint (roundUpPower2 (word_of_int cap))) =
           (if 1 \<le> cap \<and> cap \<le> 2 ^ 30 then uint (roundUpPower2 (word_of_int cap)) else INT_MIN)"
proof -
  have u: "uint (word_of_int cap :: i64bits) = cap"
    using assms by (simp add: uint_word_of_int)
  consider "cap = 0" | "1 \<le> cap" "cap \<le> 2 ^ 30" | "2 ^ 30 < cap" using assms by fastforce
  then show ?thesis
  proof cases
    case 1
    then show ?thesis by (simp add: roundUpPower2_def smear_def MAXIMUM_CAPACITY_def i32_def)
  next
    case 2
    obtain k where k: "uint (roundUpPower2 (word_of_int cap)) = 2 ^ k"
      "\<forall>j. cap \<le> 2 ^ j \<longrightarrow> k \<le> j"
      using roundUpPower2_least [of "word_of_int cap"] 2 u by auto
    then have "k \<le> 30" using 2 by simp
    then show ?thesis using 2 k(1) by (simp add: i32_pow2)
  next
    case 3
    obtain k where k: "uint (roundUpPower2 (word_of_int cap)) = 2 ^ k" "cap \<le> 2 ^ k"
      "\<forall>j. cap \<le> 2 ^ j \<longrightarrow> k \<le> j"
      using roundUpPower2_least [of "word_of_int cap"] 3 assms u by auto
    have "k \<le> 31" using k(3) assms by simp
    moreover have "\<not> k \<le> 30"
      using k(2) 3 power_increasing [of k 30 "2::int"] by auto
    ultimately have "k = 31" by simp
    then show ?thesis using 3 k(1) by (simp add: i32_def)
  qed
qed

text \<open>What growth computes, for every capacity and every larger request.\<close>

lemma calculateNewCapacity_cases:
  assumes "0 \<le> cap" "cap < minN" "minN \<le> maxC" "maxC \<le> INT_MAX"
  shows "if cap = 0 \<or> 2 ^ 30 < minN then calculateNewCapacity cap minN maxC = Hang
     else \<exists>j. calculateNewCapacity cap minN maxC = Ok (min (2 ^ j) maxC) \<and> minN \<le> 2 ^ j \<and>
              2 ^ j < 2 * minN"
proof -
  have start: "i32 (uint (roundUpPower2 (word_of_int cap))) =
      (if 1 \<le> cap \<and> cap \<le> 2 ^ 30 then uint (roundUpPower2 (word_of_int cap)) else INT_MIN)"
    using assms by (intro start_capacity) auto
  show ?thesis
  proof (cases "1 \<le> cap \<and> cap \<le> 2 ^ 30")
    case False
    have loop: "grow_loop minN INT_MIN = None"
    proof (cases "2 ^ 30 < minN")
      case True
      then show ?thesis by (intro grow_loop_hangs) auto
    next
      case le: False
      then have "grow_loop minN INT_MIN = grow_loop minN 0"
        using False assms by (subst grow_loop_step) (auto simp: push_bit_eq_mult i32_def)
      moreover have "grow_loop minN 0 = None"
      proof -
        have "((\<lambda>c. i32 (push_bit 1 c)) ^^ k) 0 = 0" for k by (induction k) auto
        then show ?thesis using assms unfolding grow_loop_def while_option_def by auto
      qed
      ultimately show ?thesis by simp
    qed
    then show ?thesis using False assms start by (auto simp: calculateNewCapacity_def)
  next
    case True
    have "uint (word_of_int cap :: i64bits) = cap"
      using assms by (simp add: uint_word_of_int)
    then obtain k where k: "uint (roundUpPower2 (word_of_int cap)) = 2 ^ k" "cap \<le> 2 ^ k"
      "\<forall>j. cap \<le> 2 ^ j \<longrightarrow> k \<le> j"
      using roundUpPower2_least [of "word_of_int cap"] True by auto
    have k30: "k \<le> 30" using k(3) True by auto
    have s: "i32 (uint (roundUpPower2 (word_of_int cap))) = 2 ^ k" using start True k(1) by simp
    show ?thesis
    proof (cases "2 ^ 30 < minN")
      case big: True
      then have "grow_loop minN (2 ^ k) = None" using k30 by (intro grow_loop_hangs) auto
      then show ?thesis using big assms by (simp add: calculateNewCapacity_def s)
    next
      case False
      then obtain j where j: "grow_loop minN (2 ^ k) = Some (2 ^ j)" "minN \<le> 2 ^ j"
        "j = k \<or> 2 ^ j < 2 * minN"
        using grow_loop_pow2 [of minN k "30 - k"] k30 by auto
      have "2 ^ k < 2 * minN"
      proof (cases k)
        case (Suc i)
        then have "\<not> cap \<le> 2 ^ i" using k(3) by auto
        then show ?thesis using Suc assms by simp
      qed (use assms in auto)
      then have "2 ^ j < 2 * minN" using j(3) by auto
      then show ?thesis using False j True assms by (auto simp: calculateNewCapacity_def s)
    qed
  qed
qed

section \<open>The contract of a buffer class\<close>

text \<open>
  \<open>mem s\<close> are the bytes the buffer addresses, one for each index below its capacity, and
  \<open>valid\<close> is the class invariant. A store that is in bounds replaces exactly the bytes it names
  and keeps the indices; \<open>stores\<close> says so of one call.
\<close>

definition stores ::
  "'s vtable \<Rightarrow> ('s \<Rightarrow> byte list) \<Rightarrow> ('s \<Rightarrow> bool) \<Rightarrow> ('s, unit) prog \<Rightarrow> int \<Rightarrow> byte list \<Rightarrow> 's \<Rightarrow> bool"
where
  "stores B mem valid f i bs s \<longleftrightarrow>
     (\<exists>s'. f s = (Ok (), s') \<and> valid s' \<and> base B s' = base B s \<and> mem s' = patch (nat i) bs (mem s))"

definition idx_ok :: "indices \<Rightarrow> int \<Rightarrow> bool" where
  "idx_ok i cap \<longleftrightarrow> 0 \<le> readerIdx i \<and> readerIdx i \<le> writerIdx i \<and> writerIdx i \<le> cap \<and>
     cap \<le> maxCap i \<and> maxCap i \<le> INT_MAX"

definition loaded :: "byte list \<Rightarrow> int \<Rightarrow> int \<Rightarrow> byte list" where
  "loaded m i n = take (nat n) (drop (nat i) m)"

locale char_buf =
  fixes B :: "'s vtable" and mem :: "'s \<Rightarrow> byte list" and valid :: "'s \<Rightarrow> bool"
  assumes valid_idx: "valid s \<Longrightarrow> idx_ok (base B s) (int (length (mem s)))"
    and capacity: "valid s \<Longrightarrow> v_capacity B s = int (length (mem s))"
    and base_set: "base B (set_base B x s) = x"
    and mem_set: "maxCap x = maxCap (base B s) \<Longrightarrow> mem (set_base B x s) = mem s"
    and set_set: "set_base B x (set_base B y s) = set_base B x s"
    and valid_set: "valid s \<Longrightarrow> idx_ok x (int (length (mem s))) \<Longrightarrow> maxCap x = maxCap (base B s) \<Longrightarrow>
                 valid (set_base B x s)"
    and setChar: "valid s \<Longrightarrow> in_bounds i 1 (mem s) \<Longrightarrow> stores B mem valid (p_setChar B i c) i [c] s"
    and setShort: "valid s \<Longrightarrow> in_bounds i 2 (mem s) \<Longrightarrow> stores B mem valid (p_setShort B i v) i (enc16 v) s"
    and setInt: "valid s \<Longrightarrow> in_bounds i 4 (mem s) \<Longrightarrow> stores B mem valid (p_setInt B i v4) i (enc32 v4) s"
    and setLong: "valid s \<Longrightarrow> in_bounds i 8 (mem s) \<Longrightarrow> stores B mem valid (p_setLong B i v8) i (enc64 v8) s"
    and set_Chars: "valid s \<Longrightarrow> in_bounds i (int (length bs)) (mem s) \<Longrightarrow>
                 stores B mem valid (p_setChars B i bs) i bs s"
    and getChar: "valid s \<Longrightarrow> in_bounds i 1 (mem s) \<Longrightarrow> p_getChar B i s = (Ok (mem s ! nat i), s)"
    and getShort: "valid s \<Longrightarrow> in_bounds i 2 (mem s) \<Longrightarrow>
                 p_getShort B i s = (Ok (dec16 (loaded (mem s) i 2)), s)"
    and getInt: "valid s \<Longrightarrow> in_bounds i 4 (mem s) \<Longrightarrow>
                 p_getInt B i s = (Ok (dec32 (loaded (mem s) i 4)), s)"
    and getLong: "valid s \<Longrightarrow> in_bounds i 8 (mem s) \<Longrightarrow>
                 p_getLong B i s = (Ok (dec64 (loaded (mem s) i 8)), s)"
    and getString: "valid s \<Longrightarrow> in_bounds i n (mem s) \<Longrightarrow>
                 p_getString B i n s = (Ok (loaded (mem s) i n), s)"
    and getChars: "valid s \<Longrightarrow> in_bounds i n (mem s) \<Longrightarrow> in_bounds di n dst \<Longrightarrow>
                 v_getChars B s i dst di n = Ok (patch (nat di) (loaded (mem s) i n) dst)"
    and setChars: "valid s \<Longrightarrow> in_bounds i n (mem s) \<Longrightarrow> in_bounds si n src \<Longrightarrow>
                 stores B mem valid (v_setChars B i src si n) i (loaded src si n) s"
    and setCharsBuf: "valid s \<Longrightarrow> in_bounds i n (mem s) \<Longrightarrow> length bs = nat n \<Longrightarrow>
                 (\<And>dst di. in_bounds di n dst \<Longrightarrow> g si dst di n = Ok (patch (nat di) bs dst)) \<Longrightarrow>
                 stores B mem valid (v_setCharsBuf B i g si n) i bs s"
    and setCharsSelf: "valid s \<Longrightarrow> in_bounds i n (mem s) \<Longrightarrow> in_bounds si n (mem s) \<Longrightarrow>
                 i + n \<le> si \<or> si + n \<le> i \<Longrightarrow>
                 stores B mem valid (v_setCharsSelf B i si n) i (loaded (mem s) si n) s"

text \<open>A buffer that can grow: \<open>capacity(n)\<close> keeps the bytes and appends new ones.\<close>

locale growable_char_buf = char_buf +
  assumes set_capacity: "valid s \<Longrightarrow> int (length (mem s)) \<le> n \<Longrightarrow> n \<le> maxCap (base B s) \<Longrightarrow>
      \<exists>s' ext. v_set_capacity B n s = (Ok (), s') \<and> valid s' \<and> base B s' = base B s \<and>
               mem s' = mem s @ ext \<and> int (length (mem s')) = n"

text \<open>The readable content: what was written and not yet read.\<close>

definition content_of :: "indices \<Rightarrow> byte list \<Rightarrow> byte list" where
  "content_of i m = loaded m (readerIdx i) (writerIdx i - readerIdx i)"

lemma length_content_of [simp]:
  "idx_ok i (int (length m)) \<Longrightarrow> int (length (content_of i m)) = writerIdx i - readerIdx i"
  by (auto simp: idx_ok_def content_of_def loaded_def)

lemma take_loaded: "0 \<le> n \<Longrightarrow> n \<le> k \<Longrightarrow> take (nat n) (loaded m i k) = loaded m i n"
  by (simp add: loaded_def min_absorb1 nat_mono)

lemma drop_loaded:
  "0 \<le> n \<Longrightarrow> n \<le> k \<Longrightarrow> 0 \<le> i \<Longrightarrow> drop (nat n) (loaded m i k) = loaded m (i + n) (k - n)"
  by (simp add: loaded_def drop_take nat_add_distrib nat_diff_distrib add.commute)

lemma loaded_patch_end:
  assumes "0 \<le> r" "r \<le> w" "w + int (length bs) \<le> int (length m)"
  shows "loaded (patch (nat w) bs m) r (w - r + int (length bs)) = loaded m r (w - r) @ bs"
proof -
  have n: "nat (w - r + int (length bs)) = (nat w - nat r) + length bs" using assms by simp
  have "drop (nat r) (patch (nat w) bs m) = drop (nat r) (take (nat w) m) @ bs @ drop (nat w + length bs) m"
    using assms by (simp add: patch_def drop_append min_def nat_mono)
  then show ?thesis using assms by (simp add: loaded_def n drop_take nat_diff_distrib)
qed

lemma loaded_patch_front:
  assumes "0 \<le> n" "int (length bs) = n" "n \<le> int (length m)"
  shows "loaded (patch 0 bs m) 0 n = bs"
  using assms by (auto simp: loaded_def patch_def)

lemma loaded_take:
  assumes "0 \<le> r" "r \<le> n" "r \<le> w"
  shows "loaded (take (nat n) m) r (min w n - r) = take (nat (n - r)) (loaded m r (w - r))"
proof -
  have "nat (min w n - r) = min (nat (w - r)) (nat (n - r))" "nat n - nat r = nat (n - r)"
    using assms by (auto simp: min_def nat_diff_distrib)
  then show ?thesis by (simp add: loaded_def drop_take min.commute)
qed

lemma loaded_append:
  "0 \<le> i \<Longrightarrow> 0 \<le> n \<Longrightarrow> i + n \<le> int (length m) \<Longrightarrow> loaded (m @ ext) i n = loaded m i n"
  by (simp add: loaded_def nat_add_distrib)

section \<open>The buffer as a queue of bytes\<close>

definition content :: "'s vtable \<Rightarrow> ('s \<Rightarrow> byte list) \<Rightarrow> 's \<Rightarrow> byte list" where
  "content B mem s = content_of (base B s) (mem s)"

text \<open>A read of \<open>n\<close> bytes decoded by \<open>val\<close>: it takes them off the front, or throws and changes nothing.\<close>

definition reads ::
  "'s vtable \<Rightarrow> ('s \<Rightarrow> byte list) \<Rightarrow> ('s \<Rightarrow> bool) \<Rightarrow> ('s, 'a) prog \<Rightarrow> nat \<Rightarrow> (byte list \<Rightarrow> 'a) \<Rightarrow> 's \<Rightarrow> bool"
where
  "reads B mem valid f n val s \<longleftrightarrow>
     (if n \<le> length (content B mem s)
      then \<exists>s'. f s = (Ok (val (take n (content B mem s))), s') \<and> valid s' \<and> mem s' = mem s \<and>
                content B mem s' = drop n (content B mem s) \<and>
                base B s' = (base B s)\<lparr>readerIdx := readerIdx (base B s) + int n\<rparr>
      else f s = (Throw (RuntimeError ''readerIndex + length exceeds writerIndex''), s))"

text \<open>
  The size \<open>b\<close> of a buffer after a write is the size \<open>a\<close> before, or a larger power of two cut
  off at the maximum.
\<close>

definition grown :: "int \<Rightarrow> nat \<Rightarrow> nat \<Rightarrow> bool" where
  "grown maxC a b \<longleftrightarrow> b = a \<or> a < b \<and> (\<exists>j\<le>30. int b = min (2 ^ j) maxC)"

lemma grown_refl [simp]: "grown m a a"
  by (simp add: grown_def)

lemma grown_le: "grown m a b \<Longrightarrow> a \<le> b"
  by (auto simp: grown_def)

text \<open>A write that appends \<open>bs\<close> to the content.\<close>

definition appends ::
  "'s vtable \<Rightarrow> ('s \<Rightarrow> byte list) \<Rightarrow> ('s \<Rightarrow> bool) \<Rightarrow> ('s, unit) prog \<Rightarrow> byte list \<Rightarrow> 's \<Rightarrow> bool"
where
  "appends B mem valid f bs s \<longleftrightarrow>
     (\<exists>s'. f s = (Ok (), s') \<and> valid s' \<and> content B mem s' = content B mem s @ bs \<and>
           base B s' = (base B s)\<lparr>writerIdx := writerIdx (base B s) + int (length bs)\<rparr> \<and>
           grown (maxCap (base B s)) (length (mem s)) (length (mem s')))"

text \<open>\<open>ensureWritable\<close> succeeded: the bytes are kept and there is room for \<open>n\<close> more.\<close>

definition ensured ::
  "'s vtable \<Rightarrow> ('s \<Rightarrow> byte list) \<Rightarrow> ('s \<Rightarrow> bool) \<Rightarrow> int \<Rightarrow> 's \<Rightarrow> bool"
where
  "ensured B mem valid n s \<longleftrightarrow>
     (\<exists>s' ext. ensureWritable B n s = (Ok (), s') \<and> valid s' \<and> base B s' = base B s \<and>
               mem s' = mem s @ ext \<and> writerIdx (base B s) + n \<le> int (length (mem s')) \<and>
               grown (maxCap (base B s)) (length (mem s)) (length (mem s')))"

lemma idx_okD:
  assumes "idx_ok i cap"
  shows "0 \<le> readerIdx i" "readerIdx i \<le> writerIdx i" "writerIdx i \<le> cap" "cap \<le> maxCap i"
    "maxCap i \<le> INT_MAX" "0 \<le> cap" "writerIdx i \<le> INT_MAX" "0 \<le> writerIdx i"
    "readerIdx i \<le> INT_MAX" "cap \<le> INT_MAX" "0 \<le> maxCap i"
  using assms by (auto simp: idx_ok_def)

lemma idx_ok_reader: "idx_ok i cap \<Longrightarrow> 0 \<le> r \<Longrightarrow> r \<le> writerIdx i \<Longrightarrow> idx_ok (i\<lparr>readerIdx := r\<rparr>) cap"
  by (simp add: idx_ok_def)

lemma idx_ok_writer: "idx_ok i cap \<Longrightarrow> readerIdx i \<le> w \<Longrightarrow> w \<le> cap \<Longrightarrow> idx_ok (i\<lparr>writerIdx := w\<rparr>) cap"
  by (simp add: idx_ok_def)

context char_buf
begin

lemma content_len:
  assumes "valid s"
  shows "int (length (content B mem s)) = writerIdx (base B s) - readerIdx (base B s)"
  unfolding content_def by (rule length_content_of [OF valid_idx [OF assms]])

lemma readableBytes_eq: "valid s \<Longrightarrow> readableBytes B s = int (length (content B mem s))"
  using content_len [of s] valid_idx [of s]
  by (simp add: readableBytes_def readerIndex_def writerIndex_def idx_ok_def)

lemma isReadable_eq: "valid s \<Longrightarrow> isReadable B s \<longleftrightarrow> content B mem s \<noteq> []"
  using content_len [of s] by (cases "content B mem s") (auto simp: isReadable_def)

lemma empty_iff: "valid s \<Longrightarrow> readerIdx (base B s) = writerIdx (base B s) \<longleftrightarrow> content B mem s = []"
  using content_len [of s] by (metis cancel_comm_monoid_add_class.diff_cancel eq_iff_diff_eq_0
      length_0_conv of_nat_0_eq_iff)

lemma set_base_run:
  assumes "valid s" "idx_ok x (int (length (mem s)))" "maxCap x = maxCap (base B s)"
  shows "base B (set_base B x s) = x" "mem (set_base B x s) = mem s" "valid (set_base B x s)"
  using assms base_set mem_set valid_set by auto

lemma checkIndex_run:
  assumes "valid s" "INT_MIN \<le> i" "i \<le> INT_MAX" "INT_MIN \<le> n" "n \<le> INT_MAX"
  shows "checkIndex B i n s =
    (if in_bounds i n (mem s) then Ok () else Throw (RuntimeError ''checkRangeBounds failed''), s)"
  using assms valid_idx [of s] capacity [of s]
  by (auto simp: checkIndex_def prog_simps checkRangeBounds_eq in_bounds_def idx_ok_def)

lemma checkReadable_run:
  assumes "valid s" "0 \<le> n" "readerIdx (base B s) + n \<le> INT_MAX"
  shows "checkReadable B n s =
    (if n \<le> int (length (content B mem s)) then Ok ()
     else Throw (RuntimeError ''readerIndex + length exceeds writerIndex''), s)"
  using assms valid_idx [of s] content_len [of s]
  by (auto simp: checkReadable_def prog_simps idx_ok_def)

lemma advance_reader_run:
  assumes "valid s" "n \<le> length (content B mem s)"
  obtains s' where "advance_reader B (int n) s = (Ok (), s')" "valid s'" "mem s' = mem s"
    "content B mem s' = drop n (content B mem s)"
    "base B s' = (base B s)\<lparr>readerIdx := readerIdx (base B s) + int n\<rparr>"
proof -
  let ?i = "base B s"
  let ?j = "?i\<lparr>readerIdx := readerIdx ?i + int n\<rparr>"
  note ok = valid_idx [OF assms(1)] and len = content_len [OF assms(1)]
  have le: "readerIdx ?i + int n \<le> writerIdx ?i" using len assms(2) by linarith
  have "0 \<le> readerIdx ?i + int n" using idx_okD [OF ok] by simp
  from set_base_run [OF assms(1) idx_ok_reader [OF ok this le]]
  have j: "base B (set_base B ?j s) = ?j" "mem (set_base B ?j s) = mem s" "valid (set_base B ?j s)"
    by simp_all
  have "i32 (readerIdx ?i + int n) = readerIdx ?i + int n"
    using idx_okD [OF ok] le by simp
  then have "advance_reader B (int n) s = (Ok (), set_base B ?j s)"
    by (simp add: advance_reader_def prog_simps upd_base_def)
  moreover have "content B mem (set_base B ?j s) = drop n (content B mem s)"
    using idx_okD [OF ok] le j drop_loaded [of "int n" "writerIdx ?i - readerIdx ?i" "readerIdx ?i" "mem s"]
    by (simp add: content_def content_of_def diff_diff_eq)
  ultimately show ?thesis using j by (intro that)
qed

lemma reads_gen:
  assumes "valid s" "readerIdx (base B s) + int n \<le> INT_MAX"
    and g: "\<And>i. in_bounds i (int n) (mem s) \<Longrightarrow> g i s = (Ok (val (loaded (mem s) i (int n))), s)"
  shows "reads B mem valid (seqp (checkReadable B (int n)) (bindp (asks (readerIndex B))
     (\<lambda>r. bindp (g r) (\<lambda>v. seqp (advance_reader B (int n)) (ret v))))) n val s"
proof (cases "n \<le> length (content B mem s)")
  case True
  let ?i = "base B s"
  note ok = valid_idx [OF assms(1)] and len = content_len [OF assms(1)]
  obtain s' where s': "advance_reader B (int n) s = (Ok (), s')" "valid s'" "mem s' = mem s"
    "content B mem s' = drop n (content B mem s)"
    "base B s' = ?i\<lparr>readerIdx := readerIdx ?i + int n\<rparr>"
    by (rule advance_reader_run [OF assms(1) True])
  have "g (readerIdx ?i) s = (Ok (val (loaded (mem s) (readerIdx ?i) (int n))), s)"
    using idx_okD [OF ok] True len by (intro g) (auto simp: in_bounds_def)
  moreover have "loaded (mem s) (readerIdx ?i) (int n) = take n (content B mem s)"
    using take_loaded [of "int n" "writerIdx ?i - readerIdx ?i" "mem s" "readerIdx ?i"] True len
    by (simp add: content_def content_of_def)
  ultimately show ?thesis
    using True s' checkReadable_run [OF assms(1) _ assms(2)]
    by (simp add: reads_def prog_simps readerIndex_def)
next
  case False
  then show ?thesis using checkReadable_run [OF assms(1) _ assms(2)]
    by (simp add: reads_def prog_simps)
qed

lemma reads_map:
  assumes "reads B mem valid f n val s"
  shows "reads B mem valid (bindp f (\<lambda>v. ret (h v))) n (\<lambda>bs. h (val bs)) s"
  using assms by (auto simp: reads_def prog_simps split: if_splits)

lemma readChar_reads:
  assumes "valid s" "readerIdx (base B s) + 1 \<le> INT_MAX"
  shows "reads B mem valid (readChar B) 1 hd s"
proof -
  have "p_getChar B i s = (Ok (hd (loaded (mem s) i (int 1))), s)"
    if "in_bounds i (int 1) (mem s)" for i
    using getChar [OF assms(1), of i] that
    by (simp add: loaded_def in_bounds_def hd_drop_conv_nth take_Suc nat_less_iff)
  from reads_gen [where n = 1 and g = "p_getChar B", OF assms(1) _ this] assms(2) show ?thesis
    by (simp add: readChar_def)
qed

lemma readShort_reads:
  "valid s \<Longrightarrow> readerIdx (base B s) + 2 \<le> INT_MAX \<Longrightarrow> reads B mem valid (readShort B) 2 dec16 s"
  using reads_gen [of s 2 "p_getShort B" dec16] getShort [of s] by (simp add: readShort_def)

lemma readInt_reads:
  "valid s \<Longrightarrow> readerIdx (base B s) + 4 \<le> INT_MAX \<Longrightarrow> reads B mem valid (readInt B) 4 dec32 s"
  using reads_gen [of s 4 "p_getInt B" dec32] getInt [of s] by (simp add: readInt_def)

lemma readLong_reads:
  "valid s \<Longrightarrow> readerIdx (base B s) + 8 \<le> INT_MAX \<Longrightarrow> reads B mem valid (readLong B) 8 dec64 s"
  using reads_gen [of s 8 "p_getLong B" dec64] getLong [of s] by (simp add: readLong_def)

lemma readString_reads:
  "valid s \<Longrightarrow> readerIdx (base B s) + int n \<le> INT_MAX \<Longrightarrow>
   reads B mem valid (readString B (int n)) n (\<lambda>bs. bs) s"
  using reads_gen [of s n "\<lambda>r. p_getString B r (int n)" "\<lambda>bs. bs"] getString [of s]
  by (simp add: readString_def)

lemma skipBytes_reads:
  assumes "valid s" "readerIdx (base B s) + int n \<le> INT_MAX"
  shows "reads B mem valid (skipBytes B (int n)) n (\<lambda>_. ()) s"
proof (cases "n \<le> length (content B mem s)")
  case True
  show ?thesis
    by (rule advance_reader_run [OF assms(1) True])
      (use True checkReadable_run [OF assms(1) _ assms(2)] in
        \<open>simp add: skipBytes_def reads_def prog_simps\<close>)
qed (use checkReadable_run [OF assms(1) _ assms(2)] in
    \<open>simp add: skipBytes_def reads_def prog_simps\<close>)

lemma advance_writer_run:
  assumes "valid s" "0 \<le> n" "writerIdx (base B s) + n \<le> int (length (mem s))"
  obtains s' where "advance_writer B n s = (Ok (), s')" "valid s'" "mem s' = mem s"
    "base B s' = (base B s)\<lparr>writerIdx := writerIdx (base B s) + n\<rparr>"
proof -
  let ?i = "base B s"
  let ?j = "?i\<lparr>writerIdx := writerIdx ?i + n\<rparr>"
  note ok = valid_idx [OF assms(1)]
  have "readerIdx ?i \<le> writerIdx ?i + n" using idx_okD [OF ok] assms(2) by simp
  from set_base_run [OF assms(1) idx_ok_writer [OF ok this assms(3)]]
  have j: "base B (set_base B ?j s) = ?j" "mem (set_base B ?j s) = mem s" "valid (set_base B ?j s)"
    by simp_all
  have "i32 (writerIdx ?i + n) = writerIdx ?i + n"
    using idx_okD [OF ok] assms(2,3) by simp
  then have "advance_writer B n s = (Ok (), set_base B ?j s)"
    by (simp add: advance_writer_def prog_simps upd_base_def)
  then show ?thesis using j by (intro that)
qed

lemma content_after_store:
  assumes "valid s" "base B t = (base B s)\<lparr>writerIdx := writerIdx (base B s) + int (length bs)\<rparr>"
    and "mem t = patch (nat (writerIdx (base B s))) bs (mem s @ ext)"
    and "writerIdx (base B s) + int (length bs) \<le> int (length (mem s @ ext))"
  shows "content B mem t = content B mem s @ bs"
proof -
  let ?i = "base B s"
  note i = idx_okD [OF valid_idx [OF assms(1)]]
  have "content B mem t = loaded (mem t) (readerIdx ?i) (writerIdx ?i - readerIdx ?i + int (length bs))"
    using assms(2) by (simp add: content_def content_of_def algebra_simps)
  also have "\<dots> = loaded (mem s @ ext) (readerIdx ?i) (writerIdx ?i - readerIdx ?i) @ bs"
    unfolding assms(3) by (rule loaded_patch_end) (use i assms(4) in auto)
  also have "loaded (mem s @ ext) (readerIdx ?i) (writerIdx ?i - readerIdx ?i) = content B mem s"
    using i by (subst loaded_append) (auto simp: content_def content_of_def)
  finally show ?thesis .
qed

lemma appends_gen:
  assumes "valid s" "ensured B mem valid (int (length bs)) s"
    and st: "\<And>i s. valid s \<Longrightarrow> in_bounds i (int (length bs)) (mem s) \<Longrightarrow>
                    stores B mem valid (st i) i bs s"
  shows "appends B mem valid
    (doM [ensureWritable B (int (length bs)), bindp (asks (writerIndex B)) st,
          advance_writer B (int (length bs))]) bs s"
proof -
  let ?n = "int (length bs)" and ?w = "writerIdx (base B s)"
  obtain s1 ext where s1: "ensureWritable B ?n s = (Ok (), s1)" "valid s1" "base B s1 = base B s"
    "mem s1 = mem s @ ext" "?w + ?n \<le> int (length (mem s1))"
    "grown (maxCap (base B s)) (length (mem s)) (length (mem s1))"
    using assms(2) unfolding ensured_def by blast
  have w: "0 \<le> ?w" using idx_okD [OF valid_idx [OF assms(1)]] by simp
  obtain s2 where s2: "st ?w s1 = (Ok (), s2)" "valid s2" "base B s2 = base B s"
    "mem s2 = patch (nat ?w) bs (mem s @ ext)"
    using st [OF s1(2), of ?w] s1 w unfolding stores_def by (auto simp: in_bounds_def)
  have len: "length (mem s2) = length (mem s1)"
    using s1 s2(4) w by (simp add: nat_le_iff)
  obtain s3 where s3: "advance_writer B ?n s2 = (Ok (), s3)" "valid s3" "mem s3 = mem s2"
    "base B s3 = (base B s2)\<lparr>writerIdx := ?w + ?n\<rparr>"
    using advance_writer_run [OF s2(2), of ?n] s1(5) s2(3) len by auto
  have "content B mem s3 = content B mem s @ bs"
    by (rule content_after_store [OF assms(1)]) (use s3 s2 s1 in auto)
  then show ?thesis
    using s1 s2 s3 len by (simp add: appends_def prog_simps writerIndex_def)
qed

lemma writeChar_appends:
  assumes "valid s" "ensured B mem valid 1 s"
  shows "appends B mem valid (writeChar B c) [c] s"
proof -
  let ?w = "writerIdx (base B s)"
  obtain s1 ext where s1: "ensureWritable B 1 s = (Ok (), s1)" "valid s1" "base B s1 = base B s"
    "mem s1 = mem s @ ext" "?w + 1 \<le> int (length (mem s1))"
    "grown (maxCap (base B s)) (length (mem s)) (length (mem s1))"
    using assms(2) unfolding ensured_def by blast
  have w: "0 \<le> ?w" using idx_okD [OF valid_idx [OF assms(1)]] by simp
  obtain s2 where s2: "advance_writer B 1 s1 = (Ok (), s2)" "valid s2" "mem s2 = mem s1"
    "base B s2 = (base B s1)\<lparr>writerIdx := ?w + 1\<rparr>"
    using advance_writer_run [OF s1(2), of 1] s1(3,5) by auto
  obtain s3 where s3: "p_setChar B ?w c s2 = (Ok (), s3)" "valid s3" "base B s3 = base B s2"
    "mem s3 = patch (nat ?w) [c] (mem s2)"
    using setChar [OF s2(2), of ?w c] s2(3) s1(5) w unfolding stores_def by (auto simp: in_bounds_def)
  have "content B mem s3 = content B mem s @ [c]"
    by (rule content_after_store [OF assms(1)]) (use s3 s2 s1 in auto)
  moreover have "length (mem s3) = length (mem s1)"
    using s1 s2 s3(4) w by (simp add: nat_le_iff)
  ultimately show ?thesis
    using s1 s2 s3 by (simp add: appends_def writeChar_def prog_simps writerIndex_def)
qed

lemma writeShort_appends:
  "valid s \<Longrightarrow> ensured B mem valid 2 s \<Longrightarrow> appends B mem valid (writeShort B v) (enc16 v) s"
  using appends_gen [of s "enc16 v" "\<lambda>w. p_setShort B w v"] setShort by (simp add: writeShort_def)

lemma writeInt_appends:
  "valid s \<Longrightarrow> ensured B mem valid 4 s \<Longrightarrow> appends B mem valid (writeInt B v) (enc32 v) s"
  using appends_gen [of s "enc32 v" "\<lambda>w. p_setInt B w v"] setInt by (simp add: writeInt_def)

lemma writeLong_appends:
  "valid s \<Longrightarrow> ensured B mem valid 8 s \<Longrightarrow> appends B mem valid (writeLong B v) (enc64 v) s"
  using appends_gen [of s "enc64 v" "\<lambda>w. p_setLong B w v"] setLong by (simp add: writeLong_def)

lemma writeChars_appends:
  assumes "valid s" "0 \<le> n" "n \<le> int (length src)" "ensured B mem valid n s"
  shows "appends B mem valid (writeChars B src n) (take (nat n) src) s"
proof -
  let ?bs = "take (nat n) src"
  have n: "int (length ?bs) = n" using assms(2,3) by auto
  have "peek src 0 n = Ok ?bs" using assms(2,3) by (simp add: peek_Ok)
  then have "bindp (lift_outcome (\<lambda>_. peek src 0 n)) (p_setChars B w) = p_setChars B w ?bs" for w
    by (intro ext) (simp add: prog_simps)
  then show ?thesis
    using appends_gen [of s ?bs "\<lambda>w. p_setChars B w ?bs", unfolded n] assms set_Chars [where bs = ?bs, unfolded n]
    by (simp add: writeChars_def)
qed

text \<open>With room below the capacity, \<open>ensureWritable\<close> changes nothing.\<close>

lemma ensured_room:
  assumes "valid s" "writerIdx (base B s) + n \<le> int (length (mem s))"
  shows "ensured B mem valid n s"
proof -
  have "\<not> n > writableBytes B s"
    using assms idx_okD [OF valid_idx [OF assms(1)]] capacity [OF assms(1)]
    by (simp add: writableBytes_def writerIndex_def)
  then show ?thesis using assms by (simp add: ensured_def ensureWritable_def prog_simps)
qed

text \<open>A write past \<open>maxCapacity\<close> throws and changes nothing.\<close>

lemma ensureWritable_overflow:
  assumes "valid s" "n > maxCap (base B s) - writerIdx (base B s)"
  shows "ensureWritable B n s = (Throw (RuntimeError ''writerIndex exceeds maxCapacity''), s)"
proof -
  note i = idx_okD [OF valid_idx [OF assms(1)]]
  have "n > writableBytes B s" "n > i32 (maxCapacity B s - writerIndex B s)"
    using assms i capacity [OF assms(1)]
    by (simp_all add: writableBytes_def writerIndex_def maxCapacity_def)
  then show ?thesis by (simp add: ensureWritable_def prog_simps)
qed

end

context growable_char_buf
begin

lemma ensured_grow:
  assumes "valid s" "0 \<le> n" "n \<le> maxCap (base B s) - writerIdx (base B s)"
    and "0 < length (mem s)" "writerIdx (base B s) + n \<le> 2 ^ 30"
  shows "ensured B mem valid n s"
proof (cases "writerIdx (base B s) + n \<le> int (length (mem s))")
  case True
  then show ?thesis by (rule ensured_room [OF assms(1)])
next
  case False
  let ?w = "writerIdx (base B s)" and ?m = "maxCap (base B s)" and ?c = "int (length (mem s))"
  note i = idx_okD [OF valid_idx [OF assms(1)]]
  have c: "v_capacity B s = ?c" by (rule capacity [OF assms(1)])
  have le: "?w + n \<le> INT_MAX" using assms(5) by simp
  obtain j where j: "calculateNewCapacity ?c (?w + n) ?m = Ok (min (2 ^ j) ?m)" "?w + n \<le> 2 ^ j"
    "2 ^ j < 2 * (?w + n)"
    using calculateNewCapacity_cases [of ?c "?w + n" ?m] False assms i by (auto split: if_splits)
  have "j < 31"
  proof (rule ccontr)
    assume "\<not> j < 31"
    then have "(2::int) ^ 31 \<le> 2 ^ j" by (intro power_increasing) auto
    then show False using j(3) assms(5) by simp
  qed
  have "?c \<le> 2 ^ j" using False j(2) by linarith
  then have "?c \<le> min (2 ^ j) ?m" using i by linarith
  then obtain s' ext where s': "v_set_capacity B (min (2 ^ j) ?m) s = (Ok (), s')" "valid s'"
    "base B s' = base B s" "mem s' = mem s @ ext" "int (length (mem s')) = min (2 ^ j) ?m"
    using set_capacity [OF assms(1), of "min (2 ^ j) ?m"] by auto
  have "ensureWritable B n s = (Ok (), s')"
    using False assms i c le s' j
    by (simp add: ensureWritable_def prog_simps writableBytes_def writerIndex_def maxCapacity_def)
  moreover have "?w + n \<le> int (length (mem s'))" unfolding s'(5) using j(2) assms(3) by linarith
  moreover have "grown ?m (length (mem s)) (length (mem s'))"
    unfolding grown_def using s'(5) calculation(2) False \<open>j < 31\<close> by (auto intro!: exI [of _ j])
  ultimately show ?thesis using s' unfolding ensured_def by blast
qed

lemma ensureWritable_hangs:
  assumes "valid s" "0 \<le> n" "n \<le> maxCap (base B s) - writerIdx (base B s)"
    and "int (length (mem s)) < writerIdx (base B s) + n"
    and "length (mem s) = 0 \<or> 2 ^ 30 < writerIdx (base B s) + n"
  shows "ensureWritable B n s = (Hang, s)"
proof -
  let ?w = "writerIdx (base B s)" and ?m = "maxCap (base B s)" and ?c = "int (length (mem s))"
  note i = idx_okD [OF valid_idx [OF assms(1)]]
  have c: "v_capacity B s = ?c" by (rule capacity [OF assms(1)])
  have "calculateNewCapacity ?c (?w + n) ?m = Hang"
    using calculateNewCapacity_cases [of ?c "?w + n" ?m] assms i by (auto split: if_splits)
  then show ?thesis using assms i c
    by (simp add: ensureWritable_def prog_simps writableBytes_def writerIndex_def maxCapacity_def)
qed

end

section \<open>Sequences of typed items\<close>

text \<open>
  A message is written and read as a sequence of typed values; the \<open>kind\<close> of an item is what
  the reading side knows of it.
\<close>

datatype item = IBool bool | IChar byte | IShort i16bits | IInt i32bits | ILong i64bits
  | IFloat i32bits | IDouble i64bits | IString "byte list"

datatype kind = KBool | KChar | KShort | KInt | KLong | KFloat | KDouble | KString int

fun write_item :: "'s vtable \<Rightarrow> item \<Rightarrow> ('s, unit) prog" where
  "write_item B (IBool v) = writeBool B v"
| "write_item B (IChar v) = writeChar B v"
| "write_item B (IShort v) = writeShort B v"
| "write_item B (IInt v) = writeInt B v"
| "write_item B (ILong v) = writeLong B v"
| "write_item B (IFloat v) = writeFloat B v"
| "write_item B (IDouble v) = writeDouble B v"
| "write_item B (IString v) = writeString B v"

fun read_item :: "'s vtable \<Rightarrow> kind \<Rightarrow> ('s, item) prog" where
  "read_item B KBool = bindp (readBool B) (\<lambda>v. ret (IBool v))"
| "read_item B KChar = bindp (readChar B) (\<lambda>v. ret (IChar v))"
| "read_item B KShort = bindp (readShort B) (\<lambda>v. ret (IShort v))"
| "read_item B KInt = bindp (readInt B) (\<lambda>v. ret (IInt v))"
| "read_item B KLong = bindp (readLong B) (\<lambda>v. ret (ILong v))"
| "read_item B KFloat = bindp (readFloat B) (\<lambda>v. ret (IFloat v))"
| "read_item B KDouble = bindp (readDouble B) (\<lambda>v. ret (IDouble v))"
| "read_item B (KString n) = bindp (readString B n) (\<lambda>v. ret (IString v))"

fun kind_of :: "item \<Rightarrow> kind" where
  "kind_of (IBool _) = KBool" | "kind_of (IChar _) = KChar" | "kind_of (IShort _) = KShort"
| "kind_of (IInt _) = KInt" | "kind_of (ILong _) = KLong" | "kind_of (IFloat _) = KFloat"
| "kind_of (IDouble _) = KDouble" | "kind_of (IString v) = KString (int (length v))"

fun encode_item :: "item \<Rightarrow> byte list" where
  "encode_item (IBool v) = [if v then 1 else 0]"
| "encode_item (IChar v) = [v]"
| "encode_item (IShort v) = enc16 v"
| "encode_item (IInt v) = enc32 v"
| "encode_item (ILong v) = enc64 v"
| "encode_item (IFloat v) = enc32 v"
| "encode_item (IDouble v) = enc64 v"
| "encode_item (IString v) = v"

fun decode_item :: "kind \<Rightarrow> byte list \<Rightarrow> item" where
  "decode_item KBool m = IBool (hd m \<noteq> 0)"
| "decode_item KChar m = IChar (hd m)"
| "decode_item KShort m = IShort (dec16 m)"
| "decode_item KInt m = IInt (dec32 m)"
| "decode_item KLong m = ILong (dec64 m)"
| "decode_item KFloat m = IFloat (dec32 m)"
| "decode_item KDouble m = IDouble (dec64 m)"
| "decode_item (KString n) m = IString m"

fun kind_size :: "kind \<Rightarrow> int" where
  "kind_size KBool = 1" | "kind_size KChar = 1" | "kind_size KShort = 2" | "kind_size KInt = 4"
| "kind_size KLong = 8" | "kind_size KFloat = 4" | "kind_size KDouble = 8"
| "kind_size (KString n) = n"

definition write_items :: "'s vtable \<Rightarrow> item list \<Rightarrow> ('s, unit) prog" where
  "write_items B xs = doM (map (write_item B) xs)"

fun read_items :: "'s vtable \<Rightarrow> kind list \<Rightarrow> ('s, item list) prog" where
  "read_items B [] = ret []"
| "read_items B (k # ks) =
     bindp (read_item B k) (\<lambda>x. bindp (read_items B ks) (\<lambda>xs. ret (x # xs)))"

definition encode_items :: "item list \<Rightarrow> byte list" where
  "encode_items xs = concat (map encode_item xs)"

lemma decode_encode_item [simp]: "decode_item (kind_of x) (encode_item x) = x"
  by (cases x) simp_all

context char_buf
begin

lemma write_item_appends:
  assumes "valid s" "ensured B mem valid (int (length (encode_item x))) s"
    "int (length (encode_item x)) \<le> INT_MAX"
  shows "appends B mem valid (write_item B x) (encode_item x) s"
proof (cases x)
  case (IString v)
  then show ?thesis using assms writeChars_appends [OF assms(1), of "int (length v)" v]
    by (simp add: writeString_def)
qed (use assms in \<open>simp_all add: writeBool_def writeFloat_def writeDouble_def writeChar_appends
       writeShort_appends writeInt_appends writeLong_appends\<close>)

lemma read_kind_reads:
  assumes "valid s" "readerIdx (base B s) + kind_size k \<le> INT_MAX" "0 \<le> kind_size k"
  shows "reads B mem valid (read_item B k) (nat (kind_size k)) (decode_item k) s"
proof -
  note reads_map [OF readChar_reads [OF assms(1)]] reads_map [OF readShort_reads [OF assms(1)]]
    reads_map [OF readInt_reads [OF assms(1)]] reads_map [OF readLong_reads [OF assms(1)]]
    reads_map [OF reads_map [OF readChar_reads [OF assms(1)]]]
  moreover note reads_map [OF readString_reads [OF assms(1)], of "nat (kind_size k)"]
  ultimately show ?thesis using assms(2,3)
    by (cases k) (simp_all add: readBool_def readFloat_def readDouble_def decode_item.simps [abs_def]
        flip: One_nat_def)
qed

lemma read_item_reads:
  assumes "valid s" "length (encode_item x) \<le> length (content B mem s)"
  shows "reads B mem valid (read_item B (kind_of x)) (length (encode_item x))
           (decode_item (kind_of x)) s"
proof -
  have n: "nat (kind_size (kind_of x)) = length (encode_item x)" "0 \<le> kind_size (kind_of x)"
    by (cases x; simp)+
  have "readerIdx (base B s) + kind_size (kind_of x) \<le> INT_MAX"
    using assms(2) n content_len [OF assms(1)] idx_okD [OF valid_idx [OF assms(1)]] by linarith
  from read_kind_reads [OF assms(1) this n(2)] show ?thesis unfolding n(1) .
qed

lemma read_items_content:
  "valid s \<Longrightarrow> content B mem s = encode_items xs @ rest \<Longrightarrow>
   \<exists>s'. read_items B (map kind_of xs) s = (Ok xs, s') \<and> valid s' \<and> content B mem s' = rest"
proof (induction xs arbitrary: s)
  case Nil
  then show ?case by (simp add: encode_items_def prog_simps)
next
  case (Cons x xs)
  have c: "content B mem s = encode_item x @ (encode_items xs @ rest)"
    using Cons.prems(2) by (simp add: encode_items_def)
  have "reads B mem valid (read_item B (kind_of x)) (length (encode_item x))
           (decode_item (kind_of x)) s"
    by (rule read_item_reads [OF Cons.prems(1)]) (simp add: c)
  then obtain s1 where s1: "read_item B (kind_of x) s = (Ok x, s1)" "valid s1"
    "content B mem s1 = encode_items xs @ rest"
    unfolding reads_def by (auto simp: c)
  obtain s2 where "read_items B (map kind_of xs) s1 = (Ok xs, s2)" "valid s2" "content B mem s2 = rest"
    using Cons.IH [OF s1(2,3)] by blast
  then show ?case using s1 by (simp add: prog_simps)
qed

end

context growable_char_buf
begin

lemma write_items_appends:
  "valid s \<Longrightarrow> length (mem s) \<noteq> 0 \<Longrightarrow>
   writerIdx (base B s) + int (length (encode_items xs)) \<le> min (maxCap (base B s)) (2 ^ 30) \<Longrightarrow>
   \<exists>s'. write_items B xs s = (Ok (), s') \<and> valid s' \<and>
        content B mem s' = content B mem s @ encode_items xs"
proof (induction xs arbitrary: s)
  case Nil
  then show ?case by (simp add: write_items_def encode_items_def prog_simps)
next
  case (Cons x xs)
  let ?n = "int (length (encode_item x))" and ?w = "writerIdx (base B s)"
  note i = idx_okD [OF valid_idx [OF Cons.prems(1)]]
  have sum: "?w + (?n + int (length (encode_items xs))) \<le> min (maxCap (base B s)) (2 ^ 30)"
    using Cons.prems(3) by (simp add: encode_items_def)
  have "ensured B mem valid ?n s"
    using sum Cons.prems(1,2) i by (intro ensured_grow) auto
  moreover have "?n \<le> INT_MAX" using sum i by simp
  ultimately obtain s1 where s1: "write_item B x s = (Ok (), s1)" "valid s1"
    "content B mem s1 = content B mem s @ encode_item x"
    "base B s1 = (base B s)\<lparr>writerIdx := ?w + ?n\<rparr>"
    "grown (maxCap (base B s)) (length (mem s)) (length (mem s1))"
    using write_item_appends [OF Cons.prems(1)] unfolding appends_def by blast
  have ne: "length (mem s1) \<noteq> 0" using grown_le [OF s1(5)] Cons.prems(2) by linarith
  obtain s2 where "write_items B xs s1 = (Ok (), s2)" "valid s2"
    "content B mem s2 = content B mem s1 @ encode_items xs"
    using Cons.IH [OF s1(2) ne] s1(4) sum by auto
  then show ?case using s1(1,3) by (simp add: write_items_def encode_items_def prog_simps)
qed

text \<open>What one writer sends as items, a reader that knows their kinds gets back.\<close>

lemma items_roundtrip:
  assumes "valid s" "content B mem s = []" "length (mem s) \<noteq> 0"
    "writerIdx (base B s) + int (length (encode_items xs)) \<le> min (maxCap (base B s)) (2 ^ 30)"
  shows "\<exists>s1 s2. write_items B xs s = (Ok (), s1) \<and>
           read_items B (map kind_of xs) s1 = (Ok xs, s2) \<and> content B mem s2 = []"
proof -
  obtain s1 where s1: "write_items B xs s = (Ok (), s1)" "valid s1"
    "content B mem s1 = encode_items xs @ []"
    using write_items_appends [OF assms(1,3,4)] assms(2) by auto
  from read_items_content [OF s1(2,3)] s1(1) show ?thesis by blast
qed

end

section \<open>Discarding\<close>

context char_buf
begin

lemma compact_run:
  assumes "valid s" "content B mem s \<noteq> []" "int (length (content B mem s)) \<le> readerIdx (base B s)"
  shows "\<exists>s'. compact B s = (Ok (), s') \<and> valid s' \<and> content B mem s' = content B mem s \<and>
    readerIdx (base B s') = 0 \<and> length (mem s') = length (mem s) \<and> maxCap (base B s') = maxCap (base B s)"
proof -
  let ?i = "base B s" and ?bs = "content B mem s"
  let ?r = "readerIdx ?i" and ?n = "writerIdx ?i - readerIdx ?i"
  note i = idx_okD [OF valid_idx [OF assms(1)]] and len = content_len [OF assms(1)]
  have n: "0 < ?n" "?n \<le> ?r" using assms(2,3) len by (auto simp flip: length_greater_0_conv)
  have bs: "loaded (mem s) ?r ?n = ?bs" by (simp add: content_def content_of_def)
  have "stores B mem valid (v_setCharsSelf B 0 ?r ?n) 0 ?bs s"
    using setCharsSelf [OF assms(1), of 0 ?n ?r] i n bs by (simp add: in_bounds_def)
  then obtain s1 where s1: "v_setCharsSelf B 0 ?r ?n s = (Ok (), s1)" "valid s1" "base B s1 = ?i"
    "mem s1 = patch 0 ?bs (mem s)" unfolding stores_def by auto
  have len1: "length (mem s1) = length (mem s)" using s1(4) len i by simp
  define a where "a = ?i\<lparr>writerIdx := ?n\<rparr>"
  define b where "b = adjust_markers ?r a"
  define c where "c = b\<lparr>readerIdx := 0\<rparr>"
  have b: "readerIdx b = ?r" "writerIdx b = ?n" "maxCap b = maxCap ?i"
    by (simp_all add: b_def a_def adjust_markers_def)
  have c: "readerIdx c = 0" "writerIdx c = ?n" "maxCap c = maxCap ?i"
    by (simp_all add: c_def b)
  have i32n: "i32 ?n = ?n" using n i by simp
  define s' where "s' = set_base B c s1"
  have run: "compact B s = (Ok (), s')"
    by (simp add: compact_def prog_simps i32n s1(1) upd_base_def base_set adjustMarkers_def s1(3)
        set_set s'_def flip: a_def) (simp add: b_def c_def a_def)
  have "idx_ok c (int (length (mem s1)))" using i n c len1 by (simp add: idx_ok_def)
  from set_base_run [OF s1(2) this] c(3) s1(3)
  have s': "base B s' = c" "mem s' = mem s1" "valid s'" by (simp_all add: s'_def)
  have "content B mem s' = ?bs"
    using loaded_patch_front [of ?n ?bs "mem s"] n i len
    by (simp add: content_def content_of_def s' c s1(4))
  then show ?thesis using run s' c len1 by simp
qed

lemma reset_empty_run:
  assumes "valid s" "content B mem s = []"
  shows "\<exists>s'. reset_empty B s = (Ok (), s') \<and> valid s' \<and> content B mem s' = [] \<and>
    readerIdx (base B s') = 0 \<and> mem s' = mem s \<and> maxCap (base B s') = maxCap (base B s)"
proof -
  let ?i = "base B s"
  note i = idx_okD [OF valid_idx [OF assms(1)]]
  define c where "c = (adjust_markers (readerIdx ?i) ?i)\<lparr>readerIdx := 0, writerIdx := 0\<rparr>"
  have c: "readerIdx c = 0" "writerIdx c = 0" "maxCap c = maxCap ?i"
    by (simp_all add: c_def adjust_markers_def)
  have run: "reset_empty B s = (Ok (), set_base B c s)"
    by (simp add: reset_empty_def prog_simps upd_base_def base_set adjustMarkers_def set_set c_def)
  have "idx_ok c (int (length (mem s)))" using i c by (simp add: idx_ok_def)
  from set_base_run [OF assms(1) this c(3)] run c show ?thesis
    by (simp add: content_def content_of_def loaded_def)
qed

text \<open>
  \<open>discardReadBytes\<close> keeps the content when the bytes to move fit into the space already read;
  otherwise its \<open>memcpy\<close> has overlapping operands.
\<close>

lemma discardReadBytes_run:
  assumes "valid s" "int (length (content B mem s)) \<le> readerIdx (base B s)"
  shows "\<exists>s'. discardReadBytes B s = (Ok (), s') \<and> valid s' \<and>
    content B mem s' = content B mem s \<and> readerIdx (base B s') = 0"
proof (cases "readerIdx (base B s) = 0")
  case True
  then show ?thesis using assms(1) by (simp add: discardReadBytes_def prog_simps)
next
  case False
  show ?thesis
  proof (cases "content B mem s = []")
    case True
    then have "readerIdx (base B s) = writerIdx (base B s)" using content_len [OF assms(1)] by simp
    then show ?thesis using reset_empty_run [OF assms(1) True] False True
      by (auto simp: discardReadBytes_def prog_simps)
  next
    case ne: False
    then have "readerIdx (base B s) \<noteq> writerIdx (base B s)" by (simp add: empty_iff [OF assms(1)])
    then show ?thesis using compact_run [OF assms(1) ne assms(2)] False
      by (auto simp: discardReadBytes_def prog_simps)
  qed
qed

text \<open>
  \<open>discardSomeReadBytes\<close> moves only when the reader has passed half of the capacity, so the
  ranges cannot overlap, but for an odd capacity with the writer at its end.
\<close>

lemma discardSomeReadBytes_run:
  assumes "valid s" "even (length (mem s)) \<or> writerIdx (base B s) < int (length (mem s))"
  shows "\<exists>s'. discardSomeReadBytes B s = (Ok (), s') \<and> valid s' \<and>
    content B mem s' = content B mem s \<and> length (mem s') = length (mem s) \<and>
    (readerIdx (base B s') = 0 \<or> 2 * readerIdx (base B s') < int (length (mem s))) \<and>
    readerIdx (base B s') \<le> readerIdx (base B s) \<and> maxCap (base B s') = maxCap (base B s)"
proof -
  let ?i = "base B s" and ?c = "int (length (mem s))"
  note i = idx_okD [OF valid_idx [OF assms(1)]] and len = content_len [OF assms(1)]
  have half: "drop_bit 1 (v_capacity B s) = ?c div 2"
    using capacity [OF assms(1)] by (simp add: drop_bit_eq_div)
  consider "readerIdx ?i = 0" | "readerIdx ?i \<noteq> 0" "content B mem s = []"
    | "content B mem s \<noteq> []" "readerIdx ?i \<ge> ?c div 2" "readerIdx ?i \<noteq> 0"
    | "content B mem s \<noteq> []" "\<not> readerIdx ?i \<ge> ?c div 2" "readerIdx ?i \<noteq> 0" by blast
  then show ?thesis
  proof cases
    case 2
    then have "readerIdx ?i = writerIdx ?i" using len by simp
    then show ?thesis using reset_empty_run [OF assms(1) 2(2)] 2 i(1)
      by (auto simp: discardSomeReadBytes_def prog_simps)
  next
    case 3
    then have ne: "readerIdx ?i \<noteq> writerIdx ?i" by (simp add: empty_iff [OF assms(1)])
    have "int (length (content B mem s)) \<le> readerIdx ?i"
      using assms(2) 3(2) i len by (auto elim!: evenE)
    then show ?thesis using compact_run [OF assms(1) 3(1)] 3 ne half i(1)
      by (auto simp: discardSomeReadBytes_def prog_simps)
  next
    case 4
    then have ne: "readerIdx ?i \<noteq> writerIdx ?i" by (simp add: empty_iff [OF assms(1)])
    then show ?thesis using 4 half assms(1)
      by (auto simp: discardSomeReadBytes_def prog_simps)
  qed (use assms(1) in \<open>simp add: discardSomeReadBytes_def prog_simps\<close>)
qed

end

end
