(* ===== verification/HeapBuf.thy ===== *)
theory HeapBuf
  imports CharBuf
begin

text \<open>
  \<open>UnpooledHeapCharBuf\<close> (src/common/buffer/UnpooledHeapCharBuf.hpp and .cpp) over
  \<open>AbstractReferenceCountedCharBuf\<close>: a buffer that owns one array on the heap. It implements
  the contract \<open>growable_char_buf\<close>, from which its queue behaviour follows.
\<close>

section \<open>Reference counts\<close>

text \<open>
  The count is an \<open>AtomicInteger<int>\<close>. \<open>release\<close> tells whether it called \<open>deallocate\<close>; the
  line it prints for a negative count has no effect.
\<close>

definition retain_count :: "int \<Rightarrow> int \<Rightarrow> int" where
  "retain_count increment cnt = (if increment > 0 then i32 (cnt + increment) else cnt)"

definition release_count :: "int \<Rightarrow> int \<Rightarrow> int \<times> bool" where
  "release_count decrement cnt =
     (let cnt' = (if decrement > 0 then i32 (cnt - decrement) else cnt) in (cnt', cnt' = 0))"

definition resetRefCnt :: int where "resetRefCnt = 1"

section \<open>The object\<close>

text \<open>
  \<open>array\<close> is the memory \<open>array_\<close> points to, the empty list standing for a null pointer;
  \<open>fresh\<close> is the content that newly allocated memory happens to have.
\<close>

record heap_buf =
  hb_base :: indices
  refCnt :: int
  capacity0 :: int
  array :: "byte list"
  fresh :: "nat \<Rightarrow> byte"

definition allocateArray :: "(nat \<Rightarrow> byte) \<Rightarrow> int \<Rightarrow> byte list outcome" where
  "allocateArray junk n = (if n < 0 then Throw BadAlloc else Ok (map junk [0..<nat n]))"

definition UnpooledHeapCharBuf_new :: "(nat \<Rightarrow> byte) \<Rightarrow> int \<Rightarrow> int \<Rightarrow> heap_buf outcome" where
  "UnpooledHeapCharBuf_new junk initialCapacity maxC =
     map_ok (\<lambda>a. \<lparr>hb_base = AbstractCharBuf_init maxC, refCnt = 1, capacity0 = initialCapacity,
                  array = a, fresh = junk\<rparr>)
       (allocateArray junk initialCapacity)"

definition CHAR_BUF_MAX_CAPACITY :: int where "CHAR_BUF_MAX_CAPACITY = 0x7FFFFFFF"

definition UnpooledHeapCharBuf_default :: "(nat \<Rightarrow> byte) \<Rightarrow> heap_buf outcome" where
  "UnpooledHeapCharBuf_default junk = UnpooledHeapCharBuf_new junk 8192 CHAR_BUF_MAX_CAPACITY"

definition deepCopy :: "heap_buf \<Rightarrow> heap_buf \<Rightarrow> heap_buf outcome" where
  "deepCopy rhs this =
     map_ok (\<lambda>a. this\<lparr>hb_base := hb_base rhs, capacity0 := capacity0 rhs, array := a\<rparr>)
       (if capacity0 rhs > 0 then peek (array rhs) 0 (capacity0 rhs) else Ok [])"

definition copy_construct :: "(nat \<Rightarrow> byte) \<Rightarrow> heap_buf \<Rightarrow> heap_buf outcome" where
  "copy_construct junk rhs =
     deepCopy rhs \<lparr>hb_base = AbstractCharBuf_init (maxCap (hb_base rhs)), refCnt = 1,
                   capacity0 = 0, array = [], fresh = junk\<rparr>"

text \<open>
  \<open>realloc\<close> keeps the common prefix; a size no allocator can serve yields a null pointer. The code calls it on
  memory from \<open>new char[]\<close>, which the language leaves undefined and common platforms, where both come
  from malloc, carry out as modelled here; every theorem about growth is under that reading, and
  under the one that memory does not run out (the null pointer of a failed \<open>realloc\<close> is not checked).
\<close>

definition realloc :: "(nat \<Rightarrow> byte) \<Rightarrow> byte list \<Rightarrow> int \<Rightarrow> byte list" where
  "realloc junk a n =
     (if n < 0 then [] else take (nat n) a @ map junk [length a..<nat n])"

definition heap_set_capacity :: "int \<Rightarrow> (heap_buf, unit) prog" where
  "heap_set_capacity newCapacity = bindp (asks capacity0) (\<lambda>oldCapacity.
     if oldCapacity = newCapacity then ret ()
     else doM
      [modify (capacity0_update (\<lambda>_. newCapacity)),
       (if newCapacity < oldCapacity
        then ifp (\<lambda>s. readerIdx (hb_base s) < newCapacity)
               (ifp (\<lambda>s. writerIdx (hb_base s) > newCapacity)
                  (doM [lift_outcome (\<lambda>s. checkIndexBounds (readerIdx (hb_base s)) newCapacity
                                            (maxCap (hb_base s))),
                        modify (hb_base_update (writerIdx_update (\<lambda>_. newCapacity)))])
                  (ret ()))
               (modify (hb_base_update (\<lambda>i. i\<lparr>readerIdx := newCapacity, writerIdx := newCapacity\<rparr>)))
        else ret ()),
       modify (\<lambda>s. s\<lparr>array := realloc (fresh s) (array s) newCapacity\<rparr>)])"

definition heap_store :: "(byte list \<Rightarrow> byte list outcome) \<Rightarrow> (heap_buf, unit) prog" where
  "heap_store f = bindp (lift_outcome (\<lambda>s. f (array s))) (\<lambda>a. modify (array_update (\<lambda>_. a)))"

definition heap_load :: "(byte list \<Rightarrow> 'a outcome) \<Rightarrow> (heap_buf, 'a) prog" where
  "heap_load f = lift_outcome (\<lambda>s. f (array s))"

definition heap_check :: "int \<Rightarrow> int \<Rightarrow> (heap_buf, unit) prog" where
  "heap_check index len = lift_outcome (\<lambda>s. checkRangeBounds index len (capacity0 s))"

definition heap_setChars :: "int \<Rightarrow> byte list \<Rightarrow> int \<Rightarrow> int \<Rightarrow> (heap_buf, unit) prog" where
  "heap_setChars index src srcIndex len =
     seqp (heap_check index len) (heap_store (\<lambda>a. HeapUtil.getChars src srcIndex a index len))"

text \<open>From another buffer there is no check of the destination, only the one in the source.\<close>

definition heap_setCharsBuf :: "int \<Rightarrow> getter \<Rightarrow> int \<Rightarrow> int \<Rightarrow> (heap_buf, unit) prog" where
  "heap_setCharsBuf index src srcIndex len = heap_store (\<lambda>a. src srcIndex a index len)"

definition heap_setCharsSelf :: "int \<Rightarrow> int \<Rightarrow> int \<Rightarrow> (heap_buf, unit) prog" where
  "heap_setCharsSelf index srcIndex len =
     seqp (heap_check srcIndex len) (heap_store (\<lambda>a. copy_within a srcIndex index len))"

definition heap_getChars :: "heap_buf \<Rightarrow> getter" where
  "heap_getChars s index dst dstIndex len =
     (case checkRangeBounds index len (capacity0 s) of
        Ok _ \<Rightarrow> HeapUtil.getChars (array s) index dst dstIndex len
      | Throw e \<Rightarrow> Throw e | Hang \<Rightarrow> Hang | Undef \<Rightarrow> Undef)"

definition heap_ops :: "heap_buf vtable" where
  "heap_ops = \<lparr>
     base = hb_base,
     set_base = (\<lambda>i. hb_base_update (\<lambda>_. i)),
     v_capacity = capacity0,
     v_set_capacity = heap_set_capacity,
     v_setChars = heap_setChars,
     v_setCharsBuf = heap_setCharsBuf,
     v_setCharsSelf = heap_setCharsSelf,
     v_getChars = heap_getChars,
     p_setChar = (\<lambda>i v. heap_store (\<lambda>a. HeapUtil.setChar a i v)),
     p_setShort = (\<lambda>i v. heap_store (\<lambda>a. HeapUtil.setShort a i v)),
     p_setInt = (\<lambda>i v. heap_store (\<lambda>a. HeapUtil.setInt a i v)),
     p_setLong = (\<lambda>i v. heap_store (\<lambda>a. HeapUtil.setLong a i v)),
     p_setChars = (\<lambda>i bs. heap_store (\<lambda>a. HeapUtil.setChars a i bs)),
     p_getChar = (\<lambda>i. heap_load (\<lambda>a. HeapUtil.getChar a i)),
     p_getShort = (\<lambda>i. heap_load (\<lambda>a. HeapUtil.getShort a i)),
     p_getInt = (\<lambda>i. heap_load (\<lambda>a. HeapUtil.getInt a i)),
     p_getLong = (\<lambda>i. heap_load (\<lambda>a. HeapUtil.getLong a i)),
     p_getString = (\<lambda>i n. heap_load (\<lambda>a. HeapUtil.getString a i n))\<rparr>"

definition heap_valid :: "heap_buf \<Rightarrow> bool" where
  "heap_valid s \<longleftrightarrow>
     capacity0 s = int (length (array s)) \<and> idx_ok (hb_base s) (int (length (array s)))"

section \<open>The contract\<close>

lemma heap_store_run:
  assumes "heap_valid s" "f (array s) = Ok (patch (nat i) bs (array s))"
    "in_bounds i (int (length bs)) (array s)"
  shows "stores heap_ops array heap_valid (heap_store f) i bs s"
proof -
  have "length (patch (nat i) bs (array s)) = length (array s)"
    using assms(3) unfolding in_bounds_def by (intro length_patch) linarith
  then show ?thesis using assms(1,2)
    by (simp add: stores_def heap_store_def prog_simps heap_ops_def heap_valid_def)
qed

lemma heap_check_run:
  assumes "heap_valid s" "in_bounds i n (array s)"
  shows "heap_check i n s = (Ok (), s)"
  using assms idx_okD(10) [of "hb_base s" "int (length (array s))"]
  by (simp add: heap_check_def prog_simps heap_valid_def in_bounds_def checkRangeBounds_eq)

lemma heap_ops_simps [simp]:
  "base heap_ops = hb_base" "set_base heap_ops x = hb_base_update (\<lambda>_. x)"
  "v_capacity heap_ops = capacity0" "v_set_capacity heap_ops = heap_set_capacity"
  "v_setChars heap_ops = heap_setChars" "v_setCharsBuf heap_ops = heap_setCharsBuf"
  "v_setCharsSelf heap_ops = heap_setCharsSelf" "v_getChars heap_ops = heap_getChars"
  "p_setChar heap_ops = (\<lambda>i v. heap_store (\<lambda>a. HeapUtil.setChar a i v))"
  "p_setShort heap_ops = (\<lambda>i v. heap_store (\<lambda>a. HeapUtil.setShort a i v))"
  "p_setInt heap_ops = (\<lambda>i v. heap_store (\<lambda>a. HeapUtil.setInt a i v))"
  "p_setLong heap_ops = (\<lambda>i v. heap_store (\<lambda>a. HeapUtil.setLong a i v))"
  "p_setChars heap_ops = (\<lambda>i bs. heap_store (\<lambda>a. HeapUtil.setChars a i bs))"
  "p_getChar heap_ops = (\<lambda>i. heap_load (\<lambda>a. HeapUtil.getChar a i))"
  "p_getShort heap_ops = (\<lambda>i. heap_load (\<lambda>a. HeapUtil.getShort a i))"
  "p_getInt heap_ops = (\<lambda>i. heap_load (\<lambda>a. HeapUtil.getInt a i))"
  "p_getLong heap_ops = (\<lambda>i. heap_load (\<lambda>a. HeapUtil.getLong a i))"
  "p_getString heap_ops = (\<lambda>i n. heap_load (\<lambda>a. HeapUtil.getString a i n))"
  by (simp_all add: heap_ops_def)

lemma peek_in_bounds: "in_bounds i n m \<Longrightarrow> peek m i n = Ok (loaded m i n)"
  by (simp add: peek_def loaded_def)

lemma poke_in_bounds: "in_bounds i (int (length bs)) m \<Longrightarrow> poke m i bs = Ok (patch (nat i) bs m)"
  by (simp add: poke_def)

lemma length_loaded: "in_bounds i n m \<Longrightarrow> int (length (loaded m i n)) = n"
  by (auto simp: in_bounds_def loaded_def)

lemma getChars_in_bounds:
  "in_bounds i n m \<Longrightarrow> in_bounds di n dst \<Longrightarrow>
   HeapUtil.getChars m i dst di n = Ok (patch (nat di) (loaded m i n) dst)"
  by (simp add: peek_in_bounds poke_in_bounds length_loaded)

declare HeapUtil.getChars.simps [simp del]

lemma heap_set_capacity_grow:
  assumes "heap_valid s" "int (length (array s)) \<le> n" "n \<le> maxCap (hb_base s)"
  shows "\<exists>s' ext. heap_set_capacity n s = (Ok (), s') \<and> heap_valid s' \<and> hb_base s' = hb_base s \<and>
               array s' = array s @ ext \<and> int (length (array s')) = n"
proof (cases "capacity0 s = n")
  case True
  then show ?thesis using assms(1) by (simp add: heap_set_capacity_def prog_simps heap_valid_def)
next
  case False
  then have c: "capacity0 s < n" using assms(1,2) by (simp add: heap_valid_def)
  then have "array s = take (nat n) (array s)" using assms(1) by (simp add: heap_valid_def)
  moreover have "idx_ok (hb_base s) n"
    using assms(1,3) c by (auto simp: heap_valid_def idx_ok_def)
  ultimately show ?thesis using c assms(2)
    by (auto simp: heap_set_capacity_def prog_simps heap_valid_def realloc_def)
qed

interpretation hb: growable_char_buf heap_ops array heap_valid
proof
  fix s :: heap_buf and x y :: indices
  assume v: "heap_valid s"
  show "idx_ok (base heap_ops s) (int (length (array s)))"
    "v_capacity heap_ops s = int (length (array s))" using v by (simp_all add: heap_valid_def)
  show "heap_valid (set_base heap_ops x s)"
    if "idx_ok x (int (length (array s)))" "maxCap x = maxCap (base heap_ops s)"
    using v that by (simp add: heap_valid_def)
next
  fix s :: heap_buf and i n si :: int and src :: "byte list"
  assume "heap_valid s" "in_bounds i n (array s)" "in_bounds si n src"
  then show "stores heap_ops array heap_valid (v_setChars heap_ops i src si n) i (loaded src si n) s"
    using heap_store_run [of s "\<lambda>a. HeapUtil.getChars src si a i n" i "loaded src si n"]
    by (simp add: heap_setChars_def stores_def prog_simps heap_check_run getChars_in_bounds length_loaded)
next
  fix s :: heap_buf and i n si :: int and bs :: "byte list" and g :: getter
  assume "heap_valid s" "in_bounds i n (array s)" "length bs = nat n"
    "\<And>dst di. in_bounds di n dst \<Longrightarrow> g si dst di n = Ok (patch (nat di) bs dst)"
  then show "stores heap_ops array heap_valid (v_setCharsBuf heap_ops i g si n) i bs s"
    by (simp add: heap_setCharsBuf_def, intro heap_store_run) (auto simp: in_bounds_def)
next
  fix s :: heap_buf and i n si :: int
  assume a: "heap_valid s" "in_bounds i n (array s)" "in_bounds si n (array s)"
    "i + n \<le> si \<or> si + n \<le> i"
  then have "copy_within (array s) si i n = Ok (patch (nat i) (loaded (array s) si n) (array s))"
    by (auto simp: copy_within_def getChars_in_bounds)
  then show "stores heap_ops array heap_valid (v_setCharsSelf heap_ops i si n) i
      (loaded (array s) si n) s"
    using heap_store_run [of s "\<lambda>a. copy_within a si i n" i "loaded (array s) si n"] a
    by (simp add: heap_setCharsSelf_def stores_def prog_simps heap_check_run length_loaded)
next
  fix s :: heap_buf and i n di :: int and dst :: "byte list"
  assume "heap_valid s" "in_bounds i n (array s)" "in_bounds di n dst"
  then show "v_getChars heap_ops s i dst di n = Ok (patch (nat di) (loaded (array s) i n) dst)"
    using idx_okD(10) [of "hb_base s" "int (length (array s))"]
    by (simp add: heap_getChars_def getChars_in_bounds heap_valid_def checkRangeBounds_eq in_bounds_def)
next
  fix s :: heap_buf and i :: int
  assume "heap_valid s" "in_bounds i 1 (array s)"
  then show "p_getChar heap_ops i s = (Ok (array s ! nat i), s)"
    by (auto simp: heap_load_def prog_simps getChar_def peek_in_bounds loaded_def in_bounds_def)
next
  fix s :: heap_buf and n :: int
  assume "heap_valid s" "int (length (array s)) \<le> n" "n \<le> maxCap (base heap_ops s)"
  then show "\<exists>s' ext. v_set_capacity heap_ops n s = (Ok (), s') \<and> heap_valid s' \<and>
      base heap_ops s' = base heap_ops s \<and> array s' = array s @ ext \<and> int (length (array s')) = n"
    using heap_set_capacity_grow by simp
qed (auto simp: heap_load_def prog_simps getShort_def getInt_def getLong_def getString_def
      peek_in_bounds poke_in_bounds HeapUtil.setChar_def HeapUtil.setChars_def HeapUtil.setShort_def
      HeapUtil.setInt_def HeapUtil.setLong_def intro!: heap_store_run)

section \<open>Properties\<close>

definition heap_content :: "heap_buf \<Rightarrow> byte list" where
  "heap_content s = content heap_ops array s"

lemma new_valid:
  assumes "0 \<le> n" "n \<le> maxC" "maxC \<le> INT_MAX" "UnpooledHeapCharBuf_new junk n maxC = Ok s"
  shows "heap_valid s \<and> heap_content s = [] \<and> hb_base s = AbstractCharBuf_init maxC \<and>
    int (length (array s)) = n"
  using assms by (auto simp: UnpooledHeapCharBuf_new_def allocateArray_def heap_valid_def
      idx_ok_def AbstractCharBuf_init_def heap_content_def content_def content_of_def loaded_def)

lemma new_Ok: "0 \<le> n \<Longrightarrow> \<exists>s. UnpooledHeapCharBuf_new junk n maxC = Ok s"
  by (simp add: UnpooledHeapCharBuf_new_def allocateArray_def)

text \<open>
  C5: a message written into a new heap buffer as any sequence of typed values (Booleans,
  characters, 16, 32 and 64 bit integers, floats, doubles, strings) is read back as the same
  sequence and nothing is left over, whatever the initial capacity and however often the
  buffer grows on the way, as long as the message fits below \<open>maxCapacity\<close> and 2^30 bytes.
\<close>

theorem heap_items_roundtrip:
  assumes "0 < n" "n \<le> maxC" "maxC \<le> INT_MAX" "UnpooledHeapCharBuf_new junk n maxC = Ok s"
    and "int (length (encode_items xs)) \<le> min maxC (2 ^ 30)"
  shows "\<exists>s1 s2. write_items heap_ops xs s = (Ok (), s1) \<and>
           read_items heap_ops (map kind_of xs) s1 = (Ok xs, s2) \<and> heap_content s2 = []"
proof -
  have v: "heap_valid s" "heap_content s = []" "hb_base s = AbstractCharBuf_init maxC"
    "int (length (array s)) = n" using new_valid [OF _ assms(2-4)] assms(1) by simp_all
  then show ?thesis
    using hb.items_roundtrip [of s xs] assms(1,5)
    by (auto simp: heap_content_def AbstractCharBuf_init_def)
qed

theorem heap_items_roundtrip_witness:
  "\<exists>s s1 s2. UnpooledHeapCharBuf_new (\<lambda>_. 0) 1 64 = Ok s \<and>
     write_items heap_ops [IInt 7, IString [104, 105], IBool True] s = (Ok (), s1) \<and>
     read_items heap_ops [KInt, KString 2, KBool] s1 = (Ok [IInt 7, IString [104, 105], IBool True], s2)"
proof -
  obtain s where s: "UnpooledHeapCharBuf_new (\<lambda>_. 0) 1 64 = Ok s" using new_Ok by fastforce
  have "\<exists>s1 s2. write_items heap_ops [IInt 7, IString [104, 105], IBool True] s = (Ok (), s1) \<and>
      read_items heap_ops (map kind_of [IInt 7, IString [104, 105], IBool True]) s1 =
        (Ok [IInt 7, IString [104, 105], IBool True], s2) \<and> heap_content s2 = []"
    by (rule heap_items_roundtrip [OF _ _ _ s]) (simp_all add: encode_items_def)
  then show ?thesis using s by auto
qed

text \<open>
  C12: \<open>writeChars\<close> on a heap buffer has exactly three outcomes. It appends the bytes; or it
  throws, changing nothing, when they do not fit below \<open>maxCapacity\<close>; or it never returns,
  when the buffer must grow from capacity 0 or beyond 2^30 bytes.
\<close>

theorem heap_write_outcomes:
  assumes "heap_valid s" "0 \<le> len" "len \<le> int (length src)"
  defines "w \<equiv> writerIdx (hb_base s)"
  shows "if len > maxCap (hb_base s) - w
     then writeChars heap_ops src len s = (Throw (RuntimeError ''writerIndex exceeds maxCapacity''), s)
     else if int (length (array s)) < w + len \<and> (array s = [] \<or> 2 ^ 30 < w + len)
     then writeChars heap_ops src len s = (Hang, s)
     else \<exists>s'. writeChars heap_ops src len s = (Ok (), s') \<and> heap_valid s' \<and>
            heap_content s' = heap_content s @ take (nat len) src"
proof -
  have ok: "\<exists>s'. writeChars heap_ops src len s = (Ok (), s') \<and> heap_valid s' \<and>
      heap_content s' = heap_content s @ take (nat len) src"
    if "ensured heap_ops array heap_valid len s"
    using hb.writeChars_appends [OF assms(1-3) that] by (auto simp: appends_def heap_content_def)
  have "ensured heap_ops array heap_valid len s"
    if "len \<le> maxCap (hb_base s) - w"
      "\<not> (int (length (array s)) < w + len \<and> (array s = [] \<or> 2 ^ 30 < w + len))"
    using that hb.ensured_room [OF assms(1), of len] hb.ensured_grow [OF assms(1,2)]
    by (fastforce simp: w_def not_less)
  then show ?thesis
    using ok hb.ensureWritable_overflow [OF assms(1), of len]
      hb.ensureWritable_hangs [OF assms(1,2)]
    by (auto simp: w_def writeChars_def prog_simps)
qed

theorem heap_write_outcomes_witness:
  "\<exists>s. UnpooledHeapCharBuf_new (\<lambda>_. 0) 0 64 = Ok s \<and> writeChars heap_ops [104, 105] 2 s = (Hang, s)"
proof -
  obtain s where s: "UnpooledHeapCharBuf_new (\<lambda>_. 0) 0 64 = Ok s" using new_Ok by fastforce
  then have "heap_valid s" "array s = []" "hb_base s = AbstractCharBuf_init 64"
    using new_valid [of 0 64 "\<lambda>_. 0" s] by auto
  with heap_write_outcomes [of s 2 "[104, 105]"] s show ?thesis
    by (auto simp: AbstractCharBuf_init_def)
qed




lemma copy_within_overlap:
  "0 < n \<Longrightarrow> si < i + n \<Longrightarrow> i < si + n \<Longrightarrow> copy_within m si i n = Undef"
  by (simp add: copy_within_def)

text \<open>
  C18: \<open>discardReadBytes\<close> on a heap buffer moves the unread bytes to the front without changing
  them, and sets the reader index to 0, exactly when they fit into the space already read (or
  nothing was read yet); otherwise its \<open>memcpy\<close> gets overlapping operands, which C++ leaves
  undefined.
\<close>

theorem heap_discardReadBytes:
  assumes "heap_valid s"
  shows "if 0 < readerIdx (hb_base s) \<and> readerIdx (hb_base s) < int (length (heap_content s))
     then fst (discardReadBytes heap_ops s) = Undef
     else \<exists>s'. discardReadBytes heap_ops s = (Ok (), s') \<and> heap_valid s' \<and>
            heap_content s' = heap_content s \<and> readerIdx (hb_base s') = 0"
proof -
  let ?i = "hb_base s" and ?n = "writerIdx (hb_base s) - readerIdx (hb_base s)"
  have len: "int (length (heap_content s)) = ?n"
    using hb.content_len [OF assms] by (simp add: heap_content_def)
  note i = idx_okD [OF hb.valid_idx [OF assms], simplified]
  show ?thesis
  proof (cases "0 < readerIdx ?i \<and> readerIdx ?i < int (length (heap_content s))")
    case True
    then have o: "0 < readerIdx ?i" "readerIdx ?i < ?n" using len by auto
    have "heap_check (readerIdx ?i) ?n s = (Ok (), s)"
      using i o by (intro heap_check_run [OF assms]) (simp add: in_bounds_def)
    moreover have "copy_within (array s) (readerIdx ?i) 0 ?n = Undef"
      using o by (intro copy_within_overlap) auto
    moreover have "i32 ?n = ?n" using i o by simp
    ultimately have "fst (discardReadBytes heap_ops s) = Undef"
      using o by (simp add: discardReadBytes_def prog_simps compact_def heap_setCharsSelf_def heap_store_def)
    then show ?thesis using True by simp
  next
    case False
    show ?thesis
    proof (cases "readerIdx ?i = 0")
      case True
      then show ?thesis using assms by (simp add: discardReadBytes_def prog_simps)
    next
      case ne: False
      then have "int (length (content heap_ops array s)) \<le> readerIdx (base heap_ops s)"
        using False i by (simp add: heap_content_def)
      from hb.discardReadBytes_run [OF assms this] False show ?thesis
        unfolding if_not_P [OF False] by (simp add: heap_content_def)
    qed
  qed
qed

theorem heap_discardReadBytes_witness:
  "\<exists>s s'. UnpooledHeapCharBuf_new (\<lambda>_. 0) 8 64 = Ok s \<and> discardReadBytes heap_ops s = (Ok (), s')"
proof -
  obtain s where s: "UnpooledHeapCharBuf_new (\<lambda>_. 0) 8 64 = Ok s" using new_Ok by fastforce
  then have "heap_valid s" "heap_content s = []" using new_valid [of 8 64 "\<lambda>_. 0" s] by auto
  with heap_discardReadBytes [of s] s show ?thesis by (auto split: if_splits)
qed

text \<open>
  \<open>discardSomeReadBytes\<close>, which the connections call after every read, keeps the unread
  content and leaves the reader index below half of the capacity, for every buffer whose
  capacity is even or whose writer has not reached the end.
\<close>

theorem heap_discardSomeReadBytes:
  assumes "heap_valid s" "even (capacity0 s) \<or> writerIdx (hb_base s) < capacity0 s"
  shows "\<exists>s'. discardSomeReadBytes heap_ops s = (Ok (), s') \<and> heap_valid s' \<and>
    heap_content s' = heap_content s \<and> capacity0 s' = capacity0 s \<and>
    (readerIdx (hb_base s') = 0 \<or> 2 * readerIdx (hb_base s') < capacity0 s')"
proof -
  have c: "capacity0 t = int (length (array t))" if "heap_valid t" for t
    using that by (simp add: heap_valid_def)
  obtain s' where "discardSomeReadBytes heap_ops s = (Ok (), s')" "heap_valid s'"
    "heap_content s' = heap_content s" "length (array s') = length (array s)"
    "readerIdx (hb_base s') = 0 \<or> 2 * readerIdx (hb_base s') < int (length (array s))"
    using hb.discardSomeReadBytes_run [OF assms(1)] assms(2) c [OF assms(1)]
    by (auto simp: heap_content_def)
  then show ?thesis using c [OF assms(1)] c [of s'] by auto
qed

theorem heap_discardSomeReadBytes_witness:
  "\<exists>s s'. UnpooledHeapCharBuf_new (\<lambda>_. 0) 8 64 = Ok s \<and> discardSomeReadBytes heap_ops s = (Ok (), s')"
proof -
  obtain s where s: "UnpooledHeapCharBuf_new (\<lambda>_. 0) 8 64 = Ok s" using new_Ok by fastforce
  then have "heap_valid s" "capacity0 s = 8"
    using new_valid [of 8 64 "\<lambda>_. 0" s] by (auto simp: heap_valid_def)
  with heap_discardSomeReadBytes [of s] s show ?thesis by auto
qed

text \<open>
  C19: changing the capacity of a heap buffer to any size between 0 and \<open>maxCapacity\<close> keeps the
  class invariant and the bytes below the new capacity; the readable content is cut at the new
  end and not changed otherwise.
\<close>

theorem heap_capacity_change:
  assumes "heap_valid s" "0 \<le> n" "n \<le> maxCap (hb_base s)"
  shows "\<exists>s'. heap_set_capacity n s = (Ok (), s') \<and> heap_valid s' \<and> capacity0 s' = n \<and>
    take (length (array s')) (array s) = take (length (array s)) (array s') \<and>
    heap_content s' = take (nat (n - readerIdx (hb_base s))) (heap_content s)"
proof (cases "capacity0 s \<le> n")
  case True
  then have "int (length (array s)) \<le> n" using assms(1) by (simp add: heap_valid_def)
  from heap_set_capacity_grow [OF assms(1) this assms(3)]
  obtain s' ext where s': "heap_set_capacity n s = (Ok (), s')" "heap_valid s'" "hb_base s' = hb_base s"
    "array s' = array s @ ext" "int (length (array s')) = n" by blast
  note i = idx_okD [OF hb.valid_idx [OF assms(1)], simplified]
  have "heap_content s' = heap_content s"
    using i loaded_append s' by (simp add: heap_content_def content_def content_of_def)
  moreover have "length (heap_content s) \<le> nat (n - readerIdx (hb_base s))"
    using hb.content_len [OF assms(1)] i s'(4,5) by (simp add: heap_content_def)
  ultimately show ?thesis using s' by (auto simp: heap_valid_def)
next
  case False
  let ?i = "hb_base s"
  note i = idx_okD [OF hb.valid_idx [OF assms(1)], simplified]
  have c: "capacity0 s = int (length (array s))" using assms(1) by (simp add: heap_valid_def)
  define j where "j = (if readerIdx ?i < n then ?i\<lparr>writerIdx := min (writerIdx ?i) n\<rparr>
                       else ?i\<lparr>readerIdx := n, writerIdx := n\<rparr>)"
  define s' where "s' = s\<lparr>hb_base := j, capacity0 := n, array := take (nat n) (array s)\<rparr>"
  have run: "heap_set_capacity n s = (Ok (), s')"
    using False c i assms(2,3)
    by (auto simp: heap_set_capacity_def prog_simps s'_def j_def realloc_def checkIndexBounds_def min_def)
  have "heap_valid s'"
    using False c i assms(2,3) by (auto simp: s'_def j_def heap_valid_def idx_ok_def min_def)
  moreover have "heap_content s' = take (nat (n - readerIdx ?i)) (heap_content s)"
  proof (cases "readerIdx ?i < n")
    case r: True
    have "loaded (take (nat n) (array s)) (readerIdx ?i) (min (writerIdx ?i) n - readerIdx ?i)
        = take (nat (n - readerIdx ?i)) (loaded (array s) (readerIdx ?i) (writerIdx ?i - readerIdx ?i))"
      using r i by (intro loaded_take) auto
    then show ?thesis using r by (simp add: heap_content_def content_def content_of_def s'_def j_def)
  qed (simp add: heap_content_def content_def content_of_def s'_def j_def loaded_def)
  ultimately show ?thesis using run False c by (simp add: s'_def min_def)
qed

theorem heap_capacity_change_witness:
  "\<exists>s s'. UnpooledHeapCharBuf_new (\<lambda>_. 0) 8 64 = Ok s \<and> heap_set_capacity 3 s = (Ok (), s') \<and> capacity0 s' = 3"
proof -
  obtain s where s: "UnpooledHeapCharBuf_new (\<lambda>_. 0) 8 64 = Ok s" using new_Ok by fastforce
  then have "heap_valid s" "hb_base s = AbstractCharBuf_init 64"
    using new_valid [of 8 64 "\<lambda>_. 0" s] by auto
  with heap_capacity_change [of s 3] s show ?thesis by (auto simp: AbstractCharBuf_init_def)
qed

text \<open>
  two holes in the bounds checks. \<open>getFloat\<close> calls \<open>_getInt\<close> without the check that
  \<open>getInt\<close> makes: outside the array the one is undefined where the other throws. And
  \<open>writerIndex(int)\<close> is checked against \<open>maxCapacity\<close>, not against the capacity, so that an index
  between the two is accepted and a later \<open>readString\<close> reads past the array.
\<close>

theorem heap_unchecked_accesses:
  assumes "heap_valid s" "capacity0 s \<le> index" "index \<le> maxCap (hb_base s) - 4"
  shows "get_Int heap_ops index s = (Throw (RuntimeError ''checkRangeBounds failed''), s) \<and>
    get_Float heap_ops index s = (Undef, s) \<and>
    (\<exists>s'. set_writerIndex heap_ops (index + 1) s = (Ok (), s') \<and>
          readString heap_ops (index + 1 - readerIdx (hb_base s)) s' = (Undef, s'))"
proof -
  let ?i = "hb_base s" and ?n = "index + 1 - readerIdx (hb_base s)"
  note i = idx_okD [OF hb.valid_idx [OF assms(1)], simplified]
  have c: "capacity0 s = int (length (array s))" using assms(1) by (simp add: heap_valid_def)
  have "\<not> in_bounds index 4 (array s)" using assms(2) c by (simp add: in_bounds_def)
  then have "get_Int heap_ops index s = (Throw (RuntimeError ''checkRangeBounds failed''), s)"
    using hb.checkIndex_run [OF assms(1), of index 4] i assms(2,3) c
    by (simp add: get_Int_def prog_simps)
  moreover have "get_Float heap_ops index s = (Undef, s)"
    using assms(2) c by (simp add: get_Float_def heap_load_def prog_simps HeapUtil.getInt_def peek_Undef)
  moreover define s' where "s' = s\<lparr>hb_base := ?i\<lparr>writerIdx := index + 1\<rparr>\<rparr>"
  have w: "set_writerIndex heap_ops (index + 1) s = (Ok (), s')"
    using i assms(2,3) c
    by (simp add: set_writerIndex_def prog_simps maxCapacity_def checkIndexBounds_def upd_base_def s'_def)
  moreover have "readString heap_ops ?n s' = (Undef, s')"
  proof -
    have "i32 (readerIdx ?i + ?n) = index + 1" using i assms(2,3) c by simp
    then show ?thesis using assms(2) c i
      by (simp add: readString_def prog_simps checkReadable_def readerIndex_def s'_def heap_load_def
          HeapUtil.getString_def peek_Undef)
  qed
  ultimately show ?thesis by blast
qed

theorem heap_unchecked_accesses_witness:
  "\<exists>s. UnpooledHeapCharBuf_new (\<lambda>_. 0) 8 64 = Ok s \<and> get_Float heap_ops 20 s = (Undef, s)"
proof -
  obtain s where s: "UnpooledHeapCharBuf_new (\<lambda>_. 0) 8 64 = Ok s" using new_Ok by fastforce
  then have "heap_valid s" "capacity0 s = 8" "hb_base s = AbstractCharBuf_init 64"
    using new_valid [of 8 64 "\<lambda>_. 0" s] by (auto simp: heap_valid_def)
  with heap_unchecked_accesses [of s 20] s show ?thesis by (auto simp: AbstractCharBuf_init_def)
qed

end
