(* ===== verification/PooledBuf.thy ===== *)
theory PooledBuf
  imports Arena HeapBuf
begin

text \<open>
  \<open>PooledCharBuf\<close> and \<open>PooledHeapCharBuf\<close> (src/common/buffer): a buffer whose bytes are a window
  into the memory of an arena chunk, its change of capacity through the arena, and its return of
  the memory when the last reference is released. The recycler of \<open>PooledHeapCharBuf\<close> objects is
  compiled out (\<open>#if 0\<close>), so \<open>newInstance\<close> always creates an object without one.
\<close>

section \<open>State\<close>

record pooled_buf =
  pb_base :: indices
  pb_refCnt :: int
  pb_chunk :: nat
  pb_handle :: int
  pb_offset :: int
  pb_length :: int
  pb_maxLength :: int
  pb_memory :: nat

text \<open>
  The world of one buffer: the arena, the memory of each of its chunks (\<open>PoolChunk::memory\<close>, by
  the chunk's address, empty when deleted), what unpooled memory happens to contain, and the buffer.
\<close>

record pool_world =
  pw_arena :: arena
  pw_mem :: "nat \<Rightarrow> byte list"
  pw_junk :: "nat \<Rightarrow> byte"
  pw_buf :: pooled_buf

definition PooledCharBuf_new :: "int \<Rightarrow> pooled_buf" where
  "PooledCharBuf_new maxC = \<lparr>pb_base = AbstractCharBuf_init maxC, pb_refCnt = 1, pb_chunk = 0,
     pb_handle = 0, pb_offset = 0, pb_length = 0, pb_maxLength = 0, pb_memory = 0\<rparr>"

definition reuse :: "int \<Rightarrow> pooled_buf \<Rightarrow> pooled_buf" where
  "reuse maxC b = b\<lparr>pb_base := \<lparr>readerIdx = 0, writerIdx = 0, markedReaderIdx = 0,
     markedWriterIdx = 0, maxCap = maxC\<rparr>, pb_refCnt := resetRefCnt\<rparr>"

definition init_buf :: "region \<Rightarrow> pooled_buf \<Rightarrow> pooled_buf" where
  "init_buf rg b = b\<lparr>pb_chunk := rg_chunk rg, pb_handle := rg_handle rg, pb_offset := rg_offset rg,
     pb_length := rg_length rg, pb_maxLength := rg_maxLength rg, pb_memory := rg_chunk rg\<rparr>"

section \<open>The arena and the memory of its chunks\<close>

text \<open>
  The constructors of \<open>PoolChunk\<close> allocate the memory (a pooled chunk clears it), the destructor
  deletes it: after a call of the arena, the memory follows its chunks.
\<close>

definition sync_memory :: "(nat \<Rightarrow> byte) \<Rightarrow> arena \<Rightarrow> arena \<Rightarrow> (nat \<Rightarrow> byte list) \<Rightarrow> nat \<Rightarrow> byte list" where
  "sync_memory junk s s' mem a =
     (case chunks s' a of
        None \<Rightarrow> []
      | Some c \<Rightarrow>
          if chunks s a = None
          then map (\<lambda>i. if unpooled c then junk i else 0) [0..<nat (chunkSize c)] else mem a)"

definition in_arena :: "(arena, 'a) prog \<Rightarrow> (pool_world, 'a) prog" where
  "in_arena m w = (case m (pw_arena w) of (r, s') \<Rightarrow>
     (r, w\<lparr>pw_arena := s', pw_mem := sync_memory (pw_junk w) (pw_arena w) s' (pw_mem w)\<rparr>))"

definition with_region :: "(arena, region) prog \<Rightarrow> (pool_world, unit) prog" where
  "with_region m = bindp (in_arena m) (\<lambda>rg. modify (\<lambda>w. w\<lparr>pw_buf := init_buf rg (pw_buf w)\<rparr>))"

text \<open>\<open>PoolArena::allocate(reqCapacity, maxCapacity)\<close>, called by \<open>PooledCharBufAllocator::newHeapBuffer\<close>.\<close>

definition newHeapBuffer :: "int \<Rightarrow> int \<Rightarrow> (pool_world, unit) prog" where
  "newHeapBuffer initialCapacity maxC = doM
     [modify (\<lambda>w. w\<lparr>pw_buf := PooledCharBuf_new maxC\<rparr>), with_region (arena_allocate initialCapacity)]"

text \<open>\<open>AbstractCharBufAllocator::heapBuffer\<close> returns a null pointer for an empty or contradictory request.\<close>

definition heapBuffer :: "int \<Rightarrow> int \<Rightarrow> (pool_world, bool) prog" where
  "heapBuffer initialCapacity maxC =
     (if initialCapacity = 0 \<or> maxC = 0 \<or> initialCapacity > maxC then ret False
      else seqp (newHeapBuffer initialCapacity maxC) (ret True))"

section \<open>Capacity\<close>

definition trim :: "int \<Rightarrow> indices \<Rightarrow> indices" where
  "trim newCapacity i =
     (if writerIdx i > newCapacity
      then i\<lparr>readerIdx := min (readerIdx i) newCapacity, writerIdx := newCapacity\<rparr> else i)"

definition trimIndicesToCapacity :: "int \<Rightarrow> (pool_world, unit) prog" where
  "trimIndicesToCapacity newCapacity =
     modify (pw_buf_update (pb_base_update (trim newCapacity)))"

text \<open>\<open>memcpy\<close> between two windows, which may lie in the same chunk.\<close>

definition copy_memory :: "nat \<Rightarrow> int \<Rightarrow> nat \<Rightarrow> int \<Rightarrow> int \<Rightarrow> (pool_world, unit) prog" where
  "copy_memory src si dst di n =
     bindp (lift_outcome (\<lambda>w.
        if src = dst then copy_within (pw_mem w dst) si di n
        else HeapUtil.getChars (pw_mem w src) si (pw_mem w dst) di n)) (\<lambda>bs.
     modify (\<lambda>w. w\<lparr>pw_mem := (pw_mem w)(dst := bs)\<rparr>))"

definition reallocate :: "int \<Rightarrow> (pool_world, unit) prog" where
  "reallocate newCapacity =
     seqp (assertp (\<lambda>w. newCapacity \<ge> 0 \<and> newCapacity \<le> maxCap (pb_base (pw_buf w))))
     (bindp (asks pw_buf) (\<lambda>old.
      if pb_length old = newCapacity then ret ()
      else doM
       [with_region (arena_allocate newCapacity),
        (if newCapacity > pb_length old then ret () else trimIndicesToCapacity newCapacity),
        bindp (asks pw_buf) (\<lambda>new. copy_memory (pb_memory old) (pb_offset old)
          (pb_memory new) (pb_offset new)
          (if newCapacity > pb_length old then pb_length old else newCapacity)),
        in_arena (arena_free (pb_chunk old) (pb_handle old))]))"

definition checkNewCapacity :: "int \<Rightarrow> (pool_world, unit) prog" where
  "checkNewCapacity newCapacity =
     throw_if (\<lambda>w. newCapacity < 0 \<or> newCapacity > maxCap (pb_base (pw_buf w)))
       (RuntimeError ''newCapacity out of range'')"

definition is_unpooled :: "pool_world \<Rightarrow> bool outcome" where
  "is_unpooled w = (case chunks (pw_arena w) (pb_chunk (pw_buf w)) of
      None \<Rightarrow> Undef | Some c \<Rightarrow> Ok (unpooled c))"

definition pooled_set_capacity :: "int \<Rightarrow> (pool_world, unit) prog" where
  "pooled_set_capacity newCapacity =
     bindp (asks pw_buf) (\<lambda>b.
     if newCapacity = pb_length b then ret ()
     else seqp (checkNewCapacity newCapacity)
       (bindp (lift_outcome is_unpooled) (\<lambda>unp.
        if \<not> unp \<and> newCapacity > pb_length b \<and> newCapacity \<le> pb_maxLength b
        then modify (pw_buf_update (pb_length_update (\<lambda>_. newCapacity)))
        else if \<not> unp \<and> newCapacity < pb_length b \<and> newCapacity > drop_bit 1 (pb_maxLength b) \<and>
                (pb_maxLength b > 512 \<or> newCapacity > pb_maxLength b - 16)
        then doM [modify (pw_buf_update (pb_length_update (\<lambda>_. newCapacity))),
                  trimIndicesToCapacity newCapacity]
        else reallocate newCapacity)))"

section \<open>Release\<close>

definition deallocate :: "(pool_world, unit) prog" where
  "deallocate = bindp (asks pw_buf) (\<lambda>b.
     if pb_handle b \<ge> 0
     then doM [in_arena (arena_free (pb_chunk b) (pb_handle b)),
               modify (pw_buf_update (\<lambda>b. b\<lparr>pb_memory := 0, pb_handle := - 1, pb_chunk := 0\<rparr>))]
     else ret ())"

definition pooled_release :: "int \<Rightarrow> (pool_world, unit) prog" where
  "pooled_release n = bindp (asks (\<lambda>w. release_count n (pb_refCnt (pw_buf w)))) (\<lambda>(cnt, dead).
     seqp (modify (pw_buf_update (pb_refCnt_update (\<lambda>_. cnt)))) (if dead then deallocate else ret ()))"

section \<open>Access\<close>

definition pool_idx :: "int \<Rightarrow> pooled_buf \<Rightarrow> int" where
  "pool_idx index b = i32 (index + pb_offset b)"

definition pool_store ::
  "int \<Rightarrow> (byte list \<Rightarrow> int \<Rightarrow> byte list outcome) \<Rightarrow> (pool_world, unit) prog" where
  "pool_store index f = bindp (asks pw_buf) (\<lambda>b.
     bindp (lift_outcome (\<lambda>w. f (pw_mem w (pb_memory b)) (pool_idx index b))) (\<lambda>m.
     modify (\<lambda>w. w\<lparr>pw_mem := (pw_mem w)(pb_memory b := m)\<rparr>)))"

definition pool_load :: "int \<Rightarrow> (byte list \<Rightarrow> int \<Rightarrow> 'a outcome) \<Rightarrow> (pool_world, 'a) prog" where
  "pool_load index f = bindp (asks pw_buf) (\<lambda>b.
     lift_outcome (\<lambda>w. f (pw_mem w (pb_memory b)) (pool_idx index b)))"

definition pooled_check :: "int \<Rightarrow> int \<Rightarrow> (pool_world, unit) prog" where
  "pooled_check index len = lift_outcome (\<lambda>w. checkRangeBounds index len (pb_length (pw_buf w)))"

definition pooled_setChars :: "int \<Rightarrow> byte list \<Rightarrow> int \<Rightarrow> int \<Rightarrow> (pool_world, unit) prog" where
  "pooled_setChars index src srcIndex len =
     seqp (pooled_check index len) (pool_store index (\<lambda>m i. HeapUtil.getChars src srcIndex m i len))"

definition pooled_setCharsBuf :: "int \<Rightarrow> getter \<Rightarrow> int \<Rightarrow> int \<Rightarrow> (pool_world, unit) prog" where
  "pooled_setCharsBuf index src srcIndex len = pool_store index (\<lambda>m i. src srcIndex m i len)"

definition pooled_setCharsSelf :: "int \<Rightarrow> int \<Rightarrow> int \<Rightarrow> (pool_world, unit) prog" where
  "pooled_setCharsSelf index srcIndex len =
     bindp (asks (\<lambda>w. pool_idx srcIndex (pw_buf w))) (\<lambda>si.
       pool_store index (\<lambda>m i. copy_within m si i len))"

text \<open>\<open>getChars\<close> has no check at all.\<close>

definition pooled_getChars :: "pool_world \<Rightarrow> getter" where
  "pooled_getChars w index dst dstIndex len =
     HeapUtil.getChars (pw_mem w (pb_memory (pw_buf w))) (pool_idx index (pw_buf w)) dst dstIndex len"

definition pool_ops :: "pool_world vtable" where
  "pool_ops = \<lparr>
     base = (\<lambda>w. pb_base (pw_buf w)),
     set_base = (\<lambda>i. pw_buf_update (pb_base_update (\<lambda>_. i))),
     v_capacity = (\<lambda>w. pb_length (pw_buf w)),
     v_set_capacity = pooled_set_capacity,
     v_setChars = pooled_setChars,
     v_setCharsBuf = pooled_setCharsBuf,
     v_setCharsSelf = pooled_setCharsSelf,
     v_getChars = pooled_getChars,
     p_setChar = (\<lambda>i v. pool_store i (\<lambda>m i. HeapUtil.setChar m i v)),
     p_setShort = (\<lambda>i v. pool_store i (\<lambda>m i. HeapUtil.setShort m i v)),
     p_setInt = (\<lambda>i v. pool_store i (\<lambda>m i. HeapUtil.setInt m i v)),
     p_setLong = (\<lambda>i v. pool_store i (\<lambda>m i. HeapUtil.setLong m i v)),
     p_setChars = (\<lambda>i bs. pool_store i (\<lambda>m i. HeapUtil.setChars m i bs)),
     p_getChar = (\<lambda>i. pool_load i HeapUtil.getChar),
     p_getShort = (\<lambda>i. pool_load i HeapUtil.getShort),
     p_getInt = (\<lambda>i. pool_load i HeapUtil.getInt),
     p_getLong = (\<lambda>i. pool_load i HeapUtil.getLong),
     p_getString = (\<lambda>i n. pool_load i (\<lambda>m i. HeapUtil.getString m i n))\<rparr>"

end
