(* ===== verification/ChunkLines.thy ===== *)
theory ChunkLines
  imports Arena
begin

text \<open>
  The chunk lists of an arena as lines: doubly linked, without cycles, pairwise disjoint. What
  \<open>remove\<close>, \<open>add0\<close>, \<open>add\<close> and \<open>move\<close> do to them, and that a chunk comes to rest in a list whose
  band contains its usage.
\<close>

section \<open>Lines\<close>

text \<open>The addresses between \<open>p\<close> and \<open>n\<close>, linked in both directions.\<close>

fun seg :: "(nat \<Rightarrow> chunk option) \<Rightarrow> nat \<Rightarrow> nat list \<Rightarrow> nat \<Rightarrow> bool" where
  "seg C p [] n = True"
| "seg C p (a # as) n = ((\<exists>c. C a = Some c \<and> ck_prev c = p \<and> ck_next c = hd (as @ [n])) \<and> seg C a as n)"

lemma seg_append: "seg C p (as @ bs) n \<longleftrightarrow> seg C p as (hd (bs @ [n])) \<and> seg C (last (p # as)) bs n"
proof (induction as arbitrary: p)
  case (Cons a as)
  have "hd ((as @ bs) @ [n]) = hd (as @ [hd (bs @ [n])])" by (cases as) simp_all
  then show ?case using Cons.IH [of a] by (simp only: append_Cons seg.simps last.simps) auto
qed simp

definition links :: "chunk \<Rightarrow> nat \<times> nat" where "links c = (ck_prev c, ck_next c)"

lemma seg_cong:
  "(\<And>x. x \<in> set as \<Longrightarrow> map_option links (C x) = map_option links (C' x)) \<Longrightarrow> seg C p as n = seg C' p as n"
proof (induction as arbitrary: p)
  case (Cons a as)
  have "map_option links (C a) = map_option links (C' a)" by (rule Cons.prems) simp
  moreover have "seg C a as n = seg C' a as n" by (rule Cons.IH) (simp add: Cons.prems)
  ultimately show ?case by (cases "C a"; cases "C' a") (auto simp: links_def)
qed simp

lemma seg_dom: "seg C p as n \<Longrightarrow> a \<in> set as \<Longrightarrow> C a \<noteq> None"
  by (induction as arbitrary: p) auto

definition line :: "arena \<Rightarrow> nat \<Rightarrow> nat list \<Rightarrow> bool" where
  "line s l xs \<longleftrightarrow> distinct xs \<and> 0 \<notin> set xs \<and> list_head (lists s l) = hd (xs @ [0]) \<and> seg (chunks s) 0 xs 0 \<and>
     (\<forall>a\<in>set xs. map_option ck_parent (chunks s a) = Some l)"

definition lines :: "arena \<Rightarrow> (nat \<Rightarrow> nat list) \<Rightarrow> bool" where
  "lines s Q \<longleftrightarrow> (\<forall>l. line s l (Q l))"

lemma lines_disjoint: "lines s Q \<Longrightarrow> a \<in> set (Q l) \<Longrightarrow> a \<in> set (Q k) \<Longrightarrow> k = l"
proof -
  assume "lines s Q" "a \<in> set (Q l)" "a \<in> set (Q k)"
  then have "map_option ck_parent (chunks s a) = Some l" "map_option ck_parent (chunks s a) = Some k"
    unfolding lines_def line_def by blast+
  then show ?thesis by simp
qed

text \<open>What the list operations leave alone.\<close>

definition bare :: "chunk \<Rightarrow> chunk" where
  "bare c = c\<lparr>ck_parent := 0, ck_prev := 0, ck_next := 0\<rparr>"

definition headless :: "chunk_list \<Rightarrow> chunk_list" where "headless L = L\<lparr>list_head := 0\<rparr>"

definition relinked :: "arena \<Rightarrow> arena \<Rightarrow> bool" where
  "relinked s s' \<longleftrightarrow> (\<exists>C L. s' = s\<lparr>chunks := C, lists := L\<rparr> \<and>
     (\<forall>x. map_option bare (C x) = map_option bare (chunks s x)) \<and> (\<forall>l. headless (L l) = headless (lists s l)))"

lemma relinked_refl: "relinked s s"
  unfolding relinked_def by (intro exI [of _ "chunks s"] exI [of _ "lists s"]) simp

lemma relinked_trans: "relinked s t \<Longrightarrow> relinked t u \<Longrightarrow> relinked s u"
  unfolding relinked_def by (elim exE conjE) (rule exI, rule exI, simp)

lemma relinkedD:
  assumes "relinked s s'"
  shows "map_option bare (chunks s' x) = map_option bare (chunks s x)" "headless (lists s' l) = headless (lists s l)"
    "subs s' = subs s" "new_chunk s' = new_chunk s" "new_subpage s' = new_subpage s"
    "tinySubpagePools s' = tinySubpagePools s" "smallSubpagePools s' = smallSubpagePools s"
    "ar_pageSize s' = ar_pageSize s" "ar_chunkSize s' = ar_chunkSize s" "ar_maxOrder s' = ar_maxOrder s"
    "ar_pageShifts s' = ar_pageShifts s" "bitmap_junk s' = bitmap_junk s"
  using assms by (auto simp: relinked_def)

lemma of_bare: "usage (bare c) = usage c" "memoryMap (bare c) = memoryMap c" "depthMap (bare c) = depthMap c"
  "subpages (bare c) = subpages c" "freeBytes (bare c) = freeBytes c" "unpooled (bare c) = unpooled c" "offset (bare c) = offset c"
  "unusable (bare c) = unusable c" "maxOrder (bare c) = maxOrder c" "chunkSize (bare c) = chunkSize c"
  by (simp_all add: bare_def usage_def)

lemma of_headless: "minUsage (headless L) = minUsage L" "maxUsage (headless L) = maxUsage L" "nextList (headless L) = nextList L"
  "prevList (headless L) = prevList L" "listCapacity (headless L) = listCapacity L"
  by (simp_all add: headless_def)

lemma relinked_chunk:
  assumes "relinked s s'" "chunks s a = Some c"
  obtains c' where "chunks s' a = Some c'" "bare c' = bare c"
  using relinkedD(1) [OF assms(1), of a] assms(2) by (cases "chunks s' a") auto

section \<open>Setting links\<close>

definition set_next :: "nat \<Rightarrow> nat \<Rightarrow> arena \<Rightarrow> arena" where
  "set_next x n s = s\<lparr>chunks := (chunks s)(x := map_option (ck_next_update (\<lambda>_. n)) (chunks s x))\<rparr>"

definition set_prev :: "nat \<Rightarrow> nat \<Rightarrow> arena \<Rightarrow> arena" where
  "set_prev x n s = s\<lparr>chunks := (chunks s)(x := map_option (ck_prev_update (\<lambda>_. n)) (chunks s x))\<rparr>"

definition put_head :: "nat \<Rightarrow> nat \<Rightarrow> arena \<Rightarrow> arena" where
  "put_head l a s = s\<lparr>lists := (lists s)(l := (lists s l)\<lparr>list_head := a\<rparr>)\<rparr>"

definition set_parent :: "nat \<Rightarrow> nat \<Rightarrow> arena \<Rightarrow> arena" where
  "set_parent x n s = s\<lparr>chunks := (chunks s)(x := map_option (ck_parent_update (\<lambda>_. n)) (chunks s x))\<rparr>"

lemma relinkedI:
  assumes "\<And>x. map_option bare (chunks t x) = map_option bare (chunks s x)" "\<And>l. headless (lists t l) = headless (lists s l)"
    and "t = s\<lparr>chunks := chunks t, lists := lists t\<rparr>"
  shows "relinked s t"
  unfolding relinked_def using assms by (intro exI [of _ "chunks t"] exI [of _ "lists t"]) simp

lemma relinked_sets: "relinked s (set_next x n s)" "relinked s (set_prev x n s)" "relinked s (put_head l a s)"
  "relinked s (set_parent x n s)"
     apply (rule relinkedI; cases "chunks s x"; simp add: set_next_def bare_def)
    apply (rule relinkedI; cases "chunks s x"; simp add: set_prev_def bare_def)
   apply (rule relinkedI; simp add: put_head_def headless_def)
  apply (rule relinkedI; cases "chunks s x"; simp add: set_parent_def bare_def)
  done

lemma set_runs:
  "chunks s x \<noteq> None \<Longrightarrow> upd_chunk x (ck_next_update (\<lambda>_. n)) s = (Ok (), set_next x n s)"
  "chunks s x \<noteq> None \<Longrightarrow> upd_chunk x (ck_prev_update (\<lambda>_. n)) s = (Ok (), set_prev x n s)"
  "chunks s x \<noteq> None \<Longrightarrow> upd_chunk x (ck_parent_update (\<lambda>_. n)) s = (Ok (), set_parent x n s)"
  "set_head l a s = (Ok (), put_head l a s)"
  by (auto simp: on_chunk_def modify_run set_next_def set_prev_def set_parent_def set_head_def put_head_def)

lemma upd_chunk_run: "chunks s a = Some c \<Longrightarrow> upd_chunk a f s = (Ok (), s\<lparr>chunks := (chunks s)(a \<mapsto> f c)\<rparr>)"
  by (simp add: on_chunk_def modify_run)

lemma set_dom: "chunks (set_next x n s) y = None \<longleftrightarrow> chunks s y = None" "chunks (set_prev x n s) y = None \<longleftrightarrow> chunks s y = None"
  "chunks (set_parent x n s) y = None \<longleftrightarrow> chunks s y = None" "chunks (put_head l a s) = chunks s"
  by (simp_all add: set_next_def set_prev_def set_parent_def put_head_def)

lemma set_lists: "lists (set_next x n s) = lists s" "lists (set_prev x n s) = lists s" "lists (set_parent x n s) = lists s"
  "list_head (lists (put_head l a s) k) = (if k = l then a else list_head (lists s k))"
  by (simp_all add: set_next_def set_prev_def set_parent_def put_head_def)

lemma set_parents:
  "map_option ck_parent (chunks (set_next x n s) y) = map_option ck_parent (chunks s y)"
  "map_option ck_parent (chunks (set_prev x n s) y) = map_option ck_parent (chunks s y)"
  "map_option ck_parent (chunks (set_parent x n s) y) =
     (if y = x then map_option (\<lambda>_. n) (chunks s x) else map_option ck_parent (chunks s y))"
  by (cases "chunks s x"; simp add: set_next_def set_prev_def set_parent_def)+

lemma seg_other:
  "x \<notin> set as \<Longrightarrow> seg (chunks (set_next x n s)) p as m = seg (chunks s) p as m"
  "x \<notin> set as \<Longrightarrow> seg (chunks (set_prev x n s)) p as m = seg (chunks s) p as m"
  "seg (chunks (set_parent x n s)) p as m = seg (chunks s) p as m"
  by (rule seg_cong, cases "chunks s x"; auto simp: set_next_def set_prev_def set_parent_def links_def)+

lemma set_next_last:
  "seg (chunks s) q (xs @ [p]) n \<Longrightarrow> p \<notin> set xs \<Longrightarrow> seg (chunks (set_next p m s)) q (xs @ [p]) m"
  by (auto simp: seg_append seg_other) (auto simp: set_next_def)

lemma set_prev_first:
  "seg (chunks s) q (b # zs) n \<Longrightarrow> b \<notin> set zs \<Longrightarrow> seg (chunks (set_prev b m s)) m (b # zs) n"
  by (auto simp: seg_other) (auto simp: set_prev_def)

section \<open>Taking a chunk out\<close>

lemma line_dom: "line s l xs \<Longrightarrow> a \<in> set xs \<Longrightarrow> chunks s a \<noteq> None"
  by (auto simp: line_def)

lemma line_split:
  assumes "line s l (ys @ a # zs)"
  obtains c where "chunks s a = Some c" "ck_prev c = last (0 # ys)" "ck_next c = hd (zs @ [0])" "ck_parent c = l"
  using assms by (auto simp: line_def seg_append)

lemma line_cut:
  assumes "line s l (ys @ a # zs)"
  shows "line (let p = last (0 # ys); n = hd (zs @ [0]); s1 = (if ys = [] then put_head l n s else set_next p n s)
     in if zs = [] then s1 else set_prev n p s1) l (ys @ zs)"
proof -
  have d: "distinct (ys @ a # zs)" "0 \<notin> set (ys @ a # zs)" "seg (chunks s) 0 ys a" "seg (chunks s) a zs 0"
    "list_head (lists s l) = hd ((ys @ a # zs) @ [0])" "\<forall>x\<in>set (ys @ zs). map_option ck_parent (chunks s x) = Some l"
    using assms by (simp_all add: line_def seg_append)
  show ?thesis
  proof (cases ys rule: rev_cases)
    case Nil
    then show ?thesis
    proof (cases zs)
      case (Cons b zs')
      then have "seg (chunks (set_prev b 0 (put_head l b s))) 0 (b # zs') 0"
        using d Nil by (intro set_prev_first [where q = a]) (simp_all add: set_dom)
      then show ?thesis using Nil Cons d by (auto simp: line_def set_lists set_parents set_dom Let_def)
    qed (use Nil d in \<open>simp add: line_def set_lists\<close>)
  next
    case (snoc ys' p)
    have 1: "seg (chunks (set_next p (hd (zs @ [0])) s)) 0 ys (hd (zs @ [0]))"
      using d snoc by (auto intro: set_next_last)
    have 2: "seg (chunks (set_next p (hd (zs @ [0])) s)) a zs 0" using d snoc by (simp add: seg_other)
    show ?thesis
    proof (cases zs)
      case Nil
      then show ?thesis using 1 d snoc by (auto simp: line_def set_lists set_parents Let_def hd_append)
    next
      case (Cons b zs')
      have 3: "seg (chunks (set_prev b p (set_next p b s))) p (b # zs') 0"
        using 2 d Cons by (intro set_prev_first [where q = a]) simp_all
      have "seg (chunks (set_prev b p (set_next p b s))) 0 ys b" using 1 d snoc Cons by (simp add: seg_other)
      then have "seg (chunks (set_prev b p (set_next p b s))) 0 (ys @ zs) 0"
        using 3 snoc Cons by (simp only: seg_append) (simp add: seg_append)
      then show ?thesis using d snoc Cons by (auto simp: line_def set_lists set_parents Let_def hd_append)
    qed
  qed
qed

text \<open>The lines after a removal: the other lists do not notice.\<close>

lemma line_other:
  assumes "line s k xs" "x \<notin> set xs"
  shows "line (set_next x n s) k xs" "line (set_prev x n s) k xs" "line (set_parent x n s) k xs"
  using assms by (auto simp: line_def seg_other set_lists set_parents set_dom)

lemma line_other_head: "line s k xs \<Longrightarrow> k \<noteq> l \<Longrightarrow> line (put_head l a s) k xs"
  by (auto simp: line_def set_lists set_dom)

lemma list_remove_ok:
  assumes "lines s Q" "Q l = ys @ a # zs"
  shows "\<exists>s'. list_remove l a s = (Ok (), s') \<and> relinked s s' \<and> lines s' (Q(l := ys @ zs))"
proof -
  have ln: "line s l (ys @ a # zs)" using assms unfolding lines_def by metis
  obtain c where c: "chunks s a = Some c" "ck_prev c = last (0 # ys)" "ck_next c = hd (zs @ [0])" "ck_parent c = l"
    using line_split [OF ln] .
  define p n where "p = last (0 # ys)" and "n = hd (zs @ [0])"
  define s1 where "s1 = (if ys = [] then put_head l n s else set_next p n s)"
  define s2 where "s2 = (if zs = [] then s1 else set_prev n p s1)"
  have d: "distinct (ys @ a # zs)" "0 \<notin> set (ys @ a # zs)" "list_head (lists s l) = hd ((ys @ a # zs) @ [0])"
    using ln by (simp_all add: line_def)
  have pm: "ys \<noteq> [] \<Longrightarrow> p \<in> set ys" "zs \<noteq> [] \<Longrightarrow> n \<in> set zs" "n = 0 \<longleftrightarrow> zs = []"
    using d(2) by (auto simp: p_def n_def) (cases zs; auto)+
  have hd_a: "a = list_head (lists s l) \<longleftrightarrow> ys = []" using d(1,3) by (cases ys) auto
  have dom: "ys \<noteq> [] \<Longrightarrow> chunks s p \<noteq> None" "zs \<noteq> [] \<Longrightarrow> chunks s n \<noteq> None"
    using line_dom [OF ln] pm(1,2) by auto
  have pn: "ck_prev c = p" "ck_next c = n" "ys = [] \<Longrightarrow> p = 0" using c(2,3) by (simp_all add: p_def n_def)
  have "list_remove l a s = (Ok (), s2)"
    using c(1) pn hd_a pm(3) dom
    by (cases "ys = []"; cases "zs = []")
      (simp_all add: list_remove_def deref_def bindp_def seqp_def lift_outcome_run asks_run ret_run set_runs set_dom s1_def s2_def)
  moreover have "relinked s s2"
    unfolding s1_def s2_def using relinked_sets relinked_trans by (auto split: if_splits) metis+
  moreover have "line s2 l (ys @ zs)"
    using line_cut [OF ln] by (simp only: Let_def s1_def s2_def p_def n_def)
  moreover have "line s2 k (Q k)" if "k \<noteq> l" for k
  proof -
    have k: "line s k (Q k)" using assms(1) by (simp add: lines_def)
    have "set (Q k) \<inter> set (Q l) = {}" using lines_disjoint [OF assms(1)] that by blast
    then have "ys \<noteq> [] \<Longrightarrow> p \<notin> set (Q k)" "zs \<noteq> [] \<Longrightarrow> n \<notin> set (Q k)" using pm(1,2) assms(2) by auto
    then show ?thesis using k that by (auto simp: s1_def s2_def line_other line_other_head)
  qed
  ultimately show ?thesis by (intro exI [of _ s2]) (simp add: lines_def)
qed

section \<open>Putting a chunk in\<close>

lemma add0_ok:
  assumes "lines s Q" "\<And>k. a \<notin> set (Q k)" "chunks s a \<noteq> None" "a \<noteq> 0"
  shows "\<exists>s'. add0 l a s = (Ok (), s') \<and> relinked s s' \<and> lines s' (Q(l := a # Q l))"
proof -
  define s1 where "s1 = set_parent a l s"
  define h where "h = list_head (lists s l)"
  define s2 where "s2 = set_next a h (set_prev a 0 s1)"
  define s3 where "s3 = put_head l a (if h = 0 then s2 else set_prev h a s2)"
  have ln: "line s l (Q l)" using assms(1) by (simp add: lines_def)
  have h: "h = hd (Q l @ [0])" "h = 0 \<longleftrightarrow> Q l = []" using ln by (cases "Q l"; auto simp: line_def h_def)+
  have hin: "h \<noteq> 0 \<Longrightarrow> h \<in> set (Q l)" using h by (cases "Q l") auto
  have dom: "chunks s1 a \<noteq> None" "h \<noteq> 0 \<Longrightarrow> chunks s2 h \<noteq> None"
    using assms(3) line_dom [OF ln, of h] hin by (simp_all add: s1_def s2_def set_dom)
  have upd: "upd_chunk a (\<lambda>c. c\<lparr>ck_prev := 0, ck_next := h\<rparr>) s1 = (Ok (), s2)"
    using dom(1) by (auto simp: upd_chunk_run s2_def set_next_def set_prev_def)
  have s1: "upd_chunk a (ck_parent_update (\<lambda>_. l)) s = (Ok (), s1)" "list_head (lists s1 l) = h"
    using assms(3) by (simp_all add: set_runs s1_def set_lists h_def)
  have "add0 l a s = (Ok (), s3)"
  proof (cases "h = 0")
    case True
    have "put_head l a s2 = snd (upd_chunk a (\<lambda>c. c\<lparr>ck_prev := 0, ck_next := 0\<rparr>) (put_head l a s1))"
      using dom(1) True by (auto simp: upd_chunk_run s2_def set_next_def set_prev_def put_head_def)
    moreover have "fst (upd_chunk a (\<lambda>c. c\<lparr>ck_prev := 0, ck_next := 0\<rparr>) (put_head l a s1)) = Ok ()"
      using dom(1) by (auto simp: upd_chunk_run put_head_def)
    ultimately have "upd_chunk a (\<lambda>c. c\<lparr>ck_prev := 0, ck_next := 0\<rparr>) (put_head l a s1) = (Ok (), s3)"
      using True by (simp add: s3_def prod_eq_iff)
    then show ?thesis using s1 True by (simp add: add0_def seqp_def bindp_def asks_run set_runs(4))
  next
    case False
    then show ?thesis using s1 upd dom(2) by (simp add: add0_def seqp_def bindp_def asks_run set_runs s3_def)
  qed
  moreover have "relinked s s3"
  proof -
    have "relinked s s2" unfolding s2_def s1_def
      by (rule relinked_trans [OF relinked_trans [OF relinked_sets(4) relinked_sets(2)] relinked_sets(1)])
    then show ?thesis unfolding s3_def
      using relinked_trans [OF relinked_trans [OF _ relinked_sets(2)] relinked_sets(3)] relinked_trans [OF _ relinked_sets(3)] by simp
  qed
  moreover have "line s3 k ((Q(l := a # Q l)) k)" for k
  proof (cases "k = l")
    case True
    have sg: "seg (chunks (if h = 0 then s2 else set_prev h a s2)) a (Q l) 0"
    proof (cases "Q l")
      case (Cons b M)
      have "seg (chunks s) 0 (b # M) 0" "a \<notin> set (b # M)" using ln assms(2) [of l] unfolding line_def Cons by blast+
      then have "seg (chunks s2) 0 (b # M) 0" unfolding s2_def s1_def by (simp only: seg_other not_False_eq_True)
      moreover have "b \<notin> set M" using ln Cons by (simp add: line_def)
      ultimately show ?thesis using Cons h set_prev_first [of s2 0 b M 0 a] by auto
    qed simp
    have "h \<noteq> a" using h assms(2) [of l] assms(4) by (cases "Q l") auto
    then have "\<exists>c. chunks s3 a = Some c \<and> ck_prev c = 0 \<and> ck_next c = h"
      using dom(1) by (auto simp: s3_def s2_def put_head_def set_next_def set_prev_def)
    then have "seg (chunks s3) 0 (a # Q l) 0" using sg h by (auto simp: s3_def put_head_def)
    moreover have "map_option ck_parent (chunks s3 x) =
        (if x = a then map_option (\<lambda>_. l) (chunks s a) else map_option ck_parent (chunks s x))" for x
      by (simp add: s3_def s2_def s1_def set_dom set_parents del: map_option_eq_Some)
    then have "map_option ck_parent (chunks s3 x) = Some l" if "x \<in> set (a # Q l)" for x
      using that ln assms(3) by (auto simp: line_def)
    ultimately show ?thesis using True ln assms(2,4) by (simp add: line_def s3_def set_lists)
  next
    case False
    have k: "line s k (Q k)" using assms(1) by (simp add: lines_def)
    have "h \<noteq> 0 \<Longrightarrow> h \<notin> set (Q k)" using hin lines_disjoint [OF assms(1)] False by metis
    then show ?thesis using False k assms(2) by (auto simp: s3_def s2_def s1_def line_other line_other_head)
  qed
  ultimately show ?thesis by (intro exI [of _ s3]) (simp add: lines_def)
qed

section \<open>Bands\<close>

text \<open>The lists of an arena never change but for their heads; list \<open>l\<close> holds usages from \<open>minUsage\<close> up to \<open>maxUsage\<close>.\<close>

definition bands :: "int \<Rightarrow> arena \<Rightarrow> bool" where
  "bands chunkSz s \<longleftrightarrow> (\<forall>l. headless (lists s l) = headless (arena_lists chunkSz l))"

definition in_band :: "chunk \<Rightarrow> nat \<Rightarrow> bool" where
  "in_band c l \<longleftrightarrow> l \<in> {1..6} \<and> minUsage (arena_lists 0 l) \<le> usage c \<and> usage c < maxUsage (arena_lists 0 l)"

lemma bands_relinked: "relinked s s' \<Longrightarrow> bands z s \<Longrightarrow> bands z s'"
  by (simp add: bands_def relinkedD(2))

lemma arena_list_fields:
  "minUsage (arena_lists z l) = minUsage (arena_lists 0 l)" "maxUsage (arena_lists z l) = maxUsage (arena_lists 0 l)"
  "nextList (arena_lists z l) = nextList (arena_lists 0 l)" "prevList (arena_lists z l) = prevList (arena_lists 0 l)"
  by (simp_all add: arena_lists_def PoolChunkList_new_def)

lemma band_fields:
  assumes "bands z s"
  shows "minUsage (lists s l) = minUsage (arena_lists 0 l)" "maxUsage (lists s l) = maxUsage (arena_lists 0 l)"
    "nextList (lists s l) = nextList (arena_lists 0 l)" "prevList (lists s l) = prevList (arena_lists 0 l)"
    "listCapacity (lists s l) = listCapacity (arena_lists z l)"
proof -
  have h: "headless (lists s l) = headless (arena_lists z l)" using assms by (simp add: bands_def)
  show "minUsage (lists s l) = minUsage (arena_lists 0 l)" "maxUsage (lists s l) = maxUsage (arena_lists 0 l)"
    "nextList (lists s l) = nextList (arena_lists 0 l)" "prevList (lists s l) = prevList (arena_lists 0 l)"
    "listCapacity (lists s l) = listCapacity (arena_lists z l)"
    using arena_list_fields [of z l] of_headless [of "lists s l"] of_headless [of "arena_lists z l"] h by metis+
qed

text \<open>The next list of \<open>l\<close> is \<open>l - 1\<close> and the previous one \<open>l + 1\<close>, but for the ends of the chain.\<close>

lemma the_neighbours:
  assumes "l \<in> {1..6}"
  shows "nextList (arena_lists 0 l) = l - 1" "prevList (arena_lists 0 l) = (if l \<in> {1..4} then l + 1 else if l = 6 then 6 else 0)"
  using assms by (auto simp: arena_lists_def PoolChunkList_new_def q100_def q075_def q050_def q025_def q000_def qInit_def)

lemma the_bands:
  "minUsage (arena_lists 0 6) = INT_MIN" "maxUsage (arena_lists 0 6) = 25" "minUsage (arena_lists 0 5) = 1" "maxUsage (arena_lists 0 5) = 50"
  "minUsage (arena_lists 0 4) = 25" "maxUsage (arena_lists 0 4) = 75" "minUsage (arena_lists 0 3) = 50" "maxUsage (arena_lists 0 3) = 100"
  "minUsage (arena_lists 0 2) = 75" "maxUsage (arena_lists 0 2) = 100" "minUsage (arena_lists 0 (Suc 0)) = 100"
  "maxUsage (arena_lists 0 (Suc 0)) = INT_MAX"
  by (simp_all add: arena_lists_def PoolChunkList_new_def q100_def q075_def q050_def q025_def q000_def qInit_def)

lemma list_cases: "l \<in> {1..6} \<Longrightarrow> l = 1 \<or> l = 2 \<or> l = 3 \<or> l = 4 \<or> l = 5 \<or> l = (6::nat)"
  by auto

text \<open>\<open>add\<close> from a list whose lower bound the chunk reaches puts it into a list with the right band.\<close>

lemma list_add_ok:
  assumes "lines s Q" "bands z s" "\<And>k. a \<notin> set (Q k)" "chunks s a = Some c" "a \<noteq> 0" "usage c \<le> 100"
  shows "l \<in> {1..6} \<Longrightarrow> l \<le> k \<Longrightarrow> minUsage (arena_lists 0 l) \<le> usage c \<Longrightarrow>
    \<exists>l' s'. list_add k l a s = (Ok (), s') \<and> relinked s s' \<and> lines s' (Q(l' := a # Q l')) \<and> in_band c l'"
proof (induction k arbitrary: l)
  case (Suc k)
  show ?case
  proof (cases "usage c \<ge> maxUsage (arena_lists 0 l)")
    case True
    then have l: "l - 1 \<in> {1..6}" "minUsage (arena_lists 0 (l - 1)) \<le> usage c"
      using list_cases [OF Suc.prems(1)] assms(6) by (auto simp: the_bands)
    moreover from l(1) have "l - 1 \<noteq> 0" by auto
    ultimately have "list_add (Suc k) l a s = list_add k (l - 1) a s"
      using True assms(4) band_fields [OF assms(2), of l] the_neighbours(1) [OF Suc.prems(1)]
      by (simp add: deref_def bindp_def lift_outcome_run asks_run)
    then show ?thesis using Suc.IH [OF l(1) _ l(2)] Suc.prems(1,2) by auto
  next
    case False
    then have "list_add (Suc k) l a s = add0 l a s"
      using assms(4) band_fields [OF assms(2), of l] by (simp add: deref_def bindp_def lift_outcome_run asks_run)
    moreover have "in_band c l" using False Suc.prems(1,3) by (simp add: in_band_def)
    moreover obtain s' where "add0 l a s = (Ok (), s')" "relinked s s'" "lines s' (Q(l := a # Q l))"
      using add0_ok [OF assms(1,3) _ assms(5), of l] assms(4) by blast
    ultimately show ?thesis by (intro exI [of _ l] exI [of _ s']) (simp only: simp_thms)
  qed
qed simp

text \<open>\<open>move\<close> finds the band below, or tells that the chunk is empty.\<close>

lemma move0_ok:
  assumes "lines s Q" "bands z s" "\<And>k. a \<notin> set (Q k)" "chunks s a = Some c" "a \<noteq> 0" "0 \<le> usage c" "usage c \<le> 100"
  shows "l \<in> {1..5} \<Longrightarrow> 6 \<le> k + l \<Longrightarrow> usage c < minUsage (arena_lists 0 l) \<Longrightarrow>
    move0 k l a s = (Ok False, s) \<and> usage c = 0 \<or>
    (\<exists>l' s'. move0 k l a s = (Ok True, s') \<and> relinked s s' \<and> lines s' (Q(l' := a # Q l')) \<and> in_band c l')"
proof (induction k arbitrary: l)
  case (Suc k)
  note f = band_fields [OF assms(2)]
  have l6: "l \<in> {1..6}" using Suc.prems(1) by auto
  have u5: "usage c = 0" if "l = 5" using that Suc.prems(3) assms(6) by (simp add: the_bands)
  show ?case
  proof (cases "l = 5")
    case True
    then show ?thesis using u5 True assms(4) f(4) [of 5]
      by (simp add: the_neighbours deref_def bindp_def seqp_def lift_outcome_run asks_run assertp_run ret_run)
  next
    case False
    then have p: "prevList (arena_lists 0 l) = l + 1" "l + 1 \<in> {1..5}" "l + 1 \<in> {1..6}"
      using Suc.prems(1) the_neighbours(2) [OF l6] by auto
    have mx: "usage c < maxUsage (arena_lists 0 (l + 1))"
      using list_cases [OF l6] Suc.prems(1,3) False by (auto simp: the_bands simp flip: numeral_2_eq_2)
    show ?thesis
    proof (cases "usage c < minUsage (arena_lists 0 (l + 1))")
      case True
      have "move0 (Suc k) l a s = move0 k (l + 1) a s"
        using assms(4) f [of l] f [of "l + 1"] p(1) mx True
        by (simp add: deref_def bindp_def seqp_def lift_outcome_run asks_run assertp_run)
      then show ?thesis using Suc.IH [OF p(2) _ True] Suc.prems(2) by auto
    next
      case min: False
      obtain s' where s': "add0 (l + 1) a s = (Ok (), s')" "relinked s s'" "lines s' (Q(l + 1 := a # Q (l + 1)))"
        using add0_ok [OF assms(1,3) _ assms(5)] assms(4) by blast
      have "move0 (Suc k) l a s = (Ok True, s')"
        using assms(4) f [of l] f [of "l + 1"] p(1) mx min s'(1)
        by (simp add: deref_def bindp_def seqp_def lift_outcome_run asks_run assertp_run ret_run)
      moreover have "in_band c (l + 1)" using p(3) mx min by (simp add: in_band_def)
      ultimately show ?thesis using s'(2,3) by blast
    qed
  qed
qed simp

end
