(* ===== verification/PagePools.thy ===== *)
theory PagePools
  imports Subpage
begin

text \<open>
  The pools of an arena together. \<open>L\<close> are the subpages whose page is allocated, \<open>P h\<close> the ring of the
  size class with head \<open>h\<close>, and \<open>T\<close> the regions that were handed out. Allocation of an element,
  release of an element and the opening of a page for a size class keep the whole in order.
\<close>

section \<open>Regions handed out\<close>

text \<open>
  A run of pages by chunk and node, an element by chunk, page node, size and index, or a chunk of
  its own by address and length.
\<close>

datatype token = Run nat nat | Elem nat nat int nat | Huge nat int

definition elems :: "token set \<Rightarrow> subpage \<Rightarrow> nat set" where
  "elems T sp = {i. Elem (sp_chunk sp) (nat (sp_memoryMapIdx sp)) (elemSize sp) i \<in> T}"

definition full :: "token set \<Rightarrow> subpage \<Rightarrow> bool" where
  "full T sp \<longleftrightarrow> card (elems T sp) = nat (maxNumElems sp)"

definition valid_size :: "nat \<Rightarrow> int \<Rightarrow> bool" where
  "valid_size p sz \<longleftrightarrow> normalised sz \<and> sz < 2 ^ p"

section \<open>The invariant\<close>

definition size_heads :: "nat \<Rightarrow> (int \<Rightarrow> nat) \<Rightarrow> nat set \<Rightarrow> bool" where
  "size_heads p hdf hs \<longleftrightarrow> 10 \<le> p \<and> p \<le> 30 \<and> (\<forall>sz. valid_size p sz \<longrightarrow> hdf sz \<in> hs) \<and> inj_on hdf {sz. valid_size p sz} \<and> 0 \<notin> hs"

definition live_ok :: "nat \<Rightarrow> token set \<Rightarrow> subpage \<Rightarrow> bool" where
  "live_ok p T sp \<longleftrightarrow> doNotDestroy sp \<and> sub_ok sp (elems T sp) \<and> valid_size p (elemSize sp) \<and>
     0 \<le> sp_memoryMapIdx sp \<and> sp_memoryMapIdx sp \<le> INT_MAX \<and> sp_pageSize sp = 2 ^ p \<and>
     (full T sp \<longrightarrow> sp_prev sp = 0 \<and> sp_next sp = 0)"

definition page_of :: "subpage \<Rightarrow> nat \<times> int" where
  "page_of sp = (sp_chunk sp, sp_memoryMapIdx sp)"

definition heap_ok :: "nat \<Rightarrow> (int \<Rightarrow> nat) \<Rightarrow> nat set \<Rightarrow> sp_heap \<Rightarrow> nat set \<Rightarrow> (nat \<Rightarrow> nat list) \<Rightarrow> token set \<Rightarrow> bool" where
  "heap_ok p hdf hs H L P T \<longleftrightarrow> size_heads p hdf hs \<and>
     (\<forall>h\<in>hs. pool H h (P h) \<and> (\<forall>x. x \<in> set (P h) \<longleftrightarrow> x \<in> L \<and> hdf (elemSize (H x)) = h \<and> \<not> full T (H x))) \<and>
     (\<forall>x\<in>L. x \<notin> hs \<and> x \<noteq> 0 \<and> live_ok p T (H x)) \<and> inj_on (\<lambda>x. page_of (H x)) L \<and>
     (\<forall>a n sz i. Elem a n sz i \<in> T \<longrightarrow> (\<exists>x\<in>L. page_of (H x) = (a, int n) \<and> elemSize (H x) = sz))"

lemma heap_okD:
  assumes "heap_ok p hdf hs H L P T"
  shows "size_heads p hdf hs" "h \<in> hs \<Longrightarrow> pool H h (P h)"
    "h \<in> hs \<Longrightarrow> x \<in> set (P h) \<longleftrightarrow> x \<in> L \<and> hdf (elemSize (H x)) = h \<and> \<not> full T (H x)"
    "x \<in> L \<Longrightarrow> x \<notin> hs" "x \<in> L \<Longrightarrow> x \<noteq> 0" "x \<in> L \<Longrightarrow> live_ok p T (H x)"
    "x \<in> L \<Longrightarrow> y \<in> L \<Longrightarrow> page_of (H x) = page_of (H y) \<Longrightarrow> x = y"
    "Elem a n sz i \<in> T \<Longrightarrow> \<exists>x\<in>L. page_of (H x) = (a, int n) \<and> elemSize (H x) = sz"
  using assms unfolding heap_ok_def inj_on_def by blast+

text \<open>Subpages that agree but for their links, and the set of their used elements.\<close>

lemma core_same:
  assumes "core s = core t"
  shows "page_of s = page_of t" "elemSize s = elemSize t" "elems T s = elems T t" "full T s = full T t"
    "doNotDestroy s = doNotDestroy t" "sp_pageSize s = sp_pageSize t" "sp_memoryMapIdx s = sp_memoryMapIdx t"
  using core_fields [OF assms] by (simp_all add: page_of_def elems_def full_def)

lemma live_core:
  assumes "core s = core t" "full T t \<Longrightarrow> sp_prev s = sp_prev t \<and> sp_next s = sp_next t"
  shows "live_ok p T s = live_ok p T t"
  using core_same [OF assms(1)] sub_ok_core [OF assms(1)] assms(2) by (auto simp: live_ok_def)

lemma elems_cong: "page_of s = page_of t \<Longrightarrow> elemSize s = elemSize t \<Longrightarrow> elems T s = elems T t"
  by (simp add: page_of_def elems_def)

text \<open>Tokens of other pages do not matter.\<close>

lemma elems_other:
  assumes "page_of sp \<noteq> (a, int n)" "0 \<le> sp_memoryMapIdx sp"
  shows "elems (insert (Elem a n sz i) T) sp = elems T sp" "elems (T - {Elem a n sz i}) sp = elems T sp"
  using assms by (auto simp: elems_def page_of_def)

lemma elems_this:
  assumes "page_of sp = (a, int n)" "elemSize sp = sz"
  shows "elems (insert (Elem a n sz i) T) sp = insert i (elems T sp)" "elems (T - {Elem a n sz i}) sp = elems T sp - {i}"
    "i \<in> elems T sp \<longleftrightarrow> Elem a n sz i \<in> T"
  using assms by (auto simp: elems_def page_of_def)

lemma elems_runs: "elems (insert (Run a n) T) sp = elems T sp" "elems (T - {Run a n}) sp = elems T sp"
  "elems (insert (Huge a m) T) sp = elems T sp" "elems (T - {Huge a m}) sp = elems T sp"
  by (auto simp: elems_def)

lemma elems_card:
  assumes "live_ok p T sp"
  shows "card (elems T sp) \<le> nat (maxNumElems sp)" "finite (elems T sp)" "0 < nat (maxNumElems sp)"
proof -
  have e: "elems T sp \<subseteq> {..<nat (maxNumElems sp)}" "0 < maxNumElems sp"
    using assms by (auto simp: live_ok_def sub_ok_def sub_static_def)
  then show "finite (elems T sp)" "0 < nat (maxNumElems sp)" using finite_subset by auto
  show "card (elems T sp) \<le> nat (maxNumElems sp)" using card_mono [OF _ e(1)] by simp
qed

text \<open>A ring does not notice changes elsewhere.\<close>

lemma other_pool:
  assumes "heap_ok p hdf hs H L P T" "h \<in> hs" "k \<in> hs" "k \<noteq> h" "x \<in> L \<Longrightarrow> hdf (elemSize (H x)) = h" "x \<notin> hs" "x \<notin> L \<Longrightarrow> x \<notin> set (P k)"
    and "\<forall>y. y \<notin> set (h # x # P h) \<longrightarrow> H' y = H y"
  shows "pool H' k (P k)"
proof -
  have "y \<notin> set (h # x # P h)" if y: "y \<in> set (k # P k)" for y
  proof (cases "y = k")
    case True
    then show ?thesis using heap_okD(3,4) [OF assms(1)] assms(2-4,6) by auto
  next
    case False
    then have "y \<in> L" "hdf (elemSize (H y)) = k" using y heap_okD(3) [OF assms(1,3)] by auto
    then show ?thesis using heap_okD(3) [OF assms(1,2), of y] heap_okD(4) [OF assms(1)] assms(2,4,5) by auto
  qed
  then have "H' y = H y" if "y \<in> set (k # P k)" for y using that assms(8) by blast
  then show ?thesis using heap_okD(2) [OF assms(1,3)] pool_cong [of k "P k" H' H] by auto
qed

text \<open>One subpage \<open>x\<close> of the size class of \<open>h\<close> changes, everything else is as before.\<close>

lemma heap_update:
  assumes ok: "heap_ok p hdf hs H L P T" and h: "h \<in> hs" and x: "x \<notin> hs" "x \<noteq> 0"
    and others: "\<And>y. y \<noteq> x \<Longrightarrow> core (H' y) = core (H y)" and far: "\<And>y. y \<notin> set (h # x # P h) \<Longrightarrow> H' y = H y"
    and L': "L' - {x} = L - {x}" and cls: "x \<in> L \<Longrightarrow> hdf (elemSize (H x)) = h"
    and new: "x \<in> L' \<Longrightarrow> live_ok p T' (H' x) \<and> hdf (elemSize (H' x)) = h"
    and uniq: "\<And>y. x \<in> L' \<Longrightarrow> y \<in> L \<Longrightarrow> y \<noteq> x \<Longrightarrow> page_of (H y) \<noteq> page_of (H' x)"
    and tok: "\<And>y. y \<in> L \<Longrightarrow> y \<noteq> x \<Longrightarrow> elems T' (H y) = elems T (H y)"
    and backed: "\<And>a n sz i. Elem a n sz i \<in> T' \<Longrightarrow> Elem a n sz i \<in> T \<and> (x \<in> L \<longrightarrow> page_of (H x) \<noteq> (a, int n)) \<or>
        x \<in> L' \<and> page_of (H' x) = (a, int n) \<and> elemSize (H' x) = sz"
    and pl: "pool H' h xs'" "set xs' = (set (P h) - {x}) \<union> (if x \<in> L' \<and> \<not> full T' (H' x) then {x} else {})"
  shows "heap_ok p hdf hs H' L' (P(h := xs')) T'"
proof -
  note o = heap_okD [OF ok]
  have in_L: "y \<in> L' \<longleftrightarrow> y \<in> L" if "y \<noteq> x" for y using L' that by blast
  have full_eq: "full T' (H' y) = full T (H y)" if "y \<in> L" "y \<noteq> x" for y
    using tok [OF that] core_same(3,4) [OF others [OF that(2)]] core_fields(9) [OF others [OF that(2)]] by (simp add: full_def)
  have live: "live_ok p T' (H' y)" if y: "y \<in> L" "y \<noteq> x" for y
  proof -
    have "live_ok p T (H' y) = live_ok p T (H y)"
    proof (rule live_core [OF others [OF y(2)]])
      assume "full T (H y)"
      then have "y \<notin> set (h # x # P h)" using o(3) [OF h] o(4) [OF y(1)] h y by auto
      then show "sp_prev (H' y) = sp_prev (H y) \<and> sp_next (H' y) = sp_next (H y)" using far by simp
    qed
    moreover have "elems T' (H' y) = elems T (H' y)" using tok [OF y] core_same(3) [OF others [OF y(2)]] by simp
    ultimately show ?thesis using o(6) [OF y(1)] by (simp add: live_ok_def full_def)
  qed
  have pools: "pool H' k ((P(h := xs')) k) \<and>
      (\<forall>y. y \<in> set ((P(h := xs')) k) \<longleftrightarrow> y \<in> L' \<and> hdf (elemSize (H' y)) = k \<and> \<not> full T' (H' y))" if k: "k \<in> hs" for k
  proof (cases "k = h")
    case True
    have "y \<in> set xs' \<longleftrightarrow> y \<in> L' \<and> hdf (elemSize (H' y)) = h \<and> \<not> full T' (H' y)" for y
      using pl(2) o(3) [OF h, of y] new in_L [of y] full_eq [of y] core_same(2) [OF others, of y]
      by (cases "y = x") auto
    then show ?thesis using True pl(1) by simp
  next
    case False
    have "pool H' k (P k)"
      by (rule other_pool [OF ok h k False cls x(1)]) (use o(3) [OF k] far in auto)
    moreover have "y \<in> set (P k) \<longleftrightarrow> y \<in> L' \<and> hdf (elemSize (H' y)) = k \<and> \<not> full T' (H' y)" for y
      using o(3) [OF k, of y] cls new False in_L [of y] full_eq [of y] core_same(2) [OF others, of y]
      by (cases "y = x") auto
    ultimately show ?thesis using False by simp
  qed
  have "y \<notin> hs \<and> y \<noteq> 0 \<and> live_ok p T' (H' y)" if "y \<in> L'" for y
    using that new x live [of y] in_L [of y] o(4,5) [of y] by (cases "y = x") auto
  moreover have "inj_on (\<lambda>x. page_of (H' x)) L'"
  proof (rule inj_onI)
    fix y z assume yz: "y \<in> L'" "z \<in> L'" "page_of (H' y) = page_of (H' z)"
    show "y = z"
    proof (cases "y = x"; cases "z = x")
      assume "y \<noteq> x" "z \<noteq> x"
      then show ?thesis using yz o(7) [of y z] in_L core_same(1) [OF others] by auto
    qed (use yz uniq in_L core_same(1) [OF others] in \<open>metis\<close>)+
  qed
  moreover have "\<exists>y\<in>L'. page_of (H' y) = (a, int n) \<and> elemSize (H' y) = sz" if t: "Elem a n sz i \<in> T'" for a n sz i
    using backed [OF t]
  proof
    assume a: "Elem a n sz i \<in> T \<and> (x \<in> L \<longrightarrow> page_of (H x) \<noteq> (a, int n))"
    then obtain y where "y \<in> L" "page_of (H y) = (a, int n)" "elemSize (H y) = sz" using o(8) by blast
    moreover from this have "y \<noteq> x" using a by auto
    ultimately show ?thesis using in_L core_same(1,2) [OF others] by metis
  qed blast
  ultimately show ?thesis using o(1) pools by (simp add: heap_ok_def)
qed

section \<open>The three operations\<close>

text \<open>What an operation on the pools keeps of every subpage object, and which objects it may touch.\<close>

definition still :: "subpage \<Rightarrow> nat \<times> int \<times> int \<times> int \<times> nat" where
  "still sp = (sp_chunk sp, sp_memoryMapIdx sp, sp_runOffset sp, sp_pageSize sp, length (bitmap sp))"

lemma still_core: "core s = core t \<Longrightarrow> still s = still t"
  using core_fields [of s t] by (simp add: still_def)

lemma still_page: "still s = still t \<Longrightarrow> page_of s = page_of t"
  by (simp add: still_def page_of_def)

lemma still_elem: "still (take_elem i s) = still s" "elemSize (take_elem i s) = elemSize s"
  "still (give_elem i s) = still s" "elemSize (give_elem i s) = elemSize s"
  "still (s\<lparr>doNotDestroy := b\<rparr>) = still s"
  by (simp_all add: still_def take_elem_def give_elem_def)

lemma take_give_fields: "maxNumElems (take_elem i s) = maxNumElems s" "maxNumElems (give_elem i s) = maxNumElems s"
  "doNotDestroy (take_elem i s) = doNotDestroy s" "doNotDestroy (give_elem i s) = doNotDestroy s"
  by (simp_all add: take_elem_def give_elem_def)

lemma heap_take:
  assumes ok: "heap_ok p hdf hs H L P T" and h: "h \<in> hs" and x: "x \<in> set (P h)" and pg: "page_of (H x) = (a, int n)"
  shows "\<exists>i H' P'. sp_allocate x H = (Ok (toHandle (H x) (int i)), H') \<and> i < nat (maxNumElems (H x)) \<and>
    Elem a n (elemSize (H x)) i \<notin> T \<and> heap_ok p hdf hs H' L P' (insert (Elem a n (elemSize (H x)) i) T) \<and>
    (\<forall>y. still (H' y) = still (H y)) \<and> (\<forall>y. elemSize (H' y) = elemSize (H y)) \<and> (\<forall>y. y \<notin> hs \<union> L \<longrightarrow> H' y = H y)"
proof -
  note o = heap_okD [OF ok]
  have xL: "x \<in> L" "hdf (elemSize (H x)) = h" "\<not> full T (H x)" using o(3) [OF h] x by auto
  have lv: "live_ok p T (H x)" by (rule o(6) [OF xL(1)])
  define sz where "sz = elemSize (H x)"
  let ?E = "elems T (H x)" and ?m = "nat (maxNumElems (H x))"
  have lt: "card ?E < ?m" using elems_card [OF lv] xL(3) by (simp add: full_def)
  obtain i H' where a: "i < ?m" "i \<notin> ?E" "sp_allocate x H = (Ok (toHandle (H x) (int i)), H')"
    "core (H' x) = core (take_elem i (H x))" "sub_ok (H' x) (insert i ?E)"
    "\<forall>y. y \<noteq> x \<longrightarrow> core (H' y) = core (H y)" "\<forall>y. y \<notin> set (h # P h) \<longrightarrow> H' y = H y"
    "if Suc (card ?E) = ?m then pool H' h (remove1 x (P h)) \<and> sp_prev (H' x) = 0 \<and> sp_next (H' x) = 0 else pool H' h (P h)"
    using sp_allocate_ok [OF _ _ o(2) [OF h] x lt] lv unfolding live_ok_def by blast
  define xs' where "xs' = (if Suc (card ?E) = ?m then remove1 x (P h) else P h)"
  define T' where "T' = insert (Elem a n sz i) T"
  have f: "page_of (H' x) = (a, int n)" "elemSize (H' x) = sz" "still (H' x) = still (H x)"
    using pg core_same(1,2) [OF a(4)] still_core [OF a(4)] still_page [OF still_elem(1)] still_elem(1,2) by (simp_all add: sz_def)
  have E': "elems T' (H' x) = insert i ?E"
    using elems_this(1) [OF f(1,2)] elems_cong [of "H' x" "H x"] f(1,2) pg by (simp add: T'_def sz_def)
  have m': "maxNumElems (H' x) = maxNumElems (H x)" using core_fields(9) [OF a(4)] by (simp add: take_give_fields)
  have full': "full T' (H' x) \<longleftrightarrow> Suc (card ?E) = ?m"
    using E' a(2) m' elems_card(2) [OF lv] by (simp add: full_def)
  have lv': "live_ok p T' (H' x)"
    using lv a(5,8) E' full' core_fields(7) [OF a(4)] f(3) core_same(2) [OF a(4)]
    by (auto simp: live_ok_def take_give_fields still_def still_elem)
  have d: "distinct (P h)" using o(2) [OF h] by (simp add: pool_def ring_def)
  have ok': "heap_ok p hdf hs H' L (P(h := xs')) T'"
  proof (rule heap_update [OF ok h, where x = x])
    fix y assume y: "y \<in> L" "y \<noteq> x"
    then show "page_of (H y) \<noteq> page_of (H' x)" using o(7) [OF y(1) xL(1)] pg f(1) by auto
    then have "page_of (H y) \<noteq> (a, int n)" using f(1) by simp
    then show "elems T' (H y) = elems T (H y)" unfolding T'_def using o(6) [OF y(1)] by (intro elems_other) (auto simp: live_ok_def)
  next
    fix a' n' sz' i' assume "Elem a' n' sz' i' \<in> T'"
    then show "Elem a' n' sz' i' \<in> T \<and> (x \<in> L \<longrightarrow> page_of (H x) \<noteq> (a', int n')) \<or>
        x \<in> L \<and> page_of (H' x) = (a', int n') \<and> elemSize (H' x) = sz'"
      using f(1,2) xL(1) pg o(7,8) by (auto simp: T'_def sz_def) metis
  next
    show "set xs' = set (P h) - {x} \<union> (if x \<in> L \<and> \<not> full T' (H' x) then {x} else {})"
      using full' d x xL(1) by (auto simp: xs'_def)
  qed (use a(6-8) x xL lv' f(2) o(4,5) in \<open>auto simp: xs'_def sz_def\<close>)
  have "H' y = H y" if "y \<notin> hs \<union> L" for y
    using a(7) that h o(3) [OF h, of y] by auto
  moreover have "still (H' y) = still (H y) \<and> elemSize (H' y) = elemSize (H y)" for y
    using a(6) still_core core_same(2) f(2,3) sz_def by metis
  moreover have "Elem a n sz i \<notin> T" using a(2) elems_this(3) [OF pg] by (simp add: sz_def)
  ultimately show ?thesis using a(1,3) ok' unfolding T'_def sz_def by blast
qed

text \<open>Giving an element back: the page may be closed when its last element was given back.\<close>

lemma heap_give:
  assumes ok: "heap_ok p hdf hs H L P T" and t: "Elem a n sz i \<in> T"
  shows "\<exists>x H' P' kept. x \<in> L \<and> page_of (H x) = (a, int n) \<and> elemSize (H x) = sz \<and> i < nat (maxNumElems (H x)) \<and>
    sp_free (hdf sz) (int i) x H = (Ok kept, H') \<and>
    heap_ok p hdf hs H' (if kept then L else L - {x}) P' (T - {Elem a n sz i}) \<and>
    (\<not> kept \<longrightarrow> sp_prev (H' x) = 0 \<and> sp_next (H' x) = 0) \<and>
    (\<forall>y. still (H' y) = still (H y)) \<and> (\<forall>y. elemSize (H' y) = elemSize (H y)) \<and> (\<forall>y. y \<notin> hs \<union> L \<longrightarrow> H' y = H y)"
proof -
  note o = heap_okD [OF ok]
  obtain x where xL: "x \<in> L" and pg: "page_of (H x) = (a, int n)" and sz: "elemSize (H x) = sz" using o(8) [OF t] by blast
  have lv: "live_ok p T (H x)" by (rule o(6) [OF xL])
  define h where "h = hdf sz"
  have h: "h \<in> hs" using lv o(1) sz by (simp add: h_def live_ok_def size_heads_def)
  then have h0: "h \<noteq> 0" using o(1) by (metis size_heads_def)
  have xn: "x \<notin> {0, h}" "x \<notin> hs" using o(4,5) [OF xL] h h0 by auto
  let ?E = "elems T (H x)" and ?m = "nat (maxNumElems (H x))"
  have i: "i \<in> ?E" using elems_this(3) [OF pg sz] t by simp
  have inP: "x \<in> set (P h) \<longleftrightarrow> card ?E \<noteq> ?m" using o(3) [OF h, of x] xL sz by (simp add: h_def full_def)
  have pos: "if card ?E = ?m then x \<notin> set (P h) \<and> sp_prev (H x) = 0 \<and> sp_next (H x) = 0 else x \<in> set (P h)"
    using inP lv by (simp add: live_ok_def full_def)
  have sub: "sub_ok (H x) ?E" using lv by (simp add: live_ok_def)
  define rel where "rel = (card ?E < ?m \<and> ?E = {i} \<and> P h \<noteq> [x])"
  obtain H' where H': "sub_ok (H' x) (?E - {i})" "\<forall>y. y \<noteq> x \<longrightarrow> core (H' y) = core (H y)"
    "\<forall>y. y \<notin> set (h # x # P h) \<longrightarrow> H' y = H y"
    "if rel then sp_free h (int i) x H = (Ok False, H') \<and> pool H' h (remove1 x (P h)) \<and>
       sp_prev (H' x) = 0 \<and> sp_next (H' x) = 0 \<and> core (H' x) = core (give_elem i (H x)\<lparr>doNotDestroy := False\<rparr>)
     else sp_free h (int i) x H = (Ok True, H') \<and> core (H' x) = core (give_elem i (H x)) \<and>
       pool H' h (if card ?E = ?m then x # P h else P h)"
    using sp_free_ok [OF sub i o(2) [OF h] xn(1) pos] unfolding rel_def by blast
  define T' where "T' = T - {Elem a n sz i}"
  define g where "g = (if rel then (give_elem i (H x))\<lparr>doNotDestroy := False\<rparr> else give_elem i (H x))"
  have "core (H' x) = core g" using H'(4) by (simp add: g_def split: if_splits)
  moreover have "still g = still (H x)" "elemSize g = sz" "maxNumElems g = maxNumElems (H x)"
    using sz by (simp_all add: g_def still_elem take_give_fields)
  ultimately have st: "still (H' x) = still (H x)" "elemSize (H' x) = sz" "maxNumElems (H' x) = maxNumElems (H x)"
    using still_core core_same(2) core_fields(9) by metis+
  have pg': "page_of (H' x) = (a, int n)" using still_page [OF st(1)] pg by simp
  have E': "elems T' (H' x) = ?E - {i}"
    using elems_this(2) [OF pg' st(2)] elems_cong [of "H' x" "H x"] pg pg' sz st(2) by (simp add: T'_def)
  have fin: "finite ?E" by (rule elems_card(2) [OF lv])
  have nf: "\<not> full T' (H' x)"
    using E' i fin st(3) elems_card(1,3) [OF lv] card_Diff1_less [OF fin i] by (simp add: full_def)
  have d: "distinct (P h)" using o(2) [OF h] by (simp add: pool_def ring_def)
  define L' where "L' = (if rel then L - {x} else L)"
  define xs' where "xs' = (if rel then remove1 x (P h) else if card ?E = ?m then x # P h else P h)"
  have lv': "live_ok p T' (H' x)" if "\<not> rel"
    using lv that H'(1,4) E' nf st core_fields(7) [of "H' x" "give_elem i (H x)"] sz
    by (auto simp: live_ok_def take_give_fields still_def)
  have ok': "heap_ok p hdf hs H' L' (P(h := xs')) T'"
  proof (rule heap_update [OF ok h, where x = x])
    fix y assume y: "y \<in> L" "y \<noteq> x"
    then show "page_of (H y) \<noteq> page_of (H' x)" using o(7) [OF y(1) xL] pg pg' by auto
    then have "page_of (H y) \<noteq> (a, int n)" using pg' by simp
    then show "elems T' (H y) = elems T (H y)" unfolding T'_def using o(6) [OF y(1)] by (intro elems_other) (auto simp: live_ok_def)
  next
    fix a' n' sz' i' assume t': "Elem a' n' sz' i' \<in> T'"
    then have "Elem a' n' sz' i' \<in> T" by (simp add: T'_def)
    then obtain z where z: "z \<in> L" "page_of (H z) = (a', int n')" "elemSize (H z) = sz'" using o(8) by blast
    show "Elem a' n' sz' i' \<in> T \<and> (x \<in> L \<longrightarrow> page_of (H x) \<noteq> (a', int n')) \<or>
        x \<in> L' \<and> page_of (H' x) = (a', int n') \<and> elemSize (H' x) = sz'"
    proof (cases "z = x")
      case True
      then have "i' \<in> ?E - {i}" using elems_this(3) [OF z(2,3)] t' z pg sz by (auto simp: T'_def)
      then have "\<not> rel" by (auto simp: rel_def)
      then show ?thesis using True z pg pg' st(2) sz xL by (simp add: L'_def)
    next
      case False
      then have "page_of (H x) \<noteq> (a', int n')" using o(7) [OF z(1) xL] z(2) by auto
      then show ?thesis using t' by (simp add: T'_def)
    qed
  next
    show "set xs' = set (P h) - {x} \<union> (if x \<in> L' \<and> \<not> full T' (H' x) then {x} else {})"
      using nf d xL inP by (auto simp: xs'_def L'_def rel_def)
  next
    show "pool H' h xs'" using H'(4) by (simp add: xs'_def split: if_splits)
  next
    show "live_ok p T' (H' x) \<and> hdf (elemSize (H' x)) = h" if "x \<in> L'"
      using that lv' st(2) by (cases rel) (simp_all add: L'_def h_def)
  next
    show "L' - {x} = L - {x}" by (simp add: L'_def)
  qed (use H'(2,3) xn sz in \<open>simp_all add: h_def\<close>)
  have "H' y = H y" if "y \<notin> hs \<union> L" for y
    using H'(3) that h xL o(3) [OF h, of y] by auto
  moreover have "still (H' y) = still (H y) \<and> elemSize (H' y) = elemSize (H y)" for y
    using H'(2) still_core core_same(2) st(1,2) sz by metis
  moreover have "i < nat (maxNumElems (H x))" using sub_ok_give(2) [OF sub i] .
  ultimately show ?thesis using xL pg sz H'(4) ok' unfolding T'_def L'_def h_def
    by (intro exI [of _ x] exI [of _ H'] exI [of _ "P(h := xs')"] exI [of _ "\<not> rel"]) (auto simp: h_def split: if_splits)
qed

text \<open>A page is opened for a size class: a new subpage object, or an old one that is initialised again.\<close>

lemma heap_opened:
  assumes ok: "heap_ok p hdf hs H L P T" and sz: "valid_size p sz" and x: "x \<notin> hs" "x \<notin> L" "x \<noteq> 0"
    and H': "pool H' (hdf sz) (x # P (hdf sz))" "sub_ok (H' x) {}" "doNotDestroy (H' x)" "elemSize (H' x) = sz"
      "page_of (H' x) = (a, int n)" "int n \<le> INT_MAX" "sp_pageSize (H' x) = 2 ^ p"
      "\<forall>y. y \<noteq> x \<longrightarrow> core (H' y) = core (H y)" "\<forall>y. y \<notin> set (hdf sz # x # P (hdf sz)) \<longrightarrow> H' y = H y"
    and new: "\<And>y. y \<in> L \<Longrightarrow> page_of (H y) \<noteq> (a, int n)"
  shows "heap_ok p hdf hs H' (insert x L) (P(hdf sz := x # P (hdf sz))) T"
proof -
  note o = heap_okD [OF ok]
  have h: "hdf sz \<in> hs" using o(1) sz by (simp add: size_heads_def)
  have none: "elems T (H' x) = {}"
  proof -
    have "i \<notin> elems T (H' x)" for i using elems_this(3) [OF H'(5,4)] o(8) [of a n sz i] new by auto
    then show ?thesis by blast
  qed
  have "0 < maxNumElems (H' x)" using H'(2) by (simp add: sub_ok_def sub_static_def)
  then have nf: "\<not> full T (H' x)" using none by (simp add: full_def)
  have lv: "live_ok p T (H' x)"
    using H'(2-7) none nf sz by (simp add: live_ok_def page_of_def)
  show ?thesis
  proof (rule heap_update [OF ok h, where x = x])
    show "set (x # P (hdf sz)) = set (P (hdf sz)) - {x} \<union> (if x \<in> insert x L \<and> \<not> full T (H' x) then {x} else {})"
      using nf by auto
  qed (use H' x lv new in auto)
qed

end
