(* ===== verification/ArenaInv.thy ===== *)
theory ArenaInv
  imports ChunkLines PagePools
begin

text \<open>
  The invariant of an arena. \<open>T\<close> are the regions that are out, \<open>L\<close> the subpages whose page is
  allocated, \<open>P\<close> the rings of the size classes and \<open>Q\<close> the chunk lists. The node set of every
  chunk consists of the runs and the pages of subpages that are out.
\<close>

section \<open>The tables of the size classes\<close>

definition head_addr :: "int \<Rightarrow> nat" where
  "head_addr sz = (case findSubpagePoolHead sz of
     Some (TinySlot i) \<Rightarrow> Suc (nat i) | Some (SmallSlot i) \<Rightarrow> 33 + nat i | None \<Rightarrow> 0)"

definition heads :: "nat \<Rightarrow> nat set" where
  "heads p = {1..<p + 24}"

lemma head_of_class:
  assumes "normalised n" "n < 2 ^ p" "p \<le> 30" "9 \<le> p"
  shows "n < 512 \<and> n mod 16 = 0 \<and> 0 < n \<and> findSubpagePoolHead n = Some (TinySlot (n div 16)) \<and> n div 16 < 32 \<and> head_addr n = Suc (nat (n div 16)) \<or>
    (\<exists>k. 9 \<le> k \<and> k < p \<and> n = 2 ^ k \<and> findSubpagePoolHead n = Some (SmallSlot (int (k - 9))) \<and> head_addr n = 24 + k)"
  using slot_of_normalised [OF assms(1-3)]
proof
  assume "n < 512 \<and> findSubpagePoolHead n = Some (TinySlot (n div 16))"
  then show ?thesis using assms(1) by (auto simp: head_addr_def normalised_def)
next
  assume "\<exists>k. 9 \<le> k \<and> k < p \<and> n = 2 ^ k \<and> findSubpagePoolHead n = Some (SmallSlot (int k - 9))"
  then obtain k where "9 \<le> k" "k < p" "n = 2 ^ k" "findSubpagePoolHead n = Some (SmallSlot (int (k - 9)))" by (auto simp: of_nat_diff)
  then show ?thesis by (intro disjI2 exI [of _ k]) (simp add: head_addr_def)
qed

lemma the_size_heads:
  assumes "12 \<le> p" "p \<le> 30"
  shows "size_heads p head_addr (heads p)"
proof -
  have cls: "n < 512 \<and> n mod 16 = 0 \<and> 0 < n \<and> n div 16 < 32 \<and> head_addr n = Suc (nat (n div 16)) \<or>
      (\<exists>k. 9 \<le> k \<and> k < p \<and> n = 2 ^ k \<and> head_addr n = 24 + k)" if "valid_size p n" for n
    using head_of_class [of n p] that assms by (auto simp: valid_size_def)
  have "head_addr n \<in> heads p" if "valid_size p n" for n
    using cls [OF that] assms by (auto simp: heads_def)
  moreover have "m = n" if v: "valid_size p n" "valid_size p m" and e: "head_addr m = head_addr n" for m n
    using cls [OF v(1)]
  proof
    assume n: "n < 512 \<and> n mod 16 = 0 \<and> 0 < n \<and> n div 16 < 32 \<and> head_addr n = Suc (nat (n div 16))"
    then have "m mod 16 = 0 \<and> 0 < m \<and> head_addr m = Suc (nat (m div 16))" using cls [OF v(2)] e by auto
    then have "nat (m div 16) = nat (n div 16)" "m mod 16 = n mod 16" "0 \<le> m div 16" "0 \<le> n div 16"
      using n e by (simp_all add: pos_imp_zdiv_nonneg_iff)
    then have "m div 16 = n div 16" "m mod 16 = n mod 16" using eq_nat_nat_iff by blast+
    then show ?thesis by (metis div_mult_mod_eq)
  next
    assume "\<exists>k. 9 \<le> k \<and> k < p \<and> n = 2 ^ k \<and> head_addr n = 24 + k"
    then show ?thesis using cls [OF v(2)] e by auto
  qed
  ultimately show ?thesis using assms by (auto simp: size_heads_def heads_def inj_on_def)
qed

section \<open>The invariant\<close>

definition arena_geo :: "nat \<Rightarrow> nat \<Rightarrow> arena \<Rightarrow> bool" where
  "arena_geo p M s \<longleftrightarrow> 12 \<le> p \<and> M \<le> 14 \<and> p + M \<le> 30 \<and> ar_pageSize s = 2 ^ p \<and> ar_chunkSize s = 2 ^ (p + M) \<and>
     ar_maxOrder s = int M \<and> ar_pageShifts s = int p \<and>
     tinySubpagePools s = [1..<33] \<and> smallSubpagePools s = [33..<p + 24]"

definition run_nodes :: "token set \<Rightarrow> nat \<Rightarrow> nat set" where
  "run_nodes T a = {n. Run a n \<in> T}"

definition page_nodes :: "sp_heap \<Rightarrow> nat set \<Rightarrow> nat \<Rightarrow> nat set" where
  "page_nodes H L a = {n. \<exists>x\<in>L. page_of (H x) = (a, int n)}"

text \<open>A subpage object of page \<open>i\<close> of chunk \<open>a\<close>, in use or waiting to be used again.\<close>

definition slot_ok :: "nat \<Rightarrow> nat \<Rightarrow> arena \<Rightarrow> nat set \<Rightarrow> nat \<Rightarrow> nat \<Rightarrow> nat \<Rightarrow> bool" where
  "slot_ok p M s L a i x \<longleftrightarrow>
     still (subs s x) = (a, int (2 ^ M + i), node_off p M (2 ^ M + i), 2 ^ p, 2 ^ p div 1024) \<and>
     x \<notin> heads p \<and> x < new_subpage s \<and> (x \<notin> L \<longrightarrow> sp_prev (subs s x) = 0 \<and> sp_next (subs s x) = 0)"

definition chunk_ok :: "nat \<Rightarrow> nat \<Rightarrow> arena \<Rightarrow> token set \<Rightarrow> nat set \<Rightarrow> nat \<Rightarrow> chunk \<Rightarrow> bool" where
  "chunk_ok p M s T L a c \<longleftrightarrow> chunk_inv p M (run_nodes T a \<union> page_nodes (subs s) L a) c \<and>
     run_nodes T a \<inter> page_nodes (subs s) L a = {} \<and> offset c = 0 \<and> length (subpages c) = 2 ^ M \<and>
     (\<forall>i<2 ^ M. subpages c ! i \<noteq> 0 \<longrightarrow> slot_ok p M s L a i (subpages c ! i))"

text \<open>Everything but the chunk lists.\<close>

definition memory_ok :: "nat \<Rightarrow> nat \<Rightarrow> arena \<Rightarrow> token set \<Rightarrow> nat set \<Rightarrow> (nat \<Rightarrow> nat list) \<Rightarrow> bool" where
  "memory_ok p M s T L P \<longleftrightarrow> arena_geo p M s \<and> heap_ok p head_addr (heads p) (subs s) L P T \<and>
     p + 24 \<le> new_subpage s \<and> 0 < new_chunk s \<and>
     (\<forall>a c. chunks s a = Some c \<longrightarrow> 0 < a \<and> a < new_chunk s \<and>
        (if unpooled c then subpages c = [] \<and> offset c = 0 \<and> Huge a (chunkSize c) \<in> T else chunk_ok p M s T L a c)) \<and>
     (\<forall>a n. Run a n \<in> T \<longrightarrow> (\<exists>c. chunks s a = Some c \<and> \<not> unpooled c)) \<and>
     (\<forall>a m. Huge a m \<in> T \<longrightarrow> (\<exists>c. chunks s a = Some c \<and> unpooled c \<and> chunkSize c = m)) \<and>
     (\<forall>x\<in>L. \<exists>c. chunks s (sp_chunk (subs s x)) = Some c \<and> x \<in> set (subpages c))"

lemma memory_okD:
  assumes "memory_ok p M s T L P"
  shows "arena_geo p M s" "heap_ok p head_addr (heads p) (subs s) L P T" "p + 24 \<le> new_subpage s \<and> 0 < new_chunk s"
    "chunks s a = Some c \<Longrightarrow> 0 < a \<and> a < new_chunk s"
    "chunks s a = Some c \<Longrightarrow> unpooled c \<Longrightarrow> subpages c = [] \<and> offset c = 0"
    "chunks s a = Some c \<Longrightarrow> \<not> unpooled c \<Longrightarrow> chunk_ok p M s T L a c"
    "Run a n \<in> T \<Longrightarrow> \<exists>c. chunks s a = Some c \<and> \<not> unpooled c"
    "Huge a m \<in> T \<Longrightarrow> \<exists>c. chunks s a = Some c \<and> unpooled c \<and> chunkSize c = m"
    "x \<in> L \<Longrightarrow> \<exists>c. chunks s (sp_chunk (subs s x)) = Some c \<and> x \<in> set (subpages c)"
    "chunks s a = Some c \<Longrightarrow> unpooled c \<Longrightarrow> Huge a (chunkSize c) \<in> T"
  using assms unfolding memory_ok_def by (auto split: if_splits)

text \<open>Every chunk of runs and pages is in the list of its usage, and the lists hold no other chunk.\<close>

definition placed :: "arena \<Rightarrow> (nat \<Rightarrow> nat list) \<Rightarrow> bool" where
  "placed s Q \<longleftrightarrow> (\<forall>a c. chunks s a = Some c \<and> \<not> unpooled c \<longrightarrow> (\<exists>l. a \<in> set (Q l) \<and> in_band c l)) \<and>
     (\<forall>l. \<forall>a\<in>set (Q l). \<exists>c. chunks s a = Some c \<and> \<not> unpooled c)"

definition arena_ok :: "nat \<Rightarrow> nat \<Rightarrow> arena \<Rightarrow> token set \<Rightarrow> nat set \<Rightarrow> (nat \<Rightarrow> nat list) \<Rightarrow> (nat \<Rightarrow> nat list) \<Rightarrow> bool" where
  "arena_ok p M s T L P Q \<longleftrightarrow> memory_ok p M s T L P \<and> lines s Q \<and> bands (ar_chunkSize s) s \<and> placed s Q"

section \<open>Where a live page sits\<close>

lemma chunk_okD:
  assumes "chunk_ok p M s T L a c"
  shows "chunk_inv p M (run_nodes T a \<union> page_nodes (subs s) L a) c" "run_nodes T a \<inter> page_nodes (subs s) L a = {}"
    "offset c = 0" "length (subpages c) = 2 ^ M"
    "i < 2 ^ M \<Longrightarrow> subpages c ! i \<noteq> 0 \<Longrightarrow> slot_ok p M s L a i (subpages c ! i)"
  using assms unfolding chunk_ok_def by blast+

lemma slot_okD:
  assumes "slot_ok p M s L a i x"
  shows "still (subs s x) = (a, int (2 ^ M + i), node_off p M (2 ^ M + i), 2 ^ p, 2 ^ p div 1024)"
    "sp_chunk (subs s x) = a" "sp_memoryMapIdx (subs s x) = int (2 ^ M + i)" "sp_runOffset (subs s x) = node_off p M (2 ^ M + i)"
    "sp_pageSize (subs s x) = 2 ^ p" "length (bitmap (subs s x)) = 2 ^ p div 1024" "page_of (subs s x) = (a, int (2 ^ M + i))"
    "x \<notin> heads p" "x < new_subpage s" "x \<notin> L \<Longrightarrow> sp_prev (subs s x) = 0 \<and> sp_next (subs s x) = 0"
  using assms by (simp_all add: slot_ok_def still_def page_of_def)

lemma live_place:
  assumes "memory_ok p M s T L P" "x \<in> L"
  obtains a c i where "chunks s a = Some c" "\<not> unpooled c" "chunk_ok p M s T L a c" "i < 2 ^ M" "subpages c ! i = x" "slot_ok p M s L a i x"
proof -
  note o = memory_okD [OF assms(1)]
  have x0: "x \<noteq> 0" using heap_okD(5) [OF o(2) assms(2)] .
  define a where "a = sp_chunk (subs s x)"
  obtain c where c: "chunks s a = Some c" "x \<in> set (subpages c)" using o(9) [OF assms(2)] unfolding a_def by blast
  then have up: "\<not> unpooled c" using o(5) by fastforce
  have ok: "chunk_ok p M s T L a c" by (rule o(6) [OF c(1) up])
  obtain i where "i < 2 ^ M" "subpages c ! i = x" using c(2) chunk_okD(4) [OF ok] by (auto simp: in_set_conv_nth)
  then show thesis using that [OF c(1) up ok] chunk_okD(5) [OF ok] x0 by metis
qed

lemma live_below: "memory_ok p M s T L P \<Longrightarrow> x \<in> L \<Longrightarrow> x < new_subpage s \<and> x \<notin> heads p"
  by (elim live_place) (auto dest: slot_okD(8,9))

section \<open>One chunk changes\<close>

lemma page_nodes_other:
  assumes "\<And>x. x \<in> L \<Longrightarrow> page_of (H' x) = page_of (H x)" "\<And>x. x \<in> L' \<Longrightarrow> x \<notin> L \<Longrightarrow> sp_chunk (H' x) = a"
    "\<And>x. x \<in> L \<Longrightarrow> x \<notin> L' \<Longrightarrow> sp_chunk (H x) = a" "b \<noteq> a"
  shows "page_nodes H' L' b = page_nodes H L b"
proof -
  have "(\<exists>x\<in>L'. page_of (H' x) = (b, n)) \<longleftrightarrow> (\<exists>x\<in>L. page_of (H x) = (b, n))" for n
    using assms by (auto simp: page_of_def) metis+
  then show ?thesis by (simp add: page_nodes_def)
qed

lemma memory_update:
  assumes ok: "memory_ok p M s T L P" and c: "chunks s a = Some c" "\<not> unpooled c"
    and heap: "heap_ok p head_addr (heads p) H' L' P' T'" and N: "new_subpage s \<le> N"
    and S1: "\<And>x. x < new_subpage s \<Longrightarrow> x \<notin> heads p \<Longrightarrow> still (H' x) = still (subs s x)"
    and S2: "\<And>x. x < new_subpage s \<Longrightarrow> x \<notin> heads p \<Longrightarrow> x \<notin> L \<Longrightarrow> x \<notin> L' \<Longrightarrow> H' x = subs s x"
    and S3: "\<And>x. x \<in> L \<Longrightarrow> x \<notin> L' \<Longrightarrow> sp_chunk (subs s x) = a \<and> sp_prev (H' x) = 0 \<and> sp_next (H' x) = 0"
    and new: "\<And>x. x \<in> L' \<Longrightarrow> x \<notin> L \<Longrightarrow> sp_chunk (H' x) = a \<and> x \<in> set (subpages c')"
    and tok: "\<And>b. b \<noteq> a \<Longrightarrow> run_nodes T' b = run_nodes T b" "\<And>b m. Huge b m \<in> T' \<longleftrightarrow> Huge b m \<in> T"
    and inv: "chunk_inv p M (run_nodes T' a \<union> page_nodes H' L' a) c'" "run_nodes T' a \<inter> page_nodes H' L' a = {}"
      "offset c' = 0" "length (subpages c') = 2 ^ M"
    and entries: "\<And>i. i < 2 ^ M \<Longrightarrow> subpages c' ! i = subpages c ! i \<or>
        slot_ok p M (s\<lparr>chunks := (chunks s)(a \<mapsto> c'), subs := H', new_subpage := N\<rparr>) L' a i (subpages c' ! i)"
    and keep: "set (subpages c) - {0} \<subseteq> set (subpages c')"
  shows "memory_ok p M (s\<lparr>chunks := (chunks s)(a \<mapsto> c'), subs := H', new_subpage := N\<rparr>) T' L' P'"
proof -
  note o = memory_okD [OF ok]
  let ?s = "s\<lparr>chunks := (chunks s)(a \<mapsto> c'), subs := H', new_subpage := N\<rparr>"
  have up: "\<not> unpooled c'" using chunk_inv_geo [OF inv(1)] by (simp add: chunk_geo_def)
  have slot: "slot_ok p M ?s L' b i x" if x: "slot_ok p M s L b i x" for b i x
  proof -
    note f = slot_okD [OF x]
    have "sp_prev (H' x) = 0 \<and> sp_next (H' x) = 0" if "x \<notin> L'"
      using that S2 [OF f(9,8)] S3 [of x] f(10) by (cases "x \<in> L") auto
    then show ?thesis using f(1,8,9) S1 [OF f(9,8)] N by (simp add: slot_ok_def)
  qed
  have oldL: "still (H' x) = still (subs s x)" if "x \<in> L" for x using S1 live_below [OF ok that] by blast
  have others: "chunk_ok p M ?s T' L' b d" if b: "chunk_ok p M s T L b d" "b \<noteq> a" for b d
  proof -
    have "page_nodes H' L' b = page_nodes (subs s) L b"
      using oldL new S3 b(2) by (intro page_nodes_other [where a = a]) (auto intro: still_page)
    then show ?thesis using chunk_okD [OF b(1)] tok(1) [OF b(2)] slot by (simp add: chunk_ok_def)
  qed
  have self: "chunk_ok p M ?s T' L' a c'"
    unfolding chunk_ok_def
  proof (intro conjI allI impI)
    fix i assume i: "i < 2 ^ M" "subpages c' ! i \<noteq> 0"
    then show "slot_ok p M ?s L' a i (subpages c' ! i)"
      using entries [OF i(1)] chunk_okD(5) [OF o(6) [OF c] i(1)] slot by metis
  qed (use inv in simp_all)
  have "\<exists>d. chunks ?s b = Some d \<and> \<not> unpooled d" if "Run b n \<in> T'" for b n
    using that tok(1) [of b] o(7) [of b n] up by (cases "b = a") (auto simp: run_nodes_def)
  moreover have "\<exists>d. chunks ?s b = Some d \<and> unpooled d \<and> chunkSize d = m" if "Huge b m \<in> T'" for b m
    using o(8) [of b m] that tok(2) c by (cases "b = a") auto
  moreover have "\<exists>d. chunks ?s (sp_chunk (H' x)) = Some d \<and> x \<in> set (subpages d)" if x: "x \<in> L'" for x
  proof (cases "x \<in> L")
    case True
    have "sp_chunk (H' x) = sp_chunk (subs s x)" using oldL [OF True] by (simp add: still_def)
    moreover have "x \<noteq> 0" using heap_okD(5) [OF o(2) True] .
    ultimately show ?thesis using o(9) [OF True] c keep by (cases "sp_chunk (H' x) = a") auto
  next
    case False
    then show ?thesis using new [OF x] by auto
  qed
  moreover have "arena_geo p M ?s" using o(1) by (simp add: arena_geo_def)
  ultimately show ?thesis unfolding memory_ok_def using heap N o(3-6,10) c(1) up self others tok(2) by auto
qed

end
