(* ===== verification/ArenaMemory.thy ===== *)
theory ArenaMemory
  imports ArenaInv
begin

text \<open>
  Allocation and release in one chunk of an arena: what \<open>PoolChunk::allocate\<close> and
  \<open>PoolChunk::free\<close> do to the invariant, and which memory the region they hand out covers.
\<close>

section \<open>Regions\<close>

definition region_of :: "nat \<Rightarrow> nat \<Rightarrow> token \<Rightarrow> int \<Rightarrow> region" where
  "region_of p M t len = (case t of
     Run a n \<Rightarrow> \<lparr>rg_chunk = a, rg_handle = int n, rg_offset = node_off p M n, rg_length = len, rg_maxLength = run_bytes p M n\<rparr>
   | Elem a n sz i \<Rightarrow> \<lparr>rg_chunk = a, rg_handle = (2 ^ 30 + int i) * 2 ^ 32 + int n, rg_offset = node_off p M n + int i * sz,
                       rg_length = len, rg_maxLength = sz\<rparr>
   | Huge a m \<Rightarrow> \<lparr>rg_chunk = a, rg_handle = 0, rg_offset = 0, rg_length = len, rg_maxLength = m\<rparr>)"

lemma node_handle:
  assumes "M \<le> 14" "0 < n" "dep n \<le> M"
  shows "bitmapIdx (int n) = 0" "memoryMapIdx (int n) = int n"
proof -
  have "int n < 2 ^ 15" by (rule node_lt [OF assms])
  then show "bitmapIdx (int n) = 0" "memoryMapIdx (int n) = int n"
    by (simp_all add: bitmapIdx_def memoryMapIdx_def drop_bit_eq_div)
qed

lemma node_small:
  assumes "0 < n" "dep n \<le> M" "p + M \<le> 30"
  shows "0 \<le> node_off p M n" "node_off p M n < node_off p M n + run_bytes p M n" "node_off p M n + run_bytes p M n \<le> 1073741824"
    "node_off p M n \<le> 1073741823"
proof -
  have "(2::int) ^ (p + M) \<le> 2 ^ 30" using assms(3) by (intro power_increasing) simp_all
  also have "(2::int) ^ 30 = 1073741824" by simp
  finally have "node_off p M n + run_bytes p M n \<le> 1073741824" using node_inside(2) [OF assms(1,2), of p] by linarith
  moreover have "0 < run_bytes p M n" by (simp add: run_bytes_def)
  ultimately show "0 \<le> node_off p M n" "node_off p M n < node_off p M n + run_bytes p M n"
    "node_off p M n + run_bytes p M n \<le> 1073741824" "node_off p M n \<le> 1073741823"
    using node_inside(1) [OF assms(1,2), of p] by linarith+
qed

lemma run_buffer:
  assumes inv: "chunk_inv p M A c" and n: "n \<in> A" and c: "chunks s a = Some c" "offset c = 0" "a \<noteq> 0"
  shows "initBuf a (int n) req s = (Ok (region_of p M (Run a n) req), s)"
proof -
  note tree = chunk_inv_tree [OF inv] and geo = chunk_inv_geo [OF inv]
  note mem = tree_ok_mem [OF tree n]
  have M: "M \<le> 14" "p + M \<le> 30" "unusable c = Suc M" using geo by (simp_all add: chunk_geo_def)
  have v: "val c n = unusable c" using tree_value(5) [OF tree, of n] mem n M(3) by (simp add: node_ok_def val_def)
  have "runOffset c n = node_off p M n" using geo_runOffset [OF geo] mem by (simp add: node_off_def)
  moreover have "i32 (node_off p M n) = node_off p M n" using node_small [of n M p] mem M(2) by (intro i32_id) simp_all
  ultimately show ?thesis
    using node_handle [OF M(1)] mem geo_runLength [OF geo] v c
    by (simp add: initBuf_def init0_def prog_simps region_of_def Let_def)
qed

text \<open>A page node and its slot.\<close>

lemma page_slot:
  assumes "chunk_geo p M c" "i < 2 ^ M"
  shows "subpageIdx c (2 ^ M + i) = int i" "dep (2 ^ M + i) = M" "runOffset c (2 ^ M + i) = node_off p M (2 ^ M + i)"
proof -
  show d: "dep (2 ^ M + i) = M" using assms(2) by (intro dep_unique) simp_all
  have "int (2 ^ M + i) XOR 2 ^ M = int (2 ^ M + i) - 2 ^ M" using assms(2) by (intro xor_top) simp_all
  then show "subpageIdx c (2 ^ M + i) = int i" using assms(1) by (simp add: subpageIdx_def chunk_geo_def)
  show "runOffset c (2 ^ M + i) = node_off p M (2 ^ M + i)"
    using geo_runOffset [OF assms(1), of "2 ^ M + i"] d by (simp add: node_off_def)
qed

lemma slot_lookup:
  assumes "chunk_ok p M s T L a c" "i < 2 ^ M"
  shows "subpage_at c (int (2 ^ M + i)) s' = (Ok (subpages c ! i), s')"
proof -
  have "subpageIdx c (2 ^ M + i) = int i"
    using page_slot(1) [OF chunk_inv_geo [OF chunk_okD(1) [OF assms(1)]] assms(2)] .
  then have "subpageIdx c (nat (int (2 ^ M + i))) = int i" by (simp only: nat_int)
  then show ?thesis using chunk_okD(4) [OF assms(1)] assms(2)
    by (simp only: subpage_at_def lift_outcome_run) (simp add: nth_addr_Ok)
qed

section \<open>Elements\<close>

lemma elem_in_page:
  assumes "live_ok p T sp" "i < nat (maxNumElems sp)"
  shows "0 \<le> int i * elemSize sp" "int i * elemSize sp + elemSize sp \<le> 2 ^ p" "int i < 2 ^ 30" "0 < elemSize sp"
proof -
  have st: "sub_static sp" "sp_pageSize sp = 2 ^ p" using assms(1) by (simp_all add: live_ok_def sub_ok_def)
  then have e: "0 < elemSize sp" "maxNumElems sp = 2 ^ p div elemSize sp" "maxNumElems sp < 2 ^ 30"
    unfolding sub_static_def by metis+
  have "(int i + 1) * elemSize sp \<le> maxNumElems sp * elemSize sp" using e(1) assms(2) by (intro mult_right_mono) auto
  also have "\<dots> \<le> 2 ^ p" using e(1) by (simp add: e(2) minus_mod_eq_div_mult [symmetric])
  finally show "int i * elemSize sp + elemSize sp \<le> 2 ^ p" by (simp add: algebra_simps)
  show "0 \<le> int i * elemSize sp" "int i < 2 ^ 30" "0 < elemSize sp" using e assms(2) by simp_all
qed

lemma page_bytes: "dep n = M \<Longrightarrow> run_bytes p M n = 2 ^ p"
  by (simp add: run_bytes_def)

lemma page_le: "chunk_geo p M c \<Longrightarrow> 0 < n \<Longrightarrow> dep n = M \<Longrightarrow> int n \<le> INT_MAX"
  using node_lt [of M n] by (simp add: chunk_geo_def)

lemma elem_buffer:
  assumes ok: "memory_ok p M s T L P" and x: "x \<in> L" and pg: "page_of (subs s x) = (a, int n)"
    and i: "i < nat (maxNumElems (subs s x))" and req: "req \<le> elemSize (subs s x)"
  defines "h \<equiv> toHandle (subs s x) (int i)"
  shows "h = (2 ^ 30 + int i) * 2 ^ 32 + int n" "0 \<le> h"
    "initBufWithSubpage a h (bitmapIdx h) req s = (Ok (region_of p M (Elem a n (elemSize (subs s x)) i) req), s)"
    "initBuf a h req s = (Ok (region_of p M (Elem a n (elemSize (subs s x)) i) req), s)"
proof -
  obtain b c j where l: "chunks s b = Some c" "chunk_ok p M s T L b c" "j < 2 ^ M" "subpages c ! j = x" "slot_ok p M s L b j x"
    using live_place [OF ok x] by metis
  have "(a, int n) = (b, int (2 ^ M + j))" using slot_okD(7) [OF l(5)] pg by metis
  then have ab: "a = b" "n = 2 ^ M + j" by (simp_all only: prod.inject of_nat_eq_iff)
  have geo: "chunk_geo p M c" by (rule chunk_inv_geo [OF chunk_okD(1) [OF l(2)]])
  have M: "p + M \<le> 30" using geo by (simp add: chunk_geo_def)
  note o = memory_okD [OF ok]
  have lv: "live_ok p T (subs s x)" by (rule heap_okD(6) [OF o(2) x])
  note e = elem_in_page [OF lv i]
  have n: "0 < n" "dep n = M" "runOffset c n = node_off p M n" using page_slot [OF geo l(3)] l(3) by (simp_all add: ab(2))
  have idx: "sp_memoryMapIdx (subs s x) = int n" "int n \<le> INT_MAX" using pg page_le [OF geo n(1,2)] by (simp_all add: page_of_def)
  have hr: "memoryMapIdx h = int n" "bitmapIdx h = 2 ^ 30 + int i" "(2 ^ 30 + int i) AND 0x3FFFFFFF = int i" "0 < h"
    "h = (2 ^ 30 + int i) * 2 ^ 32 + int n"
    using handle_roundtrip [of "int i" "subs s x"] toHandle_eq [of "int i" "subs s x"] e(3) idx by (simp_all add: h_def)
  have a0: "a \<noteq> 0" using o(4) [OF l(1)] ab(1) by simp
  have sp0: "x \<noteq> 0" by (rule heap_okD(5) [OF o(2) x])
  have es: "elementSize (subs s x) = elemSize (subs s x)" "doNotDestroy (subs s x)"
    using a0 pg lv by (simp_all add: elementSize_def page_of_def live_ok_def)
  have small: "i32 (int i * elemSize (subs s x)) = int i * elemSize (subs s x)"
    "i32 (node_off p M n + int i * elemSize (subs s x)) = node_off p M n + int i * elemSize (subs s x)"
    using node_small [of n M p] n e M page_bytes [OF n(2), of p] by (intro i32_id; linarith)+
  have at: "subpage_at c (int n) s = (Ok x, s)" using slot_lookup [OF l(2,3), of s] l(4) by (simp only: ab(2))
  have c: "chunks s a = Some c" "offset c = 0" using l(1) chunk_okD(3) [OF l(2)] by (simp_all add: ab(1))
  show b: "initBufWithSubpage a h (bitmapIdx h) req s = (Ok (region_of p M (Elem a n (elemSize (subs s x)) i) req), s)"
    using hr at es c n(3) small sp0 req a0 by (simp add: initBufWithSubpage_def init0_def prog_simps region_of_def)
  then show "initBuf a h req s = (Ok (region_of p M (Elem a n (elemSize (subs s x)) i) req), s)"
    using hr(2) by (simp add: initBuf_def)
  show "h = (2 ^ 30 + int i) * 2 ^ 32 + int n" "0 \<le> h" using hr(4,5) by simp_all
qed

section \<open>Allocation of a run\<close>

text \<open>A step that changes one chunk, but not its place in the lists.\<close>

definition chunk_step :: "arena \<Rightarrow> nat \<Rightarrow> chunk \<Rightarrow> arena \<Rightarrow> chunk \<Rightarrow> bool" where
  "chunk_step s a c s' c' \<longleftrightarrow> chunks s a = Some c \<and> chunks s' = (chunks s)(a \<mapsto> c') \<and> lists s' = lists s \<and>
     new_chunk s' = new_chunk s \<and> ar_chunkSize s' = ar_chunkSize s \<and>
     links c' = links c \<and> ck_parent c' = ck_parent c \<and> unpooled c' = unpooled c"

definition nodes_out :: "arena \<Rightarrow> token set \<Rightarrow> nat set \<Rightarrow> nat \<Rightarrow> nat set" where
  "nodes_out s T L a = run_nodes T a \<union> page_nodes (subs s) L a"

definition token_size :: "nat \<Rightarrow> nat \<Rightarrow> token \<Rightarrow> int" where
  "token_size p M t = (case t of Run a n \<Rightarrow> run_bytes p M n | Elem a n sz i \<Rightarrow> sz | Huge a m \<Rightarrow> m)"

text \<open>The outcome of an allocation in chunk \<open>a\<close>: refused, with something out already, or served.\<close>

definition chunk_served :: "nat \<Rightarrow> nat \<Rightarrow> nat \<Rightarrow> int \<Rightarrow> int \<Rightarrow> arena \<Rightarrow> token set \<Rightarrow> nat set \<Rightarrow> chunk \<Rightarrow> bool" where
  "chunk_served p M a req norm s T L c \<longleftrightarrow>
     chunk_allocate a req norm s = (Ok None, s) \<and> nodes_out s T L a \<noteq> {} \<or>
     (\<exists>t s' c' L' P'. chunk_allocate a req norm s = (Ok (Some (region_of p M t req)), s') \<and> t \<notin> T \<and>
        token_size p M t = norm \<and> (\<forall>b m. t \<noteq> Huge b m) \<and> memory_ok p M s' (insert t T) L' P' \<and> chunk_step s a c s' c' \<and> freeBytes c' \<le> freeBytes c)"

lemma empty_has_room: "d \<le> M \<Longrightarrow> \<exists>y. 0 < y \<and> dep y = d \<and> free_node {} y"
  using dep_unique [of d "2 ^ d"] by (intro exI [of _ "2 ^ d"]) (simp add: free_node_def clear_def)

text \<open>Tokens for runs do not concern the subpages.\<close>

lemma heap_runs:
  assumes "heap_ok p hdf hs H L P T" "\<And>a n sz i. Elem a n sz i \<in> T' \<longleftrightarrow> Elem a n sz i \<in> T"
  shows "heap_ok p hdf hs H L P T'"
proof -
  have "elems T' sp = elems T sp" for sp by (simp add: elems_def assms(2))
  then have "full T' sp = full T sp" "live_ok p T' sp = live_ok p T sp" for sp by (simp_all add: full_def live_ok_def)
  then show ?thesis using assms by (simp add: heap_ok_def)
qed

lemma memory_pooled:
  assumes "memory_ok p M s T L P" "chunks s a = Some c" "\<not> unpooled c"
  shows "chunk_inv p M (nodes_out s T L a) c"
  using chunk_okD(1) [OF memory_okD(6) [OF assms]] by (simp add: nodes_out_def)

lemma same_state: "s\<lparr>chunks := C, subs := subs s, new_subpage := new_subpage s\<rparr> = s\<lparr>chunks := C\<rparr>"
  by (cases s) simp

lemma run_update:
  assumes ok: "memory_ok p M s T L P" and c: "chunks s a = Some c" "\<not> unpooled c"
    and T': "\<And>b m. Run b m \<in> T' \<Longrightarrow> b \<noteq> a \<Longrightarrow> Run b m \<in> T" "\<And>b m. Run b m \<in> T \<Longrightarrow> b \<noteq> a \<Longrightarrow> Run b m \<in> T'"
      "\<And>b m. Huge b m \<in> T' \<longleftrightarrow> Huge b m \<in> T" "\<And>b m sz i. Elem b m sz i \<in> T' \<longleftrightarrow> Elem b m sz i \<in> T"
    and c': "chunk_inv p M (run_nodes T' a \<union> page_nodes (subs s) L a) c'" "run_nodes T' a \<inter> page_nodes (subs s) L a = {}"
      "offset c' = offset c" "subpages c' = subpages c"
  shows "memory_ok p M (s\<lparr>chunks := (chunks s)(a \<mapsto> c')\<rparr>) T' L P"
proof -
  note o = memory_okD [OF ok]
  note k = chunk_okD [OF o(6) [OF c]]
  have "heap_ok p head_addr (heads p) (subs s) L P T'" by (rule heap_runs [OF o(2) T'(4)])
  moreover have "run_nodes T' b = run_nodes T b" if "b \<noteq> a" for b using T'(1,2) that by (auto simp: run_nodes_def)
  ultimately have "memory_ok p M (s\<lparr>chunks := (chunks s)(a \<mapsto> c'), subs := subs s, new_subpage := new_subpage s\<rparr>) T' L P"
    using c' k(3,4) T'(3) by (intro memory_update [OF ok c]) simp_all
  then show ?thesis by (simp only: same_state)
qed

lemma allocate_run_ok:
  assumes ok: "memory_ok p M s T L P" and c: "chunks s a = Some c" "\<not> unpooled c" and k: "p \<le> k" "k \<le> p + M"
  shows "chunk_served p M a req (2 ^ k) s T L c"
proof -
  note o = memory_okD [OF ok]
  note ko = chunk_okD [OF o(6) [OF c]]
  let ?A = "nodes_out s T L a"
  have inv: "chunk_inv p M ?A c" by (rule memory_pooled [OF ok c])
  have ps: "pageSize c \<le> 2 ^ k" using chunk_inv_geo [OF inv] k(1) by (simp add: chunk_geo_def power_increasing)
  from allocateRun_spec [OF inv k] show ?thesis
  proof
    assume r: "(\<nexists>y. 0 < y \<and> dep y = p + M - k \<and> free_node ?A y) \<and> allocateRun (2 ^ k) c = (Ok (- 1), c)"
    moreover have "p + M - k \<le> M" using k(1) by linarith
    ultimately have "?A \<noteq> {}" using empty_has_room [of "p + M - k" M] by metis
    then show ?thesis
      using r c ps by (simp add: chunk_served_def chunk_allocate_def prog_simps fun_upd_idem)
  next
    assume "\<exists>y c'. 0 < y \<and> dep y = p + M - k \<and> free_node ?A y \<and> allocateRun (2 ^ k) c = (Ok (int y), c') \<and>
       chunk_inv p M (insert y ?A) c' \<and> runLength c' y = 2 ^ k \<and>
       c' = c\<lparr>memoryMap := updateParentsAlloc ((memoryMap c)[y := Suc M]) y, freeBytes := freeBytes c - 2 ^ k\<rparr>"
    then obtain y c' where y: "0 < y" "dep y = p + M - k" "free_node ?A y" "allocateRun (2 ^ k) c = (Ok (int y), c')"
      "chunk_inv p M (insert y ?A) c'"
      "c' = c\<lparr>memoryMap := updateParentsAlloc ((memoryMap c)[y := Suc M]) y, freeBytes := freeBytes c - 2 ^ k\<rparr>" by blast
    define s' where "s' = s\<lparr>chunks := (chunks s)(a \<mapsto> c')\<rparr>"
    have yA: "y \<notin> ?A" using y(3) by (auto simp: free_node_def clear_def)
    have f: "offset c' = offset c" "subpages c' = subpages c" "links c' = links c" "ck_parent c' = ck_parent c"
      "unpooled c' = unpooled c" "freeBytes c' \<le> freeBytes c" using y(6) by (simp_all add: links_def)
    have runs: "run_nodes (insert (Run a y) T) a = insert y (run_nodes T a)" by (auto simp: run_nodes_def)
    have "memory_ok p M s' (insert (Run a y) T) L P"
      unfolding s'_def by (rule run_update [OF ok c]) (use runs y(5) yA ko(2) f in \<open>auto simp: nodes_out_def\<close>)
    moreover have "initBuf a (int y) req s' = (Ok (region_of p M (Run a y) req), s')"
      using run_buffer [OF y(5), of y s' a req] f(1) ko(3) o(4) [OF c(1)] by (simp add: s'_def)
    then have "chunk_allocate a req (2 ^ k) s = (Ok (Some (region_of p M (Run a y) req)), s')"
      using c y(4) ps by (simp add: chunk_allocate_def prog_simps flip: s'_def)
    moreover have "Run a y \<notin> T" using yA by (simp add: nodes_out_def run_nodes_def)
    moreover have "token_size p M (Run a y) = 2 ^ k" using y(2) k by (simp add: token_size_def run_bytes_def)
    moreover have "chunk_step s a c s' c'" using f c by (simp add: chunk_step_def s'_def)
    moreover have "\<forall>b m. Run a y \<noteq> Huge b m" by simp
    ultimately show ?thesis using f(6) unfolding chunk_served_def by blast
  qed
qed

section \<open>Allocation of an element\<close>

lemma heap_update_state: "s\<lparr>chunks := (chunks s)(a \<mapsto> c), subs := H, new_subpage := new_subpage s\<rparr> = s\<lparr>chunks := (chunks s)(a \<mapsto> c), subs := H\<rparr>"
  by (cases s) simp

text \<open>A step of the pools that opens and closes no page.\<close>

lemma pools_update:
  assumes ok: "memory_ok p M s T L P" and c: "chunks s a = Some c" "\<not> unpooled c"
    and heap: "heap_ok p head_addr (heads p) H' L P' T'" and st: "\<And>y. still (H' y) = still (subs s y)"
    and far: "\<And>y. y \<notin> heads p \<union> L \<Longrightarrow> H' y = subs s y"
    and tok: "\<And>b m. Run b m \<in> T' \<longleftrightarrow> Run b m \<in> T" "\<And>b m. Huge b m \<in> T' \<longleftrightarrow> Huge b m \<in> T"
  shows "memory_ok p M (s\<lparr>subs := H'\<rparr>) T' L P'"
proof -
  note ko = chunk_okD [OF memory_okD(6) [OF ok c]]
  have "page_of (H' y) = page_of (subs s y)" for y using still_page [OF st] .
  then have "page_nodes H' L a = page_nodes (subs s) L a" by (simp add: page_nodes_def)
  moreover have "run_nodes T' b = run_nodes T b" for b using tok(1) by (simp add: run_nodes_def)
  ultimately have "memory_ok p M (s\<lparr>chunks := (chunks s)(a \<mapsto> c), subs := H', new_subpage := new_subpage s\<rparr>) T' L P'"
    using ko(1-4) tok(2) st far by (intro memory_update [OF ok c heap]) auto
  then show ?thesis using c(1) by (simp only: heap_update_state fun_upd_idem) (cases s, simp)
qed

lemma take_element:
  assumes ok: "memory_ok p M s T L P" and h: "h \<in> heads p" and x: "x \<in> set (P h)"
    and pg: "page_of (subs s x) = (a, int n)" and sz: "elemSize (subs s x) = sz" and req: "req \<le> sz"
  shows "\<exists>i H' P'. sp_allocate x (subs s) = (Ok (toHandle (subs s x) (int i)), H') \<and> Elem a n sz i \<notin> T \<and>
    memory_ok p M (s\<lparr>subs := H'\<rparr>) (insert (Elem a n sz i) T) L P' \<and> 0 \<le> toHandle (subs s x) (int i) \<and>
    initBuf a (toHandle (subs s x) (int i)) req (s\<lparr>subs := H'\<rparr>) = (Ok (region_of p M (Elem a n sz i) req), s\<lparr>subs := H'\<rparr>) \<and>
    initBufWithSubpage a (toHandle (subs s x) (int i)) (bitmapIdx (toHandle (subs s x) (int i))) req (s\<lparr>subs := H'\<rparr>) =
      (Ok (region_of p M (Elem a n sz i) req), s\<lparr>subs := H'\<rparr>)"
proof -
  note o = memory_okD [OF ok]
  obtain i H' P' where t: "sp_allocate x (subs s) = (Ok (toHandle (subs s x) (int i)), H')" "Elem a n sz i \<notin> T"
    "heap_ok p head_addr (heads p) H' L P' (insert (Elem a n sz i) T)" "\<forall>y. still (H' y) = still (subs s y)"
    "\<forall>y. elemSize (H' y) = elemSize (subs s y)" "\<forall>y. y \<notin> heads p \<union> L \<longrightarrow> H' y = subs s y"
    using heap_take [OF o(2) h x pg] sz by metis
  have xL: "x \<in> L" using heap_okD(3) [OF o(2) h] x by blast
  obtain b c where c: "chunks s b = Some c" "\<not> unpooled c" using live_place [OF ok xL] by metis
  define s' where "s' = s\<lparr>subs := H'\<rparr>"
  have ok': "memory_ok p M s' (insert (Elem a n sz i) T) L P'"
    unfolding s'_def by (rule pools_update [OF ok c t(3)]) (use t in auto)
  have f: "page_of (subs s' x) = (a, int n)" "elemSize (subs s' x) = sz" "sp_memoryMapIdx (subs s' x) = sp_memoryMapIdx (subs s x)"
    using t(4,5) pg sz still_page [of "H' x" "subs s x"] by (simp_all add: s'_def still_def)
  have "i \<in> elems (insert (Elem a n sz i) T) (subs s' x)" using elems_this(3) [OF f(1,2)] by simp
  then have "i < nat (maxNumElems (subs s' x))"
    using heap_okD(6) [OF memory_okD(2) [OF ok'] xL] by (auto simp: live_ok_def sub_ok_def)
  note e = elem_buffer [OF ok' xL f(1) this, unfolded f(2), OF req]
  have "toHandle (subs s' x) (int i) = toHandle (subs s x) (int i)" using f(3) by (simp add: toHandle_def)
  then show ?thesis using t(1,2) ok' e(2-4) unfolding s'_def by (intro exI [of _ i] exI [of _ H'] exI [of _ P']) simp
qed

end
