(* ===== verification/ArenaPages.thy ===== *)
theory ArenaPages
  imports ArenaMemory
begin

text \<open>
  Allocation of an element that needs a new page: \<open>PoolChunk::allocateSubpage\<close> takes a page node
  and initialises the page's subpage object, a new one or one left from an earlier use.
\<close>

lemma findHead_ok:
  assumes "arena_geo p M s" "valid_size p sz"
  shows "findHead sz s = (Ok (head_addr sz), s)"
proof -
  have g: "12 \<le> p" "p \<le> 30" "tinySubpagePools s = [1..<33]" "smallSubpagePools s = [33..<p + 24]"
    using assms(1) by (simp_all add: arena_geo_def)
  from head_of_class [of sz p] assms(2) g show ?thesis
  proof (elim meta_impE disjE)
    assume t: "sz < 512 \<and> sz mod 16 = 0 \<and> 0 < sz \<and> findSubpagePoolHead sz = Some (TinySlot (sz div 16)) \<and> sz div 16 < 32 \<and>
      head_addr sz = Suc (nat (sz div 16))"
    then have i: "0 \<le> sz div 16" by (simp add: pos_imp_zdiv_nonneg_iff)
    then have "nat (sz div 16) < 32" using t nat_less_iff [OF i, of 32] by linarith
    then show ?thesis using t i g(3) by (simp add: findHead_def prog_simps nth_addr_def nth_append)
  qed (use g in \<open>auto simp: valid_size_def findHead_def prog_simps nth_addr_def\<close>)
qed

lemma page_opened:
  assumes ok: "memory_ok p M s T L P" and c: "chunks s a = Some c" "\<not> unpooled c" and sz: "valid_size p sz"
    and y: "i < 2 ^ M" "y = 2 ^ M + i" "y \<notin> nodes_out s T L a" and x: "x \<notin> heads p" "x \<notin> L" "x \<noteq> 0"
    and H': "pool H' (head_addr sz) (x # P (head_addr sz))" "sub_ok (H' x) {}" "doNotDestroy (H' x)" "elemSize (H' x) = sz"
      "still (H' x) = (a, int y, node_off p M y, 2 ^ p, 2 ^ p div 1024)"
      "\<forall>z. z \<noteq> x \<longrightarrow> core (H' z) = core (subs s z)" "\<forall>z. z \<notin> set (head_addr sz # x # P (head_addr sz)) \<longrightarrow> H' z = subs s z"
    and old: "x = new_subpage s \<and> subpages c ! i = 0 \<and> N = Suc x \<or> subpages c ! i = x \<and> N = new_subpage s"
    and c': "chunk_inv p M (insert y (nodes_out s T L a)) c'" "offset c' = 0" "subpages c' = (subpages c)[i := x]"
  shows "memory_ok p M (s\<lparr>chunks := (chunks s)(a \<mapsto> c'), subs := H', new_subpage := N\<rparr>) T (insert x L)
    (P(head_addr sz := x # P (head_addr sz)))"
proof (rule memory_update [OF ok c])
  note o = memory_okD [OF ok]
  note ko = chunk_okD [OF o(6) [OF c]]
  have h: "head_addr sz \<in> heads p" using heap_okD(1) [OF o(2)] sz by (simp add: size_heads_def)
  have pg: "page_of (H' x) = (a, int y)" "sp_pageSize (H' x) = 2 ^ p" "sp_chunk (H' x) = a" using H'(5) by (simp_all add: still_def page_of_def)
  have pgo: "page_of (H' z) = page_of (subs s z)" if "z \<in> L" for z using H'(6) that x(2) core_same(1) by metis
  have nodes: "page_nodes H' (insert x L) a = insert y (page_nodes (subs s) L a)"
    using pg(1) pgo by (auto simp: page_nodes_def)
  have yn: "page_of (subs s z) \<noteq> (a, int y)" if "z \<in> L" for z
    using y(3) that by (auto simp: nodes_out_def page_nodes_def)
  have geo: "chunk_geo p M c'" by (rule chunk_inv_geo [OF c'(1)])
  have "int y \<le> INT_MAX" using page_le [OF geo _ page_slot(2) [OF geo y(1)]] y(2) by simp
  then show "heap_ok p head_addr (heads p) H' (insert x L) (P(head_addr sz := x # P (head_addr sz))) T"
    using heap_opened [OF o(2) sz x H'(1-4) pg(1) _ pg(2) H'(6,7) yn] by blast
  show "chunk_inv p M (run_nodes T a \<union> page_nodes H' (insert x L) a) c'" using c'(1) by (simp add: nodes nodes_out_def)
  show "run_nodes T a \<inter> page_nodes H' (insert x L) a = {}" using ko(2) y(3) by (auto simp: nodes nodes_out_def)
  show "new_subpage s \<le> N" using old by auto
  have P: "set (P (head_addr sz)) \<subseteq> L" using heap_okD(3) [OF o(2) h] by blast
  show "still (H' z) = still (subs s z)" if "z < new_subpage s" "z \<notin> heads p" for z
  proof (cases "z = x")
    case True
    then have "still (subs s z) = still (H' x)"
      using slot_okD(1) [OF ko(5) [OF y(1)]] old that x(3) H'(5) by (auto simp: y(2))
    then show ?thesis using True by simp
  qed (use H'(6) still_core in blast)
  show "H' z = subs s z" if "z \<notin> heads p" "z \<notin> L" "z \<notin> insert x L" for z
  proof -
    have "z \<noteq> head_addr sz" "z \<notin> set (P (head_addr sz))" "z \<noteq> x" using that h P by blast+
    then show ?thesis using H'(7) by simp
  qed
  show "sp_chunk (H' z) = a \<and> z \<in> set (subpages c')" if "z \<in> insert x L" "z \<notin> L" for z
    using that pg(3) y(1) ko(4) by (simp add: c'(3) set_update_memI)
  show "subpages c' ! j = subpages c ! j \<or> slot_ok p M (s\<lparr>chunks := (chunks s)(a \<mapsto> c'), subs := H', new_subpage := N\<rparr>)
      (insert x L) a j (subpages c' ! j)" if "j < 2 ^ M" for j
  proof (cases "j = i")
    case True
    then show ?thesis using H'(5) x(1) old y(1) ko(4) slot_okD(9) [OF ko(5) [OF y(1)]] x(3)
      by (auto simp: c'(3) slot_ok_def y(2))
  qed (simp add: c'(3))
  show "set (subpages c) - {0} \<subseteq> set (subpages c')"
  proof
    fix z assume "z \<in> set (subpages c) - {0}"
    then obtain j where "j < length (subpages c)" "z = subpages c ! j" "z \<noteq> 0" by (auto simp: in_set_conv_nth)
    then show "z \<in> set (subpages c')" using old by (cases "j = i") (auto simp: c'(3) in_set_conv_nth nth_list_update intro!: exI [of _ j])
  qed
qed (use c' chunk_okD(4) [OF memory_okD(6) [OF ok c]] x(2) in auto)

text \<open>The code of \<open>allocateSubpage\<close> up to the element: the page is taken and its object initialised.\<close>


definition opens :: "nat \<Rightarrow> nat \<Rightarrow> nat \<Rightarrow> int \<Rightarrow> arena \<Rightarrow> token set \<Rightarrow> nat set \<Rightarrow> chunk \<Rightarrow> bool" where
  "opens p M a sz s T L c \<longleftrightarrow>
     (\<exists>x y P' s' c'. allocateSubpage a sz s = on_subs (sp_allocate x) s' \<and> memory_ok p M s' T (insert x L) P' \<and>
        x \<in> set (P' (head_addr sz)) \<and> page_of (subs s' x) = (a, int y) \<and> elemSize (subs s' x) = sz \<and>
        chunk_step s a c s' c' \<and> freeBytes c' \<le> freeBytes c)"

lemma node_taken:
  assumes "chunk_inv p M A c" "0 < y" "dep y = M" "free_node A y"
  defines "c1 \<equiv> c\<lparr>memoryMap := updateParentsAlloc ((memoryMap c)[y := Suc M]) y\<rparr>"
  shows "chunk_inv p M (insert y A) (c1\<lparr>freeBytes := i32 (freeBytes c1 - pageSize c1)\<rparr>)"
    "i32 (freeBytes c1 - pageSize c1) \<le> freeBytes c"
proof -
  have geo: "chunk_geo p M c" by (rule chunk_inv_geo [OF assms(1)])
  have yA: "y \<notin> A" using assms(4) by (auto simp: free_node_def clear_def)
  have fin: "finite A" using sum_run_bytes(2) [OF chunk_inv_tree [OF assms(1)]] .
  define c' where "c' = c1\<lparr>freeBytes := freeBytes c - 2 ^ p\<rparr>"
  have "tree_ok M (insert y A) (memoryMap c1)"
    using tree_alloc [OF chunk_inv_tree [OF assms(1)] assms(2) _ assms(4)] assms(3) by (simp add: c1_def)
  then have inv: "chunk_inv p M (insert y A) c'"
    using geo fin yA assms(1,3) by (simp add: chunk_inv_def c'_def c1_def chunk_geo_def run_bytes_def)
  have "freeBytes c' = freeBytes c - 2 ^ p" by (simp add: c'_def)
  then have "0 \<le> freeBytes c - 2 ^ p" "freeBytes c - 2 ^ p \<le> 2 ^ 30" using free_bytes_bounds [OF inv] by simp_all
  then have "i32 (freeBytes c1 - pageSize c1) = freeBytes c - 2 ^ p" using geo by (simp add: c1_def chunk_geo_def)
  then show "chunk_inv p M (insert y A) (c1\<lparr>freeBytes := i32 (freeBytes c1 - pageSize c1)\<rparr>)"
    "i32 (freeBytes c1 - pageSize c1) \<le> freeBytes c" using inv by (simp_all add: c'_def)
qed

lemma slot_at:
  assumes "chunk_geo p M c" "length (subpages c) = 2 ^ M" "i < 2 ^ M"
  shows "subpage_at c (int (2 ^ M + i)) s = (Ok (subpages c ! i), s)" "nat (subpageIdx c (nat (int (2 ^ M + i)))) = i"
proof -
  have idx: "subpageIdx c (nat (int (2 ^ M + i))) = int i" using page_slot(1) [OF assms(1,3)] by (simp only: nat_int)
  then show "subpage_at c (int (2 ^ M + i)) s = (Ok (subpages c ! i), s)" using assms(2,3)
    by (simp only: subpage_at_def lift_outcome_run) (simp add: nth_addr_Ok)
  show "nat (subpageIdx c (nat (int (2 ^ M + i)))) = i" by (subst idx) (rule nat_int)
qed

lemma class_fits:
  assumes "valid_size p sz" "12 \<le> p" "p \<le> 30"
  shows "16 \<le> sz" "sz \<le> 2 ^ p" "(2::int) ^ p \<le> 2 ^ 30" "(2::int) ^ p mod 1024 = 0"
proof -
  have "sz = 2 ^ k \<Longrightarrow> 9 \<le> k \<Longrightarrow> (16::int) \<le> sz" for k using power_increasing [of 9 k "2::int"] by simp
  then show "16 \<le> sz" using assms(1) by (auto simp: valid_size_def normalised_def split: if_splits)
  show "sz \<le> 2 ^ p" using assms(1) by (simp add: valid_size_def)
  show "(2::int) ^ p \<le> 2 ^ 30" using assms(3) by (intro power_increasing) simp_all
  have "p = (p - 10) + 10" using assms(2) by linarith
  then have "(2::int) ^ p = 2 ^ (p - 10) * 2 ^ 10" by (metis power_add)
  then show "(2::int) ^ p mod 1024 = 0" by simp
qed

lemma next_object: "(new_subpage_update Suc s)\<lparr>subs := H, chunks := C\<rparr> =
  s\<lparr>chunks := C, subs := H, new_subpage := Suc (new_subpage s)\<rparr>"
  by (cases s) simp

text \<open>The page's object is there: a new one, or the old one again.\<close>

lemma opens_page:
  assumes ok: "memory_ok p M s T L P" and c: "chunks s a = Some c" "\<not> unpooled c" and sz: "valid_size p sz"
    and y: "i < 2 ^ M" "y = 2 ^ M + i" "y \<notin> nodes_out s T L a"
    and c': "chunk_inv p M (insert y (nodes_out s T L a)) c'" "offset c' = 0" "subpages c' = subpages c"
      "links c' = links c" "ck_parent c' = ck_parent c" "unpooled c' = unpooled c" "freeBytes c' \<le> freeBytes c"
    and run: "\<And>m. bindp (findHead sz) (\<lambda>head. bindp (deref a) (\<lambda>c0. bindp (on_chunk a (allocateNode (maxOrder c0))) (\<lambda>n.
       if n < 0 then ret n
       else seqp (on_chunk a (modify (\<lambda>c. c\<lparr>freeBytes := i32 (freeBytes c - pageSize c)\<rparr>))) (m head n)))) s =
       m (head_addr sz) (int y) (s\<lparr>chunks := (chunks s)(a \<mapsto> c')\<rparr>)"
  shows "opens p M a sz s T L c"
proof -
  note o = memory_okD [OF ok]
  note ko = chunk_okD [OF o(6) [OF c]]
  have geo: "chunk_geo p M c'" by (rule chunk_inv_geo [OF c'(1)])
  have gp: "12 \<le> p" "p \<le> 30" using o(1) by (simp_all add: arena_geo_def)
  note fits = class_fits [OF sz gp]
  have h: "head_addr sz \<in> heads p" "0 \<notin> heads p" using heap_okD(1) [OF o(2)] sz by (auto simp: size_heads_def)
  note ring = heap_okD(2) [OF o(2) h(1)] and inL = heap_okD(3) [OF o(2) h(1)]
  let ?h = "head_addr sz" and ?s1 = "s\<lparr>chunks := (chunks s)(a \<mapsto> c')\<rparr>"
  have look: "subpage_at c' (int y) t = (Ok (subpages c ! i), t)" "nat (subpageIdx c' (nat (int y))) = i" for t
    using slot_at [OF geo _ y(1)] ko(4) c'(3) y(2) by simp_all
  have ro: "runOffset c' (nat (int y)) = node_off p M y" "pageSize c' = 2 ^ p"
    unfolding nat_int using page_slot(3) [OF geo y(1)] geo by (simp_all add: y(2) chunk_geo_def)
  show ?thesis
  proof (cases "subpages c ! i = 0")
    case True
    define x where "x = new_subpage s"
    have x: "x \<notin> L" "x \<notin> heads p" "x \<noteq> 0" using live_below [OF ok] o(3) by (auto simp: x_def heads_def)
    obtain H' where H': "PoolSubpage_new (bitmap_junk s) ?h a (int y) (node_off p M y) (2 ^ p) sz x (subs s) = (Ok (), H')"
      "pool H' ?h (x # P ?h)" "sub_ok (H' x) {}" "doNotDestroy (H' x)" "elemSize (H' x) = sz" "int (length (bitmap (H' x))) = 2 ^ p div 1024"
      "sp_chunk (H' x) = a" "sp_memoryMapIdx (H' x) = int y" "sp_runOffset (H' x) = node_off p M y" "sp_pageSize (H' x) = 2 ^ p"
      "\<forall>z. z \<noteq> x \<longrightarrow> core (H' z) = core (subs s z)" "\<forall>z. z \<notin> set (?h # x # P ?h) \<longrightarrow> H' z = subs s z"
      using PoolSubpage_new_ok [OF fits ring, of x "bitmap_junk s" a "int y" "node_off p M y"] x h inL by auto
    define c'' where "c'' = c'\<lparr>subpages := (subpages c')[i := x]\<rparr>"
    define s' where "s' = s\<lparr>chunks := (chunks s)(a \<mapsto> c''), subs := H', new_subpage := Suc x\<rparr>"
    have "allocateSubpage a sz s = on_subs (sp_allocate x) s'"
      unfolding allocateSubpage_def run using look True H'(1) ro
      by (simp add: prog_simps deref_def on_chunk_def on_subs_run c''_def s'_def x_def next_object)
    moreover have "memory_ok p M s' T (insert x L) (P(?h := x # P ?h))"
      unfolding s'_def
    proof (rule page_opened [OF ok c sz y x(2,1,3) H'(2-5) _ H'(11,12)])
      show "still (H' x) = (a, int y, node_off p M y, 2 ^ p, 2 ^ p div 1024)"
        using H'(6-10) nat_int [of "length (bitmap (H' x))"] by (simp add: still_def nat_div_distrib nat_power_eq)
      show "chunk_inv p M (insert y (nodes_out s T L a)) c''" using c'(1) by (simp add: c''_def chunk_inv_def chunk_geo_def)
    qed (use True c' in \<open>simp_all add: x_def c''_def\<close>)
    moreover have "chunk_step s a c s' c''" using c c' by (simp add: chunk_step_def s'_def c''_def links_def)
    ultimately show ?thesis using H'(5,7,8) c'(7) unfolding opens_def
      by (intro exI [of _ x] exI [of _ y] exI [of _ "P(?h := x # P ?h)"] exI [of _ s'] exI [of _ c''])
        (simp add: s'_def c''_def page_of_def)
  next
    case False
    define x where "x = subpages c ! i"
    note slot = slot_okD [OF ko(5) [OF y(1) False], folded x_def]
    have "x \<notin> L" using y(2,3) slot(7) by (auto simp: nodes_out_def page_nodes_def)
    then have x: "x \<notin> L" "x \<notin> heads p" "x \<noteq> 0" "x \<notin> set (?h # P ?h)" "sp_prev (subs s x) = 0 \<and> sp_next (subs s x) = 0"
      using slot(8,10) False inL h by (auto simp: x_def)
    have pz: "sp_pageSize (subs s x) = 2 ^ p" "int (length (bitmap (subs s x))) = 2 ^ p div 1024"
      using slot(5,6) by (simp_all add: of_nat_div)
    obtain H' where H': "init_subpage ?h sz x (subs s) = (Ok (), H')" "pool H' ?h (x # P ?h)" "sub_ok (H' x) {}" "doNotDestroy (H' x)"
      "elemSize (H' x) = sz" "length (bitmap (H' x)) = length (bitmap (subs s x))" "sp_chunk (H' x) = sp_chunk (subs s x)"
      "sp_memoryMapIdx (H' x) = sp_memoryMapIdx (subs s x)" "sp_runOffset (H' x) = sp_runOffset (subs s x)"
      "sp_pageSize (H' x) = sp_pageSize (subs s x)"
      "\<forall>z. z \<noteq> x \<longrightarrow> core (H' z) = core (subs s z)" "\<forall>z. z \<notin> set (?h # x # P ?h) \<longrightarrow> H' z = subs s z"
      using init_subpage_ok [of sz "subs s" x ?h "P ?h"] fits ring pz x by auto
    define s' where "s' = s\<lparr>chunks := (chunks s)(a \<mapsto> c'), subs := H', new_subpage := new_subpage s\<rparr>"
    have s': "s' = ?s1\<lparr>subs := H'\<rparr>" by (simp add: s'_def)
    have "allocateSubpage a sz s = on_subs (sp_allocate x) s'"
      unfolding allocateSubpage_def run using look False H'(1) x(3)
      by (simp add: prog_simps deref_def on_subs_run s' flip: x_def)
    moreover have st: "still (H' x) = (a, int y, node_off p M y, 2 ^ p, 2 ^ p div 1024)"
      using H'(6-10) slot(1) by (simp add: still_def y(2))
    then have "memory_ok p M s' T (insert x L) (P(?h := x # P ?h))"
      unfolding s'_def using c' False
      by (intro page_opened [OF ok c sz y x(2,1,3) H'(2-5) _ H'(11,12)]) (simp_all add: x_def)
    moreover have "chunk_step s a c s' c'" using c c' by (simp add: chunk_step_def s'_def)
    ultimately show ?thesis using H'(5) c'(7) st unfolding opens_def
      by (intro exI [of _ x] exI [of _ y] exI [of _ "P(?h := x # P ?h)"] exI [of _ s'] exI [of _ c'])
        (simp add: s'_def page_of_def still_def)
  qed
qed

lemma on_chunk_same: "chunks s a = Some c \<Longrightarrow> m c = (r, c) \<Longrightarrow> on_chunk a m s = (r, s)"
  by (simp add: on_chunk_def fun_upd_idem)

lemma page_taken:
  assumes ok: "memory_ok p M s T L P" and c: "chunks s a = Some c" "\<not> unpooled c" and sz: "valid_size p sz"
  shows "allocateSubpage a sz s = (Ok (- 1), s) \<and> nodes_out s T L a \<noteq> {} \<or> opens p M a sz s T L c"
proof -
  note o = memory_okD [OF ok]
  let ?A = "nodes_out s T L a"
  have inv: "chunk_inv p M ?A c" by (rule memory_pooled [OF ok c])
  have mo: "maxOrder c = int M" using chunk_inv_geo [OF inv] by (simp add: chunk_geo_def)
  have head: "findHead sz s = (Ok (head_addr sz), s)" by (rule findHead_ok [OF o(1) sz])
  from allocateNode_spec [OF inv order_refl] show ?thesis
  proof
    assume n: "(\<nexists>y. 0 < y \<and> dep y = M \<and> free_node ?A y) \<and> allocateNode (int M) c = (Ok (- 1), c)"
    then have "?A \<noteq> {}" using empty_has_room [OF order_refl, of M] by (intro notI) simp
    moreover have "on_chunk a (allocateNode (int M)) s = (Ok (- 1), s)" using n c(1) on_chunk_same by blast
    ultimately show ?thesis using head c mo by (simp add: allocateSubpage_def prog_simps)
  next
    assume "\<exists>y. 0 < y \<and> dep y = M \<and> free_node ?A y \<and> allocateNode (int M) c =
       (Ok (int y), c\<lparr>memoryMap := updateParentsAlloc ((memoryMap c)[y := Suc M]) y\<rparr>)"
    then obtain y where y: "0 < y" "dep y = M" "free_node ?A y" "allocateNode (int M) c =
       (Ok (int y), c\<lparr>memoryMap := updateParentsAlloc ((memoryMap c)[y := Suc M]) y\<rparr>)" by blast
    define i where "i = y - 2 ^ M"
    have b: "2 ^ M \<le> y" "y < 2 ^ Suc M" using dep_bounds [OF y(1)] y(2) by auto
    then have i: "i < 2 ^ M" "y = 2 ^ M + i" by (simp_all add: i_def)
    have yA: "y \<notin> ?A" using y(3) by (auto simp: free_node_def clear_def)
    define c1 where "c1 = c\<lparr>memoryMap := updateParentsAlloc ((memoryMap c)[y := Suc M]) y\<rparr>"
    define c' where "c' = c1\<lparr>freeBytes := i32 (freeBytes c1 - pageSize c1)\<rparr>"
    note t = node_taken [OF inv y(1-3), folded c1_def, folded c'_def]
    have fb: "freeBytes c' \<le> freeBytes c" using t(2) by (simp add: c'_def)
    have f: "offset c' = 0" "subpages c' = subpages c" "links c' = links c" "ck_parent c' = ck_parent c" "unpooled c' = unpooled c"
      using chunk_okD(3) [OF o(6) [OF c]] by (simp_all add: c'_def c1_def links_def)
    have "opens p M a sz s T L c"
      by (rule opens_page [OF ok c sz i yA t(1) f fb])
        (use head c mo y(4) in \<open>simp add: prog_simps flip: c1_def c'_def\<close>)
    then show ?thesis ..
  qed
qed

lemma allocate_elem_ok:
  assumes ok: "memory_ok p M s T L P" and c: "chunks s a = Some c" "\<not> unpooled c" and sz: "valid_size p sz" and req: "req \<le> sz"
  shows "chunk_served p M a req sz s T L c"
proof -
  have inv: "chunk_inv p M (nodes_out s T L a) c" by (rule memory_pooled [OF ok c])
  have ps: "\<not> pageSize c \<le> sz" using chunk_inv_geo [OF inv] sz by (simp add: chunk_geo_def valid_size_def)
  from page_taken [OF ok c sz] show ?thesis
  proof
    assume "allocateSubpage a sz s = (Ok (- 1), s) \<and> nodes_out s T L a \<noteq> {}"
    then show ?thesis using c ps by (simp add: chunk_served_def chunk_allocate_def prog_simps)
  next
    assume "opens p M a sz s T L c"
    then obtain x y P' s' c' where x: "allocateSubpage a sz s = on_subs (sp_allocate x) s'" "memory_ok p M s' T (insert x L) P'"
      "x \<in> set (P' (head_addr sz))" "page_of (subs s' x) = (a, int y)" "elemSize (subs s' x) = sz"
      "chunk_step s a c s' c'" "freeBytes c' \<le> freeBytes c" unfolding opens_def by blast
    note o = memory_okD [OF x(2)]
    have h: "head_addr sz \<in> heads p" using heap_okD(1) [OF o(2)] sz by (simp add: size_heads_def)
    obtain i H' P'' where t: "sp_allocate x (subs s') = (Ok (toHandle (subs s' x) (int i)), H')" "Elem a y sz i \<notin> T"
      "memory_ok p M (s'\<lparr>subs := H'\<rparr>) (insert (Elem a y sz i) T) (insert x L) P''" "0 \<le> toHandle (subs s' x) (int i)"
      "initBuf a (toHandle (subs s' x) (int i)) req (s'\<lparr>subs := H'\<rparr>) =
         (Ok (region_of p M (Elem a y sz i) req), s'\<lparr>subs := H'\<rparr>)"
      using take_element [OF x(2) h x(3-5) req] by metis
    have "chunk_allocate a req sz s = (Ok (Some (region_of p M (Elem a y sz i) req)), s'\<lparr>subs := H'\<rparr>)"
      using c ps x(1) t(1,4,5) by (simp add: chunk_allocate_def prog_simps)
    moreover have "chunk_step s a c (s'\<lparr>subs := H'\<rparr>) c'" using x(6) by (simp add: chunk_step_def)
    moreover have "token_size p M (Elem a y sz i) = sz" by (simp add: token_size_def)
    moreover have "\<forall>b m. Elem a y sz i \<noteq> Huge b m" by simp
    ultimately show ?thesis using t(2,3) x(7) unfolding chunk_served_def by blast
  qed
qed

text \<open>Sizes that an arena asks its chunks for.\<close>

definition class_size :: "nat \<Rightarrow> nat \<Rightarrow> int \<Rightarrow> bool" where
  "class_size p M norm \<longleftrightarrow> valid_size p norm \<or> (\<exists>k. p \<le> k \<and> k \<le> p + M \<and> norm = 2 ^ k)"

lemma chunk_allocate_ok:
  assumes "memory_ok p M s T L P" "chunks s a = Some c" "\<not> unpooled c" "class_size p M norm" "req \<le> norm"
  shows "chunk_served p M a req norm s T L c"
  using assms(4)
proof (unfold class_size_def, elim disjE exE conjE)
  assume "valid_size p norm"
  then show ?thesis using allocate_elem_ok [OF assms(1-3) _ assms(5)] by blast
next
  fix k assume "p \<le> k" "k \<le> p + M" "norm = 2 ^ k"
  then show ?thesis using allocate_run_ok [OF assms(1-3)] by simp
qed

end
