(* ===== verification/ArenaRelease.thy ===== *)
theory ArenaRelease
  imports ArenaPages
begin

text \<open>
  Release of a region of a chunk: \<open>PoolChunk::free\<close> decodes the handle, gives an element back to
  its page and a run or an empty page back to the tree.
\<close>

definition token_handle :: "token \<Rightarrow> int" where
  "token_handle t = (case t of Run a n \<Rightarrow> int n | Elem a n sz i \<Rightarrow> (2 ^ 30 + int i) * 2 ^ 32 + int n | Huge a m \<Rightarrow> 0)"

definition token_chunk :: "token \<Rightarrow> nat" where
  "token_chunk t = (case t of Run a n \<Rightarrow> a | Elem a n sz i \<Rightarrow> a | Huge a m \<Rightarrow> a)"

lemma region_fields: "rg_chunk (region_of p M t len) = token_chunk t" "rg_handle (region_of p M t len) = token_handle t"
  "rg_length (region_of p M t len) = len" "rg_maxLength (region_of p M t len) = token_size p M t"
  by (cases t; simp add: region_of_def token_chunk_def token_handle_def token_size_def)+

definition chunk_freed :: "nat \<Rightarrow> nat \<Rightarrow> arena \<Rightarrow> token set \<Rightarrow> token \<Rightarrow> nat \<Rightarrow> chunk \<Rightarrow> bool" where
  "chunk_freed p M s T t a c \<longleftrightarrow> (\<exists>s' c' L' P'. chunk_free a (token_handle t) s = (Ok (), s') \<and>
     memory_ok p M s' (T - {t}) L' P' \<and> chunk_step s a c s' c' \<and> freeBytes c \<le> freeBytes c')"

lemma free_run_ok:
  assumes ok: "memory_ok p M s T L P" and t: "Run a n \<in> T" and c: "chunks s a = Some c" "\<not> unpooled c"
  shows "chunk_freed p M s T (Run a n) a c"
proof -
  note o = memory_okD [OF ok]
  note ko = chunk_okD [OF o(6) [OF c]]
  have inv: "chunk_inv p M (nodes_out s T L a) c" by (rule memory_pooled [OF ok c])
  have n: "n \<in> nodes_out s T L a" "n \<notin> page_nodes (subs s) L a" using t ko(2) by (auto simp: nodes_out_def run_nodes_def)
  have M: "M \<le> 14" using chunk_inv_geo [OF inv] by (simp add: chunk_geo_def)
  note h = node_handle [OF M] tree_ok_mem [OF chunk_inv_tree [OF inv] n(1)]
  define c' where "c' = free_run (int n) c"
  have fr: "chunk_inv p M (nodes_out s T L a - {n}) c'"
    "c' = c\<lparr>memoryMap := updateParentsFree_loop ((memoryMap c)[n := dep n]) n (int (dep n) + 1),
            freeBytes := freeBytes c + run_bytes p M n\<rparr>"
    using free_run_spec [OF inv n(1)] h unfolding c'_def by blast+
  have f: "offset c' = offset c" "subpages c' = subpages c" "links c' = links c" "ck_parent c' = ck_parent c"
    "unpooled c' = unpooled c" "freeBytes c \<le> freeBytes c'" by (simp_all add: fr(2) links_def run_bytes_def)
  have "nodes_out s T L a - {n} = run_nodes (T - {Run a n}) a \<union> page_nodes (subs s) L a"
    "run_nodes (T - {Run a n}) a = run_nodes T a - {n}" using n by (auto simp: nodes_out_def run_nodes_def)
  then have "memory_ok p M (s\<lparr>chunks := (chunks s)(a \<mapsto> c')\<rparr>) (T - {Run a n}) L P"
    using fr(1) f ko(2) by (intro run_update [OF ok c]) auto
  moreover have "chunk_free a (int n) s = (Ok (), s\<lparr>chunks := (chunks s)(a \<mapsto> c')\<rparr>)"
    using h c by (simp add: chunk_free_def prog_simps c'_def)
  moreover have "chunk_step s a c (s\<lparr>chunks := (chunks s)(a \<mapsto> c')\<rparr>) c'" using c f by (simp add: chunk_step_def)
  ultimately show ?thesis using f(6) unfolding chunk_freed_def token_handle_def by (auto simp: token_handle_def)
qed

text \<open>An element, up to the call of \<open>PoolSubpage::free\<close>.\<close>

lemma free_element_run:
  assumes ok: "memory_ok p M s T L P" and x: "x \<in> L" "page_of (subs s x) = (a, int n)" "elemSize (subs s x) = sz"
    and i: "i < nat (maxNumElems (subs s x))"
    and r: "sp_free (head_addr sz) (int i) x (subs s) = (Ok kept, H')"
  defines "h \<equiv> token_handle (Elem a n sz i)"
  shows "free_element a h s = (Ok kept, s\<lparr>subs := H'\<rparr>)" "bitmapIdx h \<noteq> 0" "memoryMapIdx h = int n"
proof -
  note o = memory_okD [OF ok]
  obtain b c j where l: "chunks s b = Some c" "chunk_ok p M s T L b c" "j < 2 ^ M" "subpages c ! j = x" "slot_ok p M s L b j x"
    using live_place [OF ok x(1)] by metis
  have "(a, int n) = (b, int (2 ^ M + j))" using slot_okD(7) [OF l(5)] x(2) by metis
  then have ab: "a = b" "n = 2 ^ M + j" by (simp_all only: prod.inject of_nat_eq_iff)
  have lv: "live_ok p T (subs s x)" by (rule heap_okD(6) [OF o(2) x(1)])
  have i30: "int i < 2 ^ 30" by (rule elem_in_page(3) [OF lv i])
  have idx: "0 \<le> sp_memoryMapIdx (subs s x)" "sp_memoryMapIdx (subs s x) \<le> INT_MAX" "sp_memoryMapIdx (subs s x) = int n"
    using lv x(2) by (simp_all add: live_ok_def page_of_def)
  have "h = toHandle (subs s x) (int i)" using toHandle_eq [of "int i" "subs s x"] i30 idx by (simp add: h_def token_handle_def)
  then have hr: "memoryMapIdx h = int n" "bitmapIdx h = 2 ^ 30 + int i" "(2 ^ 30 + int i) AND 0x3FFFFFFF = int i"
    using handle_roundtrip [of "int i" "subs s x"] i30 idx by simp_all
  then show "memoryMapIdx h = int n" "bitmapIdx h \<noteq> 0" by simp_all
  have a0: "a \<noteq> 0" using o(4) [OF l(1)] ab(1) by simp
  have es: "elementSize (subs s x) = sz" "doNotDestroy (subs s x)" "valid_size p sz"
    using a0 x(2,3) lv by (simp_all add: elementSize_def page_of_def live_ok_def)
  have at: "subpage_at c (int n) s = (Ok x, s)" using slot_lookup [OF l(2,3), of s] l(4) by (simp only: ab(2))
  show "free_element a h s = (Ok kept, s\<lparr>subs := H'\<rparr>)"
    using hr at es l(1) ab(1) findHead_ok [OF o(1) es(3)] heap_okD(5) [OF o(2) x(1)] r
    by (simp add: free_element_def prog_simps)
qed

lemma free_elem_ok:
  assumes ok: "memory_ok p M s T L P" and t: "Elem a n sz i \<in> T"
  shows "\<exists>c. chunks s a = Some c \<and> \<not> unpooled c \<and> chunk_freed p M s T (Elem a n sz i) a c"
proof -
  note o = memory_okD [OF ok]
  let ?t = "Elem a n sz i"
  obtain x H' P' kept where x: "x \<in> L" "page_of (subs s x) = (a, int n)" "elemSize (subs s x) = sz"
    "i < nat (maxNumElems (subs s x))" "sp_free (head_addr sz) (int i) x (subs s) = (Ok kept, H')"
    "heap_ok p head_addr (heads p) H' (if kept then L else L - {x}) P' (T - {?t})"
    "\<not> kept \<longrightarrow> sp_prev (H' x) = 0 \<and> sp_next (H' x) = 0" "\<forall>y. still (H' y) = still (subs s y)"
    "\<forall>y. y \<notin> heads p \<union> L \<longrightarrow> H' y = subs s y" using heap_give [OF o(2) t] by metis
  note fe = free_element_run [OF ok x(1-5)]
  obtain c where c: "chunks s a = Some c" "\<not> unpooled c" "x \<in> set (subpages c)"
    using live_place [OF ok x(1)] slot_okD(2) x(2) o(9) [OF x(1)] by (metis page_of_def prod.inject option.inject)
  note ko = chunk_okD [OF o(6) [OF c(1,2)]]
  have inv: "chunk_inv p M (nodes_out s T L a) c" by (rule memory_pooled [OF ok c(1,2)])
  have n: "n \<in> page_nodes (subs s) L a" using x(1,2) by (auto simp: page_nodes_def)
  have "chunk_freed p M s T ?t a c"
  proof (cases kept)
    case True
    have "memory_ok p M (s\<lparr>subs := H'\<rparr>) (T - {?t}) L P'"
      by (rule pools_update [OF ok c(1,2)]) (use x(6,8,9) True in auto)
    moreover have "chunk_free a (token_handle ?t) s = (Ok (), s\<lparr>subs := H'\<rparr>)"
      using fe True by (simp add: chunk_free_def prog_simps)
    moreover have "chunk_step s a c (s\<lparr>subs := H'\<rparr>) c" using c by (simp add: chunk_step_def fun_upd_idem)
    ultimately show ?thesis unfolding chunk_freed_def by blast
  next
    case False
    define c' where "c' = free_run (token_handle ?t) c"
    have "n \<in> nodes_out s T L a" using n by (simp add: nodes_out_def)
    then have fr: "chunk_inv p M (nodes_out s T L a - {n}) c'"
      "c' = c\<lparr>memoryMap := updateParentsFree_loop ((memoryMap c)[n := dep n]) n (int (dep n) + 1),
              freeBytes := freeBytes c + run_bytes p M n\<rparr>"
      using free_run_spec [OF inv _ fe(3)] unfolding c'_def by blast+
    have f: "offset c' = offset c" "subpages c' = subpages c" "links c' = links c" "ck_parent c' = ck_parent c"
      "unpooled c' = unpooled c" "freeBytes c \<le> freeBytes c'" by (simp_all add: fr(2) links_def run_bytes_def)
    have pg: "page_of (H' y) = page_of (subs s y)" for y using x(8) still_page by metis
    have "page_of (subs s y) \<noteq> (a, int n)" if "y \<in> L - {x}" for y using heap_okD(7) [OF o(2) x(1), of y] that x(2) by auto
    then have pn: "page_nodes H' (L - {x}) a = page_nodes (subs s) L a - {n}" using pg x(1,2) by (auto simp: page_nodes_def)
    have rn: "run_nodes (T - {?t}) b = run_nodes T b" for b by (auto simp: run_nodes_def)
    have nodes: "run_nodes T a \<union> (page_nodes (subs s) L a - {n}) = nodes_out s T L a - {n}"
      using ko(2) n by (auto simp: nodes_out_def)
    have "memory_ok p M (s\<lparr>chunks := (chunks s)(a \<mapsto> c'), subs := H', new_subpage := new_subpage s\<rparr>) (T - {?t}) (L - {x}) P'"
    proof (rule memory_update [OF ok c(1,2)])
      show "sp_chunk (subs s y) = a \<and> sp_prev (H' y) = 0 \<and> sp_next (H' y) = 0" if "y \<in> L" "y \<notin> L - {x}" for y
        using that x(2,7) False by (auto simp: page_of_def)
    qed (use x(6,8,9) False fr(1) f pn rn nodes ko in auto)
    moreover have "chunk_free a (token_handle ?t) s = (Ok (), s\<lparr>chunks := (chunks s)(a \<mapsto> c'), subs := H', new_subpage := new_subpage s\<rparr>)"
      using fe False c(1) by (simp add: chunk_free_def prog_simps c'_def)
    moreover have "chunk_step s a c (s\<lparr>chunks := (chunks s)(a \<mapsto> c'), subs := H', new_subpage := new_subpage s\<rparr>) c'"
      using c f by (simp add: chunk_step_def)
    ultimately show ?thesis using f(6) unfolding chunk_freed_def by blast
  qed
  then show ?thesis using c(1,2) by blast
qed

end
