(* ===== verification/ArenaLists.thy ===== *)
theory ArenaLists
  imports ArenaRelease
begin

text \<open>
  Allocation from and release into the chunk lists: \<open>PoolChunkList::allocate\<close> and
  \<open>PoolChunkList::free\<close> keep every chunk in the list of its usage.
\<close>

section \<open>Links do not matter for the memory\<close>

lemma bare_fields:
  assumes "bare c = bare c'"
  shows "usage c = usage c'" "unpooled c = unpooled c'" "offset c = offset c'" "subpages c = subpages c'" "chunkSize c = chunkSize c'"
    "freeBytes c = freeBytes c'" "chunk_inv p M A c = chunk_inv p M A c'"
proof -
  have e: "chunk_inv p M A (bare x) = chunk_inv p M A x" for x by (simp add: chunk_inv_def chunk_geo_def bare_def)
  show "chunk_inv p M A c = chunk_inv p M A c'" using e [of c] e [of c'] assms by simp
qed (use assms of_bare [of c] of_bare [of c'] in metis)+

lemma relinked_back:
  assumes "relinked s s'" "chunks s' a = Some c'"
  obtains c where "chunks s a = Some c" "bare c = bare c'"
  using relinkedD(1) [OF assms(1), of a] assms(2) by (cases "chunks s a") auto

lemma memory_relinked:
  assumes ok: "memory_ok p M s T L P" and r: "relinked s s'"
  shows "memory_ok p M s' T L P"
proof -
  note o = memory_okD [OF ok] and d = relinkedD(3-) [OF r]
  have older: "\<exists>c. chunks s a = Some c \<and> unpooled c = unpooled c' \<and> subpages c = subpages c' \<and> offset c = offset c' \<and> chunkSize c = chunkSize c' \<and>
      (chunk_ok p M s T L a c \<longrightarrow> chunk_ok p M s' T L a c')" if c': "chunks s' a = Some c'" for a c'
  proof -
    obtain c where c: "chunks s a = Some c" "bare c = bare c'" using relinked_back [OF r c'] .
    show ?thesis using c(1) bare_fields [OF c(2)] d
      by (intro exI [of _ c]) (simp add: chunk_ok_def slot_ok_def)
  qed
  have forth: "\<exists>c'. chunks s' a = Some c' \<and> unpooled c' = unpooled c \<and> subpages c' = subpages c \<and> chunkSize c' = chunkSize c"
    if c: "chunks s a = Some c" for a c
    using relinked_chunk [OF r c] bare_fields by metis
  show ?thesis
    unfolding memory_ok_def
  proof (intro conjI allI impI ballI)
    show "arena_geo p M s'" using o(1) d by (simp add: arena_geo_def)
    show "heap_ok p head_addr (heads p) (subs s') L P T" "p + 24 \<le> new_subpage s'" "0 < new_chunk s'" using o(2,3) d by simp_all
    fix a c' assume "chunks s' a = Some c'"
    then obtain c where c: "chunks s a = Some c" "unpooled c = unpooled c'" "subpages c = subpages c'" "offset c = offset c'"
      "chunkSize c = chunkSize c'" "chunk_ok p M s T L a c \<longrightarrow> chunk_ok p M s' T L a c'" using older by blast
    show "0 < a" "a < new_chunk s'"
      "if unpooled c' then subpages c' = [] \<and> offset c' = 0 \<and> Huge a (chunkSize c') \<in> T else chunk_ok p M s' T L a c'"
      using o(4-6,10) [OF c(1)] c(2-6) d by auto
  next
    fix a n assume "Run a n \<in> T"
    then show "\<exists>c. chunks s' a = Some c \<and> \<not> unpooled c" using o(7) forth by metis
  next
    fix a m assume "Huge a m \<in> T"
    then show "\<exists>c. chunks s' a = Some c \<and> unpooled c \<and> chunkSize c = m" using o(8) forth by metis
  next
    fix x assume "x \<in> L"
    then show "\<exists>c. chunks s' (sp_chunk (subs s' x)) = Some c \<and> x \<in> set (subpages c)" using o(9) forth d by metis
  qed
qed

section \<open>A step of one chunk leaves the lines\<close>

lemma step_lines:
  assumes "chunk_step s a c s' c'" "lines s Q"
  shows "lines s' Q"
proof -
  have l: "map_option links (chunks s' x) = map_option links (chunks s x)" "map_option ck_parent (chunks s' x) = map_option ck_parent (chunks s x)" for x
    using assms(1) by (cases "x = a"; simp add: chunk_step_def)+
  then have "seg (chunks s') 0 xs 0 = seg (chunks s) 0 xs 0" for xs by (intro seg_cong) simp
  then show ?thesis using assms l(2) by (simp add: lines_def line_def chunk_step_def del: map_option_eq_Some)
qed

lemma step_bands: "chunk_step s a c s' c' \<Longrightarrow> bands z s = bands z s'"
  by (simp add: chunk_step_def bands_def)

section \<open>Placement\<close>

definition placed_but :: "nat \<Rightarrow> arena \<Rightarrow> (nat \<Rightarrow> nat list) \<Rightarrow> bool" where
  "placed_but a s Q \<longleftrightarrow> (\<forall>b c. b \<noteq> a \<longrightarrow> chunks s b = Some c \<longrightarrow> \<not> unpooled c \<longrightarrow> (\<exists>l. b \<in> set (Q l) \<and> in_band c l)) \<and>
     (\<forall>l. \<forall>b\<in>set (Q l). \<exists>c. chunks s b = Some c \<and> \<not> unpooled c)"

lemma placed_butD:
  assumes "placed_but a s Q"
  shows "b \<noteq> a \<Longrightarrow> chunks s b = Some c \<Longrightarrow> \<not> unpooled c \<Longrightarrow> \<exists>l. b \<in> set (Q l) \<and> in_band c l"
    "b \<in> set (Q l) \<Longrightarrow> \<exists>c. chunks s b = Some c \<and> \<not> unpooled c"
  using assms unfolding placed_but_def by blast+

lemma in_band_bare: "bare c = bare c' \<Longrightarrow> in_band c l = in_band c' l"
  using bare_fields(1) [of c c'] by (simp add: in_band_def)

lemma placed_relinked:
  assumes "placed_but a s Q" "relinked s s'"
  shows "placed_but a s' Q"
  unfolding placed_but_def
proof (intro conjI allI impI ballI)
  fix b c' assume "b \<noteq> a" "chunks s' b = Some c'" "\<not> unpooled c'"
  then show "\<exists>l. b \<in> set (Q l) \<and> in_band c' l"
    using assms relinked_back [OF assms(2)] bare_fields(2) in_band_bare unfolding placed_but_def by metis
next
  fix l b assume "b \<in> set (Q l)"
  then obtain c where "chunks s b = Some c" "\<not> unpooled c" using placed_butD(2) [OF assms(1)] by blast
  then show "\<exists>c. chunks s' b = Some c \<and> \<not> unpooled c" using relinked_chunk [OF assms(2)] bare_fields(2) by metis
qed

lemma step_placed:
  assumes "chunk_step s a c s' c'" "placed_but a s Q"
  shows "placed_but a s' Q"
  using assms unfolding placed_but_def chunk_step_def by (metis fun_upd_other fun_upd_same option.inject)

lemma placed_cut:
  assumes "placed_but a s Q" "Q l = ys @ a # zs"
  shows "placed_but a s (Q(l := ys @ zs))"
proof -
  have "set ((Q(l := ys @ zs)) k) \<subseteq> set (Q k)" for k using assms(2) by auto
  moreover have "b \<in> set ((Q(l := ys @ zs)) k)" if "b \<in> set (Q k)" "b \<noteq> a" for b k using that assms(2) by auto
  ultimately show ?thesis using assms(1) unfolding placed_but_def by (meson subsetD)
qed

text \<open>A chunk comes to rest in a list of its band.\<close>

lemma settle:
  assumes "memory_ok p M s T L P" "bands (ar_chunkSize s) s" "placed_but a s Q" "chunks s a = Some c" "\<not> unpooled c"
    and "relinked s s'" "lines s' (Q(l := a # Q l))" "in_band c l"
  shows "arena_ok p M s' T L P (Q(l := a # Q l))"
proof -
  obtain c' where c': "chunks s' a = Some c'" "bare c' = bare c" using relinked_chunk [OF assms(6,4)] .
  have ib: "in_band c' l" "\<not> unpooled c'" using in_band_bare [OF c'(2)] bare_fields(2) [OF c'(2)] assms(5,8) by simp_all
  have pl: "placed_but a s' Q" by (rule placed_relinked [OF assms(3,6)])
  have "placed s' (Q(l := a # Q l))"
    unfolding placed_def
  proof (intro conjI allI impI ballI)
    fix b d assume d: "chunks s' b = Some d \<and> \<not> unpooled d"
    show "\<exists>k. b \<in> set ((Q(l := a # Q l)) k) \<and> in_band d k"
    proof (cases "b = a")
      case True
      then show ?thesis using d c' ib by (intro exI [of _ l]) simp
    next
      case False
      then obtain k where "b \<in> set (Q k)" "in_band d k" using placed_butD(1) [OF pl False] d by blast
      then show ?thesis by (intro exI [of _ k]) auto
    qed
  next
    fix k b assume "b \<in> set ((Q(l := a # Q l)) k)"
    then have "b = a \<or> b \<in> set (Q k)" by (auto split: if_splits)
    then show "\<exists>d. chunks s' b = Some d \<and> \<not> unpooled d" using c' ib(2) placed_butD(2) [OF pl] by blast
  qed
  moreover have "bands (ar_chunkSize s') s'" using bands_relinked [OF assms(6,2)] relinkedD(9) [OF assms(6)] by simp
  ultimately show ?thesis using memory_relinked [OF assms(1,6)] assms(7) by (simp add: arena_ok_def)
qed

text \<open>The same when the chunk stays where it is.\<close>

lemma stay:
  assumes "memory_ok p M s T L P" "bands (ar_chunkSize s) s" "placed_but a s Q" "chunks s a = Some c"
    and "lines s Q" "a \<in> set (Q l)" "in_band c l"
  shows "arena_ok p M s T L P Q"
proof -
  have "placed s Q" using assms(3,4,6,7) unfolding placed_def placed_but_def by (metis option.inject)
  then show ?thesis using assms by (simp add: arena_ok_def)
qed

lemma placed_but_of: "placed s Q \<Longrightarrow> placed_but a s Q"
  by (auto simp: placed_def placed_but_def)

section \<open>Allocation along a list\<close>

lemma bind_asks: "bindp (asks f) g s = g (f s) s"
  by (simp add: bindp_def asks_run)

definition arena_served :: "nat \<Rightarrow> nat \<Rightarrow> int \<Rightarrow> int \<Rightarrow> token set \<Rightarrow> region \<Rightarrow> arena \<Rightarrow> bool" where
  "arena_served p M req norm T rg s' \<longleftrightarrow> (\<exists>t L P Q. rg = region_of p M t req \<and> t \<notin> T \<and> token_size p M t = norm \<and>
     (norm \<le> 2 ^ (p + M) \<longrightarrow> (\<forall>b m. t \<noteq> Huge b m)) \<and>
     arena_ok p M s' (insert t T) L P Q)"

lemma arena_okD:
  assumes "arena_ok p M s T L P Q"
  shows "memory_ok p M s T L P" "lines s Q" "bands (ar_chunkSize s) s" "placed s Q"
  using assms by (simp_all add: arena_ok_def)

lemma pooled_mono:
  assumes "memory_ok p M s T L P" "chunks s a = Some c" "\<not> unpooled c" "memory_ok p M s' T' L' P'" "chunks s' a = Some c'" "\<not> unpooled c'"
  shows "freeBytes c \<le> freeBytes c' \<Longrightarrow> usage c' \<le> usage c" "freeBytes c' \<le> freeBytes c \<Longrightarrow> usage c \<le> usage c'" "0 \<le> usage c" "usage c \<le> 100"
  using usage_mono [OF memory_pooled [OF assms(1-3)] memory_pooled [OF assms(4-6)]]
    usage_mono [OF memory_pooled [OF assms(4-6)] memory_pooled [OF assms(1-3)]] usage_bounds [OF memory_pooled [OF assms(1-3)]]
  by simp_all

lemma in_lines_once: "lines s Q \<Longrightarrow> Q l = ys @ a # zs \<Longrightarrow> a \<notin> set ((Q(l := ys @ zs)) k)"
proof
  assume a: "lines s Q" "Q l = ys @ a # zs" "a \<in> set ((Q(l := ys @ zs)) k)"
  have "distinct (Q l)" using a(1) by (simp add: lines_def line_def)
  then have "k \<noteq> l" using a(2,3) by auto
  then show False using lines_disjoint [OF a(1), of a l k] a(2,3) by simp
qed

text \<open>After a step that filled chunk \<open>a\<close> of list \<open>l\<close>, \<open>allocate\<close> moves it along if it must.\<close>

lemma after_allocation:
  assumes ok: "memory_ok p M s T L P" and ln: "lines s Q" and b: "bands (ar_chunkSize s) s" and pl: "placed_but a s Q"
    and c: "chunks s a = Some c" "\<not> unpooled c" and q: "Q l = ys @ a # zs" and l: "l \<in> {2..6}"
    and low: "minUsage (arena_lists 0 l) \<le> usage c"
  shows "\<exists>s' Q'. seqp (if usage c \<ge> maxUsage (lists s l)
       then seqp (list_remove l a) (if nextList (lists s l) = 0 then undef else list_add (Suc numLists) (nextList (lists s l)) a)
       else ret ()) (ret (Some rg)) s = (Ok (Some rg), s') \<and> arena_ok p M s' T L P Q'"
proof (cases "usage c \<ge> maxUsage (arena_lists 0 l)")
  case False
  then have "in_band c l" using l low by (simp add: in_band_def)
  then have "arena_ok p M s T L P Q" using stay [OF ok b pl c(1) ln, of l] q by simp
  then show ?thesis using False band_fields(2) [OF b, of l] by (auto simp: prog_simps)
next
  case True
  note f = band_fields [OF b, of l]
  have l6: "l \<in> {1..6}" "l - 1 \<in> {1..6}" using l by auto
  have nx: "nextList (lists s l) = l - 1" "l - 1 \<noteq> 0" using f(3) the_neighbours(1) [OF l6(1)] l by auto
  let ?Q = "Q(l := ys @ zs)"
  obtain s1 where s1: "list_remove l a s = (Ok (), s1)" "relinked s s1" "lines s1 ?Q" using list_remove_ok [OF ln q] by blast
  obtain c1 where c1: "chunks s1 a = Some c1" "bare c1 = bare c" using relinked_chunk [OF s1(2) c(1)] .
  have a0: "a \<noteq> 0" using memory_okD(4) [OF ok c(1)] by simp
  have u: "usage c1 = usage c" "\<not> unpooled c1" using bare_fields [OF c1(2)] c(2) by simp_all
  have u100: "usage c1 \<le> 100" using usage_bounds(2) [OF memory_pooled [OF ok c]] u by simp
  have "minUsage (arena_lists 0 (l - 1)) \<le> usage c1"
    using list_cases [OF l6(1)] l True u(1) by (auto simp: the_bands)
  moreover have "l - 1 \<le> Suc numLists" unfolding numLists_def using l by auto
  ultimately obtain l' s' where s': "list_add (Suc numLists) (l - 1) a s1 = (Ok (), s')" "relinked s1 s'" "lines s' (?Q(l' := a # ?Q l'))" "in_band c1 l'"
    using list_add_ok [OF s1(3) bands_relinked [OF s1(2) b] in_lines_once [OF ln q] c1(1) a0 u100 l6(2)] by blast
  have "arena_ok p M s' T L P (?Q(l' := a # ?Q l'))"
  proof (rule settle [OF _ _ _ c1(1) u(2) s'(2-4)])
    show "memory_ok p M s1 T L P" by (rule memory_relinked [OF ok s1(2)])
    show "bands (ar_chunkSize s1) s1" using bands_relinked [OF s1(2) b] relinkedD(9) [OF s1(2)] by simp
    show "placed_but a s1 ?Q" by (rule placed_relinked [OF placed_cut [OF pl q] s1(2)])
  qed
  then show ?thesis using True f(2) nx s1(1) s'(1) by (auto simp: prog_simps)
qed

lemma walk_ok:
  assumes ok: "arena_ok p M s T L P Q" and l: "l \<in> {2..6}" and sz: "class_size p M norm" "req \<le> norm"
  shows "Q l = ys @ zs \<Longrightarrow> length zs \<le> k \<Longrightarrow>
    allocate_walk k l (hd (zs @ [0])) req norm s = (Ok None, s) \<or>
    (\<exists>rg s'. allocate_walk k l (hd (zs @ [0])) req norm s = (Ok (Some rg), s') \<and> arena_served p M req norm T rg s')"
proof (induction zs arbitrary: k ys)
  case Nil
  then show ?case by (cases k) (simp_all add: prog_simps)
next
  case (Cons a zs)
  note o = arena_okD [OF ok]
  obtain j where k: "k = Suc j" "length zs \<le> j" using Cons.prems(2) by (cases k) auto
  have ln: "line s l (ys @ a # zs)" using o(2) Cons.prems(1) unfolding lines_def by metis
  obtain c where c: "chunks s a = Some c" "ck_next c = hd (zs @ [0])" using line_split [OF ln] by metis
  have "a \<in> set (Q l)" using Cons.prems(1) by simp
  then have c': "\<not> unpooled c" using o(4) c(1) unfolding placed_def by (metis option.inject)
  have band: "in_band c l" using o(4) c(1) c' \<open>a \<in> set (Q l)\<close> lines_disjoint [OF o(2)] unfolding placed_def by metis
  have a0: "a \<noteq> 0" using memory_okD(4) [OF o(1) c(1)] by simp
  from chunk_allocate_ok [OF o(1) c(1) c' sz] show ?case
    unfolding chunk_served_def
  proof (elim disjE exE conjE)
    assume none: "chunk_allocate a req norm s = (Ok None, s)"
    have "allocate_walk k l (hd ((a # zs) @ [0])) req norm s = allocate_walk j l (hd (zs @ [0])) req norm s"
      using none c a0 by (simp add: k(1) prog_simps)
    then show ?thesis using Cons.IH [of "ys @ [a]" j] Cons.prems(1) k(2) by simp
  next
    fix t s1 c1 L1 P1
    assume some: "chunk_allocate a req norm s = (Ok (Some (region_of p M t req)), s1)" and t: "t \<notin> T" "token_size p M t = norm" "\<forall>b m. t \<noteq> Huge b m"
      and s1: "memory_ok p M s1 (insert t T) L1 P1" "chunk_step s a c s1 c1" "freeBytes c1 \<le> freeBytes c"
    have c1: "chunks s1 a = Some c1" "\<not> unpooled c1" "ar_chunkSize s1 = ar_chunkSize s"
      using s1(2) c' by (simp_all add: chunk_step_def)
    have b: "bands (ar_chunkSize s1) s1" using o(3) step_bands [OF s1(2)] c1(3) by simp
    have low: "minUsage (arena_lists 0 l) \<le> usage c1"
      using band pooled_mono(2) [OF o(1) c(1) c' s1(1) c1(1,2) s1(3)] by (simp add: in_band_def)
    obtain s' Q' where s': "seqp (if usage c1 \<ge> maxUsage (lists s1 l)
       then seqp (list_remove l a) (if nextList (lists s1 l) = 0 then undef else list_add (Suc numLists) (nextList (lists s1 l)) a)
       else ret ()) (ret (Some (region_of p M t req))) s1 = (Ok (Some (region_of p M t req)), s')"
      "arena_ok p M s' (insert t T) L1 P1 Q'"
      using after_allocation [OF s1(1) step_lines [OF s1(2) o(2)] b step_placed [OF s1(2) placed_but_of [OF o(4)]] c1(1,2) Cons.prems(1) l low,
          where rg = "region_of p M t req"] by (elim exE conjE) (rule that)
    have "allocate_walk k l (hd ((a # zs) @ [0])) req norm s = (Ok (Some (region_of p M t req)), s')"
      by (simp only: k(1) append_Cons list.sel allocate_walk.simps a0 if_False bindp_Ok [of "chunk_allocate a req norm" s, OF some] option.case
          bindp_Ok [of "deref a" s1, OF deref_run, OF c1(1)] bind_asks s'(1))
    then show ?thesis using t s'(2) unfolding arena_served_def by blast
  qed
qed

lemma list_allocate_ok:
  assumes ok: "arena_ok p M s T L P Q" and l: "l \<in> {2..6}" and sz: "class_size p M norm" "req \<le> norm"
  shows "list_allocate l req norm s = (Ok None, s) \<or>
    (\<exists>rg s'. list_allocate l req norm s = (Ok (Some rg), s') \<and> arena_served p M req norm T rg s')"
proof -
  note o = arena_okD [OF ok]
  have ln: "line s l (Q l)" using o(2) by (simp add: lines_def)
  have "\<exists>c. chunks s a = Some c" if "a \<in> set (Q l)" for a using line_dom [OF ln that] by blast
  then have "set (Q l) \<subseteq> {..<new_chunk s}" using memory_okD(4) [OF o(1)] by blast
  then have "card (set (Q l)) \<le> card {..<new_chunk s}" by (intro card_mono) simp_all
  moreover have "distinct (Q l)" using ln by (simp add: line_def)
  ultimately have "length (Q l) \<le> new_chunk s" by (simp add: distinct_card)
  moreover have "list_head (lists s l) = hd (Q l @ [0])" using ln by (simp add: line_def)
  ultimately have "allocate_walk (new_chunk s) l (list_head (lists s l)) req norm s = (Ok None, s) \<or>
    (\<exists>rg s'. allocate_walk (new_chunk s) l (list_head (lists s l)) req norm s = (Ok (Some rg), s') \<and> arena_served p M req norm T rg s')"
    using walk_ok [OF ok l sz, of "[]" "Q l"] by simp
  then show ?thesis by (simp add: list_allocate_def bind_asks ret_run)
qed

section \<open>Deleting a chunk\<close>

lemma heap_ok_cong:
  assumes ok: "heap_ok p hdf hs H L P T" and same: "\<And>x. x \<in> hs \<union> L \<Longrightarrow> H' x = H x" and T': "\<And>a n sz i. Elem a n sz i \<in> T' \<longleftrightarrow> Elem a n sz i \<in> T"
  shows "heap_ok p hdf hs H' L P T'"
proof -
  note o = heap_okD [OF heap_runs [OF ok T']]
  have "pool H' h (P h)" if h: "h \<in> hs" for h
  proof -
    have "H' x = H x" if "x \<in> set (h # P h)" for x using same [of x] that h o(3) [OF h, of x] by auto
    then show ?thesis using o(2) [OF h] pool_cong [of h "P h" H' H] by auto
  qed
  moreover have "x \<in> set (P h) \<longleftrightarrow> x \<in> L \<and> hdf (elemSize (H' x)) = h \<and> \<not> full T' (H' x)" if "h \<in> hs" for h x
    using o(3) [OF that, of x] same [of x] by auto
  moreover have "x \<notin> hs \<and> x \<noteq> 0 \<and> live_ok p T' (H' x)" if "x \<in> L" for x
    using o(4-6) [OF that] same [of x] that by simp
  moreover have "inj_on (\<lambda>x. page_of (H' x)) L" using o(7) same by (auto intro!: inj_onI)
  moreover have "\<exists>x\<in>L. page_of (H' x) = (a, int n) \<and> elemSize (H' x) = sz" if "Elem a n sz i \<in> T'" for a n sz i
    using o(8) [OF that] same by auto
  ultimately show ?thesis using o(1) by (simp add: heap_ok_def)
qed

definition without :: "nat \<Rightarrow> chunk \<Rightarrow> arena \<Rightarrow> arena" where
  "without a c s = s\<lparr>chunks := (chunks s)(a := None),
     subs := (\<lambda>x. if x \<noteq> 0 \<and> x \<in> set (subpages c) then sp_blank else subs s x)\<rparr>"

lemma destroy_run: "chunks s a = Some c \<Longrightarrow> destroyChunk a s = (Ok (), without a c s)"
  by (simp add: destroyChunk_def prog_simps without_def)

lemma memory_destroy:
  assumes ok: "memory_ok p M s T L P" and c: "chunks s a = Some c" and none: "nodes_out s T L a = {}"
  shows "memory_ok p M (without a c s) (T - {Huge a (chunkSize c)}) L P"
proof -
  note o = memory_okD [OF ok]
  let ?s = "without a c s" and ?T = "T - {Huge a (chunkSize c)}"
  have far: "sp_chunk (subs s x) \<noteq> a" if x: "x \<in> L" for x
  proof -
    obtain b d i where b: "slot_ok p M s L b i x" using live_place [OF ok x] by metis
    then have "2 ^ M + i \<in> page_nodes (subs s) L b" using slot_okD(7) [OF b] x by (auto simp: page_nodes_def)
    then show ?thesis using none slot_okD(2) [OF b] by (auto simp: nodes_out_def)
  qed
  have own: "sp_chunk (subs s x) = a \<and> x \<notin> heads p" if x: "x \<in> set (subpages c)" "x \<noteq> 0" for x
  proof -
    have up: "\<not> unpooled c" using o(5) [OF c] x by auto
    note k = chunk_okD [OF o(6) [OF c up]]
    obtain i where "i < 2 ^ M" "subpages c ! i = x" using x(1) k(4) by (auto simp: in_set_conv_nth)
    then show ?thesis using k(5) slot_okD(2,8) x(2) by blast
  qed
  have same: "subs ?s x = subs s x" if "sp_chunk (subs s x) \<noteq> a \<or> x \<in> heads p \<or> x \<in> L" for x
    using that own far by (auto simp: without_def)
  have runs: "run_nodes ?T b = run_nodes T b" for b by (auto simp: run_nodes_def)
  have pgs: "page_nodes (subs ?s) L b = page_nodes (subs s) L b" for b using same by (auto simp: page_nodes_def)
  have slot: "slot_ok p M ?s L b i x" if x: "slot_ok p M s L b i x" "b \<noteq> a" for b i x
  proof -
    have "subs ?s x = subs s x" using same slot_okD(2) [OF x(1)] x(2) by blast
    then show ?thesis using x(1) by (simp add: slot_ok_def without_def)
  qed
  have kept: "chunk_ok p M ?s ?T L b d" if "chunk_ok p M s T L b d" "b \<noteq> a" for b d
    using chunk_okD [OF that(1)] slot [OF _ that(2)] by (simp add: chunk_ok_def runs pgs)
  have "heap_ok p head_addr (heads p) (subs ?s) L P ?T" by (rule heap_ok_cong [OF o(2)]) (use same in auto)
  moreover have "arena_geo p M ?s" using o(1) by (simp add: arena_geo_def without_def)
  moreover have "Run a n \<notin> T" for n using none by (auto simp: nodes_out_def run_nodes_def)
  moreover have "\<exists>d. chunks ?s b = Some d \<and> unpooled d \<and> chunkSize d = m" if "Huge b m \<in> ?T" for b m
    using o(8) [of b m] that c by (cases "b = a") (auto simp: without_def)
  moreover have "\<exists>d. chunks ?s (sp_chunk (subs ?s x)) = Some d \<and> x \<in> set (subpages d)" if "x \<in> L" for x
    using o(9) [OF that] far [OF that] same [of x] that by (auto simp: without_def)
  moreover have "\<exists>d. chunks ?s b = Some d \<and> \<not> unpooled d" if "Run b n \<in> ?T" for b n
    using o(7) [of b n] that calculation(3) by (cases "b = a") (auto simp: without_def)
  moreover have "chunks ?s b = Some d \<longleftrightarrow> b \<noteq> a \<and> chunks s b = Some d" for b d by (auto simp: without_def)
  moreover have "new_chunk ?s = new_chunk s" "new_subpage ?s = new_subpage s" by (simp_all add: without_def)
  ultimately show ?thesis unfolding memory_ok_def using o(3-6,10) kept by auto
qed

lemma lines_without:
  assumes "lines s Q" "\<And>l. a \<notin> set (Q l)"
  shows "lines (without a c s) Q"
proof -
  have same: "chunks (without a c s) x = chunks s x" if "x \<in> set (Q l)" for x l using assms(2) that by (auto simp: without_def)
  then have "seg (chunks (without a c s)) 0 (Q l) 0 = seg (chunks s) 0 (Q l) 0" for l by (intro seg_cong) simp
  moreover have "lists (without a c s) = lists s" by (simp add: without_def)
  ultimately show ?thesis using assms(1) same by (simp add: lines_def line_def del: map_option_eq_Some)
qed

lemma arena_destroy:
  assumes ok: "memory_ok p M s T L P" and c: "chunks s a = Some c" and none: "nodes_out s T L a = {}"
    and ln: "lines s Q" "\<And>l. a \<notin> set (Q l)" "bands (ar_chunkSize s) s" "placed_but a s Q"
  shows "arena_ok p M (without a c s) (T - {Huge a (chunkSize c)}) L P Q"
proof -
  have "placed (without a c s) Q"
    using ln(2,4) unfolding placed_def placed_but_def by (auto simp: without_def)
  moreover have "bands (ar_chunkSize (without a c s)) (without a c s)" using ln(3) by (simp add: bands_def without_def)
  ultimately show ?thesis using memory_destroy [OF ok c none] lines_without [OF ln(1,2)] by (simp add: arena_ok_def)
qed

end
