(* ===== verification/ArenaSafety.thy ===== *)
theory ArenaSafety
  imports ArenaLists
begin

text \<open>
  An arena over time. Every allocation succeeds, every release of a region that is out succeeds,
  the regions that are out never share a byte, and the chunks rest in the lists of their usage.
\<close>

section \<open>Release\<close>

lemma release_in_lists:
  assumes ok: "arena_ok p M s T L P Q" and t: "t \<in> T" and c: "chunks s a = Some c" "\<not> unpooled c"
    and fr: "chunk_freed p M s T t a c"
  shows "\<exists>s' L' P' Q'. freeChunk a (token_handle t) s = (Ok (), s') \<and> arena_ok p M s' (T - {t}) L' P' Q'"
proof -
  note o = arena_okD [OF ok]
  obtain l where l: "a \<in> set (Q l)" "in_band c l" using o(4) c unfolding placed_def by blast
  obtain ys zs where q: "Q l = ys @ a # zs" using split_list [OF l(1)] by blast
  have "line s l (ys @ a # zs)" using o(2) q unfolding lines_def by metis
  then have par: "ck_parent c = l" using line_split c(1) by (metis option.inject)
  have l6: "l \<in> {1..6}" "l \<noteq> 0" using l(2) by (auto simp: in_band_def)
  have a0: "a \<noteq> 0" using memory_okD(4) [OF o(1) c(1)] by simp
  obtain s1 c1 L1 P1 where s1: "chunk_free a (token_handle t) s = (Ok (), s1)" "memory_ok p M s1 (T - {t}) L1 P1"
    "chunk_step s a c s1 c1" "freeBytes c \<le> freeBytes c1" using fr unfolding chunk_freed_def by blast
  have c1: "chunks s1 a = Some c1" "\<not> unpooled c1" "ar_chunkSize s1 = ar_chunkSize s"
    using s1(3) c(2) by (simp_all add: chunk_step_def)
  have b: "bands (ar_chunkSize s1) s1" using o(3) step_bands [OF s1(3)] c1(3) by simp
  have ln: "lines s1 Q" by (rule step_lines [OF s1(3) o(2)])
  have pl: "placed_but a s1 Q" by (rule step_placed [OF s1(3) placed_but_of [OF o(4)]])
  note u = usage_bounds [OF memory_pooled [OF s1(2) c1(1,2)]]
  note f = band_fields [OF b, of l]
  have start: "freeChunk a (token_handle t) s = bindp (\<lambda>_. (if usage c1 < minUsage (lists s1 l)
     then seqp (list_remove l a) (move0 (Suc numLists) l a) else ret True) s1) (\<lambda>kept. if kept then ret () else destroyChunk a) s1"
    using c(1) par l6(2) s1(1) c1(1) by (simp add: freeChunk_def list_free_def bind_asks prog_simps bindp_def)
  show ?thesis
  proof (cases "usage c1 < minUsage (arena_lists 0 l)")
    case False
    have "usage c1 < maxUsage (arena_lists 0 l)"
      using l(2) pooled_mono(1) [OF o(1) c s1(2) c1(1,2) s1(4)] by (simp add: in_band_def)
    then have "in_band c1 l" using False l6(1) by (simp add: in_band_def)
    then have "arena_ok p M s1 (T - {t}) L1 P1 Q" using stay [OF s1(2) b pl c1(1) ln l(1)] by blast
    moreover have "freeChunk a (token_handle t) s = (Ok (), s1)" using False f(1) by (simp add: start bindp_def ret_run)
    ultimately show ?thesis by blast
  next
    case True
    then have "l \<noteq> 6" using u(1) by (auto simp: the_bands)
    then have l5: "l \<in> {1..5}" "6 \<le> Suc numLists + l" using l6(1) by (auto simp: numLists_def)
    let ?Q = "Q(l := ys @ zs)"
    obtain s2 where s2: "list_remove l a s1 = (Ok (), s2)" "relinked s1 s2" "lines s2 ?Q" using list_remove_ok [OF ln q] by blast
    obtain c2 where c2: "chunks s2 a = Some c2" "bare c2 = bare c1" using relinked_chunk [OF s2(2) c1(1)] .
    have b2: "bands (ar_chunkSize s1) s2" "ar_chunkSize s2 = ar_chunkSize s1" using bands_relinked [OF s2(2) b] relinkedD(9) [OF s2(2)] by simp_all
    have u2: "usage c2 = usage c1" "\<not> unpooled c2" "0 \<le> usage c2" "usage c2 \<le> 100" using bare_fields [OF c2(2)] c1(2) u by simp_all
    have m2: "memory_ok p M s2 (T - {t}) L1 P1" by (rule memory_relinked [OF s1(2) s2(2)])
    have p2: "placed_but a s2 ?Q" by (rule placed_relinked [OF placed_cut [OF pl q] s2(2)])
    note once = in_lines_once [OF ln q]
    have start2: "freeChunk a (token_handle t) s = bindp (\<lambda>_. move0 (Suc numLists) l a s2) (\<lambda>kept. if kept then ret () else destroyChunk a) s1"
      using True f(1) s2(1) by (simp only: start if_True seqp_Ok)
    have "usage c2 < minUsage (arena_lists 0 l)" using True u2(1) by simp
    from move0_ok [OF s2(3) b2(1) once c2(1) a0 u2(3,4) l5 this]
    have "move0 (Suc numLists) l a s2 = (Ok False, s2) \<and> usage c2 = 0 \<or>
      (\<exists>l' s'. move0 (Suc numLists) l a s2 = (Ok True, s') \<and> relinked s2 s' \<and> lines s' (?Q(l' := a # ?Q l')) \<and> in_band c2 l')" .
    then show ?thesis
    proof (elim disjE exE conjE)
      assume m: "move0 (Suc numLists) l a s2 = (Ok False, s2)" and z: "usage c2 = 0"
      have "freeChunk a (token_handle t) s = (Ok (), without a c2 s2)"
        using m destroy_run [OF c2(1)] by (simp add: start2 bindp_def)
      moreover have "nodes_out s2 (T - {t}) L1 a = {}" using usage_bounds(3) [OF memory_pooled [OF m2 c2(1) u2(2)]] z by simp
      then have "arena_ok p M (without a c2 s2) (T - {t} - {Huge a (chunkSize c2)}) L1 P1 ?Q"
        using b2 by (intro arena_destroy [OF m2 c2(1) _ s2(3) once _ p2]) simp_all
      moreover have "T - {t} - {Huge a (chunkSize c2)} = T - {t}" using memory_okD(8) [OF m2] c2(1) u2(2) by fastforce
      ultimately show ?thesis by (intro exI [of _ "without a c2 s2"] exI [of _ L1] exI [of _ P1] exI [of _ ?Q]) (simp only: simp_thms)
    next
      fix l' s' assume m: "move0 (Suc numLists) l a s2 = (Ok True, s')" and r: "relinked s2 s'" "lines s' (?Q(l' := a # ?Q l'))" "in_band c2 l'"
      have "arena_ok p M s' (T - {t}) L1 P1 (?Q(l' := a # ?Q l'))"
        using b2 by (intro settle [OF m2 _ p2 c2(1) u2(2) r]) simp
      moreover have "freeChunk a (token_handle t) s = (Ok (), s')" using m by (simp add: start2 bindp_def ret_run)
      ultimately show ?thesis by blast
    qed
  qed
qed

lemma release_huge:
  assumes ok: "arena_ok p M s T L P Q" and t: "Huge a m \<in> T"
  shows "\<exists>s'. arena_free a 0 s = (Ok (), s') \<and> arena_ok p M s' (T - {Huge a m}) L P Q"
proof -
  note o = arena_okD [OF ok]
  note mo = memory_okD [OF o(1)]
  obtain c where c: "chunks s a = Some c" "unpooled c" "chunkSize c = m" using mo(8) [OF t] by blast
  have "\<not> (\<exists>n. Run a n \<in> T)" using mo(7) c by fastforce
  moreover have "sp_chunk (subs s x) \<noteq> a" if "x \<in> L" for x using mo(5,9) c that by fastforce
  ultimately have "nodes_out s T L a = {}" by (auto simp: nodes_out_def run_nodes_def page_nodes_def page_of_def)
  moreover have "a \<notin> set (Q l)" for l using o(4) c unfolding placed_def by (metis option.inject)
  ultimately have "arena_ok p M (without a c s) (T - {Huge a m}) L P Q"
    using arena_destroy [OF o(1) c(1) _ o(2) _ o(3) placed_but_of [OF o(4)]] c(3) by simp
  moreover have "arena_free a 0 s = (Ok (), without a c s)" using c destroy_run [OF c(1)] by (simp add: arena_free_def prog_simps)
  ultimately show ?thesis by blast
qed

lemma arena_free_ok:
  assumes ok: "arena_ok p M s T L P Q" and t: "t \<in> T"
  shows "\<exists>s' L' P' Q'. arena_free (token_chunk t) (token_handle t) s = (Ok (), s') \<and> arena_ok p M s' (T - {t}) L' P' Q'"
proof (cases "\<exists>a m. t = Huge a m")
  case True
  then obtain a m where h: "t = Huge a m" by blast
  then obtain s' where "arena_free a 0 s = (Ok (), s')" "arena_ok p M s' (T - {t}) L P Q" using release_huge [OF ok] t by blast
  then show ?thesis using h unfolding token_chunk_def token_handle_def by auto
next
  case False
  note o = memory_okD [OF arena_okD(1) [OF ok]]
  obtain c where c: "chunks s (token_chunk t) = Some c" "\<not> unpooled c" "chunk_freed p M s T t (token_chunk t) c"
  proof (cases t)
    case (Run a n)
    then obtain c where "chunks s a = Some c" "\<not> unpooled c" using o(7) t by blast
    then show ?thesis using that [of c] free_run_ok [OF arena_okD(1) [OF ok], of a n c] t Run by (simp add: token_chunk_def)
  next
    case (Elem a n sz i)
    then obtain c where "chunks s a = Some c" "\<not> unpooled c" "chunk_freed p M s T t a c"
      using free_elem_ok [OF arena_okD(1) [OF ok]] t by blast
    then show ?thesis using that [of c] Elem by (simp add: token_chunk_def)
  qed (use False in auto)
  have "arena_free (token_chunk t) (token_handle t) s = freeChunk (token_chunk t) (token_handle t) s"
    using c by (simp add: arena_free_def prog_simps)
  then show ?thesis using release_in_lists [OF ok t c] by simp
qed

section \<open>A chunk is created\<close>

definition with_chunk :: "chunk \<Rightarrow> arena \<Rightarrow> arena" where
  "with_chunk c s = s\<lparr>new_chunk := Suc (new_chunk s), chunks := (chunks s)(new_chunk s \<mapsto> c)\<rparr>"

lemma with_chunk_next [simp]: "new_chunk (with_chunk c s) = Suc (new_chunk s)"
  by (simp add: with_chunk_def)

lemma memory_add:
  assumes ok: "memory_ok p M s T L P" and T': "\<And>a n. Run a n \<in> T' \<longleftrightarrow> Run a n \<in> T" "\<And>a n sz i. Elem a n sz i \<in> T' \<longleftrightarrow> Elem a n sz i \<in> T"
      "\<And>a m. Huge a m \<in> T' \<Longrightarrow> Huge a m \<in> T \<or> a = new_chunk s \<and> unpooled c \<and> chunkSize c = m"
      "\<And>a m. Huge a m \<in> T \<Longrightarrow> Huge a m \<in> T'"
    and c: "if unpooled c then subpages c = [] \<and> offset c = 0 \<and> Huge (new_chunk s) (chunkSize c) \<in> T'
      else chunk_inv p M {} c \<and> offset c = 0 \<and> length (subpages c) = 2 ^ M \<and> (\<forall>i<2 ^ M. subpages c ! i = 0)"
  shows "memory_ok p M (with_chunk c s) T' L P" "nodes_out s T L (new_chunk s) = {}"
proof -
  note o = memory_okD [OF ok]
  let ?a = "new_chunk s" and ?s = "with_chunk c s"
  have fresh: "chunks s ?a = None" using o(4) [of ?a] by fastforce
  have "Run ?a n \<notin> T" for n using o(7) [of ?a n] fresh by auto
  moreover have "sp_chunk (subs s x) \<noteq> ?a" if "x \<in> L" for x using o(9) [OF that] fresh by auto
  ultimately show none: "nodes_out s T L ?a = {}" by (auto simp: nodes_out_def run_nodes_def page_nodes_def page_of_def)
  have f: "subs ?s = subs s" "new_subpage ?s = new_subpage s" "new_chunk ?s = Suc ?a" "chunks ?s = (chunks s)(?a \<mapsto> c)"
    by (simp_all add: with_chunk_def)
  have runs: "run_nodes T' b = run_nodes T b" for b using T'(1) by (simp add: run_nodes_def)
  have kept: "chunk_ok p M ?s T' L b d" if "chunk_ok p M s T L b d" for b d
    using chunk_okD [OF that] by (simp add: chunk_ok_def slot_ok_def runs f)
  have "chunk_ok p M ?s T' L ?a c" if "\<not> unpooled c"
    using c that none by (simp add: chunk_ok_def runs f nodes_out_def)
  moreover have "heap_ok p head_addr (heads p) (subs s) L P T'" by (rule heap_runs [OF o(2) T'(2)])
  moreover have "arena_geo p M ?s" using o(1) by (simp add: arena_geo_def with_chunk_def)
  moreover have "\<exists>d. chunks ?s b = Some d \<and> \<not> unpooled d" if "Run b n \<in> T'" for b n
    using o(7) [of b n] that fresh by (auto simp: f T'(1))
  moreover have "\<exists>d. chunks ?s b = Some d \<and> unpooled d \<and> chunkSize d = m" if "Huge b m \<in> T'" for b m
    using T'(3) [OF that] o(8) [of b m] fresh by (auto simp: f)
  moreover have "\<exists>d. chunks ?s (sp_chunk (subs ?s x)) = Some d \<and> x \<in> set (subpages d)" if "x \<in> L" for x
    using o(9) [OF that] fresh by (auto simp: f)
  moreover have "0 < b \<and> b < new_chunk ?s \<and> (if unpooled d then subpages d = [] \<and> offset d = 0 \<and> Huge b (chunkSize d) \<in> T' else chunk_ok p M ?s T' L b d)"
    if "chunks ?s b = Some d" for b d
    using that o(4-6,10) [of b d] kept [of b d] calculation(1) c o(3) T'(4) by (cases "b = ?a") (auto simp: f less_Suc_eq)
  ultimately show "memory_ok p M ?s T' L P" unfolding memory_ok_def using o(3) f(1-3) by simp
qed

lemma lists_add:
  assumes "lines s Q" "placed s Q" "chunks s (new_chunk s) = None"
  shows "lines (with_chunk c s) Q" "new_chunk s \<notin> set (Q l)" "placed_but (new_chunk s) (with_chunk c s) Q"
    "bands z (with_chunk c s) = bands z s" "unpooled c \<Longrightarrow> placed (with_chunk c s) Q"
proof -
  show out: "new_chunk s \<notin> set (Q l)" for l using assms(2,3) unfolding placed_def by (metis option.distinct(1))
  have same: "chunks (with_chunk c s) x = chunks s x" if "x \<in> set (Q l)" for x l
    using out [of l] that by (auto simp: with_chunk_def)
  then have "seg (chunks (with_chunk c s)) 0 (Q l) 0 = seg (chunks s) 0 (Q l) 0" for l by (intro seg_cong) simp
  then show "lines (with_chunk c s) Q" using assms(1) same by (simp add: lines_def line_def with_chunk_def del: map_option_eq_Some)
  show "bands z (with_chunk c s) = bands z s" by (simp add: bands_def with_chunk_def)
  show "placed_but (new_chunk s) (with_chunk c s) Q" "unpooled c \<Longrightarrow> placed (with_chunk c s) Q"
    using assms(2) out unfolding placed_def placed_but_def by (auto simp: with_chunk_def)
qed

section \<open>Allocation\<close>

lemma try_lists_ok:
  assumes ok: "arena_ok p M s T L P Q" and sz: "class_size p M norm" "req \<le> norm"
  shows "set ls \<subseteq> {2..6} \<Longrightarrow> try_lists ls req norm s = (Ok None, s) \<or>
    (\<exists>rg s'. try_lists ls req norm s = (Ok (Some rg), s') \<and> arena_served p M req norm T rg s')"
proof (induction ls)
  case (Cons l ls)
  then have "l \<in> {2..6}" by simp
  from list_allocate_ok [OF ok this sz] show ?case
  proof (elim disjE exE conjE)
    assume "list_allocate l req norm s = (Ok None, s)"
    then show ?thesis using Cons by (simp add: bindp_def)
  next
    fix rg s' assume "list_allocate l req norm s = (Ok (Some rg), s')" "arena_served p M req norm T rg s'"
    then show ?thesis by (simp add: bindp_def ret_run)
  qed
qed (simp add: ret_run)

lemma fresh_chunk:
  assumes ok: "arena_ok p M s T L P Q"
  defines "c \<equiv> PoolChunk_new (ar_chunkSize s) (ar_pageSize s) (ar_pageShifts s) (ar_maxOrder s) 0"
  shows "newChunk s = (Ok (new_chunk s), with_chunk c s)" "memory_ok p M (with_chunk c s) T L P"
    "chunks (with_chunk c s) (new_chunk s) = Some c" "\<not> unpooled c" "nodes_out (with_chunk c s) T L (new_chunk s) = {}"
proof -
  note o = memory_okD [OF arena_okD(1) [OF ok]]
  have g: "M \<le> 14" "p + M \<le> 30" "c = PoolChunk_new (2 ^ (p + M)) (2 ^ p) (int p) (int M) 0"
    using o(1) by (simp_all add: arena_geo_def c_def)
  have inv: "chunk_inv p M {} c" unfolding g(3) by (rule new_chunk_inv [OF g(1,2)])
  have "i32 (push_bit M 1) = 2 ^ M" using pow2_i32 [of M] g(1) by (simp add: push_bit_eq_mult)
  then have sub: "subpages c = replicate (2 ^ M) 0" "offset c = 0"
    by (simp_all add: g(3) PoolChunk_new_def Let_def nat_power_eq)
  show up: "\<not> unpooled c" using chunk_inv_geo [OF inv] by (simp add: chunk_geo_def)
  show "newChunk s = (Ok (new_chunk s), with_chunk c s)" by (simp add: newChunk_def prog_simps with_chunk_def c_def)
  show "chunks (with_chunk c s) (new_chunk s) = Some c" by (simp add: with_chunk_def)
  have "if unpooled c then subpages c = [] \<and> offset c = 0 \<and> Huge (new_chunk s) (chunkSize c) \<in> T
      else chunk_inv p M {} c \<and> offset c = 0 \<and> length (subpages c) = 2 ^ M \<and> (\<forall>i<2 ^ M. subpages c ! i = 0)"
    using inv up sub by simp
  note a = memory_add [OF arena_okD(1) [OF ok] _ _ _ _ this]
  show "memory_ok p M (with_chunk c s) T L P" by (rule a(1)) auto
  have "nodes_out s T L (new_chunk s) = {}" by (rule a(2)) auto
  then show "nodes_out (with_chunk c s) T L (new_chunk s) = {}" by (simp add: nodes_out_def with_chunk_def)
qed

lemma no_chunk_yet: "arena_ok p M s T L P Q \<Longrightarrow> chunks s (new_chunk s) = None"
  using memory_okD(4) [OF arena_okD(1), of p M s T L P Q "new_chunk s"] by (cases "chunks s (new_chunk s)") auto

lemma allocateNormal_ok:
  assumes ok: "arena_ok p M s T L P Q" and sz: "class_size p M norm" "req \<le> norm"
  shows "\<exists>rg s'. allocateNormal req norm s = (Ok rg, s') \<and> arena_served p M req norm T rg s'"
proof -
  have "set [q050, q025, q000, qInit, q075] \<subseteq> {2..6}" by (simp add: q050_def q025_def q000_def qInit_def q075_def)
  from try_lists_ok [OF ok sz this] show ?thesis
  proof (elim disjE exE conjE)
    fix rg s' assume "try_lists [q050, q025, q000, qInit, q075] req norm s = (Ok (Some rg), s')" "arena_served p M req norm T rg s'"
    then show ?thesis by (simp add: allocateNormal_def bindp_def ret_run)
  next
    assume none: "try_lists [q050, q025, q000, qInit, q075] req norm s = (Ok None, s)"
    note o = arena_okD [OF ok]
    define a c where "a = new_chunk s" and "c = PoolChunk_new (ar_chunkSize s) (ar_pageSize s) (ar_pageShifts s) (ar_maxOrder s) 0"
    define s1 where "s1 = with_chunk c s"
    note fc = fresh_chunk [OF ok, folded c_def, folded a_def s1_def]
    note pre = o(2,4) no_chunk_yet [OF ok]
    note la = lists_add(1) [where c = c, OF pre, folded a_def s1_def] lists_add(2) [OF pre, folded a_def]
      lists_add(3-5) [where c = c, OF pre, folded a_def s1_def]
    obtain t s2 c2 L2 P2 where s2: "chunk_allocate a req norm s1 = (Ok (Some (region_of p M t req)), s2)" "t \<notin> T" "token_size p M t = norm"
      "memory_ok p M s2 (insert t T) L2 P2" "chunk_step s1 a c s2 c2" "\<forall>b m. t \<noteq> Huge b m"
      using chunk_allocate_ok [OF fc(2,3,4) sz] fc(5) unfolding chunk_served_def by blast
    have c2: "chunks s2 a = Some c2" "\<not> unpooled c2" "ar_chunkSize s2 = ar_chunkSize s1" using s2(5) fc(4) by (simp_all add: chunk_step_def)
    have b: "bands (ar_chunkSize s2) s2" "bands (ar_chunkSize s) s2"
      using o(3) la(4) step_bands [OF s2(5)] c2(3) by (simp_all add: s1_def with_chunk_def)
    have a0: "a \<noteq> 0" using memory_okD(4) [OF s2(4) c2(1)] by simp
    note u = usage_bounds [OF memory_pooled [OF s2(4) c2(1,2)]]
    have "minUsage (arena_lists 0 6) \<le> usage c2" using u(1) by (simp add: the_bands)
    then obtain l' s' where s': "list_add (Suc numLists) 6 a s2 = (Ok (), s')" "relinked s2 s'" "lines s' (Q(l' := a # Q l'))" "in_band c2 l'"
      using list_add_ok [OF step_lines [OF s2(5) la(1)] b(2) la(2) c2(1) a0 u(2), of 6 "Suc numLists"] unfolding numLists_def by auto
    have "arena_ok p M s' (insert t T) L2 P2 (Q(l' := a # Q l'))"
      by (rule settle [OF s2(4) b(1) step_placed [OF s2(5) la(3)] c2(1,2) s'(2-4)])
    moreover have "allocateNormal req norm s = (Ok (region_of p M t req), s')"
      using none fc(1) s2(1) s'(1) by (simp add: allocateNormal_def bindp_def seqp_def ret_run qInit_def)
    ultimately show ?thesis using s2(2,3,6) unfolding arena_served_def by blast
  qed
qed

lemma allocateHuge_ok:
  assumes ok: "arena_ok p M s T L P Q" and req: "0 \<le> req" "\<not> req \<le> 2 ^ (p + M)"
  shows "\<exists>rg s'. allocateHuge req s = (Ok rg, s') \<and> arena_served p M req req T rg s'"
proof -
  note o = arena_okD [OF ok]
  define a c where "a = new_chunk s" and "c = PoolChunk_new_unpooled req 0"
  define s1 where "s1 = with_chunk c s"
  have c: "unpooled c" "subpages c = []" "offset c = 0" "chunkSize c = req" by (simp_all add: c_def PoolChunk_new_unpooled_def)
  note pre = o(2,4) no_chunk_yet [OF ok]
    note la = lists_add(1) [where c = c, OF pre, folded a_def s1_def] lists_add(2) [OF pre, folded a_def]
      lists_add(3-5) [where c = c, OF pre, folded a_def s1_def]
  have "memory_ok p M s1 (insert (Huge a req) T) L P"
    unfolding s1_def by (rule memory_add(1) [OF o(1)]) (use c in \<open>auto simp: a_def\<close>)
  then have "arena_ok p M s1 (insert (Huge a req) T) L P Q"
    using la(1,4,5) c(1) o(3) by (simp add: arena_ok_def) (simp add: s1_def with_chunk_def)
  moreover have "Huge a req \<notin> T" using memory_okD(8) [OF o(1), of a req] no_chunk_yet [OF ok] by (auto simp: a_def)
  moreover have "0 < a" using memory_okD(3) [OF o(1)] by (simp add: a_def)
  then have "allocateHuge req s = (Ok (region_of p M (Huge a req) req), s1)"
    using req c(3)
    by (simp add: allocateHuge_def newUnpooledChunk_def prog_simps init0_def s1_def with_chunk_def region_of_def a_def c_def)
  moreover have "token_size p M (Huge a req) = req" by (simp add: token_size_def)
  ultimately show ?thesis using req(2) unfolding arena_served_def by blast
qed

text \<open>The size an arena rounds a request to, and how it is served.\<close>

lemma rounded:
  assumes "1 \<le> req" "12 \<le> p" "p + M \<le> 30"
  defines "norm \<equiv> normalizeCapacity (2 ^ (p + M)) req"
  shows "req \<le> norm" "norm \<le> 2 ^ (p + M) \<Longrightarrow> class_size p M norm" "norm < 2 ^ p \<Longrightarrow> valid_size p norm"
    "\<not> norm \<le> 2 ^ (p + M) \<Longrightarrow> norm = req"
proof -
  have "req \<le> norm \<and> (norm \<le> 2 ^ (p + M) \<longrightarrow> class_size p M norm) \<and> (norm < 2 ^ p \<longrightarrow> valid_size p norm) \<and>
    (\<not> norm \<le> 2 ^ (p + M) \<longrightarrow> norm = req)"
  proof (cases "req < 2 ^ (p + M)")
    case True
    have n: "normalised norm \<and> req \<le> norm \<and> norm \<le> 2 ^ (p + M)"
      using normalizeCapacity_class [of req "2 ^ (p + M)" "p + M"] True assms by simp
    have "\<exists>k. p \<le> k \<and> k \<le> p + M \<and> norm = 2 ^ k" if "\<not> norm < 2 ^ p"
    proof -
      have "(2::int) ^ 12 \<le> 2 ^ p" using assms(2) by (intro power_increasing) simp_all
      then have "\<not> norm < 512" using that by simp
      then obtain k where "norm = 2 ^ k" using n by (auto simp: normalised_def)
      then show ?thesis using that n by (intro exI [of _ k]) simp
    qed
    then show ?thesis using n by (auto simp: class_size_def valid_size_def)
  next
    case False
    then have "norm = req" by (simp add: norm_def normalizeCapacity_def)
    moreover have "(2::int) ^ p \<le> 2 ^ (p + M)" by (intro power_increasing) simp_all
    moreover have "class_size p M (2 ^ (p + M))" by (auto simp: class_size_def)
    ultimately have "\<not> norm < 2 ^ p" using False by linarith
    moreover have "norm \<le> 2 ^ (p + M) \<Longrightarrow> norm = 2 ^ (p + M)" using \<open>norm = req\<close> False by linarith
    ultimately show ?thesis using \<open>norm = req\<close> \<open>class_size p M (2 ^ (p + M))\<close> by auto
  qed
  then show "req \<le> norm" "norm \<le> 2 ^ (p + M) \<Longrightarrow> class_size p M norm" "norm < 2 ^ p \<Longrightarrow> valid_size p norm"
    "\<not> norm \<le> 2 ^ (p + M) \<Longrightarrow> norm = req" by blast+
qed

lemma pool_entry_findHead: "pool_entry norm = findHead norm"
  by (auto simp: fun_eq_iff pool_entry_def findHead_def findSubpagePoolHead_def smallIdx_def tinyIdx_def prog_simps
      split: option.splits)

lemma pool_next: "pool H h xs \<Longrightarrow> sp_next (H h) = hd (xs @ [h])"
  by (cases xs) (auto simp: pool_def ring_def)

text \<open>A page with room is in the ring of the size class: no chunk is asked.\<close>

lemma allocate_from_pool:
  assumes ok: "arena_ok p M s T L P Q" and sz: "valid_size p norm" "req \<le> norm" and x: "P (head_addr norm) = x # xs"
  shows "\<exists>rg s'. seqp (assertp (\<lambda>_. doNotDestroy (subs s x) \<and> elementSize (subs s x) = norm))
      (bindp (on_subs (sp_allocate x)) (\<lambda>handle. seqp (assertp (\<lambda>_. handle \<ge> 0))
        (initBufWithSubpage (sp_chunk (subs s x)) handle (bitmapIdx handle) req))) s = (Ok rg, s') \<and> arena_served p M req norm T rg s'"
proof -
  note o = arena_okD [OF ok]
  note ho = memory_okD(2) [OF o(1)]
  have h: "head_addr norm \<in> heads p" using heap_okD(1) [OF ho] sz(1) by (simp add: size_heads_def)
  have xP: "x \<in> set (P (head_addr norm))" by (simp add: x)
  then have xL: "x \<in> L" "head_addr (elemSize (subs s x)) = head_addr norm" using heap_okD(3) [OF ho h] by blast+
  have lv: "live_ok p T (subs s x)" by (rule heap_okD(6) [OF ho xL(1)])
  have inj: "inj_on head_addr {sz. valid_size p sz}" using heap_okD(1) [OF ho] by (simp add: size_heads_def)
  have es: "elemSize (subs s x) = norm" using inj_onD [OF inj xL(2)] lv sz(1) by (simp add: live_ok_def)
  obtain a c i where l: "chunks s a = Some c" "slot_ok p M s L a i x" using live_place [OF o(1) xL(1)] by metis
  have pg: "page_of (subs s x) = (a, int (2 ^ M + i))" "sp_chunk (subs s x) = a" using slot_okD(2,7) [OF l(2)] by simp_all
  have ds: "doNotDestroy (subs s x)" "elementSize (subs s x) = norm"
    using lv es pg(2) memory_okD(4) [OF o(1) l(1)] by (simp_all add: live_ok_def elementSize_def)
  obtain j H' P' where t: "sp_allocate x (subs s) = (Ok (toHandle (subs s x) (int j)), H')" "Elem a (2 ^ M + i) norm j \<notin> T"
    "memory_ok p M (s\<lparr>subs := H'\<rparr>) (insert (Elem a (2 ^ M + i) norm j) T) L P'" "0 \<le> toHandle (subs s x) (int j)"
    "initBufWithSubpage a (toHandle (subs s x) (int j)) (bitmapIdx (toHandle (subs s x) (int j))) req (s\<lparr>subs := H'\<rparr>) =
      (Ok (region_of p M (Elem a (2 ^ M + i) norm j) req), s\<lparr>subs := H'\<rparr>)"
    using take_element [OF o(1) h xP pg(1) es sz(2)] by metis
  have "arena_ok p M (s\<lparr>subs := H'\<rparr>) (insert (Elem a (2 ^ M + i) norm j) T) L P' Q"
    using t(3) o(2-4) by (simp add: arena_ok_def lines_def line_def bands_def placed_def)
  moreover have "token_size p M (Elem a (2 ^ M + i) norm j) = norm" by (simp add: token_size_def)
  moreover have "\<forall>b m. Elem a (2 ^ M + i) norm j \<noteq> Huge b m" by simp
  ultimately have "arena_served p M req norm T (region_of p M (Elem a (2 ^ M + i) norm j) req) (s\<lparr>subs := H'\<rparr>)"
    using t(2) unfolding arena_served_def by blast
  moreover have "on_subs (sp_allocate x) s = (Ok (toHandle (subs s x) (int j)), s\<lparr>subs := H'\<rparr>)"     using t(1) by (simp add: on_subs_run)
  ultimately show ?thesis using ds t(4,5) pg(2) by (simp add: seqp_def bindp_def assertp_run)
qed

lemma arena_allocate_ok:
  assumes ok: "arena_ok p M s T L P Q" and req: "1 \<le> req"
  shows "\<exists>rg s'. arena_allocate req s = (Ok rg, s') \<and> arena_served p M req (normalizeCapacity (2 ^ (p + M)) req) T rg s'"
proof -
  note o = arena_okD [OF ok]
  note mo = memory_okD [OF o(1)]
  define norm where "norm = normalizeCapacity (2 ^ (p + M)) req"
  have g: "12 \<le> p" "p + M \<le> 30" "ar_chunkSize s = 2 ^ (p + M)" "ar_pageSize s = 2 ^ p" using mo(1) by (simp_all add: arena_geo_def)
  note r = rounded [OF req g(1,2), folded norm_def]
  have small: "isTinyOrSmall (ar_pageSize s) norm \<longleftrightarrow> norm < 2 ^ p" using isTinyOrSmall_iff [of norm "2 ^ p" p] r(1) req g(4) by simp
  have lt: "norm \<le> 2 ^ (p + M)" if "norm < 2 ^ p"
  proof -
    have "(2::int) ^ p \<le> 2 ^ (p + M)" by (intro power_increasing) simp_all
    then show ?thesis using that by linarith
  qed
  define h where "h = head_addr norm"
  have start: "arena_allocate req s = (if norm < 2 ^ p
     then (if sp_next (subs s h) \<noteq> h
        then seqp (assertp (\<lambda>_. doNotDestroy (subs s (sp_next (subs s h))) \<and> elementSize (subs s (sp_next (subs s h))) = norm))
            (bindp (on_subs (sp_allocate (sp_next (subs s h)))) (\<lambda>handle. seqp (assertp (\<lambda>_. handle \<ge> 0))
               (initBufWithSubpage (sp_chunk (subs s (sp_next (subs s h)))) handle (bitmapIdx handle) req))) s
        else allocateNormal req norm s)
     else if norm \<le> 2 ^ (p + M) then allocateNormal req norm s else allocateHuge req s)"
  proof -
    have "bindp (findHead norm) f s = f h s" if "norm < 2 ^ p" for f :: "nat \<Rightarrow> (arena, region) prog"
      using findHead_ok [OF mo(1) r(3) [OF that]] by (simp add: bindp_def h_def)
    then show ?thesis using small by (simp add: arena_allocate_def bind_asks ifp_run pool_entry_findHead g(3) flip: norm_def)
  qed
  show ?thesis
  proof (cases "norm \<le> 2 ^ (p + M)")
    case False
    then have "arena_allocate req s = allocateHuge req s" using lt by (simp only: start if_False) auto
    then show ?thesis using allocateHuge_ok [OF ok, of req] req r(4) [OF False] False by (simp flip: norm_def)
  next
    case True
    note normal = allocateNormal_ok [OF ok r(2) [OF True] r(1)]
    show ?thesis
    proof (cases "norm < 2 ^ p \<and> sp_next (subs s h) \<noteq> h")
      case False
      then have "arena_allocate req s = allocateNormal req norm s" using True by (auto simp: start)
      then show ?thesis using normal by (simp only: norm_def)
    next
      case pool: True
      have v: "valid_size p norm" using pool r(3) by blast
      have "h \<in> heads p" using heap_okD(1) [OF mo(2)] v by (simp add: size_heads_def h_def)
      then have nx: "sp_next (subs s h) = hd (P h @ [h])" using pool_next heap_okD(2) [OF mo(2)] by blast
      then obtain x xs where x: "P h = x # xs" using pool by (cases "P h") auto
      then show ?thesis using allocate_from_pool [OF ok v r(1)] pool nx by (simp add: start h_def flip: norm_def)
    qed
  qed
qed

end
