(* ===== verification/ArenaHistory.thy ===== *)
theory ArenaHistory
  imports ArenaSafety
begin

text \<open>
  The contract of an arena, as its buffers rely on it, and the properties of an arena over every
  history of allocations and releases.
\<close>

section \<open>The contract\<close>

text \<open>
  A store of regions: \<open>good s R\<close> tells that in state \<open>s\<close> exactly the regions of \<open>R\<close> are out.
  Requests are served, regions that are out can be released, and no two of them overlap.
\<close>

locale region_store =
  fixes good :: "'s \<Rightarrow> 'r set \<Rightarrow> bool" and acquire :: "int \<Rightarrow> ('s, 'r) prog" and release :: "'r \<Rightarrow> ('s, unit) prog"
    and block :: "'r \<Rightarrow> nat" and start :: "'r \<Rightarrow> int" and room :: "'r \<Rightarrow> int"
  assumes acquires: "good s R \<Longrightarrow> 1 \<le> req \<Longrightarrow> \<exists>r s'. acquire req s = (Ok r, s') \<and> r \<notin> R \<and> req \<le> room r \<and> good s' (insert r R)"
    and releases: "good s R \<Longrightarrow> r \<in> R \<Longrightarrow> \<exists>s'. release r s = (Ok (), s') \<and> good s' (R - {r})"
    and apart: "good s R \<Longrightarrow> r \<in> R \<Longrightarrow> r' \<in> R \<Longrightarrow> r \<noteq> r' \<Longrightarrow> block r = block r' \<Longrightarrow>
      start r + room r \<le> start r' \<or> start r' + room r' \<le> start r"
begin

text \<open>The outcome of a call is the outcome the contract speaks of.\<close>

lemma acquired:
  assumes "good s R" "1 \<le> req" "acquire req s = (Ok r, s')"
  shows "good s' (insert r R)" "r \<notin> R" "req \<le> room r"
  using acquires [OF assms(1,2)] assms(3) by auto

lemma released:
  assumes "good s R" "r \<in> R" "release r s = (Ok (), s')"
  shows "good s' (R - {r})"
  using releases [OF assms(1,2)] assms(3) by auto

text \<open>A byte inside one region is a byte of no other.\<close>

lemma bytes_apart:
  assumes "good s R" "r \<in> R" "r' \<in> R" "r \<noteq> r'"
  shows "block r \<noteq> block r' \<or> {start r..<start r + room r} \<inter> {start r'..<start r' + room r'} = {}"
  using apart [OF assms] by auto

lemma no_byte_twice:
  assumes "good s R" "r \<in> R" "r' \<in> R" "0 \<le> i" "i < room r" "0 \<le> j" "j < room r'"
    and "block r = block r'" "start r + i = start r' + j"
  shows "r = r'"
  using apart [OF assms(1-3)] assms(4-9) by fastforce

text \<open>What is newly acquired shares no byte with what was out before.\<close>

lemma fresh_bytes:
  assumes "good s R" "1 \<le> req" "acquire req s = (Ok r, s')" "r' \<in> R" "block r = block r'"
  shows "{start r..<start r + room r} \<inter> {start r'..<start r' + room r'} = {}"
  using bytes_apart [OF acquired(1) [OF assms(1-3)], of r r'] acquired(2) [OF assms(1-3)] assms(4,5) by auto

end

section \<open>Tokens do not overlap\<close>

abbreviation token_offset :: "nat \<Rightarrow> nat \<Rightarrow> token \<Rightarrow> int" where
  "token_offset p M t \<equiv> rg_offset (region_of p M t 0)"

text \<open>The node under which a token of a chunk lies.\<close>

fun token_node :: "token \<Rightarrow> nat" where
  "token_node (Run a n) = n"
| "token_node (Elem a n sz i) = n"
| "token_node (Huge a m) = 0"

text \<open>Two regions of one node are elements of one page.\<close>

lemma same_node:
  assumes ok: "memory_ok p M s T L P" and t: "t \<in> T" "t' \<in> T" "t \<noteq> t'" "token_chunk t = token_chunk t'" "token_node t = token_node t'"
    and c: "chunks s (token_chunk t) = Some c" "\<not> unpooled c"
  shows "\<exists>a m sz i sz' j. t = Elem a m sz i \<and> t' = Elem a m sz' j"
proof -
  note o = memory_okD [OF ok]
  have dis: "run_nodes T (token_chunk t) \<inter> page_nodes (subs s) L (token_chunk t) = {}" by (rule chunk_okD(2) [OF o(6) [OF c]])
  have huge: "Huge (token_chunk t) m \<notin> T" for m using o(8) c by fastforce
  have page: "m \<in> page_nodes (subs s) L a" if "Elem a m sz i \<in> T" for a m sz i
    using heap_okD(8) [OF o(2) that] by (auto simp: page_nodes_def)
  have run: "m \<in> run_nodes T a" if "Run a m \<in> T" for a m using that by (simp add: run_nodes_def)
  have mixed: False if "Run a m \<in> T" "Elem a m sz i \<in> T" "a = token_chunk t" for a m sz i
    using run [OF that(1)] page [OF that(2)] dis that(3) by blast
  show ?thesis
  proof (cases t)
    case (Run a m)
    then show ?thesis using t huge mixed [of a m] by (cases t') (auto simp: token_chunk_def)
  next
    case (Elem a m sz i)
    then show ?thesis using t huge mixed [of a m sz i] by (cases t') (auto simp: token_chunk_def)
  next
    case (Huge a m)
    then show ?thesis using t(1) huge by (auto simp: token_chunk_def)
  qed
qed

lemma token_in_node:
  assumes ok: "memory_ok p M s T L P" and t: "t \<in> T" and c: "chunks s (token_chunk t) = Some c" "\<not> unpooled c"
  shows "token_node t \<in> nodes_out s T L (token_chunk t)"
    "node_off p M (token_node t) \<le> token_offset p M t"
    "token_offset p M t + token_size p M t \<le> node_off p M (token_node t) + run_bytes p M (token_node t)" "0 < token_size p M t"
proof -
  note o = memory_okD [OF ok]
  have "token_node t \<in> nodes_out s T L (token_chunk t) \<and> node_off p M (token_node t) \<le> token_offset p M t \<and>
    token_offset p M t + token_size p M t \<le> node_off p M (token_node t) + run_bytes p M (token_node t) \<and> 0 < token_size p M t"
  proof (cases t)
    case (Run a n)
    then show ?thesis using t by (simp add: nodes_out_def run_nodes_def token_chunk_def token_size_def region_of_def run_bytes_def)
  next
    case (Elem a n sz i)
    obtain x where x: "x \<in> L" "page_of (subs s x) = (a, int n)" "elemSize (subs s x) = sz"
      using heap_okD(8) [OF o(2)] t Elem by blast
    have lv: "live_ok p T (subs s x)" by (rule heap_okD(6) [OF o(2) x(1)])
    have "i \<in> elems T (subs s x)" using elems_this(3) [OF x(2,3)] t Elem by simp
    then have "i < nat (maxNumElems (subs s x))" using lv by (auto simp: live_ok_def sub_ok_def)
    note e = elem_in_page [OF lv this, unfolded x(3)]
    obtain b d j where l: "chunks s b = Some d" "chunk_ok p M s T L b d" "j < 2 ^ M" "slot_ok p M s L b j x"
      using live_place [OF ok x(1)] by metis
    have "(a, int n) = (b, int (2 ^ M + j))" using slot_okD(7) [OF l(4)] x(2) by metis
    then have "dep n = M" using page_slot(2) [OF chunk_inv_geo [OF chunk_okD(1) [OF l(2)]] l(3)] by (simp only: prod.inject of_nat_eq_iff)
    then have "run_bytes p M n = 2 ^ p" by (rule page_bytes)
    moreover have "n \<in> page_nodes (subs s) L a" using x(1,2) by (auto simp: page_nodes_def)
    ultimately show ?thesis using e Elem by (simp add: nodes_out_def token_chunk_def token_size_def region_of_def)
  next
    case (Huge a m)
    then show ?thesis using o(8) [of a m] t c by (auto simp: token_chunk_def)
  qed
  then show "token_node t \<in> nodes_out s T L (token_chunk t)" "node_off p M (token_node t) \<le> token_offset p M t"
    "token_offset p M t + token_size p M t \<le> node_off p M (token_node t) + run_bytes p M (token_node t)" "0 < token_size p M t"
    by blast+
qed

lemma same_page:
  assumes ok: "memory_ok p M s T L P" and t: "Elem a n sz i \<in> T" "Elem a n sz' j \<in> T"
  shows "sz = sz'" "0 < sz"
proof -
  note h = memory_okD(2) [OF ok]
  obtain x where x: "x \<in> L" "page_of (subs s x) = (a, int n)" "elemSize (subs s x) = sz" using heap_okD(8) [OF h t(1)] by blast
  obtain y where y: "y \<in> L" "page_of (subs s y) = (a, int n)" "elemSize (subs s y) = sz'" using heap_okD(8) [OF h t(2)] by blast
  have "x = y" using heap_okD(7) [OF h x(1) y(1)] x(2) y(2) by simp
  then show "sz = sz'" using x y by simp
  show "0 < sz" using heap_okD(6) [OF h x(1)] x(3) by (simp add: live_ok_def sub_ok_def sub_static_def)
qed

lemma elems_apart: "0 < sz \<Longrightarrow> i \<noteq> j \<Longrightarrow> int i * sz + sz \<le> int j * sz \<or> int j * sz + sz \<le> int i * (sz :: int)"
proof -
  assume a: "0 < sz" "i \<noteq> j"
  then consider "int i + 1 \<le> int j" | "int j + 1 \<le> int i" by linarith
  then show ?thesis using mult_right_mono [of _ _ sz] a(1) by cases (fastforce simp: algebra_simps)+
qed

lemma token_kind:
  assumes ok: "memory_ok p M s T L P" and t: "t \<in> T"
  shows "\<exists>c. chunks s (token_chunk t) = Some c \<and> (unpooled c \<longrightarrow> t = Huge (token_chunk t) (chunkSize c))"
proof (cases t)
  case (Run a n)
  then show ?thesis using memory_okD(7) [OF ok, of a n] t by (auto simp: token_chunk_def)
next
  case (Elem a n sz i)
  then show ?thesis using free_elem_ok [OF ok, of a n sz i] t by (auto simp: token_chunk_def)
next
  case (Huge a m)
  then show ?thesis using memory_okD(8) [OF ok, of a m] t by (auto simp: token_chunk_def)
qed

lemma tokens_apart:
  assumes ok: "memory_ok p M s T L P" and t: "t \<in> T" "t' \<in> T" "t \<noteq> t'" "token_chunk t = token_chunk t'"
  shows "token_offset p M t + token_size p M t \<le> token_offset p M t' \<or> token_offset p M t' + token_size p M t' \<le> token_offset p M t"
    "0 < token_size p M t"
proof -
  note o = memory_okD [OF ok]
  obtain c where c: "chunks s (token_chunk t) = Some c" "unpooled c \<Longrightarrow> t = Huge (token_chunk t) (chunkSize c)"
    using token_kind [OF ok t(1)] by blast
  have "unpooled c \<Longrightarrow> t' = Huge (token_chunk t) (chunkSize c)"
    using token_kind [OF ok t(2)] c(1) by (auto simp flip: t(4))
  then have c: "chunks s (token_chunk t) = Some c" "\<not> unpooled c" using c t(3) by auto
  note n = token_in_node [OF ok t(1) c] token_in_node [OF ok t(2) c [unfolded t(4)], folded t(4)]
  have tree: "tree_ok M (nodes_out s T L (token_chunk t)) (memoryMap c)" by (rule chunk_inv_tree [OF memory_pooled [OF ok c]])
  have dis: "run_nodes T (token_chunk t) \<inter> page_nodes (subs s) L (token_chunk t) = {}" by (rule chunk_okD(2) [OF o(6) [OF c]])
  show "0 < token_size p M t" by (rule n(4))
  show "token_offset p M t + token_size p M t \<le> token_offset p M t' \<or> token_offset p M t' + token_size p M t' \<le> token_offset p M t"
  proof (cases "token_node t = token_node t'")
    case False
    then show ?thesis using tree_apart [OF tree n(1,5), of p] n by linarith
  next
    case True
    obtain a m sz i sz' j where e: "t = Elem a m sz i" "t' = Elem a m sz' j"
      using same_node [OF ok t True] c by auto
    then show ?thesis using same_page [OF ok, of a m sz i sz' j] t elems_apart [of sz i j]
      by (auto simp: region_of_def token_size_def)
  qed
qed

section \<open>The arena keeps the contract\<close>

definition arena_good :: "nat \<Rightarrow> nat \<Rightarrow> arena \<Rightarrow> region set \<Rightarrow> bool" where
  "arena_good p M s R \<longleftrightarrow> (\<exists>T L P Q len. arena_ok p M s T L P Q \<and> R = (\<lambda>t. region_of p M t (len t)) ` T \<and>
     (\<forall>t\<in>T. 1 \<le> len t \<and> len t \<le> token_size p M t))"

lemma offset_any_length: "rg_offset (region_of p M t len) = token_offset p M t"
  by (cases t) (simp_all add: region_of_def)

lemma region_inj:
  assumes "memory_ok p M s T L P" "t \<in> T" "t' \<in> T" "region_of p M t l = region_of p M t' l'"
  shows "t = t'"
proof (rule ccontr)
  assume ne: "t \<noteq> t'"
  have e: "token_chunk t = token_chunk t'" "token_offset p M t = token_offset p M t'" "token_size p M t = token_size p M t'"
    using assms(4) region_fields(1,4) offset_any_length by metis+
  show False using tokens_apart [OF assms(1-3) ne e(1)] e(2,3) by linarith
qed

lemma good_acquire:
  assumes good: "arena_good p M s R" and req: "1 \<le> req"
  shows "\<exists>r s'. arena_allocate req s = (Ok r, s') \<and> r \<notin> R \<and> req \<le> rg_maxLength r \<and> arena_good p M s' (insert r R) \<and>
    rg_length r = req \<and> rg_maxLength r = normalizeCapacity (2 ^ (p + M)) req \<and> (rg_maxLength r \<le> 2 ^ (p + M) \<longrightarrow> (\<exists>c. chunks s' (rg_chunk r) = Some c \<and> \<not> unpooled c))"
proof -
  obtain T L P Q len where a: "arena_ok p M s T L P Q" "R = (\<lambda>t. region_of p M t (len t)) ` T" "\<forall>t\<in>T. 1 \<le> len t \<and> len t \<le> token_size p M t"
    using good unfolding arena_good_def by blast
  obtain rg s' where r: "arena_allocate req s = (Ok rg, s')" "arena_served p M req (normalizeCapacity (2 ^ (p + M)) req) T rg s'"
    using arena_allocate_ok [OF a(1) req] by blast
  then obtain t L' P' Q' where t: "rg = region_of p M t req" "t \<notin> T" "token_size p M t = normalizeCapacity (2 ^ (p + M)) req"
    "arena_ok p M s' (insert t T) L' P' Q'" "normalizeCapacity (2 ^ (p + M)) req \<le> 2 ^ (p + M) \<longrightarrow> (\<forall>b m. t \<noteq> Huge b m)"
    unfolding arena_served_def by blast
  have "12 \<le> p" "p + M \<le> 30" using memory_okD(1) [OF arena_okD(1) [OF a(1)]] by (simp_all add: arena_geo_def)
  then have fits: "req \<le> token_size p M t" using rounded(1) [OF req] t(3) by simp
  have "rg \<notin> R"
  proof
    assume "rg \<in> R"
    then obtain u where "u \<in> T" "rg = region_of p M u (len u)" unfolding a(2) by (elim imageE)
    then have "u \<in> T" "region_of p M t req = region_of p M u (len u)" by (simp_all only: t(1))
    then show False using region_inj [OF arena_okD(1) [OF t(4)], of t u req "len u"] t(2) by auto
  qed
  moreover have "insert rg R = (\<lambda>u. region_of p M u ((len(t := req)) u)) ` insert t T" using a(2) t(1,2) by auto
  then have "arena_good p M s' (insert rg R)"
    unfolding arena_good_def using t(2,4) a(3) fits req
    by (intro exI [of _ "insert t T"] exI [of _ L'] exI [of _ P'] exI [of _ Q'] exI [of _ "len(t := req)"]) auto
  moreover have "rg_length rg = req" "rg_maxLength rg = normalizeCapacity (2 ^ (p + M)) req" using t(1,3) by (simp_all add: region_fields)
  moreover obtain c where "chunks s' (rg_chunk rg) = Some c" "unpooled c \<longrightarrow> t = Huge (token_chunk t) (chunkSize c)"
    using token_kind [OF arena_okD(1) [OF t(4)], of t] t(1) region_fields(1) by auto
  then have "rg_maxLength rg \<le> 2 ^ (p + M) \<longrightarrow> (\<exists>c. chunks s' (rg_chunk rg) = Some c \<and> \<not> unpooled c)"
    using t(1,3,5) region_fields(4) by metis
  ultimately show ?thesis using r(1) fits t(3) by (intro exI [of _ rg] exI [of _ s']) simp
qed

lemma good_release:
  assumes good: "arena_good p M s R" and r: "r \<in> R"
  shows "\<exists>s'. arena_free (rg_chunk r) (rg_handle r) s = (Ok (), s') \<and> arena_good p M s' (R - {r})"
proof -
  obtain T L P Q len where a: "arena_ok p M s T L P Q" "R = (\<lambda>t. region_of p M t (len t)) ` T" "\<forall>t\<in>T. 1 \<le> len t \<and> len t \<le> token_size p M t"
    using good unfolding arena_good_def by blast
  then obtain t where t: "t \<in> T" "r = region_of p M t (len t)" using r by blast
  obtain s' L' P' Q' where s': "arena_free (token_chunk t) (token_handle t) s = (Ok (), s')" "arena_ok p M s' (T - {t}) L' P' Q'"
    using arena_free_ok [OF a(1) t(1)] by blast
  have "u = t" if "u \<in> T" "region_of p M u (len u) = r" for u
    using region_inj [OF arena_okD(1) [OF a(1)] that(1) t(1), of "len u" "len t"] that(2) t(2) by simp
  then have "R - {r} = (\<lambda>u. region_of p M u (len u)) ` (T - {t})" using a(2) t(2) by auto
  then have "arena_good p M s' (R - {r})" unfolding arena_good_def using s'(2) a(3) by blast
  then show ?thesis using s'(1) t(2) region_fields(1,2) by metis
qed

lemma good_apart:
  assumes good: "arena_good p M s R" and r: "r \<in> R" "r' \<in> R" "r \<noteq> r'" "rg_chunk r = rg_chunk r'"
  shows "rg_offset r + rg_maxLength r \<le> rg_offset r' \<or> rg_offset r' + rg_maxLength r' \<le> rg_offset r"
proof -
  obtain T L P Q len where a: "arena_ok p M s T L P Q" "R = (\<lambda>t. region_of p M t (len t)) ` T"
    using good unfolding arena_good_def by blast
  then obtain t t' where t: "t \<in> T" "r = region_of p M t (len t)" "t' \<in> T" "r' = region_of p M t' (len t')" using r by blast
  then have "t \<noteq> t'" "token_chunk t = token_chunk t'" using r(3,4) by (auto simp: region_fields)
  from tokens_apart(1) [OF arena_okD(1) [OF a(1)] t(1,3) this] show ?thesis
    unfolding t(2,4) region_fields offset_any_length [of p M t "len t"] offset_any_length [of p M t' "len t'"] .
qed

interpretation ra: region_store "arena_good p M" arena_allocate "\<lambda>r. arena_free (rg_chunk r) (rg_handle r)" rg_chunk rg_offset rg_maxLength
  for p M
proof
  fix s R and req :: int assume "arena_good p M s R" "1 \<le> req"
  then show "\<exists>r s'. arena_allocate req s = (Ok r, s') \<and> r \<notin> R \<and> req \<le> rg_maxLength r \<and> arena_good p M s' (insert r R)"
    using good_acquire by metis
qed (fact good_release good_apart)+

section \<open>The new arena\<close>

lemma heads_made:
  "foldr (PoolSubpage_head z) xs H x = (if x \<in> set xs then sp_blank\<lparr>sp_pageSize := z, sp_prev := x, sp_next := x\<rparr> else H x)"
  by (induction xs) (auto simp: PoolSubpage_head_def)

lemma new_arena:
  assumes "12 \<le> p" "M \<le> 14" "p + M \<le> 30"
  shows "arena_ok p M (PoolArena_new junk (2 ^ p) (int M) (int p) (2 ^ (p + M))) {} {} (\<lambda>_. []) (\<lambda>_. [])"
proof -
  define s where "s = PoolArena_new junk (2 ^ p) (int M) (int p) (2 ^ (p + M))"
  have n: "Suc (nat numTinySubpagePools) = 33" "33 + nat (numSmallSubpagePools (int p)) = p + 24"
    using assms(1) by (simp_all add: numTinySubpagePools_def numSmallSubpagePools_def nat_diff_distrib)
  have f: "tinySubpagePools s = [1..<33]" "smallSubpagePools s = [33..<p + 24]" "new_subpage s = p + 24" "new_chunk s = 1"
    "chunks s = Map.empty" "lists s = arena_lists (2 ^ (p + M))" "ar_chunkSize s = 2 ^ (p + M)"
    "subs s = foldr (PoolSubpage_head (2 ^ p)) ([1..<33] @ [33..<p + 24]) (\<lambda>_. sp_blank)"
    unfolding s_def PoolArena_new_def Let_def n by simp_all
  have hd: "subs s h = sp_blank\<lparr>sp_pageSize := 2 ^ p, sp_prev := h, sp_next := h\<rparr>" if "h \<in> heads p" for h
    using that assms(1) unfolding f(8) heads_made by (auto simp: heads_def)
  have "pool (subs s) h []" if "h \<in> heads p" for h
    using hd [OF that] that by (simp add: pool_def ring_def heads_def)
  then have "heap_ok p head_addr (heads p) (subs s) {} (\<lambda>_. []) {}"
    using the_size_heads [of p] assms by (simp add: heap_ok_def)
  moreover have "arena_geo p M s" using assms f(1,2) by (simp add: arena_geo_def s_def PoolArena_new_def Let_def)
  ultimately have "memory_ok p M s {} {} (\<lambda>_. [])" using f by (simp add: memory_ok_def)
  moreover have "list_head (arena_lists z l) = 0" for z l by (simp add: arena_lists_def PoolChunkList_new_def)
  then have "lines s (\<lambda>_. [])" by (simp add: lines_def line_def f(6))
  ultimately show ?thesis using f(5-7) by (simp add: arena_ok_def bands_def placed_def flip: s_def)
qed

lemma new_good: "12 \<le> p \<Longrightarrow> M \<le> 14 \<Longrightarrow> p + M \<le> 30 \<Longrightarrow> arena_good p M (PoolArena_new junk (2 ^ p) (int M) (int p) (2 ^ (p + M))) {}"
  using new_arena [of p M junk] unfolding arena_good_def by blast

section \<open>An arena over time\<close>

text \<open>
  A history of an arena with \<open>2 ^ p\<close>-byte pages and \<open>2 ^ (p + M)\<close>-byte chunks: it starts new,
  serves requests of at least one byte and takes back regions that are out. \<open>R\<close> are the regions
  that are out; \<open>junk\<close> is what new memory holds.
\<close>

inductive arena_history :: "nat \<Rightarrow> nat \<Rightarrow> (nat \<Rightarrow> i64bits) \<Rightarrow> arena \<Rightarrow> region set \<Rightarrow> bool" for p M junk where
  start: "arena_history p M junk (PoolArena_new junk (2 ^ p) (int M) (int p) (2 ^ (p + M))) {}"
| acquire: "arena_history p M junk s R \<Longrightarrow> 1 \<le> req \<Longrightarrow> arena_allocate req s = (Ok r, s') \<Longrightarrow> arena_history p M junk s' (insert r R)"
| release: "arena_history p M junk s R \<Longrightarrow> r \<in> R \<Longrightarrow> arena_free (rg_chunk r) (rg_handle r) s = (Ok (), s') \<Longrightarrow>
    arena_history p M junk s' (R - {r})"

lemma history_good:
  assumes "arena_history p M junk s R" "12 \<le> p" "M \<le> 14" "p + M \<le> 30"
  shows "arena_good p M s R"
  using assms(1)
proof induction
  case start
  then show ?case by (rule new_good [OF assms(2-4)])
next
  case (acquire s R req r s')
  then show ?case using ra.acquired(1) by blast
next
  case (release s R r s')
  then show ?case using ra.released by blast
qed

text \<open>A region lies inside its chunk.\<close>

lemma arena_sizes:
  assumes "arena_good p M s R" "r \<in> R"
  shows "1 \<le> rg_length r" "rg_length r \<le> rg_maxLength r"
  using assms by (auto simp: arena_good_def region_fields)

lemma region_inside:
  assumes good: "arena_good p M s R" and r: "r \<in> R"
  shows "rg_length r \<le> rg_maxLength r \<and>
    (\<exists>c. chunks s (rg_chunk r) = Some c \<and> 0 \<le> rg_offset r \<and> rg_offset r + rg_maxLength r \<le> chunkSize c)"
proof -
  obtain T L P Q len where a: "arena_ok p M s T L P Q" "R = (\<lambda>t. region_of p M t (len t)) ` T" "\<forall>t\<in>T. 1 \<le> len t \<and> len t \<le> token_size p M t"
    using good unfolding arena_good_def by blast
  then obtain t where t: "t \<in> T" "r = region_of p M t (len t)" using r by blast
  note ok = arena_okD(1) [OF a(1)]
  obtain c where c: "chunks s (token_chunk t) = Some c" "unpooled c \<longrightarrow> t = Huge (token_chunk t) (chunkSize c)"
    using token_kind [OF ok t(1)] by blast
  have "0 \<le> token_offset p M t \<and> token_offset p M t + token_size p M t \<le> chunkSize c"
  proof (cases "unpooled c")
    case True
    then obtain a where "t = Huge a (chunkSize c)" using c(2) by blast
    then show ?thesis by (simp add: region_of_def token_size_def)
  next
    case False
    note inv = memory_pooled [OF ok c(1) False] and n = token_in_node [OF ok t(1) c(1) False]
    have "chunkSize c = 2 ^ (p + M)" using chunk_inv_geo [OF inv] by (simp add: chunk_geo_def)
    then show ?thesis using n(2,3) node_inside [of "token_node t" M p] tree_ok_mem [OF chunk_inv_tree [OF inv] n(1)] by linarith
  qed
  then show ?thesis using c(1) a(3) t offset_any_length [of p M t "len t"] by (simp add: region_fields)
qed


text \<open>
  C1: memory safety of the pooled allocator. Over every history of an arena, a region that was
  handed out lies inside its chunk and is large enough for the request, and no two regions that
  are out share a byte, whether they are runs of pages, elements of a page or chunks of their own.
\<close>

theorem arena_regions_apart:
  assumes "arena_history p M junk s R" "12 \<le> p" "M \<le> 14" "p + M \<le> 30"
  shows "(\<forall>r\<in>R. rg_length r \<le> rg_maxLength r \<and>
      (\<exists>c. chunks s (rg_chunk r) = Some c \<and> 0 \<le> rg_offset r \<and> rg_offset r + rg_maxLength r \<le> chunkSize c)) \<and>
    (\<forall>r\<in>R. \<forall>r'\<in>R. r \<noteq> r' \<longrightarrow> rg_chunk r \<noteq> rg_chunk r' \<or>
      {rg_offset r..<rg_offset r + rg_maxLength r} \<inter> {rg_offset r'..<rg_offset r' + rg_maxLength r'} = {})"
proof -
  have good: "arena_good p M s R" by (rule history_good [OF assms])
  show ?thesis using region_inside [OF good] ra.bytes_apart [OF good] by blast
qed

text \<open>
  C2: the allocator never fails. After every history a request of at least one byte is served with
  the size class of the request, by a region that was not out, and every region that is out can be
  released; no call throws, runs for ever or reaches undefined behaviour.
\<close>

theorem arena_serves_and_releases:
  assumes "arena_history p M junk s R" "12 \<le> p" "M \<le> 14" "p + M \<le> 30"
  shows "(1 \<le> req \<longrightarrow> (\<exists>r s'. arena_allocate req s = (Ok r, s') \<and> r \<notin> R \<and> rg_length r = req \<and>
      rg_maxLength r = normalizeCapacity (2 ^ (p + M)) req)) \<and>
    (\<forall>r\<in>R. \<exists>s'. arena_free (rg_chunk r) (rg_handle r) s = (Ok (), s'))"
proof -
  have good: "arena_good p M s R" by (rule history_good [OF assms])
  have "\<exists>r s'. arena_allocate req s = (Ok r, s') \<and> r \<notin> R \<and> rg_length r = req \<and>
      rg_maxLength r = normalizeCapacity (2 ^ (p + M)) req" if "1 \<le> req"
    using good_acquire [OF good that] by metis
  moreover have "\<forall>r\<in>R. \<exists>s'. arena_free (rg_chunk r) (rg_handle r) s = (Ok (), s')" using ra.releases [OF good] by metis
  ultimately show ?thesis by blast
qed


text \<open>An arena with a small, a page and a huge region out.\<close>

lemma three_regions:
  "\<exists>s r1 r2 r3. arena_history 12 1 (\<lambda>_. 7) s {r1, r2, r3} \<and> r1 \<noteq> r2 \<and> r1 \<noteq> r3 \<and> r2 \<noteq> r3 \<and>
     rg_length r1 = 100 \<and> rg_maxLength r1 = 112 \<and> rg_length r2 = 4000 \<and> rg_maxLength r2 = 4096 \<and> rg_length r3 = 70000 \<and> rg_maxLength r3 = 70000"
proof -
  have more: "\<exists>r s'. arena_history 12 1 (\<lambda>_. 7) s' (insert r R) \<and> r \<notin> R \<and> rg_length r = req \<and> rg_maxLength r = normalizeCapacity 8192 req"
    if h: "arena_history 12 1 (\<lambda>_. 7) s R" and req: "1 \<le> req" for s R req
  proof -
    have good: "arena_good 12 1 s R" by (rule history_good [OF h]) simp_all
    then obtain r s' where "arena_allocate req s = (Ok r, s')" "r \<notin> R" "rg_length r = req" "rg_maxLength r = normalizeCapacity (2 ^ (12 + 1)) req"
      using good_acquire [OF good req] by metis
    then show ?thesis using arena_history.acquire [OF h req] by auto
  qed
  have n: "normalizeCapacity 8192 100 = 112" "normalizeCapacity 8192 4000 = 4096" "normalizeCapacity 8192 70000 = 70000" by code_simp+
  obtain r1 s1 where 1: "arena_history 12 1 (\<lambda>_. 7) s1 {r1}" "rg_length r1 = 100" "rg_maxLength r1 = 112"
    using more [OF arena_history.start, of 100] n by auto
  obtain r2 s2 where 2: "arena_history 12 1 (\<lambda>_. 7) s2 {r2, r1}" "r2 \<noteq> r1" "rg_length r2 = 4000" "rg_maxLength r2 = 4096"
    using more [OF 1(1), of 4000] n by auto
  obtain r3 s3 where 3: "arena_history 12 1 (\<lambda>_. 7) s3 {r3, r2, r1}" "r3 \<noteq> r2" "r3 \<noteq> r1" "rg_length r3 = 70000" "rg_maxLength r3 = 70000"
    using more [OF 2(1), of 70000] n by auto
  show ?thesis using 1(2,3) 2(2-4) 3
    by (intro exI [of _ s3] exI [of _ r1] exI [of _ r2] exI [of _ r3]) (auto simp: insert_commute)
qed

theorem arena_regions_apart_witness:
  "\<exists>s r1 r2 r3. arena_history 12 1 (\<lambda>_. 7) s {r1, r2, r3} \<and> r1 \<noteq> r2 \<and> rg_length r1 = 100 \<and> rg_length r2 = 4000 \<and> rg_length r3 = 70000 \<and>
     rg_length r1 \<le> rg_maxLength r1 \<and> (rg_chunk r1 \<noteq> rg_chunk r2 \<or>
      {rg_offset r1..<rg_offset r1 + rg_maxLength r1} \<inter> {rg_offset r2..<rg_offset r2 + rg_maxLength r2} = {})"
proof -
  obtain s r1 r2 r3 where h: "arena_history 12 1 (\<lambda>_. 7) s {r1, r2, r3}" "r1 \<noteq> r2" "rg_length r1 = 100" "rg_length r2 = 4000" "rg_length r3 = 70000"
    using three_regions by blast
  have "rg_length r1 \<le> rg_maxLength r1 \<and> (rg_chunk r1 \<noteq> rg_chunk r2 \<or>
      {rg_offset r1..<rg_offset r1 + rg_maxLength r1} \<inter> {rg_offset r2..<rg_offset r2 + rg_maxLength r2} = {})"
    using arena_regions_apart [OF h(1)] h(2) by simp
  then show ?thesis using h by blast
qed

theorem arena_serves_and_releases_witness:
  "\<exists>s r1 r2 r3. arena_history 12 1 (\<lambda>_. 7) s {r1, r2, r3} \<and>
     (\<exists>r s'. arena_allocate 500 s = (Ok r, s') \<and> r \<notin> {r1, r2, r3} \<and> rg_length r = 500 \<and> rg_maxLength r = 512) \<and>
     (\<exists>s'. arena_free (rg_chunk r1) (rg_handle r1) s = (Ok (), s')) \<and> (\<exists>s'. arena_free (rg_chunk r3) (rg_handle r3) s = (Ok (), s'))"
proof -
  obtain s r1 r2 r3 where h: "arena_history 12 1 (\<lambda>_. 7) s {r1, r2, r3}" using three_regions by blast
  have n: "normalizeCapacity (2 ^ (12 + 1)) 500 = 512" by code_simp
  from arena_serves_and_releases [OF h, of 500] h n show ?thesis
    by (intro exI [of _ s] exI [of _ r1] exI [of _ r2] exI [of _ r3]) simp
qed


end
