(* ===== verification/ArenaFrame.thy ===== *)
theory ArenaFrame
  imports ArenaHistory
begin

text \<open>
  What no operation of an arena does: it never changes the size of a chunk that stays, and never
  gives the address of an existing chunk to a new one.
\<close>

definition grows :: "arena \<Rightarrow> arena \<Rightarrow> bool" where
  "grows s s' \<longleftrightarrow> new_chunk s \<le> new_chunk s' \<and>
     (\<forall>a c'. a < new_chunk s \<longrightarrow> chunks s' a = Some c' \<longrightarrow> (\<exists>c. chunks s a = Some c \<and> chunkSize c' = chunkSize c))"

definition frames :: "(arena, 'a) prog \<Rightarrow> bool" where
  "frames m \<longleftrightarrow> (\<forall>s. grows s (snd (m s)))"

text \<open>Programs on one chunk that keep its size.\<close>

definition keeps :: "(chunk, 'a) prog \<Rightarrow> bool" where
  "keeps m \<longleftrightarrow> (\<forall>c. chunkSize (snd (m c)) = chunkSize c)"

named_theorems frame_rules \<open>programs that keep the sizes of chunks\<close>

lemma grows_refl: "grows s s"
  by (simp add: grows_def)

lemma grows_trans: "grows s t \<Longrightarrow> grows t u \<Longrightarrow> grows s u"
  unfolding grows_def by (metis order_less_le_trans order_trans)

lemma same_chunks_grows: "chunks s' = chunks s \<Longrightarrow> new_chunk s' = new_chunk s \<Longrightarrow> grows s s'"
  by (simp add: grows_def)

lemma frames_reads [frame_rules]: "frames (ret a)" "frames (asks f)" "frames (lift_outcome g)" "frames (assertp P)" "frames (raise e)" "frames (deref x)"
  by (simp_all add: frames_def grows_refl ret_def asks_def lift_outcome_def assertp_def raise_def deref_def)

lemma frames_bindp [frame_rules]:
  assumes "frames m" "\<And>a. frames (f a)"
  shows "frames (bindp m f)"
  unfolding frames_def
proof
  fix s
  have "grows s (snd (m s))" using assms(1) by (simp add: frames_def)
  moreover have "grows t (snd (f a t))" for a t using assms(2) by (simp add: frames_def)
  ultimately show "grows s (snd (bindp m f s))"
    using grows_trans by (cases "m s"; cases "fst (m s)") (auto simp: bindp_def)
qed

lemma frames_seqp [frame_rules]: "frames m \<Longrightarrow> frames k \<Longrightarrow> frames (seqp m k)"
  by (simp add: seqp_def frames_bindp)

lemma frames_doM [frame_rules]: "(\<And>m. m \<in> set ms \<Longrightarrow> frames m) \<Longrightarrow> frames (doM ms)"
  by (induction ms rule: doM.induct) (simp_all add: frames_reads frames_seqp)

lemma frames_if [frame_rules]: "frames m \<Longrightarrow> frames k \<Longrightarrow> frames (if b then m else k)" "frames m \<Longrightarrow> frames k \<Longrightarrow> frames (ifp Q m k)"
  by (simp_all add: frames_def ifp_def)

lemma frames_option [frame_rules]: "frames m \<Longrightarrow> (\<And>x. frames (f x)) \<Longrightarrow> frames (case r of None \<Rightarrow> m | Some x \<Rightarrow> f x)"
  by (cases r) simp_all

lemma frames_on_subs [frame_rules]: "frames (on_subs m)"
  by (auto simp: frames_def on_subs_def zoom_def split: prod.split intro: same_chunks_grows)

lemma frames_on_chunk [frame_rules]:
  assumes "keeps m"
  shows "frames (on_chunk a m)"
proof -
  have "chunkSize c' = chunkSize c" if "m c = (r, c')" for c r c' using assms that by (simp add: keeps_def) (metis snd_conv)
  then show ?thesis by (auto simp: frames_def on_chunk_def grows_def split: option.split prod.split)
qed

lemma keeps_modify [frame_rules]: "(\<And>c. chunkSize (f c) = chunkSize c) \<Longrightarrow> keeps (modify f)"
  by (simp add: keeps_def modify_def)

lemma keeps_allocateNode [frame_rules]: "keeps (allocateNode d)"
  by (auto simp: keeps_def allocateNode_def Let_def setValue_def split: outcome.split)

lemma keeps_allocateRun [frame_rules]: "keeps (allocateRun n)"
proof -
  have n: "chunkSize c' = chunkSize c" if "allocateNode d c = (r, c')" for d c r c'
    using keeps_allocateNode [of d] that by (simp add: keeps_def) (metis snd_conv)
  show ?thesis
    by (auto simp: keeps_def allocateRun_def bindp_def seqp_def ret_def modify_def asks_def split: prod.split outcome.split dest: n)
qed

lemma free_run_size: "chunkSize (free_run h c) = chunkSize c"
  by (simp add: free_run_def Let_def setValue_def)

lemma frames_modify [frame_rules]:
  "frames (modify (\<lambda>s. s\<lparr>lists := F s\<rparr>))" "frames (modify (new_subpage_update g))"
  by (simp_all add: frames_def modify_def same_chunks_grows)

section \<open>The operations\<close>

lemma frames_pool [frame_rules]:
  "frames (findHead sz)" "frames (subpage_at c n)" "frames (init0 rg)"
  by (simp_all add: findHead_def subpage_at_def init0_def frame_rules)

lemma frames_initBuf [frame_rules]: "frames (initBuf a h req)" "frames (initBufWithSubpage a h i req)"
  by (simp_all add: initBuf_def initBufWithSubpage_def Let_def frame_rules)

lemma frames_chunk [frame_rules]: "frames (allocateSubpage a sz)" "frames (chunk_allocate a req norm)" "frames (free_element a h)" "frames (chunk_free a h)"
  unfolding allocateSubpage_def chunk_allocate_def free_element_def chunk_free_def
  by (intro frame_rules; simp add: free_run_size frame_rules)+

lemma frames_links [frame_rules]: "frames (set_head l a)" "frames (list_remove l a)" "frames (add0 l a)"
  unfolding set_head_def list_remove_def add0_def
  by (intro frame_rules; auto intro!: frame_rules)+

lemma frames_list_add [frame_rules]: "frames (list_add k l a)"
  by (induction k arbitrary: l) (simp_all add: frame_rules)

lemma frames_move0 [frame_rules]: "frames (move0 k l a)"
  by (induction k arbitrary: l) (simp_all add: frame_rules)

lemma frames_walk [frame_rules]: "frames (allocate_walk k l cur req norm)"
proof (induction k arbitrary: cur)
  case (Suc k)
  show ?case unfolding allocate_walk.simps by (intro frame_rules Suc)
qed (simp add: frame_rules)

lemma frames_try [frame_rules]: "frames (try_lists ls req norm)"
proof (induction ls)
  case (Cons l ls)
  show ?case unfolding try_lists.simps list_allocate_def by (intro frame_rules Cons)
qed (simp add: frame_rules)

lemma frames_new [frame_rules]: "frames newChunk" "frames (newUnpooledChunk n)"
  by (auto simp: frames_def newChunk_def newUnpooledChunk_def prog_simps grows_def split: if_splits)

lemma frames_destroy [frame_rules]: "frames (destroyChunk a)"
  by (auto simp: frames_def destroyChunk_def deref_def bindp_def lift_outcome_def modify_def grows_def split: option.split)

lemma frames_allocate: "frames (arena_allocate req)"
  unfolding arena_allocate_def allocateNormal_def allocateHuge_def pool_entry_def
  by (intro frame_rules)

lemma frames_free: "frames (arena_free a h)"
  unfolding arena_free_def freeChunk_def list_free_def by (intro frame_rules)

end
