(* ===== verification/PooledMemory.thy ===== *)
theory PooledMemory
  imports PooledBuf ArenaFrame
begin

text \<open>
  Pooled buffers over a shared arena: a \<open>PooledHeapCharBuf\<close> is a growable buffer in the sense of
  theory CharBuf, and whatever is done to it, no byte of another region of the arena changes.
\<close>

section \<open>Windows of a memory\<close>

lemma loaded_patch_inside:
  assumes "0 \<le> d" "in_bounds i (int (length bs)) (loaded m d n)" "in_bounds d n m"
  shows "loaded (patch (nat (d + i)) bs m) d n = patch (nat i) bs (loaded m d n)"
proof -
  define D I N where "D = nat d" and "I = nat i" and "N = nat n"
  have len: "length (loaded m d n) = N" using length_loaded [OF assms(3)] by (simp add: N_def)
  then have b: "I + length bs \<le> N" "D + N \<le> length m" "nat (d + i) = D + I"
    using assms by (auto simp: in_bounds_def D_def I_def N_def nat_add_distrib)
  have "take N (drop D (patch (D + I) bs m)) ! j = patch I bs (take N (drop D m)) ! j" if "j < N" for j
    using that b by (simp add: nth_patch)
  then have "take N (drop D (patch (D + I) bs m)) = patch I bs (take N (drop D m))"
    using b by (intro nth_equalityI) simp_all
  then show ?thesis using b(3) by (simp add: loaded_def D_def I_def N_def)
qed

lemma loaded_patch_outside:
  assumes "in_bounds j (int (length bs)) m" "in_bounds d n m" "j + int (length bs) \<le> d \<or> d + n \<le> j"
  shows "loaded (patch (nat j) bs m) d n = loaded m d n"
proof -
  have b: "nat d + nat n \<le> length m" "nat j + length bs \<le> length m" "nat j + length bs \<le> nat d \<or> nat d + nat n \<le> nat j"
    using assms by (auto simp: in_bounds_def)
  have "take (nat n) (drop (nat d) (patch (nat j) bs m)) ! i = take (nat n) (drop (nat d) m) ! i" if "i < nat n" for i
    using that b by (auto simp: nth_patch)
  then show ?thesis unfolding loaded_def using b by (intro nth_equalityI) simp_all
qed

lemma loaded_split: "0 \<le> k \<Longrightarrow> k \<le> n \<Longrightarrow> 0 \<le> d \<Longrightarrow> loaded m d n = loaded m d k @ loaded m (d + k) (n - k)"
  using take_add [of "nat k" "nat (n - k)" "drop (nat d) m"]
  by (simp add: loaded_def nat_add_distrib nat_diff_distrib add.commute)

section \<open>A buffer in its arena\<close>

definition window :: "pool_world \<Rightarrow> byte list" where
  "window w = loaded (pw_mem w (pb_memory (pw_buf w))) (pb_offset (pw_buf w)) (pb_length (pw_buf w))"

definition region_bytes :: "(nat \<Rightarrow> byte list) \<Rightarrow> region \<Rightarrow> byte list" where
  "region_bytes mem r = loaded (mem (rg_chunk r)) (rg_offset r) (rg_maxLength r)"

definition memory_fits :: "arena \<Rightarrow> (nat \<Rightarrow> byte list) \<Rightarrow> bool" where
  "memory_fits s mem \<longleftrightarrow> (\<forall>a c. chunks s a = Some c \<longrightarrow> length (mem a) = nat (chunkSize c))"

definition owns :: "pooled_buf \<Rightarrow> region \<Rightarrow> bool" where
  "owns b r \<longleftrightarrow> pb_chunk b = rg_chunk r \<and> pb_memory b = rg_chunk r \<and> pb_handle b = rg_handle r \<and>
     pb_offset b = rg_offset r \<and> pb_maxLength b = rg_maxLength r \<and> pb_length b \<le> rg_maxLength r"

text \<open>
  The world of a buffer that is held by one reference and whose region is \<open>own\<close>, next to the
  regions \<open>R\<close> with their bytes.
\<close>

definition pool_at :: "nat \<Rightarrow> nat \<Rightarrow> region set \<Rightarrow> (region \<Rightarrow> byte list) \<Rightarrow> region \<Rightarrow> pool_world \<Rightarrow> bool" where
  "pool_at p M R bytes own w \<longleftrightarrow> own \<notin> R \<and> arena_good p M (pw_arena w) (insert own R) \<and>
     memory_fits (pw_arena w) (pw_mem w) \<and> owns (pw_buf w) own \<and> idx_ok (pb_base (pw_buf w)) (pb_length (pw_buf w)) \<and>
     pb_refCnt (pw_buf w) = 1 \<and> (\<forall>r\<in>R. region_bytes (pw_mem w) r = bytes r)"

definition pool_valid :: "nat \<Rightarrow> nat \<Rightarrow> region set \<Rightarrow> (region \<Rightarrow> byte list) \<Rightarrow> pool_world \<Rightarrow> bool" where
  "pool_valid p M R bytes w \<longleftrightarrow> (\<exists>own. pool_at p M R bytes own w)"

lemma pool_atD:
  assumes "pool_at p M R bytes own w"
  shows "own \<notin> R" "arena_good p M (pw_arena w) (insert own R)" "memory_fits (pw_arena w) (pw_mem w)" "owns (pw_buf w) own"
    "idx_ok (pb_base (pw_buf w)) (pb_length (pw_buf w))" "pb_refCnt (pw_buf w) = 1" "r \<in> R \<Longrightarrow> region_bytes (pw_mem w) r = bytes r"
  using assms by (simp_all add: pool_at_def)

text \<open>A region lies in the memory of its chunk, and index arithmetic in it does not overflow.\<close>

lemma region_in_memory:
  assumes "arena_good p M s R" "memory_fits s mem" "r \<in> R"
  shows "in_bounds (rg_offset r) (rg_maxLength r) (mem (rg_chunk r))" "0 \<le> rg_offset r" "0 \<le> rg_maxLength r"
    "rg_offset r = 0 \<or> rg_offset r + rg_maxLength r \<le> INT_MAX"
proof -
  obtain T L P Q len where a: "arena_ok p M s T L P Q" "R = (\<lambda>t. region_of p M t (len t)) ` T"
    using assms(1) unfolding arena_good_def by blast
  then obtain t where t: "t \<in> T" "r = region_of p M t (len t)" using assms(3) by blast
  note ok = arena_okD(1) [OF a(1)]
  obtain c where c: "chunks s (rg_chunk r) = Some c" "0 \<le> rg_offset r" "rg_offset r + rg_maxLength r \<le> chunkSize c"
    using region_inside [OF assms(1,3)] by blast
  obtain d where d: "chunks s (token_chunk t) = Some d" "unpooled d \<longrightarrow> t = Huge (token_chunk t) (chunkSize d)"
    using token_kind [OF ok t(1)] by blast
  have cd: "d = c" "rg_chunk r = token_chunk t" "rg_maxLength r = token_size p M t" using c(1) d(1) t(2) by (simp_all add: region_fields)
  have size: "length (mem (rg_chunk r)) = nat (chunkSize c)" using assms(2) c(1) by (simp add: memory_fits_def)
  have "0 \<le> rg_maxLength r \<and> (rg_offset r = 0 \<or> rg_offset r + rg_maxLength r \<le> INT_MAX)"
  proof (cases "unpooled d")
    case True
    then obtain a where h: "t = Huge a (chunkSize d)" using d(2) by blast
    have "rg_offset r = 0" using t(2) by (simp add: h region_of_def)
    moreover have "0 \<le> rg_maxLength r" using arena_sizes [OF assms(1,3)] by simp
    ultimately show ?thesis by simp
  next
    case False
    note inv = memory_pooled [OF ok d(1) False]
    have g: "p + M \<le> 30" "chunkSize c = 2 ^ (p + M)" using chunk_inv_geo [OF inv] cd by (simp_all add: chunk_geo_def)
    have "(2::int) ^ (p + M) \<le> 2 ^ 30" using g(1) by (intro power_increasing) simp_all
    then have "chunkSize c \<le> INT_MAX" using g(2) by simp
    then show ?thesis using c(3) token_in_node(4) [OF ok t(1) d(1) False] cd(3) by linarith
  qed
  then show "in_bounds (rg_offset r) (rg_maxLength r) (mem (rg_chunk r))" "0 \<le> rg_offset r" "0 \<le> rg_maxLength r"
    "rg_offset r = 0 \<or> rg_offset r + rg_maxLength r \<le> INT_MAX"
    using c(2,3) size by (auto simp: in_bounds_def)
qed

text \<open>A write into one region leaves the bytes of every other region alone.\<close>

lemma region_frame:
  assumes good: "arena_good p M s R" and fits: "memory_fits s mem" and q: "q \<in> R" "u \<in> R" "u \<noteq> q"
    and j: "rg_offset q \<le> j" "j + int (length bs) \<le> rg_offset q + rg_maxLength q"
  shows "region_bytes (mem(rg_chunk q := patch (nat j) bs (mem (rg_chunk q)))) u = region_bytes mem u"
proof -
  note m = region_in_memory [OF good fits q(1)]
  have b: "in_bounds j (int (length bs)) (mem (rg_chunk q))" using m(1,2) j by (auto simp: in_bounds_def)
  show "region_bytes (mem(rg_chunk q := patch (nat j) bs (mem (rg_chunk q)))) u = region_bytes mem u"
  proof (cases "rg_chunk u = rg_chunk q")
    case True
    have "rg_offset q + rg_maxLength q \<le> rg_offset u \<or> rg_offset u + rg_maxLength u \<le> rg_offset q"
      using q True by (intro good_apart [OF good]) auto
    then have "j + int (length bs) \<le> rg_offset u \<or> rg_offset u + rg_maxLength u \<le> j" using j by linarith
    then show ?thesis
      using loaded_patch_outside [OF b, where d = "rg_offset u" and n = "rg_maxLength u"] region_in_memory(1) [OF good fits q(2)] True
      by (simp add: region_bytes_def)
  qed (simp add: region_bytes_def)
qed

section \<open>Loads and stores\<close>

lemma window_len:
  assumes "pool_at p M R bytes own w"
  shows "int (length (window w)) = pb_length (pw_buf w)" "in_bounds (pb_offset (pw_buf w)) (pb_length (pw_buf w)) (pw_mem w (pb_memory (pw_buf w)))"
    "0 \<le> pb_offset (pw_buf w)" "pb_offset (pw_buf w) = 0 \<or> pb_offset (pw_buf w) + pb_length (pw_buf w) \<le> INT_MAX" "pb_length (pw_buf w) \<le> INT_MAX"
proof -
  note d = pool_atD [OF assms]
  note r = region_in_memory [OF d(2,3), of own, simplified]
  show "in_bounds (pb_offset (pw_buf w)) (pb_length (pw_buf w)) (pw_mem w (pb_memory (pw_buf w)))" "0 \<le> pb_offset (pw_buf w)"
    "pb_offset (pw_buf w) = 0 \<or> pb_offset (pw_buf w) + pb_length (pw_buf w) \<le> INT_MAX" "pb_length (pw_buf w) \<le> INT_MAX"
    using r d(4) idx_okD [OF d(5)] by (auto simp: owns_def in_bounds_def)
  then show "int (length (window w)) = pb_length (pw_buf w)" unfolding window_def by (intro length_loaded)
qed

text \<open>An index into the window is an index into the memory of the chunk.\<close>

lemma window_index:
  assumes "pool_at p M R bytes own w" "in_bounds i n (window w)"
  shows "pool_idx i (pw_buf w) = pb_offset (pw_buf w) + i"
    "in_bounds (pb_offset (pw_buf w) + i) n (pw_mem w (pb_memory (pw_buf w)))"
    "loaded (pw_mem w (pb_memory (pw_buf w))) (pb_offset (pw_buf w) + i) n = loaded (window w) i n"
proof -
  let ?b = "pw_buf w" and ?m = "pw_mem w (pb_memory (pw_buf w))"
  note l = window_len [OF assms(1)]
  have i: "0 \<le> i" "0 \<le> n" "i + n \<le> pb_length ?b" using assms(2) l(1) by (auto simp: in_bounds_def)
  then show "pool_idx i ?b = pb_offset ?b + i" using l(3-5) unfolding pool_idx_def by (subst i32_id) auto
  show "in_bounds (pb_offset ?b + i) n ?m" using l(2,3) i by (auto simp: in_bounds_def)
  have n: "nat (pb_offset ?b + i) = nat (pb_offset ?b) + nat i" "nat i + nat n \<le> nat (pb_length ?b)"
    using i l(3) by (simp_all add: nat_add_distrib flip: nat_le_iff)
  show "loaded ?m (pb_offset ?b + i) n = loaded (window w) i n"
    unfolding window_def loaded_def n(1) using n(2) by (simp add: drop_take min_def add.commute)
qed

lemma pool_store_run:
  assumes v: "pool_valid p M R bytes w" and i: "in_bounds i (int (length bs)) (window w)"
    and f: "\<And>m. in_bounds (pool_idx i (pw_buf w)) (int (length bs)) m \<Longrightarrow> m = pw_mem w (pb_memory (pw_buf w)) \<Longrightarrow>
      f m (pool_idx i (pw_buf w)) = Ok (patch (nat (pool_idx i (pw_buf w))) bs m)"
  shows "stores pool_ops window (pool_valid p M R bytes) (pool_store i f) i bs w"
proof -
  obtain own where at: "pool_at p M R bytes own w" using v by (auto simp: pool_valid_def)
  note d = pool_atD [OF at] and l = window_len [OF at] and x = window_index [OF at i]
  let ?b = "pw_buf w"
  define j m where "j = pb_offset ?b + i" and "m = pw_mem w (pb_memory ?b)"
  define w' where "w' = w\<lparr>pw_mem := (pw_mem w)(pb_memory ?b := patch (nat j) bs m)\<rparr>"
  have run: "pool_store i f w = (Ok (), w')"
    using f [of m] x(1,2) by (simp add: pool_store_def prog_simps w'_def j_def m_def)
  have win: "window w' = patch (nat i) bs (window w)"
    using loaded_patch_inside [OF l(3) i [unfolded window_def] l(2)] by (simp add: window_def w'_def j_def m_def)
  have len: "length (patch (nat j) bs m) = length m"
    using x(2) by (auto simp: j_def m_def in_bounds_def)
  have "0 \<le> i" "i + int (length bs) \<le> pb_length ?b" using i unfolding in_bounds_def l(1) by simp_all
  then have j: "rg_offset own \<le> j" "j + int (length bs) \<le> rg_offset own + rg_maxLength own"
    using d(4) unfolding owns_def j_def by linarith+
  note frame = region_frame [OF d(2,3) _ _ _ j]
  have mem: "pw_mem w' = (pw_mem w)(rg_chunk own := patch (nat j) bs (pw_mem w (rg_chunk own)))" "m = pw_mem w (rg_chunk own)"
    using d(4) by (simp_all add: w'_def m_def owns_def)
  have "region_bytes (pw_mem w') r = region_bytes (pw_mem w) r" if r: "r \<in> R" for r
    unfolding mem(1) using r d(1) by (intro frame) auto
  then have "pool_at p M R bytes own w'"
    using d len by (simp add: pool_at_def memory_fits_def w'_def m_def)
  then show ?thesis using run win by (auto simp: stores_def pool_valid_def w'_def pool_ops_def)
qed

lemma pool_load_run:
  assumes v: "pool_valid p M R bytes w" and i: "in_bounds i n (window w)"
    and f: "\<And>m j. in_bounds j n m \<Longrightarrow> f m j = Ok (g (loaded m j n))"
  shows "pool_load i f w = (Ok (g (loaded (window w) i n)), w)"
proof -
  obtain own where at: "pool_at p M R bytes own w" using v by (auto simp: pool_valid_def)
  show ?thesis using f window_index [OF at i] by (simp add: pool_load_def prog_simps)
qed

section \<open>The memory follows the chunks\<close>

lemma good_chunk:
  assumes "arena_good p M s R" "chunks s a = Some c"
  shows "a < new_chunk s"
  using assms memory_okD(4) arena_okD(1) unfolding arena_good_def by blast

lemma memory_follows:
  assumes fr: "grows s s'" and good: "arena_good p M s R" "arena_good p M s' R'" and fits: "memory_fits s mem"
  shows "memory_fits s' (sync_memory junk s s' mem)"
    "q \<in> R \<Longrightarrow> q \<in> R' \<Longrightarrow> sync_memory junk s s' mem (rg_chunk q) = mem (rg_chunk q)"
proof -
  have "length (sync_memory junk s s' mem a) = nat (chunkSize c')" if c': "chunks s' a = Some c'" for a c'
  proof (cases "chunks s a")
    case (Some c)
    then have "chunkSize c' = chunkSize c" using fr c' good_chunk [OF good(1) Some] by (auto simp: grows_def)
    then show ?thesis using Some c' fits by (simp add: sync_memory_def memory_fits_def)
  qed (simp add: sync_memory_def c')
  then show "memory_fits s' (sync_memory junk s s' mem)" by (simp add: memory_fits_def)
  assume "q \<in> R" "q \<in> R'"
  then obtain c c' where "chunks s (rg_chunk q) = Some c" "chunks s' (rg_chunk q) = Some c'"
    using region_inside good by metis
  then show "sync_memory junk s s' mem (rg_chunk q) = mem (rg_chunk q)" by (simp add: sync_memory_def)
qed

lemma frames_run: "frames m \<Longrightarrow> m s = (r, s') \<Longrightarrow> grows s s'"
  unfolding frames_def by (metis snd_conv)

lemma world_acquire:
  assumes good: "arena_good p M (pw_arena w) R" and fits: "memory_fits (pw_arena w) (pw_mem w)" and req: "1 \<le> req"
  shows "\<exists>r s' mem'. in_arena (arena_allocate req) w = (Ok r, w\<lparr>pw_arena := s', pw_mem := mem'\<rparr>) \<and> r \<notin> R \<and>
    rg_length r = req \<and> req \<le> rg_maxLength r \<and> arena_good p M s' (insert r R) \<and> memory_fits s' mem' \<and>
    (\<forall>q\<in>R. mem' (rg_chunk q) = pw_mem w (rg_chunk q))"
proof -
  obtain r s' where r: "arena_allocate req (pw_arena w) = (Ok r, s')" "r \<notin> R" "req \<le> rg_maxLength r" "arena_good p M s' (insert r R)"
    "rg_length r = req" using good_acquire [OF good req] by metis
  note m = memory_follows [OF frames_run [OF frames_allocate r(1)] good r(4) fits]
  show ?thesis using r m by (intro exI [of _ r] exI [of _ s'] exI) (auto simp: in_arena_def)
qed

lemma world_release:
  assumes good: "arena_good p M (pw_arena w) R" and fits: "memory_fits (pw_arena w) (pw_mem w)" and r: "r \<in> R"
  shows "\<exists>s' mem'. in_arena (arena_free (rg_chunk r) (rg_handle r)) w = (Ok (), w\<lparr>pw_arena := s', pw_mem := mem'\<rparr>) \<and>
    arena_good p M s' (R - {r}) \<and> memory_fits s' mem' \<and> (\<forall>q\<in>R - {r}. mem' (rg_chunk q) = pw_mem w (rg_chunk q))"
proof -
  obtain s' where s': "arena_free (rg_chunk r) (rg_handle r) (pw_arena w) = (Ok (), s')" "arena_good p M s' (R - {r})"
    using good_release [OF good r] by blast
  note m = memory_follows [OF frames_run [OF frames_free s'(1)] good s'(2) fits]
  show ?thesis using s' m by (intro exI [of _ s'] exI) (auto simp: in_arena_def)
qed

section \<open>Moving to a larger region\<close>

text \<open>The copy between two regions of one arena, in one chunk or in two.\<close>

lemma copy_regions:
  assumes good: "arena_good p M (pw_arena w) R" and fits: "memory_fits (pw_arena w) (pw_mem w)"
    and r: "r \<in> R" "q \<in> R" "r \<noteq> q" and n: "0 \<le> n" "n \<le> rg_maxLength r" "n \<le> rg_maxLength q"
  shows "\<exists>mem'. copy_memory (rg_chunk r) (rg_offset r) (rg_chunk q) (rg_offset q) n w = (Ok (), w\<lparr>pw_mem := mem'\<rparr>) \<and>
    memory_fits (pw_arena w) mem' \<and> (\<forall>u\<in>R - {q}. region_bytes mem' u = region_bytes (pw_mem w) u) \<and>
    region_bytes mem' q = loaded (pw_mem w (rg_chunk r)) (rg_offset r) n @ drop (nat n) (region_bytes (pw_mem w) q)"
proof (intro exI conjI ballI)
  define bs where "bs = loaded (pw_mem w (rg_chunk r)) (rg_offset r) n"
  let ?mem = "(pw_mem w)(rg_chunk q := patch (nat (rg_offset q)) bs (pw_mem w (rg_chunk q)))"
  note a = region_in_memory [OF good fits r(1)] region_in_memory [OF good fits r(2)]
  have b: "in_bounds (rg_offset r) n (pw_mem w (rg_chunk r))" "in_bounds (rg_offset q) n (pw_mem w (rg_chunk q))"
    using a n by (auto simp: in_bounds_def)
  have len: "int (length bs) = n" unfolding bs_def by (rule length_loaded [OF b(1)])
  then have nl: "nat n = length bs" by simp
  have "rg_chunk r = rg_chunk q \<Longrightarrow> rg_offset r + n \<le> rg_offset q \<or> rg_offset q + n \<le> rg_offset r"
    using good_apart [OF good r] n by linarith
  then show "copy_memory (rg_chunk r) (rg_offset r) (rg_chunk q) (rg_offset q) n w = (Ok (), w\<lparr>pw_mem := ?mem\<rparr>)"
    using getChars_in_bounds [OF b] b
    by (cases "rg_chunk r = rg_chunk q")
      (auto simp: copy_memory_def bindp_def lift_outcome_def modify_def copy_within_def bs_def)
  show "region_bytes ?mem u = region_bytes (pw_mem w) u" if "u \<in> R - {q}" for u
    using that len n by (intro region_frame [OF good fits r(2)]) auto
  have "length (patch (nat (rg_offset q)) bs (pw_mem w (rg_chunk q))) = length (pw_mem w (rg_chunk q))"
    using b(2) len by (auto simp: in_bounds_def)
  then show "memory_fits (pw_arena w) ?mem" using fits by (simp add: memory_fits_def)
  have "in_bounds 0 (int (length bs)) (region_bytes (pw_mem w) q)"
    using len n length_loaded [OF a(5)] by (simp add: in_bounds_def region_bytes_def)
  then have "region_bytes ?mem q = patch 0 bs (region_bytes (pw_mem w) q)"
    using loaded_patch_inside [OF a(6) _ a(5), of 0 bs] by (simp add: region_bytes_def)
  then show "region_bytes ?mem q = loaded (pw_mem w (rg_chunk r)) (rg_offset r) n @ drop (nat n) (region_bytes (pw_mem w) q)"
    using nl by (simp add: patch_def flip: bs_def)
qed

text \<open>The window of a buffer is the front of its region.\<close>

lemma window_front:
  assumes "pool_at p M R bytes own w"
  shows "window w = take (nat (pb_length (pw_buf w))) (region_bytes (pw_mem w) own)"
  using pool_atD(4) [OF assms] idx_okD [OF pool_atD(5) [OF assms]]
  by (simp add: window_def region_bytes_def take_loaded owns_def)

lemma reallocate_grow:
  assumes at: "pool_at p M R bytes own w" and n: "pb_length (pw_buf w) < n" "n \<le> maxCap (pb_base (pw_buf w))"
  shows "\<exists>q w' ext. reallocate n w = (Ok (), w') \<and> pool_at p M R bytes q w' \<and> pb_base (pw_buf w') = pb_base (pw_buf w) \<and>
    window w' = window w @ ext \<and> int (length (window w')) = n"
proof -
  note d = pool_atD [OF at] and i = idx_okD [OF pool_atD(5) [OF at]]
  let ?b = "pw_buf w" and ?k = "pb_length (pw_buf w)"
  have ow: "pb_chunk ?b = rg_chunk own" "pb_memory ?b = rg_chunk own" "pb_handle ?b = rg_handle own" "pb_offset ?b = rg_offset own"
    "?k \<le> rg_maxLength own" using d(4) by (simp_all add: owns_def)
  have n1: "1 \<le> n" "0 \<le> ?k" using n i by simp_all
  obtain q s1 m1 where q: "in_arena (arena_allocate n) w = (Ok q, w\<lparr>pw_arena := s1, pw_mem := m1\<rparr>)" "q \<notin> insert own R"
    "rg_length q = n" "n \<le> rg_maxLength q" "arena_good p M s1 (insert q (insert own R))" "memory_fits s1 m1"
    "\<forall>u\<in>insert own R. m1 (rg_chunk u) = pw_mem w (rg_chunk u)"
    using world_acquire [OF d(2,3) n1(1)] by blast
  define w1 where "w1 = w\<lparr>pw_arena := s1, pw_mem := m1, pw_buf := init_buf q ?b\<rparr>"
  have w1: "arena_good p M (pw_arena w1) (insert q (insert own R))" "memory_fits (pw_arena w1) (pw_mem w1)"
    "pw_arena w1 = s1" "pw_mem w1 = m1" "pw_buf w1 = init_buf q ?b"
    using q(5,6) by (simp_all add: w1_def)
  have qk: "own \<in> insert q (insert own R)" "q \<in> insert q (insert own R)" "own \<noteq> q" "?k \<le> rg_maxLength q" "own \<in> insert own R"
    using q(2,4) n by auto
  obtain m2 where m2: "copy_memory (rg_chunk own) (rg_offset own) (rg_chunk q) (rg_offset q) ?k w1 = (Ok (), w1\<lparr>pw_mem := m2\<rparr>)"
    "memory_fits s1 m2" "\<forall>u\<in>insert own R. region_bytes m2 u = region_bytes m1 u"
    "region_bytes m2 q = window w @ drop (nat ?k) (region_bytes m1 q)"
    using copy_regions [OF w1(1,2) qk(1-3) n1(2) ow(5) qk(4)] w1(3,4) q(2,7) ow by (auto simp: window_def)
  define w2 where "w2 = w1\<lparr>pw_mem := m2\<rparr>"
  obtain s3 m3 where f: "in_arena (arena_free (rg_chunk own) (rg_handle own)) w2 = (Ok (), w2\<lparr>pw_arena := s3, pw_mem := m3\<rparr>)"
    "arena_good p M s3 (insert q (insert own R) - {own})" "memory_fits s3 m3"
    "\<forall>u\<in>insert q (insert own R) - {own}. m3 (rg_chunk u) = m2 (rg_chunk u)"
    using world_release [of p M w2 "insert q (insert own R)" own] w1(1,3) m2(2) by (auto simp: w2_def)
  define w3 where "w3 = w2\<lparr>pw_arena := s3, pw_mem := m3\<rparr>"
  have w3: "pw_buf w3 = init_buf q ?b" "pw_arena w3 = s3" "pw_mem w3 = m3" using w1(5) by (simp_all add: w3_def w2_def)
  have "with_region (arena_allocate n) w = (Ok (), w1)" using q(1) by (simp add: with_region_def prog_simps w1_def)
  then have run: "reallocate n w = (Ok (), w3)"
    using n n1 m2(1) f(1) ow w1(5) by (simp add: reallocate_def prog_simps w3_def flip: w2_def) (simp add: init_buf_def prog_simps)
  have R: "insert q (insert own R) - {own} = insert q R" using q(2) d(1) by auto
  have bytes: "region_bytes m3 u = bytes u" if u: "u \<in> R" for u
    using f(4) m2(3) q(7) R d(7) [OF u] u by (simp add: region_bytes_def)
  have "idx_ok (pb_base ?b) n" using i n by (simp add: idx_ok_def)
  then have at3: "pool_at p M R bytes q w3"
    using f(2,3) R q(2-4) bytes d(6) by (auto simp: pool_at_def w3 owns_def init_buf_def)
  have "region_bytes m3 q = region_bytes m2 q" using f(4) qk(3) by (simp add: region_bytes_def)
  moreover have "length (window w) = nat ?k" using window_len(1) [OF at] by simp
  ultimately have "window w3 = window w @ take (nat n - nat ?k) (drop (nat ?k) (region_bytes m1 q))"
    using window_front [OF at3] m2(4) q(3) n n1 by (simp add: w3 init_buf_def)
  then show ?thesis using run at3 window_len(1) [OF at3] q(3) by (auto simp: w3 init_buf_def)
qed

text \<open>Growing through \<open>capacity(int)\<close>: in place while the region has room, else by moving.\<close>

lemma pooled_grow:
  assumes v: "pool_valid p M R bytes w" and n: "int (length (window w)) \<le> n" "n \<le> maxCap (pb_base (pw_buf w))"
  shows "\<exists>w' ext. pooled_set_capacity n w = (Ok (), w') \<and> pool_valid p M R bytes w' \<and>
    pb_base (pw_buf w') = pb_base (pw_buf w) \<and> window w' = window w @ ext \<and> int (length (window w')) = n"
proof -
  obtain own where at: "pool_at p M R bytes own w" using v by (auto simp: pool_valid_def)
  note d = pool_atD [OF at] and l = window_len [OF at] and i = idx_okD [OF pool_atD(5) [OF at]]
  let ?b = "pw_buf w"
  obtain c where c: "chunks (pw_arena w) (pb_chunk ?b) = Some c"
    using region_inside [OF d(2), of own] d(4) by (auto simp: owns_def)
  have le: "pb_length ?b \<le> n" using n(1) l(1) by simp
  consider "n = pb_length ?b" | "pb_length ?b < n" "\<not> unpooled c" "n \<le> pb_maxLength ?b"
    | "pb_length ?b < n" "unpooled c \<or> pb_maxLength ?b < n" using le by linarith
  then show ?thesis
  proof cases
    case 1
    then show ?thesis using v l(1) by (auto simp: pooled_set_capacity_def prog_simps)
  next
    case 2
    define w' where "w' = pw_buf_update (pb_length_update (\<lambda>_. n)) w"
    have run: "pooled_set_capacity n w = (Ok (), w')"
      using 2 n(2) c i by (simp add: pooled_set_capacity_def checkNewCapacity_def is_unpooled_def prog_simps w'_def)
    have "idx_ok (pb_base ?b) n" using i 2 n(2) by (simp add: idx_ok_def)
    then have at': "pool_at p M R bytes own w'"
      using d 2 by (simp add: pool_at_def owns_def w'_def)
    have "window w' = window w @ loaded (pw_mem w (pb_memory ?b)) (pb_offset ?b + pb_length ?b) (n - pb_length ?b)"
      using loaded_split [of "pb_length ?b" n "pb_offset ?b"] i 2 l(3) by (simp add: window_def w'_def)
    then show ?thesis using run at' window_len(1) [OF at'] by (auto simp: pool_valid_def w'_def)
  next
    case 3
    have "pooled_set_capacity n w = reallocate n w"
      using 3 n(2) c i by (auto simp: pooled_set_capacity_def checkNewCapacity_def is_unpooled_def prog_simps)
    then show ?thesis using reallocate_grow [OF at 3(1) n(2)] by (auto simp: pool_valid_def)
  qed
qed

section \<open>The interface\<close>

lemma pool_valid_facts:
  assumes "pool_valid p M R bytes w"
  shows "idx_ok (pb_base (pw_buf w)) (int (length (window w)))" "pb_length (pw_buf w) = int (length (window w))"
    "int (length (window w)) \<le> INT_MAX"
    "idx_ok x (int (length (window w))) \<Longrightarrow> pool_valid p M R bytes (pw_buf_update (pb_base_update (\<lambda>_. x)) w)"
proof -
  obtain own where at: "pool_at p M R bytes own w" using assms by (auto simp: pool_valid_def)
  note d = pool_atD [OF at] and l = window_len [OF at]
  show "idx_ok (pb_base (pw_buf w)) (int (length (window w)))" "pb_length (pw_buf w) = int (length (window w))"
    "int (length (window w)) \<le> INT_MAX" using d(5) l by simp_all
  assume "idx_ok x (int (length (window w)))"
  then have "pool_at p M R bytes own (pw_buf_update (pb_base_update (\<lambda>_. x)) w)"
    using d l(1) by (simp add: pool_at_def owns_def)
  then show "pool_valid p M R bytes (pw_buf_update (pb_base_update (\<lambda>_. x)) w)" by (auto simp: pool_valid_def)
qed

lemma pooled_check_run:
  "pool_valid p M R bytes w \<Longrightarrow> in_bounds i n (window w) \<Longrightarrow> pooled_check i n w = (Ok (), w)"
  using pool_valid_facts(2,3) [of p M R bytes w]
  by (simp add: pooled_check_def prog_simps checkRangeBounds_eq in_bounds_def)

lemma pool_ops_simps [simp]:
  "base pool_ops w = pb_base (pw_buf w)" "set_base pool_ops x = pw_buf_update (pb_base_update (\<lambda>_. x))"
  "v_capacity pool_ops w = pb_length (pw_buf w)" "v_set_capacity pool_ops = pooled_set_capacity"
  "v_setChars pool_ops = pooled_setChars" "v_setCharsBuf pool_ops = pooled_setCharsBuf"
  "v_setCharsSelf pool_ops = pooled_setCharsSelf" "v_getChars pool_ops = pooled_getChars"
  "p_setChar pool_ops i v = pool_store i (\<lambda>m i. HeapUtil.setChar m i v)"
  "p_setShort pool_ops i v2 = pool_store i (\<lambda>m i. HeapUtil.setShort m i v2)"
  "p_setInt pool_ops i v4 = pool_store i (\<lambda>m i. HeapUtil.setInt m i v4)"
  "p_setLong pool_ops i v8 = pool_store i (\<lambda>m i. HeapUtil.setLong m i v8)"
  "p_setChars pool_ops i bs = pool_store i (\<lambda>m i. HeapUtil.setChars m i bs)"
  "p_getChar pool_ops i = pool_load i HeapUtil.getChar" "p_getShort pool_ops i = pool_load i HeapUtil.getShort"
  "p_getInt pool_ops i = pool_load i HeapUtil.getInt" "p_getLong pool_ops i = pool_load i HeapUtil.getLong"
  "p_getString pool_ops i n = pool_load i (\<lambda>m i. HeapUtil.getString m i n)"
  by (simp_all add: pool_ops_def)

lemma pool_idx_window: "pool_valid p M R bytes w \<Longrightarrow> in_bounds i n (window w) \<Longrightarrow>
    in_bounds (pool_idx i (pw_buf w)) n (pw_mem w (pb_memory (pw_buf w))) \<and>
    loaded (pw_mem w (pb_memory (pw_buf w))) (pool_idx i (pw_buf w)) n = loaded (window w) i n"
  using window_index unfolding pool_valid_def by metis

lemma pool_idx_shift: "pool_valid p M R bytes w \<Longrightarrow> in_bounds i n (window w) \<Longrightarrow> pool_idx i (pw_buf w) = pb_offset (pw_buf w) + i"
  using window_index unfolding pool_valid_def by metis

interpretation pb: growable_char_buf pool_ops window "pool_valid p M R bytes" for p M R bytes
proof
  fix w :: pool_world and x y :: indices
  show "window (set_base pool_ops x w) = window w" by (simp add: window_def)
  assume v: "pool_valid p M R bytes w"
  show "idx_ok (base pool_ops w) (int (length (window w)))" "v_capacity pool_ops w = int (length (window w))"
    using pool_valid_facts [OF v] by simp_all
  show "pool_valid p M R bytes (set_base pool_ops x w)" if "idx_ok x (int (length (window w)))"
    using pool_valid_facts(4) [OF v that] by simp
next
  fix w :: pool_world and i n si :: int and src :: "byte list"
  assume a: "pool_valid p M R bytes w" "in_bounds i n (window w)" "in_bounds si n src"
  then have "stores pool_ops window (pool_valid p M R bytes) (pool_store i (\<lambda>m i. HeapUtil.getChars src si m i n)) i (loaded src si n) w"
    by (intro pool_store_run) (auto simp: length_loaded getChars_in_bounds)
  then show "stores pool_ops window (pool_valid p M R bytes) (v_setChars pool_ops i src si n) i (loaded src si n) w"
    using a by (simp add: pooled_setChars_def stores_def prog_simps pooled_check_run)
next
  fix w :: pool_world and i n si :: int and bs :: "byte list" and g :: getter
  assume "pool_valid p M R bytes w" "in_bounds i n (window w)" "length bs = nat n"
    "\<And>dst di. in_bounds di n dst \<Longrightarrow> g si dst di n = Ok (patch (nat di) bs dst)"
  then show "stores pool_ops window (pool_valid p M R bytes) (v_setCharsBuf pool_ops i g si n) i bs w"
    by (simp add: pooled_setCharsBuf_def, intro pool_store_run) (auto simp: in_bounds_def)
next
  fix w :: pool_world and i n si :: int
  assume a: "pool_valid p M R bytes w" "in_bounds i n (window w)" "in_bounds si n (window w)" "i + n \<le> si \<or> si + n \<le> i"
  let ?f = "\<lambda>m j. copy_within m (pool_idx si (pw_buf w)) j n"
  have "stores pool_ops window (pool_valid p M R bytes) (pool_store i ?f) i (loaded (window w) si n) w"
    using pool_idx_window [OF a(1,2)] pool_idx_window [OF a(1,3)] pool_idx_shift [OF a(1,2)] pool_idx_shift [OF a(1,3)] a
    by (intro pool_store_run) (auto simp: length_loaded copy_within_def getChars_in_bounds)
  then show "stores pool_ops window (pool_valid p M R bytes) (v_setCharsSelf pool_ops i si n) i (loaded (window w) si n) w"
    by (simp add: pooled_setCharsSelf_def stores_def prog_simps)
next
  fix w :: pool_world and i n di :: int and dst :: "byte list"
  assume a: "pool_valid p M R bytes w" "in_bounds i n (window w)" "in_bounds di n dst"
  then show "v_getChars pool_ops w i dst di n = Ok (patch (nat di) (loaded (window w) i n) dst)"
    using pool_idx_window [OF a(1,2)] by (simp add: pooled_getChars_def getChars_in_bounds)
next
  fix w :: pool_world and i n :: int
  assume v: "pool_valid p M R bytes w"
  show "in_bounds i 1 (window w) \<Longrightarrow> p_getChar pool_ops i w = (Ok (window w ! nat i), w)"
    using pool_load_run [OF v, of i 1 getChar "\<lambda>bs. bs ! 0"]
    by (auto simp: getChar_def peek_in_bounds loaded_def in_bounds_def)
  show "in_bounds i 2 (window w) \<Longrightarrow> p_getShort pool_ops i w = (Ok (dec16 (loaded (window w) i 2)), w)"
    "in_bounds i 4 (window w) \<Longrightarrow> p_getInt pool_ops i w = (Ok (dec32 (loaded (window w) i 4)), w)"
    "in_bounds i 8 (window w) \<Longrightarrow> p_getLong pool_ops i w = (Ok (dec64 (loaded (window w) i 8)), w)"
    using pool_load_run [OF v, of i 2 getShort dec16] pool_load_run [OF v, of i 4 getInt dec32] pool_load_run [OF v, of i 8 getLong dec64]
    by (simp_all add: getShort_def getInt_def getLong_def peek_in_bounds)
  show "in_bounds i n (window w) \<Longrightarrow> p_getString pool_ops i n w = (Ok (loaded (window w) i n), w)"
    using pool_load_run [OF v, of i n "\<lambda>m i. getString m i n" "\<lambda>bs. bs"] by (simp add: getString_def peek_in_bounds)
next
  fix w :: pool_world and n :: int
  assume "pool_valid p M R bytes w" "int (length (window w)) \<le> n" "n \<le> maxCap (base pool_ops w)"
  then show "\<exists>w' ext. v_set_capacity pool_ops n w = (Ok (), w') \<and> pool_valid p M R bytes w' \<and>
      base pool_ops w' = base pool_ops w \<and> window w' = window w @ ext \<and> int (length (window w')) = n"
    using pooled_grow by simp
qed (auto simp: poke_in_bounds HeapUtil.setChar_def HeapUtil.setChars_def HeapUtil.setShort_def
      HeapUtil.setInt_def HeapUtil.setLong_def intro!: pool_store_run)

section \<open>The life of a pooled buffer\<close>

lemma heapBuffer_valid:
  assumes good: "arena_good p M (pw_arena w) R" and fits: "memory_fits (pw_arena w) (pw_mem w)"
    and n: "0 < n" "n \<le> maxC" "maxC \<le> INT_MAX"
  shows "\<exists>w'. heapBuffer n maxC w = (Ok True, w') \<and> pool_valid p M R (region_bytes (pw_mem w)) w' \<and>
    pb_base (pw_buf w') = AbstractCharBuf_init maxC \<and> int (length (window w')) = n"
proof -
  define v where "v = w\<lparr>pw_buf := PooledCharBuf_new maxC\<rparr>"
  have "arena_good p M (pw_arena v) R" "memory_fits (pw_arena v) (pw_mem v)" "1 \<le> n" using good fits n by (simp_all add: v_def)
  then obtain r s m where r: "in_arena (arena_allocate n) v = (Ok r, v\<lparr>pw_arena := s, pw_mem := m\<rparr>)" "r \<notin> R" "rg_length r = n"
    "n \<le> rg_maxLength r" "arena_good p M s (insert r R)" "memory_fits s m" "\<forall>q\<in>R. m (rg_chunk q) = pw_mem v (rg_chunk q)"
    using world_acquire by metis
  define w' where "w' = v\<lparr>pw_arena := s, pw_mem := m, pw_buf := init_buf r (PooledCharBuf_new maxC)\<rparr>"
  have "heapBuffer n maxC w = (Ok True, w')"
    using n r(1) by (simp add: heapBuffer_def newHeapBuffer_def with_region_def prog_simps w'_def flip: v_def) (simp add: v_def)
  moreover have "pool_at p M R (region_bytes (pw_mem w)) r w'"
    using r n by (auto simp: pool_at_def w'_def v_def init_buf_def PooledCharBuf_new_def owns_def idx_ok_def AbstractCharBuf_init_def region_bytes_def)
  moreover have "pb_length (pw_buf w') = n" using r(3) by (simp add: w'_def init_buf_def)
  ultimately show ?thesis using window_len(1) [of p M R _ r w']
    by (auto simp: pool_valid_def w'_def init_buf_def PooledCharBuf_new_def)
qed

lemma handle_nonneg: "arena_good p M s R \<Longrightarrow> r \<in> R \<Longrightarrow> 0 \<le> rg_handle r"
  by (auto simp: arena_good_def region_fields token_handle_def split: token.split)

lemma release_returns:
  assumes "pool_valid p M R bytes w"
  shows "\<exists>w'. pooled_release 1 w = (Ok (), w') \<and> pb_refCnt (pw_buf w') = 0 \<and> arena_good p M (pw_arena w') R \<and> memory_fits (pw_arena w') (pw_mem w') \<and>
    (\<forall>r\<in>R. region_bytes (pw_mem w') r = bytes r)"
proof -
  obtain own where at: "pool_at p M R bytes own w" using assms by (auto simp: pool_valid_def)
  note d = pool_atD [OF at]
  define v where "v = pw_buf_update (pb_refCnt_update (\<lambda>_. 0)) w"
  have "arena_good p M (pw_arena v) (insert own R)" "memory_fits (pw_arena v) (pw_mem v)" using d by (simp_all add: v_def)
  then obtain s m where s: "in_arena (arena_free (rg_chunk own) (rg_handle own)) v = (Ok (), v\<lparr>pw_arena := s, pw_mem := m\<rparr>)"
    "arena_good p M s (insert own R - {own})" "memory_fits s m" "\<forall>q\<in>insert own R - {own}. m (rg_chunk q) = pw_mem v (rg_chunk q)"
    using world_release [of p M v "insert own R" own] by auto
  define w' where "w' = pw_buf_update (\<lambda>b. b\<lparr>pb_memory := 0, pb_handle := - 1, pb_chunk := 0\<rparr>) (v\<lparr>pw_arena := s, pw_mem := m\<rparr>)"
  have h: "0 \<le> rg_handle own" using handle_nonneg [OF d(2), of own] by simp
  have "pooled_release 1 w = (Ok (), w')"
    using d(4,6) h s(1) by (simp add: pooled_release_def release_count_def deallocate_def owns_def prog_simps w'_def flip: v_def) (simp add: v_def seqp_def bindp_def modify_def)
  moreover have "insert own R - {own} = R" using d(1) by simp
  ultimately show ?thesis using s d(1,7) by (auto simp: w'_def v_def region_bytes_def)
qed

text \<open>
  C4: a message is safe in pooled memory. Whatever regions are out in the arena, a message written
  into a buffer the allocator hands out is read back unchanged, with every growth of the buffer in
  place or into another region; when the buffer is released its region is back in the arena, and
  no byte of any region that was out has changed in between.
\<close>

theorem pooled_items_roundtrip:
  assumes "arena_history p M junk (pw_arena w) R" "12 \<le> p" "M \<le> 14" "p + M \<le> 30"
    and "memory_fits (pw_arena w) (pw_mem w)" "0 < n" "n \<le> maxC" "maxC \<le> INT_MAX"
    and "int (length (encode_items xs)) \<le> min maxC (2 ^ 30)"
  shows "\<exists>w1 w2 w3 w4. heapBuffer n maxC w = (Ok True, w1) \<and> write_items pool_ops xs w1 = (Ok (), w2) \<and>
    read_items pool_ops (map kind_of xs) w2 = (Ok xs, w3) \<and> content pool_ops window w3 = [] \<and>
    pooled_release 1 w3 = (Ok (), w4) \<and> arena_good p M (pw_arena w4) R \<and>
    (\<forall>r\<in>R. \<forall>v\<in>{w1, w2, w3, w4}. region_bytes (pw_mem v) r = region_bytes (pw_mem w) r)"
proof -
  let ?bytes = "region_bytes (pw_mem w)" let ?ok = "pool_valid p M R (region_bytes (pw_mem w))"
  obtain w1 where w1: "heapBuffer n maxC w = (Ok True, w1)" "?ok w1" "pb_base (pw_buf w1) = AbstractCharBuf_init maxC"
    "int (length (window w1)) = n"
    using heapBuffer_valid [OF history_good [OF assms(1-4)] assms(5-8)] by blast
  then have w1': "length (window w1) \<noteq> 0" "content pool_ops window w1 = []"
    "writerIdx (base pool_ops w1) + int (length (encode_items xs)) \<le> min (maxCap (base pool_ops w1)) (2 ^ 30)"
    using assms(6,9) by (auto simp: AbstractCharBuf_init_def content_def content_of_def loaded_def)
  obtain w2 where w2: "write_items pool_ops xs w1 = (Ok (), w2)" "?ok w2" "content pool_ops window w2 = encode_items xs @ []"
    using pb.write_items_appends [OF w1(2) w1'(1,3)] w1'(2) by auto
  obtain w3 where w3: "read_items pool_ops (map kind_of xs) w2 = (Ok xs, w3)" "?ok w3" "content pool_ops window w3 = []"
    using pb.read_items_content [OF w2(2,3)] by blast
  obtain w4 where w4: "pooled_release 1 w3 = (Ok (), w4)" "arena_good p M (pw_arena w4) R" "\<forall>r\<in>R. region_bytes (pw_mem w4) r = ?bytes r"
    using release_returns [OF w3(2)] by blast
  have "\<forall>r\<in>R. \<forall>v\<in>{w1, w2, w3}. region_bytes (pw_mem v) r = ?bytes r"
    using w1(2) w2(2) w3(2) by (auto simp: pool_valid_def pool_at_def)
  then show ?thesis using w1(1) w2(1) w3(1,3) w4 by blast
qed

text \<open>A buffer of one byte next to a region of 100 bytes.\<close>

theorem pooled_items_roundtrip_witness:
  "\<exists>w r w1 w2 w3 w4. arena_history 12 1 (\<lambda>_. 7) (pw_arena w) {r} \<and> rg_length r = 100 \<and> heapBuffer 1 64 w = (Ok True, w1) \<and>
     write_items pool_ops [IInt 7, IString [104, 105], IBool True] w1 = (Ok (), w2) \<and>
     read_items pool_ops [KInt, KString 2, KBool] w2 = (Ok [IInt 7, IString [104, 105], IBool True], w3) \<and>
     pooled_release 1 w3 = (Ok (), w4) \<and> region_bytes (pw_mem w4) r = region_bytes (pw_mem w) r"
proof -
  define w0 where "w0 = \<lparr>pw_arena = PoolArena_new (\<lambda>_. 7) (2 ^ 12) (int 1) (int 12) (2 ^ (12 + 1)), pw_mem = \<lambda>_. [],
    pw_junk = \<lambda>_. 3, pw_buf = PooledCharBuf_new 0\<rparr>"
  have h0: "arena_history 12 1 (\<lambda>_. 7) (pw_arena w0) {}" unfolding w0_def pool_world.simps by (rule arena_history.start)
  have good: "arena_good 12 1 (pw_arena w0) {}" by (rule history_good [OF h0]) simp_all
  moreover have "memory_fits (pw_arena w0) (pw_mem w0)" by (simp add: memory_fits_def w0_def PoolArena_new_def Let_def)
  ultimately obtain r s m where r: "in_arena (arena_allocate 100) w0 = (Ok r, w0\<lparr>pw_arena := s, pw_mem := m\<rparr>)" "rg_length r = 100" "memory_fits s m"
    using world_acquire [of 12 1 w0 "{}" 100] by auto
  obtain x where "arena_allocate 100 (pw_arena w0) = (Ok r, x)" "pw_arena (w0\<lparr>pw_arena := x\<rparr>) = pw_arena (w0\<lparr>pw_arena := s\<rparr>)"
    using r(1) by (cases "arena_allocate 100 (pw_arena w0)") (auto simp: in_arena_def w0_def)
  then have "arena_allocate 100 (pw_arena w0) = (Ok r, s)" by simp
  then have h: "arena_history 12 1 (\<lambda>_. 7) s {r}" using arena_history.acquire [OF h0, of 100 r s] by simp
  define w where "w = w0\<lparr>pw_arena := s, pw_mem := m\<rparr>"
  have "\<exists>w1 w2 w3 w4. heapBuffer 1 64 w = (Ok True, w1) \<and> write_items pool_ops [IInt 7, IString [104, 105], IBool True] w1 = (Ok (), w2) \<and>
    read_items pool_ops (map kind_of [IInt 7, IString [104, 105], IBool True]) w2 = (Ok [IInt 7, IString [104, 105], IBool True], w3) \<and>
    content pool_ops window w3 = [] \<and> pooled_release 1 w3 = (Ok (), w4) \<and> arena_good 12 1 (pw_arena w4) {r} \<and>
    (\<forall>u\<in>{r}. \<forall>v\<in>{w1, w2, w3, w4}. region_bytes (pw_mem v) u = region_bytes (pw_mem w) u)"
    by (rule pooled_items_roundtrip) (use h r(3) in \<open>simp_all add: w_def encode_items_def\<close>)
  moreover have "map kind_of [IInt 7, IString [104, 105], IBool True] = [KInt, KString 2, KBool]" by simp
  moreover have "arena_history 12 1 (\<lambda>_. 7) (pw_arena w) {r}" using h by (simp add: w_def)
  ultimately show ?thesis using r(2) by (metis insertCI)
qed

end
