(* ===== verification/SlicedBuf.thy ===== *)
theory SlicedBuf
  imports HeapBuf
begin

text \<open>
  Slices: \<open>AbstractUnpooledSlicedCharBuf\<close>, \<open>UnpooledSlicedCharBuf\<close>, \<open>AbstractDerivedCharBuf\<close> and
  the data operations of \<open>PooledSlicedCharBuf\<close> (all under src/common/buffer). A slice has
  indices of its own and forwards every access to the buffer it was cut from, shifted by
  \<open>adjustment_\<close>. The model works over any parent that satisfies \<open>char_buf\<close>; a slice satisfies
  \<open>char_buf\<close> again, with a window of the parent's bytes as its memory.
\<close>

section \<open>The object\<close>

record 'p sliced =
  sl_base :: indices
  adjustment :: int
  parent :: 'p

text \<open>The constructor calls \<open>writerIndex(length)\<close>, which is the only check made there.\<close>

definition new_slice :: "'p \<Rightarrow> int \<Rightarrow> int \<Rightarrow> 'p sliced outcome" where
  "new_slice p index len =
     (let i = AbstractCharBuf_init len
      in map_ok (\<lambda>_. \<lparr>sl_base = i\<lparr>writerIdx := len\<rparr>, adjustment = index, parent = p\<rparr>)
           (checkIndexBounds (readerIdx i) len (maxCap i)))"

text \<open>\<open>slice\<close> of a base buffer, and of a slice, which cuts the parent again.\<close>

definition slice :: "'p \<Rightarrow> int \<Rightarrow> int \<Rightarrow> 'p sliced outcome" where
  "slice p index len = new_slice p index len"

definition sl_capacity :: "'p sliced \<Rightarrow> int" where
  "sl_capacity s = maxCap (sl_base s)"

definition idx :: "int \<Rightarrow> 'p sliced \<Rightarrow> int" where
  "idx index s = i32 (index + adjustment s)"


definition on_parent :: "('p, 'a) prog \<Rightarrow> ('p sliced, 'a) prog" where
  "on_parent = zoom parent (\<lambda>p. parent_update (\<lambda>_. p))"

text \<open>Call a method of the parent at the shifted index.\<close>

definition forward :: "(int \<Rightarrow> ('p, 'a) prog) \<Rightarrow> int \<Rightarrow> ('p sliced, 'a) prog" where
  "forward f index = bindp (asks (idx index)) (\<lambda>i. on_parent (f i))"

definition sl_check :: "int \<Rightarrow> int \<Rightarrow> ('p sliced, unit) prog" where
  "sl_check index len = lift_outcome (\<lambda>s. checkRangeBounds index len (sl_capacity s))"

definition sl_set_capacity :: "int \<Rightarrow> ('p sliced, unit) prog" where
  "sl_set_capacity n =
     raise (RuntimeError ''Unsupported capacity(int newCapacity) in sliced buffer'')"

definition sl_setChars :: "'p vtable \<Rightarrow> int \<Rightarrow> byte list \<Rightarrow> int \<Rightarrow> int \<Rightarrow> ('p sliced, unit) prog" where
  "sl_setChars P index src srcIndex len =
     seqp (sl_check index len) (forward (\<lambda>i. v_setChars P i src srcIndex len) index)"

definition sl_setCharsBuf :: "'p vtable \<Rightarrow> int \<Rightarrow> getter \<Rightarrow> int \<Rightarrow> int \<Rightarrow> ('p sliced, unit) prog" where
  "sl_setCharsBuf P index src srcIndex len =
     seqp (sl_check index len) (forward (\<lambda>i. v_setCharsBuf P i src srcIndex len) index)"

text \<open>
  With the slice itself as the source, the parent calls back \<open>getChars\<close> of the slice, which
  checks the source range and reads from the parent's own array.
\<close>

definition sl_setCharsSelf :: "'p vtable \<Rightarrow> int \<Rightarrow> int \<Rightarrow> int \<Rightarrow> ('p sliced, unit) prog" where
  "sl_setCharsSelf P index srcIndex len =
     seqp (sl_check index len) (seqp (sl_check srcIndex len)
       (bindp (asks (idx srcIndex)) (\<lambda>si. forward (\<lambda>i. v_setCharsSelf P i si len) index)))"

definition sl_getChars :: "'p vtable \<Rightarrow> 'p sliced \<Rightarrow> getter" where
  "sl_getChars P s index dst dstIndex len =
     (case checkRangeBounds index len (sl_capacity s) of
        Ok _ \<Rightarrow> v_getChars P (parent s) (idx index s) dst dstIndex len
      | Throw e \<Rightarrow> Throw e | Hang \<Rightarrow> Hang | Undef \<Rightarrow> Undef)"

definition sliced_ops :: "'p vtable \<Rightarrow> 'p sliced vtable" where
  "sliced_ops P = \<lparr>
     base = sl_base,
     set_base = (\<lambda>i. sl_base_update (\<lambda>_. i)),
     v_capacity = sl_capacity,
     v_set_capacity = sl_set_capacity,
     v_setChars = sl_setChars P,
     v_setCharsBuf = sl_setCharsBuf P,
     v_setCharsSelf = sl_setCharsSelf P,
     v_getChars = sl_getChars P,
     p_setChar = (\<lambda>i v. forward (\<lambda>i. set_Char P i v) i),
     p_setShort = (\<lambda>i v. forward (\<lambda>i. set_Short P i v) i),
     p_setInt = (\<lambda>i v. forward (\<lambda>i. set_Int P i v) i),
     p_setLong = (\<lambda>i v. forward (\<lambda>i. set_Long P i v) i),
     p_setChars = (\<lambda>i bs. forward (\<lambda>i. v_setChars P i bs 0 (i32 (int (length bs)))) i),
     p_getChar = (\<lambda>i. forward (get_Char P) i),
     p_getShort = (\<lambda>i. forward (get_Short P) i),
     p_getInt = (\<lambda>i. forward (get_Int P) i),
     p_getLong = (\<lambda>i. forward (get_Long P) i),
     p_getString = (\<lambda>i n. forward (\<lambda>i. get_String P i n) i)\<rparr>"

text \<open>\<open>PooledSlicedCharBuf\<close> repeats the same methods; only its creation checks the range first.\<close>

definition isOutOfBounds :: "int \<Rightarrow> int \<Rightarrow> int \<Rightarrow> bool" where
  "isOutOfBounds index len capacity \<longleftrightarrow>
     (index OR len OR i32 (index + len) OR i32 (capacity - i32 (index + len))) < 0"

definition pooled_new_slice :: "'p vtable \<Rightarrow> 'p \<Rightarrow> int \<Rightarrow> int \<Rightarrow> 'p sliced outcome" where
  "pooled_new_slice P p index len =
     (if isOutOfBounds index len (v_capacity P p)
      then Throw (RuntimeError ''buffer .slice'')
      else Ok \<lparr>sl_base = (AbstractCharBuf_init 0)\<lparr>maxCap := len, writerIdx := len\<rparr>,
               adjustment = index, parent = p\<rparr>)"

definition pooled_sliced_ops :: "'p vtable \<Rightarrow> 'p sliced vtable" where
  "pooled_sliced_ops P = sliced_ops P"

definition pooled_slice :: "'p sliced \<Rightarrow> int \<Rightarrow> int \<Rightarrow> 'p sliced outcome" where
  "pooled_slice s index len =
     Throw (RuntimeError ''Unsupported slice in PooledSlicedCharBuf'')"

section \<open>Reference counts of a slice of a heap buffer\<close>

definition sl_retain :: "int \<Rightarrow> heap_buf sliced \<Rightarrow> heap_buf sliced" where
  "sl_retain n s = s\<lparr>parent := (parent s)\<lparr>refCnt := retain_count n (refCnt (parent s))\<rparr>\<rparr>"

definition sl_release :: "int \<Rightarrow> heap_buf sliced \<Rightarrow> heap_buf sliced" where
  "sl_release n s = s\<lparr>parent := (parent s)\<lparr>refCnt := fst (release_count n (refCnt (parent s)))\<rparr>\<rparr>"

definition sl_refCnt :: "heap_buf sliced \<Rightarrow> int" where
  "sl_refCnt s = refCnt (parent s)"

definition retainedSlice :: "heap_buf \<Rightarrow> int \<Rightarrow> int \<Rightarrow> heap_buf sliced outcome" where
  "retainedSlice p index len = map_ok (sl_retain 1) (slice p index len)"

section \<open>The contract\<close>

definition sl_mem :: "('p \<Rightarrow> byte list) \<Rightarrow> 'p sliced \<Rightarrow> byte list" where
  "sl_mem pmem s = loaded (pmem (parent s)) (adjustment s) (sl_capacity s)"

definition sl_valid :: "('p \<Rightarrow> byte list) \<Rightarrow> ('p \<Rightarrow> bool) \<Rightarrow> 'p sliced \<Rightarrow> bool" where
  "sl_valid pmem pvalid s \<longleftrightarrow> pvalid (parent s) \<and>
     in_bounds (adjustment s) (sl_capacity s) (pmem (parent s)) \<and>
     idx_ok (sl_base s) (sl_capacity s)"

lemma loaded_patch_window:
  assumes "in_bounds a n m" "0 \<le> i" "i + int (length bs) \<le> n"
  shows "loaded (patch (nat (a + i)) bs m) a n = patch (nat i) bs (loaded m a n)"
proof -
  have "nat (a + i) = nat a + nat i" using assms by (simp add: in_bounds_def nat_add_distrib)
  then show ?thesis using assms
    by (intro nth_equalityI)
      (auto simp: in_bounds_def loaded_def nth_patch nat_le_iff length_patch less_diff_conv2)
qed

lemma loaded_loaded:
  assumes "in_bounds a n m" "in_bounds i k (loaded m a n)"
  shows "loaded (loaded m a n) i k = loaded m (a + i) k"
  using assms length_loaded [OF assms(1)]
  by (simp add: in_bounds_def loaded_def drop_take min_def nat_add_distrib add.commute nat_le_iff
      nat_diff_distrib)

locale sliced_char_buf = par: char_buf P pmem pvalid
  for P :: "'p vtable" and pmem :: "'p \<Rightarrow> byte list" and pvalid :: "'p \<Rightarrow> bool"
begin

lemma sl_length: "sl_valid pmem pvalid s \<Longrightarrow> int (length (sl_mem pmem s)) = sl_capacity s"
  by (simp add: sl_valid_def sl_mem_def length_loaded)

text \<open>An index range of the slice, shifted, is one of the parent.\<close>

lemma sl_shift:
  assumes "sl_valid pmem pvalid s" "in_bounds i n (sl_mem pmem s)"
  shows "idx i s = adjustment s + i" "in_bounds (adjustment s + i) n (pmem (parent s))"
    "checkRangeBounds i n (sl_capacity s) = Ok ()"
    "INT_MIN \<le> adjustment s + i" "adjustment s + i \<le> INT_MAX" "INT_MIN \<le> n" "n \<le> INT_MAX"
proof -
  note p = idx_okD(10) [OF par.valid_idx, of "parent s"]
  have len: "int (length (pmem (parent s))) \<le> INT_MAX"
    using p assms(1) by (simp add: sl_valid_def)
  have "0 \<le> i" "0 \<le> n" "i + n \<le> sl_capacity s" "0 \<le> adjustment s" "0 \<le> sl_capacity s"
    "adjustment s + sl_capacity s \<le> int (length (pmem (parent s)))"
    using assms sl_length [OF assms(1)] by (simp_all add: in_bounds_def sl_valid_def)
  then show "idx i s = adjustment s + i" "in_bounds (adjustment s + i) n (pmem (parent s))"
    "checkRangeBounds i n (sl_capacity s) = Ok ()"
    "INT_MIN \<le> adjustment s + i" "adjustment s + i \<le> INT_MAX" "INT_MIN \<le> n" "n \<le> INT_MAX"
    using len by (simp_all add: idx_def in_bounds_def checkRangeBounds_eq add.commute)
qed

lemma sl_check_run:
  "sl_valid pmem pvalid s \<Longrightarrow> in_bounds i n (sl_mem pmem s) \<Longrightarrow> sl_check i n s = (Ok (), s)"
  using sl_shift(3) by (simp add: sl_check_def prog_simps)

text \<open>
  A store forwarded to the parent is a store of the slice; in the parent it changes the
  corresponding bytes and neither the indices nor any other byte.
\<close>

lemma forward_stores:
  assumes "sl_valid pmem pvalid s" "in_bounds i (int (length bs)) (sl_mem pmem s)"
    and "stores P pmem pvalid (f (adjustment s + i)) (adjustment s + i) bs (parent s)"
  shows "stores (sliced_ops P) (sl_mem pmem) (sl_valid pmem pvalid) (forward f i) i bs s"
proof -
  note sh = sl_shift [OF assms(1,2)]
  obtain p' where p': "f (adjustment s + i) (parent s) = (Ok (), p')" "pvalid p'"
    "pmem p' = patch (nat (adjustment s + i)) bs (pmem (parent s))"
    using assms(3) unfolding stores_def by blast
  let ?s = "s\<lparr>parent := p'\<rparr>"
  have run: "forward f i s = (Ok (), ?s)"
    by (simp add: forward_def prog_simps sh(1) on_parent_def p'(1))
  have win: "in_bounds (adjustment s) (sl_capacity s) (pmem (parent s))"
    using assms(1) by (simp add: sl_valid_def)
  have len: "length (pmem p') = length (pmem (parent s))"
    using sh(2) unfolding p'(3) in_bounds_def by (intro length_patch) linarith
  have "0 \<le> i" "i + int (length bs) \<le> sl_capacity s"
    using assms(2) sl_length [OF assms(1)] by (simp_all add: in_bounds_def)
  from loaded_patch_window [OF win this]
  have "sl_mem pmem ?s = patch (nat i) bs (sl_mem pmem s)"
    by (simp add: sl_mem_def sl_capacity_def p'(3))
  moreover have "sl_valid pmem pvalid ?s"
    using assms(1) p'(2) len by (simp add: sl_valid_def sl_capacity_def in_bounds_def)
  ultimately show ?thesis using run by (simp add: stores_def sliced_ops_def)
qed

lemma sl_loaded:
  assumes "sl_valid pmem pvalid s" "in_bounds i n (sl_mem pmem s)"
  shows "loaded (pmem (parent s)) (adjustment s + i) n = loaded (sl_mem pmem s) i n"
  using loaded_loaded [of "adjustment s" "sl_capacity s" "pmem (parent s)" i n] assms
  by (simp add: sl_mem_def sl_valid_def)

lemma forward_loads:
  assumes "sl_valid pmem pvalid s" "in_bounds i n (sl_mem pmem s)"
    and "f (adjustment s + i) (parent s) = (Ok v, parent s)"
  shows "forward f i s = (Ok v, s)"
  using assms(3) by (simp add: forward_def prog_simps sl_shift(1) [OF assms(1,2)] on_parent_def)

lemma par_check:
  assumes "sl_valid pmem pvalid s" "in_bounds i n (sl_mem pmem s)"
  shows "checkIndex P (adjustment s + i) n (parent s) = (Ok (), parent s)"
  using par.checkIndex_run [of "parent s" "adjustment s + i" n] sl_shift [OF assms] assms(1)
  by (simp add: sl_valid_def)

lemma par_valid: "sl_valid pmem pvalid s \<Longrightarrow> pvalid (parent s)"
  by (simp add: sl_valid_def)

lemma seqp_stores:
  "chk s = (Ok (), s) \<Longrightarrow> stores Q m v f i bs s \<Longrightarrow> stores Q m v (seqp chk f) i bs s"
  by (simp add: stores_def prog_simps)

end

lemma sliced_ops_simps [simp]:
  "base (sliced_ops P) = sl_base" "set_base (sliced_ops P) x = sl_base_update (\<lambda>_. x)"
  "v_capacity (sliced_ops P) = sl_capacity" "v_set_capacity (sliced_ops P) = sl_set_capacity"
  "v_setChars (sliced_ops P) = sl_setChars P" "v_setCharsBuf (sliced_ops P) = sl_setCharsBuf P"
  "v_setCharsSelf (sliced_ops P) = sl_setCharsSelf P" "v_getChars (sliced_ops P) = sl_getChars P"
  "p_setChar (sliced_ops P) = (\<lambda>i c. forward (\<lambda>i. set_Char P i c) i)"
  "p_setShort (sliced_ops P) = (\<lambda>i h. forward (\<lambda>i. set_Short P i h) i)"
  "p_setInt (sliced_ops P) = (\<lambda>i v. forward (\<lambda>i. set_Int P i v) i)"
  "p_setLong (sliced_ops P) = (\<lambda>i l. forward (\<lambda>i. set_Long P i l) i)"
  "p_setChars (sliced_ops P) = (\<lambda>i bs. forward (\<lambda>i. v_setChars P i bs 0 (i32 (int (length bs)))) i)"
  "p_getChar (sliced_ops P) = (\<lambda>i. forward (get_Char P) i)"
  "p_getShort (sliced_ops P) = (\<lambda>i. forward (get_Short P) i)"
  "p_getInt (sliced_ops P) = (\<lambda>i. forward (get_Int P) i)"
  "p_getLong (sliced_ops P) = (\<lambda>i. forward (get_Long P) i)"
  "p_getString (sliced_ops P) = (\<lambda>i n. forward (\<lambda>i. get_String P i n) i)"
  by (simp_all add: sliced_ops_def)

context sliced_char_buf
begin

lemma set_stores:
  assumes "sl_valid pmem pvalid s" "in_bounds i (int (length bs)) (sl_mem pmem s)"
    and "\<And>i p. pvalid p \<Longrightarrow> in_bounds i (int (length bs)) (pmem p) \<Longrightarrow> stores P pmem pvalid (st i) i bs p"
  shows "stores (sliced_ops P) (sl_mem pmem) (sl_valid pmem pvalid)
     (forward (\<lambda>i. seqp (checkIndex P i (int (length bs))) (st i)) i) i bs s"
  using sl_shift [OF assms(1,2)] par_check [OF assms(1,2)] assms(3) par_valid [OF assms(1)]
  by (intro forward_stores [OF assms(1,2)] seqp_stores) auto

lemma get_loads:
  assumes "sl_valid pmem pvalid s" "in_bounds i n (sl_mem pmem s)"
    and "\<And>i p. pvalid p \<Longrightarrow> in_bounds i n (pmem p) \<Longrightarrow> ld i p = (Ok (f (loaded (pmem p) i n)), p)"
  shows "forward (\<lambda>i. seqp (checkIndex P i n) (ld i)) i s = (Ok (f (loaded (sl_mem pmem s) i n)), s)"
  using sl_shift [OF assms(1,2)] par_check [OF assms(1,2)] par_valid [OF assms(1)]
  by (intro forward_loads [OF assms(1,2)]) (simp add: prog_simps assms(3) sl_loaded [OF assms(1,2)])

lemma loaded_one: "in_bounds i 1 m \<Longrightarrow> loaded m i 1 ! 0 = m ! nat i"
  by (subst loaded_def, subst nth_take, simp, subst nth_drop) (auto simp: in_bounds_def)

end

sublocale sliced_char_buf \<subseteq> sl: char_buf "sliced_ops P" "sl_mem pmem" "sl_valid pmem pvalid"
proof
  fix s :: "'p sliced" and x :: indices
  assume v: "sl_valid pmem pvalid s"
  show "idx_ok (base (sliced_ops P) s) (int (length (sl_mem pmem s)))"
    "v_capacity (sliced_ops P) s = int (length (sl_mem pmem s))"
    using v sl_length [OF v] by (simp_all add: sl_valid_def)
  show "sl_valid pmem pvalid (set_base (sliced_ops P) x s)"
    if "idx_ok x (int (length (sl_mem pmem s)))" "maxCap x = maxCap (base (sliced_ops P) s)"
    using v that sl_length [OF v] by (simp add: sl_valid_def sl_capacity_def)
next
  fix s :: "'p sliced" and i :: int and c :: byte
  assume "sl_valid pmem pvalid s" "in_bounds i 1 (sl_mem pmem s)"
  then show "stores (sliced_ops P) (sl_mem pmem) (sl_valid pmem pvalid)
      (p_setChar (sliced_ops P) i c) i [c] s"
    using set_stores [of s i "[c]" "\<lambda>i. p_setChar P i c"] par.setChar
    by (simp add: set_Char_def [abs_def])
next
  fix s :: "'p sliced" and i :: int and h
  assume "sl_valid pmem pvalid s" "in_bounds i 2 (sl_mem pmem s)"
  then show "stores (sliced_ops P) (sl_mem pmem) (sl_valid pmem pvalid)
      (p_setShort (sliced_ops P) i h) i (enc16 h) s"
    using set_stores [of s i "enc16 h" "\<lambda>i. p_setShort P i h"] par.setShort
    by (simp add: set_Short_def [abs_def])
next
  fix s :: "'p sliced" and i :: int and v
  assume "sl_valid pmem pvalid s" "in_bounds i 4 (sl_mem pmem s)"
  then show "stores (sliced_ops P) (sl_mem pmem) (sl_valid pmem pvalid)
      (p_setInt (sliced_ops P) i v) i (enc32 v) s"
    using set_stores [of s i "enc32 v" "\<lambda>i. p_setInt P i v"] par.setInt
    by (simp add: set_Int_def [abs_def])
next
  fix s :: "'p sliced" and i :: int and l
  assume "sl_valid pmem pvalid s" "in_bounds i 8 (sl_mem pmem s)"
  then show "stores (sliced_ops P) (sl_mem pmem) (sl_valid pmem pvalid)
      (p_setLong (sliced_ops P) i l) i (enc64 l) s"
    using set_stores [of s i "enc64 l" "\<lambda>i. p_setLong P i l"] par.setLong
    by (simp add: set_Long_def [abs_def])
next
  fix s :: "'p sliced" and i :: int and bs :: "byte list"
  assume a: "sl_valid pmem pvalid s" "in_bounds i (int (length bs)) (sl_mem pmem s)"
  note sh = sl_shift [OF a]
  have "i32 (int (length bs)) = int (length bs)" using sh(7) by simp
  moreover have "loaded bs 0 (int (length bs)) = bs" by (simp add: loaded_def)
  ultimately show "stores (sliced_ops P) (sl_mem pmem) (sl_valid pmem pvalid)
      (p_setChars (sliced_ops P) i bs) i bs s"
    using par.setChars [OF par_valid [OF a(1)] sh(2), of 0 bs] a
    by (simp add: in_bounds_def) (intro forward_stores; simp add: in_bounds_def)
next
  fix s :: "'p sliced" and i n si :: int and src :: "byte list"
  assume a: "sl_valid pmem pvalid s" "in_bounds i n (sl_mem pmem s)" "in_bounds si n src"
  have n: "int (length (loaded src si n)) = n" by (rule length_loaded [OF a(3)])
  show "stores (sliced_ops P) (sl_mem pmem) (sl_valid pmem pvalid)
      (v_setChars (sliced_ops P) i src si n) i (loaded src si n) s"
    using par.setChars [OF par_valid [OF a(1)] sl_shift(2) [OF a(1,2)] a(3)] a(2) sl_check_run [OF a(1,2)]
    by (simp add: sl_setChars_def) (intro seqp_stores forward_stores; simp add: a n)
next
  fix s :: "'p sliced" and i n si :: int and bs :: "byte list" and g :: getter
  assume a: "sl_valid pmem pvalid s" "in_bounds i n (sl_mem pmem s)" "length bs = nat n"
    "\<And>dst di. in_bounds di n dst \<Longrightarrow> g si dst di n = Ok (patch (nat di) bs dst)"
  have n: "int (length bs) = n" using a(2,3) by (simp add: in_bounds_def)
  have "stores P pmem pvalid (v_setCharsBuf P (adjustment s + i) g si n) (adjustment s + i) bs (parent s)"
    by (rule par.setCharsBuf [OF par_valid [OF a(1)] sl_shift(2) [OF a(1,2)] a(3)]) (rule a(4))
  then show "stores (sliced_ops P) (sl_mem pmem) (sl_valid pmem pvalid)
      (v_setCharsBuf (sliced_ops P) i g si n) i bs s"
    using sl_check_run [OF a(1,2)]
    by (simp add: sl_setCharsBuf_def) (intro seqp_stores forward_stores; simp only: a(1,2) n)
next
  fix s :: "'p sliced" and i n si :: int
  assume a: "sl_valid pmem pvalid s" "in_bounds i n (sl_mem pmem s)" "in_bounds si n (sl_mem pmem s)"
    "i + n \<le> si \<or> si + n \<le> i"
  let ?bs = "loaded (sl_mem pmem s) si n"
  have n: "int (length ?bs) = n" by (rule length_loaded [OF a(3)])
  have "stores P pmem pvalid (v_setCharsSelf P (adjustment s + i) (adjustment s + si) n)
      (adjustment s + i) ?bs (parent s)"
    using par.setCharsSelf [OF par_valid [OF a(1)] sl_shift(2) [OF a(1,2)] sl_shift(2) [OF a(1,3)]]
      a(4) sl_loaded [OF a(1,3)] by auto
  then have "stores (sliced_ops P) (sl_mem pmem) (sl_valid pmem pvalid)
      (forward (\<lambda>i. v_setCharsSelf P i (adjustment s + si) n) i) i ?bs s"
    by (intro forward_stores) (simp_all add: a n)
  then show "stores (sliced_ops P) (sl_mem pmem) (sl_valid pmem pvalid)
      (v_setCharsSelf (sliced_ops P) i si n) i ?bs s"
    using sl_check_run [OF a(1,2)] sl_check_run [OF a(1,3)] sl_shift(1) [OF a(1,3)]
    by (simp add: sl_setCharsSelf_def stores_def prog_simps)
next
  fix s :: "'p sliced" and i n di :: int and dst :: "byte list"
  assume a: "sl_valid pmem pvalid s" "in_bounds i n (sl_mem pmem s)" "in_bounds di n dst"
  then show "v_getChars (sliced_ops P) s i dst di n =
      Ok (patch (nat di) (loaded (sl_mem pmem s) i n) dst)"
    using par.getChars [OF par_valid [OF a(1)] sl_shift(2) [OF a(1,2)] a(3)]
    by (simp add: sl_getChars_def sl_shift [OF a(1,2)] sl_loaded [OF a(1,2)])
next
  fix s :: "'p sliced" and i :: int
  assume a: "sl_valid pmem pvalid s" "in_bounds i 1 (sl_mem pmem s)"
  have "forward (\<lambda>i. seqp (checkIndex P i 1) (p_getChar P i)) i s =
      (Ok (loaded (sl_mem pmem s) i 1 ! 0), s)"
    by (rule get_loads [OF a]) (simp add: par.getChar loaded_one)
  then show "p_getChar (sliced_ops P) i s = (Ok (sl_mem pmem s ! nat i), s)"
    by (simp add: get_Char_def [abs_def] loaded_one [OF a(2)])
next
  fix s :: "'p sliced" and i n :: int
  assume "sl_valid pmem pvalid s" "in_bounds i n (sl_mem pmem s)"
  then show "p_getString (sliced_ops P) i n s = (Ok (loaded (sl_mem pmem s) i n), s)"
    using get_loads [of s i n "\<lambda>i. p_getString P i n" "\<lambda>m. m"] par.getString
    by (simp add: get_String_def [abs_def])
qed (use get_loads [OF _ _ par.getShort] get_loads [OF _ _ par.getInt] get_loads [OF _ _ par.getLong] in
    \<open>simp_all add: sl_mem_def sl_capacity_def get_Short_def [abs_def] get_Int_def [abs_def] get_Long_def [abs_def]\<close>)

interpretation hsl: sliced_char_buf heap_ops array heap_valid ..

section \<open>Properties\<close>

lemma slice_in_bounds:
  assumes "heap_valid p" "in_bounds index len (array p)"
  shows "slice p index len =
      Ok \<lparr>sl_base = (AbstractCharBuf_init len)\<lparr>writerIdx := len\<rparr>, adjustment = index, parent = p\<rparr>"
    and "sl_valid array heap_valid
      \<lparr>sl_base = (AbstractCharBuf_init len)\<lparr>writerIdx := len\<rparr>, adjustment = index, parent = p\<rparr>"
  using assms idx_okD(10) [OF hb.valid_idx [OF assms(1)]]
  by (simp_all add: slice_def new_slice_def checkIndexBounds_def AbstractCharBuf_init_def sl_valid_def
      sl_capacity_def idx_ok_def in_bounds_def)



text \<open>
  a slice shares its memory with the buffer it was cut from: an integer stored through the
  slice is read from the parent at the shifted index, and no other byte of the parent, no
  index of the parent and no index of the slice changes.
\<close>

theorem slice_shares_memory:
  assumes "sl_valid array heap_valid s" "0 \<le> i" "i + 4 \<le> sl_capacity s"
  shows "\<exists>s'. set_Int (sliced_ops heap_ops) i v s = (Ok (), s') \<and>
    get_Int heap_ops (adjustment s + i) (parent s') = (Ok v, parent s') \<and>
    array (parent s') = patch (nat (adjustment s + i)) (enc32 v) (array (parent s)) \<and>
    hb_base (parent s') = hb_base (parent s) \<and> sl_base s' = sl_base s"
proof -
  let ?a = "adjustment s + i"
  have b: "in_bounds i 4 (sl_mem array s)"
    using assms hsl.sl_length [OF assms(1)] by (simp add: in_bounds_def)
  note sh = hsl.sl_shift [OF assms(1) b]
  note par = hsl.par_valid [OF assms(1)]
  obtain p' where p': "p_setInt heap_ops ?a v (parent s) = (Ok (), p')" "heap_valid p'"
    "base heap_ops p' = base heap_ops (parent s)" "array p' = patch (nat ?a) (enc32 v) (array (parent s))"
    using hb.setInt [OF par sh(2)] unfolding stores_def by blast
  let ?s = "s\<lparr>parent := p'\<rparr>"
  have "i \<le> INT_MAX" using sh(5) assms(1) by (simp add: sl_valid_def in_bounds_def)
  then have "checkIndex (sliced_ops heap_ops) i 4 s = (Ok (), s)"
    using hsl.sl.checkIndex_run [OF assms(1), of i 4] b assms(2) by simp
  moreover have "forward (\<lambda>i. set_Int heap_ops i v) i s = (Ok (), ?s)"
    using hsl.par_check [OF assms(1) b] p'(1) sh(1)
    by (simp add: set_Int_def prog_simps forward_def on_parent_def)
  ultimately have "set_Int (sliced_ops heap_ops) i v s = (Ok (), ?s)"
    by (simp add: set_Int_def [of "sliced_ops heap_ops"] prog_simps)
  moreover have "get_Int heap_ops ?a p' = (Ok v, p')"
  proof -
    have len: "length (array p') = length (array (parent s))"
      using sh(2) unfolding p'(4) in_bounds_def by (intro length_patch) (simp, linarith)
    then have b': "in_bounds ?a 4 (array p')" using sh(2) by (simp add: in_bounds_def)
    have "loaded (array p') ?a 4 = enc32 v"
      using sh(2) take_drop_patch_same [of "nat ?a" "enc32 v" "array (parent s)"]
      by (simp add: loaded_def p'(4) in_bounds_def) linarith
    then show ?thesis
      using hb.checkIndex_run [OF p'(2), of ?a 4] hb.getInt [OF p'(2) b'] b' sh(4,5)
      by (simp add: get_Int_def prog_simps)
  qed
  ultimately show ?thesis using p' by simp
qed

theorem slice_shares_memory_witness:
  "\<exists>s s'. sl_valid array heap_valid s \<and> set_Int (sliced_ops heap_ops) 1 42 s = (Ok (), s') \<and>
     get_Int heap_ops 3 (parent s') = (Ok 42, parent s')"
proof -
  obtain p where "UnpooledHeapCharBuf_new (\<lambda>_. 0) 8 64 = Ok p" using new_Ok by fastforce
  then have p: "heap_valid p" "int (length (array p)) = 8"
    using new_valid [of 8 64 "\<lambda>_. 0" p] by auto
  have "in_bounds 2 5 (array p)" using p by (simp add: in_bounds_def)
  from slice_shares_memory [OF slice_in_bounds(2) [OF p(1) this], of 1 42]
    slice_in_bounds(2) [OF p(1) this]
  show ?thesis by (auto simp: sl_capacity_def AbstractCharBuf_init_def)
qed

lemma safe_forward:
  assumes "chk s = (if P then Ok () else Throw e, s)" "fst (f (idx i s) (parent s)) \<notin> {Undef, Hang}"
  shows "fst (seqp chk (forward f i) s) \<notin> {Undef, Hang}"
proof -
  have "fst (forward f i s) = fst (f (idx i s) (parent s))"
    by (simp add: forward_def prog_simps on_parent_def zoom_def split: prod.split)
  then show ?thesis using assms by (cases P) (simp_all add: prog_simps)
qed

text \<open>
  \<open>slice\<close> does not check its range, but no access through a slice leaves the parent's
  array, whatever its adjustment and length: it succeeds inside the parent or throws.
\<close>

theorem slice_access_safe:
  assumes "heap_valid (parent s)" "0 \<le> sl_capacity s" "sl_capacity s \<le> INT_MAX"
    "INT_MIN \<le> i" "i \<le> INT_MAX" "INT_MIN \<le> n" "n \<le> INT_MAX"
  shows "fst (get_Int (sliced_ops heap_ops) i s) \<notin> {Undef, Hang} \<and>
    fst (set_Int (sliced_ops heap_ops) i v s) \<notin> {Undef, Hang} \<and>
    fst (get_String (sliced_ops heap_ops) i n s) \<notin> {Undef, Hang}"
proof -
  let ?a = "idx i s"
  have a: "INT_MIN \<le> ?a" "?a \<le> INT_MAX" using i32_range by (simp_all add: idx_def)
  have c: "checkIndex (sliced_ops heap_ops) i k s =
      (if 0 \<le> i \<and> 0 \<le> k \<and> i + k \<le> sl_capacity s then Ok ()
       else Throw (RuntimeError ''checkRangeBounds failed''), s)"
    if "INT_MIN \<le> k" "k \<le> INT_MAX" for k
    using that assms by (simp add: checkIndex_def prog_simps checkRangeBounds_eq)
  have p: "checkIndex heap_ops ?a k (parent s) =
      (if in_bounds ?a k (array (parent s)) then Ok ()
       else Throw (RuntimeError ''checkRangeBounds failed''), parent s)"
    if "INT_MIN \<le> k" "k \<le> INT_MAX" for k
    by (rule hb.checkIndex_run [OF assms(1) a that])
  have get: "fst (get_Int heap_ops ?a (parent s)) \<notin> {Undef, Hang}"
    using p [of 4] hb.getInt [OF assms(1), of ?a]
    by (auto simp: get_Int_def prog_simps split: if_splits)
  have set: "fst (set_Int heap_ops ?a v (parent s)) \<notin> {Undef, Hang}"
    using p [of 4] hb.setInt [OF assms(1), of ?a v]
    by (auto simp: set_Int_def prog_simps stores_def split: if_splits)
  have str: "fst (get_String heap_ops ?a n (parent s)) \<notin> {Undef, Hang}"
    using p [OF assms(6,7)] hb.getString [OF assms(1), of ?a n]
    by (auto simp: get_String_def prog_simps split: if_splits)
  show ?thesis
    unfolding get_Int_def [of "sliced_ops heap_ops"] set_Int_def [of "sliced_ops heap_ops"]
      get_String_def [of "sliced_ops heap_ops"] sliced_ops_simps
    using safe_forward [where chk = "checkIndex (sliced_ops heap_ops) i 4"
        and f = "get_Int heap_ops" and i = i and s = s, OF c get]
      safe_forward [where chk = "checkIndex (sliced_ops heap_ops) i 4"
        and f = "\<lambda>i. set_Int heap_ops i v" and i = i and s = s, OF c set]
      safe_forward [where chk = "checkIndex (sliced_ops heap_ops) i n"
        and f = "\<lambda>i. get_String heap_ops i n" and i = i and s = s, OF c str] assms(6,7)
    by simp
qed

theorem slice_access_safe_witness:
  "\<exists>s. heap_valid (parent s) \<and> adjustment s = 100 \<and> fst (get_Int (sliced_ops heap_ops) 0 s) \<notin> {Undef, Hang}"
proof -
  obtain p where "UnpooledHeapCharBuf_new (\<lambda>_. 0) 8 64 = Ok p" using new_Ok by fastforce
  then have p: "heap_valid p" using new_valid [of 8 64 "\<lambda>_. 0" p] by auto
  let ?s = "\<lparr>sl_base = AbstractCharBuf_init 5, adjustment = 100, parent = p\<rparr>"
  from slice_access_safe [of ?s 0 0 0] p show ?thesis
    by (intro exI [of _ ?s]) (simp add: sl_capacity_def AbstractCharBuf_init_def)
qed

end
