(* ===== verification/PooledSlices.thy ===== *)
theory PooledSlices
  imports PooledMemory SlicedBuf
begin

text \<open>
  The life of the slices of a pooled buffer: \<open>PooledCharBuf::retainedSlice\<close>,
  \<open>AbstractPooledDerivedCharBuf\<close> and its reference count (src/common/buffer). Every slice holds one
  reference of the buffer and gives it back when its own count reaches zero.
\<close>

section \<open>Operations\<close>

record slice_part =
  ps_base :: indices
  ps_adjustment :: int
  ps_refCnt :: int

text \<open>A buffer in its world, with the slices that were cut from it, in order.\<close>

record shared_buf =
  sh_world :: pool_world
  sh_slices :: "slice_part list"

definition unshared :: "pool_world \<Rightarrow> shared_buf" where
  "unshared w = \<lparr>sh_world = w, sh_slices = []\<rparr>"

definition retain_parent :: "int \<Rightarrow> (shared_buf, unit) prog" where
  "retain_parent n = modify (sh_world_update (pw_buf_update (pb_refCnt_update (retain_count n))))"

definition release_parent :: "int \<Rightarrow> (shared_buf, unit) prog" where
  "release_parent n = zoom sh_world (\<lambda>w s. s\<lparr>sh_world := w\<rparr>) (pooled_release n)"

text \<open>\<open>AbstractPooledDerivedCharBuf::init\<close>: the parent is retained before anything else.\<close>

definition init_derived :: "pool_world sliced \<Rightarrow> (shared_buf, nat) prog" where
  "init_derived sl = seqp (retain_parent 1) (bindp (asks (\<lambda>s. length (sh_slices s))) (\<lambda>i. seqp
     (modify (sh_slices_update (\<lambda>l. l @ [\<lparr>ps_base = sl_base sl, ps_adjustment = adjustment sl, ps_refCnt = resetRefCnt\<rparr>])))
     (ret i)))"

definition pooled_retainedSlice :: "int \<Rightarrow> int \<Rightarrow> (shared_buf, nat) prog" where
  "pooled_retainedSlice index len =
     bindp (lift_outcome (\<lambda>s. pooled_new_slice pool_ops (sh_world s) index len)) init_derived"

definition retain_slice :: "nat \<Rightarrow> int \<Rightarrow> (shared_buf, unit) prog" where
  "retain_slice i n = seqp (assertp (\<lambda>s. i < length (sh_slices s)))
     (modify (sh_slices_update (\<lambda>l. l[i := ps_refCnt_update (retain_count n) (l ! i)])))"

definition release_slice :: "nat \<Rightarrow> int \<Rightarrow> (shared_buf, unit) prog" where
  "release_slice i n = seqp (assertp (\<lambda>s. i < length (sh_slices s)))
     (bindp (asks (\<lambda>s. release_count n (ps_refCnt (sh_slices s ! i)))) (\<lambda>(cnt, dead). seqp
       (modify (sh_slices_update (\<lambda>l. l[i := (l ! i)\<lparr>ps_refCnt := cnt\<rparr>])))
       (if dead then release_parent 1 else ret ())))"

text \<open>A slice as the access operations of SlicedBuf know it.\<close>

definition slice_of :: "shared_buf \<Rightarrow> nat \<Rightarrow> pool_world sliced" where
  "slice_of s i = \<lparr>sl_base = ps_base (sh_slices s ! i), adjustment = ps_adjustment (sh_slices s ! i), parent = sh_world s\<rparr>"

section \<open>Histories\<close>

datatype share_op = Cut int int | RetainBuffer | ReleaseBuffer | RetainSlice nat | ReleaseSlice nat

fun share_step :: "share_op \<Rightarrow> (shared_buf, unit) prog" where
  "share_step (Cut index len) = seqp (pooled_retainedSlice index len) (ret ())"
| "share_step RetainBuffer = retain_parent 1"
| "share_step ReleaseBuffer = release_parent 1"
| "share_step (RetainSlice i) = retain_slice i 1"
| "share_step (ReleaseSlice i) = release_slice i 1"

text \<open>\<open>h\<close> references of the buffer itself are held; only a holder calls a method.\<close>

fun holds_it :: "nat \<Rightarrow> shared_buf \<Rightarrow> share_op \<Rightarrow> bool" where
  "holds_it h s (RetainSlice i) = (i < length (sh_slices s) \<and> 0 < ps_refCnt (sh_slices s ! i))"
| "holds_it h s (ReleaseSlice i) = (i < length (sh_slices s) \<and> 0 < ps_refCnt (sh_slices s ! i))"
| "holds_it h s _ = (0 < h)"

fun held_after :: "share_op \<Rightarrow> nat \<Rightarrow> nat" where
  "held_after RetainBuffer h = Suc h"
| "held_after ReleaseBuffer h = h - 1"
| "held_after _ h = h"

inductive share_run :: "share_op list \<Rightarrow> nat \<Rightarrow> shared_buf \<Rightarrow> nat \<Rightarrow> shared_buf \<Rightarrow> bool" where
  none: "share_run [] h s h s"
| more: "holds_it h s op \<Longrightarrow> share_step op s = (r, s1) \<Longrightarrow> share_run ops (held_after op h) s1 h' s' \<Longrightarrow>
    share_run (op # ops) h s h' s'"

inductive_cases share_run_NilE: "share_run [] h s h' s'"
inductive_cases share_run_ConsE: "share_run (op # ops) h s h' s'"

section \<open>The count of the buffer\<close>

definition held_slices :: "shared_buf \<Rightarrow> nat" where
  "held_slices s = length (filter (\<lambda>x. 0 < ps_refCnt x) (sh_slices s))"

lemma filter_update:
  "i < length xs \<Longrightarrow> length (filter P (xs[i := y])) + (if P (xs ! i) then 1 else 0) = length (filter P xs) + (if P y then 1 else 0)"
proof (induction xs arbitrary: i)
  case (Cons x xs)
  then show ?case by (cases i) auto
qed simp

text \<open>While somebody holds the buffer its region is out, with its bytes; then it is back in the arena.\<close>

definition as_one :: "pool_world \<Rightarrow> pool_world" where
  "as_one w = pw_buf_update (pb_refCnt_update (\<lambda>_. 1)) w"

definition kept :: "nat \<Rightarrow> nat \<Rightarrow> region set \<Rightarrow> (region \<Rightarrow> byte list) \<Rightarrow> byte list \<Rightarrow> nat \<Rightarrow> pool_world \<Rightarrow> bool" where
  "kept p M R bytes W c w \<longleftrightarrow> pb_refCnt (pw_buf w) = int c \<and>
     (if 0 < c then pool_valid p M R bytes (as_one w) \<and> window w = W
      else arena_good p M (pw_arena w) R \<and> (\<forall>r\<in>R. region_bytes (pw_mem w) r = bytes r))"

lemma window_count [simp]: "window (pw_buf_update (pb_refCnt_update f) w) = window w"
  by (simp add: window_def)

lemma as_one_count [simp]: "as_one (pw_buf_update (pb_refCnt_update f) w) = as_one w"
  by (simp add: as_one_def)

lemma kept_retain:
  assumes "kept p M R bytes W c w" "0 < c" "int c < INT_MAX"
  shows "kept p M R bytes W (Suc c) (pw_buf_update (pb_refCnt_update (retain_count 1)) w)"
  using assms by (simp add: kept_def retain_count_def)

lemma kept_release:
  assumes "kept p M R bytes W (Suc c) w" "int (Suc c) \<le> INT_MAX"
  shows "\<exists>w'. pooled_release 1 w = (Ok (), w') \<and> kept p M R bytes W c w'"
proof (cases c)
  case 0
  then have "pb_refCnt (pw_buf w) = 1" "pool_valid p M R bytes (as_one w)" using assms(1) by (auto simp: kept_def)
  moreover from this(1) have "as_one w = w" by (cases w; cases "pw_buf w") (auto simp: as_one_def)
  ultimately have v: "pool_valid p M R bytes w" by simp
  obtain w' where "pooled_release 1 w = (Ok (), w')" "arena_good p M (pw_arena w') R" "\<forall>r\<in>R. region_bytes (pw_mem w') r = bytes r"
    "pb_refCnt (pw_buf w') = 0"
    using release_returns [OF v] by blast
  then show ?thesis using 0 by (auto simp: kept_def)
next
  case (Suc d)
  then have "pooled_release 1 w = (Ok (), pw_buf_update (pb_refCnt_update (\<lambda>_. int c)) w)"
    using assms by (simp add: kept_def pooled_release_def release_count_def prog_simps)
  then show ?thesis using assms(1) Suc by (auto simp: kept_def)
qed


section \<open>The invariant\<close>

text \<open>\<open>k\<close> bounds every count, so that none overflows.\<close>

definition share_inv ::
  "nat \<Rightarrow> nat \<Rightarrow> region set \<Rightarrow> (region \<Rightarrow> byte list) \<Rightarrow> byte list \<Rightarrow> nat \<Rightarrow> nat \<Rightarrow> shared_buf \<Rightarrow> bool" where
  "share_inv p M R bytes W k h s \<longleftrightarrow> kept p M R bytes W (h + held_slices s) (sh_world s) \<and> h \<le> k \<and>
     length (sh_slices s) \<le> k \<and> (\<forall>x\<in>set (sh_slices s). 0 \<le> ps_refCnt x \<and> ps_refCnt x \<le> int k)"

lemma held_le: "held_slices s \<le> length (sh_slices s)"
  by (simp add: held_slices_def)

lemma held_some: "i < length (sh_slices s) \<Longrightarrow> 0 < ps_refCnt (sh_slices s ! i) \<Longrightarrow> 0 < held_slices s"
  unfolding held_slices_def by (metis filter_empty_conv length_greater_0_conv nth_mem)

lemma cut_keeps:
  assumes "share_inv p M R bytes W k h s" "0 < h" "k < 2 ^ 30"
  shows "\<exists>r s'. share_step (Cut index len) s = (r, s') \<and> r \<in> {Ok (), Throw (RuntimeError ''buffer .slice'')} \<and>
    share_inv p M R bytes W (Suc k) h s'"
proof (cases "isOutOfBounds index len (v_capacity pool_ops (sh_world s))")
  case True
  then show ?thesis using assms(1)
    by (auto simp: pooled_retainedSlice_def pooled_new_slice_def prog_simps share_inv_def)
next
  case False
  let ?x = "\<lparr>ps_base = (AbstractCharBuf_init 0)\<lparr>maxCap := len, writerIdx := len\<rparr>, ps_adjustment = index, ps_refCnt = resetRefCnt\<rparr>"
  define s' where "s' = s\<lparr>sh_world := pw_buf_update (pb_refCnt_update (retain_count 1)) (sh_world s), sh_slices := sh_slices s @ [?x]\<rparr>"
  have c: "0 < h + held_slices s" "int (h + held_slices s) < INT_MAX"
    using assms held_le [of s] by (auto simp: share_inv_def)
  have "share_step (Cut index len) s = (Ok (), s')"
    using False by (simp add: pooled_retainedSlice_def pooled_new_slice_def init_derived_def retain_parent_def prog_simps s'_def)
  moreover have "held_slices s' = Suc (held_slices s)" by (simp add: held_slices_def s'_def resetRefCnt_def)
  then have "share_inv p M R bytes W (Suc k) h s'"
    using kept_retain [OF _ c] assms(1) by (auto simp: share_inv_def s'_def resetRefCnt_def)
  ultimately show ?thesis by auto
qed

lemma buffer_keeps:
  assumes "share_inv p M R bytes W k h s" "0 < h" "k < 2 ^ 30"
  shows "\<exists>s'. share_step RetainBuffer s = (Ok (), s') \<and> share_inv p M R bytes W (Suc k) (Suc h) s'"
    and "\<exists>s'. share_step ReleaseBuffer s = (Ok (), s') \<and> share_inv p M R bytes W (Suc k) (h - 1) s'"
proof -
  have c: "0 < h + held_slices s" "int (h + held_slices s) < INT_MAX"
    using assms held_le [of s] by (auto simp: share_inv_def)
  show "\<exists>s'. share_step RetainBuffer s = (Ok (), s') \<and> share_inv p M R bytes W (Suc k) (Suc h) s'"
    using kept_retain [OF _ c] assms(1) by (auto simp: retain_parent_def modify_run share_inv_def held_slices_def)
  have "kept p M R bytes W (Suc (h - 1 + held_slices s)) (sh_world s)" using assms(1,2) by (simp add: share_inv_def)
  then obtain w where "pooled_release 1 (sh_world s) = (Ok (), w)" "kept p M R bytes W (h - 1 + held_slices s) w"
    using kept_release [of p M R bytes W "h - 1 + held_slices s"] c(2) assms(2) by fastforce
  then show "\<exists>s'. share_step ReleaseBuffer s = (Ok (), s') \<and> share_inv p M R bytes W (Suc k) (h - 1) s'"
    using assms(1) by (auto simp: release_parent_def zoom_def share_inv_def held_slices_def)
qed

lemma set_update_ok: "\<forall>x\<in>set xs. P x \<Longrightarrow> P y \<Longrightarrow> \<forall>x\<in>set (xs[i := y]). P x"
  using set_update_subset_insert [of xs i y] by blast

lemma slice_keeps:
  assumes "share_inv p M R bytes W k h s" "i < length (sh_slices s)" "0 < ps_refCnt (sh_slices s ! i)" "k < 2 ^ 30"
  shows "\<exists>s'. share_step (RetainSlice i) s = (Ok (), s') \<and> share_inv p M R bytes W (Suc k) h s'"
    and "\<exists>s'. share_step (ReleaseSlice i) s = (Ok (), s') \<and> share_inv p M R bytes W (Suc k) h s'"
proof -
  let ?x = "sh_slices s ! i"
  let ?upd = "\<lambda>c. s\<lparr>sh_slices := (sh_slices s)[i := ?x\<lparr>ps_refCnt := c\<rparr>]\<rparr>"
  have x: "0 < ps_refCnt ?x" "ps_refCnt ?x \<le> int k" using assms(1-3) by (auto simp: share_inv_def)
  have all: "\<forall>x\<in>set (sh_slices s). 0 \<le> ps_refCnt x \<and> ps_refCnt x \<le> int (Suc k)" using assms(1) by (auto simp: share_inv_def)
  have held: "held_slices (?upd c) + 1 = held_slices s + (if 0 < c then 1 else 0)" for c
    using filter_update [of i "sh_slices s" "\<lambda>x. 0 < ps_refCnt x" "?x\<lparr>ps_refCnt := c\<rparr>"] assms(2) x(1) by (simp add: held_slices_def)
  have inv: "share_inv p M R bytes W (Suc k) h (?upd c)" if "0 < c" "c \<le> int (Suc k)" for c
  proof -
    have "held_slices (?upd c) = held_slices s" using held [of c] that(1) by simp
    moreover have "\<forall>x\<in>set ((sh_slices s)[i := ?x\<lparr>ps_refCnt := c\<rparr>]). 0 \<le> ps_refCnt x \<and> ps_refCnt x \<le> int (Suc k)"
      by (rule set_update_ok [OF all]) (use that in simp)
    ultimately show ?thesis using assms(1) by (simp add: share_inv_def)
  qed
  have "retain_count 1 (ps_refCnt ?x) = ps_refCnt ?x + 1" using x assms(4) by (simp add: retain_count_def)
  then have "share_step (RetainSlice i) s = (Ok (), ?upd (ps_refCnt ?x + 1))"
    using assms(2) by (simp add: retain_slice_def prog_simps) (cases ?x; simp)
  then show "\<exists>s'. share_step (RetainSlice i) s = (Ok (), s') \<and> share_inv p M R bytes W (Suc k) h s'"
    using inv [of "ps_refCnt ?x + 1"] x by auto
  have rc: "release_count 1 (ps_refCnt ?x) = (ps_refCnt ?x - 1, ps_refCnt ?x = 1)"
    using x assms(4) by (auto simp: release_count_def)
  show "\<exists>s'. share_step (ReleaseSlice i) s = (Ok (), s') \<and> share_inv p M R bytes W (Suc k) h s'"
  proof (cases "ps_refCnt ?x = 1")
    case True
    have n: "held_slices s = Suc (held_slices (?upd 0))" using held [of 0] by simp
    then have "kept p M R bytes W (Suc (h + held_slices (?upd 0))) (sh_world s)" using assms(1) by (simp add: share_inv_def)
    moreover have "int (Suc (h + held_slices (?upd 0))) \<le> INT_MAX" using n held_le [of s] assms(1,4) by (simp add: share_inv_def)
    ultimately obtain w where w: "pooled_release 1 (sh_world s) = (Ok (), w)" "kept p M R bytes W (h + held_slices (?upd 0)) w"
      using kept_release by blast
    have "\<forall>x\<in>set ((sh_slices s)[i := ?x\<lparr>ps_refCnt := 0\<rparr>]). 0 \<le> ps_refCnt x \<and> ps_refCnt x \<le> int (Suc k)"
      by (rule set_update_ok [OF all]) simp
    then have "share_inv p M R bytes W (Suc k) h ((?upd 0)\<lparr>sh_world := w\<rparr>)"
      using w(2) assms(1) by (simp add: share_inv_def held_slices_def)
    moreover have "share_step (ReleaseSlice i) s = (Ok (), (?upd 0)\<lparr>sh_world := w\<rparr>)"
      using True rc assms(2) w(1) by (simp add: release_slice_def prog_simps release_parent_def zoom_def)
    ultimately show ?thesis by blast
  next
    case False
    then have "share_step (ReleaseSlice i) s = (Ok (), ?upd (ps_refCnt ?x - 1))"
      using rc assms(2) by (simp add: release_slice_def prog_simps)
    then show ?thesis using inv [of "ps_refCnt ?x - 1"] x False by auto
  qed
qed


lemma share_step_keeps:
  assumes "share_inv p M R bytes W k h s" "holds_it h s op" "k < 2 ^ 30"
  shows "\<exists>r s'. share_step op s = (r, s') \<and> (r = Ok () \<or> r = Throw (RuntimeError ''buffer .slice'') \<and> (\<exists>i n. op = Cut i n)) \<and>
    share_inv p M R bytes W (Suc k) (held_after op h) s'"
proof (cases op)
  case (Cut index len)
  then have "0 < h" "held_after op h = h" using assms(2) by simp_all
  then show ?thesis using cut_keeps [OF assms(1) _ assms(3), of index len] Cut by fastforce
next
  case RetainBuffer
  then show ?thesis using buffer_keeps(1) [OF assms(1) _ assms(3)] assms(2) by fastforce
next
  case ReleaseBuffer
  then show ?thesis using buffer_keeps(2) [OF assms(1) _ assms(3)] assms(2) by fastforce
next
  case (RetainSlice i)
  then show ?thesis using slice_keeps(1) [OF assms(1) _ _ assms(3), of i] assms(2) by fastforce
next
  case (ReleaseSlice i)
  then show ?thesis using slice_keeps(2) [OF assms(1) _ _ assms(3), of i] assms(2) by fastforce
qed

lemma share_run_keeps:
  "share_run ops h s h' s' \<Longrightarrow> share_inv p M R bytes W k h s \<Longrightarrow> k + length ops \<le> 2 ^ 30 \<Longrightarrow>
   share_inv p M R bytes W (k + length ops) h' s'"
proof (induction arbitrary: k rule: share_run.induct)
  case (more h s op r s1 ops h' s')
  then have "share_inv p M R bytes W (Suc k) (held_after op h) s1"
    using share_step_keeps [OF more.prems(1) more.hyps(1)] by fastforce
  then show ?case using more.IH [of "Suc k"] more.prems(2) by simp
qed simp

lemma share_start:
  assumes "pool_valid p M R bytes w"
  shows "share_inv p M R bytes (window w) 1 1 (unshared w)"
proof -
  have r: "pb_refCnt (pw_buf w) = 1" using assms by (auto simp: pool_valid_def pool_at_def)
  then have "as_one w = w" by (cases w; cases "pw_buf w") (auto simp: as_one_def)
  then show ?thesis using r assms by (simp add: share_inv_def unshared_def held_slices_def kept_def)
qed

section \<open>Property\<close>

text \<open>
  C11: a pooled buffer and the slices retained from it may be retained and released in any order: no call by a
  holder fails (a slice outside the buffer is refused by an exception), the bytes of the buffer stay
  in place as long as anybody holds the buffer or a slice, whoever was first, and with the last
  reference its region goes back to the arena; other regions keep their bytes throughout.
\<close>

theorem slices_keep_memory:
  assumes "pool_valid p M R bytes w" "share_run ops 1 (unshared w) h s" "length ops + 1 < 2 ^ 30"
  shows "(if 0 < h \<or> (\<exists>x\<in>set (sh_slices s). 0 < ps_refCnt x)
     then \<exists>own. own \<notin> R \<and> arena_good p M (pw_arena (sh_world s)) (insert own R) \<and> owns (pw_buf (sh_world s)) own \<and>
       window (sh_world s) = window w
     else arena_good p M (pw_arena (sh_world s)) R) \<and>
    (\<forall>r\<in>R. region_bytes (pw_mem (sh_world s)) r = bytes r) \<and>
    (\<forall>op. holds_it h s op \<longrightarrow> fst (share_step op s) = Ok () \<or>
       fst (share_step op s) = Throw (RuntimeError ''buffer .slice'') \<and> (\<exists>i n. op = Cut i n))"
proof -
  have inv: "share_inv p M R bytes (window w) (1 + length ops) h s"
    using share_run_keeps [OF assms(2) share_start [OF assms(1)]] assms(3) by simp
  have k: "kept p M R bytes (window w) (h + held_slices s) (sh_world s)" using inv by (simp add: share_inv_def)
  have held: "0 < h + held_slices s \<longleftrightarrow> 0 < h \<or> (\<exists>x\<in>set (sh_slices s). 0 < ps_refCnt x)"
    by (auto simp: held_slices_def filter_empty_conv)
  have one: "pool_valid p M R bytes (as_one (sh_world s)) \<Longrightarrow> \<exists>own. own \<notin> R \<and> arena_good p M (pw_arena (sh_world s)) (insert own R) \<and>
      owns (pw_buf (sh_world s)) own \<and> (\<forall>r\<in>R. region_bytes (pw_mem (sh_world s)) r = bytes r)"
    by (auto simp: pool_valid_def pool_at_def as_one_def owns_def)
  have "fst (share_step op s) = Ok () \<or> fst (share_step op s) = Throw (RuntimeError ''buffer .slice'') \<and> (\<exists>i n. op = Cut i n)"
    if "holds_it h s op" for op
    using share_step_keeps [OF inv that] assms(3) by fastforce
  then show ?thesis using k one held by (cases "0 < h + held_slices s") (auto simp: kept_def)
qed

text \<open>The buffer is released before its slice, which was retained once more.\<close>

theorem slices_keep_memory_witness:
  "\<exists>w w1 s s'. heapBuffer 8 64 w = (Ok True, w1) \<and>
     share_run [Cut 2 4, RetainSlice 0, ReleaseBuffer, ReleaseSlice 0] 1 (unshared w1) 0 s \<and> window (sh_world s) = window w1 \<and>
     share_run [Cut 2 4, RetainSlice 0, ReleaseBuffer, ReleaseSlice 0, ReleaseSlice 0] 1 (unshared w1) 0 s' \<and>
     arena_good 12 1 (pw_arena (sh_world s')) {}"
proof -
  define w0 where "w0 = \<lparr>pw_arena = PoolArena_new (\<lambda>_. 7) (2 ^ 12) (int 1) (int 12) (2 ^ (12 + 1)), pw_mem = \<lambda>_. [],
    pw_junk = \<lambda>_. 3, pw_buf = PooledCharBuf_new 0\<rparr>"
  have h0: "arena_history 12 1 (\<lambda>_. 7) (pw_arena w0) {}" unfolding w0_def pool_world.simps by (rule arena_history.start)
  have good: "arena_good 12 1 (pw_arena w0) {}" by (rule history_good [OF h0]) simp_all
  moreover have "memory_fits (pw_arena w0) (pw_mem w0)" by (simp add: memory_fits_def w0_def PoolArena_new_def Let_def)
  ultimately obtain w1 where w1: "heapBuffer 8 64 w0 = (Ok True, w1)" "pool_valid 12 1 {} (region_bytes (pw_mem w0)) w1"
    "int (length (window w1)) = 8"
    using heapBuffer_valid [of 12 1 w0 "{}" 8 64] by auto
  have c: "pb_refCnt (pw_buf w1) = 1" "pb_length (pw_buf w1) = 8"
    using w1(2,3) window_len(1) [of 12 1 "{}" "region_bytes (pw_mem w0)" _ w1] by (auto simp: pool_valid_def pool_at_def)
  define x where "x n = \<lparr>ps_base = (AbstractCharBuf_init 0)\<lparr>maxCap := 4, writerIdx := 4\<rparr>, ps_adjustment = 2, ps_refCnt = n\<rparr>" for n
  define st where "st k n = \<lparr>sh_world = pw_buf_update (pb_refCnt_update (\<lambda>_. k)) w1, sh_slices = [x n]\<rparr>" for k n
  have s1: "share_step (Cut 2 4) (unshared w1) = (Ok (), st 2 1)"
    using c by (simp add: pooled_retainedSlice_def pooled_new_slice_def isOutOfBounds_def init_derived_def retain_parent_def prog_simps
        st_def x_def unshared_def retain_count_def resetRefCnt_def)
  have s2: "share_step (RetainSlice 0) (st 2 1) = (Ok (), st 2 2)"
    by (simp add: retain_slice_def prog_simps st_def x_def retain_count_def)
  have s3: "share_step ReleaseBuffer (st 2 2) = (Ok (), st 1 2)"
    by (simp add: release_parent_def zoom_def pooled_release_def release_count_def prog_simps st_def)
  have s4: "share_step (ReleaseSlice 0) (st 1 2) = (Ok (), st 1 1)"
    by (simp add: release_slice_def release_count_def prog_simps st_def x_def)
  obtain r s' where s5: "share_step (ReleaseSlice 0) (st 1 1) = (r, s')" by fastforce
  have "sh_slices s' = [x 0]"
    using s5 by (auto simp: release_slice_def release_count_def prog_simps release_parent_def zoom_def st_def x_def split: prod.splits)
  note last = this
  note run = share_run.more [OF _ s1 share_run.more [OF _ s2 share_run.more [OF _ s3 share_run.more [OF _ s4]]]]
  have r4: "share_run [Cut 2 4, RetainSlice 0, ReleaseBuffer, ReleaseSlice 0] 1 (unshared w1) 0 (st 1 1)"
    by (rule run) (simp_all add: st_def x_def share_run.none)
  have r5: "share_run [Cut 2 4, RetainSlice 0, ReleaseBuffer, ReleaseSlice 0, ReleaseSlice 0] 1 (unshared w1) 0 s'"
    by (rule run, simp_all add: st_def x_def) (rule share_run.more [OF _ s5 [unfolded st_def x_def]], simp_all add: share_run.none)
  have "window (sh_world (st 1 1)) = window w1"
    using slices_keep_memory [OF w1(2) r4] by (auto simp: st_def x_def)
  moreover have "arena_good 12 1 (pw_arena (sh_world s')) {}"
    using slices_keep_memory [OF w1(2) r5] last by (auto simp: x_def)
  ultimately show ?thesis using w1(1) r4 r5 by blast
qed

end
