(* ===== verification/ObjectQueue.thy ===== *)
theory ObjectQueue
  imports Prelude
begin

text \<open>
  \<open>ObjectQueue\<close> (src/include/ObjectQueue.hpp): a singly linked queue of heap-allocated items. Items
  live at addresses, 0 is the null pointer. Every operation holds the mutex; while a \<open>take\<close> waits on
  the condition variable the mutex is free and other threads change the queue, which is a
  parameter of the operations that wait.
\<close>

section \<open>State\<close>

record 'a item =
  it_data :: 'a
  it_next :: nat

record 'a queue =
  q_items :: "nat \<Rightarrow> 'a item"
  q_live :: "nat set"
  q_fresh :: nat
  q_head :: nat
  q_tail :: nat
  q_size :: int

definition ObjectQueue_new :: "'a item \<Rightarrow> 'a queue" where
  "ObjectQueue_new junk = \<lparr>q_items = (\<lambda>_. junk), q_live = {}, q_fresh = 1, q_head = 0, q_tail = 0, q_size = 0\<rparr>"

definition get_item :: "nat \<Rightarrow> ('a queue, 'a item) prog" where
  "get_item a s = (if a \<in> q_live s then Ok (q_items s a) else Undef, s)"

definition new_item :: "'a \<Rightarrow> ('a queue, nat) prog" where
  "new_item x s = (Ok (q_fresh s),
     s\<lparr>q_items := (q_items s)(q_fresh s := \<lparr>it_data = x, it_next = 0\<rparr>), q_live := insert (q_fresh s) (q_live s),
       q_fresh := Suc (q_fresh s)\<rparr>)"

definition set_next :: "nat \<Rightarrow> nat \<Rightarrow> ('a queue, unit) prog" where
  "set_next a b s = (if a \<in> q_live s then (Ok (), s\<lparr>q_items := (q_items s)(a := (q_items s a)\<lparr>it_next := b\<rparr>)\<rparr>)
                     else (Undef, s))"

definition delete_item :: "nat \<Rightarrow> ('a queue, unit) prog" where
  "delete_item a s = (if a \<in> q_live s then (Ok (), s\<lparr>q_live := q_live s - {a}\<rparr>) else (Undef, s))"

section \<open>Adding\<close>

text \<open>A failed \<open>BOOST_VERIFY\<close> is undefined.\<close>

definition addItem :: "nat \<Rightarrow> ('a queue, unit) prog" where
  "addItem p = seqp
     (ifp (\<lambda>s. q_head s = 0)
        (doM [assertp (\<lambda>s. q_size s = 0), modify (\<lambda>s. s\<lparr>q_head := p, q_tail := p\<rparr>)])
        (doM [assertp (\<lambda>s. q_size s > 0 \<and> q_tail s \<noteq> 0),
              bindp (asks q_tail) (\<lambda>t. set_next t p),
              modify (q_tail_update (\<lambda>_. p))]))
     (modify (\<lambda>s. s\<lparr>q_size := i32 (q_size s + 1)\<rparr>))"

definition add_one :: "'a \<Rightarrow> ('a queue, unit) prog" where
  "add_one x = bindp (new_item x) addItem"

definition queue_add :: "'a \<Rightarrow> ('a queue, int) prog" where
  "queue_add x = seqp (add_one x) (asks q_size)"

definition queue_addAll :: "'a list \<Rightarrow> ('a queue, int) prog" where
  "queue_addAll xs = seqp (doM (map add_one xs)) (asks q_size)"

section \<open>Taking\<close>

text \<open>\<open>W\<close> is what the other threads do while this one waits.\<close>

definition await :: "('a queue \<Rightarrow> 'a queue) \<Rightarrow> int \<Rightarrow> ('a queue, unit) prog" where
  "await W timeout = modify (\<lambda>s. if q_size s \<le> 0 \<and> timeout \<noteq> 0 then W s else s)"

definition pop_front :: "('a queue, 'a) prog" where
  "pop_front = bindp (asks q_head) (\<lambda>h. bindp (get_item h) (\<lambda>x. seqp
     (doM [delete_item h, modify (q_head_update (\<lambda>_. it_next x)), modify (\<lambda>s. s\<lparr>q_size := i32 (q_size s - 1)\<rparr>)])
     (ret (it_data x))))"

text \<open>\<open>d\<close> is the default value of the element type, which an empty queue gives.\<close>

definition queue_take :: "'a \<Rightarrow> ('a queue \<Rightarrow> 'a queue) \<Rightarrow> int \<Rightarrow> ('a queue, 'a) prog" where
  "queue_take d W timeout = seqp (await W timeout) (ifp (\<lambda>s. q_size s \<le> 0) (ret d) pop_front)"

fun drain :: "nat \<Rightarrow> ('a queue, 'a list) prog" where
  "drain 0 = ret []"
| "drain (Suc n) = seqp (assertp (\<lambda>s. q_head s \<noteq> 0 \<and> q_size s > 0))
     (bindp pop_front (\<lambda>x. bindp (drain n) (\<lambda>xs. ret (x # xs))))"

definition queue_takeAll :: "('a queue \<Rightarrow> 'a queue) \<Rightarrow> int \<Rightarrow> int \<Rightarrow> ('a queue, 'a list) prog" where
  "queue_takeAll W drain_num timeout = seqp (await W timeout)
     (ifp (\<lambda>s. q_size s \<le> 0) (ret [])
       (bindp (asks q_size) (\<lambda>n.
         drain (nat (if drain_num \<le> 0 then n else if drain_num < n then drain_num else n)))))"

definition queue_peek :: "'a \<Rightarrow> ('a queue, 'a) prog" where
  "queue_peek d = ifp (\<lambda>s. q_size s \<le> 0) (ret d)
     (seqp (assertp (\<lambda>s. q_head s \<noteq> 0)) (bindp (asks q_head) (\<lambda>h. bindp (get_item h) (\<lambda>x. ret (it_data x)))))"

partial_function (option) clear_loop :: "'a queue \<Rightarrow> (unit outcome \<times> 'a queue) option" where
  "clear_loop s =
     (if q_head s = 0 then Some (Ok (), s)
      else case pop_front s of
          (Ok _, s') \<Rightarrow> clear_loop s'
        | (Throw e, s') \<Rightarrow> Some (Throw e, s') | (Hang, s') \<Rightarrow> Some (Hang, s') | (Undef, s') \<Rightarrow> Some (Undef, s'))"

definition queue_clear :: "('a queue, unit) prog" where
  "queue_clear = seqp (\<lambda>s. case clear_loop s of None \<Rightarrow> (Hang, s) | Some r \<Rightarrow> r) (assertp (\<lambda>s. q_size s = 0))"

section \<open>The contract: a list\<close>

fun chained :: "(nat \<Rightarrow> nat) \<Rightarrow> nat list \<Rightarrow> bool" where
  "chained nxt [] = True"
| "chained nxt [a] = (nxt a = 0)"
| "chained nxt (a # b # as) = (nxt a = b \<and> chained nxt (b # as))"

abbreviation next_of :: "'a queue \<Rightarrow> nat \<Rightarrow> nat" where "next_of s \<equiv> \<lambda>a. it_next (q_items s a)"

definition wf_queue :: "'a queue \<Rightarrow> nat list \<Rightarrow> bool" where
  "wf_queue s as \<longleftrightarrow> distinct as \<and> 0 \<notin> set as \<and> q_live s = set as \<and> chained (next_of s) as \<and>
     q_head s = (if as = [] then 0 else hd as) \<and> (as \<noteq> [] \<longrightarrow> q_tail s = last as) \<and>
     q_size s = int (length as) \<and> int (length as) \<le> INT_MAX \<and> (\<forall>a\<in>set as. a < q_fresh s) \<and> 0 < q_fresh s"

definition queue_is :: "'a queue \<Rightarrow> 'a list \<Rightarrow> bool" where
  "queue_is s xs \<longleftrightarrow> (\<exists>as. wf_queue s as \<and> map (\<lambda>a. it_data (q_items s a)) as = xs)"

lemma queue_is_new: "queue_is (ObjectQueue_new junk) []"
  by (simp add: queue_is_def wf_queue_def ObjectQueue_new_def)

lemma queue_is_size: "queue_is s xs \<Longrightarrow> q_size s = int (length xs) \<and> int (length xs) \<le> INT_MAX"
  by (auto simp: queue_is_def wf_queue_def)

lemma queue_is_head: "queue_is s xs \<Longrightarrow> q_head s = 0 \<longleftrightarrow> xs = []"
  by (auto simp: queue_is_def wf_queue_def) (metis list.set_sel(1))

lemma chained_snoc:
  "chained f (as @ [a]) \<Longrightarrow> g b = 0 \<Longrightarrow> g a = b \<Longrightarrow> \<forall>x\<in>set as. g x = f x \<Longrightarrow> chained g (as @ [a, b])"
proof (induction as)
  case (Cons c as)
  then show ?case by (cases as) auto
qed simp

lemma add_one_run:
  assumes "queue_is s xs" "int (length xs) < INT_MAX"
  shows "\<exists>s'. add_one x s = (Ok (), s') \<and> queue_is s' (xs @ [x])"
proof -
  obtain as where a: "wf_queue s as" "map (\<lambda>a. it_data (q_items s a)) as = xs" using assms(1) by (auto simp: queue_is_def)
  note w = a(1)[unfolded wf_queue_def]
  let ?p = "q_fresh s"
  have p: "?p \<notin> set as" "?p \<noteq> 0" using w by auto
  have len: "length as = length xs" using arg_cong [OF a(2), of length] by simp
  define s1 where "s1 = s\<lparr>q_items := (q_items s)(?p := \<lparr>it_data = x, it_next = 0\<rparr>), q_live := insert ?p (q_live s),
       q_fresh := Suc ?p\<rparr>"
  have n: "new_item x s = (Ok ?p, s1)" by (simp add: new_item_def s1_def)
  show ?thesis
  proof (cases "as = []")
    case True
    define s' where "s' = s1\<lparr>q_head := ?p, q_tail := ?p, q_size := 1\<rparr>"
    have "add_one x s = (Ok (), s')"
      using True w by (simp add: add_one_def bindp_def n addItem_def seqp_def ifp_run assertp_run modify_run s1_def s'_def)
    moreover have "wf_queue s' [?p]" using True w p by (simp add: wf_queue_def s'_def s1_def)
    ultimately show ?thesis using True a(2) by (intro exI [of _ s']) (auto simp: queue_is_def s'_def s1_def intro!: exI [of _ "[?p]"])
  next
    case False
    then obtain bs b where as: "as = bs @ [b]" by (metis rev_exhaust)
    have b: "b \<noteq> ?p" "b \<in> q_live s1" "b \<noteq> 0" using p as w by (auto simp: s1_def)
    define s' where "s' = s1\<lparr>q_items := (q_items s1)(b := (q_items s1 b)\<lparr>it_next := ?p\<rparr>), q_tail := ?p, q_size := q_size s + 1\<rparr>"
    have h0: "q_head s \<noteq> 0" using w False by (cases as) auto
    have "i32 (q_size s + 1) = q_size s + 1" using w len assms(2) by (intro i32_id) simp_all
    then have run: "add_one x s = (Ok (), s')"
      using h0 False w b as len by (simp add: add_one_def bindp_def n addItem_def seqp_def ifp_run assertp_run modify_run asks_run
          set_next_def s1_def s'_def)
    have "chained (next_of s') (bs @ [b, ?p])"
    proof (rule chained_snoc)
      show "chained (next_of s) (bs @ [b])" using w as by simp
      show "\<forall>x\<in>set bs. next_of s' x = next_of s x" using w as p by (auto simp: s'_def s1_def)
    qed (use b(1) in \<open>simp_all add: s'_def s1_def\<close>)
    moreover have "bs @ [b, ?p] = as @ [?p]" using as by simp
    moreover have "q_live s' = insert ?p (set as)" "q_head s' = q_head s" "q_tail s' = ?p" "q_size s' = q_size s + 1"
      "q_fresh s' = Suc ?p" using w by (simp_all add: s'_def s1_def)
    ultimately have "wf_queue s' (as @ [?p])" using w p False assms(2) len by (auto simp: wf_queue_def)
    moreover have "map (\<lambda>a. it_data (q_items s' a)) (as @ [?p]) = xs @ [x]"
      using a(2) p b by (auto simp: s'_def s1_def)
    ultimately show ?thesis using run unfolding queue_is_def by blast
  qed
qed

lemma chained_tl: "chained f (a # as) \<Longrightarrow> chained f as \<and> f a = (if as = [] then 0 else hd as)"
  by (cases as) auto

lemma pop_front_run:
  assumes "queue_is s (x # xs)"
  shows "\<exists>s'. pop_front s = (Ok x, s') \<and> queue_is s' xs"
proof -
  obtain a as where a: "wf_queue s (a # as)" "it_data (q_items s a) = x" "map (\<lambda>a. it_data (q_items s a)) as = xs"
    using assms by (auto simp: queue_is_def map_eq_Cons_conv)
  note w = a(1)[unfolded wf_queue_def]
  define s' where "s' = s\<lparr>q_live := q_live s - {a}, q_head := it_next (q_items s a), q_size := i32 (q_size s - 1)\<rparr>"
  have "pop_front s = (Ok x, s')"
    using w a(2) by (simp add: pop_front_def seqp_def bindp_def asks_run get_item_def delete_item_def modify_run ret_run s'_def)
  moreover have "wf_queue s' as" using w chained_tl [of "next_of s" a as] by (auto simp: wf_queue_def s'_def)
  moreover have "map (\<lambda>a. it_data (q_items s' a)) as = xs" using a(3) by (simp add: s'_def)
  ultimately show ?thesis by (auto simp: queue_is_def)
qed

lemma queue_adds_run:
  "queue_is s xs \<Longrightarrow> int (length xs + length ys) < INT_MAX \<Longrightarrow>
   \<exists>s'. doM (map add_one ys) s = (Ok (), s') \<and> queue_is s' (xs @ ys)"
proof (induction ys arbitrary: s xs)
  case (Cons y ys)
  obtain s1 where s1: "add_one y s = (Ok (), s1)" "queue_is s1 (xs @ [y])"
    using add_one_run [OF Cons.prems(1), of y] Cons.prems(2) by auto
  then show ?case using Cons.IH [OF s1(2)] Cons.prems(2) by (simp add: doM_Ok)
qed (auto simp: ret_run)

lemma drain_run:
  "queue_is s (xs @ ys) \<Longrightarrow> \<exists>s'. drain (length xs) s = (Ok xs, s') \<and> queue_is s' ys"
proof (induction xs arbitrary: s)
  case (Cons x xs)
  then obtain s1 where s1: "pop_front s = (Ok x, s1)" "queue_is s1 (xs @ ys)" using pop_front_run [of s x "xs @ ys"] by auto
  obtain s2 where s2: "drain (length xs) s1 = (Ok xs, s2)" "queue_is s2 ys" using Cons.IH [OF s1(2)] by blast
  have "q_head s \<noteq> 0" "q_size s > 0" using Cons.prems queue_is_head queue_is_size by fastforce+
  then have "drain (length (x # xs)) s = (Ok (x # xs), s2)"
    using s1 s2 by (simp add: seqp_def bindp_def assertp_run ret_run)
  then show ?case using s2(2) by blast
qed (auto simp: ret_run)

lemma queue_clear_loop_run: "queue_is s xs \<Longrightarrow> \<exists>s'. clear_loop s = Some (Ok (), s') \<and> queue_is s' []"
proof (induction xs arbitrary: s)
  case Nil
  then show ?case using queue_is_head [OF Nil] by (subst clear_loop.simps) auto
next
  case (Cons x xs)
  obtain s1 where s1: "pop_front s = (Ok x, s1)" "queue_is s1 xs" using pop_front_run [OF Cons.prems] by blast
  then show ?case using Cons.IH [OF s1(2)] queue_is_head [OF Cons.prems] by (subst clear_loop.simps) auto
qed

section \<open>Properties\<close>

text \<open>
  C36: adding puts at the end and returns the new length; taking from a queue that is not empty gives
  the first element, a bulk take the first \<open>drain_num\<close> of them (all, if that is not positive or
  more than there are), in order; looking changes nothing; clearing frees every item.
\<close>

theorem queue_refines_list:
  assumes "queue_is s xs" "int (length xs + length ys) < INT_MAX"
  shows "(\<exists>s'. queue_addAll ys s = (Ok (int (length (xs @ ys))), s') \<and> queue_is s' (xs @ ys)) \<and>
    queue_peek d s = (Ok (if xs = [] then d else hd xs), s) \<and>
    (xs \<noteq> [] \<longrightarrow> (\<exists>s'. queue_take d W timeout s = (Ok (hd xs), s') \<and> queue_is s' (tl xs))) \<and>
    (xs \<noteq> [] \<longrightarrow> (let n = (if k \<le> 0 then length xs else min (nat k) (length xs)) in
       \<exists>s'. queue_takeAll W k timeout s = (Ok (take n xs), s') \<and> queue_is s' (drop n xs))) \<and>
    (\<exists>s'. queue_clear s = (Ok (), s') \<and> q_live s' = {})"
proof (intro conjI impI)
  obtain s1 where "doM (map add_one ys) s = (Ok (), s1)" "queue_is s1 (xs @ ys)" using queue_adds_run [OF assms] by blast
  then show "\<exists>s'. queue_addAll ys s = (Ok (int (length (xs @ ys))), s') \<and> queue_is s' (xs @ ys)"
    using queue_is_size [of s1] by (auto simp: queue_addAll_def seqp_def bindp_def asks_run)
  note size = queue_is_size [OF assms(1)] and head = queue_is_head [OF assms(1)]
  obtain as where as: "wf_queue s as" "map (\<lambda>a. it_data (q_items s a)) as = xs" using assms(1) by (auto simp: queue_is_def)
  show "queue_peek d s = (Ok (if xs = [] then d else hd xs), s)"
  proof (cases as)
    case Nil
    then show ?thesis using as size by (auto simp: queue_peek_def ifp_run ret_run)
  next
    case (Cons a bs)
    then have "q_head s = a" "a \<in> q_live s" "a \<noteq> 0" "xs \<noteq> []" "hd xs = it_data (q_items s a)" "\<not> q_size s \<le> 0"
      using as size by (auto simp: wf_queue_def)
    then show ?thesis by (simp add: queue_peek_def ifp_run seqp_def bindp_def assertp_run asks_run get_item_def ret_run)
  qed
  obtain s2 where "clear_loop s = Some (Ok (), s2)" "queue_is s2 []" using queue_clear_loop_run [OF assms(1)] by blast
  then show "\<exists>s'. queue_clear s = (Ok (), s') \<and> q_live s' = {}"
    by (auto simp: queue_clear_def seqp_def bindp_def assertp_run queue_is_def wf_queue_def)
  assume ne: "xs \<noteq> []"
  then obtain x zs where xs: "xs = x # zs" by (cases xs) auto
  have aw: "await W timeout s = (Ok (), s)" "\<not> q_size s \<le> 0" using size xs by (simp_all add: await_def modify_run)
  obtain s3 where "pop_front s = (Ok x, s3)" "queue_is s3 zs" using pop_front_run [of s x zs] assms(1) unfolding xs by blast
  then show "\<exists>s'. queue_take d W timeout s = (Ok (hd xs), s') \<and> queue_is s' (tl xs)"
    using aw xs by (simp add: queue_take_def seqp_def bindp_def ifp_run)
  define n where "n = (if k \<le> 0 then length xs else min (nat k) (length xs))"
  have "nat (if k \<le> 0 then q_size s else if k < q_size s then k else q_size s) = n" using size by (auto simp: n_def)
  moreover have "length (take n xs) = n" by (simp add: n_def)
  moreover obtain s4 where "drain (length (take n xs)) s = (Ok (take n xs), s4)" "queue_is s4 (drop n xs)"
    using drain_run [of s "take n xs" "drop n xs"] assms(1) by auto
  ultimately have "queue_takeAll W k timeout s = (Ok (take n xs), s4) \<and> queue_is s4 (drop n xs)"
    using aw by (simp add: queue_takeAll_def seqp_def bindp_def ifp_run asks_run)
  then show "let n = (if k \<le> 0 then length xs else min (nat k) (length xs)) in
       \<exists>s'. queue_takeAll W k timeout s = (Ok (take n xs), s') \<and> queue_is s' (drop n xs)"
    unfolding Let_def n_def [symmetric] by blast
qed

theorem queue_refines_list_witness:
  "\<exists>s. queue_addAll [1, 2, 3 :: nat] (ObjectQueue_new \<lparr>it_data = 0, it_next = 0\<rparr>) = (Ok 3, s) \<and> queue_is s [1, 2, 3]"
  using queue_refines_list [OF queue_is_new [of "\<lparr>it_data = 0, it_next = 0\<rparr>"], of "[1, 2, 3 :: nat]"] by simp

text \<open>
  \<open>take\<close> tests once after it has waited and does not wait again: woken while the queue is empty, it
  returns the default value even when it was told to wait without limit.
\<close>

theorem take_wakes_empty:
  assumes "queue_is s []" "queue_is (W s) []"
  shows "fst (queue_take d W (- 1) s) = Ok d"
  using queue_is_size [OF assms(1)] queue_is_size [OF assms(2)]
  by (simp add: queue_take_def seqp_def bindp_def await_def modify_run ifp_run ret_run)

theorem take_wakes_empty_witness:
  "fst (queue_take (7 :: nat) id (- 1) (ObjectQueue_new \<lparr>it_data = 0, it_next = 0\<rparr>)) = Ok 7"
  by (rule take_wakes_empty) (simp_all add: queue_is_new)

end
