(* ===== verification/ThreadCache.thy ===== *)
theory ThreadCache
  imports ArenaHistory ObjectQueue
begin

text \<open>
  \<open>PoolThreadCache\<close> (src/common/buffer/PoolThreadCache.hpp and .cpp): regions that were released wait in
  queues, one for each size class, to be handed out again without the arena. Every arena creates a
  cache; the calls of the cache in PoolArena.cpp are compiled out, so this theory is about the class
  itself beside an arena.
\<close>

section \<open>State\<close>

text \<open>\<open>Entry\<close>; the default entry has a null chunk.\<close>

record entry =
  en_chunk :: nat
  en_handle :: int

definition no_entry :: entry where
  "no_entry = \<lparr>en_chunk = 0, en_handle = 0\<rparr>"

text \<open>\<open>MemoryRegionCache\<close>; \<open>rc_subpage\<close> tells which of its two subclasses an object is.\<close>

record region_cache =
  rc_size :: int
  rc_queue :: "entry queue"
  rc_class :: SizeClass
  rc_allocations :: int
  rc_subpage :: bool

definition MemoryRegionCache_new :: "int \<Rightarrow> SizeClass \<Rightarrow> bool \<Rightarrow> region_cache" where
  "MemoryRegionCache_new sz cls sub = \<lparr>rc_size = sz, rc_queue = ObjectQueue_new \<lparr>it_data = no_entry, it_next = 0\<rparr>,
     rc_class = cls, rc_allocations = 0, rc_subpage = sub\<rparr>"

text \<open>\<open>None\<close> is a null array; the sizes are fields of their own.\<close>

record thread_cache =
  tc_shifts :: int
  tc_sizes :: "SizeClass \<Rightarrow> int"
  tc_caches :: "SizeClass \<Rightarrow> region_cache list option"
  tc_threshold :: int
  tc_allocations :: int

record cached_arena =
  ca_arena :: arena
  ca_cache :: thread_cache

section \<open>Construction\<close>

definition createSubPageCaches :: "int \<Rightarrow> int \<Rightarrow> SizeClass \<Rightarrow> region_cache list option" where
  "createSubPageCaches cacheSize numCaches cls =
     (if cacheSize > 0 \<and> numCaches > 0 then Some (replicate (nat numCaches) (MemoryRegionCache_new cacheSize cls True)) else None)"

text \<open>The caches and their number, which stays 0 if there are none.\<close>

definition createNormalCaches :: "int \<Rightarrow> int \<Rightarrow> arena \<Rightarrow> region_cache list option \<times> int" where
  "createNormalCaches cacheSize maxCached s =
     (if cacheSize > 0 \<and> maxCached > 0
      then let n = max 1 (cache_log2 (min (ar_chunkSize s) maxCached sdiv ar_pageSize s) + 1)
           in (Some (replicate (nat n) (MemoryRegionCache_new cacheSize Normal False)), n)
      else (None, 0))"

definition PoolThreadCache_new :: "arena \<Rightarrow> int \<Rightarrow> int \<Rightarrow> int \<Rightarrow> int \<Rightarrow> int \<Rightarrow> thread_cache" where
  "PoolThreadCache_new s tinySize smallSize normalSize maxCached threshold =
     (let numSmall = numSmallSubpagePools (ar_pageShifts s); (normal, numNormal) = createNormalCaches normalSize maxCached s
      in \<lparr>tc_shifts = cache_log2 (ar_pageSize s),
          tc_sizes = (\<lambda>c. case c of Tiny \<Rightarrow> numTinySubpagePools | Small \<Rightarrow> numSmall | Normal \<Rightarrow> numNormal),
          tc_caches = (\<lambda>c. case c of Tiny \<Rightarrow> createSubPageCaches tinySize numTinySubpagePools Tiny
                                   | Small \<Rightarrow> createSubPageCaches smallSize numSmall Small | Normal \<Rightarrow> normal),
          tc_threshold = threshold, tc_allocations = 0\<rparr>)"

text \<open>
  The destructor runs through the arrays up to their sizes, also through one that was not created; and it
  deletes each cache where \<open>MemoryRegionCache\<close> is only declared, which is undefined because that
  class has a destructor of its own to run. Only empty arrays are destroyed properly.
\<close>

definition PoolThreadCache_delete :: "thread_cache \<Rightarrow> unit outcome" where
  "PoolThreadCache_delete t = (if \<exists>c\<in>{Tiny, Small, Normal}. tc_sizes t c > 0 then Undef else Ok ())"

lemma destructor_undefined: "PoolThreadCache_delete (PoolThreadCache_new s tinySize smallSize normalSize maxCached threshold) = Undef"
  by (simp add: PoolThreadCache_delete_def PoolThreadCache_new_def Let_def numTinySubpagePools_def split: prod.split)

section \<open>Finding a cache\<close>

text \<open>A pointer to a cache of the array of a class; \<open>None\<close> is null.\<close>

definition cache_at :: "SizeClass \<Rightarrow> int \<Rightarrow> thread_cache \<Rightarrow> (SizeClass \<times> nat) option outcome" where
  "cache_at c idx t =
     (if tc_caches t c = None \<or> idx > tc_sizes t c - 1 then Ok None
      else if idx < 0 then Undef else Ok (Some (c, nat idx)))"

definition cacheForNormal :: "int \<Rightarrow> thread_cache \<Rightarrow> (SizeClass \<times> nat) option outcome" where
  "cacheForNormal norm t = cache_at Normal (cache_log2 (drop_bit (nat (tc_shifts t)) norm)) t"

definition cacheForTiny :: "int \<Rightarrow> thread_cache \<Rightarrow> (SizeClass \<times> nat) option outcome" where
  "cacheForTiny norm t = cache_at Tiny (tinyIdx norm) t"

definition cacheForSmall :: "int \<Rightarrow> thread_cache \<Rightarrow> (SizeClass \<times> nat) option outcome" where
  "cacheForSmall norm t = (case smallIdx norm of None \<Rightarrow> Hang | Some i \<Rightarrow> cache_at Small i t)"

definition class_code :: "SizeClass \<Rightarrow> int" where
  "class_code c = (case c of Tiny \<Rightarrow> 0 | Small \<Rightarrow> 1 | Normal \<Rightarrow> 2)"

definition cache_for :: "int \<Rightarrow> int \<Rightarrow> thread_cache \<Rightarrow> (SizeClass \<times> nat) option outcome" where
  "cache_for norm code t =
     (if code = class_code Normal then cacheForNormal norm t
      else if code = class_code Small then cacheForSmall norm t
      else if code = class_code Tiny then cacheForTiny norm t
      else Throw (RuntimeError ''unknow PoolArena::SizeClass''))"

section \<open>One cache\<close>

definition on_arena :: "(arena, 'a) prog \<Rightarrow> (cached_arena, 'a) prog" where
  "on_arena = zoom ca_arena (\<lambda>s. ca_arena_update (\<lambda>_. s))"

definition on_cache :: "SizeClass \<times> nat \<Rightarrow> (region_cache, 'a) prog \<Rightarrow> (cached_arena, 'a) prog" where
  "on_cache k m w = (case tc_caches (ca_cache w) (fst k) of
       None \<Rightarrow> (Undef, w)
     | Some cs \<Rightarrow> if snd k < length cs
         then (case m (cs ! snd k) of (r, c') \<Rightarrow>
           (r, w\<lparr>ca_cache := (ca_cache w)\<lparr>tc_caches := (tc_caches (ca_cache w))(fst k \<mapsto> cs[snd k := c'])\<rparr>\<rparr>))
         else (Undef, w))"

definition on_queue :: "(entry queue, 'a) prog \<Rightarrow> (region_cache, 'a) prog" where
  "on_queue = zoom rc_queue (\<lambda>q. rc_queue_update (\<lambda>_. q))"

definition take_entry :: "SizeClass \<times> nat \<Rightarrow> (cached_arena, entry) prog" where
  "take_entry k = on_cache k (on_queue (queue_take no_entry (\<lambda>q. q) 0))"

definition cache_add :: "SizeClass \<times> nat \<Rightarrow> nat \<Rightarrow> int \<Rightarrow> (cached_arena, bool) prog" where
  "cache_add k a handle = on_cache k (ifp (\<lambda>c. q_size (rc_queue c) \<ge> rc_size c) (ret False)
     (seqp (on_queue (queue_add \<lparr>en_chunk = a, en_handle = handle\<rparr>)) (ret True)))"

text \<open>\<open>initBuf\<close> of the two subclasses.\<close>

definition cache_initBuf :: "bool \<Rightarrow> entry \<Rightarrow> int \<Rightarrow> (arena, region) prog" where
  "cache_initBuf sub e req = (if sub then initBufWithSubpage (en_chunk e) (en_handle e) (bitmapIdx (en_handle e)) req
     else initBuf (en_chunk e) (en_handle e) req)"

definition cache_allocate :: "SizeClass \<times> nat \<Rightarrow> int \<Rightarrow> (cached_arena, region option) prog" where
  "cache_allocate k req = bindp (take_entry k) (\<lambda>e.
     if en_chunk e = 0 then ret None
     else bindp (on_cache k (asks rc_subpage)) (\<lambda>sub.
       bindp (on_arena (cache_initBuf sub e req)) (\<lambda>r.
       seqp (on_cache k (modify (rc_allocations_update (\<lambda>n. i32 (n + 1))))) (ret (Some r)))))"

text \<open>\<open>free(max, finalizer)\<close>: how many entries went back to the arena.\<close>

function free_entries :: "SizeClass \<times> nat \<Rightarrow> int \<Rightarrow> (cached_arena, int) prog" where
  "free_entries k n = (if n \<le> 0 then ret 0
     else bindp (take_entry k) (\<lambda>e.
       if en_chunk e = 0 then ret 0
       else seqp (on_arena (freeChunk (en_chunk e) (en_handle e)))
         (bindp (free_entries k (n - 1)) (\<lambda>freed. ret (freed + 1)))))"
  by pat_completeness auto
termination by (relation "measure (\<lambda>(k, n). nat n)") auto

definition free_all :: "SizeClass \<times> nat \<Rightarrow> (cached_arena, int) prog" where
  "free_all k = free_entries k INT_MAX"

definition trim_cache :: "SizeClass \<times> nat \<Rightarrow> (cached_arena, unit) prog" where
  "trim_cache k = bindp (on_cache k (asks (\<lambda>c. i32 (rc_size c - rc_allocations c)))) (\<lambda>free.
     seqp (on_cache k (modify (rc_allocations_update (\<lambda>_. 0))))
       (if free > 0 then seqp (free_entries k free) (ret ()) else ret ()))"

section \<open>All caches\<close>

definition trim_class :: "SizeClass \<Rightarrow> (cached_arena, unit) prog" where
  "trim_class c = bindp (asks (\<lambda>w. (tc_caches (ca_cache w) c, tc_sizes (ca_cache w) c))) (\<lambda>(cs, len).
     case cs of None \<Rightarrow> ret () | Some _ \<Rightarrow> doM (map (\<lambda>i. trim_cache (c, i)) [0..<nat len]))"

definition trim :: "(cached_arena, unit) prog" where
  "trim = doM [trim_class Tiny, trim_class Small, trim_class Normal]"

definition upd_cache :: "(thread_cache \<Rightarrow> thread_cache) \<Rightarrow> (cached_arena, unit) prog" where
  "upd_cache f = modify (ca_cache_update f)"

definition allocate_from :: "(SizeClass \<times> nat) option \<Rightarrow> int \<Rightarrow> (cached_arena, region option) prog" where
  "allocate_from k req = (case k of None \<Rightarrow> ret None
     | Some k \<Rightarrow> bindp (cache_allocate k req) (\<lambda>r.
         seqp (upd_cache (tc_allocations_update (\<lambda>n. i32 (n + 1))))
           (seqp (ifp (\<lambda>w. tc_allocations (ca_cache w) \<ge> tc_threshold (ca_cache w))
                   (doM [upd_cache (tc_allocations_update (\<lambda>_. 0)), trim]) (ret ()))
             (ret r))))"

definition allocateTiny :: "int \<Rightarrow> int \<Rightarrow> (cached_arena, region option) prog" where
  "allocateTiny req norm = bindp (lift_outcome (\<lambda>w. cacheForTiny norm (ca_cache w))) (\<lambda>k. allocate_from k req)"

definition allocateSmall :: "int \<Rightarrow> int \<Rightarrow> (cached_arena, region option) prog" where
  "allocateSmall req norm = bindp (lift_outcome (\<lambda>w. cacheForSmall norm (ca_cache w))) (\<lambda>k. allocate_from k req)"

definition allocateNormalCached :: "int \<Rightarrow> int \<Rightarrow> (cached_arena, region option) prog" where
  "allocateNormalCached req norm = bindp (lift_outcome (\<lambda>w. cacheForNormal norm (ca_cache w))) (\<lambda>k. allocate_from k req)"

definition tc_add :: "nat \<Rightarrow> int \<Rightarrow> int \<Rightarrow> int \<Rightarrow> (cached_arena, bool) prog" where
  "tc_add a handle norm code = bindp (lift_outcome (\<lambda>w. cache_for norm code (ca_cache w))) (\<lambda>k.
     case k of None \<Rightarrow> ret False | Some k \<Rightarrow> cache_add k a handle)"

end
