(* ===== verification/ThreadCacheSafety.thy ===== *)
theory ThreadCacheSafety
  imports ThreadCache
begin

text \<open>
  Reuse of regions through the thread cache: over every history of an arena and its cache, what is
  out and what waits in the cache never overlaps, and no call fails.
\<close>

section \<open>A region that is handed out again\<close>

lemma reuse_token:
  assumes ok: "memory_ok p M s T L P" and t: "t \<in> T" and c: "chunks s (token_chunk t) = Some c" "\<not> unpooled c"
    and req: "req \<le> token_size p M t"
  shows "cache_initBuf (token_size p M t < 2 ^ p) \<lparr>en_chunk = token_chunk t, en_handle = token_handle t\<rparr> req s = (Ok (region_of p M t req), s)"
    "0 < token_handle t"
proof -
  note o = memory_okD [OF ok]
  have "cache_initBuf (token_size p M t < 2 ^ p) \<lparr>en_chunk = token_chunk t, en_handle = token_handle t\<rparr> req s = (Ok (region_of p M t req), s) \<and>
    0 < token_handle t"
  proof (cases t)
    case (Run a n)
    note inv = memory_pooled [OF ok c]
    have ck: "token_chunk t = a" "n \<in> nodes_out s T L a" using Run t by (simp_all add: token_chunk_def nodes_out_def run_nodes_def)
    have n: "0 < n" "dep n \<le> M" using tree_ok_mem [OF chunk_inv_tree [OF inv]] ck by auto
    have "(2::int) ^ p \<le> run_bytes p M n" using n by (simp add: run_bytes_def power_increasing)
    moreover have "initBuf a (int n) req s = (Ok (region_of p M (Run a n) req), s)"
      using run_buffer [OF inv, of n s a req] ck c o(4) [OF c(1)] chunk_okD(3) [OF o(6) [OF c]] by simp
    ultimately show ?thesis using Run n by (simp add: cache_initBuf_def token_size_def token_chunk_def token_handle_def)
  next
    case (Elem a n sz i)
    obtain x where x: "x \<in> L" "page_of (subs s x) = (a, int n)" "elemSize (subs s x) = sz"
      using heap_okD(8) [OF o(2)] t Elem by blast
    have lv: "live_ok p T (subs s x)" by (rule heap_okD(6) [OF o(2) x(1)])
    have "i \<in> elems T (subs s x)" using elems_this(3) [OF x(2,3)] t Elem by simp
    then have "i < nat (maxNumElems (subs s x))" using lv by (auto simp: live_ok_def sub_ok_def)
    note e = elem_buffer [OF ok x(1,2) this, unfolded x(3), of req]
    have "valid_size p sz" using lv x(3) by (simp add: live_ok_def)
    then have "sz < 2 ^ p" by (simp add: valid_size_def)
    then show ?thesis using e req Elem by (simp add: cache_initBuf_def token_size_def token_chunk_def token_handle_def)
  next
    case (Huge a m)
    then show ?thesis using o(8) [of a m] t c by (auto simp: token_chunk_def)
  qed
  then show "cache_initBuf (token_size p M t < 2 ^ p) \<lparr>en_chunk = token_chunk t, en_handle = token_handle t\<rparr> req s = (Ok (region_of p M t req), s)"
    "0 < token_handle t" by blast+
qed

lemma good_region:
  assumes "arena_good p M s R" "r \<in> R"
  obtains T L P Q len t where "arena_ok p M s T L P Q" "R = (\<lambda>t. region_of p M t (len t)) ` T"
    "\<forall>t\<in>T. 1 \<le> len t \<and> len t \<le> token_size p M t" "t \<in> T" "r = region_of p M t (len t)"
  using assms unfolding arena_good_def by blast

lemma region_pooled:
  assumes good: "arena_good p M s R" and r: "r \<in> R"
  shows "\<exists>c. chunks s (rg_chunk r) = Some c \<and> (unpooled c \<longleftrightarrow> rg_handle r = 0)" "rg_chunk r \<noteq> 0"
proof -
  obtain T L P Q len t where a: "arena_ok p M s T L P Q" "t \<in> T" "r = region_of p M t (len t)"
    and fits: "1 \<le> len t \<and> len t \<le> token_size p M t" using good_region [OF good r] by metis
  note ok = arena_okD(1) [OF a(1)]
  obtain c where c: "chunks s (token_chunk t) = Some c" "unpooled c \<longrightarrow> t = Huge (token_chunk t) (chunkSize c)"
    using token_kind [OF ok a(2)] by blast
  have "token_handle t \<noteq> 0" if "\<not> unpooled c" using reuse_token(2) [OF ok a(2) c(1) that] fits by fastforce
  moreover have "token_handle t = 0" if "unpooled c" using c(2) that by (metis token_handle_def token.simps(12))
  ultimately have u: "unpooled c \<longleftrightarrow> rg_handle r = 0" using a(3) region_fields(2) by metis
  show "\<exists>c. chunks s (rg_chunk r) = Some c \<and> (unpooled c \<longleftrightarrow> rg_handle r = 0)"
    using c(1) u a(3) region_fields(1) by metis
  show "rg_chunk r \<noteq> 0" using memory_okD(4) [OF ok c(1)] a(3) region_fields(1) by fastforce
qed


definition entry_of :: "region \<Rightarrow> entry" where
  "entry_of r = \<lparr>en_chunk = rg_chunk r, en_handle = rg_handle r\<rparr>"

text \<open>Once the region is used again, with a new length, it is as good as it was.\<close>

lemma region_reuse:
  assumes good: "arena_good p M s R" and r: "r \<in> R" "rg_handle r \<noteq> 0" and req: "1 \<le> req" "req \<le> rg_maxLength r"
  defines "r' \<equiv> r\<lparr>rg_length := req\<rparr>"
  shows "cache_initBuf (rg_maxLength r < 2 ^ p) (entry_of r) req s = (Ok r', s)" "arena_good p M s (insert r' (R - {r}))" "r' \<notin> R - {r}"
proof -
  obtain T L P Q len t where a: "arena_ok p M s T L P Q" "R = (\<lambda>t. region_of p M t (len t)) ` T"
    "\<forall>t\<in>T. 1 \<le> len t \<and> len t \<le> token_size p M t" "t \<in> T" "r = region_of p M t (len t)"
    using good_region [OF good r(1)] by blast
  note ok = arena_okD(1) [OF a(1)]
  have f: "rg_chunk r = token_chunk t" "rg_handle r = token_handle t" "rg_maxLength r = token_size p M t"
    by (simp_all add: a(5) region_fields)
  obtain c where c: "chunks s (token_chunk t) = Some c" "\<not> unpooled c" using region_pooled(1) [OF good r(1)] r(2) f(1) by auto
  have r': "r' = region_of p M t req" by (cases t) (simp_all add: r'_def a(5) region_of_def)
  show "cache_initBuf (rg_maxLength r < 2 ^ p) (entry_of r) req s = (Ok r', s)"
    using reuse_token(1) [OF ok a(4) c, of req] req f by (simp add: entry_of_def r')
  have inj: "u = t" if "u \<in> T" "region_of p M u l = region_of p M t l'" for u l l' using region_inj [OF ok that(1) a(4) that(2)] .
  have R: "R - {r} = (\<lambda>u. region_of p M u (len u)) ` (T - {t})" using inj by (auto simp: a(2,5))
  then have "insert r' (R - {r}) = (\<lambda>u. region_of p M u ((len(t := req)) u)) ` T" using a(4) by (auto simp: r')
  moreover have "\<forall>u\<in>T. 1 \<le> (len(t := req)) u \<and> (len(t := req)) u \<le> token_size p M u" using a(3) req f(3) by simp
  ultimately show "arena_good p M s (insert r' (R - {r}))" using a(1) unfolding arena_good_def by blast
  show "r' \<notin> R - {r}" unfolding R r' by (auto dest: inj [OF _ sym])
qed

lemma good_freeChunk:
  assumes good: "arena_good p M s R" and r: "r \<in> R" "rg_handle r \<noteq> 0"
  shows "\<exists>s'. freeChunk (rg_chunk r) (rg_handle r) s = (Ok (), s') \<and> arena_good p M s' (R - {r})"
proof -
  obtain c where "chunks s (rg_chunk r) = Some c" "\<not> unpooled c" using region_pooled(1) [OF good r(1)] r(2) by auto
  then have "arena_free (rg_chunk r) (rg_handle r) s = freeChunk (rg_chunk r) (rg_handle r) s"
    by (simp add: arena_free_def prog_simps)
  then show ?thesis using good_release [OF good r(1)] by simp
qed

section \<open>The sizes a cache is for\<close>

fun slot_size :: "nat \<Rightarrow> SizeClass \<times> nat \<Rightarrow> int" where
  "slot_size p (Tiny, i) = 16 * int i"
| "slot_size p (Small, i) = 2 ^ (9 + i)"
| "slot_size p (Normal, i) = 2 ^ (p + i)"

definition shape_ok :: "nat \<Rightarrow> thread_cache \<Rightarrow> bool" where
  "shape_ok p t \<longleftrightarrow> tc_shifts t = int p \<and> tc_sizes t Tiny = 32 \<and> tc_sizes t Small = int p - 9 \<and>
     (\<forall>c cs. tc_caches t c = Some cs \<longrightarrow> tc_sizes t c = int (length cs))"

definition has_slot :: "thread_cache \<Rightarrow> SizeClass \<times> nat \<Rightarrow> bool" where
  "has_slot t k \<longleftrightarrow> (\<exists>cs. tc_caches t (fst k) = Some cs \<and> snd k < length cs)"

lemma slot_class:
  assumes "shape_ok p t" "has_slot t k" "12 \<le> p"
  shows "slot_size p k < 2 ^ p \<longleftrightarrow> fst k \<noteq> Normal"
proof -
  obtain c i where k: "k = (c, i)" by (cases k) auto
  have len: "int i < tc_sizes t c" using assms(1,2) k by (auto simp: shape_ok_def has_slot_def)
  show ?thesis
  proof (cases c)
    case Tiny
    have "16 * int i < 2 ^ 9" using len Tiny assms(1) by (simp add: shape_ok_def)
    also have "(2::int) ^ 9 \<le> 2 ^ p" using assms(3) by (intro power_increasing) simp_all
    finally show ?thesis using k Tiny by simp
  next
    case Small
    then have "9 + i < p" using len assms(1) by (simp add: shape_ok_def)
    then show ?thesis using k Small by (simp add: power_strict_increasing)
  qed (use k in \<open>simp add: power_increasing\<close>)
qed

lemma cache_at_slot:
  assumes "shape_ok p t" "cache_at c idx t = r" "0 \<le> idx"
  shows "r = Ok None \<or> (\<exists>i. idx = int i \<and> r = Ok (Some (c, i)) \<and> has_slot t (c, i))"
  using assms by (auto simp: cache_at_def shape_ok_def has_slot_def split: if_splits intro!: exI [of _ "nat idx"])

lemma page_classes:
  assumes "arena_geo p M s" "class_size p M norm"
  shows "norm < 2 ^ p \<Longrightarrow> norm < 512 \<and> norm mod 16 = 0 \<and> 0 < norm \<or> (\<exists>k. 9 \<le> k \<and> k < p \<and> norm = 2 ^ k)"
    "\<not> norm < 2 ^ p \<Longrightarrow> \<exists>k. norm = 2 ^ (p + k) \<and> p + k \<le> 30" "0 < norm" "norm \<le> INT_MAX"
proof -
  have p: "12 \<le> p" "p + M \<le> 30" using assms(1) by (simp_all add: arena_geo_def)
  show "norm < 2 ^ p \<Longrightarrow> norm < 512 \<and> norm mod 16 = 0 \<and> 0 < norm \<or> (\<exists>k. 9 \<le> k \<and> k < p \<and> norm = 2 ^ k)"
    using assms(2) by (auto simp: class_size_def valid_size_def normalised_def split: if_splits)
  have k: "\<exists>k. norm = 2 ^ (p + k) \<and> p + k \<le> 30" if "\<not> valid_size p norm"
  proof -
    obtain k where "p \<le> k" "k \<le> p + M" "norm = 2 ^ k" using assms(2) \<open>\<not> valid_size p norm\<close> by (auto simp: class_size_def)
    then show ?thesis using p by (intro exI [of _ "k - p"]) simp
  qed
  then show "\<not> norm < 2 ^ p \<Longrightarrow> \<exists>k. norm = 2 ^ (p + k) \<and> p + k \<le> 30" by (simp add: valid_size_def)
  have big: "(2::int) ^ k \<le> 2 ^ 30" if "k \<le> 30" for k using that by (intro power_increasing) simp_all
  show "0 < norm" using k by (cases "valid_size p norm") (auto simp: valid_size_def normalised_def)
  show "norm \<le> INT_MAX"
  proof (cases "valid_size p norm")
    case True
    then show ?thesis using big [of p] p by (simp add: valid_size_def)
  next
    case False
    then show ?thesis using k big by fastforce
  qed
qed


definition class_lookup :: "SizeClass \<Rightarrow> int \<Rightarrow> thread_cache \<Rightarrow> (SizeClass \<times> nat) option outcome" where
  "class_lookup c norm t = (case c of Tiny \<Rightarrow> cacheForTiny norm t | Small \<Rightarrow> cacheForSmall norm t | Normal \<Rightarrow> cacheForNormal norm t)"

definition found :: "nat \<Rightarrow> thread_cache \<Rightarrow> int \<Rightarrow> (SizeClass \<times> nat) option outcome \<Rightarrow> bool" where
  "found p t norm r \<longleftrightarrow> r = Ok None \<or> (\<exists>k. r = Ok (Some k) \<and> has_slot t k \<and> slot_size p k = norm)"

lemma cache_for_class: "cache_for norm (class_code c) t = class_lookup c norm t"
  by (cases c) (simp_all add: cache_for_def class_code_def class_lookup_def)

lemma lookup_found:
  assumes geo: "arena_geo p M s" and sh: "shape_ok p t" and sz: "class_size p M norm"
  shows "found p t norm (class_lookup (sizeClass (2 ^ p) norm) norm t)"
proof -
  note pc = page_classes [OF geo sz]
  have ts: "isTinyOrSmall (2 ^ p) norm \<longleftrightarrow> norm < 2 ^ p" "isTiny norm \<longleftrightarrow> norm < 512"
    using isTinyOrSmall_iff [of norm "2 ^ p" p] isTiny_iff [of norm] pc(3,4) by simp_all
  show ?thesis
  proof (cases "norm < 2 ^ p")
    case False
    then obtain k where k: "norm = 2 ^ (p + k)" "p + k \<le> 30" using pc(2) by blast
    have "nat (tc_shifts t) = p" using sh by (simp add: shape_ok_def)
    then have "drop_bit (nat (tc_shifts t)) norm = 2 ^ k" by (simp add: k drop_bit_eq_div power_add)
    then have "cacheForNormal norm t = cache_at Normal (int k) t"
      by (simp add: cacheForNormal_def cache_log2_def cache_log2_loop_eq [of k])
    moreover have "sizeClass (2 ^ p) norm = Normal" using False ts by (simp add: sizeClass_def)
    ultimately show ?thesis using cache_at_slot [OF sh, of Normal "int k"] k by (auto simp: found_def class_lookup_def)
  next
    case small: True
    then show ?thesis using pc(1) [OF small]
    proof (elim disjE exE conjE)
      assume a: "norm < 512" "norm mod 16 = 0" "0 < norm"
      have n: "16 * (norm div 16) = norm" using a(2) by presburger
      have "cacheForTiny norm t = cache_at Tiny (norm div 16) t" "0 \<le> norm div 16"
        using a by (simp_all add: cacheForTiny_def tinyIdx_def drop_bit_eq_div)
      moreover have "sizeClass (2 ^ p) norm = Tiny" using small ts a by (simp add: sizeClass_def)
      ultimately show ?thesis using cache_at_slot [OF sh, of Tiny "norm div 16"] n by (auto simp: found_def class_lookup_def)
    next
      fix k assume k: "9 \<le> k" "k < p" "norm = 2 ^ k"
      have ge: "(2::int) ^ 9 \<le> norm" unfolding k(3) using k(1) by (intro power_increasing) simp_all
      have idx: "smallIdx norm = Some (int (k - 9))"
      proof (cases "k = 9")
        case True
        then show ?thesis by (simp add: smallIdx_def k(3) drop_bit_eq_div shift_count.simps)
      next
        case False
        then obtain j where j: "k = 10 + j" using k(1) le_Suc_ex [of 10 k] by auto
        show ?thesis using shift_count_pow2 [of j "2 ^ j" 0]
          by (simp add: smallIdx_def k(3) j drop_bit_eq_div power_add)
      qed
      have "sizeClass (2 ^ p) norm = Small" using small ts ge by (simp add: sizeClass_def)
      moreover have "(2::int) ^ (9 + (k - 9)) = norm" using k by simp
      ultimately show ?thesis using cache_at_slot [OF sh, of Small "int (k - 9)"] idx
        by (auto simp: found_def class_lookup_def cacheForSmall_def)
    qed
  qed
qed


section \<open>The invariant\<close>

definition the_cache :: "thread_cache \<Rightarrow> SizeClass \<times> nat \<Rightarrow> region_cache" where
  "the_cache t k = the (tc_caches t (fst k)) ! snd k"

definition with_cache :: "SizeClass \<times> nat \<Rightarrow> region_cache \<Rightarrow> cached_arena \<Rightarrow> cached_arena" where
  "with_cache k c w = w\<lparr>ca_cache := (ca_cache w)\<lparr>tc_caches := (tc_caches (ca_cache w))(fst k \<mapsto>
     (the (tc_caches (ca_cache w) (fst k)))[snd k := c])\<rparr>\<rparr>"

lemma on_cache_run:
  "has_slot (ca_cache w) k \<Longrightarrow> m (the_cache (ca_cache w) k) = (r, c) \<Longrightarrow> on_cache k m w = (r, with_cache k c w)"
  by (auto simp: on_cache_def has_slot_def the_cache_def with_cache_def)

definition same_layout :: "thread_cache \<Rightarrow> thread_cache \<Rightarrow> bool" where
  "same_layout t t' \<longleftrightarrow> tc_shifts t = tc_shifts t' \<and> tc_sizes t = tc_sizes t' \<and> (\<forall>c. tc_caches t c = None \<longleftrightarrow> tc_caches t' c = None)"

lemma same_lookup: "same_layout t t' \<Longrightarrow> class_lookup c norm t = class_lookup c norm t'"
  by (simp add: class_lookup_def cacheForNormal_def cacheForTiny_def cacheForSmall_def cache_at_def same_layout_def
      split: SizeClass.split option.split)

lemma with_cache:
  assumes "has_slot (ca_cache w) k"
  shows "has_slot (ca_cache (with_cache k c w)) = has_slot (ca_cache w)"
    "the_cache (ca_cache (with_cache k c w)) k = c"
    "k' \<noteq> k \<Longrightarrow> the_cache (ca_cache (with_cache k c w)) k' = the_cache (ca_cache w) k'"
    "ca_arena (with_cache k c w) = ca_arena w" "shape_ok p (ca_cache w) \<Longrightarrow> shape_ok p (ca_cache (with_cache k c w))"
    "tc_sizes (ca_cache (with_cache k c w)) = tc_sizes (ca_cache w)" "same_layout (ca_cache (with_cache k c w)) (ca_cache w)"
proof -
  obtain cs where cs: "tc_caches (ca_cache w) (fst k) = Some cs" "snd k < length cs" using assms by (auto simp: has_slot_def)
  then show "has_slot (ca_cache (with_cache k c w)) = has_slot (ca_cache w)"
    by (intro ext) (auto simp: has_slot_def with_cache_def)
  show "the_cache (ca_cache (with_cache k c w)) k = c" using cs by (simp add: the_cache_def with_cache_def)
  show "the_cache (ca_cache (with_cache k c w)) k' = the_cache (ca_cache w) k'" if "k' \<noteq> k"
    using that cs by (cases k; cases k') (auto simp: the_cache_def with_cache_def)
  show "shape_ok p (ca_cache (with_cache k c w))" if "shape_ok p (ca_cache w)"
    using that cs by (auto simp: shape_ok_def with_cache_def)
  show "same_layout (ca_cache (with_cache k c w)) (ca_cache w)" using cs by (simp add: same_layout_def with_cache_def)
qed (simp_all add: with_cache_def)

text \<open>The cache of size class \<open>k\<close> holds the regions \<open>rs\<close>.\<close>

definition stocked :: "SizeClass \<Rightarrow> region_cache \<Rightarrow> region list \<Rightarrow> bool" where
  "stocked c rc rs \<longleftrightarrow> queue_is (rc_queue rc) (map entry_of rs) \<and> 0 < rc_size rc \<and> rc_size rc \<le> INT_MAX \<and> int (length rs) \<le> rc_size rc \<and>
     rc_subpage rc = (c \<noteq> Normal)"

definition waiting :: "(SizeClass \<times> nat \<Rightarrow> region list) \<Rightarrow> region set" where
  "waiting Q = (\<Union>k. set (Q k))"

definition stock_ok :: "nat \<Rightarrow> thread_cache \<Rightarrow> (SizeClass \<times> nat \<Rightarrow> region list) \<Rightarrow> bool" where
  "stock_ok p t Q \<longleftrightarrow> shape_ok p t \<and> (\<forall>k. if has_slot t k then stocked (fst k) (the_cache t k) (Q k) else Q k = []) \<and>
     (\<forall>k. distinct (Q k) \<and> (\<forall>r\<in>set (Q k). rg_maxLength r = slot_size p k \<and> rg_handle r \<noteq> 0)) \<and>
     (\<forall>k k'. k \<noteq> k' \<longrightarrow> set (Q k) \<inter> set (Q k') = {})"

text \<open>\<open>R\<close> is out, \<open>Q\<close> waits in the cache; the arena has handed out both.\<close>

definition reuse_ok :: "nat \<Rightarrow> nat \<Rightarrow> cached_arena \<Rightarrow> (SizeClass \<times> nat \<Rightarrow> region list) \<Rightarrow> region set \<Rightarrow> bool" where
  "reuse_ok p M w Q R \<longleftrightarrow> stock_ok p (ca_cache w) Q \<and> R \<inter> waiting Q = {} \<and> arena_good p M (ca_arena w) (R \<union> waiting Q)"

lemma reuse_okD:
  assumes "reuse_ok p M w Q R"
  shows "stock_ok p (ca_cache w) Q" "R \<inter> waiting Q = {}" "arena_good p M (ca_arena w) (R \<union> waiting Q)"
  using assms by (simp_all add: reuse_ok_def)

lemma stock_okD:
  assumes "stock_ok p t Q"
  shows "shape_ok p t" "has_slot t k \<Longrightarrow> stocked (fst k) (the_cache t k) (Q k)" "distinct (Q k)"
    "r \<in> set (Q k) \<Longrightarrow> rg_maxLength r = slot_size p k" "r \<in> set (Q k) \<Longrightarrow> rg_handle r \<noteq> 0"
    "k \<noteq> k' \<Longrightarrow> r \<in> set (Q k) \<Longrightarrow> r \<notin> set (Q k')"
  by (use assms in \<open>unfold stock_ok_def, metis disjoint_iff\<close>)+

text \<open>One cache changes.\<close>

lemma stock_update:
  assumes ok: "stock_ok p (ca_cache w) Q" and k: "has_slot (ca_cache w) k" and new: "stocked (fst k) c rs" "distinct rs"
    and rs: "\<And>r. r \<in> set rs \<Longrightarrow> rg_maxLength r = slot_size p k \<and> rg_handle r \<noteq> 0"
      "\<And>k' r. k' \<noteq> k \<Longrightarrow> r \<in> set rs \<Longrightarrow> r \<notin> set (Q k')"
  shows "stock_ok p (ca_cache (with_cache k c w)) (Q(k := rs))"
proof -
  note u = with_cache [OF k] and o = stock_okD [OF ok]
  have no: "\<not> has_slot (ca_cache w) k' \<Longrightarrow> Q k' = []" for k' using ok unfolding stock_ok_def by metis
  have "if has_slot (ca_cache w) k' then stocked (fst k') (the_cache (ca_cache (with_cache k c w)) k') ((Q(k := rs)) k') else (Q(k := rs)) k' = []" for k'
    using u(2) u(3) [of k' c] o(2) [of k'] no [of k'] new(1) k by (cases "k' = k") auto
  moreover have "set ((Q(k := rs)) k1) \<inter> set ((Q(k := rs)) k2) = {}" if "k1 \<noteq> k2" for k1 k2
    using that by (cases "k1 = k"; cases "k2 = k") (auto dest: rs(2) o(6))
  moreover have "distinct ((Q(k := rs)) k') \<and> (\<forall>r\<in>set ((Q(k := rs)) k'). rg_maxLength r = slot_size p k' \<and> rg_handle r \<noteq> 0)" for k'
    using o(3) [of k'] o(4,5) [of _ k'] new(2) rs(1) by auto
  ultimately show ?thesis using u(5) [OF o(1)] unfolding stock_ok_def u(1) by blast
qed

lemma waiting_update: "waiting (Q(k := rs)) = (\<Union>k'\<in>- {k}. set (Q k')) \<union> set rs"
  by (auto simp: waiting_def split: if_splits)

lemma waiting_tl:
  assumes "stock_ok p t Q" "Q k = r # rs"
  shows "waiting (Q(k := rs)) = waiting Q - {r}" "r \<in> waiting Q"
proof -
  have r: "r \<in> set (Q k)" "r \<notin> set rs" "set (Q k) = insert r (set rs)" using stock_okD(3) [OF assms(1), of k] assms(2) by auto
  have "r \<notin> set (Q k')" if "k' \<noteq> k" for k' by (rule stock_okD(6) [OF assms(1) _ r(1)]) (use that in simp)
  then have "(\<Union>k'\<in>- {k}. set (Q k')) \<union> set rs = (\<Union>k'. set (Q k')) - {r}" using r(2,3) by blast
  then show "waiting (Q(k := rs)) = waiting Q - {r}" unfolding waiting_update by (simp add: waiting_def)
  show "r \<in> waiting Q" using r(1) unfolding waiting_def by blast
qed


section \<open>One cache\<close>

lemma take_entry_run:
  assumes ok: "stock_ok p (ca_cache w) Q" and k: "has_slot (ca_cache w) k"
  shows "\<exists>w'. take_entry k w = (Ok (if Q k = [] then no_entry else entry_of (hd (Q k))), w') \<and> ca_arena w' = ca_arena w \<and>
    stock_ok p (ca_cache w') (Q(k := tl (Q k))) \<and> has_slot (ca_cache w') = has_slot (ca_cache w)"
proof -
  let ?c = "the_cache (ca_cache w) k"
  have st: "stocked (fst k) ?c (Q k)" by (rule stock_okD(2) [OF ok k])
  then have q: "queue_is (rc_queue ?c) (map entry_of (Q k))" by (simp add: stocked_def)
  note z = queue_is_size [OF q]
  obtain q' where q': "queue_take no_entry (\<lambda>q. q) 0 (rc_queue ?c) = (Ok (if Q k = [] then no_entry else entry_of (hd (Q k))), q')"
    "queue_is q' (map entry_of (tl (Q k)))"
  proof (cases "Q k")
    case Nil
    then show ?thesis using that [of "rc_queue ?c"] q z by (simp add: queue_take_def await_def prog_simps)
  next
    case (Cons r rs)
    then obtain q' where "pop_front (rc_queue ?c) = (Ok (entry_of r), q')" "queue_is q' (map entry_of rs)"
      using pop_front_run [of "rc_queue ?c" "entry_of r" "map entry_of rs"] q by auto
    then show ?thesis using that [of q'] Cons z by (simp add: queue_take_def await_def prog_simps)
  qed
  let ?c' = "?c\<lparr>rc_queue := q'\<rparr>"
  have "on_queue (queue_take no_entry (\<lambda>q. q) 0) ?c = (Ok (if Q k = [] then no_entry else entry_of (hd (Q k))), ?c')"
    using q'(1) by (simp add: on_queue_def zoom_def)
  then have "take_entry k w = (Ok (if Q k = [] then no_entry else entry_of (hd (Q k))), with_cache k ?c' w)"
    unfolding take_entry_def by (rule on_cache_run [OF k])
  moreover have "stocked (fst k) ?c' (tl (Q k))" using st q'(2) by (auto simp: stocked_def)
  then have "stock_ok p (ca_cache (with_cache k ?c' w)) (Q(k := tl (Q k)))"
  proof (rule stock_update [OF ok k])
    show "distinct (tl (Q k))" using stock_okD(3) [OF ok] by (simp add: distinct_tl)
    show "rg_maxLength r = slot_size p k \<and> rg_handle r \<noteq> 0" if "r \<in> set (tl (Q k))" for r
      using stock_okD(4,5) [OF ok] that by (metis list.set_sel(2) tl_Nil)
    show "r \<notin> set (Q k')" if "k' \<noteq> k" "r \<in> set (tl (Q k))" for k' r
      using stock_okD(6) [OF ok] that by (metis list.set_sel(2) tl_Nil)
  qed
  ultimately show ?thesis using with_cache(1,4) [OF k] by blast
qed

text \<open>A change that the contents do not see.\<close>

lemma stock_still:
  assumes ok: "stock_ok p (ca_cache w) Q" and k: "has_slot (ca_cache w) k" and c: "c = (the_cache (ca_cache w) k)\<lparr>rc_allocations := n\<rparr>"
  shows "stock_ok p (ca_cache (with_cache k c w)) Q"
proof -
  have "stock_ok p (ca_cache (with_cache k c w)) (Q(k := Q k))"
  proof (rule stock_update [OF ok k])
    show "stocked (fst k) c (Q k)" using stock_okD(2) [OF ok k] by (simp add: c stocked_def)
    show "r \<notin> set (Q k')" if "k' \<noteq> k" "r \<in> set (Q k)" for k' r using stock_okD(6) [OF ok] that by metis
  qed (use stock_okD(3-5) [OF ok] in simp_all)
  then show ?thesis by simp
qed

lemma entry_there: "arena_good p M s R \<Longrightarrow> r \<in> R \<Longrightarrow> en_chunk (entry_of r) \<noteq> 0"
  using region_pooled(2) by (simp add: entry_of_def)

text \<open>What is taken to be freed.\<close>

lemma take_waiting:
  assumes ok: "reuse_ok p M w Q R" and k: "has_slot (ca_cache w) k" and q: "Q k = r # rs"
  shows "\<exists>w'. take_entry k w = (Ok (entry_of r), w') \<and> ca_arena w' = ca_arena w \<and> stock_ok p (ca_cache w') (Q(k := rs)) \<and>
    has_slot (ca_cache w') = has_slot (ca_cache w) \<and> R \<union> waiting (Q(k := rs)) = (R \<union> waiting Q) - {r} \<and> R \<inter> waiting (Q(k := rs)) = {} \<and>
    r \<in> R \<union> waiting Q \<and> rg_handle r \<noteq> 0 \<and> en_chunk (entry_of r) \<noteq> 0 \<and> r \<notin> R"
proof -
  note o = reuse_okD [OF ok]
  note w = waiting_tl [OF o(1) q]
  have "rg_handle r \<noteq> 0" using stock_okD(5) [OF o(1), of r k] q by simp
  moreover have "en_chunk (entry_of r) \<noteq> 0" using entry_there [OF o(3)] w(2) by blast
  moreover have "r \<notin> R" "R \<union> (waiting Q - {r}) = (R \<union> waiting Q) - {r}" "R \<inter> (waiting Q - {r}) = {}" using w(2) o(2) by blast+
  ultimately show ?thesis using take_entry_run [OF o(1) k] w q by simp
qed

text \<open>The entries that waited longest are freed, and the other caches stay as they are.\<close>

definition cache_frame :: "SizeClass \<times> nat \<Rightarrow> thread_cache \<Rightarrow> thread_cache \<Rightarrow> bool" where
  "cache_frame k t t' \<longleftrightarrow> has_slot t' = has_slot t \<and> (\<forall>k'. k' \<noteq> k \<longrightarrow> the_cache t' k' = the_cache t k') \<and>
     rc_allocations (the_cache t' k) = rc_allocations (the_cache t k)"

lemma take_frame:
  assumes "has_slot (ca_cache w) k" "take_entry k w = (r, w')"
  shows "cache_frame k (ca_cache w) (ca_cache w')"
proof -
  let ?c = "the_cache (ca_cache w) k"
  obtain a c where m: "on_queue (queue_take no_entry (\<lambda>q. q) 0) ?c = (a, c)" by (cases "on_queue (queue_take no_entry (\<lambda>q. q) 0) ?c") auto
  then have "rc_allocations c = rc_allocations ?c" by (auto simp: on_queue_def zoom_def split: prod.splits)
  moreover have "w' = with_cache k c w"
    using on_cache_run [of w k "on_queue (queue_take no_entry (\<lambda>q. q) 0)" a c, OF assms(1) m] assms(2) by (simp add: take_entry_def)
  ultimately show ?thesis unfolding cache_frame_def using with_cache(1-3) [OF assms(1)] by simp
qed

lemma free_frame:
  assumes "has_slot (ca_cache w) k" "free_entries k n w = (Ok m, w')"
  shows "cache_frame k (ca_cache w) (ca_cache w')"
  using assms
proof (induction k n arbitrary: w m rule: free_entries.induct)
  case (1 k n)
  show ?case
  proof (cases "n \<le> 0")
    case True
    have "free_entries k n w = (Ok 0, w)" by (subst free_entries.simps) (simp add: True ret_run)
    then show ?thesis using 1(3) by (simp add: cache_frame_def)
  next
    case False
    obtain r w1 where t: "take_entry k w = (r, w1)" by (cases "take_entry k w")
    have f: "cache_frame k (ca_cache w) (ca_cache w1)" by (rule take_frame [OF 1(2) t])
    have run: "free_entries k n w = bindp (take_entry k) (\<lambda>e. if en_chunk e = 0 then ret 0
       else seqp (on_arena (freeChunk (en_chunk e) (en_handle e))) (bindp (free_entries k (n - 1)) (\<lambda>freed. ret (freed + 1)))) w"
      by (subst free_entries.simps) (simp only: False if_False)
    then obtain e where e: "r = Ok e" using 1(3) t by (cases r) (simp_all add: bindp_def)
    show ?thesis
    proof (cases "en_chunk e = 0")
      case True
      then have "w' = w1" using run 1(3) t e by (simp add: bindp_def ret_run)
      then show ?thesis using f by simp
    next
      case more: False
      obtain x s where z: "freeChunk (en_chunk e) (en_handle e) (ca_arena w1) = (x, s)" by fastforce
      have "bindp (free_entries k (n - 1)) (\<lambda>freed. ret (freed + 1)) (w1\<lparr>ca_arena := s\<rparr>) = (Ok m, w') \<and> x = Ok ()"
        using run 1(3) t e more z by (cases x) (simp_all add: bindp_def seqp_def on_arena_def zoom_def)
      then obtain j where "free_entries k (n - 1) (w1\<lparr>ca_arena := s\<rparr>) = (Ok j, w')"
        by (auto simp: bindp_def ret_run split: prod.splits outcome.splits)
      then obtain w2 j where w2: "ca_cache w2 = ca_cache w1" "free_entries k (n - 1) w2 = (Ok j, w')"
        by (metis (no_types, lifting) cached_arena.select_convs(2) cached_arena.surjective cached_arena.update_convs(1))
      have "has_slot (ca_cache w2) k" using f w2(1) 1(2) by (simp add: cache_frame_def)
      from 1(1) [OF False more this w2(2)] show ?thesis using f w2(1) unfolding cache_frame_def by simp
    qed
  qed
qed

lemma free_entries_run:
  assumes "reuse_ok p M w Q R" "has_slot (ca_cache w) k"
  shows "\<exists>m w'. free_entries k n w = (Ok m, w') \<and> reuse_ok p M w' (Q(k := drop (nat n) (Q k))) R \<and>
    has_slot (ca_cache w') = has_slot (ca_cache w)"
  using assms
proof (induction k n arbitrary: w Q rule: free_entries.induct)
  case (1 k n)
  note o = reuse_okD [OF 1(2)]
  show ?case
  proof (cases "n \<le> 0")
    case True
    then show ?thesis using 1(2) by (subst free_entries.simps) (simp add: ret_run)
  next
    case n: False
    show ?thesis
    proof (cases "Q k")
      case Nil
      obtain w' where w': "take_entry k w = (Ok no_entry, w')" "ca_arena w' = ca_arena w" "stock_ok p (ca_cache w') Q"
        "has_slot (ca_cache w') = has_slot (ca_cache w)" using take_entry_run [OF o(1) 1(3)] Nil by (auto simp: fun_upd_idem)
      then have "free_entries k n w = (Ok 0, w')" using n by (subst free_entries.simps) (simp add: prog_simps no_entry_def)
      moreover have "reuse_ok p M w' Q R" using w' o by (simp add: reuse_ok_def)
      moreover have "Q(k := drop (nat n) (Q k)) = Q" using Nil by (simp add: fun_upd_idem)
      ultimately show ?thesis using w'(4) by simp
    next
      case (Cons r rs)
      obtain w1 where w1: "take_entry k w = (Ok (entry_of r), w1)" "ca_arena w1 = ca_arena w" "stock_ok p (ca_cache w1) (Q(k := rs))"
        "has_slot (ca_cache w1) = has_slot (ca_cache w)" "R \<union> waiting (Q(k := rs)) = (R \<union> waiting Q) - {r}" "R \<inter> waiting (Q(k := rs)) = {}"
        "r \<in> R \<union> waiting Q" "rg_handle r \<noteq> 0" "en_chunk (entry_of r) \<noteq> 0" using take_waiting [OF 1(2,3) Cons] by blast
      obtain s2 where s2: "freeChunk (rg_chunk r) (rg_handle r) (ca_arena w) = (Ok (), s2)" "arena_good p M s2 ((R \<union> waiting Q) - {r})"
        using good_freeChunk [OF o(3) w1(7,8)] by blast
      define w2 where "w2 = w1\<lparr>ca_arena := s2\<rparr>"
      have f: "on_arena (freeChunk (en_chunk (entry_of r)) (en_handle (entry_of r))) w1 = (Ok (), w2)"
        using s2(1) w1(2) by (simp add: on_arena_def zoom_def entry_of_def w2_def)
      have "reuse_ok p M w2 (Q(k := rs)) R" "has_slot (ca_cache w2) k" using w1 s2(2) 1(3) by (simp_all add: reuse_ok_def w2_def)
      from 1(1) [OF n w1(9) this] obtain m w' where w': "free_entries k (n - 1) w2 = (Ok m, w')"
        "reuse_ok p M w' (Q(k := rs, k := drop (nat (n - 1)) ((Q(k := rs)) k))) R"
        "has_slot (ca_cache w') = has_slot (ca_cache w2)" by blast
      have "nat n = Suc (nat (n - 1))" using n by simp
      then have d: "Q(k := rs, k := drop (nat (n - 1)) ((Q(k := rs)) k)) = Q(k := drop (nat n) (Q k))" using Cons by simp
      have "free_entries k n w = (Ok (m + 1), w')"
        using n w1(1,9) f w'(1) by (subst free_entries.simps) (simp add: prog_simps)
      moreover have "has_slot (ca_cache w') = has_slot (ca_cache w)" using w'(3) w1(4) by (simp add: w2_def)
      ultimately show ?thesis using w'(2) unfolding d by blast
    qed
  qed
qed


definition reusable :: "nat \<Rightarrow> nat \<Rightarrow> cached_arena \<Rightarrow> region set \<Rightarrow> bool" where
  "reusable p M w R \<longleftrightarrow> (\<exists>Q. reuse_ok p M w Q R)"

text \<open>A call that ends with \<open>a\<close>, has the same caches and leaves \<open>R\<close> out.\<close>

definition leaves :: "nat \<Rightarrow> nat \<Rightarrow> (cached_arena, 'a) prog \<Rightarrow> cached_arena \<Rightarrow> 'a \<Rightarrow> region set \<Rightarrow> bool" where
  "leaves p M m w a R \<longleftrightarrow> (\<exists>w'. m w = (Ok a, w') \<and> reusable p M w' R \<and> has_slot (ca_cache w') = has_slot (ca_cache w))"

lemma leaves_seqp: "leaves p M m w () R \<Longrightarrow> (\<And>w'. reusable p M w' R \<Longrightarrow> has_slot (ca_cache w') = has_slot (ca_cache w) \<Longrightarrow> leaves p M m' w' a R') \<Longrightarrow>
  leaves p M (seqp m m') w a R'"
  unfolding leaves_def by (metis seqp_Ok)

lemma leaves_all: "reusable p M w R \<Longrightarrow> (\<And>k w'. k \<in> set ks \<Longrightarrow> reusable p M w' R \<Longrightarrow> has_slot (ca_cache w') = has_slot (ca_cache w) \<Longrightarrow> leaves p M (f k) w' () R) \<Longrightarrow>
  leaves p M (doM (map f ks)) w () R"
proof (induction ks arbitrary: w)
  case Nil
  then show ?case by (auto simp: leaves_def ret_run)
next
  case (Cons k ks)
  obtain w' where w': "f k w = (Ok (), w')" "reusable p M w' R" "has_slot (ca_cache w') = has_slot (ca_cache w)"
    using Cons.prems(2) [of k w] Cons.prems(1) by (auto simp: leaves_def)
  have "leaves p M (doM (map f ks)) w' () R" by (rule Cons.IH [OF w'(2)]) (use Cons.prems(2) w'(3) in simp)
  then show ?case using w' by (simp add: leaves_def doM_Ok)
qed

lemma set_allocations:
  assumes "reuse_ok p M w Q R" "has_slot (ca_cache w) k"
  shows "\<exists>w'. on_cache k (modify (rc_allocations_update f)) w = (Ok (), w') \<and> reuse_ok p M w' Q R \<and>
    has_slot (ca_cache w') = has_slot (ca_cache w)"
proof -
  let ?c = "rc_allocations_update f (the_cache (ca_cache w) k)"
  have c: "?c = (the_cache (ca_cache w) k)\<lparr>rc_allocations := f (rc_allocations (the_cache (ca_cache w) k))\<rparr>" by simp
  have "on_cache k (modify (rc_allocations_update f)) w = (Ok (), with_cache k ?c w)"
    by (rule on_cache_run [OF assms(2)]) (simp add: modify_run)
  then show ?thesis
    using stock_still [OF reuse_okD(1) [OF assms(1)] assms(2) c] with_cache [OF assms(2)] reuse_okD [OF assms(1)]
    by (simp add: reuse_ok_def)
qed

lemma same_cache: "has_slot (ca_cache w) k \<Longrightarrow> with_cache k (the_cache (ca_cache w) k) w = w"
  by (cases w) (auto simp: has_slot_def with_cache_def the_cache_def fun_upd_idem)

lemma ask_cache: "has_slot (ca_cache w) k \<Longrightarrow> on_cache k (asks f) w = (Ok (f (the_cache (ca_cache w) k)), w)"
  using on_cache_run [of w k "asks f"] same_cache [of w k] by (simp add: asks_run)

text \<open>How many entries a trim frees at most: as many as were not used since the last one.\<close>

definition trim_count :: "region_cache \<Rightarrow> nat" where
  "trim_count c = nat (i32 (rc_size c - rc_allocations c))"

text \<open>From \<open>w\<close>, with \<open>Q\<close> waiting, to \<open>w'\<close> the caches \<open>A\<close> were trimmed.\<close>

definition trimmed_to :: "nat \<Rightarrow> nat \<Rightarrow> region set \<Rightarrow> (SizeClass \<times> nat \<Rightarrow> region list) \<Rightarrow> (SizeClass \<times> nat) set \<Rightarrow>
    cached_arena \<Rightarrow> cached_arena \<Rightarrow> bool" where
  "trimmed_to p M R Q A w w' \<longleftrightarrow>
     reuse_ok p M w' (\<lambda>k. if k \<in> A then drop (trim_count (the_cache (ca_cache w) k)) (Q k) else Q k) R \<and>
     has_slot (ca_cache w') = has_slot (ca_cache w) \<and> (\<forall>k. k \<notin> A \<longrightarrow> the_cache (ca_cache w') k = the_cache (ca_cache w) k) \<and>
     (\<forall>k\<in>A. rc_allocations (the_cache (ca_cache w') k) = 0)"

lemma trimmed_toD:
  assumes "trimmed_to p M R Q A w w'"
  shows "reuse_ok p M w' (\<lambda>k. if k \<in> A then drop (trim_count (the_cache (ca_cache w) k)) (Q k) else Q k) R"
    "has_slot (ca_cache w') = has_slot (ca_cache w)" "k \<notin> A \<Longrightarrow> the_cache (ca_cache w') k = the_cache (ca_cache w) k"
    "k \<in> A \<Longrightarrow> rc_allocations (the_cache (ca_cache w') k) = 0"
  using assms unfolding trimmed_to_def by blast+

lemma trimmed_refl: "reuse_ok p M w Q R \<Longrightarrow> trimmed_to p M R Q {} w w"
  by (simp add: trimmed_to_def)

lemma trimmed_trans:
  assumes "trimmed_to p M R Q A w w1" "A \<inter> B = {}"
    and "trimmed_to p M R (\<lambda>k. if k \<in> A then drop (trim_count (the_cache (ca_cache w) k)) (Q k) else Q k) B w1 w2"
  shows "trimmed_to p M R Q (A \<union> B) w w2"
proof -
  let ?Q = "\<lambda>k. if k \<in> A then drop (trim_count (the_cache (ca_cache w) k)) (Q k) else Q k"
  have same: "the_cache (ca_cache w1) k = the_cache (ca_cache w) k" if "k \<notin> A" for k by (rule trimmed_toD(3) [OF assms(1) that])
  have "(\<lambda>k. if k \<in> B then drop (trim_count (the_cache (ca_cache w1) k)) (?Q k) else ?Q k) =
      (\<lambda>k. if k \<in> A \<union> B then drop (trim_count (the_cache (ca_cache w) k)) (Q k) else Q k)"
    using assms(2) same by (intro ext) auto
  then have "reuse_ok p M w2 (\<lambda>k. if k \<in> A \<union> B then drop (trim_count (the_cache (ca_cache w) k)) (Q k) else Q k) R"
    using assms(3) unfolding trimmed_to_def by metis
  moreover have "\<forall>k\<in>A \<union> B. rc_allocations (the_cache (ca_cache w2) k) = 0"
    using assms unfolding trimmed_to_def by (metis Un_iff disjoint_iff)
  ultimately show ?thesis using assms(1,3) unfolding trimmed_to_def by simp
qed

lemma trim_cache_run:
  assumes Q: "reuse_ok p M w Q R" and k: "has_slot (ca_cache w) k"
  shows "\<exists>w'. trim_cache k w = (Ok (), w') \<and> trimmed_to p M R Q {k} w w'"
proof -
  let ?c = "rc_allocations_update (\<lambda>_. 0) (the_cache (ca_cache w) k)" and ?n = "trim_count (the_cache (ca_cache w) k)"
  define w1 where "w1 = with_cache k ?c w"
  have a: "on_cache k (modify (rc_allocations_update (\<lambda>_. 0))) w = (Ok (), w1)"
    unfolding w1_def by (rule on_cache_run [OF k]) (simp add: modify_run)
  obtain v where v: "on_cache k (modify (rc_allocations_update (\<lambda>_. 0))) w = (Ok (), v)" "reuse_ok p M v Q R"
    using set_allocations [OF Q k] by blast
  have Q1: "reuse_ok p M w1 Q R" using v a by simp
  have f: "has_slot (ca_cache w1) = has_slot (ca_cache w)" "rc_allocations (the_cache (ca_cache w1) k) = 0"
    "\<And>k'. k' \<noteq> k \<Longrightarrow> the_cache (ca_cache w1) k' = the_cache (ca_cache w) k'"
    using with_cache(1-3) [OF k] by (simp_all add: w1_def)
  define n where "n = i32 (rc_size (the_cache (ca_cache w) k) - rc_allocations (the_cache (ca_cache w) k))"
  have n: "?n = nat n" by (simp add: trim_count_def n_def)
  have run: "trim_cache k w = (if n > 0 then seqp (free_entries k n) (ret ()) w1 else (Ok (), w1))"
    using a k by (simp add: trim_cache_def ask_cache prog_simps n_def)
  have Qn: "(\<lambda>k'. if k' \<in> {k} then drop (trim_count (the_cache (ca_cache w) k')) (Q k') else Q k') = Q(k := drop (nat n) (Q k))"
    using n by auto
  have k1: "has_slot (ca_cache w1) k" using f(1) k by simp
  show ?thesis
  proof (cases "n > 0")
    case True
    obtain m w2 where w2: "free_entries k n w1 = (Ok m, w2)" "reuse_ok p M w2 (Q(k := drop (nat n) (Q k))) R"
      using free_entries_run [OF Q1 k1, of n] by blast
    have "cache_frame k (ca_cache w1) (ca_cache w2)" by (rule free_frame [OF k1 w2(1)])
    then have "trimmed_to p M R Q {k} w w2" using w2(2) f unfolding trimmed_to_def Qn cache_frame_def by simp
    then show ?thesis using run w2(1) True by (simp add: prog_simps)
  next
    case False
    then have "trimmed_to p M R Q {k} w w1" using Q1 f unfolding trimmed_to_def Qn by simp
    then show ?thesis using run False by simp
  qed
qed

lemma trim_list_run:
  "reuse_ok p M w Q R \<Longrightarrow> (\<And>k. k \<in> set ks \<Longrightarrow> has_slot (ca_cache w) k) \<Longrightarrow> distinct ks \<Longrightarrow>
   \<exists>w'. doM (map trim_cache ks) w = (Ok (), w') \<and> trimmed_to p M R Q (set ks) w w'"
proof (induction ks arbitrary: w Q)
  case Nil
  then show ?case using trimmed_refl by (simp add: ret_run)
next
  case (Cons k ks)
  obtain w1 where w1: "trim_cache k w = (Ok (), w1)" "trimmed_to p M R Q {k} w w1"
    using trim_cache_run [OF Cons.prems(1), of k] Cons.prems(2) by auto
  let ?Q = "\<lambda>k'. if k' \<in> {k} then drop (trim_count (the_cache (ca_cache w) k')) (Q k') else Q k'"
  have "reuse_ok p M w1 ?Q R" "\<And>k'. k' \<in> set ks \<Longrightarrow> has_slot (ca_cache w1) k'"
    using w1(2) Cons.prems(2) by (simp_all add: trimmed_to_def)
  then obtain w2 where w2: "doM (map trim_cache ks) w1 = (Ok (), w2)" "trimmed_to p M R ?Q (set ks) w1 w2"
    using Cons.IH [of w1 ?Q] Cons.prems(3) by auto
  have "trimmed_to p M R Q ({k} \<union> set ks) w w2"
    using Cons.prems(3) by (intro trimmed_trans [OF w1(2) _ w2(2)]) simp
  then show ?case using w1(1) w2(1) by (simp add: doM_Ok)
qed

definition slots_of :: "thread_cache \<Rightarrow> SizeClass \<Rightarrow> (SizeClass \<times> nat) set" where
  "slots_of t c = {k. fst k = c \<and> has_slot t k}"

lemma trim_class_run:
  assumes Q: "reuse_ok p M w Q R"
  shows "\<exists>w'. trim_class c w = (Ok (), w') \<and> trimmed_to p M R Q (slots_of (ca_cache w) c) w w'"
proof (cases "tc_caches (ca_cache w) c")
  case None
  then have "slots_of (ca_cache w) c = {}" by (auto simp: slots_of_def has_slot_def)
  then show ?thesis using None trimmed_refl [OF Q] by (simp add: trim_class_def prog_simps)
next
  case (Some cs)
  have "shape_ok p (ca_cache w)" using reuse_okD(1) [OF Q] stock_okD(1) by blast
  then have n: "nat (tc_sizes (ca_cache w) c) = length cs" using Some by (simp add: shape_ok_def)
  have s: "slots_of (ca_cache w) c = set (map (Pair c) [0..<length cs])" using Some by (auto simp: slots_of_def has_slot_def image_iff)
  have "distinct (map (Pair c) [0..<length cs])" by (simp add: distinct_map inj_on_def)
  then obtain w' where w': "doM (map trim_cache (map (Pair c) [0..<length cs])) w = (Ok (), w')"
    "trimmed_to p M R Q (slots_of (ca_cache w) c) w w'"
    using trim_list_run [OF Q, of "map (Pair c) [0..<length cs]"] unfolding s [symmetric] by (auto simp: slots_of_def)
  have "trim_class c w = doM (map trim_cache (map (Pair c) [0..<length cs])) w"
    using Some n by (simp add: trim_class_def prog_simps comp_def)
  then show ?thesis using w' by simp
qed

text \<open>Every queue loses exactly its first \<open>trim_count\<close> entries, to the arena.\<close>

lemma trim_exact:
  assumes Q: "reuse_ok p M w Q R"
  shows "\<exists>w'. trim w = (Ok (), w') \<and> reuse_ok p M w' (\<lambda>k. drop (trim_count (the_cache (ca_cache w) k)) (Q k)) R \<and>
    has_slot (ca_cache w') = has_slot (ca_cache w) \<and> (\<forall>k. has_slot (ca_cache w) k \<longrightarrow> rc_allocations (the_cache (ca_cache w') k) = 0)"
proof -
  let ?S = "slots_of (ca_cache w)" and ?cut = "\<lambda>A k. if k \<in> A then drop (trim_count (the_cache (ca_cache w) k)) (Q k) else Q k"
  have slots: "slots_of (ca_cache v) = ?S" if "trimmed_to p M R Q A w v" for v A
    unfolding slots_of_def trimmed_toD(2) [OF that] ..
  have more: "\<exists>v'. trim_class c v = (Ok (), v') \<and> trimmed_to p M R Q (A \<union> ?S c) w v'"
    if "trimmed_to p M R Q A w v" "A \<inter> ?S c = {}" for A v c
  proof -
    have "reuse_ok p M v (?cut A) R" by (rule trimmed_toD(1) [OF that(1)])
    then obtain v' where "trim_class c v = (Ok (), v')" "trimmed_to p M R (?cut A) (slots_of (ca_cache v) c) v v'"
      using trim_class_run by blast
    then show ?thesis using trimmed_trans [OF that] slots [OF that(1)] by auto
  qed
  have apart: "?S Tiny \<inter> ?S Small = {}" "(?S Tiny \<union> ?S Small) \<inter> ?S Normal = {}" by (auto simp: slots_of_def)
  obtain w1 where w1: "trim_class Tiny w = (Ok (), w1)" "trimmed_to p M R Q (?S Tiny) w w1" using trim_class_run [OF Q] by blast
  obtain w2 where w2: "trim_class Small w1 = (Ok (), w2)" "trimmed_to p M R Q (?S Tiny \<union> ?S Small) w w2"
    using more [OF w1(2) apart(1)] by blast
  obtain w3 where w3: "trim_class Normal w2 = (Ok (), w3)" "trimmed_to p M R Q (?S Tiny \<union> ?S Small \<union> ?S Normal) w w3"
    using more [OF w2(2) apart(2)] by blast
  have all: "k \<in> ?S Tiny \<union> ?S Small \<union> ?S Normal \<longleftrightarrow> has_slot (ca_cache w) k" for k
    by (cases "fst k") (auto simp: slots_of_def)
  have no: "Q k = []" if "\<not> has_slot (ca_cache w) k" for k using reuse_okD(1) [OF Q] that unfolding stock_ok_def by metis
  have "?cut (?S Tiny \<union> ?S Small \<union> ?S Normal) = (\<lambda>k. drop (trim_count (the_cache (ca_cache w) k)) (Q k))"
    unfolding all using no by auto
  then have "reuse_ok p M w3 (\<lambda>k. drop (trim_count (the_cache (ca_cache w) k)) (Q k)) R" using trimmed_toD(1) [OF w3(2)] by simp
  moreover have "\<forall>k. has_slot (ca_cache w) k \<longrightarrow> rc_allocations (the_cache (ca_cache w3) k) = 0"
    using trimmed_toD(4) [OF w3(2)] all by blast
  moreover have "has_slot (ca_cache w3) = has_slot (ca_cache w)" by (rule trimmed_toD(2) [OF w3(2)])
  ultimately show ?thesis using w1(1) w2(1) w3(1) by (intro exI [of _ w3]) (simp add: trim_def doM_Ok seqp_Ok ret_run)
qed

lemma trim_run: "reusable p M w R \<Longrightarrow> leaves p M trim w () R"
  unfolding reusable_def leaves_def using trim_exact by blast


section \<open>Handing out\<close>

text \<open>What a cache for regions of \<open>norm\<close> bytes gives: nothing, or the region that has waited longest.\<close>

lemma cache_allocate_run:
  assumes Q: "reuse_ok p M w Q R" and k: "has_slot (ca_cache w) k" "slot_size p k = norm" and req: "1 \<le> req" "req \<le> norm" and p: "12 \<le> p"
  defines "x \<equiv> if Q k = [] then None else Some ((hd (Q k))\<lparr>rg_length := req\<rparr>)"
  shows "leaves p M (cache_allocate k req) w x (R \<union> set_option x)" "x = Some r \<Longrightarrow> r \<notin> R \<and> rg_length r = req \<and> rg_maxLength r = norm"
proof -
  note o = reuse_okD [OF Q]
  have "leaves p M (cache_allocate k req) w x (R \<union> set_option x) \<and> (\<forall>r. x = Some r \<longrightarrow> r \<notin> R \<and> rg_length r = req \<and> rg_maxLength r = norm)"
  proof (cases "Q k")
    case Nil
    then obtain w' where w': "take_entry k w = (Ok no_entry, w')" "ca_arena w' = ca_arena w" "stock_ok p (ca_cache w') Q"
      "has_slot (ca_cache w') = has_slot (ca_cache w)" using take_entry_run [OF o(1) k(1)] by (auto simp: fun_upd_idem)
    then have "cache_allocate k req w = (Ok None, w')" by (simp add: cache_allocate_def prog_simps no_entry_def)
    moreover have "reuse_ok p M w' Q R" using w' o by (simp add: reuse_ok_def)
    ultimately have "leaves p M (cache_allocate k req) w None R" using w'(4) by (auto simp: leaves_def reusable_def)
    then show ?thesis using Nil by (simp add: x_def)
  next
    case (Cons r rs)
    obtain w1 where w1: "take_entry k w = (Ok (entry_of r), w1)" "ca_arena w1 = ca_arena w" "stock_ok p (ca_cache w1) (Q(k := rs))"
      "has_slot (ca_cache w1) = has_slot (ca_cache w)" "R \<union> waiting (Q(k := rs)) = (R \<union> waiting Q) - {r}" "R \<inter> waiting (Q(k := rs)) = {}"
      "r \<in> R \<union> waiting Q" "rg_handle r \<noteq> 0" "en_chunk (entry_of r) \<noteq> 0" using take_waiting [OF Q k(1) Cons] by blast
    have norm: "rg_maxLength r = norm" using stock_okD(4) [OF o(1), of r k] Cons k(2) by simp
    define r' where "r' = r\<lparr>rg_length := req\<rparr>"
    have k1: "has_slot (ca_cache w1) k" using k(1) w1(4) by simp
    have "rc_subpage (the_cache (ca_cache w1) k) = (fst k \<noteq> Normal)"
      using stock_okD(2) [OF w1(3) k1] by (simp add: stocked_def)
    also have "\<dots> = (rg_maxLength r < 2 ^ p)" using slot_class [OF stock_okD(1) [OF o(1)] k(1) p] k(2) norm by simp
    finally have sub: "rc_subpage (the_cache (ca_cache w1) k) = (rg_maxLength r < 2 ^ p)" .
    note re = region_reuse [OF o(3) w1(7,8) req(1), unfolded norm, OF req(2), folded r'_def]
    have ini: "on_arena (cache_initBuf (rg_maxLength r < 2 ^ p) (entry_of r) req) w1 = (Ok r', w1)"
      using re(1) w1(2) norm by (simp add: on_arena_def zoom_def)
    have fresh: "r' \<notin> R \<union> waiting (Q(k := rs))" using re(3) w1(5) by blast
    have "arena_good p M (ca_arena w1) (insert r' R \<union> waiting (Q(k := rs)))" using re(2) w1(2,5) by simp
    then have "reuse_ok p M w1 (Q(k := rs)) (insert r' R)" using w1(3,6) fresh by (simp add: reuse_ok_def)
    then obtain w2 where w2: "on_cache k (modify (rc_allocations_update (\<lambda>n. i32 (n + 1)))) w1 = (Ok (), w2)"
      "reuse_ok p M w2 (Q(k := rs)) (insert r' R)" "has_slot (ca_cache w2) = has_slot (ca_cache w1)" using set_allocations [OF _ k1] by blast
    have "cache_allocate k req w = (Ok (Some r'), w2)"
      using w1(1,9) ini w2(1) k1 sub by (simp add: cache_allocate_def prog_simps ask_cache)
    then have "leaves p M (cache_allocate k req) w (Some r') (insert r' R)" using w2(2,3) w1(4) by (auto simp: leaves_def reusable_def)
    moreover have "x = Some r'" using Cons by (simp add: x_def r'_def)
    moreover have "rg_length r' = req" "rg_maxLength r' = norm" using norm by (simp_all add: r'_def)
    ultimately show ?thesis using fresh by simp
  qed
  then show "leaves p M (cache_allocate k req) w x (R \<union> set_option x)" "x = Some r \<Longrightarrow> r \<notin> R \<and> rg_length r = req \<and> rg_maxLength r = norm"
    by blast+
qed

text \<open>The counters of the whole cache do not matter.\<close>

lemma reusable_counters:
  assumes "reusable p M w R"
  shows "reusable p M (w\<lparr>ca_cache := (ca_cache w)\<lparr>tc_allocations := n\<rparr>\<rparr>) R"
    "has_slot (ca_cache (w\<lparr>ca_cache := (ca_cache w)\<lparr>tc_allocations := n\<rparr>\<rparr>)) = has_slot (ca_cache w)"
proof -
  have h: "has_slot ((ca_cache w)\<lparr>tc_allocations := n\<rparr>) = has_slot (ca_cache w)"
    "the_cache ((ca_cache w)\<lparr>tc_allocations := n\<rparr>) = the_cache (ca_cache w)" by (intro ext; simp add: has_slot_def the_cache_def)+
  have "stock_ok p ((ca_cache w)\<lparr>tc_allocations := n\<rparr>) Q = stock_ok p (ca_cache w) Q" for Q
    by (simp only: stock_ok_def h) (simp add: shape_ok_def)
  then show "reusable p M (w\<lparr>ca_cache := (ca_cache w)\<lparr>tc_allocations := n\<rparr>\<rparr>) R"
    "has_slot (ca_cache (w\<lparr>ca_cache := (ca_cache w)\<lparr>tc_allocations := n\<rparr>\<rparr>)) = has_slot (ca_cache w)"
    using assms h(1) by (simp_all add: reusable_def reuse_ok_def)
qed

lemma count_and_trim:
  assumes "reusable p M w R"
  shows "leaves p M (seqp (upd_cache (tc_allocations_update (\<lambda>n. i32 (n + 1))))
      (seqp (ifp (\<lambda>w. tc_allocations (ca_cache w) \<ge> tc_threshold (ca_cache w))
               (doM [upd_cache (tc_allocations_update (\<lambda>_. 0)), trim]) (ret ())) (ret x))) w x R"
proof -
  define w1 where "w1 = w\<lparr>ca_cache := (ca_cache w)\<lparr>tc_allocations := i32 (tc_allocations (ca_cache w) + 1)\<rparr>\<rparr>"
  define w2 where "w2 = w1\<lparr>ca_cache := (ca_cache w1)\<lparr>tc_allocations := 0\<rparr>\<rparr>"
  have w1: "reusable p M w1 R" "has_slot (ca_cache w1) = has_slot (ca_cache w)" unfolding w1_def by (rule reusable_counters [OF assms])+
  have w2: "reusable p M w2 R" "has_slot (ca_cache w2) = has_slot (ca_cache w1)" unfolding w2_def by (rule reusable_counters [OF w1(1)])+
  obtain w3 where w3: "trim w2 = (Ok (), w3)" "reusable p M w3 R" "has_slot (ca_cache w3) = has_slot (ca_cache w2)"
    using trim_run [OF w2(1)] unfolding leaves_def by blast
  have u: "upd_cache (tc_allocations_update (\<lambda>n. i32 (n + 1))) w = (Ok (), w1)" "upd_cache (tc_allocations_update (\<lambda>_. 0)) w1 = (Ok (), w2)"
    by (simp_all add: upd_cache_def modify_run w1_def w2_def)
  show ?thesis
  proof (cases "tc_allocations (ca_cache w1) \<ge> tc_threshold (ca_cache w1)")
    case True
    then show ?thesis using u w3 w1 w2 by (simp add: leaves_def prog_simps)
  next
    case False
    then show ?thesis using u w1 by (simp add: leaves_def prog_simps)
  qed
qed

lemma allocate_from_leaves:
  assumes "leaves p M (cache_allocate k req) w x R"
  shows "leaves p M (allocate_from (Some k) req) w x R"
proof -
  obtain w' where w': "cache_allocate k req w = (Ok x, w')" "reusable p M w' R" "has_slot (ca_cache w') = has_slot (ca_cache w)"
    using assms unfolding leaves_def by blast
  show ?thesis using count_and_trim [OF w'(2), of x] w' by (simp add: leaves_def allocate_from_def prog_simps)
qed

lemma allocate_from_run:
  assumes w: "reusable p M w R" and k: "found p (ca_cache w) norm (Ok k)" and req: "1 \<le> req" "req \<le> norm" and p: "12 \<le> p"
  shows "\<exists>x. leaves p M (allocate_from k req) w x (R \<union> set_option x) \<and> (\<forall>r. x = Some r \<longrightarrow> r \<notin> R \<and> rg_length r = req \<and> rg_maxLength r = norm)"
proof (cases k)
  case None
  then show ?thesis using w by (intro exI [of _ None]) (simp add: leaves_def allocate_from_def ret_run)
next
  case (Some j)
  then have j: "has_slot (ca_cache w) j" "slot_size p j = norm" using k by (simp_all add: found_def)
  obtain Q where Q: "reuse_ok p M w Q R" using w by (auto simp: reusable_def)
  show ?thesis
    using allocate_from_leaves [OF cache_allocate_run(1) [OF Q j req p]] cache_allocate_run(2) [OF Q j req p] Some by blast
qed


section \<open>Taking back\<close>

lemma region_class:
  assumes good: "arena_good p M s R" and r: "r \<in> R" "rg_handle r \<noteq> 0"
  shows "class_size p M (rg_maxLength r)"
proof -
  obtain T L P Q len t where a: "arena_ok p M s T L P Q" "t \<in> T" "r = region_of p M t (len t)"
    using good_region [OF good r(1)] by metis
  note ok = arena_okD(1) [OF a(1)]
  obtain c where c: "chunks s (token_chunk t) = Some c" "\<not> unpooled c"
    using region_pooled(1) [OF good r(1)] r(2) a(3) region_fields(1) by metis
  have "class_size p M (token_size p M t)"
  proof (cases t)
    case (Run a n)
    then have n: "n \<in> nodes_out s T L (token_chunk t)" using a(2) by (simp add: token_chunk_def nodes_out_def run_nodes_def)
    have "dep n \<le> M" using tree_ok_mem [OF chunk_inv_tree [OF memory_pooled [OF ok c]] n] by simp
    then show ?thesis using Run by (auto simp: class_size_def token_size_def run_bytes_def intro!: exI [of _ "p + M - dep n"])
  next
    case (Elem a n sz i)
    then obtain x where x: "x \<in> L" "elemSize (subs s x) = sz" using heap_okD(8) [OF memory_okD(2) [OF ok]] a(2) by blast
    have "valid_size p sz" using heap_okD(6) [OF memory_okD(2) [OF ok] x(1)] x(2) by (simp add: live_ok_def)
    then show ?thesis using Elem by (simp add: class_size_def token_size_def)
  next
    case (Huge a m)
    then show ?thesis using memory_okD(8) [OF ok, of a m] a(2) c by (auto simp: token_chunk_def)
  qed
  then show ?thesis using a(3) region_fields(4) by metis
qed

lemma cache_add_run:
  assumes Q: "reuse_ok p M w Q R" and k: "has_slot (ca_cache w) k" and r: "r \<in> R" "rg_handle r \<noteq> 0" "rg_maxLength r = slot_size p k"
  shows "if int (length (Q k)) < rc_size (the_cache (ca_cache w) k)
    then \<exists>w'. cache_add k (rg_chunk r) (rg_handle r) w = (Ok True, w') \<and> reuse_ok p M w' (Q(k := Q k @ [r])) (R - {r}) \<and>
      has_slot (ca_cache w') = has_slot (ca_cache w) \<and> same_layout (ca_cache w') (ca_cache w)
    else cache_add k (rg_chunk r) (rg_handle r) w = (Ok False, w)"
proof -
  note o = reuse_okD [OF Q]
  let ?c = "the_cache (ca_cache w) k"
  have st: "stocked (fst k) ?c (Q k)" by (rule stock_okD(2) [OF o(1) k])
  then have q: "queue_is (rc_queue ?c) (map entry_of (Q k))" by (simp add: stocked_def)
  note z = queue_is_size [OF q]
  define m where "m = ifp (\<lambda>c. q_size (rc_queue c) \<ge> rc_size c) (ret False) (seqp (on_queue (queue_add (entry_of r))) (ret True))"
  have run: "cache_add k (rg_chunk r) (rg_handle r) w = on_cache k m w" by (simp add: cache_add_def m_def entry_of_def)
  show ?thesis
  proof (cases "q_size (rc_queue ?c) \<ge> rc_size ?c")
    case True
    then have "m ?c = (Ok False, ?c)" by (simp add: m_def prog_simps)
    then have "cache_add k (rg_chunk r) (rg_handle r) w = (Ok False, w)"
      unfolding run using on_cache_run [OF k] same_cache [OF k] by metis
    then show ?thesis using True z by simp
  next
    case False
    have room: "int (length (map entry_of (Q k))) < INT_MAX" using False z st by (simp add: stocked_def)
    obtain q' where q': "add_one (entry_of r) (rc_queue ?c) = (Ok (), q')" "queue_is q' (map entry_of (Q k) @ [entry_of r])"
      using add_one_run [OF q room] by blast
    let ?c' = "?c\<lparr>rc_queue := q'\<rparr>" and ?Q = "Q(k := Q k @ [r])"
    have "m ?c = (Ok True, ?c')"
      using False q'(1) by (simp add: m_def ifp_run) (simp add: on_queue_def zoom_def queue_add_def prog_simps)
    then have go: "cache_add k (rg_chunk r) (rg_handle r) w = (Ok True, with_cache k ?c' w)"
      unfolding run by (rule on_cache_run [OF k])
    have away: "r \<notin> set (Q k')" for k' using o(2) r(1) unfolding waiting_def by blast
    have "stock_ok p (ca_cache (with_cache k ?c' w)) ?Q"
    proof (rule stock_update [OF o(1) k])
      show "stocked (fst k) ?c' (Q k @ [r])" using st q'(2) False z by (simp add: stocked_def)
      show "distinct (Q k @ [r])" using stock_okD(3) [OF o(1)] away by simp
      show "rg_maxLength r' = slot_size p k \<and> rg_handle r' \<noteq> 0" if "r' \<in> set (Q k @ [r])" for r'
        using stock_okD(4,5) [OF o(1), of r' k] that r(2,3) by auto
      show "r' \<notin> set (Q k')" if "k' \<noteq> k" "r' \<in> set (Q k @ [r])" for k' r'
        using stock_okD(6) [OF o(1), of k k' r'] that away [of k'] by (cases "r' = r") simp_all
    qed
    moreover have wq: "waiting ?Q = insert r (waiting Q)" unfolding waiting_update by (simp add: waiting_def) blast
    moreover have "(R - {r}) \<union> insert r (waiting Q) = R \<union> waiting Q" using r(1) by blast
    moreover have "(R - {r}) \<inter> insert r (waiting Q) = {}" using o(2) by blast
    ultimately have "reuse_ok p M (with_cache k ?c' w) ?Q (R - {r})" using o(3) with_cache(4) [OF k] by (simp add: reuse_ok_def)
    then show ?thesis using False z go with_cache(1,7) [OF k] by simp
  qed
qed

lemma tc_add_run:
  assumes w: "reusable p M w R" and r: "r \<in> R" "rg_handle r \<noteq> 0"
  shows "\<exists>b. leaves p M (tc_add (rg_chunk r) (rg_handle r) (rg_maxLength r) (class_code (sizeClass (2 ^ p) (rg_maxLength r)))) w b
    (if b then R - {r} else R)"
proof -
  obtain Q where Q: "reuse_ok p M w Q R" using w by (auto simp: reusable_def)
  note o = reuse_okD [OF Q]
  obtain T L P Q' where "arena_ok p M (ca_arena w) T L P Q'" using o(3) unfolding arena_good_def by blast
  then have geo: "arena_geo p M (ca_arena w)" using arena_okD(1) memory_okD(1) by blast
  have "class_size p M (rg_maxLength r)" using region_class [OF o(3)] r by blast
  from lookup_found [OF geo stock_okD(1) [OF o(1)] this] show ?thesis unfolding found_def
  proof (elim disjE exE conjE)
    assume "class_lookup (sizeClass (2 ^ p) (rg_maxLength r)) (rg_maxLength r) (ca_cache w) = Ok None"
    then show ?thesis using w by (intro exI [of _ False]) (simp add: leaves_def tc_add_def cache_for_class prog_simps)
  next
    fix k assume k: "class_lookup (sizeClass (2 ^ p) (rg_maxLength r)) (rg_maxLength r) (ca_cache w) = Ok (Some k)"
      "has_slot (ca_cache w) k" "slot_size p k = rg_maxLength r"
    have "\<exists>b. leaves p M (cache_add k (rg_chunk r) (rg_handle r)) w b (if b then R - {r} else R)"
      using cache_add_run [OF Q k(2) r k(3) [symmetric]] w by (auto simp: leaves_def reusable_def split: if_splits)
    then show ?thesis using k(1) by (simp add: leaves_def tc_add_def cache_for_class prog_simps)
  qed
qed


section \<open>An arena with its cache, over time\<close>

text \<open>The cache that is asked for regions of \<open>norm\<close> bytes.\<close>

definition allocate_cached :: "SizeClass \<Rightarrow> int \<Rightarrow> int \<Rightarrow> (cached_arena, region option) prog" where
  "allocate_cached c req norm = (case c of Tiny \<Rightarrow> allocateTiny req norm | Small \<Rightarrow> allocateSmall req norm | Normal \<Rightarrow> allocateNormalCached req norm)"

text \<open>
  A history of an arena and the cache it creates: requests are served by the arena or, when the cache
  of their size class has a region, from there; regions that are out go back to the arena or, when
  they are not a chunk of their own, are offered to the cache; the cache is trimmed at any time.
  \<open>R\<close> are the regions that are out.
\<close>

inductive cache_history :: "nat \<Rightarrow> nat \<Rightarrow> (nat \<Rightarrow> i64bits) \<Rightarrow> (arena \<Rightarrow> thread_cache) \<Rightarrow> cached_arena \<Rightarrow> region set \<Rightarrow> bool"
  for p M junk new_cache where
  start: "s = PoolArena_new junk (2 ^ p) (int M) (int p) (2 ^ (p + M)) \<Longrightarrow> cache_history p M junk new_cache \<lparr>ca_arena = s, ca_cache = new_cache s\<rparr> {}"
| acquire: "cache_history p M junk new_cache w R \<Longrightarrow> 1 \<le> req \<Longrightarrow> on_arena (arena_allocate req) w = (Ok r, w') \<Longrightarrow>
    cache_history p M junk new_cache w' (insert r R)"
| release: "cache_history p M junk new_cache w R \<Longrightarrow> r \<in> R \<Longrightarrow> on_arena (arena_free (rg_chunk r) (rg_handle r)) w = (Ok (), w') \<Longrightarrow>
    cache_history p M junk new_cache w' (R - {r})"
| offer: "cache_history p M junk new_cache w R \<Longrightarrow> r \<in> R \<Longrightarrow> chunks (ca_arena w) (rg_chunk r) = Some c \<Longrightarrow> \<not> unpooled c \<Longrightarrow>
    tc_add (rg_chunk r) (rg_handle r) (rg_maxLength r) (class_code (sizeClass (2 ^ p) (rg_maxLength r))) w = (Ok b, w') \<Longrightarrow>
    cache_history p M junk new_cache w' (if b then R - {r} else R)"
| reuse: "cache_history p M junk new_cache w R \<Longrightarrow> 1 \<le> req \<Longrightarrow> norm = normalizeCapacity (2 ^ (p + M)) req \<Longrightarrow> norm \<le> 2 ^ (p + M) \<Longrightarrow>
    allocate_cached (sizeClass (2 ^ p) norm) req norm w = (Ok x, w') \<Longrightarrow>
    cache_history p M junk new_cache w' (R \<union> set_option x)"
| trimmed: "cache_history p M junk new_cache w R \<Longrightarrow> trim w = (Ok (), w') \<Longrightarrow> cache_history p M junk new_cache w' R"

lemma new_cache_stock:
  fixes junk :: "nat \<Rightarrow> i64bits" and maxCached threshold :: int
  assumes p: "12 \<le> p" "p + M \<le> 30" and n: "tinySize \<le> INT_MAX" "smallSize \<le> INT_MAX" "normalSize \<le> INT_MAX"
  defines "s \<equiv> PoolArena_new junk (2 ^ p) (int M) (int p) (2 ^ (p + M))"
  defines "t \<equiv> PoolThreadCache_new s tinySize smallSize normalSize maxCached threshold"
  shows "stock_ok p t (\<lambda>_. [])"
proof -
  have s: "ar_pageShifts s = int p" "ar_pageSize s = 2 ^ p" by (simp_all add: s_def PoolArena_new_def Let_def)
  have sh: "tc_shifts t = int p"
    by (simp add: t_def PoolThreadCache_new_def Let_def s cache_log2_def cache_log2_loop_eq [of p] split: prod.split)
  have sizes: "tc_sizes t Tiny = 32" "tc_sizes t Small = int p - 9"
    by (simp_all add: t_def PoolThreadCache_new_def Let_def s numTinySubpagePools_def numSmallSubpagePools_def split: prod.split)
  have new: "rc \<in> set cs \<Longrightarrow> stocked c rc []" "tc_sizes t c = int (length cs)" if "tc_caches t c = Some cs" for c cs rc
    using that n queue_is_new p(1)
    by (cases c; auto simp: t_def PoolThreadCache_new_def Let_def s createSubPageCaches_def createNormalCaches_def stocked_def
        MemoryRegionCache_new_def numTinySubpagePools_def numSmallSubpagePools_def split: if_splits)+
  have "stocked (fst k) (the_cache t k) []" if k: "has_slot t k" for k
    using k new(1) by (auto simp: has_slot_def the_cache_def)
  moreover have "shape_ok p t" using sh sizes new(2) by (simp add: shape_ok_def)
  ultimately show ?thesis unfolding stock_ok_def by (simp del: split_paired_All)
qed



lemma arena_acquires:
  assumes "reusable p M w R" "1 \<le> req"
  shows "\<exists>r w'. on_arena (arena_allocate req) w = (Ok r, w') \<and> reusable p M w' (insert r R) \<and> r \<notin> R"
proof -
  obtain Q where Q: "reuse_ok p M w Q R" using assms(1) by (auto simp: reusable_def)
  note o = reuse_okD [OF Q]
  obtain r s' where r: "arena_allocate req (ca_arena w) = (Ok r, s')" "r \<notin> R \<union> waiting Q" "arena_good p M s' (insert r (R \<union> waiting Q))"
    using good_acquire [OF o(3) assms(2)] by blast
  then have "reuse_ok p M (w\<lparr>ca_arena := s'\<rparr>) Q (insert r R)" using o(1,2) by (simp add: reuse_ok_def)
  then show ?thesis using r(1,2) by (auto simp: reusable_def on_arena_def zoom_def)
qed

lemma arena_releases:
  assumes "reusable p M w R" "r \<in> R"
  shows "\<exists>w'. on_arena (arena_free (rg_chunk r) (rg_handle r)) w = (Ok (), w') \<and> reusable p M w' (R - {r})"
proof -
  obtain Q where Q: "reuse_ok p M w Q R" using assms(1) by (auto simp: reusable_def)
  note o = reuse_okD [OF Q]
  have "(R \<union> waiting Q) - {r} = (R - {r}) \<union> waiting Q" using o(2) assms(2) by blast
  then obtain s' where r: "arena_free (rg_chunk r) (rg_handle r) (ca_arena w) = (Ok (), s')" "arena_good p M s' ((R - {r}) \<union> waiting Q)"
    using good_release [OF o(3), of r] assms(2) by auto
  have "(R - {r}) \<inter> waiting Q = {}" using o(2) by blast
  then have "reuse_ok p M (w\<lparr>ca_arena := s'\<rparr>) Q (R - {r})" using r(2) o(1) by (simp add: reuse_ok_def)
  then show ?thesis using r(1) by (auto simp: reusable_def on_arena_def zoom_def)
qed

lemma reusable_geo:
  assumes "reusable p M w R"
  shows "arena_geo p M (ca_arena w)" "shape_ok p (ca_cache w)"
proof -
  obtain Q where Q: "reuse_ok p M w Q R" using assms by (auto simp: reusable_def)
  obtain T L P Q' where "arena_ok p M (ca_arena w) T L P Q'" using reuse_okD(3) [OF Q] unfolding arena_good_def by blast
  then show "arena_geo p M (ca_arena w)" using arena_okD(1) memory_okD(1) by blast
  show "shape_ok p (ca_cache w)" using reuse_okD(1) [OF Q] stock_okD(1) by blast
qed

lemma allocate_cached_lookup: "class_lookup c norm (ca_cache w) = Ok k \<Longrightarrow> allocate_cached c req norm w = allocate_from k req w"
  by (cases c) (simp_all add: allocate_cached_def allocateTiny_def allocateSmall_def allocateNormalCached_def class_lookup_def prog_simps)

lemma allocate_cached_run:
  assumes w: "reusable p M w R" and req: "1 \<le> req"
  defines "norm \<equiv> normalizeCapacity (2 ^ (p + M)) req"
  assumes small: "norm \<le> 2 ^ (p + M)"
  shows "\<exists>x. leaves p M (allocate_cached (sizeClass (2 ^ p) norm) req norm) w x (R \<union> set_option x) \<and>
    (\<forall>r. x = Some r \<longrightarrow> r \<notin> R \<and> rg_length r = req \<and> rg_maxLength r = norm)"
proof -
  have p: "12 \<le> p" "p + M \<le> 30" using reusable_geo(1) [OF w] by (simp_all add: arena_geo_def)
  note r = rounded [OF req p, folded norm_def]
  define c where "c = sizeClass (2 ^ p) norm"
  have f: "found p (ca_cache w) norm (class_lookup c norm (ca_cache w))"
    unfolding c_def by (rule lookup_found [OF reusable_geo [OF w] r(2) [OF small]])
  then obtain k where k: "class_lookup c norm (ca_cache w) = Ok k" by (auto simp: found_def)
  show ?thesis using allocate_from_run [OF w _ req r(1) p(1), of k] f k allocate_cached_lookup [OF k] unfolding c_def by (simp add: leaves_def)
qed

lemma history_reusable:
  assumes "cache_history p M junk (\<lambda>s. PoolThreadCache_new s tinySize smallSize normalSize maxCached threshold) w R"
    and p: "12 \<le> p" "M \<le> 14" "p + M \<le> 30" and n: "tinySize \<le> INT_MAX" "smallSize \<le> INT_MAX" "normalSize \<le> INT_MAX"
  shows "reusable p M w R"
  using assms(1)
proof induction
  case (start s)
  have "waiting (\<lambda>_. []) = {}" by (simp add: waiting_def)
  then show ?case using new_cache_stock [OF p(1,3) n, of junk maxCached threshold] new_good [OF p, of junk] start
    unfolding reusable_def reuse_ok_def by (intro exI [of _ "\<lambda>_. []"]) simp
next
  case (acquire w R req r w')
  then show ?case using arena_acquires [of p M w R req] by auto
next
  case (release w R r w')
  then show ?case using arena_releases [of p M w R r] by auto
next
  case (offer w R r c b w')
  obtain Q where Q: "reuse_ok p M w Q R" using offer.IH by (auto simp: reusable_def)
  have "rg_handle r \<noteq> 0" using region_pooled(1) [OF reuse_okD(3) [OF Q], of r] offer(2-4) by auto
  then show ?case using tc_add_run [OF offer.IH offer(2)] offer(5) by (auto simp: leaves_def)
next
  case (reuse w R req norm x w')
  then obtain x' where "leaves p M (allocate_cached (sizeClass (2 ^ p) norm) req norm) w x' (R \<union> set_option x')"
    using allocate_cached_run [OF reuse.IH reuse(2)] by blast
  then show ?case using reuse(5) by (auto simp: leaves_def)
next
  case (trimmed w R w')
  then show ?case using trim_run [of p M w R] by (auto simp: leaves_def)
qed


section \<open>Properties\<close>

text \<open>
  C7: memory safety with the cache. Over every history of an arena and its cache, a region that is
  out lies inside its chunk and shares no byte with another region that is out, also when it, or the
  other one, waited in the cache and was handed out again without the arena.
\<close>

theorem cached_regions_apart:
  assumes "cache_history p M junk (\<lambda>s. PoolThreadCache_new s tinySize smallSize normalSize maxCached threshold) w R"
    and "12 \<le> p" "M \<le> 14" "p + M \<le> 30" "tinySize \<le> INT_MAX" "smallSize \<le> INT_MAX" "normalSize \<le> INT_MAX"
  shows "(\<forall>r\<in>R. rg_length r \<le> rg_maxLength r \<and>
      (\<exists>c. chunks (ca_arena w) (rg_chunk r) = Some c \<and> 0 \<le> rg_offset r \<and> rg_offset r + rg_maxLength r \<le> chunkSize c)) \<and>
    (\<forall>r\<in>R. \<forall>r'\<in>R. r \<noteq> r' \<longrightarrow> rg_chunk r \<noteq> rg_chunk r' \<or>
      {rg_offset r..<rg_offset r + rg_maxLength r} \<inter> {rg_offset r'..<rg_offset r' + rg_maxLength r'} = {})"
proof -
  obtain Q where Q: "arena_good p M (ca_arena w) (R \<union> waiting Q)"
    using history_reusable [OF assms] unfolding reusable_def reuse_ok_def by blast
  show ?thesis using region_inside [OF Q] ra.bytes_apart [OF Q] by blast
qed

text \<open>An arena with a cache, where a region of 112 bytes is out and its cache is empty.\<close>

lemma cached_example:
  defines "mk \<equiv> \<lambda>s. PoolThreadCache_new s 512 256 64 32768 8192"
  shows "\<exists>w r c. cache_history 12 1 (\<lambda>_. 7) mk w {r} \<and> rg_length r = 100 \<and> rg_maxLength r = 112 \<and>
    chunks (ca_arena w) (rg_chunk r) = Some c \<and> \<not> unpooled c \<and> class_lookup Tiny 112 (ca_cache w) = Ok (Some (Tiny, 7)) \<and>
    q_size (rc_queue (the_cache (ca_cache w) (Tiny, 7))) = 0"
proof -
  define s where "s = PoolArena_new (\<lambda>_. 7) (2 ^ 12) (int 1) (int 12) (2 ^ (12 + 1))"
  define w where "w = \<lparr>ca_arena = s, ca_cache = mk s\<rparr>"
  have n: "normalizeCapacity (2 ^ (12 + 1)) 100 = 112" by code_simp
  have "arena_good 12 1 s {}" unfolding s_def by (rule new_good) simp_all
  then obtain r s' where r: "arena_allocate 100 s = (Ok r, s')" "rg_length r = 100" "rg_maxLength r = 112"
    "\<exists>c. chunks s' (rg_chunk r) = Some c \<and> \<not> unpooled c" using good_acquire [of 12 1 s "{}" 100] unfolding n by auto
  have start: "cache_history 12 1 (\<lambda>_. 7) mk w {}" unfolding w_def by (rule cache_history.start) (simp add: s_def)
  have "cache_history 12 1 (\<lambda>_. 7) mk (w\<lparr>ca_arena := s'\<rparr>) {r}"
    by (rule cache_history.acquire [OF start, of 100]) (use r(1) in \<open>simp_all add: on_arena_def zoom_def w_def\<close>)
  moreover have t: "tc_sizes (mk s) Tiny = 32" "tc_caches (mk s) Tiny = Some (replicate 32 (MemoryRegionCache_new 512 Tiny True))"
    by (simp_all add: mk_def PoolThreadCache_new_def Let_def numTinySubpagePools_def createSubPageCaches_def split: prod.split)
  have "class_lookup Tiny 112 (mk s) = Ok (Some (Tiny, 7))"
    by (simp add: class_lookup_def cacheForTiny_def tinyIdx_def cache_at_def t drop_bit_eq_div)
  moreover have "q_size (rc_queue (the_cache (mk s) (Tiny, 7))) = 0"
    by (simp add: the_cache_def t MemoryRegionCache_new_def ObjectQueue_new_def)
  ultimately show ?thesis using r(2-4) by (intro exI [of _ "w\<lparr>ca_arena := s'\<rparr>"] exI [of _ r]) (auto simp: w_def)
qed

theorem cached_regions_apart_witness:
  "\<exists>w r c. cache_history 12 1 (\<lambda>_. 7) (\<lambda>s. PoolThreadCache_new s 512 256 64 32768 8192) w {r} \<and>
    chunks (ca_arena w) (rg_chunk r) = Some c \<and> 0 \<le> rg_offset r \<and> rg_offset r + 112 \<le> chunkSize c"
proof -
  obtain w r where h: "cache_history 12 1 (\<lambda>_. 7) (\<lambda>s. PoolThreadCache_new s 512 256 64 32768 8192) w {r}" "rg_maxLength r = 112"
    using cached_example by blast
  then show ?thesis using cached_regions_apart [OF h(1)] by auto
qed

text \<open>
  C8: no call of the cache fails. After every history a request goes unanswered by the cache or gets a
  region of exactly its size class and length that was not out, and every region that is not a chunk of
  its own can be offered. With \<open>Q k\<close> the regions whose entries wait in the queue \<open>k\<close>, a trim returns and
  takes from every queue exactly its first size - allocations entries (none when that is not positive) and gives
  those regions, and no others, back to the arena (\<open>reuse_ok\<close>: the queues hold the entries of \<open>Q\<close>, and
  what the arena has handed out is what is out together with what waits); the counter starts again at 0.
\<close>

theorem cache_calls_succeed:
  assumes "cache_history p M junk (\<lambda>s. PoolThreadCache_new s tinySize smallSize normalSize maxCached threshold) w R"
    and "12 \<le> p" "M \<le> 14" "p + M \<le> 30" "tinySize \<le> INT_MAX" "smallSize \<le> INT_MAX" "normalSize \<le> INT_MAX"
  shows "(\<forall>req norm. 1 \<le> req \<and> norm = normalizeCapacity (2 ^ (p + M)) req \<and> norm \<le> 2 ^ (p + M) \<longrightarrow>
      (\<exists>x w'. allocate_cached (sizeClass (2 ^ p) norm) req norm w = (Ok x, w') \<and>
        (\<forall>r. x = Some r \<longrightarrow> r \<notin> R \<and> rg_length r = req \<and> rg_maxLength r = norm))) \<and>
    (\<forall>r\<in>R. \<forall>c. chunks (ca_arena w) (rg_chunk r) = Some c \<and> \<not> unpooled c \<longrightarrow>
      (\<exists>b w'. tc_add (rg_chunk r) (rg_handle r) (rg_maxLength r) (class_code (sizeClass (2 ^ p) (rg_maxLength r))) w = (Ok b, w'))) \<and>
    (\<exists>Q w'. reuse_ok p M w Q R \<and> trim w = (Ok (), w') \<and>
      reuse_ok p M w' (\<lambda>k. drop (trim_count (the_cache (ca_cache w) k)) (Q k)) R \<and>
      (\<forall>k. has_slot (ca_cache w) k \<longrightarrow> rc_allocations (the_cache (ca_cache w') k) = 0))"
proof (intro conjI allI ballI impI, elim conjE)
  note ok = history_reusable [OF assms]
  fix req norm :: int assume "1 \<le> req" "norm = normalizeCapacity (2 ^ (p + M)) req" "norm \<le> 2 ^ (p + M)"
  then show "\<exists>x w'. allocate_cached (sizeClass (2 ^ p) norm) req norm w = (Ok x, w') \<and>
        (\<forall>r. x = Some r \<longrightarrow> r \<notin> R \<and> rg_length r = req \<and> rg_maxLength r = norm)"
    using allocate_cached_run [OF ok] unfolding leaves_def by blast
next
  note ok = history_reusable [OF assms]
  fix r c assume r: "r \<in> R" "chunks (ca_arena w) (rg_chunk r) = Some c \<and> \<not> unpooled c"
  obtain Q where Q: "reuse_ok p M w Q R" using ok by (auto simp: reusable_def)
  have "rg_handle r \<noteq> 0" using region_pooled(1) [OF reuse_okD(3) [OF Q], of r] r by auto
  then show "\<exists>b w'. tc_add (rg_chunk r) (rg_handle r) (rg_maxLength r) (class_code (sizeClass (2 ^ p) (rg_maxLength r))) w = (Ok b, w')"
    using tc_add_run [OF ok r(1)] unfolding leaves_def by blast
next
  obtain Q where "reuse_ok p M w Q R" using history_reusable [OF assms] by (auto simp: reusable_def)
  then show "\<exists>Q w'. reuse_ok p M w Q R \<and> trim w = (Ok (), w') \<and>
      reuse_ok p M w' (\<lambda>k. drop (trim_count (the_cache (ca_cache w) k)) (Q k)) R \<and>
      (\<forall>k. has_slot (ca_cache w) k \<longrightarrow> rc_allocations (the_cache (ca_cache w') k) = 0)"
    using trim_exact by blast
qed


theorem cache_calls_succeed_witness:
  "\<exists>w r b w'. cache_history 12 1 (\<lambda>_. 7) (\<lambda>s. PoolThreadCache_new s 512 256 64 32768 8192) w {r} \<and>
    tc_add (rg_chunk r) (rg_handle r) 112 (class_code (sizeClass (2 ^ 12) 112)) w = (Ok b, w')"
proof -
  obtain w r c where h: "cache_history 12 1 (\<lambda>_. 7) (\<lambda>s. PoolThreadCache_new s 512 256 64 32768 8192) w {r}" "rg_maxLength r = 112"
    "chunks (ca_arena w) (rg_chunk r) = Some c" "\<not> unpooled c"
    using cached_example by blast
  have "\<forall>r'\<in>{r}. \<forall>c. chunks (ca_arena w) (rg_chunk r') = Some c \<and> \<not> unpooled c \<longrightarrow>
      (\<exists>b w'. tc_add (rg_chunk r') (rg_handle r') (rg_maxLength r') (class_code (sizeClass (2 ^ 12) (rg_maxLength r'))) w = (Ok b, w'))"
    using cache_calls_succeed [OF h(1)] by simp
  then show ?thesis using h by fastforce
qed

text \<open>
  C9: what is offered is used again. If the cache of its size class exists and is empty, a region that is
  out is accepted, and the next request of that class gets the same memory, for the length it asks for.
\<close>

theorem offered_region_comes_back:
  assumes "cache_history p M junk (\<lambda>s. PoolThreadCache_new s tinySize smallSize normalSize maxCached threshold) w R"
    and "12 \<le> p" "M \<le> 14" "p + M \<le> 30" "tinySize \<le> INT_MAX" "smallSize \<le> INT_MAX" "normalSize \<le> INT_MAX"
    and r: "r \<in> R" "chunks (ca_arena w) (rg_chunk r) = Some c" "\<not> unpooled c" "norm = rg_maxLength r" "cls = sizeClass (2 ^ p) norm"
    and k: "class_lookup cls norm (ca_cache w) = Ok (Some k)" "q_size (rc_queue (the_cache (ca_cache w) k)) = 0"
    and req: "1 \<le> req" "req \<le> norm"
  shows "\<exists>w' w''. tc_add (rg_chunk r) (rg_handle r) norm (class_code cls) w = (Ok True, w') \<and>
    allocate_cached cls req norm w' = (Ok (Some (r\<lparr>rg_length := req\<rparr>)), w'')"
proof -
  note ok = history_reusable [OF assms(1-7)]
  obtain Q where Q: "reuse_ok p M w Q R" using ok by (auto simp: reusable_def)
  note o = reuse_okD [OF Q]
  have h: "rg_handle r \<noteq> 0" using region_pooled(1) [OF o(3), of r] r(1-3) by auto
  have sz: "class_size p M norm" using region_class [OF o(3)] r(1,4) h by blast
  then have s: "has_slot (ca_cache w) k" "slot_size p k = norm"
    using lookup_found [OF reusable_geo [OF ok] sz] k(1) r(5) by (auto simp: found_def)
  have "stocked (fst k) (the_cache (ca_cache w) k) (Q k)" by (rule stock_okD(2) [OF o(1) s(1)])
  then have e: "Q k = []" "int (length (Q k)) < rc_size (the_cache (ca_cache w) k)"
    using queue_is_size k(2) by (force simp: stocked_def)+
  obtain w' where w': "cache_add k (rg_chunk r) (rg_handle r) w = (Ok True, w')" "reuse_ok p M w' (Q(k := Q k @ [r])) (R - {r})"
    "has_slot (ca_cache w') = has_slot (ca_cache w)" "same_layout (ca_cache w') (ca_cache w)"
    using cache_add_run [OF Q s(1) r(1) h] s(2) r(4) e(2) by auto
  have sk: "has_slot (ca_cache w') k" using w'(3) s(1) by simp
  obtain w'' where w'': "allocate_from (Some k) req w' = (Ok (Some (r\<lparr>rg_length := req\<rparr>)), w'')"
    using allocate_from_leaves [OF cache_allocate_run(1) [OF w'(2) sk s(2) req assms(2)]] e(1) by (auto simp: leaves_def)
  have "allocate_cached cls req norm w' = (Ok (Some (r\<lparr>rg_length := req\<rparr>)), w'')"
    using w'' k(1) allocate_cached_lookup same_lookup [OF w'(4)] by metis
  moreover have "tc_add (rg_chunk r) (rg_handle r) norm (class_code cls) w = (Ok True, w')"
    using w'(1) k(1) by (simp add: tc_add_def cache_for_class prog_simps)
  ultimately show ?thesis by blast
qed


theorem offered_region_comes_back_witness:
  "\<exists>w r w' w''. cache_history 12 1 (\<lambda>_. 7) (\<lambda>s. PoolThreadCache_new s 512 256 64 32768 8192) w {r} \<and>
    tc_add (rg_chunk r) (rg_handle r) 112 (class_code Tiny) w = (Ok True, w') \<and>
    allocate_cached Tiny 105 112 w' = (Ok (Some (r\<lparr>rg_length := 105\<rparr>)), w'')"
proof -
  obtain w r c where h: "cache_history 12 1 (\<lambda>_. 7) (\<lambda>s. PoolThreadCache_new s 512 256 64 32768 8192) w {r}" "rg_maxLength r = 112"
    "chunks (ca_arena w) (rg_chunk r) = Some c" "\<not> unpooled c" "class_lookup Tiny 112 (ca_cache w) = Ok (Some (Tiny, 7))"
    "q_size (rc_queue (the_cache (ca_cache w) (Tiny, 7))) = 0" using cached_example by blast
  have "Tiny = sizeClass (2 ^ 12) 112" by code_simp
  then show ?thesis using offered_region_comes_back [OF h(1) _ _ _ _ _ _ _ h(3,4) h(2) [symmetric] _ h(5,6), of 105] h(1) by fastforce
qed

end
