(* ===== verification/Decoder.thy ===== *)
theory Decoder
  imports SlicedBuf
begin

text \<open>
  \<open>ByteToMessageDecoder\<close> (src/common/net/handler/codec/ByteToMessageDecoder.hpp and .cpp): it
  collects the bytes of successive reads in one buffer, calls the decoder's virtual \<open>decode\<close> on it
  until that makes no progress, passes the decoded events on, and drops bytes already read.
\<close>

section \<open>State\<close>

text \<open>
  \<open>'d\<close> is the state of the derived decoder, \<open>'e\<close> its events. \<open>out\<close> is the local list of
  \<open>channelRead\<close> that is passed on by reference; \<open>fired\<close> collects the events passed to the next
  handler, which is a parameter: given the events it got before and the event, it returns the
  exception it throws, if any. \<open>alloc_junk\<close> is what memory from the channel's allocator contains.
\<close>

record ('d, 'e) decoder =
  impl :: 'd
  cumulation :: "heap_buf option"
  singleDecode :: bool
  decodeWasNull :: bool
  is_first :: bool
  decodeState :: int
  discardAfterReads :: int
  numReads :: int
  out :: "'e list"
  fired :: "'e list"
  alloc_junk :: "nat \<Rightarrow> byte"

type_synonym 'e next_handler = "'e list \<Rightarrow> 'e \<Rightarrow> exn option"

definition STATE_INIT :: int where "STATE_INIT = 0"
definition STATE_CALLING_CHILD_DECODE :: int where "STATE_CALLING_CHILD_DECODE = 1"

definition ByteToMessageDecoder_new :: "(nat \<Rightarrow> byte) \<Rightarrow> 'd \<Rightarrow> ('d, 'e) decoder" where
  "ByteToMessageDecoder_new junk d = \<lparr>impl = d, cumulation = None, singleDecode = False,
     decodeWasNull = False, is_first = True, decodeState = STATE_INIT, discardAfterReads = 4,
     numReads = 0, out = [], fired = [], alloc_junk = junk\<rparr>"

definition setSingleDecode :: "bool \<Rightarrow> ('d, 'e) decoder \<Rightarrow> ('d, 'e) decoder" where
  "setSingleDecode b s = s\<lparr>singleDecode := b\<rparr>"

text \<open>The text of an exception.\<close>

fun what :: "exn \<Rightarrow> string" where
  "what (RuntimeError m) = m"
| "what (IllegalArgumentException m) = m"
| "what (DecoderException m) = m"
| "what BadAlloc = ''std::bad_alloc''"

section \<open>Cumulation\<close>

text \<open>\<open>CharBufAllocator::buffer\<close> of the default allocator; an empty request gives a null pointer.\<close>

definition alloc_buffer :: "(nat \<Rightarrow> byte) \<Rightarrow> int \<Rightarrow> heap_buf option outcome" where
  "alloc_buffer junk initialCapacity =
     (if initialCapacity = 0 \<or> initialCapacity > CHAR_BUF_MAX_CAPACITY then Ok None
      else map_ok Some (UnpooledHeapCharBuf_new junk initialCapacity CHAR_BUF_MAX_CAPACITY))"

definition write_from :: "heap_buf \<Rightarrow> heap_buf \<Rightarrow> heap_buf outcome \<times> heap_buf" where
  "write_from dst src = (case writeCharsBuf heap_ops heap_ops (dst, src) of
     (r, (dst', src')) \<Rightarrow> (map_ok (\<lambda>_. dst') r, dst'))"

text \<open>
  \<open>expandCumulation\<close> assigns the new buffer to the member before it copies; the second component
  is the member after the call, also when it throws.
\<close>

definition expandCumulation ::
  "(nat \<Rightarrow> byte) \<Rightarrow> heap_buf \<Rightarrow> int \<Rightarrow> heap_buf outcome \<times> heap_buf option" where
  "expandCumulation junk old readable =
     (case alloc_buffer junk (i32 (readableBytes heap_ops old + readable)) of
        Ok (Some b) \<Rightarrow> (case write_from b old of (r, b') \<Rightarrow> (r, Some b'))
      | Ok None \<Rightarrow> (Undef, None)
      | Throw e \<Rightarrow> (Throw e, Some old) | Hang \<Rightarrow> (Hang, Some old) | Undef \<Rightarrow> (Undef, Some old))"

definition cumulate ::
  "(nat \<Rightarrow> byte) \<Rightarrow> heap_buf \<Rightarrow> heap_buf \<Rightarrow> heap_buf outcome \<times> heap_buf option" where
  "cumulate junk cum data =
     (case (if i32 (writerIndex heap_ops cum + readableBytes heap_ops data) > maxCapacity heap_ops cum
            then expandCumulation junk cum (readableBytes heap_ops data) else (Ok cum, Some cum)) of
        (Ok buffer, _) \<Rightarrow> (case write_from buffer data of (r, b) \<Rightarrow> (r, Some b))
      | (Throw e, c) \<Rightarrow> (Throw e, c) | (Hang, c) \<Rightarrow> (Hang, c) | (Undef, c) \<Rightarrow> (Undef, c))"

section \<open>Passing events on\<close>

fun fire_list :: "'e next_handler \<Rightarrow> 'e list \<Rightarrow> (('d, 'e) decoder, unit) prog" where
  "fire_list H [] = ret ()"
| "fire_list H (e # es) = bindp (asks fired) (\<lambda>before.
     seqp (modify (fired_update (\<lambda>f. f @ [e])))
       (case H before e of Some x \<Rightarrow> raise x | None \<Rightarrow> fire_list H es))"

section \<open>Decoding\<close>

text \<open>\<open>decode\<close> of the derived class works on its own state and the buffer and adds events to \<open>out\<close>.\<close>

type_synonym ('d, 'e) decode_fun = "('d \<times> heap_buf, 'e list) prog"

definition in_readable :: "('d, 'e) decoder \<Rightarrow> bool" where
  "in_readable s = (case cumulation s of None \<Rightarrow> False | Some b \<Rightarrow> isReadable heap_ops b)"

definition in_length :: "('d, 'e) decoder \<Rightarrow> int" where
  "in_length s = (case cumulation s of None \<Rightarrow> 0 | Some b \<Rightarrow> readableBytes heap_ops b)"

definition call_child :: "('d, 'e) decode_fun \<Rightarrow> (('d, 'e) decoder, unit) prog" where
  "call_child D s =
     (case cumulation s of
        None \<Rightarrow> (Undef, s)
      | Some b \<Rightarrow> (case D (impl s, b) of
          (r, (d, b')) \<Rightarrow>
             (map_ok (\<lambda>_. ()) r,
              s\<lparr>decodeState := STATE_CALLING_CHILD_DECODE, impl := d, cumulation := Some b',
                out := (case r of Ok es \<Rightarrow> out s @ es | _ \<Rightarrow> out s)\<rparr>)))"

datatype control = Break | Continue

text \<open>One round of the loop of \<open>callDecode\<close>, the body of its \<open>try\<close>.\<close>

definition decode_round :: "'e next_handler \<Rightarrow> ('d, 'e) decode_fun \<Rightarrow> (('d, 'e) decoder, control) prog" where
  "decode_round H D =
     seqp (bindp (asks out) (\<lambda>es.
             if es \<noteq> [] then seqp (fire_list H es) (modify (out_update (\<lambda>_. []))) else ret ()))
     (bindp (asks in_length) (\<lambda>oldInputLength.
      seqp (call_child D)
        (ifp (\<lambda>s. out s = [])
           (bindp (asks in_length) (\<lambda>n. ret (if oldInputLength = n then Break else Continue)))
           (ifp (\<lambda>s. oldInputLength = in_length s)
              (raise (DecoderException ''did not read anything but decoded a message''))
              (bindp (asks singleDecode) (\<lambda>b. ret (if b then Break else Continue)))))))"

text \<open>The loop keeps the text of the last exception; \<open>None\<close> is a loop that never ends.\<close>

partial_function (option) callDecode_loop ::
  "'e next_handler \<Rightarrow> ('d, 'e) decode_fun \<Rightarrow> string \<Rightarrow> ('d, 'e) decoder \<Rightarrow>
   (string outcome \<times> ('d, 'e) decoder) option" where
  "callDecode_loop H D ex s =
     (if \<not> in_readable s then Some (Ok ex, s)
      else (case decode_round H D s of
          (Ok c, s') \<Rightarrow> (case c of Break \<Rightarrow> Some (Ok ex, s') | Continue \<Rightarrow> callDecode_loop H D ex s')
        | (Throw e, s') \<Rightarrow> callDecode_loop H D (what e) s'
        | (Hang, s') \<Rightarrow> Some (Hang, s')
        | (Undef, s') \<Rightarrow> Some (Undef, s')))"

definition callDecode :: "'e next_handler \<Rightarrow> ('d, 'e) decode_fun \<Rightarrow> (('d, 'e) decoder, unit) prog" where
  "callDecode H D s =
     (case callDecode_loop H D '''' s of
        None \<Rightarrow> (Hang, s)
      | Some (Ok ex, s') \<Rightarrow> (if ex \<noteq> '''' then Throw (DecoderException ex) else Ok (), s')
      | Some (Throw e, s') \<Rightarrow> (Throw e, s')
      | Some (Hang, s') \<Rightarrow> (Hang, s')
      | Some (Undef, s') \<Rightarrow> (Undef, s'))"

section \<open>After a read\<close>

definition discard_cumulation :: "(('d, 'e) decoder, unit) prog" where
  "discard_cumulation s =
     (case cumulation s of
        None \<Rightarrow> (Ok (), s)
      | Some b \<Rightarrow>
          if \<not> is_first s \<and> refCnt b = 1
          then (case discardSomeReadBytes heap_ops b of (r, b') \<Rightarrow> (r, s\<lparr>cumulation := Some b'\<rparr>))
          else (Ok (), s))"

text \<open>Exceptions of the discarding are caught and printed.\<close>

definition resetCumulation :: "(('d, 'e) decoder, unit) prog" where
  "resetCumulation s =
     (case cumulation s of
        Some b \<Rightarrow>
          if \<not> isReadable heap_ops b then (Ok (), s\<lparr>numReads := 0, cumulation := None\<rparr>)
          else if i32 (numReads s + 1) \<ge> discardAfterReads s
          then (case discard_cumulation (s\<lparr>numReads := 0\<rparr>) of
                  (Throw e, s') \<Rightarrow> (Ok (), s') | (r, s') \<Rightarrow> (r, s'))
          else (Ok (), s\<lparr>numReads := i32 (numReads s + 1)\<rparr>)
      | None \<Rightarrow>
          if i32 (numReads s + 1) \<ge> discardAfterReads s then (Ok (), s\<lparr>numReads := 0\<rparr>)
          else (Ok (), s\<lparr>numReads := i32 (numReads s + 1)\<rparr>))"

section \<open>\<open>channelRead\<close> and \<open>channelInactive\<close>\<close>

definition collect :: "heap_buf \<Rightarrow> (('d, 'e) decoder, unit) prog" where
  "collect data s =
     (case cumulation s of
        None \<Rightarrow> (Ok (), s\<lparr>is_first := True, cumulation := Some (data\<lparr>refCnt := retain_count 1 (refCnt data)\<rparr>)\<rparr>)
      | Some c \<Rightarrow> (case cumulate (alloc_junk s) c data of
          (r, c') \<Rightarrow> (map_ok (\<lambda>_. ()) r, s\<lparr>is_first := False, cumulation := c'\<rparr>)))"

text \<open>
  The handler of the exception prints \<open>cumulation_->refCnt()\<close>: a null pointer there is undefined.
\<close>

definition read_data ::
  "'e next_handler \<Rightarrow> ('d, 'e) decode_fun \<Rightarrow> heap_buf \<Rightarrow> (('d, 'e) decoder, unit) prog" where
  "read_data H D data s =
     (case seqp (modify (out_update (\<lambda>_. [])))
             (seqp (collect data)
             (seqp (callDecode H D)
             (seqp resetCumulation
               (bindp (asks out) (fire_list H))))) s of
        (Throw e, s') \<Rightarrow>
          if cumulation s' = None then (Undef, s')
          else seqp resetCumulation (raise (DecoderException (what e))) s'
      | r \<Rightarrow> r)"

text \<open>An event that carries no bytes is handed on as it is.\<close>

definition channelRead ::
  "'e next_handler \<Rightarrow> ('d, 'e) decode_fun \<Rightarrow> heap_buf + 'e \<Rightarrow> (('d, 'e) decoder, unit) prog" where
  "channelRead H D ev = (case ev of Inl data \<Rightarrow> read_data H D data | Inr e \<Rightarrow> fire_list H [e])"

definition channelInactive :: "('d, 'e) decoder \<Rightarrow> ('d, 'e) decoder" where
  "channelInactive s = s\<lparr>cumulation := None\<rparr>"

section \<open>Collecting the bytes\<close>

lemma writeCharsBuf3_fst:
  "writeCharsBuf3 B C r n (s, t) =
     (case doM [ensureWritable B n, bindp (asks (writerIndex B)) (\<lambda>w. v_setCharsBuf B w (v_getChars C t) r n),
                advance_writer B n] s of (x, s') \<Rightarrow> (x, (s', t)))"
  by (auto simp: writeCharsBuf3_def fst_prog_def zoom_def seqp_def bindp_def asks_def
      split: prod.splits outcome.splits)

lemma loaded_self: "content_of i m = loaded m (readerIdx i) (writerIdx i - readerIdx i)"
  by (simp add: content_of_def)

lemma writeCharsBuf_ok:
  assumes "heap_valid b" "heap_valid m" "ensured heap_ops array heap_valid (int (length (heap_content m))) b"
  shows "\<exists>b'. writeCharsBuf heap_ops heap_ops (b, m) =
      (Ok (), (b', m\<lparr>hb_base := (hb_base m)\<lparr>readerIdx := writerIdx (hb_base m)\<rparr>\<rparr>)) \<and> heap_valid b' \<and> heap_content b' = heap_content b @ heap_content m \<and>
    hb_base b' = (hb_base b)\<lparr>writerIdx := writerIdx (hb_base b) + int (length (heap_content m))\<rparr> \<and>
    grown (maxCap (hb_base b)) (length (array b)) (length (array b'))"
proof -
  let ?n = "int (length (heap_content m))" and ?r = "readerIdx (hb_base m)"
  have n: "?n = writerIdx (hb_base m) - ?r"
    using hb.content_len [OF assms(2)] by (simp add: heap_content_def)
  have rd: "readableBytes heap_ops m = ?n" using hb.readableBytes_eq [OF assms(2)] by (simp add: heap_content_def)
  note i = idx_okD [OF hb.valid_idx [OF assms(2)], simplified]
  have mi: "in_bounds ?r ?n (array m)" using i n by (simp add: in_bounds_def)
  have g: "v_getChars heap_ops m ?r dst di ?n = Ok (patch (nat di) (heap_content m) dst)"
    if "in_bounds di ?n dst" for dst di
    using hb.getChars [OF assms(2) mi that] n
    by (simp add: heap_content_def content_def content_of_def)
  have "appends heap_ops array heap_valid
    (doM [ensureWritable heap_ops ?n, bindp (asks (writerIndex heap_ops))
        (\<lambda>w. v_setCharsBuf heap_ops w (v_getChars heap_ops m) ?r ?n), advance_writer heap_ops ?n])
    (heap_content m) b"
    by (rule hb.appends_gen [OF assms(1,3)]) (rule hb.setCharsBuf, assumption, assumption, simp, erule g)
  then obtain b' where b': "doM [ensureWritable heap_ops ?n, bindp (asks (writerIndex heap_ops))
        (\<lambda>w. v_setCharsBuf heap_ops w (v_getChars heap_ops m) ?r ?n), advance_writer heap_ops ?n] b = (Ok (), b')"
    "heap_valid b'" "heap_content b' = heap_content b @ heap_content m"
    "hb_base b' = (hb_base b)\<lparr>writerIdx := writerIdx (hb_base b) + ?n\<rparr>"
    "grown (maxCap (hb_base b)) (length (array b)) (length (array b'))"
    unfolding appends_def by (auto simp: heap_content_def)
  have 3: "writeCharsBuf3 heap_ops heap_ops ?r ?n (b, m) = (Ok (), (b', m))"
    unfolding writeCharsBuf3_fst b'(1) by simp
  have "set_readerIndex heap_ops (i32 (?r + ?n)) m = (Ok (), m\<lparr>hb_base := (hb_base m)\<lparr>readerIdx := i32 (?r + ?n)\<rparr>\<rparr>)"
    using i n by (simp add: set_readerIndex_def prog_simps checkIndexBounds_def maxCapacity_def upd_base_def)
  then have "writeCharsBuf heap_ops heap_ops (b, m) =
      (Ok (), (b', m\<lparr>hb_base := (hb_base m)\<lparr>readerIdx := i32 (?r + ?n)\<rparr>\<rparr>))"
    using 3 by (simp add: writeCharsBuf_def writeCharsBuf2_def prog_simps rd readerIndex_def
        snd_prog_def checkReadableBounds_def)
  moreover have "i32 (?r + ?n) = writerIdx (hb_base m)" using i n by simp
  ultimately show ?thesis using b' by metis
qed

lemma write_from_ok:
  assumes "heap_valid b" "heap_valid m" "ensured heap_ops array heap_valid (int (length (heap_content m))) b"
  shows "\<exists>b'. write_from b m = (Ok b', b') \<and> heap_valid b' \<and> heap_content b' = heap_content b @ heap_content m \<and>
    hb_base b' = (hb_base b)\<lparr>writerIdx := writerIdx (hb_base b) + int (length (heap_content m))\<rparr> \<and>
    grown (maxCap (hb_base b)) (length (array b)) (length (array b'))"
  using writeCharsBuf_ok [OF assms] by (elim exE conjE) (simp add: write_from_def)

text \<open>A buffer from the channel's receive allocator: even size, no capacity limit of its own.\<close>

definition roomy :: "heap_buf \<Rightarrow> bool" where
  "roomy b \<longleftrightarrow> heap_valid b \<and> even (length (array b)) \<and> array b \<noteq> [] \<and>
     maxCap (hb_base b) = CHAR_BUF_MAX_CAPACITY"

lemma roomy_grown:
  assumes "grown (maxCap (hb_base b)) (length (array b)) (length (array b'))" "roomy b"
    "heap_valid b'" "maxCap (hb_base b') = maxCap (hb_base b)"
  shows "roomy b'"
proof -
  have b: "even (length (array b))" "0 < length (array b)" "maxCap (hb_base b) = INT_MAX"
    using assms(2) by (auto simp: roomy_def CHAR_BUF_MAX_CAPACITY_def)
  have "even (length (array b')) \<and> 0 < length (array b')"
  proof (cases "length (array b') = length (array b)")
    case False
    then obtain j where j: "int (length (array b')) = min (2 ^ j) INT_MAX" "j \<le> 30"
      "length (array b) < length (array b')"
      using assms(1) b(3) unfolding grown_def by auto
    have "(2::int) ^ j \<le> 2 ^ 30" using j(2) by (intro power_increasing) auto
    then have n: "int (length (array b')) = int (2 ^ j)" using j(1) by simp
    then have n: "length (array b') = 2 ^ j" by (simp only: of_nat_eq_iff)
    have "2 \<le> length (array b')" using j(3) b(2) by linarith
    then have "j \<noteq> 0" using n by (metis one_le_numeral numeral_le_one_iff power_0 semiring_norm(69))
    then show ?thesis using n by simp
  qed (use b in simp)
  then show ?thesis using assms(3,4) b(3) by (simp add: roomy_def CHAR_BUF_MAX_CAPACITY_def flip: length_greater_0_conv)
qed

end
