(* ===== verification/FrameDecoder.thy ===== *)
theory FrameDecoder
  imports Decoder
begin

text \<open>
  \<open>LengthFieldBasedFrameDecoder\<close> (src/common/net/handler/codec/LengthFieldBasedFrameDecoder.hpp):
  \<open>decode\<close> cuts a frame off the front of the buffer when it is complete. A frame is a retained
  slice of the buffer. A \<open>long\<close> has 64 bits.
\<close>

section \<open>Configuration and state\<close>

record frame_decoder =
  maxFrameLength :: int
  lengthFieldOffset :: int
  lengthFieldLength :: int
  lengthFieldEndOffset :: int
  lengthAdjustment :: int
  initialBytesToStrip :: int
  failFast :: bool
  discardingTooLong :: bool
  tooLongFrameLength :: int
  bytesToDiscard :: int

definition checkPositive :: "int \<Rightarrow> int outcome" where
  "checkPositive i = (if i \<le> 0 then Throw (IllegalArgumentException ''expected: > 0'') else Ok i)"

definition checkPositiveOrZero :: "int \<Rightarrow> int outcome" where
  "checkPositiveOrZero i = (if i < 0 then Throw (IllegalArgumentException ''expected: >= 0'') else Ok i)"

definition frame_init :: "int \<Rightarrow> int \<Rightarrow> int \<Rightarrow> int \<Rightarrow> int \<Rightarrow> bool \<Rightarrow> frame_decoder outcome" where
  "frame_init maxLen off len adj strip fast =
     (case checkPositive maxLen of Throw e \<Rightarrow> Throw e | _ \<Rightarrow>
      case checkPositiveOrZero off of Throw e \<Rightarrow> Throw e | _ \<Rightarrow>
      case checkPositiveOrZero strip of Throw e \<Rightarrow> Throw e | _ \<Rightarrow>
      if off > i32 (maxLen - len)
      then Throw (IllegalArgumentException ''maxFrameLength must be equal to or greater than lengthFieldOffset + lengthFieldLength'')
      else Ok \<lparr>maxFrameLength = maxLen, lengthFieldOffset = off, lengthFieldLength = len,
               lengthFieldEndOffset = i32 (off + len), lengthAdjustment = adj,
               initialBytesToStrip = strip, failFast = fast, discardingTooLong = False,
               tooLongFrameLength = 0, bytesToDiscard = 0\<rparr>)"

definition LengthFieldBasedFrameDecoder_new :: "int \<Rightarrow> int \<Rightarrow> int \<Rightarrow> int \<Rightarrow> int \<Rightarrow> frame_decoder outcome" where
  "LengthFieldBasedFrameDecoder_new maxLen off len adj strip = frame_init maxLen off len adj strip True"

definition LengthFieldBasedFrameDecoder_new3 :: "int \<Rightarrow> int \<Rightarrow> int \<Rightarrow> frame_decoder outcome" where
  "LengthFieldBasedFrameDecoder_new3 maxLen off len = frame_init maxLen off len 0 0 True"

section \<open>Operations\<close>

type_synonym fd_state = "frame_decoder \<times> heap_buf"

abbreviation on_buf :: "(heap_buf, 'a) prog \<Rightarrow> (fd_state, 'a) prog" where
  "on_buf m \<equiv> snd_prog m"

definition get_fd :: "(frame_decoder \<Rightarrow> 'a) \<Rightarrow> (fd_state, 'a) prog" where
  "get_fd f = asks (\<lambda>(d, b). f d)"

definition set_fd :: "(frame_decoder \<Rightarrow> frame_decoder) \<Rightarrow> (fd_state, unit) prog" where
  "set_fd f = modify (\<lambda>(d, b). (f d, b))"

abbreviation readable :: "(fd_state, int) prog" where
  "readable \<equiv> asks (\<lambda>(d, b). readableBytes heap_ops b)"

text \<open>A \<open>char\<close> is signed, the two- and four-byte fields are read unsigned, the eight-byte one signed.\<close>

definition getUnadjustedFrameLength :: "int \<Rightarrow> int \<Rightarrow> (fd_state, int) prog" where
  "getUnadjustedFrameLength off len =
     (if len = 1 then bindp (on_buf (get_Char heap_ops off)) (\<lambda>c. ret (sint c))
      else if len = 2 then bindp (on_buf (get_Short heap_ops off)) (\<lambda>c. ret (uint c))
      else if len = 4 then bindp (on_buf (get_Int heap_ops off)) (\<lambda>c. ret (uint c))
      else if len = 8 then bindp (on_buf (get_Long heap_ops off)) (\<lambda>c. ret (sint c))
      else raise (DecoderException ''unsupported lengthFieldLength''))"

definition fail_too_long :: "int \<Rightarrow> (fd_state, 'a) prog" where
  "fail_too_long len =
     raise (DecoderException (if len > 0 then ''Adjusted frame length exceeds - discarded''
                              else ''Adjusted frame length exceeds - discarding''))"

definition failIfNecessary :: "bool \<Rightarrow> (fd_state, unit) prog" where
  "failIfNecessary firstDetection =
     bindp (get_fd id) (\<lambda>d.
     if bytesToDiscard d = 0
     then seqp (set_fd (\<lambda>d. d\<lparr>tooLongFrameLength := 0, discardingTooLong := False\<rparr>))
            (if \<not> failFast d \<or> firstDetection then fail_too_long (tooLongFrameLength d) else ret ())
     else if failFast d \<and> firstDetection then fail_too_long (tooLongFrameLength d) else ret ())"

definition discardingTooLongFrame :: "(fd_state, unit) prog" where
  "discardingTooLongFrame =
     bindp (get_fd bytesToDiscard) (\<lambda>n.
     bindp readable (\<lambda>r.
       let local = min (i32 n) r in doM
       [on_buf (skipBytes heap_ops local),
        set_fd (bytesToDiscard_update (\<lambda>_. i64 (n - local))),
        failIfNecessary False]))"

definition exceededFrameLength :: "int \<Rightarrow> (fd_state, unit) prog" where
  "exceededFrameLength frameLength =
     bindp readable (\<lambda>r. let discard = i64 (frameLength - r) in doM
       [set_fd (tooLongFrameLength_update (\<lambda>_. frameLength)),
        (if discard \<le> 0 then on_buf (skipBytes heap_ops (i32 frameLength))
         else doM [set_fd (\<lambda>d. d\<lparr>discardingTooLong := True, bytesToDiscard := discard\<rparr>),
                   on_buf (skipBytes heap_ops r)]),
        failIfNecessary True])"

definition fail_skip :: "int \<Rightarrow> string \<Rightarrow> (fd_state, 'a) prog" where
  "fail_skip n msg = seqp (on_buf (skipBytes heap_ops n)) (raise (DecoderException msg))"

text \<open>\<open>retainedSlice\<close> of the cumulation: the frame shares its memory and holds a reference.\<close>

definition extractFrame :: "int \<Rightarrow> int \<Rightarrow> (fd_state, heap_buf sliced) prog" where
  "extractFrame index len = on_buf
     (bindp (lift_outcome (\<lambda>b. retainedSlice b index len)) (\<lambda>fr.
      seqp (modify (refCnt_update (retain_count 1))) (ret fr)))"

definition decode_frame :: "(fd_state, heap_buf sliced option) prog" where
  "decode_frame =
     seqp (ifp (\<lambda>(d, b). discardingTooLong d) discardingTooLongFrame (ret ()))
     (bindp (get_fd id) (\<lambda>d.
      bindp readable (\<lambda>r.
      if r < lengthFieldEndOffset d then ret None
      else bindp (asks (\<lambda>(_, b). i32 (readerIndex heap_ops b + lengthFieldOffset d))) (\<lambda>off.
      bindp (getUnadjustedFrameLength off (lengthFieldLength d)) (\<lambda>raw.
      seqp (if raw < 0 then fail_skip (lengthFieldEndOffset d) ''negative pre-adjustment length field'' else ret ())
      (let frameLength = i64 (raw + i32 (lengthAdjustment d + lengthFieldEndOffset d)) in
       seqp (if frameLength < lengthFieldEndOffset d
             then fail_skip (lengthFieldEndOffset d) ''Adjusted frame length is less than lengthFieldEndOffset''
             else ret ())
       (if frameLength > maxFrameLength d
        then seqp (exceededFrameLength frameLength) (ret None)
        else let frameLengthInt = i32 frameLength in
          if r < frameLengthInt then ret None
          else seqp (if initialBytesToStrip d > frameLengthInt
                     then fail_skip (i32 frameLength) ''Adjusted frame length is less than initialBytesToStrip''
                     else ret ())
            (seqp (on_buf (skipBytes heap_ops (initialBytesToStrip d)))
            (bindp (asks (\<lambda>(_, b). readerIndex heap_ops b)) (\<lambda>reader.
             let actual = i32 (frameLengthInt - initialBytesToStrip d) in
             bindp (extractFrame reader actual) (\<lambda>fr.
             seqp (on_buf (set_readerIndex heap_ops (i32 (reader + actual))))
               (ret (Some fr)))))))))))))"

text \<open>The overload \<open>decode(ctx, in, out)\<close> appends the frame, if any.\<close>

definition frame_decode :: "(frame_decoder, heap_buf sliced) decode_fun" where
  "frame_decode = bindp decode_frame (\<lambda>r. ret (case r of None \<Rightarrow> [] | Some f \<Rightarrow> [f]))"

section \<open>Reading the header\<close>

definition field_value :: "int \<Rightarrow> byte list \<Rightarrow> int" where
  "field_value len bs =
     (if len = 1 then sint (hd bs) else if len = 2 then uint (dec16 bs)
      else if len = 4 then uint (dec32 bs) else sint (dec64 bs))"

text \<open>The length of the frame the bytes begin with, as the header announces it.\<close>

definition announced :: "frame_decoder \<Rightarrow> byte list \<Rightarrow> int" where
  "announced d bs =
     field_value (lengthFieldLength d)
       (take (nat (lengthFieldLength d)) (drop (nat (lengthFieldOffset d)) bs)) +
     lengthAdjustment d + lengthFieldEndOffset d"

definition cfg_ok :: "frame_decoder \<Rightarrow> bool" where
  "cfg_ok d \<longleftrightarrow> lengthFieldLength d \<in> {1, 2, 4, 8} \<and> 0 \<le> lengthFieldOffset d \<and>
     lengthFieldEndOffset d = lengthFieldOffset d + lengthFieldLength d \<and>
     lengthFieldEndOffset d \<le> maxFrameLength d \<and> maxFrameLength d \<le> INT_MAX \<and>
     0 \<le> initialBytesToStrip d \<and> initialBytesToStrip d \<le> INT_MAX \<and>
     INT_MIN \<le> lengthAdjustment d \<and> lengthAdjustment d \<le> INT_MAX"

text \<open>A header the decoder accepts.\<close>

definition header_ok :: "frame_decoder \<Rightarrow> byte list \<Rightarrow> bool" where
  "header_ok d bs \<longleftrightarrow> lengthFieldEndOffset d \<le> int (length bs) \<and>
     0 \<le> announced d bs - lengthAdjustment d - lengthFieldEndOffset d \<and>
     lengthFieldEndOffset d \<le> announced d bs \<and> initialBytesToStrip d \<le> announced d bs \<and>
     announced d bs \<le> maxFrameLength d"

lemma loaded_content:
  assumes "heap_valid b" "0 \<le> k" "0 \<le> n" "k + n \<le> int (length (heap_content b))"
  shows "in_bounds (readerIdx (hb_base b) + k) n (array b)"
    "loaded (array b) (readerIdx (hb_base b) + k) n = take (nat n) (drop (nat k) (heap_content b))"
proof -
  note i = idx_okD [OF hb.valid_idx [OF assms(1)], simplified]
  have len: "int (length (heap_content b)) = writerIdx (hb_base b) - readerIdx (hb_base b)"
    using hb.content_len [OF assms(1)] by (simp add: heap_content_def)
  then show "in_bounds (readerIdx (hb_base b) + k) n (array b)"
    using assms i by (simp add: in_bounds_def)
  have "drop (nat k) (heap_content b) =
      loaded (array b) (readerIdx (hb_base b) + k) (writerIdx (hb_base b) - readerIdx (hb_base b) - k)"
    using assms i len by (simp add: heap_content_def content_def content_of_def drop_loaded)
  then show "loaded (array b) (readerIdx (hb_base b) + k) n = take (nat n) (drop (nat k) (heap_content b))"
    using assms i len by (simp add: take_loaded)
qed

lemma readable_eq: "heap_valid b \<Longrightarrow> readableBytes heap_ops b = int (length (heap_content b))"
  using hb.readableBytes_eq by (simp add: heap_content_def)

lemma on_buf_run: "m b = (Ok x, b') \<Longrightarrow> on_buf m (d, b) = (Ok x, (d, b'))"
  and on_buf_throw: "m b = (Throw e, b') \<Longrightarrow> on_buf m (d, b) = (Throw e, (d, b'))"
  by (simp_all add: snd_prog_def zoom_def)

lemma get_field:
  assumes "heap_valid b" "cfg_ok d" "lengthFieldEndOffset d \<le> int (length (heap_content b))"
  shows "getUnadjustedFrameLength (readerIdx (hb_base b) + lengthFieldOffset d) (lengthFieldLength d) (d, b) =
    (Ok (announced d (heap_content b) - lengthAdjustment d - lengthFieldEndOffset d), (d, b))"
proof -
  let ?L = "lengthFieldLength d" and ?o = "readerIdx (hb_base b) + lengthFieldOffset d"
  have c: "?L \<in> {1, 2, 4, 8}" "0 \<le> lengthFieldOffset d" "lengthFieldOffset d + ?L \<le> int (length (heap_content b))"
    using assms(2,3) by (auto simp: cfg_ok_def)
  then have "0 \<le> ?L" by auto
  note ld = loaded_content [OF assms(1) c(2) this c(3)]
  have idx: "INT_MIN \<le> ?o" "?o \<le> INT_MAX" "?L \<le> INT_MAX" "INT_MIN \<le> ?L"
    using ld(1) c idx_okD [OF hb.valid_idx [OF assms(1)], simplified] by (auto simp: in_bounds_def)
  then have chk: "checkIndex heap_ops ?o ?L b = (Ok (), b)"
    using hb.checkIndex_run [OF assms(1)] ld(1) by simp
  consider "?L = 1" | "?L = 2" | "?L = 4" | "?L = 8" using c(1) by auto
  then show ?thesis
  proof cases
    case 1
    then have "array b ! nat ?o = hd (loaded (array b) ?o 1)"
      using ld(1) by (subst hd_drop_conv_nth [symmetric]) (auto simp: loaded_def in_bounds_def)
    then have "get_Char heap_ops ?o b = (Ok (hd (loaded (array b) ?o 1)), b)"
      using hb.getChar [OF assms(1), of ?o] ld(1) chk 1 by (simp add: get_Char_def prog_simps del: heap_ops_simps)
    then show ?thesis using 1 ld(2)
      by (simp add: getUnadjustedFrameLength_def prog_simps on_buf_run announced_def field_value_def)
  next
    case 2
    then have "get_Short heap_ops ?o b = (Ok (dec16 (loaded (array b) ?o 2)), b)"
      using hb.getShort [OF assms(1), of ?o] ld(1) chk by (simp add: get_Short_def prog_simps del: heap_ops_simps)
    then show ?thesis using 2 ld(2)
      by (simp add: getUnadjustedFrameLength_def prog_simps on_buf_run announced_def field_value_def)
  next
    case 3
    then have "get_Int heap_ops ?o b = (Ok (dec32 (loaded (array b) ?o 4)), b)"
      using hb.getInt [OF assms(1), of ?o] ld(1) chk by (simp add: get_Int_def prog_simps del: heap_ops_simps)
    then show ?thesis using 3 ld(2)
      by (simp add: getUnadjustedFrameLength_def prog_simps on_buf_run announced_def field_value_def)
  next
    case 4
    then have "get_Long heap_ops ?o b = (Ok (dec64 (loaded (array b) ?o 8)), b)"
      using hb.getLong [OF assms(1), of ?o] ld(1) chk by (simp add: get_Long_def prog_simps del: heap_ops_simps)
    then show ?thesis using 4 ld(2)
      by (simp add: getUnadjustedFrameLength_def prog_simps on_buf_run announced_def field_value_def)
  qed
qed

lemma skip_heap:
  assumes "heap_valid b" "n \<le> length (heap_content b)"
  shows "\<exists>b'. skipBytes heap_ops (int n) b = (Ok (), b') \<and> heap_valid b' \<and> array b' = array b \<and>
    heap_content b' = drop n (heap_content b) \<and> b' = b\<lparr>hb_base := (hb_base b)\<lparr>readerIdx := readerIdx (hb_base b) + int n\<rparr>\<rparr>"
proof -
  note i = idx_okD [OF hb.valid_idx [OF assms(1)], simplified]
  have "int (length (heap_content b)) = writerIdx (hb_base b) - readerIdx (hb_base b)"
    using hb.content_len [OF assms(1)] by (simp add: heap_content_def)
  then have le: "readerIdx (hb_base b) + int n \<le> writerIdx (hb_base b)" using assms(2) by linarith
  then have "reads heap_ops array heap_valid (skipBytes heap_ops (int n)) n (\<lambda>_. ()) b"
    using i by (intro hb.skipBytes_reads [OF assms(1)]) simp
  then obtain b' where b': "skipBytes heap_ops (int n) b = (Ok (), b')" "heap_valid b'" "array b' = array b"
    "heap_content b' = drop n (heap_content b)"
    using assms(2) unfolding reads_def by (auto simp: heap_content_def)
  have "i32 (readerIdx (hb_base b) + int n) = readerIdx (hb_base b) + int n" using i le by simp
  then have "b' = b\<lparr>hb_base := (hb_base b)\<lparr>readerIdx := readerIdx (hb_base b) + int n\<rparr>\<rparr>"
    using b'(1) le by (simp add: skipBytes_def checkReadable_def prog_simps advance_reader_def upd_base_def)
  then show ?thesis using b' by blast
qed

section \<open>One call of \<open>decode\<close>\<close>

definition frame_bytes :: "heap_buf sliced \<Rightarrow> byte list" where
  "frame_bytes fr = content (sliced_ops heap_ops) (sl_mem array) fr"

lemma header_nums:
  assumes "cfg_ok d" "header_ok d bs"
  shows "i32 (lengthAdjustment d + lengthFieldEndOffset d) = lengthAdjustment d + lengthFieldEndOffset d"
    "i64 (announced d bs) = announced d bs" "i32 (announced d bs) = announced d bs"
    "0 < lengthFieldEndOffset d" "0 < announced d bs" "announced d bs \<le> INT_MAX"
proof -
  have e: "0 < lengthFieldEndOffset d" using assms(1) by (auto simp: cfg_ok_def)
  then show "0 < lengthFieldEndOffset d" .
  have n: "lengthFieldEndOffset d \<le> announced d bs" "announced d bs \<le> INT_MAX"
    using assms by (auto simp: cfg_ok_def header_ok_def)
  then show "announced d bs \<le> INT_MAX" "0 < announced d bs" using e by auto
  show "i64 (announced d bs) = announced d bs" "i32 (announced d bs) = announced d bs" using n e by simp_all
  show "i32 (lengthAdjustment d + lengthFieldEndOffset d) = lengthAdjustment d + lengthFieldEndOffset d"
    using assms n e by (intro i32_id) (auto simp: cfg_ok_def header_ok_def)
qed

lemma field_index:
  assumes "heap_valid b" "cfg_ok d" "lengthFieldEndOffset d \<le> int (length (heap_content b))"
  shows "i32 (readerIdx (hb_base b) + lengthFieldOffset d) = readerIdx (hb_base b) + lengthFieldOffset d"
proof -
  have "int (length (heap_content b)) = writerIdx (hb_base b) - readerIdx (hb_base b)"
    using hb.content_len [OF assms(1)] by (simp add: heap_content_def)
  then show ?thesis using assms(2,3) idx_okD [OF hb.valid_idx [OF assms(1)], simplified]
    by (intro i32_id) (auto simp: cfg_ok_def)
qed

lemma decode_incomplete:
  assumes "cfg_ok d" "\<not> discardingTooLong d" "heap_valid b"
    and "int (length (heap_content b)) < lengthFieldEndOffset d \<or>
         header_ok d (heap_content b) \<and> int (length (heap_content b)) < announced d (heap_content b)"
  shows "decode_frame (d, b) = (Ok None, (d, b))"
proof (cases "int (length (heap_content b)) < lengthFieldEndOffset d")
  case True
  then show ?thesis using assms(2,3)
    by (simp add: decode_frame_def prog_simps get_fd_def readable_eq)
next
  case False
  then have h: "header_ok d (heap_content b)" "int (length (heap_content b)) < announced d (heap_content b)"
    using assms(4) by auto
  have e: "lengthFieldEndOffset d \<le> int (length (heap_content b))" using False by simp
  note num = header_nums [OF assms(1) h(1)] and get = get_field [OF assms(3,1) e]
  have "0 \<le> announced d (heap_content b) - lengthAdjustment d - lengthFieldEndOffset d"
    "lengthFieldEndOffset d \<le> announced d (heap_content b)" "announced d (heap_content b) \<le> maxFrameLength d"
    using h(1) by (simp_all add: header_ok_def)
  then show ?thesis using assms(2,3) False h(2) num
    by (simp add: decode_frame_def prog_simps get_fd_def readable_eq readerIndex_def Let_def
        field_index [OF assms(3,1) e] get)
qed

lemma extract_ok:
  assumes "heap_valid b" "in_bounds i n (array b)"
  shows "\<exists>fr. extractFrame i n (d, b) = (Ok fr, (d, refCnt_update (retain_count 1) b)) \<and>
    frame_bytes fr = loaded (array b) i n"
proof -
  let ?s = "\<lparr>sl_base = (AbstractCharBuf_init n)\<lparr>writerIdx := n\<rparr>, adjustment = i, parent = b\<rparr>"
  have "retainedSlice b i n = Ok (sl_retain 1 ?s)"
    using slice_in_bounds(1) [OF assms] by (simp add: retainedSlice_def)
  then have "extractFrame i n (d, b) = (Ok (sl_retain 1 ?s), (d, refCnt_update (retain_count 1) b))"
    by (simp add: extractFrame_def snd_prog_def zoom_def prog_simps)
  moreover have "frame_bytes (sl_retain 1 ?s) = loaded (array b) i n"
    using assms(2) by (simp add: frame_bytes_def content_def content_of_def sl_mem_def sl_retain_def
        AbstractCharBuf_init_def loaded_def sl_capacity_def in_bounds_def)
  ultimately show ?thesis by blast
qed

lemma decode_complete:
  assumes "cfg_ok d" "\<not> discardingTooLong d" "heap_valid b" "header_ok d (heap_content b)"
    and "announced d (heap_content b) \<le> int (length (heap_content b))"
  defines "n \<equiv> nat (announced d (heap_content b))"
  shows "\<exists>fr b'. decode_frame (d, b) = (Ok (Some fr), (d, b')) \<and> heap_valid b' \<and>
    heap_content b' = drop n (heap_content b) \<and> array b' = array b \<and>
    hb_base b' = (hb_base b)\<lparr>readerIdx := readerIdx (hb_base b) + int n\<rparr> \<and>
    refCnt b' = retain_count 1 (refCnt b) \<and>
    frame_bytes fr = drop (nat (initialBytesToStrip d)) (take n (heap_content b))"
proof -
  let ?c = "heap_content b" and ?r = "readerIdx (hb_base b)" and ?k = "initialBytesToStrip d"
  have e: "lengthFieldEndOffset d \<le> int (length ?c)" using assms(4) by (simp add: header_ok_def)
  note num = header_nums [OF assms(1,4)] and get = get_field [OF assms(3,1) e]
  have n: "int n = announced d ?c" "0 < n" "n \<le> length ?c" using num(5) assms(5) by (auto simp: n_def)
  have k: "0 \<le> ?k" "?k \<le> int n" using assms(1,4) n(1) by (simp_all add: cfg_ok_def header_ok_def)
  note i = idx_okD [OF hb.valid_idx [OF assms(3)], simplified]
  have len: "int (length ?c) = writerIdx (hb_base b) - ?r"
    using hb.content_len [OF assms(3)] by (simp add: heap_content_def)
  obtain b1 where b1: "skipBytes heap_ops ?k b = (Ok (), b1)" "heap_valid b1" "array b1 = array b"
    "b1 = b\<lparr>hb_base := (hb_base b)\<lparr>readerIdx := ?r + ?k\<rparr>\<rparr>"
    using skip_heap [OF assms(3), of "nat ?k"] k n(3) by auto
  have bnd: "in_bounds (?r + ?k) (int n - ?k) (array b1)"
    using loaded_content(1) [OF assms(3), of ?k "int n - ?k"] k n(3) b1(3) by simp
  obtain fr where fr: "extractFrame (?r + ?k) (int n - ?k) (d, b1) = (Ok fr, (d, refCnt_update (retain_count 1) b1))"
    "frame_bytes fr = loaded (array b1) (?r + ?k) (int n - ?k)"
    using extract_ok [OF b1(2) bnd] by blast
  define b' where "b' = b\<lparr>hb_base := (hb_base b)\<lparr>readerIdx := ?r + int n\<rparr>,
      refCnt := retain_count 1 (refCnt b)\<rparr>"
  have nums: "i32 (int n - ?k) = int n - ?k" "?r + ?k + (int n - ?k) = ?r + int n" "i32 (?r + int n) = ?r + int n"
    using k n(3) len i by simp_all
  have set: "set_readerIndex heap_ops (?r + int n) (refCnt_update (retain_count 1) b1) = (Ok (), b')"
    using b1(4) i len n(3)
    by (simp add: set_readerIndex_def prog_simps checkIndexBounds_def maxCapacity_def upd_base_def b'_def)
  have rd: "readerIndex heap_ops b1 = ?r + ?k" using b1(4) by (simp add: readerIndex_def)
  have h: "0 \<le> announced d ?c - lengthAdjustment d - lengthFieldEndOffset d"
    "lengthFieldEndOffset d \<le> int n" "int n \<le> maxFrameLength d" "?k \<le> int n"
    using assms(4) k n(1) by (simp_all add: header_ok_def)
  have "decode_frame (d, b) = (Ok (Some fr), (d, b'))"
    using assms(2,3) h n(2,3) e num nums
    by (simp add: decode_frame_def prog_simps get_fd_def readable_eq readerIndex_def [of _ b] Let_def
        field_index [OF assms(3,1) e] get b1(1) on_buf_run fr(1) set rd flip: n(1))
  moreover have "heap_valid b'" "array b' = array b" "hb_base b' = (hb_base b)\<lparr>readerIdx := ?r + int n\<rparr>"
    using assms(3) len n(3) i by (auto simp: b'_def heap_valid_def idx_ok_def)
  moreover have "heap_content b' = drop n ?c"
    using skip_heap [OF assms(3) n(3)] by (auto simp: b'_def heap_content_def content_def)
  moreover have "frame_bytes fr = drop (nat ?k) (take n ?c)"
    using fr(2) loaded_content(2) [OF assms(3), of ?k "int n - ?k"] k n(3) b1(3)
    by (simp add: drop_take nat_diff_distrib)
  ultimately show ?thesis by (intro exI [of _ fr] exI [of _ b']) (simp add: b'_def)
qed

section \<open>The frames of a byte sequence\<close>

text \<open>
  \<open>parses d bs fs r\<close>: the bytes start with complete frames, whose bytes after the stripped prefix
  are \<open>fs\<close>, and \<open>r\<close> is what is left: too short for a header, or for the frame it announces.
\<close>

inductive parses :: "frame_decoder \<Rightarrow> byte list \<Rightarrow> byte list list \<Rightarrow> byte list \<Rightarrow> bool" for d where
  stop: "int (length bs) < lengthFieldEndOffset d \<or> header_ok d bs \<and> int (length bs) < announced d bs \<Longrightarrow>
    parses d bs [] bs"
| frame: "header_ok d bs \<Longrightarrow> announced d bs \<le> int (length bs) \<Longrightarrow>
    parses d (drop (nat (announced d bs)) bs) fs r \<Longrightarrow>
    parses d bs (drop (nat (initialBytesToStrip d)) (take (nat (announced d bs)) bs) # fs) r"

inductive_cases parses_NilE: "parses d bs [] r"
inductive_cases parses_ConsE: "parses d bs (f # fs) r"

lemma announced_append:
  assumes "cfg_ok d" "lengthFieldEndOffset d \<le> int (length bs)"
  shows "announced d (bs @ x) = announced d bs" "header_ok d (bs @ x) = header_ok d bs"
proof -
  have n: "nat (lengthFieldOffset d) + nat (lengthFieldLength d) \<le> length bs"
    using assms by (auto simp: cfg_ok_def)
  then have "take (nat (lengthFieldLength d)) (drop (nat (lengthFieldOffset d)) (bs @ x)) =
      take (nat (lengthFieldLength d)) (drop (nat (lengthFieldOffset d)) bs)" by simp
  then show a: "announced d (bs @ x) = announced d bs" by (simp only: announced_def)
  show "header_ok d (bs @ x) = header_ok d bs" using assms(2) by (simp add: header_ok_def a)
qed

lemma parses_frame_cases:
  assumes "header_ok d bs" "announced d bs \<le> int (length bs)" "parses d bs gs r"
  obtains fs where "gs = drop (nat (initialBytesToStrip d)) (take (nat (announced d bs)) bs) # fs"
    "parses d (drop (nat (announced d bs)) bs) fs r"
  using assms(3)
proof cases
  case stop
  then show thesis using assms by (auto simp: header_ok_def)
qed (rule that)

lemma parses_det: "parses d bs fs r \<Longrightarrow> parses d bs gs t \<Longrightarrow> gs = fs \<and> t = r"
proof (induction arbitrary: gs rule: parses.induct)
  case (stop bs)
  from stop(2) show ?case
    by cases (use stop(1) in \<open>auto simp: header_ok_def\<close>)
next
  case (frame bs fs r)
  from frame.prems show ?case
    by (rule parses_frame_cases [OF frame.hyps(1,2)]) (use frame.IH in auto)
qed

text \<open>Feeding the bytes in two parts gives the same frames.\<close>

lemma parses_split:
  assumes "parses d a fs r" "cfg_ok d" "parses d (a @ b) gs t"
  shows "\<exists>fs'. gs = fs @ fs' \<and> parses d (r @ b) fs' t"
  using assms(1,3)
proof (induction arbitrary: gs rule: parses.induct)
  case (frame bs fs r)
  have e: "lengthFieldEndOffset d \<le> int (length bs)" using frame.hyps(1) by (simp add: header_ok_def)
  note ann = announced_append [OF assms(2) e, of b]
  have n: "nat (announced d bs) \<le> length bs" using frame.hyps(2) by simp
  from frame.prems obtain gs' where gs: "gs = drop (nat (initialBytesToStrip d)) (take (nat (announced d bs)) bs) # gs'"
    "parses d (drop (nat (announced d bs)) bs @ b) gs' t"
    by (rule parses_frame_cases [rotated 2]) (use frame.hyps ann n in auto)
  then show ?case using frame.IH [OF gs(2)] by auto
qed auto

text \<open>A well-formed frame, and the prefixes of a sequence of them.\<close>

definition frame_ok :: "frame_decoder \<Rightarrow> byte list \<Rightarrow> bool" where
  "frame_ok d f \<longleftrightarrow> header_ok d f \<and> announced d f = int (length f)"

definition payload :: "frame_decoder \<Rightarrow> byte list \<Rightarrow> byte list" where
  "payload d f = drop (nat (initialBytesToStrip d)) f"

lemma parses_frame_append:
  assumes "cfg_ok d" "frame_ok d f" "parses d bs fs r"
  shows "parses d (f @ bs) (payload d f # fs) r"
proof -
  have e: "lengthFieldEndOffset d \<le> int (length f)" using assms(2) by (simp add: frame_ok_def header_ok_def)
  note ann = announced_append [OF assms(1) e, of bs]
  have n: "nat (announced d (f @ bs)) = length f" using assms(2) ann by (simp add: frame_ok_def)
  have "parses d (f @ bs) (drop (nat (initialBytesToStrip d)) (take (nat (announced d (f @ bs))) (f @ bs)) # fs) r"
    by (rule parses.frame) (use assms n ann in \<open>auto simp: frame_ok_def\<close>)
  then show ?thesis by (simp add: n payload_def)
qed

lemma parses_nil: "cfg_ok d \<Longrightarrow> parses d [] [] []"
  by (rule parses.stop) (auto simp: cfg_ok_def)

lemma parses_stream: "cfg_ok d \<Longrightarrow> \<forall>f\<in>set Fs. frame_ok d f \<Longrightarrow> parses d (concat Fs) (map (payload d) Fs) []"
  by (induction Fs) (auto intro: parses_nil parses_frame_append)

lemma parses_prefix:
  assumes "cfg_ok d" "\<forall>f\<in>set Fs. frame_ok d f" "concat Fs = bs @ y"
  shows "\<exists>fs r. parses d bs fs r"
  using assms(2,3)
proof (induction Fs arbitrary: bs)
  case Nil
  then show ?case using parses_nil [OF assms(1)] by auto
next
  case (Cons f Fs)
  show ?case
  proof (cases "length f \<le> length bs")
    case True
    then obtain bs' where bs: "bs = f @ bs'" "concat Fs = bs' @ y"
      using Cons.prems(2) by (auto simp: append_eq_append_conv2)
    obtain fs r where "parses d bs' fs r" using Cons.IH [OF _ bs(2)] Cons.prems(1) by auto
    then show ?thesis using parses_frame_append [OF assms(1), of f bs'] Cons.prems(1) bs(1) by fastforce
  next
    case False
    then obtain z where z: "f = bs @ z" "z \<noteq> []"
      using Cons.prems(2) by (auto simp: append_eq_append_conv2)
    have ok: "header_ok d f" "announced d f = int (length f)" using Cons.prems(1) by (auto simp: frame_ok_def)
    have "parses d bs [] bs"
    proof (rule parses.stop)
      show "int (length bs) < lengthFieldEndOffset d \<or> header_ok d bs \<and> int (length bs) < announced d bs"
        using announced_append [OF assms(1), of bs z] ok z by (cases "lengthFieldEndOffset d \<le> int (length bs)") auto
    qed
    then show ?thesis by blast
  qed
qed

section \<open>The decoding loop\<close>

abbreviation quiet :: "'e next_handler" where "quiet \<equiv> \<lambda>_ _. None"

lemma fire_quiet: "fire_list quiet es s = (Ok (), s\<lparr>fired := fired s @ es\<rparr>)"
  by (induction es arbitrary: s) (simp_all add: prog_simps)

lemma out_phase:
  "bindp (asks out) (\<lambda>es. if es \<noteq> [] then seqp (fire_list quiet es) (modify (out_update (\<lambda>_. []))) else ret ()) s =
     (Ok (), s\<lparr>fired := fired s @ out s, out := []\<rparr>)"
  by (simp add: prog_simps fire_quiet)

lemma round_none:
  assumes "cumulation s = Some b" "decode_frame (impl s, b) = (Ok None, (impl s, b))"
  shows "decode_round quiet frame_decode s =
    (Ok Break, s\<lparr>fired := fired s @ out s, out := [], decodeState := STATE_CALLING_CHILD_DECODE\<rparr>)"
  using assms
  by (simp add: decode_round_def seqp_Ok [OF out_phase] prog_simps call_child_def frame_decode_def in_length_def)

lemma round_some:
  assumes "cumulation s = Some b" "decode_frame (impl s, b) = (Ok (Some fr), (impl s, b'))"
    and "readableBytes heap_ops b \<noteq> readableBytes heap_ops b'" "\<not> singleDecode s"
  shows "decode_round quiet frame_decode s =
    (Ok Continue, s\<lparr>fired := fired s @ out s, out := [fr], decodeState := STATE_CALLING_CHILD_DECODE,
                    cumulation := Some b'\<rparr>)"
  using assms
  by (simp add: decode_round_def seqp_Ok [OF out_phase] prog_simps call_child_def frame_decode_def in_length_def)

lemma loop_ok:
  assumes "parses d bs fs r" "cfg_ok d" "\<not> discardingTooLong d"
    and "heap_valid b" "heap_content b = bs" "cumulation s = Some b" "impl s = d" "\<not> singleDecode s"
  shows "\<exists>b' es es'. callDecode_loop quiet frame_decode ex s =
      Some (Ok ex, s\<lparr>fired := fired s @ es, out := es', cumulation := Some b',
              decodeState := (if bs = [] then decodeState s else STATE_CALLING_CHILD_DECODE)\<rparr>) \<and>
    map frame_bytes (es @ es') = map frame_bytes (out s) @ fs \<and>
    heap_valid b' \<and> heap_content b' = r \<and> array b' = array b \<and>
    (\<exists>k. 0 \<le> k \<and> hb_base b' = (hb_base b)\<lparr>readerIdx := readerIdx (hb_base b) + k\<rparr>) \<and>
    length es' = (if r \<noteq> [] then 0 else if bs = [] then length (out s) else 1)"
  using assms(1,4-8)
proof (induction arbitrary: b s rule: parses.induct)
  case (stop bs)
  have none: "decode_frame (d, b) = (Ok None, (d, b))"
    using decode_incomplete [OF assms(2,3) stop.prems(1)] stop by simp
  have rd: "in_readable s \<longleftrightarrow> bs \<noteq> []"
    using stop.prems hb.isReadable_eq [OF stop.prems(1)] by (simp add: in_readable_def heap_content_def)
  have id: "b\<lparr>hb_base := (hb_base b)\<lparr>readerIdx := readerIdx (hb_base b) + 0\<rparr>\<rparr> = b" by simp
  show ?case
  proof (cases "bs = []")
    case True
    then have "callDecode_loop quiet frame_decode ex s = Some (Ok ex, s)"
      using rd by (subst callDecode_loop.simps) simp
    then show ?thesis using True stop.prems
      by (intro exI [of _ b] exI [of _ "[]"] exI [of _ "out s"]) (auto intro: exI [of _ 0])
  next
    case False
    then have "callDecode_loop quiet frame_decode ex s = Some (Ok ex,
        s\<lparr>fired := fired s @ out s, out := [], decodeState := STATE_CALLING_CHILD_DECODE\<rparr>)"
      using rd round_none [OF stop.prems(3)] none stop.prems(4)
      by (subst callDecode_loop.simps) simp
    then show ?thesis using False stop.prems
      by (intro exI [of _ b] exI [of _ "out s"] exI [of _ "[]"]) (auto intro: exI [of _ 0])
  qed
next
  case (frame bs fs r)
  let ?n = "nat (announced d bs)"
  note num = header_nums [OF assms(2) frame.hyps(1)]
  have n: "0 < ?n" "?n \<le> length bs" using num(5) frame.hyps(2) by simp_all
  obtain fr b1 where d1: "decode_frame (d, b) = (Ok (Some fr), (d, b1))" "heap_valid b1"
    "heap_content b1 = drop ?n bs" "array b1 = array b"
    "hb_base b1 = (hb_base b)\<lparr>readerIdx := readerIdx (hb_base b) + int ?n\<rparr>"
    "frame_bytes fr = drop (nat (initialBytesToStrip d)) (take ?n bs)"
    using decode_complete [OF assms(2,3) frame.prems(1)] frame.hyps(1,2) frame.prems(2) by blast
  have ne: "bs \<noteq> []" using n by auto
  then have rd: "in_readable s"
    using frame.prems hb.isReadable_eq [OF frame.prems(1)] by (simp add: in_readable_def heap_content_def)
  have diff: "readableBytes heap_ops b \<noteq> readableBytes heap_ops b1"
    using frame.prems(2) d1(3) n by (simp add: readable_eq [OF frame.prems(1)] readable_eq [OF d1(2)])
  define s1 where "s1 = s\<lparr>fired := fired s @ out s, out := [fr],
      decodeState := STATE_CALLING_CHILD_DECODE, cumulation := Some b1\<rparr>"
  have round: "decode_round quiet frame_decode s = (Ok Continue, s1)"
    unfolding s1_def
    by (rule round_some [OF frame.prems(3) _ diff frame.prems(5)]) (use d1(1) frame.prems(4) in simp)
  obtain b' es es' k where ih: "callDecode_loop quiet frame_decode ex s1 =
      Some (Ok ex, s1\<lparr>fired := fired s1 @ es, out := es', cumulation := Some b',
              decodeState := (if drop ?n bs = [] then decodeState s1 else STATE_CALLING_CHILD_DECODE)\<rparr>)"
    "map frame_bytes (es @ es') = map frame_bytes (out s1) @ fs" "heap_valid b'" "heap_content b' = r"
    "array b' = array b1" "0 \<le> k" "hb_base b' = (hb_base b1)\<lparr>readerIdx := readerIdx (hb_base b1) + k\<rparr>"
    "length es' = (if r \<noteq> [] then 0 else if drop ?n bs = [] then length (out s1) else 1)"
    using frame.IH [OF d1(2,3), of s1] frame.prems by (auto simp: s1_def)
  have "callDecode_loop quiet frame_decode ex s = callDecode_loop quiet frame_decode ex s1"
    using rd round by (subst callDecode_loop.simps) simp
  then have "callDecode_loop quiet frame_decode ex s =
      Some (Ok ex, s\<lparr>fired := fired s @ out s @ es, out := es', cumulation := Some b',
              decodeState := (if bs = [] then decodeState s else STATE_CALLING_CHILD_DECODE)\<rparr>)"
    using ih(1) ne by (simp add: s1_def)
  moreover have "map frame_bytes ((out s @ es) @ es') = map frame_bytes (out s) @
      drop (nat (initialBytesToStrip d)) (take ?n bs) # fs"
    using ih(2) d1(6) by (simp add: s1_def)
  moreover have "hb_base b' = (hb_base b)\<lparr>readerIdx := readerIdx (hb_base b) + (int ?n + k)\<rparr>"
    using ih(7) d1(5) by simp
  moreover have "length es' = (if r \<noteq> [] then 0 else if bs = [] then length (out s) else 1)"
    using ih(8) ne by (simp add: s1_def)
  moreover have "0 \<le> int ?n + k" using ih(6) by simp
  moreover have "array b' = array b" using ih(5) d1(4) by simp
  ultimately show ?case using ih(3,4) by blast
qed

section \<open>A read\<close>

text \<open>
  Between two reads: \<open>r\<close> are the bytes not yet decoded, out of \<open>m\<close> received since the buffer was
  last empty or before.
\<close>

definition pending :: "frame_decoder \<Rightarrow> nat \<Rightarrow> byte list \<Rightarrow> (frame_decoder, heap_buf sliced) decoder \<Rightarrow> bool" where
  "pending d m r s \<longleftrightarrow> impl s = d \<and> \<not> singleDecode s \<and> 0 \<le> numReads s \<and> numReads s < 4 \<and> discardAfterReads s = 4 \<and>
     (case cumulation s of
        None \<Rightarrow> r = []
      | Some b \<Rightarrow> roomy b \<and> heap_content b = r \<and> r \<noteq> [] \<and> writerIdx (hb_base b) \<le> int m)"

text \<open>A message as the read loop of a connection hands it over.\<close>

definition message :: "heap_buf \<Rightarrow> bool" where
  "message b \<longleftrightarrow> roomy b \<and> readerIdx (hb_base b) = 0"

lemma message_writer: "message b \<Longrightarrow> writerIdx (hb_base b) = int (length (heap_content b))"
  using hb.content_len [of b] by (simp add: message_def roomy_def heap_content_def)

lemma collect_ok:
  assumes "pending d m r s" "message data" "m + length (heap_content data) \<le> 2 ^ 30"
  shows "\<exists>b. collect data s = (Ok (), s\<lparr>is_first := cumulation s = None, cumulation := Some b\<rparr>) \<and> roomy b \<and>
    heap_content b = r @ heap_content data \<and> writerIdx (hb_base b) \<le> int (m + length (heap_content data))"
proof (cases "cumulation s")
  case None
  define b where "b = data\<lparr>refCnt := retain_count 1 (refCnt data)\<rparr>"
  have "roomy b" "heap_content b = heap_content data" "hb_base b = hb_base data"
    using assms(2) by (auto simp: b_def message_def roomy_def heap_valid_def heap_content_def content_def)
  then show ?thesis using None assms(1) message_writer [OF assms(2)]
    by (auto simp: collect_def pending_def b_def)
next
  case (Some c)
  then have c: "roomy c" "heap_content c = r" "writerIdx (hb_base c) \<le> int m"
    using assms(1) by (auto simp: pending_def)
  have v: "heap_valid c" "heap_valid data" "maxCap (hb_base c) = INT_MAX"
    using c(1) assms(2) by (auto simp: roomy_def message_def CHAR_BUF_MAX_CAPACITY_def)
  let ?n = "int (length (heap_content data))"
  have le: "writerIdx (hb_base c) + ?n \<le> 2 ^ 30"
    using c(3) assms(3) by simp
  have pos: "0 < length (array c)" "0 \<le> writerIdx (hb_base c)"
    using c(1) idx_okD [OF hb.valid_idx [OF v(1)], simplified] by (auto simp: roomy_def)
  have "ensured heap_ops array heap_valid ?n c"
    by (rule hb.ensured_grow [OF v(1)]) (use le pos v(3) in simp_all)
  then obtain b where b: "write_from c data = (Ok b, b)" "heap_valid b"
    "heap_content b = heap_content c @ heap_content data"
    "hb_base b = (hb_base c)\<lparr>writerIdx := writerIdx (hb_base c) + ?n\<rparr>"
    "grown (maxCap (hb_base c)) (length (array c)) (length (array b))"
    using write_from_ok [OF v(1,2)] by blast
  have "roomy b" using roomy_grown [OF b(5) c(1) b(2)] b(4) by simp
  moreover have "\<not> i32 (writerIndex heap_ops c + readableBytes heap_ops data) > maxCapacity heap_ops c"
    using le pos v(3) by (simp add: readable_eq [OF v(2)] writerIndex_def maxCapacity_def)
  then have "cumulate (alloc_junk s) c data = (Ok b, Some b)" by (simp add: cumulate_def b(1))
  ultimately show ?thesis using Some b(3,4) c by (intro exI [of _ b]) (simp add: collect_def)
qed

lemma reset_ok:
  assumes "cumulation s = Some b" "roomy b" "0 \<le> numReads s" "numReads s < 4" "discardAfterReads s = 4"
    and "heap_content b = r" "writerIdx (hb_base b) \<le> int m" "impl s = d" "\<not> singleDecode s"
  shows "\<exists>s'. resetCumulation s = (Ok (), s') \<and> pending d m r s' \<and> fired s' = fired s \<and> out s' = out s"
proof -
  have v: "heap_valid b" using assms(2) by (simp add: roomy_def)
  have rd: "isReadable heap_ops b \<longleftrightarrow> r \<noteq> []"
    using hb.isReadable_eq [OF v] assms(6) by (simp add: heap_content_def)
  have len: "int (length r) = writerIdx (hb_base b) - readerIdx (hb_base b)"
    using hb.content_len [OF v] assms(6) by (simp add: heap_content_def)
  have "even (length (array b))" using assms(2) by (simp add: roomy_def)
  then obtain b' where b': "discardSomeReadBytes heap_ops b = (Ok (), b')" "heap_valid b'"
    "content heap_ops array b' = content heap_ops array b" "length (array b') = length (array b)"
    "readerIdx (hb_base b') \<le> readerIdx (hb_base b)" "maxCap (hb_base b') = maxCap (hb_base b)"
    using hb.discardSomeReadBytes_run [OF v] by auto
  have "array b' \<noteq> []" using b'(4) assms(2) length_0_conv unfolding roomy_def by metis
  then have r': "roomy b'" using assms(2) b'(2,4,6) unfolding roomy_def by metis
  have c': "heap_content b' = r" using b'(3) assms(6) by (simp add: heap_content_def)
  then have "int (length r) = writerIdx (hb_base b') - readerIdx (hb_base b')"
    using hb.content_len [OF b'(2)] by (simp add: heap_content_def)
  then have "writerIdx (hb_base b') \<le> int m" using len b'(5) assms(7) by linarith
  then show ?thesis using assms rd b'(1) r' c'
    by (auto simp: resetCumulation_def pending_def discard_cumulation_def)
qed

lemma read_ok:
  assumes "cfg_ok d" "\<not> discardingTooLong d" "pending d m r s" "message data"
    and "m + length (heap_content data) \<le> 2 ^ 30" "parses d (r @ heap_content data) fs r'"
  shows "\<exists>s'. read_data quiet frame_decode data s = (Ok (), s') \<and> pending d (m + length (heap_content data)) r' s' \<and>
    map frame_bytes (fired s') = map frame_bytes (fired s) @ fs"
proof -
  let ?m = "m + length (heap_content data)"
  define s0 where "s0 = s\<lparr>out := []\<rparr>"
  have p0: "pending d m r s0" using assms(3) by (simp add: pending_def s0_def)
  obtain b where b: "collect data s0 = (Ok (), s0\<lparr>is_first := cumulation s0 = None, cumulation := Some b\<rparr>)"
    "roomy b" "heap_content b = r @ heap_content data" "writerIdx (hb_base b) \<le> int ?m"
    using collect_ok [OF p0 assms(4,5)] by blast
  define s1 where "s1 = s0\<lparr>is_first := cumulation s0 = None, cumulation := Some b\<rparr>"
  have s1: "cumulation s1 = Some b" "impl s1 = d" "\<not> singleDecode s1" "out s1 = []" "fired s1 = fired s"
    "0 \<le> numReads s1" "numReads s1 < 4" "discardAfterReads s1 = 4"
    using assms(3) by (simp_all add: s1_def s0_def pending_def)
  have v: "heap_valid b" using b(2) by (simp add: roomy_def)
  obtain b' es es' k where lp: "callDecode_loop quiet frame_decode '''' s1 =
      Some (Ok '''', s1\<lparr>fired := fired s1 @ es, out := es', cumulation := Some b',
          decodeState := (if r @ heap_content data = [] then decodeState s1 else STATE_CALLING_CHILD_DECODE)\<rparr>)"
    "map frame_bytes (es @ es') = map frame_bytes (out s1) @ fs" "heap_valid b'" "heap_content b' = r'"
    "array b' = array b" "0 \<le> k" "hb_base b' = (hb_base b)\<lparr>readerIdx := readerIdx (hb_base b) + k\<rparr>"
    using loop_ok [OF assms(6,1,2) v b(3) s1(1-3)] by blast
  define s2 where "s2 = s1\<lparr>fired := fired s1 @ es, out := es', cumulation := Some b',
      decodeState := (if r @ heap_content data = [] then decodeState s1 else STATE_CALLING_CHILD_DECODE)\<rparr>"
  have call: "callDecode quiet frame_decode s1 = (Ok (), s2)" by (simp add: callDecode_def lp(1) s2_def)
  have r': "roomy b'" using b(2) lp(3,5,7) by (simp add: roomy_def)
  have w': "writerIdx (hb_base b') \<le> int ?m" using b(4) lp(7) by simp
  have s2: "cumulation s2 = Some b'" "numReads s2 = numReads s1" "discardAfterReads s2 = 4" "impl s2 = d"
    "\<not> singleDecode s2" using s1 by (simp_all add: s2_def)
  obtain s3 where s3: "resetCumulation s2 = (Ok (), s3)" "pending d ?m r' s3" "fired s3 = fired s2" "out s3 = out s2"
    using reset_ok [OF s2(1) r' _ _ s2(3) lp(4) w' s2(4,5)] s1(6,7) s2(2) by auto
  have "read_data quiet frame_decode data s = (Ok (), s3\<lparr>fired := fired s3 @ out s3\<rparr>)"
    using b(1) call s3(1) by (simp add: read_data_def prog_simps fire_quiet flip: s0_def s1_def)
  moreover have "pending d ?m r' (s3\<lparr>fired := fired s3 @ out s3\<rparr>)" using s3(2) by (simp add: pending_def)
  moreover have "map frame_bytes (fired s3 @ out s3) = map frame_bytes (fired s) @ fs"
    using lp(2) s1(4,5) s3(3,4) by (simp add: s2_def)
  ultimately show ?thesis by auto
qed

section \<open>A connection\<close>

fun reads_all ::
  "'e next_handler \<Rightarrow> ('d, 'e) decode_fun \<Rightarrow> heap_buf list \<Rightarrow> (('d, 'e) decoder, unit) prog" where
  "reads_all H D [] = ret ()"
| "reads_all H D (m # ms) = seqp (channelRead H D (Inl m)) (reads_all H D ms)"

lemma reads_all_ok:
  assumes "cfg_ok d" "\<not> discardingTooLong d" "\<forall>f\<in>set Fs. frame_ok d f"
  shows "pending d m r s \<Longrightarrow> \<forall>b\<in>set ms. message b \<Longrightarrow> parses d (concat Ps) gs r \<Longrightarrow>
    m + length (concat (map heap_content ms)) \<le> 2 ^ 30 \<Longrightarrow>
    concat Fs = concat Ps @ concat (map heap_content ms) @ y \<Longrightarrow>
    \<exists>s' fs r'. reads_all quiet frame_decode ms s = (Ok (), s') \<and>
      parses d (concat Ps @ concat (map heap_content ms)) (gs @ fs) r' \<and>
      pending d (m + length (concat (map heap_content ms))) r' s' \<and>
      map frame_bytes (fired s') = map frame_bytes (fired s) @ fs"
proof (induction ms arbitrary: m r s Ps gs)
  case Nil
  then show ?case by (intro exI [of _ s] exI [of _ "[]"] exI [of _ r]) (simp add: prog_simps)
next
  case (Cons b ms)
  let ?c = "heap_content b"
  have "concat Fs = (concat Ps @ ?c) @ (concat (map heap_content ms) @ y)" using Cons.prems(5) by simp
  from parses_prefix [OF assms(1,3) this] obtain hs t where hs: "parses d (concat Ps @ ?c) hs t" by blast
  obtain fs where fs: "hs = gs @ fs" "parses d (r @ ?c) fs t"
    using parses_split [OF Cons.prems(3) assms(1) hs] by blast
  obtain s1 where s1: "read_data quiet frame_decode b s = (Ok (), s1)" "pending d (m + length ?c) t s1"
    "map frame_bytes (fired s1) = map frame_bytes (fired s) @ fs"
    using read_ok [OF assms(1,2) Cons.prems(1) _ _ fs(2)] Cons.prems(2,4) by auto
  have "parses d (concat (Ps @ [?c])) (gs @ fs) t" using hs fs(1) by simp
  from Cons.IH [OF s1(2) _ this] Cons.prems obtain s' gs' r' where
    "reads_all quiet frame_decode ms s1 = (Ok (), s')"
    "parses d (concat (Ps @ [?c]) @ concat (map heap_content ms)) ((gs @ fs) @ gs') r'"
    "pending d (m + length ?c + length (concat (map heap_content ms))) r' s'"
    "map frame_bytes (fired s') = map frame_bytes (fired s1) @ gs'"
    by auto
  then show ?case using s1(1,3)
    by (intro exI [of _ s'] exI [of _ "fs @ gs'"] exI [of _ r']) (simp add: prog_simps channelRead_def add.assoc)
qed

section \<open>Frames too long\<close>


section \<open>Properties\<close>

lemma new_cfg_ok:
  assumes "LengthFieldBasedFrameDecoder_new maxLen off len adj strip = Ok d" "len \<in> {1, 2, 4, 8}"
    and "maxLen \<le> INT_MAX" "strip \<le> INT_MAX" "INT_MIN \<le> adj" "adj \<le> INT_MAX"
  shows "cfg_ok d \<and> \<not> discardingTooLong d \<and> bytesToDiscard d = 0 \<and> tooLongFrameLength d = 0 \<and> failFast d"
proof -
  have pos: "0 < maxLen" "0 \<le> off" "0 \<le> strip"
    using assms(1) by (auto simp: LengthFieldBasedFrameDecoder_new_def frame_init_def checkPositive_def
        checkPositiveOrZero_def split: if_splits)
  then have "off \<le> i32 (maxLen - len)"
    using assms(1) by (auto simp: LengthFieldBasedFrameDecoder_new_def frame_init_def checkPositive_def
        checkPositiveOrZero_def split: if_splits)
  moreover have i: "i32 (maxLen - len) = maxLen - len" using pos assms(2,3) by auto
  ultimately have le: "off + len \<le> maxLen" by simp
  then have "i32 (off + len) = off + len" using pos assms(2,3) by auto
  then have "d = \<lparr>maxFrameLength = maxLen, lengthFieldOffset = off, lengthFieldLength = len,
      lengthFieldEndOffset = off + len, lengthAdjustment = adj, initialBytesToStrip = strip, failFast = True,
      discardingTooLong = False, tooLongFrameLength = 0, bytesToDiscard = 0\<rparr>"
    using assms(1) pos i le by (simp add: LengthFieldBasedFrameDecoder_new_def frame_init_def checkPositive_def
        checkPositiveOrZero_def)
  then show ?thesis using assms pos le by (auto simp: cfg_ok_def)
qed

text \<open>
  C6: however the network cuts a sequence of well-formed frames into messages, the decoder passes
  on exactly the payloads of these frames, in order, and keeps no byte at the end: frames split
  over several reads are put together, frames that arrive together are separated.
\<close>

theorem frames_any_chunking:
  assumes "LengthFieldBasedFrameDecoder_new maxLen off len adj strip = Ok d" "len \<in> {1, 2, 4, 8}"
    and "maxLen \<le> INT_MAX" "strip \<le> INT_MAX" "INT_MIN \<le> adj" "adj \<le> INT_MAX"
    and "\<forall>f\<in>set Fs. frame_ok d f" "\<forall>b\<in>set ms. message b"
    and "concat (map heap_content ms) = concat Fs" "length (concat Fs) \<le> 2 ^ 30"
  shows "\<exists>s'. reads_all quiet frame_decode ms (ByteToMessageDecoder_new junk d) = (Ok (), s') \<and>
    map frame_bytes (fired s') = map (payload d) Fs \<and> cumulation s' = None"
proof -
  let ?s = "ByteToMessageDecoder_new junk d :: (frame_decoder, heap_buf sliced) decoder"
  have cfg: "cfg_ok d" "\<not> discardingTooLong d" using new_cfg_ok [OF assms(1-6)] by auto
  have pend: "pending d 0 [] ?s" by (simp add: pending_def ByteToMessageDecoder_new_def)
  have par: "parses d (concat []) [] []" using parses_nil [OF cfg(1)] by simp
  have le: "0 + length (concat (map heap_content ms)) \<le> 2 ^ 30" using assms(9,10) by simp
  have eq: "concat Fs = concat [] @ concat (map heap_content ms) @ []" using assms(9) by simp
  obtain s' fs r' where s0: "reads_all quiet frame_decode ms ?s = (Ok (), s')"
    "parses d (concat [] @ concat (map heap_content ms)) ([] @ fs) r'"
    "pending d (0 + length (concat (map heap_content ms))) r' s'"
    "map frame_bytes (fired s') = map frame_bytes (fired ?s) @ fs"
    using reads_all_ok [OF cfg assms(7) pend assms(8) par le eq] by blast
  then have s': "reads_all quiet frame_decode ms ?s = (Ok (), s')"
    "parses d (concat Fs) fs r'" "pending d (length (concat Fs)) r' s'" "map frame_bytes (fired s') = fs"
    using assms(9) by (simp_all add: ByteToMessageDecoder_new_def)
  have "fs = map (payload d) Fs" "r' = []"
    using parses_det [OF parses_stream [OF cfg(1) assms(7)] s'(2)] by simp_all
  moreover from this have "cumulation s' = None" using s'(3) by (auto simp: pending_def split: option.splits)
  ultimately show ?thesis using s'(1,4) by blast
qed

text \<open>Messages with any content exist.\<close>

lemma message_ex:
  assumes "length bs < 2 ^ 20"
  shows "\<exists>m. message m \<and> heap_content m = bs"
proof -
  let ?m = "\<lparr>hb_base = (AbstractCharBuf_init INT_MAX)\<lparr>writerIdx := int (length bs)\<rparr>, refCnt = 1,
      capacity0 = 2 * int (length bs) + 2, array = bs @ bs @ [0, 0], fresh = (\<lambda>_. 0)\<rparr>"
  have "message ?m" using assms
    by (simp add: message_def roomy_def heap_valid_def idx_ok_def AbstractCharBuf_init_def CHAR_BUF_MAX_CAPACITY_def)
  moreover have "heap_content ?m = bs"
    by (simp add: heap_content_def content_def content_of_def loaded_def AbstractCharBuf_init_def)
  ultimately show ?thesis by blast
qed

lemma two_byte_decoder:
  "\<exists>d. LengthFieldBasedFrameDecoder_new 100 0 2 0 2 = Ok d \<and> lengthFieldLength d = 2 \<and> lengthFieldOffset d = 0 \<and>
     lengthFieldEndOffset d = 2 \<and> lengthAdjustment d = 0 \<and> initialBytesToStrip d = 2 \<and> maxFrameLength d = 100"
  by (simp add: LengthFieldBasedFrameDecoder_new_def frame_init_def checkPositive_def checkPositiveOrZero_def)

lemma two_byte_announced:
  assumes "lengthFieldLength d = 2" "lengthFieldOffset d = 0" "lengthFieldEndOffset d = 2" "lengthAdjustment d = 0"
  shows "announced d (enc16 v @ bs) = uint v + 2"
  using assms by (simp add: announced_def field_value_def length_enc)

theorem frames_any_chunking_witness:
  "\<exists>d ms s'. LengthFieldBasedFrameDecoder_new 100 0 2 0 2 = Ok d \<and> length ms = 2 \<and>
     concat (map heap_content ms) = enc16 3 @ [97, 98, 99] \<and>
     reads_all quiet frame_decode ms (ByteToMessageDecoder_new (\<lambda>_. 0) d) = (Ok (), s') \<and>
     map frame_bytes (fired s') = [[97, 98, 99]]"
proof -
  obtain d where d: "LengthFieldBasedFrameDecoder_new 100 0 2 0 2 = Ok d" "lengthFieldLength d = 2"
    "lengthFieldOffset d = 0" "lengthFieldEndOffset d = 2" "lengthAdjustment d = 0" "initialBytesToStrip d = 2"
    "maxFrameLength d = 100" using two_byte_decoder by blast
  obtain m1 m2 where m: "message m1" "heap_content m1 = enc16 3 @ [97]" "message m2" "heap_content m2 = [98, 99]"
    using message_ex [of "enc16 3 @ [97]"] message_ex [of "[98, 99]"] by (auto simp: length_enc)
  have f: "frame_ok d (enc16 3 @ [97, 98, 99])"
    using d by (simp add: frame_ok_def header_ok_def two_byte_announced length_enc)
  have c: "concat (map heap_content [m1, m2]) = concat [enc16 3 @ [97, 98, 99]]" using m by simp
  obtain s' where "reads_all quiet frame_decode [m1, m2] (ByteToMessageDecoder_new (\<lambda>_. 0) d) = (Ok (), s')"
    "map frame_bytes (fired s') = map (payload d) [enc16 3 @ [97, 98, 99]]"
    using frames_any_chunking [OF d(1) _ _ _ _ _ _ _ c, of "\<lambda>_. 0"] f m by (auto simp: length_enc)
  then show ?thesis using d c by (intro exI [of _ d] exI [of _ "[m1, m2]"] exI [of _ s'])
      (simp add: payload_def length_enc)
qed

section \<open>After an error\<close>

lemma round_throw:
  assumes "cumulation s = Some b" "decode_frame (impl s, b) = (Throw e, (d', b'))"
  shows "decode_round quiet frame_decode s =
    (Throw e, s\<lparr>fired := fired s @ out s, out := [], decodeState := STATE_CALLING_CHILD_DECODE, impl := d',
                cumulation := Some b'\<rparr>)"
  using assms
  by (simp add: decode_round_def seqp_Ok [OF out_phase] prog_simps call_child_def frame_decode_def in_length_def)



section \<open>Loops that never end\<close>

text \<open>A round that throws and leaves the state as it was is repeated for ever.\<close>

lemma loop_stuck:
  assumes "in_readable s" "decode_round H D s = (Throw e, s)"
  shows "callDecode_loop H D ex s = None"
proof (rule ccontr)
  assume "callDecode_loop H D ex s \<noteq> None"
  then obtain y where y: "callDecode_loop H D ex s = Some y" by blast
  have "in_readable s \<longrightarrow> decode_round H D s = (Throw e, s) \<longrightarrow> False"
    by (rule callDecode_loop.raw_induct [where P = "\<lambda>H D _ s _. in_readable s \<longrightarrow>
        decode_round H D s = (Throw e, s) \<longrightarrow> False", OF _ y]) auto
  then show False using assms by blast
qed

lemma stuck_after:
  assumes "in_readable s" "cumulation s = Some b" "decode_frame (impl s, b) = (Throw e, (d1, b1))"
    and "isReadable heap_ops b1" "decode_frame (d1, b1) = (Throw e', (d1, b1))"
  shows "callDecode_loop quiet frame_decode ex s = None"
proof -
  define s1 where "s1 = s\<lparr>fired := fired s @ out s, out := [], decodeState := STATE_CALLING_CHILD_DECODE,
      impl := d1, cumulation := Some b1\<rparr>"
  have r: "decode_round quiet frame_decode s = (Throw e, s1)"
    using round_throw [OF assms(2,3)] by (simp add: s1_def)
  have "decode_round quiet frame_decode s1 = (Throw e', s1)"
    using round_throw [of s1 b1 e' d1 b1] assms(5) by (simp add: s1_def)
  moreover have "in_readable s1" using assms(4) by (simp add: s1_def in_readable_def)
  ultimately have "callDecode_loop quiet frame_decode x s1 = None" for x by (intro loop_stuck)
  then show ?thesis using assms(1) r by (subst callDecode_loop.simps) simp
qed

text \<open>
  the constructor accepts length fields of any width, but \<open>decode\<close> knows only 1, 2, 4 and 8.
  With another width it throws without consuming anything, \<open>callDecode\<close> catches the exception
  and tries again: the first read that contains a whole header never returns.
\<close>

theorem unsupported_length_hangs:
  assumes "lengthFieldLength d \<notin> {1, 2, 4, 8}" "\<not> discardingTooLong d"
    and "heap_valid data" "heap_content data \<noteq> []" "lengthFieldEndOffset d \<le> int (length (heap_content data))"
  shows "fst (read_data quiet frame_decode data (ByteToMessageDecoder_new junk d)) = Hang"
proof -
  define b where "b = data\<lparr>refCnt := retain_count 1 (refCnt data)\<rparr>"
  have b: "heap_valid b" "heap_content b = heap_content data"
    using assms(3) by (auto simp: b_def heap_valid_def heap_content_def content_def)
  define s1 :: "(frame_decoder, heap_buf sliced) decoder" where
    "s1 = (ByteToMessageDecoder_new junk d)\<lparr>is_first := True, cumulation := Some b\<rparr>"
  have rd: "isReadable heap_ops b" using hb.isReadable_eq [OF b(1)] b(2) assms(4) by (simp add: heap_content_def)
  have dec: "decode_frame (d, b) = (Throw (DecoderException ''unsupported lengthFieldLength''), (d, b))"
    using assms(1,2,5) b by (simp add: decode_frame_def prog_simps get_fd_def readable_eq
        getUnadjustedFrameLength_def)
  have "callDecode_loop quiet frame_decode '''' s1 = None"
    by (rule stuck_after [of s1 b _ d b]) (use rd dec in \<open>simp_all add: s1_def in_readable_def
        ByteToMessageDecoder_new_def\<close>)
  then have call: "callDecode quiet frame_decode s1 = (Hang, s1)" by (simp add: callDecode_def)
  have col: "collect data ((ByteToMessageDecoder_new junk d)\<lparr>out := []\<rparr>) = (Ok (), s1)"
    by (simp add: collect_def ByteToMessageDecoder_new_def s1_def b_def)
  show ?thesis using col call by (simp add: read_data_def prog_simps)
qed

theorem unsupported_length_hangs_witness:
  "\<exists>d data. LengthFieldBasedFrameDecoder_new 100 0 3 0 0 = Ok d \<and> heap_content data = [0, 0, 1, 65] \<and>
     fst (read_data quiet frame_decode data (ByteToMessageDecoder_new (\<lambda>_. 0) d)) = Hang"
proof -
  obtain d where d: "LengthFieldBasedFrameDecoder_new 100 0 3 0 0 = Ok d" "lengthFieldLength d = 3"
    "lengthFieldEndOffset d = 3" "\<not> discardingTooLong d"
    by (auto simp: LengthFieldBasedFrameDecoder_new_def frame_init_def checkPositive_def checkPositiveOrZero_def)
  obtain data where m: "message data" "heap_content data = [0, 0, 1, 65]"
    using message_ex [of "[0, 0, 1, 65]"] by auto
  then have "heap_valid data" by (simp add: message_def roomy_def)
  from unsupported_length_hangs [OF _ d(4) this, of "\<lambda>_. 0"] d m show ?thesis by auto
qed



end
