(* ===== verification/RecvAlloc.thy ===== *)
theory RecvAlloc
  imports Prelude
begin

text \<open>
  \<open>AdaptiveRecvByteBufAllocator\<close> and \<open>DefaultMaxMessagesRecvCharBufAllocator\<close>
  (src/common/net/channel): the guess of how large the next read buffer should be, and when a read
  loop goes on.
\<close>

section \<open>The table of sizes\<close>

text \<open>The two loops of \<open>SizeTable::init\<close>; the second ends when the shift overflows.\<close>

function steps16 :: "int \<Rightarrow> int list" where
  "steps16 i = (if i < 512 then i # steps16 (i + 16) else [])"
  by pat_completeness auto
termination by (relation "measure (\<lambda>i. nat (512 - i))") auto

declare steps16.simps [simp del]

function doublings :: "int \<Rightarrow> int list" where
  "doublings i = (if 0 < i \<and> i \<le> INT_MAX then i # doublings (i32 (push_bit 1 i)) else [])"
  by pat_completeness auto
termination
proof (relation "measure (\<lambda>i. if 0 < i then nat (2 ^ 31 - i) else 0)")
  fix i :: int
  assume i: "0 < i \<and> i \<le> INT_MAX"
  have "i32 (2 * i) = 2 * i \<or> i32 (2 * i) \<le> 0"
    using i i32_wrap_neg [of "2 * i"] by (cases "2 * i \<le> INT_MAX") auto
  then show "(i32 (push_bit 1 i), i) \<in> measure (\<lambda>i. if 0 < i then nat (2 ^ 31 - i) else 0)"
    using i by (auto simp: push_bit_eq_mult mult.commute)
qed simp

declare doublings.simps [simp del]

definition size_table :: "int list" where
  "size_table = steps16 16 @ doublings 512"

definition getSize :: "int \<Rightarrow> int" where
  "getSize index =
     (if index \<le> 0 then hd size_table
      else if index \<ge> int (length size_table) then last size_table else size_table ! nat index)"

text \<open>The loop of \<open>getSizeTableIndex\<close>; an access outside the vector is undefined.\<close>

function search :: "int list \<Rightarrow> int \<Rightarrow> int \<Rightarrow> int \<Rightarrow> int outcome" where
  "search xs sz low high =
     (if low < high then
        (let mid = drop_bit 1 (low + high) in
         if mid < 0 \<or> int (length xs) \<le> mid + 1 then Undef
         else if sz = xs ! nat mid then Ok mid
         else if sz < xs ! nat mid then search xs sz low (mid - 1)
         else if sz > xs ! nat (mid + 1) then search xs sz (mid + 1) high
         else Ok (mid + 1))
      else Ok low)"
  by pat_completeness auto
termination
  by (relation "measure (\<lambda>(xs, sz, low, high). nat (high - low))") (auto simp: drop_bit_eq_div)

declare search.simps [simp del]

definition getSizeTableIndex :: "int \<Rightarrow> int outcome" where
  "getSizeTableIndex sz = search size_table sz 0 (int (length size_table) - 1)"

section \<open>The allocator\<close>

definition INDEX_INCREMENT :: int where "INDEX_INCREMENT = 4"
definition INDEX_DECREMENT :: int where "INDEX_DECREMENT = 1"

record recv_allocator =
  maxMessagesPerRead :: int
  respectMaybeMoreData :: bool
  ra_minIndex :: int
  ra_maxIndex :: int
  ra_initial :: int

text \<open>The setter, and the constructor of the adaptive allocator.\<close>

definition set_maxMessagesPerRead :: "int \<Rightarrow> (recv_allocator, unit) prog" where
  "set_maxMessagesPerRead n =
     (if n \<le> 0 then raise (RuntimeError ''maxMessagesPerRead'') else modify (maxMessagesPerRead_update (\<lambda>_. n)))"

definition bind_outcome :: "'a outcome \<Rightarrow> ('a \<Rightarrow> 'b outcome) \<Rightarrow> 'b outcome" where
  "bind_outcome m f = (case m of Ok a \<Rightarrow> f a | Throw e \<Rightarrow> Throw e | Hang \<Rightarrow> Hang | Undef \<Rightarrow> Undef)"

definition AdaptiveRecvByteBufAllocator_new :: "int \<Rightarrow> int \<Rightarrow> int \<Rightarrow> recv_allocator outcome" where
  "AdaptiveRecvByteBufAllocator_new minimum initial maximum =
     (if minimum \<le> 0 then Throw (RuntimeError ''minimum'')
      else if initial < minimum then Throw (RuntimeError ''initial'')
      else if maximum < initial then Throw (RuntimeError ''maximum'')
      else bind_outcome (getSizeTableIndex minimum) (\<lambda>minIndex.
        bind_outcome (getSizeTableIndex maximum) (\<lambda>maxIndex.
          Ok \<lparr>maxMessagesPerRead = 1, respectMaybeMoreData = True,
              ra_minIndex = (if getSize minIndex < minimum then minIndex + 1 else minIndex),
              ra_maxIndex = (if getSize maxIndex > maximum then maxIndex - 1 else maxIndex),
              ra_initial = initial\<rparr>)))"

section \<open>The handle of a connection\<close>

record recv_handle =
  rh_maxMessagePerRead :: int
  rh_totalMessages :: int
  rh_totalBytesRead :: int
  rh_attemptedBytesRead :: int
  rh_lastBytesRead :: int
  rh_respect :: bool
  rh_minIndex :: int
  rh_maxIndex :: int
  rh_index :: int
  rh_next :: int
  rh_decreaseNow :: bool

definition newHandle :: "recv_allocator \<Rightarrow> recv_handle outcome" where
  "newHandle al = map_ok (\<lambda>i.
     \<lparr>rh_maxMessagePerRead = 1, rh_totalMessages = 0, rh_totalBytesRead = 0, rh_attemptedBytesRead = 0,
      rh_lastBytesRead = 0, rh_respect = respectMaybeMoreData al, rh_minIndex = ra_minIndex al,
      rh_maxIndex = ra_maxIndex al, rh_index = i, rh_next = getSize i, rh_decreaseNow = False\<rparr>)
     (getSizeTableIndex (ra_initial al))"

definition guess :: "recv_handle \<Rightarrow> int" where
  "guess h = rh_next h"

definition record_read :: "int \<Rightarrow> recv_handle \<Rightarrow> recv_handle" where
  "record_read actual h =
     (if actual \<le> getSize (max 0 (rh_index h - INDEX_DECREMENT - 1)) then
        (if rh_decreaseNow h then
           (let i = max (rh_index h - INDEX_DECREMENT) (rh_minIndex h)
            in h\<lparr>rh_index := i, rh_next := getSize i, rh_decreaseNow := False\<rparr>)
         else h\<lparr>rh_decreaseNow := True\<rparr>)
      else if actual \<ge> rh_next h then
        (let i = min (rh_index h + INDEX_INCREMENT) (rh_maxIndex h)
         in h\<lparr>rh_index := i, rh_next := getSize i, rh_decreaseNow := False\<rparr>)
      else h)"

definition reset_handle :: "recv_allocator \<Rightarrow> recv_handle \<Rightarrow> recv_handle" where
  "reset_handle al h = h\<lparr>rh_maxMessagePerRead := maxMessagesPerRead al, rh_totalMessages := 0, rh_totalBytesRead := 0\<rparr>"

definition incMessagesRead :: "int \<Rightarrow> recv_handle \<Rightarrow> recv_handle" where
  "incMessagesRead amt h = h\<lparr>rh_totalMessages := i32 (rh_totalMessages h + amt)\<rparr>"

text \<open>\<open>lastBytesRead\<close> of the base class, and its override in the adaptive handle.\<close>

definition base_lastBytesRead :: "int \<Rightarrow> recv_handle \<Rightarrow> recv_handle" where
  "base_lastBytesRead bytes h =
     (let h' = h\<lparr>rh_lastBytesRead := bytes\<rparr> in
      if bytes > 0 then h'\<lparr>rh_totalBytesRead := i32 (rh_totalBytesRead h + bytes)\<rparr> else h')"

definition lastBytesRead :: "int \<Rightarrow> recv_handle \<Rightarrow> recv_handle" where
  "lastBytesRead bytes h =
     base_lastBytesRead bytes (if bytes = rh_attemptedBytesRead h then record_read bytes h else h)"

definition attemptedBytesRead :: "int \<Rightarrow> recv_handle \<Rightarrow> recv_handle" where
  "attemptedBytesRead bytes h = h\<lparr>rh_attemptedBytesRead := bytes\<rparr>"

definition continueReading :: "recv_handle \<Rightarrow> bool" where
  "continueReading h \<longleftrightarrow> (\<not> rh_respect h \<or> rh_attemptedBytesRead h = rh_lastBytesRead h) \<and>
     rh_totalMessages h < rh_maxMessagePerRead h \<and> rh_totalBytesRead h > 0"

definition totalBytesRead :: "recv_handle \<Rightarrow> int" where
  "totalBytesRead h = (if rh_totalBytesRead h < 0 then INT_MAX else rh_totalBytesRead h)"

definition readComplete :: "recv_handle \<Rightarrow> recv_handle" where
  "readComplete h = record_read (totalBytesRead h) h"

section \<open>The table\<close>

lemma size_table_eq:
  "size_table = map (\<lambda>k. 16 * int k) [1..<32] @ map (\<lambda>k. 2 ^ k) [9..<31]"
  by code_simp

lemma size_table_facts:
  "length size_table = 53" "hd size_table = 16" "last size_table = 1073741824" "size_table ! 0 = 16"
  "sorted_wrt (<) size_table" "size_table ! 52 = 1073741824"
  by code_simp+

lemma nth_less: "sorted_wrt (<) xs \<Longrightarrow> i < j \<Longrightarrow> j < length xs \<Longrightarrow> xs ! i < (xs ! j :: int)"
  by (simp add: sorted_wrt_iff_nth_less)

lemma nth_le: "sorted_wrt (<) xs \<Longrightarrow> i \<le> j \<Longrightarrow> j < length xs \<Longrightarrow> xs ! i \<le> (xs ! j :: int)"
  using nth_less [of xs i j] by (cases "i = j") simp_all

text \<open>\<open>r\<close> is the position of \<open>sz\<close> in the table, or one of the two positions around the gap it falls in.\<close>

definition located :: "int list \<Rightarrow> int \<Rightarrow> int \<Rightarrow> bool" where
  "located xs sz r \<longleftrightarrow> 0 \<le> r \<and> r < int (length xs) \<and> (\<forall>i. int i < r \<longrightarrow> xs ! i < sz) \<and>
     (\<forall>i<length xs. r < int i \<longrightarrow> sz \<le> xs ! i) \<and> (sz \<in> set xs \<longrightarrow> xs ! nat r = sz)"

lemma search_ok:
  assumes "sorted_wrt (<) xs" "0 \<le> low" "low < int (length xs)" "low \<le> high + 1" "high < int (length xs)"
    and "\<forall>i. int i < low \<longrightarrow> xs ! i < sz" "\<forall>i<length xs. high < int i \<longrightarrow> sz < xs ! i"
  shows "\<exists>r. search xs sz low high = Ok r \<and> located xs sz r"
  using assms(2-)
proof (induction "nat (high - low)" arbitrary: low high rule: less_induct)
  case less
  note le = nth_le [OF assms(1)] and lt = nth_less [OF assms(1)]
  show ?case
  proof (cases "low < high")
    case False
    have "k = nat low" if "k < length xs" "xs ! k = sz" for k
    proof -
      have "\<not> int k < low" using less.prems(5) that by auto
      moreover have "\<not> high < int k" using less.prems(6) that by auto
      ultimately show ?thesis using False by simp
    qed
    then have "located xs sz low" using less.prems False by (auto simp: located_def in_set_conv_nth intro: less_imp_le)
    then show ?thesis using False by (simp add: search.simps)
  next
    case True
    define m where "m = nat ((low + high) div 2)"
    have m: "(low + high) div 2 = int m" "low \<le> int m" "int m < high" "Suc m < length xs" "int m + 1 \<le> high"
      using True less.prems(1,4) by (auto simp: m_def)
    let ?a = "xs ! m" and ?b = "xs ! Suc m"
    have n: "nat (int m + 1) = Suc m" by simp
    have unf: "search xs sz low high = (if sz = ?a then Ok (int m) else if sz < ?a then search xs sz low (int m - 1)
        else if sz > ?b then search xs sz (int m + 1) high else Ok (int m + 1))"
      using True m(1,4) by (subst search.simps) (simp add: drop_bit_eq_div n)
    consider "sz = ?a" | "sz < ?a" | "sz > ?b" | "?a < sz" "sz \<le> ?b" by linarith
    then show ?thesis
    proof cases
      case 1
      then have "located xs sz (int m)" using m(4) le lt by (auto simp: located_def intro: less_imp_le)
      then show ?thesis using 1 unf by simp
    next
      case 2
      have "\<exists>r. search xs sz low (int m - 1) = Ok r \<and> located xs sz r"
      proof (rule less.hyps)
        show "\<forall>i<length xs. int m - 1 < int i \<longrightarrow> sz < xs ! i"
        proof (intro allI impI)
          fix i assume "i < length xs" "int m - 1 < int i"
          then show "sz < xs ! i" using 2 le [of m i] by simp
        qed
      qed (use m less.prems in auto)
      then show ?thesis using 2 unf by simp
    next
      case 3
      have "\<exists>r. search xs sz (int m + 1) high = Ok r \<and> located xs sz r"
      proof (rule less.hyps)
        show "\<forall>i. int i < int m + 1 \<longrightarrow> xs ! i < sz"
        proof (intro allI impI)
          fix i assume "int i < int m + 1"
          then show "xs ! i < sz" using 3 m(4) le [of i "Suc m"] by simp
        qed
      qed (use m less.prems in auto)
      then show ?thesis using 3 unf m(4) lt [of m "Suc m"] by simp
    next
      case 4
      have "k = Suc m" if "k < length xs" "xs ! k = sz" for k
      proof -
        have "\<not> k \<le> m" using that 4(1) le [of k m] m(4) by auto
        moreover have "\<not> Suc m < k" using that 4(2) lt [of "Suc m" k] by auto
        ultimately show ?thesis by simp
      qed
      moreover have "xs ! i < sz" if "i \<le> m" for i using that 4(1) le [of i m] m(4) by simp
      moreover have "sz \<le> xs ! i" if "Suc m < i" "i < length xs" for i using that 4(2) le [of "Suc m" i] by simp
      ultimately have "located xs sz (int m + 1)" using m(4) n by (auto simp: located_def in_set_conv_nth)
      then show ?thesis using 4 unf by simp
    qed
  qed
qed

lemma index_ok:
  obtains r where "getSizeTableIndex sz = Ok r" "located size_table sz r"
  using search_ok [OF size_table_facts(5), of 0 52 sz] size_table_facts(1) by (auto simp: getSizeTableIndex_def)

lemma getSize_nth: "0 \<le> i \<Longrightarrow> i < 53 \<Longrightarrow> getSize i = size_table ! nat i"
  using size_table_facts(1,2,4) by (auto simp: getSize_def)

lemma getSize_less: "0 \<le> i \<Longrightarrow> i < j \<Longrightarrow> j < 53 \<Longrightarrow> getSize i < getSize j"
  using nth_less [OF size_table_facts(5), of "nat i" "nat j"] size_table_facts(1) by (simp add: getSize_nth)

lemma getSize_le: "0 \<le> i \<Longrightarrow> i \<le> j \<Longrightarrow> j < 53 \<Longrightarrow> getSize i \<le> getSize j"
  using getSize_less [of i j] by (cases "i = j") auto

lemma locatedD:
  assumes "located size_table sz r"
  shows "0 \<le> r" "r < 53" "0 \<le> i \<Longrightarrow> i < r \<Longrightarrow> getSize i < sz" "r < i \<Longrightarrow> i < 53 \<Longrightarrow> sz \<le> getSize i"
    "sz \<in> set size_table \<Longrightarrow> getSize r = sz"
  using assms size_table_facts(1) by (auto simp: located_def getSize_nth)

section \<open>The handle\<close>

definition handle_ok :: "recv_handle \<Rightarrow> bool" where
  "handle_ok h \<longleftrightarrow> 0 \<le> rh_minIndex h \<and> rh_minIndex h \<le> rh_index h \<and> rh_index h \<le> rh_maxIndex h \<and>
     rh_maxIndex h < 53 \<and> rh_next h = getSize (rh_index h)"

datatype read_op = LastBytes int | Attempted int | ReadComplete | ResetCounters | IncMessages int

fun run_read_op :: "recv_allocator \<Rightarrow> read_op \<Rightarrow> recv_handle \<Rightarrow> recv_handle" where
  "run_read_op al (LastBytes n) = lastBytesRead n"
| "run_read_op al (Attempted n) = attemptedBytesRead n"
| "run_read_op al ReadComplete = readComplete"
| "run_read_op al ResetCounters = reset_handle al"
| "run_read_op al (IncMessages n) = incMessagesRead n"

lemma record_read_range [simp]:
  "rh_minIndex (record_read n h) = rh_minIndex h" "rh_maxIndex (record_read n h) = rh_maxIndex h"
  by (simp_all add: record_read_def Let_def)

lemma record_read_ok: "handle_ok h \<Longrightarrow> handle_ok (record_read n h)"
  by (auto simp: handle_ok_def record_read_def INDEX_INCREMENT_def INDEX_DECREMENT_def Let_def)

lemma handle_ok_counters:
  "handle_ok (h\<lparr>rh_totalBytesRead := t\<rparr>) = handle_ok h" "handle_ok (h\<lparr>rh_lastBytesRead := t\<rparr>) = handle_ok h"
  "handle_ok (h\<lparr>rh_attemptedBytesRead := t\<rparr>) = handle_ok h" "handle_ok (h\<lparr>rh_totalMessages := t\<rparr>) = handle_ok h"
  "handle_ok (h\<lparr>rh_maxMessagePerRead := t\<rparr>) = handle_ok h"
  by (simp_all add: handle_ok_def)

lemma run_read_op_ok:
  assumes "handle_ok h"
  shows "handle_ok (run_read_op al op h) \<and> rh_minIndex (run_read_op al op h) = rh_minIndex h \<and>
     rh_maxIndex (run_read_op al op h) = rh_maxIndex h"
  using record_read_ok [OF assms] assms
  by (cases op) (simp_all add: handle_ok_counters lastBytesRead_def base_lastBytesRead_def attemptedBytesRead_def
      readComplete_def reset_handle_def incMessagesRead_def Let_def)

lemma run_read_ops_ok:
  "handle_ok h \<Longrightarrow> handle_ok (fold (run_read_op al) ops h) \<and>
     rh_minIndex (fold (run_read_op al) ops h) = rh_minIndex h \<and> rh_maxIndex (fold (run_read_op al) ops h) = rh_maxIndex h"
  using run_read_op_ok by (induction ops arbitrary: h) fastforce+

lemma new_ranges:
  assumes "0 < minimum" "minimum \<le> initial" "initial \<le> maximum" "minimum \<le> 2 ^ 30" "16 \<le> maximum"
  shows "\<exists>al. AdaptiveRecvByteBufAllocator_new minimum initial maximum = Ok al \<and> ra_initial al = initial \<and>
    0 \<le> ra_minIndex al \<and> ra_minIndex al < 53 \<and> minimum \<le> getSize (ra_minIndex al) \<and>
    (\<forall>i. 0 \<le> i \<longrightarrow> i < ra_minIndex al \<longrightarrow> getSize i < minimum) \<and>
    0 \<le> ra_maxIndex al \<and> ra_maxIndex al < 53 \<and> getSize (ra_maxIndex al) \<le> maximum \<and>
    (\<forall>i. ra_maxIndex al < i \<longrightarrow> i < 53 \<longrightarrow> maximum < getSize i)"
proof -
  obtain r where r: "getSizeTableIndex minimum = Ok r" "located size_table minimum r" by (rule index_ok)
  obtain q where q: "getSizeTableIndex maximum = Ok q" "located size_table maximum q" by (rule index_ok)
  note lr = locatedD [OF r(2)] and lq = locatedD [OF q(2)]
  have ends: "getSize 52 = 2 ^ 30" "getSize 0 = 16" using size_table_facts(4,6) by (simp_all add: getSize_nth)
  define i where "i = (if getSize r < minimum then r + 1 else r)"
  define j where "j = (if getSize q > maximum then q - 1 else q)"
  have "getSize r < minimum \<Longrightarrow> r \<noteq> 52" using ends(1) assms(4) by auto
  then have i: "0 \<le> i" "i < 53" "minimum \<le> getSize i" using lr(1,2) lr(4) [of "r + 1"] by (auto simp: i_def)
  have i2: "getSize k < minimum" if "0 \<le> k" "k < i" for k
    using that lr(3) [of k] by (cases "k = r") (auto simp: i_def split: if_splits)
  have "getSize q > maximum \<Longrightarrow> q \<noteq> 0" using ends(2) assms(5) by auto
  then have j: "0 \<le> j" "j < 53" "getSize j \<le> maximum" using lq(1,2) lq(3) [of "q - 1"] by (auto simp: j_def)
  have j2: "maximum < getSize k" if k: "j < k" "k < 53" for k
  proof (cases "k \<le> q")
    case True
    then show ?thesis using k by (cases "k = q") (auto simp: j_def split: if_splits)
  next
    case False
    then have "getSize q < getSize k" "maximum \<le> getSize k" using lq(1) lq(4) [of k] k(2) getSize_less [of q k] by auto
    moreover have "maximum = getSize k \<Longrightarrow> maximum \<in> set size_table"
      using k lq(1) False size_table_facts(1) by (simp add: getSize_nth)
    ultimately show ?thesis using lq(5) by fastforce
  qed
  define al where "al = \<lparr>maxMessagesPerRead = 1, respectMaybeMoreData = True, ra_minIndex = i, ra_maxIndex = j, ra_initial = initial\<rparr>"
  have "AdaptiveRecvByteBufAllocator_new minimum initial maximum = Ok al"
    using r(1) q(1) assms(1-3) by (simp add: AdaptiveRecvByteBufAllocator_new_def bind_outcome_def al_def i_def j_def)
  moreover have "ra_minIndex al = i" "ra_maxIndex al = j" "ra_initial al = initial" by (simp_all add: al_def)
  ultimately show ?thesis using i i2 j j2 by (intro exI [of _ al]) simp
qed

lemma new_handle:
  assumes "AdaptiveRecvByteBufAllocator_new minimum initial maximum = Ok al"
    and "minimum \<in> set size_table" "initial \<in> set size_table" "maximum \<in> set size_table"
  shows "\<exists>h. newHandle al = Ok h \<and> handle_ok h \<and> minimum \<le> getSize (rh_minIndex h) \<and> getSize (rh_maxIndex h) \<le> maximum"
proof -
  have order: "0 < minimum" "minimum \<le> initial" "initial \<le> maximum"
    using assms(1) by (auto simp: AdaptiveRecvByteBufAllocator_new_def split: if_splits)
  have ends: "16 \<le> x \<and> x \<le> 2 ^ 30" if x: "x \<in> set size_table" for x
  proof -
    obtain k where "k < length size_table" "size_table ! k = x" using x unfolding in_set_conv_nth by blast
    then show ?thesis
      using size_table_facts(1,4,6) nth_le [OF size_table_facts(5), of 0 k] nth_le [OF size_table_facts(5), of k 52] by simp
  qed
  have "minimum \<le> 2 ^ 30" "16 \<le> maximum" using ends [OF assms(2)] ends [OF assms(4)] by simp_all
  from new_ranges [OF order this] assms(1) have al: "ra_initial al = initial"
    "0 \<le> ra_minIndex al" "ra_minIndex al < 53" "minimum \<le> getSize (ra_minIndex al)"
    "\<forall>i. 0 \<le> i \<longrightarrow> i < ra_minIndex al \<longrightarrow> getSize i < minimum"
    "0 \<le> ra_maxIndex al" "ra_maxIndex al < 53" "getSize (ra_maxIndex al) \<le> maximum"
    "\<forall>i. ra_maxIndex al < i \<longrightarrow> i < 53 \<longrightarrow> maximum < getSize i"
    by (metis outcome.inject(1))+
  obtain r where r: "getSizeTableIndex initial = Ok r" "located size_table initial r" by (rule index_ok)
  note lr = locatedD [OF r(2)]
  obtain h where h: "newHandle al = Ok h" "rh_index h = r" "rh_next h = getSize r" "rh_minIndex h = ra_minIndex al"
    "rh_maxIndex h = ra_maxIndex al" using r(1) al(1) by (auto simp: newHandle_def)
  have "ra_minIndex al \<le> r" using al(5) lr(1,5) assms(3) order(2) by (metis leD leI order.strict_trans2)
  moreover have "r \<le> ra_maxIndex al" using al(9) lr(2,5) assms(3) order(3) by (metis leD leI)
  ultimately have "handle_ok h" using h al lr(1,2) by (simp add: handle_ok_def)
  then show ?thesis using h al by simp
qed

section \<open>Properties\<close>

text \<open>
  C34: of an allocator with the bounds \<open>minimum\<close> and \<open>maximum\<close>, whatever they are, the lower index is that of
  the least size of the table that is not below \<open>minimum\<close> and the upper one that of the greatest
  size not above \<open>maximum\<close>, although the search may miss a size that is not in the table by one.
\<close>

theorem allocator_bounds:
  assumes "0 < minimum" "minimum \<le> initial" "initial \<le> maximum" "minimum \<le> 2 ^ 30" "16 \<le> maximum"
  shows "\<exists>al. AdaptiveRecvByteBufAllocator_new minimum initial maximum = Ok al \<and>
    minimum \<le> getSize (ra_minIndex al) \<and> (\<forall>i. 0 \<le> i \<longrightarrow> i < ra_minIndex al \<longrightarrow> getSize i < minimum) \<and>
    getSize (ra_maxIndex al) \<le> maximum \<and> (\<forall>i. ra_maxIndex al < i \<longrightarrow> i < 53 \<longrightarrow> maximum < getSize i)"
  using new_ranges [OF assms] by blast

theorem allocator_bounds_witness:
  "\<exists>al. AdaptiveRecvByteBufAllocator_new 100 2000 5000 = Ok al \<and> 100 \<le> getSize (ra_minIndex al) \<and>
     getSize (ra_maxIndex al) \<le> 5000"
  using allocator_bounds [of 100 2000 5000] by auto

text \<open>
  when the three configured sizes are in the table, as the defaults are, the guess of a handle
  stays between the minimum and the maximum over any sequence of its operations.
\<close>

theorem guess_in_range:
  assumes "AdaptiveRecvByteBufAllocator_new minimum initial maximum = Ok al" "newHandle al = Ok h"
    and "minimum \<in> set size_table" "initial \<in> set size_table" "maximum \<in> set size_table"
  shows "minimum \<le> guess (fold (run_read_op al') ops h) \<and> guess (fold (run_read_op al') ops h) \<le> maximum"
proof -
  obtain h' where "newHandle al = Ok h'" "handle_ok h'" "minimum \<le> getSize (rh_minIndex h')"
    "getSize (rh_maxIndex h') \<le> maximum" using new_handle [OF assms(1,3-5)] by blast
  then have h: "handle_ok h" "minimum \<le> getSize (rh_minIndex h)" "getSize (rh_maxIndex h) \<le> maximum"
    using assms(2) by simp_all
  note r = run_read_ops_ok [OF h(1), of al' ops]
  then show ?thesis
    using h(2,3) getSize_le [of "rh_minIndex h" "rh_index (fold (run_read_op al') ops h)"]
      getSize_le [of "rh_index (fold (run_read_op al') ops h)" "rh_maxIndex h"]
    by (auto simp: handle_ok_def guess_def)
qed

theorem guess_in_range_witness:
  "\<exists>al h. AdaptiveRecvByteBufAllocator_new 1024 8192 65536 = Ok al \<and> newHandle al = Ok h \<and>
     1024 \<le> guess (fold (run_read_op al) [Attempted 8192, LastBytes 8192, ReadComplete, LastBytes 5, ReadComplete] h)"
proof -
  have t: "(1024::int) \<in> set size_table" "8192 \<in> set size_table" "65536 \<in> set size_table" by code_simp+
  obtain al where al: "AdaptiveRecvByteBufAllocator_new 1024 8192 65536 = Ok al" using new_ranges [of 1024 8192 65536] by auto
  obtain r where "getSizeTableIndex (ra_initial al) = Ok r" by (rule index_ok)
  then obtain h where h: "newHandle al = Ok h" by (simp add: newHandle_def)
  show ?thesis using guess_in_range [OF al h t] al h by blast
qed

text \<open>
  while reads fill the buffer, the guess climbs four sizes at a time up to the upper bound, from
  every size but the smallest.
\<close>

theorem full_reads_grow:
  assumes "handle_ok h" "0 < rh_index h"
  shows "guess (((\<lambda>h. record_read (guess h) h) ^^ k) h) = getSize (min (rh_index h + 4 * int k) (rh_maxIndex h))"
proof -
  let ?f = "\<lambda>h. record_read (guess h) h"
  have "handle_ok ((?f ^^ k) h) \<and> rh_maxIndex ((?f ^^ k) h) = rh_maxIndex h \<and>
    rh_index ((?f ^^ k) h) = min (rh_index h + 4 * int k) (rh_maxIndex h)"
  proof (induction k)
    case 0
    then show ?case using assms(1) by (simp add: handle_ok_def)
  next
    case (Suc k)
    let ?g = "(?f ^^ k) h"
    have g: "handle_ok ?g" "rh_index ?g = min (rh_index h + 4 * int k) (rh_maxIndex h)" "rh_maxIndex ?g = rh_maxIndex h"
      using Suc by simp_all
    have "0 < rh_index ?g" using g assms by (simp add: handle_ok_def)
    then have "\<not> guess ?g \<le> getSize (max 0 (rh_index ?g - INDEX_DECREMENT - 1))"
      using g(1) getSize_less [of "max 0 (rh_index ?g - 2)" "rh_index ?g"]
      by (auto simp: handle_ok_def guess_def INDEX_DECREMENT_def)
    then have "rh_index (?f ?g) = min (rh_index ?g + 4) (rh_maxIndex ?g)"
      by (simp add: record_read_def guess_def Let_def INDEX_INCREMENT_def)
    then show ?case using g record_read_ok [OF g(1)] by simp
  qed
  then show ?thesis by (simp add: guess_def handle_ok_def)
qed

theorem full_reads_grow_witness:
  "\<exists>h. handle_ok h \<and> 0 < rh_index h \<and> guess (((\<lambda>h. record_read (guess h) h) ^^ 2) h) = getSize 14"
proof -
  let ?h = "\<lparr>rh_maxMessagePerRead = 1, rh_totalMessages = 0, rh_totalBytesRead = 0, rh_attemptedBytesRead = 0,
      rh_lastBytesRead = 0, rh_respect = True, rh_minIndex = 0, rh_maxIndex = 52, rh_index = 6, rh_next = getSize 6,
      rh_decreaseNow = False\<rparr>"
  have "handle_ok ?h" by (simp add: handle_ok_def)
  then show ?thesis using full_reads_grow [of ?h 2] by (intro exI [of _ ?h]) simp
qed

text \<open>
  at the smallest size the test for a small read comes first and holds for every read that fits,
  so a buffer of 16 bytes is never grown, however many reads fill it.
\<close>

theorem smallest_never_grows:
  assumes "handle_ok h" "rh_index h = 0" "\<forall>n\<in>set ns. n \<le> 16"
  shows "guess (fold record_read ns h) = 16"
proof -
  have s: "getSize 0 = 16" using size_table_facts(4) by (simp add: getSize_nth)
  have "handle_ok (fold record_read ns h) \<and> rh_index (fold record_read ns h) = 0"
    using assms
  proof (induction ns arbitrary: h)
    case (Cons n ns)
    have "rh_index (record_read n h) = 0"
      using Cons.prems s by (simp add: record_read_def Let_def INDEX_DECREMENT_def handle_ok_def)
    then show ?case using Cons.IH [OF record_read_ok] Cons.prems by simp
  qed simp
  then show ?thesis using s by (simp add: handle_ok_def guess_def)
qed

theorem smallest_never_grows_witness:
  "\<exists>h. handle_ok h \<and> rh_index h = 0 \<and> rh_maxIndex h = 52 \<and> guess (fold record_read [16, 16, 16] h) = 16"
proof -
  let ?h = "\<lparr>rh_maxMessagePerRead = 1, rh_totalMessages = 0, rh_totalBytesRead = 0, rh_attemptedBytesRead = 0,
      rh_lastBytesRead = 0, rh_respect = True, rh_minIndex = 0, rh_maxIndex = 52, rh_index = 0, rh_next = getSize 0,
      rh_decreaseNow = False\<rparr>"
  have "handle_ok ?h" by (simp add: handle_ok_def)
  then show ?thesis using smallest_never_grows [of ?h "[16, 16, 16]"] by (intro exI [of _ ?h]) simp
qed

end
