(* ===== verification/Connection.thy ===== *)
theory Connection
  imports FrameDecoder RecvAlloc
begin

text \<open>
  \<open>AbstractConnection\<close> and \<open>TcpConnection\<close> (src/common/net/AbstractConnection.hpp and .cpp,
  TcpConnection.hpp and .cpp): the life of a connection, its read loop and its read buffer. The
  handlers of the pipeline are a parameter; the buffers come from the default allocator, the unpooled
  one. Each completion of an asynchronous operation is one step on the reactor's thread.
\<close>

section \<open>State\<close>

datatype async_op = Resolving | Connecting | Reading int | Timer

text \<open>\<open>cn_pending\<close> are the asynchronous operations under way, oldest first.\<close>

record 'h connection =
  cn_connected :: bool
  cn_stopped :: bool
  recvHandle :: "recv_handle option"
  readBufferLen :: int
  cn_buf :: "heap_buf option"
  cn_alloc :: recv_allocator
  cn_junk :: "nat \<Rightarrow> byte"
  cn_remote :: "string \<times> string"
  cn_pending :: "async_op list"
  handlers :: 'h

text \<open>
  The pipeline. \<open>pe_read\<close>: what the handlers leave of a buffer they are given, their state, and whether
  one of them closed the connection, or the exception, hang or undefined behaviour that ends the call; \<open>pe_active\<close> and \<open>pe_inactive\<close> may do anything.
\<close>

record 'h pipe_env =
  pe_read :: "heap_buf \<Rightarrow> 'h \<Rightarrow> heap_buf \<times> 'h \<times> bool outcome"
  pe_active :: "('h connection, unit) prog"
  pe_inactive :: "('h connection, unit) prog"

definition on_cumulation :: "(heap_buf, 'a) prog \<Rightarrow> ('h connection, 'a) prog" where
  "on_cumulation m s =
     (case cn_buf s of
        None \<Rightarrow> (Undef, s)
      | Some b \<Rightarrow> (case m b of (r, b') \<Rightarrow> (r, s\<lparr>cn_buf := Some b'\<rparr>)))"

section \<open>The read buffer\<close>

definition DEFAULT_MINIMUM :: int where "DEFAULT_MINIMUM = 1024"
definition DEFAULT_INITIAL :: int where "DEFAULT_INITIAL = 8192"
definition DEFAULT_MAXIMUM :: int where "DEFAULT_MAXIMUM = 65536"

definition AdaptiveRecvByteBufAllocator_default :: "recv_allocator outcome" where
  "AdaptiveRecvByteBufAllocator_default = AdaptiveRecvByteBufAllocator_new DEFAULT_MINIMUM DEFAULT_INITIAL DEFAULT_MAXIMUM"

definition recvBufAllocHandle :: "('h connection, recv_handle) prog" where
  "recvBufAllocHandle = bindp (asks recvHandle) (\<lambda>r. case r of
     Some h \<Rightarrow> ret h
   | None \<Rightarrow> bindp (lift_outcome (\<lambda>s. newHandle (cn_alloc s)))
       (\<lambda>h. seqp (modify (recvHandle_update (\<lambda>_. Some h))) (ret h)))"

definition upd_handle :: "(recv_handle \<Rightarrow> recv_handle) \<Rightarrow> ('h connection, unit) prog" where
  "upd_handle f = modify (recvHandle_update (map_option f))"

text \<open>Releasing the buffer gives up the connection's reference; others may hold it.\<close>

definition freeBuffer :: "('h connection, unit) prog" where
  "freeBuffer = modify (cn_buf_update (\<lambda>_. None))"

definition ioBuffer :: "('h connection, unit) prog" where
  "ioBuffer = bindp (lift_outcome (\<lambda>s. alloc_buffer (cn_junk s) (readBufferLen s))) (\<lambda>b. modify (cn_buf_update (\<lambda>_. b)))"

definition adjustReadBuffer :: "('h connection, unit) prog" where
  "adjustReadBuffer = bindp recvBufAllocHandle (\<lambda>h. doM
     [ifp (\<lambda>s. cn_buf s = None \<or> readBufferLen s \<noteq> guess h \<or> \<not> isWritable heap_ops (the (cn_buf s)))
        (ifp (\<lambda>s. guess h < readBufferLen s \<and> cn_buf s \<noteq> None)
           (on_cumulation (heap_set_capacity (guess h)))
           (doM [freeBuffer, modify (readBufferLen_update (\<lambda>_. guess h)), ioBuffer]))
        (ret ()),
      bindp (on_cumulation (asks (writableBytes heap_ops))) (\<lambda>n. upd_handle (attemptedBytesRead n)),
      bindp (asks cn_alloc) (\<lambda>al. upd_handle (reset_handle al))])"

definition record_bytes :: "int \<Rightarrow> ('h connection, unit) prog" where
  "record_bytes len = seqp recvBufAllocHandle
     (upd_handle (\<lambda>h. readComplete (if len > 0 then lastBytesRead len h else h)))"

definition discardSomeBytes :: "('h connection, unit) prog" where
  "discardSomeBytes s =
     (case cn_buf s of
        None \<Rightarrow> (Undef, s)
      | Some b \<Rightarrow> (if refCnt b > 1 then freeBuffer else on_cumulation (discardSomeReadBytes heap_ops)) s)"

section \<open>\<open>TcpConnection\<close>\<close>

text \<open>\<open>close\<close> prints the reference count of the buffer, which must not be a null pointer.\<close>

definition tcp_close :: "('h connection, unit) prog" where
  "tcp_close = ifp (\<lambda>s. \<not> cn_connected s) (ret ())
     (doM [modify (cn_connected_update (\<lambda>_. False)), on_cumulation (ret ()), freeBuffer,
           modify (recvHandle_update (\<lambda>_. None))])"

definition fireRead :: "('h connection, unit) prog \<Rightarrow> 'h pipe_env \<Rightarrow> ('h connection, unit) prog" where
  "fireRead close E s =
     (case cn_buf s of
        None \<Rightarrow> (Undef, s)
      | Some b \<Rightarrow> (case pe_read E b (handlers s) of (b', h', closes) \<Rightarrow>
          bindp (lift_outcome (\<lambda>_. closes)) (\<lambda>c. if c then close else ret ()) (s\<lparr>cn_buf := Some b', handlers := h'\<rparr>)))"

definition messageReceived :: "('h connection, unit) prog \<Rightarrow> 'h pipe_env \<Rightarrow> int \<Rightarrow> ('h connection, unit) prog" where
  "messageReceived close E len = doM [record_bytes len, fireRead close E, discardSomeBytes]"

definition begin_op :: "async_op \<Rightarrow> ('h connection, unit) prog" where
  "begin_op a = modify (\<lambda>s. s\<lparr>cn_pending := cn_pending s @ [a]\<rparr>)"

definition startReadMessage :: "('h connection, unit) prog" where
  "startReadMessage = seqp adjustReadBuffer
     (bindp (on_cumulation (asks (writableBytes heap_ops))) (\<lambda>n. begin_op (Reading n)))"

text \<open>The socket stored the bytes \<open>bs\<close> behind the writer index when the operation completed.\<close>

definition socket_stores :: "byte list \<Rightarrow> ('h connection, unit) prog" where
  "socket_stores bs = on_cumulation (bindp (asks (writerIndex heap_ops)) (\<lambda>w. heap_store (\<lambda>a. poke a w bs)))"

definition tcp_handleRead :: "'h pipe_env \<Rightarrow> byte list option \<Rightarrow> ('h connection, unit) prog" where
  "tcp_handleRead E res =
     (case res of
        None \<Rightarrow> doM [tcp_close, pe_inactive E]
      | Some bs \<Rightarrow> doM
          [socket_stores bs,
           on_cumulation (bindp (asks (writerIndex heap_ops)) (\<lambda>w. set_writerIndex heap_ops (i32 (w + int (length bs))))),
           messageReceived tcp_close E (int (length bs)), startReadMessage])"

definition tcp_connect :: "string \<Rightarrow> string \<Rightarrow> ('h connection, unit) prog" where
  "tcp_connect host port = doM
     [modify (cn_remote_update (\<lambda>_. (host, port))), tcp_close,
      ifp cn_stopped (ret ()) (begin_op Resolving)]"

definition tcp_handleResolved :: "'h pipe_env \<Rightarrow> bool \<Rightarrow> ('h connection, unit) prog" where
  "tcp_handleResolved E ok = (if \<not> ok then pe_inactive E else begin_op Connecting)"

definition tcp_handleConnected :: "'h pipe_env \<Rightarrow> bool \<Rightarrow> ('h connection, unit) prog" where
  "tcp_handleConnected E ok = (if \<not> ok then pe_inactive E
     else doM [modify (cn_connected_update (\<lambda>_. True)), pe_active E, startReadMessage])"

definition connection_stop :: "('h connection, unit) prog" where
  "connection_stop = modify (cn_stopped_update (\<lambda>_. True))"

text \<open>The constructors; an accepted socket is connected when it is open.\<close>

definition AbstractConnection_new :: "recv_allocator \<Rightarrow> (nat \<Rightarrow> byte) \<Rightarrow> 'h \<Rightarrow> unit outcome \<times> 'h connection" where
  "AbstractConnection_new al junk h = adjustReadBuffer
     \<lparr>cn_connected = False, cn_stopped = False, recvHandle = None, readBufferLen = 0, cn_buf = None,
      cn_alloc = al, cn_junk = junk, cn_remote = ('''', ''''), cn_pending = [], handlers = h\<rparr>"

definition TcpConnection_new :: "recv_allocator \<Rightarrow> (nat \<Rightarrow> byte) \<Rightarrow> 'h \<Rightarrow> bool \<Rightarrow> unit outcome \<times> 'h connection" where
  "TcpConnection_new al junk h is_open =
     (case AbstractConnection_new al junk h of (r, s) \<Rightarrow> (r, s\<lparr>cn_connected := is_open\<rparr>))"

section \<open>Adjusting the buffer\<close>

text \<open>An empty buffer, as a read starts with; \<open>alloc_ok\<close> is an allocator whose handles work.\<close>

definition empty_buf :: "heap_buf \<Rightarrow> bool" where
  "empty_buf b \<longleftrightarrow> roomy b \<and> readerIdx (hb_base b) = 0 \<and> writerIdx (hb_base b) = 0 \<and> int (length (array b)) \<le> 2 ^ 30"

definition alloc_ok :: "recv_allocator \<Rightarrow> bool" where
  "alloc_ok al \<longleftrightarrow> (\<exists>h. newHandle al = Ok h \<and> handle_ok h)"

lemma three_steps: "A s = (Ok (), s1) \<Longrightarrow> B s1 = (Ok (), s2) \<Longrightarrow> C s2 = r \<Longrightarrow> doM [A, B, C] s = r"
  by (simp add: seqp_def bindp_def)

lemma guess_facts:
  assumes "handle_ok h"
  shows "16 \<le> guess h" "guess h \<le> 2 ^ 30" "even (guess h)"
proof -
  define i where "i = nat (rh_index h)"
  have i: "i < 53" "guess h = size_table ! i" using assms getSize_nth by (auto simp: handle_ok_def guess_def i_def)
  have "\<forall>x\<in>set size_table. 16 \<le> x \<and> x \<le> 2 ^ 30 \<and> even x" by code_simp
  moreover have "size_table ! i \<in> set size_table" using i(1) size_table_facts(1) by simp
  ultimately show "16 \<le> guess h" "guess h \<le> 2 ^ 30" "even (guess h)" using i(2) by auto
qed

lemma set_capacity_empty:
  assumes "empty_buf b" "16 \<le> n" "n \<le> 2 ^ 30" "even n"
  shows "\<exists>b'. heap_set_capacity n b = (Ok (), b') \<and> empty_buf b' \<and> refCnt b' = refCnt b"
proof (cases "capacity0 b = n")
  case True
  then show ?thesis using assms(1) by (simp add: heap_set_capacity_def prog_simps)
next
  case False
  define b' where "b' = b\<lparr>capacity0 := n, array := realloc (fresh b) (array b) n\<rparr>"
  have "heap_set_capacity n b = (Ok (), b')"
    using False assms by (simp add: heap_set_capacity_def prog_simps b'_def empty_buf_def)
  moreover have len: "int (length (array b')) = n" using assms(2) by (auto simp: b'_def realloc_def)
  moreover have "even (length (array b'))" using len assms(4) by (metis even_of_nat)
  moreover have "array b' \<noteq> []" using len assms(2) by auto
  ultimately show ?thesis using assms
    by (intro exI [of _ b']) (auto simp: empty_buf_def roomy_def heap_valid_def idx_ok_def b'_def CHAR_BUF_MAX_CAPACITY_def)
qed

lemma alloc_empty:
  assumes "16 \<le> n" "n \<le> 2 ^ 30" "even n"
  shows "\<exists>b. alloc_buffer junk n = Ok (Some b) \<and> empty_buf b \<and> refCnt b = 1"
proof -
  obtain b where b: "UnpooledHeapCharBuf_new junk n CHAR_BUF_MAX_CAPACITY = Ok b" using new_Ok [of n] assms(1) by fastforce
  have v: "heap_valid b \<and> heap_content b = [] \<and> hb_base b = AbstractCharBuf_init CHAR_BUF_MAX_CAPACITY \<and> int (length (array b)) = n"
    using new_valid [OF _ _ _ b] assms by (simp add: CHAR_BUF_MAX_CAPACITY_def)
  have "refCnt b = 1" using b by (auto simp: UnpooledHeapCharBuf_new_def allocateArray_def split: if_splits)
  moreover have "even (length (array b))" using v assms(3) by (metis even_of_nat)
  moreover have "array b \<noteq> []" using v assms(1) by auto
  ultimately show ?thesis using b v assms
    by (intro exI [of _ b]) (simp add: alloc_buffer_def CHAR_BUF_MAX_CAPACITY_def empty_buf_def roomy_def AbstractCharBuf_init_def)
qed

text \<open>What the buffer operations leave alone.\<close>

definition same_conn :: "'h connection \<Rightarrow> 'h connection \<Rightarrow> bool" where
  "same_conn s' s \<longleftrightarrow> cn_connected s' = cn_connected s \<and> cn_stopped s' = cn_stopped s \<and> cn_alloc s' = cn_alloc s \<and>
     cn_remote s' = cn_remote s \<and> cn_pending s' = cn_pending s \<and> handlers s' = handlers s"

lemma same_conn_refl: "same_conn s s"
  by (simp add: same_conn_def)

lemma same_conn_trans: "same_conn t s \<Longrightarrow> same_conn u t \<Longrightarrow> same_conn u s"
  by (simp add: same_conn_def)

definition handle_fine :: "'h connection \<Rightarrow> bool" where
  "handle_fine s \<longleftrightarrow> alloc_ok (cn_alloc s) \<and> (\<forall>h. recvHandle s = Some h \<longrightarrow> handle_ok h)"

definition buf_fine :: "'h connection \<Rightarrow> bool" where
  "buf_fine s \<longleftrightarrow> (\<forall>b. cn_buf s = Some b \<longrightarrow> empty_buf b \<and> refCnt b = 1)"

lemma handle_run:
  assumes "handle_fine s"
  shows "\<exists>h s'. recvBufAllocHandle s = (Ok h, s') \<and> s' = s\<lparr>recvHandle := Some h\<rparr> \<and> handle_ok h"
proof (cases "recvHandle s")
  case None
  then show ?thesis using assms
    by (auto simp: recvBufAllocHandle_def handle_fine_def alloc_ok_def prog_simps)
next
  case (Some h)
  then have "s = s\<lparr>recvHandle := Some h\<rparr>" by (cases s) simp
  then show ?thesis using assms Some by (auto simp: recvBufAllocHandle_def handle_fine_def prog_simps)
qed

lemma empty_buf_writable: "empty_buf b \<Longrightarrow> isWritable heap_ops b \<and> writableBytes heap_ops b = int (length (array b)) \<and> 0 < length (array b)"
  by (auto simp: empty_buf_def roomy_def heap_valid_def isWritable_def writableBytes_def writerIndex_def)

lemma adjust_ok:
  assumes "handle_fine s" "buf_fine s"
  shows "\<exists>s' b. adjustReadBuffer s = (Ok (), s') \<and> same_conn s' s \<and> handle_fine s' \<and> cn_buf s' = Some b \<and>
    empty_buf b \<and> refCnt b = 1"
proof -
  obtain h s1 where h: "recvBufAllocHandle s = (Ok h, s1)" "s1 = s\<lparr>recvHandle := Some h\<rparr>" "handle_ok h"
    using handle_run [OF assms(1)] by blast
  note g = guess_facts [OF h(3)]
  have f1: "cn_buf s1 = cn_buf s" "recvHandle s1 = Some h" "cn_alloc s1 = cn_alloc s" "same_conn s1 s"
    using h(2) by (simp_all add: same_conn_def)
  let ?step = "ifp (\<lambda>s. cn_buf s = None \<or> readBufferLen s \<noteq> guess h \<or> \<not> isWritable heap_ops (the (cn_buf s)))
        (ifp (\<lambda>s. guess h < readBufferLen s \<and> cn_buf s \<noteq> None)
           (on_cumulation (heap_set_capacity (guess h)))
           (doM [freeBuffer, modify (readBufferLen_update (\<lambda>_. guess h)), ioBuffer]))
        (ret ())"
  have "\<exists>s2 b. ?step s1 = (Ok (), s2) \<and> same_conn s2 s1 \<and> recvHandle s2 = Some h \<and> cn_buf s2 = Some b \<and> empty_buf b \<and> refCnt b = 1"
  proof -
    consider "cn_buf s \<noteq> None" "guess h < readBufferLen s1" | "cn_buf s = None \<or> \<not> guess h < readBufferLen s1 \<and> readBufferLen s1 \<noteq> guess h"
      | "cn_buf s \<noteq> None" "readBufferLen s1 = guess h" by linarith
    then show ?thesis
    proof cases
      case 1
      then obtain b where b: "cn_buf s = Some b" "empty_buf b" "refCnt b = 1" using assms(2) by (auto simp: buf_fine_def)
      obtain b' where b': "heap_set_capacity (guess h) b = (Ok (), b')" "empty_buf b'" "refCnt b' = refCnt b"
        using set_capacity_empty [OF b(2) g] by blast
      have "?step s1 = (Ok (), s1\<lparr>cn_buf := Some b'\<rparr>)"
        using 1 b(1) b'(1) f1(1) by (simp add: ifp_run on_cumulation_def)
      then show ?thesis using b'(2,3) b(3) f1(2) by (intro exI [of _ "s1\<lparr>cn_buf := Some b'\<rparr>"] exI [of _ b']) (simp add: same_conn_def)
    next
      case 2
      obtain b where b: "alloc_buffer (cn_junk s1) (guess h) = Ok (Some b)" "empty_buf b" "refCnt b = 1"
        using alloc_empty [OF g] by blast
      have "?step s1 = (Ok (), s1\<lparr>readBufferLen := guess h, cn_buf := Some b\<rparr>)"
        using 2 b(1) f1(1) by (auto simp: ifp_run freeBuffer_def ioBuffer_def prog_simps)
      then show ?thesis using b(2,3) f1(2)
        by (intro exI [of _ "s1\<lparr>readBufferLen := guess h, cn_buf := Some b\<rparr>"] exI [of _ b]) (simp add: same_conn_def)
    next
      case 3
      then obtain b where b: "cn_buf s = Some b" "empty_buf b" "refCnt b = 1" using assms(2) by (auto simp: buf_fine_def)
      have "?step s1 = (Ok (), s1)" using 3(2) b f1(1) empty_buf_writable [OF b(2)] by (simp add: ifp_run ret_run)
      then show ?thesis using b f1 by (intro exI [of _ s1] exI [of _ b]) (simp add: same_conn_refl)
    qed
  qed
  then obtain s2 b where s2: "?step s1 = (Ok (), s2)" "same_conn s2 s1" "recvHandle s2 = Some h" "cn_buf s2 = Some b"
    "empty_buf b" "refCnt b = 1" by blast
  have al: "cn_alloc s2 = cn_alloc s" using s2(2) f1(3) by (simp add: same_conn_def)
  define s3 where "s3 = s2\<lparr>recvHandle := Some (attemptedBytesRead (writableBytes heap_ops b) h)\<rparr>"
  define s4 where "s4 = s3\<lparr>recvHandle := Some (reset_handle (cn_alloc s) (attemptedBytesRead (writableBytes heap_ops b) h))\<rparr>"
  have "bindp (on_cumulation (asks (writableBytes heap_ops))) (\<lambda>n. upd_handle (attemptedBytesRead n)) s2 = (Ok (), s3)"
    using s2(3,4) by (cases s2) (simp add: bindp_def on_cumulation_def asks_run upd_handle_def modify_run s3_def)
  moreover have "bindp (asks cn_alloc) (\<lambda>al. upd_handle (reset_handle al)) s3 = (Ok (), s4)"
    using al by (simp add: bindp_def asks_run upd_handle_def modify_run s4_def s3_def)
  ultimately have "adjustReadBuffer s = (Ok (), s4)"
    unfolding adjustReadBuffer_def bindp_Ok [of recvBufAllocHandle s h s1, OF h(1)] by (intro three_steps [of _ s1 s2 _ s3]) (rule s2(1))
  moreover have "same_conn s4 s" using s2(2) f1(4) by (simp add: same_conn_def s4_def s3_def)
  moreover have "handle_fine s4"
    using assms(1) al run_read_op_ok [OF h(3), of "cn_alloc s" "Attempted (writableBytes heap_ops b)"]
      run_read_op_ok [of _ "cn_alloc s" ResetCounters]
    by (simp add: handle_fine_def s4_def s3_def)
  ultimately show ?thesis using s2(4-6) by (intro exI [of _ s4] exI [of _ b]) (simp add: s4_def s3_def)
qed

lemma start_read_ok:
  assumes "handle_fine s" "buf_fine s"
  shows "\<exists>s' b. startReadMessage s = (Ok (), s') \<and> handle_fine s' \<and> cn_buf s' = Some b \<and> empty_buf b \<and> refCnt b = 1 \<and>
    cn_connected s' = cn_connected s \<and> cn_stopped s' = cn_stopped s \<and> cn_remote s' = cn_remote s \<and> handlers s' = handlers s \<and>
    cn_pending s' = cn_pending s @ [Reading (int (length (array b)))]"
proof -
  obtain s1 b where s1: "adjustReadBuffer s = (Ok (), s1)" "same_conn s1 s" "handle_fine s1" "cn_buf s1 = Some b" "empty_buf b" "refCnt b = 1"
    using adjust_ok [OF assms] by blast
  define s' where "s' = s1\<lparr>cn_pending := cn_pending s1 @ [Reading (int (length (array b)))]\<rparr>"
  have "s1\<lparr>cn_buf := Some b\<rparr> = s1" using s1(4) by (cases s1) simp
  then have "startReadMessage s = (Ok (), s')"
    using s1(1,4) empty_buf_writable [OF s1(5)]
    by (simp add: startReadMessage_def seqp_def bindp_def on_cumulation_def asks_run begin_op_def modify_run s'_def)
  then show ?thesis using s1 by (intro exI [of _ s'] exI [of _ b]) (simp add: s'_def handle_fine_def same_conn_def)
qed

section \<open>A read\<close>

text \<open>The buffer a read hands to the pipeline: exactly the bytes of this read.\<close>

lemma stored_message:
  assumes "empty_buf b" "refCnt b = 1" "cn_buf s = Some b" "0 < length bs" "length bs \<le> length (array b)"
  shows "\<exists>m s1. message m \<and> heap_content m = bs \<and> refCnt m = 1 \<and> length (array m) = length (array b) \<and>
    socket_stores bs s = (Ok (), s1) \<and>
    on_cumulation (bindp (asks (writerIndex heap_ops)) (\<lambda>w. set_writerIndex heap_ops (i32 (w + int (length bs))))) s1 =
      (Ok (), s\<lparr>cn_buf := Some m\<rparr>)"
proof -
  define b1 where "b1 = b\<lparr>array := patch 0 bs (array b)\<rparr>"
  define m where "m = b1\<lparr>hb_base := (hb_base b1)\<lparr>writerIdx := int (length bs)\<rparr>\<rparr>"
  have e: "heap_valid b" "even (length (array b))" "array b \<noteq> []" "maxCap (hb_base b) = INT_MAX" "readerIdx (hb_base b) = 0"
    "writerIdx (hb_base b) = 0" "int (length (array b)) \<le> 2 ^ 30" using assms(1) by (auto simp: empty_buf_def roomy_def CHAR_BUF_MAX_CAPACITY_def)
  have len: "length (patch 0 bs (array b)) = length (array b)" using assms(5) by simp
  have "heap_store (\<lambda>a. poke a 0 bs) b = (Ok (), b1)"
    using assms(5) by (simp add: heap_store_def prog_simps poke_def in_bounds_def b1_def)
  then have 1: "socket_stores bs s = (Ok (), s\<lparr>cn_buf := Some b1\<rparr>)"
    using assms(3) e(6) by (simp add: socket_stores_def on_cumulation_def bindp_def asks_run writerIndex_def)
  have "int (length bs) \<le> 2 ^ 30" using assms(5) e(7) by linarith
  then have "i32 (int (length bs)) = int (length bs)" by simp
  moreover have "writerIndex heap_ops b1 = 0" using e(6) by (simp add: writerIndex_def b1_def)
  moreover have "set_writerIndex heap_ops (int (length bs)) b1 = (Ok (), m)"
    using e assms(5) len \<open>int (length bs) \<le> 2 ^ 30\<close>
    by (simp add: set_writerIndex_def checkIndexBounds_def seqp_def bindp_def lift_outcome_run modify_run maxCapacity_def
        upd_base_def m_def b1_def heap_valid_def)
  ultimately have 2: "on_cumulation (bindp (asks (writerIndex heap_ops)) (\<lambda>w. set_writerIndex heap_ops (i32 (w + int (length bs)))))
      (s\<lparr>cn_buf := Some b1\<rparr>) = (Ok (), s\<lparr>cn_buf := Some m\<rparr>)"
    by (simp add: on_cumulation_def bindp_def asks_run)
  have "array m \<noteq> []" using len e(3) by (metis b1_def heap_buf.select_convs(4) heap_buf.surjective heap_buf.update_convs(1,4) length_0_conv m_def)
  then have "message m" using e len assms(5)
    by (simp add: message_def roomy_def heap_valid_def idx_ok_def m_def b1_def CHAR_BUF_MAX_CAPACITY_def)
  moreover have "heap_content m = bs"
    using loaded_patch_front [of "int (length bs)" bs "array b"] assms(5) e(5)
    by (simp add: heap_content_def content_def content_of_def m_def b1_def)
  moreover have "refCnt m = 1" "length (array m) = length (array b)" using assms(2) len by (simp_all add: m_def b1_def)
  ultimately show ?thesis using 1 2 by (intro exI [of _ m] exI [of _ "s\<lparr>cn_buf := Some b1\<rparr>"]) simp
qed


text \<open>
  A pipeline that consumes: it reads a buffer to its end, or keeps a reference to it, and does not
  close the connection. \<open>good xs h\<close> are the states of its handlers after the bytes \<open>xs\<close>, \<open>allowed\<close> the
  byte streams it is made for.
\<close>

definition takes_all :: "heap_buf \<Rightarrow> heap_buf \<Rightarrow> bool" where
  "takes_all m b \<longleftrightarrow> 1 < refCnt b \<or>
     refCnt b = 1 \<and> capacity0 b = capacity0 m \<and> array b = array m \<and>
     hb_base b = (hb_base m)\<lparr>readerIdx := writerIdx (hb_base m)\<rparr>"

locale consuming_pipeline =
  fixes E :: "'h pipe_env" and good :: "byte list \<Rightarrow> 'h \<Rightarrow> bool" and allowed :: "byte list \<Rightarrow> bool"
  assumes consumes: "good xs h \<Longrightarrow> message m \<Longrightarrow> refCnt m = 1 \<Longrightarrow> allowed (xs @ heap_content m) \<Longrightarrow>
    pe_read E m h = (b', h', closes) \<Longrightarrow> takes_all m b' \<and> good (xs @ heap_content m) h' \<and> closes = Ok False"

definition tcp_read :: "'h pipe_env \<Rightarrow> byte list \<Rightarrow> ('h connection, unit) prog" where
  "tcp_read E bs = seqp (modify (\<lambda>s. s\<lparr>cn_pending := tl (cn_pending s)\<rparr>)) (tcp_handleRead E (Some bs))"

fun tcp_reads :: "'h pipe_env \<Rightarrow> byte list list \<Rightarrow> ('h connection, unit) prog" where
  "tcp_reads E [] = ret ()"
| "tcp_reads E (bs # bss) = seqp (tcp_read E bs) (tcp_reads E bss)"

text \<open>A read that completes without an error has at least a byte and not more than it was started for.\<close>

definition fits :: "byte list \<Rightarrow> 'h connection \<Rightarrow> bool" where
  "fits bs s \<longleftrightarrow> (case cn_pending s of [Reading n] \<Rightarrow> 0 < length bs \<and> int (length bs) \<le> n | _ \<Rightarrow> False)"

fun all_fit :: "'h pipe_env \<Rightarrow> byte list list \<Rightarrow> 'h connection \<Rightarrow> bool" where
  "all_fit E [] s = True"
| "all_fit E (bs # bss) s = (fits bs s \<and> all_fit E bss (snd (tcp_read E bs s)))"

definition reading :: "'h connection \<Rightarrow> bool" where
  "reading s \<longleftrightarrow> cn_connected s \<and> handle_fine s \<and>
     (\<exists>b. cn_buf s = Some b \<and> empty_buf b \<and> refCnt b = 1 \<and> cn_pending s = [Reading (int (length (array b)))])"

lemma discard_ok:
  assumes "message m" "takes_all m b" "cn_buf s = Some b" "int (length (array m)) \<le> 2 ^ 30"
  shows "\<exists>s'. discardSomeBytes s = (Ok (), s') \<and> s' = s\<lparr>cn_buf := cn_buf s'\<rparr> \<and> buf_fine s'"
proof (cases "1 < refCnt b")
  case True
  then show ?thesis using assms(3)
    by (intro exI [of _ "s\<lparr>cn_buf := None\<rparr>"]) (simp add: discardSomeBytes_def freeBuffer_def modify_run buf_fine_def)
next
  case False
  then have b: "refCnt b = 1" "capacity0 b = capacity0 m" "array b = array m"
    "hb_base b = (hb_base m)\<lparr>readerIdx := writerIdx (hb_base m)\<rparr>" using assms(2) by (auto simp: takes_all_def)
  have m: "roomy m" "readerIdx (hb_base m) = 0" using assms(1) by (simp_all add: message_def)
  define b' where "b' = (if readerIdx (hb_base b) = 0 then b
     else b\<lparr>hb_base := (adjust_markers (readerIdx (hb_base b)) (hb_base b))\<lparr>readerIdx := 0, writerIdx := 0\<rparr>\<rparr>)"
  have "discardSomeReadBytes heap_ops b = (Ok (), b')"
    using b(4) by (auto simp: discardSomeReadBytes_def ifp_run ret_run reset_empty_def adjustMarkers_def seqp_def bindp_def
        modify_run upd_base_def b'_def)
  then have "discardSomeBytes s = (Ok (), s\<lparr>cn_buf := Some b'\<rparr>)"
    using assms(3) False by (simp add: discardSomeBytes_def on_cumulation_def)
  moreover have "empty_buf b'" using m b assms(4)
    by (auto simp: empty_buf_def b'_def roomy_def heap_valid_def idx_ok_def adjust_markers_def)
  moreover have "refCnt b' = 1" using b(1) by (simp add: b'_def)
  ultimately show ?thesis by (intro exI [of _ "s\<lparr>cn_buf := Some b'\<rparr>"]) (simp add: buf_fine_def)
qed

text \<open>The bytes of a read, once the buffer knows of them.\<close>

lemma read_stored:
  assumes "reading s" "fits bs s"
  shows "\<exists>m sm s1. message m \<and> heap_content m = bs \<and> refCnt m = 1 \<and> int (length (array m)) \<le> 2 ^ 30 \<and>
    s1 = s\<lparr>cn_pending := [], cn_buf := Some m\<rparr> \<and> socket_stores bs (s\<lparr>cn_pending := []\<rparr>) = (Ok (), sm) \<and>
    on_cumulation (bindp (asks (writerIndex heap_ops)) (\<lambda>w. set_writerIndex heap_ops (i32 (w + int (length bs))))) sm =
      (Ok (), s1) \<and> handle_fine s1 \<and> cn_connected s1 \<and> 0 < length bs \<and> tl (cn_pending s) = []"
proof -
  obtain b where b: "cn_buf s = Some b" "empty_buf b" "refCnt b = 1" "cn_pending s = [Reading (int (length (array b)))]"
    "cn_connected s" "handle_fine s" using assms(1) by (auto simp: reading_def)
  have len: "0 < length bs" "length bs \<le> length (array b)" using assms(2) b(4) by (auto simp: fits_def)
  define s0 where "s0 = s\<lparr>cn_pending := []\<rparr>"
  have "cn_buf s0 = Some b" using b(1) by (simp add: s0_def)
  then obtain m sm where m: "message m" "heap_content m = bs" "refCnt m = 1" "length (array m) = length (array b)"
    "socket_stores bs s0 = (Ok (), sm)"
    "on_cumulation (bindp (asks (writerIndex heap_ops)) (\<lambda>w. set_writerIndex heap_ops (i32 (w + int (length bs))))) sm =
      (Ok (), s0\<lparr>cn_buf := Some m\<rparr>)"
    using stored_message [OF b(2,3) _ len] by blast
  have "int (length (array m)) \<le> 2 ^ 30" using b(2) m(4) by (simp add: empty_buf_def)
  then show ?thesis using m b(4-6) len(1)
    by (intro exI [of _ m] exI [of _ sm] exI [of _ "s0\<lparr>cn_buf := Some m\<rparr>"]) (simp add: s0_def handle_fine_def)
qed

lemma record_ok:
  assumes "handle_fine s" "0 < n"
  shows "\<exists>s' h. record_bytes n s = (Ok (), s') \<and> s' = s\<lparr>recvHandle := Some h\<rparr> \<and> handle_fine s'"
proof -
  obtain h s2 where h: "recvBufAllocHandle s = (Ok h, s2)" "s2 = s\<lparr>recvHandle := Some h\<rparr>" "handle_ok h"
    using handle_run [OF assms(1)] by blast
  define h' where "h' = readComplete (lastBytesRead n h)"
  have "handle_ok h'"
    using run_read_op_ok [OF h(3), of _ "LastBytes n"] run_read_op_ok [of _ _ ReadComplete] by (simp add: h'_def)
  moreover have "record_bytes n s = (Ok (), s\<lparr>recvHandle := Some h'\<rparr>)"
    using h(1,2) assms(2) by (simp add: record_bytes_def seqp_def bindp_def upd_handle_def modify_run h'_def)
  ultimately show ?thesis using assms(1)
    by (intro exI [of _ "s\<lparr>recvHandle := Some h'\<rparr>"] exI [of _ h']) (simp add: handle_fine_def)
qed

text \<open>Up to the call of the pipeline, which gets exactly the bytes of this read.\<close>

lemma read_prefix:
  assumes "reading s" "fits bs s"
  shows "\<exists>m s3. message m \<and> heap_content m = bs \<and> refCnt m = 1 \<and> int (length (array m)) \<le> 2 ^ 30 \<and>
    cn_buf s3 = Some m \<and> handle_fine s3 \<and> cn_connected s3 \<and> cn_pending s3 = [] \<and> handlers s3 = handlers s \<and>
    cn_stopped s3 = cn_stopped s \<and> cn_remote s3 = cn_remote s \<and>
    (\<forall>E. tcp_read E bs s = seqp (seqp (fireRead tcp_close E) discardSomeBytes) startReadMessage s3)"
proof -
  obtain m sm s1 where m: "message m" "heap_content m = bs" "refCnt m = 1" "int (length (array m)) \<le> 2 ^ 30"
    and s1: "s1 = s\<lparr>cn_pending := [], cn_buf := Some m\<rparr>" "socket_stores bs (s\<lparr>cn_pending := []\<rparr>) = (Ok (), sm)"
      "on_cumulation (bindp (asks (writerIndex heap_ops)) (\<lambda>w. set_writerIndex heap_ops (i32 (w + int (length bs))))) sm =
        (Ok (), s1)" "handle_fine s1" "cn_connected s1" "0 < length bs" "tl (cn_pending s) = []"
    using read_stored [OF assms] by (elim exE conjE) (rule that)
  obtain s3 h where rec: "record_bytes (int (length bs)) s1 = (Ok (), s3)" "s3 = s1\<lparr>recvHandle := Some h\<rparr>" "handle_fine s3"
    using record_ok [OF s1(4), of "int (length bs)"] s1(6) by (auto simp: handle_fine_def)
  have "tcp_handleRead E (Some bs) (s\<lparr>cn_pending := []\<rparr>) = seqp (seqp (fireRead tcp_close E) discardSomeBytes) startReadMessage s3"
    for E using s1(2,3) rec(1) by (simp add: tcp_handleRead_def messageReceived_def seqp_def bindp_def)
  then have "tcp_read E bs s = seqp (seqp (fireRead tcp_close E) discardSomeBytes) startReadMessage s3" for E
    using s1(7) by (simp add: tcp_read_def seqp_def bindp_def modify_run)
  then show ?thesis using m s1(5) rec(3) by (intro exI [of _ m] exI [of _ s3]) (simp add: rec(2) s1(1))
qed

text \<open>A read of one or two bytes fits into any buffer the connection offers.\<close>

lemma small_fits: "reading s \<Longrightarrow> length bs \<in> {1, 2} \<Longrightarrow> fits bs s"
proof -
  assume s: "reading s" "length bs \<in> {1, 2}"
  obtain b where b: "empty_buf b" "cn_pending s = [Reading (int (length (array b)))]" using s(1) by (auto simp: reading_def)
  then have "even (length (array b))" "0 < length (array b)" by (auto simp: empty_buf_def roomy_def)
  then have "2 \<le> length (array b)" by presburger
  then show "fits bs s" using b(2) s(2) by (auto simp: fits_def)
qed

context consuming_pipeline
begin

lemma pipe_read_ok:
  assumes "reading s" "fits bs s" "good xs (handlers s)" "allowed (xs @ bs)"
  shows "\<exists>s'. tcp_read E bs s = (Ok (), s') \<and> reading s' \<and> good (xs @ bs) (handlers s') \<and>
    cn_stopped s' = cn_stopped s \<and> cn_remote s' = cn_remote s"
proof -
  obtain m s3 where m: "message m" "heap_content m = bs" "refCnt m = 1" "int (length (array m)) \<le> 2 ^ 30"
    "cn_buf s3 = Some m" "handle_fine s3" "cn_connected s3" "cn_pending s3 = []" "handlers s3 = handlers s"
    "tcp_read E bs s = seqp (seqp (fireRead tcp_close E) discardSomeBytes) startReadMessage s3"
    "cn_stopped s3 = cn_stopped s" "cn_remote s3 = cn_remote s"
    using read_prefix [OF assms(1,2)] by (elim exE conjE) (rule that, assumption+, simp_all)
  obtain b' hs closes where p: "pe_read E m (handlers s3) = (b', hs, closes)" by (metis prod_cases3)
  have c: "takes_all m b'" "good (xs @ bs) hs" "closes = Ok False"
    using consumes [OF _ m(1,3) _ p] assms(3,4) m(2,9) by simp_all
  define s4 where "s4 = s3\<lparr>cn_buf := Some b', handlers := hs\<rparr>"
  have fire: "fireRead tcp_close E s3 = (Ok (), s4)"
    using p c(3) m(5) by (simp add: fireRead_def bindp_def lift_outcome_run ret_run s4_def)
  obtain s5 where s5: "discardSomeBytes s4 = (Ok (), s5)" "s5 = s4\<lparr>cn_buf := cn_buf s5\<rparr>" "buf_fine s5"
    using discard_ok [OF m(1) c(1), of s4] m(4) by (auto simp: s4_def)
  have f5: "handle_fine s5" "cn_connected s5" "cn_pending s5 = []" "handlers s5 = hs"
    "cn_stopped s5 = cn_stopped s" "cn_remote s5 = cn_remote s"
    using m(6-8,11,12) by (subst s5(2), simp add: handle_fine_def s4_def)+
  obtain s6 b6 where s6: "startReadMessage s5 = (Ok (), s6)" "handle_fine s6" "cn_buf s6 = Some b6" "empty_buf b6" "refCnt b6 = 1"
    "cn_connected s6 = cn_connected s5" "cn_stopped s6 = cn_stopped s5" "cn_remote s6 = cn_remote s5" "handlers s6 = handlers s5" "cn_pending s6 = cn_pending s5 @ [Reading (int (length (array b6)))]"
    using start_read_ok [OF f5(1) s5(3)] by blast
  have "tcp_read E bs s = (Ok (), s6)"
    using m(10) fire s5(1) s6(1) by (simp add: seqp_def bindp_def)
  then show ?thesis using s6 f5 c(2) by (auto simp: reading_def)
qed

lemma pipe_reads_ok:
  "reading s \<Longrightarrow> all_fit E bss s \<Longrightarrow> good xs (handlers s) \<Longrightarrow> \<forall>k. allowed (xs @ concat (take k bss)) \<Longrightarrow>
   \<exists>s'. tcp_reads E bss s = (Ok (), s') \<and> reading s' \<and> good (xs @ concat bss) (handlers s')"
proof (induction bss arbitrary: s xs)
  case Nil
  then show ?case by (simp add: ret_run)
next
  case (Cons bs bss)
  have a: "allowed (xs @ bs)" using Cons.prems(4) [rule_format, of 1] by simp
  obtain s1 where s1: "tcp_read E bs s = (Ok (), s1)" "reading s1" "good (xs @ bs) (handlers s1)"
    using pipe_read_ok [OF Cons.prems(1) _ Cons.prems(3) a] Cons.prems(2) by auto
  have "allowed ((xs @ bs) @ concat (take k bss))" for k using Cons.prems(4) [rule_format, of "Suc k"] by simp
  then show ?case using Cons.IH [OF s1(2) _ s1(3)] Cons.prems(2) s1(1) by (simp add: seqp_def bindp_def)
qed

lemma small_reads_fit:
  "reading s \<Longrightarrow> \<forall>bs\<in>set bss. length bs \<in> {1, 2} \<Longrightarrow> good xs (handlers s) \<Longrightarrow>
   \<forall>k. allowed (xs @ concat (take k bss)) \<Longrightarrow> all_fit E bss s"
proof (induction bss arbitrary: s xs)
  case (Cons bs bss)
  have fit: "fits bs s" using small_fits [OF Cons.prems(1)] Cons.prems(2) by simp
  have a: "allowed (xs @ bs)" using Cons.prems(4) [rule_format, of 1] by simp
  obtain s1 where s1: "tcp_read E bs s = (Ok (), s1)" "reading s1" "good (xs @ bs) (handlers s1)"
    using pipe_read_ok [OF Cons.prems(1) fit Cons.prems(3) a] by blast
  have "allowed ((xs @ bs) @ concat (take k bss))" for k using Cons.prems(4) [rule_format, of "Suc k"] by simp
  then show ?case using Cons.IH [OF s1(2) _ s1(3)] Cons.prems(2) fit s1(1) by simp
qed simp

end

section \<open>A frame decoder behind the connection\<close>

text \<open>
  The pipeline of a decoder. What the connection sees of its buffer after the decoder has worked on it:
  the first bytes of a cumulation are not copied, so its reader index is the decoder's and the decoder's
  reference counts, and so do those of the frames, slices of the buffer, that the next handlers keep;
  later bytes were copied, which read the buffer to its end. Contexts catch the exceptions of a handler.
  This glue stands for the pipeline of a connection with one decoder: Channel's events carry no buffer
  that is shared with the connection.
\<close>

definition decoder_view :: "(heap_buf sliced list \<Rightarrow> nat) \<Rightarrow> heap_buf \<Rightarrow>
    (frame_decoder, heap_buf sliced) decoder \<Rightarrow> (frame_decoder, heap_buf sliced) decoder \<Rightarrow> heap_buf" where
  "decoder_view kept b dec dec' =
     (if cumulation dec \<noteq> None then b\<lparr>hb_base := (hb_base b)\<lparr>readerIdx := writerIdx (hb_base b)\<rparr>\<rparr>
      else let n = int (kept (drop (length (fired dec)) (fired dec'))) in
        case cumulation dec' of
          None \<Rightarrow> b\<lparr>hb_base := (hb_base b)\<lparr>readerIdx := writerIdx (hb_base b)\<rparr>, refCnt := refCnt b + n\<rparr>
        | Some c \<Rightarrow> b\<lparr>hb_base := (hb_base b)\<lparr>readerIdx := readerIdx (hb_base c)\<rparr>, refCnt := refCnt b + 1 + n\<rparr>)"

definition frame_pipe :: "(heap_buf sliced list \<Rightarrow> nat) \<Rightarrow> (frame_decoder, heap_buf sliced) decoder pipe_env" where
  "frame_pipe kept = \<lparr>
     pe_read = (\<lambda>b dec. case channelRead quiet frame_decode (Inl b) dec of
        (r, dec') \<Rightarrow> (decoder_view kept b dec dec', dec',
          case r of Ok _ \<Rightarrow> Ok False | Throw e \<Rightarrow> Ok False | Hang \<Rightarrow> Hang | Undef \<Rightarrow> Undef)),
     pe_active = ret (), pe_inactive = ret ()\<rparr>"

definition decoded :: "frame_decoder \<Rightarrow> byte list \<Rightarrow> (frame_decoder, heap_buf sliced) decoder \<Rightarrow> bool" where
  "decoded d xs dec \<longleftrightarrow> cfg_ok d \<and> \<not> discardingTooLong d \<and>
     (\<exists>gs r. parses d xs gs r \<and> pending d (length xs) r dec \<and> map frame_bytes (fired dec) = gs)"

definition well_formed :: "frame_decoder \<Rightarrow> byte list \<Rightarrow> bool" where
  "well_formed d xs \<longleftrightarrow> (\<exists>gs r. parses d xs gs r) \<and> length xs \<le> 2 ^ 30"

lemma view_takes_all:
  assumes "refCnt m = 1"
  shows "takes_all m (decoder_view kept m dec dec')"
  using assms by (auto simp: takes_all_def decoder_view_def Let_def split: option.splits)

lemma frame_pipe_decodes:
  assumes "decoded d xs h" "message m" "well_formed d (xs @ heap_content m)"
    and "pe_read (frame_pipe kept) m h = (b', h', closes)"
  shows "decoded d (xs @ heap_content m) h' \<and> closes = Ok False"
proof -
  obtain gs r where g: "cfg_ok d" "\<not> discardingTooLong d" "parses d xs gs r" "pending d (length xs) r h"
    "map frame_bytes (fired h) = gs" using assms(1) by (auto simp: decoded_def)
  obtain hs t where hs: "parses d (xs @ heap_content m) hs t" "length xs + length (heap_content m) \<le> 2 ^ 30"
    using assms(3) by (auto simp: well_formed_def)
  obtain fs where fs: "hs = gs @ fs" "parses d (r @ heap_content m) fs t"
    using parses_split [OF g(3,1) hs(1)] by blast
  obtain h1 where h1: "read_data quiet frame_decode m h = (Ok (), h1)"
    "pending d (length xs + length (heap_content m)) t h1" "map frame_bytes (fired h1) = map frame_bytes (fired h) @ fs"
    using read_ok [OF g(1,2,4) assms(2) hs(2) fs(2)] by blast
  then have e: "h' = h1" "closes = Ok False"
    using assms(4) by (auto simp: frame_pipe_def channelRead_def)
  have "decoded d (xs @ heap_content m) h1"
    using g(1,2,5) hs(1) fs(1) h1(2,3) by (auto simp: decoded_def)
  then show ?thesis using e by simp
qed

lemma frame_pipe_consumes:
  assumes "decoded d xs h" "message m" "refCnt m = 1" "well_formed d (xs @ heap_content m)"
    and "pe_read (frame_pipe kept) m h = (b', h', closes)"
  shows "takes_all m b' \<and> decoded d (xs @ heap_content m) h' \<and> closes = Ok False"
proof -
  have "\<exists>dec'. b' = decoder_view kept m h dec'" using assms(5) by (auto simp: frame_pipe_def split: prod.splits)
  then show ?thesis using frame_pipe_decodes [OF assms(1,2,4,5)] view_takes_all [OF assms(3)] by auto
qed

interpretation fp: consuming_pipeline "frame_pipe kept" "decoded d" "well_formed d"
  by unfold_locales (rule frame_pipe_consumes)

section \<open>Frames end to end\<close>

lemma default_allocator: "\<exists>al. AdaptiveRecvByteBufAllocator_default = Ok al \<and> alloc_ok al"
proof -
  have t: "(1024::int) \<in> set size_table" "8192 \<in> set size_table" "65536 \<in> set size_table" by code_simp+
  obtain al where al: "AdaptiveRecvByteBufAllocator_new 1024 8192 65536 = Ok al" using new_ranges [of 1024 8192 65536] by auto
  then show ?thesis using new_handle [OF al t]
    by (auto simp: AdaptiveRecvByteBufAllocator_default_def DEFAULT_MINIMUM_def DEFAULT_INITIAL_def DEFAULT_MAXIMUM_def alloc_ok_def)
qed

text \<open>An accepted connection: the constructor for a socket and the first \<open>read\<close>.\<close>

definition tcp_accepted :: "recv_allocator \<Rightarrow> (nat \<Rightarrow> byte) \<Rightarrow> 'h \<Rightarrow> unit outcome \<times> 'h connection" where
  "tcp_accepted al junk h = (case TcpConnection_new al junk h True of (Ok u, s) \<Rightarrow> startReadMessage s | r \<Rightarrow> r)"

lemma accepted_reading:
  assumes "alloc_ok al"
  shows "\<exists>s. tcp_accepted al junk h = (Ok (), s) \<and> reading s \<and> handlers s = h"
proof -
  define s0 where "s0 = \<lparr>cn_connected = False, cn_stopped = False, recvHandle = None, readBufferLen = 0, cn_buf = None,
      cn_alloc = al, cn_junk = junk, cn_remote = ('''', ''''), cn_pending = [], handlers = h\<rparr>"
  have "handle_fine s0" "buf_fine s0" using assms by (simp_all add: s0_def handle_fine_def buf_fine_def)
  then obtain s1 b where s1: "adjustReadBuffer s0 = (Ok (), s1)" "same_conn s1 s0" "handle_fine s1" "cn_buf s1 = Some b"
    "empty_buf b" "refCnt b = 1" using adjust_ok by blast
  define s2 where "s2 = s1\<lparr>cn_connected := True\<rparr>"
  have f2: "handle_fine s2" "buf_fine s2" "cn_pending s2 = []" "handlers s2 = h" "cn_connected s2"
    using s1 by (simp_all add: s2_def handle_fine_def buf_fine_def same_conn_def s0_def)
  have "TcpConnection_new al junk h True = (Ok (), s2)"
    using s1(1) by (simp add: TcpConnection_new_def AbstractConnection_new_def s0_def s2_def)
  moreover obtain s3 b3 where "startReadMessage s2 = (Ok (), s3)" "handle_fine s3" "cn_buf s3 = Some b3" "empty_buf b3"
    "refCnt b3 = 1" "cn_connected s3 = cn_connected s2" "handlers s3 = handlers s2"
    "cn_pending s3 = cn_pending s2 @ [Reading (int (length (array b3)))]"
    using start_read_ok [OF f2(1,2)] by blast
  ultimately show ?thesis using f2 by (auto simp: tcp_accepted_def reading_def)
qed

lemma well_formed_prefix:
  assumes "cfg_ok d" "\<forall>f\<in>set Fs. frame_ok d f" "concat bss = concat Fs" "length (concat Fs) \<le> 2 ^ 30"
  shows "well_formed d (concat (take k bss))"
proof -
  have e: "concat Fs = concat (take k bss) @ concat (drop k bss)"
    using assms(3) by (metis append_take_drop_id concat_append)
  then have "length (concat (take k bss)) \<le> 2 ^ 30" using assms(4) by simp
  then show ?thesis using parses_prefix [OF assms(1,2) e] by (simp add: well_formed_def)
qed

text \<open>
  C3: end to end. A connection is accepted, reads with the default allocator and has a frame decoder
  in its pipeline. However the socket cuts a stream of well-formed frames into reads, each of which fits
  into the buffer the connection offers, the next handler gets exactly the payloads, in order; the
  connection adapts, frees and replaces its buffer on the way, whether or not the next handlers keep
  their frames, and in the end exactly one read is under way.
\<close>

theorem tcp_delivers_frames:
  assumes "AdaptiveRecvByteBufAllocator_default = Ok al"
    and "LengthFieldBasedFrameDecoder_new maxLen off len adj strip = Ok d" "len \<in> {1, 2, 4, 8}"
    and "maxLen \<le> INT_MAX" "strip \<le> INT_MAX" "INT_MIN \<le> adj" "adj \<le> INT_MAX"
    and "\<forall>f\<in>set Fs. frame_ok d f" "concat bss = concat Fs" "length (concat Fs) \<le> 2 ^ 30"
    and "tcp_accepted al junk (ByteToMessageDecoder_new junk' d) = (r, s1)" "all_fit (frame_pipe kept) bss s1"
  shows "\<exists>s2 n. r = Ok () \<and> tcp_reads (frame_pipe kept) bss s1 = (Ok (), s2) \<and>
    map frame_bytes (fired (handlers s2)) = map (payload d) Fs \<and> cumulation (handlers s2) = None \<and>
    cn_connected s2 \<and> cn_pending s2 = [Reading n] \<and> 0 < n"
proof -
  have cfg: "cfg_ok d" "\<not> discardingTooLong d" using new_cfg_ok [OF assms(2-7)] by auto
  have "alloc_ok al" using default_allocator assms(1) by (metis outcome.inject(1))
  then have s1: "r = Ok ()" "reading s1" "handlers s1 = ByteToMessageDecoder_new junk' d"
    using accepted_reading [of al junk "ByteToMessageDecoder_new junk' d :: (frame_decoder, heap_buf sliced) decoder"]
      assms(11) by auto
  have "decoded d [] (handlers s1)"
    using cfg parses_nil [OF cfg(1)] by (auto simp: s1(3) decoded_def pending_def ByteToMessageDecoder_new_def)
  moreover have "\<forall>k. well_formed d ([] @ concat (take k bss))"
    using well_formed_prefix [OF cfg(1) assms(8-10)] by simp
  ultimately obtain s2 where s2: "tcp_reads (frame_pipe kept) bss s1 = (Ok (), s2)" "reading s2"
    "decoded d ([] @ concat bss) (handlers s2)"
    using fp.pipe_reads_ok [OF s1(2) assms(12)] by blast
  then obtain gs t where g: "parses d (concat Fs) gs t" "pending d (length (concat Fs)) t (handlers s2)"
    "map frame_bytes (fired (handlers s2)) = gs" using assms(9) by (auto simp: decoded_def)
  have "gs = map (payload d) Fs" "t = []" using parses_det [OF parses_stream [OF cfg(1) assms(8)] g(1)] by simp_all
  moreover from this have "cumulation (handlers s2) = None" using g(2) by (auto simp: pending_def split: option.splits)
  moreover obtain b where "cn_connected s2" "cn_pending s2 = [Reading (int (length (array b)))]" "empty_buf b"
    using s2(2) by (auto simp: reading_def)
  ultimately show ?thesis using s1(1) s2(1) g(3) empty_buf_writable [of b]
    by (intro exI [of _ s2] exI [of _ "int (length (array b))"]) simp
qed

theorem tcp_delivers_frames_witness:
  "\<exists>al d s1 s2. AdaptiveRecvByteBufAllocator_default = Ok al \<and> LengthFieldBasedFrameDecoder_new 100 0 2 0 2 = Ok d \<and>
     tcp_accepted al (\<lambda>_. 0) (ByteToMessageDecoder_new (\<lambda>_. 0) d) = (Ok (), s1) \<and>
     tcp_reads (frame_pipe (\<lambda>fs. length fs)) [[0], [3, 97], [98, 99]] s1 = (Ok (), s2) \<and>
     map frame_bytes (fired (handlers s2)) = [[97, 98, 99]]"
proof -
  obtain d where d: "LengthFieldBasedFrameDecoder_new 100 0 2 0 2 = Ok d" "lengthFieldLength d = 2"
    "lengthFieldOffset d = 0" "lengthFieldEndOffset d = 2" "lengthAdjustment d = 0" "initialBytesToStrip d = 2"
    "maxFrameLength d = 100" using two_byte_decoder by blast
  obtain al where al: "AdaptiveRecvByteBufAllocator_default = Ok al" "alloc_ok al" using default_allocator by blast
  obtain s1 :: "(frame_decoder, heap_buf sliced) decoder connection"
    where s1: "tcp_accepted al (\<lambda>_. 0) (ByteToMessageDecoder_new (\<lambda>_. 0) d) = (Ok (), s1)" "reading s1"
    "handlers s1 = ByteToMessageDecoder_new (\<lambda>_. 0) d"
    using accepted_reading [OF al(2), of "\<lambda>_. 0" "ByteToMessageDecoder_new (\<lambda>_. 0) d :: (frame_decoder, heap_buf sliced) decoder"]
    by (elim exE conjE) (rule that)
  let ?f = "[0, 3, 97, 98, 99]" and ?bss = "[[0], [3, 97], [98, 99]] :: byte list list"
  have h: "enc16 3 = [0, 3]" by code_simp
  then have f: "frame_ok d ?f" using d two_byte_announced [of d 3 "[97, 98, 99]"]
    by (simp add: frame_ok_def header_ok_def)
  have cfg: "cfg_ok d" "\<not> discardingTooLong d" using new_cfg_ok [OF d(1)] by auto
  have dec: "decoded d [] (handlers s1)"
    using cfg parses_nil [OF cfg(1)] by (auto simp: s1(3) decoded_def pending_def ByteToMessageDecoder_new_def)
  have wf: "\<forall>k. well_formed d ([] @ concat (take k ?bss))"
    using well_formed_prefix [OF cfg(1), of "[?f]" ?bss] f by simp
  have fit: "all_fit (frame_pipe (\<lambda>fs. length fs)) ?bss s1"
    by (rule fp.small_reads_fit [OF s1(2) _ dec wf]) simp
  have "concat ?bss = concat [?f]" by simp
  then obtain s2 where "tcp_reads (frame_pipe (\<lambda>fs. length fs)) ?bss s1 = (Ok (), s2)"
    "map frame_bytes (fired (handlers s2)) = map (payload d) [?f]"
    using tcp_delivers_frames [OF al(1) d(1) _ _ _ _ _ _ _ _ s1(1) fit, of "[?f]"] f by auto
  then show ?thesis using al(1) d(1,6) s1(1) by (auto simp: payload_def)
qed

text \<open>
  C35: a handler that closes the connection from within \<open>channelRead\<close> breaks it. \<open>close\<close> frees the
  buffer the read loop still holds, and \<open>discardSomeBytes\<close> then asks the null pointer for its reference
  count: on every connection that is reading, with every read, that is undefined behaviour.
\<close>

theorem close_in_read_undefined:
  assumes "reading s" "fits bs s" "\<And>m h. \<exists>b' h'. pe_read E m h = (b', h', Ok True)"
  shows "fst (tcp_read E bs s) = Undef"
proof -
  obtain m s3 where m: "cn_buf s3 = Some m" "cn_connected s3"
    "tcp_read E bs s = seqp (seqp (fireRead tcp_close E) discardSomeBytes) startReadMessage s3"
    using read_prefix [OF assms(1,2)] by (elim exE conjE) (rule that, assumption+, simp)
  obtain b' h' where p: "pe_read E m (handlers s3) = (b', h', Ok True)" using assms(3) by blast
  define s4 where "s4 = s3\<lparr>cn_buf := Some b', handlers := h'\<rparr>"
  have c4: "cn_connected s4" "cn_buf s4 = Some b'" using m(2) by (simp_all add: s4_def)
  have "fireRead tcp_close E s3 = tcp_close s4"
    using p m(1) by (simp add: fireRead_def bindp_def lift_outcome_run s4_def)
  also have "tcp_close s4 = (Ok (), s4\<lparr>cn_connected := False, cn_buf := None, recvHandle := None\<rparr>)"
    using c4 by (simp add: tcp_close_def ifp_run on_cumulation_def freeBuffer_def seqp_def bindp_def modify_run ret_run)
  finally show ?thesis using m(3) by (simp add: seqp_def bindp_def discardSomeBytes_def)
qed

theorem close_in_read_undefined_witness:
  "\<exists>al s. AdaptiveRecvByteBufAllocator_default = Ok al \<and> tcp_accepted al (\<lambda>_. 0) () = (Ok (), s) \<and>
     fst (tcp_read \<lparr>pe_read = (\<lambda>b h. (b, h, Ok True)), pe_active = ret (), pe_inactive = ret ()\<rparr> [1] s) = Undef"
proof -
  obtain al where al: "AdaptiveRecvByteBufAllocator_default = Ok al" "alloc_ok al" using default_allocator by blast
  obtain s where s: "tcp_accepted al (\<lambda>_. 0) () = (Ok (), s)" "reading s"
    using accepted_reading [OF al(2), of "\<lambda>_. 0" "()"] by (elim exE conjE) (rule that)
  obtain b where b: "empty_buf b" "cn_pending s = [Reading (int (length (array b)))]" using s(2) by (auto simp: reading_def)
  then have "fits [1] s" using empty_buf_writable [OF b(1)] by (simp add: fits_def Suc_le_eq)
  from close_in_read_undefined [OF s(2) this,
      of "\<lparr>pe_read = (\<lambda>b h. (b, h, Ok True)), pe_active = ret (), pe_inactive = ret ()\<rparr>"]
  show ?thesis using al(1) s(1) by (intro exI [of _ al] exI [of _ s]) simp
qed

end
