(* ===== verification/Allocators.thy ===== *)
theory Allocators
  imports Connection
begin

text \<open>
  The buffer allocators (src/common/buffer/AbstractCharBufAllocator.hpp, UnpooledCharBufAllocator.hpp,
  CharBufAllocator.cpp) and the configuration of a connection that names one
  (src/common/net/channel/DefaultChannelConfig.hpp and .cpp).
\<close>

section \<open>\<open>AbstractCharBufAllocator\<close>\<close>

text \<open>\<open>N\<close> is the class's \<open>newHeapBuffer\<close>; \<open>None\<close> is a null pointer. The overloads are told apart by their arguments.\<close>

definition heapBuffer_within :: "(int \<Rightarrow> int \<Rightarrow> 'b outcome) \<Rightarrow> int \<Rightarrow> int \<Rightarrow> 'b option outcome" where
  "heapBuffer_within N initialCapacity maxC =
     (if initialCapacity = 0 \<or> maxC = 0 \<or> initialCapacity > maxC then Ok None
      else map_ok Some (N initialCapacity maxC))"

definition heapBuffer_sized :: "(int \<Rightarrow> int \<Rightarrow> 'b outcome) \<Rightarrow> int \<Rightarrow> 'b option outcome" where
  "heapBuffer_sized N initialCapacity = heapBuffer_within N initialCapacity CHAR_BUF_MAX_CAPACITY"

definition heapBuffer_plain :: "(int \<Rightarrow> int \<Rightarrow> 'b outcome) \<Rightarrow> 'b option outcome" where
  "heapBuffer_plain N = heapBuffer_sized N 256"

definition ioBuffer_within :: "(int \<Rightarrow> int \<Rightarrow> 'b outcome) \<Rightarrow> int \<Rightarrow> int \<Rightarrow> 'b option outcome" where
  "ioBuffer_within N initialCapacity maxC = heapBuffer_within N initialCapacity maxC"

definition ioBuffer_sized :: "(int \<Rightarrow> int \<Rightarrow> 'b outcome) \<Rightarrow> int \<Rightarrow> 'b option outcome" where
  "ioBuffer_sized N initialCapacity = heapBuffer_sized N initialCapacity"

definition ioBuffer_plain :: "(int \<Rightarrow> int \<Rightarrow> 'b outcome) \<Rightarrow> 'b option outcome" where
  "ioBuffer_plain N = ioBuffer_sized N 256"

definition buffer_sized :: "(int \<Rightarrow> int \<Rightarrow> 'b outcome) \<Rightarrow> int \<Rightarrow> 'b option outcome" where
  "buffer_sized N initialCapacity = heapBuffer_sized N initialCapacity"

definition unpooled_newHeapBuffer :: "(nat \<Rightarrow> byte) \<Rightarrow> int \<Rightarrow> int \<Rightarrow> heap_buf outcome" where
  "unpooled_newHeapBuffer junk initialCapacity maxC = UnpooledHeapCharBuf_new junk initialCapacity maxC"

section \<open>\<open>DefaultChannelConfig\<close>\<close>

record 'b channel_config =
  recvAlloctor :: recv_allocator
  allocator :: "int \<Rightarrow> int \<Rightarrow> 'b outcome"

definition DEFAULT_ALLOCATOR :: "(nat \<Rightarrow> byte) \<Rightarrow> int \<Rightarrow> int \<Rightarrow> heap_buf outcome" where
  "DEFAULT_ALLOCATOR junk = unpooled_newHeapBuffer junk"

definition DefaultChannelConfig_new :: "(nat \<Rightarrow> byte) \<Rightarrow> heap_buf channel_config outcome" where
  "DefaultChannelConfig_new junk =
     map_ok (\<lambda>r. \<lparr>recvAlloctor = r, allocator = DEFAULT_ALLOCATOR junk\<rparr>) AdaptiveRecvByteBufAllocator_default"

definition setAllocator :: "(int \<Rightarrow> int \<Rightarrow> 'b outcome) \<Rightarrow> 'b channel_config \<Rightarrow> 'b channel_config" where
  "setAllocator a s = s\<lparr>allocator := a\<rparr>"

section \<open>What a connection gets\<close>

text \<open>The read buffers of Connection and the cumulations of Decoder come from this allocator.\<close>

lemma alloc_buffer_default: "alloc_buffer junk n = heapBuffer_sized (DEFAULT_ALLOCATOR junk) n"
  by (simp add: alloc_buffer_def heapBuffer_sized_def heapBuffer_within_def DEFAULT_ALLOCATOR_def
      unpooled_newHeapBuffer_def CHAR_BUF_MAX_CAPACITY_def)

text \<open>With no sizes given, a buffer of 256 bytes, empty and held once.\<close>

theorem plain_buffer:
  "\<exists>b. ioBuffer_plain (DEFAULT_ALLOCATOR junk) = Ok (Some b) \<and> empty_buf b \<and> refCnt b = 1"
  using alloc_empty [of 256 junk] by (simp add: ioBuffer_plain_def ioBuffer_sized_def flip: alloc_buffer_default)

theorem default_config:
  "\<exists>c. DefaultChannelConfig_new junk = Ok c \<and> alloc_ok (recvAlloctor c) \<and>
     (\<exists>b. ioBuffer_plain (allocator c) = Ok (Some b) \<and> empty_buf b \<and> refCnt b = 1)"
proof -
  obtain al where al: "AdaptiveRecvByteBufAllocator_default = Ok al" "alloc_ok al" using default_allocator by blast
  have "DefaultChannelConfig_new junk = Ok \<lparr>recvAlloctor = al, allocator = DEFAULT_ALLOCATOR junk\<rparr>"
    unfolding DefaultChannelConfig_new_def al(1) by simp
  then show ?thesis using plain_buffer [of junk] al(2) by auto
qed

end
