(* ===== verification/Pipeline.thy ===== *)
theory Pipeline
  imports Links
begin

text \<open>
  \<open>DefaultChannelPipeline\<close> (src/common/net/channel/DefaultChannelPipeline.hpp and .cpp): the
  doubly linked list of handler contexts of a connection, with its names and lookups. Context
  objects live in a heap of addresses; 0 is the null pointer, and an address that is not alive has
  been deleted. The two sentinels have the fixed addresses below. The recursive mutex only orders
  the operations, which run here one after the other.
\<close>

section \<open>State\<close>

record handler_context =
  cx_name :: string
  cx_handler :: nat
  cx_inbound :: bool
  cx_outbound :: bool
  cx_next :: nat
  cx_prev :: nat

text \<open>What the code asks of a handler's class: \<open>typeid(*handler).name()\<close> and two dynamic casts.\<close>

record handler_class =
  type_name :: string
  is_inbound :: bool
  is_outbound :: bool

text \<open>\<open>'l\<close> is the record of what the handlers and the connection saw (theory Channel).\<close>

record 'l pipeline =
  ctxs :: "nat \<Rightarrow> handler_context"
  live :: "nat set"
  next_ctx :: nat
  nameCaches :: "string \<Rightarrow> string option"
  seen :: 'l

abbreviation headp :: nat where "headp \<equiv> 1"
abbreviation tailp :: nat where "tailp \<equiv> 2"

definition generateName0 :: "string \<Rightarrow> string" where
  "generateName0 clzName = clzName @ ''#0''"

text \<open>
  The constructor; \<open>hn\<close> and \<open>tn\<close> are the compiler's names of the two context classes, \<open>cache\<close> the
  thread's name cache. A sentinel is its own handler.
\<close>

definition DefaultChannelPipeline_new :: "string \<Rightarrow> string \<Rightarrow> (string \<Rightarrow> string option) \<Rightarrow> 'l \<Rightarrow> 'l pipeline" where
  "DefaultChannelPipeline_new hn tn cache l =
     \<lparr>ctxs = (\<lambda>_. \<lparr>cx_name = '''', cx_handler = 0, cx_inbound = False, cx_outbound = False, cx_next = 0, cx_prev = 0\<rparr>)
        (headp := \<lparr>cx_name = generateName0 hn, cx_handler = headp, cx_inbound = True, cx_outbound = True,
                   cx_next = tailp, cx_prev = 0\<rparr>,
         tailp := \<lparr>cx_name = generateName0 tn, cx_handler = tailp, cx_inbound = True, cx_outbound = False,
                   cx_next = 0, cx_prev = headp\<rparr>),
      live = {headp, tailp}, next_ctx = 3, nameCaches = cache, seen = l\<rparr>"

section \<open>Access to contexts\<close>

definition get_ctx :: "nat \<Rightarrow> ('l pipeline, handler_context) prog" where
  "get_ctx a s = (if a \<in> live s then Ok (ctxs s a) else Undef, s)"

definition put_ctx :: "nat \<Rightarrow> (handler_context \<Rightarrow> handler_context) \<Rightarrow> ('l pipeline, unit) prog" where
  "put_ctx a f s =
     (if a \<in> live s then (Ok (), s\<lparr>ctxs := (ctxs s)(a := f (ctxs s a))\<rparr>) else (Undef, s))"

text \<open>The loop of both overloads of \<open>context0\<close>; \<open>None\<close> is a loop that never ends.\<close>

partial_function (option) find_from :: "(handler_context \<Rightarrow> bool) \<Rightarrow> 'l pipeline \<Rightarrow> nat \<Rightarrow> nat outcome option" where
  "find_from P s a =
     (if a = 0 then Some (Ok 0)
      else if a \<notin> live s then Some Undef
      else if P (ctxs s a) then Some (Ok a)
      else find_from P s (cx_next (ctxs s a)))"

definition context0 :: "(handler_context \<Rightarrow> bool) \<Rightarrow> ('l pipeline, nat) prog" where
  "context0 P = bindp (get_ctx headp) (\<lambda>h.
     lift_outcome (\<lambda>s. case find_from P s (cx_next h) of None \<Rightarrow> Hang | Some r \<Rightarrow> r))"

abbreviation by_name :: "string \<Rightarrow> handler_context \<Rightarrow> bool" where "by_name n \<equiv> \<lambda>c. cx_name c = n"
abbreviation by_handler :: "nat \<Rightarrow> handler_context \<Rightarrow> bool" where "by_handler h \<equiv> \<lambda>c. cx_handler c = h"

section \<open>Names\<close>

definition checkDuplicateName :: "string \<Rightarrow> ('l pipeline, unit) prog" where
  "checkDuplicateName name = bindp (context0 (by_name name)) (\<lambda>c.
     if c \<noteq> 0 then raise (RuntimeError ''Duplicate handler name'') else ret ())"

text \<open>The conversion \<open>%d\<close> of a number that is not negative.\<close>

fun decimal :: "nat \<Rightarrow> string" where
  "decimal n = (if n < 10 then [char_of (48 + n)] else decimal (n div 10) @ [char_of (48 + n mod 10)])"

declare decimal.simps [simp del]

partial_function (option) number_name :: "string \<Rightarrow> 'l pipeline \<Rightarrow> nat \<Rightarrow> string outcome option" where
  "number_name base s i =
     (case fst (context0 (by_name (base @ decimal i)) s) of
        Ok c \<Rightarrow> if c = 0 then Some (Ok (base @ decimal i)) else number_name base s (Suc i)
      | Throw e \<Rightarrow> Some (Throw e) | Hang \<Rightarrow> Some Hang | Undef \<Rightarrow> Some Undef)"

text \<open>When the cache knows the type, \<open>name\<close> keeps its initial value, the empty string.\<close>

definition cached_name :: "string \<Rightarrow> ('l pipeline, string) prog" where
  "cached_name handlerType s =
     (case nameCaches s handlerType of
        None \<Rightarrow> (Ok (generateName0 handlerType),
                 s\<lparr>nameCaches := (nameCaches s)(handlerType \<mapsto> generateName0 handlerType)\<rparr>)
      | Some n \<Rightarrow> (Ok '''', s))"

text \<open>\<open>substr(0, length() - 1)\<close>: of an empty string the length wraps and the result is empty.\<close>

definition generateName :: "handler_class \<Rightarrow> ('l pipeline, string) prog" where
  "generateName k = bindp (cached_name (type_name k)) (\<lambda>name.
     bindp (context0 (by_name name)) (\<lambda>c.
       if c \<noteq> 0
       then lift_outcome (\<lambda>s. case number_name (butlast name) s 0 of None \<Rightarrow> Hang | Some r \<Rightarrow> r)
       else ret name))"

definition filterName :: "string \<Rightarrow> handler_class \<Rightarrow> ('l pipeline, string) prog" where
  "filterName name k =
     (if name = '''' then generateName k else seqp (checkDuplicateName name) (ret name))"

section \<open>Changes of the list\<close>

definition DefaultChannelHandlerContext_new :: "string \<Rightarrow> nat \<Rightarrow> handler_class \<Rightarrow> ('l pipeline, nat) prog" where
  "DefaultChannelHandlerContext_new name h k s =
     (Ok (next_ctx s),
      s\<lparr>ctxs := (ctxs s)(next_ctx s := \<lparr>cx_name = name, cx_handler = h, cx_inbound = is_inbound k,
           cx_outbound = is_outbound k, cx_next = 0, cx_prev = 0\<rparr>),
        live := insert (next_ctx s) (live s), next_ctx := Suc (next_ctx s)\<rparr>)"

definition addLast0 :: "nat \<Rightarrow> ('l pipeline, unit) prog" where
  "addLast0 a = bindp (get_ctx tailp) (\<lambda>t. let prev = cx_prev t in doM
     [put_ctx a (cx_prev_update (\<lambda>_. prev)),
      put_ctx a (cx_next_update (\<lambda>_. tailp)),
      put_ctx prev (cx_next_update (\<lambda>_. a)),
      put_ctx tailp (cx_prev_update (\<lambda>_. a))])"

definition addLast :: "(nat \<Rightarrow> handler_class) \<Rightarrow> string \<Rightarrow> nat \<Rightarrow> ('l pipeline, unit) prog" where
  "addLast K name h = bindp (filterName name (K h)) (\<lambda>n.
     bindp (DefaultChannelHandlerContext_new n h (K h)) addLast0)"

definition remove0 :: "nat \<Rightarrow> ('l pipeline, unit) prog" where
  "remove0 a = bindp (get_ctx a) (\<lambda>c. doM
     [put_ctx (cx_prev c) (cx_next_update (\<lambda>_. cx_next c)),
      put_ctx (cx_next c) (cx_prev_update (\<lambda>_. cx_prev c)),
      modify (live_update (\<lambda>L. L - {a}))])"

definition remove_if :: "(handler_context \<Rightarrow> bool) \<Rightarrow> ('l pipeline, unit) prog" where
  "remove_if P = bindp (context0 P) (\<lambda>c. if c \<noteq> 0 then remove0 c else ret ())"

definition remove_name :: "string \<Rightarrow> ('l pipeline, unit) prog" where
  "remove_name name = remove_if (by_name name)"

definition remove_handler :: "nat \<Rightarrow> ('l pipeline, unit) prog" where
  "remove_handler h = remove_if (by_handler h)"

section \<open>Lookups\<close>

text \<open>A handler of 0 is the null pointer.\<close>

definition handler_of :: "nat \<Rightarrow> ('l pipeline, nat) prog" where
  "handler_of c = (if c \<noteq> 0 then bindp (get_ctx c) (\<lambda>x. ret (cx_handler x)) else ret 0)"

definition get_handler :: "string \<Rightarrow> ('l pipeline, nat) prog" where
  "get_handler name = bindp (context0 (by_name name)) handler_of"

definition context_name :: "string \<Rightarrow> ('l pipeline, nat) prog" where
  "context_name name = context0 (by_name name)"

definition context_handler :: "nat \<Rightarrow> ('l pipeline, nat) prog" where
  "context_handler h = context0 (by_handler h)"

definition firstContext :: "('l pipeline, nat) prog" where
  "firstContext = bindp (get_ctx headp) (\<lambda>h. ret (if cx_next h \<noteq> tailp then cx_next h else 0))"

definition lastContext :: "('l pipeline, nat) prog" where
  "lastContext = bindp (get_ctx tailp) (\<lambda>t. ret (if cx_prev t \<noteq> headp then cx_prev t else 0))"

definition first_handler :: "('l pipeline, nat) prog" where
  "first_handler = bindp firstContext handler_of"

definition last_handler :: "('l pipeline, nat) prog" where
  "last_handler = bindp lastContext handler_of"

text \<open>The destructor deletes the contexts one after the other, then the sentinels.\<close>

partial_function (option) delete_from :: "'l pipeline \<Rightarrow> nat \<Rightarrow> (unit outcome \<times> 'l pipeline) option" where
  "delete_from s cur =
     (if cur = 0 \<or> cur = tailp then Some (Ok (), s)
      else if cur \<notin> live s then Some (Undef, s)
      else delete_from (s\<lparr>live := live s - {cur}\<rparr>) (cx_next (ctxs s cur)))"

definition DefaultChannelPipeline_delete :: "('l pipeline, unit) prog" where
  "DefaultChannelPipeline_delete = bindp (get_ctx headp) (\<lambda>h. seqp
     (\<lambda>s. case delete_from s (cx_next h) of None \<Rightarrow> (Hang, s) | Some r \<Rightarrow> r)
     (modify (live_update (\<lambda>L. L - {headp, tailp}))))"

section \<open>The list of contexts\<close>

abbreviation nxt_of :: "'l pipeline \<Rightarrow> nat \<Rightarrow> nat" where "nxt_of s \<equiv> \<lambda>a. cx_next (ctxs s a)"
abbreviation prv_of :: "'l pipeline \<Rightarrow> nat \<Rightarrow> nat" where "prv_of s \<equiv> \<lambda>a. cx_prev (ctxs s a)"

definition names_of :: "'l pipeline \<Rightarrow> nat list \<Rightarrow> string list" where
  "names_of s as = map (\<lambda>a. cx_name (ctxs s a)) as"

text \<open>
  \<open>wf_pipe s as\<close>: the contexts between the sentinels are those at the addresses \<open>as\<close>, in this
  order, nothing else is alive, and their names and that of the tail are distinct.
\<close>

definition wf_pipe :: "'l pipeline \<Rightarrow> nat list \<Rightarrow> bool" where
  "wf_pipe s as \<longleftrightarrow> distinct as \<and> {0, headp, tailp} \<inter> set as = {} \<and> live s = {headp, tailp} \<union> set as \<and>
     linked (nxt_of s) (prv_of s) (headp # as @ [tailp]) \<and> cx_next (ctxs s tailp) = 0 \<and>
     (\<forall>a\<in>live s. a < next_ctx s) \<and> distinct (names_of s (as @ [tailp])) \<and>
     cx_handler (ctxs s tailp) = tailp"

lemma wf_pipeD:
  assumes "wf_pipe s as"
  shows "distinct as" "0 \<notin> set as" "headp \<notin> set as" "tailp \<notin> set as" "live s = {headp, tailp} \<union> set as"
    "linked (nxt_of s) (prv_of s) (headp # as @ [tailp])" "cx_next (ctxs s tailp) = 0" "2 < next_ctx s"
    "next_ctx s \<notin> set as" "distinct (names_of s as)" "cx_handler (ctxs s tailp) = tailp"
    "cx_name (ctxs s tailp) \<notin> set (names_of s as)"
  using assms by (auto simp: wf_pipe_def names_of_def)

definition found :: "(nat \<Rightarrow> bool) \<Rightarrow> nat list \<Rightarrow> nat" where
  "found P as = (case find P as of None \<Rightarrow> 0 | Some a \<Rightarrow> a)"

lemma found_append: "(\<forall>a\<in>set as. \<not> P a) \<Longrightarrow> found P (as @ bs) = found P bs"
  by (induction as) (auto simp: found_def)

lemma found_in: "found P as \<noteq> 0 \<Longrightarrow> found P as \<in> set as \<and> P (found P as)"
  by (induction as) (auto simp: found_def)

lemma found_none: "0 \<notin> set as \<Longrightarrow> found P as = 0 \<longleftrightarrow> (\<forall>a\<in>set as. \<not> P a)"
  by (induction as) (auto simp: found_def)

lemma find_from_list:
  assumes "linked (nxt_of s) P as" "as \<noteq> []" "nxt_of s (last as) = 0" "0 \<notin> set as" "set as \<subseteq> live s"
  shows "find_from Q s (hd as) = Some (Ok (found (\<lambda>a. Q (ctxs s a)) as))"
  using assms
proof (induction as)
  case (Cons a as)
  show ?case
  proof (cases as)
    case Nil
    then show ?thesis using Cons.prems
      by (simp add: find_from.simps [of Q s a] find_from.simps [of Q s 0] found_def)
  next
    case (Cons b bs)
    then have "find_from Q s (hd as) = Some (Ok (found (\<lambda>a. Q (ctxs s a)) as))"
      using Cons.prems by (intro Cons.IH) (auto simp: linked_Cons_iff)
    then show ?thesis using Cons.prems Cons by (subst find_from.simps) (auto simp: found_def)
  qed
qed simp

lemma hd_next:
  assumes "wf_pipe s as"
  shows "cx_next (ctxs s headp) = hd (as @ [tailp])"
  using wf_pipeD(6) [OF assms] by (cases as) auto

lemma context0_run:
  assumes "wf_pipe s as"
  shows "context0 Q s = (Ok (found (\<lambda>a. Q (ctxs s a)) (as @ [tailp])), s)"
proof -
  note w = wf_pipeD [OF assms]
  have "find_from Q s (hd (as @ [tailp])) = Some (Ok (found (\<lambda>a. Q (ctxs s a)) (as @ [tailp])))"
    by (rule find_from_list [of _ "prv_of s"]) (use w(2,5,7) linked_ConsD [OF w(6)] in auto)
  then show ?thesis using w(5) hd_next [OF assms]
    by (simp add: context0_def prog_simps get_ctx_def)
qed

section \<open>Fresh names\<close>

lemma of_digit: "n < 10 \<Longrightarrow> of_char (char_of (48 + n :: nat)) = (48 + n :: nat)"
  by simp

lemma decimal_value: "foldl (\<lambda>v c. 10 * v + (of_char c - 48)) 0 (decimal n) = n"
proof (induction n rule: decimal.induct)
  case (1 n)
  show ?case
  proof (cases "n < 10")
    case False
    then show ?thesis using 1 of_digit [of "n mod 10"] by (subst decimal.simps) simp
  qed (subst decimal.simps, simp)
qed

lemma decimal_inj: "decimal m = decimal n \<Longrightarrow> m = n"
  by (metis decimal_value)

lemma decimal_ne: "decimal n \<noteq> []"
  by (subst decimal.simps) simp

lemma name_taken:
  assumes "wf_pipe s as"
  shows "found (\<lambda>a. cx_name (ctxs s a) = n) (as @ [tailp]) = 0 \<longleftrightarrow> n \<notin> set (names_of s (as @ [tailp]))"
  using wf_pipeD(2) [OF assms] by (subst found_none) (auto simp: names_of_def)

lemma number_name_run:
  assumes "wf_pipe s as" "\<forall>j<k. base @ decimal (i + j) \<in> set (names_of s (as @ [tailp]))"
    and "base @ decimal (i + k) \<notin> set (names_of s (as @ [tailp]))"
  shows "number_name base s i = Some (Ok (base @ decimal (i + k)))"
  using assms(2,3)
proof (induction k arbitrary: i)
  case 0
  then show ?case
    using name_taken [OF assms(1)] by (subst number_name.simps) (simp add: context0_run [OF assms(1)])
next
  case (Suc k)
  have "base @ decimal i \<in> set (names_of s (as @ [tailp]))" using Suc.prems(1) by force
  moreover have "number_name base s (Suc i) = Some (Ok (base @ decimal (Suc i + k)))"
    by (rule Suc.IH) (use Suc.prems in \<open>auto dest: spec [of _ "Suc _"]\<close>)
  ultimately show ?case
    using name_taken [OF assms(1)] by (subst number_name.simps) (simp add: context0_run [OF assms(1)])
qed

lemma number_name_fresh:
  assumes "wf_pipe s as"
  obtains n where "number_name base s 0 = Some (Ok n)" "n \<notin> set (names_of s (as @ [tailp]))"
proof -
  let ?N = "set (names_of s (as @ [tailp]))"
  have "infinite (range (\<lambda>i. base @ decimal i))"
    using finite_imageD [of "\<lambda>i. base @ decimal i" UNIV] decimal_inj by (auto simp: inj_on_def)
  then obtain k where "base @ decimal k \<notin> ?N"
    using finite_subset [of "range (\<lambda>i. base @ decimal i)" ?N] by auto
  then have "\<exists>k. base @ decimal k \<notin> ?N \<and> (\<forall>j<k. \<not> base @ decimal j \<notin> ?N)"
    using exists_least_iff [of "\<lambda>k. base @ decimal k \<notin> ?N"] by blast
  then obtain k where "base @ decimal k \<notin> ?N" "\<forall>j<k. base @ decimal j \<in> ?N" by blast
  then show ?thesis using number_name_run [OF assms, of k base 0] that by auto
qed

section \<open>The operations on the list\<close>

definition entries :: "'l pipeline \<Rightarrow> nat list \<Rightarrow> (string \<times> nat) list" where
  "entries s as = map (\<lambda>a. (cx_name (ctxs s a), cx_handler (ctxs s a))) as"

definition tail_name :: "'l pipeline \<Rightarrow> string" where
  "tail_name s = cx_name (ctxs s tailp)"

lemma wf_new:
  assumes "s = DefaultChannelPipeline_new hn tn cache l"
  shows "wf_pipe s []" "entries s [] = []" "tail_name s = tn @ ''#0''"
  by (auto simp: assms wf_pipe_def entries_def DefaultChannelPipeline_new_def names_of_def tail_name_def generateName0_def)

text \<open>Only the name cache may differ.\<close>

definition same_list :: "'l pipeline \<Rightarrow> 'l pipeline \<Rightarrow> bool" where
  "same_list s s' \<longleftrightarrow> (\<exists>C. s' = s\<lparr>nameCaches := C\<rparr>)"

lemma same_list_wf: "same_list s s' \<Longrightarrow> wf_pipe s' as \<longleftrightarrow> wf_pipe s as"
  and same_list_ctxs: "same_list s s' \<Longrightarrow> ctxs s' = ctxs s \<and> next_ctx s' = next_ctx s \<and> live s' = live s \<and> seen s' = seen s"
  by (auto simp: same_list_def wf_pipe_def names_of_def)

lemma cached_name_run: "\<exists>n s'. cached_name t s = (Ok n, s') \<and> same_list s s'"
  by (cases "nameCaches s t") (auto simp: cached_name_def same_list_def intro: exI [of _ "nameCaches s"])

lemma generateName_run:
  assumes "wf_pipe s as"
  shows "\<exists>n s'. generateName k s = (Ok n, s') \<and> same_list s s' \<and> n \<notin> set (names_of s (as @ [tailp]))"
proof -
  obtain n s' where c: "cached_name (type_name k) s = (Ok n, s')" "same_list s s'" using cached_name_run by blast
  have w: "wf_pipe s' as" "names_of s' = names_of s"
    using c(2) assms same_list_wf [OF c(2)] same_list_ctxs [OF c(2)] by (auto simp: names_of_def)
  obtain m where "number_name (butlast n) s' 0 = Some (Ok m)" "m \<notin> set (names_of s (as @ [tailp]))"
    using number_name_fresh [OF w(1)] w(2) by metis
  then show ?thesis using c name_taken [OF w(1)] w(2)
    by (simp add: generateName_def prog_simps context0_run [OF w(1)])
qed

lemma filterName_run:
  assumes "wf_pipe s as"
  shows "if name \<noteq> '''' \<and> name \<in> set (names_of s (as @ [tailp]))
    then filterName name k s = (Throw (RuntimeError ''Duplicate handler name''), s)
    else \<exists>n s'. filterName name k s = (Ok n, s') \<and> same_list s s' \<and> n \<notin> set (names_of s (as @ [tailp])) \<and>
      (name \<noteq> '''' \<longrightarrow> n = name)"
  using generateName_run [OF assms, of k] name_taken [OF assms, of name]
  by (auto simp: filterName_def checkDuplicateName_def prog_simps context0_run [OF assms] same_list_def
      intro: exI [of _ "nameCaches s"])

lemma get_ctx_run: "a \<in> live s \<Longrightarrow> get_ctx a s = (Ok (ctxs s a), s)"
  and put_ctx_run: "a \<in> live s \<Longrightarrow> put_ctx a f s = (Ok (), s\<lparr>ctxs := (ctxs s)(a := f (ctxs s a))\<rparr>)"
  by (simp_all add: get_ctx_def put_ctx_def)

lemma addLast0_run:
  assumes "wf_pipe s as" "n \<notin> set (names_of s (as @ [tailp]))"
  shows "\<exists>s'. bindp (DefaultChannelHandlerContext_new n h k) addLast0 s = (Ok (), s') \<and>
    wf_pipe s' (as @ [next_ctx s]) \<and> entries s' (as @ [next_ctx s]) = entries s as @ [(n, h)] \<and>
    tail_name s' = tail_name s \<and> seen s' = seen s \<and> nameCaches s' = nameCaches s \<and>
    cx_inbound (ctxs s' (next_ctx s)) = is_inbound k \<and> cx_outbound (ctxs s' (next_ctx s)) = is_outbound k \<and>
    (\<forall>a\<in>live s. cx_inbound (ctxs s' a) = cx_inbound (ctxs s a) \<and> cx_outbound (ctxs s' a) = cx_outbound (ctxs s a) \<and>
      cx_handler (ctxs s' a) = cx_handler (ctxs s a))"
proof -
  note w = wf_pipeD [OF assms(1)]
  let ?x = "next_ctx s"
  obtain L p where ha: "L @ [p] = headp # as" by (metis append_butlast_last_id list.discI)
  have split: "L @ p # zs = headp # as @ zs" for zs
  proof -
    have "L @ p # zs = (L @ [p]) @ zs" by simp
    then show ?thesis unfolding ha by simp
  qed
  have lk: "linked (nxt_of s) (prv_of s) (L @ p # tailp # [])"
    using w(6) unfolding split .
  have pp: "cx_prev (ctxs s tailp) = p" using lk by (simp add: linked_append)
  have pin: "p \<in> insert headp (set as)" using arg_cong [OF ha, of set] by auto
  have nx: "?x \<noteq> headp" "?x \<noteq> tailp" "?x \<noteq> p" "p \<noteq> tailp" "?x \<noteq> 0" "p \<in> live s"
    using w pin by (auto)
  have d: "distinct (L @ [p])" "tailp \<notin> set (L @ [p])" "?x \<notin> set (L @ [p])"
    using w nx(1) unfolding ha by simp_all
  have "linked ((nxt_of s)(?x := tailp, p := ?x)) ((prv_of s)(?x := p, tailp := ?x)) (L @ p # ?x # tailp # [])"
    by (rule linked_insert [OF lk]) (use d nx in \<open>auto dest: in_tl\<close>)
  moreover have "L @ p # ?x # tailp # [] = headp # (as @ [?x]) @ [tailp]"
    unfolding split by simp
  ultimately have lk2: "linked ((nxt_of s)(?x := tailp, p := ?x)) ((prv_of s)(?x := p, tailp := ?x)) (headp # (as @ [?x]) @ [tailp])"
    by (simp only:)
  define s1 where "s1 = s\<lparr>ctxs := (ctxs s)(?x := \<lparr>cx_name = n, cx_handler = h, cx_inbound = is_inbound k,
           cx_outbound = is_outbound k, cx_next = 0, cx_prev = 0\<rparr>), live := insert ?x (live s), next_ctx := Suc ?x\<rparr>"
  define s' where "s' = s1\<lparr>ctxs := (ctxs s)(?x := \<lparr>cx_name = n, cx_handler = h, cx_inbound = is_inbound k,
           cx_outbound = is_outbound k, cx_next = tailp, cx_prev = p\<rparr>, p := (ctxs s p)\<lparr>cx_next := ?x\<rparr>,
           tailp := (ctxs s tailp)\<lparr>cx_prev := ?x\<rparr>)\<rparr>"
  have run: "bindp (DefaultChannelHandlerContext_new n h k) addLast0 s = (Ok (), s')"
    using nx pp w(5) by (simp add: bindp_def DefaultChannelHandlerContext_new_def addLast0_def prog_simps get_ctx_def
        put_ctx_def s'_def s1_def Let_def)
  have nn: "nxt_of s' = (nxt_of s)(?x := tailp, p := ?x)" "prv_of s' = (prv_of s)(?x := p, tailp := ?x)"
    using nx by (auto simp: s'_def s1_def fun_eq_iff)
  have nm: "names_of s' (as @ [?x] @ [tailp]) = names_of s as @ [n, cx_name (ctxs s tailp)]"
    using w nx by (auto simp: s'_def s1_def names_of_def)
  have "distinct (names_of s as @ [n, cx_name (ctxs s tailp)])"
    using w(10,12) assms(2) by (auto simp: names_of_def)
  then have "distinct (names_of s' ((as @ [?x]) @ [tailp]))" using nm by simp
  moreover have "\<forall>a\<in>live s'. a < next_ctx s'"
    using assms(1) by (auto simp: s'_def s1_def wf_pipe_def less_Suc_eq)
  ultimately have "wf_pipe s' (as @ [?x])"
    unfolding wf_pipe_def nn using lk2 w nx by (auto simp: s'_def s1_def)
  moreover have "entries s' (as @ [?x]) = entries s as @ [(n, h)]"
    using w nx by (auto simp: s'_def s1_def entries_def)
  ultimately show ?thesis using run nx w by (auto simp: s'_def s1_def tail_name_def)
qed

lemma addLast_run:
  assumes "wf_pipe s as"
  shows "if name \<noteq> '''' \<and> name \<in> set (names_of s (as @ [tailp]))
    then addLast K name h s = (Throw (RuntimeError ''Duplicate handler name''), s)
    else \<exists>n s'. addLast K name h s = (Ok (), s') \<and> n \<notin> set (names_of s (as @ [tailp])) \<and> (name \<noteq> '''' \<longrightarrow> n = name) \<and>
      wf_pipe s' (as @ [next_ctx s]) \<and> entries s' (as @ [next_ctx s]) = entries s as @ [(n, h)] \<and>
      tail_name s' = tail_name s \<and> seen s' = seen s \<and>
      cx_inbound (ctxs s' (next_ctx s)) = is_inbound (K h) \<and> cx_outbound (ctxs s' (next_ctx s)) = is_outbound (K h) \<and>
      (\<forall>a\<in>live s. cx_inbound (ctxs s' a) = cx_inbound (ctxs s a) \<and> cx_outbound (ctxs s' a) = cx_outbound (ctxs s a) \<and>
        cx_handler (ctxs s' a) = cx_handler (ctxs s a))"
proof (cases "name \<noteq> '''' \<and> name \<in> set (names_of s (as @ [tailp]))")
  case True
  then show ?thesis using filterName_run [OF assms, of name "K h"] by (simp add: addLast_def prog_simps)
next
  case False
  then obtain n s1 where f: "filterName name (K h) s = (Ok n, s1)" "same_list s s1"
    "n \<notin> set (names_of s (as @ [tailp]))" "name \<noteq> '''' \<longrightarrow> n = name"
    using filterName_run [OF assms, of name "K h"] by auto
  note c = same_list_ctxs [OF f(2)]
  have w: "wf_pipe s1 as" "n \<notin> set (names_of s1 (as @ [tailp]))" "entries s1 as = entries s as" "tail_name s1 = tail_name s"
    using assms f(3) c same_list_wf [OF f(2)] by (simp_all add: names_of_def entries_def tail_name_def)
  show ?thesis
    using False addLast0_run [OF w(1,2), of h "K h"] f(3,4) w(3,4) c
    by (auto simp: addLast_def bindp_Ok [of "filterName name (K h)" s n s1, OF f(1)])
qed

lemma remove0_run:
  assumes "wf_pipe s (ys @ x # zs)"
  shows "\<exists>s'. remove0 x s = (Ok (), s') \<and> wf_pipe s' (ys @ zs) \<and> entries s' (ys @ zs) = entries s (ys @ zs) \<and>
    tail_name s' = tail_name s \<and> seen s' = seen s \<and> nameCaches s' = nameCaches s \<and> next_ctx s' = next_ctx s \<and>
    (\<forall>a. cx_inbound (ctxs s' a) = cx_inbound (ctxs s a) \<and> cx_outbound (ctxs s' a) = cx_outbound (ctxs s a) \<and>
      cx_handler (ctxs s' a) = cx_handler (ctxs s a) \<and> cx_name (ctxs s' a) = cx_name (ctxs s a))"
proof -
  note w = wf_pipeD [OF assms]
  let ?p = "cx_prev (ctxs s x)" and ?n = "cx_next (ctxs s x)"
  have l: "?p = last (headp # ys)" "?n = hd (zs @ [tailp])"
    "linked ((nxt_of s)(?p := ?n)) ((prv_of s)(?n := ?p)) (headp # (ys @ zs) @ [tailp])"
    using line_remove [OF w(6)] w(1,3,4) by auto
  have "?p \<in> set (headp # ys)" unfolding l(1) by (rule last_in_set) simp
  moreover have "?n \<in> set (zs @ [tailp])" unfolding l(2) by (rule list.set_sel(1)) simp
  ultimately have pn: "?p \<noteq> x" "?n \<noteq> x" "?p \<in> live s" "?n \<in> live s" "?p \<noteq> tailp" "x \<in> live s"
    using w by auto
  define s' where "s' = s\<lparr>ctxs := (ctxs s)(?p := (ctxs s ?p)\<lparr>cx_next := ?n\<rparr>,
      ?n := ((ctxs s)(?p := (ctxs s ?p)\<lparr>cx_next := ?n\<rparr>)) ?n\<lparr>cx_prev := ?p\<rparr>), live := live s - {x}\<rparr>"
  have run: "remove0 x s = (Ok (), s')"
    using pn by (simp add: remove0_def prog_simps get_ctx_def put_ctx_def s'_def)
  have nn: "nxt_of s' = (nxt_of s)(?p := ?n)" "prv_of s' = (prv_of s)(?n := ?p)"
    using pn by (auto simp: s'_def fun_eq_iff)
  have f: "cx_name (ctxs s' a) = cx_name (ctxs s a)" "cx_handler (ctxs s' a) = cx_handler (ctxs s a)"
    "cx_inbound (ctxs s' a) = cx_inbound (ctxs s a)" "cx_outbound (ctxs s' a) = cx_outbound (ctxs s a)" for a
    by (auto simp: s'_def)
  have "cx_next (ctxs s' tailp) = 0" using w(7) pn(5) fun_cong [OF nn(1), of tailp] by simp
  moreover have "live s' = {headp, tailp} \<union> set (ys @ zs)" using w(1-5) by (auto simp: s'_def)
  moreover have "\<forall>a\<in>live s'. a < next_ctx s'" using assms by (auto simp: wf_pipe_def s'_def)
  ultimately have "wf_pipe s' (ys @ zs)"
    using l(3) assms unfolding wf_pipe_def nn by (auto simp: names_of_def f)
  then show ?thesis using run f by (auto simp: entries_def tail_name_def s'_def)
qed

text \<open>The first entry with a property, taken out.\<close>

fun drop_first :: "('a \<Rightarrow> bool) \<Rightarrow> 'a list \<Rightarrow> 'a list" where
  "drop_first P [] = []"
| "drop_first P (x # xs) = (if P x then xs else x # drop_first P xs)"

lemma drop_first_none: "\<forall>x\<in>set xs. \<not> P x \<Longrightarrow> drop_first P xs = xs"
  by (induction xs) auto

lemma drop_first_append: "\<forall>x\<in>set ys. \<not> P x \<Longrightarrow> P x \<Longrightarrow> drop_first P (ys @ x # zs) = ys @ zs"
  by (induction ys) auto

text \<open>Removal by a property of name and handler that the tail does not have.\<close>

lemma remove_if_run:
  assumes "wf_pipe s as" "\<not> Q (ctxs s tailp)" "\<And>c. Q c \<longleftrightarrow> R (cx_name c, cx_handler c)"
  shows "\<exists>s' bs. remove_if Q s = (Ok (), s') \<and> wf_pipe s' bs \<and> entries s' bs = drop_first R (entries s as) \<and>
    set bs \<subseteq> set as \<and> tail_name s' = tail_name s \<and> seen s' = seen s \<and>
    (\<forall>a. cx_inbound (ctxs s' a) = cx_inbound (ctxs s a) \<and> cx_outbound (ctxs s' a) = cx_outbound (ctxs s a) \<and>
      cx_handler (ctxs s' a) = cx_handler (ctxs s a))"
proof (cases "\<exists>a\<in>set as. Q (ctxs s a)")
  case False
  then have "found (\<lambda>a. Q (ctxs s a)) (as @ [tailp]) = 0"
    using assms(2) wf_pipeD(2) [OF assms(1)] by (subst found_none) auto
  moreover have "drop_first R (entries s as) = entries s as"
    using False assms(3) by (intro drop_first_none) (auto simp: entries_def)
  ultimately show ?thesis using assms(1) by (auto simp: remove_if_def prog_simps context0_run [OF assms(1)])
next
  case True
  then obtain ys x zs where as: "as = ys @ x # zs" "Q (ctxs s x)" "\<forall>a\<in>set ys. \<not> Q (ctxs s a)"
    using split_list_first_prop [OF True] by blast
  have "found (\<lambda>a. Q (ctxs s a)) (as @ [tailp]) = found (\<lambda>a. Q (ctxs s a)) (x # zs @ [tailp])"
    using found_append [OF as(3)] as(1) by simp
  then have "found (\<lambda>a. Q (ctxs s a)) (as @ [tailp]) = x" using as(2) by (simp add: found_def)
  moreover have "x \<noteq> 0" using wf_pipeD(2) [OF assms(1)] as(1) by auto
  ultimately have "remove_if Q s = remove0 x s" by (simp add: remove_if_def prog_simps context0_run [OF assms(1)])
  moreover have "drop_first R (entries s as) = entries s (ys @ zs)"
    using as assms(3) by (auto simp: entries_def intro!: drop_first_append)
  ultimately show ?thesis using remove0_run [of s ys x zs] assms(1) as(1) by fastforce
qed

lemma remove_handler_run:
  assumes "wf_pipe s as" "h \<noteq> tailp"
  shows "\<exists>s' bs. remove_handler h s = (Ok (), s') \<and> wf_pipe s' bs \<and>
    entries s' bs = drop_first (\<lambda>e. snd e = h) (entries s as) \<and> set bs \<subseteq> set as \<and> tail_name s' = tail_name s \<and>
    seen s' = seen s \<and> (\<forall>a. cx_inbound (ctxs s' a) = cx_inbound (ctxs s a) \<and>
      cx_outbound (ctxs s' a) = cx_outbound (ctxs s a) \<and> cx_handler (ctxs s' a) = cx_handler (ctxs s a))"
  unfolding remove_handler_def
  by (rule remove_if_run [OF assms(1)]) (use wf_pipeD(11) [OF assms(1)] assms(2) in simp_all)

lemma remove_name_run:
  assumes "wf_pipe s as" "n \<noteq> tail_name s"
  shows "\<exists>s' bs. remove_name n s = (Ok (), s') \<and> wf_pipe s' bs \<and>
    entries s' bs = drop_first (\<lambda>e. fst e = n) (entries s as) \<and> set bs \<subseteq> set as \<and> tail_name s' = tail_name s \<and>
    seen s' = seen s \<and> (\<forall>a. cx_inbound (ctxs s' a) = cx_inbound (ctxs s a) \<and>
      cx_outbound (ctxs s' a) = cx_outbound (ctxs s a) \<and> cx_handler (ctxs s' a) = cx_handler (ctxs s a))"
  unfolding remove_name_def
  by (rule remove_if_run [OF assms(1)]) (use assms(2) in \<open>simp_all add: tail_name_def\<close>)

section \<open>The contract: a list of named handlers\<close>

datatype pipe_op = AddLast string nat | RemoveName string | RemoveHandler nat

fun run_op :: "(nat \<Rightarrow> handler_class) \<Rightarrow> pipe_op \<Rightarrow> ('l pipeline, unit) prog" where
  "run_op K (AddLast n h) = addLast K n h"
| "run_op K (RemoveName n) = remove_name n"
| "run_op K (RemoveHandler h) = remove_handler h"

text \<open>
  \<open>spec_step tn op L r L'\<close>: on a pipeline with the entries \<open>L\<close> and a tail of the name \<open>tn\<close>, the
  operation has the outcome \<open>r\<close> and leaves \<open>L'\<close>. A handler without a name gets any fresh one.
\<close>

inductive spec_step :: "string \<Rightarrow> pipe_op \<Rightarrow> (string \<times> nat) list \<Rightarrow> unit outcome \<Rightarrow> (string \<times> nat) list \<Rightarrow> bool"
  for tn where
  duplicate: "n \<noteq> '''' \<Longrightarrow> n \<in> insert tn (fst ` set L) \<Longrightarrow>
    spec_step tn (AddLast n h) L (Throw (RuntimeError ''Duplicate handler name'')) L"
| add: "m \<notin> insert tn (fst ` set L) \<Longrightarrow> n \<noteq> '''' \<longrightarrow> m = n \<Longrightarrow> spec_step tn (AddLast n h) L (Ok ()) (L @ [(m, h)])"
| remove_name: "spec_step tn (RemoveName n) L (Ok ()) (drop_first (\<lambda>e. fst e = n) L)"
| remove_handler: "spec_step tn (RemoveHandler h) L (Ok ()) (drop_first (\<lambda>e. snd e = h) L)"

inductive_cases spec_addE: "spec_step tn (AddLast n h) L r L'"

text \<open>Removing the tail itself is the client's mistake.\<close>

fun legal :: "string \<Rightarrow> pipe_op \<Rightarrow> bool" where
  "legal tn (RemoveName n) = (n \<noteq> tn)"
| "legal tn (RemoveHandler h) = (h \<noteq> tailp)"
| "legal tn _ = True"

definition represents :: "'l pipeline \<Rightarrow> string \<Rightarrow> (string \<times> nat) list \<Rightarrow> bool" where
  "represents s tn L \<longleftrightarrow> tail_name s = tn \<and> (\<exists>as. wf_pipe s as \<and> entries s as = L)"

lemma names_entries: "set (names_of s (as @ [tailp])) = insert (tail_name s) (fst ` set (entries s as))"
  by (simp add: names_of_def entries_def tail_name_def image_image)

lemma run_op_simulates:
  assumes "represents s tn L" "legal tn op"
  shows "\<exists>r s' L'. run_op K op s = (r, s') \<and> spec_step tn op L r L' \<and> represents s' tn L' \<and> seen s' = seen s"
proof -
  obtain as where a: "wf_pipe s as" "entries s as = L" "tail_name s = tn" using assms(1) by (auto simp: represents_def)
  show ?thesis
  proof (cases op)
    case (AddLast n h)
    have nm: "set (names_of s (as @ [tailp])) = insert tn (fst ` set L)" using names_entries [of s as] a by simp
    show ?thesis
    proof (cases "n \<noteq> '''' \<and> n \<in> insert tn (fst ` set L)")
      case True
      then have "addLast K n h s = (Throw (RuntimeError ''Duplicate handler name''), s)"
        using addLast_run [OF a(1), of n K h] unfolding nm by simp
      then show ?thesis using True assms(1) spec_step.duplicate [of n tn L h] by (auto simp: AddLast)
    next
      case False
      then obtain m s' where m: "addLast K n h s = (Ok (), s')" "m \<notin> insert tn (fst ` set L)" "n \<noteq> '''' \<longrightarrow> m = n"
        "wf_pipe s' (as @ [next_ctx s])" "entries s' (as @ [next_ctx s]) = L @ [(m, h)]" "tail_name s' = tn" "seen s' = seen s"
        using addLast_run [OF a(1), of n K h, unfolded nm if_not_P [OF False] a(2,3)] by blast
      then have "represents s' tn (L @ [(m, h)])" by (auto simp: represents_def)
      then show ?thesis using m spec_step.add [OF m(2,3)] by (auto simp: AddLast)
    qed
  next
    case (RemoveName n)
    have "n \<noteq> tail_name s" using assms(2) a(3) RemoveName by simp
    from remove_name_run [OF a(1) this] a show ?thesis
      unfolding RemoveName by (auto simp: represents_def spec_step.simps)
  next
    case (RemoveHandler h)
    have "h \<noteq> tailp" using assms(2) RemoveHandler by simp
    from remove_handler_run [OF a(1) this] a show ?thesis
      unfolding RemoveHandler by (auto simp: represents_def spec_step.simps)
  qed
qed

lemma represents_new: "represents (DefaultChannelPipeline_new hn tn cache l) (tn @ ''#0'') []"
  using wf_new [OF refl, of hn tn cache l] by (auto simp: represents_def)

lemma represents_distinct: "represents s tn L \<Longrightarrow> distinct (map fst L) \<and> tn \<notin> fst ` set L"
  using wf_pipeD(10,12) by (fastforce simp: represents_def entries_def names_of_def tail_name_def comp_def)

fun run_ops :: "(nat \<Rightarrow> handler_class) \<Rightarrow> pipe_op list \<Rightarrow> 'l pipeline \<Rightarrow> 'l pipeline" where
  "run_ops K [] s = s"
| "run_ops K (op # ops) s = run_ops K ops (snd (run_op K op s))"

lemma run_ops_represents:
  "represents s tn L \<Longrightarrow> \<forall>op\<in>set ops. legal tn op \<Longrightarrow> \<exists>L'. represents (run_ops K ops s) tn L'"
proof (induction ops arbitrary: s L)
  case (Cons op ops)
  obtain r s' L' where "run_op K op s = (r, s')" "represents s' tn L'"
    using run_op_simulates [OF Cons.prems(1), of op K] Cons.prems(2) by auto
  then show ?case using Cons.IH [of s' L'] Cons.prems(2) by simp
qed auto

lemma handler_of_found:
  assumes "wf_pipe s as" "\<not> Q (ctxs s tailp)"
  shows "bindp (context0 Q) handler_of s =
    (Ok (case find (\<lambda>a. Q (ctxs s a)) as of None \<Rightarrow> 0 | Some a \<Rightarrow> cx_handler (ctxs s a)), s)"
proof (cases "\<exists>a\<in>set as. Q (ctxs s a)")
  case False
  then have "found (\<lambda>a. Q (ctxs s a)) (as @ [tailp]) = 0" "find (\<lambda>a. Q (ctxs s a)) as = None"
    using assms(2) wf_pipeD(2) [OF assms(1)] by (auto simp: found_none find_None_iff)
  then show ?thesis by (simp add: prog_simps context0_run [OF assms(1)] handler_of_def)
next
  case True
  then obtain x where x: "find (\<lambda>a. Q (ctxs s a)) as = Some x" "x \<in> set as"
    by (metis find_None_iff find_Some_iff not_Some_eq nth_mem)
  have "find (\<lambda>a. Q (ctxs s a)) (as @ [tailp]) = Some x"
    using x(1) by (induction as) (auto split: if_splits)
  then show ?thesis
    using x wf_pipeD(2,5) [OF assms(1)]
    by (auto simp: prog_simps context0_run [OF assms(1)] handler_of_def found_def get_ctx_def)
qed

lemma last_prev:
  assumes "wf_pipe s as"
  shows "cx_prev (ctxs s tailp) = last (headp # as)"
proof -
  obtain L p where ha: "headp # as = L @ [p]" by (metis append_butlast_last_id list.discI)
  have "headp # as @ [tailp] = L @ p # tailp # []" using ha by (metis append.assoc append_Cons append_Nil)
  then have "prv_of s tailp = p" using wf_pipeD(6) [OF assms] by (metis linked_neighbours)
  then show ?thesis unfolding ha by simp
qed

lemma firstContext_run:
  assumes "wf_pipe s as"
  shows "firstContext s = (Ok (if as = [] then 0 else hd as), s)"
  using wf_pipeD(3-5) [OF assms] hd_next [OF assms]
  by (cases as) (auto simp: firstContext_def prog_simps get_ctx_def)

lemma lastContext_run:
  assumes "wf_pipe s as"
  shows "lastContext s = (Ok (if as = [] then 0 else last as), s)"
proof -
  have "as \<noteq> [] \<Longrightarrow> last as \<noteq> headp" using wf_pipeD(3) [OF assms] last_in_set [of as] by metis
  then show ?thesis using wf_pipeD(5) [OF assms] last_prev [OF assms]
    by (simp add: lastContext_def prog_simps get_ctx_def)
qed

lemma delete_from_run:
  assumes "linked N P (as @ [tailp])" "\<forall>a\<in>set as. cx_next (ctxs s a) = N a" "distinct as" "0 \<notin> set as"
    "tailp \<notin> set as" "set as \<subseteq> live s"
  shows "delete_from s (hd (as @ [tailp])) = Some (Ok (), s\<lparr>live := live s - set as\<rparr>)"
  using assms
proof (induction as arbitrary: s)
  case Nil
  then show ?case by (simp add: delete_from.simps)
next
  case (Cons a as)
  let ?s = "s\<lparr>live := live s - {a}\<rparr>"
  have "delete_from ?s (hd (as @ [tailp])) = Some (Ok (), ?s\<lparr>live := live ?s - set as\<rparr>)"
    by (rule Cons.IH) (use Cons.prems linked_ConsD in auto)
  moreover have "cx_next (ctxs s a) = hd (as @ [tailp])" using Cons.prems(1,2) by (cases as) auto
  ultimately show ?case using Cons.prems by (subst delete_from.simps) (auto simp: Diff_insert2 [symmetric])
qed

lemma delete_run:
  assumes "wf_pipe s as"
  shows "\<exists>s'. DefaultChannelPipeline_delete s = (Ok (), s') \<and> live s' = {}"
proof -
  note w = wf_pipeD [OF assms]
  have "delete_from s (cx_next (ctxs s headp)) = Some (Ok (), s\<lparr>live := live s - set as\<rparr>)"
    unfolding hd_next [OF assms] by (rule delete_from_run [OF linked_ConsD [OF w(6)]]) (use w in auto)
  then show ?thesis using w(3-5) by (auto simp: DefaultChannelPipeline_delete_def prog_simps get_ctx_def seqp_def bindp_def)
qed

section \<open>Properties\<close>

text \<open>
  C29: the pipeline is a list of named handlers. Whatever legal operation comes next, it ends without
  touching a deleted context, its outcome and the list it leaves are those of the contract, and a
  handler added without a name gets one that no other has.
\<close>

theorem pipeline_simulates_list:
  assumes "represents s tn L" "legal tn op"
  shows "\<exists>r s' L'. run_op K op s = (r, s') \<and> spec_step tn op L r L' \<and> represents s' tn L'"
  using run_op_simulates [OF assms] by blast

abbreviation any_class :: "nat \<Rightarrow> handler_class" where
  "any_class \<equiv> \<lambda>_. \<lparr>type_name = ''D'', is_inbound = True, is_outbound = False\<rparr>"

theorem pipeline_simulates_list_witness:
  "\<exists>r s' L'. run_op any_class (AddLast ''decoder'' 7) (DefaultChannelPipeline_new ''H'' ''T'' Map.empty ()) = (r, s') \<and>
     spec_step ''T#0'' (AddLast ''decoder'' 7) [] r L' \<and> represents s' ''T#0'' L'"
  using pipeline_simulates_list [OF represents_new, of "''T''" "AddLast ''decoder'' 7"] by simp

text \<open>
  C30: after any sequence of legal operations, some of which may have thrown, all names are distinct,
  the lookups find what the list says, and the destructor deletes every context exactly once.
\<close>

theorem pipeline_history:
  assumes "\<forall>op\<in>set ops. legal (tn @ ''#0'') op" "s = run_ops K ops (DefaultChannelPipeline_new hn tn cache l)"
  shows "\<exists>L. represents s (tn @ ''#0'') L \<and> distinct (map fst L) \<and>
    (\<forall>n. n \<noteq> tn @ ''#0'' \<longrightarrow> get_handler n s = (Ok (case map_of L n of None \<Rightarrow> 0 | Some h \<Rightarrow> h), s)) \<and>
    first_handler s = (Ok (if L = [] then 0 else snd (hd L)), s) \<and>
    last_handler s = (Ok (if L = [] then 0 else snd (last L)), s) \<and>
    (\<exists>s'. DefaultChannelPipeline_delete s = (Ok (), s') \<and> live s' = {})"
proof -
  obtain L where L: "represents s (tn @ ''#0'') L"
    using run_ops_represents [OF represents_new [of hn tn cache l] assms(1), of K] unfolding assms(2) by blast
  then obtain as where a: "wf_pipe s as" "entries s as = L" "tail_name s = tn @ ''#0''" by (auto simp: represents_def)
  have g: "get_handler n s = (Ok (case map_of L n of None \<Rightarrow> 0 | Some h \<Rightarrow> h), s)" if n: "n \<noteq> tn @ ''#0''" for n
  proof -
    have "(case find (\<lambda>a. by_name n (ctxs s a)) bs of None \<Rightarrow> 0 | Some a \<Rightarrow> cx_handler (ctxs s a)) =
      (case map_of (entries s bs) n of None \<Rightarrow> 0 | Some h \<Rightarrow> h)" for bs
      by (induction bs) (auto simp: entries_def)
    moreover have "\<not> by_name n (ctxs s tailp)" using n a(3) by (auto simp: tail_name_def)
    ultimately show ?thesis using handler_of_found [OF a(1)] a(2) by (simp add: get_handler_def)
  qed
  have "hd as \<in> live s \<and> last as \<in> live s" if "as \<noteq> []" using wf_pipeD(5) [OF a(1)] that by simp
  moreover have "L \<noteq> [] \<Longrightarrow> snd (hd L) = cx_handler (ctxs s (hd as)) \<and> snd (last L) = cx_handler (ctxs s (last as))"
    using a(2) by (auto simp: entries_def hd_map last_map)
  moreover have "L = [] \<longleftrightarrow> as = []" using a(2) by (auto simp: entries_def)
  moreover have "hd as \<noteq> 0 \<and> last as \<noteq> 0" if "as \<noteq> []"
    using wf_pipeD(2) [OF a(1)] hd_in_set [OF that] last_in_set [OF that] by (intro conjI notI) simp_all
  ultimately have "first_handler s = (Ok (if L = [] then 0 else snd (hd L)), s)"
    "last_handler s = (Ok (if L = [] then 0 else snd (last L)), s)"
    by (cases "as = []"; simp add: first_handler_def last_handler_def prog_simps firstContext_run [OF a(1)]
        lastContext_run [OF a(1)] handler_of_def get_ctx_def)+
  then show ?thesis using L represents_distinct [OF L] g delete_run [OF a(1)] by blast
qed

theorem pipeline_history_witness:
  "\<exists>L. represents (run_ops any_class [AddLast ''a'' 7, AddLast '''' 8, RemoveName ''a'']
         (DefaultChannelPipeline_new ''H'' ''T'' Map.empty ())) ''T#0'' L \<and> distinct (map fst L)"
  using pipeline_history [of "[AddLast ''a'' 7, AddLast '''' 8, RemoveName ''a'']" "''T''" _ any_class "''H''" Map.empty "()"]
  by auto

text \<open>
  the lookup of a name also finds the tail, and nothing keeps \<open>remove\<close> from taking it out: the
  code then writes through the tail's null \<open>next\<close>.
\<close>

theorem remove_tail_undefined:
  assumes "represents s tn L"
  shows "fst (remove_name tn s) = Undef"
proof -
  obtain as where a: "wf_pipe s as" "tail_name s = tn" using assms by (auto simp: represents_def)
  have "tn \<notin> set (names_of s as)" using wf_pipeD(12) [OF a(1)] a(2) by (simp add: tail_name_def)
  then have "\<forall>a\<in>set as. \<not> by_name tn (ctxs s a)" by (auto simp: names_of_def)
  then have "found (\<lambda>a. by_name tn (ctxs s a)) (as @ [tailp]) = tailp"
    using found_append a(2) by (simp add: found_def tail_name_def)
  moreover have "cx_next (ctxs s tailp) = 0" "tailp \<in> live s" "0 \<notin> live s" "cx_prev (ctxs s tailp) \<in> live s"
    using wf_pipeD [OF a(1)] last_prev [OF a(1)] last_in_set [of "headp # as"] by auto
  ultimately show ?thesis
    by (simp add: remove_name_def remove_if_def prog_simps context0_run [OF a(1)] remove0_def get_ctx_def put_ctx_def)
qed

theorem remove_tail_undefined_witness:
  "fst (remove_name ''T#0'' (DefaultChannelPipeline_new ''H'' ''T'' Map.empty ())) = Undef"
  using remove_tail_undefined [OF represents_new, of "''T''" "''H''" Map.empty "()"] by simp

end
