(* ===== verification/Channel.thy ===== *)
theory Channel
  imports Pipeline
begin

text \<open>
  How events run through a pipeline: \<open>AbstractChannelHandlerContext\<close>
  (src/common/net/channel/AbstractChannelHandlerContext.hpp), the head and tail contexts of
  \<open>DefaultChannelPipeline\<close>, the two handler adapters and \<open>ChannelInitializer\<close>.
\<close>

section \<open>Events\<close>

text \<open>A message of an inbound event is the identity of its buffer; an outbound event carries a string.\<close>

datatype event = NullEvent | InboundEvent nat | OutboundEvent "string option" | OtherEvent int

fun eventId :: "event \<Rightarrow> int" where
  "eventId NullEvent = 0"
| "eventId (InboundEvent m) = 1"
| "eventId (OutboundEvent m) = 2"
| "eventId (OtherEvent k) = k"

text \<open>The callbacks of \<open>ChannelInboundHandler\<close> and of \<open>ChannelOutboundHandler\<close>. A number stands for
  the callback of the caller; 0 is the empty function.\<close>

datatype signal = Registered | Unregistered | Active | Inactive | Read event | Caught exn

datatype request = WriteEvent event nat | CloseRequest nat

text \<open>What the handlers, the connection and the callbacks see, in order.\<close>

datatype notice =
    Saw nat signal
  | Asked nat request
  | ReleasedMessage nat
  | SentMessage string nat
  | ConnectionClosed
  | CalledBack nat bool

text \<open>
  A handler's method, written by the user of the library, is a list of the things it does with its
  context and the pipeline: \<open>Try A B C\<close> runs \<open>A\<close>, then \<open>B\<close> if \<open>A\<close> throws and \<open>C\<close> if not.
\<close>

datatype action =
    Fire signal
  | Ask request
  | FirePipeline signal
  | AskPipeline request
  | Change pipe_op
  | Raise exn
  | Try "action list" "action list" "action list"

text \<open>
  The code behind the pipeline: the handlers, which decide on all that was seen before, and the
  connection, whose \<open>close\<close> and \<open>sendMessage\<close> may throw.
\<close>

record env =
  classes :: "nat \<Rightarrow> handler_class"
  on_signal :: "notice list \<Rightarrow> nat \<Rightarrow> signal \<Rightarrow> action list"
  on_request :: "notice list \<Rightarrow> nat \<Rightarrow> request \<Rightarrow> action list"
  conn_close :: "notice list \<Rightarrow> exn option"
  conn_send :: "notice list \<Rightarrow> string \<Rightarrow> exn option"

type_synonym channel = "notice list pipeline"

definition undefp :: "('s, 'a) prog" where
  "undefp s = (Undef, s)"

definition try_catch :: "('s, 'a) prog \<Rightarrow> (exn \<Rightarrow> ('s, 'a) prog) \<Rightarrow> ('s, 'a) prog" where
  "try_catch m h s = (case m s of (Throw e, s') \<Rightarrow> h e s' | r \<Rightarrow> r)"

definition tell :: "notice \<Rightarrow> (channel, unit) prog" where
  "tell x = modify (seen_update (\<lambda>l. l @ [x]))"

section \<open>The sentinels\<close>

text \<open>Calling an empty \<open>boost::function\<close> throws.\<close>

definition run_callback :: "nat \<Rightarrow> bool \<Rightarrow> (channel, unit) prog" where
  "run_callback cb b = (if cb = 0 then raise (RuntimeError ''call to empty boost::function'') else tell (CalledBack cb b))"

definition connection_close :: "env \<Rightarrow> (channel, unit) prog" where
  "connection_close E = seqp (tell ConnectionClosed)
     (bindp (asks seen) (\<lambda>l. case conn_close E l of None \<Rightarrow> ret () | Some x \<Rightarrow> raise x))"

definition connection_send :: "env \<Rightarrow> string \<Rightarrow> nat \<Rightarrow> (channel, unit) prog" where
  "connection_send E msg cb = seqp (tell (SentMessage msg cb))
     (bindp (asks seen) (\<lambda>l. case conn_send E l msg of None \<Rightarrow> ret () | Some x \<Rightarrow> raise x))"

definition head_write :: "env \<Rightarrow> event \<Rightarrow> nat \<Rightarrow> (channel, unit) prog" where
  "head_write E e cb =
     (case e of
        NullEvent \<Rightarrow> if cb \<noteq> 0 then run_callback cb False else ret ()
      | OutboundEvent (Some msg) \<Rightarrow> connection_send E msg cb
      | _ \<Rightarrow> ret ())"

definition head_close :: "env \<Rightarrow> nat \<Rightarrow> (channel, unit) prog" where
  "head_close E cb =
     try_catch (seqp (connection_close E) (run_callback cb True)) (\<lambda>_. run_callback cb False)"

text \<open>The tail ends everything; it releases the buffer of a message nobody took.\<close>

definition tail_signal :: "signal \<Rightarrow> (channel, unit) prog" where
  "tail_signal sig =
     (case sig of
        Read e \<Rightarrow> (case e of InboundEvent m \<Rightarrow> tell (ReleasedMessage m)
                    | NullEvent \<Rightarrow> undefp | _ \<Rightarrow> if eventId e = 1 then undefp else ret ())
      | _ \<Rightarrow> ret ())"

section \<open>The neighbours\<close>

partial_function (option) find_inbound :: "'l pipeline \<Rightarrow> nat \<Rightarrow> nat outcome option" where
  "find_inbound s a =
     (if a \<notin> live s then Some Undef
      else let n = cx_next (ctxs s a) in
        if n = 0 then Some (Ok 0)
        else if n \<notin> live s then Some Undef
        else if cx_inbound (ctxs s n) then Some (Ok n)
        else find_inbound s n)"

partial_function (option) find_outbound :: "'l pipeline \<Rightarrow> nat \<Rightarrow> nat outcome option" where
  "find_outbound s a =
     (if a \<notin> live s then Some Undef
      else let n = cx_prev (ctxs s a) in
        if n = 0 then Some (Ok 0)
        else if n \<notin> live s then Some Undef
        else if cx_outbound (ctxs s n) then Some (Ok n)
        else find_outbound s n)"

definition findContextInbound :: "nat \<Rightarrow> ('l pipeline, nat) prog" where
  "findContextInbound a = lift_outcome (\<lambda>s. case find_inbound s a of None \<Rightarrow> Hang | Some r \<Rightarrow> r)"

definition findContextOutbound :: "nat \<Rightarrow> ('l pipeline, nat) prog" where
  "findContextOutbound a = lift_outcome (\<lambda>s. case find_outbound s a of None \<Rightarrow> Hang | Some r \<Rightarrow> r)"

section \<open>Calls\<close>

text \<open>A call of a context; \<open>rec\<close> is how the calls inside it run.\<close>

datatype task = Signal nat signal | Request nat request

text \<open>
  \<open>ctx->fireX\<close>: the exception goes to the next context whatever it is, everything else to the next
  inbound one; only \<open>fireChannelRead\<close> does not test the pointer.
\<close>

definition fire :: "(task \<Rightarrow> (channel, unit) prog) \<Rightarrow> nat \<Rightarrow> signal \<Rightarrow> (channel, unit) prog" where
  "fire rec a sig =
     (case sig of
        Caught x \<Rightarrow> bindp (get_ctx a) (\<lambda>c. if cx_next c \<noteq> 0 then rec (Signal (cx_next c) sig) else ret ())
      | Read e \<Rightarrow> bindp (findContextInbound a) (\<lambda>n. if n = 0 then undefp else rec (Signal n sig))
      | _ \<Rightarrow> bindp (findContextInbound a) (\<lambda>n. if n \<noteq> 0 then rec (Signal n sig) else ret ()))"

definition ask :: "(task \<Rightarrow> (channel, unit) prog) \<Rightarrow> nat \<Rightarrow> request \<Rightarrow> (channel, unit) prog" where
  "ask rec a r = bindp (findContextOutbound a) (\<lambda>n. if n \<noteq> 0 then rec (Request n r) else ret ())"

text \<open>
  The calls on the pipeline: \<open>fireExceptionCaught\<close> does nothing, and \<open>fireChannelUnregistered\<close>
  runs off its end without the reference it promises to return.
\<close>

definition pipeline_fire :: "(task \<Rightarrow> (channel, unit) prog) \<Rightarrow> signal \<Rightarrow> (channel, unit) prog" where
  "pipeline_fire rec sig =
     (case sig of
        Caught x \<Rightarrow> ret ()
      | Unregistered \<Rightarrow> seqp (rec (Signal headp sig)) undefp
      | _ \<Rightarrow> rec (Signal headp sig))"

definition pipeline_ask :: "(task \<Rightarrow> (channel, unit) prog) \<Rightarrow> request \<Rightarrow> (channel, unit) prog" where
  "pipeline_ask rec r = ask rec tailp r"

fun do_action :: "env \<Rightarrow> (task \<Rightarrow> (channel, unit) prog) \<Rightarrow> nat \<Rightarrow> action \<Rightarrow> (channel, unit) prog"
  and do_actions :: "env \<Rightarrow> (task \<Rightarrow> (channel, unit) prog) \<Rightarrow> nat \<Rightarrow> action list \<Rightarrow> (channel, unit) prog" where
  "do_action E rec a (Fire sig) = fire rec a sig"
| "do_action E rec a (Ask r) = ask rec a r"
| "do_action E rec a (FirePipeline sig) = pipeline_fire rec sig"
| "do_action E rec a (AskPipeline r) = pipeline_ask rec r"
| "do_action E rec a (Change op) = run_op (classes E) op"
| "do_action E rec a (Raise x) = raise x"
| "do_action E rec a (Try A B C) = (\<lambda>s. case do_actions E rec a A s of
     (Ok _, s') \<Rightarrow> do_actions E rec a C s'
   | (Throw _, s') \<Rightarrow> do_actions E rec a B s'
   | r \<Rightarrow> r)"
| "do_actions E rec a [] = ret ()"
| "do_actions E rec a (x # xs) = seqp (do_action E rec a x) (do_actions E rec a xs)"

text \<open>
  \<open>invokeX\<close> of a context. The flag stored by the constructor is the result of the dynamic cast the
  code repeats here. Only \<open>invokeChannelRead\<close> catches what the handler throws.
\<close>

definition inbound_call :: "env \<Rightarrow> (task \<Rightarrow> (channel, unit) prog) \<Rightarrow> nat \<Rightarrow> nat \<Rightarrow> signal \<Rightarrow> (channel, unit) prog" where
  "inbound_call E rec a h sig = seqp (tell (Saw h sig))
     (if a = headp then fire rec a sig
      else if a = tailp then tail_signal sig
      else bindp (asks seen) (\<lambda>l. do_actions E rec a (on_signal E l h sig)))"

definition invoke_signal :: "env \<Rightarrow> (task \<Rightarrow> (channel, unit) prog) \<Rightarrow> nat \<Rightarrow> signal \<Rightarrow> (channel, unit) prog" where
  "invoke_signal E rec a sig = bindp (get_ctx a) (\<lambda>c.
     let call = (if cx_inbound c then inbound_call E rec a (cx_handler c) sig else ret ())
     in case sig of Read e \<Rightarrow> try_catch call (\<lambda>x. rec (Signal a (Caught x))) | _ \<Rightarrow> call)"

definition outbound_call :: "env \<Rightarrow> (task \<Rightarrow> (channel, unit) prog) \<Rightarrow> nat \<Rightarrow> nat \<Rightarrow> request \<Rightarrow> (channel, unit) prog" where
  "outbound_call E rec a h r = seqp (tell (Asked h r))
     (if a = headp then (case r of WriteEvent e cb \<Rightarrow> head_write E e cb | CloseRequest cb \<Rightarrow> head_close E cb)
      else bindp (asks seen) (\<lambda>l. do_actions E rec a (on_request E l h r)))"

definition invoke_request :: "env \<Rightarrow> (task \<Rightarrow> (channel, unit) prog) \<Rightarrow> nat \<Rightarrow> request \<Rightarrow> (channel, unit) prog" where
  "invoke_request E rec a r = bindp (get_ctx a) (\<lambda>c.
     if cx_outbound c then outbound_call E rec a (cx_handler c) r else ret ())"

text \<open>Calls nest on a stack of \<open>n\<close> frames; using it up is undefined.\<close>

primrec perform :: "env \<Rightarrow> nat \<Rightarrow> task \<Rightarrow> (channel, unit) prog" where
  "perform E 0 = (\<lambda>t. undefp)"
| "perform E (Suc n) = (\<lambda>t. case t of
     Signal a sig \<Rightarrow> invoke_signal E (perform E n) a sig
   | Request a r \<Rightarrow> invoke_request E (perform E n) a r)"

section \<open>Ready-made handlers\<close>

text \<open>What the adapters do with a callback that the derived class does not override.\<close>

definition ChannelInboundHandlerAdapter :: "signal \<Rightarrow> action list" where
  "ChannelInboundHandlerAdapter sig = [Fire sig]"

definition ChannelOutboundHandlerAdapter :: "request \<Rightarrow> action list" where
  "ChannelOutboundHandlerAdapter r = [Ask r]"

text \<open>
  \<open>ChannelInitializer\<close>: \<open>h\<close> is the handler itself, \<open>init\<close> the overridden \<open>initChannel\<close>, \<open>cb\<close> its
  empty close callback.
\<close>

definition ChannelInitializer :: "nat \<Rightarrow> action list \<Rightarrow> nat \<Rightarrow> signal \<Rightarrow> action list" where
  "ChannelInitializer h init cb sig =
     (case sig of
        Registered \<Rightarrow> [Try init [Ask (CloseRequest cb), Fire Registered]
                              [Change (RemoveHandler h), FirePipeline Registered]]
      | Caught x \<Rightarrow> [Ask (CloseRequest cb)]
      | _ \<Rightarrow> ChannelInboundHandlerAdapter sig)"

section \<open>Delivery\<close>

definition inbound_handlers :: "'l pipeline \<Rightarrow> nat list \<Rightarrow> nat list" where
  "inbound_handlers s as = map (\<lambda>a. cx_handler (ctxs s a)) (filter (\<lambda>a. cx_inbound (ctxs s a)) as)"

definition outbound_handlers :: "'l pipeline \<Rightarrow> nat list \<Rightarrow> nat list" where
  "outbound_handlers s as = map (\<lambda>a. cx_handler (ctxs s a)) (filter (\<lambda>a. cx_outbound (ctxs s a)) as)"

text \<open>A chain of handlers up to the first that does not pass on.\<close>

fun reached :: "('a \<Rightarrow> bool) \<Rightarrow> 'a list \<Rightarrow> 'a list" where
  "reached fwd [] = []"
| "reached fwd (h # hs) = h # (if fwd h then reached fwd hs else [])"

lemma reached_all: "\<forall>h\<in>set hs. fwd h \<Longrightarrow> reached fwd hs = hs"
  by (induction hs) auto

definition sentinels :: "'l pipeline \<Rightarrow> bool" where
  "sentinels s \<longleftrightarrow> cx_inbound (ctxs s tailp) \<and> cx_inbound (ctxs s headp) \<and> cx_outbound (ctxs s headp) \<and>
     cx_handler (ctxs s headp) = headp"

text \<open>An ordinary event: not an exception, and a message is an object of the class its number says.\<close>

fun ordinary :: "signal \<Rightarrow> bool" where
  "ordinary (Caught x) = False"
| "ordinary (Read e) = (e \<noteq> NullEvent \<and> e \<noteq> OtherEvent 1)"
| "ordinary _ = True"

fun tail_notices :: "signal \<Rightarrow> notice list" where
  "tail_notices (Read (InboundEvent m)) = [Saw tailp (Read (InboundEvent m)), ReleasedMessage m]"
| "tail_notices sig = [Saw tailp sig]"

lemma tell_run: "tell x s = (Ok (), s\<lparr>seen := seen s @ [x]\<rparr>)"
  by (simp add: tell_def modify_run)

lemma find_inbound_next:
  assumes "a \<in> live s" "cx_next (ctxs s a) = b" "b \<noteq> 0" "b \<in> live s"
  shows "findContextInbound a s = (if cx_inbound (ctxs s b) then (Ok b, s) else findContextInbound b s)"
  using assms by (simp add: findContextInbound_def lift_outcome_run find_inbound.simps [of s a])

lemma find_outbound_prev:
  assumes "a \<in> live s" "cx_prev (ctxs s a) = b" "b \<noteq> 0" "b \<in> live s"
  shows "findContextOutbound a s = (if cx_outbound (ctxs s b) then (Ok b, s) else findContextOutbound b s)"
  using assms by (simp add: findContextOutbound_def lift_outcome_run find_outbound.simps [of s a])

lemma fire_next:
  assumes "a \<in> live s" "cx_next (ctxs s a) = b" "b \<noteq> 0" "b \<in> live s" "ordinary sig"
  shows "fire rec a sig s = (if cx_inbound (ctxs s b) then rec (Signal b sig) s else fire rec b sig s)"
  using find_inbound_next [OF assms(1-4)] assms(3,5)
  by (cases sig) (auto simp: fire_def bindp_def)

lemma invoke_ok:
  assumes "a \<in> live s" "cx_inbound (ctxs s a)" "inbound_call E rec a (cx_handler (ctxs s a)) sig s = (Ok (), s')"
  shows "invoke_signal E rec a sig s = (Ok (), s')"
  using assms by (cases sig) (simp_all add: invoke_signal_def prog_simps get_ctx_run Let_def try_catch_def)

lemma invoke_throw:
  assumes "a \<in> live s" "cx_inbound (ctxs s a)" "inbound_call E rec a (cx_handler (ctxs s a)) (Read e) s = (Throw x, s')"
  shows "invoke_signal E rec a (Read e) s = rec (Signal a (Caught x)) s'"
  using assms by (simp add: invoke_signal_def bindp_Ok [OF get_ctx_run] Let_def try_catch_def)

lemma tail_run: "ordinary sig \<Longrightarrow> tail_signal sig (s\<lparr>seen := l @ [Saw tailp sig]\<rparr>) = (Ok (), s\<lparr>seen := l @ tail_notices sig\<rparr>)"
  by (cases sig rule: tail_notices.cases) (auto simp: tail_signal_def tell_run prog_simps split: event.splits)

lemma fire_delivers:
  assumes "ordinary sig"
    and "linked (nxt_of s) P (a # bs @ [tailp])" "set (a # bs @ [tailp]) \<subseteq> live s" "{0, headp, tailp} \<inter> set bs = {}"
    and "cx_inbound (ctxs s tailp)" "cx_handler (ctxs s tailp) = tailp" "length bs < n"
    and "\<forall>l. \<forall>h\<in>set (inbound_handlers s bs). on_signal E l h sig = (if fwd h then [Fire sig] else [])"
  shows "fire (perform E n) a sig s = (Ok (), s\<lparr>seen := seen s @
     map (\<lambda>h. Saw h sig) (reached fwd (inbound_handlers s bs)) @
     (if \<forall>h\<in>set (inbound_handlers s bs). fwd h then tail_notices sig else [])\<rparr>)"
  using assms(2-8)
proof (induction bs arbitrary: a n s)
  case Nil
  then obtain m where n: "n = Suc m" by (cases n) auto
  have "fire (perform E n) a sig s = perform E n (Signal tailp sig) s"
    using fire_next [of a s tailp sig "perform E n"] Nil assms(1) by simp
  moreover have "inbound_call E (perform E m) tailp tailp sig s = (Ok (), s\<lparr>seen := seen s @ tail_notices sig\<rparr>)"
    using tail_run [OF assms(1), of "seen s" s] by (simp add: inbound_call_def seqp_def bindp_def tell_run)
  ultimately show ?case using Nil.prems n invoke_ok [of tailp s E "perform E m" sig]
    by (simp add: inbound_handlers_def)
next
  case (Cons b bs)
  have b: "a \<in> live s" "cx_next (ctxs s a) = b" "b \<noteq> 0" "b \<in> live s" "b \<noteq> headp" "b \<noteq> tailp"
    using Cons.prems by auto
  have l: "linked (nxt_of s) P (b # bs @ [tailp])" using Cons.prems(1) by simp
  show ?case
  proof (cases "cx_inbound (ctxs s b)")
    case False
    then have "fire (perform E n) a sig s = fire (perform E n) b sig s"
      using fire_next [OF b(1-4) assms(1)] by simp
    moreover have "inbound_handlers s (b # bs) = inbound_handlers s bs" using False by (simp add: inbound_handlers_def)
    ultimately show ?thesis using Cons.IH [OF l, of n] Cons.prems by simp
  next
    case True
    let ?h = "cx_handler (ctxs s b)" and ?s = "s\<lparr>seen := seen s @ [Saw (cx_handler (ctxs s b)) sig]\<rparr>"
    obtain m where n: "n = Suc m" using Cons.prems(6) by (cases n) auto
    have hs: "inbound_handlers s (b # bs) = ?h # inbound_handlers s bs" "inbound_handlers ?s bs = inbound_handlers s bs"
      using True by (simp_all add: inbound_handlers_def)
    have "fire (perform E m) b sig ?s = (Ok (), ?s\<lparr>seen := seen ?s @
      map (\<lambda>h. Saw h sig) (reached fwd (inbound_handlers ?s bs)) @
      (if \<forall>h\<in>set (inbound_handlers ?s bs). fwd h then tail_notices sig else [])\<rparr>)"
      by (rule Cons.IH) (use Cons.prems n l hs in auto)
    moreover have "on_signal E k ?h sig = (if fwd ?h then [Fire sig] else [])" for k
      using Cons.prems(7) hs(1) by simp
    ultimately have "inbound_call E (perform E m) b ?h sig s = (Ok (), s\<lparr>seen := seen s @
      map (\<lambda>h. Saw h sig) (reached fwd (inbound_handlers s (b # bs))) @
      (if \<forall>h\<in>set (inbound_handlers s (b # bs)). fwd h then tail_notices sig else [])\<rparr>)"
      using b(5,6) by (simp add: inbound_call_def seqp_def bindp_def tell_run asks_run hs ret_run)
    then show ?thesis
      using fire_next [OF b(1-4) assms(1)] True n invoke_ok [OF b(4) True] by simp
  qed
qed

lemma pipeline_delivers:
  assumes "ordinary sig" "sig \<noteq> Unregistered" "wf_pipe s as" "sentinels s" "length as + 1 < n"
    and "\<forall>l. \<forall>h\<in>set (inbound_handlers s as). on_signal E l h sig = (if fwd h then [Fire sig] else [])"
  shows "pipeline_fire (perform E n) sig s = (Ok (), s\<lparr>seen := seen s @ [Saw headp sig] @
     map (\<lambda>h. Saw h sig) (reached fwd (inbound_handlers s as)) @
     (if \<forall>h\<in>set (inbound_handlers s as). fwd h then tail_notices sig else [])\<rparr>)"
proof -
  note w = wf_pipeD [OF assms(3)]
  obtain m where n: "n = Suc m" "length as < m" using assms(5) by (cases n) auto
  let ?s = "s\<lparr>seen := seen s @ [Saw headp sig]\<rparr>"
  have "inbound_handlers ?s as = inbound_handlers s as" by (simp add: inbound_handlers_def)
  then have "fire (perform E m) headp sig ?s = (Ok (), s\<lparr>seen := seen s @ [Saw headp sig] @
     map (\<lambda>h. Saw h sig) (reached fwd (inbound_handlers s as)) @
     (if \<forall>h\<in>set (inbound_handlers s as). fwd h then tail_notices sig else [])\<rparr>)"
    using fire_delivers [OF assms(1), of ?s "prv_of s" headp as m] w assms(4,6) n(2) by (simp add: sentinels_def)
  then have "inbound_call E (perform E m) headp headp sig s = (Ok (), s\<lparr>seen := seen s @ [Saw headp sig] @
     map (\<lambda>h. Saw h sig) (reached fwd (inbound_handlers s as)) @
     (if \<forall>h\<in>set (inbound_handlers s as). fwd h then tail_notices sig else [])\<rparr>)"
    by (simp add: inbound_call_def seqp_def bindp_def tell_run)
  then have "perform E n (Signal headp sig) s = (Ok (), s\<lparr>seen := seen s @ [Saw headp sig] @
     map (\<lambda>h. Saw h sig) (reached fwd (inbound_handlers s as)) @
     (if \<forall>h\<in>set (inbound_handlers s as). fwd h then tail_notices sig else [])\<rparr>)"
    using invoke_ok [of headp s E "perform E m" sig] w(5) assms(4) n(1) by (simp add: sentinels_def)
  then show ?thesis using assms(1,2) by (cases sig) (simp_all add: pipeline_fire_def)
qed

text \<open>A request runs the other way, from the tail to the head, which hands it to the connection.\<close>

definition head_request :: "env \<Rightarrow> request \<Rightarrow> (channel, unit) prog" where
  "head_request E r = (case r of WriteEvent e cb \<Rightarrow> head_write E e cb | CloseRequest cb \<Rightarrow> head_close E cb)"

lemma ask_prev:
  assumes "a \<in> live s" "cx_prev (ctxs s a) = b" "b \<noteq> 0" "b \<in> live s"
  shows "ask rec a r s = (if cx_outbound (ctxs s b) then rec (Request b r) s else ask rec b r s)"
  using find_outbound_prev [OF assms] assms(3) by (auto simp: ask_def bindp_def)

lemma request_ok:
  assumes "a \<in> live s" "cx_outbound (ctxs s a)"
  shows "perform E (Suc n) (Request a r) s = outbound_call E (perform E n) a (cx_handler (ctxs s a)) r s"
  using assms by (simp add: invoke_request_def prog_simps get_ctx_run)

lemma ask_delivers:
  assumes "linked N (prv_of s) (headp # bs @ [a])" "set (headp # bs @ [a]) \<subseteq> live s" "{0, headp, tailp} \<inter> set bs = {}"
    and "cx_outbound (ctxs s headp)" "cx_handler (ctxs s headp) = headp" "length bs < n"
    and "\<forall>l. \<forall>h\<in>set (outbound_handlers s bs). on_request E l h r = (if fwd h then [Ask r] else [])"
  shows "ask (perform E n) a r s =
    (let s' = s\<lparr>seen := seen s @ map (\<lambda>h. Asked h r) (reached fwd (rev (outbound_handlers s bs)))\<rparr> in
     if \<forall>h\<in>set (outbound_handlers s bs). fwd h then head_request E r (s'\<lparr>seen := seen s' @ [Asked headp r]\<rparr>)
     else (Ok (), s'))"
  using assms
proof (induction bs arbitrary: a n s rule: rev_induct)
  case Nil
  then obtain m where n: "n = Suc m" by (cases n) auto
  have "ask (perform E n) a r s = perform E n (Request headp r) s"
    using ask_prev [of a s headp "perform E n" r] Nil by simp
  then show ?case using request_ok [of headp s E m r] Nil.prems n
    by (simp add: outbound_call_def seqp_def bindp_def tell_run outbound_handlers_def head_request_def)
next
  case (snoc b bs)
  have b: "a \<in> live s" "cx_prev (ctxs s a) = b" "b \<noteq> 0" "b \<in> live s" "b \<noteq> headp"
    using snoc.prems linked_neighbours [of N "prv_of s" "headp # bs" b a "[]"] by auto
  have l: "linked N (prv_of s) (headp # bs @ [b])"
    using snoc.prems(1) linked_append [of N "prv_of s" "headp # bs" b a "[]"] by simp
  show ?case
  proof (cases "cx_outbound (ctxs s b)")
    case False
    then have "ask (perform E n) a r s = ask (perform E n) b r s" using ask_prev [OF b(1-4)] by simp
    moreover have "outbound_handlers s (bs @ [b]) = outbound_handlers s bs" using False by (simp add: outbound_handlers_def)
    ultimately show ?thesis using snoc.IH [OF l, of n] snoc.prems by simp
  next
    case True
    let ?h = "cx_handler (ctxs s b)" and ?s = "s\<lparr>seen := seen s @ [Asked (cx_handler (ctxs s b)) r]\<rparr>"
    obtain m where n: "n = Suc m" using snoc.prems(6) by (cases n) auto
    have hs: "outbound_handlers s (bs @ [b]) = outbound_handlers s bs @ [?h]" "outbound_handlers ?s bs = outbound_handlers s bs"
      using True by (simp_all add: outbound_handlers_def)
    have "ask (perform E m) b r ?s =
      (let s' = ?s\<lparr>seen := seen ?s @ map (\<lambda>h. Asked h r) (reached fwd (rev (outbound_handlers ?s bs)))\<rparr> in
       if \<forall>h\<in>set (outbound_handlers ?s bs). fwd h then head_request E r (s'\<lparr>seen := seen s' @ [Asked headp r]\<rparr>)
       else (Ok (), s'))"
      by (rule snoc.IH) (use snoc.prems n l hs in auto)
    moreover have "on_request E k ?h r = (if fwd ?h then [Ask r] else [])" for k
      using snoc.prems(7) hs(1) by simp
    moreover have "seqp m (ret ()) t = m t" for m :: "(channel, unit) prog" and t
      by (auto simp: seqp_def bindp_def ret_def split: prod.splits outcome.splits)
    ultimately have "outbound_call E (perform E m) b ?h r s =
      (let s' = s\<lparr>seen := seen s @ map (\<lambda>h. Asked h r) (reached fwd (rev (outbound_handlers s (bs @ [b]))))\<rparr> in
       if \<forall>h\<in>set (outbound_handlers s (bs @ [b])). fwd h then head_request E r (s'\<lparr>seen := seen s' @ [Asked headp r]\<rparr>)
       else (Ok (), s'))"
      using b(5) by (auto simp: outbound_call_def seqp_Ok [OF tell_run] bindp_Ok [OF asks_run] hs ret_run Let_def)
    then show ?thesis using ask_prev [OF b(1-4)] True n request_ok [OF b(4) True] by simp
  qed
qed

text \<open>An exception goes from context to context; one that is not inbound keeps it.\<close>

lemma caught_delivers:
  assumes "\<And>l h. on_signal E l h (Caught x) = [Fire (Caught x)]"
    and "linked (nxt_of s) P (a # bs @ [tailp])" "set (a # bs @ [tailp]) \<subseteq> live s" "{0, headp, tailp} \<inter> set bs = {}"
    and "cx_inbound (ctxs s tailp)" "cx_handler (ctxs s tailp) = tailp" "length bs < n"
  shows "fire (perform E n) a (Caught x) s = (Ok (), s\<lparr>seen := seen s @
     map (\<lambda>b. Saw (cx_handler (ctxs s b)) (Caught x)) (takeWhile (\<lambda>b. cx_inbound (ctxs s b)) bs) @
     (if \<forall>b\<in>set bs. cx_inbound (ctxs s b) then [Saw tailp (Caught x)] else [])\<rparr>)"
  using assms(2-7)
proof (induction bs arbitrary: a n s)
  case Nil
  then obtain m where n: "n = Suc m" by (cases n) auto
  have "fire (perform E n) a (Caught x) s = perform E n (Signal tailp (Caught x)) s"
    using Nil by (simp add: fire_def bindp_Ok [OF get_ctx_run])
  moreover have "inbound_call E (perform E m) tailp tailp (Caught x) s = (Ok (), s\<lparr>seen := seen s @ [Saw tailp (Caught x)]\<rparr>)"
    by (simp add: inbound_call_def seqp_Ok [OF tell_run] tail_signal_def ret_run)
  ultimately show ?case using Nil.prems n invoke_ok [of tailp s E "perform E m" "Caught x"] by simp
next
  case (Cons b bs)
  have b: "a \<in> live s" "cx_next (ctxs s a) = b" "b \<noteq> 0" "b \<in> live s" "b \<noteq> headp" "b \<noteq> tailp"
    using Cons.prems by auto
  obtain m where n: "n = Suc m" using Cons.prems(6) by (cases n) auto
  have f: "fire (perform E n) a (Caught x) s = invoke_signal E (perform E m) b (Caught x) s"
    using b n by (simp add: fire_def bindp_Ok [OF get_ctx_run])
  show ?case
  proof (cases "cx_inbound (ctxs s b)")
    case False
    then show ?thesis using f b(4) by (simp add: invoke_signal_def bindp_Ok [OF get_ctx_run] ret_run)
  next
    case True
    let ?h = "cx_handler (ctxs s b)" and ?s = "s\<lparr>seen := seen s @ [Saw (cx_handler (ctxs s b)) (Caught x)]\<rparr>"
    have "fire (perform E m) b (Caught x) ?s = (Ok (), ?s\<lparr>seen := seen ?s @
      map (\<lambda>b. Saw (cx_handler (ctxs ?s b)) (Caught x)) (takeWhile (\<lambda>b. cx_inbound (ctxs ?s b)) bs) @
      (if \<forall>b\<in>set bs. cx_inbound (ctxs ?s b) then [Saw tailp (Caught x)] else [])\<rparr>)"
      by (rule Cons.IH) (use Cons.prems n in auto)
    then have "inbound_call E (perform E m) b ?h (Caught x) s = (Ok (), s\<lparr>seen := seen s @
     map (\<lambda>b. Saw (cx_handler (ctxs s b)) (Caught x)) (takeWhile (\<lambda>b. cx_inbound (ctxs s b)) (b # bs)) @
     (if \<forall>b\<in>set (b # bs). cx_inbound (ctxs s b) then [Saw tailp (Caught x)] else [])\<rparr>)"
      using b(5,6) True by (simp add: inbound_call_def seqp_def bindp_def tell_run asks_run assms(1) ret_run)
    then show ?thesis using f invoke_ok [OF b(4) True] by simp
  qed
qed

section \<open>Adding and removing from a handler\<close>

lemma sentinels_kept:
  assumes "sentinels s" "\<forall>a\<in>live s. cx_inbound (ctxs s' a) = cx_inbound (ctxs s a) \<and>
      cx_outbound (ctxs s' a) = cx_outbound (ctxs s a) \<and> cx_handler (ctxs s' a) = cx_handler (ctxs s a)"
    and "wf_pipe s as"
  shows "sentinels s'"
  using assms wf_pipeD(5) [OF assms(3)] by (simp add: sentinels_def)

definition typed :: "(nat \<Rightarrow> handler_class) \<Rightarrow> 'l pipeline \<Rightarrow> nat list \<Rightarrow> bool" where
  "typed K s as \<longleftrightarrow> (\<forall>a\<in>set as. cx_inbound (ctxs s a) = is_inbound (K (cx_handler (ctxs s a))) \<and>
     cx_outbound (ctxs s a) = is_outbound (K (cx_handler (ctxs s a))))"

lemma inbound_typed:
  "typed K s as \<Longrightarrow> inbound_handlers s as = filter (\<lambda>h. is_inbound (K h)) (map snd (entries s as))"
  and outbound_typed:
  "typed K s as \<Longrightarrow> outbound_handlers s as = filter (\<lambda>h. is_outbound (K h)) (map snd (entries s as))"
  by (induction as) (auto simp: inbound_handlers_def outbound_handlers_def typed_def entries_def)

lemma adds_run:
  assumes "wf_pipe s as" "sentinels s" "typed (classes E) s as" "distinct (map fst hs)"
    and "\<forall>e\<in>set hs. fst e \<noteq> '''' \<and> fst e \<notin> insert (tail_name s) (fst ` set (entries s as))"
  shows "\<exists>s' cs. do_actions E rec a (map (\<lambda>(n, h). Change (AddLast n h)) hs) s = (Ok (), s') \<and> wf_pipe s' cs \<and>
    entries s' cs = entries s as @ hs \<and> sentinels s' \<and> typed (classes E) s' cs \<and> seen s' = seen s \<and>
    tail_name s' = tail_name s"
  using assms
proof (induction hs arbitrary: s as)
  case Nil
  then show ?case by (auto simp: ret_run)
next
  case (Cons e hs)
  obtain n h where e: "e = (n, h)" by (cases e)
  have nm: "set (names_of s (as @ [tailp])) = insert (tail_name s) (fst ` set (entries s as))" by (rule names_entries)
  have no: "\<not> (n \<noteq> '''' \<and> n \<in> insert (tail_name s) (fst ` set (entries s as)))" "n \<noteq> ''''"
    using Cons.prems(5) e by auto
  let ?b = "next_ctx s"
  obtain s1 where s1: "addLast (classes E) n h s = (Ok (), s1)" "wf_pipe s1 (as @ [?b])"
    "entries s1 (as @ [?b]) = entries s as @ [(n, h)]" "tail_name s1 = tail_name s" "seen s1 = seen s"
    "cx_inbound (ctxs s1 ?b) = is_inbound (classes E h) \<and> cx_outbound (ctxs s1 ?b) = is_outbound (classes E h)"
    "\<forall>a\<in>live s. cx_inbound (ctxs s1 a) = cx_inbound (ctxs s a) \<and> cx_outbound (ctxs s1 a) = cx_outbound (ctxs s a) \<and>
        cx_handler (ctxs s1 a) = cx_handler (ctxs s a)"
    using addLast_run [OF Cons.prems(1), of n "classes E" h, unfolded nm if_not_P [OF no(1)]] no(2) by blast
  have "typed (classes E) s1 (as @ [?b])"
    using Cons.prems(3) s1(3,6,7) wf_pipeD(5) [OF Cons.prems(1)] by (auto simp: typed_def entries_def)
  then obtain s' cs where s': "do_actions E rec a (map (\<lambda>(n, h). Change (AddLast n h)) hs) s1 = (Ok (), s')" "wf_pipe s' cs"
    "entries s' cs = entries s1 (as @ [?b]) @ hs" "sentinels s'" "typed (classes E) s' cs" "seen s' = seen s1"
    "tail_name s' = tail_name s1"
    using Cons.IH [OF s1(2) sentinels_kept [OF Cons.prems(2) s1(7) Cons.prems(1)]] Cons.prems(4,5) s1(3,4) e
    by auto
  then show ?case using s1 e by (intro exI [of _ s'] exI [of _ cs]) (simp add: seqp_def bindp_def)
qed

section \<open>Properties\<close>

text \<open>
  C31: an event fired at the pipeline is seen by the inbound handlers in their order, each once, up to
  the first that does not pass it on; if none keeps it, it ends at the tail, which releases the
  buffer of a message once. The call returns on a stack two frames deeper than the list is long.
\<close>

theorem inbound_delivery:
  assumes "wf_pipe s as" "sentinels s" "ordinary sig" "sig \<noteq> Unregistered" "length as + 1 < n"
    and "\<forall>l. \<forall>h\<in>set (inbound_handlers s as). on_signal E l h sig = (if fwd h then ChannelInboundHandlerAdapter sig else [])"
  shows "pipeline_fire (perform E n) sig s = (Ok (), s\<lparr>seen := seen s @ [Saw headp sig] @
     map (\<lambda>h. Saw h sig) (reached fwd (inbound_handlers s as)) @
     (if \<forall>h\<in>set (inbound_handlers s as). fwd h then tail_notices sig else [])\<rparr>)"
  by (rule pipeline_delivers) (use assms in \<open>simp_all add: ChannelInboundHandlerAdapter_def\<close>)

text \<open>
  C32: a write on the pipeline is seen by the outbound handlers from the last to the first, up to the
  first that does not pass it on; if all do, the connection gets the message with its callback
  exactly once, and an exception of the connection reaches the writer.
\<close>

theorem outbound_delivery:
  assumes "wf_pipe s as" "sentinels s" "length as < n"
    and "\<forall>l. \<forall>h\<in>set (outbound_handlers s as). on_request E l h r = (if fwd h then ChannelOutboundHandlerAdapter r else [])"
    and "r = WriteEvent (OutboundEvent (Some msg)) cb"
  shows "pipeline_ask (perform E n) r s =
    (let l = seen s @ map (\<lambda>h. Asked h r) (reached fwd (rev (outbound_handlers s as))) in
     if \<forall>h\<in>set (outbound_handlers s as). fwd h
     then (case conn_send E (l @ [Asked headp r, SentMessage msg cb]) msg of None \<Rightarrow> Ok () | Some x \<Rightarrow> Throw x,
           s\<lparr>seen := l @ [Asked headp r, SentMessage msg cb]\<rparr>)
     else (Ok (), s\<lparr>seen := l\<rparr>))"
proof -
  note w = wf_pipeD [OF assms(1)]
  have "ask (perform E n) tailp r s =
    (let s' = s\<lparr>seen := seen s @ map (\<lambda>h. Asked h r) (reached fwd (rev (outbound_handlers s as)))\<rparr> in
     if \<forall>h\<in>set (outbound_handlers s as). fwd h then head_request E r (s'\<lparr>seen := seen s' @ [Asked headp r]\<rparr>)
     else (Ok (), s'))"
    by (rule ask_delivers [OF w(6)]) (use w assms in \<open>auto simp: sentinels_def ChannelOutboundHandlerAdapter_def\<close>)
  then show ?thesis
    by (simp add: pipeline_ask_def Let_def head_request_def assms(5) head_write_def connection_send_def
        seqp_Ok [OF tell_run] bindp_Ok [OF asks_run] ret_run raise_run split: option.split)
qed

text \<open>
  what a handler throws while it reads is given to its own \<open>exceptionCaught\<close> and, passed on from
  there, to the contexts behind it one by one; the first that is not inbound swallows it, although
  the adapter for outbound handlers means to pass it on. The read itself ends normally.
\<close>

theorem exception_path:
  assumes "wf_pipe s (as @ a # bs)" "sentinels s" "cx_inbound (ctxs s a)" "h = cx_handler (ctxs s a)"
    and "\<forall>l. on_signal E l h (Read e) = [Raise x]" "\<forall>l k. on_signal E l k (Caught x) = [Fire (Caught x)]"
    and "length bs + 2 < n"
  shows "perform E n (Signal a (Read e)) s = (Ok (), s\<lparr>seen := seen s @ [Saw h (Read e), Saw h (Caught x)] @
     map (\<lambda>b. Saw (cx_handler (ctxs s b)) (Caught x)) (takeWhile (\<lambda>b. cx_inbound (ctxs s b)) bs) @
     (if \<forall>b\<in>set bs. cx_inbound (ctxs s b) then [Saw tailp (Caught x)] else [])\<rparr>)"
proof -
  note w = wf_pipeD [OF assms(1)]
  obtain k where n: "n = Suc (Suc k)" "length bs < k" using assms(7) less_iff_Suc_add [of "length bs + 2" n] by auto
  have a: "a \<in> live s" "a \<noteq> headp" "a \<noteq> tailp" using w by auto
  let ?s = "s\<lparr>seen := seen s @ [Saw h (Read e)]\<rparr>" and ?t = "s\<lparr>seen := seen s @ [Saw h (Read e), Saw h (Caught x)]\<rparr>"
  have "inbound_call E (perform E (Suc k)) a h (Read e) s = (Throw x, ?s)"
    using a assms(5) by (simp add: inbound_call_def tell_run asks_run seqp_def bindp_def raise_run)
  then have "invoke_signal E (perform E (Suc k)) a (Read e) s = perform E (Suc k) (Signal a (Caught x)) ?s"
    using a(1) assms(3,4) by (intro invoke_throw) simp_all
  then have one: "perform E n (Signal a (Read e)) s = perform E (Suc k) (Signal a (Caught x)) ?s"
    unfolding n(1) by (subst perform.simps(2)) (simp only: task.case)
  have "linked (nxt_of s) (prv_of s) ((headp # as) @ a # bs @ [tailp])" using w(6) by simp
  then have "linked (nxt_of s) (prv_of s) (a # bs @ [tailp])"
    using linked_append [of "nxt_of s" "prv_of s" "headp # as" a] by (cases bs) auto
  moreover have "set (a # bs @ [tailp]) \<subseteq> live s" "{0, headp, tailp} \<inter> set bs = {}" using w by auto
  ultimately have t: "fire (perform E k) a (Caught x) ?t = (Ok (), s\<lparr>seen := seen s @ [Saw h (Read e), Saw h (Caught x)] @
     map (\<lambda>b. Saw (cx_handler (ctxs s b)) (Caught x)) (takeWhile (\<lambda>b. cx_inbound (ctxs s b)) bs) @
     (if \<forall>b\<in>set bs. cx_inbound (ctxs s b) then [Saw tailp (Caught x)] else [])\<rparr>)"
    using caught_delivers [of E x ?t "prv_of s" a bs k] w(11) assms(2,6) n(2) by (simp add: sentinels_def)
  have "inbound_call E (perform E k) a h (Caught x) ?s = fire (perform E k) a (Caught x) ?t"
    using a assms(6) by (simp add: inbound_call_def tell_run asks_run seqp_def bindp_def)
      (auto simp: ret_def split: prod.splits outcome.splits)
  then show ?thesis
    using one t a assms(3,4) by (simp add: invoke_signal_def bindp_Ok [OF get_ctx_run])
qed

lemma built:
  assumes "distinct (map fst hs)" "\<forall>e\<in>set hs. fst e \<noteq> '''' \<and> fst e \<noteq> ''T#0''"
  obtains s :: channel and as where "wf_pipe s as" "sentinels s" "typed K s as" "entries s as = hs" "seen s = []"
    "tail_name s = ''T#0''"
proof -
  let ?s = "DefaultChannelPipeline_new ''H'' ''T'' Map.empty [] :: channel"
  let ?E = "\<lparr>classes = K, on_signal = \<lambda>_ _ _. [], on_request = \<lambda>_ _ _. [], conn_close = \<lambda>_. None, conn_send = \<lambda>_ _. None\<rparr>"
  have w: "wf_pipe ?s []" "entries ?s [] = []" "tail_name ?s = ''T#0''" using wf_new [OF refl, of "''H''" "''T''"] by auto
  have "sentinels ?s" "typed (classes ?E) ?s []" "seen ?s = []"
    by (simp_all add: sentinels_def typed_def DefaultChannelPipeline_new_def)
  then show ?thesis
    using adds_run [OF w(1), of ?E hs undefined undefined] assms w(2,3) that by auto
qed

definition both_ways :: env where
  "both_ways = \<lparr>classes = (\<lambda>h. \<lparr>type_name = ''D'', is_inbound = h < 20, is_outbound = h > 10\<rparr>),
     on_signal = (\<lambda>_ h sig. if h = 15 then [Raise BadAlloc] else [Fire sig]), on_request = (\<lambda>_ _ r. [Ask r]),
     conn_close = \<lambda>_. None, conn_send = \<lambda>_ _. None\<rparr>"

theorem inbound_delivery_witness:
  "\<exists>s as. wf_pipe s as \<and> seen s = [] \<and> entries s as = [(''a'', 7), (''b'', 30), (''c'', 12)] \<and>
     seen (snd (pipeline_fire (perform both_ways 5) (Read (InboundEvent 1)) s)) =
       [Saw headp (Read (InboundEvent 1)), Saw 7 (Read (InboundEvent 1)), Saw 12 (Read (InboundEvent 1)),
        Saw tailp (Read (InboundEvent 1)), ReleasedMessage 1]"
proof -
  obtain s :: channel and as where s: "wf_pipe s as" "sentinels s" "typed (classes both_ways) s as" "seen s = []"
    "entries s as = [(''a'', 7), (''b'', 30), (''c'', 12)]"
    by (rule built [of "[(''a'', 7), (''b'', 30), (''c'', 12)]" "classes both_ways"]) auto
  have h: "inbound_handlers s as = [7, 12]" using inbound_typed [OF s(3)] s(5) by (simp add: both_ways_def)
  have "length as = 3" using arg_cong [OF s(5), of length] by (simp add: entries_def)
  then have "pipeline_fire (perform both_ways 5) (Read (InboundEvent 1)) s = (Ok (), s\<lparr>seen := seen s @ [Saw headp (Read (InboundEvent 1))] @
     map (\<lambda>h. Saw h (Read (InboundEvent 1))) (reached (\<lambda>_. True) (inbound_handlers s as)) @
     (if \<forall>h\<in>set (inbound_handlers s as). True then tail_notices (Read (InboundEvent 1)) else [])\<rparr>)"
    by (intro inbound_delivery [OF s(1,2)]) (simp_all add: h ChannelInboundHandlerAdapter_def both_ways_def)
  then show ?thesis using s h by (intro exI [of _ s] exI [of _ as]) simp
qed

theorem outbound_delivery_witness:
  "\<exists>s as. wf_pipe s as \<and> seen s = [] \<and> entries s as = [(''a'', 12), (''b'', 7), (''c'', 30)] \<and>
     seen (snd (pipeline_ask (perform both_ways 5) (WriteEvent (OutboundEvent (Some ''hi'')) 9) s)) =
       [Asked 30 (WriteEvent (OutboundEvent (Some ''hi'')) 9), Asked 12 (WriteEvent (OutboundEvent (Some ''hi'')) 9),
        Asked headp (WriteEvent (OutboundEvent (Some ''hi'')) 9), SentMessage ''hi'' 9]"
proof -
  obtain s :: channel and as where s: "wf_pipe s as" "sentinels s" "typed (classes both_ways) s as" "seen s = []"
    "entries s as = [(''a'', 12), (''b'', 7), (''c'', 30)]"
    by (rule built [of "[(''a'', 12), (''b'', 7), (''c'', 30)]" "classes both_ways"]) auto
  have h: "outbound_handlers s as = [12, 30]" using outbound_typed [OF s(3)] s(5) by (simp add: both_ways_def)
  have e: "on_request both_ways l k r = [Ask r]" "conn_send both_ways l msg = None" for l k r msg
    by (simp_all add: both_ways_def)
  have "length as = 3" using arg_cong [OF s(5), of length] by (simp add: entries_def)
  then show ?thesis
    using s h outbound_delivery [OF s(1,2), of 5 both_ways "WriteEvent (OutboundEvent (Some ''hi'')) 9" "\<lambda>_. True" "''hi''" 9]
    by (intro exI [of _ s] exI [of _ as]) (simp add: ChannelOutboundHandlerAdapter_def Let_def e)
qed

theorem exception_path_witness:
  "\<exists>s a b. wf_pipe s [a, b] \<and> entries s [a, b] = [(''a'', 15), (''b'', 30)] \<and>
     (let E = both_ways\<lparr>on_signal := \<lambda>_ h sig. case sig of Read e \<Rightarrow> [Raise BadAlloc] | _ \<Rightarrow> [Fire sig]\<rparr> in
      perform E 5 (Signal a (Read (InboundEvent 1))) s =
        (Ok (), s\<lparr>seen := [Saw 15 (Read (InboundEvent 1)), Saw 15 (Caught BadAlloc)]\<rparr>))"
proof -
  obtain s :: channel and as where s: "wf_pipe s as" "sentinels s" "typed (classes both_ways) s as" "seen s = []"
    "entries s as = [(''a'', 15), (''b'', 30)]"
    by (rule built [of "[(''a'', 15), (''b'', 30)]" "classes both_ways"]) auto
  then obtain a b where as: "as = [a, b]" by (auto simp: entries_def map_eq_Cons_conv)
  have f: "cx_inbound (ctxs s a)" "\<not> cx_inbound (ctxs s b)" "cx_handler (ctxs s a) = 15"
    using s(3,5) as by (auto simp: typed_def entries_def both_ways_def)
  let ?E = "both_ways\<lparr>on_signal := \<lambda>_ h sig. case sig of Read e \<Rightarrow> [Raise BadAlloc] | _ \<Rightarrow> [Fire sig]\<rparr>"
  have "perform ?E 5 (Signal a (Read (InboundEvent 1))) s = (Ok (), s\<lparr>seen := [Saw 15 (Read (InboundEvent 1)), Saw 15 (Caught BadAlloc)]\<rparr>)"
    using exception_path [of s "[]" a "[b]" 15 ?E "InboundEvent 1" BadAlloc 5] s f as by simp
  then show ?thesis using s as unfolding Let_def by blast
qed

text \<open>
  a \<open>ChannelInitializer\<close> that is alone in the pipeline and adds handlers: after
  \<open>fireChannelRegistered\<close> it has taken itself out, the pipeline holds what it added, in that order,
  and each inbound handler among them has seen the registration once.
\<close>

theorem initializer_installs:
  assumes "wf_pipe s [a]" "sentinels s" "typed (classes E) s [a]" "cx_inbound (ctxs s a)" "h = cx_handler (ctxs s a)"
    and "h \<noteq> tailp" "distinct (map fst hs)" "length hs + 3 < n"
    and "\<forall>e\<in>set hs. fst e \<noteq> '''' \<and> fst e \<notin> {tail_name s, cx_name (ctxs s a)} \<and> snd e \<noteq> h"
    and "\<forall>l. on_signal E l h Registered = ChannelInitializer h (map (\<lambda>(n, k). Change (AddLast n k)) hs) cb Registered"
    and "\<forall>l. \<forall>k\<in>snd ` set hs. on_signal E l k Registered = ChannelInboundHandlerAdapter Registered"
  shows "\<exists>s'. pipeline_fire (perform E n) Registered s = (Ok (), s') \<and> represents s' (tail_name s) hs \<and>
    seen s' = seen s @ [Saw headp Registered, Saw h Registered, Saw headp Registered] @
      map (\<lambda>k. Saw k Registered) (filter (\<lambda>k. is_inbound (classes E k)) (map snd hs)) @ [Saw tailp Registered]"
proof -
  note w = wf_pipeD [OF assms(1)]
  obtain k where n: "n = Suc (Suc k)" "length hs + 1 < k" using assms(8) less_iff_Suc_add [of "length hs + 3" n] by auto
  define s1 where "s1 = s\<lparr>seen := seen s @ [Saw headp Registered]\<rparr>"
  define s2 where "s2 = s\<lparr>seen := seen s @ [Saw headp Registered, Saw h Registered]\<rparr>"
  have w2: "wf_pipe s2 [a]" "sentinels s2" "typed (classes E) s2 [a]" "entries s2 [a] = [(cx_name (ctxs s a), h)]"
    "tail_name s2 = tail_name s"
    using assms(1-3,5) by (simp_all add: s2_def wf_pipe_def names_of_def sentinels_def typed_def entries_def tail_name_def)
  have fresh: "\<forall>e\<in>set hs. fst e \<noteq> '''' \<and> fst e \<notin> insert (tail_name s2) (fst ` set (entries s2 [a]))"
    using assms(9) by (simp add: w2(4,5))
  obtain s3 cs where s3: "do_actions E (perform E k) a (map (\<lambda>(n, k). Change (AddLast n k)) hs) s2 = (Ok (), s3)"
    "wf_pipe s3 cs" "entries s3 cs = (cx_name (ctxs s a), h) # hs" "sentinels s3" "typed (classes E) s3 cs"
    "seen s3 = seen s2" "tail_name s3 = tail_name s"
    using adds_run [OF w2(1-3) assms(7) fresh, of "perform E k" a] unfolding w2(4,5) append_Cons append_Nil
    by (elim exE conjE) (rule that)
  obtain s4 bs where s4: "remove_handler h s3 = (Ok (), s4)" "wf_pipe s4 bs"
    "entries s4 bs = drop_first (\<lambda>e. snd e = h) (entries s3 cs)"
    "set bs \<subseteq> set cs" "tail_name s4 = tail_name s3" "seen s4 = seen s3"
    "\<forall>a. cx_inbound (ctxs s4 a) = cx_inbound (ctxs s3 a) \<and> cx_outbound (ctxs s4 a) = cx_outbound (ctxs s3 a) \<and>
      cx_handler (ctxs s4 a) = cx_handler (ctxs s3 a)"
    using remove_handler_run [OF s3(2) assms(6)] by blast
  have en: "entries s4 bs = hs" using s4(3) by (simp add: s3(3))
  have "sentinels s4" "typed (classes E) s4 bs" using s4(4,7) s3(4,5) by (auto simp: sentinels_def typed_def)
  moreover from this have "inbound_handlers s4 bs = filter (\<lambda>k. is_inbound (classes E k)) (map snd hs)"
    using inbound_typed en by metis
  moreover have "length bs = length hs" using arg_cong [OF en, of length] by (simp add: entries_def)
  ultimately obtain s5 where s5: "pipeline_fire (perform E k) Registered s4 = (Ok (), s5)"
    "s5 = s4\<lparr>seen := seen s4 @ [Saw headp Registered] @
      map (\<lambda>k. Saw k Registered) (filter (\<lambda>k. is_inbound (classes E k)) (map snd hs)) @ [Saw tailp Registered]\<rparr>"
    using pipeline_delivers [of Registered s4 bs k E "\<lambda>_. True"] s4(2) n(2) assms(11)
    by (auto simp: ChannelInboundHandlerAdapter_def reached_all)
  have "do_actions E (perform E k) a (ChannelInitializer h (map (\<lambda>(n, k). Change (AddLast n k)) hs) cb Registered) s2 = (Ok (), s5)"
    using s3(1) s4(1) s5(1) by (simp add: ChannelInitializer_def seqp_def bindp_def ret_def)
  then have "inbound_call E (perform E k) a h Registered s1 = (Ok (), s5)"
    using w(3,4) assms(10) by (simp add: inbound_call_def seqp_def bindp_def tell_run asks_run s1_def s2_def)
  then have "perform E (Suc k) (Signal a Registered) s1 = (Ok (), s5)"
    using invoke_ok [of a s1 E "perform E k" Registered s5] w(5) assms(4,5) by (simp add: s1_def)
  moreover have "fire (perform E (Suc k)) headp Registered s1 = perform E (Suc k) (Signal a Registered) s1"
    using fire_next [of headp s1 a Registered "perform E (Suc k)"] w(2,5,6) assms(4)
    by (simp add: s1_def del: perform.simps)
  ultimately have "inbound_call E (perform E (Suc k)) headp headp Registered s = (Ok (), s5)"
    by (simp add: inbound_call_def seqp_def bindp_def tell_run s1_def del: perform.simps)
  then have "pipeline_fire (perform E n) Registered s = (Ok (), s5)"
    using invoke_ok [of headp s E "perform E (Suc k)" Registered s5] w(5) assms(2)
    unfolding n(1) pipeline_fire_def perform.simps(2) [of E "Suc k"] by (simp add: sentinels_def del: perform.simps)
  moreover have "represents s5 (tail_name s) hs"
    using s4(2,5) s3(7) en s5(2) by (auto simp: represents_def wf_pipe_def names_of_def entries_def tail_name_def)
  ultimately show ?thesis using s3(6) s4(6) s5(2) by (simp add: s2_def)
qed

definition init_env :: env where
  "init_env = both_ways\<lparr>on_signal := \<lambda>_ h sig. if h = 5 then
     ChannelInitializer 5 [Change (AddLast ''decoder'' 7), Change (AddLast ''encoder'' 30)] 0 sig else [Fire sig]\<rparr>"

theorem initializer_installs_witness:
  "\<exists>s a s'. wf_pipe s [a] \<and> entries s [a] = [(''init'', 5)] \<and> pipeline_fire (perform init_env 6) Registered s = (Ok (), s') \<and>
     represents s' ''T#0'' [(''decoder'', 7), (''encoder'', 30)]"
proof -
  obtain s :: channel and as where s: "wf_pipe s as" "sentinels s" "typed (classes init_env) s as" "seen s = []"
    "entries s as = [(''init'', 5)]" "tail_name s = ''T#0''"
    by (rule built [of "[(''init'', 5)]" "classes init_env"]) auto
  then obtain a where as: "as = [a]" by (auto simp: entries_def map_eq_Cons_conv)
  have f: "cx_inbound (ctxs s a)" "cx_handler (ctxs s a) = 5" "cx_name (ctxs s a) = ''init''"
    using s(3,5) as by (auto simp: typed_def entries_def init_env_def both_ways_def)
  have e: "on_signal init_env l k sig = (if k = 5 then
     ChannelInitializer 5 [Change (AddLast ''decoder'' 7), Change (AddLast ''encoder'' 30)] 0 sig else [Fire sig])" for l k sig
    by (simp add: init_env_def)
  obtain s' where "pipeline_fire (perform init_env 6) Registered s = (Ok (), s')"
    "represents s' (tail_name s) [(''decoder'', 7), (''encoder'', 30)]"
    using initializer_installs [of s a init_env 5 "[(''decoder'', 7), (''encoder'', 30)]" 6 0] s f as
    by (auto simp: ChannelInboundHandlerAdapter_def e)
  then show ?thesis using s(1,5,6) as by auto
qed

end
