(* ===== verification/Sctp.thy ===== *)
theory Sctp
  imports Connection
begin

text \<open>
  \<open>SctpConnection\<close> (src/common/net/SctpConnection.hpp and .cpp): as \<open>TcpConnection\<close>, but a read
  returns a fragment of a message of one of several streams. Fragments are collected per stream
  until the last one arrives; only whole messages go to the pipeline.
\<close>

section \<open>Operations\<close>

record 'h sctp_connection =
  sc_base :: "'h connection"
  streamMsgs :: "16 word \<Rightarrow> heap_buf option"

definition on_base :: "('h connection, 'a) prog \<Rightarrow> ('h sctp_connection, 'a) prog" where
  "on_base = zoom sc_base (\<lambda>b s. s\<lparr>sc_base := b\<rparr>)"

text \<open>The flag of the platform that marks the end of a message (Linux).\<close>

definition MSG_EOR :: "32 word" where "MSG_EOR = 0x80"

definition sctp_close :: "('h connection, unit) prog" where
  "sctp_close = ifp (\<lambda>s. \<not> cn_connected s) (ret ())
     (doM [modify (cn_connected_update (\<lambda>_. False)), freeBuffer, modify (recvHandle_update (\<lambda>_. None))])"

text \<open>
  Fragments are copied to the end of the stream's buffer, which is created with twice the size of the
  first one; no room at all is a null pointer.
\<close>

definition appendMessage :: "16 word \<Rightarrow> ('h sctp_connection, unit) prog" where
  "appendMessage n s =
     (case cn_buf (sc_base s) of
        None \<Rightarrow> (Undef, s)
      | Some buf \<Rightarrow> (case streamMsgs s n of
          Some m \<Rightarrow> (case writeCharsBuf heap_ops heap_ops (m, buf) of
            (r, (m', buf')) \<Rightarrow> (r, s\<lparr>sc_base := (sc_base s)\<lparr>cn_buf := Some buf'\<rparr>, streamMsgs := (streamMsgs s)(n \<mapsto> m')\<rparr>))
        | None \<Rightarrow> (case alloc_buffer (cn_junk (sc_base s)) (i32 (readableBytes heap_ops buf * 2)) of
            Ok (Some m) \<Rightarrow> (case writeCharsBuf heap_ops heap_ops (m, buf) of
              (Ok _, (m', buf')) \<Rightarrow> (Ok (), s\<lparr>sc_base := (sc_base s)\<lparr>cn_buf := Some buf'\<rparr>, streamMsgs := (streamMsgs s)(n \<mapsto> m')\<rparr>)
            | (r, (m', buf')) \<Rightarrow> (r, s\<lparr>sc_base := (sc_base s)\<lparr>cn_buf := Some buf'\<rparr>\<rparr>))
          | Ok None \<Rightarrow> (Undef, s) | Throw e \<Rightarrow> (Throw e, s) | Hang \<Rightarrow> (Hang, s) | Undef \<Rightarrow> (Undef, s))))"

definition getAndRemoveMessage :: "16 word \<Rightarrow> ('h sctp_connection, heap_buf option) prog" where
  "getAndRemoveMessage n = bindp (asks (\<lambda>s. streamMsgs s n))
     (\<lambda>m. seqp (modify (streamMsgs_update (\<lambda>f. f(n := None)))) (ret m))"

definition append_read :: "heap_buf \<Rightarrow> ('h sctp_connection, heap_buf) prog" where
  "append_read m s =
     (case cn_buf (sc_base s) of
        None \<Rightarrow> (Undef, s)
      | Some buf \<Rightarrow> (case writeCharsBuf heap_ops heap_ops (m, buf) of
          (r, (m', buf')) \<Rightarrow> (map_ok (\<lambda>_. m') r, s\<lparr>sc_base := (sc_base s)\<lparr>cn_buf := Some buf'\<rparr>\<rparr>)))"

text \<open>A buffer of its own given to the pipeline: what the handlers leave of it is theirs.\<close>

definition fire_buffer :: "('h connection, unit) prog \<Rightarrow> 'h pipe_env \<Rightarrow> heap_buf \<Rightarrow> ('h connection, unit) prog" where
  "fire_buffer close E m s =
     (case pe_read E m (handlers s) of (m', h', closes) \<Rightarrow>
        bindp (lift_outcome (\<lambda>_. closes)) (\<lambda>c. if c then close else ret ()) (s\<lparr>handlers := h'\<rparr>))"

definition retain_cumulation :: "('h connection, unit) prog" where
  "retain_cumulation = on_cumulation (modify (refCnt_update (retain_count 1)))"

definition whole_message :: "'h pipe_env \<Rightarrow> 16 word \<Rightarrow> int \<Rightarrow> ('h sctp_connection, unit) prog" where
  "whole_message E n len = bindp (getAndRemoveMessage n) (\<lambda>buf. case buf of
     None \<Rightarrow> doM [on_base retain_cumulation, on_base (messageReceived sctp_close E len)]
   | Some m \<Rightarrow> bindp (append_read m) (\<lambda>m'. doM
       [on_base (record_bytes len), on_base (fire_buffer sctp_close E m'), on_base discardSomeBytes]))"

definition sctp_handleRead :: "'h pipe_env \<Rightarrow> 16 word \<Rightarrow> 32 word \<Rightarrow> byte list option \<Rightarrow> ('h sctp_connection, unit) prog" where
  "sctp_handleRead E n flags res =
     (case res of
        None \<Rightarrow> doM [on_base sctp_close, on_base (pe_inactive E)]
      | Some bs \<Rightarrow> doM
          [on_base (socket_stores bs),
           on_base (on_cumulation (bindp (asks (writerIndex heap_ops)) (\<lambda>w. set_writerIndex heap_ops (i32 (w + int (length bs)))))),
           (if flags AND MSG_EOR \<noteq> 0 then whole_message E n (int (length bs))
            else doM [on_base (record_bytes (int (length bs))), appendMessage n, on_base discardSomeBytes]),
           on_base startReadMessage])"

definition sctp_connect :: "string \<Rightarrow> string \<Rightarrow> ('h sctp_connection, unit) prog" where
  "sctp_connect host port = doM
     [on_base (modify (cn_remote_update (\<lambda>_. (host, port)))), on_base sctp_close,
      on_base (ifp cn_stopped (ret ()) (begin_op Resolving))]"

definition sctp_handleResolved :: "'h pipe_env \<Rightarrow> bool \<Rightarrow> ('h sctp_connection, unit) prog" where
  "sctp_handleResolved E ok = on_base (if \<not> ok then pe_inactive E else begin_op Connecting)"

definition sctp_handleConnected :: "'h pipe_env \<Rightarrow> bool \<Rightarrow> ('h sctp_connection, unit) prog" where
  "sctp_handleConnected E ok = on_base (if \<not> ok then pe_inactive E
     else doM [modify (cn_connected_update (\<lambda>_. True)), pe_active E, startReadMessage])"

definition SctpConnection_new :: "recv_allocator \<Rightarrow> (nat \<Rightarrow> byte) \<Rightarrow> 'h \<Rightarrow> bool \<Rightarrow> unit outcome \<times> 'h sctp_connection" where
  "SctpConnection_new al junk h is_open =
     (case AbstractConnection_new al junk h of
        (r, s) \<Rightarrow> (r, \<lparr>sc_base = s\<lparr>cn_connected := is_open\<rparr>, streamMsgs = Map.empty\<rparr>))"

definition sctp_accepted :: "recv_allocator \<Rightarrow> (nat \<Rightarrow> byte) \<Rightarrow> 'h \<Rightarrow> unit outcome \<times> 'h sctp_connection" where
  "sctp_accepted al junk h =
     (case SctpConnection_new al junk h True of (Ok u, s) \<Rightarrow> on_base startReadMessage s | r \<Rightarrow> r)"

text \<open>The completion of the read that is under way.\<close>

type_synonym fragment = "16 word \<times> 32 word \<times> byte list"

definition sctp_read :: "'h pipe_env \<Rightarrow> fragment \<Rightarrow> ('h sctp_connection, unit) prog" where
  "sctp_read E f = (case f of (n, flags, bs) \<Rightarrow>
     seqp (on_base (modify (\<lambda>s. s\<lparr>cn_pending := tl (cn_pending s)\<rparr>))) (sctp_handleRead E n flags (Some bs)))"

fun sctp_reads :: "'h pipe_env \<Rightarrow> fragment list \<Rightarrow> ('h sctp_connection, unit) prog" where
  "sctp_reads E [] = ret ()"
| "sctp_reads E (f # fs) = seqp (sctp_read E f) (sctp_reads E fs)"

fun sctp_fit :: "'h pipe_env \<Rightarrow> fragment list \<Rightarrow> 'h sctp_connection \<Rightarrow> bool" where
  "sctp_fit E [] s = True"
| "sctp_fit E (f # fs) s = (fits (snd (snd f)) (sc_base s) \<and> sctp_fit E fs (snd (sctp_read E f s)))"

section \<open>Whole messages\<close>

text \<open>What the peer sent: fragments that belong together by their stream. \<open>p\<close> is what is collected.\<close>

definition last_fragment :: "32 word \<Rightarrow> bool" where "last_fragment flags \<longleftrightarrow> flags AND MSG_EOR \<noteq> 0"

fun collected :: "(16 word \<Rightarrow> byte list) \<Rightarrow> fragment \<Rightarrow> 16 word \<Rightarrow> byte list" where
  "collected p (n, flags, bs) = p(n := (if last_fragment flags then [] else p n @ bs))"

fun whole_messages :: "(16 word \<Rightarrow> byte list) \<Rightarrow> fragment list \<Rightarrow> byte list list" where
  "whole_messages p [] = []"
| "whole_messages p ((n, flags, bs) # fs) =
     (if last_fragment flags then [p n @ bs] else []) @ whole_messages (collected p (n, flags, bs)) fs"

text \<open>
  A pipeline that takes messages. It reads the bytes of a buffer and, of a buffer it shares with the
  connection, keeps a reference or leaves nothing unread. \<open>good ms h\<close> are the states of its handlers after
  the messages \<open>ms\<close>, \<open>allowed\<close> the messages it is made for.
\<close>

locale message_pipeline =
  fixes E :: "'h pipe_env" and good :: "byte list list \<Rightarrow> 'h \<Rightarrow> bool" and allowed :: "byte list list \<Rightarrow> bool"
  assumes takes: "good ms h \<Longrightarrow> message m \<Longrightarrow> allowed (ms @ [heap_content m]) \<Longrightarrow> pe_read E m h = (b', h', closes) \<Longrightarrow>
      good (ms @ [heap_content m]) h' \<and> closes = Ok False"
    and leaves: "message m \<Longrightarrow> refCnt m = 2 \<Longrightarrow> pe_read E m h = (b', h', closes) \<Longrightarrow> takes_all m b'"

definition stream_ok :: "heap_buf option \<Rightarrow> byte list \<Rightarrow> nat \<Rightarrow> bool" where
  "stream_ok x bs t \<longleftrightarrow> (case x of None \<Rightarrow> bs = []
     | Some m \<Rightarrow> message m \<and> heap_content m = bs \<and> length bs \<le> t)"

definition sctp_inv :: "(16 word \<Rightarrow> byte list) \<Rightarrow> nat \<Rightarrow> 'h sctp_connection \<Rightarrow> bool" where
  "sctp_inv p t s \<longleftrightarrow> reading (sc_base s) \<and> (\<forall>n. stream_ok (streamMsgs s n) (p n) t)"

lemma append_to_message:
  assumes "message m" "message b" "length (heap_content m) + length (heap_content b) \<le> 2 ^ 29"
  shows "\<exists>m'. writeCharsBuf heap_ops heap_ops (m, b) =
      (Ok (), (m', b\<lparr>hb_base := (hb_base b)\<lparr>readerIdx := writerIdx (hb_base b)\<rparr>\<rparr>)) \<and>
    message m' \<and> heap_content m' = heap_content m @ heap_content b"
proof -
  have v: "heap_valid m" "heap_valid b" "roomy m" "maxCap (hb_base m) = INT_MAX" "0 < length (array m)"
    using assms(1,2) by (auto simp: message_def roomy_def CHAR_BUF_MAX_CAPACITY_def)
  have w: "writerIdx (hb_base m) = int (length (heap_content m))" using message_writer [OF assms(1)] .
  have "ensured heap_ops array heap_valid (int (length (heap_content b))) m"
    by (rule hb.ensured_grow [OF v(1)]) (use assms(3) v w in simp_all)
  then obtain m' where m': "writeCharsBuf heap_ops heap_ops (m, b) =
      (Ok (), (m', b\<lparr>hb_base := (hb_base b)\<lparr>readerIdx := writerIdx (hb_base b)\<rparr>\<rparr>))"
    "heap_valid m'" "heap_content m' = heap_content m @ heap_content b"
    "hb_base m' = (hb_base m)\<lparr>writerIdx := writerIdx (hb_base m) + int (length (heap_content b))\<rparr>"
    "grown (maxCap (hb_base m)) (length (array m)) (length (array m'))"
    using writeCharsBuf_ok [OF v(1,2)] by blast
  have "roomy m'" using roomy_grown [OF m'(5) v(3) m'(2)] m'(4) by simp
  then show ?thesis using m' assms(1) by (intro exI [of _ m']) (simp add: message_def)
qed

lemma first_message:
  assumes "message b" "0 < length (heap_content b)" "length (heap_content b) \<le> 2 ^ 29"
  shows "\<exists>m. alloc_buffer junk (i32 (readableBytes heap_ops b * 2)) = Ok (Some m) \<and> message m \<and> heap_content m = []"
proof -
  let ?n = "2 * int (length (heap_content b))"
  have v: "heap_valid b" using assms(1) by (simp add: message_def roomy_def)
  have n: "i32 (readableBytes heap_ops b * 2) = ?n" "0 < ?n" "?n \<le> 2 ^ 30"
    using readable_eq [OF v] assms(2,3) by simp_all
  obtain m where m: "UnpooledHeapCharBuf_new junk ?n CHAR_BUF_MAX_CAPACITY = Ok m" using new_Ok [of ?n] n by fastforce
  have "heap_valid m \<and> heap_content m = [] \<and> hb_base m = AbstractCharBuf_init CHAR_BUF_MAX_CAPACITY \<and> int (length (array m)) = ?n"
    using new_valid [OF _ _ _ m] n by (simp add: CHAR_BUF_MAX_CAPACITY_def)
  moreover from this have "even (length (array m))" by presburger
  moreover have "array m \<noteq> []" using calculation(1) n(2) by auto
  ultimately show ?thesis using m n
    by (intro exI [of _ m]) (simp add: alloc_buffer_def CHAR_BUF_MAX_CAPACITY_def message_def roomy_def AbstractCharBuf_init_def)
qed

lemma on_base_run: "m (sc_base s) = (r, b) \<Longrightarrow> on_base m s = (r, s\<lparr>sc_base := b\<rparr>)"
  by (simp add: on_base_def zoom_def)

text \<open>The common part of a read: the bytes are stored, something happens, the next read starts.\<close>

definition middle :: "'h pipe_env \<Rightarrow> 16 word \<Rightarrow> 32 word \<Rightarrow> int \<Rightarrow> ('h sctp_connection, unit) prog" where
  "middle E n flags len = (if last_fragment flags then whole_message E n len
     else doM [on_base (record_bytes len), appendMessage n, on_base discardSomeBytes])"

lemma sctp_front:
  assumes "reading (sc_base s)" "fits bs (sc_base s)"
  shows "\<exists>m s1. message m \<and> heap_content m = bs \<and> 0 < length bs \<and> refCnt m = 1 \<and> int (length (array m)) \<le> 2 ^ 30 \<and>
    s1 = (sc_base s)\<lparr>cn_pending := [], cn_buf := Some m\<rparr> \<and> handle_fine s1 \<and> cn_connected s1 \<and>
    (\<forall>E n flags. sctp_read E (n, flags, bs) s =
       seqp (middle E n flags (int (length bs))) (on_base startReadMessage) (s\<lparr>sc_base := s1\<rparr>))"
proof -
  obtain m sm s1 where m: "message m" "heap_content m = bs" "refCnt m = 1" "int (length (array m)) \<le> 2 ^ 30"
    and s1: "s1 = (sc_base s)\<lparr>cn_pending := [], cn_buf := Some m\<rparr>"
      "socket_stores bs ((sc_base s)\<lparr>cn_pending := []\<rparr>) = (Ok (), sm)"
      "on_cumulation (bindp (asks (writerIndex heap_ops)) (\<lambda>w. set_writerIndex heap_ops (i32 (w + int (length bs))))) sm =
        (Ok (), s1)" "handle_fine s1" "cn_connected s1" "0 < length bs" "tl (cn_pending (sc_base s)) = []"
    using read_stored [OF assms] by (elim exE conjE) (rule that)
  define s0 where "s0 = s\<lparr>sc_base := (sc_base s)\<lparr>cn_pending := []\<rparr>\<rparr>"
  have 1: "on_base (modify (\<lambda>s. s\<lparr>cn_pending := tl (cn_pending s)\<rparr>)) s = (Ok (), s0)"
    using s1(7) by (simp add: on_base_run [OF modify_run] s0_def)
  have 2: "on_base (socket_stores bs) s0 = (Ok (), s0\<lparr>sc_base := sm\<rparr>)"
    using s1(2) by (intro on_base_run) (simp add: s0_def)
  have 3: "on_base (on_cumulation (bindp (asks (writerIndex heap_ops))
      (\<lambda>w. set_writerIndex heap_ops (i32 (w + int (length bs)))))) (s0\<lparr>sc_base := sm\<rparr>) = (Ok (), s\<lparr>sc_base := s1\<rparr>)"
    using on_base_run [OF s1(3) [folded sctp_connection.select_convs(1) [of sm "streamMsgs s"]]] s1(3)
    by (simp add: on_base_def zoom_def s0_def)
  have "sctp_read E (n, flags, bs) s =
      seqp (middle E n flags (int (length bs))) (on_base startReadMessage) (s\<lparr>sc_base := s1\<rparr>)" for E n flags
    using 1 2 3 by (simp add: sctp_read_def sctp_handleRead_def middle_def last_fragment_def seqp_def bindp_def)
  then show ?thesis using m s1 by (intro exI [of _ m] exI [of _ s1]) simp
qed

lemma sctp_back:
  assumes "M s = (Ok (), s2)" "handle_fine (sc_base s2)" "buf_fine (sc_base s2)" "cn_connected (sc_base s2)"
    "cn_pending (sc_base s2) = []"
  shows "\<exists>s3. seqp M (on_base startReadMessage) s = (Ok (), s3) \<and> reading (sc_base s3) \<and> streamMsgs s3 = streamMsgs s2 \<and>
    handlers (sc_base s3) = handlers (sc_base s2)"
proof -
  obtain s6 b6 where s6: "startReadMessage (sc_base s2) = (Ok (), s6)" "handle_fine s6" "cn_buf s6 = Some b6" "empty_buf b6" "refCnt b6 = 1"
    "cn_connected s6 = cn_connected (sc_base s2)" "handlers s6 = handlers (sc_base s2)"
    "cn_pending s6 = cn_pending (sc_base s2) @ [Reading (int (length (array b6)))]"
    using start_read_ok [OF assms(2,3)] by blast
  have "seqp M (on_base startReadMessage) s = (Ok (), s2\<lparr>sc_base := s6\<rparr>)"
    using assms(1) on_base_run [of startReadMessage s2, OF s6(1)] by (simp add: seqp_def bindp_def)
  then show ?thesis using s6 assms(4,5) by (intro exI [of _ "s2\<lparr>sc_base := s6\<rparr>"]) (simp add: reading_def)
qed

text \<open>A fragment that is not the last one is kept.\<close>

lemma append_run:
  assumes "cn_buf (sc_base s) = Some b" "message b" "0 < length (heap_content b)"
    and "stream_ok (streamMsgs s n) bs t" "t + length (heap_content b) \<le> 2 ^ 29"
  shows "\<exists>m. appendMessage n s = (Ok (), s\<lparr>sc_base := (sc_base s)\<lparr>cn_buf :=
        Some (b\<lparr>hb_base := (hb_base b)\<lparr>readerIdx := writerIdx (hb_base b)\<rparr>\<rparr>)\<rparr>, streamMsgs := (streamMsgs s)(n \<mapsto> m)\<rparr>) \<and>
      stream_ok (Some m) (bs @ heap_content b) (t + length (heap_content b))"
proof (cases "streamMsgs s n")
  case None
  obtain m0 where m0: "alloc_buffer (cn_junk (sc_base s)) (i32 (readableBytes heap_ops b * 2)) = Ok (Some m0)"
    "message m0" "heap_content m0 = []" using first_message [OF assms(2,3)] assms(5) by fastforce
  then show ?thesis using append_to_message [OF m0(2) assms(2)] None assms(1,4,5)
    by (auto simp: appendMessage_def stream_ok_def)
next
  case (Some m0)
  then have "message m0" "heap_content m0 = bs" "length bs \<le> t" using assms(4) by (simp_all add: stream_ok_def)
  then show ?thesis using append_to_message [OF _ assms(2), of m0] Some assms(1,5)
    by (auto simp: appendMessage_def stream_ok_def)
qed

lemma stream_ok_mono: "stream_ok x bs t \<Longrightarrow> t \<le> u \<Longrightarrow> stream_ok x bs u"
  by (auto simp: stream_ok_def split: option.splits)

lemma discard_read:
  assumes "message m" "refCnt m = 1" "int (length (array m)) \<le> 2 ^ 30"
    and "cn_buf s = Some (m\<lparr>hb_base := (hb_base m)\<lparr>readerIdx := writerIdx (hb_base m)\<rparr>\<rparr>)"
  shows "\<exists>s'. discardSomeBytes s = (Ok (), s') \<and> s' = s\<lparr>cn_buf := cn_buf s'\<rparr> \<and> buf_fine s'"
  by (rule discard_ok [OF assms(1) _ assms(4,3)]) (simp add: takes_all_def assms(2))

lemma fragment_kept:
  assumes "sctp_inv p t s" "fits bs (sc_base s)" "\<not> last_fragment flags" "t + length bs \<le> 2 ^ 29"
  shows "\<exists>s'. sctp_read E (n, flags, bs) s = (Ok (), s') \<and> sctp_inv (collected p (n, flags, bs)) (t + length bs) s' \<and>
    handlers (sc_base s') = handlers (sc_base s)"
proof -
  have inv: "reading (sc_base s)" "\<And>k. stream_ok (streamMsgs s k) (p k) t" using assms(1) by (simp_all add: sctp_inv_def)
  obtain m s1 where m: "message m" "heap_content m = bs" "0 < length bs" "refCnt m = 1" "int (length (array m)) \<le> 2 ^ 30"
    and s1: "s1 = (sc_base s)\<lparr>cn_pending := [], cn_buf := Some m\<rparr>" "handle_fine s1" "cn_connected s1"
    and run: "\<forall>E n flags. sctp_read E (n, flags, bs) s =
       seqp (middle E n flags (int (length bs))) (on_base startReadMessage) (s\<lparr>sc_base := s1\<rparr>)"
    using sctp_front [OF inv(1) assms(2)] by (elim exE conjE) (rule that)
  obtain s2 h where rec: "record_bytes (int (length bs)) s1 = (Ok (), s2)" "s2 = s1\<lparr>recvHandle := Some h\<rparr>" "handle_fine s2"
    using record_ok [OF s1(2), of "int (length bs)"] m(3) by auto
  define t2 where "t2 = s\<lparr>sc_base := s2\<rparr>"
  have b2: "cn_buf (sc_base t2) = Some m" by (simp add: t2_def rec(2) s1(1))
  obtain c where c: "appendMessage n t2 = (Ok (), t2\<lparr>sc_base := (sc_base t2)\<lparr>cn_buf :=
        Some (m\<lparr>hb_base := (hb_base m)\<lparr>readerIdx := writerIdx (hb_base m)\<rparr>\<rparr>)\<rparr>, streamMsgs := (streamMsgs t2)(n \<mapsto> c)\<rparr>)"
      "stream_ok (Some c) (p n @ bs) (t + length bs)"
    using append_run [OF b2 m(1), of n "p n" t] m(2,3) inv(2) assms(4) by (auto simp: t2_def)
  define t3 where "t3 = t2\<lparr>sc_base := (sc_base t2)\<lparr>cn_buf :=
        Some (m\<lparr>hb_base := (hb_base m)\<lparr>readerIdx := writerIdx (hb_base m)\<rparr>\<rparr>)\<rparr>, streamMsgs := (streamMsgs t2)(n \<mapsto> c)\<rparr>"
  obtain s4 where s4: "discardSomeBytes (sc_base t3) = (Ok (), s4)" "s4 = (sc_base t3)\<lparr>cn_buf := cn_buf s4\<rparr>" "buf_fine s4"
    using discard_read [OF m(1,4,5), of "sc_base t3"] by (auto simp: t3_def)
  have f4: "handle_fine s4" "cn_connected s4" "cn_pending s4 = []" "handlers s4 = handlers (sc_base s)"
    using rec(3) s1(3) by (subst s4(2), simp add: t3_def t2_def rec(2) s1(1) handle_fine_def)+
  have "on_base (record_bytes (int (length bs))) (s\<lparr>sc_base := s1\<rparr>) = (Ok (), t2)"
    using rec(1) by (simp add: on_base_def zoom_def t2_def)
  moreover have "appendMessage n t2 = (Ok (), t3)" using c(1) by (simp only: t3_def)
  moreover have "on_base discardSomeBytes t3 = (Ok (), t3\<lparr>sc_base := s4\<rparr>)" using s4(1) by (rule on_base_run)
  ultimately have "middle E n flags (int (length bs)) (s\<lparr>sc_base := s1\<rparr>) = (Ok (), t3\<lparr>sc_base := s4\<rparr>)"
    using assms(3) by (simp only: middle_def if_False) (rule three_steps [of _ _ t2 _ t3])
  then obtain s5 where s5: "sctp_read E (n, flags, bs) s = (Ok (), s5)" "reading (sc_base s5)"
    "streamMsgs s5 = streamMsgs t3" "handlers (sc_base s5) = handlers (sc_base s)"
    using sctp_back [of "middle E n flags (int (length bs))" "s\<lparr>sc_base := s1\<rparr>" "t3\<lparr>sc_base := s4\<rparr>"] f4 s4(3) run by auto
  have "stream_ok (streamMsgs t3 k) (collected p (n, flags, bs) k) (t + length bs)" for k
    using c(2) inv(2) [of k] stream_ok_mono [of "streamMsgs s k" "p k" t "t + length bs"] assms(3) by (simp add: t3_def t2_def)
  then show ?thesis using s5 by (intro exI [of _ s5]) (simp add: sctp_inv_def)
qed

text \<open>A message of one fragment reaches the pipeline in the read buffer, one of several in its own buffer.\<close>

context message_pipeline
begin

lemma single_fragment:
  assumes "handle_fine s" "cn_buf s = Some m" "message m" "refCnt m = 1" "int (length (array m)) \<le> 2 ^ 30" "0 < len"
    and "good ms (handlers s)" "allowed (ms @ [heap_content m])"
  shows "\<exists>s'. doM [retain_cumulation, messageReceived sctp_close E len] s = (Ok (), s') \<and> handle_fine s' \<and> buf_fine s' \<and>
    cn_connected s' = cn_connected s \<and> cn_pending s' = cn_pending s \<and> good (ms @ [heap_content m]) (handlers s')"
proof -
  define m2 where "m2 = m\<lparr>refCnt := retain_count 1 (refCnt m)\<rparr>"
  have m2: "message m2" "heap_content m2 = heap_content m" "refCnt m2 = 2" "int (length (array m2)) \<le> 2 ^ 30"
    using assms(3-5) by (auto simp: m2_def message_def roomy_def heap_valid_def heap_content_def content_def retain_count_def)
  define s2 where "s2 = s\<lparr>cn_buf := Some m2\<rparr>"
  have r: "retain_cumulation s = (Ok (), s2)"
    using assms(2) by (simp add: retain_cumulation_def on_cumulation_def modify_run s2_def m2_def)
  have "handle_fine s2" using assms(1) by (simp add: s2_def handle_fine_def)
  then obtain s3 h where rec: "record_bytes len s2 = (Ok (), s3)" "s3 = s2\<lparr>recvHandle := Some h\<rparr>" "handle_fine s3"
    using record_ok assms(6) by blast
  obtain b' hs closes where p: "pe_read E m2 (handlers s3) = (b', hs, closes)" by (metis prod_cases3)
  have c: "good (ms @ [heap_content m]) hs" "closes = Ok False" "takes_all m2 b'"
    using takes [OF _ m2(1) _ p, of ms] leaves [OF m2(1,3) p] m2(2) assms(7,8) by (simp_all add: rec(2) s2_def)
  define s4 where "s4 = s3\<lparr>cn_buf := Some b', handlers := hs\<rparr>"
  have fire: "fireRead sctp_close E s3 = (Ok (), s4)"
    using p c(2) by (simp add: fireRead_def rec(2) s2_def bindp_def lift_outcome_run ret_run s4_def)
  obtain s5 where s5: "discardSomeBytes s4 = (Ok (), s5)" "s5 = s4\<lparr>cn_buf := cn_buf s5\<rparr>" "buf_fine s5"
    using discard_ok [OF m2(1) c(3), of s4] m2(4) by (auto simp: s4_def)
  have "messageReceived sctp_close E len s2 = (Ok (), s5)"
    unfolding messageReceived_def by (intro three_steps [of _ s2 s3 _ s4]) (rule rec fire s5(1))+
  moreover have "handle_fine s5" "cn_connected s5 = cn_connected s" "cn_pending s5 = cn_pending s" "handlers s5 = hs"
    using rec(3) by (subst s5(2), simp add: s4_def rec(2) s2_def handle_fine_def)+
  ultimately show ?thesis using r s5(3) c(1) by (intro exI [of _ s5]) (simp add: seqp_def bindp_def)
qed

lemma last_of_several:
  assumes "handle_fine s" "message m'" "0 < len" "message m" "refCnt m = 1" "int (length (array m)) \<le> 2 ^ 30"
    and "cn_buf s = Some (m\<lparr>hb_base := (hb_base m)\<lparr>readerIdx := writerIdx (hb_base m)\<rparr>\<rparr>)"
    and "good ms (handlers s)" "allowed (ms @ [heap_content m'])"
  shows "\<exists>s'. doM [record_bytes len, fire_buffer sctp_close E m', discardSomeBytes] s = (Ok (), s') \<and>
    handle_fine s' \<and> buf_fine s' \<and> cn_connected s' = cn_connected s \<and> cn_pending s' = cn_pending s \<and>
    good (ms @ [heap_content m']) (handlers s')"
proof -
  obtain s3 h where rec: "record_bytes len s = (Ok (), s3)" "s3 = s\<lparr>recvHandle := Some h\<rparr>" "handle_fine s3"
    using record_ok [OF assms(1,3)] by blast
  obtain b' hs closes where p: "pe_read E m' (handlers s3) = (b', hs, closes)" by (metis prod_cases3)
  have c: "good (ms @ [heap_content m']) hs" "closes = Ok False"
    using takes [OF _ assms(2) _ p, of ms] assms(8,9) by (simp_all add: rec(2))
  define s4 where "s4 = s3\<lparr>handlers := hs\<rparr>"
  have fire: "fire_buffer sctp_close E m' s3 = (Ok (), s4)"
    using p c(2) by (simp add: fire_buffer_def bindp_def lift_outcome_run ret_run s4_def)
  obtain s5 where s5: "discardSomeBytes s4 = (Ok (), s5)" "s5 = s4\<lparr>cn_buf := cn_buf s5\<rparr>" "buf_fine s5"
    using discard_read [OF assms(4-6), of s4] assms(7) by (auto simp: s4_def rec(2))
  have "doM [record_bytes len, fire_buffer sctp_close E m', discardSomeBytes] s = (Ok (), s5)"
    by (intro three_steps [of _ s s3 _ s4]) (rule rec fire s5(1))+
  moreover have "handle_fine s5" "cn_connected s5 = cn_connected s" "cn_pending s5 = cn_pending s" "handlers s5 = hs"
    using rec(3) by (subst s5(2), simp add: s4_def rec(2) handle_fine_def)+
  ultimately show ?thesis using s5(3) c(1) by (intro exI [of _ s5]) simp
qed

end

lemma on_base_doM:
  assumes "doM ms (sc_base s) = (Ok (), b)"
  shows "doM (map on_base ms) s = (Ok (), s\<lparr>sc_base := b\<rparr>)"
  using assms
proof (induction ms arbitrary: s)
  case Nil
  then show ?case by (simp add: ret_run)
next
  case (Cons m ms)
  show ?case
  proof (cases ms)
    case Nil
    then show ?thesis using Cons.prems by (simp add: on_base_run)
  next
    case (Cons k ks)
    then obtain a s1 where 1: "m (sc_base s) = (Ok a, s1)" "doM ms s1 = (Ok (), b)"
      using Cons.prems by (auto elim: seqp_OkE)
    then show ?thesis using Cons.IH [of "s\<lparr>sc_base := s1\<rparr>"] Cons
      by (simp add: seqp_def bindp_def on_base_run [of m s, OF 1(1)])
  qed
qed

lemma get_and_remove: "getAndRemoveMessage n s = (Ok (streamMsgs s n), s\<lparr>streamMsgs := (streamMsgs s)(n := None)\<rparr>)"
  by (simp add: getAndRemoveMessage_def bindp_def seqp_def asks_run modify_run ret_run)

context message_pipeline
begin

lemma whole_message_run:
  assumes "cn_buf (sc_base s) = Some m" "message m" "refCnt m = 1" "int (length (array m)) \<le> 2 ^ 30"
    and "0 < length (heap_content m)" "handle_fine (sc_base s)" "stream_ok (streamMsgs s n) bs t"
    and "t + length (heap_content m) \<le> 2 ^ 29" "good ms (handlers (sc_base s))" "allowed (ms @ [bs @ heap_content m])"
  shows "\<exists>c. whole_message E n (int (length (heap_content m))) s =
      (Ok (), s\<lparr>sc_base := c, streamMsgs := (streamMsgs s)(n := None)\<rparr>) \<and>
    handle_fine c \<and> buf_fine c \<and> cn_connected c = cn_connected (sc_base s) \<and> cn_pending c = cn_pending (sc_base s) \<and>
    good (ms @ [bs @ heap_content m]) (handlers c)"
proof -
  let ?len = "int (length (heap_content m))"
  define s1 where "s1 = s\<lparr>streamMsgs := (streamMsgs s)(n := None)\<rparr>"
  show ?thesis
  proof (cases "streamMsgs s n")
    case None
    then have "bs = []" using assms(7) by (simp add: stream_ok_def)
    then obtain c where c: "doM [retain_cumulation, messageReceived sctp_close E ?len] (sc_base s1) = (Ok (), c)"
      "handle_fine c" "buf_fine c" "cn_connected c = cn_connected (sc_base s)" "cn_pending c = cn_pending (sc_base s)"
      "good (ms @ [heap_content m]) (handlers c)"
      using single_fragment [of "sc_base s1" m ?len ms] assms(1-6,9,10) by (auto simp: s1_def)
    have "whole_message E n ?len s = (Ok (), s1\<lparr>sc_base := c\<rparr>)"
      using on_base_doM [OF c(1)] None by (simp add: whole_message_def bindp_Ok [OF get_and_remove] s1_def)
    then show ?thesis using c assms(7) None by (intro exI [of _ c]) (simp add: s1_def stream_ok_def)
  next
    case (Some m0)
    then have m0: "message m0" "heap_content m0 = bs" "length bs \<le> t" using assms(7) by (simp_all add: stream_ok_def)
    obtain m' where m': "writeCharsBuf heap_ops heap_ops (m0, m) =
        (Ok (), (m', m\<lparr>hb_base := (hb_base m)\<lparr>readerIdx := writerIdx (hb_base m)\<rparr>\<rparr>))"
      "message m'" "heap_content m' = bs @ heap_content m"
      using append_to_message [OF m0(1) assms(2)] m0(2,3) assms(8) by auto
    define s2 where "s2 = s1\<lparr>sc_base := (sc_base s)\<lparr>cn_buf := Some (m\<lparr>hb_base := (hb_base m)\<lparr>readerIdx := writerIdx (hb_base m)\<rparr>\<rparr>)\<rparr>\<rparr>"
    have ap: "append_read m0 s1 = (Ok m', s2)"
      using assms(1) m'(1) by (simp add: append_read_def s1_def s2_def)
    have "handle_fine (sc_base s2)" using assms(6) by (simp add: s2_def handle_fine_def)
    then obtain c where c: "doM [record_bytes ?len, fire_buffer sctp_close E m', discardSomeBytes] (sc_base s2) = (Ok (), c)"
      "handle_fine c" "buf_fine c" "cn_connected c = cn_connected (sc_base s)" "cn_pending c = cn_pending (sc_base s)"
      "good (ms @ [bs @ heap_content m]) (handlers c)"
      using last_of_several [of "sc_base s2" m' ?len m ms] m'(2,3) assms(2-5,9,10) by (auto simp: s2_def)
    have "whole_message E n ?len s = (Ok (), s2\<lparr>sc_base := c\<rparr>)"
      using on_base_doM [OF c(1)] Some ap
      by (simp add: whole_message_def bindp_Ok [OF get_and_remove] bindp_Ok [of "append_read m0" s1 m' s2] flip: s1_def)
    then show ?thesis using c by (intro exI [of _ c]) (simp add: s1_def s2_def)
  qed
qed

lemma message_delivered:
  assumes "sctp_inv p t s" "fits bs (sc_base s)" "last_fragment flags" "t + length bs \<le> 2 ^ 29"
    and "good ms (handlers (sc_base s))" "allowed (ms @ [p n @ bs])"
  shows "\<exists>s'. sctp_read E (n, flags, bs) s = (Ok (), s') \<and> sctp_inv (collected p (n, flags, bs)) (t + length bs) s' \<and>
    good (ms @ [p n @ bs]) (handlers (sc_base s'))"
proof -
  have inv: "reading (sc_base s)" "\<And>k. stream_ok (streamMsgs s k) (p k) t" using assms(1) by (simp_all add: sctp_inv_def)
  obtain m s1 where m: "message m" "heap_content m = bs" "0 < length bs" "refCnt m = 1" "int (length (array m)) \<le> 2 ^ 30"
    and s1: "s1 = (sc_base s)\<lparr>cn_pending := [], cn_buf := Some m\<rparr>" "handle_fine s1" "cn_connected s1"
    and run: "\<forall>E n flags. sctp_read E (n, flags, bs) s =
       seqp (middle E n flags (int (length bs))) (on_base startReadMessage) (s\<lparr>sc_base := s1\<rparr>)"
    using sctp_front [OF inv(1) assms(2)] by (elim exE conjE) (rule that)
  define t1 where "t1 = s\<lparr>sc_base := s1\<rparr>"
  have t1: "cn_buf (sc_base t1) = Some m" "handle_fine (sc_base t1)" "stream_ok (streamMsgs t1 n) (p n) t"
    "cn_pending (sc_base t1) = []" "handlers (sc_base t1) = handlers (sc_base s)" "streamMsgs t1 = streamMsgs s"
    using s1 inv(2) by (simp_all add: t1_def)
  obtain c where c: "whole_message E n (int (length bs)) t1 =
      (Ok (), t1\<lparr>sc_base := c, streamMsgs := (streamMsgs t1)(n := None)\<rparr>)"
    "handle_fine c" "buf_fine c" "cn_connected c" "cn_pending c = []" "good (ms @ [p n @ bs]) (handlers c)"
    using whole_message_run [OF t1(1) m(1,4,5) _ t1(2,3), of ms] m(2,3) assms(4-6) t1(4,5) s1(3) by (auto simp: t1_def)
  then have "middle E n flags (int (length bs)) t1 = (Ok (), t1\<lparr>sc_base := c, streamMsgs := (streamMsgs t1)(n := None)\<rparr>)"
    using assms(3) by (simp add: middle_def)
  then obtain s5 where s5: "sctp_read E (n, flags, bs) s = (Ok (), s5)" "reading (sc_base s5)"
    "streamMsgs s5 = (streamMsgs s)(n := None)" "handlers (sc_base s5) = handlers c"
    using sctp_back [of "middle E n flags (int (length bs))" t1] c(2-5) run t1(6) by (auto simp: t1_def)
  have "stream_ok (streamMsgs s5 k) (collected p (n, flags, bs) k) (t + length bs)" for k
    using inv(2) [of k] stream_ok_mono [of "streamMsgs s k" "p k" t "t + length bs"] assms(3) s5(3) by (simp add: stream_ok_def)
  then show ?thesis using s5 c(6) by (intro exI [of _ s5]) (simp add: sctp_inv_def)
qed

lemma read_kept_or_delivered:
  assumes "sctp_inv p t s" "fits bs (sc_base s)" "t + length bs \<le> 2 ^ 29" "good ms (handlers (sc_base s))"
    and "last_fragment flags \<Longrightarrow> allowed (ms @ [p n @ bs])"
  shows "\<exists>s'. sctp_read E (n, flags, bs) s = (Ok (), s') \<and> sctp_inv (collected p (n, flags, bs)) (t + length bs) s' \<and>
    good (ms @ (if last_fragment flags then [p n @ bs] else [])) (handlers (sc_base s'))"
proof (cases "last_fragment flags")
  case True
  then show ?thesis using message_delivered [OF assms(1,2) True assms(3,4)] assms(5) by auto
next
  case False
  then show ?thesis using fragment_kept [OF assms(1,2) False assms(3)] assms(4) by fastforce
qed

lemma messages_whole:
  "sctp_inv p t s \<Longrightarrow> sctp_fit E fs s \<Longrightarrow> t + length (concat (map (\<lambda>f. snd (snd f)) fs)) \<le> 2 ^ 29 \<Longrightarrow>
   good ms (handlers (sc_base s)) \<Longrightarrow> \<forall>k. allowed (ms @ take k (whole_messages p fs)) \<Longrightarrow>
   \<exists>s'. sctp_reads E fs s = (Ok (), s') \<and> reading (sc_base s') \<and> good (ms @ whole_messages p fs) (handlers (sc_base s'))"
proof (induction fs arbitrary: s p t ms)
  case Nil
  then show ?case by (simp add: ret_run sctp_inv_def)
next
  case (Cons f fs)
  obtain n flags bs where f: "f = (n, flags, bs)" by (metis prod_cases3)
  have pre: "fits bs (sc_base s)" "t + length bs \<le> 2 ^ 29" using Cons.prems(2,3) f by simp_all
  let ?new = "if last_fragment flags then [p n @ bs] else []"
  have w: "whole_messages p (f # fs) = ?new @ whole_messages (collected p f) fs" using f by simp
  obtain s1 where s1: "sctp_read E f s = (Ok (), s1)" "sctp_inv (collected p f) (t + length bs) s1" "good (ms @ ?new) (handlers (sc_base s1))"
    using read_kept_or_delivered [OF Cons.prems(1) pre Cons.prems(4), of flags n] Cons.prems(5) [unfolded w, rule_format, of 1] f
    by (cases "last_fragment flags") auto
  have "sctp_fit E fs s1" "t + length bs + length (concat (map (\<lambda>f. snd (snd f)) fs)) \<le> 2 ^ 29"
    using Cons.prems(2,3) s1(1) f by simp_all
  moreover have "\<forall>k. allowed ((ms @ ?new) @ take k (whole_messages (collected p f) fs))"
  proof
    fix k
    show "allowed ((ms @ ?new) @ take k (whole_messages (collected p f) fs))"
      using Cons.prems(5) [unfolded w, rule_format, of "length ?new + k"] by (simp split: if_splits)
  qed
  ultimately obtain s' where "sctp_reads E fs s1 = (Ok (), s')" "reading (sc_base s')"
    "good ((ms @ ?new) @ whole_messages (collected p f) fs) (handlers (sc_base s'))"
    using Cons.IH [OF s1(2) _ _ s1(3)] by blast
  then show ?case using s1(1) unfolding w by (auto simp: seqp_def bindp_def)
qed

text \<open>Reads of one or two bytes always fit.\<close>

lemma small_fragments_fit:
  "sctp_inv p t s \<Longrightarrow> \<forall>f\<in>set fs. length (snd (snd f)) \<in> {1, 2} \<Longrightarrow> t + length (concat (map (\<lambda>f. snd (snd f)) fs)) \<le> 2 ^ 29 \<Longrightarrow>
   good ms (handlers (sc_base s)) \<Longrightarrow> \<forall>k. allowed (ms @ take k (whole_messages p fs)) \<Longrightarrow> sctp_fit E fs s"
proof (induction fs arbitrary: s p t ms)
  case (Cons f fs)
  obtain n flags bs where f: "f = (n, flags, bs)" by (metis prod_cases3)
  have fit: "fits bs (sc_base s)" using small_fits Cons.prems(1,2) f by (auto simp: sctp_inv_def)
  have le: "t + length bs \<le> 2 ^ 29" using Cons.prems(3) f by simp
  let ?new = "if last_fragment flags then [p n @ bs] else []"
  have w: "whole_messages p (f # fs) = ?new @ whole_messages (collected p f) fs" using f by simp
  obtain s1 where s1: "sctp_read E f s = (Ok (), s1)" "sctp_inv (collected p f) (t + length bs) s1" "good (ms @ ?new) (handlers (sc_base s1))"
    using read_kept_or_delivered [OF Cons.prems(1) fit le Cons.prems(4), of flags n] Cons.prems(5) [unfolded w, rule_format, of 1] f
    by (cases "last_fragment flags") auto
  have "allowed ((ms @ ?new) @ take k (whole_messages (collected p f) fs))" for k
    using Cons.prems(5) [unfolded w, rule_format, of "length ?new + k"] by (simp split: if_splits)
  then have al: "\<forall>k. allowed ((ms @ ?new) @ take k (whole_messages (collected p f) fs))" by blast
  have "sctp_fit E fs s1" by (rule Cons.IH [OF s1(2) _ _ s1(3) al]) (use Cons.prems(2,3) f in simp_all)
  then show ?case using fit s1(1) f by simp
qed simp

end

section \<open>A frame decoder behind the connection\<close>

text \<open>
  The pipeline of a decoder, with a record of the buffers that the connection gave to it. A shared
  buffer that it has read stays with the connection.
\<close>

definition watched :: "'h pipe_env \<Rightarrow> ('h \<times> byte list list) pipe_env" where
  "watched E = \<lparr>pe_read = (\<lambda>m (h, log). case pe_read E m h of (b, h', closes) \<Rightarrow> (b, (h', log @ [heap_content m]), closes)),
     pe_active = ret (), pe_inactive = ret ()\<rparr>"

lemma shared_frame: "refCnt m = 2 \<Longrightarrow> pe_read (frame_pipe kept) m h = (b', h', closes) \<Longrightarrow> takes_all m b'"
proof -
  assume a: "refCnt m = 2" "pe_read (frame_pipe kept) m h = (b', h', closes)"
  then obtain dec where "b' = decoder_view kept m h dec" by (auto simp: frame_pipe_def split: prod.splits)
  moreover have "1 < refCnt (decoder_view kept m h dec)"
    using a(1) by (cases "cumulation h"; cases "cumulation dec") (simp_all add: decoder_view_def Let_def)
  ultimately show ?thesis by (simp add: takes_all_def)
qed

interpretation wf: message_pipeline "watched (frame_pipe kept)" "\<lambda>ms h. snd h = ms \<and> decoded d (concat ms) (fst h)"
    "\<lambda>ms. well_formed d (concat ms)"
  by unfold_locales (auto simp: watched_def split: prod.splits dest: frame_pipe_decodes shared_frame)

text \<open>No more bytes are in the messages than came in.\<close>

lemma whole_messages_length:
  "finite A \<Longrightarrow> (\<forall>n. n \<notin> A \<longrightarrow> p n = []) \<Longrightarrow>
   length (concat (whole_messages p fs)) \<le> (\<Sum>n\<in>A. length (p n)) + length (concat (map (\<lambda>f. snd (snd f)) fs))"
proof (induction fs arbitrary: p A)
  case (Cons f fs)
  obtain n flags bs where f: "f = (n, flags, bs)" by (metis prod_cases3)
  let ?B = "insert n A" and ?q = "collected p f"
  have sum: "(\<Sum>k\<in>?B. length (g k)) = length (g n) + (\<Sum>k\<in>A - {n}. length (g k))" for g :: "16 word \<Rightarrow> byte list"
    by (rule sum.insert_remove [OF Cons.prems(1)])
  have "(\<Sum>k\<in>A - {n}. length (?q k)) = (\<Sum>k\<in>A - {n}. length (p k))" by (rule sum.cong) (simp_all add: f)
  moreover have "(\<Sum>k\<in>?B. length (p k)) = (\<Sum>k\<in>A. length (p k))"
    using Cons.prems by (intro sum.mono_neutral_right) auto
  moreover have "length (concat (whole_messages ?q fs)) \<le> (\<Sum>k\<in>?B. length (?q k)) + length (concat (map (\<lambda>f. snd (snd f)) fs))"
    using Cons.prems by (intro Cons.IH) (auto simp: f)
  ultimately show ?case using sum [of p] sum [of ?q] f by (cases "last_fragment flags") simp_all
qed simp

lemma sctp_accepted_reading:
  assumes "alloc_ok al"
  shows "\<exists>s. sctp_accepted al junk h = (Ok (), s) \<and> sctp_inv (\<lambda>_. []) 0 s \<and> handlers (sc_base s) = h"
proof -
  obtain s where s: "tcp_accepted al junk h = (Ok (), s)" "reading s" "handlers s = h"
    using accepted_reading [OF assms, of junk h] by (elim exE conjE) (rule that)
  have "sctp_accepted al junk h = (Ok (), \<lparr>sc_base = s, streamMsgs = Map.empty\<rparr>)"
    using s(1) by (auto simp: sctp_accepted_def tcp_accepted_def SctpConnection_new_def TcpConnection_new_def on_base_def
        zoom_def split: prod.splits outcome.splits)
  then show ?thesis using s(2,3) by (simp add: sctp_inv_def stream_ok_def)
qed

section \<open>Properties\<close>

text \<open>
  C13: SCTP end to end. A connection is accepted, reads with the default allocator and has a frame
  decoder in its pipeline. Whatever streams the peer's messages travel on and however their fragments
  interleave, as long as each fits into the buffer that is offered and no more than 2^29 bytes arrive in
  all, the pipeline is given exactly the messages that are complete, each whole and in the order in which
  they were completed, and the next handler of the decoder gets exactly the payloads of the frames
  in them; in the end one read is under way.
\<close>

theorem sctp_messages_whole:
  assumes "AdaptiveRecvByteBufAllocator_default = Ok al"
    and "LengthFieldBasedFrameDecoder_new maxLen off len adj strip = Ok d" "len \<in> {1, 2, 4, 8}"
    and "maxLen \<le> INT_MAX" "strip \<le> INT_MAX" "INT_MIN \<le> adj" "adj \<le> INT_MAX"
    and "\<forall>f\<in>set Fs. frame_ok d f" "concat (whole_messages (\<lambda>_. []) fs) = concat Fs"
    and "sctp_accepted al junk (ByteToMessageDecoder_new junk' d, []) = (r, s)"
    and "sctp_fit (watched (frame_pipe kept)) fs s" "length (concat (map (\<lambda>f. snd (snd f)) fs)) \<le> 2 ^ 29"
  shows "\<exists>s'. r = Ok () \<and> sctp_reads (watched (frame_pipe kept)) fs s = (Ok (), s') \<and>
    snd (handlers (sc_base s')) = whole_messages (\<lambda>_. []) fs \<and>
    map frame_bytes (fired (fst (handlers (sc_base s')))) = map (payload d) Fs \<and>
    (\<exists>n. cn_pending (sc_base s') = [Reading n])"
proof -
  have cfg: "cfg_ok d" "\<not> discardingTooLong d" using new_cfg_ok [OF assms(2-7)] by auto
  have "alloc_ok al" using default_allocator assms(1) by (metis outcome.inject(1))
  then have s: "r = Ok ()" "sctp_inv (\<lambda>_. []) 0 s" "handlers (sc_base s) = (ByteToMessageDecoder_new junk' d, [])"
    using sctp_accepted_reading [of al junk "(ByteToMessageDecoder_new junk' d :: (frame_decoder, heap_buf sliced) decoder, [] :: byte list list)"]
      assms(10) by auto
  have good: "snd (handlers (sc_base s)) = [] \<and> decoded d (concat []) (fst (handlers (sc_base s)))"
    using cfg parses_nil [OF cfg(1)] by (auto simp: s(3) decoded_def pending_def ByteToMessageDecoder_new_def)
  have len: "length (concat Fs) \<le> 2 ^ 30"
    using whole_messages_length [of "{}" "\<lambda>_. []" fs] assms(9,12) by simp
  have allowed: "\<forall>k. well_formed d (concat ([] @ take k (whole_messages (\<lambda>_. []) fs)))"
    using well_formed_prefix [OF cfg(1) assms(8,9) len] by simp
  obtain s' where s': "sctp_reads (watched (frame_pipe kept)) fs s = (Ok (), s')" "reading (sc_base s')"
    "snd (handlers (sc_base s')) = whole_messages (\<lambda>_. []) fs" "decoded d (concat Fs) (fst (handlers (sc_base s')))"
    using wf.messages_whole [OF s(2) assms(11) _ good allowed] assms(9,12) by auto
  then obtain gs t where g: "parses d (concat Fs) gs t" "map frame_bytes (fired (fst (handlers (sc_base s')))) = gs"
    by (auto simp: decoded_def)
  have "gs = map (payload d) Fs" using parses_det [OF parses_stream [OF cfg(1) assms(8)] g(1)] by simp
  then show ?thesis using s(1) s' g(2) by (auto simp: reading_def)
qed

theorem sctp_messages_whole_witness:
  "\<exists>al d s s'. AdaptiveRecvByteBufAllocator_default = Ok al \<and> LengthFieldBasedFrameDecoder_new 100 0 2 0 2 = Ok d \<and>
     sctp_accepted al (\<lambda>_. 0) (ByteToMessageDecoder_new (\<lambda>_. 0) d, []) = (Ok (), s) \<and>
     sctp_reads (watched (frame_pipe length)) [(1, 0, [0, 1]), (2, 0x80, [0, 0]), (1, 0x80, [98])] s = (Ok (), s') \<and>
     snd (handlers (sc_base s')) = [[0, 0], [0, 1, 98]] \<and> map frame_bytes (fired (fst (handlers (sc_base s')))) = [[], [98]]"
proof -
  obtain d where d: "LengthFieldBasedFrameDecoder_new 100 0 2 0 2 = Ok d" "lengthFieldLength d = 2"
    "lengthFieldOffset d = 0" "lengthFieldEndOffset d = 2" "lengthAdjustment d = 0" "initialBytesToStrip d = 2"
    "maxFrameLength d = 100" using two_byte_decoder by blast
  obtain al where al: "AdaptiveRecvByteBufAllocator_default = Ok al" "alloc_ok al" using default_allocator by blast
  let ?h = "(ByteToMessageDecoder_new (\<lambda>_. 0) d :: (frame_decoder, heap_buf sliced) decoder, [] :: byte list list)"
  obtain s where s: "sctp_accepted al (\<lambda>_. 0) ?h = (Ok (), s)" "sctp_inv (\<lambda>_. []) 0 s" "handlers (sc_base s) = ?h"
    using sctp_accepted_reading [OF al(2), of "\<lambda>_. 0" ?h] by (elim exE conjE) (rule that)
  let ?fs = "[(1, 0, [0, 1]), (2, 0x80, [0, 0]), (1, 0x80, [98])] :: fragment list" and ?Fs = "[[0, 0], [0, 1, 98]] :: byte list list"
  have w: "whole_messages (\<lambda>_. []) ?fs = ?Fs" by (simp add: last_fragment_def MSG_EOR_def)
  have "enc16 0 = [0, 0]" "enc16 1 = [0, 1]" by code_simp+
  then have f: "\<forall>f\<in>set ?Fs. frame_ok d f"
    using d two_byte_announced [of d 0 "[]"] two_byte_announced [of d 1 "[98]"] by (simp add: frame_ok_def header_ok_def)
  have cfg: "cfg_ok d" "\<not> discardingTooLong d" using new_cfg_ok [OF d(1)] by auto
  have good: "snd (handlers (sc_base s)) = [] \<and> decoded d (concat []) (fst (handlers (sc_base s)))"
    using cfg parses_nil [OF cfg(1)] by (auto simp: s(3) decoded_def pending_def ByteToMessageDecoder_new_def)
  have "\<forall>k. well_formed d (concat ([] @ take k (whole_messages (\<lambda>_. []) ?fs)))"
    unfolding w using well_formed_prefix [OF cfg(1) f refl] by simp
  then have fit: "sctp_fit (watched (frame_pipe length)) ?fs s" by (intro wf.small_fragments_fit [OF s(2) _ _ good]) simp_all
  have cat: "concat (whole_messages (\<lambda>_. []) ?fs) = concat ?Fs" unfolding w ..
  obtain s' where "sctp_reads (watched (frame_pipe length)) ?fs s = (Ok (), s')"
    "snd (handlers (sc_base s')) = whole_messages (\<lambda>_. []) ?fs"
    "map frame_bytes (fired (fst (handlers (sc_base s')))) = map (payload d) ?Fs"
    using sctp_messages_whole [OF al(1) d(1) _ _ _ _ _ f cat s(1) fit] by auto
  then show ?thesis using al(1) d(1,6) s(1) w by (auto simp: payload_def)
qed

end
