(* ===== verification/Reactor.thy ===== *)
theory Reactor
  imports SizeMath "HOL-Library.Signed_Division"
begin

text \<open>
  \<open>AtomicInteger<int>\<close> (src/include/AtomicInteger.hpp), the event reactors and their group
  (src/common/net/NioEventReactor.hpp and .cpp, NioEventReactorGroup.hpp and .cpp) and the acceptor of
  connections, which gives each new connection a reactor of the group.
\<close>

section \<open>\<open>AtomicInteger\<close>\<close>

text \<open>Every operation holds the mutex; it takes the value to its result and the value it leaves.\<close>

definition getAndSet :: "int \<Rightarrow> (int, int) prog" where
  "getAndSet i v = (Ok v, i)"

definition compareAndSet :: "int \<Rightarrow> int \<Rightarrow> (int, bool) prog" where
  "compareAndSet expect update v = (if v = expect then (Ok True, update) else (Ok False, v))"

definition compareAndSet_if :: "(int \<Rightarrow> bool) \<Rightarrow> int \<Rightarrow> (int, bool) prog" where
  "compareAndSet_if pred update v = (if pred v then (Ok True, update) else (Ok False, v))"

definition getAndIncrement :: "int \<Rightarrow> (int, int) prog" where
  "getAndIncrement i v = (Ok v, i32 (v + i))"

definition incrementAndGet :: "int \<Rightarrow> (int, int) prog" where
  "incrementAndGet i v = (Ok (i32 (v + i)), i32 (v + i))"

definition getAndDescrement :: "int \<Rightarrow> (int, int) prog" where
  "getAndDescrement i v = (Ok v, i32 (v - i))"

definition descrementAndGet :: "int \<Rightarrow> (int, int) prog" where
  "descrementAndGet i v = (Ok (i32 (v - i)), i32 (v - i))"

text \<open>
  The postfix operators copy before they change, in two steps: \<open>between\<close> is what other threads do in
  the meantime. The unary minus decrements.
\<close>

definition post_increment :: "(int \<Rightarrow> int) \<Rightarrow> (int, int) prog" where
  "post_increment between v = (Ok v, i32 (between v + 1))"

definition post_decrement :: "(int \<Rightarrow> int) \<Rightarrow> (int, int) prog" where
  "post_decrement between v = (Ok v, i32 (between v - 1))"

definition minus_operator :: "(int, unit) prog" where
  "minus_operator v = (Ok (), i32 (v - 1))"

definition not_operator :: "int \<Rightarrow> bool" where
  "not_operator v \<longleftrightarrow> v \<noteq> 0"

text \<open>
  A comparison or an assignment reads the other object under its own mutex; the values are those at the
  time of the two reads. \<open>same\<close>: both are one object, which an assignment leaves alone.
\<close>

definition AtomicInteger_new :: "int \<Rightarrow> int" where "AtomicInteger_new i = i"
definition AtomicInteger_default :: int where "AtomicInteger_default = 0"
definition AtomicInteger_copy :: "int \<Rightarrow> int" where "AtomicInteger_copy right = right"

definition set_atomic :: "int \<Rightarrow> (int, unit) prog" where
  "set_atomic i v = (Ok (), i)"

definition get_atomic :: "(int, int) prog" where
  "get_atomic v = (Ok v, v)"

definition assign :: "bool \<Rightarrow> int \<Rightarrow> (int, unit) prog" where
  "assign same right = (if same then ret () else set_atomic right)"

definition plus_assign :: "int \<Rightarrow> (int, unit) prog" where
  "plus_assign i = bindp (incrementAndGet i) (\<lambda>_. ret ())"

definition minus_assign :: "int \<Rightarrow> (int, unit) prog" where
  "minus_assign i = bindp (descrementAndGet i) (\<lambda>_. ret ())"

definition pre_increment :: "(int, unit) prog" where
  "pre_increment = bindp (incrementAndGet 1) (\<lambda>_. ret ())"

datatype comparison = Equal | Not_equal | Greater | Greater_equal | Less | Less_equal

fun compare_atomic :: "comparison \<Rightarrow> int \<Rightarrow> int \<Rightarrow> bool" where
  "compare_atomic Equal l r = (l = r)"
| "compare_atomic Not_equal l r = (l \<noteq> r)"
| "compare_atomic Greater l r = (l > r)"
| "compare_atomic Greater_equal l r = (l \<ge> r)"
| "compare_atomic Less l r = (l < r)"
| "compare_atomic Less_equal l r = (l \<le> r)"

text \<open>Any mixture of increments and decrements by many threads ends with the sum, reduced once.\<close>

datatype counter_op = Add int | Sub int | Pre_increment | Post_increment | Post_decrement

fun counter_step :: "counter_op \<Rightarrow> int \<Rightarrow> int" where
  "counter_step (Add i) v = snd (plus_assign i v)"
| "counter_step (Sub i) v = snd (minus_assign i v)"
| "counter_step Pre_increment v = snd (pre_increment v)"
| "counter_step Post_increment v = snd (post_increment (\<lambda>x. x) v)"
| "counter_step Post_decrement v = snd (post_decrement (\<lambda>x. x) v)"

fun amount :: "counter_op \<Rightarrow> int" where
  "amount (Add i) = i"
| "amount (Sub i) = - i"
| "amount Pre_increment = 1"
| "amount Post_increment = 1"
| "amount Post_decrement = - 1"

lemma i32_wrap_add: "i32 (i32 x + y) = i32 (x + y)"
  by (simp add: i32_def mod_simps ac_simps)

lemma counter_step_amount: "counter_step op v = i32 (v + amount op)"
  by (cases op) (simp_all add: plus_assign_def minus_assign_def pre_increment_def post_increment_def post_decrement_def
      incrementAndGet_def descrementAndGet_def bindp_def ret_run)

theorem counter_sums: "fold counter_step ops (i32 v) = i32 (v + sum_list (map amount ops))"
  by (induction ops arbitrary: v) (simp_all add: counter_step_amount i32_wrap_add add.assoc)

section \<open>Reactors\<close>

text \<open>A reactor is running once its thread exists.\<close>

record reactor =
  rx_stop :: bool
  rx_running :: bool

definition NioEventReactor_new :: reactor where
  "NioEventReactor_new = \<lparr>rx_stop = False, rx_running = False\<rparr>"

definition isInEventLoop :: "reactor \<Rightarrow> bool" where
  "isInEventLoop r = rx_running r"

definition reactor_start :: "reactor \<Rightarrow> reactor" where
  "reactor_start r = (if isInEventLoop r then r else r\<lparr>rx_running := True\<rparr>)"

definition reactor_shutdown :: "reactor \<Rightarrow> reactor" where
  "reactor_shutdown r = (if rx_stop r \<or> \<not> rx_running r then r else r\<lparr>rx_stop := True\<rparr>)"

section \<open>The group\<close>

text \<open>
  A chooser refers to the vector of the group but keeps the size it had; reactors are numbered by their
  place. \<open>deleted\<close> are the reactors that were shut down and deleted.
\<close>

datatype chooser = PowerOfTwoEventReactorChooser | GenericEventReactorChooser

record reactor_group =
  eventReactors :: "reactor list"
  gr_chooser :: chooser
  gr_size :: int
  childIndex :: int
  deleted :: "reactor list"

definition isPowerOfTwo :: "int \<Rightarrow> bool" where
  "isPowerOfTwo v \<longleftrightarrow> v AND i32 (- v) = v"

definition NioEventReactorGroup_new :: "int \<Rightarrow> int \<Rightarrow> reactor_group" where
  "NioEventReactorGroup_new hardware_concurrency nThreads =
     (let n = (if nThreads = 0 then i32 (hardware_concurrency * 2) else nThreads);
          rs = replicate (nat n) NioEventReactor_new
      in \<lparr>eventReactors = rs,
          gr_chooser = (if isPowerOfTwo n then PowerOfTwoEventReactorChooser else GenericEventReactorChooser),
          gr_size = i32 (int (length rs)), childIndex = 0, deleted = []\<rparr>)"

text \<open>The index a chooser computes; \<open>%\<close> truncates towards zero, a division by zero is undefined.\<close>

definition chooser_index :: "chooser \<Rightarrow> int \<Rightarrow> int \<Rightarrow> int outcome" where
  "chooser_index ch n i =
     (case ch of
        PowerOfTwoEventReactorChooser \<Rightarrow> Ok (i AND (i32 (n - 1)))
      | GenericEventReactorChooser \<Rightarrow> if n = 0 then Undef else Ok (i smod n))"

text \<open>The choice is one atomic step; an index outside the vector is undefined.\<close>

definition chooser_next :: "(reactor_group, nat) prog" where
  "chooser_next s =
     (let s' = s\<lparr>childIndex := i32 (childIndex s + 1)\<rparr> in
      case chooser_index (gr_chooser s) (gr_size s) (childIndex s) of
        Ok k \<Rightarrow> (if 0 \<le> k \<and> k < int (length (eventReactors s)) then Ok (nat k) else Undef, s')
      | _ \<Rightarrow> (Undef, s'))"

definition group_next :: "(reactor_group, nat) prog" where
  "group_next = bindp chooser_next (\<lambda>k. seqp
     (modify (\<lambda>s. s\<lparr>eventReactors := (eventReactors s)[k := reactor_start (eventReactors s ! k)]\<rparr>)) (ret k))"

definition group_shutdown :: "reactor_group \<Rightarrow> reactor_group" where
  "group_shutdown s = s\<lparr>eventReactors := [], deleted := deleted s @ map reactor_shutdown (eventReactors s)\<rparr>"

fun nexts :: "nat \<Rightarrow> (reactor_group, nat list) prog" where
  "nexts 0 = ret []"
| "nexts (Suc k) = bindp (nexts k) (\<lambda>xs. bindp group_next (\<lambda>x. ret (xs @ [x])))"

section \<open>Round robin\<close>

lemma power_of_two_iff:
  assumes "0 < n" "n \<le> INT_MAX"
  shows "isPowerOfTwo n \<longleftrightarrow> (\<exists>k. n = 2 ^ k)"
proof -
  have "- n = NOT (n - 1)" by (simp add: not_int_def)
  moreover have "i32 (- n) = - n" using assms by (intro i32_id) auto
  ultimately have "isPowerOfTwo n \<longleftrightarrow> n AND NOT (n - 1) = n" by (simp add: isPowerOfTwo_def)
  also have "\<dots> \<longleftrightarrow> n AND (n - 1) = 0"
    by (auto simp: bit_eq_iff bit_simps)
  also have "\<dots> \<longleftrightarrow> (\<exists>k. n = 2 ^ k)" using and_pred_zero_iff assms(1) by simp
  finally show ?thesis .
qed

lemma i32_mod_pow2: "m \<le> 32 \<Longrightarrow> i32 x mod 2 ^ m = x mod 2 ^ m"
proof -
  assume m: "m \<le> 32"
  have d: "(2 :: int) ^ m dvd 4294967296" using le_imp_power_dvd [OF m, of "2 :: int"] by simp
  have "i32 x mod 2 ^ m = ((x + 2147483648) mod 4294967296 - 2147483648) mod 2 ^ m" by (simp add: i32_def)
  also have "\<dots> = ((x + 2147483648) mod 4294967296 mod 2 ^ m - 2147483648) mod 2 ^ m" by (simp add: mod_simps)
  also have "\<dots> = ((x + 2147483648) - 2147483648) mod 2 ^ m" using d by (simp add: mod_mod_cancel mod_simps)
  finally show ?thesis by simp
qed

text \<open>A group made for \<open>n\<close> threads, after \<open>k\<close> calls.\<close>

definition after_calls :: "nat \<Rightarrow> nat \<Rightarrow> reactor_group \<Rightarrow> bool" where
  "after_calls n k s \<longleftrightarrow> length (eventReactors s) = n \<and> gr_size s = int n \<and> childIndex s = i32 (int k) \<and>
     (gr_chooser s = PowerOfTwoEventReactorChooser \<longleftrightarrow> isPowerOfTwo (int n)) \<and>
     (\<forall>i<k. isInEventLoop (eventReactors s ! (i mod n)))"

lemma group_new_ok:
  assumes "0 < n" "int n \<le> INT_MAX"
  shows "after_calls n 0 (NioEventReactorGroup_new hw (int n))"
  using assms by (simp add: after_calls_def NioEventReactorGroup_new_def Let_def)

lemma chooser_index_ok:
  assumes "0 < n" "int n \<le> INT_MAX" "isPowerOfTwo (int n) \<or> int k \<le> INT_MAX"
    and "ch = PowerOfTwoEventReactorChooser \<longleftrightarrow> isPowerOfTwo (int n)"
  shows "chooser_index ch (int n) (i32 (int k)) = Ok (int (k mod n))"
proof (cases "isPowerOfTwo (int n)")
  case True
  then obtain m where m: "int n = 2 ^ m" using power_of_two_iff assms(1,2) by auto
  have "m \<le> 32"
  proof (rule ccontr)
    assume "\<not> m \<le> 32"
    then have "(2 :: int) ^ 32 \<le> 2 ^ m" by (intro power_increasing) auto
    then show False using m assms(2) by simp
  qed
  then have "i32 (int k) mod int n = int k mod int n" using i32_mod_pow2 m by simp
  moreover have "i32 (int n - 1) = int n - 1" using assms(1,2) by (intro i32_id) auto
  ultimately show ?thesis using True assms(4) and_low_mask [of "i32 (int k)" m] m
    by (simp add: chooser_index_def of_nat_mod)
next
  case False
  then have ch: "ch = GenericEventReactorChooser" using assms(4) by (cases ch) auto
  have "i32 (int k) = int k" using False assms(3) by (intro i32_id) auto
  then show ?thesis using ch assms(1) by (cases "k = 0") (simp_all add: chooser_index_def signed_modulo_int_def of_nat_mod)
qed

lemma group_next_ok:
  assumes "0 < n" "int n \<le> INT_MAX" "isPowerOfTwo (int n) \<or> int k \<le> INT_MAX" "after_calls n k s"
  shows "\<exists>s'. group_next s = (Ok (k mod n), s') \<and> after_calls n (Suc k) s'"
proof -
  note a = assms(4) [unfolded after_calls_def]
  have idx: "chooser_index (gr_chooser s) (gr_size s) (childIndex s) = Ok (int (k mod n))"
    using chooser_index_ok [OF assms(1-3), of "gr_chooser s"] a by simp
  have "i32 (i32 (int k) + 1) = i32 (int (Suc k))"
    by (simp add: i32_def mod_simps)
  moreover have "k mod n < n" using assms(1) by simp
  ultimately show ?thesis using idx a
    by (auto simp: group_next_def bindp_def chooser_next_def seqp_def modify_run ret_run after_calls_def
        nth_list_update less_Suc_eq isInEventLoop_def reactor_start_def)
qed

lemma nexts_ok:
  assumes "0 < n" "int n \<le> INT_MAX" "isPowerOfTwo (int n) \<or> int k \<le> 2 ^ 31"
  shows "\<exists>s. nexts k (NioEventReactorGroup_new hw (int n)) = (Ok (map (\<lambda>i. i mod n) [0..<k]), s) \<and> after_calls n k s"
  using assms(3)
proof (induction k)
  case 0
  then show ?case using group_new_ok [OF assms(1,2)] by (simp add: ret_run)
next
  case (Suc k)
  then obtain s where s: "nexts k (NioEventReactorGroup_new hw (int n)) = (Ok (map (\<lambda>i. i mod n) [0..<k]), s)" "after_calls n k s"
    by auto
  have "isPowerOfTwo (int n) \<or> int k \<le> INT_MAX" using Suc.prems by auto
  then show ?case using group_next_ok [OF assms(1,2) _ s(2)] s(1) by (fastforce simp: bindp_def ret_run)
qed


lemma dvd_power_2: "(n :: nat) dvd 2 ^ m \<Longrightarrow> \<exists>k. n = 2 ^ k"
proof (induction m arbitrary: n)
  case 0
  then show ?case by (intro exI [of _ 0]) simp
next
  case (Suc m)
  show ?case
  proof (cases "even n")
    case True
    then obtain n' where n': "n = 2 * n'" by blast
    then obtain k where "n' = 2 ^ k" using Suc by auto
    then show ?thesis using n' by (intro exI [of _ "Suc k"]) simp
  next
    case False
    then have "n dvd 2 ^ m" using Suc.prems by (simp add: coprime_dvd_mult_right_iff)
    then show ?thesis by (rule Suc.IH)
  qed
qed

lemma chooser_wraps:
  assumes "0 < n" "int n \<le> INT_MAX" "\<not> isPowerOfTwo (int n)" "after_calls n (2 ^ 31) s"
  shows "fst (group_next s) = Undef"
proof -
  note a = assms(4) [unfolded after_calls_def]
  have ch: "gr_chooser s = GenericEventReactorChooser" using a assms(3) by (cases "gr_chooser s") auto
  have "\<not> n dvd 2 ^ 31"
  proof
    assume "n dvd 2 ^ 31"
    then obtain k where "n = 2 ^ k" using dvd_power_2 by blast
    then have "int n = 2 ^ k" by simp
    then show False using assms power_of_two_iff by auto
  qed
  then have "0 < (2 ^ 31 :: nat) mod n" by (simp add: mod_greater_zero_iff_not_dvd)
  moreover have "int ((2 ^ 31) mod n) = 2147483648 mod int n" by (simp add: of_nat_mod)
  ultimately have pos: "0 < (2147483648 :: int) mod int n" by linarith
  have "childIndex s = - 2147483648" using a by (simp add: i32_def)
  then have "chooser_index (gr_chooser s) (gr_size s) (childIndex s) = Ok (- (2147483648 mod int n))"
    using ch a assms(1) by (simp add: chooser_index_def signed_modulo_int_def)
  then show ?thesis using pos by (simp add: group_next_def bindp_def chooser_next_def Let_def)
qed

section \<open>The acceptor\<close>

datatype error_code = No_error | Would_block | Try_again | Connection_aborted | Interrupted | Other_error nat

text \<open>
  \<open>AbstractConnectionAcceptor\<close> (src/common/net/AbstractConnectionAcceptor.hpp) with the parts of
  \<open>NioTcpConnectionAcceptor\<close>. \<open>listening\<close> is the endpoint of the acceptor, \<open>None\<close> a null pointer;
  \<open>accepts\<close> are the reactors of the asynchronous accepts that are under way. Parameters: what a name
  resolves to (\<open>None\<close> an error), and the exception a bind throws, if any. The pipeline of the acceptor
  holds the \<open>ServerBootstrapAcceptor\<close>; \<open>served\<close> are the connections it prepared, with their reactors.
\<close>

datatype child_step = AddLast string | FireChannelRegistered | FireChannelActive | StartRead

text \<open>\<open>ServerBootstrapAcceptor::channelRead\<close>: what it does to the new connection; other events pass on.\<close>

definition ConnectionAccepteddEvent_ID :: int where "ConnectionAccepteddEvent_ID = 3"

definition ServerBootstrapAcceptor_read :: "int \<Rightarrow> child_step list option" where
  "ServerBootstrapAcceptor_read eventId =
     (if ConnectionAccepteddEvent_ID \<noteq> eventId then None
      else Some [AddLast '''', FireChannelRegistered, FireChannelActive, StartRead])"

record acceptor =
  over_sctp :: bool
  hosts :: "string list"
  port :: string
  listening :: "nat option"
  children :: reactor_group
  accepts :: "nat list"
  served :: "(nat \<times> nat \<times> child_step list) list"

record network =
  resolve :: "string \<Rightarrow> string \<Rightarrow> nat list option"
  bind_fails :: "nat \<Rightarrow> exn option"
  bind_all_fails :: "nat list \<Rightarrow> exn option"

definition acceptor_new :: "bool \<Rightarrow> reactor_group \<Rightarrow> acceptor" where
  "acceptor_new sctp g = \<lparr>over_sctp = sctp, hosts = [], port = '''', listening = None, children = g, accepts = [], served = []\<rparr>"

definition resolverAddresses :: "network \<Rightarrow> acceptor \<Rightarrow> nat list" where
  "resolverAddresses N s = concat (map (\<lambda>h. case resolve N h (port s) of None \<Rightarrow> [] | Some es \<Rightarrow> es) (hosts s))"

text \<open>The two classes differ in this: TCP takes the first address, if there is one, SCTP all of them.\<close>

definition bindAddress :: "network \<Rightarrow> nat list \<Rightarrow> (acceptor, unit) prog" where
  "bindAddress N es = (if es = [] then ret ()
     else case bind_fails N (hd es) of
       Some x \<Rightarrow> raise x
     | None \<Rightarrow> modify (listening_update (\<lambda>_. Some (hd es))))"

definition sctp_bindAddress :: "network \<Rightarrow> nat list \<Rightarrow> (acceptor, unit) prog" where
  "sctp_bindAddress N es = seqp (assertp (\<lambda>_. es \<noteq> []))
     (case bind_all_fails N es of
       Some x \<Rightarrow> raise x
     | None \<Rightarrow> modify (listening_update (\<lambda>_. Some (hd es))))"

definition doBind :: "network \<Rightarrow> (acceptor, unit) prog" where
  "doBind N = bindp (asks (resolverAddresses N)) (\<lambda>es. ifp over_sctp (sctp_bindAddress N es) (bindAddress N es))"

definition bind_hosts :: "network \<Rightarrow> string list \<Rightarrow> string \<Rightarrow> (acceptor, unit) prog" where
  "bind_hosts N hs p = seqp (modify (\<lambda>s. s\<lparr>hosts := hs, port := p\<rparr>)) (doBind N)"

definition bind_host :: "network \<Rightarrow> string \<Rightarrow> string \<Rightarrow> (acceptor, unit) prog" where
  "bind_host N h p = seqp (modify (\<lambda>s. s\<lparr>hosts := hosts s @ [h], port := p\<rparr>)) (doBind N)"

definition startAccept :: "(acceptor, unit) prog" where
  "startAccept = ifp (\<lambda>s. listening s = None) (ret ())
     (bindp (zoom children (\<lambda>g. children_update (\<lambda>_. g)) group_next)
        (\<lambda>r. modify (\<lambda>s. s\<lparr>accepts := accepts s @ [r]\<rparr>)))"

definition doesNeedRetry :: "error_code \<Rightarrow> bool" where
  "doesNeedRetry e \<longleftrightarrow> e = Would_block \<or> e = Try_again \<or> e = Connection_aborted \<or> e = Interrupted"

definition restartBind :: "network \<Rightarrow> (acceptor, unit) prog" where
  "restartBind N = seqp (doBind N) startAccept"

text \<open>\<open>c\<close> is the new connection, \<open>r\<close> its reactor.\<close>

definition fireNewConnection :: "nat \<Rightarrow> nat \<Rightarrow> (acceptor, unit) prog" where
  "fireNewConnection c r = seqp
     (case ServerBootstrapAcceptor_read ConnectionAccepteddEvent_ID of
        None \<Rightarrow> ret () | Some steps \<Rightarrow> modify (\<lambda>s. s\<lparr>served := served s @ [(c, r, steps)]\<rparr>))
     startAccept"

text \<open>The completion of the oldest accept; after an error that cannot be retried a null acceptor is undefined.\<close>

definition handleAccept :: "network \<Rightarrow> error_code \<Rightarrow> nat \<Rightarrow> (acceptor, unit) prog" where
  "handleAccept N e c s =
     (case accepts s of
        [] \<Rightarrow> (Undef, s)
      | r # rs \<Rightarrow> (if e \<noteq> No_error
                   then if doesNeedRetry e then startAccept
                        else seqp (assertp (\<lambda>s. listening s \<noteq> None)) (restartBind N)
                   else fireNewConnection c r) (s\<lparr>accepts := rs\<rparr>))"

text \<open>\<open>ServerBootstrap::bind\<close> with one host.\<close>

definition server_bind :: "network \<Rightarrow> reactor_group \<Rightarrow> string \<Rightarrow> string \<Rightarrow> (acceptor, unit) prog" where
  "server_bind N g h p = seqp (modify (\<lambda>_. acceptor_new False g)) (seqp (bind_host N h p) startAccept)"

fun accept_all :: "network \<Rightarrow> nat \<Rightarrow> error_code list \<Rightarrow> (acceptor, unit) prog" where
  "accept_all N c [] = ret ()"
| "accept_all N c (e # es) = seqp (handleAccept N e c) (accept_all N (Suc c) es)"


section \<open>Properties\<close>

text \<open>
  the reactors of a group are handed out in turn, each running when it is handed out. With a
  power of two reactors this never ends; otherwise the call after 2^31 others has a negative index and
  reads in front of the vector.
\<close>

theorem reactors_round_robin:
  assumes "0 < n" "int n \<le> INT_MAX" "isPowerOfTwo (int n) \<or> k \<le> 2 ^ 31"
  shows "\<exists>s. nexts k (NioEventReactorGroup_new hw (int n)) = (Ok (map (\<lambda>i. i mod n) [0..<k]), s) \<and>
    (\<forall>i<k. isInEventLoop (eventReactors s ! (i mod n))) \<and>
    (isPowerOfTwo (int n) \<or> k < 2 ^ 31 \<longrightarrow> fst (group_next s) = Ok (k mod n)) \<and>
    (\<not> isPowerOfTwo (int n) \<and> k = 2 ^ 31 \<longrightarrow> fst (group_next s) = Undef)"
proof -
  have k: "isPowerOfTwo (int n) \<or> int k \<le> 2 ^ 31" using assms(3) by (metis of_nat_le_iff of_nat_numeral of_nat_power)
  obtain s where s: "nexts k (NioEventReactorGroup_new hw (int n)) = (Ok (map (\<lambda>i. i mod n) [0..<k]), s)" "after_calls n k s"
    using nexts_ok [OF assms(1,2) k] by blast
  have "fst (group_next s) = Ok (k mod n)" if x: "isPowerOfTwo (int n) \<or> k < 2 ^ 31"
  proof -
    have "isPowerOfTwo (int n) \<or> int k \<le> INT_MAX" using x by (auto simp: less_Suc_eq_le)
    then show ?thesis using group_next_ok [OF assms(1,2) _ s(2)] by fastforce
  qed
  moreover have "fst (group_next s) = Undef" if x: "\<not> isPowerOfTwo (int n) \<and> k = 2 ^ 31"
    using chooser_wraps [OF assms(1,2)] s(2) x by blast
  ultimately show ?thesis using s by (auto simp: after_calls_def)
qed

theorem reactors_round_robin_witness:
  "\<exists>s. nexts 7 (NioEventReactorGroup_new 0 (int 3)) = (Ok [0, 1, 2, 0, 1, 2, 0], s) \<and> fst (group_next s) = Ok 1"
  using reactors_round_robin [of 3 7 0] by (auto simp: upt_rec)

lemma startAccept_run:
  "group_next (children s) = (Ok r, g) \<Longrightarrow> listening s \<noteq> None \<Longrightarrow>
   startAccept s = (Ok (), s\<lparr>children := g, accepts := accepts s @ [r]\<rparr>)"
  by (auto simp: startAccept_def ifp_run bindp_def zoom_def modify_run)

text \<open>Binding never fails, and over SCTP the hosts have an address.\<close>

definition binds :: "network \<Rightarrow> acceptor \<Rightarrow> bool" where
  "binds N s \<longleftrightarrow> (if over_sctp s then (\<forall>es. bind_all_fails N es = None) \<and> resolverAddresses N s \<noteq> []
     else \<forall>a. bind_fails N a = None)"

lemma binds_same: "hosts s' = hosts s \<Longrightarrow> port s' = port s \<Longrightarrow> over_sctp s' = over_sctp s \<Longrightarrow> binds N s' \<longleftrightarrow> binds N s"
  by (simp add: binds_def resolverAddresses_def)

lemma doBind_binds:
  assumes "binds N s" "resolverAddresses N s \<noteq> []"
  shows "doBind N s = (Ok (), s\<lparr>listening := Some (hd (resolverAddresses N s))\<rparr>)"
  using assms by (simp add: doBind_def binds_def bindAddress_def sctp_bindAddress_def prog_simps split: if_splits)

lemma doBind_run:
  assumes "binds N s" "listening s \<noteq> None"
  shows "\<exists>l. doBind N s = (Ok (), s\<lparr>listening := Some l\<rparr>)"
proof (cases "resolverAddresses N s")
  case Nil
  then show ?thesis using assms
    by (auto simp: doBind_def binds_def bindAddress_def prog_simps intro: exI [of _ "the (listening s)"] split: if_splits)
next
  case (Cons a as)
  then show ?thesis using doBind_binds [OF assms(1)] by auto
qed

lemma startAccept_ok:
  assumes "0 < n" "int n \<le> INT_MAX" "isPowerOfTwo (int n) \<or> int k \<le> INT_MAX" "after_calls n k (children s)" "listening s \<noteq> None"
  shows "\<exists>g. startAccept s = (Ok (), s\<lparr>children := g, accepts := accepts s @ [k mod n]\<rparr>) \<and> after_calls n (Suc k) g"
  using group_next_ok [OF assms(1-4)] startAccept_run [OF _ assms(5)] by blast

definition accepting :: "nat \<Rightarrow> nat \<Rightarrow> acceptor \<Rightarrow> bool" where
  "accepting n k s \<longleftrightarrow> after_calls n (Suc k) (children s) \<and> listening s \<noteq> None \<and> accepts s = [k mod n]"

definition prepared :: "child_step list" where
  "prepared = [AddLast '''', FireChannelRegistered, FireChannelActive, StartRead]"

lemma handleAccept_ok:
  assumes "0 < n" "int n \<le> INT_MAX" "isPowerOfTwo (int n) \<or> int (Suc k) \<le> INT_MAX" "accepting n k s"
    and "binds N s"
  shows "\<exists>s'. handleAccept N e c s = (Ok (), s') \<and> accepting n (Suc k) s' \<and> binds N s' \<and> over_sctp s' = over_sctp s \<and>
    served s' = served s @ (if e = No_error then [(c, k mod n, prepared)] else [])"
proof -
  define s0 where "s0 = s\<lparr>accepts := []\<rparr>"
  have a: "accepts s = [k mod n]" "after_calls n (Suc k) (children s0)" "listening s0 \<noteq> None" "accepts s0 = []"
    "served s0 = served s" "binds N s0" "over_sctp s0 = over_sctp s"
    using assms(4,5) binds_same [of s0 s] by (simp_all add: accepting_def s0_def)
  obtain g where gn: "group_next (children s0) = (Ok (Suc k mod n), g)" "after_calls n (Suc (Suc k)) g"
    using group_next_ok [OF assms(1-3) a(2)] by blast
  have g: "startAccept s0 = (Ok (), s0\<lparr>children := g, accepts := [Suc k mod n]\<rparr>)" "after_calls n (Suc (Suc k)) g"
    using startAccept_run [OF gn(1) a(3)] gn(2) a(4) by simp_all
  show ?thesis
  proof (cases "e = No_error")
    case True
    define s1 where "s1 = s0\<lparr>served := served s @ [(c, k mod n, prepared)]\<rparr>"
    have "startAccept s1 = (Ok (), s1\<lparr>children := g, accepts := [Suc k mod n]\<rparr>)"
      using startAccept_run [of s1] gn(1) a(3,4) by (simp add: s1_def)
    then have "handleAccept N e c s = (Ok (), s1\<lparr>children := g, accepts := [Suc k mod n]\<rparr>)"
      using True a(1) by (simp add: handleAccept_def fireNewConnection_def ServerBootstrapAcceptor_read_def seqp_def bindp_def
          modify_run s1_def s0_def prepared_def)
    then show ?thesis using True g(2) a binds_same [of "s1\<lparr>children := g, accepts := [Suc k mod n]\<rparr>" s0]
      by (simp add: accepting_def s1_def)
  next
    case False
    show ?thesis
    proof (cases "doesNeedRetry e")
      case True
      then have "handleAccept N e c s = (Ok (), s0\<lparr>children := g, accepts := [Suc k mod n]\<rparr>)"
        using False a(1) g(1) by (simp add: handleAccept_def s0_def)
      then show ?thesis using False g(2) a binds_same [of "s0\<lparr>children := g, accepts := [Suc k mod n]\<rparr>" s0]
        by (simp add: accepting_def)
    next
      case no: False
      obtain l where l: "doBind N s0 = (Ok (), s0\<lparr>listening := Some l\<rparr>)"
        using doBind_run [OF a(6,3)] by blast
      define s1 where "s1 = s0\<lparr>listening := Some l\<rparr>"
      have "startAccept s1 = (Ok (), s1\<lparr>children := g, accepts := [Suc k mod n]\<rparr>)"
        using startAccept_run [of s1] gn(1) a(4) by (simp add: s1_def)
      then have "handleAccept N e c s = (Ok (), s1\<lparr>children := g, accepts := [Suc k mod n]\<rparr>)"
        using False no a(1,3) l by (simp add: handleAccept_def restartBind_def seqp_def bindp_def assertp_run s0_def s1_def)
      then show ?thesis using False g(2) a binds_same [of "s1\<lparr>children := g, accepts := [Suc k mod n]\<rparr>" s0]
        by (simp add: accepting_def s1_def)
    qed
  qed
qed

fun accepted :: "nat \<Rightarrow> nat \<Rightarrow> nat \<Rightarrow> error_code list \<Rightarrow> (nat \<times> nat \<times> child_step list) list" where
  "accepted n k c [] = []"
| "accepted n k c (e # es) = (if e = No_error then [(c, k mod n, prepared)] else []) @ accepted n (Suc k) (Suc c) es"

lemma accept_all_ok:
  assumes "0 < n" "int n \<le> INT_MAX"
  shows "isPowerOfTwo (int n) \<or> int (k + length es) \<le> INT_MAX \<Longrightarrow> accepting n k s \<Longrightarrow> binds N s \<Longrightarrow>
    \<exists>s'. accept_all N c es s = (Ok (), s') \<and> accepting n (k + length es) s' \<and> over_sctp s' = over_sctp s \<and>
      served s' = served s @ accepted n k c es"
proof (induction es arbitrary: k c s)
  case (Cons e es)
  have "isPowerOfTwo (int n) \<or> int (Suc k) \<le> INT_MAX" using Cons.prems(1) by auto
  then obtain s1 where s1: "handleAccept N e c s = (Ok (), s1)" "accepting n (Suc k) s1" "binds N s1" "over_sctp s1 = over_sctp s"
    "served s1 = served s @ (if e = No_error then [(c, k mod n, prepared)] else [])"
    using handleAccept_ok [OF assms(1,2) _ Cons.prems(2,3)] by blast
  then show ?case using Cons.IH [OF _ s1(2,3), of "Suc c"] Cons.prems(1) by (auto simp: seqp_def bindp_def)
qed (simp add: ret_run)

text \<open>
  a server bound to a name that resolves accepts for ever: after every completion of an accept,
  with or without an error, exactly one accept is under way, on the next reactor in turn, and the
  connections accepted so far were prepared once each, in order, on the reactor of their accept.
\<close>

theorem server_keeps_accepting:
  assumes "0 < n" "int n \<le> INT_MAX" "isPowerOfTwo (int n) \<or> int (length es) \<le> INT_MAX"
    and "\<forall>a. bind_fails N a = None" "resolve N h p = Some (a # as)"
  shows "\<exists>s. seqp (server_bind N (NioEventReactorGroup_new hw (int n)) h p) (accept_all N 0 es) z = (Ok (), s) \<and>
    accepts s = [length es mod n] \<and> listening s \<noteq> None \<and> served s = accepted n 0 0 es"
proof -
  let ?g = "NioEventReactorGroup_new hw (int n)"
  define s0 where "s0 = (acceptor_new False ?g)\<lparr>hosts := [h], port := p, listening := Some a\<rparr>"
  have b: "bind_host N h p (acceptor_new False ?g) = (Ok (), s0)"
    using assms(4,5) by (simp add: bind_host_def seqp_def bindp_def modify_run doBind_def asks_run ifp_run resolverAddresses_def
        acceptor_new_def bindAddress_def s0_def)
  have "after_calls n 0 (children s0)" using group_new_ok [OF assms(1,2)] by (simp add: s0_def acceptor_new_def)
  then obtain g where g: "startAccept s0 = (Ok (), s0\<lparr>children := g, accepts := [0]\<rparr>)" "after_calls n 1 g"
    using startAccept_ok [OF assms(1,2), of 0 s0] by (auto simp: s0_def acceptor_new_def)
  define s1 where "s1 = s0\<lparr>children := g, accepts := [0]\<rparr>"
  have "binds N s1" using assms(4) by (simp add: binds_def s1_def s0_def acceptor_new_def)
  moreover have "accepting n 0 s1" using g(2) by (simp add: accepting_def s1_def s0_def acceptor_new_def)
  ultimately obtain s where "accept_all N 0 es s1 = (Ok (), s)" "accepting n (length es) s" "served s = served s1 @ accepted n 0 0 es"
    using accept_all_ok [OF assms(1,2), of 0 es s1 N 0] assms(3) by auto
  moreover have "server_bind N ?g h p z = (Ok (), s1)"
    using b g(1) by (simp add: server_bind_def seqp_def bindp_def modify_run s1_def)
  ultimately show ?thesis by (auto simp: seqp_def bindp_def accepting_def s1_def s0_def acceptor_new_def)
qed

theorem server_keeps_accepting_witness:
  "\<exists>s. seqp (server_bind \<lparr>resolve = (\<lambda>_ _. Some [7]), bind_fails = (\<lambda>_. None), bind_all_fails = (\<lambda>_. None)\<rparr>
        (NioEventReactorGroup_new 0 (int 2)) ''h'' ''80'')
      (accept_all \<lparr>resolve = (\<lambda>_ _. Some [7]), bind_fails = (\<lambda>_. None), bind_all_fails = (\<lambda>_. None)\<rparr> 0 [No_error, Other_error 9, No_error])
      (acceptor_new False (NioEventReactorGroup_new 0 2)) = (Ok (), s) \<and>
    accepts s = [1] \<and> served s = [(0, 0, prepared), (2, 0, prepared)]"
  using server_keeps_accepting [of 2 "[No_error, Other_error 9, No_error]"
      "\<lparr>resolve = (\<lambda>_ _. Some [7]), bind_fails = (\<lambda>_. None), bind_all_fails = (\<lambda>_. None)\<rparr>" "''h''" "''80''" 7 "[]" 0] by fastforce

end
