(* ===== verification/Bootstrap.thy ===== *)
theory Bootstrap
  imports Channel Sctp Reactor
begin

text \<open>
  How connections are put together: \<open>ConnectionFactory\<close> and \<open>ServerBootstrap\<close>
  (src/common/net/ConnectionFactory.cpp, ServerBootstrap.cpp), which combine a reactor of a group, a
  connection, its pipeline and the handler of the application, and \<open>ConnectionListenerPipeline\<close>
  (src/common/net/ConnectionListenerPipeline.cpp).
\<close>

section \<open>\<open>ConnectionListenerPipeline\<close>\<close>

text \<open>
  The mutex is not recursive. A listener is a number, 0 the null pointer; \<open>lp_told\<close> are the calls of
  the listeners: which, whether the connection became active, and the connection.
\<close>

record listener_pipeline =
  lp_locked :: bool
  lp_listeners :: "nat list"
  lp_told :: "(nat \<times> bool \<times> nat) list"

text \<open>What a listener does when it is called: the calls it makes on the pipeline, then its outcome.\<close>

datatype listener_call = AddListener nat | RemoveListener nat | TellActive nat | TellInActive nat

definition guarded :: "(listener_pipeline, unit) prog \<Rightarrow> (listener_pipeline, unit) prog" where
  "guarded m s = (if lp_locked s then (Hang, s)
     else case m (s\<lparr>lp_locked := True\<rparr>) of (r, s') \<Rightarrow> (r, s'\<lparr>lp_locked := False\<rparr>))"

definition addConnectionListener :: "nat \<Rightarrow> (listener_pipeline, unit) prog" where
  "addConnectionListener l = (if l \<noteq> 0 then guarded (modify (lp_listeners_update (\<lambda>ls. ls @ [l]))) else ret ())"

definition removeConnectionListener :: "nat \<Rightarrow> (listener_pipeline, unit) prog" where
  "removeConnectionListener l = (if l \<noteq> 0 then guarded (modify (lp_listeners_update (filter (\<lambda>x. x \<noteq> l)))) else ret ())"

text \<open>\<open>body\<close> is what a listener does; the list cannot change while it is walked, for the lock is held.\<close>

fun tell_all :: "(nat \<Rightarrow> (listener_pipeline, unit) prog) \<Rightarrow> bool \<Rightarrow> nat \<Rightarrow> nat list \<Rightarrow> (listener_pipeline, unit) prog" where
  "tell_all body active c [] = ret ()"
| "tell_all body active c (l # ls) = seqp (modify (lp_told_update (\<lambda>t. t @ [(l, active, c)])))
     (seqp (body l) (tell_all body active c ls))"

definition connectionActive :: "(nat \<Rightarrow> (listener_pipeline, unit) prog) \<Rightarrow> nat \<Rightarrow> (listener_pipeline, unit) prog" where
  "connectionActive body c = guarded (bindp (asks lp_listeners) (tell_all body True c))"

definition connectionInActive :: "(nat \<Rightarrow> (listener_pipeline, unit) prog) \<Rightarrow> nat \<Rightarrow> (listener_pipeline, unit) prog" where
  "connectionInActive body c = guarded (bindp (asks lp_listeners) (\<lambda>ls. tell_all body False c (filter (\<lambda>l. l \<noteq> 0) ls)))"

text \<open>A call of the pipeline from inside a listener, whose own listeners would do \<open>body\<close>.\<close>

fun listener_calls :: "(nat \<Rightarrow> (listener_pipeline, unit) prog) \<Rightarrow> listener_call \<Rightarrow> (listener_pipeline, unit) prog" where
  "listener_calls body (AddListener l) = addConnectionListener l"
| "listener_calls body (RemoveListener l) = removeConnectionListener l"
| "listener_calls body (TellActive c) = connectionActive body c"
| "listener_calls body (TellInActive c) = connectionInActive body c"

section \<open>\<open>ConnectionFactory\<close>\<close>

text \<open>\<open>Wrong_type\<close> is any other value of the enumeration's type.\<close>

datatype connection_type = COMM_NET_TCP | COMM_NET_SCTP | Wrong_type

text \<open>\<open>cf_names\<close> is the cache of names of the thread; a handler or a listener of 0 is a null pointer.\<close>

record factory =
  cf_type :: connection_type
  automaticRecovery :: bool
  cf_group :: "reactor_group option"
  listener :: nat
  localHost :: string
  localPort :: string
  remoteHost :: string
  remotePort :: string
  channelHandler :: nat
  cf_names :: "string \<Rightarrow> string option"

definition ConnectionFactory_new :: "(string \<Rightarrow> string option) \<Rightarrow> factory" where
  "ConnectionFactory_new C = \<lparr>cf_type = COMM_NET_TCP, automaticRecovery = True, cf_group = None, listener = 0,
     localHost = '''', localPort = '''', remoteHost = '''', remotePort = '''', channelHandler = 0, cf_names = C\<rparr>"

definition set_connection :: "connection_type \<Rightarrow> factory \<Rightarrow> factory" where
  "set_connection t s = s\<lparr>cf_type := t\<rparr>"

definition setAutomaticRecovery :: "bool \<Rightarrow> factory \<Rightarrow> factory" where
  "setAutomaticRecovery b s = s\<lparr>automaticRecovery := b\<rparr>"

definition set_group :: "reactor_group option \<Rightarrow> factory \<Rightarrow> factory" where
  "set_group g s = s\<lparr>cf_group := g\<rparr>"

definition localAddress :: "string \<Rightarrow> string \<Rightarrow> factory \<Rightarrow> factory" where
  "localAddress h p s = s\<lparr>localHost := h, localPort := p\<rparr>"

definition remoteAddress :: "string \<Rightarrow> string \<Rightarrow> factory \<Rightarrow> factory" where
  "remoteAddress h p s = s\<lparr>remoteHost := h, remotePort := p\<rparr>"

definition connectionListener :: "nat \<Rightarrow> factory \<Rightarrow> factory" where
  "connectionListener l s = s\<lparr>listener := l\<rparr>"

definition set_handler :: "nat \<Rightarrow> factory \<Rightarrow> factory" where
  "set_handler h s = s\<lparr>channelHandler := h\<rparr>"

text \<open>
  What the application and the platform contribute: the classes and the behaviour of the handlers, the
  depth of the stack, the allocator of the read buffers, the compiler's names of the two sentinels
  and the number of the handler that an \<open>AutorecoveringConnection\<close> is.
\<close>

record setting =
  st_env :: env
  st_stack :: nat
  st_alloc :: recv_allocator
  st_junk :: "nat \<Rightarrow> byte"
  st_head :: string
  st_tail :: string
  st_recoverer :: nat

text \<open>A connection, the reactor it runs on, and whether an \<open>AutorecoveringConnection\<close> wraps it.\<close>

datatype made = TcpMade "channel connection" | SctpMade "channel sctp_connection"

record made_connection =
  mc_reactor :: nat
  mc_recovering :: bool
  mc_conn :: made

fun made_base :: "made \<Rightarrow> channel connection" where
  "made_base (TcpMade c) = c"
| "made_base (SctpMade c) = sc_base c"

fun upd_base :: "(channel connection \<Rightarrow> channel connection) \<Rightarrow> made \<Rightarrow> made" where
  "upd_base f (TcpMade c) = TcpMade (f c)"
| "upd_base f (SctpMade c) = SctpMade (sc_base_update f c)"

abbreviation pipeline_of :: "made_connection \<Rightarrow> channel" where
  "pipeline_of l \<equiv> handlers (made_base (mc_conn l))"

definition newChannelPipeline :: "setting \<Rightarrow> (string \<Rightarrow> string option) \<Rightarrow> channel" where
  "newChannelPipeline S C = DefaultChannelPipeline_new (st_head S) (st_tail S) C []"

definition next_reactor :: "(factory, nat) prog" where
  "next_reactor = ifp (\<lambda>s. cf_group s = None) undefp
     (zoom (\<lambda>s. the (cf_group s)) (\<lambda>g s. s\<lparr>cf_group := Some g\<rparr>) group_next)"

definition new_connection :: "setting \<Rightarrow> nat \<Rightarrow> (factory, made_connection) prog" where
  "new_connection S r s =
     (let p = newChannelPipeline S (cf_names s) in
      case cf_type s of
        COMM_NET_TCP \<Rightarrow> (case TcpConnection_new (st_alloc S) (st_junk S) p False of
          (x, c) \<Rightarrow> (map_ok (\<lambda>_. \<lparr>mc_reactor = r, mc_recovering = False, mc_conn = TcpMade c\<rparr>) x, s))
      | COMM_NET_SCTP \<Rightarrow> (case SctpConnection_new (st_alloc S) (st_junk S) p False of
          (x, c) \<Rightarrow> (map_ok (\<lambda>_. \<lparr>mc_reactor = r, mc_recovering = False, mc_conn = SctpMade c\<rparr>) x, s))
      | Wrong_type \<Rightarrow> (Throw (RuntimeError ''Connection type is wrong''), s))"

definition createAutorecoveringConnection :: "made_connection \<Rightarrow> made_connection" where
  "createAutorecoveringConnection l = l\<lparr>mc_recovering := True\<rparr>"

text \<open>
  A call on the pipeline of a connection that only the caller refers to. An exception deletes the
  connection; the destructor of \<open>AutorecoveringConnection\<close> asks for a shared pointer to itself, which
  throws, and a second exception ends the process.
\<close>

definition on_pipeline :: "(channel, unit) prog \<Rightarrow> made_connection \<Rightarrow> (factory, made_connection) prog" where
  "on_pipeline m l s =
     (case m ((pipeline_of l)\<lparr>nameCaches := cf_names s\<rparr>) of (r, p) \<Rightarrow>
        (case r of
           Ok _ \<Rightarrow> Ok (l\<lparr>mc_conn := upd_base (handlers_update (\<lambda>_. p)) (mc_conn l)\<rparr>)
         | Throw x \<Rightarrow> if mc_recovering l then Undef else Throw x
         | Hang \<Rightarrow> Hang | Undef \<Rightarrow> Undef, s\<lparr>cf_names := nameCaches p\<rparr>))"

text \<open>Generating a name reads the type of the handler, which a null pointer does not have.\<close>

definition register_handler :: "setting \<Rightarrow> nat \<Rightarrow> (channel, unit) prog" where
  "register_handler S h = doM [assertp (\<lambda>_. h \<noteq> 0), addLast (classes (st_env S)) '''' h,
     pipeline_fire (perform (st_env S) (st_stack S)) Registered]"

definition initAndRegister :: "setting \<Rightarrow> (factory, made_connection) prog" where
  "initAndRegister S = seqp (throw_if (\<lambda>s. cf_type s = Wrong_type) (RuntimeError ''Connection type is wrong''))
     (bindp next_reactor (\<lambda>r. bindp (new_connection S r) (\<lambda>l.
        bindp (asks (\<lambda>s. if automaticRecovery s then createAutorecoveringConnection l else l)) (\<lambda>l.
          bindp (asks channelHandler) (\<lambda>h. on_pipeline (register_handler S h) l)))))"

text \<open>\<open>connect\<close> of the connection, which an \<open>AutorecoveringConnection\<close> precedes by joining the pipeline.\<close>

definition recovery_name :: string where "recovery_name = ''AutorecoveringConnectionHandler''"

definition made_connect :: "string \<Rightarrow> string \<Rightarrow> made_connection \<Rightarrow> made_connection outcome" where
  "made_connect host pt l =
     (case mc_conn l of
        TcpMade c \<Rightarrow> (case tcp_connect host pt c of (r, c') \<Rightarrow> map_ok (\<lambda>_. l\<lparr>mc_conn := TcpMade c'\<rparr>) r)
      | SctpMade c \<Rightarrow> (case sctp_connect host pt c of (r, c') \<Rightarrow> map_ok (\<lambda>_. l\<lparr>mc_conn := SctpMade c'\<rparr>) r))"

definition connection_connect :: "setting \<Rightarrow> string \<Rightarrow> string \<Rightarrow> made_connection \<Rightarrow> (factory, made_connection) prog" where
  "connection_connect S host pt l = bindp
     (if mc_recovering l then on_pipeline (addLast (classes (st_env S)) recovery_name (st_recoverer S)) l else ret l)
     (\<lambda>l. lift_outcome (\<lambda>_. made_connect host pt l))"

definition doConnect :: "setting \<Rightarrow> string \<Rightarrow> string \<Rightarrow> (factory, made_connection) prog" where
  "doConnect S host pt = bindp (initAndRegister S) (connection_connect S host pt)"

definition connect_to :: "setting \<Rightarrow> string \<Rightarrow> string \<Rightarrow> (factory, made_connection) prog" where
  "connect_to S host pt = doConnect S host pt"

definition factory_connect :: "setting \<Rightarrow> (factory, made_connection) prog" where
  "factory_connect S = bindp (asks (\<lambda>s. (remoteHost s, remotePort s))) (\<lambda>(h, p). connect_to S h p)"


section \<open>\<open>ServerBootstrap\<close>\<close>

datatype server_type = COMM_NET_SERVER_TCP | COMM_NET_SERVER_SCTP | Wrong_server


datatype child_group = Same_group | Child_group reactor_group

record bootstrap =
  sb_type :: server_type
  sb_group :: reactor_group
  sb_child :: child_group
  sb_handler :: nat
  sb_acceptor :: "acceptor option"





text \<open>The acceptor runs on a reactor of its own; its pipeline holds the \<open>ServerBootstrapAcceptor\<close>.\<close>

definition server_init :: "(bootstrap, acceptor) prog" where
  "server_init = seqp (throw_if (\<lambda>s. sb_type s = Wrong_server) (RuntimeError ''Connection type is wrong''))
     (bindp (zoom sb_group (\<lambda>g s. s\<lparr>sb_group := g\<rparr>) group_next)
       (\<lambda>r. asks (\<lambda>s. acceptor_new (sb_type s = COMM_NET_SERVER_SCTP)
          (case sb_child s of Same_group \<Rightarrow> sb_group s | Child_group g \<Rightarrow> g))))"

text \<open>What the acceptor does is seen in the group, if it is the same.\<close>

definition on_acceptor :: "(acceptor, unit) prog \<Rightarrow> (bootstrap, unit) prog" where
  "on_acceptor m s =
     (case sb_acceptor s of
        None \<Rightarrow> (Ok (), s)
      | Some a \<Rightarrow> (case m a of (r, a') \<Rightarrow>
          (r, s\<lparr>sb_acceptor := Some a', sb_group := (if sb_child s = Same_group then children a' else sb_group s)\<rparr>)))"

definition server_start :: "(acceptor, unit) prog \<Rightarrow> (bootstrap, unit) prog" where
  "server_start b = bindp server_init (\<lambda>a. doM
     [modify (\<lambda>s. s\<lparr>sb_acceptor := Some a\<rparr>), on_acceptor b, on_acceptor startAccept])"


definition server_bind_host :: "network \<Rightarrow> string \<Rightarrow> string \<Rightarrow> (bootstrap, unit) prog" where
  "server_bind_host N h p = server_start (bind_host N h p)"

section \<open>Listeners\<close>

text \<open>A listener that leaves the pipeline alone, as against one that calls it.\<close>

lemma tell_all_told:
  "\<forall>l\<in>set ls. \<forall>s. body l s = (Ok (), s) \<Longrightarrow>
   tell_all body active c ls s = (Ok (), s\<lparr>lp_told := lp_told s @ map (\<lambda>l. (l, active, c)) ls\<rparr>)"
  by (induction ls arbitrary: s) (simp_all add: prog_simps)

theorem listeners_told_once:
  assumes "\<not> lp_locked s" "\<forall>l\<in>set (lp_listeners s). \<forall>s. body l s = (Ok (), s)"
  shows "connectionActive body c s = (Ok (), s\<lparr>lp_told := lp_told s @ map (\<lambda>l. (l, True, c)) (lp_listeners s)\<rparr>)"
  using assms tell_all_told [of "lp_listeners s" body True c "s\<lparr>lp_locked := True\<rparr>"]
  by (simp add: connectionActive_def guarded_def bindp_def asks_run)

text \<open>A listener that adds or removes a listener or reports a connection waits for itself.\<close>

lemma call_inside_hangs:
  "lp_locked s \<Longrightarrow> call \<noteq> AddListener 0 \<Longrightarrow> call \<noteq> RemoveListener 0 \<Longrightarrow> listener_calls body call s = (Hang, s)"
  by (cases call) (auto simp: addConnectionListener_def removeConnectionListener_def connectionActive_def
      connectionInActive_def guarded_def)

theorem listener_deadlock:
  assumes "\<not> lp_locked s" "lp_listeners s = ls @ l # ls'" "\<forall>x\<in>set ls. \<forall>s. body x s = (Ok (), s)"
    and "body l = listener_calls body' call" "call \<noteq> AddListener 0" "call \<noteq> RemoveListener 0"
  shows "fst (connectionActive body c s) = Hang"
proof -
  have "tell_all body True c (ls @ l # ls') t = (Hang, t\<lparr>lp_told := lp_told t @ map (\<lambda>l. (l, True, c)) (ls @ [l])\<rparr>)"
    if "lp_locked t" for t
    using assms(3) that
    by (induction ls arbitrary: t) (simp_all add: prog_simps assms(4) call_inside_hangs assms(5,6))
  then show ?thesis using assms(1,2) by (simp add: connectionActive_def guarded_def bindp_def asks_run)
qed


section \<open>The first handler of a pipeline\<close>

text \<open>A generated name is empty or ends in a digit, so it is not the name of a recovering connection.\<close>

definition generated :: "string \<Rightarrow> bool" where
  "generated n \<longleftrightarrow> n = '''' \<or> of_char (last n) \<in> {48..57 :: nat}"

lemma last_decimal: "last (decimal j) = char_of (48 + j mod 10)"
  by (subst decimal.simps) simp

lemma generated_decimal: "generated (b @ decimal j)"
  using decimal_ne [of j] by (simp add: generated_def last_decimal)

lemma generated_number: "number_name b s i = Some r \<Longrightarrow> \<forall>m. r = Ok m \<longrightarrow> generated m"
  by (rule number_name.raw_induct [of "\<lambda>b s i r. \<forall>m. r = Ok m \<longrightarrow> generated m"])
    (auto simp: generated_decimal split: outcome.splits if_splits)

lemma generated_hash: "generated (t @ ''#0'')"
  by (simp add: generated_def)

lemma generateName_generated:
  assumes "wf_pipe s as" "generateName k s = (Ok n, s')"
  shows "generated n"
proof -
  obtain m s1 where m: "cached_name (type_name k) s = (Ok m, s1)" "generated m" "same_list s s1"
    using cached_name_run [of "type_name k" s] generated_hash
    by (cases "nameCaches s (type_name k)") (auto simp: cached_name_def generateName0_def generated_def)
  have w: "wf_pipe s1 as" using assms(1) same_list_wf [OF m(3)] by simp
  show ?thesis
    using assms(2) m(1,2)
    by (auto dest: generated_number simp: generateName_def bindp_def context0_run [OF w] lift_outcome_run ret_run split: if_splits option.splits outcome.splits)
qed

lemma recovery_name_free: "generated n \<Longrightarrow> n \<noteq> recovery_name"
  by (auto simp: generated_def recovery_name_def)


text \<open>A pipeline with these entries, as the handlers know it.\<close>

definition holds_handlers :: "(nat \<Rightarrow> handler_class) \<Rightarrow> channel \<Rightarrow> (string \<times> nat) list \<Rightarrow> bool" where
  "holds_handlers K p L \<longleftrightarrow> (\<exists>as. wf_pipe p as \<and> sentinels p \<and> typed K p as \<and> entries p as = L)"

lemma handlers_new: "holds_handlers K (newChannelPipeline S C) []"
proof -
  have "wf_pipe (newChannelPipeline S C) [] \<and> entries (newChannelPipeline S C) [] = []"
    using wf_new [of "newChannelPipeline S C"] by (simp add: newChannelPipeline_def)
  moreover have "sentinels (newChannelPipeline S C)" "typed K (newChannelPipeline S C) []"
    by (simp_all add: newChannelPipeline_def sentinels_def typed_def DefaultChannelPipeline_new_def)
  ultimately show ?thesis unfolding holds_handlers_def by blast
qed

lemma holds_seen [simp]: "holds_handlers K (p\<lparr>seen := l\<rparr>) L \<longleftrightarrow> holds_handlers K p L"
  and holds_cache [simp]: "holds_handlers K (p\<lparr>nameCaches := C\<rparr>) L \<longleftrightarrow> holds_handlers K p L"
  by (simp_all add: holds_handlers_def wf_pipe_def names_of_def sentinels_def typed_def entries_def)

lemma handlers_add:
  assumes "wf_pipe s as" "sentinels s" "typed K s as"
    and "filterName name (K h) s = (Ok n, s1)" "same_list s s1" "n \<notin> set (names_of s (as @ [tailp]))"
  shows "\<exists>s'. addLast K name h s = (Ok (), s') \<and> holds_handlers K s' (entries s as @ [(n, h)]) \<and>
    tail_name s' = tail_name s \<and> seen s' = seen s"
proof -
  note c = same_list_ctxs [OF assms(5)]
  have w: "wf_pipe s1 as" "n \<notin> set (names_of s1 (as @ [tailp]))" "entries s1 as = entries s as"
    using assms(1,6) c same_list_wf [OF assms(5)] by (simp_all add: names_of_def entries_def)
  let ?b = "next_ctx s1"
  obtain s' where s': "bindp (DefaultChannelHandlerContext_new n h (K h)) addLast0 s1 = (Ok (), s')" "wf_pipe s' (as @ [?b])"
    "entries s' (as @ [?b]) = entries s1 as @ [(n, h)]" "tail_name s' = tail_name s1" "seen s' = seen s1"
    "cx_inbound (ctxs s' ?b) = is_inbound (K h) \<and> cx_outbound (ctxs s' ?b) = is_outbound (K h)"
    "\<forall>a\<in>live s1. cx_inbound (ctxs s' a) = cx_inbound (ctxs s1 a) \<and> cx_outbound (ctxs s' a) = cx_outbound (ctxs s1 a) \<and>
       cx_handler (ctxs s' a) = cx_handler (ctxs s1 a)"
    using addLast0_run [OF w(1,2), of h "K h"] by blast
  have "typed K s' (as @ [?b])" using assms(3) s'(3,6,7) c wf_pipeD(5) [OF w(1)] by (auto simp: typed_def entries_def)
  moreover have "sentinels s1" using assms(2) c by (simp add: sentinels_def)
  then have "sentinels s'" using sentinels_kept [OF _ s'(7) w(1)] by blast
  ultimately show ?thesis using s' w(3) c
    by (auto simp: addLast_def bindp_Ok [of "filterName name (K h)" s n s1, OF assms(4)] holds_handlers_def tail_name_def intro: exI [of _ "as @ [?b]"])
qed

text \<open>The first handler gets a generated name and sees the registration.\<close>

definition saw_event :: "bool \<Rightarrow> nat \<Rightarrow> signal \<Rightarrow> notice list" where
  "saw_event fwd h sig = [Saw headp sig, Saw h sig] @ (if fwd then [Saw tailp sig] else [])"

definition handles :: "setting \<Rightarrow> nat \<Rightarrow> (signal \<Rightarrow> bool) \<Rightarrow> signal set \<Rightarrow> bool" where
  "handles S h fwd A \<longleftrightarrow> h \<noteq> 0 \<and> is_inbound (classes (st_env S) h) \<and> 2 < st_stack S \<and>
     (\<forall>sig\<in>A. \<forall>l. on_signal (st_env S) l h sig = (if fwd sig then [Fire sig] else []))"

lemma event_delivered:
  assumes "handles S h fwd A" "sig \<in> A" "sig \<in> {Registered, Active}" "holds_handlers (classes (st_env S)) p [(n, h)]"
  shows "pipeline_fire (perform (st_env S) (st_stack S)) sig p = (Ok (), p\<lparr>seen := seen p @ saw_event (fwd sig) h sig\<rparr>)"
proof -
  obtain as where as: "wf_pipe p as" "sentinels p" "typed (classes (st_env S)) p as" "entries p as = [(n, h)]"
    using assms(4) by (auto simp: holds_handlers_def)
  have "length as = 1" using as(4) by (auto simp: entries_def)
  moreover have "inbound_handlers p as = [h]" using inbound_typed [OF as(3)] as(4) assms(1) by (simp add: handles_def)
  ultimately have "pipeline_fire (perform (st_env S) (st_stack S)) sig p = (Ok (), p\<lparr>seen := seen p @ [Saw headp sig] @
     map (\<lambda>h. Saw h sig) (reached (\<lambda>_. fwd sig) [h]) @ (if \<forall>h\<in>set [h]. fwd sig then tail_notices sig else [])\<rparr>)"
    using pipeline_delivers [of sig p as "st_stack S" "st_env S" "\<lambda>_. fwd sig"] as(1,2) assms(1-3) by (auto simp: handles_def)
  then show ?thesis using assms(3) by (auto simp: saw_event_def)
qed

lemma first_added:
  assumes "holds_handlers K p []"
  shows "\<exists>n p'. addLast K '''' h p = (Ok (), p') \<and> generated n \<and> holds_handlers K p' [(n, h)] \<and>
    tail_name p' = tail_name p \<and> seen p' = seen p"
proof -
  obtain as where as: "wf_pipe p as" "sentinels p" "typed K p as" "entries p as = []"
    using assms by (auto simp: holds_handlers_def)
  obtain n s1 where n: "generateName (K h) p = (Ok n, s1)" "same_list p s1" "n \<notin> set (names_of p (as @ [tailp]))"
    using generateName_run [OF as(1)] by blast
  show ?thesis using handlers_add [OF as(1-3), of "''''" h n s1] n as(4) generateName_generated [OF as(1) n(1)]
    by (auto simp: filterName_def)
qed

lemma registered:
  assumes "handles S h fwd A" "Registered \<in> A" "holds_handlers (classes (st_env S)) p []"
  shows "\<exists>n p'. register_handler S h p = (Ok (), p') \<and> generated n \<and> holds_handlers (classes (st_env S)) p' [(n, h)] \<and>
    tail_name p' = tail_name p \<and> seen p' = seen p @ saw_event (fwd Registered) h Registered"
proof -
  let ?K = "classes (st_env S)"
  obtain n p1 where p1: "addLast ?K '''' h p = (Ok (), p1)" "generated n" "holds_handlers ?K p1 [(n, h)]"
    "tail_name p1 = tail_name p" "seen p1 = seen p" using first_added [OF assms(3)] by blast
  have "register_handler S h p = (Ok (), p1\<lparr>seen := seen p1 @ saw_event (fwd Registered) h Registered\<rparr>)"
    using event_delivered [OF assms(1,2) _ p1(3)] p1(1) assms(1)
    by (simp add: register_handler_def prog_simps handles_def)
  then show ?thesis using p1 by (auto simp: tail_name_def)
qed

lemma recoverer_added:
  assumes "holds_handlers K p [(n, h)]" "generated n" "tail_name p = t @ ''#0''"
  shows "\<exists>p'. addLast K recovery_name rh p = (Ok (), p') \<and> holds_handlers K p' [(n, h), (recovery_name, rh)] \<and> seen p' = seen p"
proof -
  obtain as where as: "wf_pipe p as" "sentinels p" "typed K p as" "entries p as = [(n, h)]"
    using assms(1) by (auto simp: holds_handlers_def)
  have "recovery_name \<noteq> '''' \<and> recovery_name \<notin> set (names_of p (as @ [tailp]))"
    using recovery_name_free [OF assms(2)] recovery_name_free [OF generated_hash [of t]] as(4) assms(3)
    by (auto simp: names_entries recovery_name_def)
  then obtain s1 where "filterName recovery_name (K rh) p = (Ok recovery_name, s1)" "same_list p s1"
    "recovery_name \<notin> set (names_of p (as @ [tailp]))"
    using filterName_run [OF as(1), of recovery_name "K rh"] by auto
  then show ?thesis using handlers_add [OF as(1-3)] as(4) by fastforce
qed


section \<open>Connecting\<close>

lemma new_base:
  assumes "alloc_ok al"
  shows "\<exists>c. AbstractConnection_new al junk p = (Ok (), c) \<and> handlers c = p \<and> cn_pending c = [] \<and>
    \<not> cn_connected c \<and> \<not> cn_stopped c \<and> cn_alloc c = al \<and> handle_fine c \<and> buf_fine c"
proof -
  let ?c = "\<lparr>cn_connected = False, cn_stopped = False, recvHandle = None, readBufferLen = 0, cn_buf = None,
      cn_alloc = al, cn_junk = junk, cn_remote = ('''', ''''), cn_pending = [], handlers = p\<rparr>"
  obtain c b where "adjustReadBuffer ?c = (Ok (), c)" "same_conn c ?c" "handle_fine c" "cn_buf c = Some b" "empty_buf b" "refCnt b = 1"
    using adjust_ok [of ?c] assms by (auto simp: handle_fine_def buf_fine_def)
  then show ?thesis by (auto simp: AbstractConnection_new_def same_conn_def buf_fine_def)
qed

definition over :: "connection_type \<Rightarrow> made \<Rightarrow> bool" where
  "over t m \<longleftrightarrow> (case m of TcpMade c \<Rightarrow> t = COMM_NET_TCP | SctpMade c \<Rightarrow> t = COMM_NET_SCTP)"

text \<open>A connection that is on its way: its name is being resolved.\<close>

definition under_way_to :: "string \<times> string \<Rightarrow> channel connection \<Rightarrow> bool" where
  "under_way_to remote c \<longleftrightarrow> cn_remote c = remote \<and> cn_pending c = [Resolving] \<and> \<not> cn_connected c \<and> \<not> cn_stopped c"

definition idle :: "channel connection \<Rightarrow> bool" where
  "idle c \<longleftrightarrow> cn_pending c = [] \<and> \<not> cn_connected c \<and> \<not> cn_stopped c"

lemma idle_handlers [simp]: "idle (c\<lparr>handlers := p\<rparr>) \<longleftrightarrow> idle c"
  by (simp add: idle_def)

lemma new_connection_ok:
  assumes "alloc_ok (st_alloc S)" "cf_type s \<noteq> Wrong_type"
  shows "\<exists>l. new_connection S r s = (Ok l, s) \<and> mc_reactor l = r \<and> \<not> mc_recovering l \<and> over (cf_type s) (mc_conn l) \<and>
    idle (made_base (mc_conn l)) \<and> pipeline_of l = newChannelPipeline S (cf_names s)"
proof -
  obtain c where "AbstractConnection_new (st_alloc S) (st_junk S) (newChannelPipeline S (cf_names s)) = (Ok (), c)"
    "handlers c = newChannelPipeline S (cf_names s)" "idle c"
    using new_base [OF assms(1), of "st_junk S" "newChannelPipeline S (cf_names s)"] by (auto simp: idle_def)
  then show ?thesis using assms(2)
    by (cases "cf_type s") (auto simp: new_connection_def Let_def TcpConnection_new_def SctpConnection_new_def over_def idle_def)
qed

lemma on_pipeline_ok:
  assumes "m ((pipeline_of l)\<lparr>nameCaches := cf_names s\<rparr>) = (Ok (), p)"
  shows "\<exists>l' C. on_pipeline m l s = (Ok l', s\<lparr>cf_names := C\<rparr>) \<and> mc_reactor l' = mc_reactor l \<and> mc_recovering l' = mc_recovering l \<and>
    over t (mc_conn l') = over t (mc_conn l) \<and> made_base (mc_conn l') = (made_base (mc_conn l))\<lparr>handlers := p\<rparr>"
  using assms by (cases "mc_conn l") (auto simp: on_pipeline_def over_def)

lemma made_connect_ok:
  assumes "idle (made_base (mc_conn l))"
  shows "\<exists>l'. made_connect host pt l = Ok l' \<and> mc_reactor l' = mc_reactor l \<and> mc_recovering l' = mc_recovering l \<and>
    over t (mc_conn l') = over t (mc_conn l) \<and> under_way_to (host, pt) (made_base (mc_conn l')) \<and> pipeline_of l' = pipeline_of l"
  using assms
  by (cases "mc_conn l")
    (simp_all add: made_connect_def tcp_connect_def sctp_connect_def tcp_close_def sctp_close_def begin_op_def on_base_def
      prog_simps idle_def under_way_to_def over_def)

text \<open>What \<open>connect\<close> returns.\<close>

definition on_its_way :: "setting \<Rightarrow> factory \<Rightarrow> bool \<Rightarrow> nat \<Rightarrow> made_connection \<Rightarrow> bool" where
  "on_its_way S s fwd r l \<longleftrightarrow> mc_reactor l = r \<and> mc_recovering l = automaticRecovery s \<and> over (cf_type s) (mc_conn l) \<and>
     under_way_to (remoteHost s, remotePort s) (made_base (mc_conn l)) \<and>
     seen (pipeline_of l) = saw_event fwd (channelHandler s) Registered \<and>
     (\<exists>n. holds_handlers (classes (st_env S)) (pipeline_of l)
        ((n, channelHandler s) # (if automaticRecovery s then [(recovery_name, st_recoverer S)] else [])))"

lemma initAndRegister_ok:
  assumes "alloc_ok (st_alloc S)" "cf_type s \<noteq> Wrong_type" "handles S (channelHandler s) fwd A" "Registered \<in> A"
    and "cf_group s = Some g" "group_next g = (Ok r, g')"
  shows "\<exists>l C n. initAndRegister S s = (Ok l, s\<lparr>cf_group := Some g', cf_names := C\<rparr>) \<and> mc_reactor l = r \<and>
    mc_recovering l = automaticRecovery s \<and> over (cf_type s) (mc_conn l) \<and> idle (made_base (mc_conn l)) \<and>
    generated n \<and> holds_handlers (classes (st_env S)) (pipeline_of l) [(n, channelHandler s)] \<and>
    tail_name (pipeline_of l) = st_tail S @ ''#0'' \<and>
    seen (pipeline_of l) = saw_event (fwd Registered) (channelHandler s) Registered"
proof -
  let ?s = "s\<lparr>cf_group := Some g'\<rparr>"
  obtain l0 where l0: "new_connection S r ?s = (Ok l0, ?s)" "mc_reactor l0 = r" "over (cf_type s) (mc_conn l0)"
    "idle (made_base (mc_conn l0))" "pipeline_of l0 = newChannelPipeline S (cf_names s)" "\<not> mc_recovering l0"
    using new_connection_ok [OF assms(1), of ?s r] assms(2) by auto
  define l1 where "l1 = (if automaticRecovery s then createAutorecoveringConnection l0 else l0)"
  have l1: "mc_conn l1 = mc_conn l0" "mc_reactor l1 = r" "mc_recovering l1 = automaticRecovery s"
    using l0 by (simp_all add: l1_def createAutorecoveringConnection_def)
  let ?p = "(newChannelPipeline S (cf_names s))\<lparr>nameCaches := cf_names s\<rparr>"
  obtain n p where p: "register_handler S (channelHandler s) ?p = (Ok (), p)" "generated n"
    "holds_handlers (classes (st_env S)) p [(n, channelHandler s)]" "tail_name p = tail_name ?p"
    "seen p = seen ?p @ saw_event (fwd Registered) (channelHandler s) Registered"
    using registered [OF assms(3,4), of ?p] handlers_new by auto
  obtain l C where l: "on_pipeline (register_handler S (channelHandler s)) l1 ?s = (Ok l, ?s\<lparr>cf_names := C\<rparr>)" "mc_reactor l = r"
    "mc_recovering l = automaticRecovery s" "over (cf_type s) (mc_conn l)"
    "made_base (mc_conn l) = (made_base (mc_conn l0))\<lparr>handlers := p\<rparr>"
    using on_pipeline_ok [where m = "register_handler S (channelHandler s)" and l = l1 and s = ?s and p = p and t = "cf_type s"]
      p(1) l0 l1 by auto
  have "next_reactor s = (Ok r, ?s)" using assms(5,6) by (simp add: next_reactor_def prog_simps zoom_def)
  then have "initAndRegister S s = (Ok l, ?s\<lparr>cf_names := C\<rparr>)"
    using assms(2) l0(1) l(1) by (simp add: initAndRegister_def seqp_def bindp_def throw_if_run asks_run l1_def)
  moreover have "tail_name ?p = st_tail S @ ''#0''" "seen ?p = []"
    by (simp_all add: tail_name_def newChannelPipeline_def DefaultChannelPipeline_new_def generateName0_def)
  ultimately show ?thesis using l p l0(4) by auto
qed

lemma connect_ok:
  assumes "alloc_ok (st_alloc S)" "cf_type s \<noteq> Wrong_type" "handles S (channelHandler s) fwd A" "Registered \<in> A"
    and "cf_group s = Some g" "group_next g = (Ok r, g')"
  shows "\<exists>l C. factory_connect S s = (Ok l, s\<lparr>cf_group := Some g', cf_names := C\<rparr>) \<and> on_its_way S s (fwd Registered) r l"
proof -
  let ?K = "classes (st_env S)" and ?h = "channelHandler s"
  obtain l C n where l: "initAndRegister S s = (Ok l, s\<lparr>cf_group := Some g', cf_names := C\<rparr>)" "mc_reactor l = r"
    "mc_recovering l = automaticRecovery s" "over (cf_type s) (mc_conn l)" "idle (made_base (mc_conn l))" "generated n"
    "holds_handlers ?K (pipeline_of l) [(n, ?h)]" "tail_name (pipeline_of l) = st_tail S @ ''#0''"
    "seen (pipeline_of l) = saw_event (fwd Registered) ?h Registered"
    using initAndRegister_ok [OF assms] by blast
  let ?s = "s\<lparr>cf_group := Some g', cf_names := C\<rparr>"
  have "\<exists>l2 C2. (if mc_recovering l then on_pipeline (addLast ?K recovery_name (st_recoverer S)) l else ret l) ?s =
      (Ok l2, ?s\<lparr>cf_names := C2\<rparr>) \<and> mc_reactor l2 = r \<and> mc_recovering l2 = automaticRecovery s \<and> over (cf_type s) (mc_conn l2) \<and>
      idle (made_base (mc_conn l2)) \<and> seen (pipeline_of l2) = saw_event (fwd Registered) ?h Registered \<and>
      holds_handlers ?K (pipeline_of l2) ((n, ?h) # (if automaticRecovery s then [(recovery_name, st_recoverer S)] else []))"
  proof (cases "automaticRecovery s")
    case True
    let ?p = "(pipeline_of l)\<lparr>nameCaches := C\<rparr>"
    obtain p where p: "addLast ?K recovery_name (st_recoverer S) ?p = (Ok (), p)"
      "holds_handlers ?K p [(n, ?h), (recovery_name, st_recoverer S)]" "seen p = seen ?p"
      using recoverer_added [of ?K ?p n ?h "st_tail S" "st_recoverer S"] l(6-8) by (auto simp: tail_name_def)
    obtain l2 C2 where "on_pipeline (addLast ?K recovery_name (st_recoverer S)) l ?s = (Ok l2, ?s\<lparr>cf_names := C2\<rparr>)"
      "mc_reactor l2 = mc_reactor l" "mc_recovering l2 = mc_recovering l" "over (cf_type s) (mc_conn l2) = over (cf_type s) (mc_conn l)"
      "made_base (mc_conn l2) = (made_base (mc_conn l))\<lparr>handlers := p\<rparr>"
      using on_pipeline_ok [where m = "addLast ?K recovery_name (st_recoverer S)" and l = l and s = ?s and p = p and t = "cf_type s"]
        p(1) by auto
    then show ?thesis using p l True by (intro exI [of _ l2] exI [of _ C2]) simp
  next
    case False
    then show ?thesis using l by (intro exI [of _ l] exI [of _ C]) (simp add: ret_run)
  qed
  then obtain l2 C2 where l2: "(if mc_recovering l then on_pipeline (addLast ?K recovery_name (st_recoverer S)) l else ret l) ?s =
      (Ok l2, ?s\<lparr>cf_names := C2\<rparr>)" "mc_reactor l2 = r" "mc_recovering l2 = automaticRecovery s" "over (cf_type s) (mc_conn l2)"
      "idle (made_base (mc_conn l2))" "seen (pipeline_of l2) = saw_event (fwd Registered) ?h Registered"
      "holds_handlers ?K (pipeline_of l2) ((n, ?h) # (if automaticRecovery s then [(recovery_name, st_recoverer S)] else []))"
    by blast
  obtain l3 where l3: "made_connect (remoteHost s) (remotePort s) l2 = Ok l3" "mc_reactor l3 = mc_reactor l2"
    "mc_recovering l3 = mc_recovering l2" "over (cf_type s) (mc_conn l3) = over (cf_type s) (mc_conn l2)"
    "under_way_to (remoteHost s, remotePort s) (made_base (mc_conn l3))" "pipeline_of l3 = pipeline_of l2"
    using made_connect_ok [OF l2(5)] by blast
  have "connection_connect S (remoteHost s) (remotePort s) l ?s = (Ok l3, ?s\<lparr>cf_names := C2\<rparr>)"
    using l2(1) l3(1) by (simp only: connection_connect_def bindp_def lift_outcome_run prod.case outcome.case)
  then have "factory_connect S s = (Ok l3, ?s\<lparr>cf_names := C2\<rparr>)"
    using l(1) by (simp add: factory_connect_def connect_to_def doConnect_def bindp_def asks_run)
  moreover have "on_its_way S s (fwd Registered) r l3"
    using l2 l3 by (auto simp: on_its_way_def simp del: holds_cache)
  ultimately show ?thesis by auto
qed

fun connects :: "setting \<Rightarrow> nat \<Rightarrow> (factory, made_connection list) prog" where
  "connects S 0 = ret []"
| "connects S (Suc k) = bindp (connects S k) (\<lambda>ls. bindp (factory_connect S) (\<lambda>l. ret (ls @ [l])))"

lemma connects_ok:
  assumes "0 < n" "int n \<le> INT_MAX" "alloc_ok (st_alloc S)" "cf_type s0 \<noteq> Wrong_type"
    and "handles S (channelHandler s0) fwd A" "Registered \<in> A" "cf_group s0 = Some g0" "after_calls n 0 g0"
  shows "isPowerOfTwo (int n) \<or> int k \<le> INT_MAX \<Longrightarrow>
    \<exists>ls g C. connects S k s0 = (Ok ls, s0\<lparr>cf_group := Some g, cf_names := C\<rparr>) \<and> after_calls n k g \<and> length ls = k \<and>
      (\<forall>i<k. on_its_way S s0 (fwd Registered) (i mod n) (ls ! i))"
proof (induction k)
  case 0
  have "s0 = s0\<lparr>cf_group := Some g0, cf_names := cf_names s0\<rparr>" using assms(7) by simp
  then show ?case using assms(8) by (metis connects.simps(1) list.size(3) not_less0 ret_run)
next
  case (Suc k)
  have k: "isPowerOfTwo (int n) \<or> int k \<le> INT_MAX" using Suc.prems by auto
  obtain ls g C where ls: "connects S k s0 = (Ok ls, s0\<lparr>cf_group := Some g, cf_names := C\<rparr>)" "after_calls n k g"
    "length ls = k" "\<forall>i<k. on_its_way S s0 (fwd Registered) (i mod n) (ls ! i)"
    using Suc.IH [OF k] by blast
  let ?s = "s0\<lparr>cf_group := Some g, cf_names := C\<rparr>"
  obtain g' where g': "group_next g = (Ok (k mod n), g')" "after_calls n (Suc k) g'"
    using group_next_ok [OF assms(1,2) k ls(2)] by blast
  obtain l C' where l: "factory_connect S ?s = (Ok l, ?s\<lparr>cf_group := Some g', cf_names := C'\<rparr>)"
    "on_its_way S ?s (fwd Registered) (k mod n) l"
    using connect_ok [OF assms(3), of ?s fwd A g "k mod n" g'] assms(4-6) g'(1) by auto
  have "on_its_way S s0 (fwd Registered) (k mod n) l" using l(2) by (simp add: on_its_way_def)
  then have "\<forall>i<Suc k. on_its_way S s0 (fwd Registered) (i mod n) ((ls @ [l]) ! i)"
    using ls(3,4) by (auto simp: nth_append less_Suc_eq)
  moreover have "connects S (Suc k) s0 = (Ok (ls @ [l]), s0\<lparr>cf_group := Some g', cf_names := C'\<rparr>)"
    using ls(1) l(1) by (simp add: bindp_def ret_run)
  ultimately show ?case using g'(2) ls(3) by (intro exI [of _ "ls @ [l]"] exI [of _ g'] exI [of _ C']) simp
qed

text \<open>A factory after its setters were called.\<close>

definition configured :: "connection_type \<Rightarrow> bool \<Rightarrow> reactor_group \<Rightarrow> nat \<Rightarrow> string \<times> string \<Rightarrow> (string \<Rightarrow> string option) \<Rightarrow> factory" where
  "configured t rec g h addr C = set_handler h (remoteAddress (fst addr) (snd addr) (set_group (Some g)
     (setAutomaticRecovery rec (set_connection t (ConnectionFactory_new C)))))"

lemma configured_fields [simp]:
  "cf_type (configured t rec g h addr C) = t" "automaticRecovery (configured t rec g h addr C) = rec"
  "cf_group (configured t rec g h addr C) = Some g" "channelHandler (configured t rec g h addr C) = h"
  "remoteHost (configured t rec g h addr C) = fst addr" "remotePort (configured t rec g h addr C) = snd addr"
  by (simp_all add: configured_def set_handler_def remoteAddress_def set_group_def setAutomaticRecovery_def
      set_connection_def ConnectionFactory_new_def)

text \<open>
  C39: each call of \<open>connect\<close> returns a connection of the chosen protocol on the next reactor in turn,
  which is running. The name of the peer is being resolved, the pipeline holds the application's handler under a
  generated name and, with automatic recovery, the recovering connection behind it, and the
  handler saw its registration once.
\<close>

theorem factory_connects:
  assumes "0 < n" "int n \<le> INT_MAX" "isPowerOfTwo (int n) \<or> int k \<le> INT_MAX" "t \<noteq> Wrong_type"
    and "AdaptiveRecvByteBufAllocator_default = Ok (st_alloc S)" "handles S h fwd {Registered}"
    and "s0 = configured t rec (NioEventReactorGroup_new hw (int n)) h addr C"
  shows "\<exists>ls s. connects S k s0 = (Ok ls, s) \<and> length ls = k \<and>
    (\<forall>i<k. on_its_way S s0 (fwd Registered) (i mod n) (ls ! i) \<and>
       isInEventLoop (eventReactors (the (cf_group s)) ! (i mod n)))"
proof -
  have "alloc_ok (st_alloc S)" using default_allocator assms(5) by (metis outcome.inject(1))
  then obtain ls g C' where "connects S k s0 = (Ok ls, s0\<lparr>cf_group := Some g, cf_names := C'\<rparr>)" "after_calls n k g"
    "length ls = k" "\<forall>i<k. on_its_way S s0 (fwd Registered) (i mod n) (ls ! i)"
    using connects_ok [OF assms(1,2) _ _ _ _ _ group_new_ok [OF assms(1,2)], of S s0 fwd "{Registered}" hw k] assms(3,4,6,7) by auto
  then show ?thesis by (auto simp: after_calls_def)
qed

definition quiet_setting :: "recv_allocator \<Rightarrow> setting" where
  "quiet_setting al = \<lparr>st_env = \<lparr>classes = (\<lambda>h. \<lparr>type_name = ''H'', is_inbound = True, is_outbound = False\<rparr>),
       on_signal = (\<lambda>_ _ sig. [Fire sig]), on_request = (\<lambda>_ _ r. [Ask r]), conn_close = \<lambda>_. None, conn_send = \<lambda>_ _. None\<rparr>,
     st_stack = 9, st_alloc = al, st_junk = (\<lambda>_. 0), st_head = ''h'', st_tail = ''t'', st_recoverer = 9\<rparr>"

lemma quiet_handles: "handles (quiet_setting al) 7 (\<lambda>_. True) A"
  by (simp add: handles_def quiet_setting_def)

theorem factory_connects_witness:
  "\<exists>al ls s. AdaptiveRecvByteBufAllocator_default = Ok al \<and>
     connects (quiet_setting al) 4 (configured COMM_NET_SCTP True (NioEventReactorGroup_new 0 (int 3)) 7 (''a'', ''b'') Map.empty) = (Ok ls, s) \<and>
     length ls = 4 \<and> mc_reactor (ls ! 3) = 0 \<and>
     seen (pipeline_of (ls ! 3)) = [Saw headp Registered, Saw 7 Registered, Saw tailp Registered]"
proof -
  obtain al where al: "AdaptiveRecvByteBufAllocator_default = Ok al" using default_allocator by blast
  define s0 where "s0 = configured COMM_NET_SCTP True (NioEventReactorGroup_new 0 (int 3)) 7 (''a'', ''b'') Map.empty"
  obtain ls s where "connects (quiet_setting al) 4 s0 = (Ok ls, s)" "length ls = 4"
    "\<forall>i<4. on_its_way (quiet_setting al) s0 True (i mod 3) (ls ! i)"
    using factory_connects [OF _ _ _ _ _ quiet_handles s0_def, of 4 al] al by (auto simp: quiet_setting_def)
  then show ?thesis using al by (intro exI [of _ al] exI [of _ ls] exI [of _ s]) (auto simp: s0_def on_its_way_def saw_event_def)
qed

section \<open>Failures\<close>

lemma event_raised:
  assumes "h \<noteq> 0" "is_inbound (classes (st_env S) h)" "2 < st_stack S" "\<forall>l. on_signal (st_env S) l h Registered = [Raise x]"
    and "holds_handlers (classes (st_env S)) p [(n, h)]"
  shows "fst (pipeline_fire (perform (st_env S) (st_stack S)) Registered p) = Throw x"
proof -
  obtain as where as: "wf_pipe p as" "sentinels p" "typed (classes (st_env S)) p as" "entries p as = [(n, h)]"
    using assms(5) by (auto simp: holds_handlers_def)
  obtain a where a: "as = [a]" "cx_handler (ctxs p a) = h" using as(4) by (auto simp: entries_def)
  note w = wf_pipeD [OF as(1)]
  obtain m where m: "st_stack S = Suc (Suc m)" using assms(3) by (metis Suc_lessE less_trans_Suc numeral_2_eq_2)
  let ?q = "p\<lparr>seen := seen p @ [Saw headp Registered]\<rparr>"
  have "cx_inbound (ctxs p a)" using as(3) a assms(2) by (simp add: typed_def)
  moreover have "a \<in> live p" "a \<noteq> headp" "a \<noteq> tailp" "a \<noteq> 0" "cx_next (ctxs p headp) = a" "headp \<in> live p"
    using w a(1) by auto
  ultimately have "fst (perform (st_env S) (Suc m) (Signal a Registered) ?q) = Throw x"
    and "fire (perform (st_env S) (Suc m)) headp Registered ?q = perform (st_env S) (Suc m) (Signal a Registered) ?q"
    using assms(4) a(2) fire_next [of headp ?q a Registered "perform (st_env S) (Suc m)"]
    by (simp_all add: invoke_signal_def inbound_call_def prog_simps get_ctx_run tell_run)
  then show ?thesis using as(2) w(5) m
    by (simp add: pipeline_fire_def invoke_signal_def inbound_call_def prog_simps get_ctx_run tell_run sentinels_def)
qed

text \<open>
  What a handler throws while it is registered reaches the caller of \<open>connect\<close>, unless the connection
  recovers: then the process ends.
\<close>

theorem registration_failure:
  assumes "alloc_ok (st_alloc S)" "cf_type s \<noteq> Wrong_type" "cf_group s = Some g" "group_next g = (Ok r, g')"
    and "channelHandler s = h" "h \<noteq> 0" "is_inbound (classes (st_env S) h)" "2 < st_stack S"
    and "\<forall>l. on_signal (st_env S) l h Registered = [Raise x]"
  shows "fst (factory_connect S s) = (if automaticRecovery s then Undef else Throw x)"
proof -
  let ?s = "s\<lparr>cf_group := Some g'\<rparr>" and ?K = "classes (st_env S)"
  obtain l where l: "new_connection S r ?s = (Ok l, ?s)" "\<not> mc_recovering l" "pipeline_of l = newChannelPipeline S (cf_names s)"
    using new_connection_ok [OF assms(1), of ?s r] assms(2) by auto
  let ?p = "(newChannelPipeline S (cf_names s))\<lparr>nameCaches := cf_names s\<rparr>"
  obtain n p1 where p1: "addLast ?K '''' h ?p = (Ok (), p1)" "holds_handlers ?K p1 [(n, h)]"
    using first_added [of ?K ?p h] handlers_new by auto
  obtain p2 where "pipeline_fire (perform (st_env S) (st_stack S)) Registered p1 = (Throw x, p2)"
    using event_raised [OF assms(6-9) p1(2)] by (metis prod.collapse)
  then have "register_handler S h ?p = (Throw x, p2)"
    using p1(1) assms(6) by (simp add: register_handler_def prog_simps)
  moreover have "next_reactor s = (Ok r, ?s)" using assms(3,4) by (simp add: next_reactor_def prog_simps zoom_def)
  ultimately show ?thesis using assms(2,5) l
    by (simp add: factory_connect_def connect_to_def doConnect_def initAndRegister_def seqp_def bindp_def throw_if_run
        asks_run on_pipeline_def createAutorecoveringConnection_def)
qed


section \<open>Accepted connections\<close>










section \<open>Serving\<close>








end
