(* ===== verification/Writer.thy ===== *)
theory Writer
  imports Prelude "HOL-Library.Multiset"
begin

text \<open>
  \<open>BoostAsyncWriter\<close> (src/common/net/BoostAsyncWriter.hpp): the queue of messages that wait for
  the socket. The handlers run one at a time, on the strand or the one thread of the reactor. What
  the socket does is the environment: a write that was started ends with an event that says whether
  it failed and how many bytes went out.
\<close>

section \<open>State and handlers\<close>

text \<open>
  \<open>writing\<close> counts the calls of \<open>async_write\<close> that are under way; \<open>wire\<close> is what the socket
  took so far, \<open>answers\<close> the callbacks that were called with their results. The callback 0 is the
  empty function, whose call throws.
\<close>

record writer =
  wr_shutdown :: bool
  outQueue :: "(string \<times> nat) list"
  writing :: nat
  wire :: string
  answers :: "(nat \<times> bool) list"

definition BoostAsyncWriter_new :: writer where
  "BoostAsyncWriter_new = \<lparr>wr_shutdown = False, outQueue = [], writing = 0, wire = [], answers = []\<rparr>"

definition answer :: "nat \<Rightarrow> bool \<Rightarrow> (writer, unit) prog" where
  "answer cb b = (if cb = 0 then raise (RuntimeError ''call to empty boost::function'')
                  else modify (answers_update (\<lambda>l. l @ [(cb, b)])))"

definition start_write :: "(writer, unit) prog" where
  "start_write s = (if outQueue s = [] then Undef else Ok (), s\<lparr>writing := Suc (writing s)\<rparr>)"

definition writeImpl :: "string \<Rightarrow> nat \<Rightarrow> (writer, unit) prog" where
  "writeImpl message cb =
     ifp wr_shutdown (answer cb False)
       (seqp (modify (outQueue_update (\<lambda>q. q @ [(message, cb)])))
         (ifp (\<lambda>s. length (outQueue s) = 1) start_write (ret ())))"

definition handleShutdown :: "(writer, unit) prog" where
  "handleShutdown = modify (wr_shutdown_update (\<lambda>_. True))"

definition pop_queue :: "(writer, unit) prog" where
  "pop_queue = modify (outQueue_update tl)"

fun clear_loop :: "(string \<times> nat) list \<Rightarrow> (writer, unit) prog" where
  "clear_loop [] = ret ()"
| "clear_loop ((m, cb) # q) = seqp (answer cb False) (seqp pop_queue (clear_loop q))"

definition clearQueue :: "(writer, unit) prog" where
  "clearQueue = bindp (asks outQueue) clear_loop"

text \<open>\<open>handleWrite\<close>; the front of an empty queue is undefined.\<close>

definition handleWrite :: "bool \<Rightarrow> nat \<Rightarrow> (writer, unit) prog" where
  "handleWrite error bytesTransferred s =
     (case outQueue s of
        [] \<Rightarrow> (Undef, s)
      | (m, cb) # q \<Rightarrow>
          if error \<or> bytesTransferred \<ge> length m
          then seqp pop_queue
                 (ifp wr_shutdown (seqp (answer cb (\<not> error)) clearQueue)
                   (seqp (ifp (\<lambda>s. outQueue s \<noteq> []) start_write (ret ())) (answer cb (\<not> error)))) s
          else seqp (modify (outQueue_update (\<lambda>q. (drop bytesTransferred m, cb) # tl q))) start_write s)"

section \<open>Events\<close>

datatype writer_event = WriteMessage string nat | ShutdownWriter | Written bool nat

text \<open>A finished write may not claim more bytes than the message has, and there must have been one.\<close>

fun possible :: "writer_event \<Rightarrow> writer \<Rightarrow> bool" where
  "possible (WriteMessage m cb) s = (cb \<noteq> 0)"
| "possible ShutdownWriter s = True"
| "possible (Written e n) s = (0 < writing s \<and> (outQueue s \<noteq> [] \<longrightarrow> n \<le> length (fst (hd (outQueue s)))))"

fun writer_step :: "writer_event \<Rightarrow> (writer, unit) prog" where
  "writer_step (WriteMessage m cb) = writeImpl m cb"
| "writer_step ShutdownWriter = handleShutdown"
| "writer_step (Written e n) =
     seqp (modify (\<lambda>s. s\<lparr>writing := writing s - 1, wire := wire s @ take n (fst (hd (outQueue s)))\<rparr>)) (handleWrite e n)"

inductive writer_run :: "writer_event list \<Rightarrow> writer \<Rightarrow> bool" where
  start: "writer_run [] BoostAsyncWriter_new"
| step: "writer_run es s \<Longrightarrow> possible e s \<Longrightarrow> writer_step e s = (Ok (), s') \<Longrightarrow> writer_run (es @ [e]) s'"

inductive_cases writer_run_snocE: "writer_run (es @ [e]) s"

fun callbacks :: "writer_event list \<Rightarrow> nat list" where
  "callbacks [] = []"
| "callbacks (WriteMessage m cb # es) = cb # callbacks es"
| "callbacks (e # es) = callbacks es"

fun messages :: "writer_event list \<Rightarrow> string" where
  "messages [] = []"
| "messages (WriteMessage m cb # es) = m @ messages es"
| "messages (e # es) = messages es"

lemma callbacks_snoc: "callbacks (es @ [e]) = callbacks es @ callbacks [e]"
  and messages_snoc: "messages (es @ [e]) = messages es @ messages [e]"
  by (induction es rule: callbacks.induct) auto

section \<open>One step\<close>

lemma answer_run: "cb \<noteq> 0 \<Longrightarrow> answer cb b s = (Ok (), s\<lparr>answers := answers s @ [(cb, b)]\<rparr>)"
  by (simp add: answer_def modify_run)

lemma clear_loop_run:
  "\<forall>p\<in>set q. snd p \<noteq> 0 \<Longrightarrow>
   clear_loop q s = (Ok (), s\<lparr>outQueue := drop (length q) (outQueue s), answers := answers s @ map (\<lambda>p. (snd p, False)) q\<rparr>)"
proof (induction q arbitrary: s)
  case (Cons p q)
  obtain m cb where p: "p = (m, cb)" by (cases p)
  then show ?case using Cons
    by (simp add: seqp_Ok [OF answer_run] seqp_def bindp_def pop_queue_def modify_run answer_run drop_Suc)
qed (simp add: ret_run)

text \<open>What a finished write does, case by case.\<close>

lemma written_run:
  assumes "outQueue s = (m, cb) # q" "writing s = 1" "cb \<noteq> 0" "\<forall>p\<in>set q. snd p \<noteq> 0"
  shows "writer_step (Written e n) s = (Ok (),
    (let s' = s\<lparr>wire := wire s @ take n m\<rparr> in
     if \<not> e \<and> n < length m then s'\<lparr>outQueue := (drop n m, cb) # q, writing := 1\<rparr>
     else if wr_shutdown s then s'\<lparr>outQueue := [], writing := 0,
       answers := answers s @ (cb, \<not> e) # map (\<lambda>p. (snd p, False)) q\<rparr>
     else s'\<lparr>outQueue := q, writing := (if q = [] then 0 else 1), answers := answers s @ [(cb, \<not> e)]\<rparr>))"
  using assms
  by (auto simp: seqp_def bindp_def modify_run handleWrite_def pop_queue_def ifp_run answer_run start_write_def ret_run
      clearQueue_def asks_run clear_loop_run Let_def)

lemma writeImpl_run:
  assumes "cb \<noteq> 0"
  shows "writer_step (WriteMessage m cb) s = (Ok (),
    if wr_shutdown s then s\<lparr>answers := answers s @ [(cb, False)]\<rparr>
    else s\<lparr>outQueue := outQueue s @ [(m, cb)], writing := (if outQueue s = [] then Suc (writing s) else writing s)\<rparr>)"
  using assms by (simp add: writeImpl_def ifp_run answer_run seqp_def bindp_def modify_run start_write_def ret_run)

lemma handleShutdown_run: "writer_step ShutdownWriter s = (Ok (), s\<lparr>wr_shutdown := True\<rparr>)"
  by (simp add: handleShutdown_def modify_run)

section \<open>The invariant\<close>

definition writer_ok :: "writer \<Rightarrow> bool" where
  "writer_ok s \<longleftrightarrow> writing s = (if outQueue s = [] then 0 else 1) \<and> (\<forall>p\<in>set (outQueue s). snd p \<noteq> 0)"

lemma step_cases:
  assumes "writer_ok s" "possible e s"
  obtains (refused) m cb where "e = WriteMessage m cb" "wr_shutdown s"
      "writer_step e s = (Ok (), s\<lparr>answers := answers s @ [(cb, False)]\<rparr>)"
  | (queued) m cb where "e = WriteMessage m cb" "\<not> wr_shutdown s" "cb \<noteq> 0"
      "writer_step e s = (Ok (), s\<lparr>outQueue := outQueue s @ [(m, cb)], writing := 1\<rparr>)"
  | (shut) "e = ShutdownWriter" "writer_step e s = (Ok (), s\<lparr>wr_shutdown := True\<rparr>)"
  | (part) n m cb q where "e = Written False n" "outQueue s = (m, cb) # q" "n < length m"
      "writer_step e s = (Ok (), s\<lparr>wire := wire s @ take n m, outQueue := (drop n m, cb) # q, writing := 1\<rparr>)"
  | (last) f n m cb q where "e = Written f n" "outQueue s = (m, cb) # q" "n \<le> length m" "wr_shutdown s"
      "writer_step e s = (Ok (), s\<lparr>wire := wire s @ take n m, outQueue := [], writing := 0,
         answers := answers s @ (cb, \<not> f) # map (\<lambda>p. (snd p, False)) q\<rparr>)"
  | (finished) f n m cb q where "e = Written f n" "outQueue s = (m, cb) # q" "f \<or> n = length m" "n \<le> length m" "\<not> wr_shutdown s"
      "writer_step e s = (Ok (), s\<lparr>wire := wire s @ take n m, outQueue := q, writing := (if q = [] then 0 else 1),
         answers := answers s @ [(cb, \<not> f)]\<rparr>)"
proof (cases e)
  case (WriteMessage m cb)
  then have "cb \<noteq> 0" using assms(2) by simp
  then show ?thesis using refused queued writeImpl_run [of cb m s] WriteMessage assms(1)
    by (cases "wr_shutdown s") (auto simp: writer_ok_def)
next
  case ShutdownWriter
  then show ?thesis using shut handleShutdown_run by simp
next
  case (Written f n)
  then have w: "writing s = 1" "outQueue s \<noteq> []" using assms by (auto simp: writer_ok_def split: if_splits)
  then obtain m cb q where q: "outQueue s = (m, cb) # q" by (cases "outQueue s") auto
  have "cb \<noteq> 0" "\<forall>p\<in>set q. snd p \<noteq> 0" "n \<le> length m" using assms q Written w(2) by (auto simp: writer_ok_def)
  then show ?thesis using part [of n m cb q] last [of f n m cb q] finished [of f n m cb q]
      written_run [OF q w(1), of f n] q Written by (auto simp: Let_def split: if_splits)
qed

lemma step_ok:
  assumes "writer_ok s" "possible e s"
  shows "\<exists>s'. writer_step e s = (Ok (), s') \<and> writer_ok s'"
  using assms by (rule step_cases) (use assms(1) in \<open>auto simp: writer_ok_def split: if_splits\<close>)

lemma run_ok: "writer_run es s \<Longrightarrow> writer_ok s"
proof (induction rule: writer_run.induct)
  case (step es s e s')
  then show ?case using step_ok [of s e] by auto
qed (simp add: writer_ok_def BoostAsyncWriter_new_def)

lemma run_answers:
  "writer_run es s \<Longrightarrow> mset (map fst (answers s)) + mset (map snd (outQueue s)) = mset (callbacks es)"
proof (induction rule: writer_run.induct)
  case (step es s e s')
  from run_ok [OF step.hyps(1)] step.hyps(2) show ?case
    by (rule step_cases) (use step.hyps(3) step.IH in \<open>auto simp: callbacks_snoc image_mset.compositionality comp_def\<close>)
qed (simp add: BoostAsyncWriter_new_def)

lemma run_order:
  "writer_run es s \<Longrightarrow> ShutdownWriter \<notin> set es \<Longrightarrow>
   \<not> wr_shutdown s \<and> map fst (answers s) @ map snd (outQueue s) = callbacks es"
proof (induction rule: writer_run.induct)
  case (step es s e s')
  from run_ok [OF step.hyps(1)] step.hyps(2) show ?case
    by (rule step_cases) (use step.hyps(3) step.IH step.prems in \<open>auto simp: callbacks_snoc\<close>)
qed (simp add: BoostAsyncWriter_new_def)

lemma run_bytes:
  "writer_run es s \<Longrightarrow> ShutdownWriter \<notin> set es \<Longrightarrow> (\<forall>n. Written True n \<notin> set es) \<Longrightarrow>
   wire s @ concat (map fst (outQueue s)) = messages es \<and> (\<forall>p\<in>set (answers s). snd p)"
proof (induction rule: writer_run.induct)
  case (step es s e s')
  have "\<not> wr_shutdown s" using run_order [OF step.hyps(1)] step.prems(1) by simp
  from run_ok [OF step.hyps(1)] step.hyps(2) show ?case
  proof (cases rule: step_cases)
    case (finished f n m cb q)
    then have "\<not> f" using step.prems(2) by (cases f) auto
    then show ?thesis using finished step.hyps(3) step.IH step.prems by (auto simp: messages_snoc)
  next
    case (part n m cb q)
    have ap: "take n m @ drop n m @ x = m @ x" for x by (metis append.assoc append_take_drop_id)
    show ?thesis using part step.hyps(3) step.IH step.prems by (auto simp: messages_snoc ap)
  qed (use \<open>\<not> wr_shutdown s\<close> step.hyps(3) step.IH step.prems in \<open>auto simp: messages_snoc\<close>)
qed (simp add: BoostAsyncWriter_new_def)

section \<open>Properties\<close>

text \<open>
  after any history, whatever event comes next is handled without touching an empty queue, and one
  write is under way exactly when a message waits, so two messages never mix on the socket.
\<close>

theorem writer_never_stuck:
  assumes "writer_run es s" "possible e s"
  shows "\<exists>s'. writer_step e s = (Ok (), s') \<and> writing s' = (if outQueue s' = [] then 0 else 1)"
  using step_ok [OF run_ok [OF assms(1)] assms(2)] by (auto simp: writer_ok_def)

theorem writer_never_stuck_witness:
  "\<exists>s'. writer_step (WriteMessage ''hi'' 1) BoostAsyncWriter_new = (Ok (), s') \<and> writing s' = (if outQueue s' = [] then 0 else 1)"
  using writer_never_stuck [OF writer_run.start, of "WriteMessage ''hi'' 1"] by simp

text \<open>
  C21: every message written gets exactly one answer: over any history, errors and a shutdown in the
  middle included, the callbacks called so far and those of the waiting messages are together the
  callbacks of all messages, and without a shutdown they are called in the order of the messages.
\<close>

theorem every_write_answered:
  assumes "writer_run es s"
  shows "mset (map fst (answers s)) + mset (map snd (outQueue s)) = mset (callbacks es) \<and>
    (ShutdownWriter \<notin> set es \<longrightarrow> map fst (answers s) @ map snd (outQueue s) = callbacks es)"
  using run_answers [OF assms] run_order [OF assms] by blast

text \<open>Run a list of events, each of which must be possible and end normally.\<close>

fun exec_events :: "writer_event list \<Rightarrow> writer \<Rightarrow> writer option" where
  "exec_events [] s = Some s"
| "exec_events (e # es) s = (if possible e s then
     (case writer_step e s of (Ok _, s') \<Rightarrow> exec_events es s' | _ \<Rightarrow> None) else None)"

lemma exec_run: "writer_run es s \<Longrightarrow> exec_events es' s = Some s' \<Longrightarrow> writer_run (es @ es') s'"
proof (induction es' arbitrary: es s)
  case (Cons e es')
  then obtain t where t: "possible e s" "writer_step e s = (Ok (), t)" "exec_events es' t = Some s'"
    by (auto split: if_splits prod.splits outcome.splits)
  show ?case using Cons.IH [OF writer_run.step [OF Cons.prems(1) t(1,2)] t(3)] by simp
qed simp

lemma exec_new: "exec_events es BoostAsyncWriter_new = Some s \<Longrightarrow> writer_run es s"
  using exec_run [OF writer_run.start] by simp

definition example_events :: "writer_event list" where
  "example_events = [WriteMessage ''ab'' 1, WriteMessage ''c'' 2, Written False 1, Written False 1, Written False 1]"

definition example_end :: writer where
  "example_end = \<lparr>wr_shutdown = False, outQueue = [], writing = 0, wire = ''abc'', answers = [(1, True), (2, True)]\<rparr>"

lemma example_run: "writer_run example_events example_end"
  by (rule exec_new) code_simp

theorem every_write_answered_witness:
  "mset (map fst (answers example_end)) + mset (map snd (outQueue example_end)) = mset (callbacks example_events)"
  using every_write_answered [OF example_run] by blast

text \<open>
  C23: while no write fails and nobody shuts the writer down, what the socket took followed by what
  still waits is exactly the messages one after the other: no byte is lost, doubled or moved, however
  the socket splits the writes, and every answer was positive.
\<close>

theorem bytes_in_order:
  assumes "writer_run es s" "ShutdownWriter \<notin> set es" "\<forall>n. Written True n \<notin> set es"
  shows "wire s @ concat (map fst (outQueue s)) = messages es \<and> (\<forall>p\<in>set (answers s). snd p)"
  by (rule run_bytes [OF assms])

theorem bytes_in_order_witness:
  "wire example_end @ concat (map fst (outQueue example_end)) = messages example_events"
  using bytes_in_order [OF example_run] by (simp add: example_events_def)

end
