(* ===== verification/Executor.thy ===== *)
theory Executor
  imports ObjectQueue "HOL-Library.Multiset" "HOL-Library.Sublist"
begin

text \<open>
  \<open>AsyncObject\<close> (src/include/AsyncObject.hpp), the result of a task that another thread runs, and
  \<open>ExecutorService\<close> (src/include/ExecutorService.hpp), the queue of tasks and its worker threads. Each
  event below is one critical section or one task; events of different threads interleave freely.
\<close>

section \<open>A future\<close>

datatype status = Uninitialized | StValue | StException | StTimeout

record 'v async =
  as_status :: status
  as_value :: 'v
  as_desc :: string

definition AsyncObject_new :: "'v \<Rightarrow> 'v async" where
  "AsyncObject_new junk = \<lparr>as_status = Uninitialized, as_value = junk, as_desc = ''''\<rparr>"

definition set_value :: "'v \<Rightarrow> 'v async \<Rightarrow> 'v async" where
  "set_value v a = a\<lparr>as_status := StValue, as_value := v\<rparr>"

definition set_exception :: "string \<Rightarrow> 'v async \<Rightarrow> 'v async" where
  "set_exception d a = a\<lparr>as_status := StException, as_desc := d\<rparr>"

definition get_value :: "'v async \<Rightarrow> 'v outcome" where
  "get_value a = (if as_status a = StValue then Ok (as_value a) else Undef)"

definition getExceptionDesc :: "'v async \<Rightarrow> string outcome" where
  "getExceptionDesc a = (if as_status a = StException then Ok (as_desc a) else Undef)"

text \<open>\<open>W\<close> is what happens while the thread waits.\<close>

definition wait_value :: "('v async \<Rightarrow> 'v async) \<Rightarrow> 'v async \<Rightarrow> 'v async" where
  "wait_value W a = (if as_status a = Uninitialized then W a else a)"

definition wait_for :: "('v async \<Rightarrow> 'v async) \<Rightarrow> 'v async \<Rightarrow> 'v async" where
  "wait_for W a = (let b = (if as_status a = Uninitialized then W a else a) in
     if as_status b = Uninitialized then b\<lparr>as_status := StTimeout\<rparr> else b)"

definition has_value :: "'v async \<Rightarrow> bool" where "has_value a \<longleftrightarrow> as_status a = StValue"
definition has_exception :: "'v async \<Rightarrow> bool" where "has_exception a \<longleftrightarrow> as_status a = StException"
definition is_timeout :: "'v async \<Rightarrow> bool" where "is_timeout a \<longleftrightarrow> as_status a = StTimeout"

text \<open>The specialisation for \<open>void\<close> is written out again, without the value.\<close>

record void_async =
  av_status :: status
  av_desc :: string

definition void_new :: void_async where
  "void_new = \<lparr>av_status = Uninitialized, av_desc = ''''\<rparr>"

definition void_set_value :: "void_async \<Rightarrow> void_async" where
  "void_set_value a = a\<lparr>av_status := StValue\<rparr>"

definition void_set_exception :: "string \<Rightarrow> void_async \<Rightarrow> void_async" where
  "void_set_exception d a = a\<lparr>av_status := StException, av_desc := d\<rparr>"

definition void_getExceptionDesc :: "void_async \<Rightarrow> string outcome" where
  "void_getExceptionDesc a = (if av_status a = StException then Ok (av_desc a) else Undef)"

definition void_wait :: "(void_async \<Rightarrow> void_async) \<Rightarrow> void_async \<Rightarrow> void_async" where
  "void_wait W a = (if av_status a = Uninitialized then W a else a)"

definition void_wait_for :: "(void_async \<Rightarrow> void_async) \<Rightarrow> void_async \<Rightarrow> void_async" where
  "void_wait_for W a = (let b = (if av_status a = Uninitialized then W a else a) in
     if av_status b = Uninitialized then b\<lparr>av_status := StTimeout\<rparr> else b)"

definition void_has_value :: "void_async \<Rightarrow> bool" where "void_has_value a \<longleftrightarrow> av_status a = StValue"
definition void_has_exception :: "void_async \<Rightarrow> bool" where "void_has_exception a \<longleftrightarrow> av_status a = StException"
definition void_is_timeout :: "void_async \<Rightarrow> bool" where "void_is_timeout a \<longleftrightarrow> av_status a = StTimeout"

text \<open>It does what the general class does, seen without the value.\<close>

definition forget :: "'v async \<Rightarrow> void_async" where
  "forget a = \<lparr>av_status = as_status a, av_desc = as_desc a\<rparr>"

theorem void_refines:
  "forget (AsyncObject_new junk) = void_new" "forget (set_value v a) = void_set_value (forget a)"
  "forget (set_exception d a) = void_set_exception d (forget a)" "getExceptionDesc a = void_getExceptionDesc (forget a)"
  "has_value a = void_has_value (forget a)" "has_exception a = void_has_exception (forget a)"
  "is_timeout a = void_is_timeout (forget a)"
  by (simp_all add: forget_def AsyncObject_new_def void_new_def set_value_def void_set_value_def set_exception_def
      void_set_exception_def getExceptionDesc_def void_getExceptionDesc_def has_value_def void_has_value_def
      has_exception_def void_has_exception_def is_timeout_def void_is_timeout_def)

theorem void_wait_refines:
  assumes "\<And>a. forget (W a) = W' (forget a)"
  shows "forget (wait_value W a) = void_wait W' (forget a)" "forget (wait_for W a) = void_wait_for W' (forget a)"
proof -
  have s: "av_status (forget a) = as_status a" for a :: "'a async" by (simp add: forget_def)
  have "as_status (W a) = av_status (W' (forget a))" using assms [of a] s [of "W a"] by simp
  moreover have "forget (b\<lparr>as_status := x\<rparr>) = (forget b)\<lparr>av_status := x\<rparr>" for b :: "'a async" and x by (simp add: forget_def)
  ultimately show "forget (wait_value W a) = void_wait W' (forget a)" "forget (wait_for W a) = void_wait_for W' (forget a)"
    using assms [of a] by (auto simp: wait_value_def void_wait_def wait_for_def void_wait_for_def Let_def s)
qed

section \<open>Tasks\<close>

text \<open>
  A function is a number, 0 the empty one (or a null \<open>Callable\<close>). Callables are heap objects whose
  addresses wait in the queue.
\<close>

datatype callable =
    FuncCallable nat nat
  | VoidFuncCallable nat
  | SharedCallableWrapper nat

text \<open>
  Where a worker is in its loop: before the test of \<open>stop_\<close>, before \<open>take\<close> (or waiting in it), with a task it
  took, inside the task's function, after the call, and behind the loop.
\<close>

datatype worker = AtTest | AtTake | Holding nat | Running nat | Finished nat | Ended

text \<open>
  The last three fields record what happened: the tasks taken, the tasks whose functions were entered,
  and those whose functions came to an end, with the outcome, each in order.
\<close>

record 'v executor =
  ex_stop :: bool
  ex_pause :: bool
  ex_tasks :: "nat queue"
  ex_callables :: "nat \<Rightarrow> callable option"
  ex_next :: nat
  ex_results :: "nat \<Rightarrow> 'v async option"
  ex_next_result :: nat
  ex_workers :: "worker list"
  taken :: "callable list"
  called :: "callable list"
  ended :: "(callable \<times> 'v outcome) list"

definition ExecutorService_new :: "nat \<Rightarrow> 'v executor" where
  "ExecutorService_new threadNums = \<lparr>ex_stop = False, ex_pause = False,
     ex_tasks = ObjectQueue_new \<lparr>it_data = 0, it_next = 0\<rparr>, ex_callables = Map.empty, ex_next = 1,
     ex_results = Map.empty, ex_next_result = 0, ex_workers = replicate threadNums AtTest,
     taken = [], called = [], ended = []\<rparr>"

definition on_tasks :: "(nat queue, 'a) prog \<Rightarrow> ('v executor, 'a) prog" where
  "on_tasks m = zoom ex_tasks (\<lambda>q s. s\<lparr>ex_tasks := q\<rparr>) m"

definition new_callable :: "callable \<Rightarrow> ('v executor, nat) prog" where
  "new_callable c s = (Ok (ex_next s), s\<lparr>ex_callables := (ex_callables s)(ex_next s \<mapsto> c), ex_next := Suc (ex_next s)\<rparr>)"

definition enqueue :: "callable \<Rightarrow> ('v executor, unit) prog" where
  "enqueue c = bindp (new_callable c) (\<lambda>a. seqp (on_tasks (queue_add a)) (ret ()))"

definition upd_result :: "nat \<Rightarrow> ('v async \<Rightarrow> 'v async) \<Rightarrow> ('v executor, unit) prog" where
  "upd_result r f = modify (\<lambda>s. s\<lparr>ex_results := (ex_results s)(r := map_option f (ex_results s r))\<rparr>)"

definition new_result :: "('v executor, nat) prog" where
  "new_result s = (Ok (ex_next_result s),
     s\<lparr>ex_results := (ex_results s)(ex_next_result s \<mapsto> AsyncObject_new undefined), ex_next_result := Suc (ex_next_result s)\<rparr>)"

section \<open>Submitting\<close>

text \<open>\<open>paused\<close> is what the test of \<open>pause_\<close> saw; the flag may be set between the test and the rest of the call.\<close>

definition submit_value :: "bool \<Rightarrow> nat \<Rightarrow> ('v executor, nat) prog" where
  "submit_value paused f = bindp new_result (\<lambda>r. seqp
     (if f = 0 \<or> paused then upd_result r (set_exception ''paused'') else enqueue (FuncCallable f r))
     (ret r))"

definition submit_void :: "bool \<Rightarrow> nat \<Rightarrow> ('v executor, bool) prog" where
  "submit_void paused f = (if f = 0 \<or> paused then ret False else seqp (enqueue (VoidFuncCallable f)) (ret True))"

definition submit_shared :: "bool \<Rightarrow> nat \<Rightarrow> ('v executor, bool) prog" where
  "submit_shared paused f = (if paused \<or> f = 0 then ret False else seqp (enqueue (SharedCallableWrapper f)) (ret True))"

text \<open>\<open>addTasks\<close> with a converter: the empty functions of the list are dropped.\<close>

fun toCallableList :: "(nat \<Rightarrow> callable) \<Rightarrow> nat list \<Rightarrow> ('v executor, nat list) prog" where
  "toCallableList conv [] = ret []"
| "toCallableList conv (f # fs) =
     (if f = 0 then toCallableList conv fs
      else bindp (new_callable (conv f)) (\<lambda>a. bindp (toCallableList conv fs) (\<lambda>as. ret (a # as))))"

definition addTasks :: "(nat \<Rightarrow> callable) \<Rightarrow> bool \<Rightarrow> nat list \<Rightarrow> ('v executor, bool) prog" where
  "addTasks conv paused fs = (if fs = [] \<or> paused then ret False
     else bindp (toCallableList conv fs) (\<lambda>as.
       if as = [] then ret False else seqp (on_tasks (queue_addAll as)) (ret True)))"

section \<open>Running\<close>

text \<open>The loop of \<open>takeProcTask\<close> in the steps between which other threads may run; \<open>i\<close> is the worker.\<close>

definition upd_worker :: "nat \<Rightarrow> worker \<Rightarrow> ('v executor, unit) prog" where
  "upd_worker i w = modify (\<lambda>s. s\<lparr>ex_workers := (ex_workers s)[i := w]\<rparr>)"

definition work_test :: "nat \<Rightarrow> ('v executor, unit) prog" where
  "work_test i = ifp ex_stop (upd_worker i Ended) (upd_worker i AtTake)"

text \<open>
  A thread that waits in \<open>take\<close> stays before this step until it wakes; then it may find the queue
  still empty, when it was woken in vain or interrupted, and gets the null pointer.
\<close>

definition work_take :: "nat \<Rightarrow> ('v executor, unit) prog" where
  "work_take i = bindp (on_tasks (queue_take 0 id (- 1))) (\<lambda>a.
     if a \<noteq> 0 then seqp (modify (\<lambda>s. s\<lparr>taken := taken s @ [the (ex_callables s a)]\<rparr>)) (upd_worker i (Holding a))
     else upd_worker i AtTest)"

definition deref_task :: "nat \<Rightarrow> ('v executor, callable) prog" where
  "deref_task a = lift_outcome (\<lambda>s. case ex_callables s a of None \<Rightarrow> Undef | Some c \<Rightarrow> Ok c)"

definition work_start :: "nat \<Rightarrow> nat \<Rightarrow> ('v executor, unit) prog" where
  "work_start i a = bindp (deref_task a) (\<lambda>c. seqp
     (modify (\<lambda>s. s\<lparr>called := called s @ [c]\<rparr>)) (upd_worker i (Running a)))"

text \<open>\<open>x\<close> is how the function ends; \<open>call\<close> lets no exception out.\<close>

definition finish_call :: "callable \<Rightarrow> 'v outcome \<Rightarrow> ('v executor, unit) prog" where
  "finish_call c x =
     (case x of
        Hang \<Rightarrow> lift_outcome (\<lambda>_. Hang) | Undef \<Rightarrow> lift_outcome (\<lambda>_. Undef)
      | _ \<Rightarrow> (case c of
          FuncCallable f r \<Rightarrow> upd_result r
            (case x of Ok v \<Rightarrow> set_value v | _ \<Rightarrow> set_exception ''exception occur when execute method'')
        | _ \<Rightarrow> ret ()))"

definition work_finish :: "nat \<Rightarrow> nat \<Rightarrow> 'v outcome \<Rightarrow> ('v executor, unit) prog" where
  "work_finish i a x = bindp (deref_task a) (\<lambda>c. seqp (finish_call c x) (seqp
     (modify (\<lambda>s. s\<lparr>ended := ended s @ [(c, x)]\<rparr>)) (upd_worker i (Finished a))))"

definition work_delete :: "nat \<Rightarrow> nat \<Rightarrow> ('v executor, unit) prog" where
  "work_delete i a = seqp (assertp (\<lambda>s. ex_callables s a \<noteq> None)) (seqp
     (modify (\<lambda>s. s\<lparr>ex_callables := (ex_callables s)(a := None)\<rparr>)) (upd_worker i AtTest))"

definition takeProcTask :: "nat \<Rightarrow> 'v outcome \<Rightarrow> ('v executor, unit) prog" where
  "takeProcTask i x = bindp (asks (\<lambda>s. ex_workers s ! i)) (\<lambda>w.
     case w of
       AtTest \<Rightarrow> work_test i | AtTake \<Rightarrow> work_take i | Holding a \<Rightarrow> work_start i a
     | Running a \<Rightarrow> work_finish i a x | Finished a \<Rightarrow> work_delete i a | Ended \<Rightarrow> ret ())"

text \<open>
  \<open>shutdown\<close> pauses, and, having waited until the queue is empty if it was told to, stops; then it joins
  the workers.
\<close>

definition shutdown_begin :: "('v executor, unit) prog" where
  "shutdown_begin = ifp ex_stop (ret ()) (modify (ex_pause_update (\<lambda>_. True)))"

definition shutdown_end :: "('v executor, unit) prog" where
  "shutdown_end = modify (ex_stop_update (\<lambda>_. True))"

definition joined :: "'v executor \<Rightarrow> bool" where
  "joined s \<longleftrightarrow> (\<forall>w\<in>set (ex_workers s). w = Ended)"

section \<open>Histories\<close>

text \<open>\<open>GiveUp r\<close>: a thread's \<open>wait_for\<close> on a future runs out of time.\<close>

datatype 'v exec_event =
    SubmitValue bool nat
  | SubmitVoid bool nat
  | SubmitShared bool nat
  | SubmitList bool "nat list"
  | SubmitSharedList bool "nat list"
  | Work nat "'v outcome"
  | GiveUp nat
  | ShutdownBegin
  | ShutdownEnd

definition no_result :: "('s, 'a) prog \<Rightarrow> ('s, unit) prog" where
  "no_result m = seqp m (ret ())"

fun exec_step :: "'v exec_event \<Rightarrow> ('v executor, unit) prog" where
  "exec_step (SubmitValue p f) = no_result (submit_value p f)"
| "exec_step (SubmitVoid p f) = no_result (submit_void p f)"
| "exec_step (SubmitShared p f) = no_result (submit_shared p f)"
| "exec_step (SubmitList p fs) = no_result (addTasks VoidFuncCallable p fs)"
| "exec_step (SubmitSharedList p fs) = no_result (addTasks SharedCallableWrapper p fs)"
| "exec_step (Work i x) = takeProcTask i x"
| "exec_step (GiveUp r) = upd_result r (wait_for id)"
| "exec_step ShutdownBegin = shutdown_begin"
| "exec_step ShutdownEnd = shutdown_end"

text \<open>The callables that an event puts into the queue.\<close>

fun accepted :: "'v exec_event \<Rightarrow> 'v executor \<Rightarrow> callable list" where
  "accepted (SubmitValue p f) s = (if f = 0 \<or> p then [] else [FuncCallable f (ex_next_result s)])"
| "accepted (SubmitVoid p f) s = (if f = 0 \<or> p then [] else [VoidFuncCallable f])"
| "accepted (SubmitShared p f) s = (if f = 0 \<or> p then [] else [SharedCallableWrapper f])"
| "accepted (SubmitList p fs) s = (if p then [] else map VoidFuncCallable (filter (\<lambda>f. f \<noteq> 0) fs))"
| "accepted (SubmitSharedList p fs) s = (if p then [] else map SharedCallableWrapper (filter (\<lambda>f. f \<noteq> 0) fs))"
| "accepted _ s = []"

text \<open>
  Who saw \<open>pause_\<close> set saw it after it was set. The queue holds fewer than \<open>INT_MAX\<close> tasks. A function
  returns or throws, or its worker never takes the step. \<open>shutdown\<close> stops after it has paused, at once or
  when it saw the queue empty, which need not be so any more.
\<close>

definition room :: "nat \<Rightarrow> 'v executor \<Rightarrow> bool" where
  "room n s \<longleftrightarrow> q_size (ex_tasks s) + int n < INT_MAX"

fun feasible :: "'v exec_event \<Rightarrow> 'v executor \<Rightarrow> bool" where
  "feasible (SubmitValue p f) s = ((p \<longrightarrow> ex_pause s) \<and> room 1 s)"
| "feasible (SubmitVoid p f) s = ((p \<longrightarrow> ex_pause s) \<and> room 1 s)"
| "feasible (SubmitShared p f) s = ((p \<longrightarrow> ex_pause s) \<and> room 1 s)"
| "feasible (SubmitList p fs) s = ((p \<longrightarrow> ex_pause s) \<and> room (length fs) s)"
| "feasible (SubmitSharedList p fs) s = ((p \<longrightarrow> ex_pause s) \<and> room (length fs) s)"
| "feasible (Work i x) s = (i < length (ex_workers s) \<and> x \<noteq> Hang \<and> x \<noteq> Undef)"
| "feasible (GiveUp r) s = (r < ex_next_result s)"
| "feasible ShutdownBegin s = True"
| "feasible ShutdownEnd s = ex_pause s"

text \<open>\<open>service_run n es s acc\<close>: with \<open>n\<close> workers the events \<open>es\<close> lead to \<open>s\<close>, and \<open>acc\<close> was accepted, in order.\<close>

inductive service_run :: "nat \<Rightarrow> 'v exec_event list \<Rightarrow> 'v executor \<Rightarrow> callable list \<Rightarrow> bool" for n where
  start: "service_run n [] (ExecutorService_new n) []"
| step: "service_run n es s acc \<Longrightarrow> feasible e s \<Longrightarrow> exec_step e s = (Ok (), s') \<Longrightarrow>
    service_run n (es @ [e]) s' (acc @ accepted e s)"

section \<open>The invariant\<close>

text \<open>Addresses that the workers hold, and the callables at some of them.\<close>

fun hand :: "worker \<Rightarrow> nat list" where
  "hand (Holding a) = [a]" | "hand (Running a) = [a]" | "hand (Finished a) = [a]" | "hand _ = []"

fun held :: "worker \<Rightarrow> nat list" where
  "held (Holding a) = [a]" | "held _ = []"

fun running :: "worker \<Rightarrow> nat list" where
  "running (Running a) = [a]" | "running _ = []"

definition hands :: "'v executor \<Rightarrow> nat list" where
  "hands s = concat (map hand (ex_workers s))"

definition tasks_at :: "(worker \<Rightarrow> nat list) \<Rightarrow> 'v executor \<Rightarrow> callable list" where
  "tasks_at P s = map (\<lambda>a. the (ex_callables s a)) (concat (map P (ex_workers s)))"

text \<open>\<open>ts\<close> are the addresses in the queue, \<open>cs\<close> the callables there.\<close>

definition heap_tasks :: "'v executor \<Rightarrow> nat list \<Rightarrow> callable list \<Rightarrow> bool" where
  "heap_tasks s ts cs \<longleftrightarrow> queue_is (ex_tasks s) ts \<and> map (ex_callables s) ts = map Some cs \<and> distinct (ts @ hands s) \<and>
     0 \<notin> set (ts @ hands s) \<and> 0 < ex_next s \<and> (\<forall>t\<in>set (ts @ hands s). t < ex_next s) \<and> dom (ex_callables s) = set (ts @ hands s)"

definition holds_tasks :: "'v executor \<Rightarrow> callable list \<Rightarrow> bool" where
  "holds_tasks s cs \<longleftrightarrow> (\<exists>ts. heap_tasks s ts cs)"

text \<open>Every task that was taken is in one place: held, entered and running, or ended.\<close>

definition books :: "'v executor \<Rightarrow> bool" where
  "books s \<longleftrightarrow> mset (called s) + mset (tasks_at held s) = mset (taken s) \<and>
     mset (map fst (ended s)) + mset (tasks_at running s) = mset (called s) \<and>
     (length (ex_workers s) = 1 \<longrightarrow> called s @ tasks_at held s = taken s \<and> map fst (ended s) @ tasks_at running s = called s)"

lemma holds_size: "holds_tasks s cs \<Longrightarrow> q_size (ex_tasks s) = int (length cs)"
  using queue_is_size map_eq_imp_length_eq by (fastforce simp: holds_tasks_def heap_tasks_def)

lemma heap_size: "heap_tasks s ts cs \<Longrightarrow> q_size (ex_tasks s) = int (length cs)"
  using holds_size holds_tasks_def by blast

lemma on_tasks_run: "m (ex_tasks s) = (r, q) \<Longrightarrow> on_tasks m s = (r, s\<lparr>ex_tasks := q\<rparr>)"
  by (simp add: on_tasks_def zoom_def)

lemma queue_addAll_run:
  "queue_is q xs \<Longrightarrow> int (length xs + length ys) < INT_MAX \<Longrightarrow>
   \<exists>n q'. queue_addAll ys q = (Ok n, q') \<and> queue_is q' (xs @ ys)"
  using queue_adds_run [of q xs ys] by (auto simp: queue_addAll_def seqp_def bindp_def asks_run)

lemma concat_update:
  "i < length ws \<Longrightarrow> mset (concat (map P (ws[i := w]))) + mset (P (ws ! i)) = mset (concat (map P ws)) + mset (P w)"
proof (induction ws arbitrary: i)
  case (Cons v ws)
  then show ?case by (cases i) (auto simp: ac_simps)
qed simp

lemma concat_one: "length ws = 1 \<Longrightarrow> concat (map P ws) = P (ws ! 0)"
  by (cases ws) auto

lemma in_hands: "i < length (ex_workers s) \<Longrightarrow> a \<in> set (hand (ex_workers s ! i)) \<Longrightarrow> a \<in> set (hands s)"
  by (auto simp: hands_def)

lemma held_hand: "set (held w) \<subseteq> set (hand w)" and running_hand: "set (running w) \<subseteq> set (hand w)"
  by (cases w; simp)+

section \<open>Adding to the queue\<close>

text \<open>New callables get fresh addresses, one after the other.\<close>

lemma toCallableList_run:
  "\<exists>as s'. toCallableList conv fs s = (Ok as, s') \<and>
     s' = s\<lparr>ex_callables := ex_callables s', ex_next := ex_next s + length as\<rparr> \<and>
     as = [ex_next s..<ex_next s + length as] \<and>
     map (ex_callables s') as = map (\<lambda>f. Some (conv f)) (filter (\<lambda>f. f \<noteq> 0) fs) \<and>
     (\<forall>t. t \<notin> set as \<longrightarrow> ex_callables s' t = ex_callables s t)"
proof (induction fs arbitrary: s)
  case (Cons f fs)
  show ?case
  proof (cases "f = 0")
    case False
    define s1 where "s1 = s\<lparr>ex_callables := (ex_callables s)(ex_next s \<mapsto> conv f), ex_next := Suc (ex_next s)\<rparr>"
    obtain as s' where r: "toCallableList conv fs s1 = (Ok as, s')"
      "s' = s1\<lparr>ex_callables := ex_callables s', ex_next := ex_next s1 + length as\<rparr>"
      "as = [ex_next s1..<ex_next s1 + length as]"
      "map (ex_callables s') as = map (\<lambda>f. Some (conv f)) (filter (\<lambda>f. f \<noteq> 0) fs)"
      "\<forall>t. t \<notin> set as \<longrightarrow> ex_callables s' t = ex_callables s1 t" using Cons.IH by blast
    have fresh: "ex_next s \<notin> set as"
      using arg_cong [OF r(3), of set] unfolding s1_def set_upt by simp
    have "toCallableList conv (f # fs) s = (Ok (ex_next s # as), s')"
      using False r(1) by (simp add: bindp_def new_callable_def s1_def ret_run)
    moreover have "s' = s\<lparr>ex_callables := ex_callables s', ex_next := ex_next s + length (ex_next s # as)\<rparr>"
      using r(2) by (simp add: s1_def)
    moreover have "ex_next s # as = [ex_next s..<ex_next s + length (ex_next s # as)]"
    proof -
      have "[ex_next s..<ex_next s + length (ex_next s # as)] = ex_next s # [Suc (ex_next s)..<Suc (ex_next s) + length as]"
        by (simp add: upt_conv_Cons del: upt_Suc)
      also have "\<dots> = ex_next s # as" using arg_cong [OF r(3), of "(#) (ex_next s)"] unfolding s1_def by simp
      finally show ?thesis by (rule sym)
    qed
    moreover have "map (ex_callables s') (ex_next s # as) = map (\<lambda>f. Some (conv f)) (filter (\<lambda>f. f \<noteq> 0) (f # fs))"
      using r(4,5) fresh False by (simp add: s1_def)
    moreover have "\<forall>t. t \<notin> set (ex_next s # as) \<longrightarrow> ex_callables s' t = ex_callables s t"
      using r(5) by (simp add: s1_def)
    ultimately show ?thesis by blast
  qed (use Cons.IH in simp)
qed (simp add: ret_run)

lemma callables_added:
  assumes "heap_tasks s ts cs" "int (length cs + length as) < INT_MAX" "as = [ex_next s..<ex_next s + length as]"
    and "s' = s\<lparr>ex_callables := K, ex_next := ex_next s + length as\<rparr>" "map K as = map Some ds"
    and "\<forall>t. t \<notin> set as \<longrightarrow> K t = ex_callables s t"
  shows "\<exists>n q. on_tasks (queue_addAll as) s' = (Ok n, s'\<lparr>ex_tasks := q\<rparr>) \<and> heap_tasks (s'\<lparr>ex_tasks := q\<rparr>) (ts @ as) (cs @ ds)"
proof -
  let ?all = "set ts \<union> set (hands s)"
  have t: "queue_is (ex_tasks s) ts" "distinct (ts @ hands s)" "0 \<notin> ?all" "0 < ex_next s" "\<forall>t\<in>?all. t < ex_next s"
    "dom (ex_callables s) = ?all" "map (ex_callables s) ts = map Some cs" using assms(1) by (auto simp: heap_tasks_def)
  have len: "length ts = length cs" using map_eq_imp_length_eq [OF t(7)] by simp
  obtain n q where q: "queue_addAll as (ex_tasks s) = (Ok n, q)" "queue_is q (ts @ as)"
    using queue_addAll_run [OF t(1), of as] assms(2) len by auto
  have as: "set as = {ex_next s..<ex_next s + length as}" "distinct as"
    by (subst assms(3), simp)+
  have new: "?all \<inter> set as = {}" "0 \<notin> set as"
  proof -
    have "x \<notin> set as" if "x \<in> ?all" for x using bspec [OF t(5) that] unfolding as(1) by simp
    then show "?all \<inter> set as = {}" by blast
    show "0 \<notin> set as" using t(4) unfolding as(1) by simp
  qed
  have K: "K t = ex_callables s t" if "t \<in> set ts" for t using assms(6) new(1) that by blast
  have "map K ts = map Some cs" using t(7) K by (metis (no_types, lifting) map_cong)
  moreover have "dom K = set ((ts @ as) @ hands s)"
  proof -
    have "t \<in> dom K" if "t \<in> set as" for t
    proof -
      have "K t \<in> set (map Some ds)" using assms(5) that by (metis image_eqI list.set_map)
      then show ?thesis by auto
    qed
    moreover have "t \<in> dom K \<longleftrightarrow> t \<in> ?all" if x: "t \<notin> set as" for t
      unfolding t(6) [symmetric] using assms(6) x by (simp add: domIff)
    ultimately show ?thesis using new(1) by auto
  qed
  moreover have "hands (s'\<lparr>ex_tasks := q\<rparr>) = hands s" using assms(4) by (simp add: hands_def)
  ultimately have "heap_tasks (s'\<lparr>ex_tasks := q\<rparr>) (ts @ as) (cs @ ds)"
    using q(2) t(2-5) as new assms(4,5) unfolding heap_tasks_def
    by (auto simp: less_imp_le trans_less_add1)
  then show ?thesis using q(1) assms(4) by (intro exI [of _ n] exI [of _ q]) (simp add: on_tasks_run)
qed

definition same_rest :: "'v executor \<Rightarrow> 'v executor \<Rightarrow> bool" where
  "same_rest s' s \<longleftrightarrow> ex_stop s' = ex_stop s \<and> ex_pause s' = ex_pause s \<and> ex_results s' = ex_results s \<and>
     ex_next_result s' = ex_next_result s \<and> taken s' = taken s \<and> called s' = called s \<and> ended s' = ended s \<and>
     ex_workers s' = ex_workers s \<and> (\<forall>a\<in>set (hands s). ex_callables s' a = ex_callables s a)"

lemma same_rest_refl: "same_rest s s"
  by (simp add: same_rest_def)

lemma same_rest_books:
  assumes "same_rest s' s" "books s"
  shows "books s'"
proof -
  have m: "tasks_at P s' = tasks_at P s" if "\<And>w. set (P w) \<subseteq> set (hand w)" for P
    using assms(1) that unfolding tasks_at_def same_rest_def hands_def by (intro map_cong) (simp, fastforce)
  show ?thesis using assms m [OF held_hand] m [OF running_hand] by (simp add: books_def same_rest_def)
qed

lemma added_same_rest:
  assumes "heap_tasks s ts cs" "as = [ex_next s..<ex_next s + length as]"
    and "s' = s\<lparr>ex_callables := K, ex_next := n, ex_tasks := q\<rparr>" "\<forall>t. t \<notin> set as \<longrightarrow> K t = ex_callables s t"
  shows "same_rest s' s"
proof -
  have "set as = {ex_next s..<ex_next s + length as}" by (subst assms(2)) simp
  moreover have "\<forall>t\<in>set (hands s). t < ex_next s" using assms(1) by (simp add: heap_tasks_def)
  ultimately show ?thesis using assms(3,4) by (force simp: same_rest_def)
qed

lemma queue_add_run:
  "queue_addAll [x] s = (Ok n, s') \<Longrightarrow> queue_add x s = (Ok n, s')"
  by (simp add: queue_add_def queue_addAll_def)

lemma enqueue_run:
  assumes "heap_tasks s ts cs" "int (length cs) + 1 < INT_MAX"
  shows "\<exists>s' ts'. enqueue c s = (Ok (), s') \<and> heap_tasks s' ts' (cs @ [c]) \<and> same_rest s' s"
proof -
  define K where "K = (ex_callables s)(ex_next s \<mapsto> c)"
  define s1 where "s1 = s\<lparr>ex_callables := K, ex_next := Suc (ex_next s)\<rparr>"
  obtain n q where q: "on_tasks (queue_addAll [ex_next s]) s1 = (Ok n, s1\<lparr>ex_tasks := q\<rparr>)"
      "heap_tasks (s1\<lparr>ex_tasks := q\<rparr>) (ts @ [ex_next s]) (cs @ [c])"
    using callables_added [OF assms(1), of "[ex_next s]" s1 K "[c]"] assms(2) by (auto simp: s1_def K_def)
  have "on_tasks (queue_add (ex_next s)) s1 = (Ok n, s1\<lparr>ex_tasks := q\<rparr>)"
    using q(1) by (auto simp: on_tasks_def zoom_def split: prod.splits dest: queue_add_run)
  then have "enqueue c s = (Ok (), s1\<lparr>ex_tasks := q\<rparr>)"
    by (simp add: enqueue_def bindp_def new_callable_def seqp_def ret_run s1_def K_def)
  moreover have "same_rest (s1\<lparr>ex_tasks := q\<rparr>) s"
    by (rule added_same_rest [OF assms(1), of "[ex_next s]"]) (auto simp: s1_def K_def)
  ultimately show ?thesis using q(2) by blast
qed

lemma addTasks_run:
  assumes "heap_tasks s ts cs" "int (length cs) + int (length fs) < INT_MAX"
  shows "\<exists>b s' ts'. addTasks conv paused fs s = (Ok b, s') \<and>
     heap_tasks s' ts' (cs @ (if paused then [] else map conv (filter (\<lambda>f. f \<noteq> 0) fs))) \<and> same_rest s' s"
proof (cases "fs = [] \<or> paused")
  case True
  then show ?thesis using assms(1) by (auto simp: addTasks_def ret_run same_rest_refl)
next
  case False
  let ?ds = "map conv (filter (\<lambda>f. f \<noteq> 0) fs)"
  obtain as s1 where r: "toCallableList conv fs s = (Ok as, s1)"
     "s1 = s\<lparr>ex_callables := ex_callables s1, ex_next := ex_next s + length as\<rparr>"
     "as = [ex_next s..<ex_next s + length as]"
     "map (ex_callables s1) as = map (\<lambda>f. Some (conv f)) (filter (\<lambda>f. f \<noteq> 0) fs)"
     "\<forall>t. t \<notin> set as \<longrightarrow> ex_callables s1 t = ex_callables s t"
    using toCallableList_run [of conv fs s] by blast
  have len: "length as = length ?ds" using arg_cong [OF r(4), of length] by simp
  show ?thesis
  proof (cases "as = []")
    case True
    then have "ex_callables s1 = ex_callables s" using r(5) by (simp add: fun_eq_iff)
    then have "s1 = s" using r(2) True by simp
    then show ?thesis using r(1) False assms(1) True len
      by (auto simp: addTasks_def bindp_def ret_run same_rest_refl filter_empty_conv)
  next
    case ne: False
    have "length ?ds \<le> length fs" by simp
    then have "int (length cs + length as) < INT_MAX" using assms(2) unfolding len by linarith
    then obtain n q where q: "on_tasks (queue_addAll as) s1 = (Ok n, s1\<lparr>ex_tasks := q\<rparr>)"
      "heap_tasks (s1\<lparr>ex_tasks := q\<rparr>) (ts @ as) (cs @ ?ds)"
      using callables_added [OF assms(1) _ r(3) r(2), of ?ds] r(4,5) by (auto simp: comp_def)
    have "addTasks conv paused fs s = (Ok True, s1\<lparr>ex_tasks := q\<rparr>)"
      using False r(1) ne q(1) by (simp add: addTasks_def bindp_def seqp_def ret_run)
    moreover have "s1\<lparr>ex_tasks := q\<rparr> = s\<lparr>ex_callables := ex_callables s1, ex_next := ex_next s + length as, ex_tasks := q\<rparr>"
      by (subst r(2)) simp
    then have "same_rest (s1\<lparr>ex_tasks := q\<rparr>) s" by (rule added_same_rest [OF assms(1) r(3) _ r(5)])
    ultimately show ?thesis using q(2) False by auto
  qed
qed

section \<open>A worker's steps\<close>

lemma tasks_at_mset: "mset (tasks_at P s) = image_mset (\<lambda>a. the (ex_callables s a)) (mset (concat (map P (ex_workers s))))"
  by (simp add: tasks_at_def)

lemma tasks_at_update:
  assumes "i < length (ex_workers s)" "ex_workers s' = (ex_workers s)[i := w]" "ex_callables s' = ex_callables s"
  shows "mset (tasks_at P s') + mset (map (\<lambda>a. the (ex_callables s a)) (P (ex_workers s ! i))) =
    mset (tasks_at P s) + mset (map (\<lambda>a. the (ex_callables s a)) (P w))"
  using arg_cong [OF concat_update [OF assms(1), of P w], of "image_mset (\<lambda>a. the (ex_callables s a))"] assms(2,3)
  by (simp add: tasks_at_mset)

lemma concat_same: "i < length ws \<Longrightarrow> P w = P (ws ! i) \<Longrightarrow> concat (map P (ws[i := w])) = concat (map P ws)"
  by (metis list_update_id map_update)

lemma hands_same:
  "i < length (ex_workers s) \<Longrightarrow> ex_workers s' = (ex_workers s)[i := w] \<Longrightarrow> hand w = hand (ex_workers s ! i) \<Longrightarrow> hands s' = hands s"
  by (simp add: hands_def concat_same)

lemma tasks_at_same:
  "i < length (ex_workers s) \<Longrightarrow> ex_workers s' = (ex_workers s)[i := w] \<Longrightarrow> ex_callables s' = ex_callables s \<Longrightarrow>
   P w = P (ex_workers s ! i) \<Longrightarrow> tasks_at P s' = tasks_at P s"
  by (simp add: tasks_at_def concat_same)

lemma tasks_at_one:
  "length (ex_workers s) = 1 \<Longrightarrow> tasks_at P s = map (\<lambda>a. the (ex_callables s a)) (P (ex_workers s ! 0))"
  by (simp add: tasks_at_def concat_one)

text \<open>What such a step leaves alone.\<close>

definition steady :: "'v executor \<Rightarrow> 'v executor \<Rightarrow> bool" where
  "steady s' s \<longleftrightarrow> ex_stop s' = ex_stop s \<and> ex_pause s' = ex_pause s \<and> ex_next_result s' = ex_next_result s \<and>
     length (ex_workers s') = length (ex_workers s)"

lemma idle_step:
  assumes "heap_tasks s ts cs" "books s" "i < length (ex_workers s)" "hand (ex_workers s ! i) = []" "hand w = []"
    and "s' = s\<lparr>ex_tasks := q, ex_workers := (ex_workers s)[i := w]\<rparr>" "queue_is q ts"
  shows "heap_tasks s' ts cs \<and> books s' \<and> steady s' s"
proof -
  have none: "held w = held (ex_workers s ! i)" "running w = running (ex_workers s ! i)"
    using assms(4,5) held_hand [of w] running_hand [of w] held_hand [of "ex_workers s ! i"] running_hand [of "ex_workers s ! i"]
    by simp_all
  have s': "ex_workers s' = (ex_workers s)[i := w]" "ex_callables s' = ex_callables s" using assms(6) by simp_all
  show ?thesis
    using assms(1,2,6,7) hands_same [OF assms(3) s'(1)] tasks_at_same [OF assms(3) s', of held, OF none(1)]
      tasks_at_same [OF assms(3) s', of running, OF none(2)] assms(4,5)
    by (simp add: heap_tasks_def books_def steady_def)
qed

lemma heap_callable: "heap_tasks s ts cs \<Longrightarrow> a \<in> set ts \<union> set (hands s) \<Longrightarrow> \<exists>c. ex_callables s a = Some c"
  unfolding heap_tasks_def by (metis Un_iff domD set_append)

lemma work_test_run:
  assumes "heap_tasks s ts cs" "books s" "i < length (ex_workers s)" "ex_workers s ! i = AtTest"
  shows "\<exists>w. work_test i s = (Ok (), s\<lparr>ex_workers := (ex_workers s)[i := w]\<rparr>) \<and> hand w = []"
  by (auto simp: work_test_def ifp_run upd_worker_def modify_run)

lemma queue_take_empty:
  assumes "queue_is q []"
  shows "queue_take d id t q = (Ok d, q)"
proof -
  have "q_size q = 0" using queue_is_size [OF assms] by simp
  then show ?thesis by (simp add: queue_take_def seqp_def bindp_def await_def modify_run ifp_run ret_run)
qed

lemma queue_take_first:
  assumes "queue_is q (a # us)"
  shows "\<exists>q'. queue_take d id t q = (Ok a, q') \<and> queue_is q' us"
proof -
  obtain q' where q': "pop_front q = (Ok a, q')" "queue_is q' us" using pop_front_run [OF assms] by blast
  have "q_size q > 0" using queue_is_size [OF assms] by simp
  then have "queue_take d id t q = (Ok a, q')"
    using q'(1) by (simp add: queue_take_def seqp_def bindp_def await_def modify_run ifp_run)
  then show ?thesis using q'(2) by blast
qed

lemma work_take_empty:
  assumes "heap_tasks s [] cs"
  shows "\<exists>q. work_take i s = (Ok (), s\<lparr>ex_tasks := q, ex_workers := (ex_workers s)[i := AtTest]\<rparr>) \<and> queue_is q []"
proof -
  have q: "queue_is (ex_tasks s) []" using assms by (simp add: heap_tasks_def)
  have "on_tasks (queue_take 0 id (- 1)) s = (Ok 0, s\<lparr>ex_tasks := ex_tasks s\<rparr>)"
    by (rule on_tasks_run) (rule queue_take_empty [OF q])
  then have "work_take i s = (Ok (), s\<lparr>ex_tasks := ex_tasks s, ex_workers := (ex_workers s)[i := AtTest]\<rparr>)"
    by (simp add: work_take_def bindp_def upd_worker_def modify_run)
  then show ?thesis using q by blast
qed

lemma work_take_some:
  assumes "heap_tasks s (a # us) cs"
  shows "\<exists>q. work_take i s = (Ok (), s\<lparr>ex_tasks := q, taken := taken s @ [hd cs], ex_workers := (ex_workers s)[i := Holding a]\<rparr>) \<and>
    queue_is q us \<and> cs = the (ex_callables s a) # tl cs"
proof -
  have t: "queue_is (ex_tasks s) (a # us)" "a \<noteq> 0" "map (ex_callables s) (a # us) = map Some cs"
    using assms by (auto simp: heap_tasks_def)
  obtain q where q: "queue_take 0 id (- 1) (ex_tasks s) = (Ok a, q)" "queue_is q us"
    using queue_take_first [OF t(1)] by blast
  have c: "cs = the (ex_callables s a) # tl cs" using t(3) by (cases cs) auto
  then have "hd cs = the (ex_callables s a)" by (metis list.sel(1))
  then have "work_take i s = (Ok (), s\<lparr>ex_tasks := q, taken := taken s @ [hd cs], ex_workers := (ex_workers s)[i := Holding a]\<rparr>)"
    using q(1) t(2) by (simp add: work_take_def bindp_def seqp_def on_tasks_run upd_worker_def modify_run)
  then show ?thesis using q(2) c by blast
qed

lemma take_step:
  assumes "heap_tasks s (a # us) cs" "books s" "i < length (ex_workers s)" "ex_workers s ! i = AtTake"
    and s': "s' = s\<lparr>ex_tasks := q, taken := taken s @ [hd cs], ex_workers := (ex_workers s)[i := Holding a]\<rparr>" "queue_is q us"
    and c: "cs = the (ex_callables s a) # tl cs"
  shows "heap_tasks s' us (tl cs) \<and> books s' \<and> steady s' s"
proof -
  let ?K = "\<lambda>a. the (ex_callables s a)"
  have f: "ex_workers s' = (ex_workers s)[i := Holding a]" "ex_callables s' = ex_callables s" using s'(1) by simp_all
  have hd: "hd cs = ?K a" using arg_cong [OF c, of hd] by simp
  have "mset (hands s') = mset (hands s) + {#a#}"
    using concat_update [OF assms(3), of hand "Holding a"] assms(4) f(1) by (simp add: hands_def)
  then have m: "mset (us @ hands s') = mset ((a # us) @ hands s)" by simp
  have "distinct (us @ hands s')" using assms(1) mset_eq_imp_distinct_iff [OF m] by (simp add: heap_tasks_def)
  moreover have "set (us @ hands s') = set ((a # us) @ hands s)" by (rule mset_eq_setD [OF m])
  moreover have "map (ex_callables s) us = map Some (tl cs)"
  proof -
    have "map (ex_callables s) (a # us) = map Some (?K a # tl cs)" using assms(1) c by (simp add: heap_tasks_def)
    then show ?thesis by simp
  qed
  ultimately have h: "heap_tasks s' us (tl cs)" using assms(1) s' by (simp add: heap_tasks_def)
  have "mset (tasks_at held s') = mset (tasks_at held s) + {#hd cs#}"
    using tasks_at_update [OF assms(3) f, of held] assms(4) hd by simp
  moreover have "tasks_at running s' = tasks_at running s" using tasks_at_same [OF assms(3) f] assms(4) by simp
  moreover have "called s @ tasks_at held s' = taken s @ [hd cs]" if "length (ex_workers s) = 1"
    using that assms(2-4) f hd by (simp add: books_def tasks_at_one)
  moreover have "called s' = called s" "ended s' = ended s" "taken s' = taken s @ [hd cs]" "steady s' s"
    "length (ex_workers s') = length (ex_workers s)"
    using s'(1) by (simp_all add: steady_def)
  ultimately show ?thesis using h assms(2) unfolding books_def by simp
qed

lemma start_step:
  assumes "heap_tasks s ts cs" "books s" "i < length (ex_workers s)" "ex_workers s ! i = Holding a"
  shows "\<exists>s'. work_start i a s = (Ok (), s') \<and> heap_tasks s' ts cs \<and> books s' \<and> steady s' s \<and>
    taken s' = taken s \<and> ended s' = ended s \<and> ex_results s' = ex_results s"
proof -
  obtain c where c: "ex_callables s a = Some c"
    using heap_callable [OF assms(1)] in_hands [OF assms(3), of a] assms(4) by auto
  define s' where "s' = s\<lparr>called := called s @ [c], ex_workers := (ex_workers s)[i := Running a]\<rparr>"
  have f: "ex_workers s' = (ex_workers s)[i := Running a]" "ex_callables s' = ex_callables s" by (simp_all add: s'_def)
  have "work_start i a s = (Ok (), s')"
    using c by (simp add: work_start_def bindp_def seqp_def deref_task_def lift_outcome_def modify_run upd_worker_def s'_def)
  moreover have "heap_tasks s' ts cs" using assms(1) hands_same [OF assms(3) f(1)] assms(4) by (simp add: heap_tasks_def s'_def)
  moreover have "books s'"
  proof -
    have m: "mset (tasks_at held s) = mset (tasks_at held s') + {#c#}" "mset (tasks_at running s') = mset (tasks_at running s) + {#c#}"
      using tasks_at_update [OF assms(3) f, of held] tasks_at_update [OF assms(3) f, of running] assms(4) c by simp_all
    moreover have "[c] @ tasks_at held s' = tasks_at held s \<and> tasks_at running s' = tasks_at running s @ [c]" if "length (ex_workers s) = 1"
      using that assms(3,4) f c by (simp add: tasks_at_one)
    moreover have "called s' = called s @ [c]" "ended s' = ended s" "taken s' = taken s" "length (ex_workers s') = length (ex_workers s)"
      by (simp_all add: s'_def)
    ultimately show ?thesis using assms(2) unfolding books_def m by (auto simp: ac_simps)
  qed
  moreover have "steady s' s" "taken s' = taken s" "ended s' = ended s" "ex_results s' = ex_results s"
    by (simp_all add: steady_def s'_def)
  ultimately show ?thesis by blast
qed

fun resolve :: "callable \<Rightarrow> 'v outcome \<Rightarrow> (nat \<Rightarrow> 'v async option) \<Rightarrow> nat \<Rightarrow> 'v async option" where
  "resolve (FuncCallable f r) x R = R(r := map_option
     (case x of Ok v \<Rightarrow> set_value v | _ \<Rightarrow> set_exception ''exception occur when execute method'') (R r))"
| "resolve _ x R = R"

lemma finish_call_run:
  "x \<noteq> Hang \<Longrightarrow> x \<noteq> Undef \<Longrightarrow> finish_call c x s = (Ok (), s\<lparr>ex_results := resolve c x (ex_results s)\<rparr>)"
  by (cases c; cases x) (simp_all add: finish_call_def upd_result_def modify_run ret_run)

lemma finish_step:
  assumes "heap_tasks s ts cs" "books s" "i < length (ex_workers s)" "ex_workers s ! i = Running a" "x \<noteq> Hang" "x \<noteq> Undef"
  shows "\<exists>s' c. work_finish i a x s = (Ok (), s') \<and> heap_tasks s' ts cs \<and> books s' \<and> steady s' s \<and>
    taken s' = taken s \<and> ended s' = ended s @ [(c, x)] \<and> ex_results s' = resolve c x (ex_results s)"
proof -
  obtain c where c: "ex_callables s a = Some c"
    using heap_callable [OF assms(1)] in_hands [OF assms(3), of a] assms(4) by auto
  define s' where "s' = s\<lparr>ex_results := resolve c x (ex_results s), ended := ended s @ [(c, x)],
     ex_workers := (ex_workers s)[i := Finished a]\<rparr>"
  have f: "ex_workers s' = (ex_workers s)[i := Finished a]" "ex_callables s' = ex_callables s" by (simp_all add: s'_def)
  have "work_finish i a x s = (Ok (), s')"
    using c finish_call_run [OF assms(5,6), of c s]
    by (simp add: work_finish_def bindp_def seqp_def deref_task_def lift_outcome_def modify_run upd_worker_def s'_def)
  moreover have "heap_tasks s' ts cs" using assms(1) hands_same [OF assms(3) f(1)] assms(4) by (simp add: heap_tasks_def s'_def)
  moreover have "books s'"
  proof -
    have m: "mset (tasks_at held s') = mset (tasks_at held s)" "mset (tasks_at running s) = mset (tasks_at running s') + {#c#}"
      using tasks_at_update [OF assms(3) f, of held] tasks_at_update [OF assms(3) f, of running] assms(4) c by simp_all
    moreover have "tasks_at held s' = tasks_at held s \<and> [c] @ tasks_at running s' = tasks_at running s" if "length (ex_workers s) = 1"
      using that assms(3,4) f c by (simp add: tasks_at_one)
    moreover have "called s' = called s" "ended s' = ended s @ [(c, x)]" "taken s' = taken s" "length (ex_workers s') = length (ex_workers s)"
      by (simp_all add: s'_def)
    ultimately show ?thesis using assms(2) unfolding books_def m by (auto simp: ac_simps)
  qed
  moreover have "steady s' s" "taken s' = taken s" "ended s' = ended s @ [(c, x)]" "ex_results s' = resolve c x (ex_results s)"
    by (simp_all add: steady_def s'_def)
  ultimately show ?thesis by blast
qed

lemma delete_step:
  assumes "heap_tasks s ts cs" "books s" "i < length (ex_workers s)" "ex_workers s ! i = Finished a"
  shows "\<exists>s'. work_delete i a s = (Ok (), s') \<and> heap_tasks s' ts cs \<and> books s' \<and> steady s' s \<and>
    taken s' = taken s \<and> ended s' = ended s \<and> ex_results s' = ex_results s"
proof -
  define s' where "s' = s\<lparr>ex_callables := (ex_callables s)(a := None), ex_workers := (ex_workers s)[i := AtTest]\<rparr>"
  have f: "ex_workers s' = (ex_workers s)[i := AtTest]" by (simp add: s'_def)
  have "ex_callables s a \<noteq> None" using heap_callable [OF assms(1)] in_hands [OF assms(3), of a] assms(4) by auto
  then have r: "work_delete i a s = (Ok (), s')"
    by (simp add: work_delete_def bindp_def seqp_def assertp_run modify_run upd_worker_def s'_def)
  have "mset (hands s) = mset (hands s') + {#a#}"
    using concat_update [OF assms(3), of hand AtTest] assms(4) f by (simp add: hands_def)
  then have m: "mset (ts @ hands s) = mset (a # ts @ hands s')" by simp
  have d: "distinct (a # ts @ hands s')" using assms(1) mset_eq_imp_distinct_iff [OF m] by (simp add: heap_tasks_def)
  have e: "set (ts @ hands s) = insert a (set (ts @ hands s'))" using mset_eq_setD [OF m] by simp
  have t: "map (ex_callables s') ts = map (ex_callables s) ts" using d by (auto simp: s'_def)
  have "dom (ex_callables s) = insert a (set (ts @ hands s'))" using assms(1) e by (simp add: heap_tasks_def)
  then have "dom (ex_callables s') = set (ts @ hands s')" using d by (simp add: s'_def)
  moreover have "queue_is (ex_tasks s') ts" "map (ex_callables s') ts = map Some cs" "0 \<notin> set (ts @ hands s')" "0 < ex_next s'"
    "\<forall>u\<in>set (ts @ hands s'). u < ex_next s'"
    using assms(1) t unfolding heap_tasks_def e by (simp_all add: s'_def)
  ultimately have h: "heap_tasks s' ts cs" using d by (simp add: heap_tasks_def)
  have p: "tasks_at P s' = tasks_at P s" if P: "\<And>w. set (P w) \<subseteq> set (hand w)" and "P AtTest = P (Finished a)" for P
  proof -
    have "concat (map P (ex_workers s')) = concat (map P (ex_workers s))"
      using concat_same [OF assms(3), of P AtTest] that(2) assms(4) f by simp
    moreover have "a \<notin> set (concat (map P (ex_workers s')))" using d P by (fastforce simp: hands_def)
    ultimately show ?thesis unfolding tasks_at_def by (auto simp: s'_def)
  qed
  have "tasks_at held s' = tasks_at held s" "tasks_at running s' = tasks_at running s"
    by (rule p, rule held_hand, simp) (rule p, rule running_hand, simp)
  moreover have "steady s' s" "taken s' = taken s" "ended s' = ended s" "ex_results s' = ex_results s" "called s' = called s"
    "length (ex_workers s') = length (ex_workers s)"
    by (simp_all add: steady_def s'_def)
  ultimately have "books s'" using assms(2) by (simp add: books_def)
  then show ?thesis using r h \<open>steady s' s\<close> \<open>taken s' = taken s\<close> \<open>ended s' = ended s\<close> \<open>ex_results s' = ex_results s\<close> by blast
qed

text \<open>All of them: only the end of a function adds to what ended and touches a future.\<close>

lemma worker_step:
  assumes "heap_tasks s ts cs" "books s" "i < length (ex_workers s)" "x \<noteq> Hang" "x \<noteq> Undef"
  shows "\<exists>s' ts' cs'. takeProcTask i x s = (Ok (), s') \<and> heap_tasks s' ts' cs' \<and> books s' \<and> steady s' s \<and>
    taken s' @ cs' = taken s @ cs \<and>
    (ended s' = ended s \<and> ex_results s' = ex_results s \<or>
     (\<exists>c. ended s' = ended s @ [(c, x)] \<and> ex_results s' = resolve c x (ex_results s)))"
proof (cases "ex_workers s ! i")
  case AtTest
  then have t: "takeProcTask i x s = work_test i s" by (simp add: takeProcTask_def bindp_def asks_run)
  obtain w where w: "work_test i s = (Ok (), s\<lparr>ex_workers := (ex_workers s)[i := w]\<rparr>)" "hand w = []"
    using work_test_run [OF assms(1-3) AtTest] by blast
  have "heap_tasks (s\<lparr>ex_workers := (ex_workers s)[i := w]\<rparr>) ts cs \<and> books (s\<lparr>ex_workers := (ex_workers s)[i := w]\<rparr>) \<and>
      steady (s\<lparr>ex_workers := (ex_workers s)[i := w]\<rparr>) s"
    using assms(1) AtTest w(2) by (intro idle_step [OF assms(1-3), of w _ "ex_tasks s"]) (simp_all add: heap_tasks_def)
  then show ?thesis using t w(1) by (intro exI [of _ "s\<lparr>ex_workers := (ex_workers s)[i := w]\<rparr>"] exI [of _ ts] exI [of _ cs]) simp
next
  case AtTake
  then have t: "takeProcTask i x s = work_take i s" by (simp add: takeProcTask_def bindp_def asks_run)
  show ?thesis
  proof (cases ts)
    case Nil
    obtain q where q: "work_take i s = (Ok (), s\<lparr>ex_tasks := q, ex_workers := (ex_workers s)[i := AtTest]\<rparr>)" "queue_is q []"
      using work_take_empty [OF assms(1) [unfolded Nil]] by blast
    have "heap_tasks (s\<lparr>ex_tasks := q, ex_workers := (ex_workers s)[i := AtTest]\<rparr>) [] cs \<and>
       books (s\<lparr>ex_tasks := q, ex_workers := (ex_workers s)[i := AtTest]\<rparr>) \<and>
       steady (s\<lparr>ex_tasks := q, ex_workers := (ex_workers s)[i := AtTest]\<rparr>) s"
      using AtTake q(2) by (intro idle_step [OF assms(1) [unfolded Nil] assms(2,3)]) simp_all
    then show ?thesis using t q(1)
      by (intro exI [of _ "s\<lparr>ex_tasks := q, ex_workers := (ex_workers s)[i := AtTest]\<rparr>"] exI [of _ "[]"] exI [of _ cs]) simp
  next
    case (Cons a us)
    obtain q where q: "work_take i s = (Ok (), s\<lparr>ex_tasks := q, taken := taken s @ [hd cs], ex_workers := (ex_workers s)[i := Holding a]\<rparr>)"
      "queue_is q us" "cs = the (ex_callables s a) # tl cs" using work_take_some [OF assms(1) [unfolded Cons]] by blast
    have "taken s @ [hd cs] @ tl cs = taken s @ cs" using q(3) by (metis append_Cons append_Nil list.sel(1))
    then show ?thesis using take_step [OF assms(1) [unfolded Cons] assms(2,3) AtTake refl q(2,3)] t q(1)
      by (intro exI [of _ "s\<lparr>ex_tasks := q, taken := taken s @ [hd cs], ex_workers := (ex_workers s)[i := Holding a]\<rparr>"]
          exI [of _ us] exI [of _ "tl cs"]) simp
  qed
next
  case (Holding a)
  then have "takeProcTask i x s = work_start i a s" by (simp add: takeProcTask_def bindp_def asks_run)
  then show ?thesis using start_step [OF assms(1-3) Holding] by metis
next
  case (Running a)
  then have "takeProcTask i x s = work_finish i a x s" by (simp add: takeProcTask_def bindp_def asks_run)
  then show ?thesis using finish_step [OF assms(1-3) Running assms(4,5)] by metis
next
  case (Finished a)
  then have "takeProcTask i x s = work_delete i a s" by (simp add: takeProcTask_def bindp_def asks_run)
  then show ?thesis using delete_step [OF assms(1-3) Finished] by metis
next
  case Ended
  then have "takeProcTask i x s = (Ok (), s)" by (simp add: takeProcTask_def bindp_def asks_run ret_run)
  then show ?thesis using assms(1,2) by (intro exI [of _ s] exI [of _ ts] exI [of _ cs]) (simp add: steady_def)
qed

section \<open>Futures\<close>

text \<open>The calls of \<open>submit\<close> that return a future; the first gets future 0, and so on.\<close>

fun submission :: "'v exec_event \<Rightarrow> (bool \<times> nat) list" where
  "submission (SubmitValue p f) = [(p, f)]" | "submission _ = []"

definition submissions :: "'v exec_event list \<Rightarrow> (bool \<times> nat) list" where
  "submissions es = concat (map submission es)"

text \<open>What future \<open>r\<close>, submitted as \<open>(p, f)\<close>, is when the functions \<open>en\<close> came to an end.\<close>

definition future_is :: "bool \<times> nat \<Rightarrow> nat \<Rightarrow> (callable \<times> 'v outcome) list \<Rightarrow> 'v async \<Rightarrow> bool" where
  "future_is u r en a \<longleftrightarrow> (case u of (p, f) \<Rightarrow>
     if p \<or> f = 0 then getExceptionDesc a = Ok ''paused''
     else (case map_of en (FuncCallable f r) of
        None \<Rightarrow> \<not> has_value a \<and> \<not> has_exception a
      | Some x \<Rightarrow> (case x of Ok v \<Rightarrow> get_value a = Ok v
                 | _ \<Rightarrow> getExceptionDesc a = Ok ''exception occur when execute method'')))"

definition futures_ok :: "(bool \<times> nat) list \<Rightarrow> 'v executor \<Rightarrow> callable list \<Rightarrow> bool" where
  "futures_ok us s acc \<longleftrightarrow> ex_next_result s = length us \<and>
     (\<forall>f r. FuncCallable f r \<in> set acc \<longleftrightarrow> r < length us \<and> us ! r = (False, f) \<and> f \<noteq> 0) \<and>
     (\<forall>f r. count (mset acc) (FuncCallable f r) \<le> 1) \<and>
     (\<forall>r<length us. \<exists>a. ex_results s r = Some a \<and> future_is (us ! r) r (ended s) a)"

lemma futures_ok_same:
  "futures_ok us s acc \<Longrightarrow> ex_next_result s' = ex_next_result s \<Longrightarrow> ended s' = ended s \<Longrightarrow> ex_results s' = ex_results s \<Longrightarrow>
   (\<And>f r. FuncCallable f r \<notin> set ds) \<Longrightarrow> futures_ok us s' (acc @ ds)"
proof -
  assume a: "futures_ok us s acc" "ex_next_result s' = ex_next_result s" "ended s' = ended s" "ex_results s' = ex_results s"
    "\<And>f r. FuncCallable f r \<notin> set ds"
  have z: "count (mset ds) (FuncCallable f r) = 0" for f r using a(5) [of f r] by (simp add: count_eq_zero_iff)
  show ?thesis using a by (simp add: futures_ok_def z)
qed

lemma ended_accepted:
  assumes "books s" "taken s @ cs = acc"
  shows "mset (map fst (ended s)) \<subseteq># mset acc"
proof -
  have "mset acc = mset (taken s) + mset cs" using assms(2) by (metis mset_append)
  also have "mset (taken s) = mset (map fst (ended s)) + mset (tasks_at running s) + mset (tasks_at held s)"
    using assms(1) unfolding books_def by metis
  finally show ?thesis by (simp add: union_assoc)
qed

lemma futures_ok_finish:
  assumes "futures_ok us s acc" "ex_next_result s' = ex_next_result s" "ended s' = ended s @ [(c, x)]"
    and "ex_results s' = resolve c x (ex_results s)" "mset (map fst (ended s')) \<subseteq># mset acc" "x \<noteq> Hang" "x \<noteq> Undef"
  shows "futures_ok us s' acc"
proof -
  have keep: "future_is u q (ended s') a = future_is u q (ended s) a" if "\<And>f. c \<noteq> FuncCallable f q" for u q and a :: "'a async"
  proof -
    have "map_of (ended s') (FuncCallable f q) = map_of (ended s) (FuncCallable f q)" for f
      unfolding assms(3) map_of_append using that [of f] by (simp add: map_add_def split: option.split)
    then show ?thesis by (simp add: future_is_def)
  qed
  have "\<exists>a. ex_results s' q = Some a \<and> future_is (us ! q) q (ended s') a" if q: "q < length us" for q
  proof (cases "\<exists>f. c = FuncCallable f q")
    case False
    then have "ex_results s' q = ex_results s q" using assms(4) by (cases c) auto
    moreover have "future_is (us ! q) q (ended s') a = future_is (us ! q) q (ended s) a" for a using keep False by blast
    ultimately show ?thesis using assms(1) q by (simp add: futures_ok_def)
  next
    case True
    then obtain f where c: "c = FuncCallable f q" by blast
    have "c \<in># mset (map fst (ended s'))" using assms(3) by simp
    then have "c \<in> set acc" using mset_subset_eqD [OF assms(5)] by simp
    then have u: "us ! q = (False, f)" "f \<noteq> 0" using assms(1) c by (simp_all add: futures_ok_def)
    have "count (mset acc) c \<le> 1" using assms(1) c unfolding futures_ok_def by blast
    then have "count (mset (map fst (ended s'))) c \<le> 1" by (rule order_trans [OF mset_subset_eq_count [OF assms(5)]])
    then have "count (mset (map fst (ended s))) c = 0" using assms(3) by simp
    then have "map_of (ended s) c = None" by (simp add: count_eq_zero_iff map_of_eq_None_iff)
    then have m: "map_of (ended s') c = Some x" using assms(3) by (simp add: map_of_append map_add_def)
    obtain a where "ex_results s q = Some a" using assms(1) q by (auto simp: futures_ok_def)
    then show ?thesis using assms(4,6,7) c m u
      by (cases x) (simp_all add: future_is_def set_value_def set_exception_def get_value_def getExceptionDesc_def)
  qed
  then show ?thesis using assms(1,2) by (simp add: futures_ok_def)
qed

lemma futures_ok_give_up:
  assumes "futures_ok us s acc"
  shows "futures_ok us (s\<lparr>ex_results := (ex_results s)(r := map_option (wait_for id) (ex_results s r))\<rparr>) acc"
proof -
  have w: "future_is u q en (wait_for id a) = future_is u q en a" for u q en and a :: "'a async"
  proof -
    have e: "getExceptionDesc (wait_for id a) = getExceptionDesc a" "get_value (wait_for id a) = get_value a"
        "has_value (wait_for id a) = has_value a" "has_exception (wait_for id a) = has_exception a"
      by (cases "as_status a"; simp add: wait_for_def Let_def getExceptionDesc_def get_value_def has_value_def has_exception_def)+
    show ?thesis by (simp only: future_is_def e)
  qed
  have "\<exists>a. ((ex_results s)(r := map_option (wait_for id) (ex_results s r))) q = Some a \<and> future_is u q en a"
    if "\<exists>a. ex_results s q = Some a \<and> future_is u q en a" for u q en
    using that by (auto simp only: fun_upd_apply w option.map split: if_splits)
  then show ?thesis using assms by (simp add: futures_ok_def)
qed

lemma futures_ok_submit:
  assumes "futures_ok us s acc" "ex_next_result s' = Suc (ex_next_result s)" "ended s' = ended s"
    and "ex_results s' = (ex_results s)(ex_next_result s \<mapsto> (if f = 0 \<or> p then set_exception ''paused'' a else a))"
    and "as_status a = Uninitialized" "mset (map fst (ended s)) \<subseteq># mset acc"
  shows "futures_ok (us @ [(p, f)]) s' (acc @ (if f = 0 \<or> p then [] else [FuncCallable f (ex_next_result s)]))"
proof -
  let ?r = "ex_next_result s"
  have r: "?r = length us" using assms(1) by (simp add: futures_ok_def)
  have new: "FuncCallable g ?r \<notin> set acc" for g using assms(1) by (simp add: futures_ok_def)
  then have "FuncCallable f ?r \<notin> set (map fst (ended s))" using mset_subset_eqD [OF assms(6)] set_mset_mset by metis
  then have "map_of (ended s) (FuncCallable f ?r) = None" by (simp add: map_of_eq_None_iff)
  then have this_one: "future_is (p, f) ?r (ended s) (if f = 0 \<or> p then set_exception ''paused'' a else a)"
    using assms(5) by (simp add: future_is_def set_exception_def getExceptionDesc_def has_value_def has_exception_def)
  have each: "\<exists>b. ex_results s' q = Some b \<and> future_is ((us @ [(p, f)]) ! q) q (ended s') b" if "q < Suc (length us)" for q
  proof (cases "q = ?r")
    case True
    then show ?thesis using this_one r assms(3,4) by simp
  next
    case False
    then have "q < length us" using that r by simp
    then show ?thesis using False assms(1,3,4) by (simp add: futures_ok_def nth_append)
  qed
  have "count (mset acc) (FuncCallable g ?r) = 0" for g using new [of g] by (simp add: count_eq_zero_iff)
  then have c: "count (mset (acc @ (if f = 0 \<or> p then [] else [FuncCallable f ?r]))) (FuncCallable g q) \<le> 1" for g q
    using assms(1) by (simp add: futures_ok_def)
  have m: "FuncCallable g q \<in> set (acc @ (if f = 0 \<or> p then [] else [FuncCallable f ?r])) \<longleftrightarrow>
      q < length (us @ [(p, f)]) \<and> (us @ [(p, f)]) ! q = (False, g) \<and> g \<noteq> 0" for g q
    using assms(1) r by (auto simp: futures_ok_def nth_append less_Suc_eq)
  show ?thesis using each c m r assms(2) unfolding futures_ok_def by simp
qed

section \<open>Every history\<close>

definition exec_inv :: "nat \<Rightarrow> 'v exec_event list \<Rightarrow> 'v executor \<Rightarrow> callable list \<Rightarrow> bool" where
  "exec_inv n es s acc \<longleftrightarrow> (\<exists>ts cs. heap_tasks s ts cs \<and> books s \<and> length (ex_workers s) = n \<and> taken s @ cs = acc \<and>
     futures_ok (submissions es) s acc)"

lemma exec_invI:
  "heap_tasks s ts cs \<Longrightarrow> books s \<Longrightarrow> length (ex_workers s) = n \<Longrightarrow> taken s @ cs = acc \<Longrightarrow> futures_ok (submissions es) s acc \<Longrightarrow>
   exec_inv n es s acc"
  unfolding exec_inv_def by blast

lemma exec_inv_new: "exec_inv n [] (ExecutorService_new n) []"
  by (rule exec_invI [of _ "[]" "[]"])
    (simp_all add: heap_tasks_def ExecutorService_new_def queue_is_new hands_def books_def tasks_at_def futures_ok_def submissions_def)

lemma submissions_snoc: "submissions (es @ [e]) = submissions es @ submission e"
  by (simp add: submissions_def)

lemma submit_value_run:
  assumes "exec_inv n es s acc" "room 1 s"
  shows "\<exists>s'. submit_value p f s = (Ok (length (submissions es)), s') \<and>
    exec_inv n (es @ [SubmitValue p f]) s' (acc @ accepted (SubmitValue p f) s)"
proof -
  obtain ts cs where i: "heap_tasks s ts cs" "books s" "length (ex_workers s) = n" "taken s @ cs = acc"
      "futures_ok (submissions es) s acc" using assms(1) by (auto simp: exec_inv_def)
  have len: "int (length cs) + 1 < INT_MAX" using assms(2) heap_size [OF i(1)] by (simp add: room_def)
  let ?r = "ex_next_result s" and ?a = "AsyncObject_new undefined :: 'a async"
  have r: "?r = length (submissions es)" using i(5) by (simp add: futures_ok_def)
  define s1 where "s1 = s\<lparr>ex_results := (ex_results s)(?r \<mapsto> ?a), ex_next_result := Suc ?r\<rparr>"
  have n: "new_result s = (Ok ?r, s1)" by (simp add: new_result_def s1_def)
  have i1: "heap_tasks s1 ts cs" "books s1" "ex_workers s1 = ex_workers s" "taken s1 = taken s" "ended s1 = ended s"
    using i(1,2) by (simp_all add: s1_def heap_tasks_def books_def hands_def tasks_at_def)
  have fut: "futures_ok (submissions (es @ [SubmitValue p f])) s' (acc @ accepted (SubmitValue p f) s)"
    if "ex_next_result s' = Suc ?r" "ended s' = ended s"
      "ex_results s' = (ex_results s)(?r \<mapsto> (if f = 0 \<or> p then set_exception ''paused'' ?a else ?a))" for s'
    using futures_ok_submit [OF i(5) that _ ended_accepted [OF i(2,4)]] by (simp add: submissions_snoc AsyncObject_new_def)
  show ?thesis
  proof (cases "f = 0 \<or> p")
    case True
    define s' where "s' = s1\<lparr>ex_results := (ex_results s1)(?r \<mapsto> set_exception ''paused'' ?a)\<rparr>"
    have "submit_value p f s = (Ok ?r, s')"
      using True by (auto simp: submit_value_def bindp_def n seqp_def upd_result_def modify_run ret_run s1_def s'_def)
    moreover have "exec_inv n (es @ [SubmitValue p f]) s' (acc @ accepted (SubmitValue p f) s)"
    proof (rule exec_invI [of _ ts cs])
      show "futures_ok (submissions (es @ [SubmitValue p f])) s' (acc @ accepted (SubmitValue p f) s)"
        using True by (intro fut) (auto simp: s'_def s1_def)
    qed (use i i1 True in \<open>auto simp: s'_def heap_tasks_def books_def hands_def tasks_at_def\<close>)
    ultimately show ?thesis using r by simp
  next
    case False
    obtain s' ts' where s': "enqueue (FuncCallable f ?r) s1 = (Ok (), s')" "heap_tasks s' ts' (cs @ [FuncCallable f ?r])" "same_rest s' s1"
      using enqueue_run [OF i1(1) len] by blast
    have "submit_value p f s = (Ok ?r, s')"
      using False s'(1) by (simp add: submit_value_def bindp_def n seqp_def ret_run)
    moreover have "exec_inv n (es @ [SubmitValue p f]) s' (acc @ accepted (SubmitValue p f) s)"
    proof (rule exec_invI [OF s'(2) same_rest_books [OF s'(3) i1(2)]])
      show "futures_ok (submissions (es @ [SubmitValue p f])) s' (acc @ accepted (SubmitValue p f) s)"
        using False s'(3) by (intro fut) (auto simp: same_rest_def s1_def)
    qed (use i(3,4) i1(3,4) s'(3) False in \<open>auto simp: same_rest_def\<close>)
    ultimately show ?thesis using r by simp
  qed
qed

lemma added_inv:
  assumes "exec_inv n es s acc" "heap_tasks s ts cs" "taken s @ cs = acc" "heap_tasks s' us (cs @ ds)" "same_rest s' s"
    and "submission e = []" "\<And>f r. FuncCallable f r \<notin> set ds"
  shows "exec_inv n (es @ [e]) s' (acc @ ds)"
proof (rule exec_invI [OF assms(4)])
  have i: "books s" "length (ex_workers s) = n" "futures_ok (submissions es) s acc" using assms(1) by (auto simp: exec_inv_def)
  show "books s'" by (rule same_rest_books [OF assms(5) i(1)])
  show "length (ex_workers s') = n" "taken s' @ cs @ ds = acc @ ds" using i(2) assms(3,5) by (simp_all add: same_rest_def)
  show "futures_ok (submissions (es @ [e])) s' (acc @ ds)"
    using futures_ok_same [OF i(3), of s' ds] assms(5-7) by (simp add: submissions_snoc same_rest_def)
qed

lemma submit_inv:
  assumes "exec_inv n es s acc" "room 1 s" "submission e = []" "\<And>f r. c \<noteq> FuncCallable f r"
    and "m s = (if f = 0 \<or> p then ret b else seqp (enqueue c) (ret b')) s"
  shows "\<exists>s'. no_result m s = (Ok (), s') \<and> exec_inv n (es @ [e]) s' (acc @ (if f = 0 \<or> p then [] else [c]))"
proof -
  obtain ts cs where i: "heap_tasks s ts cs" "taken s @ cs = acc" using assms(1) by (auto simp: exec_inv_def)
  have len: "int (length cs) + 1 < INT_MAX" using assms(2) heap_size [OF i(1)] by (simp add: room_def)
  show ?thesis
  proof (cases "f = 0 \<or> p")
    case True
    have "no_result m s = (Ok (), s)" using assms(5) True by (simp add: no_result_def seqp_def bindp_def ret_run)
    then show ?thesis using added_inv [OF assms(1) i, of s ts "[]" e] i(1) assms(3) True by (auto simp: same_rest_refl)
  next
    case False
    obtain s' ts' where s': "enqueue c s = (Ok (), s')" "heap_tasks s' ts' (cs @ [c])" "same_rest s' s"
      using enqueue_run [OF i(1) len] by blast
    have "no_result m s = (Ok (), s')" using assms(5) False s'(1) by (simp add: no_result_def seqp_def bindp_def ret_run)
    then show ?thesis using added_inv [OF assms(1) i s'(2,3) assms(3)] assms(4) False by auto
  qed
qed

lemma submit_all_inv:
  assumes "exec_inv n es s acc" "room (length fs) s" "submission e = []" "\<And>f g r. conv f \<noteq> FuncCallable g r"
  shows "\<exists>s'. no_result (addTasks conv p fs) s = (Ok (), s') \<and>
    exec_inv n (es @ [e]) s' (acc @ (if p then [] else map conv (filter (\<lambda>f. f \<noteq> 0) fs)))"
proof -
  obtain ts cs where i: "heap_tasks s ts cs" "taken s @ cs = acc" using assms(1) by (auto simp: exec_inv_def)
  have len: "int (length cs) + int (length fs) < INT_MAX"
    using assms(2) heap_size [OF i(1)] by (simp add: room_def)
  let ?ds = "if p then [] else map conv (filter (\<lambda>f. f \<noteq> 0) fs)"
  obtain b s' ts' where s': "addTasks conv p fs s = (Ok b, s')" "heap_tasks s' ts' (cs @ ?ds)" "same_rest s' s"
    using addTasks_run [OF i(1) len] by blast
  have "FuncCallable g r \<notin> set ?ds" for g r using assms(4) by (auto dest: sym)
  then have "exec_inv n (es @ [e]) s' (acc @ ?ds)" using added_inv [OF assms(1) i s'(2,3) assms(3)] by blast
  then show ?thesis using s'(1) by (simp add: no_result_def seqp_def bindp_def ret_run)
qed

lemma work_inv:
  assumes "exec_inv n es s acc" "feasible (Work i x) s"
  shows "\<exists>s'. takeProcTask i x s = (Ok (), s') \<and> exec_inv n (es @ [Work i x]) s' acc"
proof -
  obtain ts cs where i: "heap_tasks s ts cs" "books s" "length (ex_workers s) = n" "taken s @ cs = acc"
      "futures_ok (submissions es) s acc" using assms(1) by (auto simp: exec_inv_def)
  have x: "i < length (ex_workers s)" "x \<noteq> Hang" "x \<noteq> Undef" using assms(2) by simp_all
  obtain s' ts' cs' where s': "takeProcTask i x s = (Ok (), s')" "heap_tasks s' ts' cs'" "books s'" "steady s' s"
    "taken s' @ cs' = taken s @ cs"
    and e: "ended s' = ended s \<and> ex_results s' = ex_results s \<or>
     (\<exists>c. ended s' = ended s @ [(c, x)] \<and> ex_results s' = resolve c x (ex_results s))"
    using worker_step [OF i(1,2) x] by blast
  have nr: "ex_next_result s' = ex_next_result s" "length (ex_workers s') = n" using s'(4) i(3) by (simp_all add: steady_def)
  have t: "taken s' @ cs' = acc" using s'(5) i(4) by simp
  have "futures_ok (submissions es) s' acc"
    using e futures_ok_same [OF i(5) nr(1), of "[]"] futures_ok_finish [OF i(5) nr(1) _ _ ended_accepted [OF s'(3) t] x(2,3)] by auto
  then have "exec_inv n (es @ [Work i x]) s' acc"
    by (intro exec_invI [OF s'(2,3) nr(2) t]) (simp add: submissions_snoc)
  then show ?thesis using s'(1) by blast
qed


lemma exec_inv_step:
  assumes "exec_inv n es s acc" "feasible e s"
  shows "\<exists>s'. exec_step e s = (Ok (), s') \<and> exec_inv n (es @ [e]) s' (acc @ accepted e s)"
proof -
  have flag: "exec_inv n (es @ [e]) (ex_pause_update f s) acc" "exec_inv n (es @ [e]) (ex_stop_update f s) acc"
      "exec_inv n (es @ [e]) s acc" if "submission e = []" for f
    using assms(1) that by (simp_all add: exec_inv_def heap_tasks_def books_def hands_def tasks_at_def futures_ok_def submissions_snoc)
  show ?thesis
  proof (cases e)
    case (SubmitValue p f)
    then obtain s' where "submit_value p f s = (Ok (length (submissions es)), s')" "exec_inv n (es @ [e]) s' (acc @ accepted e s)"
      using submit_value_run [OF assms(1), of p f] assms(2) by auto
    then show ?thesis using SubmitValue by (simp add: no_result_def seqp_def bindp_def ret_run)
  next
    case (SubmitVoid p f)
    then show ?thesis using assms(2) submit_inv [OF assms(1), of e "VoidFuncCallable f" "submit_void p f" f p False True]
      by (simp add: submit_void_def)
  next
    case (SubmitShared p f)
    then show ?thesis using assms(2) submit_inv [OF assms(1), of e "SharedCallableWrapper f" "submit_shared p f" f p False True]
      by (simp add: submit_shared_def disj_commute)
  next
    case (SubmitList p fs)
    then show ?thesis using assms(2) submit_all_inv [OF assms(1), of fs e VoidFuncCallable p] by simp
  next
    case (SubmitSharedList p fs)
    then show ?thesis using assms(2) submit_all_inv [OF assms(1), of fs e SharedCallableWrapper p] by simp
  next
    case (Work i x)
    then show ?thesis using assms(2) work_inv [OF assms(1), of i x] by simp
  next
    case (GiveUp r)
    obtain ts cs where i: "heap_tasks s ts cs" "books s" "length (ex_workers s) = n" "taken s @ cs = acc"
        "futures_ok (submissions es) s acc" using assms(1) by (auto simp: exec_inv_def)
    have "exec_inv n (es @ [e]) (s\<lparr>ex_results := (ex_results s)(r := map_option (wait_for id) (ex_results s r))\<rparr>) acc"
      using i futures_ok_give_up [OF i(5), of r] GiveUp
      by (intro exec_invI [of _ ts cs]) (simp_all add: heap_tasks_def books_def hands_def tasks_at_def submissions_snoc)
    then show ?thesis using GiveUp by (simp add: upd_result_def modify_run)
  next
    case ShutdownBegin
    then show ?thesis using flag by (simp add: shutdown_begin_def ifp_run ret_run modify_run)
  next
    case ShutdownEnd
    then show ?thesis using flag by (simp add: shutdown_end_def modify_run)
  qed
qed

lemma service_run_inv: "service_run n es s acc \<Longrightarrow> exec_inv n es s acc"
proof (induction rule: service_run.induct)
  case (step es s acc e s')
  then show ?case using exec_inv_step [OF step.IH step.hyps(2)] by simp
qed (rule exec_inv_new)

text \<open>When no worker has a task, all that was accepted has come to an end or is queued.\<close>

lemma joined_hands: "joined s \<Longrightarrow> hands s = []"
  by (auto simp: joined_def hands_def)

lemma quiet_ended:
  assumes "exec_inv n es s acc"
  shows "\<exists>cs. holds_tasks s cs \<and> (hands s = [] \<or> joined s \<longrightarrow> mset (map fst (ended s)) + mset cs = mset acc)"
proof -
  obtain ts cs where i: "heap_tasks s ts cs" "books s" "taken s @ cs = acc" using assms(1) by (auto simp: exec_inv_def)
  have "mset (map fst (ended s)) + mset cs = mset acc" if "hands s = []"
  proof -
    have "\<forall>w\<in>set (ex_workers s). hand w = []" using that by (simp add: hands_def)
    then have "\<forall>w\<in>set (ex_workers s). held w = [] \<and> running w = []"
      by (metis empty_set held_hand running_hand subset_empty set_empty)
    then have "tasks_at held s = []" "tasks_at running s = []" by (simp_all add: tasks_at_def)
    then have "mset (map fst (ended s)) = mset (taken s)" using i(2) by (simp add: books_def)
    then show ?thesis unfolding i(3) [symmetric] by simp
  qed
  then show ?thesis using i(1) joined_hands unfolding holds_tasks_def by blast
qed

lemma quiet_future:
  assumes "futures_ok us s acc" "mset (map fst (ended s)) = mset acc" "r < length us" "future_is (us ! r) r (ended s) a"
  shows "has_value a \<or> has_exception a"
proof -
  have val: "get_value a = Ok v \<Longrightarrow> has_value a" for v by (simp add: get_value_def has_value_def split: if_splits)
  have exc: "getExceptionDesc a = Ok d \<Longrightarrow> has_exception a" for d by (simp add: getExceptionDesc_def has_exception_def split: if_splits)
  obtain p f where u: "us ! r = (p, f)" by (cases "us ! r")
  show ?thesis
  proof (cases "p \<or> f = 0")
    case True
    then show ?thesis using assms(4) u exc by (simp add: future_is_def)
  next
    case False
    then have "FuncCallable f r \<in> set acc" using assms(1,3) u by (simp add: futures_ok_def)
    then have "FuncCallable f r \<in> fst ` set (ended s)" using mset_eq_setD [OF assms(2)] by simp
    then obtain x where "map_of (ended s) (FuncCallable f r) = Some x" by (metis map_of_eq_None_iff not_None_eq)
    then show ?thesis using assms(4) u False val exc by (cases x) (auto simp: future_is_def)
  qed
qed

text \<open>
  C37: whatever the threads do, and with any number of workers: the tasks leave the queue in the order in which
  they were accepted, each once; what a worker took is held, running or ended, each task once; no step of
  the service throws or goes wrong. With several workers two tasks may be entered in the other order;
  with one worker the functions are entered in the order of acceptance, and each ends before the
  next is entered.
\<close>

theorem tasks_run_once_in_order:
  assumes "service_run n es s acc"
  shows "(\<exists>cs. holds_tasks s cs \<and> taken s @ cs = acc) \<and>
    mset (called s) + mset (tasks_at held s) = mset (taken s) \<and>
    mset (map fst (ended s)) + mset (tasks_at running s) = mset (called s) \<and>
    (n = 1 \<longrightarrow> prefix (called s) acc \<and> map fst (ended s) @ tasks_at running s = called s) \<and>
    (feasible e s \<longrightarrow> fst (exec_step e s) = Ok ())"
proof (intro conjI impI)
  have i: "exec_inv n es s acc" by (rule service_run_inv [OF assms])
  then obtain ts cs where h: "heap_tasks s ts cs" "books s" "length (ex_workers s) = n" "taken s @ cs = acc" by (auto simp: exec_inv_def)
  show "\<exists>cs. holds_tasks s cs \<and> taken s @ cs = acc" using h(1,4) by (auto simp: holds_tasks_def)
  show "mset (called s) + mset (tasks_at held s) = mset (taken s)"
    "mset (map fst (ended s)) + mset (tasks_at running s) = mset (called s)" using h(2) by (simp_all add: books_def)
  show "fst (exec_step e s) = Ok ()" if "feasible e s" using exec_inv_step [OF i that] by force
  assume "n = 1"
  then have b: "called s @ tasks_at held s = taken s" "map fst (ended s) @ tasks_at running s = called s"
    using h(2,3) by (simp_all add: books_def)
  show "prefix (called s) acc" using b(1) h(4) by (metis append.assoc prefixI)
  show "map fst (ended s) @ tasks_at running s = called s" by (rule b(2))
qed

text \<open>Two workers, of which the second enters the later task first.\<close>

definition busy :: "int exec_event list" where
  "busy = [SubmitValue False 5, SubmitList False [6, 0], Work 0 (Ok 0), Work 1 (Ok 0), Work 0 (Ok 0), Work 1 (Ok 0),
     Work 1 (Ok 0), Work 0 (Ok 0), GiveUp 0, Work 1 (Throw BadAlloc), Work 0 (Ok 25), ShutdownBegin, SubmitValue True 9,
     Work 0 (Ok 0), Work 1 (Ok 0), ShutdownEnd]"

fun service_events :: "'v exec_event list \<Rightarrow> 'v executor \<Rightarrow> callable list \<Rightarrow> ('v executor \<times> callable list) option" where
  "service_events [] s acc = Some (s, acc)"
| "service_events (e # es) s acc = (if feasible e s then
     (case exec_step e s of (Ok _, s') \<Rightarrow> service_events es s' (acc @ accepted e s) | _ \<Rightarrow> None) else None)"

lemma service_events_run:
  "service_run n es s acc \<Longrightarrow> service_events ds s acc = Some (s', acc') \<Longrightarrow> service_run n (es @ ds) s' acc'"
proof (induction ds arbitrary: es s acc)
  case (Cons e ds)
  obtain s1 where s1: "feasible e s" "exec_step e s = (Ok (), s1)" "service_events ds s1 (acc @ accepted e s) = Some (s', acc')"
    using Cons.prems(2) by (auto split: if_splits prod.splits outcome.splits)
  show ?case using Cons.IH [OF service_run.step [OF Cons.prems(1) s1(1,2)] s1(3)] by simp
qed simp

lemma busy_events: "map_option (\<lambda>(s, acc). (acc, called s, hands s, q_size (ex_tasks s)))
    (service_events busy (ExecutorService_new 2) []) =
  Some ([FuncCallable 5 0, VoidFuncCallable 6], [VoidFuncCallable 6, FuncCallable 5 0], [], 0)"
  by code_simp

lemma busy_run: "\<exists>s. service_run 2 busy s [FuncCallable 5 0, VoidFuncCallable 6] \<and>
    called s = [VoidFuncCallable 6, FuncCallable 5 0] \<and> hands s = [] \<and> q_size (ex_tasks s) = 0"
proof -
  obtain s where "service_events busy (ExecutorService_new 2) [] =
      Some (s, [FuncCallable 5 0, VoidFuncCallable 6])"
    "called s = [VoidFuncCallable 6, FuncCallable 5 0]" "hands s = []" "q_size (ex_tasks s) = 0"
    using busy_events by auto
  then show ?thesis using service_events_run [OF service_run.start] by fastforce
qed

theorem tasks_run_once_in_order_witness:
  "\<exists>s. service_run 2 busy s [FuncCallable 5 0, VoidFuncCallable 6] \<and>
     (\<exists>cs. holds_tasks s cs \<and> taken s @ cs = [FuncCallable 5 0, VoidFuncCallable 6]) \<and>
     \<not> prefix (called s) [FuncCallable 5 0, VoidFuncCallable 6]"
proof -
  obtain s where s: "service_run 2 busy s [FuncCallable 5 0, VoidFuncCallable 6]"
    "called s = [VoidFuncCallable 6, FuncCallable 5 0]" using busy_run by blast
  show ?thesis using tasks_run_once_in_order [OF s(1)] s by (intro exI [of _ s]) auto
qed

text \<open>
  C38: \<open>submit\<close> returns a future of its own, and that future holds what its own function returned, or the
  exception text when its function threw, or \<open>paused\<close> when it was not accepted; until its own function has
  ended it holds neither (it waits, or a \<open>wait_for\<close> on it ran out of time, after which a result still
  arrives). Once the queue is empty and no worker has a task, every future holds a value or an exception.
  When no worker has a task, and so when all of them have left after a shutdown, the tasks that
  never ended are exactly those still queued: a shutdown that does not wait drops them.
\<close>

theorem futures_settled:
  assumes "service_run n es s acc"
  shows "(room 1 s \<longrightarrow> fst (submit_value p f s) = Ok (length (submissions es))) \<and>
    (\<forall>r<length (submissions es). \<exists>a. ex_results s r = Some a \<and> future_is (submissions es ! r) r (ended s) a \<and>
       (q_size (ex_tasks s) \<le> 0 \<and> hands s = [] \<longrightarrow> has_value a \<or> has_exception a)) \<and>
    (\<exists>cs. holds_tasks s cs \<and> (hands s = [] \<or> joined s \<longrightarrow> mset (map fst (ended s)) + mset cs = mset acc))"
proof -
  have i: "exec_inv n es s acc" by (rule service_run_inv [OF assms])
  then have f: "futures_ok (submissions es) s acc" by (auto simp: exec_inv_def)
  obtain cs where c: "holds_tasks s cs" "hands s = [] \<or> joined s \<longrightarrow> mset (map fst (ended s)) + mset cs = mset acc"
    using quiet_ended [OF i] by blast
  have q: "q_size (ex_tasks s) \<le> 0 \<and> hands s = [] \<longrightarrow> mset (map fst (ended s)) = mset acc"
    using c(2) holds_size [OF c(1)] by (cases cs) simp_all
  have "\<exists>a. ex_results s r = Some a \<and> future_is (submissions es ! r) r (ended s) a \<and>
       (q_size (ex_tasks s) \<le> 0 \<and> hands s = [] \<longrightarrow> has_value a \<or> has_exception a)" if r: "r < length (submissions es)" for r
  proof -
    obtain a where a: "ex_results s r = Some a" "future_is (submissions es ! r) r (ended s) a"
      using f r by (auto simp: futures_ok_def)
    then show ?thesis using quiet_future [OF f _ r a(2)] q by blast
  qed
  moreover have "room 1 s \<longrightarrow> fst (submit_value p f s) = Ok (length (submissions es))"
    using submit_value_run [OF i, of p f] by force
  ultimately show ?thesis using c by blast
qed

theorem futures_settled_witness:
  "\<exists>s. service_run 2 busy s [FuncCallable 5 0, VoidFuncCallable 6] \<and>
     submissions busy = [(False, 5), (True, 9)] \<and>
     (\<exists>a. ex_results s 0 = Some a \<and> future_is (False, 5) 0 (ended s) a \<and> (has_value a \<or> has_exception a))"
proof -
  obtain s where s: "service_run 2 busy s [FuncCallable 5 0, VoidFuncCallable 6]"
    "hands s = []" "q_size (ex_tasks s) = 0" using busy_run by blast
  have u: "submissions busy = [(False, 5), (True, 9)]" by code_simp
  have "\<forall>r<length (submissions busy). \<exists>a. ex_results s r = Some a \<and> future_is (submissions busy ! r) r (ended s) a \<and>
      (q_size (ex_tasks s) \<le> 0 \<and> hands s = [] \<longrightarrow> has_value a \<or> has_exception a)"
    using futures_settled [OF s(1)] by blast
  from this [rule_format, of 0] have "\<exists>a. ex_results s 0 = Some a \<and> future_is (submissions busy ! 0) 0 (ended s) a \<and>
      (q_size (ex_tasks s) \<le> 0 \<and> hands s = [] \<longrightarrow> has_value a \<or> has_exception a)"
    using u by simp
  then show ?thesis using s u by (intro exI [of _ s]) auto
qed

end
