(* ===== verification/HashMap.thy ===== *)
theory HashMap
  imports Prelude
begin

text \<open>
  \<open>ConcurrentHashMap\<close> (src/include/ConcurrentHashMap.hpp): segments with a lock of their own and one
  counter of entries. A call is two atomic steps, the one on its segment and the one on the counter;
  between them the calls of other threads run.
\<close>

section \<open>Segments\<close>

type_synonym ('k, 'v) segment = "'k \<rightharpoonup> 'v"

text \<open>\<open>std::map::insert\<close> keeps the value of a key it has.\<close>

definition segment_insert :: "'k \<Rightarrow> 'v \<Rightarrow> ('k, 'v) segment \<Rightarrow> bool \<times> ('k, 'v) segment" where
  "segment_insert k v m = (case m k of None \<Rightarrow> (True, m(k \<mapsto> v)) | Some _ \<Rightarrow> (False, m))"

definition segment_get :: "'v \<Rightarrow> 'k \<Rightarrow> ('k, 'v) segment \<Rightarrow> 'v \<times> bool" where
  "segment_get d k m = (case m k of Some v \<Rightarrow> (v, True) | None \<Rightarrow> (d, False))"

definition segment_erase :: "'k \<Rightarrow> ('k, 'v) segment \<Rightarrow> bool \<times> ('k, 'v) segment" where
  "segment_erase k m = (m k \<noteq> None, m(k := None))"

section \<open>The map\<close>

text \<open>\<open>owed\<close> are the changes of the counter that calls under way have yet to make.\<close>

record ('k, 'v) hash_map =
  hm_capacity :: int
  buckets :: "('k, 'v) segment list"
  counts :: int
  owed :: "int list"

definition ConcurrentHashMap_new :: "int \<Rightarrow> ('k, 'v) hash_map" where
  "ConcurrentHashMap_new initCapacity = \<lparr>hm_capacity = initCapacity,
     buckets = replicate (nat initCapacity) Map.empty, counts = 0, owed = []\<rparr>"

text \<open>A \<open>size_t\<close> has 64 bits; the capacity is converted to one.\<close>

definition spread :: "('k \<Rightarrow> nat) \<Rightarrow> 'k \<Rightarrow> int" where
  "spread hasher k = (let h = int (hasher k) mod 2 ^ 64 in (h XOR drop_bit 16 h) AND 0x7fffffff)"

definition getBucket :: "('k \<Rightarrow> nat) \<Rightarrow> 'k \<Rightarrow> ('k, 'v) hash_map \<Rightarrow> nat outcome" where
  "getBucket hasher k m =
     (let i = i32 ((i32 (hm_capacity m - 1) mod 2 ^ 64) AND spread hasher k)
      in if 0 \<le> i \<and> i < int (length (buckets m)) then Ok (nat i) else Undef)"

definition on_bucket :: "('k \<Rightarrow> nat) \<Rightarrow> 'k \<Rightarrow> (('k, 'v) segment \<Rightarrow> 'a \<times> ('k, 'v) segment) \<Rightarrow> (('k, 'v) hash_map, 'a) prog" where
  "on_bucket hasher k f m =
     (case getBucket hasher k m of
        Ok i \<Rightarrow> (case f (buckets m ! i) of (a, b) \<Rightarrow> (Ok a, m\<lparr>buckets := (buckets m)[i := b]\<rparr>))
      | _ \<Rightarrow> (Undef, m))"

definition owe :: "int \<Rightarrow> bool \<Rightarrow> (('k, 'v) hash_map, bool) prog" where
  "owe d b = seqp (modify (\<lambda>m. if b then m\<lparr>owed := owed m @ [d]\<rparr> else m)) (ret b)"

definition chm_insert :: "('k \<Rightarrow> nat) \<Rightarrow> 'k \<Rightarrow> 'v \<Rightarrow> (('k, 'v) hash_map, bool) prog" where
  "chm_insert hasher k v = bindp (on_bucket hasher k (segment_insert k v)) (owe 1)"

definition chm_get :: "('k \<Rightarrow> nat) \<Rightarrow> 'v \<Rightarrow> 'k \<Rightarrow> (('k, 'v) hash_map, 'v \<times> bool) prog" where
  "chm_get hasher d k = on_bucket hasher k (\<lambda>b. (segment_get d k b, b))"

definition chm_erase :: "('k \<Rightarrow> nat) \<Rightarrow> 'k \<Rightarrow> (('k, 'v) hash_map, bool) prog" where
  "chm_erase hasher k = bindp (on_bucket hasher k (segment_erase k)) (owe (- 1))"

text \<open>The second step of the \<open>i\<close>th call under way.\<close>

definition count_step :: "nat \<Rightarrow> ('k, 'v) hash_map \<Rightarrow> ('k, 'v) hash_map" where
  "count_step i m = m\<lparr>counts := i32 (counts m + owed m ! i), owed := take i (owed m) @ drop (Suc i) (owed m)\<rparr>"

definition chm_size :: "('k, 'v) hash_map \<Rightarrow> int" where
  "chm_size m = counts m"

section \<open>The contract: a finite map and its size\<close>

definition stored_in :: "('k \<Rightarrow> nat) \<Rightarrow> ('k, 'v) hash_map \<Rightarrow> 'k \<Rightarrow> nat" where
  "stored_in hasher m k = nat ((hm_capacity m - 1) AND spread hasher k)"

definition implements :: "('k \<Rightarrow> nat) \<Rightarrow> ('k, 'v) hash_map \<Rightarrow> ('k \<rightharpoonup> 'v) \<Rightarrow> bool" where
  "implements hasher m M \<longleftrightarrow> 0 < hm_capacity m \<and> hm_capacity m \<le> INT_MAX \<and>
     int (length (buckets m)) = hm_capacity m \<and> finite (dom M) \<and>
     (\<forall>k. M k = (buckets m ! stored_in hasher m k) k) \<and>
     counts m = i32 (counts m) \<and> i32 (counts m + sum_list (owed m)) = i32 (int (card (dom M)))"

lemma bucket_ok:
  assumes "0 < hm_capacity m" "hm_capacity m \<le> INT_MAX" "int (length (buckets m)) = hm_capacity m"
  shows "getBucket hasher k m = Ok (stored_in hasher m k)" "stored_in hasher m k < length (buckets m)"
proof -
  define i where "i = (hm_capacity m - 1) AND spread hasher k"
  have i: "0 \<le> i" "i \<le> hm_capacity m - 1" using assms(1) unfolding i_def by (simp_all add: AND_upper1)
  have "i32 (hm_capacity m - 1) = hm_capacity m - 1" using assms(1,2) by (intro i32_id) auto
  moreover have "(hm_capacity m - 1) mod 2 ^ 64 = hm_capacity m - 1" using assms(1,2) by (intro mod_pos_pos_trivial) auto
  moreover have "i32 i = i" using i assms(2) by (intro i32_id) simp_all
  ultimately show "getBucket hasher k m = Ok (stored_in hasher m k)"
    using i assms(3) by (simp add: getBucket_def stored_in_def flip: i_def)
  show "stored_in hasher m k < length (buckets m)" using i assms(3) by (simp add: stored_in_def flip: i_def)
qed

lemma new_implements:
  "0 < n \<Longrightarrow> n \<le> INT_MAX \<Longrightarrow> implements hasher (ConcurrentHashMap_new n :: ('k, 'v) hash_map) Map.empty"
proof -
  let ?m = "ConcurrentHashMap_new n :: ('k, 'v) hash_map"
  assume n: "0 < n" "n \<le> INT_MAX"
  have "stored_in hasher ?m k < nat n" for k
    using bucket_ok(2) [of ?m hasher k] n by (simp add: ConcurrentHashMap_new_def)
  then have "(buckets ?m ! stored_in hasher ?m k) k = None" for k
    by (simp add: ConcurrentHashMap_new_def)
  then show ?thesis using n by (simp add: implements_def) (simp add: ConcurrentHashMap_new_def)
qed

text \<open>A change of one bucket at its own key is a change of the map at that key.\<close>

lemma on_bucket_ok:
  assumes "implements hasher m M" "f (buckets m ! stored_in hasher m k) = (a, b)"
    and "b = (buckets m ! stored_in hasher m k)(k := x)"
  shows "\<exists>m'. on_bucket hasher k f m = (Ok a, m') \<and> hm_capacity m' = hm_capacity m \<and>
    length (buckets m') = length (buckets m) \<and> counts m' = counts m \<and> owed m' = owed m \<and>
    (\<forall>k'. (M(k := x)) k' = (buckets m' ! stored_in hasher m' k') k')"
proof -
  note i = assms(1) [unfolded implements_def]
  note b = bucket_ok [of m hasher]
  define m' where "m' = m\<lparr>buckets := (buckets m)[stored_in hasher m k := b]\<rparr>"
  have "on_bucket hasher k f m = (Ok a, m')" using i b assms(2) by (simp add: on_bucket_def m'_def)
  moreover have "(M(k := x)) k' = (buckets m' ! stored_in hasher m' k') k'" for k'
  proof -
    have "stored_in hasher m' k' = stored_in hasher m k'" by (simp add: stored_in_def m'_def)
    then show ?thesis using i b assms(3)
      by (cases "stored_in hasher m k' = stored_in hasher m k") (auto simp: m'_def)
  qed
  ultimately show ?thesis by (intro exI [of _ m']) (simp add: m'_def)
qed

lemma i32_add: "i32 (x + i32 y) = i32 (x + y)" "i32 (i32 x + y) = i32 (x + y)"
  by (simp_all add: i32_def mod_simps algebra_simps)

lemma owe_ok:
  assumes "hm_capacity m' = hm_capacity m" "length (buckets m') = length (buckets m)" "counts m' = counts m"
    "owed m' = owed m" "\<forall>k'. M' k' = (buckets m' ! stored_in hasher m' k') k'" "implements hasher m M" "finite (dom M')"
    "int (card (dom M')) = int (card (dom M)) + (if r then d else 0)"
  shows "\<exists>m''. owe d r m' = (Ok r, m'') \<and> implements hasher m'' M'"
proof -
  define m'' where "m'' = (if r then m'\<lparr>owed := owed m' @ [d]\<rparr> else m')"
  have f: "hm_capacity m'' = hm_capacity m'" "buckets m'' = buckets m'" "counts m'' = counts m'"
    "owed m'' = owed m' @ (if r then [d] else [])" by (simp_all add: m''_def)
  have "stored_in hasher m'' = stored_in hasher m'" by (simp add: stored_in_def f fun_eq_iff)
  moreover have "i32 (counts m'' + sum_list (owed m'')) = i32 (int (card (dom M')))"
  proof -
    have "i32 (counts m'' + sum_list (owed m'')) = i32 (i32 (counts m + sum_list (owed m)) + (if r then d else 0))"
      using assms(3,4) by (simp add: f i32_add add.assoc)
    also have "\<dots> = i32 (int (card (dom M')))" using assms(6,8) by (simp add: implements_def i32_add)
    finally show ?thesis .
  qed
  ultimately have "implements hasher m'' M'" using assms by (simp add: implements_def f)
  then show ?thesis by (simp add: owe_def seqp_def bindp_def modify_run ret_run m''_def)
qed

lemma insert_ok:
  assumes "implements hasher m M"
  shows "\<exists>m'. chm_insert hasher k v m = (Ok (M k = None), m') \<and> implements hasher m' (case M k of None \<Rightarrow> M(k \<mapsto> v) | Some _ \<Rightarrow> M)"
proof -
  let ?B = "buckets m ! stored_in hasher m k" and ?M = "case M k of None \<Rightarrow> M(k \<mapsto> v) | Some _ \<Rightarrow> M"
  have Mk: "M k = ?B k" and fin: "finite (dom M)" using assms by (auto simp: implements_def)
  define x where "x = (case M k of None \<Rightarrow> Some v | Some w \<Rightarrow> Some w)"
  have M': "?M = M(k := x)" by (auto simp: x_def split: option.split)
  have s: "segment_insert k v ?B = (M k = None, ?B(k := x))" using Mk by (auto simp: segment_insert_def x_def split: option.split)
  obtain m1 where m1: "on_bucket hasher k (segment_insert k v) m = (Ok (M k = None), m1)"
    "hm_capacity m1 = hm_capacity m" "length (buckets m1) = length (buckets m)" "counts m1 = counts m" "owed m1 = owed m"
    "\<forall>k'. (M(k := x)) k' = (buckets m1 ! stored_in hasher m1 k') k'"
    using on_bucket_ok [where f = "segment_insert k v", OF assms s refl] by blast
  have card: "int (card (dom (M(k := x)))) = int (card (dom M)) + (if M k = None then 1 else 0)"
    using fin by (auto simp: x_def dom_def insert_Collect [symmetric] split: option.split) (simp_all add: domIff [symmetric] insert_absorb)
  have "finite (dom (M(k := x)))" using fin by (simp add: dom_fun_upd)
  from owe_ok [OF m1(2-6) assms this card] show ?thesis
    using m1(1) unfolding M' by (auto simp: chm_insert_def bindp_def)
qed


lemma erase_ok:
  assumes "implements hasher m M"
  shows "\<exists>m'. chm_erase hasher k m = (Ok (M k \<noteq> None), m') \<and> implements hasher m' (M(k := None))"
proof -
  let ?B = "buckets m ! stored_in hasher m k"
  have Mk: "M k = ?B k" and fin: "finite (dom M)" using assms by (auto simp: implements_def)
  have s: "segment_erase k ?B = (M k \<noteq> None, ?B(k := None))" using Mk by (simp add: segment_erase_def)
  obtain m1 where m1: "on_bucket hasher k (segment_erase k) m = (Ok (M k \<noteq> None), m1)"
    "hm_capacity m1 = hm_capacity m" "length (buckets m1) = length (buckets m)" "counts m1 = counts m" "owed m1 = owed m"
    "\<forall>k'. (M(k := None)) k' = (buckets m1 ! stored_in hasher m1 k') k'"
    using on_bucket_ok [where f = "segment_erase k", OF assms s refl] by blast
  have card: "int (card (dom (M(k := None)))) = int (card (dom M)) + (if M k \<noteq> None then - 1 else 0)"
    using fin card_Suc_Diff1 [OF fin, of k] by (cases "M k = None") (auto simp: dom_fun_upd domIff)
  have "finite (dom (M(k := None)))" using fin by (simp add: dom_fun_upd)
  from owe_ok [OF m1(2-6) assms this card] show ?thesis
    using m1(1) by (auto simp: chm_erase_def bindp_def)
qed

lemma get_ok:
  assumes "implements hasher m M"
  shows "\<exists>m'. chm_get hasher d k m = (Ok (case M k of None \<Rightarrow> (d, False) | Some v \<Rightarrow> (v, True)), m') \<and> implements hasher m' M"
proof -
  let ?B = "buckets m ! stored_in hasher m k"
  have i: "0 < hm_capacity m" "hm_capacity m \<le> INT_MAX" "int (length (buckets m)) = hm_capacity m" "M k = ?B k"
    using assms by (auto simp: implements_def)
  have "chm_get hasher d k m = (Ok (segment_get d k ?B), m)"
    using bucket_ok [OF i(1-3)] by (simp add: chm_get_def on_bucket_def)
  then show ?thesis using assms i(4) by (auto simp: segment_get_def split: option.split)
qed

lemma count_step_ok:
  assumes "implements hasher m M" "i < length (owed m)"
  shows "implements hasher (count_step i m) M"
proof -
  have "sum_list (owed m) = sum_list (take i (owed m)) + (owed m ! i + sum_list (drop (Suc i) (owed m)))"
    using assms(2) by (metis id_take_nth_drop sum_list.Cons sum_list_append)
  moreover have "stored_in hasher (count_step i m) = stored_in hasher m" by (simp add: stored_in_def count_step_def fun_eq_iff)
  moreover have "i32 (i32 (counts m + owed m ! i) + (sum_list (take i (owed m)) + sum_list (drop (Suc i) (owed m)))) =
      i32 (counts m + sum_list (owed m))"
    unfolding i32_add(2) calculation(1) by (simp add: algebra_simps)
  ultimately show ?thesis using assms(1) i32_add(2) [of "counts m + owed m ! i" 0]
    by (simp add: implements_def) (simp add: count_step_def)
qed

section \<open>Histories\<close>

datatype ('k, 'v) map_call = Insert 'k 'v | Get 'k | Erase 'k | Count nat

text \<open>What a call returns, as a pair of a value and a flag; a \<open>Count\<close> step returns nothing.\<close>

fun run_call :: "('k \<Rightarrow> nat) \<Rightarrow> 'v \<Rightarrow> ('k, 'v) map_call \<Rightarrow> (('k, 'v) hash_map, 'v \<times> bool) prog" where
  "run_call hasher d (Insert k v) = bindp (chm_insert hasher k v) (\<lambda>b. ret (d, b))"
| "run_call hasher d (Get k) = chm_get hasher d k"
| "run_call hasher d (Erase k) = bindp (chm_erase hasher k) (\<lambda>b. ret (d, b))"
| "run_call hasher d (Count i) = seqp (assertp (\<lambda>m. i < length (owed m))) (seqp (modify (count_step i)) (ret (d, True)))"

fun abs_call :: "'v \<Rightarrow> ('k, 'v) map_call \<Rightarrow> ('k \<rightharpoonup> 'v) \<Rightarrow> ('v \<times> bool) \<times> ('k \<rightharpoonup> 'v)" where
  "abs_call d (Insert k v) M = ((d, M k = None), case M k of None \<Rightarrow> M(k \<mapsto> v) | Some _ \<Rightarrow> M)"
| "abs_call d (Get k) M = (case M k of None \<Rightarrow> (d, False) | Some v \<Rightarrow> (v, True), M)"
| "abs_call d (Erase k) M = ((d, M k \<noteq> None), M(k := None))"
| "abs_call d (Count i) M = ((d, True), M)"

fun run_calls :: "('k \<Rightarrow> nat) \<Rightarrow> 'v \<Rightarrow> ('k, 'v) map_call list \<Rightarrow> (('k, 'v) hash_map, ('v \<times> bool) list) prog" where
  "run_calls hasher d [] = ret []"
| "run_calls hasher d (c # cs) = bindp (run_call hasher d c) (\<lambda>x. bindp (run_calls hasher d cs) (\<lambda>xs. ret (x # xs)))"

fun abs_calls :: "'v \<Rightarrow> ('k, 'v) map_call list \<Rightarrow> ('k \<rightharpoonup> 'v) \<Rightarrow> ('v \<times> bool) list \<times> ('k \<rightharpoonup> 'v)" where
  "abs_calls d [] M = ([], M)"
| "abs_calls d (c # cs) M = (case abs_call d c M of (x, M') \<Rightarrow> map_prod ((#) x) id (abs_calls d cs M'))"

text \<open>A counter step belongs to a call under way.\<close>

fun possible_calls :: "('k \<Rightarrow> nat) \<Rightarrow> 'v \<Rightarrow> ('k, 'v) map_call list \<Rightarrow> ('k, 'v) hash_map \<Rightarrow> bool" where
  "possible_calls hasher d [] m = True"
| "possible_calls hasher d (c # cs) m =
     ((case c of Count i \<Rightarrow> i < length (owed m) | _ \<Rightarrow> True) \<and> possible_calls hasher d cs (snd (run_call hasher d c m)))"

lemma run_call_ok:
  assumes "implements hasher m M" "case c of Count i \<Rightarrow> i < length (owed m) | _ \<Rightarrow> True"
  shows "\<exists>m'. run_call hasher d c m = (Ok (fst (abs_call d c M)), m') \<and> implements hasher m' (snd (abs_call d c M))"
proof (cases c)
  case (Insert k v)
  then show ?thesis using insert_ok [OF assms(1), of k v] by (auto simp: bindp_def ret_run)
next
  case (Get k)
  then show ?thesis using get_ok [OF assms(1)] by simp
next
  case (Erase k)
  then show ?thesis using erase_ok [OF assms(1), of k] by (auto simp: bindp_def ret_run)
next
  case (Count i)
  then show ?thesis using count_step_ok [OF assms(1)] assms(2)
    by (simp add: seqp_def bindp_def assertp_run modify_run ret_run)
qed

lemma run_calls_ok:
  "implements hasher m M \<Longrightarrow> possible_calls hasher d cs m \<Longrightarrow>
   \<exists>m'. run_calls hasher d cs m = (Ok (fst (abs_calls d cs M)), m') \<and> implements hasher m' (snd (abs_calls d cs M))"
proof (induction cs arbitrary: m M)
  case (Cons c cs)
  obtain m1 where m1: "run_call hasher d c m = (Ok (fst (abs_call d c M)), m1)" "implements hasher m1 (snd (abs_call d c M))"
    using run_call_ok [OF Cons.prems(1), of c d] Cons.prems(2) by auto
  then show ?case using Cons.IH [OF m1(2)] Cons.prems(2)
    by (auto simp: bindp_def ret_run split_beta)
qed (simp add: ret_run)

text \<open>
  C40: for every capacity from one on and every hash function, the calls of any number of threads,
  their two steps interleaved at will, return what a finite map returns that is changed at the first
  step of each; an insert never overwrites; and whenever no call is under way, the size is the number
  of entries.
\<close>

theorem hash_map_refines_map:
  assumes "0 < n" "n \<le> INT_MAX" "possible_calls hasher d cs (ConcurrentHashMap_new n)"
  shows "\<exists>m. run_calls hasher d cs (ConcurrentHashMap_new n) = (Ok (fst (abs_calls d cs Map.empty)), m) \<and>
    (owed m = [] \<longrightarrow> chm_size m = i32 (int (card (dom (snd (abs_calls d cs Map.empty))))))"
  using run_calls_ok [OF new_implements [OF assms(1,2)] assms(3)] by (force simp: implements_def chm_size_def)

theorem hash_map_refines_map_witness:
  "\<exists>m. run_calls id 0 [Insert 5 50, Insert 21 70, Insert 5 60, Count 0, Get 5, Erase 21, Count 1, Count 0]
      (ConcurrentHashMap_new 16 :: (nat, nat) hash_map) =
    (Ok [(0, True), (0, True), (0, False), (0, True), (50, True), (0, True), (0, True), (0, True)], m)"
proof -
  let ?cs = "[Insert 5 50, Insert 21 70, Insert 5 60, Count 0, Get 5, Erase 21, Count 1, Count 0] :: (nat, nat) map_call list"
  have "possible_calls id 0 ?cs (ConcurrentHashMap_new 16)" by code_simp
  moreover have "fst (abs_calls 0 ?cs Map.empty) =
     [(0, True), (0, True), (0, False), (0, True), (50, True), (0, True), (0, True), (0, True)]" by simp
  ultimately show ?thesis using hash_map_refines_map [of 16 id 0 ?cs] by fastforce
qed

end
