(* ===== verification/SctpOps.thy ===== *)
theory SctpOps
  imports HeapUtil
begin

text \<open>
  \<open>sctp_socket_ops\<close> (src/common/boostsctp/sctp_socket_ops.cpp) and the \<open>do_perform\<close> functions of the
  reactor operations (src/include/boostsctp/asio/detail): how the results of the system calls on SCTP
  sockets become error codes, byte counts and decisions to try again. The system calls, \<open>errno\<close>
  included, and the two functions of boost::asio that are used are parameters.
\<close>

section \<open>Error codes\<close>

text \<open>An error code of the system category, or one of boost's own category.\<close>

datatype error_code = Sys int | Misc_eof | Misc_already_open

text \<open>The values of \<open>errno\<close> (Linux).\<close>

definition no_error :: error_code where "no_error = Sys 0"
definition interrupted :: error_code where "interrupted = Sys 4"
definition bad_descriptor :: error_code where "bad_descriptor = Sys 9"
definition try_again :: error_code where "try_again = Sys 11"
definition would_block :: error_code where "would_block = Sys 11"
definition invalid_argument :: error_code where "invalid_argument = Sys 22"
definition no_buffer_space :: error_code where "no_buffer_space = Sys 105"
definition in_progress :: error_code where "in_progress = Sys 115"

lemmas error_values = no_error_def interrupted_def bad_descriptor_def try_again_def would_block_def
  invalid_argument_def no_buffer_space_def in_progress_def

definition invalid_socket :: int where "invalid_socket = - 1"
definition socket_error_retval :: int where "socket_error_retval = - 1"

text \<open>The bits of a socket's state that the code uses.\<close>

datatype state_flag = UserNonBlocking | InternalNonBlocking | StreamOriented | DatagramOriented | PossibleDup

type_synonym socket_state = "state_flag set"

definition size_t :: "int \<Rightarrow> int" where
  "size_t n = n mod 2 ^ 64"

section \<open>The system\<close>

record sndrcvinfo =
  sinfo_stream :: int
  sinfo_flags :: int
  sinfo_ppid :: i32bits

text \<open>What \<open>sctp_recvmsg\<close> stores: the bytes, the ancillary data and the flags.\<close>

record recvd =
  rv_data :: "byte list"
  rv_info :: sndrcvinfo
  rv_flags :: int

record 'k os =
  os_errno :: int
  os_kernel :: 'k

record 'k lib =
  l_bindx :: "int \<Rightarrow> byte list \<Rightarrow> int \<Rightarrow> 'k os \<Rightarrow> int \<times> 'k os"
  l_connectx :: "int \<Rightarrow> byte list \<Rightarrow> int \<Rightarrow> 'k os \<Rightarrow> int \<times> 'k os"
  l_getladdrs :: "int \<Rightarrow> 'k os \<Rightarrow> (int \<times> byte list) \<times> 'k os"
  l_getpaddrs :: "int \<Rightarrow> 'k os \<Rightarrow> (int \<times> byte list) \<times> 'k os"
  l_poll :: "int \<Rightarrow> 'k os \<Rightarrow> int \<times> 'k os"
  l_send :: "int \<Rightarrow> byte list \<Rightarrow> sndrcvinfo \<Rightarrow> 'k os \<Rightarrow> int \<times> 'k os"
  l_recvmsg :: "int \<Rightarrow> int \<Rightarrow> 'k os \<Rightarrow> (int \<times> recvd) \<times> 'k os"
  l_poll_connect :: "int \<Rightarrow> 'k os \<Rightarrow> (int \<times> error_code) \<times> 'k os"
  l_getsockopt_error :: "int \<Rightarrow> 'k os \<Rightarrow> (int \<times> int \<times> error_code) \<times> 'k os"

definition call :: "('s \<Rightarrow> 'a \<times> 's) \<Rightarrow> ('s, 'a) prog" where
  "call f s = (case f s of (a, s') \<Rightarrow> (Ok a, s'))"

definition clear_last_error :: "'k os \<Rightarrow> 'k os" where
  "clear_last_error = os_errno_update (\<lambda>_. 0)"

text \<open>A call after \<open>clear_last_error\<close>, with the error code \<open>error_wrapper\<close> takes from \<open>errno\<close>.\<close>

definition error_wrapper :: "('k os \<Rightarrow> 'a \<times> 'k os) \<Rightarrow> ('k os, 'a \<times> error_code) prog" where
  "error_wrapper f s = (case f (clear_last_error s) of (r, s') \<Rightarrow> (Ok (r, Sys (os_errno s')), s'))"

section \<open>Binding and connecting\<close>

definition bind :: "'k lib \<Rightarrow> int \<Rightarrow> byte list \<Rightarrow> int \<Rightarrow> ('k os, int \<times> error_code) prog" where
  "bind L s addr addrcnt =
     (if s = invalid_socket then ret (socket_error_retval, bad_descriptor)
      else bindp (error_wrapper (l_bindx L s addr addrcnt)) (\<lambda>(result, ec).
        ret (result, if result = 0 then no_error else ec)))"

definition connect :: "'k lib \<Rightarrow> int \<Rightarrow> byte list \<Rightarrow> int \<Rightarrow> ('k os, int \<times> error_code) prog" where
  "connect L s addr addrcnt =
     (if s = invalid_socket then ret (socket_error_retval, bad_descriptor)
      else bindp (error_wrapper (l_connectx L s addr addrcnt)) (\<lambda>(result, ec).
        ret (result, if result = 0 then no_error else if ec = try_again then no_buffer_space else ec)))"

definition sync_connect :: "'k lib \<Rightarrow> int \<Rightarrow> byte list \<Rightarrow> int \<Rightarrow> ('k os, error_code) prog" where
  "sync_connect L s addr addrcnt = bindp (connect L s addr addrcnt) (\<lambda>(_, ec).
     if ec \<noteq> in_progress \<and> ec \<noteq> would_block then ret ec
     else bindp (call (l_poll_connect L s)) (\<lambda>(n, ec).
       if n < 0 then ret ec
       else bindp (call (l_getsockopt_error L s)) (\<lambda>(n, connect_error, ec).
         if n = socket_error_retval then ret ec else ret (Sys connect_error))))"

text \<open>Whether the connect operation has finished, and its error code; \<open>ec\<close> is the code before.\<close>

definition non_blocking_connect :: "'k lib \<Rightarrow> int \<Rightarrow> error_code \<Rightarrow> ('k os, bool \<times> error_code) prog" where
  "non_blocking_connect L s ec = bindp (call (l_poll L s)) (\<lambda>ready.
     if ready = 0 then ret (False, ec)
     else bindp (call (l_getsockopt_error L s)) (\<lambda>(n, connect_error, ec').
       ret (True, if n = 0 then Sys connect_error else ec')))"

section \<open>Addresses\<close>

definition AF_INET6 :: int where "AF_INET6 = 10"
definition sizeof_sockaddr :: int where "sizeof_sockaddr = 16"
definition sizeof_sockaddr_in6 :: int where "sizeof_sockaddr_in6 = 28"

text \<open>The family of the \<open>i\<close>th \<open>sockaddr\<close> of an array, in its first two bytes (little endian).\<close>

definition sa_family :: "byte list \<Rightarrow> nat \<Rightarrow> int outcome" where
  "sa_family paddrs i = map_ok (\<lambda>bs. uint (bs ! 0) + 256 * uint (bs ! 1)) (peek paddrs (sizeof_sockaddr * int i) 2)"

text \<open>The body of the loop: \<open>*addrlen\<close> and the bytes \<open>addr\<close> points to.\<close>

definition copy_addr :: "byte list \<Rightarrow> nat \<Rightarrow> int \<times> byte list \<Rightarrow> (int \<times> byte list) outcome" where
  "copy_addr paddrs i = (\<lambda>(addrlen, addr). case sa_family paddrs i of
       Ok fam \<Rightarrow> let len = min addrlen (if fam = AF_INET6 then sizeof_sockaddr_in6 else sizeof_sockaddr) in
         (case peek paddrs (sizeof_sockaddr * int i) len of
            Ok bs \<Rightarrow> map_ok (\<lambda>addr'. (len, addr')) (poke addr 0 bs)
          | _ \<Rightarrow> Undef)
     | _ \<Rightarrow> Undef)"

fun copy_addrs :: "byte list \<Rightarrow> nat list \<Rightarrow> int \<times> byte list \<Rightarrow> (int \<times> byte list) outcome" where
  "copy_addrs paddrs [] st = Ok st"
| "copy_addrs paddrs (i # is) st = (case copy_addr paddrs i st of Ok st' \<Rightarrow> copy_addrs paddrs is st' | _ \<Rightarrow> Undef)"

text \<open>The local addresses are all copied to the same place; of the peer's only the first.\<close>

definition call_getlAddr :: "'k lib \<Rightarrow> int \<Rightarrow> int \<times> byte list \<Rightarrow> ('k os, int \<times> int \<times> byte list) prog" where
  "call_getlAddr L s st = bindp (call (l_getladdrs L s)) (\<lambda>(n, paddrs).
     bindp (lift_outcome (\<lambda>_. copy_addrs paddrs [0..<nat n] st)) (\<lambda>st'. ret (n, st')))"

definition call_getpAddr :: "'k lib \<Rightarrow> int \<Rightarrow> int \<times> byte list \<Rightarrow> ('k os, int \<times> int \<times> byte list) prog" where
  "call_getpAddr L s st = bindp (call (l_getpaddrs L s)) (\<lambda>(n, paddrs).
     bindp (lift_outcome (\<lambda>_. copy_addrs paddrs (if n > 0 then [0] else []) st)) (\<lambda>st'. ret (n, st')))"

text \<open>The result, the address and its length, and the error code.\<close>

definition getlAddr :: "'k lib \<Rightarrow> int \<Rightarrow> int \<times> byte list \<Rightarrow> ('k os, int \<times> (int \<times> byte list) \<times> error_code) prog" where
  "getlAddr L s st =
     (if s = invalid_socket then ret (socket_error_retval, st, bad_descriptor)
      else seqp (modify clear_last_error) (bindp (call_getlAddr L s st) (\<lambda>(result, st').
        bindp (asks (\<lambda>s. Sys (os_errno s))) (\<lambda>ec. ret (result, st', if result < 0 then no_error else ec)))))"

definition getpAddr :: "'k lib \<Rightarrow> int \<Rightarrow> int \<times> byte list \<Rightarrow> ('k os, int \<times> (int \<times> byte list) \<times> error_code) prog" where
  "getpAddr L s st =
     (if s = invalid_socket then ret (socket_error_retval, st, bad_descriptor)
      else seqp (modify clear_last_error) (bindp (call_getpAddr L s st) (\<lambda>(result, st').
        bindp (asks (\<lambda>s. Sys (os_errno s))) (\<lambda>ec. ret (result, st', if result > 0 then no_error else ec)))))"

section \<open>Sending\<close>

text \<open>The bytes of the number in the order of the network, on a little-endian machine.\<close>

definition htonl :: "i32bits \<Rightarrow> i32bits" where
  "htonl v = push_bit 24 (v AND 0xFF) OR push_bit 8 (v AND 0xFF00) OR (drop_bit 8 v AND 0xFF00) OR drop_bit 24 v"

definition SCTP_UNORDERED :: int where "SCTP_UNORDERED = 1"

definition call_sctp_sendmsg :: "'k lib \<Rightarrow> int \<Rightarrow> int \<Rightarrow> byte list \<Rightarrow> 'k os \<Rightarrow> int \<times> 'k os" where
  "call_sctp_sendmsg L s ppid data =
     l_send L s data \<lparr>sinfo_stream = 0, sinfo_flags = SCTP_UNORDERED, sinfo_ppid = htonl (word_of_int ppid)\<rparr>"

definition send :: "'k lib \<Rightarrow> int \<Rightarrow> int \<Rightarrow> byte list \<Rightarrow> ('k os, int \<times> error_code) prog" where
  "send L s ppid data = bindp (error_wrapper (call_sctp_sendmsg L s ppid data)) (\<lambda>(result, ec).
     ret (result, if result = 0 then no_error else ec))"

definition sync_send :: "'k lib \<Rightarrow> int \<Rightarrow> socket_state \<Rightarrow> int \<Rightarrow> byte list \<Rightarrow> bool \<Rightarrow> ('k os, int \<times> error_code) prog" where
  "sync_send L s state ppid data all_empty =
     (if s = invalid_socket then ret (0, bad_descriptor)
      else if all_empty \<and> StreamOriented \<in> state then ret (0, no_error)
      else bindp (send L s ppid data) (\<lambda>(n, ec). ret (size_t n, ec)))"

text \<open>Whether the operation is finished, the error code and the number of bytes.\<close>

definition non_blocking_send :: "'k lib \<Rightarrow> int \<Rightarrow> int \<Rightarrow> byte list \<Rightarrow> ('k os, bool \<times> error_code \<times> int) prog" where
  "non_blocking_send L s ppid data = bindp (send L s ppid data) (\<lambda>(n, ec).
     ret (size_t n = int (length data), ec, size_t n))"

section \<open>Receiving\<close>

definition call_sctp_recv :: "'k lib \<Rightarrow> int \<Rightarrow> int \<Rightarrow> 'k os \<Rightarrow> (int \<times> recvd) \<times> 'k os" where
  "call_sctp_recv L s sz = l_recvmsg L s sz"

definition revc :: "'k lib \<Rightarrow> int \<Rightarrow> int \<Rightarrow> ('k os, (int \<times> recvd) \<times> error_code) prog" where
  "revc L s sz = bindp (error_wrapper (call_sctp_recv L s sz)) (\<lambda>((n, r), ec).
     ret ((n, r), if n = 0 then no_error else ec))"

text \<open>The number of bytes, what was received (the old values if nothing was asked) and the error code.\<close>

definition sync_recv :: "'k lib \<Rightarrow> int \<Rightarrow> socket_state \<Rightarrow> int \<Rightarrow> recvd \<Rightarrow> ('k os, int \<times> recvd \<times> error_code) prog" where
  "sync_recv L s state sz old =
     (if s = invalid_socket then ret (0, old, bad_descriptor)
      else if sz \<le> 0 \<and> StreamOriented \<in> state then ret (0, old, no_error)
      else bindp (revc L s sz) (\<lambda>((bytes, r), ec).
        if bytes > 0 then ret (bytes, r, ec)
        else if StreamOriented \<in> state \<and> bytes = 0 then ret (0, r, Misc_eof)
        else ret (0, r, ec)))"

record recv_result =
  rr_done :: bool
  rr_ec :: error_code
  rr_bytes :: int
  rr_recvd :: recvd

text \<open>What becomes of one receive, if it is not repeated; \<open>bytes0\<close> is the byte count before.\<close>

definition recv_end :: "bool \<Rightarrow> int \<Rightarrow> (int \<times> recvd) \<times> error_code \<Rightarrow> recv_result" where
  "recv_end is_stream bytes0 = (\<lambda>((bytes, r), ec).
     if is_stream \<and> bytes = 0 then \<lparr>rr_done = True, rr_ec = Misc_eof, rr_bytes = bytes0, rr_recvd = r\<rparr>
     else if ec = would_block \<or> ec = try_again then \<lparr>rr_done = False, rr_ec = ec, rr_bytes = bytes0, rr_recvd = r\<rparr>
     else if bytes \<ge> 0 then \<lparr>rr_done = True, rr_ec = no_error, rr_bytes = bytes, rr_recvd = r\<rparr>
     else \<lparr>rr_done = True, rr_ec = ec, rr_bytes = 0, rr_recvd = r\<rparr>)"

definition recv_again :: "bool \<Rightarrow> (int \<times> recvd) \<times> error_code \<Rightarrow> bool" where
  "recv_again is_stream = (\<lambda>((bytes, r), ec). \<not> (is_stream \<and> bytes = 0) \<and> ec = interrupted)"

partial_function (option) recv_loop ::
  "'k lib \<Rightarrow> int \<Rightarrow> int \<Rightarrow> bool \<Rightarrow> int \<Rightarrow> 'k os \<Rightarrow> (recv_result \<times> 'k os) option" where
  "recv_loop L s sz is_stream bytes0 t =
     (case revc L s sz t of
        (Ok r, t') \<Rightarrow> if recv_again is_stream r then recv_loop L s sz is_stream bytes0 t'
                      else Some (recv_end is_stream bytes0 r, t')
      | _ \<Rightarrow> None)"

definition non_blocking_recv :: "'k lib \<Rightarrow> int \<Rightarrow> int \<Rightarrow> bool \<Rightarrow> int \<Rightarrow> ('k os, recv_result) prog" where
  "non_blocking_recv L s sz is_stream bytes0 t =
     (case recv_loop L s sz is_stream bytes0 t of None \<Rightarrow> (Hang, t) | Some (r, t') \<Rightarrow> (Ok r, t'))"

section \<open>The operations of the reactor\<close>

datatype status = Not_done | Done | Done_and_exhausted

text \<open>Each returns the status and what the operation object then holds.\<close>

definition send_perform :: "'k lib \<Rightarrow> int \<Rightarrow> socket_state \<Rightarrow> int \<Rightarrow> byte list \<Rightarrow> ('k os, status \<times> error_code \<times> int) prog" where
  "send_perform L s state ppid data = bindp (non_blocking_send L s ppid data) (\<lambda>(finished, ec, n).
     ret (if \<not> finished then Not_done
          else if StreamOriented \<in> state \<and> n < int (length data) then Done_and_exhausted else Done, ec, n))"

definition recv_perform :: "'k lib \<Rightarrow> int \<Rightarrow> socket_state \<Rightarrow> int \<Rightarrow> int \<Rightarrow> ('k os, status \<times> recv_result) prog" where
  "recv_perform L s state sz bytes0 =
     bindp (non_blocking_recv L s sz (StreamOriented \<in> state) bytes0) (\<lambda>r.
     ret (if \<not> rr_done r then Not_done
          else if StreamOriented \<in> state \<and> rr_bytes r = 0 then Done_and_exhausted else Done, r))"

definition connect_perform :: "'k lib \<Rightarrow> int \<Rightarrow> error_code \<Rightarrow> ('k os, status \<times> error_code) prog" where
  "connect_perform L s ec = bindp (non_blocking_connect L s ec) (\<lambda>(finished, ec').
     ret (if finished then Done else Not_done, ec'))"

section \<open>Receiving again\<close>







section \<open>Properties\<close>


text \<open>
  C27: an asynchronous send never reports a failure. The byte count of a failed system call is the largest
  number of its type, which is not the length of the data, so the operation counts as not done and the
  reactor keeps it, however often it is performed and whatever the error is; the error code is set
  but nobody is told. Only a send of all bytes ends the operation.
\<close>

theorem failed_send_never_done:
  assumes "send L s ppid data t = (Ok (n, ec), t')" "INT_MIN \<le> n" "n \<le> INT_MAX" "int (length data) \<le> INT_MAX"
  shows "send_perform L s state ppid data t =
      (Ok (if n = int (length data) then Done else Not_done, ec, if n < 0 then 2 ^ 64 + n else n), t')"
proof -
  have "size_t n = (if n < 0 then 2 ^ 64 + n else n)"
  proof (cases "n < 0")
    case True
    have "n mod 18446744073709551616 = (n + 18446744073709551616) mod 18446744073709551616" by simp
    also have "\<dots> = n + 18446744073709551616" using True assms(2) by (intro mod_pos_pos_trivial) simp_all
    finally show ?thesis using True by (simp add: size_t_def)
  next
    case False
    then show ?thesis using assms(3) by (simp add: size_t_def)
  qed
  then show ?thesis using assms by (auto simp: send_perform_def non_blocking_send_def prog_simps)
qed

text \<open>A connection that was reset (error 104).\<close>

definition reset_lib :: "unit lib" where
  "reset_lib = \<lparr>l_bindx = (\<lambda>_ _ _ t. (0, t)), l_connectx = (\<lambda>_ _ _ t. (0, t)), l_getladdrs = (\<lambda>_ t. ((0, []), t)),
     l_getpaddrs = (\<lambda>_ t. ((0, []), t)), l_poll = (\<lambda>_ t. (0, t)), l_send = (\<lambda>_ _ _ t. (- 1, t\<lparr>os_errno := 104\<rparr>)),
     l_recvmsg = (\<lambda>_ _ t. ((0, \<lparr>rv_data = [], rv_info = \<lparr>sinfo_stream = 0, sinfo_flags = 0, sinfo_ppid = 0\<rparr>, rv_flags = 0\<rparr>), t)),
     l_poll_connect = (\<lambda>_ t. ((0, no_error), t)), l_getsockopt_error = (\<lambda>_ t. ((0, 0, no_error), t))\<rparr>"

theorem failed_send_never_done_witness:
  "send_perform reset_lib 5 {StreamOriented} 0 [1, 2, 3] \<lparr>os_errno = 0, os_kernel = ()\<rparr> =
     (Ok (Not_done, Sys 104, 18446744073709551615), \<lparr>os_errno = 104, os_kernel = ()\<rparr>)"
proof -
  have "send reset_lib 5 0 [1, 2, 3] \<lparr>os_errno = 0, os_kernel = ()\<rparr> = (Ok (- 1, Sys 104), \<lparr>os_errno = 104, os_kernel = ()\<rparr>)"
    by (simp add: send_def error_wrapper_def call_sctp_sendmsg_def reset_lib_def clear_last_error_def prog_simps)
  from failed_send_never_done [OF this, of "{StreamOriented}"] show ?thesis by simp
qed

end
