(* ===== verification/SctpService.thy ===== *)
theory SctpService
  imports SctpOps
begin

text \<open>
  The SCTP socket service (src/include/boostsctp/asio/detail/sctp_reactive_socket_service_base.hpp and
  sctp_reactive_socket_service.hpp): the life of the descriptors behind socket objects, binding and
  connecting, starting operations, and the synchronous receive. Socket objects live at addresses. What
  the system and the reactor answer (a new descriptor, an error) is an argument of the operations.
\<close>

section \<open>State\<close>

record impl =
  im_socket :: int
  im_state :: socket_state
  im_ppid :: int
  im_protocol :: int

text \<open>
  \<open>sv_registered\<close> are the descriptors known to the reactor, \<open>sv_open\<close> the descriptors of the process,
  \<open>sv_msgs\<close> is \<open>streamMsgs_\<close>.
\<close>

record 'k service =
  sv_impl :: "nat \<Rightarrow> impl option"
  sv_registered :: "int set"
  sv_open :: "int set"
  sv_msgs :: "int \<Rightarrow> byte list option"
  sv_os :: "'k os"

text \<open>The protocol class (src/include/boostsctp/asio/ip/sctp.hpp).\<close>

definition PF_INET :: int where "PF_INET = 2"
definition PF_INET6 :: int where "PF_INET6 = 10"
definition SOCK_STREAM :: int where "SOCK_STREAM = 1"
definition SOCK_DGRAM :: int where "SOCK_DGRAM = 2"
definition sctp_v4 :: int where "sctp_v4 = PF_INET"
definition sctp_v6 :: int where "sctp_v6 = PF_INET6"
definition sctp_type :: int where "sctp_type = SOCK_STREAM"

definition closed_impl :: "int \<Rightarrow> impl" where
  "closed_impl fam = \<lparr>im_socket = invalid_socket, im_state = {}, im_ppid = 0, im_protocol = fam\<rparr>"

definition is_open :: "impl \<Rightarrow> bool" where
  "is_open i \<longleftrightarrow> im_socket i \<noteq> invalid_socket"

definition the_impl :: "nat \<Rightarrow> ('k service, impl) prog" where
  "the_impl a = lift_outcome (\<lambda>s. case sv_impl s a of None \<Rightarrow> Undef | Some i \<Rightarrow> Ok i)"

definition on_impl :: "nat \<Rightarrow> (impl \<Rightarrow> impl) \<Rightarrow> ('k service, unit) prog" where
  "on_impl a f = bindp (the_impl a) (\<lambda>i. modify (\<lambda>s. s\<lparr>sv_impl := (sv_impl s)(a \<mapsto> f i)\<rparr>))"

definition on_os :: "('k os, 'a) prog \<Rightarrow> ('k service, 'a) prog" where
  "on_os = zoom sv_os (\<lambda>t. sv_os_update (\<lambda>_. t))"

section \<open>Descriptors\<close>

text \<open>Closing a descriptor that is not open is an error that may hit a descriptor of someone else.\<close>

definition close_fd :: "int \<Rightarrow> ('k service, unit) prog" where
  "close_fd d = seqp (assertp (\<lambda>s. d \<in> sv_open s)) (modify (\<lambda>s. s\<lparr>sv_open := sv_open s - {d}\<rparr>))"

definition deregister_descriptor :: "int \<Rightarrow> ('k service, unit) prog" where
  "deregister_descriptor d = modify (\<lambda>s. s\<lparr>sv_registered := sv_registered s - {d}\<rparr>)"

definition register_descriptor :: "int \<Rightarrow> int \<Rightarrow> ('k service, int) prog" where
  "register_descriptor d err =
     seqp (modify (\<lambda>s. if err = 0 then s\<lparr>sv_registered := insert d (sv_registered s)\<rparr> else s)) (ret err)"

text \<open>A call that creates a descriptor gives \<open>d\<close>, which is invalid if it fails.\<close>

definition new_fd :: "int \<Rightarrow> ('k service, int) prog" where
  "new_fd d = seqp (modify (\<lambda>s. if d = invalid_socket then s else s\<lparr>sv_open := insert d (sv_open s)\<rparr>)) (ret d)"

section \<open>The life of a socket\<close>

definition construct :: "impl \<Rightarrow> impl" where
  "construct i = i\<lparr>im_socket := invalid_socket, im_state := {}, im_ppid := 0\<rparr>"

definition new_socket :: "nat \<Rightarrow> int \<Rightarrow> ('k service, unit) prog" where
  "new_socket a fam = modify (\<lambda>s. s\<lparr>sv_impl := (sv_impl s)(a \<mapsto> closed_impl fam)\<rparr>)"

definition base_move_construct :: "nat \<Rightarrow> nat \<Rightarrow> ('k service, unit) prog" where
  "base_move_construct a b = bindp (the_impl b) (\<lambda>j. doM
     [modify (\<lambda>s. s\<lparr>sv_impl := (sv_impl s)(a \<mapsto> j)\<rparr>), on_impl b construct])"

definition destroy :: "nat \<Rightarrow> ('k service, unit) prog" where
  "destroy a = bindp (the_impl a) (\<lambda>i.
     if is_open i then doM [deregister_descriptor (im_socket i), close_fd (im_socket i)] else ret ())"

text \<open>The destructor of the socket object.\<close>

definition delete_socket :: "nat \<Rightarrow> ('k service, unit) prog" where
  "delete_socket a = doM [destroy a, modify (\<lambda>s. s\<lparr>sv_impl := (sv_impl s)(a := None)\<rparr>)]"

definition base_move_assign :: "nat \<Rightarrow> nat \<Rightarrow> ('k service, unit) prog" where
  "base_move_assign a b = seqp (destroy a) (bindp (the_impl b) (\<lambda>j. doM
     [on_impl a (\<lambda>i. i\<lparr>im_socket := im_socket j, im_state := im_state j, im_ppid := im_ppid j\<rparr>),
      on_impl b construct]))"

text \<open>The moves of the derived service hand over the protocol too.\<close>

definition move_construct :: "nat \<Rightarrow> nat \<Rightarrow> ('k service, unit) prog" where
  "move_construct a b = doM [base_move_construct a b, on_impl b (im_protocol_update (\<lambda>_. sctp_v4))]"

definition move_assign :: "nat \<Rightarrow> nat \<Rightarrow> ('k service, unit) prog" where
  "move_assign a b = seqp (base_move_assign a b) (bindp (the_impl b) (\<lambda>j. doM
     [on_impl a (im_protocol_update (\<lambda>_. im_protocol j)), on_impl b (im_protocol_update (\<lambda>_. sctp_v4))]))"

text \<open>\<open>ec\<close> is the error code of \<open>socket_ops::close\<close>.\<close>

definition close :: "nat \<Rightarrow> error_code \<Rightarrow> ('k service, error_code) prog" where
  "close a ec = bindp (the_impl a) (\<lambda>i. seqp
     (if is_open i then doM [deregister_descriptor (im_socket i), close_fd (im_socket i)] else ret ())
     (seqp (on_impl a construct) (ret (if is_open i then ec else no_error))))"

definition release :: "nat \<Rightarrow> ('k service, int \<times> error_code) prog" where
  "release a = bindp (the_impl a) (\<lambda>i.
     if \<not> is_open i then ret (invalid_socket, bad_descriptor)
     else seqp (doM [deregister_descriptor (im_socket i), on_impl a construct]) (ret (im_socket i, no_error)))"

definition state_of_type :: "int \<Rightarrow> socket_state" where
  "state_of_type type = (if type = SOCK_STREAM then {StreamOriented} else if type = SOCK_DGRAM then {DatagramOriented} else {})"

text \<open>\<open>sock\<close> and \<open>ec\<close> are what \<open>socket_ops::socket\<close> gives, \<open>err\<close> what the registration gives.\<close>

definition do_open :: "nat \<Rightarrow> int \<Rightarrow> int \<Rightarrow> error_code \<Rightarrow> int \<Rightarrow> ('k service, error_code) prog" where
  "do_open a type sock ec err = bindp (the_impl a) (\<lambda>i.
     if is_open i then ret Misc_already_open
     else seqp (new_fd sock)
       (if sock = invalid_socket then ret ec
        else bindp (register_descriptor sock err) (\<lambda>err.
          if err \<noteq> 0 then seqp (close_fd sock) (ret (Sys err))
          else seqp (on_impl a (\<lambda>i. i\<lparr>im_socket := sock, im_state := state_of_type type\<rparr>)) (ret no_error))))"

definition do_assign :: "nat \<Rightarrow> int \<Rightarrow> int \<Rightarrow> int \<Rightarrow> ('k service, error_code) prog" where
  "do_assign a type native err = bindp (the_impl a) (\<lambda>i.
     if is_open i then ret Misc_already_open
     else bindp (register_descriptor native err) (\<lambda>err.
       if err \<noteq> 0 then ret (Sys err)
       else seqp (on_impl a (\<lambda>i. i\<lparr>im_socket := native, im_state := insert PossibleDup (state_of_type type)\<rparr>)) (ret no_error)))"

definition open_socket :: "nat \<Rightarrow> int \<Rightarrow> int \<Rightarrow> error_code \<Rightarrow> int \<Rightarrow> ('k service, error_code) prog" where
  "open_socket a proto sock ec err = bindp (do_open a sctp_type sock ec err) (\<lambda>ec.
     seqp (if ec = no_error then on_impl a (im_protocol_update (\<lambda>_. proto)) else ret ()) (ret ec))"

definition assign :: "nat \<Rightarrow> int \<Rightarrow> int \<Rightarrow> int \<Rightarrow> ('k service, error_code) prog" where
  "assign a proto native err = bindp (do_assign a sctp_type native err) (\<lambda>ec.
     seqp (if ec = no_error then on_impl a (im_protocol_update (\<lambda>_. proto)) else ret ()) (ret ec))"

text \<open>
  Accepting into the socket \<open>b\<close>: \<open>sock\<close> and \<open>ec\<close> are what \<open>sync_accept\<close> gives. A descriptor that the peer
  does not take over is closed again.
\<close>

definition accept :: "nat \<Rightarrow> nat \<Rightarrow> int \<Rightarrow> error_code \<Rightarrow> int \<Rightarrow> ('k service, error_code) prog" where
  "accept a b sock ec err = bindp (the_impl a) (\<lambda>i. bindp (the_impl b) (\<lambda>j.
     if is_open j then ret Misc_already_open
     else seqp (new_fd sock)
       (if sock = invalid_socket then ret ec
        else bindp (assign b (im_protocol i) sock err) (\<lambda>ec.
          seqp (if ec = no_error then ret () else close_fd sock) (ret ec)))))"

section \<open>Addresses and options\<close>

text \<open>The addresses one after the other, and their number; null for none.\<close>

definition create_sock_addr_list :: "byte list list \<Rightarrow> (byte list \<times> int) option" where
  "create_sock_addr_list endpoints = (if length (concat endpoints) = 0 then None
     else Some (concat endpoints, int (length endpoints)))"

text \<open>A single endpoint is bound with its size in bytes as the number of addresses.\<close>

definition bind_one :: "'k lib \<Rightarrow> nat \<Rightarrow> byte list \<Rightarrow> ('k service, error_code) prog" where
  "bind_one L a endpoint = bindp (the_impl a) (\<lambda>i.
     bindp (on_os (bind L (im_socket i) endpoint (int (length endpoint)))) (\<lambda>(_, ec). ret ec))"

definition bind_all :: "'k lib \<Rightarrow> nat \<Rightarrow> byte list list \<Rightarrow> ('k service, error_code) prog" where
  "bind_all L a endpoints = bindp (the_impl a) (\<lambda>i.
     case create_sock_addr_list endpoints of
       None \<Rightarrow> ret invalid_argument
     | Some (addr, n) \<Rightarrow> if n \<le> 0 then ret invalid_argument
         else bindp (on_os (bind L (im_socket i) addr n)) (\<lambda>(_, ec). ret ec))"

definition connect_one :: "'k lib \<Rightarrow> nat \<Rightarrow> byte list \<Rightarrow> ('k service, error_code) prog" where
  "connect_one L a endpoint = bindp (the_impl a) (\<lambda>i. on_os (sync_connect L (im_socket i) endpoint 1))"

text \<open>An endpoint has room for 128 bytes; what the call leaves of it is its value, the empty one on failure.\<close>

definition endpoint_capacity :: int where "endpoint_capacity = 128"

definition local_endpoint :: "'k lib \<Rightarrow> nat \<Rightarrow> byte list \<Rightarrow> ('k service, byte list \<times> error_code) prog" where
  "local_endpoint L a blank = bindp (the_impl a) (\<lambda>i.
     bindp (on_os (getlAddr L (im_socket i) (endpoint_capacity, blank))) (\<lambda>(n, (len, addr), ec).
       ret (if n \<le> 0 then [] else take (nat len) addr, ec)))"

definition remote_endpoint :: "'k lib \<Rightarrow> nat \<Rightarrow> byte list \<Rightarrow> ('k service, byte list \<times> error_code) prog" where
  "remote_endpoint L a blank = bindp (the_impl a) (\<lambda>i.
     bindp (on_os (getpAddr L (im_socket i) (endpoint_capacity, blank))) (\<lambda>(n, (len, addr), ec).
       ret (if n \<le> 0 then [] else take (nat len) addr, ec)))"

text \<open>
  The payload protocol is kept by the service; every other option is set on the descriptor by
  \<open>socket_ops::setsockopt\<close> of boost, \<open>opt\<close>, which gives an error code.
\<close>

definition set_option :: "nat \<Rightarrow> int option \<Rightarrow> (int \<Rightarrow> 'k os \<Rightarrow> error_code \<times> 'k os) \<Rightarrow> ('k service, error_code) prog" where
  "set_option a ppid opt = (case ppid of
       Some n \<Rightarrow> seqp (on_impl a (im_ppid_update (\<lambda>_. n))) (ret no_error)
     | None \<Rightarrow> bindp (the_impl a) (\<lambda>i. on_os (call (opt (im_socket i)))))"

section \<open>Starting operations\<close>

text \<open>An operation waits in the reactor, or its completion is posted at once.\<close>

datatype started = To_reactor | Posted error_code

definition non_blocking :: "socket_state \<Rightarrow> bool" where
  "non_blocking st \<longleftrightarrow> UserNonBlocking \<in> st \<or> InternalNonBlocking \<in> st"

text \<open>\<open>nb\<close> is what \<open>set_internal_non_blocking\<close> answers if it is called: no error, or why it failed.\<close>

definition make_non_blocking :: "nat \<Rightarrow> error_code \<Rightarrow> ('k service, bool) prog" where
  "make_non_blocking a nb = bindp (the_impl a) (\<lambda>i.
     if non_blocking (im_state i) then ret True
     else if nb = no_error then seqp (on_impl a (im_state_update (insert InternalNonBlocking))) (ret True) else ret False)"

definition start_op :: "nat \<Rightarrow> bool \<Rightarrow> error_code \<Rightarrow> ('k service, started) prog" where
  "start_op a noop nb = (if noop then ret (Posted no_error)
     else bindp (make_non_blocking a nb) (\<lambda>ok. ret (if ok then To_reactor else Posted nb)))"

definition start_accept_op :: "nat \<Rightarrow> bool \<Rightarrow> error_code \<Rightarrow> ('k service, started) prog" where
  "start_accept_op a peer_is_open nb = (if peer_is_open then ret (Posted Misc_already_open) else start_op a False nb)"

definition start_connect_op :: "'k lib \<Rightarrow> nat \<Rightarrow> byte list \<Rightarrow> int \<Rightarrow> error_code \<Rightarrow> ('k service, started) prog" where
  "start_connect_op L a addr addrcnt nb = (if addrcnt \<le> 0 then ret (Posted invalid_argument)
     else bindp (make_non_blocking a nb) (\<lambda>ok. if \<not> ok then ret (Posted nb)
       else bindp (the_impl a) (\<lambda>i. bindp (on_os (connect L (im_socket i) addr addrcnt)) (\<lambda>(n, ec).
         ret (if n \<noteq> 0 \<and> (ec = in_progress \<or> ec = would_block) then To_reactor else Posted ec)))))"

definition async_accept :: "nat \<Rightarrow> nat \<Rightarrow> error_code \<Rightarrow> ('k service, started) prog" where
  "async_accept a peer nb = bindp (the_impl peer) (\<lambda>j. start_accept_op a (is_open j) nb)"

datatype wait_type = Wait_read | Wait_write | Wait_error | Wait_other

definition async_wait :: "nat \<Rightarrow> wait_type \<Rightarrow> error_code \<Rightarrow> ('k service, started) prog" where
  "async_wait a w nb = (if w = Wait_other then ret (Posted invalid_argument) else start_op a False nb)"

definition service_send :: "'k lib \<Rightarrow> nat \<Rightarrow> byte list \<Rightarrow> ('k service, int \<times> error_code) prog" where
  "service_send L a data = bindp (the_impl a) (\<lambda>i. on_os (sync_send L (im_socket i) (im_state i) (im_ppid i) data (data = [])))"

definition async_send :: "nat \<Rightarrow> byte list \<Rightarrow> error_code \<Rightarrow> ('k service, started) prog" where
  "async_send a data nb = bindp (the_impl a) (\<lambda>i. start_op a (StreamOriented \<in> im_state i \<and> data = []) nb)"

definition async_receive :: "nat \<Rightarrow> int \<Rightarrow> error_code \<Rightarrow> ('k service, started) prog" where
  "async_receive a sz nb = bindp (the_impl a) (\<lambda>i. start_op a (StreamOriented \<in> im_state i \<and> sz = 0) nb)"

definition async_connect :: "'k lib \<Rightarrow> nat \<Rightarrow> byte list list \<Rightarrow> error_code \<Rightarrow> ('k service, started) prog" where
  "async_connect L a endpoints nb = (case create_sock_addr_list endpoints of
       None \<Rightarrow> start_connect_op L a [] 0 nb
     | Some (addr, n) \<Rightarrow> start_connect_op L a addr n nb)"

section \<open>Receiving and waiting\<close>

text \<open>The part of \<open>getAndRemoveMessage\<close> that finds the message is compiled out: it gives nothing.\<close>

definition getAndRemoveMessage :: "int \<Rightarrow> ('k service, byte list) prog" where
  "getAndRemoveMessage stream_no = ret []"

definition appendMessage :: "int \<Rightarrow> byte list \<Rightarrow> ('k service, unit) prog" where
  "appendMessage stream_no data = modify (\<lambda>s. s\<lparr>sv_msgs := (sv_msgs s)(stream_no \<mapsto>
     (case sv_msgs s stream_no of None \<Rightarrow> [] | Some bs \<Rightarrow> bs) @ data)\<rparr>)"

text \<open>What is copied to the destination, which has room for \<open>sz\<close> bytes; its length is the result.\<close>

definition mergeMessage :: "int \<Rightarrow> byte list \<Rightarrow> int \<Rightarrow> ('k service, byte list) prog" where
  "mergeMessage stream_no recvBuf sz = bindp (getAndRemoveMessage stream_no) (\<lambda>tmp.
     let front = take (nat sz) tmp in
     ret (if int (length front) < sz \<and> recvBuf \<noteq> [] then front @ take (nat sz - length front) recvBuf else front))"

definition has_MSG_EOR :: "int \<Rightarrow> bool" where
  "has_MSG_EOR flags \<longleftrightarrow> flags AND 0x80 \<noteq> 0"

definition nothing_received :: recvd where
  "nothing_received = \<lparr>rv_data = [], rv_info = \<lparr>sinfo_stream = 0, sinfo_flags = 0, sinfo_ppid = 0\<rparr>, rv_flags = 0\<rparr>"

text \<open>The loop of \<open>receive\<close>, which ends with the end of a message, the end of the stream or an error.\<close>

partial_function (option) receive_loop ::
  "'k lib \<Rightarrow> impl \<Rightarrow> int \<Rightarrow> recvd \<Rightarrow> 'k service \<Rightarrow> ((byte list \<times> error_code) outcome \<times> 'k service) option" where
  "receive_loop L i sz old s =
     (case on_os (sync_recv L (im_socket i) (im_state i) 8192 old) s of
        (Ok (n, r, ec), s') \<Rightarrow>
          let bs = take (nat n) (rv_data r); stream_no = sinfo_stream (rv_info r) in
          if n \<le> 0 \<or> ec \<noteq> no_error \<or> has_MSG_EOR (rv_flags r)
          then Some (bindp (mergeMessage stream_no bs sz) (\<lambda>dst. ret (dst, ec)) s')
          else (case appendMessage stream_no bs s' of
              (Ok _, s'') \<Rightarrow> receive_loop L i sz r s''
            | (_, s'') \<Rightarrow> Some (Undef, s''))
      | (_, s') \<Rightarrow> Some (Undef, s'))"

definition receive :: "'k lib \<Rightarrow> nat \<Rightarrow> int \<Rightarrow> ('k service, byte list \<times> error_code) prog" where
  "receive L a sz = bindp (the_impl a) (\<lambda>i s.
     case receive_loop L i sz nothing_received s of None \<Rightarrow> (Hang, s) | Some r \<Rightarrow> r)"

text \<open>The error code of \<open>wait\<close>: that of the poll it makes, or an invalid argument.\<close>

definition wait :: "wait_type \<Rightarrow> error_code \<Rightarrow> error_code" where
  "wait w polled = (if w = Wait_other then invalid_argument else polled)"

definition cancel :: "impl \<Rightarrow> error_code" where
  "cancel i = (if is_open i then no_error else bad_descriptor)"

section \<open>Who owns a descriptor\<close>

text \<open>The descriptor of a socket object, if there is one.\<close>

definition fd_of :: "impl option \<Rightarrow> int option" where
  "fd_of x = (case x of Some i \<Rightarrow> if is_open i then Some (im_socket i) else None | None \<Rightarrow> None)"

definition socks :: "(nat \<Rightarrow> impl option) \<Rightarrow> nat \<Rightarrow> int option" where
  "socks m a = fd_of (m a)"

abbreviation sock :: "'k service \<Rightarrow> nat \<Rightarrow> int option" where "sock s \<equiv> socks (sv_impl s)"

text \<open>
  Each registered descriptor belongs to one socket object, and the open ones to a socket object or to the
  application, which holds \<open>G\<close>: the descriptors it made itself or got by \<open>release\<close>.
\<close>

definition owners_ok :: "(nat \<Rightarrow> int option) \<Rightarrow> int set \<Rightarrow> int set \<Rightarrow> int set \<Rightarrow> bool" where
  "owners_ok m reg opn G \<longleftrightarrow> (\<forall>a b d. m a = Some d \<and> m b = Some d \<longrightarrow> a = b) \<and> reg = ran m \<and>
     opn = ran m \<union> G \<and> ran m \<inter> G = {} \<and> invalid_socket \<notin> opn"

definition service_ok :: "'k service \<Rightarrow> int set \<Rightarrow> bool" where
  "service_ok s G \<longleftrightarrow> owners_ok (sock s) (sv_registered s) (sv_open s) G"

lemma ran_lose:
  assumes once: "\<And>a b d. m a = Some d \<Longrightarrow> m b = Some d \<Longrightarrow> a = b" and d: "m a = Some d"
  shows "ran (m(a := None)) = ran m - {d}"
proof (intro set_eqI iffI)
  fix x
  assume "x \<in> ran (m(a := None))"
  then obtain b where "b \<noteq> a" "m b = Some x" by (auto simp: ran_def split: if_splits)
  then show "x \<in> ran m - {d}" using once [of a d b] d by (auto simp: ran_def)
next
  fix x
  assume "x \<in> ran m - {d}"
  then obtain b where "m b = Some x" "x \<noteq> d" by (auto simp: ran_def)
  then show "x \<in> ran (m(a := None))" using d by (auto simp: ran_def intro!: exI [of _ b])
qed

lemma owners_once: "owners_ok m reg opn G \<Longrightarrow> m a = Some d \<Longrightarrow> m b = Some d \<Longrightarrow> a = b"
  unfolding owners_ok_def by blast

lemma owners_gain:
  assumes ok: "owners_ok m reg opn G" and a: "m a = None" and d: "d \<notin> ran m" "d \<noteq> invalid_socket"
  shows "owners_ok (m(a \<mapsto> d)) (insert d reg) (insert d opn) (G - {d})"
proof -
  have r: "ran (m(a \<mapsto> d)) = insert d (ran m)" using a by simp
  have n: "m b \<noteq> Some d" for b using d(1) by (auto simp: ran_def)
  have j: "b = c" if "(m(a \<mapsto> d)) b = Some e" "(m(a \<mapsto> d)) c = Some e" for b c e
    using that n owners_once [OF ok, of b e c] by (simp split: if_splits)
  have f: "reg = ran m" "opn = ran m \<union> G" "ran m \<inter> G = {}" "invalid_socket \<notin> opn" using ok unfolding owners_ok_def by blast+
  show ?thesis unfolding owners_ok_def r using j f d by blast
qed

lemma owners_lose:
  assumes ok: "owners_ok m reg opn G" and a: "m a = Some d"
  shows "owners_ok (m(a := None)) (reg - {d}) (opn - {d}) G" "owners_ok (m(a := None)) (reg - {d}) opn (insert d G)"
    "d \<in> opn" "d \<in> reg"
proof -
  have r: "ran (m(a := None)) = ran m - {d}" using owners_once [OF ok] a by (rule ran_lose)
  have d: "d \<in> ran m" using a by (auto simp: ran_def)
  have j: "b = c" if "(m(a := None)) b = Some e" "(m(a := None)) c = Some e" for b c e
    using that owners_once [OF ok, of b e c] by (simp split: if_splits)
  show "owners_ok (m(a := None)) (reg - {d}) (opn - {d}) G" "owners_ok (m(a := None)) (reg - {d}) opn (insert d G)"
    "d \<in> opn" "d \<in> reg"
    using ok j d unfolding owners_ok_def r by blast+
qed

lemma owners_move:
  assumes ok: "owners_ok m reg opn G" and a: "m a = None" and b: "m b = x"
  shows "owners_ok (m(a := x, b := None)) reg opn G"
proof (cases x)
  case (Some d)
  have ab: "a \<noteq> b" using a b Some by auto
  have "ran (m(b := None)) = ran m - {d}" using owners_once [OF ok] b [unfolded Some] by (rule ran_lose)
  moreover have "m(a := x, b := None) = (m(b := None))(a \<mapsto> d)" using ab Some by (simp add: fun_upd_twist)
  moreover have "(m(b := None)) a = None" using a by simp
  ultimately have "ran (m(a := x, b := None)) = insert d (ran m - {d})" by (simp only: ran_map_upd)
  moreover have "d \<in> ran m" using b Some by (auto simp: ran_def)
  ultimately have r: "ran (m(a := x, b := None)) = ran m" by auto
  have "u = v" if "(m(a := x, b := None)) u = Some e" "(m(a := x, b := None)) v = Some e" for u v e
    using that owners_once [OF ok, of _ e] b Some by (auto split: if_splits)
  then show ?thesis using ok r unfolding owners_ok_def by (metis (no_types))
next
  case None
  then have "m(a := x, b := None) = m" using a b by (auto simp: fun_eq_iff)
  then show ?thesis using ok by simp
qed

text \<open>What the program of each operation does to a socket object and its descriptor.\<close>

lemma the_impl_run [prog_simps]: "sv_impl s a = Some i \<Longrightarrow> the_impl a s = (Ok i, s)"
  by (simp add: the_impl_def prog_simps)

lemma on_impl_run [prog_simps]: "sv_impl s a = Some i \<Longrightarrow> on_impl a f s = (Ok (), s\<lparr>sv_impl := (sv_impl s)(a \<mapsto> f i)\<rparr>)"
  by (simp add: on_impl_def prog_simps)

lemma fd_of_simps [simp]:
  "fd_of None = None" "fd_of (Some (construct i)) = None" "fd_of (Some (closed_impl f)) = None"
  "fd_of (Some (im_protocol_update g i)) = fd_of (Some i)"
  "fd_of (Some (i\<lparr>im_socket := im_socket j, im_state := st, im_ppid := n\<rparr>)) = fd_of (Some j)"
  by (simp_all add: fd_of_def is_open_def construct_def closed_impl_def)

lemma fd_of_open: "is_open i \<Longrightarrow> fd_of (Some i) = Some (im_socket i)" "\<not> is_open i \<Longrightarrow> fd_of (Some i) = None"
  by (simp_all add: fd_of_def)

lemma sock_upd: "socks (m(a := x)) = (socks m)(a := fd_of x)"
  by (simp add: socks_def fun_eq_iff)

lemma sock_at: "sv_impl s a = x \<Longrightarrow> sock s a = fd_of x"
  by (simp add: socks_def)

lemma impl_destroy_run:
  assumes "service_ok s G" "sv_impl s a = Some i"
  shows "destroy a s = (Ok (), case sock s a of None \<Rightarrow> s
    | Some d \<Rightarrow> s\<lparr>sv_registered := sv_registered s - {d}, sv_open := sv_open s - {d}\<rparr>)"
  using assms owners_lose(3) [of "sock s" "sv_registered s" "sv_open s" G a "im_socket i"]
  by (simp add: destroy_def fd_of_def sock_at service_ok_def prog_simps deregister_descriptor_def close_fd_def)

text \<open>Every operation succeeds and keeps the owners in order.\<close>

lemma owners_None: "owners_ok m reg opn G \<Longrightarrow> m a = None \<Longrightarrow> owners_ok (m(a := None)) reg opn G"
  by (simp add: fun_upd_idem)

lemma owners_drop:
  assumes "owners_ok m reg opn G" "x = m a"
  shows "owners_ok (m(a := None)) (case x of None \<Rightarrow> reg | Some d \<Rightarrow> reg - {d}) (case x of None \<Rightarrow> opn | Some d \<Rightarrow> opn - {d}) G"
  using assms owners_None owners_lose(1) by (cases x) force+

lemma create_ok: "service_ok s G \<Longrightarrow> sv_impl s a = None \<Longrightarrow> \<exists>s'. new_socket a fam s = (Ok (), s') \<and> service_ok s' G"
  by (simp add: new_socket_def prog_simps service_ok_def sock_upd owners_None sock_at)

lemma protocol_ok:
  assumes "service_ok s G" "sv_impl s a = Some i"
  shows "\<exists>s'. on_impl a (im_protocol_update f) s = (Ok (), s') \<and> service_ok s' G"
  using assms by (simp add: prog_simps service_ok_def sock_upd fun_upd_idem sock_at)

lemma delete_ok:
  assumes "service_ok s G" "sv_impl s a = Some i"
  shows "\<exists>s'. delete_socket a s = (Ok (), s') \<and> service_ok s' G"
  using impl_destroy_run [OF assms] owners_drop [of "sock s" "sv_registered s" "sv_open s" G _ a] assms(1)
  by (auto simp: delete_socket_def prog_simps service_ok_def sock_upd split: option.split)

lemma close_ok:
  assumes ok: "service_ok s G" and i: "sv_impl s a = Some i"
  shows "\<exists>r s'. close a ec s = (Ok r, s') \<and> service_ok s' G"
proof (cases "is_open i")
  case True
  then have "sock s a = Some (im_socket i)" using i by (simp add: fd_of_def sock_at)
  note o = owners_lose [OF ok [unfolded service_ok_def] this]
  show ?thesis using True i o by (simp add: close_def prog_simps deregister_descriptor_def close_fd_def service_ok_def sock_upd)
next
  case False
  then show ?thesis using i ok by (simp add: close_def prog_simps service_ok_def sock_upd owners_None fd_of_open sock_at)
qed

lemma release_ok:
  assumes ok: "service_ok s G" and i: "sv_impl s a = Some i"
  shows "\<exists>d ec s'. release a s = (Ok (d, ec), s') \<and> service_ok s' (if ec = no_error then insert d G else G)"
proof (cases "is_open i")
  case True
  then have "sock s a = Some (im_socket i)" using i by (simp add: fd_of_def sock_at)
  note o = owners_lose [OF ok [unfolded service_ok_def] this]
  show ?thesis using True i o by (simp add: release_def prog_simps deregister_descriptor_def service_ok_def sock_upd)
next
  case False
  then show ?thesis using i ok by (simp add: release_def prog_simps error_values)
qed

lemma move_construct_ok:
  assumes ok: "service_ok s G" and ab: "sv_impl s a = None" "sv_impl s b = Some j"
  shows "\<exists>s'. move_construct a b s = (Ok (), s') \<and> service_ok s' G"
proof -
  have "a \<noteq> b" using ab by auto
  moreover have "owners_ok ((sock s)(a := sock s b, b := None)) (sv_registered s) (sv_open s) G"
    using ok ab(1) by (intro owners_move) (simp_all add: service_ok_def sock_at)
  ultimately show ?thesis using ab
    by (simp add: move_construct_def base_move_construct_def prog_simps service_ok_def sock_upd sock_at)
qed

lemma move_assign_ok:
  assumes ok: "service_ok s G" and ab: "sv_impl s a = Some i" "sv_impl s b = Some j"
  shows "\<exists>s'. move_assign a b s = (Ok (), s') \<and> service_ok s' G"
proof -
  define t where "t = (case sock s a of None \<Rightarrow> s
    | Some d \<Rightarrow> s\<lparr>sv_registered := sv_registered s - {d}, sv_open := sv_open s - {d}\<rparr>)"
  have dest: "destroy a s = (Ok (), t)" using impl_destroy_run [OF ok ab(1)] by (simp add: t_def)
  have t: "sv_impl t = sv_impl s" by (simp add: t_def split: option.split)
  have drop: "owners_ok ((sock s)(a := None)) (sv_registered t) (sv_open t) G"
    using owners_drop [OF ok [unfolded service_ok_def] refl, of a] by (simp add: t_def split: option.splits)
  show ?thesis
  proof (cases "a = b")
    case True
    then show ?thesis using dest t ab drop
      by (simp add: move_assign_def base_move_assign_def prog_simps service_ok_def sock_upd)
  next
    case False
    have "owners_ok ((sock s)(a := None, a := sock s b, b := None)) (sv_registered t) (sv_open t) G"
      using drop False by (intro owners_move) simp_all
    then show ?thesis using dest t ab False
      by (simp add: move_assign_def base_move_assign_def prog_simps service_ok_def sock_upd sock_at)
  qed
qed

lemma assign_ok:
  assumes ok: "service_ok s G" and i: "sv_impl s a = Some i" and d: "d \<in> G"
  shows "\<exists>r s'. assign a proto d err s = (Ok r, s') \<and> service_ok s' (if r = no_error then G - {d} else G)"
proof (cases "is_open i \<or> err \<noteq> 0")
  case True
  then show ?thesis using i ok
    by (cases "is_open i") (simp_all add: assign_def do_assign_def register_descriptor_def prog_simps error_values)
next
  case False
  have n: "sock s a = None" using False i by (simp add: sock_at fd_of_def)
  have o: "owners_ok (sock s) (sv_registered s) (sv_open s) G" using ok by (simp add: service_ok_def)
  then have d': "d \<notin> ran (sock s)" "d \<noteq> invalid_socket" "insert d (sv_open s) = sv_open s"
    using d unfolding owners_ok_def by auto
  have "fd_of (Some (i\<lparr>im_socket := d, im_state := st\<rparr>)) = Some d" for st using d'(2) by (simp add: fd_of_def is_open_def)
  then show ?thesis using owners_gain [OF o n d'(1,2)] d'(3) False i
    by (simp add: assign_def do_assign_def register_descriptor_def prog_simps service_ok_def sock_upd)
qed

text \<open>A new descriptor is the application's until a socket object takes it or it is closed again.\<close>

lemma fresh_fd:
  assumes "service_ok s G" "d \<noteq> invalid_socket" "d \<notin> sv_open s"
  shows "new_fd d s = (Ok d, s\<lparr>sv_open := insert d (sv_open s)\<rparr>)" "service_ok (s\<lparr>sv_open := insert d (sv_open s)\<rparr>) (insert d G)"
    "service_ok (s\<lparr>sv_open := insert d (sv_open s) - {d}\<rparr>) G" "insert d G - {d} = G"
  using assms by (auto simp: new_fd_def prog_simps service_ok_def owners_ok_def)

lemma app_close:
  assumes "service_ok s G" "d \<in> G"
  shows "close_fd d s = (Ok (), s\<lparr>sv_open := sv_open s - {d}\<rparr>)" "service_ok (s\<lparr>sv_open := sv_open s - {d}\<rparr>) (G - {d})"
  using assms by (auto simp: close_fd_def prog_simps service_ok_def owners_ok_def)

lemma open_ok:
  assumes ok: "service_ok s G" and i: "sv_impl s a = Some i" and d: "d = invalid_socket \<or> d \<notin> sv_open s"
  shows "\<exists>r s'. open_socket a proto d ec err s = (Ok r, s') \<and> service_ok s' G"
proof (cases "is_open i \<or> d = invalid_socket")
  case True
  then show ?thesis using i ok protocol_ok [OF ok i, of "\<lambda>_. proto"]
    by (cases "is_open i"; cases "ec = no_error") (auto simp: open_socket_def do_open_def new_fd_def prog_simps error_values)
next
  case False
  note f = fresh_fd [OF ok, of d]
  define t where "t = s\<lparr>sv_open := insert d (sv_open s)\<rparr>"
  have t: "new_fd d s = (Ok d, t)" "service_ok t (insert d G)" "insert d G - {d} = G" "sv_impl t a = Some i"
    using f False d i by (simp_all add: t_def)
  show ?thesis
  proof (cases "err = 0")
    case True
    have n: "sock t a = None" using False t(4) by (simp add: sock_at fd_of_def)
    have o: "owners_ok (sock t) (sv_registered t) (sv_open t) (insert d G)" using t(2) by (simp add: service_ok_def)
    then have d': "d \<notin> ran (sock t)" "d \<noteq> invalid_socket" "insert d (sv_open t) = sv_open t" unfolding owners_ok_def by auto
    have "fd_of (Some (i\<lparr>im_socket := d, im_state := st\<rparr>)) = Some d" for st using d'(2) by (simp add: fd_of_def is_open_def)
    then show ?thesis using owners_gain [OF o n d'(1,2)] d'(3) t False True i
      by (simp add: open_socket_def do_open_def register_descriptor_def prog_simps service_ok_def sock_upd)
  next
    case e: False
    then show ?thesis using t app_close [OF t(2), of d] False i
      by (simp add: open_socket_def do_open_def register_descriptor_def prog_simps error_values)
  qed
qed

lemma accept_ok:
  assumes ok: "service_ok s G" and ij: "sv_impl s a = Some i" "sv_impl s b = Some j" and d: "d = invalid_socket \<or> d \<notin> sv_open s"
  shows "\<exists>r s'. accept a b d ec err s = (Ok r, s') \<and> service_ok s' G"
proof (cases "is_open j \<or> d = invalid_socket")
  case True
  then show ?thesis using ij ok by (cases "is_open j") (auto simp: accept_def new_fd_def prog_simps)
next
  case False
  define t where "t = s\<lparr>sv_open := insert d (sv_open s)\<rparr>"
  have t: "new_fd d s = (Ok d, t)" "service_ok t (insert d G)" "insert d G - {d} = G" "sv_impl t b = Some j"
    using fresh_fd [OF ok, of d] False d ij by (simp_all add: t_def)
  obtain r u where u: "assign b (im_protocol i) d err t = (Ok r, u)" "service_ok u (if r = no_error then insert d G - {d} else insert d G)"
    using assign_ok [OF t(2,4), of d "im_protocol i" err] by auto
  show ?thesis
  proof (cases "r = no_error")
    case True
    then show ?thesis using u t False ij by (simp add: accept_def prog_simps)
  next
    case e: False
    then have "service_ok u (insert d G)" using u(2) by simp
    from app_close [OF this, of d] show ?thesis using u(1) t(1,3) False ij e by (simp add: accept_def prog_simps)
  qed
qed

section \<open>Sockets over time\<close>

text \<open>
  A history of the sockets of a process and of the descriptors \<open>G\<close> its application holds. A system call
  gives a descriptor that is not open or an invalid one; what is assigned to a socket is the
  application's, and what is released becomes the application's.
\<close>

inductive socket_history :: "'k service \<Rightarrow> int set \<Rightarrow> bool" where
  start: "sv_impl s = Map.empty \<Longrightarrow> sv_registered s = {} \<Longrightarrow> sv_open s = G \<Longrightarrow> invalid_socket \<notin> G \<Longrightarrow> socket_history s G"
| create: "socket_history s G \<Longrightarrow> sv_impl s a = None \<Longrightarrow> new_socket a fam s = (Ok (), s') \<Longrightarrow> socket_history s' G"
| move: "socket_history s G \<Longrightarrow> sv_impl s a = None \<Longrightarrow> sv_impl s b = Some j \<Longrightarrow> move_construct a b s = (Ok (), s') \<Longrightarrow> socket_history s' G"
| move_to: "socket_history s G \<Longrightarrow> sv_impl s a = Some i \<Longrightarrow> sv_impl s b = Some j \<Longrightarrow> move_assign a b s = (Ok (), s') \<Longrightarrow> socket_history s' G"
| delete: "socket_history s G \<Longrightarrow> sv_impl s a = Some i \<Longrightarrow> delete_socket a s = (Ok (), s') \<Longrightarrow> socket_history s' G"
| close: "socket_history s G \<Longrightarrow> sv_impl s a = Some i \<Longrightarrow> close a ec s = (Ok r, s') \<Longrightarrow> socket_history s' G"
| release: "socket_history s G \<Longrightarrow> sv_impl s a = Some i \<Longrightarrow> release a s = (Ok (d, ec), s') \<Longrightarrow>
    socket_history s' (if ec = no_error then insert d G else G)"
| opened: "socket_history s G \<Longrightarrow> sv_impl s a = Some i \<Longrightarrow> d = invalid_socket \<or> d \<notin> sv_open s \<Longrightarrow>
    open_socket a proto d ec err s = (Ok r, s') \<Longrightarrow> socket_history s' G"
| assigned: "socket_history s G \<Longrightarrow> sv_impl s a = Some i \<Longrightarrow> d \<in> G \<Longrightarrow> assign a proto d err s = (Ok r, s') \<Longrightarrow>
    socket_history s' (if r = no_error then G - {d} else G)"
| accepted: "socket_history s G \<Longrightarrow> sv_impl s a = Some i \<Longrightarrow> sv_impl s b = Some j \<Longrightarrow> d = invalid_socket \<or> d \<notin> sv_open s \<Longrightarrow>
    accept a b d ec err s = (Ok r, s') \<Longrightarrow> socket_history s' G"

lemma history_ok: "socket_history s G \<Longrightarrow> service_ok s G"
proof (induction rule: socket_history.induct)
  case (start s G)
  then show ?case by (auto simp: service_ok_def owners_ok_def socks_def ran_def)
next
  case (create s G a fam s')
  then show ?case using create_ok [of s G a fam] by auto
next
  case (move s G a b j s')
  then show ?case using move_construct_ok [of s G a b j] by auto
next
  case (move_to s G a i b j s')
  then show ?case using move_assign_ok [of s G a i b j] by auto
next
  case (delete s G a i s')
  then show ?case using delete_ok [of s G a i] by auto
next
  case (close s G a i ec r s')
  then show ?case using close_ok [of s G a i ec] by auto
next
  case (release s G a i d ec s')
  then show ?case using release_ok [of s G a i] by auto
next
  case (opened s G a i d proto ec err r s')
  then show ?case using open_ok [of s G a i d proto ec err] by auto
next
  case (assigned s G a i d proto err r s')
  then show ?case using assign_ok [of s G a i d proto err] by auto
next
  case (accepted s G a i b j d ec err r s')
  then show ?case using accept_ok [of s G a i b j d ec err] by auto
qed

text \<open>
  C15: no descriptor is lost, shared or closed twice. Over every history of socket objects (created, moved,
  opened, assigned, accepted into, released, closed and deleted, with any failures), each descriptor
  the reactor knows belongs to exactly one socket object, an open descriptor is a socket object's or
  the application's and never both, and closing or deleting any socket object succeeds, which it
  could not if its descriptor had been closed before.
\<close>

theorem descriptors_owned:
  assumes "socket_history s G"
  shows "(\<forall>a b d. sock s a = Some d \<and> sock s b = Some d \<longrightarrow> a = b) \<and> sv_registered s = ran (sock s) \<and>
    sv_open s = ran (sock s) \<union> G \<and> ran (sock s) \<inter> G = {} \<and>
    (\<forall>a i. sv_impl s a = Some i \<longrightarrow> (\<exists>s'. delete_socket a s = (Ok (), s')) \<and> (\<exists>r s'. close a ec s = (Ok r, s')))"
proof -
  have ok: "service_ok s G" by (rule history_ok [OF assms])
  have "owners_ok (sock s) (sv_registered s) (sv_open s) G" using ok by (simp add: service_ok_def)
  then have "(\<forall>a b d. sock s a = Some d \<and> sock s b = Some d \<longrightarrow> a = b) \<and> sv_registered s = ran (sock s) \<and>
    sv_open s = ran (sock s) \<union> G \<and> ran (sock s) \<inter> G = {}"
    unfolding owners_ok_def by (elim conjE, intro conjI)
  moreover have "(\<exists>s'. delete_socket a s = (Ok (), s')) \<and> (\<exists>r s'. close a ec s = (Ok r, s'))" if "sv_impl s a = Some i" for a i
    using delete_ok [OF ok that] close_ok [OF ok that, of ec] by blast
  ultimately show ?thesis by simp
qed

text \<open>A socket that is opened, moved to another object, released by it and closed.\<close>

theorem descriptors_owned_witness:
  "\<exists>s :: unit service. socket_history s {7} \<and> sv_impl s 2 \<noteq> None \<and> sv_registered s = ran (sock s) \<and> sv_open s = ran (sock s) \<union> {7}"
proof -
  define s0 :: "unit service" where "s0 = \<lparr>sv_impl = Map.empty, sv_registered = {}, sv_open = {}, sv_msgs = Map.empty,
    sv_os = \<lparr>os_errno = 0, os_kernel = ()\<rparr>\<rparr>"
  have h0: "socket_history s0 {}" by (rule socket_history.start) (simp_all add: s0_def)
  obtain s1 where s1: "new_socket 1 sctp_v4 s0 = (Ok (), s1)" by (simp add: new_socket_def prog_simps)
  have h1: "socket_history s1 {}" by (rule socket_history.create [OF h0 _ s1]) (simp add: s0_def)
  have i1: "sv_impl s1 = [1 \<mapsto> closed_impl sctp_v4]" "sv_open s1 = {}" using s1 by (auto simp: new_socket_def modify_def s0_def)
  obtain r s2 where s2: "open_socket 1 sctp_v4 7 no_error 0 s1 = (Ok r, s2)"
    using open_ok [OF history_ok [OF h1], of 1 "closed_impl sctp_v4" 7 sctp_v4 no_error 0] i1 by auto
  have h2: "socket_history s2 {}" by (rule socket_history.opened [OF h1 _ _ s2]) (simp_all add: i1)
  have i2: "sv_impl s2 1 = Some (\<lparr>im_socket = 7, im_state = state_of_type sctp_type, im_ppid = 0, im_protocol = sctp_v4\<rparr>)" "sv_impl s2 2 = None"
    using s2 i1 by (auto simp: open_socket_def do_open_def prog_simps closed_impl_def is_open_def new_fd_def register_descriptor_def invalid_socket_def)
  obtain s3 where s3: "move_construct 2 1 s2 = (Ok (), s3)" using move_construct_ok [OF history_ok [OF h2] i2(2,1)] by blast
  have h3: "socket_history s3 {}" by (rule socket_history.move [OF h2 i2(2,1) s3])
  have i3: "sv_impl s3 2 = Some (\<lparr>im_socket = 7, im_state = state_of_type sctp_type, im_ppid = 0, im_protocol = sctp_v4\<rparr>)"
    using s3 i2 by (auto simp: move_construct_def base_move_construct_def prog_simps)
  obtain s4 where s4: "release 2 s3 = (Ok (7, no_error), s4)" "sv_impl s4 2 \<noteq> None"
    using i3 by (simp add: release_def prog_simps is_open_def invalid_socket_def deregister_descriptor_def)
  have h4: "socket_history s4 {7}" using socket_history.release [OF h3 i3 s4(1)] by simp
  show ?thesis using descriptors_owned [OF h4] s4(2) h4 by blast
qed

section \<open>The synchronous receive\<close>

text \<open>
  The socket gives the fragments \<open>fs\<close> of a message on stream \<open>sn\<close> and then its last fragment, which carries
  the mark of the end; \<open>t\<close> and \<open>t'\<close> are the states of the system before and after.
\<close>

inductive delivers :: "'k lib \<Rightarrow> impl \<Rightarrow> int \<Rightarrow> 'k os \<Rightarrow> byte list list \<Rightarrow> byte list \<Rightarrow> 'k os \<Rightarrow> bool" for L i sn where
  last: "(\<And>old. sync_recv L (im_socket i) (im_state i) 8192 old t = (Ok (int (length f), r, no_error), t')) \<Longrightarrow> f \<noteq> [] \<Longrightarrow>
    take (length f) (rv_data r) = f \<Longrightarrow> sinfo_stream (rv_info r) = sn \<Longrightarrow> has_MSG_EOR (rv_flags r) \<Longrightarrow> delivers L i sn t [] f t'"
| more: "(\<And>old. sync_recv L (im_socket i) (im_state i) 8192 old t = (Ok (int (length g), r, no_error), u)) \<Longrightarrow> g \<noteq> [] \<Longrightarrow>
    take (length g) (rv_data r) = g \<Longrightarrow> sinfo_stream (rv_info r) = sn \<Longrightarrow> \<not> has_MSG_EOR (rv_flags r) \<Longrightarrow>
    delivers L i sn u fs f t' \<Longrightarrow> delivers L i sn t (g # fs) f t'"

definition kept :: "(int \<Rightarrow> byte list option) \<Rightarrow> int \<Rightarrow> byte list" where
  "kept m sn = (case m sn of None \<Rightarrow> [] | Some bs \<Rightarrow> bs)"

lemma receive_loop_delivers:
  "delivers L i sn t fs f t' \<Longrightarrow> sv_os s = t \<Longrightarrow>
   \<exists>s'. receive_loop L i sz old s = Some (Ok (take (nat sz) f, no_error), s') \<and> sv_impl s' = sv_impl s \<and>
     kept (sv_msgs s') sn = kept (sv_msgs s) sn @ concat fs"
proof (induction arbitrary: s old rule: delivers.induct)
  case (last t f r t')
  have sz: "take (nat sz) f = []" if "sz \<le> 0" using that by simp
  show ?case
    using last by (subst receive_loop.simps)
      (auto simp: on_os_def zoom_def Let_def mergeMessage_def getAndRemoveMessage_def prog_simps)
next
  case (more t g r u fs f t')
  define s1 where "s1 = s\<lparr>sv_os := u, sv_msgs := (sv_msgs s)(sn \<mapsto> kept (sv_msgs s) sn @ g)\<rparr>"
  have os: "sv_os s1 = u" by (simp add: s1_def)
  obtain s' where s': "receive_loop L i sz r s1 = Some (Ok (take (nat sz) f, no_error), s')" "sv_impl s' = sv_impl s1"
    "kept (sv_msgs s') sn = kept (sv_msgs s1) sn @ concat fs"
    using more.IH [of s1 r] os by blast
  have "receive_loop L i sz old s = receive_loop L i sz r s1"
    using more.hyps more.prems by (subst receive_loop.simps)
      (auto simp: on_os_def zoom_def Let_def appendMessage_def prog_simps s1_def kept_def)
  then show ?case using s' by (simp add: s1_def kept_def)
qed

text \<open>
  C28: the synchronous receive loses messages. When a message arrives in several fragments, the caller gets
  the last fragment only, as if it were the message; the others are appended to the memory of their
  stream, from which nothing ever takes them, so that it grows with every such message.
\<close>

theorem receive_last_fragment_only:
  assumes "sv_impl s a = Some i" "delivers L i sn (sv_os s) fs f t'"
  shows "\<exists>s'. receive L a sz s = (Ok (take (nat sz) f, no_error), s') \<and>
    kept (sv_msgs s') sn = kept (sv_msgs s) sn @ concat fs"
  using receive_loop_delivers [OF assms(2) refl, of sz nothing_received] assms(1)
  by (auto simp: receive_def bindp_def prog_simps)

text \<open>The message 1 2 3 in two fragments on stream 4.\<close>

definition two_fragments :: "nat lib" where
  "two_fragments = \<lparr>l_bindx = (\<lambda>_ _ _ t. (0, t)), l_connectx = (\<lambda>_ _ _ t. (0, t)), l_getladdrs = (\<lambda>_ t. ((0, []), t)),
     l_getpaddrs = (\<lambda>_ t. ((0, []), t)), l_poll = (\<lambda>_ t. (0, t)), l_send = (\<lambda>_ _ _ t. (0, t)),
     l_recvmsg = (\<lambda>_ _ t. ((if os_kernel t = 0 then 2 else 1, \<lparr>rv_data = if os_kernel t = 0 then [1, 2] else [3],
       rv_info = \<lparr>sinfo_stream = 4, sinfo_flags = 0, sinfo_ppid = 0\<rparr>, rv_flags = if os_kernel t = 0 then 0 else 0x80\<rparr>),
       t\<lparr>os_kernel := Suc (os_kernel t)\<rparr>)),
     l_poll_connect = (\<lambda>_ t. ((0, no_error), t)), l_getsockopt_error = (\<lambda>_ t. ((0, 0, no_error), t))\<rparr>"

theorem receive_last_fragment_only_witness:
  "\<exists>(s :: nat service) s'. receive two_fragments 1 100 s = (Ok ([3], no_error), s') \<and> kept (sv_msgs s) 4 = [] \<and> kept (sv_msgs s') 4 = [1, 2]"
proof -
  define i where "i = \<lparr>im_socket = 5, im_state = {StreamOriented}, im_ppid = 0, im_protocol = sctp_v4\<rparr>"
  define s :: "nat service" where "s = \<lparr>sv_impl = [1 \<mapsto> i], sv_registered = {5}, sv_open = {5}, sv_msgs = Map.empty,
    sv_os = \<lparr>os_errno = 0, os_kernel = 0\<rparr>\<rparr>"
  define r where "r k = (if k = 0 then \<lparr>rv_data = [1, 2], rv_info = \<lparr>sinfo_stream = 4, sinfo_flags = 0, sinfo_ppid = 0\<rparr>, rv_flags = 0\<rparr>
    else \<lparr>rv_data = [3], rv_info = \<lparr>sinfo_stream = 4, sinfo_flags = 0, sinfo_ppid = 0\<rparr>, rv_flags = 0x80\<rparr>)" for k :: nat
  have "delivers two_fragments i 4 \<lparr>os_errno = 0, os_kernel = 1\<rparr> [] [3] \<lparr>os_errno = 0, os_kernel = 2\<rparr>"
    by (rule delivers.last [where r = "r 1"]) (simp_all add: r_def sync_recv_def revc_def error_wrapper_def call_sctp_recv_def clear_last_error_def
        two_fragments_def i_def invalid_socket_def prog_simps no_error_def has_MSG_EOR_def)
  then have "delivers two_fragments i 4 (sv_os s) [[1, 2]] [3] \<lparr>os_errno = 0, os_kernel = 2\<rparr>"
    by (intro delivers.more [where r = "r 0"]) (simp_all add: r_def sync_recv_def revc_def error_wrapper_def call_sctp_recv_def clear_last_error_def
        two_fragments_def i_def invalid_socket_def prog_simps no_error_def has_MSG_EOR_def s_def)
  from receive_last_fragment_only [of s 1, OF _ this, of 100]
  obtain s' where "receive two_fragments 1 100 s = (Ok ([3], no_error), s')" "kept (sv_msgs s') 4 = kept (sv_msgs s) 4 @ [1, 2]"
    by (auto simp: s_def)
  moreover have "kept (sv_msgs s) 4 = []" by (simp add: s_def kept_def)
  ultimately show ?thesis by (intro exI [of _ s] exI [of _ s']) simp
qed

end
