(* ===== verification/SctpSocket.thy ===== *)
theory SctpSocket
  imports SctpService
begin

text \<open>
  The socket objects over the SCTP service: the acceptor that listens on several addresses
  (src/include/boostsctp/asio/sctp_basic_socket_acceptor.hpp) and the stream socket that connects to
  several (sctp_basic_stream_socket.hpp). The service classes in between (sctp_socket_acceptor_service.hpp,
  sctp_stream_socket_service.hpp) forward every call. An endpoint is its bytes; \<open>fam\<close> tells the protocol
  of an endpoint, which boost computes. What the system answers is an argument, as in SctpService.
\<close>

section \<open>Errors\<close>

definition throw_error :: "error_code \<Rightarrow> string \<Rightarrow> ('s, unit) prog" where
  "throw_error ec location = (if ec = no_error then ret () else raise (RuntimeError location))"

text \<open>\<open>front\<close> of an empty vector is undefined.\<close>

definition front :: "'a list \<Rightarrow> ('s, 'a) prog" where
  "front xs = lift_outcome (\<lambda>_. if xs = [] then Undef else Ok (hd xs))"

text \<open>The answers of the system to an \<open>open\<close>: descriptor, its error code, and that of the registration.\<close>

record opened =
  on_sock :: int
  on_ec :: error_code
  on_err :: int

definition open_with :: "nat \<Rightarrow> int \<Rightarrow> opened \<Rightarrow> ('k service, error_code) prog" where
  "open_with a proto r = open_socket a proto (on_sock r) (on_ec r) (on_err r)"

section \<open>The acceptor\<close>

text \<open>\<open>lis\<close> is \<open>socket_ops::listen\<close> of boost on a descriptor.\<close>

type_synonym 'k sock_op = "int \<Rightarrow> 'k os \<Rightarrow> error_code \<times> 'k os"

definition listen :: "nat \<Rightarrow> 'k sock_op \<Rightarrow> ('k service, error_code) prog" where
  "listen a lis = bindp (the_impl a) (\<lambda>i. on_os (call (lis (im_socket i))))"

definition acceptor_bind :: "'k lib \<Rightarrow> nat \<Rightarrow> byte list list \<Rightarrow> ('k service, unit) prog" where
  "acceptor_bind L a endpoints = bindp (bind_all L a endpoints) (\<lambda>ec. throw_error ec ''bind'')"

text \<open>
  The body of the constructor over several endpoints: \<open>opt\<close> sets the option \<open>reuse_address\<close>, \<open>lis\<close> listens.
\<close>

definition acceptor_start :: "'k lib \<Rightarrow> (byte list \<Rightarrow> int) \<Rightarrow> nat \<Rightarrow> byte list list \<Rightarrow> bool \<Rightarrow> opened \<Rightarrow> 'k sock_op \<Rightarrow> 'k sock_op \<Rightarrow>
    ('k service, unit) prog" where
  "acceptor_start L fam a endpoints reuse_addr r opt lis = bindp (front endpoints) (\<lambda>e. doM
     [bindp (open_with a (fam e) r) (\<lambda>ec. throw_error ec ''open''),
      if reuse_addr then bindp (set_option a None opt) (\<lambda>ec. throw_error ec ''set_option'') else ret (),
      acceptor_bind L a endpoints,
      bindp (listen a lis) (\<lambda>ec. throw_error ec ''listen'')])"

text \<open>The base class makes the closed socket; when the body throws, it deletes it.\<close>

definition acceptor_construct :: "'k lib \<Rightarrow> (byte list \<Rightarrow> int) \<Rightarrow> nat \<Rightarrow> byte list list \<Rightarrow> bool \<Rightarrow> opened \<Rightarrow> 'k sock_op \<Rightarrow> 'k sock_op \<Rightarrow>
    ('k service, unit) prog" where
  "acceptor_construct L fam a endpoints reuse_addr r opt lis = seqp (new_socket a sctp_v4)
     (\<lambda>s. case acceptor_start L fam a endpoints reuse_addr r opt lis s of
        (Throw x, s') \<Rightarrow> seqp (delete_socket a) (raise x) s'
      | res \<Rightarrow> res)"

text \<open>
  \<open>NioSctpConnectionAcceptor::bindAddress\<close>: the new acceptor at \<open>b\<close> replaces that at \<open>a\<close>, if there is one,
  which is deleted afterwards.
\<close>

definition bindAddress :: "'k lib \<Rightarrow> (byte list \<Rightarrow> int) \<Rightarrow> nat option \<Rightarrow> nat \<Rightarrow> byte list list \<Rightarrow> opened \<Rightarrow> 'k sock_op \<Rightarrow> 'k sock_op \<Rightarrow>
    ('k service, nat) prog" where
  "bindAddress L fam a b endpoints r opt lis = seqp (acceptor_construct L fam b endpoints True r opt lis)
     (seqp (case a of None \<Rightarrow> ret () | Some a \<Rightarrow> delete_socket a) (ret b))"

section \<open>The stream socket\<close>

text \<open>\<open>connect\<close> to one endpoint opens the socket first if it is closed.\<close>

definition stream_connect :: "'k lib \<Rightarrow> (byte list \<Rightarrow> int) \<Rightarrow> nat \<Rightarrow> byte list \<Rightarrow> opened \<Rightarrow> ('k service, error_code) prog" where
  "stream_connect L fam a endpoint r = bindp (the_impl a) (\<lambda>i.
     bindp (if is_open i then ret no_error else open_with a (fam endpoint) r) (\<lambda>ec.
       if ec \<noteq> no_error then ret ec else connect_one L a endpoint))"

definition stream_async_connect :: "'k lib \<Rightarrow> (byte list \<Rightarrow> int) \<Rightarrow> nat \<Rightarrow> byte list list \<Rightarrow> opened \<Rightarrow> error_code \<Rightarrow> ('k service, started) prog" where
  "stream_async_connect L fam a endpoints r nb = bindp (the_impl a) (\<lambda>i.
     bindp (if is_open i then ret no_error else bindp (front endpoints) (\<lambda>e. open_with a (fam e) r)) (\<lambda>ec.
       if ec \<noteq> no_error then ret (Posted ec) else async_connect L a endpoints nb))"

section \<open>Effects\<close>

lemma open_effect:
  assumes ok: "service_ok s G" and i: "sv_impl s a = Some i" "\<not> is_open i" and d: "on_sock r = invalid_socket \<or> on_sock r \<notin> sv_open s"
    and e: "on_sock r = invalid_socket \<longrightarrow> on_ec r \<noteq> no_error"
  shows "\<exists>ec s'. open_with a proto r s = (Ok ec, s') \<and> service_ok s' G \<and> (\<forall>b. b \<noteq> a \<longrightarrow> sv_impl s' b = sv_impl s b) \<and>
    sv_os s' = sv_os s \<and> (ec = no_error \<longleftrightarrow> on_sock r \<noteq> invalid_socket \<and> on_err r = 0) \<and>
    (if ec = no_error then \<exists>j. sv_impl s' a = Some j \<and> is_open j \<and> im_socket j = on_sock r \<and> sv_open s' = insert (on_sock r) (sv_open s)
     else sv_impl s' a = Some i \<and> sv_open s' = sv_open s)"
proof -
  obtain ec s' where r: "open_with a proto r s = (Ok ec, s')" "service_ok s' G"
    using open_ok [OF ok i(1) d, of proto "on_ec r" "on_err r"] by (auto simp: open_with_def)
  show ?thesis
  proof (cases "on_sock r = invalid_socket")
    case True
    then have "open_with a proto r s = (Ok (on_ec r), s)"
      using i e by (simp add: open_with_def open_socket_def do_open_def new_fd_def prog_simps)
    then show ?thesis using e True i ok by simp
  next
    case False
    note v = False d i
    show ?thesis
    proof (cases "on_err r = 0")
      case True
      then have "ec = no_error" "sv_open s' = insert (on_sock r) (sv_open s)" "sv_os s' = sv_os s"
        "sv_impl s' = (sv_impl s)(a \<mapsto> i\<lparr>im_socket := on_sock r, im_state := state_of_type sctp_type, im_protocol := proto\<rparr>)"
        using v r(1) by (auto simp: open_with_def open_socket_def do_open_def new_fd_def register_descriptor_def prog_simps)
      then show ?thesis using r False True by (simp add: is_open_def)
    next
      case e: False
      then have "ec \<noteq> no_error" "sv_open s' = sv_open s" "sv_impl s' = sv_impl s" "sv_os s' = sv_os s"
        using v r(1) by (auto simp: open_with_def open_socket_def do_open_def new_fd_def register_descriptor_def close_fd_def prog_simps error_values)
      then show ?thesis using r i e by simp
    qed
  qed
qed


text \<open>What does not touch the sockets.\<close>

definition same_sockets :: "'k service \<Rightarrow> 'k service \<Rightarrow> bool" where
  "same_sockets s s' \<longleftrightarrow> sv_impl s' = sv_impl s \<and> sv_open s' = sv_open s \<and> sv_registered s' = sv_registered s"

lemma same_sockets_ok: "same_sockets s s' \<Longrightarrow> service_ok s G \<Longrightarrow> service_ok s' G"
  by (simp add: same_sockets_def service_ok_def)

lemma same_sockets_refl: "same_sockets s s" and same_sockets_os: "same_sockets s (s\<lparr>sv_os := t\<rparr>)"
  by (simp_all add: same_sockets_def)

lemma on_os_run: "m (sv_os s) = (r, t) \<Longrightarrow> on_os m s = (r, s\<lparr>sv_os := t\<rparr>)"
  by (simp add: on_os_def zoom_def)

text \<open>What the system does for an acceptor on the descriptor \<open>d\<close>, every call with success.\<close>

definition listens :: "'k lib \<Rightarrow> 'k sock_op \<Rightarrow> 'k sock_op \<Rightarrow> int \<Rightarrow> byte list list \<Rightarrow> bool \<Rightarrow> 'k os \<Rightarrow> 'k os \<Rightarrow> bool" where
  "listens L opt lis d endpoints reuse_addr t t' \<longleftrightarrow> (\<exists>t1 t2.
     (if reuse_addr then opt d t = (no_error, t1) else t1 = t) \<and>
     concat endpoints \<noteq> [] \<and> l_bindx L d (concat endpoints) (int (length endpoints)) (clear_last_error t1) = (0, t2) \<and>
     lis d t2 = (no_error, t'))"

text \<open>A call of \<open>sctp_bindx\<close> that fails sets \<open>errno\<close>.\<close>

definition bindx_sets_errno :: "'k lib \<Rightarrow> bool" where
  "bindx_sets_errno L \<longleftrightarrow> (\<forall>d addr n t. case l_bindx L d addr n t of (r, t') \<Rightarrow> r \<noteq> 0 \<longrightarrow> os_errno t' \<noteq> 0)"

lemma bind_step:
  assumes "sv_impl s a = Some i" "im_socket i \<noteq> invalid_socket" "bindx_sets_errno L" "endpoints \<noteq> []"
    and "l_bindx L (im_socket i) (concat endpoints) (int (length endpoints)) (clear_last_error (sv_os s)) = (n, t)"
  shows "acceptor_bind L a endpoints s =
    (if concat endpoints = [] then (Throw (RuntimeError ''bind''), s)
     else (if n = 0 then Ok () else Throw (RuntimeError ''bind''), s\<lparr>sv_os := t\<rparr>))"
proof (cases "concat endpoints = []")
  case True
  then have "bind_all L a endpoints s = (Ok invalid_argument, s)"
    using assms(1) by (simp add: bind_all_def create_sock_addr_list_def prog_simps del: concat_eq_Nil_conv)
  then show ?thesis using True by (simp add: acceptor_bind_def prog_simps throw_error_def error_values del: concat_eq_Nil_conv)
next
  case False
  have "n \<noteq> 0 \<Longrightarrow> os_errno t \<noteq> 0"
    using assms(3) [unfolded bindx_sets_errno_def, rule_format, of "im_socket i" "concat endpoints" "int (length endpoints)"
        "clear_last_error (sv_os s)"] assms(5) by simp
  then have "on_os (bind L (im_socket i) (concat endpoints) (int (length endpoints))) s = (Ok (n, if n = 0 then no_error else Sys (os_errno t)), s\<lparr>sv_os := t\<rparr>)"
    using assms(2,5) by (intro on_os_run) (simp add: bind_def error_wrapper_def prog_simps)
  then have "bind_all L a endpoints s = (Ok (if n = 0 then no_error else Sys (os_errno t)), s\<lparr>sv_os := t\<rparr>)"
    using assms(1,4) False by (simp add: bind_all_def create_sock_addr_list_def prog_simps del: concat_eq_Nil_conv)
  then show ?thesis using False \<open>n \<noteq> 0 \<Longrightarrow> os_errno t \<noteq> 0\<close>
    by (simp add: acceptor_bind_def prog_simps throw_error_def no_error_def del: concat_eq_Nil_conv)
qed

lemma option_step:
  assumes "sv_impl s a = Some i" "(if reuse_addr then opt (im_socket i) (sv_os s) else (no_error, sv_os s)) = (ec, t)"
  shows "(if reuse_addr then bindp (set_option a None opt) (\<lambda>ec. throw_error ec ''set_option'') else ret ()) s =
    (if ec = no_error then Ok () else Throw (RuntimeError ''set_option''), s\<lparr>sv_os := t\<rparr>)"
proof (cases reuse_addr)
  case True
  then have "call (opt (im_socket i)) (sv_os s) = (Ok ec, t)" using assms(2) by (simp add: call_def)
  then show ?thesis using on_os_run [of "call (opt (im_socket i))"] assms(1) True by (simp add: set_option_def prog_simps throw_error_def)
next
  case False
  then show ?thesis using assms(2) by (simp add: ret_run)
qed

lemma listen_step:
  assumes "sv_impl s a = Some i" "lis (im_socket i) (sv_os s) = (ec, t)"
  shows "bindp (listen a lis) (\<lambda>ec. throw_error ec ''listen'') s =
    (if ec = no_error then Ok () else Throw (RuntimeError ''listen''), s\<lparr>sv_os := t\<rparr>)"
  using assms on_os_run [of "call (lis (im_socket i))" s "Ok ec" t]
  by (auto simp: listen_def prog_simps throw_error_def call_def)

lemma after_open:
  assumes i: "sv_impl s a = Some i" "im_socket i = d" "d \<noteq> invalid_socket" and L: "bindx_sets_errno L" and ne: "endpoints \<noteq> []"
  shows "\<exists>res t. doM [if reuse_addr then bindp (set_option a None opt) (\<lambda>ec. throw_error ec ''set_option'') else ret (),
      acceptor_bind L a endpoints, bindp (listen a lis) (\<lambda>ec. throw_error ec ''listen'')] s = (res, s\<lparr>sv_os := t\<rparr>) \<and>
    (if \<exists>t'. listens L opt lis d endpoints reuse_addr (sv_os s) t' then res = Ok () \<and> listens L opt lis d endpoints reuse_addr (sv_os s) t
     else \<exists>l. res = Throw (RuntimeError l))"
proof -
  obtain ec1 t1 where 1: "(if reuse_addr then opt d (sv_os s) else (no_error, sv_os s)) = (ec1, t1)" by fastforce
  obtain n t2 where 2: "l_bindx L d (concat endpoints) (int (length endpoints)) (clear_last_error t1) = (n, t2)" by fastforce
  obtain ec3 t3 where 3: "lis d t2 = (ec3, t3)" by fastforce
  have l: "listens L opt lis d endpoints reuse_addr (sv_os s) t' \<longleftrightarrow> ec1 = no_error \<and> concat endpoints \<noteq> [] \<and> n = 0 \<and> ec3 = no_error \<and> t' = t3" for t'
    using 1 2 3 unfolding listens_def by (auto split: if_splits)
  define m where "m = (if reuse_addr then bindp (set_option a None opt) (\<lambda>ec. throw_error ec ''set_option'') else ret ())"
  let ?s1 = "s\<lparr>sv_os := t1\<rparr>" and ?s2 = "s\<lparr>sv_os := t2\<rparr>"
  have s1: "m s = (if ec1 = no_error then Ok () else Throw (RuntimeError ''set_option''), ?s1)"
    unfolding m_def by (rule option_step [OF i(1)]) (simp only: i(2) 1)
  note s2 = bind_step [of ?s1 a i L endpoints n t2] and s3 = listen_step [of ?s2 a i lis ec3 t3]
  show ?thesis
  proof (cases "ec1 = no_error \<and> concat endpoints \<noteq> [] \<and> n = 0")
    case True
    then show ?thesis using s1 s2 s3 i L ne 1 2 3 unfolding l m_def [symmetric]
      by (intro exI [of _ "if ec3 = no_error then Ok () else Throw (RuntimeError ''listen'')"] exI [of _ t3]) (simp add: seqp_Ok del: concat_eq_Nil_conv)
  next
    case False
    then have "\<exists>x t. doM [if reuse_addr then bindp (set_option a None opt) (\<lambda>ec. throw_error ec ''set_option'') else ret (),
        acceptor_bind L a endpoints, bindp (listen a lis) (\<lambda>ec. throw_error ec ''listen'')] s = (Throw (RuntimeError x), s\<lparr>sv_os := t\<rparr>)"
      using s1 s2 i L ne 1 2 unfolding m_def [symmetric]
      by (cases "ec1 = no_error") (auto simp: seqp_def bindp_def simp del: concat_eq_Nil_conv)
    then show ?thesis using False unfolding l by auto
  qed
qed

lemma delete_effect:
  assumes "service_ok s G" "sv_impl s a = Some i"
  shows "\<exists>s'. delete_socket a s = (Ok (), s') \<and> service_ok s' G \<and> sv_impl s' = (sv_impl s)(a := None) \<and>
    sv_open s' = (if is_open i then sv_open s - {im_socket i} else sv_open s)"
proof -
  obtain s' where "delete_socket a s = (Ok (), s')" "service_ok s' G" using delete_ok [OF assms] by blast
  then show ?thesis using impl_destroy_run [OF assms] assms(2) by (auto simp: delete_socket_def prog_simps sock_at fd_of_def)
qed

text \<open>The object is deleted again, whether its descriptor was opened or not.\<close>

lemma acceptor_undone:
  assumes ok: "service_ok s1 G" and a: "sv_impl s a = None" and b: "\<And>b. b \<noteq> a \<Longrightarrow> sv_impl s1 b = sv_impl s b"
    and j: "if ec = no_error then \<exists>j. sv_impl s1 a = Some j \<and> is_open j \<and> im_socket j = d \<and> sv_open s1 = insert d (sv_open s)
       else sv_impl s1 a = Some (closed_impl sctp_v4) \<and> sv_open s1 = sv_open s"
    and d: "d = invalid_socket \<or> d \<notin> sv_open s" and t: "same_sockets s1 t"
  shows "\<exists>s'. delete_socket a t = (Ok (), s') \<and> service_ok s' G \<and> sv_impl s' = sv_impl s \<and> sv_open s' = sv_open s"
proof -
  obtain j where j: "sv_impl s1 a = Some j" "sv_open s1 - (if is_open j then {im_socket j} else {}) = sv_open s"
  proof (cases "ec = no_error")
    case True
    then obtain j where j: "sv_impl s1 a = Some j" "is_open j" "im_socket j = d" "sv_open s1 = insert d (sv_open s)"
      using assms(4) by auto
    then have "d \<notin> sv_open s" using d by (auto simp: is_open_def)
    then show ?thesis using that j by simp
  next
    case False
    then show ?thesis using that assms(4) by (simp add: closed_impl_def is_open_def)
  qed
  have f: "service_ok t G" "sv_impl t a = Some j" "sv_impl t = sv_impl s1" "sv_open t = sv_open s1"
    using t same_sockets_ok [OF t ok] j(1) by (simp_all add: same_sockets_def)
  have "(sv_impl s1)(a := None) = sv_impl s" using a b by (auto simp: fun_eq_iff)
  then show ?thesis using delete_effect [OF f(1,2)] j(2) f(3,4) by (auto split: if_splits)
qed

lemma acceptor_opened:
  assumes "service_ok s G" "sv_impl s a = None" "on_sock r = invalid_socket \<or> on_sock r \<notin> sv_open s"
    and "on_sock r = invalid_socket \<longrightarrow> on_ec r \<noteq> no_error" "endpoints \<noteq> []"
    and rest_def: "rest = doM [if reuse_addr then bindp (set_option a None opt) (\<lambda>ec. throw_error ec ''set_option'') else ret (),
      acceptor_bind L a endpoints, bindp (listen a lis) (\<lambda>ec. throw_error ec ''listen'')]"
  shows "\<exists>ec s1. service_ok s1 G \<and> sv_os s1 = sv_os s \<and> (ec = no_error \<longleftrightarrow> on_sock r \<noteq> invalid_socket \<and> on_err r = 0) \<and>
    acceptor_construct L fam a endpoints reuse_addr r opt lis s =
      (case seqp (throw_error ec ''open'') rest s1 of (Throw x, s') \<Rightarrow> seqp (delete_socket a) (raise x) s' | res \<Rightarrow> res) \<and>
    (ec = no_error \<longrightarrow> (\<exists>j. sv_impl s1 a = Some j \<and> is_open j \<and> im_socket j = on_sock r) \<and> sv_open s1 = insert (on_sock r) (sv_open s)) \<and>
    (\<forall>t. same_sockets s1 t \<longrightarrow> (\<exists>s'. delete_socket a t = (Ok (), s') \<and> service_ok s' G \<and> sv_impl s' = sv_impl s \<and> sv_open s' = sv_open s))"
proof -
  define s0 where "s0 = s\<lparr>sv_impl := (sv_impl s)(a \<mapsto> closed_impl sctp_v4)\<rparr>"
  have new: "new_socket a sctp_v4 s = (Ok (), s0)" by (simp add: new_socket_def modify_run s0_def)
  have ok0: "service_ok s0 G" using create_ok [OF assms(1,2), of sctp_v4] new by simp
  have i0: "sv_impl s0 a = Some (closed_impl sctp_v4)" "\<not> is_open (closed_impl sctp_v4)" "sv_open s0 = sv_open s" "sv_os s0 = sv_os s"
    by (simp_all add: s0_def closed_impl_def is_open_def)
  obtain e es where Cons: "endpoints = e # es" using assms(5) by (cases endpoints) auto
  have d0: "on_sock r = invalid_socket \<or> on_sock r \<notin> sv_open s0" using assms(3) i0(3) by simp
  obtain ec s1 where s1: "open_with a (fam e) r s0 = (Ok ec, s1)" "service_ok s1 G" "\<forall>b. b \<noteq> a \<longrightarrow> sv_impl s1 b = sv_impl s0 b"
    "sv_os s1 = sv_os s0" "ec = no_error \<longleftrightarrow> on_sock r \<noteq> invalid_socket \<and> on_err r = 0"
    "if ec = no_error then \<exists>j. sv_impl s1 a = Some j \<and> is_open j \<and> im_socket j = on_sock r \<and> sv_open s1 = insert (on_sock r) (sv_open s0)
     else sv_impl s1 a = Some (closed_impl sctp_v4) \<and> sv_open s1 = sv_open s0"
    using open_effect [OF ok0 i0(1,2) d0 assms(4), of "fam e"] by (elim exE conjE) (rule that)
  have start: "acceptor_start L fam a endpoints reuse_addr r opt lis s0 = seqp (throw_error ec ''open'') rest s1"
    using Cons s1(1) by (simp add: acceptor_start_def front_def prog_simps seqp_def bindp_def rest_def)
  have gone: "\<exists>s'. delete_socket a t = (Ok (), s') \<and> service_ok s' G \<and> sv_impl s' = sv_impl s \<and> sv_open s' = sv_open s"
    if t: "same_sockets s1 t" for t
  proof (rule acceptor_undone [OF s1(2) assms(2) _ s1(6) [unfolded i0(3)] _ t])
    show "\<And>b. b \<noteq> a \<Longrightarrow> sv_impl s1 b = sv_impl s b" using s1(3) by (simp add: s0_def)
  qed (use assms(3) in simp)
  have "acceptor_construct L fam a endpoints reuse_addr r opt lis s =
    (case seqp (throw_error ec ''open'') rest s1 of (Throw x, s') \<Rightarrow> seqp (delete_socket a) (raise x) s' | res \<Rightarrow> res)"
    using new start by (simp add: acceptor_construct_def prog_simps)
  moreover have "ec = no_error \<longrightarrow> (\<exists>j. sv_impl s1 a = Some j \<and> is_open j \<and> im_socket j = on_sock r) \<and> sv_open s1 = insert (on_sock r) (sv_open s)"
    using s1(6) i0(3) by auto
  ultimately show ?thesis using s1(2,4,5) i0(4) gone by (intro exI [of _ ec] exI [of _ s1]) simp
qed

section \<open>Properties\<close>

text \<open>
  C16: the SCTP acceptor is made whole or not at all. The constructor returns exactly when every call of
  the system succeeds: the descriptor is created and registered, the option is set if it was asked for,
  \<open>sctp_bindx\<close> gets the bytes and the number of all the addresses, and \<open>listen\<close> follows; the system
  is then in the state those calls leave, and the object owns the new descriptor. When any of them fails
  it throws, the object is gone and the process has the descriptors it had before. With no address to listen
  on, which happens when no name resolves, it is undefined. (A failing \<open>sctp_bindx\<close> sets \<open>errno\<close>, and a
  failing \<open>socket\<close> gives an error code.)
\<close>

theorem acceptor_all_or_nothing:
  assumes "service_ok s G" "sv_impl s a = None" "on_sock r = invalid_socket \<or> on_sock r \<notin> sv_open s"
    and "on_sock r = invalid_socket \<Longrightarrow> on_ec r \<noteq> no_error" "bindx_sets_errno L"
  shows "\<exists>res s'. acceptor_construct L fam a endpoints reuse_addr r opt lis s = (res, s') \<and>
    (if endpoints = [] then res = Undef
     else if on_sock r \<noteq> invalid_socket \<and> on_err r = 0 \<and> (\<exists>t. listens L opt lis (on_sock r) endpoints reuse_addr (sv_os s) t)
     then res = Ok () \<and> listens L opt lis (on_sock r) endpoints reuse_addr (sv_os s) (sv_os s') \<and>
       service_ok s' G \<and> sock s' a = Some (on_sock r) \<and> sv_open s' = insert (on_sock r) (sv_open s)
     else (\<exists>l. res = Throw (RuntimeError l)) \<and> service_ok s' G \<and> sv_impl s' = sv_impl s \<and> sv_open s' = sv_open s)"
proof (cases "endpoints = []")
  case True
  then show ?thesis by (simp add: acceptor_construct_def acceptor_start_def front_def new_socket_def prog_simps)
next
  case ne: False
  have e: "on_sock r = invalid_socket \<longrightarrow> on_ec r \<noteq> no_error" using assms(4) by blast
  let ?rest = "doM [if reuse_addr then bindp (set_option a None opt) (\<lambda>ec. throw_error ec ''set_option'') else ret (),
    acceptor_bind L a endpoints, bindp (listen a lis) (\<lambda>ec. throw_error ec ''listen'')]"
  obtain ec s1 where s1: "service_ok s1 G" "sv_os s1 = sv_os s" "ec = no_error \<longleftrightarrow> on_sock r \<noteq> invalid_socket \<and> on_err r = 0"
    and build: "acceptor_construct L fam a endpoints reuse_addr r opt lis s =
      (case seqp (throw_error ec ''open'') ?rest s1 of (Throw x, s') \<Rightarrow> seqp (delete_socket a) (raise x) s' | res \<Rightarrow> res)"
    and good: "ec = no_error \<longrightarrow> (\<exists>j. sv_impl s1 a = Some j \<and> is_open j \<and> im_socket j = on_sock r) \<and> sv_open s1 = insert (on_sock r) (sv_open s)"
    and gone: "\<And>t. same_sockets s1 t \<Longrightarrow>
      \<exists>s'. delete_socket a t = (Ok (), s') \<and> service_ok s' G \<and> sv_impl s' = sv_impl s \<and> sv_open s' = sv_open s"
    using acceptor_opened [OF assms(1-3) e ne refl, of L fam reuse_addr opt lis] by (elim exE conjE) (rule that; blast)
  show ?thesis
  proof (cases "ec = no_error")
    case False
    then show ?thesis using gone [OF same_sockets_refl] s1(3) ne unfolding build by (auto simp: throw_error_def prog_simps)
  next
    case True
    then obtain j where j: "sv_impl s1 a = Some j" "is_open j" "im_socket j = on_sock r" "sv_open s1 = insert (on_sock r) (sv_open s)"
      using good by auto
    have v: "on_sock r \<noteq> invalid_socket" "on_err r = 0" using True s1(3) by simp_all
    obtain res t where t: "?rest s1 = (res, s1\<lparr>sv_os := t\<rparr>)"
      "if \<exists>t'. listens L opt lis (on_sock r) endpoints reuse_addr (sv_os s) t'
       then res = Ok () \<and> listens L opt lis (on_sock r) endpoints reuse_addr (sv_os s) t else \<exists>l. res = Throw (RuntimeError l)"
      using after_open [OF j(1,3) v(1) assms(5) ne, of reuse_addr opt lis] unfolding s1(2) by blast
    have rest: "seqp (throw_error ec ''open'') ?rest s1 = (res, s1\<lparr>sv_os := t\<rparr>)" using t(1) True by (simp add: throw_error_def prog_simps)
    show ?thesis
    proof (cases "\<exists>t'. listens L opt lis (on_sock r) endpoints reuse_addr (sv_os s) t'")
      case True
      have "sock (s1\<lparr>sv_os := t\<rparr>) a = Some (on_sock r)" "sv_open (s1\<lparr>sv_os := t\<rparr>) = insert (on_sock r) (sv_open s)"
        using j by (simp_all add: sock_at fd_of_def)
      then show ?thesis using t(2) True v ne same_sockets_ok [OF same_sockets_os s1(1)] unfolding build rest by simp
    next
      case False
      then obtain l where "res = Throw (RuntimeError l)" using t(2) by auto
      then show ?thesis using gone [OF same_sockets_os, of t] False ne unfolding build rest by (auto simp: prog_simps)
    qed
  qed
qed

text \<open>The address is in use: nothing of the attempt is left.\<close>

definition busy_lib :: "unit lib" where
  "busy_lib = \<lparr>l_bindx = (\<lambda>_ _ _ t. (- 1, t\<lparr>os_errno := 98\<rparr>)), l_connectx = (\<lambda>_ _ _ t. (- 1, t)), l_getladdrs = (\<lambda>_ t. ((0, []), t)),
     l_getpaddrs = (\<lambda>_ t. ((0, []), t)), l_poll = (\<lambda>_ t. (0, t)), l_send = (\<lambda>_ _ _ t. (0, t)),
     l_recvmsg = (\<lambda>_ _ t. ((0, nothing_received), t)), l_poll_connect = (\<lambda>_ t. ((0, no_error), t)),
     l_getsockopt_error = (\<lambda>_ t. ((0, 0, no_error), t))\<rparr>"

definition one_owned :: "unit service" where
  "one_owned = \<lparr>sv_impl = Map.empty, sv_registered = {}, sv_open = {7}, sv_msgs = Map.empty, sv_os = \<lparr>os_errno = 0, os_kernel = ()\<rparr>\<rparr>"

text \<open>The same with a system where every call succeeds.\<close>

definition fine_lib :: "unit lib" where
  "fine_lib = busy_lib\<lparr>l_bindx := (\<lambda>_ _ _ t. (0, t))\<rparr>"

lemma libs_errno: "bindx_sets_errno busy_lib" "bindx_sets_errno fine_lib"
  by (simp_all add: bindx_sets_errno_def busy_lib_def fine_lib_def)

theorem acceptor_all_or_nothing_witness:
  defines "fine \<equiv> \<lambda>(d :: int) (t :: unit os). (no_error, t)"
  shows "(\<exists>s' l. acceptor_construct busy_lib (\<lambda>_. sctp_v4) 1 [[2, 0, 80]] True \<lparr>on_sock = 8, on_ec = no_error, on_err = 0\<rparr> fine fine one_owned =
     (Throw (RuntimeError l), s') \<and> sv_open s' = {7} \<and> sv_impl s' 1 = None) \<and>
   (\<exists>s'. acceptor_construct fine_lib (\<lambda>_. sctp_v4) 1 [[2, 0, 80]] True \<lparr>on_sock = 8, on_ec = no_error, on_err = 0\<rparr> fine fine one_owned =
     (Ok (), s') \<and> sv_open s' = {8, 7} \<and> sock s' 1 = Some 8)"
proof -
  let ?r = "\<lparr>on_sock = 8, on_ec = no_error, on_err = 0\<rparr>"
  have ok: "service_ok one_owned {7}" by (auto simp: service_ok_def owners_ok_def one_owned_def socks_def fd_of_def ran_def invalid_socket_def)
  have b: "\<not> listens busy_lib fine fine 8 [[2, 0, 80]] True (sv_os one_owned) t" for t
    by (simp add: listens_def busy_lib_def)
  have f: "listens fine_lib fine fine 8 [[2, 0, 80]] True (sv_os one_owned) (clear_last_error (sv_os one_owned))"
    by (simp add: listens_def fine_lib_def fine_def)
  have r: "on_sock ?r \<noteq> invalid_socket \<and> on_err ?r = 0" "on_sock ?r \<notin> sv_open one_owned" "sv_impl one_owned 1 = None"
    by (simp_all add: invalid_socket_def one_owned_def)
  note w = acceptor_all_or_nothing [OF ok r(3), of ?r _ "\<lambda>_. sctp_v4" "[[2, 0, 80]]" True fine fine]
  obtain s1 l where s1: "acceptor_construct busy_lib (\<lambda>_. sctp_v4) 1 [[2, 0, 80]] True ?r fine fine one_owned = (Throw (RuntimeError l), s1)"
    "sv_impl s1 = sv_impl one_owned" "sv_open s1 = sv_open one_owned"
    using w [OF _ _ libs_errno(1)] b r by (auto split: if_splits)
  obtain s2 where s2: "acceptor_construct fine_lib (\<lambda>_. sctp_v4) 1 [[2, 0, 80]] True ?r fine fine one_owned = (Ok (), s2)"
    "sock s2 1 = Some 8" "sv_open s2 = insert 8 (sv_open one_owned)"
    using w [OF _ _ libs_errno(2)] f r by (auto split: if_splits)
  have "sv_open one_owned = {7}" "sv_impl one_owned 1 = None" by (simp_all add: one_owned_def)
  then show ?thesis using s1 s2 by auto
qed

end
