(* ===== verification/Recovery.thy ===== *)
theory Recovery
  imports Connection
begin

text \<open>
  \<open>AutorecoveringConnection\<close> (src/common/net/AutorecoveringConnection.hpp): a handler that joins the
  pipeline of the connection it wraps and connects again, a second later, whenever that becomes inactive.
\<close>

section \<open>Operations\<close>

text \<open>
  \<open>ar_installed\<close>: the handler is in the pipeline. \<open>inner\<close> is the state of the application's handlers,
  which come before it.
\<close>

record 'i recovery =
  ar_stopped :: bool
  ar_retry :: bool
  ar_installed :: bool
  inner :: 'i

record 'i application =
  us_read :: "heap_buf \<Rightarrow> 'i \<Rightarrow> heap_buf \<times> 'i \<times> bool outcome"
  us_active :: "'i \<Rightarrow> 'i"
  us_inactive :: "'i \<Rightarrow> 'i"

definition AutorecoveringConnection_new :: "'i \<Rightarrow> 'i recovery" where
  "AutorecoveringConnection_new i = \<lparr>ar_stopped = False, ar_retry = False, ar_installed = False, inner = i\<rparr>"

definition upd_recovery :: "('i recovery \<Rightarrow> 'i recovery) \<Rightarrow> ('i recovery connection, unit) prog" where
  "upd_recovery f = modify (handlers_update f)"

text \<open>\<open>addLast\<close> refuses a name that is in the pipeline.\<close>

definition add_handler :: "('i recovery connection, unit) prog" where
  "add_handler = seqp (throw_if (\<lambda>s. ar_installed (handlers s)) (RuntimeError ''Duplicate handler name''))
     (upd_recovery (ar_installed_update (\<lambda>_. True)))"

definition ar_connect :: "string \<times> string \<Rightarrow> ('i recovery connection, unit) prog" where
  "ar_connect addr = seqp (ifp (\<lambda>s. \<not> ar_retry (handlers s)) add_handler (ret ())) (tcp_connect (fst addr) (snd addr))"

definition connectToServerAfterSeconds :: "int \<Rightarrow> ('i recovery connection, unit) prog" where
  "connectToServerAfterSeconds seconds = seqp (upd_recovery (ar_retry_update (\<lambda>_. True)))
     (if seconds \<le> 0 then bindp (asks cn_remote) ar_connect else begin_op Timer)"

definition doReconnect :: "('i recovery connection, unit) prog" where
  "doReconnect = bindp (asks cn_remote) ar_connect"

definition ar_channelInactive :: "('i recovery connection, unit) prog" where
  "ar_channelInactive = ifp (\<lambda>s. \<not> ar_stopped (handlers s)) (connectToServerAfterSeconds 1) (ret ())"

definition ar_stop :: "('i recovery connection, unit) prog" where
  "ar_stop = seqp (upd_recovery (ar_stopped_update (\<lambda>_. True))) connection_stop"

text \<open>The pipeline: the application's handlers, then this one, if installed.\<close>

definition recovery_pipe :: "'i application \<Rightarrow> 'i recovery pipe_env" where
  "recovery_pipe U = \<lparr>
     pe_read = (\<lambda>m h. case us_read U m (inner h) of (m', i, closes) \<Rightarrow> (m', h\<lparr>inner := i\<rparr>, closes)),
     pe_active = upd_recovery (inner_update (us_active U)),
     pe_inactive = seqp (upd_recovery (inner_update (us_inactive U)))
       (ifp (\<lambda>s. ar_installed (handlers s)) ar_channelInactive (ret ()))\<rparr>"

section \<open>Runs\<close>

text \<open>The asynchronous operation under way completes, or the application stops the connection.\<close>

datatype completion = Resolved bool | Connected bool | Received "byte list" | Read_failed | Expired | Stopped

definition pop_pending :: "('h connection, unit) prog" where
  "pop_pending = modify (\<lambda>s. s\<lparr>cn_pending := tl (cn_pending s)\<rparr>)"

fun rc_step :: "'i application \<Rightarrow> completion \<Rightarrow> ('i recovery connection, unit) prog" where
  "rc_step U (Resolved ok) = seqp pop_pending (tcp_handleResolved (recovery_pipe U) ok)"
| "rc_step U (Connected ok) = seqp pop_pending (tcp_handleConnected (recovery_pipe U) ok)"
| "rc_step U (Received bs) = tcp_read (recovery_pipe U) bs"
| "rc_step U Read_failed = seqp pop_pending (tcp_handleRead (recovery_pipe U) None)"
| "rc_step U Expired = seqp pop_pending doReconnect"
| "rc_step U Stopped = ar_stop"

text \<open>What can complete now.\<close>

fun can_happen :: "completion \<Rightarrow> 'h connection \<Rightarrow> bool" where
  "can_happen (Resolved ok) s = (cn_pending s = [Resolving])"
| "can_happen (Connected ok) s = (cn_pending s = [Connecting])"
| "can_happen (Received bs) s = fits bs s"
| "can_happen Read_failed s = (\<exists>n. cn_pending s = [Reading n])"
| "can_happen Expired s = (cn_pending s = [Timer])"
| "can_happen Stopped s = True"

inductive rc_run :: "'i application \<Rightarrow> completion list \<Rightarrow> 'i recovery connection \<Rightarrow> 'i recovery connection \<Rightarrow> bool" for U where
  none: "rc_run U [] s s"
| more: "can_happen c s \<Longrightarrow> rc_step U c s = (r, s1) \<Longrightarrow> rc_run U cs s1 s2 \<Longrightarrow> rc_run U (c # cs) s s2"

inductive_cases rc_run_NilE: "rc_run U [] s s'"
inductive_cases rc_run_ConsE: "rc_run U (c # cs) s s'"

text \<open>An application that reads what it is given, or keeps it, and leaves the connection open.\<close>

definition steady :: "'i application \<Rightarrow> bool" where
  "steady U \<longleftrightarrow> (\<forall>m i m' i' closes. message m \<longrightarrow> refCnt m = 1 \<longrightarrow> us_read U m i = (m', i', closes) \<longrightarrow>
     takes_all m m' \<and> closes = Ok False)"

section \<open>The invariant\<close>

definition under_way :: "'i recovery connection \<Rightarrow> bool" where
  "under_way s \<longleftrightarrow>
     (case cn_pending s of
        [] \<Rightarrow> \<not> cn_connected s \<and> cn_stopped s
      | [Reading n] \<Rightarrow> reading s
      | [Timer] \<Rightarrow> \<not> cn_connected s \<and> ar_retry (handlers s)
      | [_] \<Rightarrow> \<not> cn_connected s
      | _ \<Rightarrow> False)"

definition rc_inv :: "string \<times> string \<Rightarrow> bool \<Rightarrow> 'i recovery connection \<Rightarrow> bool" where
  "rc_inv addr st s \<longleftrightarrow> handle_fine s \<and> buf_fine s \<and> cn_remote s = addr \<and> ar_installed (handlers s) \<and>
     ar_stopped (handlers s) = st \<and> cn_stopped s = st \<and> under_way s"

lemma inactive_inv:
  assumes "rc_inv addr st s" "cn_pending s = [x]" "\<not> cn_connected s"
    and "s1 = s\<lparr>cn_pending := [], cn_buf := b, recvHandle := h\<rparr>" "buf_fine s1" "handle_fine s1"
  shows "\<exists>s'. pe_inactive (recovery_pipe U) s1 = (Ok (), s') \<and> rc_inv addr st s'"
  using assms
  by (auto simp: recovery_pipe_def seqp_def bindp_def upd_recovery_def modify_run ifp_run ret_run ar_channelInactive_def
      connectToServerAfterSeconds_def begin_op_def rc_inv_def under_way_def handle_fine_def buf_fine_def)

lemma received_inv:
  assumes "steady U" "rc_inv addr st s" "fits bs s"
  shows "\<exists>s'. tcp_read (recovery_pipe U) bs s = (Ok (), s') \<and> rc_inv addr st s'"
proof -
  define flags where "flags h = (ar_stopped h, ar_retry h, ar_installed h)" for h :: "'a recovery"
  have c: "consuming_pipeline (recovery_pipe U) (\<lambda>_ h. flags h = flags (handlers s)) (\<lambda>_. True)"
    using assms(1) by unfold_locales (auto simp: steady_def recovery_pipe_def flags_def split: prod.splits)
  have rd: "reading s" using assms(2,3) by (auto simp: rc_inv_def under_way_def fits_def split: list.splits async_op.splits)
  obtain s' where s': "tcp_read (recovery_pipe U) bs s = (Ok (), s')" "reading s'" "flags (handlers s') = flags (handlers s)"
    "cn_stopped s' = cn_stopped s" "cn_remote s' = cn_remote s"
    using consuming_pipeline.pipe_read_ok [OF c rd assms(3) refl TrueI] by blast
  then have "rc_inv addr st s'"
    using assms(2) by (auto simp: rc_inv_def under_way_def reading_def buf_fine_def flags_def)
  then show ?thesis using s'(1) by blast
qed

lemma connected_inv:
  assumes "rc_inv addr st s" "cn_pending s = [Connecting]"
  shows "\<exists>s'. rc_step U (Connected ok) s = (Ok (), s') \<and> rc_inv addr st s'"
proof (cases ok)
  case True
  define s1 where "s1 = handlers_update (inner_update (us_active U)) (s\<lparr>cn_pending := [], cn_connected := True\<rparr>)"
  have f1: "handle_fine s1" "buf_fine s1" using assms(1) by (simp_all add: s1_def rc_inv_def handle_fine_def buf_fine_def)
  obtain s2 b where s2: "startReadMessage s1 = (Ok (), s2)" "handle_fine s2" "cn_buf s2 = Some b" "empty_buf b" "refCnt b = 1"
    "cn_connected s2 = cn_connected s1" "cn_stopped s2 = cn_stopped s1" "cn_remote s2 = cn_remote s1" "handlers s2 = handlers s1"
    "cn_pending s2 = cn_pending s1 @ [Reading (int (length (array b)))]"
    using start_read_ok [OF f1] by blast
  have "rc_step U (Connected ok) s = (Ok (), s2)"
    using True assms(2) s2(1) by (simp add: tcp_handleConnected_def pop_pending_def recovery_pipe_def upd_recovery_def
        seqp_def bindp_def modify_run s1_def)
  moreover have "rc_inv addr st s2"
    using s2(2-10) assms(1) by (simp add: s1_def rc_inv_def buf_fine_def under_way_def reading_def)
  ultimately show ?thesis by blast
next
  case False
  define s1 where "s1 = s\<lparr>cn_pending := [], cn_buf := cn_buf s, recvHandle := recvHandle s\<rparr>"
  have "rc_step U (Connected ok) s = pe_inactive (recovery_pipe U) s1"
    using False assms(2) by (simp add: tcp_handleConnected_def pop_pending_def seqp_def bindp_def modify_run s1_def)
  moreover have "\<not> cn_connected s" "buf_fine s1" "handle_fine s1"
    using assms by (simp_all add: rc_inv_def under_way_def s1_def buf_fine_def handle_fine_def)
  ultimately show ?thesis using inactive_inv [OF assms _ s1_def, of U] by auto
qed

lemma resolved_inv:
  assumes "rc_inv addr st s" "cn_pending s = [Resolving]"
  shows "\<exists>s'. rc_step U (Resolved ok) s = (Ok (), s') \<and> rc_inv addr st s'"
proof (cases ok)
  case True
  then show ?thesis using assms
    by (auto simp: tcp_handleResolved_def pop_pending_def seqp_def bindp_def modify_run begin_op_def rc_inv_def under_way_def
        handle_fine_def buf_fine_def)
next
  case False
  define s1 where "s1 = s\<lparr>cn_pending := [], cn_buf := cn_buf s, recvHandle := recvHandle s\<rparr>"
  have "rc_step U (Resolved ok) s = pe_inactive (recovery_pipe U) s1"
    using False assms(2) by (simp add: tcp_handleResolved_def pop_pending_def seqp_def bindp_def modify_run s1_def)
  moreover have "\<not> cn_connected s" "buf_fine s1" "handle_fine s1"
    using assms by (simp_all add: rc_inv_def under_way_def s1_def buf_fine_def handle_fine_def)
  ultimately show ?thesis using inactive_inv [OF assms _ s1_def, of U] by auto
qed

lemma read_failed_inv:
  assumes "rc_inv addr st s" "cn_pending s = [Reading n]"
  shows "\<exists>s'. rc_step U Read_failed s = (Ok (), s') \<and> rc_inv addr st s'"
proof -
  obtain b where b: "reading s" "cn_connected s" "cn_buf s = Some b"
    using assms by (auto simp: rc_inv_def under_way_def reading_def)
  define s1 where "s1 = s\<lparr>cn_connected := False, cn_pending := [], cn_buf := None, recvHandle := None\<rparr>"
  have close: "tcp_close (s\<lparr>cn_pending := []\<rparr>) = (Ok (), s1)"
    using b by (simp add: tcp_close_def ifp_run on_cumulation_def freeBuffer_def seqp_def bindp_def modify_run ret_run s1_def)
  then have "rc_step U Read_failed s = pe_inactive (recovery_pipe U) s1"
    using assms(2) by (simp add: tcp_handleRead_def pop_pending_def seqp_def bindp_def modify_run)
  moreover have "handle_fine s1" using assms(1) by (simp add: rc_inv_def s1_def handle_fine_def)
  ultimately show ?thesis using assms(1)
    by (auto simp: recovery_pipe_def seqp_def bindp_def upd_recovery_def modify_run ifp_run ret_run ar_channelInactive_def
        connectToServerAfterSeconds_def begin_op_def rc_inv_def under_way_def handle_fine_def buf_fine_def s1_def)
qed

lemma expired_inv:
  assumes "rc_inv addr st s" "cn_pending s = [Timer]"
  shows "\<exists>s'. rc_step U Expired s = (Ok (), s') \<and> rc_inv addr st s'"
  using assms
  by (auto simp: pop_pending_def doReconnect_def ar_connect_def tcp_connect_def tcp_close_def seqp_def bindp_def modify_run
      asks_run ifp_run ret_run begin_op_def rc_inv_def under_way_def handle_fine_def buf_fine_def)

lemma stopped_inv:
  assumes "rc_inv addr st s"
  shows "\<exists>s'. rc_step U Stopped s = (Ok (), s') \<and> rc_inv addr True s'"
  using assms
  by (auto simp: ar_stop_def upd_recovery_def connection_stop_def seqp_def bindp_def modify_run rc_inv_def under_way_def
      handle_fine_def buf_fine_def reading_def split: list.splits async_op.splits)

lemma rc_step_inv:
  assumes "steady U" "rc_inv addr st s" "can_happen c s"
  shows "\<exists>s'. rc_step U c s = (Ok (), s') \<and> rc_inv addr (st \<or> c = Stopped) s'"
proof (cases c)
  case (Received bs)
  then show ?thesis using received_inv [OF assms(1,2)] assms(3) by simp
next
  case Read_failed
  then obtain n where "cn_pending s = [Reading n]" using assms(3) by auto
  then show ?thesis using read_failed_inv [OF assms(2)] Read_failed by simp
next
  case Stopped
  then show ?thesis using stopped_inv [OF assms(2)] by simp
qed (use assms connected_inv [OF assms(2)] resolved_inv [OF assms(2)] expired_inv [OF assms(2)] in auto)

text \<open>The start: a connection just made, on which the application calls \<open>connect\<close>.\<close>

definition ar_start :: "recv_allocator \<Rightarrow> (nat \<Rightarrow> byte) \<Rightarrow> 'i \<Rightarrow> string \<times> string \<Rightarrow> unit outcome \<times> 'i recovery connection" where
  "ar_start al junk i addr =
     (case TcpConnection_new al junk (AutorecoveringConnection_new i) False of
        (Ok u, s) \<Rightarrow> ar_connect addr s | r \<Rightarrow> r)"

lemma ar_start_ok:
  assumes "alloc_ok al"
  shows "\<exists>s. ar_start al junk i addr = (Ok (), s) \<and> rc_inv addr False s \<and> cn_pending s = [Resolving]"
proof -
  define s0 where "s0 = \<lparr>cn_connected = False, cn_stopped = False, recvHandle = None, readBufferLen = 0, cn_buf = None,
      cn_alloc = al, cn_junk = junk, cn_remote = ('''', ''''), cn_pending = [], handlers = AutorecoveringConnection_new i\<rparr>"
  have "handle_fine s0" "buf_fine s0" using assms by (simp_all add: s0_def handle_fine_def buf_fine_def)
  then obtain s1 b where s1: "adjustReadBuffer s0 = (Ok (), s1)" "same_conn s1 s0" "handle_fine s1" "cn_buf s1 = Some b"
    "empty_buf b" "refCnt b = 1" using adjust_ok by blast
  have "TcpConnection_new al junk (AutorecoveringConnection_new i) False = (Ok (), s1\<lparr>cn_connected := False\<rparr>)"
    using s1(1) by (simp add: TcpConnection_new_def AbstractConnection_new_def s0_def)
  then show ?thesis using s1(2-6)
    by (simp add: ar_start_def ar_connect_def add_handler_def upd_recovery_def tcp_connect_def tcp_close_def seqp_def bindp_def
        modify_run throw_if_run ifp_run ret_run begin_op_def rc_inv_def under_way_def handle_fine_def buf_fine_def same_conn_def
        s0_def AutorecoveringConnection_new_def)
qed

lemma rc_run_inv: "rc_run U cs s s' \<Longrightarrow> steady U \<Longrightarrow> rc_inv addr st s \<Longrightarrow> rc_inv addr (st \<or> Stopped \<in> set cs) s'"
proof (induction arbitrary: st rule: rc_run.induct)
  case (more c s r s1 cs s2)
  have "rc_inv addr (st \<or> c = Stopped) s1" using rc_step_inv [OF more.prems(1,2) more.hyps(1)] more.hyps(2) by auto
  from more.IH [OF more.prems(1) this] show ?case by (cases "c = Stopped") simp_all
qed simp

lemma rc_run_step: "can_happen c s \<Longrightarrow> rc_run U cs (snd (rc_step U c s)) s' \<Longrightarrow> rc_run U (c # cs) s s'"
  by (rule rc_run.more [OF _ prod.collapse [symmetric]])

section \<open>Properties\<close>

text \<open>
  C25: a connection that recovers does not give up. After every sequence of completions (names that do
  not resolve, refused connects, bytes, failed reads, expired timers, in any order) the next completion is
  handled without an error or undefined behaviour, and unless the application stopped the connection exactly one
  operation is under way: it is connected and reading, or about to connect to the same address again.
\<close>

theorem recovery_never_gives_up:
  assumes "AdaptiveRecvByteBufAllocator_default = Ok al" "steady U" "ar_start al junk i addr = (r, s)"
    and "rc_run U cs s s'" "Stopped \<notin> set cs"
  shows "r = Ok () \<and> (\<exists>op. cn_pending s' = [op] \<and> (cn_connected s' \<longleftrightarrow> (\<exists>n. op = Reading n))) \<and> cn_remote s' = addr \<and>
    (\<forall>c. can_happen c s' \<longrightarrow> fst (rc_step U c s') = Ok ())"
proof -
  have "alloc_ok al" using default_allocator assms(1) by (metis outcome.inject(1))
  then have s: "r = Ok ()" "rc_inv addr False s" using ar_start_ok [of al junk i addr] assms(3) by auto
  have inv: "rc_inv addr False s'" using rc_run_inv [OF assms(4,2) s(2)] assms(5) by simp
  then have "\<exists>op. cn_pending s' = [op] \<and> (cn_connected s' \<longleftrightarrow> (\<exists>n. op = Reading n))"
    by (auto simp: rc_inv_def under_way_def reading_def split: list.splits async_op.splits)
  moreover have "fst (rc_step U c s') = Ok ()" if "can_happen c s'" for c
    using rc_step_inv [OF assms(2) inv that] by auto
  moreover have "cn_remote s' = addr" using inv by (simp add: rc_inv_def)
  ultimately show ?thesis using s(1) by blast
qed

text \<open>An application that reads everything it gets.\<close>

definition reading_application :: "byte list application" where
  "reading_application = \<lparr>
     us_read = (\<lambda>m i. (m\<lparr>hb_base := (hb_base m)\<lparr>readerIdx := writerIdx (hb_base m)\<rparr>\<rparr>, i @ heap_content m, Ok False)),
     us_active = id, us_inactive = id\<rparr>"

lemma reading_steady: "steady reading_application"
  by (auto simp: steady_def reading_application_def takes_all_def)

theorem recovery_never_gives_up_witness:
  "\<exists>al s s'. AdaptiveRecvByteBufAllocator_default = Ok al \<and> ar_start al (\<lambda>_. 0) [] (''a'', ''b'') = (Ok (), s) \<and>
     rc_run reading_application [Resolved False, Expired] s s' \<and> cn_remote s' = (''a'', ''b'') \<and>
     fst (rc_step reading_application (Resolved True) s') = Ok ()"
proof -
  obtain al where al: "AdaptiveRecvByteBufAllocator_default = Ok al" "alloc_ok al" using default_allocator by blast
  obtain s :: "byte list recovery connection"
    where s: "ar_start al (\<lambda>_. 0) [] (''a'', ''b'') = (Ok (), s)" "rc_inv (''a'', ''b'') False s" "cn_pending s = [Resolving]"
    using ar_start_ok [OF al(2), of "\<lambda>_. 0" "[]" "(''a'', ''b'')"] by (elim exE conjE) (rule that)
  define s1 where "s1 = snd (rc_step reading_application (Resolved False) s)"
  define s2 where "s2 = snd (rc_step reading_application Expired s1)"
  have p: "cn_pending s1 = [Timer]" "cn_pending s2 = [Resolving]"
    using s(2,3) by (simp_all add: s2_def s1_def pop_pending_def tcp_handleResolved_def recovery_pipe_def upd_recovery_def
        ar_channelInactive_def connectToServerAfterSeconds_def doReconnect_def ar_connect_def tcp_connect_def tcp_close_def
        seqp_def bindp_def modify_run asks_run ifp_run ret_run begin_op_def rc_inv_def under_way_def)
  have run: "rc_run reading_application [Resolved False, Expired] s s2"
    by (rule rc_run_step, simp add: s(3), fold s1_def, rule rc_run_step, simp add: p(1), fold s2_def) (rule rc_run.none)
  have "cn_remote s2 = (''a'', ''b'') \<and> (\<forall>c. can_happen c s2 \<longrightarrow> fst (rc_step reading_application c s2) = Ok ())"
    using recovery_never_gives_up [OF al(1) reading_steady s(1) run] by simp
  moreover have "can_happen (Resolved True) s2" using p(2) by simp
  ultimately show ?thesis using al(1) s(1) run by blast
qed

end
