(* ===== verification/Spec2Isabelle.thy ===== *)
theory Spec2Isabelle
  imports PooledSlices ThreadCacheSafety FrameDecoder Allocators Bootstrap Writer Executor HashMap SctpSocket Recovery
begin

text \<open>
  CppNioSocket is a C++ network library in the manner of Netty: asynchronous TCP and SCTP connections
  over boost::asio, pipelines of channel handlers, codecs, and byte buffers with a pooling allocator.
  This development models its own logic (everything under src/src/common/buffer and src/src/common/net,
  and the utility classes of src/src/include) and proves what makes each part correct. Where the code
  does not do what it means to, the theorem says exactly what it does.

  \<^bold>\<open>The parts and how they interact.\<close> A connection (TcpConnection, SctpConnection) reads from its socket into
  a buffer of its allocator (UnpooledCharBufAllocator by default), whose size follows the recent reads
  (AdaptiveRecvByteBufAllocator). What was read runs as an event through the handlers of the connection's
  pipeline (DefaultChannelPipeline, AbstractChannelHandlerContext); a decoder among them
  (ByteToMessageDecoder, LengthFieldBasedFrameDecoder) cuts it into frames, which are slices of the
  buffer (PooledSlicedCharBuf and the unpooled slices). Messages run the other way through the pipeline to
  the connection's writer (BoostAsyncWriter). Connections come from an acceptor (AbstractConnectionAcceptor,
  ServerBootstrap) or from a ConnectionFactory, where an AutorecoveringConnection keeps them alive, and run on
  the event reactors of a group (NioEventReactorGroup). A buffer of the pooling allocator
  (PooledCharBufAllocator), which an application may use instead, is a window into a chunk of memory (PoolChunk) of an arena
  (PoolArena), which keeps its chunks in lists by usage (PoolChunkList) and its small elements in pages
  (PoolSubpage). ExecutorService, AsyncObject, ObjectQueue, ConcurrentHashMap and AtomicInteger are the
  classes the applications use for threads.

  \<^bold>\<open>How code is modelled.\<close> Theory Prelude fixes the vocabulary. A function of the source that reads or
  changes state is a \<^emph>\<open>program\<close>, a function from a state to an outcome and a new state. An outcome is a value
  (\<open>Ok\<close>), a C++ exception (\<open>Throw\<close>), a call that never returns (\<open>Hang\<close>) or undefined behaviour (\<open>Undef\<close>):
  an access outside an array or through a null pointer, overlapping \<open>memcpy\<close>, a failed assertion.
  Programs are put together with \<open>bindp\<close>, \<open>seqp\<close>, \<open>doM\<close> and \<open>ifp\<close> in the order of the source's statements.
  A class is a record of its fields. Objects that point to each other live in maps from addresses, where 0
  is the null pointer; a virtual interface is a record of functions (\<open>vtable\<close>, \<open>handler\<close>) and its contract a
  locale. \<open>int\<close> and \<open>long\<close> are integers with every arithmetic result reduced to 32 or 64 bits (\<open>i32\<close>, \<open>i64\<close>),
  bytes and stored values are words. A loop is a structural recursion or a \<open>function\<close> with its termination
  proof; one that may run for ever is a \<open>partial_function\<close> whose \<open>None\<close> becomes \<open>Hang\<close>. Mutual calls through
  handlers are bounded by a number of stack frames (\<open>fire\<close> and \<open>ask\<close> in Channel, \<open>perform\<close>); the theorems
  state how many suffice, as a function of the length of the pipeline. The moves of a chunk along the lists
  of an arena are bounded by the number of lists plus one, a walk along a list by the number of chunks ever
  created, and the theorems on whole arenas show that neither bound is reached.

  \<^bold>\<open>The theories.\<close>

  \<^item> SizeMath (CommUtil.hpp, the size arithmetic of PoolArena.hpp, PoolChunk.hpp, PoolThreadCache.cpp and
    PooledCharBufAllocator.hpp): rounding to powers of two, both logarithms, size classes and their slots,
    the validation of an allocator's geometry.
  \<^item> HeapUtil, CharBuf (HeapCharBufUtil, AbstractCharBuf): big-endian loads and stores, and every index, read,
    write, get, set, skip and discard operation over the virtual methods. The locale \<open>char_buf\<close> states what a
    memory behind the methods promises, \<open>growable_char_buf\<close> adds growth; inside them a buffer is shown to be a
    queue of bytes (\<open>reads\<close>, \<open>appends\<close>) and whole messages to be read back as they were written.
  \<^item> HeapBuf, SlicedBuf, PooledMemory interpret these locales on UnpooledHeapCharBuf, on slices of any buffer
    and on PooledHeapCharBuf over a shared arena.
  \<^item> BuddyTree, Chunk (PoolChunk): the complete binary tree of free depths, in an array, and the runs of pages
    handed out of it. Allocation and release keep the tree exact, so runs never overlap, are refused
    only when no node of the size is free, and \<open>usage\<close> is the share of the bytes that are out.
  \<^item> Links, Subpage, Pool, ChunkList, Arena (PoolSubpage, PoolChunkList, PoolArena and the parts of PoolChunk
    that reach the arena): the operations, with the pools and lists as doubly linked structures.
  \<^item> ChunkLines, PagePools, ArenaInv, ArenaMemory, ArenaPages, ArenaRelease, ArenaLists, ArenaSafety: the
    invariant of a whole arena (\<open>arena_ok\<close>, over the set of regions that are out) and, step by step from one
    page up to \<open>arena_allocate\<close> and \<open>arena_free\<close>, that every operation succeeds and keeps it.
  \<^item> ArenaHistory states this as the contract \<open>region_store\<close> and draws the consequences over every history of
    allocations and releases; ArenaFrame adds what no operation changes.
  \<^item> ThreadCache, ThreadCacheSafety (PoolThreadCache): the queues of released regions beside an arena. Over
    every history of both, no region that is out overlaps another, no call fails, and what was offered is
    handed out again.
  \<^item> PooledBuf, PooledMemory (PooledCharBuf, PooledHeapCharBuf): windows into chunks, their growth through the
    arena and their release; no operation on one buffer changes a byte of another region. PooledSlices
    (AbstractPooledDerivedCharBuf) adds the slices that hold such a buffer: its region goes back with the last
    reference to the buffer or a slice, in whatever order they are released.
  \<^item> Allocators (AbstractCharBufAllocator, UnpooledCharBufAllocator, DefaultChannelConfig): the overloads of an
    allocator and what a connection is configured with.
  \<^item> Decoder, FrameDecoder: cumulation, the decode loop with its exception handling, and length-prefixed
    frames: the same frames come out however the stream is cut into reads.
  \<^item> Pipeline, Channel: the linked list of contexts refines a list of named handlers; events visit the
    inbound handlers in order, requests the outbound handlers backwards.
  \<^item> RecvAlloc, Writer, Connection, Sctp, Recovery, Reactor: the receive buffer allocators, the writer with one
    write in flight, the connections as state machines whose steps are the completions of boost::asio, the
    reconnecting wrapper, reactors and acceptors. Connection relies on its pipeline through the locale
    \<open>consuming_pipeline\<close>, Sctp through \<open>message_pipeline\<close>; both are interpreted on the pipeline of the modelled frame decoder, whose glue
    to the connection's buffer (\<open>frame_pipe\<close>: who reads to the end, who keeps a reference) is written by hand.
  \<^item> Bootstrap (ConnectionFactory, ServerBootstrap, ConnectionListenerPipeline) composes these: what \<open>connect\<close>
    returns, and a server from \<open>bind\<close> to connections that read, each with its reactor, pipeline and handler.
  \<^item> SctpOps, SctpService (boostsctp/sctp_socket_ops.cpp, sctp_reactive_socket_service_base.hpp,
    sctp_reactive_socket_service.hpp, ip/sctp.hpp): the system-call wrappers with their retry loops, and the
    life of a descriptor from open over move and release to close, the start of operations and the
    synchronous receive. The operating system and boost's reactor are parameters. SctpSocket
    (sctp_basic_socket_acceptor.hpp, sctp_basic_stream_socket.hpp) builds an acceptor bound to several addresses,
    all or nothing, and connects a stream socket.
  \<^item> ObjectQueue, Executor, HashMap: the queue refines a list, tasks run once and in order and every future is
    settled, calls of many threads on the map return what one finite map returns.

  \<^bold>\<open>Bounds.\<close> Arenas have \<open>2 ^ p\<close>-byte pages and \<open>2 ^ (p + M)\<close>-byte chunks with \<open>12 \<le> p\<close>, \<open>M \<le> 14\<close> and
  \<open>p + M \<le> 30\<close>: all that the validators of PooledCharBufAllocator accept (its defaults are 13 and 11). Requests
  to an arena have at least one byte, as \<open>heapBuffer\<close> refuses empty ones. Messages are bounded by
  \<open>maxCapacity\<close> and \<open>2 ^ 30\<close> bytes, beyond which the growth loop of the source does not end, which is a theorem
  of its own. Counts of objects stay below \<open>2 ^ 31\<close> where the source keeps them in an \<open>int\<close>.

  \<^bold>\<open>Parameters.\<close> The socket, name resolution, the handlers of the application and the threads that run
  while one waits are arguments of the definitions. Every locale is interpreted on a model of code of the
  repository, and the hypotheses of a theorem are met by a concrete run in its witness.

  \<^bold>\<open>Not modelled.\<close> Locks: an operation that the source runs under a mutex is one step, and the interleaving of
  threads is at the granularity of these steps. Output to \<open>std::cout\<close>. The calls of the thread cache in PoolArena
  and the recycler of PooledHeapCharBuf, which are compiled out (\<open>#if 0\<close>): the histories of ThreadCacheSafety
  make the calls of the cache where that code would. The members of the templates of src/src/include/boostsctp
  that only pass their arguments on to the services or to boost (those of the basic sockets, the acceptor and
  stream socket services, the socket option types), and the connect over a list of endpoints, which does not
  compile. The pipeline of an acceptor beyond its one handler. Start and joining of threads, the run loop of
  boost::asio, socket options and addresses. Test programs and build files. PROJECT.json lists each part.
\<close>

end
